(* ===== verification/Pon_Prelude.thy ===== *)
theory Pon_Prelude
  imports Main "HOL-Library.Word" "HOL-Library.While_Combinator"
begin

text \<open>
  Shared vocabulary of the development: the machine types of the Rust sources, the
  standard-library routines the components call (vector push and pop, \<open>partition_point\<close>,
  \<open>binary_search_by_key\<close>, the bit counting of \<open>u64\<close>), and the generic lemmas on lists and
  words that the component proofs share.

  Conventions.  A Rust \<open>usize\<close> that is an address or a length is a \<open>nat\<close>; where the width
  matters (tags, hashes, bitmaps, packed feedback words, wrapping counters) the value is a
  machine word.  A \<open>Vec\<close> is a list whose last element is the top; \<open>vec_pop\<close> removes it.
\<close>

unbundle bit_operations_syntax

named_theorems gc_simps \<open>definitions and rewrite rules of the collector's data structures\<close>
named_theorems gc_intros \<open>preservation rules of the heap invariant\<close>

type_synonym u8 = "8 word"
type_synonym u16 = "16 word"
type_synonym u32 = "32 word"
type_synonym u64 = "64 word"
type_synonym i64 = "64 word"
type_synonym addr = nat

declare upt_rec_numeral [simp del]

section \<open>Vectors\<close>

definition vec_pop :: "'a list \<Rightarrow> ('a \<times> 'a list) option" where
  "vec_pop xs = (if xs = [] then None else Some (last xs, butlast xs))"

lemma vec_pop_Nil [simp]: "vec_pop [] = None"
  by (simp add: vec_pop_def)

lemma vec_pop_snoc [simp]: "vec_pop (xs @ [x]) = Some (x, xs)"
  by (simp add: vec_pop_def)

lemma vec_pop_SomeD: "vec_pop xs = Some (x, ys) \<Longrightarrow> xs = ys @ [x]"
  by (auto simp: vec_pop_def split: if_splits)

lemma vec_pop_None [simp]: "vec_pop xs = None \<longleftrightarrow> xs = []"
  by (simp add: vec_pop_def)

lemma vec_pop_length: "vec_pop xs = Some (x, ys) \<Longrightarrow> length xs = Suc (length ys)"
  by (drule vec_pop_SomeD) simp

definition insert_at :: "nat \<Rightarrow> 'a \<Rightarrow> 'a list \<Rightarrow> 'a list" where
  "insert_at i x xs = take i xs @ x # drop i xs"

definition remove_at :: "nat \<Rightarrow> 'a list \<Rightarrow> 'a list" where
  "remove_at i xs = take i xs @ drop (Suc i) xs"

lemma set_insert_at [simp]: "set (insert_at i x xs) = insert x (set xs)"
proof -
  have "set (take i xs) \<union> set (drop i xs) = set xs"
    by (metis append_take_drop_id set_append)
  then show ?thesis by (auto simp: insert_at_def)
qed

lemma length_insert_at [simp]: "length (insert_at i x xs) = Suc (length xs)"
  by (simp add: insert_at_def)

lemma distinct_insert_at: "distinct xs \<Longrightarrow> x \<notin> set xs \<Longrightarrow> distinct (insert_at i x xs)"
proof -
  assume d: "distinct xs" and x: "x \<notin> set xs"
  have "distinct (take i xs @ drop i xs)" using d by simp
  moreover have "x \<notin> set (take i xs)" "x \<notin> set (drop i xs)"
    using x by (auto dest: in_set_takeD in_set_dropD)
  ultimately show "distinct (insert_at i x xs)"
    unfolding insert_at_def distinct_append by auto
qed

lemma set_remove_at_distinct:
  assumes "distinct xs" "i < length xs"
  shows "set (remove_at i xs) = set xs - {xs ! i}"
proof -
  have xs: "xs = take i xs @ xs ! i # drop (Suc i) xs"
    using assms(2) by (simp add: id_take_nth_drop)
  have "distinct (take i xs @ xs ! i # drop (Suc i) xs)"
    using assms(1) xs by simp
  then have "xs ! i \<notin> set (take i xs) \<union> set (drop (Suc i) xs)" by auto
  moreover have "set xs = insert (xs ! i) (set (take i xs) \<union> set (drop (Suc i) xs))"
    by (subst xs) auto
  ultimately show ?thesis by (auto simp: remove_at_def)
qed

lemma distinct_remove_at: "distinct xs \<Longrightarrow> distinct (remove_at i xs)"
proof -
  assume d: "distinct xs"
  have "distinct (take i xs @ drop i xs)" using d by simp
  moreover have "set (drop (Suc i) xs) \<subseteq> set (drop i xs)" by (simp add: set_drop_subset_set_drop)
  ultimately show "distinct (remove_at i xs)" using d unfolding remove_at_def distinct_append by auto
qed

lemma remove_at_map: "map f (remove_at i xs) = remove_at i (map f xs)"
  by (simp add: remove_at_def take_map drop_map)

lemma insert_at_map: "map f (insert_at i x xs) = insert_at i (f x) (map f xs)"
  by (simp add: insert_at_def take_map drop_map)

lemma sorted_wrt_remove_at: "sorted_wrt R xs \<Longrightarrow> sorted_wrt R (remove_at i xs)"
proof -
  assume s: "sorted_wrt R xs"
  have "sorted_wrt R (take i xs @ drop i xs)" using s by simp
  then have "\<forall>x \<in> set (take i xs). \<forall>y \<in> set (drop i xs). R x y"
    unfolding sorted_wrt_append by blast
  moreover have "set (drop (Suc i) xs) \<subseteq> set (drop i xs)"
    by (simp add: set_drop_subset_set_drop)
  ultimately show ?thesis
    using s by (auto simp: remove_at_def sorted_wrt_append sorted_wrt_take sorted_wrt_drop)
qed

definition swap_remove :: "nat \<Rightarrow> 'a list \<Rightarrow> 'a list" where
  "swap_remove i xs = (if Suc i = length xs then butlast xs else (butlast xs)[i := last xs])"

definition position_of :: "('a \<Rightarrow> bool) \<Rightarrow> 'a list \<Rightarrow> nat option" where
  "position_of p xs = (let i = length (takeWhile (\<lambda>x. \<not> p x) xs) in if i < length xs then Some i else None)"

lemma set_map_filter: "set (List.map_filter f xs) = {y. \<exists>x \<in> set xs. f x = Some y}"
  by (induction xs) (auto simp: List.map_filter_simps split: option.splits)

lemma set_enumerate_nth: "set (enumerate 0 xs) = (\<lambda>i. (i, xs ! i)) ` {..<length xs}"
  by (force simp: in_set_enumerate_eq)

section \<open>Searching sorted vectors\<close>

text \<open>
  \<open>partition_point\<close> of a slice, as the bisection the standard library runs: the search
  interval is \<open>[lo, lo + sz)\<close> and halves in each round.
\<close>

function bisect :: "('a \<Rightarrow> bool) \<Rightarrow> 'a list \<Rightarrow> nat \<Rightarrow> nat \<Rightarrow> nat" where
  "bisect p xs lo sz =
     (if sz = 0 then lo
      else let half = sz div 2; mid = lo + half in
        if p (xs ! mid) then bisect p xs (Suc mid) (sz - Suc half)
        else bisect p xs lo half)"
  by pat_completeness auto
termination
  by (relation "measure (\<lambda>(p, xs, lo, sz). sz)") auto

declare bisect.simps [simp del]

definition partition_point :: "('a \<Rightarrow> bool) \<Rightarrow> 'a list \<Rightarrow> nat" where
  "partition_point p xs = bisect p xs 0 (length xs)"

definition partitioned :: "('a \<Rightarrow> bool) \<Rightarrow> 'a list \<Rightarrow> bool" where
  "partitioned p xs \<longleftrightarrow> (\<forall>i j. i < j \<and> j < length xs \<and> p (xs ! j) \<longrightarrow> p (xs ! i))"

lemma bisect_partitioned:
  assumes "partitioned p xs" "lo + sz \<le> length xs"
    and "\<forall>i < lo. p (xs ! i)" "\<forall>i. lo + sz \<le> i \<and> i < length xs \<longrightarrow> \<not> p (xs ! i)"
  shows "bisect p xs lo sz \<le> length xs \<and> (\<forall>i < length xs. p (xs ! i) \<longleftrightarrow> i < bisect p xs lo sz)"
  using assms
proof (induction p xs lo sz rule: bisect.induct)
  case (1 p xs lo sz)
  let ?half = "sz div 2"
  let ?mid = "lo + ?half"
  show ?case
  proof (cases "sz = 0")
    case True
    then have b: "bisect p xs lo sz = lo" by (simp add: bisect.simps)
    show ?thesis using "1.prems" True unfolding b by (auto simp: not_less)
  next
    case False
    then have mid: "?mid < length xs" using "1.prems"(2) by linarith
    show ?thesis
    proof (cases "p (xs ! ?mid)")
      case True
      have below: "\<forall>i < Suc ?mid. p (xs ! i)"
        using "1.prems"(1) True mid unfolding partitioned_def
        by (metis less_antisym)
      have "bisect p xs lo sz = bisect p xs (Suc ?mid) (sz - Suc ?half)"
        using False True by (simp add: bisect.simps [of p xs lo sz] Let_def)
      moreover have "Suc ?mid + (sz - Suc ?half) = lo + sz" using False by linarith
      ultimately show ?thesis
        using "1.IH"(1) [OF False refl refl True] "1.prems" below by simp
    next
      case pf: False
      have above: "\<forall>i. ?mid \<le> i \<and> i < length xs \<longrightarrow> \<not> p (xs ! i)"
        using "1.prems"(1) pf unfolding partitioned_def by (metis le_neq_implies_less)
      have "bisect p xs lo sz = bisect p xs lo ?half"
        using False pf by (simp add: bisect.simps [of p xs lo sz] Let_def)
      then show ?thesis
        using "1.IH"(2) [OF False refl refl pf] "1.prems" above mid by simp
    qed
  qed
qed

lemma partition_point_spec:
  assumes "partitioned p xs"
  shows "partition_point p xs \<le> length xs"
    and "i < length xs \<Longrightarrow> p (xs ! i) \<longleftrightarrow> i < partition_point p xs"
proof -
  have *: "bisect p xs 0 (length xs) \<le> length xs \<and>
      (\<forall>i < length xs. p (xs ! i) \<longleftrightarrow> i < bisect p xs 0 (length xs))"
    by (rule bisect_partitioned [OF assms]) auto
  then show "partition_point p xs \<le> length xs" by (simp add: partition_point_def)
  show "i < length xs \<Longrightarrow> p (xs ! i) \<longleftrightarrow> i < partition_point p xs"
    using * by (simp add: partition_point_def)
qed

lemma partitioned_sorted:
  assumes "sorted (map f xs)" "\<And>a b. a \<le> b \<Longrightarrow> q b \<Longrightarrow> q a"
  shows "partitioned (\<lambda>x. q (f x)) xs"
  unfolding partitioned_def
proof (intro allI impI)
  fix i j assume *: "i < j \<and> j < length xs \<and> q (f (xs ! j))"
  then have "map f xs ! i \<le> map f xs ! j"
    using assms(1) by (intro sorted_nth_mono) auto
  with * show "q (f (xs ! i))" using assms(2) by auto
qed

text \<open>
  \<open>binary_search_by_key\<close>: \<open>Some i\<close> stands for \<open>Ok(i)\<close>, \<open>None\<close> for \<open>Err(_)\<close>.  Where the
  keys are distinct (all uses here) the position is unique.
\<close>

definition binary_search_by_key :: "nat \<Rightarrow> ('a \<Rightarrow> nat) \<Rightarrow> 'a list \<Rightarrow> nat option" where
  "binary_search_by_key k f xs =
     (let i = partition_point (\<lambda>x. f x < k) xs in
      if i < length xs \<and> f (xs ! i) = k then Some i else None)"

lemma binary_search_Some:
  assumes "binary_search_by_key k f xs = Some i"
  shows "i < length xs" "f (xs ! i) = k"
  using assms by (auto simp: binary_search_by_key_def Let_def split: if_splits)

lemma binary_search_None:
  assumes "binary_search_by_key k f xs = None" "sorted (map f xs)"
  shows "k \<notin> f ` set xs"
proof
  assume "k \<in> f ` set xs"
  then obtain j where j: "j < length xs" "f (xs ! j) = k" by (auto simp: in_set_conv_nth)
  let ?i = "partition_point (\<lambda>x. f x < k) xs"
  have part: "partitioned (\<lambda>x. f x < k) xs"
    by (rule partitioned_sorted [OF assms(2)]) auto
  have "\<not> f (xs ! j) < k" using j by simp
  then have ij: "?i \<le> j" using partition_point_spec(2) [OF part j(1)] by simp
  then have i: "?i < length xs" using j by simp
  then have "\<not> f (xs ! ?i) < k" using partition_point_spec(2) [OF part i] by simp
  moreover have "f (xs ! ?i) \<le> f (xs ! j)"
    using assms(2) ij j(1) by (metis i length_map nth_map sorted_nth_mono)
  ultimately have "f (xs ! ?i) = k" using j by simp
  with i assms(1) show False by (simp add: binary_search_by_key_def Let_def)
qed

lemma sorted_insert_at:
  assumes "sorted (map f xs)" "\<forall>y \<in> set (take i xs). f y \<le> f x" "\<forall>y \<in> set (drop i xs). f x \<le> f y"
  shows "sorted (map f (insert_at i x xs))"
proof -
  have "sorted (map f (take i xs) @ map f (drop i xs))"
    using assms(1) by (simp only: map_append [symmetric] append_take_drop_id)
  then have "sorted (map f (take i xs))" "sorted (map f (drop i xs))"
    "\<forall>y \<in> set (take i xs). \<forall>z \<in> set (drop i xs). f y \<le> f z"
    by (auto simp: sorted_append)
  then show ?thesis
    using assms(2,3) by (simp add: insert_at_def sorted_append)
qed

lemma insert_at_partition_sorted:
  assumes "sorted (map f xs)"
  shows "sorted (map f (insert_at (partition_point (\<lambda>y. f y < f x) xs) x xs))"
proof -
  define i where "i = partition_point (\<lambda>y. f y < f x) xs"
  have part: "partitioned (\<lambda>y. f y < f x) xs"
    by (rule partitioned_sorted [OF assms]) auto
  have i: "i \<le> length xs" "\<And>j. j < length xs \<Longrightarrow> f (xs ! j) < f x \<longleftrightarrow> j < i"
    using partition_point_spec [OF part] by (auto simp: i_def)
  have lo: "\<forall>y \<in> set (take i xs). f y \<le> f x"
  proof
    fix y assume "y \<in> set (take i xs)"
    then obtain j where j: "j < i" "y = xs ! j" by (auto simp: in_set_conv_nth)
    then have "f y < f x" using i by simp
    then show "f y \<le> f x" by simp
  qed
  have hi: "\<forall>y \<in> set (drop i xs). f x \<le> f y"
  proof
    fix y assume "y \<in> set (drop i xs)"
    then obtain j where j: "i + j < length xs" "y = xs ! (i + j)"
      by (metis add.commute in_set_conv_nth length_drop less_diff_conv nth_drop i(1))
    then show "f x \<le> f y" using i(2) [OF j(1)] by simp
  qed
  show ?thesis
    using sorted_insert_at [OF assms lo hi] by (simp add: i_def)
qed

section \<open>Counting and enumerating the bits of a \<open>u64\<close>\<close>

definition trailing_zeros :: "u64 \<Rightarrow> nat" where
  "trailing_zeros w = length (takeWhile (\<lambda>n. \<not> bit w n) [0..<64])"

definition count_ones :: "u64 \<Rightarrow> nat" where
  "count_ones w = length (filter (bit w) [0..<64])"

lemma bit_u64_imp_lt: "bit (w :: u64) n \<Longrightarrow> n < 64"
  using bit_imp_le_length by fastforce

lemma u64_eq_0_iff: "w = (0 :: u64) \<longleftrightarrow> (\<forall>n < 64. \<not> bit w n)"
  by (auto simp: bit_eq_iff dest: bit_u64_imp_lt)

lemma length_takeWhile_upt:
  assumes "k < n" "P k" "\<forall>i < k. \<not> P i"
  shows "length (takeWhile (\<lambda>i. \<not> P i) [0..<n]) = k"
proof -
  have "[0..<n] = [0..<k] @ k # [Suc k..<n]"
    using assms(1) by (metis le_add1 less_imp_le_nat plus_nat.add_0 upt_add_eq_append upt_conv_Cons le_add_diff_inverse)
  moreover have "takeWhile (\<lambda>i. \<not> P i) [0..<k] = [0..<k]"
    using assms(3) by (simp add: takeWhile_eq_all_conv)
  ultimately show ?thesis using assms(2,3) by (simp add: takeWhile_append)
qed

lemma trailing_zeros_bit:
  assumes "w \<noteq> 0"
  shows "bit w (trailing_zeros w)" "\<And>i. i < trailing_zeros w \<Longrightarrow> \<not> bit w i" "trailing_zeros w < 64"
proof -
  have "\<exists>n. bit w n" using assms by (auto simp: u64_eq_0_iff)
  then obtain k where k: "bit w k" "\<forall>i < k. \<not> bit w i" by (metis exists_least_iff)
  then have "k < 64" by (auto dest: bit_u64_imp_lt)
  then have "trailing_zeros w = k"
    unfolding trailing_zeros_def using k by (rule length_takeWhile_upt)
  with k \<open>k < 64\<close>
  show "bit w (trailing_zeros w)" "\<And>i. i < trailing_zeros w \<Longrightarrow> \<not> bit w i" "trailing_zeros w < 64"
    by auto
qed

lemma count_ones_card: "count_ones w = card {n. bit w n}"
proof -
  have "count_ones w = card (set (filter (bit w) [0..<64]))"
    unfolding count_ones_def by (rule distinct_card [symmetric]) simp
  also have "set (filter (bit w) [0..<64]) = {n. bit w n}"
    by (auto dest: bit_u64_imp_lt)
  finally show ?thesis .
qed

text \<open>
  Clearing the lowest set bit, \<open>dead &= dead - 1\<close>, and the loop that visits the set bits of
  a word in ascending order with it.
\<close>

lemma lowest_bit_decomp:
  fixes u :: nat
  assumes "bit u k" "\<forall>i < k. \<not> bit u i"
  shows "\<exists>m. u = 2 ^ k * (2 * m + 1)"
proof -
  have "take_bit k u = 0"
    by (rule bit_eqI) (use assms(2) in \<open>simp add: bit_take_bit_iff\<close>)
  then have "u = push_bit k (drop_bit k u)"
    by (metis add.right_neutral bits_ident)
  moreover have "odd (drop_bit k u)"
    using assms(1) by (simp add: bit_iff_odd_drop_bit)
  ultimately show ?thesis
    by (metis oddE push_bit_eq_mult mult.commute)
qed

lemma bit_pred_lowest:
  fixes u :: nat
  assumes u: "u = 2 ^ k * (2 * m + 1)"
  shows "bit u n \<and> bit (u - 1) n \<longleftrightarrow> bit u n \<and> n \<noteq> k"
proof -
  have pred: "u - 1 = 2 ^ Suc k * m + (2 ^ k - 1)"
    using u by (simp add: algebra_simps)
  have lt: "(2 :: nat) ^ k - 1 < 2 ^ Suc k"
    by (metis diff_le_self le_less_trans lessI one_less_numeral_iff power_strict_increasing_iff semiring_norm(76))
  consider "n < k" | "n = k" | "n > k" by linarith
  then show ?thesis
  proof cases
    case 1
    then have "2 ^ Suc n dvd u"
      unfolding u by (meson Suc_leI dvd_mult2 le_imp_power_dvd)
    then obtain c where "u = 2 ^ n * (2 * c)" by (auto elim!: dvdE simp: mult.assoc)
    then have "\<not> bit u n" by (simp add: bit_iff_odd)
    then show ?thesis by simp
  next
    case 2
    have "(2 ^ k - 1 + 2 ^ k * (2 * m)) div 2 ^ k = 2 * m + (2 ^ k - 1) div (2 ^ k :: nat)"
      by (rule div_mult_self2) simp
    then have "(u - 1) div 2 ^ k = 2 * m"
      unfolding pred by (simp add: ac_simps)
    then show ?thesis using 2 by (simp add: bit_iff_odd)
  next
    case 3
    then obtain d where d: "n = Suc k + d" by (metis add_Suc_right add_Suc less_iff_Suc_add)
    have "(2 ^ k - 1 + 2 ^ Suc k * m) div 2 ^ Suc k = m + (2 ^ k - 1) div (2 ^ Suc k :: nat)"
      by (rule div_mult_self2) simp
    then have "(u - 1) div 2 ^ Suc k = m"
      unfolding pred using lt by (simp only: add.commute div_less add_0_right)
    moreover have "u div 2 ^ Suc k = m"
    proof -
      have "(2 ^ k + 2 ^ Suc k * m) div 2 ^ Suc k = m + 2 ^ k div (2 ^ Suc k :: nat)"
        by (rule div_mult_self2) simp
      moreover have "u = 2 ^ k + 2 ^ Suc k * m" unfolding u by (simp add: algebra_simps)
      ultimately show ?thesis by (simp only: div_less) simp
    qed
    ultimately have "(u - 1) div 2 ^ n = u div 2 ^ n"
      unfolding d by (simp only: power_add div_mult2_eq)
    then show ?thesis using 3 by (simp add: bit_iff_odd)
  qed
qed

lemma clear_lowest_bit:
  fixes w :: u64
  assumes "w \<noteq> 0"
  shows "bit (w AND (w - 1)) n \<longleftrightarrow> bit w n \<and> n \<noteq> trailing_zeros w"
proof -
  let ?k = "trailing_zeros w"
  have "bit (unat w) ?k" "\<forall>i < ?k. \<not> bit (unat w) i"
    using trailing_zeros_bit [OF assms] by (auto simp: bit_unsigned_iff)
  then obtain m where "unat w = 2 ^ ?k * (2 * m + 1)" using lowest_bit_decomp by blast
  then have "bit (unat w) n \<and> bit (unat w - 1) n \<longleftrightarrow> bit (unat w) n \<and> n \<noteq> ?k"
    by (rule bit_pred_lowest)
  moreover have "unat (w - 1) = unat w - 1"
    using assms by (simp add: unat_minus_one)
  ultimately show ?thesis
    by (metis bit_and_iff bit_unsigned_iff possible_bit_nat)
qed

function bit_positions :: "u64 \<Rightarrow> nat list" where
  "bit_positions w = (if w = 0 then [] else trailing_zeros w # bit_positions (w AND (w - 1)))"
  by pat_completeness auto
termination
proof (relation "measure (\<lambda>w. card {n. bit w n})")
  fix w :: u64 assume "w \<noteq> 0"
  then have "{n. bit (w AND (w - 1)) n} \<subset> {n. bit w n}"
    using trailing_zeros_bit(1) by (auto simp: clear_lowest_bit)
  then show "(w AND (w - 1), w) \<in> measure (\<lambda>w. card {n. bit w n})"
    by (auto intro!: psubset_card_mono)
qed simp

declare bit_positions.simps [simp del]

lemma filter_upt_least:
  assumes "k < n" "P k" "\<forall>i < k. \<not> P i"
  shows "filter P [0..<n] = k # filter (\<lambda>i. P i \<and> i \<noteq> k) [0..<n]"
proof -
  have n: "[0..<n] = [0..<k] @ k # [Suc k..<n]"
    using assms(1) by (metis le_add1 less_imp_le_nat plus_nat.add_0 upt_add_eq_append upt_conv_Cons le_add_diff_inverse)
  have "filter P [0..<k] = []" "filter (\<lambda>i. P i \<and> i \<noteq> k) [0..<k] = []"
    using assms(3) by (auto simp: filter_empty_conv)
  moreover have "filter (\<lambda>i. P i \<and> i \<noteq> k) [Suc k..<n] = filter P [Suc k..<n]"
    by (rule filter_cong) auto
  ultimately show ?thesis using assms(2) unfolding n by simp
qed

lemma bit_positions_eq: "bit_positions w = filter (bit w) [0..<64]"
proof (induction w rule: bit_positions.induct)
  case (1 w)
  show ?case
  proof (cases "w = 0")
    case True
    then show ?thesis by (simp add: bit_positions.simps)
  next
    case False
    have "filter (bit w) [0..<64] =
        trailing_zeros w # filter (\<lambda>i. bit w i \<and> i \<noteq> trailing_zeros w) [0..<64]"
      using trailing_zeros_bit [OF False] by (intro filter_upt_least) auto
    also have "(\<lambda>i. bit w i \<and> i \<noteq> trailing_zeros w) = bit (w AND (w - 1))"
      using False by (auto simp: fun_eq_iff clear_lowest_bit)
    finally show ?thesis using 1 False by (simp add: bit_positions.simps)
  qed
qed

lemma set_bit_positions: "set (bit_positions w) = {n. bit w n}"
  by (auto simp: bit_positions_eq dest: bit_u64_imp_lt)

section \<open>Computations that may fail or not end\<close>

text \<open>\<open>None\<close> is a computation that does not end, \<open>Some (Inl e)\<close> one that panics.\<close>

definition and_then :: "('e + 'a) option \<Rightarrow> ('a \<Rightarrow> ('e + 'b) option) \<Rightarrow> ('e + 'b) option" where
  "and_then m f = (case m of None \<Rightarrow> None | Some (Inl e) \<Rightarrow> Some (Inl e) | Some (Inr a) \<Rightarrow> f a)"

lemma and_then_simps [simp]:
  "and_then (Some (Inr a)) f = f a" "and_then (Some (Inl e)) f = Some (Inl e)" "and_then None f = None"
  by (simp_all add: and_then_def)

text \<open>The \<open>?\<close> operator on a \<open>Result\<close>.\<close>

definition bind_ok :: "'e + 'a \<Rightarrow> ('a \<Rightarrow> 'e + 'b) \<Rightarrow> 'e + 'b" where
  "bind_ok m f = (case m of Inl e \<Rightarrow> Inl e | Inr a \<Rightarrow> f a)"

lemma bind_ok_simps [simp]:
  "bind_ok (Inr a) f = f a" "bind_ok (Inl e) f = Inl e"
  by (simp_all add: bind_ok_def)

lemma bind_ok_Inr_iff: "bind_ok m f = Inr b \<longleftrightarrow> (\<exists>a. m = Inr a \<and> f a = Inr b)"
  by (cases m) simp_all

lemma bind_ok_Inl_iff: "bind_ok m f = Inl e \<longleftrightarrow> m = Inl e \<or> (\<exists>a. m = Inr a \<and> f a = Inl e)"
  by (cases m) auto

section \<open>Loops that may fail\<close>

text \<open>
  A loop whose body can panic: it stops at the first error, or when the state is idle.  The value
  \<open>None\<close> is a loop that does not end.  The locale states what a client has to show of the body
  for the loop to end without an error.
\<close>

definition run_loop :: "('s \<Rightarrow> bool) \<Rightarrow> ('s \<Rightarrow> 'e + 's) \<Rightarrow> 's \<Rightarrow> ('e + 's) option" where
  "run_loop idle step s =
     while_option (\<lambda>r. case r of Inl e \<Rightarrow> False | Inr t \<Rightarrow> \<not> idle t)
       (\<lambda>r. case r of Inl e \<Rightarrow> Inl e | Inr t \<Rightarrow> step t) (Inr s)"

lemma run_loop_idle: "idle s \<Longrightarrow> run_loop idle step s = Some (Inr s)"
  unfolding run_loop_def by (subst while_option_unfold) simp

lemma run_loop_error: "\<not> idle s \<Longrightarrow> step s = Inl e \<Longrightarrow> run_loop idle step s = Some (Inl e)"
  unfolding run_loop_def by (subst while_option_unfold, simp) (subst while_option_unfold, simp)

lemma run_loop_step: "\<not> idle s \<Longrightarrow> step s = Inr t \<Longrightarrow> run_loop idle step s = run_loop idle step t"
  unfolding run_loop_def by (subst (1) while_option_unfold) simp

text \<open>A loop whose body may fail ends, in an error or in an idle state, when the weight falls.\<close>

locale ending_loop =
  fixes inv :: "'s \<Rightarrow> bool"
    and idle :: "'s \<Rightarrow> bool"
    and step :: "'s \<Rightarrow> 'e + 's"
    and weight :: "'s \<Rightarrow> nat"
  assumes descent: "inv s \<Longrightarrow> \<not> idle s \<Longrightarrow> step s = Inr t \<Longrightarrow> inv t \<and> weight t < weight s"
begin

lemma run_ends: "inv s \<Longrightarrow> \<exists>r. run_loop idle step s = Some r \<and> (\<forall>t. r = Inr t \<longrightarrow> inv t \<and> idle t)"
proof (induction "weight s" arbitrary: s rule: less_induct)
  case less
  show ?case
  proof (cases "idle s")
    case True
    then show ?thesis using less.prems by (simp add: run_loop_idle)
  next
    case False
    show ?thesis
    proof (cases "step s")
      case (Inl e)
      then show ?thesis using run_loop_error [of idle s step e, OF False] by auto
    next
      case (Inr t)
      then show ?thesis
        using less.hyps [of t] descent [OF less.prems False Inr] run_loop_step [of idle s step t, OF False Inr] by simp
    qed
  qed
qed

end

text \<open>A loop whose body never fails ends in an idle state.\<close>

locale total_loop =
  fixes inv :: "'s \<Rightarrow> bool"
    and idle :: "'s \<Rightarrow> bool"
    and step :: "'s \<Rightarrow> 'e + 's"
    and weight :: "'s \<Rightarrow> nat"
  assumes progress: "inv s \<Longrightarrow> \<not> idle s \<Longrightarrow> \<exists>t. step s = Inr t \<and> inv t \<and> weight t < weight s"

sublocale total_loop \<subseteq> ending_loop inv idle step weight
  by unfold_locales (use progress in fastforce)

context total_loop begin

lemma run_total: "inv s \<Longrightarrow> \<exists>t. run_loop idle step s = Some (Inr t) \<and> inv t \<and> idle t"
proof (induction "weight s" arbitrary: s rule: less_induct)
  case less
  show ?case
  proof (cases "idle s")
    case False
    then obtain t where t: "step s = Inr t" "inv t" "weight t < weight s" using progress less.prems by blast
    then show ?thesis using less.hyps [OF t(3,2)] run_loop_step [of idle s step t, OF False t(1)] by simp
  qed (use less.prems in \<open>simp add: run_loop_idle\<close>)
qed

end

section \<open>Reachability\<close>

text \<open>Reachability in a graph given by its successor function.\<close>

definition reach :: "('n \<Rightarrow> 'n set) \<Rightarrow> 'n set \<Rightarrow> 'n set" where
  "reach succ R = {y. \<exists>x \<in> R. (x, y) \<in> {(a, b). b \<in> succ a}\<^sup>*}"

lemma reach_base: "R \<subseteq> reach succ R"
  by (auto simp: reach_def)

lemma reach_succ: "x \<in> reach succ R \<Longrightarrow> succ x \<subseteq> reach succ R"
  unfolding reach_def by (auto intro: rtrancl_into_rtrancl)

lemma reach_least:
  assumes "R \<subseteq> M" "\<And>x. x \<in> M \<Longrightarrow> succ x \<subseteq> M"
  shows "reach succ R \<subseteq> M"
proof
  fix y assume "y \<in> reach succ R"
  then obtain x where "x \<in> R" "(x, y) \<in> {(a, b). b \<in> succ a}\<^sup>*" by (auto simp: reach_def)
  from this(2,1) show "y \<in> M"
    by (induction rule: rtrancl_induct) (use assms in auto)
qed

lemma reach_mono: "R \<subseteq> R' \<Longrightarrow> reach succ R \<subseteq> reach succ R'"
  by (auto simp: reach_def)

section \<open>Objects that refine a specification\<close>

text \<open>
  A stateful object runs a sequence of commands; its specification accepts the results it gave when
  every command either failed and changed nothing, or did what the specification says.
\<close>

fun session :: "('c \<Rightarrow> 's \<Rightarrow> 'r \<times> 's) \<Rightarrow> 'c list \<Rightarrow> 's \<Rightarrow> 'r list \<times> 's" where
  "session step [] s = ([], s)"
| "session step (c # cs) s = (let (r, s1) = step c s; (rs, s2) = session step cs s1 in (r # rs, s2))"

fun accepts :: "('c \<Rightarrow> 'a \<Rightarrow> ('r \<times> 'a) option) \<Rightarrow> ('r \<Rightarrow> bool) \<Rightarrow> 'c list \<Rightarrow> 'r list \<Rightarrow> 'a \<Rightarrow> 'a \<Rightarrow> bool" where
  "accepts spec failed [] [] a b \<longleftrightarrow> a = b"
| "accepts spec failed (c # cs) (r # rs) a b \<longleftrightarrow>
     (if failed r then accepts spec failed cs rs a b
      else case spec c a of Some (r', a') \<Rightarrow> r' = r \<and> accepts spec failed cs rs a' b | None \<Rightarrow> False)"
| "accepts spec failed _ _ a b \<longleftrightarrow> False"

text \<open>The commands of a session that meet their preconditions in the state they find.\<close>

fun session_ok :: "('c \<Rightarrow> 's \<Rightarrow> 'r \<times> 's) \<Rightarrow> ('c \<Rightarrow> 's \<Rightarrow> bool) \<Rightarrow> 'c list \<Rightarrow> 's \<Rightarrow> bool" where
  "session_ok step pre [] s \<longleftrightarrow> True"
| "session_ok step pre (c # cs) s \<longleftrightarrow> pre c s \<and> session_ok step pre cs (snd (step c s))"

locale refined_object =
  fixes inv :: "'s \<Rightarrow> bool" and abs :: "'s \<Rightarrow> 'a" and step :: "'c \<Rightarrow> 's \<Rightarrow> 'r \<times> 's"
    and spec :: "'c \<Rightarrow> 'a \<Rightarrow> ('r \<times> 'a) option" and failed :: "'r \<Rightarrow> bool" and pre :: "'c \<Rightarrow> 's \<Rightarrow> bool"
  assumes step_inv: "inv s \<Longrightarrow> pre c s \<Longrightarrow> inv (snd (step c s))"
    and step_ok: "inv s \<Longrightarrow> pre c s \<Longrightarrow> \<not> failed (fst (step c s)) \<Longrightarrow>
      spec c (abs s) = Some (fst (step c s), abs (snd (step c s)))"
    and step_failed: "inv s \<Longrightarrow> pre c s \<Longrightarrow> failed (fst (step c s)) \<Longrightarrow> abs (snd (step c s)) = abs s"
begin

lemma session_refines:
  assumes "inv s" "session_ok step pre cs s"
  shows "inv (snd (session step cs s)) \<and>
    accepts spec failed cs (fst (session step cs s)) (abs s) (abs (snd (session step cs s)))"
  using assms
proof (induction cs arbitrary: s)
  case (Cons c cs)
  then have "inv (snd (step c s))" "session_ok step pre cs (snd (step c s))" using step_inv by auto
  with Cons.prems Cons.IH [of "snd (step c s)"] step_ok [of s c] step_failed [of s c] show ?case
    by (auto simp: case_prod_unfold Let_def)
qed simp

end

end
