(* ===== verification/Pon_Ir.thy ===== *)
theory Pon_Ir
  imports Pon_Prelude
begin

text \<open>
  The control-flow intermediate representation of \<^verbatim>\<open>pon-ir/src/ir.rs\<close> and the type lattice of
  \<^verbatim>\<open>pon-ir/src/types.rs\<close>.  The index newtypes over \<open>u32\<close> are natural numbers; floating-point constants
  are their bit patterns.
\<close>

section \<open>The type lattice\<close>

datatype ty = TyBottom | TyInt | TyIntI64 | TyFloat | TyBool | TyStr | ExactClass nat | TyObject

fun ty_join :: "ty \<Rightarrow> ty \<Rightarrow> ty" where
  "ty_join TyBottom t = t"
| "ty_join t TyBottom = t"
| "ty_join TyObject _ = TyObject"
| "ty_join _ TyObject = TyObject"
| "ty_join TyIntI64 TyInt = TyInt"
| "ty_join TyInt TyIntI64 = TyInt"
| "ty_join l r = (if l = r then l else TyObject)"

definition is_unboxable :: "ty \<Rightarrow> bool" where
  "is_unboxable t \<longleftrightarrow> t = TyIntI64 \<or> t = TyFloat"

instantiation ty :: "{bounded_semilattice_sup_bot, order_top}"
begin

definition sup_ty :: "ty \<Rightarrow> ty \<Rightarrow> ty" where "sup_ty = ty_join"
definition bot_ty :: ty where "bot_ty = TyBottom"
definition top_ty :: ty where "top_ty = TyObject"
definition less_eq_ty :: "ty \<Rightarrow> ty \<Rightarrow> bool" where "less_eq_ty s t \<longleftrightarrow> ty_join s t = t"
definition less_ty :: "ty \<Rightarrow> ty \<Rightarrow> bool" where "less_ty s t \<longleftrightarrow> ty_join s t = t \<and> s \<noteq> t"

instance
proof
  fix x y z :: ty
  show "x < y \<longleftrightarrow> x \<le> y \<and> \<not> y \<le> x"
    by (cases x; cases y) (auto simp: less_ty_def less_eq_ty_def)
  show "x \<le> x" by (cases x) (auto simp: less_eq_ty_def)
  show "x \<le> y \<Longrightarrow> y \<le> z \<Longrightarrow> x \<le> z"
    by (cases x; cases y; cases z) (auto simp: less_eq_ty_def split: if_splits)
  show "x \<le> y \<Longrightarrow> y \<le> x \<Longrightarrow> x = y"
    by (cases x; cases y) (auto simp: less_eq_ty_def split: if_splits)
  show "x \<le> sup x y" "y \<le> sup x y"
    by (cases x; cases y; auto simp: less_eq_ty_def sup_ty_def)+
  show "y \<le> x \<Longrightarrow> z \<le> x \<Longrightarrow> sup y z \<le> x"
    by (cases x; cases y; cases z) (auto simp: less_eq_ty_def sup_ty_def split: if_splits)
  show "bot \<le> x" by (simp add: less_eq_ty_def bot_ty_def)
  show "x \<le> top" by (cases x) (auto simp: less_eq_ty_def top_ty_def)
qed

end

section \<open>Identifiers, constants and operators\<close>

type_synonym value_id = nat
type_synonym block_id = nat
type_synonym name_id = nat
type_synonym local_id = nat
type_synonym cell_id = nat
type_synonym const_id = nat
type_synonym func_id = nat

datatype py_const =
    CInt int | CBigInt string | CFloat u64 | CComplex u64 u64 | CStr string | CBytes "u8 list" | CBool bool
  | CNone | CEllipsis | CNotImplemented

datatype bin_op = Add | Sub | Mul | MatMul | Div | FloorDiv | Mod | Pow | LShift | RShift | BAnd | BOr | BXor

datatype un_op = Neg | Pos | Invert

datatype cmp_op = Eq | Ne | Lt | Le | Gt | Ge

datatype fstr_part = FLiteral const_id | FInterp value_id u8 "value_id option"

datatype tstr_part = TLiteral const_id | TInterp value_id string u8 "value_id option"

section \<open>Instructions\<close>

datatype (plugins only:) inst_kind =
    Const py_const
  | ConstRef const_id
  | BuildTuple "value_id list"
  | BuildList "value_id list"
  | BuildSet "value_id list"
  | BuildMap "(value_id \<times> value_id) list"
  | BuildSlice value_id value_id value_id
  | BuildString "fstr_part list"
  | BuildTemplate "tstr_part list"
  | ListAppend value_id value_id
  | SetAdd value_id value_id
  | MapInsert value_id value_id value_id
  | ListExtend value_id value_id
  | ListToTuple value_id
  | SetUpdate value_id value_id
  | DictMerge value_id value_id
  | DictMergeUnique value_id value_id
  | LoadLocal local_id
  | StoreLocal local_id value_id
  | DeleteLocal local_id
  | LoadGlobal name_id
  | StoreGlobal name_id value_id
  | DeleteGlobal name_id
  | LoadName name_id
  | StoreName name_id value_id
  | DeleteName name_id
  | LoadCell cell_id
  | StoreCell cell_id value_id
  | DeleteCell cell_id
  | MakeCell local_id
  | LoadClosure cell_id
  | LoadBuiltin name_id
  | BinaryOp bin_op value_id value_id
  | InplaceOp bin_op value_id value_id
  | UnaryOp un_op value_id
  | Compare cmp_op value_id value_id
  | Contains value_id value_id bool
  | Is value_id value_id bool
  | BoolTest value_id
  | NotOp value_id
  | LoadAttr value_id name_id
  | StoreAttr value_id name_id value_id
  | DeleteAttr value_id name_id
  | LoadMethod value_id name_id
  | SubscriptGet value_id value_id
  | SubscriptSet value_id value_id value_id
  | SubscriptDel value_id value_id
  | Call value_id "value_id list"
  | CallEx value_id "value_id list" "value_id option" "(name_id \<times> value_id) list" "value_id option"
  | CallMethod value_id "value_id list"
  | GetIter value_id
  | GetAIter value_id
  | ForNext value_id
  | UnpackSeq value_id nat
  | UnpackEx value_id nat nat
  | Yield value_id
  | YieldFrom value_id
  | Await value_id
  | GenResumePayload
  | GenDelegateStep value_id
  | GenLastStopValue
  | Raise "value_id option" "value_id option"
  | Reraise
  | PushExcInfo block_id nat u8
  | PopExcInfo
  | MatchExc value_id
  | CheckExcStar value_id
  | ExcStarEnter
  | ExcStarMatch value_id
  | ExcStarBodyOk
  | ExcStarBodyRaised
  | ExcStarFinish
  | GetCurrentExc
  | BuildExcGroup "value_id list"
  | MatchSequence value_id
  | MatchMapping value_id
  | MatchClass value_id value_id nat "name_id list"
  | MatchKeys value_id "value_id list"
  | GetLen value_id
  | MatchLenGe value_id nat bool
  | ImportName name_id "name_id list" nat
  | ImportFrom value_id name_id
  | ImportStar value_id
  | BuildClass func_id name_id "value_id list" "value_id option" "(name_id \<times> value_id) list" "value_id option" "value_id list" "cell_id list"
  | MakeFunction nat name_id nat
  | MakeFunctionFull func_id "value_id list" "(name_id \<times> value_id) list" "cell_id list" "(name_id \<times> value_id) list"
  | FunctionSetAnnotate value_id value_id
  | MakeTypeAlias name_id value_id
  | MakeTypeVar name_id
  | SetupAnnotations
  | LoadBuildClass


section \<open>Blocks, functions and modules\<close>

datatype terminator =
    Return value_id
  | Jump block_id
  | Branch value_id block_id block_id
  | CondBranch value_id block_id block_id
  | ForLoop value_id block_id block_id
  | Suspend nat value_id block_id
  | RaiseTerm
  | Unreachable

record inst =
  result :: value_id
  kind :: inst_kind
  feedback_slot :: "nat option"
  inferred_type :: ty
  static_type :: ty
  line :: nat

definition inst_new :: "value_id \<Rightarrow> inst_kind \<Rightarrow> inst" where
  "inst_new r k = \<lparr>result = r, kind = k, feedback_slot = None, inferred_type = TyBottom, static_type = TyObject, line = 0\<rparr>"

definition with_feedback_slot :: "nat \<Rightarrow> inst \<Rightarrow> inst" where
  "with_feedback_slot slot i = i\<lparr>feedback_slot := Some slot\<rparr>"

definition with_inferred_type :: "ty \<Rightarrow> inst \<Rightarrow> inst" where
  "with_inferred_type t i = i\<lparr>inferred_type := t\<rparr>"

definition with_static_type :: "ty \<Rightarrow> inst \<Rightarrow> inst" where
  "with_static_type t i = i\<lparr>static_type := t\<rparr>"

record block =
  blk_id :: block_id
  insts :: "inst list"
  term_of :: terminator

record param_layout =
  param_names :: "string list"
  positional_only_count :: nat
  positional_count :: nat
  keyword_only_count :: nat
  vararg_name :: "string option"
  kwarg_name :: "string option"

definition total_slot_count :: "param_layout \<Rightarrow> nat" where
  "total_slot_count p =
     length (param_names p) + (if vararg_name p = None then 0 else 1) + (if kwarg_name p = None then 0 else 1)"

definition positional_arity :: "param_layout \<Rightarrow> nat" where
  "positional_arity p = positional_only_count p + positional_count p"

record ir_function =
  fn_name :: string
  arity :: nat
  is_coroutine :: bool
  is_generator :: bool
  is_async_generator :: bool
  params :: param_layout
  blocks :: "block list"
  n_locals :: nat

record ir_module =
  fns :: "ir_function list"
  main :: func_id
  names :: "string list"

end
