(* ===== verification/Ir_Operands.thy ===== *)
theory Ir_Operands
  imports Pon_Ir
begin

text \<open>
  What an instruction and a terminator read and where a terminator goes: the operand walkers of
  \<^verbatim>\<open>pon-codegen/src/region.rs\<close> and the successor functions the control-flow analyses share.
\<close>

section \<open>Operands\<close>

fun fstring_operands :: "fstr_part list \<Rightarrow> value_id list" where
  "fstring_operands [] = []"
| "fstring_operands (FLiteral c # ps) = fstring_operands ps"
| "fstring_operands (FInterp v conversion spec # ps) =
     v # (case spec of None \<Rightarrow> [] | Some s \<Rightarrow> [s]) @ fstring_operands ps"

fun tstring_operands :: "tstr_part list \<Rightarrow> value_id list" where
  "tstring_operands [] = []"
| "tstring_operands (TLiteral c # ps) = tstring_operands ps"
| "tstring_operands (TInterp v expression conversion spec # ps) =
     v # (case spec of None \<Rightarrow> [] | Some s \<Rightarrow> [s]) @ tstring_operands ps"

definition optional_operand :: "value_id option \<Rightarrow> value_id list" where
  "optional_operand v = (case v of None \<Rightarrow> [] | Some x \<Rightarrow> [x])"

text \<open>
  The constructors of the last group fall under the wildcard arm of the source.
\<close>

primrec inst_operands :: "inst_kind \<Rightarrow> value_id list" where
  "inst_operands (Const c) = []"
| "inst_operands (ConstRef c) = []"
| "inst_operands (LoadLocal l) = []"
| "inst_operands (LoadGlobal n) = []"
| "inst_operands (LoadName n) = []"
| "inst_operands (LoadCell c) = []"
| "inst_operands (LoadClosure c) = []"
| "inst_operands (LoadBuiltin n) = []"
| "inst_operands (MakeCell l) = []"
| "inst_operands SetupAnnotations = []"
| "inst_operands LoadBuildClass = []"
| "inst_operands (BuildTuple elts) = elts"
| "inst_operands (BuildList elts) = elts"
| "inst_operands (BuildSet elts) = elts"
| "inst_operands (BuildString parts) = fstring_operands parts"
| "inst_operands (BuildSlice lower upper step) = [lower, upper, step]"
| "inst_operands (BuildMap pairs) = concat (map (\<lambda>p. [fst p, snd p]) pairs)"
| "inst_operands (BuildTemplate parts) = tstring_operands parts"
| "inst_operands (ListAppend list item) = [list, item]"
| "inst_operands (SetAdd st item) = [st, item]"
| "inst_operands (DictMerge mp other) = [mp, other]"
| "inst_operands (DictMergeUnique mp other) = [mp, other]"
| "inst_operands (Compare op lhs rhs) = [lhs, rhs]"
| "inst_operands (Contains item container negate) = [item, container]"
| "inst_operands (Is lhs rhs negate) = [lhs, rhs]"
| "inst_operands (SubscriptGet obj index) = [obj, index]"
| "inst_operands (MapInsert mp key val) = [mp, key, val]"
| "inst_operands (ListExtend list iter) = [list, iter]"
| "inst_operands (SetUpdate st iter) = [st, iter]"
| "inst_operands (ListToTuple list) = [list]"
| "inst_operands (StoreLocal l v) = [v]"
| "inst_operands (StoreGlobal n v) = [v]"
| "inst_operands (StoreName n v) = [v]"
| "inst_operands (StoreCell c v) = [v]"
| "inst_operands (BoolTest v) = [v]"
| "inst_operands (NotOp v) = [v]"
| "inst_operands (GetIter v) = [v]"
| "inst_operands (GetAIter v) = [v]"
| "inst_operands (ForNext v) = [v]"
| "inst_operands (UnpackSeq v n) = [v]"
| "inst_operands (Yield v) = [v]"
| "inst_operands (YieldFrom v) = [v]"
| "inst_operands (Await v) = [v]"
| "inst_operands (GenDelegateStep v) = [v]"
| "inst_operands (MatchExc v) = [v]"
| "inst_operands (CheckExcStar v) = [v]"
| "inst_operands (ExcStarMatch v) = [v]"
| "inst_operands (MatchSequence v) = [v]"
| "inst_operands (MatchMapping v) = [v]"
| "inst_operands (GetLen v) = [v]"
| "inst_operands (ImportFrom v n) = [v]"
| "inst_operands (ImportStar v) = [v]"
| "inst_operands (BinaryOp op lhs rhs) = [lhs, rhs]"
| "inst_operands (InplaceOp op lhs rhs) = [lhs, rhs]"
| "inst_operands (UnaryOp op v) = [v]"
| "inst_operands (StoreAttr obj n v) = [obj, v]"
| "inst_operands (LoadAttr obj n) = [obj]"
| "inst_operands (DeleteAttr obj n) = [obj]"
| "inst_operands (LoadMethod obj n) = [obj]"
| "inst_operands (SubscriptSet obj index val) = [obj, index, val]"
| "inst_operands (SubscriptDel obj index) = [obj, index]"
| "inst_operands (Call callee args) = callee # args"
| "inst_operands (CallMethod callee args) = callee # args"
| "inst_operands (CallEx callee args star kwargs dstar) = callee # args @ optional_operand star @ map snd kwargs @ optional_operand dstar"
| "inst_operands (UnpackEx v before after) = [v]"
| "inst_operands (Raise exc cause) = optional_operand exc @ optional_operand cause"
| "inst_operands Reraise = []"
| "inst_operands (PushExcInfo target depth k) = []"
| "inst_operands PopExcInfo = []"
| "inst_operands GetCurrentExc = []"
| "inst_operands ExcStarEnter = []"
| "inst_operands ExcStarBodyOk = []"
| "inst_operands ExcStarBodyRaised = []"
| "inst_operands ExcStarFinish = []"
| "inst_operands (BuildExcGroup excs) = excs"
| "inst_operands (MatchKeys subj keys) = subj # keys"
| "inst_operands (MatchClass subj cls nargs kw) = [subj, cls]"
| "inst_operands (MatchLenGe subj n exact) = [subj]"
| "inst_operands (ImportName n fromlist level) = []"
| "inst_operands (BuildClass body n bases bases_seq keywords dstar decorators closure) = bases @ optional_operand bases_seq @ map snd keywords @ optional_operand dstar @ decorators"
| "inst_operands (MakeFunction index n a) = []"
| "inst_operands (MakeFunctionFull code defaults kwdefaults closure annotations) = defaults @ map snd kwdefaults @ map snd annotations"
| "inst_operands (DeleteLocal l) = []"
| "inst_operands (DeleteGlobal n) = []"
| "inst_operands (DeleteName n) = []"
| "inst_operands (DeleteCell c) = []"
| "inst_operands GenResumePayload = []"
| "inst_operands GenLastStopValue = []"
| "inst_operands (FunctionSetAnnotate function_value annotate) = []"
| "inst_operands (MakeTypeAlias n thunk) = []"
| "inst_operands (MakeTypeVar n) = []"

primrec terminator_operands :: "terminator \<Rightarrow> value_id list" where
  "terminator_operands (Return v) = [v]"
| "terminator_operands (Branch cond t e) = [cond]"
| "terminator_operands (CondBranch cond t e) = [cond]"
| "terminator_operands (ForLoop iter body done_blk) = [iter]"
| "terminator_operands (Suspend state v resume_blk) = [v]"
| "terminator_operands (Jump t) = []"
| "terminator_operands RaiseTerm = []"
| "terminator_operands Unreachable = []"

section \<open>What is read\<close>

text \<open>
  The values an instruction reads, independently of the walker: every field of the intermediate
  representation (\<^verbatim>\<open>pon-ir/src/ir.rs\<close>) that holds a value, in the order of its declaration.
\<close>

primrec fstr_reads :: "fstr_part \<Rightarrow> value_id set" where
  "fstr_reads (FLiteral c) = {}"
| "fstr_reads (FInterp v conversion spec) = insert v (set_option spec)"

primrec tstr_reads :: "tstr_part \<Rightarrow> value_id set" where
  "tstr_reads (TLiteral c) = {}"
| "tstr_reads (TInterp v expression conversion spec) = insert v (set_option spec)"

primrec inst_reads :: "inst_kind \<Rightarrow> value_id set" where
  "inst_reads (Const a) = {}"
| "inst_reads (ConstRef a) = {}"
| "inst_reads (BuildTuple a) = set a"
| "inst_reads (BuildList a) = set a"
| "inst_reads (BuildSet a) = set a"
| "inst_reads (BuildMap a) = fst ` set a \<union> snd ` set a"
| "inst_reads (BuildSlice a b c) = {a, b, c}"
| "inst_reads (BuildString a) = (\<Union>p \<in> set a. fstr_reads p)"
| "inst_reads (BuildTemplate a) = (\<Union>p \<in> set a. tstr_reads p)"
| "inst_reads (ListAppend a b) = {a, b}"
| "inst_reads (SetAdd a b) = {a, b}"
| "inst_reads (MapInsert a b c) = {a, b, c}"
| "inst_reads (ListExtend a b) = {a, b}"
| "inst_reads (ListToTuple a) = {a}"
| "inst_reads (SetUpdate a b) = {a, b}"
| "inst_reads (DictMerge a b) = {a, b}"
| "inst_reads (DictMergeUnique a b) = {a, b}"
| "inst_reads (LoadLocal a) = {}"
| "inst_reads (StoreLocal a b) = {b}"
| "inst_reads (DeleteLocal a) = {}"
| "inst_reads (LoadGlobal a) = {}"
| "inst_reads (StoreGlobal a b) = {b}"
| "inst_reads (DeleteGlobal a) = {}"
| "inst_reads (LoadName a) = {}"
| "inst_reads (StoreName a b) = {b}"
| "inst_reads (DeleteName a) = {}"
| "inst_reads (LoadCell a) = {}"
| "inst_reads (StoreCell a b) = {b}"
| "inst_reads (DeleteCell a) = {}"
| "inst_reads (MakeCell a) = {}"
| "inst_reads (LoadClosure a) = {}"
| "inst_reads (LoadBuiltin a) = {}"
| "inst_reads (BinaryOp a b c) = {b, c}"
| "inst_reads (InplaceOp a b c) = {b, c}"
| "inst_reads (UnaryOp a b) = {b}"
| "inst_reads (Compare a b c) = {b, c}"
| "inst_reads (Contains a b c) = {a, b}"
| "inst_reads (Is a b c) = {a, b}"
| "inst_reads (BoolTest a) = {a}"
| "inst_reads (NotOp a) = {a}"
| "inst_reads (LoadAttr a b) = {a}"
| "inst_reads (StoreAttr a b c) = {a, c}"
| "inst_reads (DeleteAttr a b) = {a}"
| "inst_reads (LoadMethod a b) = {a}"
| "inst_reads (SubscriptGet a b) = {a, b}"
| "inst_reads (SubscriptSet a b c) = {a, b, c}"
| "inst_reads (SubscriptDel a b) = {a, b}"
| "inst_reads (Call a b) = {a} \<union> set b"
| "inst_reads (CallEx a b c d e) = {a} \<union> set b \<union> set_option c \<union> snd ` set d \<union> set_option e"
| "inst_reads (CallMethod a b) = {a} \<union> set b"
| "inst_reads (GetIter a) = {a}"
| "inst_reads (GetAIter a) = {a}"
| "inst_reads (ForNext a) = {a}"
| "inst_reads (UnpackSeq a b) = {a}"
| "inst_reads (UnpackEx a b c) = {a}"
| "inst_reads (Yield a) = {a}"
| "inst_reads (YieldFrom a) = {a}"
| "inst_reads (Await a) = {a}"
| "inst_reads GenResumePayload = {}"
| "inst_reads (GenDelegateStep a) = {a}"
| "inst_reads GenLastStopValue = {}"
| "inst_reads (Raise a b) = set_option a \<union> set_option b"
| "inst_reads Reraise = {}"
| "inst_reads (PushExcInfo a b c) = {}"
| "inst_reads PopExcInfo = {}"
| "inst_reads (MatchExc a) = {a}"
| "inst_reads (CheckExcStar a) = {a}"
| "inst_reads ExcStarEnter = {}"
| "inst_reads (ExcStarMatch a) = {a}"
| "inst_reads ExcStarBodyOk = {}"
| "inst_reads ExcStarBodyRaised = {}"
| "inst_reads ExcStarFinish = {}"
| "inst_reads GetCurrentExc = {}"
| "inst_reads (BuildExcGroup a) = set a"
| "inst_reads (MatchSequence a) = {a}"
| "inst_reads (MatchMapping a) = {a}"
| "inst_reads (MatchClass a b c d) = {a, b}"
| "inst_reads (MatchKeys a b) = {a} \<union> set b"
| "inst_reads (GetLen a) = {a}"
| "inst_reads (MatchLenGe a b c) = {a}"
| "inst_reads (ImportName a b c) = {}"
| "inst_reads (ImportFrom a b) = {a}"
| "inst_reads (ImportStar a) = {a}"
| "inst_reads (BuildClass a b c d e f g h) = set c \<union> set_option d \<union> snd ` set e \<union> set_option f \<union> set g"
| "inst_reads (MakeFunction a b c) = {}"
| "inst_reads (MakeFunctionFull a b c d e) = set b \<union> snd ` set c \<union> snd ` set e"
| "inst_reads (FunctionSetAnnotate a b) = {a, b}"
| "inst_reads (MakeTypeAlias a b) = {b}"
| "inst_reads (MakeTypeVar a) = {}"
| "inst_reads SetupAnnotations = {}"
| "inst_reads LoadBuildClass = {}"

primrec term_reads :: "terminator \<Rightarrow> value_id set" where
  "term_reads (Return v) = {v}"
| "term_reads (Jump t) = {}"
| "term_reads (Branch cond t e) = {cond}"
| "term_reads (CondBranch cond t e) = {cond}"
| "term_reads (ForLoop iter body done_blk) = {iter}"
| "term_reads (Suspend state v resume_blk) = {v}"
| "term_reads RaiseTerm = {}"
| "term_reads Unreachable = {}"

text \<open>The two instructions whose operands the walker misses, and the functions without them.\<close>

definition hides_operands :: "inst_kind \<Rightarrow> bool" where
  "hides_operands k \<longleftrightarrow> (case k of FunctionSetAnnotate _ _ \<Rightarrow> True | MakeTypeAlias _ _ \<Rightarrow> True | _ \<Rightarrow> False)"

definition reads_reported :: "ir_function \<Rightarrow> bool" where
  "reads_reported f \<longleftrightarrow> list_all (\<lambda>blk. list_all (\<lambda>i. \<not> hides_operands (kind i)) (insts blk)) (blocks f)"

lemma set_optional_operand [simp]: "set (optional_operand v) = set_option v"
  by (cases v) (simp_all add: optional_operand_def)

lemma set_fstring_operands [simp]: "set (fstring_operands ps) = (\<Union>p \<in> set ps. fstr_reads p)"
  by (induction ps rule: fstring_operands.induct) (auto split: option.splits)

lemma set_tstring_operands [simp]: "set (tstring_operands ps) = (\<Union>p \<in> set ps. tstr_reads p)"
  by (induction ps rule: tstring_operands.induct) (auto split: option.splits)

lemma inst_operands_reads: "set (inst_operands k) = (if hides_operands k then {} else inst_reads k)"
  by (cases k) (auto simp: hides_operands_def)

lemma terminator_operands_reads: "set (terminator_operands t) = term_reads t"
  by (cases t) simp_all

section \<open>Control flow\<close>

datatype region_exit_kind = ExitJump | ExitBranch | ForLoopBody | ForLoopDone | SuspendResume

primrec successor_edges :: "terminator \<Rightarrow> (block_id \<times> region_exit_kind) list" where
  "successor_edges (Jump t) = [(t, ExitJump)]"
| "successor_edges (Branch cond t e) = [(t, ExitBranch), (e, ExitBranch)]"
| "successor_edges (CondBranch cond t e) = [(t, ExitBranch), (e, ExitBranch)]"
| "successor_edges (ForLoop iter body done_blk) = [(body, ForLoopBody), (done_blk, ForLoopDone)]"
| "successor_edges (Suspend state v resume_blk) = [(resume_blk, SuspendResume)]"
| "successor_edges (Return v) = []"
| "successor_edges RaiseTerm = []"
| "successor_edges Unreachable = []"

definition region_successors :: "terminator \<Rightarrow> block_id list" where
  "region_successors t = map fst (successor_edges t)"

primrec successors :: "terminator \<Rightarrow> block_id list" where
  "successors (Jump t) = [t]"
| "successors (Branch cond t e) = [t, e]"
| "successors (CondBranch cond t e) = [t, e]"
| "successors (ForLoop iter body done_blk) = [body, done_blk]"
| "successors (Suspend state v resume_blk) = [resume_blk]"
| "successors (Return v) = []"
| "successors RaiseTerm = []"
| "successors Unreachable = []"

lemma successors_agree: "region_successors t = successors t"
  by (cases t) (simp_all add: region_successors_def)

definition block_index :: "ir_function \<Rightarrow> block_id \<Rightarrow> nat option" where
  "block_index f b = position_of (\<lambda>blk. blk_id blk = b) (blocks f)"

lemma block_index_Some:
  "block_index f b = Some i \<Longrightarrow> i < length (blocks f) \<and> blk_id (blocks f ! i) = b"
  using nth_length_takeWhile [of "\<lambda>blk. blk_id blk \<noteq> b" "blocks f"]
  by (auto simp: block_index_def position_of_def Let_def split: if_splits)

lemma block_index_distinct:
  assumes "distinct (map blk_id (blocks f))" "i < length (blocks f)"
  shows "block_index f (blk_id (blocks f ! i)) = Some i"
proof -
  have "takeWhile (\<lambda>blk. blk_id blk \<noteq> blk_id (blocks f ! i)) (blocks f) = take i (blocks f)"
    using assms by (intro takeWhile_eq_take_P_nth) (auto simp: distinct_conv_nth)
  then show ?thesis using assms(2) by (simp add: block_index_def position_of_def)
qed

definition block_ids :: "ir_function \<Rightarrow> block_id set" where
  "block_ids f = blk_id ` set (blocks f)"

lemma finite_block_ids [simp]: "finite (block_ids f)"
  by (simp add: block_ids_def)

lemma takeWhile_shorter: "length (takeWhile P xs) < length xs \<longleftrightarrow> (\<exists>x \<in> set xs. \<not> P x)"
  by (induction xs) auto

lemma block_index_None_iff: "block_index f b = None \<longleftrightarrow> b \<notin> block_ids f"
  using takeWhile_shorter [of "\<lambda>blk. blk_id blk \<noteq> b" "blocks f"]
  by (auto simp: block_index_def position_of_def block_ids_def Let_def)

end
