(* ===== verification/Typed_Region.thy ===== *)
theory Typed_Region
  imports Ir_Operands
begin

text \<open>
  Typed-region discovery, \<^verbatim>\<open>pon-codegen/src/region.rs\<close>.  A hash set of blocks is the list of its
  elements; the order in which the source iterates over one is unspecified, so the pruning pass
  takes an arbitrary ranking \<open>hash\<close> of the blocks, one for every entry and every pass.
\<close>

section \<open>Typed instructions and blocks\<close>

record typed_value =
  tv_value :: value_id
  tv_ty :: ty
  tv_block :: block_id
  inst_index :: nat

record typed_input =
  ti_value :: value_id
  ti_ty :: ty

record region_exit =
  exit_from :: block_id
  exit_to :: block_id
  exit_kind :: region_exit_kind

record typed_region =
  entry :: block_id
  region_blocks :: "block_id list"
  region_values :: "typed_value list"
  live_ins :: "typed_input list"
  exits :: "region_exit list"

definition fast_path_result_type :: "inst_kind \<Rightarrow> ty option" where
  "fast_path_result_type k =
     (case k of Compare _ _ _ \<Rightarrow> Some TyIntI64 | BoolTest _ \<Rightarrow> Some TyIntI64 | NotOp _ \<Rightarrow> Some TyIntI64 | _ \<Rightarrow> None)"

definition literal_unboxed_type :: "inst_kind \<Rightarrow> ty option" where
  "literal_unboxed_type k =
     (case k of Const c \<Rightarrow> (case c of CInt _ \<Rightarrow> Some TyIntI64 | CFloat _ \<Rightarrow> Some TyFloat | _ \<Rightarrow> None) | _ \<Rightarrow> None)"

definition inst_unboxed_type :: "inst \<Rightarrow> ty option" where
  "inst_unboxed_type i =
     (case fast_path_result_type (kind i) of
        Some t \<Rightarrow> Some t
      | None \<Rightarrow>
          if is_unboxable (inferred_type i) then Some (inferred_type i)
          else if is_unboxable (static_type i) then Some (static_type i)
          else literal_unboxed_type (kind i))"

definition is_fast_path_kind :: "inst_kind \<Rightarrow> bool" where
  "is_fast_path_kind k =
     (case k of
        Const c \<Rightarrow> (case c of CInt _ \<Rightarrow> True | CFloat _ \<Rightarrow> True | _ \<Rightarrow> False)
      | LoadLocal _ \<Rightarrow> True
      | StoreLocal _ _ \<Rightarrow> True
      | ForNext _ \<Rightarrow> True
      | BinaryOp op _ _ \<Rightarrow> op \<in> {Add, Sub, Mul, FloorDiv, Mod}
      | Compare op _ _ \<Rightarrow> op \<in> {Lt, Le, Gt, Ge, Eq, Ne}
      | BoolTest _ \<Rightarrow> True
      | NotOp _ \<Rightarrow> True
      | UnaryOp op _ \<Rightarrow> op \<in> {Neg, Pos}
      | _ \<Rightarrow> False)"

definition is_typed_inst :: "inst \<Rightarrow> bool" where
  "is_typed_inst i \<longleftrightarrow> is_fast_path_kind (kind i) \<and> inst_unboxed_type i \<noteq> None"

definition is_region_terminator :: "terminator \<Rightarrow> bool" where
  "is_region_terminator t =
     (case t of
        Return _ \<Rightarrow> True | Jump _ \<Rightarrow> True | Branch _ _ _ \<Rightarrow> True | CondBranch _ _ _ \<Rightarrow> True | ForLoop _ _ _ \<Rightarrow> True
      | Unreachable \<Rightarrow> True | _ \<Rightarrow> False)"

definition is_typed_block :: "block \<Rightarrow> bool" where
  "is_typed_block b \<longleftrightarrow> list_all is_typed_inst (insts b) \<and> is_region_terminator (term_of b)"

section \<open>Predecessors and reachable blocks\<close>

definition push_predecessor :: "ir_function \<Rightarrow> block_id \<Rightarrow> block_id \<Rightarrow> block_id list list \<Rightarrow> block_id list list" where
  "push_predecessor f b s ps = (case block_index f s of None \<Rightarrow> ps | Some i \<Rightarrow> ps[i := ps ! i @ [b]])"

definition predecessors :: "ir_function \<Rightarrow> block_id list list" where
  "predecessors f =
     fold (\<lambda>blk. fold (push_predecessor f (blk_id blk)) (region_successors (term_of blk)))
       (blocks f) (replicate (length (blocks f)) [])"

text \<open>The successors that enter the set, in the order they are pushed on the queue.\<close>

fun newly_reached :: "ir_function \<Rightarrow> bool list \<Rightarrow> block_id list \<Rightarrow> block_id list \<Rightarrow> block_id list" where
  "newly_reached f compatible [] R = []"
| "newly_reached f compatible (s # ss) R =
     (case block_index f s of
        None \<Rightarrow> newly_reached f compatible ss R
      | Some j \<Rightarrow>
          if compatible ! j \<and> s \<notin> set R then s # newly_reached f compatible ss (R @ [s])
          else newly_reached f compatible ss R)"

lemma newly_reached_props:
  "set (newly_reached f compatible ss R) \<subseteq> set ss \<inter> block_ids f - set R" "distinct (newly_reached f compatible ss R)"
proof (induction ss arbitrary: R)
  case (Cons s ss)
  { case 1
    show ?case
      using Cons.IH(1) [of R] Cons.IH(1) [of "R @ [s]"] block_index_None_iff [of f s]
      by (auto split: option.splits) }
  { case 2
    show ?case
      using Cons.IH(2) [of R] Cons.IH(2) [of "R @ [s]"] Cons.IH(1) [of "R @ [s]"]
      by (auto split: option.splits) }
qed simp_all

function collect_loop :: "ir_function \<Rightarrow> bool list \<Rightarrow> block_id list \<Rightarrow> block_id list \<Rightarrow> block_id list" where
  "collect_loop f compatible [] R = R"
| "collect_loop f compatible (b # queue) R =
     (case block_index f b of
        None \<Rightarrow> collect_loop f compatible queue R
      | Some i \<Rightarrow>
          (let new = newly_reached f compatible (region_successors (term_of (blocks f ! i))) R
           in collect_loop f compatible (queue @ new) (R @ new)))"
  by pat_completeness auto
termination
proof (relation "measure (\<lambda>(f, compatible, queue, R). card (block_ids f - set R) + length queue)", goal_cases)
  case (3 f compatible b queue R i new)
  then have new: "set new \<subseteq> block_ids f - set R" "distinct new"
    using newly_reached_props [of f compatible "region_successors (term_of (blocks f ! i))" R] by auto
  have "block_ids f - set (R @ new) = (block_ids f - set R) - set new" by auto
  then have "card (block_ids f - set (R @ new)) = card (block_ids f - set R) - length new"
    using new by (simp add: card_Diff_subset distinct_card)
  moreover have "length new \<le> card (block_ids f - set R)"
    using card_mono [OF _ new(1)] distinct_card [OF new(2)] by simp
  ultimately show ?case by simp
qed auto

declare collect_loop.simps [simp del]

definition collect_compatible_reachable :: "ir_function \<Rightarrow> bool list \<Rightarrow> block_id \<Rightarrow> block_id list" where
  "collect_compatible_reachable f compatible e = collect_loop f compatible [e] [e]"

section \<open>Pruning\<close>

fun prune_pass ::
  "ir_function \<Rightarrow> block_id list list \<Rightarrow> block_id \<Rightarrow> block_id list \<Rightarrow> block_id list \<Rightarrow> bool \<Rightarrow> block_id list \<times> bool" where
  "prune_pass f preds e [] R removed = (R, removed)"
| "prune_pass f preds e (b # bs) R removed =
     (if b = e then prune_pass f preds e bs R removed
      else case block_index f b of
        None \<Rightarrow> prune_pass f preds e bs R removed
      | Some i \<Rightarrow>
          if \<exists>p \<in> set (preds ! i). p \<notin> set R then prune_pass f preds e bs (removeAll b R) True
          else prune_pass f preds e bs R removed)"

lemma prune_pass_length: "length (fst (prune_pass f preds e bs R removed)) \<le> length R"
proof (induction bs arbitrary: R removed)
  case (Cons b bs)
  show ?case
    using Cons.IH [of R removed] order_trans [OF Cons.IH [of "removeAll b R" True] length_removeAll_less_eq [of b R]]
    by (auto split: option.splits)
qed simp

lemma prune_pass_shrinks:
  "set bs \<subseteq> set R \<Longrightarrow> snd (prune_pass f preds e bs R False) \<Longrightarrow> length (fst (prune_pass f preds e bs R False)) < length R"
proof (induction bs)
  case (Cons b bs)
  have "length (fst (prune_pass f preds e bs (removeAll b R) True)) < length R"
    using Cons.prems(1) by (intro le_less_trans [OF prune_pass_length] length_removeAll_less) simp
  with Cons show ?case by (auto split: option.splits if_splits)
qed simp

function prune_loop ::
  "(nat \<Rightarrow> block_id \<Rightarrow> nat) \<Rightarrow> ir_function \<Rightarrow> block_id list list \<Rightarrow> block_id \<Rightarrow> nat \<Rightarrow> block_id list \<Rightarrow> block_id list" where
  "prune_loop hash f preds e n R =
     (let pass = prune_pass f preds e (sort_key (hash n) R) R False
      in if snd pass then prune_loop hash f preds e (Suc n) (fst pass) else fst pass)"
  by pat_completeness auto
termination
  by (relation "measure (\<lambda>(hash, f, preds, e, n, R). length R)") (auto intro!: prune_pass_shrinks)

declare prune_loop.simps [simp del]

definition prune_external_entries ::
  "(nat \<Rightarrow> block_id \<Rightarrow> nat) \<Rightarrow> ir_function \<Rightarrow> block_id list list \<Rightarrow> block_id \<Rightarrow> block_id list \<Rightarrow> block_id list" where
  "prune_external_entries hash f preds e R = prune_loop hash f preds e 0 R"

section \<open>What a region holds\<close>

definition typed_values_of :: "block \<Rightarrow> typed_value list" where
  "typed_values_of blk =
     List.map_filter (\<lambda>(n, i). map_option (\<lambda>t. \<lparr>tv_value = result i, tv_ty = t, tv_block = blk_id blk, inst_index = n\<rparr>)
       (inst_unboxed_type i)) (enumerate 0 (insts blk))"

definition collect_typed_values :: "ir_function \<Rightarrow> block_id list \<Rightarrow> typed_value list" where
  "collect_typed_values f R = concat (map typed_values_of (filter (\<lambda>blk. blk_id blk \<in> set R) (blocks f)))"

definition value_unboxed_type :: "ir_function \<Rightarrow> value_id \<Rightarrow> ty option" where
  "value_unboxed_type f v =
     (case List.map_filter (\<lambda>i. if result i = v then inst_unboxed_type i else None) (concat (map insts (blocks f))) of
        [] \<Rightarrow> None | t # ts \<Rightarrow> Some t)"

definition region_block_list :: "ir_function \<Rightarrow> block_id list \<Rightarrow> block list" where
  "region_block_list f R = filter (\<lambda>blk. blk_id blk \<in> set R) (blocks f)"

definition produced :: "ir_function \<Rightarrow> block_id list \<Rightarrow> value_id list" where
  "produced f R = map result (concat (map insts (region_block_list f R)))"

definition block_operands :: "block \<Rightarrow> value_id list" where
  "block_operands blk = concat (map (\<lambda>i. inst_operands (kind i)) (insts blk)) @ terminator_operands (term_of blk)"

fun push_live_ins :: "ir_function \<Rightarrow> value_id list \<Rightarrow> value_id list \<Rightarrow> value_id list \<Rightarrow> typed_input list" where
  "push_live_ins f made seen [] = []"
| "push_live_ins f made seen (v # vs) =
     (if v \<in> set made \<or> v \<in> set seen then push_live_ins f made seen vs
      else \<lparr>ti_value = v, ti_ty = (case value_unboxed_type f v of None \<Rightarrow> TyObject | Some t \<Rightarrow> t)\<rparr>
             # push_live_ins f made (v # seen) vs)"

definition collect_live_ins :: "ir_function \<Rightarrow> block_id list \<Rightarrow> typed_input list" where
  "collect_live_ins f R = push_live_ins f (produced f R) [] (concat (map block_operands (region_block_list f R)))"

fun push_exits :: "block_id list \<Rightarrow> region_exit list \<Rightarrow> (block_id \<times> block_id \<times> region_exit_kind) list \<Rightarrow> region_exit list" where
  "push_exits R acc [] = acc"
| "push_exits R acc ((a, c, k) # es) =
     (let x = \<lparr>exit_from = a, exit_to = c, exit_kind = k\<rparr>
      in if c \<notin> set R \<and> x \<notin> set acc then push_exits R (acc @ [x]) es else push_exits R acc es)"

definition collect_exits :: "ir_function \<Rightarrow> block_id list \<Rightarrow> region_exit list" where
  "collect_exits f R =
     push_exits R [] (concat (map (\<lambda>blk. map (Pair (blk_id blk)) (successor_edges (term_of blk))) (region_block_list f R)))"

definition build_region ::
  "(nat \<Rightarrow> block_id \<Rightarrow> nat) \<Rightarrow> ir_function \<Rightarrow> bool list \<Rightarrow> block_id list list \<Rightarrow> block_id \<Rightarrow> typed_region option" where
  "build_region hash f compatible preds e =
     (let R = prune_external_entries hash f preds e (collect_compatible_reachable f compatible e);
          bs = map blk_id (region_block_list f R);
          vs = collect_typed_values f R
      in if bs = [] then None
         else if vs = [] then None
         else Some \<lparr>entry = e, region_blocks = bs, region_values = vs, live_ins = collect_live_ins f R, exits = collect_exits f R\<rparr>)"

definition region_size :: "typed_region \<Rightarrow> nat \<times> nat" where
  "region_size r = (length (region_blocks r), length (region_values r))"

definition tuple_gt :: "nat \<times> nat \<Rightarrow> nat \<times> nat \<Rightarrow> bool" where
  "tuple_gt a b \<longleftrightarrow> fst a > fst b \<or> fst a = fst b \<and> snd a > snd b"

definition is_better_region :: "typed_region \<Rightarrow> typed_region option \<Rightarrow> bool" where
  "is_better_region candidate best =
     (case best of None \<Rightarrow> True | Some b \<Rightarrow> tuple_gt (region_size candidate) (region_size b))"

definition consider_entry ::
  "(block_id \<Rightarrow> nat \<Rightarrow> block_id \<Rightarrow> nat) \<Rightarrow> ir_function \<Rightarrow> nat \<Rightarrow> typed_region option \<Rightarrow> typed_region option" where
  "consider_entry hash f i best =
     (let compatible = map is_typed_block (blocks f); e = blk_id (blocks f ! i)
      in if \<not> compatible ! i then best
         else case build_region (hash e) f compatible (predecessors f) e of
           None \<Rightarrow> best
         | Some candidate \<Rightarrow> if is_better_region candidate best then Some candidate else best)"

definition find_maximal_typed_region ::
  "(block_id \<Rightarrow> nat \<Rightarrow> block_id \<Rightarrow> nat) \<Rightarrow> ir_function \<Rightarrow> typed_region option" where
  "find_maximal_typed_region hash f = fold (consider_entry hash f) [0..<length (blocks f)] None"


section \<open>Specification\<close>

definition flow :: "ir_function \<Rightarrow> block_id \<Rightarrow> block_id set" where
  "flow f a = {c \<in> block_ids f. \<exists>blk \<in> set (blocks f). blk_id blk = a \<and> c \<in> set (region_successors (term_of blk))}"

definition typed_ids :: "ir_function \<Rightarrow> block_id set" where
  "typed_ids f = blk_id ` {blk \<in> set (blocks f). is_typed_block blk}"

definition entered_only_at :: "ir_function \<Rightarrow> block_id \<Rightarrow> block_id set \<Rightarrow> bool" where
  "entered_only_at f e S \<longleftrightarrow> (\<forall>a c. c \<in> flow f a \<longrightarrow> c \<in> S \<longrightarrow> c \<noteq> e \<longrightarrow> a \<in> S)"

definition single_entry_region :: "ir_function \<Rightarrow> block_id \<Rightarrow> block_id set \<Rightarrow> bool" where
  "single_entry_region f e S \<longleftrightarrow>
     e \<in> S \<and> S \<subseteq> typed_ids f \<and> entered_only_at f e S \<and> S \<subseteq> reach (\<lambda>a. flow f a \<inter> S) {e}"

abbreviation layout_ok :: "ir_function \<Rightarrow> bool" where
  "layout_ok f \<equiv> distinct (map blk_id (blocks f))"

lemma block_index_iff:
  assumes "layout_ok f"
  shows "block_index f b = Some i \<longleftrightarrow> i < length (blocks f) \<and> blk_id (blocks f ! i) = b"
  using block_index_Some [of f b i] block_index_distinct [OF assms, of i] by auto

section \<open>Predecessor lists\<close>

lemma length_push_predecessors [simp]: "length (fold (push_predecessor f b) ss ps) = length ps"
  by (induction ss arbitrary: ps) (auto simp: push_predecessor_def split: option.splits)

lemma set_push_predecessor:
  "i < length ps \<Longrightarrow> set (push_predecessor f b s ps ! i) = set (ps ! i) \<union> {a. a = b \<and> block_index f s = Some i}"
  by (cases "block_index f s = Some i") (auto simp: push_predecessor_def split: option.splits)

lemma length_push_predecessor [simp]: "length (push_predecessor f b s ps) = length ps"
  by (simp add: push_predecessor_def split: option.splits)

lemma set_push_predecessors:
  "i < length ps \<Longrightarrow>
   set (fold (push_predecessor f b) ss ps ! i) = set (ps ! i) \<union> {a. a = b \<and> (\<exists>s \<in> set ss. block_index f s = Some i)}"
proof (induction ss arbitrary: ps)
  case (Cons s ss)
  show ?case
    using Cons.IH [of "push_predecessor f b s ps"] Cons.prems set_push_predecessor [OF Cons.prems, of f b s] by auto
qed simp

lemma set_predecessors_fold:
  "i < length ps \<Longrightarrow>
   set (fold (\<lambda>blk. fold (push_predecessor f (blk_id blk)) (region_successors (term_of blk))) bs ps ! i) =
     set (ps ! i) \<union> {a. \<exists>blk \<in> set bs. blk_id blk = a \<and> (\<exists>s \<in> set (region_successors (term_of blk)). block_index f s = Some i)}"
proof (induction bs arbitrary: ps)
  case (Cons blk bs)
  let ?ps = "fold (push_predecessor f (blk_id blk)) (region_successors (term_of blk)) ps"
  show ?case
    using Cons.IH [of ?ps] set_push_predecessors [OF Cons.prems, of f "blk_id blk" "region_successors (term_of blk)"] Cons.prems
    by auto
qed simp

lemma set_predecessors:
  assumes "layout_ok f" "block_index f b = Some i"
  shows "set (predecessors f ! i) = {a. b \<in> flow f a}"
proof -
  have i: "i < length (blocks f)" "blk_id (blocks f ! i) = b" using assms block_index_iff by auto
  then have "b \<in> block_ids f" by (auto simp: block_ids_def)
  moreover have "(block_index f s = Some i) = (s = b)" for s using block_index_iff [OF assms(1)] i by auto
  ultimately show ?thesis
    using set_predecessors_fold [of i "replicate (length (blocks f)) []" f "blocks f"] i
    by (auto simp: predecessors_def flow_def)
qed

section \<open>Collection\<close>

lemma typed_at:
  assumes "layout_ok f"
  shows "(\<exists>j. block_index f s = Some j \<and> map is_typed_block (blocks f) ! j) \<longleftrightarrow> s \<in> typed_ids f"
proof
  assume "s \<in> typed_ids f"
  then obtain j where "j < length (blocks f)" "is_typed_block (blocks f ! j)" "blk_id (blocks f ! j) = s"
    by (auto simp: typed_ids_def in_set_conv_nth)
  then show "\<exists>j. block_index f s = Some j \<and> map is_typed_block (blocks f) ! j"
    using block_index_iff [OF assms] by auto
qed (auto simp: block_index_iff [OF assms] typed_ids_def)

lemma set_newly_reached:
  assumes "layout_ok f"
  shows "set (newly_reached f (map is_typed_block (blocks f)) ss R) = set ss \<inter> typed_ids f - set R"
proof (induction ss arbitrary: R)
  case (Cons s ss)
  then show ?case using typed_at [OF assms, of s] by (auto split: option.splits)
qed simp

lemma successors_at:
  assumes "layout_ok f" "block_index f b = Some i"
  shows "set (region_successors (term_of (blocks f ! i))) \<inter> typed_ids f = flow f b \<inter> typed_ids f"
proof -
  have i: "i < length (blocks f)" "blk_id (blocks f ! i) = b" using assms block_index_iff by auto
  have "blk = blocks f ! i" if "blk \<in> set (blocks f)" "blk_id blk = b" for blk
    using that i assms(1) by (metis distinct_map inj_onD nth_mem)
  then show ?thesis using i by (auto simp: flow_def typed_ids_def block_ids_def)
qed

lemma reach_absorb: "N \<subseteq> reach succ R \<Longrightarrow> reach succ (R \<union> N) = reach succ R"
  by (intro equalityI reach_least reach_mono) (auto intro: reach_succ [THEN subsetD] reach_base [THEN subsetD])

lemma reach_closed: "(\<forall>x \<in> R. succ x \<subseteq> R) \<Longrightarrow> reach succ R = R"
  by (intro equalityI reach_least reach_base) auto

lemma collect_loop_exact:
  "layout_ok f \<Longrightarrow> compatible = map is_typed_block (blocks f) \<Longrightarrow> set queue \<subseteq> set R \<Longrightarrow>
    (\<forall>b \<in> set R - set queue. flow f b \<inter> typed_ids f \<subseteq> set R) \<Longrightarrow>
    set (collect_loop f compatible queue R) = reach (\<lambda>b. flow f b \<inter> typed_ids f) (set R)"
proof (induction f compatible queue R rule: collect_loop.induct)
  case (1 f compatible R)
  then show ?case using reach_closed [of "set R" "\<lambda>b. flow f b \<inter> typed_ids f"] by (simp add: collect_loop.simps)
next
  case (2 f compatible b queue R)
  show ?case
  proof (cases "block_index f b")
    case None
    then have "flow f b = {}" using block_index_None_iff [of f b] by (auto simp: flow_def block_ids_def)
    then have "\<forall>b \<in> set R - set queue. flow f b \<inter> typed_ids f \<subseteq> set R" using "2.prems"(4) by auto
    with None 2 show ?thesis by (simp add: collect_loop.simps)
  next
    case (Some i)
    define new where "new = newly_reached f compatible (region_successors (term_of (blocks f ! i))) R"
    have new: "set new = flow f b \<inter> typed_ids f - set R"
      using set_newly_reached [OF "2.prems"(1)] successors_at [OF "2.prems"(1) Some] "2.prems"(2) by (simp add: new_def)
    have "set (collect_loop f compatible (queue @ new) (R @ new)) = reach (\<lambda>b. flow f b \<inter> typed_ids f) (set (R @ new))"
      by (rule "2.IH"(2) [OF Some new_def "2.prems"(1,2)]) (use "2.prems"(3,4) new in auto)
    moreover have "set new \<subseteq> reach (\<lambda>b. flow f b \<inter> typed_ids f) (set R)"
      using new "2.prems"(3) reach_succ [of b "\<lambda>b. flow f b \<inter> typed_ids f" "set R"] reach_base [of "set R"] by auto
    ultimately show ?thesis
      using Some by (simp add: collect_loop.simps new_def [symmetric] Let_def reach_absorb)
  qed
qed

lemma collect_compatible_exact:
  assumes "layout_ok f"
  shows "set (collect_compatible_reachable f (map is_typed_block (blocks f)) e) = reach (\<lambda>b. flow f b \<inter> typed_ids f) {e}"
  using collect_loop_exact [OF assms refl, of "[e]" "[e]"] by (simp add: collect_compatible_reachable_def)

section \<open>Pruning keeps the greatest set entered only at the entry\<close>

lemma prune_pass_subset: "set (fst (prune_pass f preds e bs R removed)) \<subseteq> set R"
proof (induction bs arbitrary: R removed)
  case (Cons b bs)
  then show ?case using Cons [of "removeAll b R" True] by (auto split: option.splits)
qed simp

lemma prune_pass_keeps:
  assumes f: "layout_ok f" and S: "entered_only_at f e S"
  shows "S \<subseteq> set R \<Longrightarrow> S \<subseteq> set (fst (prune_pass f (predecessors f) e bs R removed))"
proof (induction bs arbitrary: R removed)
  case (Cons b bs)
  have drop: "S \<subseteq> set (removeAll b R)"
    if "b \<noteq> e" "block_index f b = Some i" "p \<in> set (predecessors f ! i)" "p \<notin> set R" for i p
  proof -
    have "b \<in> flow f p" using that set_predecessors [OF f that(2)] by auto
    then have "b \<notin> S" using S that Cons.prems unfolding entered_only_at_def by blast
    then show ?thesis using Cons.prems by auto
  qed
  show ?case
  proof (cases "b \<noteq> e \<and> (\<exists>i. block_index f b = Some i \<and> (\<exists>p \<in> set (predecessors f ! i). p \<notin> set R))")
    case True
    then have "S \<subseteq> set (removeAll b R)" using drop by blast
    from Cons.IH [OF this, of True] show ?thesis using True by auto
  next
    case False
    then show ?thesis using Cons by (auto split: option.splits)
  qed
qed simp

lemma prune_pass_entry: "e \<in> set R \<Longrightarrow> e \<in> set (fst (prune_pass f preds e bs R removed))"
  by (induction bs arbitrary: R removed) (auto split: option.splits)

lemma prune_pass_True: "snd (prune_pass f preds e bs R True)"
  by (induction bs arbitrary: R) (auto split: option.splits)

lemma prune_pass_done:
  assumes "\<not> snd (prune_pass f preds e bs R False)"
  shows "fst (prune_pass f preds e bs R False) = R \<and>
    (\<forall>b \<in> set bs. b \<noteq> e \<longrightarrow> (\<forall>i. block_index f b = Some i \<longrightarrow> set (preds ! i) \<subseteq> set R))"
  using assms
proof (induction bs)
  case (Cons b bs)
  then show ?case using prune_pass_True [of f preds e bs "removeAll b R"] by (auto split: option.splits if_splits)
qed simp

definition prunes_to :: "ir_function \<Rightarrow> block_id \<Rightarrow> block_id set \<Rightarrow> block_id set \<Rightarrow> bool" where
  "prunes_to f e R P \<longleftrightarrow>
     P \<subseteq> R \<and> e \<in> P \<and> entered_only_at f e P \<and> (\<forall>S. S \<subseteq> R \<longrightarrow> entered_only_at f e S \<longrightarrow> S \<subseteq> P)"

lemma prune_loop_exact:
  assumes f: "layout_ok f"
  shows "e \<in> set R \<Longrightarrow> prunes_to f e (set R) (set (prune_loop hash f (predecessors f) e n R))"
proof (induction "length R" arbitrary: n R rule: less_induct)
  case less
  let ?pass = "prune_pass f (predecessors f) e (sort_key (hash n) R) R False"
  note step = prune_loop.simps [of hash f "predecessors f" e n R]
  show ?case
  proof (cases "snd ?pass")
    case True
    have smaller: "length (fst ?pass) < length R" using True by (intro prune_pass_shrinks) auto
    have "prunes_to f e (set (fst ?pass)) (set (prune_loop hash f (predecessors f) e (Suc n) (fst ?pass)))"
      by (rule less.hyps [OF smaller prune_pass_entry [OF less.prems]])
    then show ?thesis
      using prune_pass_subset [of f "predecessors f" e _ R False] prune_pass_keeps [OF f, of e _ R] True
      unfolding step prunes_to_def by (simp add: Let_def) blast
  next
    case False
    have closed: "entered_only_at f e (set R)"
      unfolding entered_only_at_def
    proof (intro allI impI)
      fix a c assume c: "c \<in> flow f a" "c \<in> set R" "c \<noteq> e"
      then obtain i where i: "block_index f c = Some i" using block_index_None_iff [of f c] by (auto simp: flow_def)
      then show "a \<in> set R" using prune_pass_done [OF False] c set_predecessors [OF f i] by auto
    qed
    then show ?thesis using less.prems prune_pass_done [OF False] False unfolding step prunes_to_def by (simp add: Let_def)
  qed
qed


section \<open>The region of an entry\<close>

definition region_set :: "(nat \<Rightarrow> block_id \<Rightarrow> nat) \<Rightarrow> ir_function \<Rightarrow> block_id \<Rightarrow> block_id list" where
  "region_set hash f e =
     prune_external_entries hash f (predecessors f) e (collect_compatible_reachable f (map is_typed_block (blocks f)) e)"

lemma reach_succ_mono: "(\<And>x. succ x \<subseteq> succ' x) \<Longrightarrow> reach succ R \<subseteq> reach succ' R"
  using reach_succ [of _ succ' R] by (intro reach_least reach_base) blast

lemma connected_inside:
  assumes "entered_only_at f e P" "P \<subseteq> reach (\<lambda>b. flow f b \<inter> typed_ids f) {e}" "e \<in> P"
  shows "P \<subseteq> reach (\<lambda>a. flow f a \<inter> P) {e}"
proof
  fix y assume y: "y \<in> P"
  then have "(e, y) \<in> {(a, b). b \<in> flow f a \<inter> typed_ids f}\<^sup>*" using assms(2) by (auto simp: reach_def)
  then have "y \<in> P \<longrightarrow> y \<in> reach (\<lambda>a. flow f a \<inter> P) {e}"
  proof (induction rule: rtrancl_induct)
    case base
    then show ?case using reach_base [of "{e}"] by auto
  next
    case (step y z)
    show ?case
    proof
      assume z: "z \<in> P"
      show "z \<in> reach (\<lambda>a. flow f a \<inter> P) {e}"
      proof (cases "z = e")
        case False
        then have "y \<in> P" using assms(1) step(2) z by (auto simp: entered_only_at_def)
        then show ?thesis using step z reach_succ [of y "\<lambda>a. flow f a \<inter> P" "{e}"] by auto
      qed (use reach_base [of "{e}"] in auto)
    qed
  qed
  with y show "y \<in> reach (\<lambda>a. flow f a \<inter> P) {e}" by simp
qed

lemma region_of_entry:
  assumes f: "layout_ok f" and e: "e \<in> typed_ids f"
  shows "single_entry_region f e (set (region_set hash f e))"
    and "single_entry_region f e S \<Longrightarrow> S \<subseteq> set (region_set hash f e)"
proof -
  let ?R = "reach (\<lambda>b. flow f b \<inter> typed_ids f) {e}"
  have "e \<in> ?R" using reach_base [of "{e}"] by auto
  then have P: "prunes_to f e ?R (set (region_set hash f e))"
    using prune_loop_exact [OF f, of e "collect_compatible_reachable f (map is_typed_block (blocks f)) e" hash 0]
    by (simp add: region_set_def prune_external_entries_def collect_compatible_exact [OF f])
  have "?R \<subseteq> typed_ids f" by (rule reach_least) (use e in auto)
  with P show "single_entry_region f e (set (region_set hash f e))"
    unfolding single_entry_region_def prunes_to_def by (intro conjI connected_inside) auto
  show "S \<subseteq> set (region_set hash f e)" if S: "single_entry_region f e S"
  proof -
    have "reach (\<lambda>a. flow f a \<inter> S) {e} \<subseteq> ?R"
      by (rule reach_succ_mono) (use S in \<open>auto simp: single_entry_region_def\<close>)
    then have "S \<subseteq> ?R" using S by (auto simp: single_entry_region_def)
    with P S show ?thesis by (simp add: prunes_to_def single_entry_region_def)
  qed
qed

lemma region_block_list_ids:
  assumes "layout_ok f" "set R \<subseteq> block_ids f"
  shows "set (map blk_id (region_block_list f R)) = set R" "distinct (map blk_id (region_block_list f R))"
  using assms by (auto simp: region_block_list_def block_ids_def distinct_map_filter)

lemma collect_typed_values_set: "set R = set R' \<Longrightarrow> collect_typed_values f R = collect_typed_values f R'"
  by (simp add: collect_typed_values_def)

lemma collect_typed_values_mono:
  "set R \<subseteq> set R' \<Longrightarrow> length (collect_typed_values f R) \<le> length (collect_typed_values f R')"
proof -
  assume sub: "set R \<subseteq> set R'"
  have "length (concat (map g (filter (\<lambda>b. blk_id b \<in> set R) bs))) \<le> length (concat (map g (filter (\<lambda>b. blk_id b \<in> set R') bs)))"
    for g :: "block \<Rightarrow> typed_value list" and bs
    using sub by (induction bs) auto
  then show ?thesis by (simp add: collect_typed_values_def)
qed

section \<open>The best candidate\<close>

definition candidate :: "(block_id \<Rightarrow> nat \<Rightarrow> block_id \<Rightarrow> nat) \<Rightarrow> ir_function \<Rightarrow> nat \<Rightarrow> typed_region option" where
  "candidate hash f i =
     (if is_typed_block (blocks f ! i)
      then build_region (hash (blk_id (blocks f ! i))) f (map is_typed_block (blocks f)) (predecessors f) (blk_id (blocks f ! i))
      else None)"

definition best_so_far :: "(nat \<Rightarrow> typed_region option) \<Rightarrow> nat set \<Rightarrow> typed_region option \<Rightarrow> bool" where
  "best_so_far cand I best \<longleftrightarrow>
     (case best of
        None \<Rightarrow> \<forall>i \<in> I. cand i = None
      | Some b \<Rightarrow> (\<exists>i \<in> I. cand i = Some b) \<and> (\<forall>i \<in> I. \<forall>c. cand i = Some c \<longrightarrow> \<not> tuple_gt (region_size c) (region_size b)))"

lemma tuple_gt_irrefl: "\<not> tuple_gt a a"
  by (simp add: tuple_gt_def)

lemma tuple_gt_le: "tuple_gt c a \<Longrightarrow> tuple_gt a b \<Longrightarrow> tuple_gt c b"
  by (auto simp: tuple_gt_def)

lemma tuple_le_trans: "\<not> tuple_gt a b \<Longrightarrow> \<not> tuple_gt b c \<Longrightarrow> \<not> tuple_gt a c"
  by (auto simp: tuple_gt_def)

lemma best_step:
  assumes "best_so_far cand I best"
  shows "best_so_far cand (insert i I)
    (case cand i of None \<Rightarrow> best | Some c \<Rightarrow> if is_better_region c best then Some c else best)"
  using assms
  by (cases "cand i"; cases best)
    (auto simp: best_so_far_def is_better_region_def tuple_gt_irrefl dest: tuple_gt_le)

lemma find_best: "best_so_far (candidate hash f) {..<length (blocks f)} (find_maximal_typed_region hash f)"
proof -
  have step: "consider_entry hash f i best =
      (case candidate hash f i of None \<Rightarrow> best | Some c \<Rightarrow> if is_better_region c best then Some c else best)"
    if "i < length (blocks f)" for i best
    using that by (simp add: consider_entry_def candidate_def Let_def)
  have "best_so_far (candidate hash f) {..<n} (fold (consider_entry hash f) [0..<n] None)" if "n \<le> length (blocks f)" for n
    using that
  proof (induction n)
    case (Suc n)
    then show ?case
      using best_step [of "candidate hash f" "{..<n}" "fold (consider_entry hash f) [0..<n] None" n]
      by (simp add: step lessThan_Suc)
  qed (simp add: best_so_far_def)
  then show ?thesis by (simp add: find_maximal_typed_region_def)
qed


lemma typed_ids_sub: "typed_ids f \<subseteq> block_ids f"
  by (auto simp: typed_ids_def block_ids_def)

lemma build_region_eq:
  assumes f: "layout_ok f" and e: "e \<in> typed_ids f"
  shows "build_region h f (map is_typed_block (blocks f)) (predecessors f) e =
    (let R = region_set h f e in
     if collect_typed_values f R = [] then None
     else Some \<lparr>entry = e, region_blocks = map blk_id (region_block_list f R), region_values = collect_typed_values f R,
                live_ins = collect_live_ins f R, exits = collect_exits f R\<rparr>)"
proof -
  have "e \<in> set (region_set h f e)" "set (region_set h f e) \<subseteq> block_ids f"
    using region_of_entry(1) [OF f e, of h] typed_ids_sub by (auto simp: single_entry_region_def)
  then have "map blk_id (region_block_list f (region_set h f e)) \<noteq> []"
    using region_block_list_ids(1) [OF f] by (metis empty_iff empty_set)
  then show ?thesis by (simp add: build_region_def region_set_def [symmetric] Let_def)
qed

lemma candidate_typed:
  assumes "layout_ok f" "candidate hash f i = Some r" "i < length (blocks f)"
  obtains e where "e \<in> typed_ids f" "entry r = e" "collect_typed_values f (region_set (hash e) f e) \<noteq> []"
    "region_blocks r = map blk_id (region_block_list f (region_set (hash e) f e))"
    "region_values r = collect_typed_values f (region_set (hash e) f e)"
    "live_ins r = collect_live_ins f (region_set (hash e) f e)" "exits r = collect_exits f (region_set (hash e) f e)"
proof -
  have e: "blk_id (blocks f ! i) \<in> typed_ids f"
    using assms by (auto simp: candidate_def typed_ids_def split: if_splits)
  then show ?thesis
    using that [OF e] assms build_region_eq [OF assms(1) e, of "hash (blk_id (blocks f ! i))"]
    by (auto simp: candidate_def Let_def split: if_splits)
qed

lemma found_region:
  assumes "layout_ok f" "find_maximal_typed_region hash f = Some r"
  obtains R where "single_entry_region f (entry r) (set R)" "collect_typed_values f R \<noteq> []"
    "region_blocks r = map blk_id (region_block_list f R)" "set (region_blocks r) = set R" "distinct (region_blocks r)"
    "region_values r = collect_typed_values f R" "live_ins r = collect_live_ins f R" "exits r = collect_exits f R"
proof -
  obtain i where "i < length (blocks f)" "candidate hash f i = Some r"
    using find_best [of hash f] assms(2) by (auto simp: best_so_far_def)
  then obtain e where e: "e \<in> typed_ids f" "entry r = e" "collect_typed_values f (region_set (hash e) f e) \<noteq> []"
    "region_blocks r = map blk_id (region_block_list f (region_set (hash e) f e))"
    "region_values r = collect_typed_values f (region_set (hash e) f e)"
    "live_ins r = collect_live_ins f (region_set (hash e) f e)" "exits r = collect_exits f (region_set (hash e) f e)"
    using candidate_typed [OF assms(1)] by metis
  have se: "single_entry_region f e (set (region_set (hash e) f e))" by (rule region_of_entry(1) [OF assms(1) e(1)])
  then have "set (region_set (hash e) f e) \<subseteq> block_ids f" using typed_ids_sub by (auto simp: single_entry_region_def)
  from region_block_list_ids [OF assms(1) this] show ?thesis
    using that [of "region_set (hash e) f e"] e se by metis
qed

lemma every_region_considered:
  assumes f: "layout_ok f" and S: "single_entry_region f e (set bs)" "collect_typed_values f bs \<noteq> []"
  obtains i c where "i < length (blocks f)" "candidate hash f i = Some c"
    "\<not> tuple_gt (card (set bs), length (collect_typed_values f bs)) (region_size c)"
proof -
  have e: "e \<in> typed_ids f" using S(1) by (auto simp: single_entry_region_def)
  then obtain i where i: "i < length (blocks f)" "is_typed_block (blocks f ! i)" "blk_id (blocks f ! i) = e"
    by (auto simp: typed_ids_def in_set_conv_nth)
  let ?R = "region_set (hash e) f e"
  have sub: "set bs \<subseteq> set ?R" by (rule region_of_entry(2) [OF f e S(1)])
  have ids: "set ?R \<subseteq> block_ids f"
    using region_of_entry(1) [OF f e, of "hash e"] typed_ids_sub by (auto simp: single_entry_region_def)
  have le: "length (collect_typed_values f bs) \<le> length (collect_typed_values f ?R)"
    by (rule collect_typed_values_mono [OF sub])
  then have "collect_typed_values f ?R \<noteq> []" using S(2) by auto
  then obtain c where c: "candidate hash f i = Some c"
    "region_size c = (length (map blk_id (region_block_list f ?R)), length (collect_typed_values f ?R))"
    using i build_region_eq [OF f e, of "hash e"] by (auto simp: candidate_def region_size_def Let_def)
  have "length (map blk_id (region_block_list f ?R)) = card (set ?R)"
    using region_block_list_ids [OF f ids] distinct_card by metis
  then show ?thesis using that [OF i(1) c(1)] c(2) le card_mono [OF _ sub] by (auto simp: tuple_gt_def)
qed

lemma found_region_maximal:
  assumes "layout_ok f"
  shows "case find_maximal_typed_region hash f of
      None \<Rightarrow> \<not> (\<exists>e bs. single_entry_region f e (set bs) \<and> collect_typed_values f bs \<noteq> [])
    | Some r \<Rightarrow>
        single_entry_region f (entry r) (set (region_blocks r)) \<and> distinct (region_blocks r) \<and>
        region_values r = collect_typed_values f (region_blocks r) \<and> region_values r \<noteq> [] \<and>
        \<not> (\<exists>e bs. single_entry_region f e (set bs) \<and> collect_typed_values f bs \<noteq> [] \<and>
              tuple_gt (card (set bs), length (collect_typed_values f bs)) (region_size r))"
proof (cases "find_maximal_typed_region hash f")
  case None
  then have "candidate hash f i = None" if "i < length (blocks f)" for i
    using find_best [of hash f] that by (auto simp: best_so_far_def)
  then have "\<not> (\<exists>e bs. single_entry_region f e (set bs) \<and> collect_typed_values f bs \<noteq> [])"
    using every_region_considered [OF assms] by (metis option.distinct(1))
  with None show ?thesis by simp
next
  case (Some r)
  have best: "\<not> tuple_gt (region_size c) (region_size r)" if "i < length (blocks f)" "candidate hash f i = Some c" for i c
    using find_best [of hash f] that Some by (auto simp: best_so_far_def)
  obtain R where R: "single_entry_region f (entry r) (set R)" "collect_typed_values f R \<noteq> []"
    "set (region_blocks r) = set R" "distinct (region_blocks r)" "region_values r = collect_typed_values f R"
    using found_region [OF assms Some] by metis
  have "\<not> tuple_gt (card (set bs), length (collect_typed_values f bs)) (region_size r)"
    if bs: "single_entry_region f e (set bs)" "collect_typed_values f bs \<noteq> []" for e bs
  proof -
    obtain i c where c: "i < length (blocks f)" "candidate hash f i = Some c"
      "\<not> tuple_gt (card (set bs), length (collect_typed_values f bs)) (region_size c)"
      by (rule every_region_considered [OF assms bs])
    show ?thesis by (rule tuple_le_trans [OF c(3) best [OF c(1,2)]])
  qed
  with R Some show ?thesis using collect_typed_values_set [OF R(3)] by auto
qed


text \<open>
  The function's first block is also entered by every call.  A block of a region other than its entry
  has a predecessor inside the region, so as long as no block jumps back to the first block, a call
  too enters the region at its entry or not at all.
\<close>

lemma region_first_block:
  assumes "single_entry_region f e S" "b \<in> S" "\<And>a. b \<notin> flow f a"
  shows "b = e"
proof -
  have "b \<in> reach (\<lambda>a. flow f a \<inter> S) {e}" using assms(1,2) by (auto simp: single_entry_region_def)
  then have "(e, b) \<in> {(a, c). c \<in> flow f a \<inter> S}\<^sup>*" by (simp add: reach_def)
  then show ?thesis using assms(3) by (cases rule: rtranclE) auto
qed

text \<open>
  C6. The region found is a single-entry typed region: every block of it is typed, an edge from a block
  outside it leads only to its entry, and every block is reachable from the entry inside it.  A call
  of the function, which enters its first block, also enters the region only at its entry, provided
  no block jumps back to the first block (a first block that is a jump target may lie elsewhere
  in the region).  The region is the largest one: no single-entry typed region of the function that
  produces an unboxed value has more blocks, or as many blocks and more values; and when nothing is
  found, there is none.  This holds for every order in which the block sets are iterated.
\<close>
theorem find_region_maximal:
  assumes "layout_ok f"
  shows "case find_maximal_typed_region hash f of
      None \<Rightarrow> \<not> (\<exists>e bs. single_entry_region f e (set bs) \<and> collect_typed_values f bs \<noteq> [])
    | Some r \<Rightarrow>
        single_entry_region f (entry r) (set (region_blocks r)) \<and> distinct (region_blocks r) \<and>
        ((\<forall>a. blk_id (hd (blocks f)) \<notin> flow f a) \<and> blk_id (hd (blocks f)) \<in> set (region_blocks r) \<longrightarrow>
           blk_id (hd (blocks f)) = entry r) \<and>
        region_values r = collect_typed_values f (region_blocks r) \<and> region_values r \<noteq> [] \<and>
        \<not> (\<exists>e bs. single_entry_region f e (set bs) \<and> collect_typed_values f bs \<noteq> [] \<and>
              tuple_gt (card (set bs), length (collect_typed_values f bs)) (region_size r))"
  using found_region_maximal [OF assms, of hash] region_first_block by (auto split: option.splits)

section \<open>The interface of a region\<close>

lemma set_push_exits:
  "set (push_exits R acc es) =
     set acc \<union> {\<lparr>exit_from = a, exit_to = c, exit_kind = k\<rparr> | a c k. (a, c, k) \<in> set es \<and> c \<notin> set R}"
proof (induction R acc es rule: push_exits.induct)
  case (2 R acc a c k es)
  show ?case
    using 2 by (cases "c \<notin> set R \<and> \<lparr>exit_from = a, exit_to = c, exit_kind = k\<rparr> \<notin> set acc") (auto simp: Let_def)
qed simp

lemma push_live_ins_values:
  "ti_value ` set (push_live_ins f made seen vs) = set vs - set made - set seen"
  "distinct (map ti_value (push_live_ins f made seen vs))"
proof (induction f made seen vs rule: push_live_ins.induct)
  case (2 f made seen v vs)
  { case 1 show ?case using 2 by auto }
  { case 2 show ?case using "2.IH" by auto }
qed auto

text \<open>
  The region's interface is complete: its exits are exactly the control-flow edges that leave it,
  and its live-ins are, without repetition, exactly the values read by its instructions and
  terminators that no instruction of the region produces.
\<close>
theorem region_interface_exact:
  assumes "layout_ok f" "find_maximal_typed_region hash f = Some r"
  shows "set (exits r) =
      {\<lparr>exit_from = blk_id blk, exit_to = c, exit_kind = k\<rparr> | blk c k.
         blk \<in> set (blocks f) \<and> blk_id blk \<in> set (region_blocks r) \<and> (c, k) \<in> set (successor_edges (term_of blk)) \<and>
         c \<notin> set (region_blocks r)} \<and>
    ti_value ` set (live_ins r) =
      (\<Union>blk \<in> set (region_block_list f (region_blocks r)). set (block_operands blk)) - set (produced f (region_blocks r)) \<and>
    distinct (map ti_value (live_ins r))"
proof (intro conjI)
  obtain R where R: "set (region_blocks r) = set R" "live_ins r = collect_live_ins f R" "exits r = collect_exits f R"
    using found_region [OF assms] by metis
  have same: "region_block_list f (region_blocks r) = region_block_list f R" by (simp add: region_block_list_def R(1))
  show "set (exits r) =
      {\<lparr>exit_from = blk_id blk, exit_to = c, exit_kind = k\<rparr> | blk c k.
         blk \<in> set (blocks f) \<and> blk_id blk \<in> set (region_blocks r) \<and> (c, k) \<in> set (successor_edges (term_of blk)) \<and>
         c \<notin> set (region_blocks r)}"
    unfolding R collect_exits_def set_push_exits by (force simp: region_block_list_def)
  show "ti_value ` set (live_ins r) =
      (\<Union>blk \<in> set (region_block_list f (region_blocks r)). set (block_operands blk)) - set (produced f (region_blocks r))"
    unfolding R(2) collect_live_ins_def push_live_ins_values same by (simp add: produced_def same)
  show "distinct (map ti_value (live_ins r))"
    unfolding R(2) collect_live_ins_def by (rule push_live_ins_values)
qed

section \<open>The function's own entry\<close>

text \<open>
  Calling a function enters its first block, but that edge is in no predecessor list.  The sample
  function branches from block 0 to block 2, directly or through the untyped block 1, and block 2
  jumps back to block 0.
\<close>

definition sample_block :: "block_id \<Rightarrow> inst_kind \<Rightarrow> terminator \<Rightarrow> block" where
  "sample_block b k t = \<lparr>blk_id = b, insts = [inst_new b k], term_of = t\<rparr>"

definition sample_function :: ir_function where
  "sample_function =
     \<lparr>fn_name = ''loop'', arity = 0, is_coroutine = False, is_generator = False, is_async_generator = False,
      params = \<lparr>param_names = [], positional_only_count = 0, positional_count = 0, keyword_only_count = 0,
                vararg_name = None, kwarg_name = None\<rparr>,
      blocks = [sample_block 0 (Const (CInt 1)) (Branch 0 2 1), sample_block 1 (LoadGlobal 0) (Jump 2),
                sample_block 2 (Const (CInt 2)) (Jump 0)],
      n_locals = 0\<rparr>"

lemma sample_layout: "layout_ok sample_function"
  by (simp add: sample_function_def sample_block_def)

lemma sample_kinds:
  "is_fast_path_kind (Const (CInt n)) = True" "is_fast_path_kind (LoadGlobal g) = False"
  "fast_path_result_type (Const (CInt n)) = None" "literal_unboxed_type (Const (CInt n)) = Some TyIntI64"
  by (simp_all add: is_fast_path_kind_def fast_path_result_type_def literal_unboxed_type_def)

lemma sample_insts:
  "is_typed_inst (inst_new b (Const (CInt n))) = True" "is_typed_inst (inst_new b (LoadGlobal g)) = False"
  by (simp_all add: is_typed_inst_def inst_new_def inst_unboxed_type_def is_unboxable_def sample_kinds)

lemma sample_typed: "typed_ids sample_function = {0, 2}"
proof -
  have "is_typed_block (sample_block b (Const (CInt n)) (Branch v t e))" "is_typed_block (sample_block b (Const (CInt n)) (Jump t))"
    "\<not> is_typed_block (sample_block b (LoadGlobal g) (Jump t))" for b n v t e g
    by (simp_all add: is_typed_block_def sample_block_def sample_insts is_region_terminator_def)
  then have "{blk \<in> set (blocks sample_function). is_typed_block blk} =
      {sample_block 0 (Const (CInt 1)) (Branch 0 2 1), sample_block 2 (Const (CInt 2)) (Jump 0)}"
    by (auto simp: sample_function_def)
  then show ?thesis by (simp add: typed_ids_def) (simp add: sample_block_def)
qed

lemma sample_flow: "flow sample_function a = (if a = 0 then {1, 2} else if a = 1 then {2} else if a = 2 then {0} else {})"
  by (auto simp: flow_def sample_function_def sample_block_def block_ids_def region_successors_def)

lemma sample_region: "single_entry_region sample_function 2 {0, 2}"
proof -
  have "0 \<in> reach (\<lambda>a. flow sample_function a \<inter> {0, 2}) {2}"
    using reach_succ [of 2 "\<lambda>a. flow sample_function a \<inter> {0, 2}" "{2}"] reach_base [of "{2}"] by (auto simp: sample_flow)
  then show ?thesis
    using reach_base [of "{2}" "\<lambda>a. flow sample_function a \<inter> {0, 2}"]
    by (auto simp: single_entry_region_def entered_only_at_def sample_typed sample_flow split: if_splits)
qed


lemma sample_values: "collect_typed_values sample_function [0, 2] \<noteq> []"
  by (simp add: collect_typed_values_def sample_function_def typed_values_of_def inst_new_def inst_unboxed_type_def is_unboxable_def
      sample_kinds List.map_filter_simps, simp add: sample_block_def List.map_filter_simps inst_new_def inst_unboxed_type_def
      is_unboxable_def sample_kinds)

lemma sample_found:
  obtains r where "find_maximal_typed_region hash sample_function = Some r" "set (region_blocks r) = {0, 2}" "entry r = 2"
proof -
  note max = found_region_maximal [OF sample_layout, of hash]
  have region: "single_entry_region sample_function 2 (set [0, 2])" using sample_region by simp
  then obtain r where r: "find_maximal_typed_region hash sample_function = Some r"
    using max sample_values by (cases "find_maximal_typed_region hash sample_function") auto
  then have se: "single_entry_region sample_function (entry r) (set (region_blocks r))" "distinct (region_blocks r)"
    and none: "\<not> (\<exists>e bs. single_entry_region sample_function e (set bs) \<and> collect_typed_values sample_function bs \<noteq> [] \<and>
      tuple_gt (card (set bs), length (collect_typed_values sample_function bs)) (region_size r))"
    using max by simp_all
  then have big: "\<not> tuple_gt (card (set [0, 2 :: nat]), length (collect_typed_values sample_function [0, 2])) (region_size r)"
    using region sample_values by blast
  have sub: "set (region_blocks r) \<subseteq> {0, 2}" using se(1) by (simp add: single_entry_region_def sample_typed)
  have "length (region_blocks r) \<ge> 2" using big by (auto simp: tuple_gt_def region_size_def)
  then have "card (set (region_blocks r)) \<ge> 2" using distinct_card [OF se(2)] by simp
  then have S: "set (region_blocks r) = {0, 2}" using sub by (intro card_seteq) auto
  have "entry r \<noteq> 0"
  proof
    assume "entry r = 0"
    moreover have "2 \<in> flow sample_function 1" by (simp add: sample_flow)
    ultimately have "1 \<in> {0, 2 :: nat}" using se(1) unfolding S single_entry_region_def entered_only_at_def by auto
    then show False by simp
  qed
  moreover have "entry r \<in> {0, 2}" using se(1) unfolding S single_entry_region_def by blast
  ultimately show ?thesis using that r S by auto
qed

text \<open>
  The claim that external control flow can only enter a region at its entry fails for the edge
  from the caller: in the sample function the region found starts at block 2 and contains block 0,
  the block every call of the function enters.
\<close>
theorem region_hides_function_entry:
  "\<exists>r. find_maximal_typed_region hash sample_function = Some r \<and>
     blk_id (hd (blocks sample_function)) \<in> set (region_blocks r) \<and> entry r \<noteq> blk_id (hd (blocks sample_function))"
proof -
  obtain r where "find_maximal_typed_region hash sample_function = Some r" "set (region_blocks r) = {0, 2}" "entry r = 2"
    by (rule sample_found)
  then show ?thesis by (simp add: sample_function_def sample_block_def)
qed

text \<open>A typed first block that jumps to an untyped loop.\<close>

definition entry_function :: ir_function where
  "entry_function = sample_function
     \<lparr>blocks := [sample_block 0 (Const (CInt 1)) (Jump 1), sample_block 1 (LoadGlobal 0) (Jump 1)]\<rparr>"

lemma entry_function_facts:
  "layout_ok entry_function" "blk_id (hd (blocks entry_function)) = 0" "typed_ids entry_function = {0}"
  "flow entry_function a = (if a = 0 \<or> a = 1 then {1} else {})"
  "collect_typed_values entry_function [0] \<noteq> []"
proof -
  have typed: "is_typed_block (sample_block 0 (Const (CInt 1)) (Jump 1))" "\<not> is_typed_block (sample_block 1 (LoadGlobal 0) (Jump 1))"
    by (simp_all add: is_typed_block_def sample_block_def sample_insts is_region_terminator_def)
  then have "{blk \<in> set (blocks entry_function). is_typed_block blk} = {sample_block 0 (Const (CInt 1)) (Jump 1)}"
    by (auto simp: entry_function_def)
  then show "typed_ids entry_function = {0}" by (simp add: typed_ids_def) (simp add: sample_block_def)
  show "flow entry_function a = (if a = 0 \<or> a = 1 then {1} else {})"
    by (auto simp: flow_def entry_function_def sample_block_def block_ids_def region_successors_def)
  show "collect_typed_values entry_function [0] \<noteq> []"
    by (simp add: collect_typed_values_def entry_function_def typed_values_of_def inst_new_def inst_unboxed_type_def is_unboxable_def
        sample_kinds List.map_filter_simps, simp add: sample_block_def List.map_filter_simps inst_new_def inst_unboxed_type_def
        is_unboxable_def sample_kinds)
qed (simp_all add: entry_function_def sample_block_def)

lemma entry_region: "single_entry_region entry_function 0 (set [0])"
  using reach_base [of "{0}" "\<lambda>a. flow entry_function a \<inter> {0}"]
  by (auto simp: single_entry_region_def entered_only_at_def entry_function_facts split: if_splits)

theorem find_region_maximal_witness:
  "\<exists>r. find_maximal_typed_region (\<lambda>e n b. b) entry_function = Some r \<and> entry r = 0 \<and> set (region_blocks r) = {0} \<and>
     single_entry_region entry_function (entry r) (set (region_blocks r))"
proof -
  note found = find_region_maximal [OF entry_function_facts(1), of "\<lambda>e n b. b"]
  then obtain r where r: "find_maximal_typed_region (\<lambda>e n b. b) entry_function = Some r"
    using entry_region entry_function_facts(5) by (auto split: option.splits)
  then have region: "single_entry_region entry_function (entry r) (set (region_blocks r))" using found by simp
  then have "set (region_blocks r) = {0}" "entry r = 0" by (auto simp: single_entry_region_def entry_function_facts)
  then show ?thesis using r region by simp
qed

theorem region_interface_exact_witness:
  "\<exists>r. find_maximal_typed_region (\<lambda>e n b. b) sample_function = Some r \<and>
     \<lparr>exit_from = 0, exit_to = 1, exit_kind = ExitBranch\<rparr> \<in> set (exits r)"
proof -
  obtain r where r: "find_maximal_typed_region (\<lambda>e n b. b) sample_function = Some r" "set (region_blocks r) = {0, 2}"
    by (rule sample_found)
  have "\<lparr>exit_from = 0, exit_to = 1, exit_kind = ExitBranch\<rparr> \<in> set (exits r)"
    unfolding region_interface_exact [OF sample_layout r(1), THEN conjunct1] r(2)
    by (rule CollectI, rule exI [of _ "hd (blocks sample_function)"])
      (simp add: sample_function_def sample_block_def)
  with r(1) show ?thesis by blast
qed

end
