(* ===== verification/Ir_Liveness.thy ===== *)
theory Ir_Liveness
  imports Ir_Operands
begin

text \<open>
  The backward liveness analysis of \<^verbatim>\<open>pon-codegen/src/baseline.rs\<close> (\<open>osr_live_values\<close>) and
  \<^verbatim>\<open>pon-codegen/src/baseline/spill.rs\<close> (\<open>TempSpillPlan::compute\<close>).  The two share their data-flow
  equations; the spill planner adds an edge from every block to the exception handlers that are
  active in it, which is the parameter \<open>extra\<close>.
\<close>

section \<open>Data-flow equations\<close>

fun scan_insts :: "inst list \<Rightarrow> value_id set \<Rightarrow> value_id set \<Rightarrow> value_id set \<times> value_id set" where
  "scan_insts [] gen kill = (gen, kill)"
| "scan_insts (i # is) gen kill =
     scan_insts is (gen \<union> (set (inst_operands (kind i)) - kill)) (insert (result i) kill)"

definition block_kill :: "block \<Rightarrow> value_id set" where
  "block_kill blk = snd (scan_insts (insts blk) {} {})"

definition block_gen :: "block \<Rightarrow> value_id set" where
  "block_gen blk = fst (scan_insts (insts blk) {} {}) \<union> (set (terminator_operands (term_of blk)) - block_kill blk)"

type_synonym live_map = "block_id \<Rightarrow> value_id set"

definition out_edges :: "(block_id \<Rightarrow> block_id list) \<Rightarrow> block \<Rightarrow> block_id list" where
  "out_edges extra blk = successors (term_of blk) @ extra (blk_id blk)"

definition live_out :: "(block_id \<Rightarrow> block_id list) \<Rightarrow> live_map \<Rightarrow> block \<Rightarrow> value_id set" where
  "live_out extra live blk = (\<Union>s \<in> set (out_edges extra blk). live s)"

definition live_next :: "(block_id \<Rightarrow> block_id list) \<Rightarrow> live_map \<Rightarrow> block \<Rightarrow> value_id set" where
  "live_next extra live blk = block_gen blk \<union> (live_out extra live blk - block_kill blk)"

definition live_visit :: "(block_id \<Rightarrow> block_id list) \<Rightarrow> block \<Rightarrow> live_map \<times> bool \<Rightarrow> live_map \<times> bool" where
  "live_visit extra blk s =
     (let live = fst s; next = live_next extra live blk
      in if live (blk_id blk) \<noteq> next then (live(blk_id blk := next), True) else s)"

definition live_pass :: "(block_id \<Rightarrow> block_id list) \<Rightarrow> ir_function \<Rightarrow> live_map \<times> bool \<Rightarrow> live_map \<times> bool" where
  "live_pass extra f s = fold (live_visit extra) (rev (blocks f)) (fst s, False)"

definition live_fixpoint :: "(block_id \<Rightarrow> block_id list) \<Rightarrow> ir_function \<Rightarrow> (unit + live_map \<times> bool) option" where
  "live_fixpoint extra f = run_loop (\<lambda>s. \<not> snd s) (\<lambda>s. Inr (live_pass extra f s)) (\<lambda>_. {}, True)"

definition osr_live_values :: "ir_function \<Rightarrow> block_id \<Rightarrow> value_id list option" where
  "osr_live_values f header =
     (case live_fixpoint (\<lambda>_. []) f of
        Some (Inr s) \<Rightarrow> Some (sorted_list_of_set (fst s header))
      | _ \<Rightarrow> None)"

section \<open>Liveness along paths\<close>

text \<open>
  A value is live at a program point when some path from there reads it before anything writes it.
  The point \<open>n\<close> of a block stands before its \<open>n\<close>-th instruction; the last point before its terminator.
\<close>

inductive live_at :: "(block_id \<Rightarrow> block_id list) \<Rightarrow> ir_function \<Rightarrow> block \<Rightarrow> nat \<Rightarrow> value_id \<Rightarrow> bool" for extra f where
  reads: "n < length (insts blk) \<Longrightarrow> v \<in> inst_reads (kind (insts blk ! n)) \<Longrightarrow> live_at extra f blk n v"
| keeps: "n < length (insts blk) \<Longrightarrow> result (insts blk ! n) \<noteq> v \<Longrightarrow> live_at extra f blk (Suc n) v \<Longrightarrow> live_at extra f blk n v"
| term_read: "v \<in> term_reads (term_of blk) \<Longrightarrow> live_at extra f blk (length (insts blk)) v"
| leaves: "blk' \<in> set (blocks f) \<Longrightarrow> blk_id blk' \<in> set (out_edges extra blk) \<Longrightarrow> live_at extra f blk' 0 v \<Longrightarrow>
    live_at extra f blk (length (insts blk)) v"

text \<open>What the analysis can see: the same paths, with the operands the walker reports.\<close>

inductive seen_at :: "(block_id \<Rightarrow> block_id list) \<Rightarrow> ir_function \<Rightarrow> block \<Rightarrow> nat \<Rightarrow> value_id \<Rightarrow> bool" for extra f where
  read: "n < length (insts blk) \<Longrightarrow> v \<in> set (inst_operands (kind (insts blk ! n))) \<Longrightarrow> seen_at extra f blk n v"
| pass: "n < length (insts blk) \<Longrightarrow> result (insts blk ! n) \<noteq> v \<Longrightarrow> seen_at extra f blk (Suc n) v \<Longrightarrow> seen_at extra f blk n v"
| read_term: "v \<in> set (terminator_operands (term_of blk)) \<Longrightarrow> seen_at extra f blk (length (insts blk)) v"
| edge: "blk' \<in> set (blocks f) \<Longrightarrow> blk_id blk' \<in> set (out_edges extra blk) \<Longrightarrow> seen_at extra f blk' 0 v \<Longrightarrow>
    seen_at extra f blk (length (insts blk)) v"

lemma seen_at_live:
  "seen_at extra f blk n v \<Longrightarrow> live_at extra f blk n v"
proof (induction rule: seen_at.induct)
  case (read n blk v)
  then show ?case by (auto simp: inst_operands_reads intro: live_at.reads split: if_splits)
qed (auto simp: terminator_operands_reads intro: live_at.intros)

lemma live_at_seen:
  assumes "reads_reported f"
  shows "live_at extra f blk n v \<Longrightarrow> blk \<in> set (blocks f) \<Longrightarrow> seen_at extra f blk n v"
proof (induction rule: live_at.induct)
  case (reads n blk v)
  then have "\<not> hides_operands (kind (insts blk ! n))"
    using assms by (auto simp: reads_reported_def list_all_iff)
  then show ?case using reads by (auto simp: inst_operands_reads intro: seen_at.read)
next
  case (term_read v blk)
  then show ?case by (auto simp: terminator_operands_reads intro: seen_at.read_term)
next
  case (leaves blk' blk v)
  then show ?case by (auto intro: seen_at.edge)
qed (auto intro: seen_at.pass)

lemma live_at_iff_seen: "reads_reported f \<Longrightarrow> blk \<in> set (blocks f) \<Longrightarrow> live_at extra f blk n v \<longleftrightarrow> seen_at extra f blk n v"
  using seen_at_live live_at_seen by blast

fun walk_back :: "inst list \<Rightarrow> value_id set \<Rightarrow> value_id set" where
  "walk_back [] X = X"
| "walk_back (i # is) X = set (inst_operands (kind i)) \<union> (walk_back is X - {result i})"

definition live_end :: "(block_id \<Rightarrow> block_id list) \<Rightarrow> live_map \<Rightarrow> block \<Rightarrow> value_id set" where
  "live_end extra live blk = set (terminator_operands (term_of blk)) \<union> live_out extra live blk"

lemma scan_insts_eq: "fst (scan_insts is gen kill) \<union> (X - snd (scan_insts is gen kill)) = gen \<union> (walk_back is X - kill)"
proof (induction "is" arbitrary: gen kill)
  case (Cons i "is")
  show ?case unfolding scan_insts.simps Cons.IH by auto
qed simp

lemma live_next_walk: "live_next extra live blk = walk_back (insts blk) (live_end extra live blk)"
  using scan_insts_eq [of "insts blk" "{}" "{}" "live_end extra live blk"]
  by (auto simp: live_next_def block_gen_def block_kill_def live_end_def)

lemma walk_back_mono: "X \<subseteq> Y \<Longrightarrow> walk_back is X \<subseteq> walk_back is Y"
  by (induction "is") auto

lemma live_next_mono: "(\<And>b. live b \<subseteq> live' b) \<Longrightarrow> live_next extra live blk \<subseteq> live_next extra live' blk"
  unfolding live_next_walk live_end_def live_out_def by (intro walk_back_mono) blast

text \<open>Walking back over a suffix of a block follows the paths.\<close>

lemma walk_back_live:
  assumes X: "\<And>v. v \<in> X \<Longrightarrow> seen_at extra f blk (length (insts blk)) v" and n: "n \<le> length (insts blk)"
  shows "v \<in> walk_back (drop n (insts blk)) X \<Longrightarrow> seen_at extra f blk n v"
  using n
proof (induction "length (insts blk) - n" arbitrary: n v)
  case 0
  then show ?case using X by simp
next
  case (Suc k)
  then have n: "n < length (insts blk)" by simp
  from Suc.prems(1) Cons_nth_drop_Suc [OF n, symmetric]
  consider "v \<in> set (inst_operands (kind (insts blk ! n)))"
    | "v \<in> walk_back (drop (Suc n) (insts blk)) X" "v \<noteq> result (insts blk ! n)" by force
  then show ?case
    using read [OF n] pass [OF n] Suc.hyps(1) [of "Suc n" v] Suc.hyps(2) n by cases auto
qed

lemma seen_at_walk_back:
  assumes closed: "\<And>blk. blk \<in> set (blocks f) \<Longrightarrow> live_next extra live blk \<subseteq> live (blk_id blk)"
  shows "seen_at extra f blk n v \<Longrightarrow> n \<le> length (insts blk) \<and> v \<in> walk_back (drop n (insts blk)) (live_end extra live blk)"
proof (induction rule: seen_at.induct)
  case (read n blk v)
  then show ?case by (simp add: Cons_nth_drop_Suc [symmetric])
next
  case (pass n blk v)
  then show ?case by (simp add: Cons_nth_drop_Suc [symmetric])
next
  case (read_term v blk)
  then show ?case by (simp add: live_end_def)
next
  case (edge blk' blk v)
  then have "v \<in> live (blk_id blk')" using closed [OF edge(1)] by (auto simp: live_next_walk)
  then show ?case using edge(2) by (auto simp: live_end_def live_out_def)
qed


section \<open>The fixpoint loop\<close>

definition mentioned :: "ir_function \<Rightarrow> value_id set" where
  "mentioned f = (\<Union>blk \<in> set (blocks f).
     (\<Union>i \<in> set (insts blk). set (inst_operands (kind i))) \<union> set (terminator_operands (term_of blk)))"

lemma finite_mentioned [simp]: "finite (mentioned f)"
  by (simp add: mentioned_def)

lemma seen_at_mentioned: "seen_at extra f blk n v \<Longrightarrow> blk \<in> set (blocks f) \<Longrightarrow> v \<in> mentioned f"
proof (induction rule: seen_at.induct)
  case (read n blk v)
  then show ?case unfolding mentioned_def using nth_mem [OF read(1)] by blast
qed (auto simp: mentioned_def)

definition live_sound :: "(block_id \<Rightarrow> block_id list) \<Rightarrow> ir_function \<Rightarrow> live_map \<Rightarrow> bool" where
  "live_sound extra f live \<longleftrightarrow>
     (\<forall>blk \<in> set (blocks f). live (blk_id blk) \<subseteq> live_next extra live blk) \<and>
     (\<forall>blk \<in> set (blocks f). \<forall>v \<in> live (blk_id blk). seen_at extra f blk 0 v) \<and>
     (\<forall>b. b \<notin> block_ids f \<longrightarrow> live b = {})"

abbreviation unique_ids :: "ir_function \<Rightarrow> bool" where
  "unique_ids f \<equiv> distinct (map blk_id (blocks f))"

lemma unique_block: "unique_ids f \<Longrightarrow> a \<in> set (blocks f) \<Longrightarrow> b \<in> set (blocks f) \<Longrightarrow> blk_id a = blk_id b \<Longrightarrow> a = b"
  by (auto simp: distinct_map dest: inj_onD)

lemma live_end_paths:
  assumes "live_sound extra f live" "v \<in> live_end extra live blk"
  shows "seen_at extra f blk (length (insts blk)) v"
proof (cases "v \<in> set (terminator_operands (term_of blk))")
  case False
  then obtain s where s: "s \<in> set (out_edges extra blk)" "v \<in> live s" using assms(2) by (auto simp: live_end_def live_out_def)
  then have "s \<in> block_ids f" using assms(1) by (auto simp: live_sound_def)
  then obtain blk' where "blk' \<in> set (blocks f)" "blk_id blk' = s" by (auto simp: block_ids_def)
  then show ?thesis using assms(1) s by (auto simp: live_sound_def intro: seen_at.edge)
qed (rule seen_at.read_term)

lemma live_next_paths: "live_sound extra f live \<Longrightarrow> v \<in> live_next extra live blk \<Longrightarrow> seen_at extra f blk 0 v"
  by (rule walk_back_live [where n = 0 and X = "live_end extra live blk"]) (auto simp: live_next_walk live_end_paths)

lemma live_sound_update:
  assumes f: "unique_ids f" and sound: "live_sound extra f live" and blk: "blk \<in> set (blocks f)"
  shows "live_sound extra f (live(blk_id blk := live_next extra live blk))" (is "live_sound extra f ?live'")
    "live b \<subseteq> (live(blk_id blk := live_next extra live blk)) b"
proof -
  have le: "live b \<subseteq> ?live' b" for b using sound blk by (auto simp: live_sound_def)
  then show "live b \<subseteq> ?live' b" .
  have next_le: "live_next extra live c \<subseteq> live_next extra ?live' c" for c by (rule live_next_mono) (rule le)
  have "?live' (blk_id c) \<subseteq> live_next extra ?live' c" if c: "c \<in> set (blocks f)" for c
    using next_le [of c] sound c unique_block [OF f c blk] by (auto simp: live_sound_def)
  moreover have "seen_at extra f c 0 v" if "c \<in> set (blocks f)" "v \<in> ?live' (blk_id c)" for c v
    using that sound live_next_paths [OF sound] unique_block [OF f that(1) blk] by (auto simp: live_sound_def split: if_splits)
  moreover have "?live' b = {}" if "b \<notin> block_ids f" for b
    using that sound blk by (auto simp: live_sound_def block_ids_def)
  ultimately show "live_sound extra f ?live'" by (simp add: live_sound_def)
qed

lemma live_visits:
  assumes f: "unique_ids f"
  shows "live_sound extra f (fst s) \<Longrightarrow> set bs \<subseteq> set (blocks f) \<Longrightarrow> r = fold (live_visit extra) bs s \<Longrightarrow>
    live_sound extra f (fst r) \<and> (\<forall>b. fst s b \<subseteq> fst r b) \<and>
    (if snd r then snd s \<or> fst r \<noteq> fst s
     else r = s \<and> (\<forall>blk \<in> set bs. fst s (blk_id blk) = live_next extra (fst s) blk))"
proof (induction bs arbitrary: s)
  case (Cons blk bs)
  show ?case
  proof (cases "fst s (blk_id blk) = live_next extra (fst s) blk")
    case True
    then have "live_visit extra blk s = s" by (simp add: live_visit_def Let_def)
    then show ?thesis using Cons.IH [of s] Cons.prems True by (auto split: if_splits)
  next
    case False
    define live' where "live' = (fst s)(blk_id blk := live_next extra (fst s) blk)"
    have visit: "live_visit extra blk s = (live', True)" using False by (simp add: live_visit_def live'_def Let_def)
    have upd: "live_sound extra f live'" "\<And>b. fst s b \<subseteq> live' b"
      using live_sound_update [OF f Cons.prems(1)] Cons.prems(2) unfolding live'_def by auto
    have IH: "live_sound extra f (fst r) \<and> (\<forall>b. live' b \<subseteq> fst r b) \<and> snd r"
      using Cons.IH [of "(live', True)"] upd(1) Cons.prems(2,3) visit by (cases "snd r") auto
    moreover have "fst r \<noteq> fst s"
    proof
      assume "fst r = fst s"
      then have "live_next extra (fst s) blk \<subseteq> fst s (blk_id blk)" using IH unfolding live'_def by (metis fun_upd_same)
      moreover have "fst s (blk_id blk) \<subseteq> live_next extra (fst s) blk"
        using Cons.prems(1,2) by (simp add: live_sound_def)
      ultimately show False using False by simp
    qed
    ultimately show ?thesis using upd(2) by (metis subset_trans)
  qed
qed simp

definition live_inv :: "(block_id \<Rightarrow> block_id list) \<Rightarrow> ir_function \<Rightarrow> live_map \<times> bool \<Rightarrow> bool" where
  "live_inv extra f s \<longleftrightarrow>
     unique_ids f \<and> live_sound extra f (fst s) \<and>
     (\<not> snd s \<longrightarrow> (\<forall>blk \<in> set (blocks f). fst s (blk_id blk) = live_next extra (fst s) blk))"

definition live_weight :: "ir_function \<Rightarrow> live_map \<times> bool \<Rightarrow> nat" where
  "live_weight f s = 2 * (\<Sum>b \<in> block_ids f. card (mentioned f - fst s b)) + (if snd s then 1 else 0)"

lemma live_sound_mentioned: "live_sound extra f live \<Longrightarrow> live b \<subseteq> mentioned f"
proof
  fix v assume live: "live_sound extra f live" "v \<in> live b"
  then have "b \<in> block_ids f" by (auto simp: live_sound_def)
  then obtain blk where "blk \<in> set (blocks f)" "blk_id blk = b" by (auto simp: block_ids_def)
  then show "v \<in> mentioned f" using live seen_at_mentioned [of extra f blk 0 v] by (auto simp: live_sound_def)
qed

lemma live_pass_progress:
  assumes "live_inv extra f s" "snd s"
  shows "live_inv extra f (live_pass extra f s) \<and> live_weight f (live_pass extra f s) < live_weight f s"
proof -
  let ?r = "live_pass extra f s"
  have f: "unique_ids f" and sound: "live_sound extra f (fst s)" using assms by (auto simp: live_inv_def)
  have r: "live_sound extra f (fst ?r)" "\<And>b. fst s b \<subseteq> fst ?r b"
    and changed: "if snd ?r then fst ?r \<noteq> fst s
      else ?r = (fst s, False) \<and> (\<forall>blk \<in> set (blocks f). fst s (blk_id blk) = live_next extra (fst s) blk)"
    using live_visits [OF f, of extra "(fst s, False)" "rev (blocks f)" ?r] sound
    unfolding live_pass_def by (auto split: if_splits)
  have "live_weight f ?r < live_weight f s"
  proof (cases "snd ?r")
    case True
    then obtain b where b: "fst ?r b \<noteq> fst s b" using changed by (metis ext)
    then have b_in: "b \<in> block_ids f" using r(1) sound by (auto simp: live_sound_def)
    have sub: "fst ?r c \<subseteq> mentioned f" for c by (rule live_sound_mentioned [OF r(1)])
    have "card (mentioned f - fst ?r b) < card (mentioned f - fst s b)"
      using b r(2) [of b] sub [of b] by (intro psubset_card_mono) auto
    moreover have "card (mentioned f - fst ?r c) \<le> card (mentioned f - fst s c)" for c
      using r(2) [of c] by (intro card_mono) auto
    ultimately have "(\<Sum>b \<in> block_ids f. card (mentioned f - fst ?r b)) < (\<Sum>b \<in> block_ids f. card (mentioned f - fst s b))"
      using b_in by (intro sum_strict_mono_ex1) auto
    then show ?thesis using assms(2) True by (simp add: live_weight_def)
  next
    case False
    then show ?thesis using changed assms(2) by (simp add: live_weight_def)
  qed
  then show ?thesis using r(1) changed f by (auto simp: live_inv_def split: if_splits)
qed

interpretation live_loop: total_loop "live_inv extra f" "\<lambda>s. \<not> snd s" "\<lambda>s. Inr (live_pass extra f s)" "live_weight f"
  for extra f
  by unfold_locales (use live_pass_progress in auto)

lemma live_start: "unique_ids f \<Longrightarrow> live_inv extra f (\<lambda>_. {}, True)"
  by (simp add: live_inv_def live_sound_def)

lemma live_fixpoint_exact:
  assumes "unique_ids f"
  obtains s where "live_fixpoint extra f = Some (Inr s)" "live_sound extra f (fst s)"
    "\<And>blk v. blk \<in> set (blocks f) \<Longrightarrow> v \<in> fst s (blk_id blk) \<longleftrightarrow> seen_at extra f blk 0 v"
    "\<And>blk n v. n \<le> length (insts blk) \<Longrightarrow>
      v \<in> walk_back (drop n (insts blk)) (live_end extra (fst s) blk) \<longleftrightarrow> seen_at extra f blk n v"
proof -
  obtain s where s: "live_fixpoint extra f = Some (Inr s)" "live_inv extra f s" "\<not> snd s"
    using live_loop.run_total [OF live_start [OF assms]] unfolding live_fixpoint_def by blast
  then have sound: "live_sound extra f (fst s)" and stable: "\<And>blk. blk \<in> set (blocks f) \<Longrightarrow> live_next extra (fst s) blk = fst s (blk_id blk)"
    by (auto simp: live_inv_def)
  have walk: "v \<in> walk_back (drop n (insts blk)) (live_end extra (fst s) blk) \<longleftrightarrow> seen_at extra f blk n v"
    if "n \<le> length (insts blk)" for blk n v
    using walk_back_live [OF live_end_paths [OF sound] that] seen_at_walk_back [of f extra "fst s" blk n v] stable by blast
  have "v \<in> fst s (blk_id blk) \<longleftrightarrow> seen_at extra f blk 0 v" if "blk \<in> set (blocks f)" for blk v
    using walk [of 0 blk v] stable [OF that] by (simp add: live_next_walk)
  then show ?thesis using that s(1) sound walk by blast
qed

lemma osr_live_values_seen:
  assumes "unique_ids f" "blk \<in> set (blocks f)"
  shows "osr_live_values f (blk_id blk) = Some (sorted_list_of_set {v. seen_at (\<lambda>_. []) f blk 0 v})"
proof -
  obtain s where "live_fixpoint (\<lambda>_. []) f = Some (Inr s)"
    "\<And>blk v. blk \<in> set (blocks f) \<Longrightarrow> v \<in> fst s (blk_id blk) \<longleftrightarrow> seen_at (\<lambda>_. []) f blk 0 v"
    using live_fixpoint_exact [OF assms(1)] by metis
  moreover from this(2) have "fst s (blk_id blk) = {v. seen_at (\<lambda>_. []) f blk 0 v}" using assms(2) by auto
  ultimately show ?thesis by (simp add: osr_live_values_def)
qed


text \<open>A call whose result is paired with a sum computed before it.\<close>

definition call_block :: block where
  "call_block =
     \<lparr>blk_id = 0,
      insts = [inst_new 0 (LoadLocal 0), inst_new 1 (Const (CInt 1)), inst_new 2 (Const (CInt 2)),
               inst_new 3 (BinaryOp Add 1 2), inst_new 4 (Call 0 []), inst_new 5 (BuildTuple [3, 4])],
      term_of = Return 5\<rparr>"

definition call_function :: ir_function where
  "call_function =
     \<lparr>fn_name = ''spill'', arity = 1, is_coroutine = False, is_generator = False, is_async_generator = False,
      params = \<lparr>param_names = [], positional_only_count = 0, positional_count = 0, keyword_only_count = 0,
                vararg_name = None, kwarg_name = None\<rparr>,
      blocks = [call_block], n_locals = 1\<rparr>"

lemma call_function_layout: "unique_ids call_function" "call_block \<in> set (blocks call_function)" "blk_id call_block = 0"
  by (simp_all add: call_function_def call_block_def)

text \<open>A loop whose header reads one value from before it.\<close>

definition loop_header :: block where
  "loop_header = \<lparr>blk_id = 1, insts = [inst_new 1 (BoolTest 0)], term_of = Branch 1 1 2\<rparr>"

definition loop_function :: ir_function where
  "loop_function = call_function
     \<lparr>blocks := [\<lparr>blk_id = 0, insts = [inst_new 0 (LoadLocal 0)], term_of = Jump 1\<rparr>, loop_header,
                 \<lparr>blk_id = 2, insts = [], term_of = Return 0\<rparr>]\<rparr>"

lemma loop_function_layout:
  "unique_ids loop_function" "loop_header \<in> set (blocks loop_function)" "reads_reported loop_function" "blk_id loop_header = 1"
  by (simp_all add: loop_function_def loop_header_def reads_reported_def hides_operands_def inst_new_def)


end
