(* ===== verification/Temp_Spill.thy ===== *)
theory Temp_Spill
  imports Ir_Liveness
begin

text \<open>
  Exception-handler stacks (\<open>block_exception_entry_stacks\<close> of \<^verbatim>\<open>pon-codegen/src/baseline.rs\<close>) and the
  spill schedule that keeps expression temporaries visible to the collector
  (\<^verbatim>\<open>pon-codegen/src/baseline/spill.rs\<close>).  The stack slots of the pool come from the code generator;
  the plan here has their number.
\<close>

section \<open>Handler stacks\<close>

datatype codegen_error =
    Unsupported string
  | LocalOutOfRange local_id nat
  | LocalUsedBeforeDefinition local_id
  | ValueNotDefined value_id
  | OffsetTooLarge nat

type_synonym handler_stack = "block_id list"
type_synonym stack_state = "(block_id \<rightharpoonup> handler_stack) \<times> block_id list"

definition push_target :: "inst_kind \<Rightarrow> block_id option" where
  "push_target k = (case k of PushExcInfo target _ _ \<Rightarrow> Some target | _ \<Rightarrow> None)"

definition merge_exception_entry_stack :: "block_id \<Rightarrow> handler_stack \<Rightarrow> stack_state \<Rightarrow> codegen_error + stack_state" where
  "merge_exception_entry_stack b stack s =
     (case fst s b of
        Some existing \<Rightarrow>
          if existing = stack then Inr s
          else Inl (Unsupported ''inconsistent exception handler stack at block join'')
      | None \<Rightarrow> Inr ((fst s)(b \<mapsto> stack), snd s @ [b]))"

fun exception_successors :: "terminator \<Rightarrow> handler_stack \<Rightarrow> block_id list" where
  "exception_successors (Jump t) stack = [t]"
| "exception_successors (Branch cond t e) stack = [t, e]"
| "exception_successors (CondBranch cond t e) stack = [t, e]"
| "exception_successors (ForLoop iter body done_blk) stack = [body, done_blk]"
| "exception_successors (Suspend state v resume_blk) stack = [resume_blk]"
| "exception_successors RaiseTerm stack = (if stack = [] then [] else [last stack])"
| "exception_successors (Return v) stack = []"
| "exception_successors Unreachable stack = []"

text \<open>The entries a block's instructions install, in program order, and the stack it ends with.\<close>

fun handler_entries :: "inst list \<Rightarrow> handler_stack \<Rightarrow> (block_id \<times> handler_stack) list \<times> handler_stack" where
  "handler_entries [] stack = ([], stack)"
| "handler_entries (i # is) stack =
     (case push_target (kind i) of
        Some t \<Rightarrow> (let (es, out) = handler_entries is (stack @ [t]) in ((t, stack @ [t]) # es, out))
      | None \<Rightarrow> handler_entries is (if kind i = PopExcInfo then butlast stack else stack))"

definition block_entries :: "block \<Rightarrow> handler_stack \<Rightarrow> (block_id \<times> handler_stack) list" where
  "block_entries blk stack =
     (let (es, out) = handler_entries (insts blk) stack
      in es @ map (\<lambda>c. (c, out)) (exception_successors (term_of blk) out))"

fun merge_all :: "(block_id \<times> handler_stack) list \<Rightarrow> stack_state \<Rightarrow> codegen_error + stack_state" where
  "merge_all [] s = Inr s"
| "merge_all ((b, stack) # es) s = bind_ok (merge_exception_entry_stack b stack s) (merge_all es)"

definition block_of :: "ir_function \<Rightarrow> block_id \<Rightarrow> block option" where
  "block_of f = map_of (rev (map (\<lambda>blk. (blk_id blk, blk)) (blocks f)))"

definition stack_step :: "ir_function \<Rightarrow> stack_state \<Rightarrow> codegen_error + stack_state" where
  "stack_step f s =
     (let b = hd (snd s) in
      case block_of f b of
        None \<Rightarrow> Inl (Unsupported ''exception stack references missing block'')
      | Some blk \<Rightarrow>
          merge_all (block_entries blk (case fst s b of None \<Rightarrow> [] | Some st \<Rightarrow> st)) (fst s, tl (snd s)))"

definition block_exception_entry_stacks :: "ir_function \<Rightarrow> (codegen_error + (block_id \<rightharpoonup> handler_stack)) option" where
  "block_exception_entry_stacks f =
     (case blocks f of
        [] \<Rightarrow> Some (Inr Map.empty)
      | blk # _ \<Rightarrow>
          and_then (run_loop (\<lambda>s. snd s = []) (stack_step f) ([blk_id blk \<mapsto> []], [blk_id blk])) (\<lambda>s. Some (Inr (fst s))))"

section \<open>The spill plan\<close>

definition inst_spill_point :: "inst_kind \<Rightarrow> bool" where
  "inst_spill_point k \<longleftrightarrow>
     \<not> (case k of
          Const _ \<Rightarrow> True | ConstRef _ \<Rightarrow> True | BuildTuple _ \<Rightarrow> True | BuildList _ \<Rightarrow> True | BuildSlice _ _ _ \<Rightarrow> True
        | ListAppend _ _ \<Rightarrow> True | ListToTuple _ \<Rightarrow> True | LoadLocal _ \<Rightarrow> True | StoreLocal _ _ \<Rightarrow> True | DeleteLocal _ \<Rightarrow> True
        | LoadGlobal _ \<Rightarrow> True | StoreGlobal _ _ \<Rightarrow> True | DeleteGlobal _ \<Rightarrow> True | LoadCell _ \<Rightarrow> True | StoreCell _ _ \<Rightarrow> True
        | DeleteCell _ \<Rightarrow> True | MakeCell _ \<Rightarrow> True | LoadClosure _ \<Rightarrow> True | LoadBuiltin _ \<Rightarrow> True | Is _ _ _ \<Rightarrow> True
        | MakeFunction _ _ _ \<Rightarrow> True | MakeFunctionFull _ _ _ _ _ \<Rightarrow> True | FunctionSetAnnotate _ _ \<Rightarrow> True
        | MakeTypeAlias _ _ \<Rightarrow> True | MakeTypeVar _ \<Rightarrow> True | LoadBuildClass \<Rightarrow> True | PushExcInfo _ _ _ \<Rightarrow> True | PopExcInfo \<Rightarrow> True
        | GenResumePayload \<Rightarrow> True | GenLastStopValue \<Rightarrow> True | GetCurrentExc \<Rightarrow> True | ExcStarEnter \<Rightarrow> True | ExcStarBodyOk \<Rightarrow> True
        | ExcStarBodyRaised \<Rightarrow> True | ExcStarFinish \<Rightarrow> True | Reraise \<Rightarrow> True | Yield _ \<Rightarrow> True | YieldFrom _ \<Rightarrow> True
        | _ \<Rightarrow> False)"

definition term_spill_point :: "terminator \<Rightarrow> bool" where
  "term_spill_point t = (case t of Branch _ _ _ \<Rightarrow> True | CondBranch _ _ _ \<Rightarrow> True | Jump _ \<Rightarrow> True | _ \<Rightarrow> False)"

definition handler_targets :: "(block_id \<rightharpoonup> handler_stack) \<Rightarrow> block \<Rightarrow> block_id list" where
  "handler_targets entries blk =
     remdups_adj (sort ((case entries (blk_id blk) of None \<Rightarrow> [] | Some st \<Rightarrow> st) @
                        List.map_filter (\<lambda>i. push_target (kind i)) (insts blk)))"

definition handler_edges :: "(block_id \<rightharpoonup> handler_stack) \<Rightarrow> ir_function \<Rightarrow> block_id \<Rightarrow> block_id list" where
  "handler_edges entries f b = (case block_of f b of None \<Rightarrow> [] | Some blk \<Rightarrow> handler_targets entries blk)"

record temp_spill_plan =
  inst_spills :: "((block_id \<times> nat) \<times> value_id list) list"
  term_spills :: "(block_id \<times> value_id list) list"
  pool_size :: nat

text \<open>The windows of a block, met from its last instruction to its first.\<close>

fun spill_walk :: "block_id \<Rightarrow> (nat \<times> inst) list \<Rightarrow> value_id set \<Rightarrow> ((block_id \<times> nat) \<times> value_id list) list" where
  "spill_walk b [] live = []"
| "spill_walk b ((n, i) # is) live =
     (let live1 = live - {result i} in
      (if inst_spill_point (kind i) then [((b, n), sorted_list_of_set live1)] else []) @
      spill_walk b is (live1 \<union> set (inst_operands (kind i))))"

definition block_inst_spills :: "(block_id \<Rightarrow> block_id list) \<Rightarrow> live_map \<Rightarrow> block \<Rightarrow> ((block_id \<times> nat) \<times> value_id list) list" where
  "block_inst_spills extra live blk =
     spill_walk (blk_id blk) (rev (enumerate 0 (insts blk))) (live_end extra live blk)"

definition block_term_spills :: "(block_id \<Rightarrow> block_id list) \<Rightarrow> live_map \<Rightarrow> block \<Rightarrow> (block_id \<times> value_id list) list" where
  "block_term_spills extra live blk =
     (if term_spill_point (term_of blk) then [(blk_id blk, sorted_list_of_set (live_out extra live blk))] else [])"

definition has_spill_sites :: "ir_function \<Rightarrow> bool" where
  "has_spill_sites f \<longleftrightarrow>
     (\<exists>blk \<in> set (blocks f). term_spill_point (term_of blk) \<or> (\<exists>i \<in> set (insts blk). inst_spill_point (kind i)))"

definition extract_spills :: "(block_id \<Rightarrow> block_id list) \<Rightarrow> live_map \<Rightarrow> ir_function \<Rightarrow> temp_spill_plan option" where
  "extract_spills extra live f =
     (let ispills = concat (map (block_inst_spills extra live) (blocks f));
          tspills = concat (map (block_term_spills extra live) (blocks f));
          pool = fold max (map (length \<circ> snd) ispills @ map (length \<circ> snd) tspills) 0
      in if pool = 0 then None else Some \<lparr>inst_spills = ispills, term_spills = tspills, pool_size = pool\<rparr>)"

definition temp_spill_compute :: "ir_function \<Rightarrow> (codegen_error + temp_spill_plan option) option" where
  "temp_spill_compute f =
     (if \<not> has_spill_sites f then Some (Inr None)
      else and_then (block_exception_entry_stacks f) (\<lambda>entries.
        let extra = handler_edges entries f in
        case live_fixpoint extra f of
          Some (Inr s) \<Rightarrow> Some (Inr (extract_spills extra (fst s) f))
        | _ \<Rightarrow> None))"


section \<open>Every path gives the same handler stack\<close>

inductive stack_at :: "ir_function \<Rightarrow> block_id \<Rightarrow> handler_stack \<Rightarrow> bool" for f where
  start: "blocks f = blk # rest \<Longrightarrow> stack_at f (blk_id blk) []"
| flows: "stack_at f b st \<Longrightarrow> block_of f b = Some blk \<Longrightarrow> (c, st') \<in> set (block_entries blk st) \<Longrightarrow> stack_at f c st'"

lemma block_of_in: "block_of f b = Some blk \<Longrightarrow> blk \<in> set (blocks f) \<and> blk_id blk = b"
  by (auto simp: block_of_def dest: map_of_SomeD)

definition flow_targets :: "ir_function \<Rightarrow> block_id set" where
  "flow_targets f = blk_id ` set (take 1 (blocks f)) \<union>
     (\<Union>blk \<in> set (blocks f). set (successors (term_of blk)) \<union> set (List.map_filter (\<lambda>i. push_target (kind i)) (insts blk)))"

lemma finite_flow_targets [simp]: "finite (flow_targets f)"
  by (simp add: flow_targets_def)

lemma handler_entries_targets:
  assumes "handler_entries is st = (es, out)" "set st \<union> set (List.map_filter (\<lambda>i. push_target (kind i)) is) \<subseteq> T"
  shows "set out \<subseteq> T \<and> (\<forall>(c, st') \<in> set es. c \<in> T \<and> set st' \<subseteq> T)"
  using assms
proof (induction "is" arbitrary: st es out)
  case (Cons i "is")
  show ?case
  proof (cases "push_target (kind i)")
    case None
    then show ?thesis
      using Cons.IH [of "if kind i = PopExcInfo then butlast st else st" es out] Cons.prems in_set_butlastD
      by (fastforce simp: List.map_filter_simps split: if_splits)
  next
    case (Some t)
    obtain es' where "handler_entries is (st @ [t]) = (es', out)" "es = (t, st @ [t]) # es'"
      using Cons.prems(1) Some by (auto split: prod.splits)
    then show ?thesis using Cons.IH [of "st @ [t]" es' out] Cons.prems(2) Some by (auto simp: List.map_filter_simps)
  qed
qed (simp add: List.map_filter_simps)

lemma block_entries_targets:
  assumes "(c, st') \<in> set (block_entries blk st)" "blk \<in> set (blocks f)" "set st \<subseteq> flow_targets f"
  shows "c \<in> flow_targets f \<and> set st' \<subseteq> flow_targets f"
proof -
  obtain es out where es: "handler_entries (insts blk) st = (es, out)" by fastforce
  have sub: "set st \<union> set (List.map_filter (\<lambda>i. push_target (kind i)) (insts blk)) \<subseteq> flow_targets f"
    using assms(2,3) by (auto simp: flow_targets_def)
  have out: "set out \<subseteq> flow_targets f" "\<forall>(c, st') \<in> set es. c \<in> flow_targets f \<and> set st' \<subseteq> flow_targets f"
    using handler_entries_targets [OF es sub] by auto
  have "set (exception_successors (term_of blk) out) \<subseteq> set (successors (term_of blk)) \<union> set out"
    by (cases "term_of blk") auto
  moreover have "set (successors (term_of blk)) \<subseteq> flow_targets f" using assms(2) by (auto simp: flow_targets_def)
  ultimately show ?thesis using assms(1) out es by (auto simp: block_entries_def)
qed

lemma stack_at_targets: "stack_at f b st \<Longrightarrow> b \<in> flow_targets f \<and> set st \<subseteq> flow_targets f"
proof (induction rule: stack_at.induct)
  case (start blk rest)
  then show ?case by (simp add: flow_targets_def)
next
  case (flows b st blk c st')
  then show ?case using block_entries_targets [OF flows(3)] block_of_in by blast
qed

definition merged :: "(block_id \<times> handler_stack) list \<Rightarrow> stack_state \<Rightarrow> stack_state \<Rightarrow> bool" where
  "merged es s s' \<longleftrightarrow>
     fst s \<subseteq>\<^sub>m fst s' \<and> (\<forall>(b, st) \<in> set es. fst s' b = Some st) \<and>
     (\<forall>b st. fst s' b = Some st \<longrightarrow> fst s b = None \<longrightarrow> (b, st) \<in> set es) \<and>
     (\<exists>new. snd s' = snd s @ new \<and> distinct new \<and> set new = dom (fst s') - dom (fst s))"

lemma merged_one: "merge_exception_entry_stack b st s = Inr s' \<Longrightarrow> merged [(b, st)] s s'"
  by (auto simp: merge_exception_entry_stack_def merged_def map_le_def split: option.splits if_splits)

lemma merged_trans:
  assumes "merged es s s1" "merged es' s1 s2"
  shows "merged (es @ es') s s2"
proof -
  have le: "fst s \<subseteq>\<^sub>m fst s1" "fst s1 \<subseteq>\<^sub>m fst s2" using assms by (auto simp: merged_def)
  have up: "fst s2 b = Some st" if "fst s1 b = Some st" for b st using le(2) that by (auto simp: map_le_def dom_def)
  obtain new new' where new: "snd s1 = snd s @ new" "distinct new" "set new = dom (fst s1) - dom (fst s)"
    "snd s2 = snd s1 @ new'" "distinct new'" "set new' = dom (fst s2) - dom (fst s1)"
    using assms by (auto simp: merged_def)
  have dom: "dom (fst s) \<subseteq> dom (fst s1)" "dom (fst s1) \<subseteq> dom (fst s2)" using le map_le_implies_dom_le by blast+
  have "\<exists>n. snd s2 = snd s @ n \<and> distinct n \<and> set n = dom (fst s2) - dom (fst s)"
    by (rule exI [of _ "new @ new'"]) (use new dom in auto)
  moreover have "\<forall>(b, st) \<in> set (es @ es'). fst s2 b = Some st" using assms up unfolding merged_def by fastforce
  moreover have "(b, st) \<in> set (es @ es')" if b: "fst s2 b = Some st" "fst s b = None" for b st
  proof (cases "fst s1 b")
    case None
    then show ?thesis using assms(2) b(1) by (simp add: merged_def)
  next
    case (Some st1)
    then show ?thesis using assms(1) b up [OF Some] by (simp add: merged_def)
  qed
  ultimately show ?thesis using map_le_trans [OF le] by (simp add: merged_def)
qed

lemma merge_all_merged: "merge_all es s = Inr s' \<Longrightarrow> merged es s s'"
proof (induction es arbitrary: s)
  case (Cons e es)
  obtain b st where e: "e = (b, st)" by fastforce
  then obtain s1 where "merge_exception_entry_stack b st s = Inr s1" "merge_all es s1 = Inr s'"
    using Cons.prems by (auto simp: bind_ok_Inr_iff)
  then show ?case using merged_trans [OF merged_one Cons.IH] e by simp
qed (simp add: merged_def)

definition stacks_inv :: "ir_function \<Rightarrow> stack_state \<Rightarrow> bool" where
  "stacks_inv f s \<longleftrightarrow>
     (\<forall>b st. fst s b = Some st \<longrightarrow> stack_at f b st) \<and>
     (\<forall>b st. fst s b = Some st \<longrightarrow> b \<notin> set (snd s) \<longrightarrow>
        (\<exists>blk. block_of f b = Some blk \<and> (\<forall>(c, st') \<in> set (block_entries blk st). fst s c = Some st'))) \<and>
     set (snd s) \<subseteq> dom (fst s) \<and> (\<forall>blk rest. blocks f = blk # rest \<longrightarrow> fst s (blk_id blk) = Some [])"

definition stacks_weight :: "ir_function \<Rightarrow> stack_state \<Rightarrow> nat" where
  "stacks_weight f s = card (flow_targets f - dom (fst s)) + length (snd s)"

lemma stack_step_progress:
  assumes inv: "stacks_inv f s" and busy: "snd s \<noteq> []" and step: "stack_step f s = Inr s'"
  shows "stacks_inv f s' \<and> stacks_weight f s' < stacks_weight f s"
proof -
  obtain b wl where wl: "snd s = b # wl" using busy by (cases "snd s") auto
  then obtain st where st: "fst s b = Some st" using inv by (auto simp: stacks_inv_def)
  obtain blk where blk: "block_of f b = Some blk" and merge: "merge_all (block_entries blk st) (fst s, wl) = Inr s'"
    using step wl st by (auto simp: stack_step_def Let_def split: option.splits)
  have m: "merged (block_entries blk st) (fst s, wl) s'" by (rule merge_all_merged [OF merge])
  have up: "fst s' c = Some st'" if "fst s c = Some st'" for c st'
    using m that by (auto simp: merged_def map_le_def dom_def)
  obtain new where new: "snd s' = wl @ new" "distinct new" "set new = dom (fst s') - dom (fst s)"
    using m by (auto simp: merged_def)
  have sound: "stack_at f c st'" if "fst s' c = Some st'" for c st'
  proof (cases "fst s c")
    case None
    then have "(c, st') \<in> set (block_entries blk st)" using m that by (auto simp: merged_def)
    then show ?thesis using inv st blk by (auto simp: stacks_inv_def intro: stack_at.flows)
  next
    case (Some st1)
    then show ?thesis using up [OF Some] that inv by (simp add: stacks_inv_def)
  qed
  have closed: "\<exists>blk. block_of f c = Some blk \<and> (\<forall>(d, st1) \<in> set (block_entries blk st'). fst s' d = Some st1)"
    if c: "fst s' c = Some st'" "c \<notin> set (snd s')" for c st'
  proof (cases "c = b")
    case True
    then have "st' = st" using up [OF st] c(1) by simp
    then show ?thesis using blk m True by (auto simp: merged_def)
  next
    case False
    have "c \<in> dom (fst s)" using c new by auto
    then obtain st1 where st1: "fst s c = Some st1" by auto
    then have "st1 = st'" using up [OF st1] c(1) by simp
    moreover have "c \<notin> set (snd s)" using c(2) new(1) wl False by auto
    ultimately obtain blk' where "block_of f c = Some blk'" "\<forall>(d, st1) \<in> set (block_entries blk' st'). fst s d = Some st1"
      using inv st1 unfolding stacks_inv_def by blast
    then show ?thesis using up by blast
  qed
  have "set (snd s') \<subseteq> dom (fst s')"
  proof -
    have "dom (fst s) \<subseteq> dom (fst s')" using up by blast
    moreover have "set wl \<subseteq> dom (fst s)" using inv wl by (auto simp: stacks_inv_def)
    moreover have "set (snd s') = set wl \<union> set new" using new(1) by simp
    ultimately show ?thesis using new(3) by blast
  qed
  then have "stacks_inv f s'"
    using sound closed up inv unfolding stacks_inv_def by blast
  moreover have "stacks_weight f s' < stacks_weight f s"
  proof -
    have sub: "set new \<subseteq> flow_targets f - dom (fst s)" using new(3) sound stack_at_targets by blast
    have "flow_targets f - dom (fst s') = (flow_targets f - dom (fst s)) - set new" using new(3) up by blast
    then have "card (flow_targets f - dom (fst s')) = card (flow_targets f - dom (fst s)) - length new"
      using sub new(2) by (simp add: card_Diff_subset distinct_card)
    moreover have "length new \<le> card (flow_targets f - dom (fst s))"
      using card_mono [OF _ sub] distinct_card [OF new(2)] by simp
    ultimately show ?thesis using wl new(1) by (simp add: stacks_weight_def)
  qed
  ultimately show ?thesis by blast
qed

interpretation stack_loop: ending_loop "stacks_inv f" "\<lambda>s. snd s = []" "stack_step f" "stacks_weight f" for f
  by unfold_locales (use stack_step_progress in auto)

lemma handler_stacks_exact:
  "\<exists>r. block_exception_entry_stacks f = Some r \<and>
     (case r of Inl e \<Rightarrow> True | Inr entries \<Rightarrow> (\<forall>b st. entries b = Some st \<longleftrightarrow> stack_at f b st))"
proof (cases "blocks f")
  case Nil
  have "\<not> stack_at f b st" for b st
  proof
    assume "stack_at f b st"
    then show False by (induction rule: stack_at.induct) (use Nil in auto)
  qed
  then show ?thesis using Nil by (simp add: block_exception_entry_stacks_def)
next
  case (Cons blk rest)
  have "stacks_inv f ([blk_id blk \<mapsto> []], [blk_id blk])"
    using Cons by (auto simp: stacks_inv_def intro: stack_at.start)
  from stack_loop.run_ends [OF this] obtain r where
    r: "run_loop (\<lambda>s. snd s = []) (stack_step f) ([blk_id blk \<mapsto> []], [blk_id blk]) = Some r"
    "\<forall>t. r = Inr t \<longrightarrow> stacks_inv f t \<and> snd t = []" by blast
  show ?thesis
  proof (cases r)
    case (Inl e)
    then show ?thesis using r Cons by (simp add: block_exception_entry_stacks_def)
  next
    case (Inr s)
    then have s: "stacks_inv f s" "snd s = []" using r by auto
    have "fst s b = Some st" if "stack_at f b st" for b st
      using that
    proof (induction rule: stack_at.induct)
      case (flows b st blk c st')
      then obtain blk' where "block_of f b = Some blk'" "\<forall>(c, st') \<in> set (block_entries blk' st). fst s c = Some st'"
        using s unfolding stacks_inv_def by (metis empty_iff empty_set)
      then show ?case using flows(2,3) by auto
    qed (use s in \<open>simp add: stacks_inv_def\<close>)
    moreover have "stack_at f b st" if "fst s b = Some st" for b st using s(1) that unfolding stacks_inv_def by blast
    ultimately have "\<forall>b st. fst s b = Some st \<longleftrightarrow> stack_at f b st" by blast
    then show ?thesis using r Inr Cons by (simp add: block_exception_entry_stacks_def)
  qed
qed



lemma handler_stacks_end: "\<exists>r. block_exception_entry_stacks f = Some r"
  using handler_stacks_exact by blast

section \<open>The plan roots exactly the temporaries that are live across a window\<close>

definition seen_across :: "(block_id \<Rightarrow> block_id list) \<Rightarrow> ir_function \<Rightarrow> block \<Rightarrow> nat \<Rightarrow> value_id set" where
  "seen_across extra f blk n = {v. seen_at extra f blk (Suc n) v} - {result (insts blk ! n)}"

text \<open>
  The walk over the reversed instructions keeps the set that is live after the instruction it is at.
\<close>

lemma spill_walk_sites:
  assumes "n \<le> length xs"
  shows "spill_walk b (rev (enumerate 0 (take n xs))) (walk_back (drop n xs) X) =
    map (\<lambda>k. ((b, k), sorted_list_of_set (walk_back (drop (Suc k) xs) X - {result (xs ! k)})))
      (rev (filter (\<lambda>k. inst_spill_point (kind (xs ! k))) [0..<n]))"
  using assms
proof (induction n)
  case (Suc n)
  then have n: "n < length xs" by simp
  have "enumerate 0 (take (Suc n) xs) = enumerate 0 (take n xs) @ [(n, xs ! n)]"
    using n by (simp add: take_Suc_conv_app_nth enumerate_append_eq)
  moreover have "walk_back (drop n xs) X =
      (walk_back (drop (Suc n) xs) X - {result (xs ! n)}) \<union> set (inst_operands (kind (xs ! n)))"
    using Cons_nth_drop_Suc [OF n, symmetric] by auto
  ultimately show ?case using Suc by (simp add: Let_def)
qed simp

lemma block_inst_spills_eq:
  "block_inst_spills extra live blk =
     map (\<lambda>k. ((blk_id blk, k), sorted_list_of_set (walk_back (drop (Suc k) (insts blk)) (live_end extra live blk) - {result (insts blk ! k)})))
       (rev (filter (\<lambda>k. inst_spill_point (kind (insts blk ! k))) [0..<length (insts blk)]))"
  using spill_walk_sites [of "length (insts blk)" "insts blk" "blk_id blk" "live_end extra live blk"]
  by (simp add: block_inst_spills_def)

lemma fold_max_upper: "x \<in> set xs \<Longrightarrow> x \<le> fold max xs (m :: nat)"
proof (induction xs arbitrary: m)
  case (Cons y xs)
  have "y \<le> fold max xs (max y m)" for y m :: nat
    by (induction xs arbitrary: m) (auto, metis max.assoc max.left_commute)
  then show ?case using Cons by auto
qed simp


definition seen_leaving :: "(block_id \<Rightarrow> block_id list) \<Rightarrow> ir_function \<Rightarrow> block \<Rightarrow> value_id set" where
  "seen_leaving extra f blk =
     {v. \<exists>blk' \<in> set (blocks f). blk_id blk' \<in> set (out_edges extra blk) \<and> seen_at extra f blk' 0 v}"

definition rooted :: "(nat \<rightharpoonup> value_id list) \<Rightarrow> nat \<Rightarrow> nat \<Rightarrow> value_id set \<Rightarrow> bool" where
  "rooted spills pool key V \<longleftrightarrow> spills key = Some (sorted_list_of_set V) \<and> card V \<le> pool"

text \<open>
  A plan roots the sets \<open>across\<close> at the instructions and \<open>leaving\<close> at the terminators that may run user
  code.
\<close>

definition plan_roots ::
  "(block \<Rightarrow> nat \<Rightarrow> value_id set) \<Rightarrow> (block \<Rightarrow> value_id set) \<Rightarrow> ir_function \<Rightarrow> temp_spill_plan option \<Rightarrow> bool" where
  "plan_roots across leaving f plan \<longleftrightarrow>
     (\<forall>blk \<in> set (blocks f). \<forall>n < length (insts blk). inst_spill_point (kind (insts blk ! n)) \<longrightarrow>
        (case plan of
           None \<Rightarrow> across blk n = {}
         | Some p \<Rightarrow> rooted (\<lambda>n. map_of (inst_spills p) (blk_id blk, n)) (pool_size p) n (across blk n))) \<and>
     (\<forall>blk \<in> set (blocks f). term_spill_point (term_of blk) \<longrightarrow>
        (case plan of
           None \<Rightarrow> leaving blk = {}
         | Some p \<Rightarrow> rooted (map_of (term_spills p)) (pool_size p) (blk_id blk) (leaving blk)))"

lemma distinct_site_keys:
  assumes "distinct (map blk_id bs)" "\<And>blk. distinct (map fst (g blk))" "\<And>blk. fst ` fst ` set (g blk) \<subseteq> {blk_id blk}"
  shows "distinct (map fst (concat (map g bs)))"
  using assms(1)
proof (induction bs)
  case (Cons blk bs)
  have key: "fst x = blk_id b" if "x \<in> fst ` set (g b)" for x b using that assms(3) by blast
  have "fst ` set (g blk) \<inter> fst ` set (concat (map g bs)) = {}"
  proof (rule ccontr)
    assume "fst ` set (g blk) \<inter> fst ` set (concat (map g bs)) \<noteq> {}"
    then obtain x b where "x \<in> fst ` set (g blk)" "b \<in> set bs" "x \<in> fst ` set (g b)" by auto
    then have "blk_id blk \<in> blk_id ` set bs" using key by (metis image_eqI)
    then show False using Cons.prems by simp
  qed
  with Cons assms(2) show ?case by (simp add: distinct_append)
qed simp

lemma inst_spills_lookup:
  assumes "unique_ids f" "blk \<in> set (blocks f)" "n < length (insts blk)" "inst_spill_point (kind (insts blk ! n))"
  shows "map_of (concat (map (block_inst_spills extra live) (blocks f))) (blk_id blk, n) =
    Some (sorted_list_of_set (walk_back (drop (Suc n) (insts blk)) (live_end extra live blk) - {result (insts blk ! n)}))"
proof (rule map_of_is_SomeI)
  show "distinct (map fst (concat (map (block_inst_spills extra live) (blocks f))))"
    using assms(1) by (rule distinct_site_keys) (auto simp: block_inst_spills_eq comp_def distinct_map inj_on_def)
  show "((blk_id blk, n), sorted_list_of_set (walk_back (drop (Suc n) (insts blk)) (live_end extra live blk) - {result (insts blk ! n)}))
      \<in> set (concat (map (block_inst_spills extra live) (blocks f)))"
    using assms(2-4) by (auto simp: block_inst_spills_eq)
qed

lemma distinct_term_keys:
  "distinct (map blk_id bs) \<Longrightarrow> distinct (map fst (concat (map (block_term_spills extra live) bs)))"
  by (induction bs) (auto simp: block_term_spills_def split: if_splits)

lemma term_spills_lookup:
  assumes "unique_ids f" "blk \<in> set (blocks f)" "term_spill_point (term_of blk)"
  shows "map_of (concat (map (block_term_spills extra live) (blocks f))) (blk_id blk) =
    Some (sorted_list_of_set (live_out extra live blk))"
proof (rule map_of_is_SomeI)
  show "distinct (map fst (concat (map (block_term_spills extra live) (blocks f))))"
    by (rule distinct_term_keys [OF assms(1)])
  show "(blk_id blk, sorted_list_of_set (live_out extra live blk)) \<in> set (concat (map (block_term_spills extra live) (blocks f)))"
    using assms(2,3) by (auto simp: block_term_spills_def)
qed


lemma seen_across_eq:
  assumes walk: "\<And>blk n v. n \<le> length (insts blk) \<Longrightarrow>
      v \<in> walk_back (drop n (insts blk)) (live_end extra live blk) \<longleftrightarrow> seen_at extra f blk n v"
    and "n < length (insts blk)"
  shows "walk_back (drop (Suc n) (insts blk)) (live_end extra live blk) - {result (insts blk ! n)} = seen_across extra f blk n"
  using walk [of "Suc n" blk] assms(2) by (auto simp: seen_across_def)

lemma seen_leaving_eq:
  assumes "live_sound extra f live" "\<And>blk v. blk \<in> set (blocks f) \<Longrightarrow> v \<in> live (blk_id blk) \<longleftrightarrow> seen_at extra f blk 0 v"
  shows "live_out extra live blk = seen_leaving extra f blk"
proof -
  have "v \<in> live s \<longleftrightarrow> (\<exists>blk' \<in> set (blocks f). blk_id blk' = s \<and> seen_at extra f blk' 0 v)" for v s
  proof (cases "s \<in> block_ids f")
    case True
    then show ?thesis using assms(2) unfolding block_ids_def by (metis imageE)
  next
    case False
    then show ?thesis using assms(1) by (auto simp: live_sound_def block_ids_def)
  qed
  then show ?thesis by (auto simp: live_out_def seen_leaving_def)
qed

lemma seen_sets_finite:
  assumes "blk \<in> set (blocks f)"
  shows "finite (seen_across extra f blk n)" "finite (seen_leaving extra f blk)"
  using seen_at_mentioned [of extra f] assms
  by (auto simp: seen_across_def seen_leaving_def intro!: finite_subset [OF _ finite_mentioned [of f]])

lemma plan_roots_from_lists:
  assumes f: "unique_ids f" and sound: "live_sound extra f live"
    and live: "\<And>blk v. blk \<in> set (blocks f) \<Longrightarrow> v \<in> live (blk_id blk) \<longleftrightarrow> seen_at extra f blk 0 v"
    and walk: "\<And>blk n v. n \<le> length (insts blk) \<Longrightarrow>
      v \<in> walk_back (drop n (insts blk)) (live_end extra live blk) \<longleftrightarrow> seen_at extra f blk n v"
  shows "plan_roots (seen_across extra f) (seen_leaving extra f) f (extract_spills extra live f)"
proof -
  define ispills where "ispills = concat (map (block_inst_spills extra live) (blocks f))"
  define tspills where "tspills = concat (map (block_term_spills extra live) (blocks f))"
  define pool where "pool = fold max (map (length \<circ> snd) ispills @ map (length \<circ> snd) tspills) 0"
  note lists = ispills_def tspills_def pool_def
  have plan_eq: "extract_spills extra live f =
      (if pool = 0 then None else Some \<lparr>inst_spills = ispills, term_spills = tspills, pool_size = pool\<rparr>)"
    unfolding extract_spills_def Let_def lists ..
  have isite: "map_of ispills (blk_id blk, n) = Some (sorted_list_of_set (seen_across extra f blk n)) \<and>
      card (seen_across extra f blk n) \<le> pool"
    if "blk \<in> set (blocks f)" "n < length (insts blk)" "inst_spill_point (kind (insts blk ! n))" for blk n
  proof -
    have look: "map_of ispills (blk_id blk, n) = Some (sorted_list_of_set (seen_across extra f blk n))"
      using inst_spills_lookup [OF f that] seen_across_eq [OF walk that(2)] lists(1) by simp
    then have "length (sorted_list_of_set (seen_across extra f blk n)) \<in> set (map (length \<circ> snd) ispills @ map (length \<circ> snd) tspills)"
      by (force dest: map_of_SomeD)
    then have "length (sorted_list_of_set (seen_across extra f blk n)) \<le> pool" unfolding lists(3) by (rule fold_max_upper)
    then show ?thesis using look by simp
  qed
  have tsite: "map_of tspills (blk_id blk) = Some (sorted_list_of_set (seen_leaving extra f blk)) \<and>
      card (seen_leaving extra f blk) \<le> pool"
    if "blk \<in> set (blocks f)" "term_spill_point (term_of blk)" for blk
  proof -
    have look: "map_of tspills (blk_id blk) = Some (sorted_list_of_set (seen_leaving extra f blk))"
      using term_spills_lookup [OF f that] seen_leaving_eq [OF sound live] lists(2) by simp
    then have "length (sorted_list_of_set (seen_leaving extra f blk)) \<in> set (map (length \<circ> snd) ispills @ map (length \<circ> snd) tspills)"
      by (force dest: map_of_SomeD)
    then have "length (sorted_list_of_set (seen_leaving extra f blk)) \<le> pool" unfolding lists(3) by (rule fold_max_upper)
    then show ?thesis using look by simp
  qed
  show ?thesis
    unfolding plan_eq using isite tsite seen_sets_finite [of _ f extra] by (cases "pool = 0") (auto simp: plan_roots_def rooted_def)
qed

lemma spill_plan_rooted:
  assumes "unique_ids f" "has_spill_sites f" "block_exception_entry_stacks f = Some (Inr entries)"
  shows "\<exists>plan. temp_spill_compute f = Some (Inr plan) \<and> plan_roots (seen_across (handler_edges entries f) f) (seen_leaving (handler_edges entries f) f) f plan"
proof -
  let ?extra = "handler_edges entries f"
  obtain s where s: "live_fixpoint ?extra f = Some (Inr s)" "live_sound ?extra f (fst s)"
    "\<And>blk v. blk \<in> set (blocks f) \<Longrightarrow> v \<in> fst s (blk_id blk) \<longleftrightarrow> seen_at ?extra f blk 0 v"
    "\<And>blk n v. n \<le> length (insts blk) \<Longrightarrow>
      v \<in> walk_back (drop n (insts blk)) (live_end ?extra (fst s) blk) \<longleftrightarrow> seen_at ?extra f blk n v"
    using live_fixpoint_exact [OF assms(1), of ?extra] by metis
  show ?thesis
    using plan_roots_from_lists [OF assms(1) s(2-4)] assms(2,3) s(1)
    by (simp add: temp_spill_compute_def Let_def)
qed

definition live_across :: "(block_id \<Rightarrow> block_id list) \<Rightarrow> ir_function \<Rightarrow> block \<Rightarrow> nat \<Rightarrow> value_id set" where
  "live_across extra f blk n = {v. live_at extra f blk (Suc n) v} - {result (insts blk ! n)}"

definition live_leaving :: "(block_id \<Rightarrow> block_id list) \<Rightarrow> ir_function \<Rightarrow> block \<Rightarrow> value_id set" where
  "live_leaving extra f blk =
     {v. \<exists>blk' \<in> set (blocks f). blk_id blk' \<in> set (out_edges extra blk) \<and> live_at extra f blk' 0 v}"

lemma live_sets_seen:
  assumes "reads_reported f" "blk \<in> set (blocks f)"
  shows "live_across extra f blk n = seen_across extra f blk n" "live_leaving extra f blk = seen_leaving extra f blk"
  using live_at_iff_seen [OF assms(1)] assms(2)
  by (auto simp: live_across_def seen_across_def live_leaving_def seen_leaving_def)

lemma plan_roots_live:
  assumes "reads_reported f"
  shows "plan_roots (live_across extra f) (live_leaving extra f) f plan \<longleftrightarrow> plan_roots (seen_across extra f) (seen_leaving extra f) f plan"
  using live_sets_seen [OF assms, of _ extra] by (cases plan) (auto simp: plan_roots_def)



text \<open>
  An exception can leave a block in its middle.  A value that a handler of the block reads is rooted
  at every window of the block after which the block does not write it.
\<close>

lemma handler_values_rooted:
  assumes h: "h \<in> set (blocks f)" "blk_id h \<in> set (extra (blk_id blk))" "live_at extra f h 0 v"
    and n: "n < length (insts blk)" "v \<notin> result ` set (drop n (insts blk))"
  shows "v \<in> live_across extra f blk n"
proof -
  have "live_at extra f blk (length (insts blk)) v"
    by (rule live_at.leaves [OF h(1) _ h(3)]) (simp add: out_edges_def h(2))
  moreover have "live_at extra f blk k v" if "Suc n \<le> k" "k \<le> length (insts blk)" "live_at extra f blk (length (insts blk)) v" for k
    using that
  proof (induction "length (insts blk) - k" arbitrary: k)
    case (Suc d)
    then have k: "k < length (insts blk)" by simp
    have "insts blk ! k \<in> set (drop n (insts blk))"
      using k Suc.prems(1) by (auto simp: in_set_conv_nth intro!: exI [of _ "k - n"])
    then have "result (insts blk ! k) \<noteq> v" using n(2) by auto
    moreover have "live_at extra f blk (Suc k) v" using Suc.hyps(1) [of "Suc k"] Suc.hyps(2) Suc.prems k by simp
    ultimately show ?case by (rule live_at.keeps [OF k])
  qed simp
  moreover have "result (insts blk ! n) \<noteq> v" using n Cons_nth_drop_Suc [OF n(1), symmetric] by auto
  ultimately show ?thesis using n(1) by (auto simp: live_across_def)
qed

lemma call_kinds:
  "push_target (LoadLocal l) = None" "push_target (Const c) = None" "push_target (BinaryOp op a b) = None"
  "push_target (Call v vs) = None" "push_target (BuildTuple vs) = None"
  "inst_spill_point (LoadLocal l) = False" "inst_spill_point (Const c) = False" "inst_spill_point (BinaryOp op a b) = True"
  "inst_spill_point (Call v vs) = True" "inst_spill_point (BuildTuple vs) = False"
  by (simp_all add: push_target_def inst_spill_point_def)

lemma call_stacks: "block_exception_entry_stacks call_function = Some (Inr [0 \<mapsto> []])"
proof -
  have "stack_step call_function ([0 \<mapsto> []], [0]) = Inr ([0 \<mapsto> []], [])"
    by (simp add: stack_step_def block_of_def call_function_def call_block_def block_entries_def inst_new_def call_kinds)
  then show ?thesis
    by (simp add: block_exception_entry_stacks_def call_function_def [THEN arg_cong, of blocks, simplified] call_function_layout(3)
        run_loop_step run_loop_idle)
qed


lemma call_edges: "handler_edges [0 \<mapsto> []] call_function = (\<lambda>_. [])"
  by (rule ext) (simp add: handler_edges_def block_of_def call_function_def call_block_def handler_targets_def inst_new_def
      call_kinds List.map_filter_simps)

lemma call_live: "live_fixpoint (\<lambda>_. []) call_function = Some (Inr (\<lambda>_. {}, False))"
proof -
  have "live_pass (\<lambda>_. []) call_function (\<lambda>_. {}, True) = (\<lambda>_. {}, False)"
    by (simp add: live_pass_def call_function_def live_visit_def live_next_walk live_end_def live_out_def out_edges_def call_block_def
        inst_new_def insert_Diff_if)
  then show ?thesis by (simp add: live_fixpoint_def run_loop_step run_loop_idle)
qed

lemma call_plan:
  "temp_spill_compute call_function =
     Some (Inr (Some \<lparr>inst_spills = [((0, 4), [3]), ((0, 3), [0])], term_spills = [], pool_size = 1\<rparr>))"
proof -
  have sites: "has_spill_sites call_function"
    by (simp add: has_spill_sites_def call_function_def call_block_def inst_new_def call_kinds)
  have spills: "block_inst_spills (\<lambda>_. []) (\<lambda>_. {}) call_block = [((0, 4), [3]), ((0, 3), [0])]"
    by (simp add: block_inst_spills_def call_block_def inst_new_def call_kinds live_end_def live_out_def out_edges_def insert_Diff_if)
  have terms: "block_term_spills (\<lambda>_. []) (\<lambda>_. {}) call_block = []"
    by (simp add: block_term_spills_def call_block_def term_spill_point_def)
  have "blocks call_function = [call_block]" by (simp add: call_function_def)
  then show ?thesis
    using sites call_stacks call_edges call_live spills terms by (simp add: temp_spill_compute_def extract_spills_def)
qed

lemma call_reported: "reads_reported call_function"
  by (simp add: reads_reported_def call_function_def call_block_def hides_operands_def inst_new_def)



section \<open>A temporary the plan misses\<close>

text \<open>
  The code of \<open>def f(x: T = g())\<close>: the annotation function is made first, the default is computed by a
  call, the function is made and the annotation function attached to it.
\<close>

definition annotate_block :: "func_id \<Rightarrow> func_id \<Rightarrow> block" where
  "annotate_block ann body =
     \<lparr>blk_id = 0,
      insts = [inst_new 0 (MakeFunctionFull ann [] [] [] []), inst_new 1 (LoadLocal 0), inst_new 2 (Call 1 []),
               inst_new 3 (MakeFunctionFull body [2] [] [] []), inst_new 4 (FunctionSetAnnotate 3 0)],
      term_of = Return 3\<rparr>"

definition annotate_function :: "func_id \<Rightarrow> func_id \<Rightarrow> ir_function" where
  "annotate_function ann body = call_function\<lparr>blocks := [annotate_block ann body]\<rparr>"

lemma annotate_kinds:
  "push_target (MakeFunctionFull c d k cl a) = None" "push_target (FunctionSetAnnotate v w) = None"
  "inst_spill_point (MakeFunctionFull c d k cl a) = False" "inst_spill_point (FunctionSetAnnotate v w) = False"
  by (simp_all add: push_target_def inst_spill_point_def)

lemma annotate_blocks: "blocks (annotate_function ann body) = [annotate_block ann body]" "blk_id (annotate_block ann body) = 0"
  by (simp_all add: annotate_function_def annotate_block_def)

lemma annotate_stacks: "block_exception_entry_stacks (annotate_function ann body) = Some (Inr [0 \<mapsto> []])"
proof -
  have "stack_step (annotate_function ann body) ([0 \<mapsto> []], [0]) = Inr ([0 \<mapsto> []], [])"
    by (simp add: stack_step_def block_of_def annotate_blocks)
      (simp add: annotate_block_def block_entries_def inst_new_def call_kinds annotate_kinds)
  then show ?thesis
    by (simp add: block_exception_entry_stacks_def annotate_blocks run_loop_step run_loop_idle)
qed

lemma annotate_edges: "handler_edges [0 \<mapsto> []] (annotate_function ann body) = (\<lambda>_. [])"
  by (rule ext) (simp add: handler_edges_def block_of_def annotate_blocks handler_targets_def,
      simp add: annotate_block_def inst_new_def call_kinds annotate_kinds List.map_filter_simps)

lemma annotate_live: "live_fixpoint (\<lambda>_. []) (annotate_function ann body) = Some (Inr (\<lambda>_. {}, False))"
proof -
  have "live_next (\<lambda>_. []) (\<lambda>_. {}) (annotate_block ann body) = {}"
    by (simp add: live_next_walk live_end_def live_out_def out_edges_def annotate_block_def inst_new_def insert_Diff_if)
  then have "live_pass (\<lambda>_. []) (annotate_function ann body) (\<lambda>_. {}, True) = (\<lambda>_. {}, False)"
    by (simp add: live_pass_def annotate_blocks live_visit_def)
  then show ?thesis by (simp add: live_fixpoint_def run_loop_step run_loop_idle)
qed

lemma annotate_plan: "temp_spill_compute (annotate_function ann body) = Some (Inr None)"
proof -
  have sites: "has_spill_sites (annotate_function ann body)"
    by (simp add: has_spill_sites_def annotate_blocks) (simp add: annotate_block_def inst_new_def call_kinds annotate_kinds)
  have spills: "block_inst_spills (\<lambda>_. []) (\<lambda>_. {}) (annotate_block ann body) = [((0, 2), [])]"
    by (simp add: block_inst_spills_def annotate_block_def inst_new_def call_kinds annotate_kinds live_end_def live_out_def
        out_edges_def insert_Diff_if)
  have terms: "block_term_spills (\<lambda>_. []) (\<lambda>_. {}) (annotate_block ann body) = []"
    by (simp add: block_term_spills_def annotate_block_def term_spill_point_def)
  show ?thesis
    using sites annotate_stacks annotate_edges annotate_live spills terms
    by (simp add: temp_spill_compute_def extract_spills_def annotate_blocks)
qed

text \<open>
  The planner misses the operands of \<open>FunctionSetAnnotate\<close>.  In the code of \<open>def f(x: T = g())\<close>, whatever
  the two function bodies are, the annotation function is made before the call of \<open>g\<close> and attached
  after it, so it is live across a call that may run user code and collect; yet there is no plan and
  nothing is rooted there.
\<close>
theorem annotate_function_not_rooted:
  "temp_spill_compute (annotate_function ann body) = Some (Inr None) \<and>
   inst_spill_point (kind (insts (annotate_block ann body) ! 2)) \<and>
   0 \<in> live_across (\<lambda>_. []) (annotate_function ann body) (annotate_block ann body) 2"
proof -
  let ?live = "live_at (\<lambda>_. []) (annotate_function ann body) (annotate_block ann body)"
  have "?live 4 0" by (rule live_at.reads) (simp_all add: annotate_block_def inst_new_def)
  then have "?live 3 0" by (intro live_at.keeps [of 3]) (simp_all add: annotate_block_def inst_new_def)
  then show ?thesis
    using annotate_plan by (simp add: live_across_def) (simp add: annotate_block_def inst_new_def call_kinds)
qed

end
