(* ===== verification/Tagged_Int.thy ===== *)
theory Tagged_Int
  imports Pon_Prelude
begin

text \<open>
  The pointer-tagging scheme of \<^verbatim>\<open>pon-runtime/src/tag.rs\<close>.  A value that crosses the
  compiled-code interface is one 64-bit word: bit 0 set is an immediate small integer with a
  63-bit payload, low bits \<open>00\<close> a heap pointer (or NULL), low bits \<open>10\<close> are reserved.
  Signed \<open>i64\<close> values are words read through \<open>sint\<close>.

  The lemmas show that tagging is a bijection between the 63-bit integers and the odd words,
  and that the helper prelude hands its body heap-or-NULL arguments only.
\<close>

unbundle bit_operations_syntax

section \<open>Constants and classification\<close>

definition TAG_INT_BIT :: u64 where "TAG_INT_BIT = 1"
definition TAG_RESERVED :: u64 where "TAG_RESERVED = 2"
definition TAG_MASK :: u64 where "TAG_MASK = 3"
definition TAG_HEAP :: u64 where "TAG_HEAP = 0"

definition SMALL_INT_MIN :: int where "SMALL_INT_MIN = - (2 ^ 62)"
definition SMALL_INT_MAX :: int where "SMALL_INT_MAX = 2 ^ 62 - 1"

definition is_small_int :: "u64 \<Rightarrow> bool" where
  "is_small_int p \<longleftrightarrow> p AND TAG_INT_BIT \<noteq> 0"

definition is_heap :: "u64 \<Rightarrow> bool" where
  "is_heap p \<longleftrightarrow> p AND TAG_MASK = TAG_HEAP"

section \<open>Encoding and decoding\<close>

definition tag_small_int :: "i64 \<Rightarrow> u64" where
  "tag_small_int v = push_bit 1 v OR TAG_INT_BIT"

definition untag_small_int :: "u64 \<Rightarrow> i64" where
  "untag_small_int p = signed_drop_bit 1 p"

definition try_tag_small_int :: "i64 \<Rightarrow> u64 option" where
  "try_tag_small_int v =
     (if SMALL_INT_MIN \<le> sint v \<and> sint v \<le> SMALL_INT_MAX then Some (tag_small_int v) else None)"

text \<open>
  \<open>boxed\<close> stands for \<^verbatim>\<open>abi::boxed_const_int\<close>, which allocates a heap \<open>PyLong\<close> and returns
  NULL when the allocation fails.
\<close>

definition untag_arg :: "(i64 \<Rightarrow> u64) \<Rightarrow> u64 \<Rightarrow> u64" where
  "untag_arg boxed p = (if is_small_int p then boxed (untag_small_int p) else p)"

text \<open>
  \<^verbatim>\<open>untag_prelude!\<close>: the arguments are normalised left to right; the first tagged argument
  that cannot be boxed makes the helper return its error sentinel (\<open>Inl\<close>).
\<close>

fun untag_prelude :: "(i64 \<Rightarrow> u64) \<Rightarrow> 'e \<Rightarrow> u64 list \<Rightarrow> 'e + u64 list" where
  "untag_prelude boxed sentinel [] = Inr []"
| "untag_prelude boxed sentinel (a # args) =
     (let normalized = untag_arg boxed a in
      if is_small_int a \<and> normalized = 0 then Inl sentinel
      else case untag_prelude boxed sentinel args of
             Inl e \<Rightarrow> Inl e
           | Inr rest \<Rightarrow> Inr (normalized # rest))"

section \<open>Bit-level facts\<close>

lemma is_small_int_bit: "is_small_int p \<longleftrightarrow> bit p 0"
  by (simp add: is_small_int_def TAG_INT_BIT_def and_one_eq odd_iff_mod_2_eq_one bit_0)

lemma and_3_eq_0_iff: "(p :: u64) AND 3 = 0 \<longleftrightarrow> \<not> bit p 0 \<and> \<not> bit p 1"
proof -
  have m: "(3 :: u64) = mask 2" by (simp add: mask_eq_exp_minus_1)
  have "p AND 3 = take_bit 2 p" by (simp add: m take_bit_eq_mask)
  moreover have "take_bit 2 p = 0 \<longleftrightarrow> (\<forall>n < 2. \<not> bit p n)"
    by (auto simp: bit_eq_iff bit_take_bit_iff)
  ultimately show ?thesis by (auto simp: less_2_cases_iff)
qed

lemma is_heap_bits: "is_heap p \<longleftrightarrow> \<not> bit p 0 \<and> \<not> bit p 1"
  by (simp add: is_heap_def TAG_MASK_def TAG_HEAP_def and_3_eq_0_iff)

lemma bit_tag_small_int:
  "bit (tag_small_int v) n \<longleftrightarrow> n = 0 \<or> (0 < n \<and> n < 64 \<and> bit v (n - 1))"
  unfolding tag_small_int_def TAG_INT_BIT_def bit_or_iff bit_push_bit_iff bit_1_iff
  by (cases n) auto

lemma bit_untag_small_int:
  "bit (untag_small_int p) n \<longleftrightarrow> n < 64 \<and> bit p (if n = 63 then 63 else Suc n)"
proof (cases "n < 64")
  case True
  then show ?thesis
    by (auto simp: untag_small_int_def bit_signed_drop_bit_iff)
next
  case False
  then show ?thesis by (auto dest: bit_u64_imp_lt)
qed

lemma sint_range_iff_bit62:
  "SMALL_INT_MIN \<le> sint v \<and> sint v \<le> SMALL_INT_MAX \<longleftrightarrow> (bit v 62 \<longleftrightarrow> bit v 63)" for v :: i64
proof -
  have range: "(- (2 ^ 62) \<le> sint v \<and> sint v < 2 ^ 62) \<longleftrightarrow> signed_take_bit 62 (sint v) = sint v"
    by (metis signed_take_bit_int_eq_self_iff)
  have "signed_take_bit 62 (sint v) = sint v \<longleftrightarrow> (bit v 62 \<longleftrightarrow> bit v 63)"
  proof
    assume "signed_take_bit 62 (sint v) = sint v"
    then have "bit (signed_take_bit 62 (sint v)) 63 \<longleftrightarrow> bit (sint v) 63" by simp
    then show "bit v 62 \<longleftrightarrow> bit v 63" by (simp add: bit_signed_take_bit_iff bit_sint_iff)
  next
    assume eq: "bit v 62 \<longleftrightarrow> bit v 63"
    show "signed_take_bit 62 (sint v) = sint v"
    proof (rule bit_eqI)
      fix n
      show "bit (signed_take_bit 62 (sint v)) n \<longleftrightarrow> bit (sint v) n"
      proof (cases "n \<le> 62")
        case True
        then show ?thesis by (simp add: bit_signed_take_bit_iff min_def)
      next
        case False
        then consider "n = 63" | "n \<ge> 64" by linarith
        then show ?thesis
          using eq by cases (auto simp: bit_signed_take_bit_iff bit_sint_iff dest: bit_u64_imp_lt)
      qed
    qed
  qed
  then show ?thesis using range by (auto simp: SMALL_INT_MIN_def SMALL_INT_MAX_def)
qed

lemma untag_tag:
  assumes "SMALL_INT_MIN \<le> sint v" "sint v \<le> SMALL_INT_MAX"
  shows "untag_small_int (tag_small_int v) = v"
proof (rule bit_eqI)
  fix n
  have "bit v 62 \<longleftrightarrow> bit v 63" using assms sint_range_iff_bit62 by blast
  then show "bit (untag_small_int (tag_small_int v)) n \<longleftrightarrow> bit v n"
    by (auto simp: bit_untag_small_int bit_tag_small_int dest: bit_u64_imp_lt)
qed

lemma tag_untag:
  assumes "is_small_int p"
  shows "tag_small_int (untag_small_int p) = p"
proof (rule bit_eqI)
  fix n
  have "bit p 0" using assms by (simp add: is_small_int_bit)
  then show "bit (tag_small_int (untag_small_int p)) n \<longleftrightarrow> bit p n"
    by (cases n) (auto simp: bit_untag_small_int bit_tag_small_int dest: bit_u64_imp_lt)
qed

lemma untag_in_range:
  "SMALL_INT_MIN \<le> sint (untag_small_int p) \<and> sint (untag_small_int p) \<le> SMALL_INT_MAX"
  by (simp add: sint_range_iff_bit62 bit_untag_small_int)

section \<open>Properties\<close>

text \<open>
  Tagging round trips: a value in the 63-bit range is encoded as a non-NULL immediate that
  no heap test accepts and that decodes to the same value, and a value outside the range is
  refused.
\<close>

theorem try_tag_roundtrip:
  "case try_tag_small_int v of
     Some p \<Rightarrow> SMALL_INT_MIN \<le> sint v \<and> sint v \<le> SMALL_INT_MAX \<and> is_small_int p \<and> \<not> is_heap p \<and>
       p \<noteq> 0 \<and> untag_small_int p = v
   | None \<Rightarrow> sint v < SMALL_INT_MIN \<or> SMALL_INT_MAX < sint v"
proof (cases "SMALL_INT_MIN \<le> sint v \<and> sint v \<le> SMALL_INT_MAX")
  case True
  have b: "bit (tag_small_int v) 0" by (simp add: bit_tag_small_int)
  then have "tag_small_int v \<noteq> 0" by auto
  with True b show ?thesis
    by (simp add: try_tag_small_int_def is_small_int_bit is_heap_bits untag_tag)
next
  case False
  then show ?thesis by (auto simp: try_tag_small_int_def)
qed

text \<open>
  Every odd word is the encoding of exactly one small integer: decoding it gives an
  in-range value whose encoding is the word itself, so identity of immediates is equality of
  values.
\<close>

theorem small_int_canonical:
  "try_tag_small_int v = Some p \<longleftrightarrow> is_small_int p \<and> v = untag_small_int p"
proof
  assume "try_tag_small_int v = Some p"
  then show "is_small_int p \<and> v = untag_small_int p"
    by (auto simp: try_tag_small_int_def untag_tag is_small_int_bit bit_tag_small_int split: if_splits)
next
  assume "is_small_int p \<and> v = untag_small_int p"
  then show "try_tag_small_int v = Some p"
    using untag_in_range [of p] tag_untag [of p] by (simp add: try_tag_small_int_def)
qed

lemma untag_prelude_Inr:
  assumes box: "\<And>v. is_heap (boxed v)"
  shows "untag_prelude boxed sentinel args = Inr out \<Longrightarrow>
    length out = length args \<and>
    (\<forall>i < length args. (is_small_int (args ! i) \<longrightarrow> is_heap (out ! i) \<and> out ! i \<noteq> 0 \<and>
                          out ! i = boxed (untag_small_int (args ! i))) \<and>
                       (\<not> is_small_int (args ! i) \<longrightarrow> out ! i = args ! i))"
proof (induction args arbitrary: out)
  case Nil
  then show ?case by simp
next
  case (Cons a args)
  then obtain rest where rest: "untag_prelude boxed sentinel args = Inr rest"
    "out = untag_arg boxed a # rest" "\<not> (is_small_int a \<and> untag_arg boxed a = 0)"
    by (auto simp: Let_def split: if_splits sum.splits)
  show ?case
    using Cons.IH [OF rest(1)] rest(2,3) box
    by (auto simp: untag_arg_def nth_Cons split: nat.split)
qed

lemma untag_prelude_Inl:
  "untag_prelude boxed sentinel args = Inl e \<longleftrightarrow>
    e = sentinel \<and> (\<exists>a \<in> set args. is_small_int a \<and> boxed (untag_small_int a) = 0)"
  by (induction args) (auto simp: Let_def untag_arg_def split: sum.split)

text \<open>
  The helper prelude: with a boxing routine that returns heap pointers (or NULL), it
  either returns the sentinel, exactly when some tagged argument could not be boxed, or
  rebinds every argument, the tagged ones to a non-NULL heap object and the others unchanged;
  no rebound argument is an immediate.
\<close>

theorem untag_prelude_ok:
  assumes "\<And>v. is_heap (boxed v)"
  shows "case untag_prelude boxed sentinel args of
     Inl e \<Rightarrow> e = sentinel \<and> (\<exists>a \<in> set args. is_small_int a \<and> boxed (untag_small_int a) = 0)
   | Inr out \<Rightarrow> length out = length args \<and>
       (\<forall>i < length args. \<not> is_small_int (out ! i) \<and>
          (if is_small_int (args ! i) then out ! i \<noteq> 0 \<and> out ! i = boxed (untag_small_int (args ! i))
           else out ! i = args ! i))"
proof (cases "untag_prelude boxed sentinel args")
  case (Inl e)
  then show ?thesis using untag_prelude_Inl [THEN iffD1, OF Inl] by simp
next
  case (Inr out)
  have "is_heap q \<Longrightarrow> \<not> is_small_int q" for q by (simp add: is_heap_bits is_small_int_bit)
  then show ?thesis using Inr untag_prelude_Inr [OF assms Inr] by auto
qed

definition demo_box :: "i64 \<Rightarrow> u64" where
  "demo_box v = push_bit 4 v"

theorem untag_prelude_ok_witness:
  "(\<forall>v. is_heap (demo_box v)) \<and> untag_prelude demo_box (0 :: nat) [32, 5] = Inr [32, 32]"
proof -
  have heap: "is_heap (demo_box v)" for v
    by (simp add: is_heap_bits demo_box_def bit_push_bit_iff)
  have "untag_small_int 5 = 2"
    using untag_tag [of 2] by (simp add: SMALL_INT_MIN_def SMALL_INT_MAX_def tag_small_int_def TAG_INT_BIT_def)
  then have run: "untag_prelude demo_box (0 :: nat) [32, 5] = Inr [32, 32]"
    by (simp add: untag_arg_def is_small_int_def TAG_INT_BIT_def demo_box_def Let_def)
  show ?thesis using heap run untag_prelude_ok [of demo_box "0 :: nat" "[32, 5]", OF heap] by simp
qed

end
