(* ===== verification/Seq_Index.thy ===== *)
theory Seq_Index
  imports Pon_Prelude "HOL-Library.Signed_Division"
begin

text \<open>
  Index arithmetic of the sequence family (\<open>pon-runtime/src/abi/seq.rs\<close> and
  \<open>pon-runtime/src/types/slice_.rs\<close>): subscripts, slice bounds, \<open>range\<close> lengths and items.

  An \<open>isize\<close> or \<open>i64\<close> is an \<open>int\<close> in the range of \<open>isize_ok\<close>; every operation that could leave the
  range is written with the wrap-around (\<open>wrap64\<close>, the release profile has no overflow checks), the
  saturation or the checked failure the source has.  An object that a subscript or slice bound may be
  is seen through \<open>operand\<close>: what \<open>is_none\<close>, \<open>to_bool\<close> and the integer payload readers tell of it.
  Errors are the diagnostic strings of the source, which the raising funnels classify.
\<close>

section \<open>Machine integers\<close>

definition isize_max :: int where "isize_max = 2 ^ 63 - 1"
definition isize_min :: int where "isize_min = - (2 ^ 63)"

definition isize_ok :: "int \<Rightarrow> bool" where
  "isize_ok x \<longleftrightarrow> isize_min \<le> x \<and> x \<le> isize_max"

definition wrap64 :: "int \<Rightarrow> int" where
  "wrap64 x = signed_take_bit 63 x"

definition saturating_add :: "int \<Rightarrow> int \<Rightarrow> int" where
  "saturating_add a b = max isize_min (min isize_max (a + b))"

definition checked :: "int \<Rightarrow> int option" where
  "checked x = (if isize_ok x then Some x else None)"

definition clamp :: "int \<Rightarrow> int \<Rightarrow> int \<Rightarrow> int" where
  "clamp v lo hi = (if v < lo then lo else if v > hi then hi else v)"

definition as_usize :: "int \<Rightarrow> nat" where
  "as_usize x = nat (x mod 2 ^ 64)"

definition isize_try_from :: "nat \<Rightarrow> int option" where
  "isize_try_from n = checked (int n)"

lemma wrap64_id [simp]: "isize_ok x \<Longrightarrow> wrap64 x = x"
  by (simp add: wrap64_def isize_ok_def isize_min_def isize_max_def signed_take_bit_int_eq_self)

lemma as_usize_id [simp]: "0 \<le> x \<Longrightarrow> x < 2 ^ 64 \<Longrightarrow> as_usize x = nat x"
  by (simp add: as_usize_def)

lemma saturating_add_id: "isize_ok (a + b) \<Longrightarrow> saturating_add a b = a + b"
  by (simp add: saturating_add_def isize_ok_def)

section \<open>Operands\<close>

datatype operand = NullObj | NoneObj | BoolObj bool | IntObj int | OtherObj string

type_synonym message = string

fun object_type_name :: "operand \<Rightarrow> string" where
  "object_type_name NullObj = ''NULL''"
| "object_type_name NoneObj = ''NoneType''"
| "object_type_name (BoolObj b) = ''bool''"
| "object_type_name (IntObj n) = ''int''"
| "object_type_name (OtherObj t) = t"

fun to_i64_including_bool :: "operand \<Rightarrow> int option" where
  "to_i64_including_bool (BoolObj b) = Some (if b then 1 else 0)"
| "to_i64_including_bool (IntObj n) = checked n"
| "to_i64_including_bool _ = None"

definition is_none :: "operand \<Rightarrow> bool" where
  "is_none v \<longleftrightarrow> v = NoneObj"

definition long_value :: "operand \<Rightarrow> message + int" where
  "long_value v =
     (if v = NullObj then Inl ''integer operand is NULL''
      else case to_i64_including_bool v of
        Some n \<Rightarrow> Inr n
      | None \<Rightarrow> Inl (''expected int, got '' @ object_type_name v))"

definition index_value :: "operand \<Rightarrow> message + int" where
  "index_value v = bind_ok (long_value v) (\<lambda>n.
     case checked n of Some i \<Rightarrow> Inr i | None \<Rightarrow> Inl ''sequence index is out of range for this platform'')"

definition normalize_index :: "int \<Rightarrow> nat \<Rightarrow> message + nat" where
  "normalize_index index len =
     (case isize_try_from len of
        None \<Rightarrow> Inl ''sequence is too large for this platform''
      | Some len_isize \<Rightarrow>
          let adjusted = (if index < 0 then saturating_add index len_isize else index) in
          if adjusted < 0 \<or> adjusted \<ge> len_isize then Inl ''sequence index out of range''
          else Inr (as_usize adjusted))"

section \<open>Slices\<close>

record py_slice =
  sl_start :: operand
  sl_stop :: operand
  sl_step :: operand

record slice_indices =
  si_start :: int
  si_stop :: int
  si_step :: int
  si_len :: nat

definition normalize_slice_bound :: "operand \<Rightarrow> int \<Rightarrow> int \<Rightarrow> int \<Rightarrow> int \<Rightarrow> message + int" where
  "normalize_slice_bound v len default_none lower upper =
     (if is_none v then Inr (clamp default_none lower upper)
      else bind_ok (index_value v) (\<lambda>i.
        let i = (if i < 0 then saturating_add i len else i) in Inr (clamp i lower upper)))"

definition slice_count :: "int \<Rightarrow> int \<Rightarrow> int \<Rightarrow> nat" where
  "slice_count start stop step =
     (if step > 0 then
        (if stop \<le> start then 0
         else as_usize (wrap64 (wrap64 (wrap64 (stop - start) - 1) sdiv step + 1)))
      else if stop \<ge> start then 0
      else as_usize (wrap64 (wrap64 (wrap64 (start - stop) - 1) sdiv (wrap64 (- step)) + 1)))"

definition normalize_slice :: "py_slice \<Rightarrow> nat \<Rightarrow> message + slice_indices" where
  "normalize_slice s len =
     (case isize_try_from len of
        None \<Rightarrow> Inl ''sequence is too large for slice indices''
      | Some len \<Rightarrow>
          bind_ok (if is_none (sl_step s) then Inr 1 else index_value (sl_step s)) (\<lambda>step.
            if step = 0 then Inl ''slice step cannot be zero''
            else
              bind_ok (if step > 0 then normalize_slice_bound (sl_start s) len 0 0 len
                       else normalize_slice_bound (sl_start s) len (len - 1) (- 1) (len - 1)) (\<lambda>start.
              bind_ok (if step > 0 then normalize_slice_bound (sl_stop s) len len 0 len
                       else normalize_slice_bound (sl_stop s) len (- 1) (- 1) (len - 1)) (\<lambda>stop.
                Inr \<lparr>si_start = start, si_stop = stop, si_step = step,
                     si_len = slice_count start stop step\<rparr>))))"

text \<open>The index sequence every slice loop walks: \<open>si_len\<close> rounds from \<open>si_start\<close> with a saturating step.\<close>

fun positions :: "nat \<Rightarrow> int \<Rightarrow> int \<Rightarrow> int list" where
  "positions 0 pos step = []"
| "positions (Suc n) pos step = pos # positions n (saturating_add pos step) step"

definition slice_positions :: "slice_indices \<Rightarrow> int list" where
  "slice_positions si = positions (si_len si) (si_start si) (si_step si)"

subsection \<open>\<open>slice.indices\<close>\<close>

text \<open>\<open>index_isize\<close> reads the payload as an unbounded integer first, so the range check is its only one.\<close>

fun index_isize :: "operand \<Rightarrow> int option" where
  "index_isize (BoolObj b) = Some (if b then 1 else 0)"
| "index_isize (IntObj n) = checked n"
| "index_isize _ = None"

definition bad_slice_index :: message where
  "bad_slice_index = ''slice indices must be integers or None or have an __index__ method''"

definition normalize_bound :: "operand \<Rightarrow> int \<Rightarrow> int \<Rightarrow> int \<Rightarrow> int \<Rightarrow> message + int" where
  "normalize_bound v len default_none lower upper =
     (if is_none v then Inr (clamp default_none lower upper)
      else case index_isize v of
        None \<Rightarrow> Inl bad_slice_index
      | Some i \<Rightarrow>
          let i = (if i < 0 then saturating_add i len else i) in Inr (clamp i lower upper))"

definition normalize_indices :: "py_slice \<Rightarrow> int \<Rightarrow> message + int \<times> int \<times> int" where
  "normalize_indices s len =
     bind_ok (if is_none (sl_step s) then Inr 1
              else case index_isize (sl_step s) of None \<Rightarrow> Inl bad_slice_index | Some k \<Rightarrow> Inr k) (\<lambda>step.
       if step = 0 then Inl ''slice step cannot be zero''
       else
         bind_ok (if step < 0 then normalize_bound (sl_start s) len (len - 1) (- 1) (len - 1)
                  else normalize_bound (sl_start s) len 0 0 len) (\<lambda>start.
         bind_ok (if step < 0 then normalize_bound (sl_stop s) len (- 1) (- 1) (len - 1)
                  else normalize_bound (sl_stop s) len len 0 len) (\<lambda>stop.
           Inr (start, stop, step))))"

datatype exn = TypeError message | ValueError message | IndexError message | OverflowError message | BareError message

text \<open>The body of the bound method \<open>slice.indices(length)\<close> after the argument count check.\<close>

definition slice_indices_entry :: "py_slice \<Rightarrow> operand \<Rightarrow> exn + int \<times> int \<times> int" where
  "slice_indices_entry s arg =
     (case index_isize arg of
        None \<Rightarrow> Inl (TypeError (CHR 0x27 # object_type_name arg @ CHR 0x27 # '' object cannot be interpreted as an integer''))
      | Some n \<Rightarrow>
          if n < 0 then Inl (ValueError ''length should not be negative'')
          else case normalize_indices s n of
            Inl m \<Rightarrow> Inl (ValueError m)
          | Inr r \<Rightarrow> Inr r)"

section \<open>Ranges\<close>

record py_range =
  r_start :: int
  r_stop :: int
  r_step :: int
  r_len :: nat

text \<open>The difference and the quotient are \<open>i128\<close>; the negation of the step is still an \<open>i64\<close> operation.\<close>

definition range_len :: "int \<Rightarrow> int \<Rightarrow> int \<Rightarrow> message + nat" where
  "range_len start stop step =
     (if step = 0 then Inl ''range() arg 3 must not be zero''
      else
        let len = (if step > 0 then
                     (if start \<ge> stop then 0 else (stop - start - 1) sdiv step + 1)
                   else if start \<le> stop then 0
                   else (start - stop - 1) sdiv (wrap64 (- step)) + 1)
        in if 0 \<le> len \<and> len < 2 ^ 64 then Inr (nat len) else Inl ''range is too large'')"

definition alloc_range :: "int \<Rightarrow> int \<Rightarrow> int \<Rightarrow> message + py_range" where
  "alloc_range start stop step =
     (if step = 0 then Inl ''range() arg 3 must not be zero''
      else bind_ok (range_len start stop step) (\<lambda>len.
        Inr \<lparr>r_start = start, r_stop = stop, r_step = step, r_len = len\<rparr>))"

definition range_item_value :: "py_range \<Rightarrow> int \<Rightarrow> message + int" where
  "range_item_value r index =
     bind_ok (normalize_index index (r_len r)) (\<lambda>i.
       case checked (int i) of
         None \<Rightarrow> Inl ''range index is too large''
       | Some offset \<Rightarrow>
           (case checked (offset * r_step r) of
              None \<Rightarrow> Inl ''range item overflow''
            | Some p \<Rightarrow>
                (case checked (r_start r + p) of None \<Rightarrow> Inl ''range item overflow'' | Some v \<Rightarrow> Inr v)))"

definition pon_build_range :: "operand \<Rightarrow> operand \<Rightarrow> operand \<Rightarrow> exn + py_range" where
  "pon_build_range start stop step =
     (case (if is_none start then Inr 0 else long_value start) of Inl m \<Rightarrow> Inl (TypeError m)
      | Inr start_value \<Rightarrow>
     (case long_value stop of Inl m \<Rightarrow> Inl (TypeError m)
      | Inr stop_value \<Rightarrow>
     (case (if is_none step then Inr 1 else long_value step) of Inl m \<Rightarrow> Inl (TypeError m)
      | Inr step_value \<Rightarrow>
     (case alloc_range start_value stop_value step_value of
        Inr r \<Rightarrow> Inr r
      | Inl m \<Rightarrow> if m = ''range() arg 3 must not be zero'' then Inl (ValueError m) else Inl (BareError m)))))"

section \<open>Python's index sequences\<close>

text \<open>The reference: the loop the language manual describes, on unbounded integers.\<close>

function py_steps :: "int \<Rightarrow> int \<Rightarrow> int \<Rightarrow> int list" where
  "py_steps a b k = (if 0 < k \<and> a < b \<or> k < 0 \<and> b < a then a # py_steps (a + k) b k else [])"
  by pat_completeness auto
termination
  by (relation "measure (\<lambda>(a, b, k). nat (if 0 < k then b - a else a - b))") auto

declare py_steps.simps [simp del]

definition py_bound :: "int \<Rightarrow> int \<Rightarrow> int \<Rightarrow> int \<Rightarrow> int option \<Rightarrow> int" where
  "py_bound n lo hi default_none v =
     (case v of None \<Rightarrow> default_none | Some i \<Rightarrow> max lo (min hi (if i < 0 then i + n else i)))"

definition py_slice_range :: "nat \<Rightarrow> int option \<Rightarrow> int option \<Rightarrow> int \<Rightarrow> int \<times> int" where
  "py_slice_range n i j k =
     (if 0 < k then (py_bound (int n) 0 (int n) 0 i, py_bound (int n) 0 (int n) (int n) j)
      else (py_bound (int n) (- 1) (int n - 1) (int n - 1) i, py_bound (int n) (- 1) (int n - 1) (- 1) j))"

definition py_slice_steps :: "nat \<Rightarrow> int option \<Rightarrow> int option \<Rightarrow> int \<Rightarrow> int list" where
  "py_slice_steps n i j k = (let (a, b) = py_slice_range n i j k in py_steps a b k)"

section \<open>The walked positions are Python's\<close>

lemma set_py_steps: "x \<in> set (py_steps a b k) \<Longrightarrow> (0 < k \<longrightarrow> a \<le> x \<and> x < b) \<and> (k < 0 \<longrightarrow> b < x \<and> x \<le> a)"
proof (induction a b k rule: py_steps.induct)
  case (1 a b k)
  then show ?case
    by (subst (asm) (2) py_steps.simps) (fastforce split: if_splits)
qed

lemma div_step_pos:
  fixes d k :: int
  assumes "0 < k"
  shows "d - k < 0 \<Longrightarrow> 0 \<le> d \<Longrightarrow> d div k = 0" "d div k = (d - k) div k + 1"
proof -
  show "d - k < 0 \<Longrightarrow> 0 \<le> d \<Longrightarrow> d div k = 0" by (simp add: div_pos_pos_trivial)
  have "d div k = ((d - k) + k) div k" by simp
  also have "\<dots> = (d - k) div k + 1" using assms by (subst div_add_self2) simp_all
  finally show "d div k = (d - k) div k + 1" .
qed

lemma positions_up:
  assumes "0 < k" "isize_min \<le> a" "b \<le> isize_max"
  shows "positions (nat (if a < b then (b - a - 1) div k + 1 else 0)) a k = py_steps a b k"
  using assms
proof (induction a b k rule: py_steps.induct)
  case (1 a b k)
  show ?case
  proof (cases "a < b")
    case True
    have q: "0 \<le> (b - a - 1) div k" using 1 True by (simp add: pos_imp_zdiv_nonneg_iff)
    have n: "nat ((b - a - 1) div k + 1) = Suc (nat ((b - a - 1) div k))" using q by simp
    show ?thesis
    proof (cases "a + k < b")
      case lt: True
      have d: "(b - a - 1) div k = (b - (a + k) - 1) div k + 1"
        using div_step_pos(2) [of k "b - a - 1"] 1 by (simp add: algebra_simps)
      have sat: "saturating_add a k = a + k" using 1 lt by (simp add: saturating_add_def)
      show ?thesis using 1 True lt n sat
        by (subst py_steps.simps) (simp add: d)
    next
      case False
      then have "(b - a - 1) div k = 0" using 1 True by (simp add: div_pos_pos_trivial)
      moreover have "py_steps (a + k) b k = []" using 1 False by (subst py_steps.simps) simp
      ultimately show ?thesis using 1 True by (subst py_steps.simps) simp
    qed
  qed (use 1 in \<open>subst py_steps.simps, simp\<close>)
qed

lemma positions_down:
  assumes "k < 0" "isize_min \<le> b" "a \<le> isize_max"
  shows "positions (nat (if b < a then (a - b - 1) div (- k) + 1 else 0)) a k = py_steps a b k"
  using assms
proof (induction a b k rule: py_steps.induct)
  case (1 a b k)
  show ?case
  proof (cases "b < a")
    case True
    have q: "0 \<le> (a - b - 1) div (- k)" using 1 True by (simp add: pos_imp_zdiv_nonneg_iff)
    have n: "nat ((a - b - 1) div (- k) + 1) = Suc (nat ((a - b - 1) div (- k)))" using q by simp
    show ?thesis
    proof (cases "b < a + k")
      case lt: True
      have d: "(a - b - 1) div (- k) = ((a + k) - b - 1) div (- k) + 1"
        using div_step_pos(2) [of "- k" "a - b - 1"] 1 by (simp add: algebra_simps)
      have sat: "saturating_add a k = a + k" using 1 lt by (simp add: saturating_add_def)
      show ?thesis using 1 True lt n sat
        by (subst py_steps.simps) (simp add: d)
    next
      case False
      then have "(a - b - 1) div (- k) = 0" using 1 True by (simp add: div_pos_pos_trivial)
      moreover have "py_steps (a + k) b k = []" using 1 False by (subst py_steps.simps) simp
      ultimately show ?thesis using 1 True by (subst py_steps.simps) simp
    qed
  qed (use 1 in \<open>subst py_steps.simps, simp\<close>)
qed

lemma length_positions [simp]: "length (positions n a k) = n"
  by (induction n arbitrary: a) simp_all

lemma sdiv_pos: "0 \<le> a \<Longrightarrow> 0 < b \<Longrightarrow> a sdiv b = a div (b :: int)"
  by (cases "a = 0") (simp_all add: signed_divide_int_def)

lemma slice_count_up:
  assumes "0 < k" "0 \<le> a" "b \<le> isize_max"
  shows "slice_count a b k = nat (if a < b then (b - a - 1) div k + 1 else 0)"
proof (cases "a < b")
  case True
  let ?q = "(b - a - 1) div k"
  have q: "0 \<le> ?q" "?q \<le> b - a - 1"
    using assms True div_le_dividend [of "nat (b - a - 1)" "nat k"]
    by (simp_all add: pos_imp_zdiv_nonneg_iff) (smt (verit) int_div_less_self div_by_1 zdiv_mono2)
  have ok: "isize_ok (b - a)" "isize_ok (b - a - 1)" "isize_ok (?q + 1)"
    using assms True q by (auto simp: isize_ok_def isize_min_def isize_max_def)
  show ?thesis using assms True ok q
    by (simp add: slice_count_def sdiv_pos isize_max_def)
qed (use assms in \<open>simp add: slice_count_def\<close>)

lemma wrap64_top: "wrap64 9223372036854775808 = - 9223372036854775808"
  by code_simp

lemma slice_count_down:
  assumes "k < 0" "isize_min \<le> k" "- 1 \<le> b" "a < isize_max"
  shows "slice_count a b k = nat (if b < a then (a - b - 1) div (- k) + 1 else 0)"
proof (cases "b < a")
  case True
  let ?q = "(a - b - 1) div (- k)"
  have q: "0 \<le> ?q" "?q \<le> a - b - 1"
    using assms True by (simp_all add: pos_imp_zdiv_nonneg_iff) (smt (verit) div_by_1 zdiv_mono2)
  have ok: "isize_ok (a - b)" "isize_ok (a - b - 1)" "isize_ok (?q + 1)"
    using assms True q by (auto simp: isize_ok_def isize_min_def isize_max_def)
  have s: "(a - b - 1) sdiv (wrap64 (- k)) = ?q"
  proof (cases "k = isize_min")
    case True
    have w: "wrap64 (- k) = k" by (simp add: True isize_min_def wrap64_top)
    have "(a - b - 1) div (2 ^ 63) = 0"
      using assms \<open>b < a\<close> by (intro div_pos_pos_trivial) (simp_all add: isize_max_def)
    then show ?thesis by (simp add: w) (simp add: True isize_min_def signed_divide_int_def)
  next
    case False
    then have "isize_ok (- k)" using assms by (auto simp: isize_ok_def isize_min_def isize_max_def)
    then have "wrap64 (- k) = - k" by (rule wrap64_id)
    then show ?thesis using assms True sdiv_pos [of "a - b - 1" "- k"] by (simp only:)
  qed
  show ?thesis using assms True ok q s
    by (simp add: slice_count_def isize_max_def)
qed (use assms in \<open>simp add: slice_count_def\<close>)

text \<open>What a slice bound means, when it is \<open>None\<close> or an integer in the range of \<open>isize\<close>.\<close>

fun operand_bound :: "operand \<Rightarrow> int option option" where
  "operand_bound NoneObj = Some None"
| "operand_bound (BoolObj b) = Some (Some (if b then 1 else 0))"
| "operand_bound (IntObj n) = (if isize_ok n then Some (Some n) else None)"
| "operand_bound _ = None"

definition step_of :: "int option \<Rightarrow> int" where
  "step_of k = (case k of None \<Rightarrow> 1 | Some k \<Rightarrow> k)"

lemma isize_ok_small [simp]: "isize_ok 0" "isize_ok 1" "isize_ok (- 1)"
  by (simp_all add: isize_ok_def isize_min_def isize_max_def)

lemma operand_bound_ok: "operand_bound v = Some (Some i) \<Longrightarrow> isize_ok i"
  by (cases v) (auto split: if_splits)

lemma index_value_view:
  "operand_bound v = Some (Some i) \<Longrightarrow> index_value v = Inr i \<and> index_isize v = Some i \<and> \<not> is_none v"
  "operand_bound v = Some None \<Longrightarrow> is_none v"
  "operand_bound v = None \<Longrightarrow> (\<exists>m. index_value v = Inl m) \<and> index_isize v = None \<and> \<not> is_none v"
  by (cases v; auto simp: index_value_def long_value_def checked_def is_none_def split: if_splits)+

lemma clamp_saturated:
  assumes "0 \<le> n" "n \<le> isize_max" "lo \<in> {- 1, 0}" "hi \<le> n" "lo \<le> hi" "isize_ok i"
  shows "clamp (if i < 0 then saturating_add i n else i) lo hi = max lo (min hi (if i < 0 then i + n else i))"
  using assms by (auto simp: clamp_def saturating_add_def isize_ok_def)

lemma slice_bound_ok:
  assumes "0 \<le> n" "n \<le> isize_max" "lo \<in> {- 1, 0}" "hi \<le> n" "lo \<le> hi" "lo \<le> d" "d \<le> hi"
    and v: "operand_bound v = Some i"
  shows "normalize_slice_bound v n d lo hi = Inr (py_bound n lo hi d i)"
    and "normalize_bound v n d lo hi = Inr (py_bound n lo hi d i)"
    and "lo \<le> py_bound n lo hi d i \<and> py_bound n lo hi d i \<le> hi"
proof -
  have c: "clamp d lo hi = d" using assms by (simp add: clamp_def)
  note view = index_value_view [of v]
  show "normalize_slice_bound v n d lo hi = Inr (py_bound n lo hi d i)"
    "normalize_bound v n d lo hi = Inr (py_bound n lo hi d i)"
    using view v c clamp_saturated [OF assms(1-5)] operand_bound_ok [of v]
    by (cases i; simp add: normalize_slice_bound_def normalize_bound_def py_bound_def Let_def)+
  show "lo \<le> py_bound n lo hi d i \<and> py_bound n lo hi d i \<le> hi"
    using assms by (cases i) (auto simp: py_bound_def)
qed

lemma py_slice_range_bounds:
  assumes "py_slice_range n i j k = (a, b)"
  shows "0 < k \<Longrightarrow> 0 \<le> a \<and> a \<le> int n \<and> 0 \<le> b \<and> b \<le> int n"
    and "\<not> 0 < k \<Longrightarrow> - 1 \<le> a \<and> a \<le> int n - 1 \<and> - 1 \<le> b \<and> b \<le> int n - 1"
  using assms by (auto simp: py_slice_range_def py_bound_def split: if_splits option.splits)

lemma py_slice_steps_in_range: "\<forall>x \<in> set (py_slice_steps n i j k). 0 \<le> x \<and> x < int n"
proof -
  obtain a b where r: "py_slice_range n i j k = (a, b)" by force
  note b = py_slice_range_bounds [OF r]
  have "0 \<le> x \<and> x < int n" if x: "x \<in> set (py_steps a b k)" for x
  proof -
    have "k \<noteq> 0" using x by (auto simp: py_steps.simps [of a b 0])
    then show ?thesis using b set_py_steps [OF x] by linarith
  qed
  then show ?thesis by (simp add: py_slice_steps_def r)
qed

lemma slice_count_positions:
  assumes n: "int n \<le> isize_max" and k: "k \<noteq> 0" "isize_ok k" and r: "py_slice_range n i j k = (a, b)"
  shows "positions (slice_count a b k) a k = py_slice_steps n i j k"
proof (cases "0 < k")
  case True
  with py_slice_range_bounds(1) [OF r True] n slice_count_up [of k a b] positions_up [of k a b]
  show ?thesis by (simp add: py_slice_steps_def r isize_min_def)
next
  case False
  with py_slice_range_bounds(2) [OF r False] n k slice_count_down [of k b a] positions_down [of k b a]
  show ?thesis by (simp add: py_slice_steps_def r isize_min_def isize_ok_def)
qed

definition py_indices :: "nat \<Rightarrow> int option \<Rightarrow> int option \<Rightarrow> int \<Rightarrow> slice_indices" where
  "py_indices n i j k =
     \<lparr>si_start = fst (py_slice_range n i j k), si_stop = snd (py_slice_range n i j k), si_step = k,
      si_len = slice_count (fst (py_slice_range n i j k)) (snd (py_slice_range n i j k)) k\<rparr>"

lemma normalize_slice_ok:
  assumes n: "int n \<le> isize_max"
    and v: "operand_bound (sl_start s) = Some i" "operand_bound (sl_stop s) = Some j"
      "operand_bound (sl_step s) = Some k" and k: "step_of k \<noteq> 0"
  shows "normalize_slice s n = Inr (py_indices n i j (step_of k))"
    and "normalize_indices s (int n) =
      Inr (fst (py_slice_range n i j (step_of k)), snd (py_slice_range n i j (step_of k)), step_of k)"
    and "slice_positions (py_indices n i j (step_of k)) = py_slice_steps n i j (step_of k)"
proof -
  have len: "isize_try_from n = Some (int n)"
    using n by (simp add: isize_try_from_def checked_def isize_ok_def isize_min_def)
  have st: "(if is_none (sl_step s) then Inr 1 else index_value (sl_step s)) = Inr (step_of k)"
    "(if is_none (sl_step s) then Inr 1
      else case index_isize (sl_step s) of None \<Rightarrow> Inl bad_slice_index | Some q \<Rightarrow> Inr q) = Inr (step_of k)"
    using index_value_view [of "sl_step s"] v(3) by (cases k; simp add: step_of_def)+
  note up = slice_bound_ok [of "int n" 0 "int n", OF _ n _ _ _ _ _ v(1)]
    slice_bound_ok [of "int n" 0 "int n", OF _ n _ _ _ _ _ v(2)]
  note down = slice_bound_ok [of "int n" "- 1" "int n - 1", OF _ n _ _ _ _ _ v(1)]
    slice_bound_ok [of "int n" "- 1" "int n - 1", OF _ n _ _ _ _ _ v(2)]
  show "normalize_slice s n = Inr (py_indices n i j (step_of k))"
    using k up down by (cases "0 < step_of k") (simp_all add: normalize_slice_def len st py_indices_def py_slice_range_def)
  show "normalize_indices s (int n) =
      Inr (fst (py_slice_range n i j (step_of k)), snd (py_slice_range n i j (step_of k)), step_of k)"
    using k up down by (cases "0 < step_of k") (simp_all add: normalize_indices_def st py_slice_range_def)
  have "isize_ok (step_of k)" using v(3) operand_bound_ok [of "sl_step s"] by (cases k) (simp_all add: step_of_def)
  then show "slice_positions (py_indices n i j (step_of k)) = py_slice_steps n i j (step_of k)"
    using slice_count_positions [OF n k, of i j] by (simp add: slice_positions_def py_indices_def prod_eq_iff)
qed

lemma normalize_index_ok:
  assumes "int n \<le> isize_max" "isize_ok i"
  shows "normalize_index i n =
    (if - int n \<le> i \<and> i < int n then Inr (nat (if i < 0 then i + int n else i))
     else Inl ''sequence index out of range'')"
proof -
  have "isize_try_from n = Some (int n)"
    using assms by (simp add: isize_try_from_def checked_def isize_ok_def isize_min_def)
  moreover have "int n < 2 ^ 64" using assms(1) by (simp add: isize_max_def)
  ultimately show ?thesis using assms
    by (auto simp: normalize_index_def saturating_add_def isize_ok_def Let_def)
qed

lemma length_py_steps:
  assumes "k \<noteq> 0"
  shows "length (py_steps a b k) =
    nat (if 0 < k then (if a < b then (b - a - 1) div k + 1 else 0) else (if b < a then (a - b - 1) div (- k) + 1 else 0))"
  using assms
proof (induction a b k rule: py_steps.induct)
  case (1 a b k)
  have q: "a < b \<Longrightarrow> 0 < k \<Longrightarrow> 0 \<le> (b - a - 1) div k" "b < a \<Longrightarrow> k < 0 \<Longrightarrow> 0 \<le> (a - b - 1) div (- k)"
    by (simp_all add: pos_imp_zdiv_nonneg_iff)
  have d: "0 < k \<Longrightarrow> (b - a - 1) div k = (b - (a + k) - 1) div k + 1"
    "k < 0 \<Longrightarrow> (a - b - 1) div (- k) = ((a + k) - b - 1) div (- k) + 1"
    using div_step_pos(2) [of k "b - a - 1"] div_step_pos(2) [of "- k" "a - b - 1"] by (simp_all add: algebra_simps)
  have z: "0 < k \<Longrightarrow> a < b \<Longrightarrow> \<not> a + k < b \<Longrightarrow> (b - a - 1) div k = 0"
    "k < 0 \<Longrightarrow> b < a \<Longrightarrow> \<not> b < a + k \<Longrightarrow> (a - b - 1) div (- k) = 0"
    by (simp_all add: div_pos_pos_trivial)
  show ?case
  proof (cases "0 < k \<and> a < b \<or> k < 0 \<and> b < a")
    case True
    then have "length (py_steps a b k) = Suc (length (py_steps (a + k) b k))" by (subst py_steps.simps) simp
    then show ?thesis using True 1 q d z by (auto split: if_splits)
  qed (subst py_steps.simps, use 1 in auto)
qed

lemma nth_py_steps: "m < length (py_steps a b k) \<Longrightarrow> py_steps a b k ! m = a + int m * k"
proof (induction a b k arbitrary: m rule: py_steps.induct)
  case (1 a b k)
  then show ?case
    by (cases "0 < k \<and> a < b \<or> k < 0 \<and> b < a"; cases m)
      (simp_all add: py_steps.simps [of a b k] algebra_simps)
qed

lemma range_len_ok:
  assumes "isize_ok a" "isize_ok b" "isize_ok k" "k \<noteq> 0" "k \<noteq> isize_min"
  shows "range_len a b k = Inr (length (py_steps a b k))"
proof -
  have w: "wrap64 (- k) = - k" using assms by (intro wrap64_id) (auto simp: isize_ok_def isize_min_def isize_max_def)
  have lt: "0 \<le> x \<Longrightarrow> 0 < q \<Longrightarrow> x < 2 ^ 64 - 1 \<Longrightarrow> x div q + 1 < 2 ^ 64" for x q :: int
    by (smt (verit) div_by_1 zdiv_mono2)
  note rng = assms(1,2) [unfolded isize_ok_def isize_min_def isize_max_def]
  show ?thesis
    using assms rng lt [of "b - a - 1" k] lt [of "a - b - 1" "- k"] sdiv_pos [of "b - a - 1" k] sdiv_pos [of "a - b - 1" "- k"]
    by (cases "0 < k") (simp_all add: range_len_def w length_py_steps Let_def pos_imp_zdiv_nonneg_iff)
qed

lemma py_steps_offset:
  assumes "m < length (py_steps a b k)"
  shows "\<bar>int m * k\<bar> \<le> \<bar>b - a\<bar>" "min a b \<le> a + int m * k \<and> a + int m * k \<le> max a b"
proof -
  have x: "a + int m * k \<in> set (py_steps a b k)" using assms nth_py_steps [OF assms] by (metis nth_mem)
  have "k \<noteq> 0" using assms by (auto simp: py_steps.simps [of a b 0])
  then have "a \<le> a + int m * k \<and> a + int m * k < b \<or> b < a + int m * k \<and> a + int m * k \<le> a"
    using set_py_steps [OF x] by linarith
  then show "\<bar>int m * k\<bar> \<le> \<bar>b - a\<bar>" "min a b \<le> a + int m * k \<and> a + int m * k \<le> max a b"
    by (auto simp: min_def max_def)
qed

lemma range_items_ok:
  assumes ok: "isize_ok a" "isize_ok b" "isize_ok k" "k \<noteq> 0" "k \<noteq> isize_min" and span: "isize_ok \<bar>b - a\<bar>"
    and m: "m < length (py_steps a b k)"
  shows "\<exists>r. alloc_range a b k = Inr r \<and> r_len r = length (py_steps a b k) \<and>
    range_item_value r (int m) = Inr (py_steps a b k ! m) \<and>
    range_item_value r (int m - int (r_len r)) = Inr (py_steps a b k ! m)"
proof -
  let ?L = "length (py_steps a b k)"
  let ?r = "\<lparr>r_start = a, r_stop = b, r_step = k, r_len = ?L\<rparr>"
  have r: "alloc_range a b k = Inr ?r" using ok by (simp add: alloc_range_def range_len_ok)
  have "?L \<le> nat \<bar>b - a\<bar>"
  proof -
    have "\<bar>int (?L - 1) * k\<bar> \<le> \<bar>b - a\<bar>" "?L - 1 < ?L" using py_steps_offset(1) [of "?L - 1" a b k] m by auto
    moreover have x: "a + int (?L - 1) * k \<in> set (py_steps a b k)"
      using m nth_py_steps [of "?L - 1" a b k] by (metis calculation(2) nth_mem)
    ultimately have "\<bar>int (?L - 1) * k\<bar> < \<bar>b - a\<bar>" using set_py_steps [OF x] ok(4) by linarith
    moreover have "int (?L - 1) \<le> \<bar>int (?L - 1) * k\<bar>" using ok(4) by (simp add: abs_mult mult_le_cancel_left1 zero_less_abs_iff [symmetric] del: zero_less_abs_iff)
    ultimately show ?thesis using m by linarith
  qed
  then have L: "int ?L \<le> isize_max" using span unfolding isize_ok_def by linarith
  have c: "checked (int m) = Some (int m)" "checked (int m * k) = Some (int m * k)"
    "checked (a + int m * k) = Some (a + int m * k)"
    using py_steps_offset [OF m] ok span L m
    by (auto simp: checked_def isize_ok_def isize_min_def isize_max_def min_def max_def split: if_splits)
  have i: "isize_ok (int m)" "isize_ok (int m - int ?L)" using L m by (simp_all add: isize_ok_def isize_min_def isize_max_def)
  have v: "range_item_value ?r (int m) = Inr (py_steps a b k ! m)"
    "range_item_value ?r (int m - int ?L) = Inr (py_steps a b k ! m)"
    using L i m c by (simp_all add: range_item_value_def normalize_index_ok nth_py_steps)
  show ?thesis using r v by (intro exI [of _ ?r]) simp
qed

section \<open>Agreement of the two slice routines\<close>

definition agree :: "message + 'a \<Rightarrow> message + 'a \<Rightarrow> bool" where
  "agree r r' = (case r of Inl _ \<Rightarrow> isl r' | Inr x \<Rightarrow> r' = Inr x)"

lemma agree_simps [simp]: "agree (Inl m) (Inl m')" "agree (Inr x) r' \<longleftrightarrow> r' = Inr x" "\<not> agree (Inl m) (Inr y)"
  by (simp_all add: agree_def)

lemma agree_bind:
  assumes "agree m m'" "\<And>x. agree (f x) (f' x)"
  shows "agree (bind_ok m f) (bind_ok m' f')"
  using assms by (cases m; cases m') simp_all

lemma agree_bound: "agree (normalize_slice_bound v l d lo hi) (normalize_bound v l d lo hi)"
  using index_value_view [of v]
  by (cases "operand_bound v"; cases "the (operand_bound v)")
    (auto simp: normalize_slice_bound_def normalize_bound_def Let_def)

lemma agree_step:
  "agree (if is_none v then Inr 1 else index_value v)
     (if is_none v then Inr 1 else case index_isize v of None \<Rightarrow> Inl m | Some k \<Rightarrow> Inr k)"
  using index_value_view [of v] by (cases "operand_bound v"; cases "the (operand_bound v)") auto

lemma normalize_agree:
  assumes "int n \<le> isize_max"
  shows "agree (bind_ok (normalize_slice s n) (\<lambda>si. Inr (si_start si, si_stop si, si_step si))) (normalize_indices s (int n))"
proof -
  have assoc: "bind_ok (bind_ok m f) g = bind_ok m (\<lambda>x. bind_ok (f x) g)" for m :: "message + 'x"
    and f :: "'x \<Rightarrow> message + 'y" and g :: "'y \<Rightarrow> message + 'z" by (cases m) simp_all
  have c: "isize_try_from n = Some (int n)"
    using assms by (simp add: isize_try_from_def checked_def isize_ok_def isize_min_def)
  have "agree (bind_ok (if step = 0 then Inl z else bind_ok a (\<lambda>i. bind_ok b (\<lambda>j. Inr (mk i j)))) g)
      (if step = 0 then Inl z else bind_ok a' (\<lambda>i. bind_ok b' (\<lambda>j. Inr (i, j, step))))"
    if "step \<noteq> 0 \<Longrightarrow> agree a a' \<and> agree b b'" "\<And>i j. g (mk i j) = Inr (i, j, step)"
    for step z a b a' b' mk and g :: "slice_indices \<Rightarrow> message + int \<times> int \<times> int"
    using that by (cases "step = 0") (auto simp: assoc intro!: agree_bind)
  note inner = this
  show ?thesis
    unfolding normalize_slice_def normalize_indices_def c option.case assoc
    by (rule agree_bind [OF agree_step]) (rule inner; auto intro: agree_bound)
qed

section \<open>Properties\<close>

text \<open>
  Slicing visits exactly the indices Python's slice semantics name: for a sequence of at most
  \<open>isize::MAX\<close> elements, bounds that are \<open>None\<close>, booleans or \<open>isize\<close> integers (the negative ones and the
  ones past the end included) and a non-zero step (\<open>isize::MIN\<close> included), \<open>normalize_slice\<close> succeeds with
  Python's start and stop, and the walk of \<open>si_len\<close> rounds from \<open>si_start\<close> with a saturating step is the
  reference walk on unbounded integers, every index of it inside the sequence.
\<close>

theorem normalize_slice_exact:
  assumes "int n \<le> isize_max" "operand_bound (sl_start s) = Some i" "operand_bound (sl_stop s) = Some j"
    "operand_bound (sl_step s) = Some k" "step_of k \<noteq> 0"
  shows "\<exists>si. normalize_slice s n = Inr si \<and> (si_start si, si_stop si) = py_slice_range n i j (step_of k) \<and>
    slice_positions si = py_slice_steps n i j (step_of k) \<and> si_len si = length (py_slice_steps n i j (step_of k)) \<and>
    list_all (\<lambda>x. 0 \<le> x \<and> x < int n) (slice_positions si)"
proof -
  note ok = normalize_slice_ok [OF assms]
  have "si_len (py_indices n i j (step_of k)) = length (py_slice_steps n i j (step_of k))"
    using ok(3) by (metis slice_positions_def length_positions)
  then show ?thesis using ok py_slice_steps_in_range [of n i j "step_of k"]
    by (intro exI [of _ "py_indices n i j (step_of k)"]) (simp add: py_indices_def list_all_iff)
qed

theorem normalize_slice_exact_witness:
  "\<exists>si. normalize_slice \<lparr>sl_start = IntObj (- 1), sl_stop = NoneObj, sl_step = IntObj (- 2)\<rparr> 5 = Inr si \<and>
    slice_positions si = [4, 2, 0]"
proof -
  have "py_slice_steps 5 (Some (- 1)) None (- 2) = [4, 2, 0]"
    by (simp add: py_slice_steps_def py_slice_range_def py_bound_def py_steps.simps)
  then show ?thesis
    using normalize_slice_exact [of 5 "\<lparr>sl_start = IntObj (- 1), sl_stop = NoneObj, sl_step = IntObj (- 2)\<rparr>" "Some (- 1)" None "Some (- 2)"]
    by (auto simp: isize_ok_def isize_min_def isize_max_def step_of_def)
qed

text \<open>
  A slice bound outside \<open>isize\<close> is refused, although Python clamps it: for every integer beyond the
  range, \<open>xs[:b]\<close> fails with the message of a non-integer bound, whatever the sequence.
\<close>

theorem slice_bound_overflow_refused:
  assumes "\<not> isize_ok b" "int n \<le> isize_max"
  shows "normalize_slice \<lparr>sl_start = NoneObj, sl_stop = IntObj b, sl_step = NoneObj\<rparr> n = Inl ''expected int, got int''"
proof -
  have "isize_try_from n = Some (int n)"
    using assms by (simp add: isize_try_from_def checked_def isize_ok_def isize_min_def)
  then show ?thesis
    using assms by (simp add: normalize_slice_def is_none_def normalize_slice_bound_def index_value_def long_value_def checked_def)
qed

theorem slice_bound_overflow_refused_witness:
  "normalize_slice \<lparr>sl_start = NoneObj, sl_stop = IntObj (2 ^ 70), sl_step = NoneObj\<rparr> 3 = Inl ''expected int, got int''"
  by (rule slice_bound_overflow_refused) (simp_all add: isize_ok_def isize_max_def)

text \<open>
  \<open>slice.indices(n)\<close> and subscript slicing agree: for every slice and every length the triple the
  method returns is the start, stop and step of \<open>normalize_slice\<close>, and it fails, with a \<open>ValueError\<close>,
  exactly when slicing fails.
\<close>

theorem slice_indices_agrees:
  assumes "int n \<le> isize_max"
  shows "case normalize_slice s n of
      Inr si \<Rightarrow> slice_indices_entry s (IntObj (int n)) = Inr (si_start si, si_stop si, si_step si)
    | Inl m \<Rightarrow> \<exists>m'. slice_indices_entry s (IntObj (int n)) = Inl (ValueError m')"
proof -
  have c: "checked (int n) = Some (int n)" using assms by (simp add: checked_def isize_ok_def isize_min_def)
  show ?thesis using normalize_agree [OF assms, of s]
    by (cases "normalize_slice s n"; cases "normalize_indices s (int n)") (simp_all add: agree_def slice_indices_entry_def c)
qed

theorem slice_indices_agrees_witness:
  "slice_indices_entry \<lparr>sl_start = IntObj (- 2), sl_stop = NoneObj, sl_step = NoneObj\<rparr> (IntObj 5) = Inr (3, 5, 1)"
proof -
  have "normalize_slice \<lparr>sl_start = IntObj (- 2), sl_stop = NoneObj, sl_step = NoneObj\<rparr> 5 =
    Inr \<lparr>si_start = 3, si_stop = 5, si_step = 1, si_len = 2\<rparr>" by code_simp
  then show ?thesis
    using slice_indices_agrees [of 5 "\<lparr>sl_start = IntObj (- 2), sl_stop = NoneObj, sl_step = NoneObj\<rparr>"]
    by (simp add: isize_max_def)
qed

text \<open>
  A \<open>range\<close> is Python's: over \<open>i64\<close> bounds with a step other than zero and \<open>i64::MIN\<close>, its length is
  the number of values of the reference walk, and, when the span of the bounds fits an \<open>i64\<close>, every
  subscript, counted from the front or from the back, yields the value of that walk.
\<close>

theorem range_items_exact:
  assumes "isize_ok a" "isize_ok b" "isize_ok k" "k \<noteq> 0" "k \<noteq> isize_min" "isize_ok \<bar>b - a\<bar>"
    and "m < length (py_steps a b k)"
  shows "\<exists>r. pon_build_range (IntObj a) (IntObj b) (IntObj k) = Inr r \<and> r_len r = length (py_steps a b k) \<and>
    range_item_value r (int m) = Inr (py_steps a b k ! m) \<and>
    range_item_value r (int m - int (r_len r)) = Inr (py_steps a b k ! m)"
  using range_items_ok [OF assms] assms(1-3)
  by (auto simp: pon_build_range_def is_none_def long_value_def checked_def)

theorem range_items_exact_witness:
  "\<exists>r. pon_build_range (IntObj 10) (IntObj 0) (IntObj (- 3)) = Inr r \<and> r_len r = 4 \<and> range_item_value r 3 = Inr 1"
proof -
  have "py_steps 10 0 (- 3) = [10, 7, 4, 1]" by (simp add: py_steps.simps)
  then show ?thesis using range_items_exact [of 10 0 "- 3" 3]
    by (force simp: isize_ok_def isize_min_def isize_max_def)
qed

text \<open>
  Two \<open>range\<close> defects at the ends of \<open>i64\<close>.  With step \<open>i64::MIN\<close> the negated step wraps, and the
  length of \<open>range(2**63 - 1, -2**63, -2**63)\<close>, which has the two values \<open>2**63 - 1\<close> and \<open>-1\<close>, is computed as
  zero.  With a span beyond \<open>i64\<close> the product \<open>offset * step\<close> is refused although the item is
  representable: the last of the four items of \<open>range(-2**63, 2**63 - 1, 2**62)\<close> is \<open>2**62\<close>, and reading it fails.
\<close>

theorem range_edge_defects:
  "range_len isize_max isize_min isize_min = Inr 0 \<and> length (py_steps isize_max isize_min isize_min) = 2 \<and>
   (\<exists>r. alloc_range isize_min isize_max (2 ^ 62) = Inr r \<and> r_len r = 4 \<and>
      range_item_value r 3 = Inl ''range item overflow'' \<and> py_steps isize_min isize_max (2 ^ 62) ! 3 = 2 ^ 62)"
proof (intro conjI)
  show "range_len isize_max isize_min isize_min = Inr 0" by code_simp
  show "length (py_steps isize_max isize_min isize_min) = 2"
    by (simp add: isize_max_def isize_min_def py_steps.simps)
  have "alloc_range isize_min isize_max (2 ^ 62) =
      Inr \<lparr>r_start = isize_min, r_stop = isize_max, r_step = 2 ^ 62, r_len = 4\<rparr>" by code_simp
  moreover have "range_item_value \<lparr>r_start = isize_min, r_stop = isize_max, r_step = 2 ^ 62, r_len = 4\<rparr> 3 =
      Inl ''range item overflow''" by code_simp
  moreover have "py_steps isize_min isize_max (2 ^ 62) ! 3 = 2 ^ 62"
    by (simp add: isize_max_def isize_min_def py_steps.simps)
  ultimately show "\<exists>r. alloc_range isize_min isize_max (2 ^ 62) = Inr r \<and> r_len r = 4 \<and>
      range_item_value r 3 = Inl ''range item overflow'' \<and> py_steps isize_min isize_max (2 ^ 62) ! 3 = 2 ^ 62"
    by simp
qed

end
