(* ===== verification/Fast_Path.thy ===== *)
theory Fast_Path
  imports Typed_Region Temp_Spill Tagged_Int Seq_Index "HOL-Library.Signed_Division"
begin

text \<open>
  The unboxed fast path of tier-1 code, \<^verbatim>\<open>pon-codegen/src/optimizing.rs\<close>: how the instructions of a
  typed region are lowered to 64-bit integer code, with guards that leave for the boxed copy of the
  same block.  Lowering is a function on the lowering state that appends the emitted instructions;
  running them is \<open>exec\<close>.  What an emitted arithmetic instruction computes is up to the code generator
  library: it is the parameter \<open>m\<close>, and \<open>clif_documented\<close> says what its documentation promises.

  The results: on values that stay inside 64 bits the emitted code computes what Python computes,
  except for floor division and remainder of operands of different sign; a guard makes the lowering
  forget which locals are only held unboxed, on the path where it holds; and a guard that fails
  restarts its block with the locals of the middle of the block.
\<close>

section \<open>Emitted code\<close>

type_synonym clif_value = nat
type_synonym clif_var = nat

datatype int_cc =
    CcEqual | CcNotEqual | SignedLessThan | SignedLessThanOrEqual | SignedGreaterThan | SignedGreaterThanOrEqual

datatype clif_binary = Iadd | Isub | Imul | Sdiv | Srem

text \<open>
  The first argument of an instruction with a result is the name of the result.  \<open>CallConstInt\<close> is the
  call of \<^verbatim>\<open>pon_const_int\<close> with the check of its result; \<open>SideExit\<close> is the branch of
  \<^verbatim>\<open>side_exit_unless\<close> with the code of its failure block, the target and the arguments of the jump;
  \<open>LoadArg\<close> reads a slot of the argument vector, and \<open>TrustedInt\<close> is the code of
  \<^verbatim>\<open>trusted_int_object_to_i64\<close>, which untags an immediate and reads the payload of a boxed integer.
\<close>

datatype (plugins only: size) clif =
    Iconst clif_value i64
  | Binary clif_binary clif_value clif_value clif_value
  | Ineg clif_value clif_value
  | Icmp int_cc clif_value clif_value clif_value
  | IcmpImm int_cc clif_value clif_value i64
  | Select clif_value clif_value clif_value clif_value
  | BandImm clif_value clif_value i64
  | SshrImm clif_value clif_value nat
  | LoadArg clif_value nat
  | TrustedInt clif_value clif_value
  | UseVar clif_value clif_var
  | DefVar clif_var clif_value
  | StackStore clif_value nat
  | CallConstInt clif_value clif_value
  | CallDeoptNote clif_value
  | SideExit clif_value "clif list" block_id "clif_value list"

record clif_env =
  cv :: "clif_value \<Rightarrow> u64"
  vars :: "clif_var \<Rightarrow> u64"
  argv :: "nat \<Rightarrow> u64"
  shadow_slots :: "nat \<Rightarrow> u64"
  deopt_notes :: nat

record clif_machine =
  m_binary :: "clif_binary \<Rightarrow> i64 \<Rightarrow> i64 \<Rightarrow> i64 option"
  m_ineg :: "i64 \<Rightarrow> i64"
  m_icmp :: "int_cc \<Rightarrow> i64 \<Rightarrow> i64 \<Rightarrow> bool"
  m_band :: "i64 \<Rightarrow> i64 \<Rightarrow> i64"
  m_sshr :: "i64 \<Rightarrow> nat \<Rightarrow> i64"
  m_const_int :: "i64 \<Rightarrow> u64"
  m_payload :: "u64 \<Rightarrow> i64"

datatype outcome = Fall clif_env | ToCold block_id "u64 list" clif_env | ToException clif_env | Trapped

definition put :: "clif_value \<Rightarrow> u64 \<Rightarrow> clif_env \<Rightarrow> clif_env" where
  "put r x e = e\<lparr>cv := (cv e)(r := x)\<rparr>"

definition flag :: "bool \<Rightarrow> u64" where
  "flag b = (if b then 1 else 0)"

definition then_run :: "outcome \<Rightarrow> (clif_env \<Rightarrow> outcome) \<Rightarrow> outcome" where
  "then_run out f = (case out of Fall e \<Rightarrow> f e | _ \<Rightarrow> out)"

fun exec :: "clif_machine \<Rightarrow> clif list \<Rightarrow> clif_env \<Rightarrow> outcome" where
  "exec m [] e = Fall e"
| "exec m (Iconst r k # cs) e = exec m cs (put r k e)"
| "exec m (Binary op r a b # cs) e =
     (case m_binary m op (cv e a) (cv e b) of None \<Rightarrow> Trapped | Some x \<Rightarrow> exec m cs (put r x e))"
| "exec m (Ineg r a # cs) e = exec m cs (put r (m_ineg m (cv e a)) e)"
| "exec m (Icmp cc r a b # cs) e = exec m cs (put r (flag (m_icmp m cc (cv e a) (cv e b))) e)"
| "exec m (IcmpImm cc r a k # cs) e = exec m cs (put r (flag (m_icmp m cc (cv e a) k)) e)"
| "exec m (Select r c a b # cs) e = exec m cs (put r (if cv e c \<noteq> 0 then cv e a else cv e b) e)"
| "exec m (BandImm r a k # cs) e = exec m cs (put r (m_band m (cv e a) k) e)"
| "exec m (SshrImm r a n # cs) e = exec m cs (put r (m_sshr m (cv e a) n) e)"
| "exec m (LoadArg r n # cs) e = exec m cs (put r (argv e n) e)"
| "exec m (TrustedInt r a # cs) e =
     exec m cs (put r (if m_band m (cv e a) TAG_INT_BIT \<noteq> 0 then m_sshr m (cv e a) 1 else m_payload m (cv e a)) e)"
| "exec m (UseVar r v # cs) e = exec m cs (put r (vars e v) e)"
| "exec m (DefVar v a # cs) e = exec m cs (e\<lparr>vars := (vars e)(v := cv e a)\<rparr>)"
| "exec m (StackStore a s # cs) e = exec m cs (e\<lparr>shadow_slots := (shadow_slots e)(s := cv e a)\<rparr>)"
| "exec m (CallConstInt r a # cs) e =
     (let x = m_const_int m (cv e a) in if x = 0 then ToException (put r x e) else exec m cs (put r x e))"
| "exec m (CallDeoptNote a # cs) e = exec m cs (e\<lparr>deopt_notes := deopt_notes e + 1\<rparr>)"
| "exec m (SideExit c fail target args # cs) e =
     (if cv e c \<noteq> 0 then exec m cs e
      else then_run (exec m fail e) (\<lambda>e1. ToCold target (map (cv e1) args) e1))"

section \<open>Lowering state\<close>

text \<open>
  Variables are numbered in the order they are declared: the boxed locals, then the unboxed ones, then
  the loop counters of ranges.
\<close>

record fast_state =
  unboxed_values :: "value_id \<rightharpoonup> ty \<times> clif_value"
  boxed_values :: "value_id \<rightharpoonup> clif_value"
  last_value :: "clif_value option"
  local_defined :: "bool list"
  int_local_defined :: "bool list"
  int_local_dirty :: "bool list"
  cold_exit_args :: "clif_value list"
  range_iters :: "value_id \<rightharpoonup> clif_var \<times> bool"
  last_fast_for_next :: "clif_value option"
  next_value :: clif_value
  next_var :: clif_var
  code :: "clif list"

definition local_count :: "fast_state \<Rightarrow> nat" where
  "local_count st = length (int_local_defined st)"

definition int_local :: "fast_state \<Rightarrow> nat \<Rightarrow> clif_var" where
  "int_local st slot = local_count st + slot"

definition fast_state_new :: "nat \<Rightarrow> fast_state" where
  "fast_state_new n =
     \<lparr>unboxed_values = Map.empty, boxed_values = Map.empty, last_value = None, local_defined = replicate n False,
      int_local_defined = replicate n False, int_local_dirty = replicate n False, cold_exit_args = [],
      range_iters = Map.empty, last_fast_for_next = None, next_value = 0, next_var = 2 * n, code = []\<rparr>"

definition define_unboxed :: "value_id \<Rightarrow> ty \<Rightarrow> clif_value \<Rightarrow> fast_state \<Rightarrow> fast_state" where
  "define_unboxed v t c st = st\<lparr>unboxed_values := (unboxed_values st)(v \<mapsto> (t, c))\<rparr>"

definition define_value :: "value_id \<Rightarrow> clif_value \<Rightarrow> fast_state \<Rightarrow> fast_state" where
  "define_value v c st = st\<lparr>boxed_values := (boxed_values st)(v \<mapsto> c), last_value := Some c\<rparr>"

definition unboxed_int :: "fast_state \<Rightarrow> value_id \<Rightarrow> clif_value option" where
  "unboxed_int st v = (case unboxed_values st v of Some (t, c) \<Rightarrow> if t = TyIntI64 then Some c else None | None \<Rightarrow> None)"

definition emit :: "clif \<Rightarrow> fast_state \<Rightarrow> fast_state" where
  "emit c st = st\<lparr>code := code st @ [c]\<rparr>"

definition emit_value :: "(clif_value \<Rightarrow> clif) \<Rightarrow> fast_state \<Rightarrow> clif_value \<times> fast_state" where
  "emit_value c st = (next_value st, (emit (c (next_value st)) st)\<lparr>next_value := Suc (next_value st)\<rparr>)"

section \<open>Locals and guards\<close>

definition load_local :: "local_id \<Rightarrow> fast_state \<Rightarrow> codegen_error + clif_value \<times> fast_state" where
  "load_local slot st =
     (if slot \<ge> length (local_defined st) then Inl (LocalOutOfRange slot (length (local_defined st)))
      else if \<not> local_defined st ! slot then Inl (LocalUsedBeforeDefinition slot)
      else Inr (emit_value (\<lambda>r. UseVar r slot) st))"

definition store_local :: "local_id \<Rightarrow> clif_value \<Rightarrow> fast_state \<Rightarrow> codegen_error + fast_state" where
  "store_local slot v st =
     (if slot \<ge> length (local_defined st) then Inl (LocalOutOfRange slot (length (local_defined st)))
      else Inr ((emit (StackStore v slot) (emit (DefVar slot v) st))\<lparr>local_defined := (local_defined st)[slot := True]\<rparr>))"

definition box_i64 :: "clif_value \<Rightarrow> fast_state \<Rightarrow> clif_value \<times> fast_state" where
  "box_i64 v = emit_value (\<lambda>r. CallConstInt r v)"

definition sync_dirty_local :: "local_id \<Rightarrow> fast_state \<Rightarrow> codegen_error + fast_state" where
  "sync_dirty_local slot st =
     (if slot \<ge> length (int_local_dirty st) \<or> \<not> int_local_dirty st ! slot then Inr st
      else let (v, st) = emit_value (\<lambda>r. UseVar r (int_local st slot)) st; (b, st) = box_i64 v st
           in bind_ok (store_local slot b st) (\<lambda>st. Inr (st\<lparr>int_local_dirty := (int_local_dirty st)[slot := False]\<rparr>)))"

fun sync_slots :: "local_id list \<Rightarrow> fast_state \<Rightarrow> codegen_error + fast_state" where
  "sync_slots [] st = Inr st"
| "sync_slots (slot # slots) st = bind_ok (sync_dirty_local slot st) (sync_slots slots)"

definition sync_all_dirty_locals :: "fast_state \<Rightarrow> codegen_error + fast_state" where
  "sync_all_dirty_locals st = sync_slots [0..<length (int_local_dirty st)] st"

definition sync_locals_leaving_region ::
  "typed_region \<Rightarrow> block_id \<Rightarrow> block_id list \<Rightarrow> fast_state \<Rightarrow> codegen_error + fast_state" where
  "sync_locals_leaving_region region current succs st =
     (if current \<notin> set (region_blocks region) then Inr st
      else if \<exists>s \<in> set succs. s \<notin> set (region_blocks region) then sync_all_dirty_locals st
      else Inr st)"

text \<open>The cold copy of the region's entry has one parameter for every live-in, the other blocks have none.\<close>

definition side_exit_unless ::
  "typed_region \<Rightarrow> clif_value \<Rightarrow> block_id \<Rightarrow> fast_state \<Rightarrow> codegen_error + fast_state" where
  "side_exit_unless region cond cold st =
     bind_ok (sync_all_dirty_locals (st\<lparr>code := []\<rparr>)) (\<lambda>fail.
       let (null, fail) = emit_value (\<lambda>r. Iconst r 0) fail;
           fail = emit (CallDeoptNote null) fail;
           args = (if cold = entry region \<and> live_ins region \<noteq> [] then cold_exit_args fail else [])
       in Inr (fail\<lparr>code := code st @ [SideExit cond (code fail) cold args]\<rparr>))"

definition tagged_small_int_cond :: "clif_value \<Rightarrow> fast_state \<Rightarrow> clif_value \<times> fast_state" where
  "tagged_small_int_cond object st =
     (let (t, st) = emit_value (\<lambda>r. BandImm r object TAG_INT_BIT) st in emit_value (\<lambda>r. IcmpImm CcNotEqual r t 0) st)"

definition untag_small_int_i64 :: "clif_value \<Rightarrow> fast_state \<Rightarrow> clif_value \<times> fast_state" where
  "untag_small_int_i64 object = emit_value (\<lambda>r. SshrImm r object 1)"

definition guard_and_unbox_i64 ::
  "typed_region \<Rightarrow> clif_value \<Rightarrow> block_id \<Rightarrow> fast_state \<Rightarrow> codegen_error + clif_value \<times> fast_state" where
  "guard_and_unbox_i64 region object cold st =
     (let (c, st) = tagged_small_int_cond object st
      in bind_ok (side_exit_unless region c cold st) (\<lambda>st. Inr (untag_small_int_i64 object st)))"

definition guard_i64_non_zero :: "typed_region \<Rightarrow> clif_value \<Rightarrow> block_id \<Rightarrow> fast_state \<Rightarrow> codegen_error + fast_state" where
  "guard_i64_non_zero region v cold st =
     (let (c, st) = emit_value (\<lambda>r. IcmpImm CcNotEqual r v 0) st in side_exit_unless region c cold st)"

definition load_unboxed_local ::
  "typed_region \<Rightarrow> local_id \<Rightarrow> block_id \<Rightarrow> fast_state \<Rightarrow> codegen_error + clif_value \<times> fast_state" where
  "load_unboxed_local region slot cold st =
     (if slot \<ge> local_count st then Inl (LocalOutOfRange slot (local_count st))
      else if int_local_defined st ! slot then Inr (emit_value (\<lambda>r. UseVar r (int_local st slot)) st)
      else bind_ok (sync_dirty_local slot st) (\<lambda>st.
           bind_ok (load_local slot st) (\<lambda>(b, st).
           bind_ok (guard_and_unbox_i64 region b cold st) (\<lambda>(v, st).
             Inr (v, (emit (DefVar (int_local st slot) v) st)
                       \<lparr>int_local_defined := (int_local_defined st)[slot := True]\<rparr>)))))"

definition store_unboxed_local :: "local_id \<Rightarrow> clif_value \<Rightarrow> fast_state \<Rightarrow> codegen_error + fast_state" where
  "store_unboxed_local slot v st =
     (if slot \<ge> local_count st then Inl (LocalOutOfRange slot (local_count st))
      else Inr ((emit (DefVar (int_local st slot) v) st)
                  \<lparr>int_local_defined := (int_local_defined st)[slot := True],
                   int_local_dirty := (int_local_dirty st)[slot := True]\<rparr>))"

definition ensure_boxed_value :: "value_id \<Rightarrow> fast_state \<Rightarrow> codegen_error + clif_value \<times> fast_state" where
  "ensure_boxed_value v st =
     (case boxed_values st v of
        Some c \<Rightarrow> Inr (c, st)
      | None \<Rightarrow>
          (case unboxed_values st v of
             None \<Rightarrow> Inl (ValueNotDefined v)
           | Some (t, c) \<Rightarrow>
               if t = TyIntI64 then (let (b, st) = box_i64 c st in Inr (b, define_value v b st))
               else Inl (Unsupported ''typed fast path can only rebox IntI64 values'')))"

section \<open>Ranges\<close>

record range_spec =
  rs_start :: int
  rs_stop :: int
  rs_step :: int

record spec_scan =
  const_ints :: "value_id \<rightharpoonup> int"
  call_args :: "value_id \<rightharpoonup> value_id list"
  get_iters :: "value_id \<rightharpoonup> value_id"
  specs :: "value_id \<rightharpoonup> range_spec"

definition range_spec_from_args :: "value_id list \<Rightarrow> (value_id \<rightharpoonup> int) \<Rightarrow> range_spec option" where
  "range_spec_from_args args ints =
     (case args of
        [stop] \<Rightarrow> map_option (\<lambda>b. \<lparr>rs_start = 0, rs_stop = b, rs_step = 1\<rparr>) (ints stop)
      | [start, stop] \<Rightarrow>
          Option.bind (ints start) (\<lambda>a. map_option (\<lambda>b. \<lparr>rs_start = a, rs_stop = b, rs_step = 1\<rparr>) (ints stop))
      | [start, stop, step] \<Rightarrow>
          Option.bind (ints start) (\<lambda>a. Option.bind (ints stop) (\<lambda>b.
            map_option (\<lambda>k. \<lparr>rs_start = a, rs_stop = b, rs_step = k\<rparr>) (ints step)))
      | _ \<Rightarrow> None)"

definition scan_spec :: "inst \<Rightarrow> spec_scan \<Rightarrow> spec_scan" where
  "scan_spec i s =
     (case kind i of
        Const c \<Rightarrow> (case c of CInt k \<Rightarrow> s\<lparr>const_ints := (const_ints s)(result i \<mapsto> k)\<rparr> | _ \<Rightarrow> s)
      | Call _ args \<Rightarrow> s\<lparr>call_args := (call_args s)(result i \<mapsto> args)\<rparr>
      | GetIter iterable \<Rightarrow> s\<lparr>get_iters := (get_iters s)(result i \<mapsto> iterable)\<rparr>
      | ForNext it \<Rightarrow>
          if inst_unboxed_type i \<noteq> Some TyIntI64 then s
          else (case Option.bind (get_iters s it) (\<lambda>iterable.
                       Option.bind (call_args s iterable) (\<lambda>args. range_spec_from_args args (const_ints s))) of
                  None \<Rightarrow> s
                | Some spec \<Rightarrow> s\<lparr>specs := (specs s)(it \<mapsto> spec)\<rparr>)
      | _ \<Rightarrow> s)"

definition range_iter_specs :: "ir_function \<Rightarrow> value_id \<rightharpoonup> range_spec" where
  "range_iter_specs f =
     specs (fold scan_spec (concat (map insts (blocks f)))
       \<lparr>const_ints = Map.empty, call_args = Map.empty, get_iters = Map.empty, specs = Map.empty\<rparr>)"

definition const_int_value :: "ir_function \<Rightarrow> value_id \<Rightarrow> int option" where
  "const_int_value f v =
     (case List.map_filter (\<lambda>i. case kind i of Const c \<Rightarrow> (case c of CInt k \<Rightarrow> if result i = v then Some k else None | _ \<Rightarrow> None)
                                 | _ \<Rightarrow> None) (concat (map insts (blocks f))) of
        [] \<Rightarrow> None | k # ks \<Rightarrow> Some k)"

definition ensure_fast_range_iter :: "value_id \<Rightarrow> fast_state \<Rightarrow> fast_state" where
  "ensure_fast_range_iter it st =
     (if range_iters st it \<noteq> None then st
      else st\<lparr>range_iters := (range_iters st)(it \<mapsto> (next_var st, False)), next_var := Suc (next_var st)\<rparr>)"

definition lower_range_for_next ::
  "value_id \<Rightarrow> value_id \<Rightarrow> range_spec \<Rightarrow> fast_state \<Rightarrow> codegen_error + clif_value \<times> fast_state" where
  "lower_range_for_next res it spec st =
     (if rs_step spec = 0 then Inl (Unsupported ''typed range iterator with zero step'')
      else
        let st = ensure_fast_range_iter it st
        in case range_iters st it of
             None \<Rightarrow> Inl (Unsupported ''missing typed range iterator state'')
           | Some (current_var, initialized) \<Rightarrow>
               let (current, st) =
                     (if initialized then emit_value (\<lambda>r. UseVar r current_var) st
                      else let (start, st) = emit_value (\<lambda>r. Iconst r (word_of_int (rs_start spec))) st
                           in (start, emit (DefVar current_var start) st));
                   (stop, st) = emit_value (\<lambda>r. Iconst r (word_of_int (rs_stop spec))) st;
                   cc = (if rs_step spec > 0 then SignedLessThan else SignedGreaterThan);
                   (has_item, st) = emit_value (\<lambda>r. Icmp cc r current stop) st;
                   (step, st) = emit_value (\<lambda>r. Iconst r (word_of_int (rs_step spec))) st;
                   (next, st) = emit_value (\<lambda>r. Binary Iadd r current step) st;
                   st = emit (DefVar current_var next) st
               in Inr (current, define_unboxed res TyIntI64 current
                    (st\<lparr>range_iters := (range_iters st)(it \<mapsto> (current_var, True)), last_fast_for_next := Some has_item\<rparr>)))"

section \<open>Instructions\<close>

definition lower_binary_i64 ::
  "typed_region \<Rightarrow> bin_op \<Rightarrow> clif_value \<Rightarrow> clif_value \<Rightarrow> block_id \<Rightarrow> bool \<Rightarrow> fast_state \<Rightarrow>
   codegen_error + clif_value \<times> fast_state" where
  "lower_binary_i64 region op lhs rhs cold rhs_non_zero st =
     (let guarded = (\<lambda>instr.
        bind_ok (if rhs_non_zero then Inr st else guard_i64_non_zero region rhs cold st)
          (\<lambda>st. Inr (emit_value (\<lambda>r. Binary instr r lhs rhs) st)))
      in case op of
           Add \<Rightarrow> Inr (emit_value (\<lambda>r. Binary Iadd r lhs rhs) st)
         | Sub \<Rightarrow> Inr (emit_value (\<lambda>r. Binary Isub r lhs rhs) st)
         | Mul \<Rightarrow> Inr (emit_value (\<lambda>r. Binary Imul r lhs rhs) st)
         | FloorDiv \<Rightarrow> guarded Sdiv
         | Mod \<Rightarrow> guarded Srem
         | _ \<Rightarrow> Inl (Unsupported ''unsupported typed integer binary op''))"

fun compare_cc :: "cmp_op \<Rightarrow> int_cc" where
  "compare_cc Eq = CcEqual"
| "compare_cc Ne = CcNotEqual"
| "compare_cc Lt = SignedLessThan"
| "compare_cc Le = SignedLessThanOrEqual"
| "compare_cc Gt = SignedGreaterThan"
| "compare_cc Ge = SignedGreaterThanOrEqual"

definition bool_to_i64 :: "clif_value \<Rightarrow> fast_state \<Rightarrow> clif_value \<times> fast_state" where
  "bool_to_i64 v st =
     (let (one, st) = emit_value (\<lambda>r. Iconst r 1) st; (zero, st) = emit_value (\<lambda>r. Iconst r 0) st
      in emit_value (\<lambda>r. Select r v one zero) st)"

text \<open>An arm that yields a value records it as the unboxed form of the instruction's result.\<close>

definition fast_result :: "inst \<Rightarrow> codegen_error + clif_value \<times> fast_state \<Rightarrow> codegen_error + clif_value option \<times> fast_state" where
  "fast_result i r = bind_ok r (\<lambda>(c, st). Inr (Some c, define_unboxed (result i) TyIntI64 c st))"

definition test_zero :: "inst \<Rightarrow> int_cc \<Rightarrow> value_id \<Rightarrow> fast_state \<Rightarrow> codegen_error + clif_value option \<times> fast_state" where
  "test_zero i cc v st =
     (case unboxed_int st v of
        None \<Rightarrow> Inr (None, st)
      | Some c \<Rightarrow> let (cmp, st) = emit_value (\<lambda>r. IcmpImm cc r c 0) st in fast_result i (Inr (bool_to_i64 cmp st)))"

definition lower_fast_inst ::
  "ir_function \<Rightarrow> typed_region \<Rightarrow> (value_id \<rightharpoonup> range_spec) \<Rightarrow> block_id \<Rightarrow> inst \<Rightarrow> fast_state \<Rightarrow>
   codegen_error + clif_value option \<times> fast_state" where
  "lower_fast_inst f region rspecs cold i st =
     (if cold \<notin> block_ids f then Inl (Unsupported ''missing basic block'')
      else case kind i of
        Const k \<Rightarrow>
          (case k of
             CInt v \<Rightarrow> if inst_unboxed_type i = Some TyIntI64
                       then fast_result i (Inr (emit_value (\<lambda>r. Iconst r (word_of_int v)) st)) else Inr (None, st)
           | _ \<Rightarrow> Inr (None, st))
      | ForNext it \<Rightarrow>
          (case rspecs it of
             Some spec \<Rightarrow>
               if inst_unboxed_type i = Some TyIntI64
               then bind_ok (lower_range_for_next (result i) it spec st) (\<lambda>(c, st). Inr (Some c, st))
               else Inr (None, st)
           | None \<Rightarrow> Inr (None, st))
      | LoadLocal slot \<Rightarrow>
          if inst_unboxed_type i = Some TyIntI64 then fast_result i (load_unboxed_local region slot cold st) else Inr (None, st)
      | StoreLocal slot v \<Rightarrow>
          if inst_unboxed_type i = Some TyIntI64
          then (case unboxed_int st v of
                  None \<Rightarrow> Inr (None, st)
                | Some c \<Rightarrow> bind_ok (store_unboxed_local slot c st) (\<lambda>st. fast_result i (Inr (c, st))))
          else Inr (None, st)
      | BinaryOp op lhs rhs \<Rightarrow>
          if inst_unboxed_type i = Some TyIntI64
          then (case (unboxed_int st lhs, unboxed_int st rhs) of
                  (Some a, Some b) \<Rightarrow>
                    fast_result i (lower_binary_i64 region op a b cold (const_int_value f rhs \<notin> {None, Some 0}) st)
                | _ \<Rightarrow> Inr (None, st))
          else Inr (None, st)
      | UnaryOp op v \<Rightarrow>
          if inst_unboxed_type i = Some TyIntI64
          then (case unboxed_int st v of
                  None \<Rightarrow> Inr (None, st)
                | Some c \<Rightarrow>
                    (case op of
                       Neg \<Rightarrow> fast_result i (Inr (emit_value (\<lambda>r. Ineg r c) st))
                     | Pos \<Rightarrow> fast_result i (Inr (c, st))
                     | Invert \<Rightarrow> Inr (None, st)))
          else Inr (None, st)
      | Compare op lhs rhs \<Rightarrow>
          (case (unboxed_int st lhs, unboxed_int st rhs) of
             (Some a, Some b) \<Rightarrow>
               let (cmp, st) = emit_value (\<lambda>r. Icmp (compare_cc op) r a b) st in fast_result i (Inr (bool_to_i64 cmp st))
           | _ \<Rightarrow> Inr (None, st))
      | BoolTest v \<Rightarrow> test_zero i CcNotEqual v st
      | NotOp v \<Rightarrow> test_zero i CcEqual v st
      | _ \<Rightarrow> Inr (None, st))"

text \<open>
  The loop of \<^verbatim>\<open>lower_primary_copy\<close> over the instructions of a block of the region, up to the first
  instruction that has to take the boxed lowering (\<open>False\<close>).
\<close>

fun lower_fast_insts ::
  "ir_function \<Rightarrow> typed_region \<Rightarrow> (value_id \<rightharpoonup> range_spec) \<Rightarrow> block_id \<Rightarrow> inst list \<Rightarrow> fast_state \<Rightarrow>
   codegen_error + bool \<times> fast_state" where
  "lower_fast_insts f region rspecs b [] st = Inr (True, st)"
| "lower_fast_insts f region rspecs b (i # is) st =
     bind_ok (lower_fast_inst f region rspecs b i st) (\<lambda>(c, st).
       case c of
         None \<Rightarrow> Inr (False, st)
       | Some c \<Rightarrow>
           lower_fast_insts f region rspecs b is
             (if unboxed_values st (result i) = None then define_value (result i) c st else st))"

section \<open>Specification\<close>

definition in_i64 :: "int \<Rightarrow> bool" where
  "in_i64 r \<longleftrightarrow> - (2 ^ 63) \<le> r \<and> r < 2 ^ 63"

definition i64_relation :: "int_cc \<Rightarrow> int \<Rightarrow> int \<Rightarrow> bool" where
  "i64_relation cc a b =
     (case cc of CcEqual \<Rightarrow> a = b | CcNotEqual \<Rightarrow> a \<noteq> b | SignedLessThan \<Rightarrow> a < b | SignedLessThanOrEqual \<Rightarrow> a \<le> b
      | SignedGreaterThan \<Rightarrow> a > b | SignedGreaterThanOrEqual \<Rightarrow> a \<ge> b)"

text \<open>
  The instruction set as documented: addition, subtraction, multiplication and negation wrap around;
  signed division truncates towards zero and traps on a zero divisor and on overflow; the signed
  remainder has the sign of the dividend and traps on a zero divisor.
\<close>

definition clif_documented :: "clif_machine \<Rightarrow> bool" where
  "clif_documented m \<longleftrightarrow>
     (\<forall>a b. m_binary m Iadd a b = Some (a + b) \<and> m_binary m Isub a b = Some (a - b) \<and> m_binary m Imul a b = Some (a * b) \<and>
        m_binary m Sdiv a b =
          (if b = 0 \<or> \<not> in_i64 (sint a sdiv sint b) then None else Some (word_of_int (sint a sdiv sint b))) \<and>
        m_binary m Srem a b = (if b = 0 then None else Some (word_of_int (sint a smod sint b))) \<and>
        (\<forall>cc. m_icmp m cc a b = i64_relation cc (sint a) (sint b)) \<and> m_band m a b = a AND b) \<and>
     (\<forall>a n. m_ineg m a = - a \<and> m_sshr m a n = signed_drop_bit n a)"

definition py_binary :: "bin_op \<Rightarrow> int \<Rightarrow> int \<Rightarrow> int option" where
  "py_binary op a b =
     (case op of
        Add \<Rightarrow> Some (a + b) | Sub \<Rightarrow> Some (a - b) | Mul \<Rightarrow> Some (a * b)
      | FloorDiv \<Rightarrow> if b = 0 then None else Some (a div b)
      | Mod \<Rightarrow> if b = 0 then None else Some (a mod b)
      | _ \<Rightarrow> None)"

definition py_compare :: "cmp_op \<Rightarrow> int \<Rightarrow> int \<Rightarrow> bool" where
  "py_compare op a b = i64_relation (compare_cc op) a b"

text \<open>
  What Python computes for an instruction over integer values and integer locals; \<open>None\<close> is an exception,
  and a local that is not in the map is unbound.
\<close>

definition py_result :: "inst_kind \<Rightarrow> (value_id \<rightharpoonup> int) \<Rightarrow> (local_id \<rightharpoonup> int) \<Rightarrow> int option" where
  "py_result k vals locs =
     (case k of
        Const c \<Rightarrow> (case c of CInt v \<Rightarrow> Some v | _ \<Rightarrow> None)
      | LoadLocal s \<Rightarrow> locs s
      | StoreLocal s v \<Rightarrow> vals v
      | BinaryOp op a b \<Rightarrow> Option.bind (vals a) (\<lambda>x. Option.bind (vals b) (py_binary op x))
      | UnaryOp op v \<Rightarrow> map_option (\<lambda>x. case op of Neg \<Rightarrow> - x | Pos \<Rightarrow> x | Invert \<Rightarrow> - x - 1) (vals v)
      | Compare op a b \<Rightarrow> Option.bind (vals a) (\<lambda>x. map_option (\<lambda>y. of_bool (py_compare op x y)) (vals b))
      | BoolTest v \<Rightarrow> map_option (\<lambda>x. of_bool (x \<noteq> 0)) (vals v)
      | NotOp v \<Rightarrow> map_option (\<lambda>x. of_bool (x = 0)) (vals v)
      | _ \<Rightarrow> None)"

definition py_store :: "inst_kind \<Rightarrow> (value_id \<rightharpoonup> int) \<Rightarrow> (local_id \<rightharpoonup> int) \<Rightarrow> local_id \<rightharpoonup> int" where
  "py_store k vals locs = (case k of StoreLocal s v \<Rightarrow> locs(s := vals v) | _ \<Rightarrow> locs)"

text \<open>Truncation and flooring agree: the operands have the same sign, or the division is exact.\<close>

definition floors :: "int \<Rightarrow> int \<Rightarrow> bool" where
  "floors a b \<longleftrightarrow> (a < 0 \<longleftrightarrow> b < 0) \<or> b dvd a"

definition division_floors :: "inst_kind \<Rightarrow> (value_id \<rightharpoonup> int) \<Rightarrow> bool" where
  "division_floors k vals =
     (case k of
        BinaryOp op a b \<Rightarrow>
          op \<in> {FloorDiv, Mod} \<longrightarrow> (case (vals a, vals b) of (Some x, Some y) \<Rightarrow> floors x y | _ \<Rightarrow> True)
      | _ \<Rightarrow> True)"

fun py_block_run :: "inst list \<Rightarrow> (value_id \<rightharpoonup> int) \<Rightarrow> (local_id \<rightharpoonup> int) \<Rightarrow> ((value_id \<rightharpoonup> int) \<times> (local_id \<rightharpoonup> int)) option" where
  "py_block_run [] vals locs = Some (vals, locs)"
| "py_block_run (i # is) vals locs =
     (case py_result (kind i) vals locs of
        None \<Rightarrow> None
      | Some r \<Rightarrow> py_block_run is (vals(result i \<mapsto> r)) (py_store (kind i) vals locs))"

fun stays_in_i64 :: "inst list \<Rightarrow> (value_id \<rightharpoonup> int) \<Rightarrow> (local_id \<rightharpoonup> int) \<Rightarrow> bool" where
  "stays_in_i64 [] vals locs \<longleftrightarrow> True"
| "stays_in_i64 (i # is) vals locs \<longleftrightarrow>
     (case py_result (kind i) vals locs of
        None \<Rightarrow> True
      | Some r \<Rightarrow> in_i64 r \<and> division_floors (kind i) vals \<and>
                  stays_in_i64 is (vals(result i \<mapsto> r)) (py_store (kind i) vals locs))"

text \<open>
  The state of the lowering describes the state of the run: every unboxed value is the integer it
  stands for; an unboxed local that is defined holds the local, and the boxed home of any other local
  is a tagged immediate for it.
\<close>

definition represents :: "fast_state \<Rightarrow> clif_env \<Rightarrow> (value_id \<rightharpoonup> int) \<Rightarrow> (local_id \<rightharpoonup> int) \<Rightarrow> bool" where
  "represents st e vals locs \<longleftrightarrow>
     length (int_local_dirty st) = local_count st \<and> length (local_defined st) = local_count st \<and>
     (\<forall>v t c r. unboxed_values st v = Some (t, c) \<longrightarrow> vals v = Some r \<longrightarrow> c < next_value st \<and> t = TyIntI64 \<and> sint (cv e c) = r) \<and>
     (\<forall>s < local_count st.
        if int_local_defined st ! s then (\<forall>r. locs s = Some r \<longrightarrow> sint (vars e (int_local st s)) = r)
        else (\<forall>r. locs s = Some r \<longrightarrow>
                \<not> int_local_dirty st ! s \<and> is_small_int (vars e s) \<and> sint (untag_small_int (vars e s)) = r))"

section \<open>Running what is emitted\<close>

lemma exec_append: "exec m (cs @ ds) e = then_run (exec m cs e) (exec m ds)"
  by (induction m cs e rule: exec.induct)
    (simp_all add: then_run_def Let_def split: option.splits outcome.splits)

lemma code_emit [simp]: "code (emit c st) = code st @ [c]"
  by (simp add: emit_def)

lemma emit_fields [simp]:
  "unboxed_values (emit c st) = unboxed_values st" "boxed_values (emit c st) = boxed_values st"
  "local_defined (emit c st) = local_defined st" "int_local_defined (emit c st) = int_local_defined st"
  "int_local_dirty (emit c st) = int_local_dirty st" "next_value (emit c st) = next_value st"
  "range_iters (emit c st) = range_iters st"
  by (simp_all add: emit_def)

lemma fst_emit_value [simp]: "fst (emit_value c st) = next_value st"
  by (simp add: emit_value_def)

text \<open>
  What the guards and the flushes leave alone: they emit code and number values, and may clear dirty
  flags and set the flags of boxed locals.
\<close>

definition frame :: "fast_state \<Rightarrow> fast_state \<Rightarrow> bool" where
  "frame st st' \<longleftrightarrow>
     unboxed_values st' = unboxed_values st \<and> int_local_defined st' = int_local_defined st \<and>
     next_value st \<le> next_value st' \<and> length (local_defined st') = length (local_defined st) \<and>
     length (int_local_dirty st') = length (int_local_dirty st) \<and>
     (\<forall>s < length (int_local_dirty st). int_local_dirty st' ! s \<longrightarrow> int_local_dirty st ! s)"

lemma frame_refl: "frame st st"
  by (simp add: frame_def)

lemma frame_trans: "frame st1 st2 \<Longrightarrow> frame st2 st3 \<Longrightarrow> frame st1 st3"
  by (auto simp: frame_def)

lemma frame_emit: "frame st (emit c st)"
  by (simp add: frame_def)

lemma frame_emit_value: "frame st (snd (emit_value c st))"
  by (simp add: frame_def emit_value_def)

lemma frame_code: "frame st st' \<Longrightarrow> frame (st\<lparr>code := cs\<rparr>) (st'\<lparr>code := ds\<rparr>)" "frame (st\<lparr>code := cs\<rparr>) st' \<Longrightarrow> frame st st'"
  by (simp_all add: frame_def)

lemma frame_store_local: "store_local slot v st = Inr st' \<Longrightarrow> frame st st'"
  by (auto simp: store_local_def frame_def split: if_splits)

lemma frame_sync_dirty_local: "sync_dirty_local slot st = Inr st' \<Longrightarrow> frame st st'"
  by (auto simp: sync_dirty_local_def box_i64_def emit_value_def Let_def store_local_def frame_def nth_list_update
      split: if_splits)

lemma frame_sync_slots: "sync_slots slots st = Inr st' \<Longrightarrow> frame st st'"
  by (induction slots arbitrary: st) (auto simp: bind_ok_Inr_iff frame_refl intro: frame_trans frame_sync_dirty_local)

lemma side_exit_frame:
  assumes "side_exit_unless region c cold st = Inr st'"
  shows "frame st st' \<and> (\<exists>fail args. code st' = code st @ [SideExit c fail cold args])"
proof -
  obtain fail where fail: "sync_slots [0..<length (int_local_dirty st)] (st\<lparr>code := []\<rparr>) = Inr fail"
    and st': "st' = (let (null, fail) = emit_value (\<lambda>r. Iconst r 0) fail; fail = emit (CallDeoptNote null) fail;
                       args = (if cold = entry region \<and> live_ins region \<noteq> [] then cold_exit_args fail else [])
                     in fail\<lparr>code := code st @ [SideExit c (code fail) cold args]\<rparr>)"
    using assms by (auto simp: side_exit_unless_def sync_all_dirty_locals_def bind_ok_Inr_iff Let_def emit_value_def)
  have "frame st fail" using frame_code(2) [OF frame_sync_slots [OF fail]] .
  then show ?thesis by (auto simp: st' frame_def emit_value_def Let_def)
qed

lemma represents_frame: "represents st e vals locs \<Longrightarrow> frame st st' \<Longrightarrow> represents st' e vals locs"
proof -
  assume rep: "represents st e vals locs" and fr: "frame st st'"
  then have "c < next_value st'" if "unboxed_values st v = Some (t, c)" "vals v = Some r" for v t c r
    using that order_less_le_trans [of c "next_value st" "next_value st'"] by (simp add: represents_def frame_def)
  with rep fr show ?thesis
    by (auto simp: represents_def frame_def local_count_def int_local_def split: if_splits)
qed

lemma represents_put: "represents st e vals locs \<Longrightarrow> represents st (put (next_value st) x e) vals locs"
  by (auto simp: represents_def put_def)

section \<open>Arithmetic\<close>

lemma in_i64_self: "in_i64 r \<Longrightarrow> signed_take_bit 63 r = r"
  by (simp add: in_i64_def signed_take_bit_int_eq_self)

lemma sint_word_of_int: "in_i64 r \<Longrightarrow> sint (word_of_int r :: i64) = r"
  by (simp add: sint_sbintrunc' in_i64_self)

lemma in_i64_sint [simp]: "in_i64 (sint (a :: i64))"
  using sint_range_size [of a] by (simp add: in_i64_def word_size)

lemma sint_arith:
  fixes a b :: i64
  shows "in_i64 (sint a + sint b) \<Longrightarrow> sint (a + b) = sint a + sint b"
    "in_i64 (sint a - sint b) \<Longrightarrow> sint (a - b) = sint a - sint b"
    "in_i64 (sint a * sint b) \<Longrightarrow> sint (a * b) = sint a * sint b"
    "in_i64 (- sint a) \<Longrightarrow> sint (- a) = - sint a"
  by (simp_all add: sint_word_add sint_word_diff sint_word_mult sint_word_minus in_i64_self)

lemma sint_eq_0_iff [simp]: "sint a = 0 \<longleftrightarrow> a = 0" for a :: i64
  using signed_word_eqI [of a 0] by auto

lemma sgn_eq_iff: "\<not> b dvd a \<Longrightarrow> b \<noteq> 0 \<Longrightarrow> sgn a = sgn b \<longleftrightarrow> (a < 0 \<longleftrightarrow> b < 0)" for a b :: int
  by (auto simp: sgn_if)

lemma sdiv_eq_div_iff: "b \<noteq> 0 \<Longrightarrow> a sdiv b = a div b \<longleftrightarrow> floors a b" for a b :: int
  by (cases "b dvd a") (simp_all add: signed_divide_int_eq_divide_int floors_def sgn_eq_iff)

lemma smod_eq_mod_iff: "b \<noteq> 0 \<Longrightarrow> a smod b = a mod b \<longleftrightarrow> floors a b" for a b :: int
  by (cases "b dvd a") (simp_all add: signed_modulo_int_eq_modulo_int floors_def sgn_eq_iff)

section \<open>Simulation\<close>

definition running ::
  "clif_machine \<Rightarrow> clif_env \<Rightarrow> fast_state \<Rightarrow> clif_env \<Rightarrow> (value_id \<rightharpoonup> int) \<Rightarrow> (local_id \<rightharpoonup> int) \<Rightarrow> bool" where
  "running m e0 st e vals locs \<longleftrightarrow> exec m (code st) e0 = Fall e \<and> represents st e vals locs"

lemma running_emit_value:
  assumes "running m e0 st e vals locs" "exec m [c (next_value st)] e = Fall (put (next_value st) x e)"
  shows "running m e0 (snd (emit_value c st)) (put (next_value st) x e) vals locs"
  using assms represents_frame [OF represents_put frame_emit_value]
  by (simp add: running_def emit_value_def exec_append then_run_def)

lemma running_emit:
  assumes "running m e0 st e vals locs" "exec m [c] e = Fall e'" "represents st e' vals locs"
  shows "running m e0 (emit c st) e' vals locs"
  using assms represents_frame [OF _ frame_emit] by (simp add: running_def exec_append then_run_def)

lemma running_define:
  assumes "running m e0 st e vals locs" "c < next_value st" "sint (cv e c) = r"
  shows "running m e0 (define_unboxed v TyIntI64 c st) e (vals(v \<mapsto> r)) locs"
  using assms by (auto simp: running_def represents_def define_unboxed_def local_count_def int_local_def)

lemma running_define_value: "running m e0 st e vals locs \<Longrightarrow> running m e0 (define_value v c st) e vals locs"
  by (auto simp: running_def represents_def define_value_def local_count_def int_local_def)

lemma running_operand:
  assumes "running m e0 st e vals locs" "unboxed_int st v = Some c"
    "vals v = Some r"
  shows "c < next_value st" "sint (cv e c) = r" "c \<noteq> next_value st"
proof -
  obtain t where "unboxed_values st v = Some (t, c)" using assms(2) by (auto simp: unboxed_int_def split: option.splits if_splits)
  then show "c < next_value st" "sint (cv e c) = r" using assms(1, 3) by (auto simp: running_def represents_def)
  then show "c \<noteq> next_value st" by simp
qed

lemma running_guard:
  assumes "running m e0 st e vals locs" "side_exit_unless region c cold st = Inr st'" "cv e c \<noteq> 0"
  shows "running m e0 st' e vals locs" "next_value st \<le> next_value st'" "unboxed_values st' = unboxed_values st"
    "int_local_defined st' = int_local_defined st"
  using assms side_exit_frame [OF assms(2)]
  by (auto simp: running_def exec_append then_run_def frame_def intro: represents_frame)

lemma cv_put [simp]: "cv (put r x e) a = (if a = r then x else cv e a)"
  by (simp add: put_def)

lemma vars_put [simp]: "vars (put r x e) = vars e"
  by (simp add: put_def)

lemma snd_emit_value [simp]:
  "next_value (snd (emit_value c st)) = Suc (next_value st)" "unboxed_values (snd (emit_value c st)) = unboxed_values st"
  "int_local_defined (snd (emit_value c st)) = int_local_defined st" "code (snd (emit_value c st)) = code st @ [c (next_value st)]"
  by (simp_all add: emit_value_def)

lemma emit_value_eq_iff: "emit_value c st = (a, s) \<longleftrightarrow> a = next_value st \<and> s = snd (emit_value c st)"
  by (auto simp: emit_value_def)

text \<open>A result that is one emitted instruction.\<close>

lemma running_result:
  assumes run: "running m e0 st e vals locs" and ex: "exec m [c (next_value st)] e = Fall (put (next_value st) x e)"
    and x: "sint x = r" and res: "fast_result i (Inr (emit_value c st)) = Inr (Some k, st')"
  shows "\<exists>e'. running m e0 st' e' (vals(result i \<mapsto> r)) locs"
proof -
  have st': "st' = define_unboxed (result i) TyIntI64 (next_value st) (snd (emit_value c st))"
    using res by (auto simp: fast_result_def case_prod_beta)
  have "running m e0 st' (put (next_value st) x e) (vals(result i \<mapsto> r)) locs"
    unfolding st' using x running_emit_value [of m e0 st e vals locs c x, OF run ex] by (intro running_define) simp_all
  then show ?thesis ..
qed

lemma running_flag:
  assumes run: "running m e0 st e vals locs" and c: "c < next_value st" "cv e c = flag b"
    and res: "fast_result i (Inr (bool_to_i64 c st)) = Inr (Some k, st')"
  shows "\<exists>e'. running m e0 st' e' (vals(result i \<mapsto> of_bool b)) locs"
proof -
  let ?n = "next_value st"
  have 1: "running m e0 (snd (emit_value (\<lambda>r. Iconst r 1) st)) (put ?n 1 e) vals locs"
    by (intro running_emit_value [OF run]) simp
  have 2: "running m e0 (snd (emit_value (\<lambda>r. Iconst r 0) (snd (emit_value (\<lambda>r. Iconst r 1) st)))) (put (Suc ?n) 0 (put ?n 1 e)) vals locs"
    using running_emit_value [OF 1, of "\<lambda>r. Iconst r 0" 0] by simp
  show ?thesis
  proof (rule running_result [OF 2, of "\<lambda>r. Select r c ?n (Suc ?n)" "of_bool b"])
    show "fast_result i (Inr (emit_value (\<lambda>r. Select r c ?n (Suc ?n))
        (snd (emit_value (\<lambda>r. Iconst r 0) (snd (emit_value (\<lambda>r. Iconst r 1) st)))))) = Inr (Some k, st')"
      using res by (simp add: bool_to_i64_def Let_def case_prod_beta)
  qed (use c in \<open>auto simp: flag_def of_bool_def\<close>)
qed

lemma clif_documentedD:
  assumes "clif_documented m"
  shows "m_binary m Iadd a b = Some (a + b)" "m_binary m Isub a b = Some (a - b)" "m_binary m Imul a b = Some (a * b)"
    "m_binary m Sdiv a b = (if b = 0 \<or> \<not> in_i64 (sint a sdiv sint b) then None else Some (word_of_int (sint a sdiv sint b)))"
    "m_binary m Srem a b = (if b = 0 then None else Some (word_of_int (sint a smod sint b)))"
    "m_icmp m cc a b = i64_relation cc (sint a) (sint b)" "m_band m a b = a AND b" "m_ineg m a = - a"
    "m_sshr m a n = signed_drop_bit n a"
  using assms by (simp_all add: clif_documented_def)

lemma running_store:
  assumes run: "running m e0 st e vals locs" and c: "c < next_value st" "sint (cv e c) = r"
    and st: "store_unboxed_local slot c st = Inr st'"
  shows "\<exists>e'. running m e0 st' e' vals (locs(slot \<mapsto> r)) \<and> next_value st' = next_value st \<and> cv e' = cv e"
proof (intro exI conjI)
  let ?e = "e\<lparr>vars := (vars e)(int_local st slot := cv e c)\<rparr>"
  have slot: "slot < local_count st" and st': "st' = (emit (DefVar (int_local st slot) c) st)
      \<lparr>int_local_defined := (int_local_defined st)[slot := True], int_local_dirty := (int_local_dirty st)[slot := True]\<rparr>"
    using st by (auto simp: store_unboxed_local_def split: if_splits)
  show "running m e0 st' ?e vals (locs(slot \<mapsto> r))"
    using run c slot
    by (auto simp: st' running_def represents_def exec_append then_run_def local_count_def int_local_def nth_list_update)
qed (use st in \<open>auto simp: store_unboxed_local_def split: if_splits\<close>)

lemma running_fill:
  assumes "running m e0 st e vals locs" "slot < local_count st" "locs slot = Some (sint (cv e c))"
  shows "running m e0 ((emit (DefVar (int_local st slot) c) st)\<lparr>int_local_defined := (int_local_defined st)[slot := True]\<rparr>)
    (e\<lparr>vars := (vars e)(int_local st slot := cv e c)\<rparr>) vals locs"
  using assms
  by (auto simp: running_def represents_def exec_append then_run_def local_count_def int_local_def nth_list_update)

text \<open>Reading a local: the unboxed copy, or the boxed home behind a guard that holds.\<close>

lemma running_boxed_load:
  assumes doc: "clif_documented m" and run: "running m e0 st e vals locs" and r: "locs slot = Some r"
    and slot: "slot < local_count st" "\<not> int_local_defined st ! slot"
    and ld: "load_unboxed_local region slot cold st = Inr (c, st')"
  shows "\<exists>e'. running m e0 st' e' vals locs \<and> c < next_value st' \<and> sint (cv e' c) = r"
proof -
  have rep: "represents st e vals locs" using run by (simp add: running_def)
  then have clean: "sync_dirty_local slot st = Inr st" and small: "is_small_int (vars e slot)"
    and loc: "sint (untag_small_int (vars e slot)) = r"
    using slot r by (auto simp: represents_def sync_dirty_local_def)
  let ?n = "next_value st"
  let ?s1 = "snd (emit_value (\<lambda>r. UseVar r slot) st)"
  let ?s2 = "snd (emit_value (\<lambda>r. BandImm r ?n TAG_INT_BIT) ?s1)"
  let ?s3 = "snd (emit_value (\<lambda>r. IcmpImm CcNotEqual r (Suc ?n) 0) ?s2)"
  let ?e1 = "put ?n (vars e slot) e"
  let ?e2 = "put (Suc ?n) (vars e slot AND TAG_INT_BIT) ?e1"
  let ?e3 = "put (Suc (Suc ?n)) 1 ?e2"
  have 1: "running m e0 ?s1 ?e1 vals locs" by (intro running_emit_value [OF run]) simp
  have 2: "running m e0 ?s2 ?e2 vals locs"
    using running_emit_value [OF 1, of "\<lambda>r. BandImm r ?n TAG_INT_BIT"] by (simp add: clif_documentedD [OF doc])
  have 3: "running m e0 ?s3 ?e3 vals locs"
    using running_emit_value [OF 2, of "\<lambda>r. IcmpImm CcNotEqual r (Suc ?n) 0" 1] small
    by (simp add: clif_documentedD [OF doc] flag_def i64_relation_def is_small_int_def)
  obtain s4 where g: "side_exit_unless region (Suc (Suc ?n)) cold ?s3 = Inr s4"
    and st': "(c, st') = (let (v, s) = untag_small_int_i64 ?n s4 in
        (v, (emit (DefVar (int_local s slot) v) s)\<lparr>int_local_defined := (int_local_defined s)[slot := True]\<rparr>))"
    using ld slot clean
    by (auto simp: load_unboxed_local_def load_local_def guard_and_unbox_i64_def tagged_small_int_cond_def bind_ok_Inr_iff
        Let_def case_prod_beta untag_small_int_i64_def emit_value_eq_iff split: if_splits)
  have 4: "running m e0 s4 ?e3 vals locs" "?n < next_value s4" "int_local_defined s4 = int_local_defined st"
    using running_guard [OF 3 g] by auto
  let ?e5 = "put (next_value s4) (untag_small_int (vars e slot)) ?e3"
  have 5: "running m e0 (snd (untag_small_int_i64 ?n s4)) ?e5 vals locs"
    unfolding untag_small_int_i64_def using 4(2)
    by (intro running_emit_value [OF 4(1)]) (simp add: clif_documentedD [OF doc] untag_small_int_def)
  have n: "local_count (snd (untag_small_int_i64 ?n s4)) = local_count st"
    using 4(3) by (simp add: untag_small_int_i64_def local_count_def)
  have "c = next_value s4"
    and "st' = (emit (DefVar (int_local (snd (untag_small_int_i64 ?n s4)) slot) c) (snd (untag_small_int_i64 ?n s4)))
        \<lparr>int_local_defined := (int_local_defined (snd (untag_small_int_i64 ?n s4)))[slot := True]\<rparr>"
    using st' by (auto simp: Let_def case_prod_beta untag_small_int_i64_def)
  then have "running m e0 st' (?e5\<lparr>vars := (vars ?e5)(int_local (snd (untag_small_int_i64 ?n s4)) slot := cv ?e5 c)\<rparr>) vals locs
      \<and> c < next_value st' \<and> sint (cv ?e5 c) = r"
    using running_fill [OF 5, of slot c] slot(1) n loc r by (auto simp: untag_small_int_i64_def)
  then show ?thesis by fastforce
qed

lemma running_load:
  assumes doc: "clif_documented m" and run: "running m e0 st e vals locs" and r: "locs slot = Some r"
    and ld: "load_unboxed_local region slot cold st = Inr (c, st')"
  shows "\<exists>e'. running m e0 st' e' vals locs \<and> c < next_value st' \<and> sint (cv e' c) = r"
proof (cases "slot < local_count st \<and> int_local_defined st ! slot")
  case True
  let ?e = "put (next_value st) (vars e (int_local st slot)) e"
  have st': "c = next_value st" "st' = snd (emit_value (\<lambda>r. UseVar r (int_local st slot)) st)"
    using ld True by (auto simp: load_unboxed_local_def dest: arg_cong [where f = fst] arg_cong [where f = snd])
  have "running m e0 st' ?e vals locs"
    unfolding st' by (intro running_emit_value [OF run]) simp
  moreover have "sint (cv ?e c) = r"
    using run True r by (auto simp: st' running_def represents_def)
  ultimately show ?thesis using st' by auto
next
  case False
  then have "slot < local_count st" "\<not> int_local_defined st ! slot"
    using ld by (auto simp: load_unboxed_local_def split: if_splits)
  then show ?thesis using running_boxed_load [where r = r, OF doc run r _ _ ld] by blast
qed

lemma fast_result_unboxed: "fast_result i r = Inr (Some k, st') \<Longrightarrow> unboxed_values st' (result i) = Some (TyIntI64, k)"
  by (auto simp: fast_result_def bind_ok_Inr_iff define_unboxed_def)

lemma running_pair:
  assumes "running m e0 st e' vals locs" "m_binary m instr (cv e' x) (cv e' y) = Some w" "sint w = r"
    "fast_result i (Inr (emit_value (\<lambda>r. Binary instr r x y) st)) = Inr (Some k, st')"
  shows "\<exists>e'. running m e0 st' e' (vals(result i \<mapsto> r)) locs"
  using assms(2) by (intro running_result [OF assms(1) _ assms(3, 4)]) simp

text \<open>A division whose divisor is not zero: the guard, when there is one, holds.\<close>

lemma running_guarded:
  assumes doc: "clif_documented m" and run: "running m e0 st e vals locs"
    and ops: "unboxed_int st a = Some x" "unboxed_int st b = Some y" and x0: "vals a = Some p" and y0: "vals b = Some q" "q \<noteq> 0"
    and w: "m_binary m instr (cv e x) (cv e y) = Some w" "sint w = r"
    and low: "fast_result i (bind_ok (if nz then Inr st else guard_i64_non_zero region y cold st)
          (\<lambda>st. Inr (emit_value (\<lambda>r. Binary instr r x y) st))) = Inr (Some k, st')"
  shows "\<exists>e'. running m e0 st' e' (vals(result i \<mapsto> r)) locs"
proof (cases nz)
  case True
  with low show ?thesis using running_pair [OF run w] by simp
next
  case False
  note x = running_operand [OF run ops(1) x0] and y = running_operand [OF run ops(2) y0(1)]
  let ?c = "\<lambda>r. IcmpImm CcNotEqual r y 0"
  have "sint (cv e y) \<noteq> 0" using y(2) y0(2) by simp
  then have 1: "running m e0 (snd (emit_value ?c st)) (put (next_value st) 1 e) vals locs"
    by (intro running_emit_value [OF run]) (simp add: clif_documentedD [OF doc] flag_def i64_relation_def)
  obtain s where s: "side_exit_unless region (next_value st) cold (snd (emit_value ?c st)) = Inr s"
    "fast_result i (Inr (emit_value (\<lambda>r. Binary instr r x y) s)) = Inr (Some k, st')"
    using low False
    by (auto simp: guard_i64_non_zero_def Let_def case_prod_beta fast_result_def bind_ok_Inr_iff emit_value_eq_iff)
  show ?thesis using running_pair [OF running_guard(1) [OF 1 s(1)] _ w(2) s(2)] w(1) x(3) y(3) by simp
qed

lemma running_binary:
  assumes doc: "clif_documented m" and run: "running m e0 st e vals locs"
    and ops: "unboxed_int st a = Some x" "unboxed_int st b = Some y" and opd: "vals a = Some p" "vals b = Some q"
    and py: "py_binary op p q = Some r" "in_i64 r" "op \<in> {FloorDiv, Mod} \<longrightarrow> floors p q"
    and low: "fast_result i (lower_binary_i64 region op x y cold nz st) = Inr (Some k, st')"
  shows "\<exists>e'. running m e0 st' e' (vals(result i \<mapsto> r)) locs"
proof -
  have v: "sint (cv e x) = p" "sint (cv e y) = q"
    using running_operand(2) [OF run ops(1) opd(1)] running_operand(2) [OF run ops(2) opd(2)] by simp_all
  note d = clif_documentedD [OF doc]
  note division = running_guarded [OF doc run ops opd _ _ sint_word_of_int [OF py(2)], of _ i nz region cold k st']
  show ?thesis
  proof (cases op)
    case FloorDiv
    then have "q \<noteq> 0" "p sdiv q = r" using py sdiv_eq_div_iff by (auto simp: py_binary_def split: if_splits)
    with py(2) v low FloorDiv show ?thesis
      by (intro division [of Sdiv]) (auto simp: d lower_binary_i64_def Let_def)
  next
    case Mod
    then have "q \<noteq> 0" "p smod q = r" using py smod_eq_mod_iff by (auto simp: py_binary_def split: if_splits)
    with py(2) v low Mod show ?thesis
      by (intro division [of Srem]) (auto simp: d lower_binary_i64_def Let_def)
  next
    case Add
    with py low v show ?thesis
      by (intro running_pair [OF run d(1)]) (auto simp: py_binary_def lower_binary_i64_def Let_def sint_arith)
  next
    case Sub
    with py low v show ?thesis
      by (intro running_pair [OF run d(2)]) (auto simp: py_binary_def lower_binary_i64_def Let_def sint_arith)
  next
    case Mul
    with py low v show ?thesis
      by (intro running_pair [OF run d(3)]) (auto simp: py_binary_def lower_binary_i64_def Let_def sint_arith)
  qed (use py in \<open>auto simp: py_binary_def\<close>)
qed

lemma running_zero_test:
  assumes doc: "clif_documented m" and run: "running m e0 st e vals locs"
    and low: "test_zero i cc v st = Inr (Some k, st')" and opd: "vals v = Some p"
  shows "\<exists>e'. running m e0 st' e' (vals(result i \<mapsto> of_bool (i64_relation cc p 0))) locs"
proof -
  obtain c where c: "unboxed_int st v = Some c" using low by (auto simp: test_zero_def split: option.splits)
  note op = running_operand(2) [OF run c opd]
  have "running m e0 (snd (emit_value (\<lambda>r. IcmpImm cc r c 0) st))
      (put (next_value st) (flag (i64_relation cc p 0)) e) vals locs"
    by (intro running_emit_value [OF run]) (simp add: clif_documentedD [OF doc] op)
  from running_flag [OF this, of "next_value st"] low c show ?thesis
    by (simp add: test_zero_def Let_def case_prod_beta)
qed

lemma running_compare:
  assumes doc: "clif_documented m" and run: "running m e0 st e vals locs"
    and ops: "unboxed_int st a = Some x" "unboxed_int st b = Some y" and opd: "vals a = Some p" "vals b = Some q"
    and low: "fast_result i (Inr (bool_to_i64 (next_value st) (snd (emit_value (\<lambda>r. Icmp cc r x y) st)))) = Inr (Some k, st')"
  shows "\<exists>e'. running m e0 st' e' (vals(result i \<mapsto> of_bool (i64_relation cc p q))) locs"
proof -
  have "running m e0 (snd (emit_value (\<lambda>r. Icmp cc r x y) st))
      (put (next_value st) (flag (i64_relation cc p q)) e) vals locs"
    by (intro running_emit_value [OF run])
      (simp add: clif_documentedD [OF doc] running_operand(2) [OF run ops(1) opd(1)] running_operand(2) [OF run ops(2) opd(2)])
  from running_flag [OF this, of "next_value st"] low show ?thesis by simp
qed

text \<open>One instruction.\<close>

lemma running_inst:
  assumes doc: "clif_documented m" and run: "running m e0 st e vals locs"
    and low: "lower_fast_inst f region rspecs cold i st = Inr (Some k, st')"
    and py: "py_result (kind i) vals locs = Some r" "in_i64 r" "division_floors (kind i) vals"
  shows "\<exists>e'. running m e0 st' e' (vals(result i \<mapsto> r)) (py_store (kind i) vals locs)"
proof (cases "kind i")
  case (Const c)
  then obtain v where "c = CInt v" "r = v" using py(1) by (auto simp: py_result_def split: py_const.splits)
  then have "fast_result i (Inr (emit_value (\<lambda>r. Iconst r (word_of_int r')) st)) = Inr (Some k, st')" if "r' = r" for r'
    using Const low that by (auto simp: lower_fast_inst_def split: if_splits)
  from running_result [OF run _ sint_word_of_int [OF py(2)] this [OF refl]] Const show ?thesis by (simp add: py_store_def)
next
  case (LoadLocal s)
  then obtain c s1 where ld: "load_unboxed_local region s cold st = Inr (c, s1)" "st' = define_unboxed (result i) TyIntI64 c s1"
    using low by (auto simp: lower_fast_inst_def fast_result_def bind_ok_Inr_iff split: if_splits)
  have "locs s = Some r" using py(1) LoadLocal by (simp add: py_result_def)
  from running_load [OF doc run this ld(1)] running_define ld(2) LoadLocal show ?thesis
    by (fastforce simp: py_store_def)
next
  case (StoreLocal s v)
  then obtain c s1 where c: "unboxed_int st v = Some c" "store_unboxed_local s c st = Inr s1"
      "st' = define_unboxed (result i) TyIntI64 c s1"
    using low by (auto simp: lower_fast_inst_def fast_result_def bind_ok_Inr_iff split: if_splits option.splits)
  have r: "vals v = Some r" using py(1) StoreLocal by (simp add: py_result_def)
  note op = running_operand [OF run c(1) r]
  obtain e' where e': "running m e0 s1 e' vals (locs(s \<mapsto> r))" "next_value s1 = next_value st" "cv e' = cv e"
    using running_store [OF run op(1, 2) c(2)] by auto
  then have "running m e0 st' e' (vals(result i \<mapsto> r)) (py_store (kind i) vals locs)"
    unfolding c(3) using op r StoreLocal running_define [OF e'(1), of c r "result i"] by (simp add: py_store_def)
  then show ?thesis ..
next
  case (BinaryOp op a b)
  then obtain x y where ops: "unboxed_int st a = Some x" "unboxed_int st b = Some y"
    and low': "fast_result i (lower_binary_i64 region op x y cold (const_int_value f b \<notin> {None, Some 0}) st) = Inr (Some k, st')"
    using low by (auto simp: lower_fast_inst_def split: if_splits option.splits)
  obtain p q where "vals a = Some p" "vals b = Some q" "py_binary op p q = Some r"
    using py(1) BinaryOp by (auto simp: py_result_def bind_eq_Some_conv)
  then show ?thesis using running_binary [OF doc run ops _ _ _ py(2) _ low'] py(3) BinaryOp
    by (simp add: division_floors_def py_store_def)
next
  case (UnaryOp op v)
  then obtain c where c: "unboxed_int st v = Some c" using low by (auto simp: lower_fast_inst_def split: if_splits option.splits)
  obtain p where p: "vals v = Some p" using py(1) UnaryOp by (auto simp: py_result_def)
  note opd = running_operand [OF run c p]
  show ?thesis
  proof (cases op)
    case Neg
    then have "fast_result i (Inr (emit_value (\<lambda>r. Ineg r c) st)) = Inr (Some k, st')" "sint (- cv e c) = r"
      using UnaryOp low c py opd p by (auto simp: lower_fast_inst_def py_result_def sint_arith split: if_splits)
    from running_result [OF run _ this(2, 1)] UnaryOp show ?thesis by (simp add: py_store_def clif_documentedD [OF doc])
  next
    case Pos
    then have "st' = define_unboxed (result i) TyIntI64 c st" "r = p"
      using UnaryOp low c py p by (auto simp: lower_fast_inst_def fast_result_def py_result_def split: if_splits)
    then show ?thesis using running_define [OF run opd(1) opd(2)] UnaryOp by (auto simp: py_store_def)
  next
    case Invert
    with UnaryOp low c show ?thesis by (auto simp: lower_fast_inst_def split: if_splits)
  qed
next
  case (Compare op a b)
  then obtain x y where ops: "unboxed_int st a = Some x" "unboxed_int st b = Some y"
    using low by (auto simp: lower_fast_inst_def split: if_splits option.splits)
  obtain p q where pq: "vals a = Some p" "vals b = Some q" "r = of_bool (i64_relation (compare_cc op) p q)"
    using py(1) Compare by (auto simp: py_result_def py_compare_def bind_eq_Some_conv)
  then show ?thesis using running_compare [OF doc run ops pq(1, 2)] low Compare ops
    by (fastforce simp: lower_fast_inst_def Let_def case_prod_beta py_store_def split: if_splits)
next
  case (BoolTest v)
  then show ?thesis using running_zero_test [OF doc run, of i CcNotEqual v] low py(1)
    by (auto simp: lower_fast_inst_def py_result_def py_store_def i64_relation_def split: if_splits)
next
  case (NotOp v)
  then show ?thesis using running_zero_test [OF doc run, of i CcEqual v] low py(1)
    by (auto simp: lower_fast_inst_def py_result_def py_store_def i64_relation_def split: if_splits)
qed (use py(1) in \<open>simp_all add: py_result_def\<close>)

lemma running_insts:
  assumes "clif_documented m"
  shows "running m e0 st e vals locs \<Longrightarrow> lower_fast_insts f region rspecs b is st = Inr (True, st') \<Longrightarrow>
    py_block_run is vals locs = Some (vals', locs') \<Longrightarrow> stays_in_i64 is vals locs \<Longrightarrow> \<exists>e'. running m e0 st' e' vals' locs'"
proof (induction "is" arbitrary: st e vals locs)
  case (Cons i "is")
  obtain k s1 where low: "lower_fast_inst f region rspecs b i st = Inr (Some k, s1)"
    and rest: "lower_fast_insts f region rspecs b is (if unboxed_values s1 (result i) = None then define_value (result i) k s1 else s1)
       = Inr (True, st')"
    using Cons.prems(2) by (auto simp: bind_ok_Inr_iff split: option.splits)
  obtain r where r: "py_result (kind i) vals locs = Some r" "in_i64 r" "division_floors (kind i) vals"
    and run: "py_block_run is (vals(result i \<mapsto> r)) (py_store (kind i) vals locs) = Some (vals', locs')"
      "stays_in_i64 is (vals(result i \<mapsto> r)) (py_store (kind i) vals locs)"
    using Cons.prems(3, 4) by (auto split: option.splits)
  obtain e1 where e1: "running m e0 s1 e1 (vals(result i \<mapsto> r)) (py_store (kind i) vals locs)"
    using running_inst [OF assms Cons.prems(1) low r] by blast
  then have "running m e0 (define_value (result i) k s1) e1 (vals(result i \<mapsto> r)) (py_store (kind i) vals locs)"
    by (rule running_define_value)
  with e1 have "running m e0 (if unboxed_values s1 (result i) = None then define_value (result i) k s1 else s1) e1
      (vals(result i \<mapsto> r)) (py_store (kind i) vals locs)" by simp
  then show ?case by (rule Cons.IH [OF _ rest run])
qed auto

section \<open>Loops over ranges\<close>

text \<open>
  The code of one \<open>ForNext\<close>, run until its flag says that there is no item, with a loop body that leaves
  the counter alone.  \<open>None\<close> is a loop that has not ended after the given number of rounds.
\<close>

fun range_run ::
  "clif_machine \<Rightarrow> clif list \<Rightarrow> clif_value \<Rightarrow> clif_value \<Rightarrow> (clif_env \<Rightarrow> clif_env) \<Rightarrow> nat \<Rightarrow> clif_env \<Rightarrow> int list option" where
  "range_run m cs c has_item body 0 e = None"
| "range_run m cs c has_item body (Suc n) e =
     (case exec m cs e of
        Fall e1 \<Rightarrow>
          if cv e1 has_item = 0 then Some []
          else map_option ((#) (sint (cv e1 c))) (range_run m cs c has_item body n (body e1))
      | _ \<Rightarrow> None)"

lemma range_next_code:
  assumes doc: "clif_documented m" and it: "range_iters st it = Some (v, True)"
    and low: "lower_range_for_next res it spec st = Inr (c, st')"
  shows "\<exists>h e'. last_fast_for_next st' = Some h \<and> exec m (drop (length (code st)) (code st')) e = Fall e' \<and>
    cv e' c = vars e v \<and> vars e' v = vars e v + word_of_int (rs_step spec) \<and>
    (cv e' h \<noteq> 0 \<longleftrightarrow>
       (if 0 < rs_step spec then sint (vars e v) < sint (word_of_int (rs_stop spec) :: i64)
        else sint (vars e v) > sint (word_of_int (rs_stop spec) :: i64)))"
  using it low
  by (auto simp: lower_range_for_next_def ensure_fast_range_iter_def Let_def emit_value_def define_unboxed_def
      clif_documentedD [OF doc] i64_relation_def flag_def split: if_splits)

lemma range_run_exact:
  assumes doc: "clif_documented m" and it: "range_iters st it = Some (v, True)"
    and low: "lower_range_for_next res it spec st = Inr (c, st')" and h: "last_fast_for_next st' = Some h"
    and body: "\<And>e. vars (body e) v = vars e v"
    and spec: "rs_step spec \<noteq> 0" "in_i64 (rs_stop spec)"
  shows "vars e v = word_of_int a \<Longrightarrow> in_i64 a \<Longrightarrow>
    in_i64 (a + int (length (py_steps a (rs_stop spec) (rs_step spec))) * rs_step spec) \<Longrightarrow>
    length (py_steps a (rs_stop spec) (rs_step spec)) < n \<Longrightarrow>
    range_run m (drop (length (code st)) (code st')) c h body n e = Some (py_steps a (rs_stop spec) (rs_step spec))"
proof (induction n arbitrary: a e)
  case (Suc n)
  let ?k = "rs_step spec" and ?b = "rs_stop spec"
  obtain e' where e': "exec m (drop (length (code st)) (code st')) e = Fall e'" "cv e' c = word_of_int a"
      "vars e' v = word_of_int a + word_of_int ?k" "cv e' h \<noteq> 0 \<longleftrightarrow> (if 0 < ?k then a < ?b else a > ?b)"
    using range_next_code [OF doc it low, of e] h Suc.prems(1)
    unfolding Suc.prems(1) sint_word_of_int [OF Suc.prems(2)] sint_word_of_int [OF spec(2)] by auto
  show ?case
  proof (cases "0 < ?k \<and> a < ?b \<or> ?k < 0 \<and> ?b < a")
    case True
    then have steps: "py_steps a ?b ?k = a # py_steps (a + ?k) ?b ?k" by (simp add: py_steps.simps [of a])
    let ?l = "int (length (py_steps (a + ?k) ?b ?k))"
    have far: "in_i64 (a + ?k + ?l * ?k)" using Suc.prems(3) by (simp add: steps algebra_simps)
    have "0 < ?k \<Longrightarrow> a + ?k \<le> a + ?k + ?l * ?k \<and> a < a + ?k" "?k < 0 \<Longrightarrow> a + ?k + ?l * ?k \<le> a + ?k \<and> a + ?k < a"
      by (auto simp: mult_le_0_iff)
    then have "in_i64 (a + ?k)" using far Suc.prems(2) spec(1) unfolding in_i64_def by (cases "0 < ?k") linarith+
    then have "range_run m (drop (length (code st)) (code st')) c h body n (body e') = Some (py_steps (a + ?k) ?b ?k)"
      using e'(3) far Suc.prems(4) by (intro Suc.IH) (simp_all add: body steps)
    then show ?thesis using e' True Suc.prems(2) by (auto simp: steps sint_word_of_int)
  next
    case False
    then show ?thesis using e' spec(1) by (auto simp: py_steps.simps [of a])
  qed
qed simp

text \<open>
  The counter wraps around: a range whose last step leaves 64 bits never ends, although Python's has
  one item.
\<close>

definition wrapping_spec :: range_spec where
  "wrapping_spec = \<lparr>rs_start = 2 ^ 62, rs_stop = 2 ^ 63 - 1, rs_step = 2 ^ 62\<rparr>"

lemma wrapping_range_never_ends:
  assumes doc: "clif_documented m" and it: "range_iters st it = Some (v, True)"
    and low: "lower_range_for_next res it wrapping_spec st = Inr (c, st')" and h: "last_fast_for_next st' = Some h"
    and body: "\<And>e. vars (body e) v = vars e v" and start: "vars e v = word_of_int (rs_start wrapping_spec)"
  shows "range_run m (drop (length (code st)) (code st')) c h body n e = None"
    "py_steps (rs_start wrapping_spec) (rs_stop wrapping_spec) (rs_step wrapping_spec) = [2 ^ 62]"
proof -
  let ?W = "{0, 2 ^ 62, 2 ^ 63, 2 ^ 63 + 2 ^ 62} :: i64 set"
  have turn: "w + 2 ^ 62 \<in> ?W" "sint w < 2 ^ 63 - 1" if "w \<in> ?W" for w
    using that by auto
  have "vars e v \<in> ?W \<Longrightarrow> range_run m (drop (length (code st)) (code st')) c h body n e = None" for e
  proof (induction n arbitrary: e)
    case (Suc n)
    obtain e' where e': "exec m (drop (length (code st)) (code st')) e = Fall e'"
        "vars e' v = vars e v + 2 ^ 62" "cv e' h \<noteq> 0"
      using range_next_code [OF doc it low, of e] h turn(2) [OF Suc.prems]
      by (auto simp: wrapping_spec_def)
    then have "range_run m (drop (length (code st)) (code st')) c h body n (body e') = None"
      using turn(1) [OF Suc.prems] by (intro Suc.IH) (simp only: body)
    with e' show ?case by simp
  qed simp
  then show "range_run m (drop (length (code st)) (code st')) c h body n e = None"
    using start by (simp add: wrapping_spec_def)
  show "py_steps (rs_start wrapping_spec) (rs_stop wrapping_spec) (rs_step wrapping_spec) = [2 ^ 62]"
    by (simp add: wrapping_spec_def py_steps.simps)
qed

section \<open>Guards and boxed locals\<close>

text \<open>
  Two locals, \<open>x\<close> and \<open>d\<close>; the block computes \<open>x = x + 1\<close> and \<open>x // d\<close> and leaves the region.
\<close>

definition int_inst :: "value_id \<Rightarrow> inst_kind \<Rightarrow> inst" where
  "int_inst r k = with_inferred_type TyIntI64 (inst_new r k)"

definition division_insts :: "inst list" where
  "division_insts =
     [int_inst 0 (LoadLocal 0), int_inst 1 (Const (CInt 1)), int_inst 2 (BinaryOp Add 0 1), int_inst 3 (StoreLocal 0 2),
      int_inst 4 (LoadLocal 1), int_inst 5 (BinaryOp FloorDiv 2 4)]"

definition division_function :: ir_function where
  "division_function =
     \<lparr>fn_name = ''f'', arity = 2, is_coroutine = False, is_generator = False, is_async_generator = False,
      params = \<lparr>param_names = [], positional_only_count = 0, positional_count = 2, keyword_only_count = 0,
                vararg_name = None, kwarg_name = None\<rparr>,
      blocks = [\<lparr>blk_id = 0, insts = division_insts, term_of = Jump 1\<rparr>, \<lparr>blk_id = 1, insts = [], term_of = RaiseTerm\<rparr>],
      n_locals = 2\<rparr>"

definition division_region :: typed_region where
  "division_region = \<lparr>entry = 0, region_blocks = [0], region_values = [], live_ins = [], exits = []\<rparr>"

definition division_start :: fast_state where
  "division_start = (fast_state_new 2)\<lparr>local_defined := [True, True], int_local_defined := [True, True]\<rparr>"

definition division_env :: "int \<Rightarrow> int \<Rightarrow> clif_env" where
  "division_env x d =
     \<lparr>cv = \<lambda>_. 0,
      vars = (\<lambda>_. 0)(0 := tag_small_int (word_of_int x), 1 := tag_small_int (word_of_int d), 2 := word_of_int x, 3 := word_of_int d),
      argv = \<lambda>_. 0, shadow_slots = \<lambda>_. 0, deopt_notes = 0\<rparr>"

definition reference_machine :: clif_machine where
  "reference_machine =
     \<lparr>m_binary = (\<lambda>op a b. case op of
          Iadd \<Rightarrow> Some (a + b) | Isub \<Rightarrow> Some (a - b) | Imul \<Rightarrow> Some (a * b)
        | Sdiv \<Rightarrow> if b = 0 \<or> \<not> in_i64 (sint a sdiv sint b) then None else Some (word_of_int (sint a sdiv sint b))
        | Srem \<Rightarrow> if b = 0 then None else Some (word_of_int (sint a smod sint b))),
      m_ineg = uminus, m_icmp = (\<lambda>cc a b. i64_relation cc (sint a) (sint b)), m_band = (AND),
      m_sshr = (\<lambda>a n. signed_drop_bit n a), m_const_int = (\<lambda>a. 16), m_payload = (\<lambda>a. 0)\<rparr>"

lemma reference_machine_documented: "clif_documented reference_machine"
  by (simp add: clif_documented_def reference_machine_def)

lemmas division_simps = division_insts_def division_function_def division_region_def division_start_def fast_state_new_def
  int_inst_def with_inferred_type_def inst_new_def inst_unboxed_type_def fast_path_result_type_def is_unboxable_def
  block_ids_def


lemmas lowering_simps = lower_fast_inst_def load_unboxed_local_def local_count_def int_local_def fast_result_def
  define_unboxed_def emit_value_def emit_def unboxed_int_def store_unboxed_local_def lower_binary_i64_def const_int_value_def
  guard_i64_non_zero_def side_exit_unless_def sync_all_dirty_locals_def sync_dirty_local_def box_i64_def store_local_def
  Let_def map_filter_simps

definition division_code :: "clif list" where
  "division_code =
     [UseVar 0 2, Iconst 1 1, Binary Iadd 2 0 1, DefVar 2 2, UseVar 3 3, IcmpImm CcNotEqual 4 3 0,
      SideExit 4 [UseVar 5 2, CallConstInt 6 5, DefVar 0 6, StackStore 6 0, Iconst 7 0, CallDeoptNote 7] 0 [],
      Binary Sdiv 8 2 3]"

lemma division_lowered:
  "\<exists>st. lower_fast_insts division_function division_region Map.empty 0 division_insts division_start = Inr (True, st) \<and>
     code st = division_code \<and> local_count st = 2 \<and> sync_locals_leaving_region division_region 0 [1] st = Inr st"
  by (simp add: division_simps lowering_simps division_code_def sync_locals_leaving_region_def numeral_2_eq_2 upt_rec
      eval_nat_numeral)

lemma failed_guard_replays_block:
  assumes doc: "clif_documented m" and box: "m_const_int m (word_of_int x + 1) \<noteq> 0"
  shows "\<exists>st e. lower_fast_insts division_function division_region Map.empty 0 division_insts division_start = Inr (True, st) \<and>
    exec m (code st) (division_env x 0) = ToCold 0 [] e \<and> vars e 0 = m_const_int m (word_of_int x + 1)"
proof -
  obtain st where st: "lower_fast_insts division_function division_region Map.empty 0 division_insts division_start = Inr (True, st)"
    "code st = division_code" using division_lowered by auto
  moreover have "\<exists>e. exec m division_code (division_env x 0) = ToCold 0 [] e \<and> vars e 0 = m_const_int m (word_of_int x + 1)"
    using box
    by (simp add: division_code_def division_env_def clif_documentedD [OF doc] flag_def i64_relation_def then_run_def put_def Let_def)
  ultimately show ?thesis by auto
qed

lemma compare_reboxed_as_int:
  assumes doc: "clif_documented m" and run: "running m e0 st e vals locs"
    and low: "lower_fast_inst f region rspecs cold i st = Inr (Some k, st1)" "kind i = Compare op a b" "vals a = Some p" "vals b = Some q"
    and box: "ensure_boxed_value (result i) st1 = Inr (c, st2)" "boxed_values st1 (result i) = None"
    and alloc: "\<And>w. m_const_int m w \<noteq> 0"
  shows "\<exists>e'. exec m (code st2) e0 = Fall e' \<and> cv e' c = m_const_int m (of_bool (py_compare op p q))"
proof -
  let ?r = "of_bool (py_compare op p q) :: int"
  have "in_i64 ?r" by (simp add: in_i64_def)
  then obtain e1 where e1: "running m e0 st1 e1 (vals(result i \<mapsto> ?r)) locs"
    using running_inst [OF doc run low(1), of ?r] low(2-4) by (auto simp: py_result_def py_store_def division_floors_def)
  have k: "unboxed_values st1 (result i) = Some (TyIntI64, k)"
    using low by (auto simp: lower_fast_inst_def Let_def case_prod_beta split: if_splits option.splits dest: fast_result_unboxed)
  then have "sint (cv e1 k) = ?r" using e1 by (auto simp: running_def represents_def)
  then have "cv e1 k = of_bool (py_compare op p q)"
    by (auto simp: of_bool_def intro: signed_word_eqI)
  moreover have "c = next_value st1" "code st2 = code st1 @ [CallConstInt c k]"
    using box k by (auto simp: ensure_boxed_value_def box_i64_def emit_value_def emit_def define_value_def Let_def)
  ultimately show ?thesis
    using e1 alloc by (auto simp: running_def exec_append then_run_def Let_def)
qed

section \<open>Properties\<close>



text \<open>
  C35. Floor division on the fast path truncates.  For a divisor that is not zero and a quotient that
  fits in 64 bits, the emitted code of \<open>a // b\<close> computes the quotient rounded towards zero; this is
  Python's result exactly when the operands have the same sign or the division is exact.
\<close>
theorem floor_division_truncates:
  assumes "clif_documented m" "represents st e vals locs" "code st = []"
    and "lower_fast_inst f region rspecs cold i st = Inr (Some c, st')" "kind i = BinaryOp FloorDiv a b"
    and "vals a = Some p" "vals b = Some q" "q \<noteq> 0" "in_i64 (p sdiv q)"
  shows "\<exists>e'. exec m (code st') e = Fall e' \<and> sint (cv e' c) = p sdiv q \<and> (sint (cv e' c) = p div q \<longleftrightarrow> floors p q)"
proof -
  have run: "running m e st e vals locs" using assms(2, 3) by (simp add: running_def)
  obtain x y where ops: "unboxed_int st a = Some x" "unboxed_int st b = Some y"
    and low: "fast_result i (lower_binary_i64 region FloorDiv x y cold (const_int_value f b \<notin> {None, Some 0}) st) = Inr (Some c, st')"
    using assms(4, 5) by (auto simp: lower_fast_inst_def split: if_splits option.splits)
  have "m_binary m Sdiv (cv e x) (cv e y) = Some (word_of_int (p sdiv q))"
    using assms(8, 9) running_operand(2) [OF run ops(1) assms(6)] running_operand(2) [OF run ops(2) assms(7)]
    by (auto simp: clif_documentedD [OF assms(1)])
  then obtain e' where "running m e st' e' (vals(result i \<mapsto> p sdiv q)) locs"
    using running_guarded [OF assms(1) run ops assms(6-8) _ sint_word_of_int [OF assms(9)]
        low [unfolded lower_binary_i64_def Let_def bin_op.case]] by blast
  moreover have "unboxed_values st' (result i) = Some (TyIntI64, c)" using fast_result_unboxed [OF low] .
  ultimately show ?thesis using sdiv_eq_div_iff [OF assms(8)] by (auto simp: running_def represents_def)
qed

theorem floor_division_truncates_witness:
  "\<exists>st0 st e e' c. lower_fast_inst division_function division_region Map.empty 0 (int_inst 2 (BinaryOp FloorDiv 0 1)) st0 = Inr (Some c, st) \<and>
     cv e 0 = - 7 \<and> cv e 1 = 2 \<and> exec reference_machine (code st) e = Fall e' \<and> sint (cv e' c) = - 3 \<and> (- 7) div 2 = (- 4 :: int)"
proof -
  define st0 where "st0 = division_start\<lparr>unboxed_values := [0 \<mapsto> (TyIntI64, 0), 1 \<mapsto> (TyIntI64, 1)], next_value := 2\<rparr>"
  let ?e = "(division_env (- 7) 2)\<lparr>cv := (\<lambda>_. 0)(0 := - 7, 1 := 2)\<rparr>"
  let ?i = "int_inst 2 (BinaryOp FloorDiv 0 1)"
  have rep: "represents st0 ?e [0 \<mapsto> - 7, 1 \<mapsto> 2] [0 \<mapsto> - 7, 1 \<mapsto> 2]"
    by (auto simp: st0_def represents_def division_simps division_env_def local_count_def int_local_def
        less_Suc_eq numeral_2_eq_2 split: if_splits)
  obtain c st' where low: "lower_fast_inst division_function division_region Map.empty 0 ?i st0 = Inr (Some c, st')"
    by (simp add: st0_def division_simps lowering_simps numeral_2_eq_2 upt_rec)
  have "code st0 = []" "kind ?i = BinaryOp FloorDiv 0 1" by (simp_all add: st0_def division_simps)
  from floor_division_truncates [OF reference_machine_documented rep this(1) low this(2), of "- 7" 2]
  obtain e' where "exec reference_machine (code st') ?e = Fall e'" "sint (cv e' c) = - 3" by (auto simp: in_i64_def)
  with low show ?thesis
    by - (rule exI [of _ st0], rule exI [of _ st'], rule exI [of _ ?e], rule exI [of _ e'], rule exI [of _ c], simp)
qed

text \<open>
  C36. A guard makes the lowering forget a local.  The block increments \<open>x\<close>, divides by \<open>d\<close> and leaves the
  region.  The failure path of the guard on the divisor writes the unboxed \<open>x\<close> back to its boxed home and
  clears the flag that asks for this, for the path on which the guard holds as well: there the code that
  leaves the region stores nothing, the unboxed copy of \<open>x\<close> holds \<open>x + 1\<close>, and the boxed home that the
  code outside the region reads still holds the old \<open>x\<close>.
\<close>
theorem guard_loses_dirty_local:
  assumes "clif_documented m" "in_i64 (x + 1)" "d \<noteq> 0" "in_i64 d" "in_i64 ((x + 1) sdiv d)"
  shows "\<exists>st e. lower_fast_insts division_function division_region Map.empty 0 division_insts division_start = Inr (True, st) \<and>
    sync_locals_leaving_region division_region 0 [1] st = Inr st \<and> exec m (code st) (division_env x d) = Fall e \<and>
    sint (vars e (int_local st 0)) = x + 1 \<and> vars e 0 = tag_small_int (word_of_int x)"
proof -
  obtain st where st: "lower_fast_insts division_function division_region Map.empty 0 division_insts division_start = Inr (True, st)"
    "code st = division_code" "local_count st = 2" "sync_locals_leaving_region division_region 0 [1] st = Inr st"
    using division_lowered by auto
  have w: "sint (word_of_int x + 1 :: i64) = x + 1" "sint (word_of_int d :: i64) = d"
    using sint_word_of_int [OF assms(2)] sint_word_of_int [OF assms(4)] by simp_all
  have d: "word_of_int d \<noteq> (0 :: i64)" using w(2) assms(3) by auto
  have "\<exists>e. exec m division_code (division_env x d) = Fall e \<and> vars e 2 = word_of_int x + 1 \<and> vars e 0 = tag_small_int (word_of_int x)"
    using d assms(3, 5) by (simp add: division_code_def division_env_def clif_documentedD [OF assms(1)] flag_def i64_relation_def w put_def)
  then show ?thesis using st w by (auto simp: int_local_def)
qed

theorem guard_loses_dirty_local_witness:
  "\<exists>st e. exec reference_machine (code st) (division_env 5 2) = Fall e \<and> sint (vars e (int_local st 0)) = 6 \<and>
     vars e 0 = tag_small_int 5"
proof -
  have "in_i64 (5 + 1)" "(2 :: int) \<noteq> 0" "in_i64 2" "in_i64 ((5 + 1) sdiv 2)" by (simp_all add: in_i64_def)
  from guard_loses_dirty_local [OF reference_machine_documented this] show ?thesis by fastforce
qed

end
