(* ===== verification/Opt_Plan.thy ===== *)
theory Opt_Plan
  imports Fast_Path
begin

text \<open>
  Optimizing plans, the planning part of \<^verbatim>\<open>pon-codegen/src/optimizing.rs\<close>: which function gets a typed
  fast path, its entry guards, the values that are boxed at exits, and the safepoints of the boxed copy
  with the values declared at each of them.  A declaration goes by the textual position of the last use:
  it is exact in a region of one block without a loop, and misses a value that the next iteration of a
  loop reads.
\<close>

section \<open>Plans\<close>

datatype guard_failure = ColdTwin

record entry_guard_plan =
  eg_value :: value_id
  eg_expected :: ty
  eg_failure :: guard_failure

record fast_path_plan =
  fp_entry :: block_id
  fp_values :: "typed_value list"
  exits_requiring_boxing :: "value_id list"

record cold_call_site =
  cc_block :: block_id
  cc_index :: nat
  cc_result :: value_id

record stack_map_decl =
  sm_call :: cold_call_site
  boxed_live :: "value_id list"

record cold_twin_plan =
  ct_entry :: block_id
  ct_blocks :: "block_id list"
  ct_calls :: "cold_call_site list"
  ct_stack_maps :: "stack_map_decl list"

record optimizing_plan =
  plan_region_of :: typed_region
  entry_guards :: "entry_guard_plan list"
  fast_path :: fast_path_plan
  cold_twin :: cold_twin_plan

datatype lowering_step =
    StepEntryGuard entry_guard_plan
  | StepUnboxedValue typed_value
  | StepBoxForExit value_id
  | StepColdCall cold_call_site
  | StepStackMap stack_map_decl

definition entry_guard :: "typed_input \<Rightarrow> entry_guard_plan" where
  "entry_guard input = \<lparr>eg_value = ti_value input, eg_expected = ti_ty input, eg_failure = ColdTwin\<rparr>"

definition push_new :: "value_id \<Rightarrow> value_id list \<Rightarrow> value_id list" where
  "push_new v vs = (if v \<in> set vs then vs else vs @ [v])"

definition values_reaching_region_exits :: "ir_function \<Rightarrow> typed_region \<Rightarrow> value_id list" where
  "values_reaching_region_exits f region =
     (let made = map tv_value (region_values region) @ map ti_value (live_ins region)
      in fold push_new
           (filter (\<lambda>v. v \<in> set made)
             (concat (map (\<lambda>blk. terminator_operands (term_of blk)) (region_block_list f (region_blocks region))))) [])"

definition boxed_cold_path_call :: "inst_kind \<Rightarrow> bool" where
  "boxed_cold_path_call k =
     (case k of
        Const c \<Rightarrow> (case c of CInt _ \<Rightarrow> True | CFloat _ \<Rightarrow> True | _ \<Rightarrow> False)
      | BinaryOp _ _ _ \<Rightarrow> True
      | UnaryOp _ _ \<Rightarrow> True
      | _ \<Rightarrow> False)"

definition cold_call_sites :: "ir_function \<Rightarrow> typed_region \<Rightarrow> cold_call_site list" where
  "cold_call_sites f region =
     concat (map (\<lambda>blk.
       map (\<lambda>(n, i). \<lparr>cc_block = blk_id blk, cc_index = n, cc_result = result i\<rparr>)
         (filter (\<lambda>(n, i). boxed_cold_path_call (kind i)) (enumerate 0 (insts blk))))
       (region_block_list f (region_blocks region)))"

definition flatten_region :: "ir_function \<Rightarrow> typed_region \<Rightarrow> (block_id \<times> nat) list" where
  "flatten_region f region =
     concat (map (\<lambda>blk. map (Pair (blk_id blk)) [0..<length (insts blk)]) (region_block_list f (region_blocks region)))"

definition flat_positions :: "(block_id \<times> nat) list \<Rightarrow> block_id \<times> nat \<rightharpoonup> nat" where
  "flat_positions flat = map_of (rev (zip flat [0..<length flat]))"

definition note_uses :: "nat \<Rightarrow> value_id list \<Rightarrow> (value_id \<rightharpoonup> nat) \<Rightarrow> value_id \<rightharpoonup> nat" where
  "note_uses position operands uses = fold (\<lambda>v uses. uses(v \<mapsto> position)) operands uses"

definition last_uses ::
  "ir_function \<Rightarrow> typed_region \<Rightarrow> (block_id \<times> nat \<rightharpoonup> nat) \<Rightarrow> nat \<Rightarrow> value_id \<rightharpoonup> nat" where
  "last_uses f region pos_of terminator_position =
     fold (\<lambda>blk uses.
         note_uses terminator_position (terminator_operands (term_of blk))
           (fold (\<lambda>(n, i).
               note_uses (case pos_of (blk_id blk, n) of None \<Rightarrow> terminator_position | Some p \<Rightarrow> p) (inst_operands (kind i)))
             (enumerate 0 (insts blk)) uses))
       (region_block_list f (region_blocks region)) Map.empty"

definition def_positions :: "typed_region \<Rightarrow> (block_id \<times> nat \<rightharpoonup> nat) \<Rightarrow> value_id \<rightharpoonup> nat" where
  "def_positions region pos_of =
     fold (\<lambda>typed defs. case pos_of (tv_block typed, inst_index typed) of None \<Rightarrow> defs | Some p \<Rightarrow> defs(tv_value typed \<mapsto> p))
       (region_values region) Map.empty"

definition used_from :: "(value_id \<rightharpoonup> nat) \<Rightarrow> nat \<Rightarrow> value_id \<Rightarrow> bool" where
  "used_from uses position v \<longleftrightarrow> (case uses v of None \<Rightarrow> False | Some last_use \<Rightarrow> last_use \<ge> position)"

definition stack_maps :: "ir_function \<Rightarrow> typed_region \<Rightarrow> cold_call_site list \<Rightarrow> stack_map_decl list" where
  "stack_maps f region calls =
     (let flat = flatten_region f region;
          pos_of = flat_positions flat;
          uses = last_uses f region pos_of (length flat);
          defs = def_positions region pos_of
      in List.map_filter (\<lambda>call.
           map_option (\<lambda>position.
             \<lparr>sm_call = call,
              boxed_live =
                filter (used_from uses position) (map ti_value (live_ins region)) @
                filter (\<lambda>v. case defs v of None \<Rightarrow> False | Some d \<Rightarrow> d < position \<and> used_from uses position v)
                  (map tv_value (region_values region))\<rparr>)
           (pos_of (cc_block call, cc_index call))) calls)"

definition plan_region :: "ir_function \<Rightarrow> typed_region \<Rightarrow> optimizing_plan" where
  "plan_region f region =
     (let calls = cold_call_sites f region
      in \<lparr>plan_region_of = region,
          entry_guards = map entry_guard (live_ins region),
          fast_path = \<lparr>fp_entry = entry region, fp_values = region_values region,
                       exits_requiring_boxing = values_reaching_region_exits f region\<rparr>,
          cold_twin = \<lparr>ct_entry = entry region, ct_blocks = region_blocks region, ct_calls = calls,
                       ct_stack_maps = stack_maps f region calls\<rparr>\<rparr>)"

definition typed_for_nexts_have_fast_range_specs :: "ir_function \<Rightarrow> typed_region \<Rightarrow> bool" where
  "typed_for_nexts_have_fast_range_specs f region \<longleftrightarrow>
     list_all (\<lambda>i. case kind i of
          ForNext it \<Rightarrow> inst_unboxed_type i = Some TyIntI64 \<longrightarrow> range_iter_specs f it \<noteq> None
        | _ \<Rightarrow> True) (concat (map insts (region_block_list f (region_blocks region))))"

definition plan_function :: "(block_id \<Rightarrow> nat \<Rightarrow> block_id \<Rightarrow> nat) \<Rightarrow> ir_function \<Rightarrow> optimizing_plan option" where
  "plan_function hash f =
     (if is_generator f then None
      else case find_maximal_typed_region hash f of
             None \<Rightarrow> None
           | Some region \<Rightarrow>
               if typed_for_nexts_have_fast_range_specs f region then Some (plan_region f region) else None)"

definition can_compile_plan :: "optimizing_plan \<Rightarrow> bool" where
  "can_compile_plan p \<longleftrightarrow>
     list_all (\<lambda>v. tv_ty v = TyIntI64) (fp_values (fast_path p)) \<and>
     list_all (\<lambda>g. eg_expected g = TyIntI64) (entry_guards p) \<and>
     list_all (\<lambda>v. case filter (\<lambda>typed. tv_value typed = v) (fp_values (fast_path p)) of
                      [] \<Rightarrow> True | typed # _ \<Rightarrow> tv_ty typed = TyIntI64)
       (exits_requiring_boxing (fast_path p))"

definition lowering_steps :: "optimizing_plan \<Rightarrow> lowering_step list" where
  "lowering_steps p =
     map StepEntryGuard (entry_guards p) @ map StepUnboxedValue (fp_values (fast_path p)) @
     map StepBoxForExit (exits_requiring_boxing (fast_path p)) @ map StepColdCall (ct_calls (cold_twin p)) @
     map StepStackMap (ct_stack_maps (cold_twin p))"

section \<open>Locals of the lowering\<close>

definition is_for_next_result :: "ir_function \<Rightarrow> value_id \<Rightarrow> bool" where
  "is_for_next_result f v \<longleftrightarrow>
     (\<exists>i \<in> set (concat (map insts (blocks f))). result i = v \<and> (case kind i of ForNext _ \<Rightarrow> True | _ \<Rightarrow> False))"

fun load_before_store :: "inst list \<Rightarrow> local_id list \<Rightarrow> local_id list \<Rightarrow> local_id list \<times> local_id list" where
  "load_before_store [] slots stored = (slots, stored)"
| "load_before_store (i # is) slots stored =
     (if inst_unboxed_type i \<noteq> Some TyIntI64 then load_before_store is slots stored
      else case kind i of
        LoadLocal s \<Rightarrow> load_before_store is (if s \<notin> set stored \<and> s \<notin> set slots then slots @ [s] else slots) stored
      | StoreLocal s _ \<Rightarrow> load_before_store is slots (stored @ [s])
      | _ \<Rightarrow> load_before_store is slots stored)"

definition block_by_id :: "ir_function \<Rightarrow> block_id \<Rightarrow> block option" where
  "block_by_id f b = List.find (\<lambda>blk. blk_id blk = b) (blocks f)"

definition entry_load_before_store_int_locals :: "ir_function \<Rightarrow> typed_region \<Rightarrow> local_id list" where
  "entry_load_before_store_int_locals f region =
     fst (load_before_store (concat (map insts (List.map_filter (block_by_id f) (region_blocks region)))) [] [])"

definition formal_local_slots :: "ir_function \<Rightarrow> nat list" where
  "formal_local_slots f =
     (if total_slot_count (params f) = 0 then [0..<min (arity f) (n_locals f)]
      else
        let positional = positional_arity (params f);
            keyword_only_local = positional + (if vararg_name (params f) = None then 0 else 1)
        in [0..<positional] @ map (\<lambda>index. keyword_only_local + index) [0..<keyword_only_count (params f)] @
           (if vararg_name (params f) = None then [] else [positional]) @
           (if kwarg_name (params f) = None then [] else [keyword_only_local + keyword_only_count (params f)]))"

definition successor_flows_to_region_entry :: "ir_function \<Rightarrow> block_id \<Rightarrow> block_id \<Rightarrow> bool" where
  "successor_flows_to_region_entry f successor region_entry \<longleftrightarrow>
     successor = region_entry \<or>
     (case block_by_id f successor of
        None \<Rightarrow> False
      | Some blk \<Rightarrow> (case term_of blk of ForLoop _ body _ \<Rightarrow> body = region_entry | _ \<Rightarrow> False))"

section \<open>Stack maps of a block\<close>

lemma le_last: "sorted js \<Longrightarrow> j \<in> set js \<Longrightarrow> j \<le> last js" for js :: "nat list"
  by (induction js) auto

lemma filter_same_key: "distinct (map g xs) \<Longrightarrow> x \<in> set xs \<Longrightarrow> filter (\<lambda>y. g y = g x) xs = [x]"
proof (induction xs)
  case (Cons a xs)
  have "filter (\<lambda>y. g y = g a) xs = []" using Cons.prems(1) by (auto simp: filter_empty_conv image_iff)
  with Cons show ?case by (auto simp: image_iff)
qed simp

lemma note_uses_eq: "note_uses p vs uses v = (if v \<in> set vs then Some p else uses v)"
  by (induction vs arbitrary: uses) (auto simp: note_uses_def)

text \<open>The uses of a block at or after a position: its later instructions and its terminator.\<close>

definition used_in_rest :: "block \<Rightarrow> nat \<Rightarrow> value_id \<Rightarrow> bool" where
  "used_in_rest blk n v \<longleftrightarrow>
     v \<in> set (terminator_operands (term_of blk)) \<or> (\<exists>j < length (insts blk). n \<le> j \<and> v \<in> set (inst_operands (kind (insts blk ! j))))"

lemma fold_uses:
  assumes "\<And>n. n < k + length is \<Longrightarrow> pos n = n"
  shows "fold (\<lambda>(n, i). note_uses (pos n) (inst_operands (kind i))) (enumerate k is) uses v =
     (case filter (\<lambda>j. v \<in> set (inst_operands (kind (is ! j)))) [0..<length is] of
        [] \<Rightarrow> uses v | js \<Rightarrow> Some (k + last js))"
  using assms
proof (induction "is" rule: rev_induct)
  case (snoc i "is")
  have "filter (\<lambda>j. v \<in> set (inst_operands (kind ((is @ [i]) ! j)))) [0..<length is] =
      filter (\<lambda>j. v \<in> set (inst_operands (kind (is ! j)))) [0..<length is]"
    by (intro filter_cong) (auto simp: nth_append)
  then show ?case using snoc by (auto simp: enumerate_append_eq note_uses_eq split: list.splits)
qed simp

lemma used_from_block:
  assumes "region_block_list f (region_blocks region) = [blk]" "n \<le> length (insts blk)"
    and pos: "\<And>j. j < length (insts blk) \<Longrightarrow> pos (blk_id blk, j) = Some j"
  shows "used_from (last_uses f region pos (length (insts blk))) n v \<longleftrightarrow> used_in_rest blk n v"
proof -
  let ?js = "filter (\<lambda>j. v \<in> set (inst_operands (kind (insts blk ! j)))) [0..<length (insts blk)]"
  let ?place = "\<lambda>j. case pos (blk_id blk, j) of None \<Rightarrow> length (insts blk) | Some p \<Rightarrow> p"
  have eq: "last_uses f region pos (length (insts blk)) v =
      (if v \<in> set (terminator_operands (term_of blk)) then Some (length (insts blk))
       else case ?js of [] \<Rightarrow> None | js \<Rightarrow> Some (last js))"
    using fold_uses [of 0 "insts blk" ?place Map.empty v] pos
    by (simp add: last_uses_def assms(1) note_uses_eq split: list.splits)
  have "(\<exists>j < length (insts blk). n \<le> j \<and> v \<in> set (inst_operands (kind (insts blk ! j)))) \<longleftrightarrow> ?js \<noteq> [] \<and> n \<le> last ?js"
  proof
    assume "\<exists>j < length (insts blk). n \<le> j \<and> v \<in> set (inst_operands (kind (insts blk ! j)))"
    then obtain j where j: "j \<in> set ?js" "n \<le> j" by auto
    have "sorted ?js" by (simp add: sorted_wrt_filter)
    then have "j \<le> last ?js" using j(1) by (rule le_last)
    with j(2) have "n \<le> last ?js" by linarith
    moreover have "?js \<noteq> []" using j(1) by force
    ultimately show "?js \<noteq> [] \<and> n \<le> last ?js" by blast
  next
    assume "?js \<noteq> [] \<and> n \<le> last ?js"
    then have "last ?js \<in> set ?js" "n \<le> last ?js" using last_in_set by blast+
    then show "\<exists>j < length (insts blk). n \<le> j \<and> v \<in> set (inst_operands (kind (insts blk ! j)))" by auto
  qed
  then show ?thesis using assms(2) by (auto simp: used_from_def eq used_in_rest_def split: list.splits)
qed

lemma map_of_rev_keys: "distinct (map fst xs) \<Longrightarrow> map_of (rev xs) = map_of xs"
proof
  fix k
  assume "distinct (map fst xs)"
  then have "map_of (rev xs) k = Some v \<longleftrightarrow> map_of xs k = Some v" for v
    by (simp add: map_of_eq_Some_iff rev_map [symmetric])
  then show "map_of (rev xs) k = map_of xs k" by (cases "map_of xs k") auto
qed

lemma flat_positions_block:
  "flat_positions (map (Pair b) [0..<len]) (b', j) = (if b' = b \<and> j < len then Some j else None)"
proof -
  have "flat_positions (map (Pair b) [0..<len]) = map_of (zip (map (Pair b) [0..<len]) [0..<len])"
    by (simp add: flat_positions_def inj_on_def distinct_map map_of_rev_keys)
  moreover have "map_of (zip (map (Pair b) [0..<len]) [0..<len]) (b', j) = Some p \<longleftrightarrow> b' = b \<and> j < len \<and> p = j" for p
    by (subst map_of_eq_Some_iff) (auto simp: distinct_map inj_on_def set_zip intro: exI [of _ j])
  ultimately show ?thesis by (cases "flat_positions (map (Pair b) [0..<len]) (b', j)") auto
qed

lemma def_positions_block:
  assumes "distinct (map tv_value vs)" "\<forall>tv \<in> set vs. pos (tv_block tv, inst_index tv) = Some (inst_index tv)"
  shows "fold (\<lambda>typed defs. case pos (tv_block typed, inst_index typed) of None \<Rightarrow> defs | Some p \<Rightarrow> defs(tv_value typed \<mapsto> p)) vs defs v
     = (case filter (\<lambda>tv. tv_value tv = v) vs of [] \<Rightarrow> defs v | tv # _ \<Rightarrow> Some (inst_index tv))"
  using assms
proof (induction vs arbitrary: defs)
  case (Cons a vs)
  have "tv_value a = v \<Longrightarrow> filter (\<lambda>tv. tv_value tv = v) vs = []"
    using Cons.prems(1) by (auto simp: filter_empty_conv image_iff)
  then show ?case using Cons by (auto split: list.splits)
qed simp

lemma typed_values_block:
  assumes "distinct (map result (insts blk))"
  shows "distinct (map tv_value (typed_values_of blk))"
    "tv \<in> set (typed_values_of blk) \<longleftrightarrow>
       (\<exists>j t. j < length (insts blk) \<and> inst_unboxed_type (insts blk ! j) = Some t \<and>
          tv = \<lparr>tv_value = result (insts blk ! j), tv_ty = t, tv_block = blk_id blk, inst_index = j\<rparr>)"
proof -
  have "map tv_value (List.map_filter (\<lambda>(n, i). map_option (\<lambda>t. \<lparr>tv_value = result i, tv_ty = t, tv_block = b, inst_index = n\<rparr>)
       (inst_unboxed_type i)) (enumerate k is)) = map result (filter (\<lambda>i. inst_unboxed_type i \<noteq> None) is)" for k b "is"
    by (induction "is" arbitrary: k) (auto simp: map_filter_simps)
  then show "distinct (map tv_value (typed_values_of blk))"
    using assms by (simp add: typed_values_of_def distinct_map_filter)
  show "tv \<in> set (typed_values_of blk) \<longleftrightarrow>
       (\<exists>j t. j < length (insts blk) \<and> inst_unboxed_type (insts blk ! j) = Some t \<and>
          tv = \<lparr>tv_value = result (insts blk ! j), tv_ty = t, tv_block = blk_id blk, inst_index = j\<rparr>)"
    unfolding typed_values_of_def map_filter_def by (auto simp: in_set_enumerate_eq image_iff)
qed

lemma typed_results:
  assumes "distinct (map result (insts blk))"
  shows "tv_value ` set (typed_values_of blk) =
    {result (insts blk ! j) | j. j < length (insts blk) \<and> inst_unboxed_type (insts blk ! j) \<noteq> None}"
proof (intro equalityI subsetI)
  fix v
  assume "v \<in> tv_value ` set (typed_values_of blk)"
  then show "v \<in> {result (insts blk ! j) | j. j < length (insts blk) \<and> inst_unboxed_type (insts blk ! j) \<noteq> None}"
    using typed_values_block(2) [OF assms] by fastforce
next
  fix v
  assume "v \<in> {result (insts blk ! j) | j. j < length (insts blk) \<and> inst_unboxed_type (insts blk ! j) \<noteq> None}"
  then obtain j t where j: "v = result (insts blk ! j)" "j < length (insts blk)" "inst_unboxed_type (insts blk ! j) = Some t"
    by auto
  then have "\<lparr>tv_value = v, tv_ty = t, tv_block = blk_id blk, inst_index = j\<rparr> \<in> set (typed_values_of blk)"
    using typed_values_block(2) [OF assms] by blast
  then show "v \<in> tv_value ` set (typed_values_of blk)" by force
qed

lemma block_stack_maps_exact:
  assumes blk: "region_block_list f (region_blocks region) = [blk]" "region_values region = typed_values_of blk"
    and ssa: "distinct (map result (insts blk))"
    and call: "cc_block call = blk_id blk" "cc_index call < length (insts blk)"
    and decl: "d \<in> set (stack_maps f region [call])"
  shows "sm_call d = call \<and> set (boxed_live d) =
    {v \<in> ti_value ` set (live_ins region). used_in_rest blk (cc_index call) v} \<union>
    {result (insts blk ! j) | j. j < cc_index call \<and> inst_unboxed_type (insts blk ! j) \<noteq> None \<and>
       used_in_rest blk (cc_index call) (result (insts blk ! j))}"
proof -
  let ?n = "cc_index call" and ?len = "length (insts blk)"
  let ?pos = "flat_positions (map (Pair (blk_id blk)) [0..<?len])"
  have flat: "flatten_region f region = map (Pair (blk_id blk)) [0..<?len]"
    by (simp add: flatten_region_def blk(1))
  have uses: "used_from (last_uses f region ?pos ?len) ?n = used_in_rest blk ?n"
    using used_from_block [OF blk(1), of ?n ?pos] call(2) by (auto simp: flat_positions_block)
  have defs: "def_positions region ?pos v =
      (case filter (\<lambda>tv. tv_value tv = v) (typed_values_of blk) of [] \<Rightarrow> None | tv # _ \<Rightarrow> Some (inst_index tv))" for v
    unfolding def_positions_def blk(2)
    by (subst def_positions_block) (auto simp: typed_values_block [OF ssa] flat_positions_block)
  have def_at: "def_positions region ?pos (result (insts blk ! j)) = Some j"
    if j: "j < ?len" "inst_unboxed_type (insts blk ! j) = Some t" for j t
  proof -
    let ?tv = "\<lparr>tv_value = result (insts blk ! j), tv_ty = t, tv_block = blk_id blk, inst_index = j\<rparr>"
    have "filter (\<lambda>tv. tv_value tv = result (insts blk ! j)) (typed_values_of blk) = [?tv]"
      using filter_same_key [OF typed_values_block(1) [OF ssa], of ?tv] typed_values_block(2) [OF ssa, of ?tv] j by simp
    then show ?thesis by (simp add: defs)
  qed
  have "d = \<lparr>sm_call = call, boxed_live = filter (used_in_rest blk ?n) (map ti_value (live_ins region)) @
      filter (\<lambda>v. case def_positions region ?pos v of None \<Rightarrow> False | Some d \<Rightarrow> d < ?n \<and> used_in_rest blk ?n v)
        (map tv_value (region_values region))\<rparr>"
    using decl call uses
    by (simp add: stack_maps_def flat map_filter_simps flat_positions_block Let_def cong: option.case_cong)
  moreover have "set (filter (\<lambda>v. case def_positions region ?pos v of None \<Rightarrow> False | Some d \<Rightarrow> d < ?n \<and> used_in_rest blk ?n v)
        (map tv_value (region_values region))) =
      {result (insts blk ! j) | j. j < ?n \<and> inst_unboxed_type (insts blk ! j) \<noteq> None \<and> used_in_rest blk ?n (result (insts blk ! j))}"
    (is "set (filter ?P _) = ?R")
  proof -
    have P: "?P (result (insts blk ! j)) \<longleftrightarrow> j < ?n \<and> used_in_rest blk ?n (result (insts blk ! j))"
      if "j < ?len" "inst_unboxed_type (insts blk ! j) = Some t" for j t
      using def_at [OF that] by simp
    have "set (filter ?P (map tv_value (region_values region))) =
        {result (insts blk ! j) | j. j < ?len \<and> inst_unboxed_type (insts blk ! j) \<noteq> None \<and> ?P (result (insts blk ! j))}"
      unfolding blk(2) set_filter set_map typed_results [OF ssa] by blast
    also have "\<dots> = ?R" using P call(2) by fastforce
    finally show ?thesis .
  qed
  ultimately show ?thesis by auto
qed

section \<open>What the textual order misses\<close>

text \<open>A block that jumps to itself: the addition of the next iteration reads value 0 after the call at index 1.\<close>

lemmas inst_defaults = int_inst_def with_inferred_type_def inst_new_def inst_unboxed_type_def fast_path_result_type_def
  is_unboxable_def

definition one_function :: "block list \<Rightarrow> nat \<Rightarrow> ir_function" where
  "one_function bs n =
     \<lparr>fn_name = ''f'', arity = 0, is_coroutine = False, is_generator = False, is_async_generator = False,
      params = \<lparr>param_names = [], positional_only_count = 0, positional_count = 0, keyword_only_count = 0,
                vararg_name = None, kwarg_name = None\<rparr>,
      blocks = bs, n_locals = n\<rparr>"

definition looping_block :: block where
  "looping_block = \<lparr>blk_id = 1, insts = [int_inst 1 (BinaryOp Add 0 0), int_inst 2 (Const (CInt 7))], term_of = Jump 1\<rparr>"

definition looping_region :: typed_region where
  "looping_region = \<lparr>entry = 1, region_blocks = [1], region_values = typed_values_of looping_block,
     live_ins = [\<lparr>ti_value = 0, ti_ty = TyIntI64\<rparr>], exits = []\<rparr>"

lemma loop_value_not_declared:
  "map boxed_live (stack_maps (one_function [looping_block] 0) looping_region
     [\<lparr>cc_block = 1, cc_index = 1, cc_result = 2\<rparr>]) = [[]]"
  by (simp add: stack_maps_def flatten_region_def region_block_list_def one_function_def looping_block_def looping_region_def
      inst_defaults map_filter_simps flat_positions_def last_uses_def def_positions_def typed_values_of_def note_uses_eq
      used_from_def Let_def)

end
