(* ===== verification/Fast_Control.thy ===== *)
theory Fast_Control
  imports Opt_Plan
begin

text \<open>
  The primary copy of tier-1 code as a whole, \<^verbatim>\<open>compile_function\<close> and \<^verbatim>\<open>lower_primary_copy\<close> of
  \<^verbatim>\<open>pon-codegen/src/optimizing.rs\<close>: parameters, live-ins of the region, the instructions of every block,
  and the terminators with the locals they load and write back.  The emitted code is a list of blocks,
  and \<open>run_blocks\<close> runs it.

  The result is a translation validation: when every edge of the control flow passes a check that
  compares the state the lowering had at its two ends, the compiled function returns what the function
  returns in Python.  The check is not vacuous, a loop passes it, and it is needed: without it, a read
  after a store on another branch takes a variable that nothing has assigned.
\<close>

section \<open>Blocks of emitted code\<close>

text \<open>
  The jump of a loop carries the safepoint poll before it.  \<open>BoxedTerm\<close> stands for a terminator that the
  baseline lowering emits.  The states before the instructions, after them and after the terminator are
  those of the lowering; they are not part of the code.
\<close>

datatype clif_term = ReturnTo clif_value | JumpTo bool block_id | Brif clif_value block_id block_id | BoxedTerm terminator

record clif_block =
  cb_id :: block_id
  cb_code :: "clif list"
  cb_term :: clif_term
  cb_before :: fast_state
  cb_mid :: fast_state
  cb_after :: fast_state

datatype run_result = Returned u64 | LeftTo block_id "u64 list" clif_env | Raised | RunTrapped | AtBoxed terminator clif_env

text \<open>\<open>polls\<close> says which safepoint polls succeed; no fuel left is \<open>None\<close>.\<close>

fun run_blocks :: "clif_machine \<Rightarrow> (nat \<Rightarrow> bool) \<Rightarrow> clif_block list \<Rightarrow> nat \<Rightarrow> block_id \<Rightarrow> clif_env \<Rightarrow> run_result option" where
  "run_blocks m polls cbs 0 b e = None"
| "run_blocks m polls cbs (Suc n) b e =
     (case List.find (\<lambda>cb. cb_id cb = b) cbs of
        None \<Rightarrow> None
      | Some cb \<Rightarrow>
          (case exec m (cb_code cb) e of
             ToCold t args e1 \<Rightarrow> Some (LeftTo t args e1)
           | ToException e1 \<Rightarrow> Some Raised
           | Trapped \<Rightarrow> Some RunTrapped
           | Fall e1 \<Rightarrow>
               (case cb_term cb of
                  ReturnTo c \<Rightarrow> Some (Returned (cv e1 c))
                | JumpTo poll t \<Rightarrow> if poll \<and> \<not> polls n then Some Raised else run_blocks m polls cbs n t e1
                | Brif c t f \<Rightarrow> run_blocks m polls cbs n (if cv e1 c \<noteq> 0 then t else f) e1
                | BoxedTerm t \<Rightarrow> Some (AtBoxed t e1))))"

section \<open>Parameters and live-ins\<close>

definition parameter_bindings :: "ir_function \<Rightarrow> nat \<Rightarrow> (nat \<times> local_id) list" where
  "parameter_bindings f entry_arg_count =
     (if total_slot_count (params f) = 0 then map (\<lambda>slot. (slot, slot)) [0..<entry_arg_count]
      else
        let positional = positional_arity (params f);
            keyword_only_local = positional + (if vararg_name (params f) = None then 0 else 1);
            after_keywords = positional + keyword_only_count (params f)
        in map (\<lambda>slot. (slot, slot)) [0..<positional] @
           map (\<lambda>index. (positional + index, keyword_only_local + index)) [0..<keyword_only_count (params f)] @
           (if vararg_name (params f) = None then [] else [(after_keywords, positional)]) @
           (if kwarg_name (params f) = None then []
            else [(after_keywords + (if vararg_name (params f) = None then 0 else 1),
                   keyword_only_local + keyword_only_count (params f))]))"

definition define_local_from_argv :: "nat \<Rightarrow> local_id \<Rightarrow> fast_state \<Rightarrow> codegen_error + fast_state" where
  "define_local_from_argv argv_slot slot st =
     (if argv_slot * 8 \<ge> 2 ^ 31 then Inl (OffsetTooLarge (argv_slot * 8))
      else let (v, st) = emit_value (\<lambda>r. LoadArg r argv_slot) st in store_local slot v st)"

fun define_params :: "(nat \<times> local_id) list \<Rightarrow> fast_state \<Rightarrow> codegen_error + fast_state" where
  "define_params [] st = Inr st"
| "define_params ((a, slot) # bs) st = bind_ok (define_local_from_argv a slot st) (define_params bs)"

definition initialize_parameter_locals :: "nat \<Rightarrow> ir_function \<Rightarrow> fast_state \<Rightarrow> codegen_error + fast_state" where
  "initialize_parameter_locals entry_arg_count f st =
     (if entry_arg_count > n_locals f then Inl (LocalOutOfRange entry_arg_count (n_locals f))
      else define_params (parameter_bindings f entry_arg_count) st)"

definition boxed_value :: "value_id \<Rightarrow> fast_state \<Rightarrow> codegen_error + clif_value" where
  "boxed_value v st = (case boxed_values st v of None \<Rightarrow> Inl (ValueNotDefined v) | Some c \<Rightarrow> Inr c)"

fun boxed_live_ins :: "typed_input list \<Rightarrow> fast_state \<Rightarrow> codegen_error + clif_value list" where
  "boxed_live_ins [] st = Inr []"
| "boxed_live_ins (input # inputs) st =
     bind_ok (boxed_value (ti_value input) st) (\<lambda>c. bind_ok (boxed_live_ins inputs st) (\<lambda>cs. Inr (c # cs)))"

fun unbox_live_ins :: "ir_function \<Rightarrow> typed_input list \<Rightarrow> fast_state \<Rightarrow> codegen_error + fast_state" where
  "unbox_live_ins f [] st = Inr st"
| "unbox_live_ins f (input # inputs) st =
     (if ti_ty input \<noteq> TyIntI64 \<or> unboxed_values st (ti_value input) \<noteq> None \<or> \<not> is_for_next_result f (ti_value input)
      then unbox_live_ins f inputs st
      else bind_ok (boxed_value (ti_value input) st) (\<lambda>b.
             let (v, st) = emit_value (\<lambda>r. TrustedInt r b) st
             in unbox_live_ins f inputs (define_unboxed (ti_value input) TyIntI64 v st)))"

definition define_trusted_region_live_ins :: "ir_function \<Rightarrow> typed_region \<Rightarrow> fast_state \<Rightarrow> codegen_error + fast_state" where
  "define_trusted_region_live_ins f region st =
     bind_ok (boxed_live_ins (live_ins region) st) (\<lambda>args. unbox_live_ins f (live_ins region) (st\<lparr>cold_exit_args := args\<rparr>))"

section \<open>Terminators\<close>

definition preload_range_iter :: "(value_id \<rightharpoonup> range_spec) \<Rightarrow> inst \<Rightarrow> fast_state \<Rightarrow> fast_state" where
  "preload_range_iter rspecs i st =
     (case kind i of
        ForNext it \<Rightarrow>
          (case rspecs it of
             None \<Rightarrow> st
           | Some spec \<Rightarrow>
               let st = ensure_fast_range_iter it st
               in case range_iters st it of
                    Some (current, False) \<Rightarrow>
                      let (start, st) = emit_value (\<lambda>r. Iconst r (word_of_int (rs_start spec))) st;
                          st = emit (DefVar current start) st
                      in st\<lparr>range_iters := (range_iters st)(it \<mapsto> (current, True))\<rparr>
                  | _ \<Rightarrow> st)
      | _ \<Rightarrow> st)"

definition preload_range_iters_for_successor :: "ir_function \<Rightarrow> block_id \<Rightarrow> fast_state \<Rightarrow> fast_state" where
  "preload_range_iters_for_successor f successor st =
     (case block_by_id f successor of
        None \<Rightarrow> st
      | Some blk \<Rightarrow> fold (preload_range_iter (range_iter_specs f)) (insts blk) st)"

fun preload_locals :: "typed_region \<Rightarrow> block_id \<Rightarrow> local_id list \<Rightarrow> fast_state \<Rightarrow> codegen_error + fast_state" where
  "preload_locals region cold [] st = Inr st"
| "preload_locals region cold (slot # slots) st =
     (if slot \<ge> length (int_local_defined st) \<or> int_local_defined st ! slot then preload_locals region cold slots st
      else bind_ok (load_unboxed_local region slot cold st) (\<lambda>(v, st).
             preload_locals region cold slots ((emit (DefVar (int_local st slot) v) st)
               \<lparr>int_local_defined := (int_local_defined st)[slot := True]\<rparr>)))"

definition preload_region_entry_locals_for_successor ::
  "ir_function \<Rightarrow> typed_region \<Rightarrow> block_id \<Rightarrow> block_id \<Rightarrow> fast_state \<Rightarrow> codegen_error + fast_state" where
  "preload_region_entry_locals_for_successor f region current successor st =
     (if \<not> successor_flows_to_region_entry f successor (entry region) then Inr st
      else if current \<notin> block_ids f then Inl (Unsupported ''missing basic block'')
      else
        bind_ok (if current = entry region \<and> live_ins region \<noteq> [] \<and> cold_exit_args st = []
                 then bind_ok (boxed_live_ins (live_ins region) st) (\<lambda>args. Inr (st\<lparr>cold_exit_args := args\<rparr>))
                 else Inr st)
          (\<lambda>st. preload_locals region current (entry_load_before_store_int_locals f region)
             (preload_range_iters_for_successor f successor st)))"

fun ensure_boxed_values :: "value_id list \<Rightarrow> fast_state \<Rightarrow> codegen_error + fast_state" where
  "ensure_boxed_values [] st = Inr st"
| "ensure_boxed_values (v # vs) st = bind_ok (ensure_boxed_value v st) (\<lambda>(c, st). ensure_boxed_values vs st)"

definition lower_unboxed_branch ::
  "ir_function \<Rightarrow> clif_value \<Rightarrow> block_id \<Rightarrow> block_id \<Rightarrow> fast_state \<Rightarrow> codegen_error + clif_term \<times> fast_state" where
  "lower_unboxed_branch f cond then_blk else_blk st =
     (if then_blk \<notin> block_ids f \<or> else_blk \<notin> block_ids f then Inl (Unsupported ''missing basic block'')
      else let (truthy, st) = emit_value (\<lambda>r. IcmpImm CcNotEqual r cond 0) st in Inr (Brif truthy then_blk else_blk, st))"

definition lower_branch ::
  "ir_function \<Rightarrow> typed_region \<Rightarrow> block_id \<Rightarrow> terminator \<Rightarrow> value_id \<Rightarrow> block_id \<Rightarrow> block_id \<Rightarrow> fast_state \<Rightarrow>
   codegen_error + clif_term \<times> fast_state" where
  "lower_branch f region current t cond then_blk else_blk st =
     bind_ok (preload_region_entry_locals_for_successor f region current then_blk st) (\<lambda>st.
     bind_ok (preload_region_entry_locals_for_successor f region current else_blk st) (\<lambda>st.
     bind_ok (sync_locals_leaving_region region current [then_blk, else_blk] st) (\<lambda>st.
       case unboxed_int st cond of
         Some c \<Rightarrow> lower_unboxed_branch f c then_blk else_blk st
       | None \<Rightarrow> bind_ok (ensure_boxed_value cond st) (\<lambda>(c, st). Inr (BoxedTerm t, st)))))"

definition lower_jump :: "ir_function \<Rightarrow> block_id \<Rightarrow> block_id \<Rightarrow> fast_state \<Rightarrow> codegen_error + clif_term \<times> fast_state" where
  "lower_jump f current target st =
     (if target \<notin> block_ids f then Inl (Unsupported ''branch target block'') else Inr (JumpTo (target \<le> current) target, st))"

definition lower_primary_terminator ::
  "ir_function \<Rightarrow> typed_region \<Rightarrow> block_id \<Rightarrow> terminator \<Rightarrow> fast_state \<Rightarrow> codegen_error + clif_term \<times> fast_state" where
  "lower_primary_terminator f region current t st =
     (case t of
        Return v \<Rightarrow> bind_ok (ensure_boxed_value v st) (\<lambda>(c, st). Inr (ReturnTo c, st))
      | Jump target \<Rightarrow>
          bind_ok (preload_region_entry_locals_for_successor f region current target st) (\<lambda>st.
          bind_ok (sync_locals_leaving_region region current [target] st) (lower_jump f current target))
      | ForLoop it body done_blk \<Rightarrow>
          bind_ok (sync_locals_leaving_region region current [body, done_blk] st) (\<lambda>st.
            case last_fast_for_next st of
              Some has_item \<Rightarrow>
                if body \<notin> block_ids f \<or> done_blk \<notin> block_ids f then Inl (Unsupported ''missing basic block'')
                else Inr (Brif has_item body done_blk, st\<lparr>last_fast_for_next := None\<rparr>)
            | None \<Rightarrow> bind_ok (preload_region_entry_locals_for_successor f region current body st) (\<lambda>st. Inr (BoxedTerm t, st)))
      | Branch cond then_blk else_blk \<Rightarrow> lower_branch f region current t cond then_blk else_blk st
      | CondBranch cond then_blk else_blk \<Rightarrow> lower_branch f region current t cond then_blk else_blk st
      | Unreachable \<Rightarrow> Inl (Unsupported ''unreachable terminator'')
      | _ \<Rightarrow> bind_ok (ensure_boxed_values (terminator_operands t) st) (\<lambda>st. Inr (BoxedTerm t, st)))"

section \<open>Functions\<close>

text \<open>
  One block after the other, in the order of the function.  An instruction that the fast path does not
  take, or one of a block outside the region, is lowered by the baseline: the result is then \<open>Inr None\<close>.
\<close>

definition lower_primary_block ::
  "ir_function \<Rightarrow> typed_region \<Rightarrow> (value_id \<rightharpoonup> range_spec) \<Rightarrow> block \<Rightarrow> fast_state \<Rightarrow> codegen_error + clif_block option" where
  "lower_primary_block f region rspecs blk st0 =
     (let st0 = (if blk_id blk = 0 then st0 else st0\<lparr>code := []\<rparr>)
      in bind_ok (if blk_id blk = entry region then define_trusted_region_live_ins f region st0 else Inr st0) (\<lambda>st.
         if insts blk \<noteq> [] \<and> blk_id blk \<notin> set (region_blocks region) then Inr None
         else bind_ok (lower_fast_insts f region rspecs (blk_id blk) (insts blk) st) (\<lambda>(all, mid).
           if \<not> all then Inr None
           else bind_ok (lower_primary_terminator f region (blk_id blk) (term_of blk) mid) (\<lambda>(t, after).
             Inr (Some \<lparr>cb_id = blk_id blk, cb_code = code after, cb_term = t, cb_before = st, cb_mid = mid, cb_after = after\<rparr>)))))"

fun lower_primary_copy ::
  "ir_function \<Rightarrow> typed_region \<Rightarrow> (value_id \<rightharpoonup> range_spec) \<Rightarrow> block list \<Rightarrow> fast_state \<Rightarrow> codegen_error + clif_block list option" where
  "lower_primary_copy f region rspecs [] st = Inr (Some [])"
| "lower_primary_copy f region rspecs (blk # blks) st =
     bind_ok (lower_primary_block f region rspecs blk st) (\<lambda>r.
       case r of
         None \<Rightarrow> Inr None
       | Some cb \<Rightarrow> bind_ok (lower_primary_copy f region rspecs blks (cb_after cb)) (\<lambda>cbs. Inr (map_option (Cons cb) cbs)))"

definition compile_function :: "ir_function \<Rightarrow> typed_region \<Rightarrow> codegen_error + clif_block list option" where
  "compile_function f region =
     bind_ok (initialize_parameter_locals (max (total_slot_count (params f)) (arity f)) f (fast_state_new (n_locals f)))
       (lower_primary_copy f region (range_iter_specs f) (blocks f))"

section \<open>Python functions over integers\<close>

definition py_next :: "terminator \<Rightarrow> (value_id \<rightharpoonup> int) \<Rightarrow> block_id option" where
  "py_next t vals =
     (case t of
        Jump b \<Rightarrow> Some b
      | Branch c then_blk else_blk \<Rightarrow> map_option (\<lambda>x. if x \<noteq> 0 then then_blk else else_blk) (vals c)
      | CondBranch c then_blk else_blk \<Rightarrow> map_option (\<lambda>x. if x \<noteq> 0 then then_blk else else_blk) (vals c)
      | _ \<Rightarrow> None)"

text \<open>What the function returns from a block on, within a number of blocks; \<open>None\<close> is an exception or no end.\<close>

fun py_function_run :: "ir_function \<Rightarrow> nat \<Rightarrow> block_id \<Rightarrow> (value_id \<rightharpoonup> int) \<Rightarrow> (local_id \<rightharpoonup> int) \<Rightarrow> int option" where
  "py_function_run f 0 b vals locs = None"
| "py_function_run f (Suc n) b vals locs =
     Option.bind (block_by_id f b) (\<lambda>blk.
     Option.bind (py_block_run (insts blk) vals locs) (\<lambda>(vals, locs).
       case term_of blk of
         Return v \<Rightarrow> vals v
       | t \<Rightarrow> Option.bind (py_next t vals) (\<lambda>b. py_function_run f n b vals locs)))"

fun py_function_stays :: "ir_function \<Rightarrow> nat \<Rightarrow> block_id \<Rightarrow> (value_id \<rightharpoonup> int) \<Rightarrow> (local_id \<rightharpoonup> int) \<Rightarrow> bool" where
  "py_function_stays f 0 b vals locs \<longleftrightarrow> True"
| "py_function_stays f (Suc n) b vals locs \<longleftrightarrow>
     (case block_by_id f b of
        None \<Rightarrow> True
      | Some blk \<Rightarrow>
          stays_in_i64 (insts blk) vals locs \<and>
          (case py_block_run (insts blk) vals locs of
             None \<Rightarrow> True
           | Some (vals, locs) \<Rightarrow>
               (case py_next (term_of blk) vals of None \<Rightarrow> True | Some b \<Rightarrow> py_function_stays f n b vals locs)))"

section \<open>Validation\<close>

text \<open>
  For every block: the values and the locals it needs, and the locals whose boxed home holds their value
  when it starts.
\<close>

record needs =
  need_values :: "block_id \<Rightarrow> value_id set"
  need_locals :: "block_id \<Rightarrow> local_id set"
  homes :: "block_id \<Rightarrow> local_id set"

fun scan_needs :: "inst list \<Rightarrow> value_id set \<Rightarrow> local_id set \<Rightarrow> (value_id set \<times> local_id set) option" where
  "scan_needs [] V L = Some (V, L)"
| "scan_needs (i # is) V L =
     (if set (inst_operands (kind i)) \<subseteq> V \<and> (case kind i of LoadLocal s \<Rightarrow> s \<in> L | _ \<Rightarrow> True)
      then scan_needs is (insert (result i) V) (case kind i of StoreLocal s _ \<Rightarrow> insert s L | _ \<Rightarrow> L)
      else None)"

definition stored_slots :: "inst list \<Rightarrow> local_id set" where
  "stored_slots is = set (List.map_filter (\<lambda>i. case kind i of StoreLocal s _ \<Rightarrow> Some s | _ \<Rightarrow> None) is)"

definition var_writes :: "clif list \<Rightarrow> clif_var set" where
  "var_writes cs = set (List.map_filter (\<lambda>c. case c of DefVar v _ \<Rightarrow> Some v | _ \<Rightarrow> None) cs)"

definition edge_ok :: "value_id set \<Rightarrow> local_id set \<Rightarrow> local_id set \<Rightarrow> fast_state \<Rightarrow> fast_state \<Rightarrow> bool" where
  "edge_ok V L H after before \<longleftrightarrow>
     local_count after = local_count before \<and> length (int_local_dirty before) = local_count before \<and>
     length (local_defined before) = local_count before \<and>
     (\<forall>v \<in> V. case unboxed_values before v of
          None \<Rightarrow> True | Some u \<Rightarrow> unboxed_values after v = Some u \<and> snd u < next_value before) \<and>
     (\<forall>s \<in> L. s < local_count before \<longrightarrow>
        (if int_local_defined before ! s then int_local_defined after ! s
         else \<not> int_local_dirty before ! s \<and> (int_local_defined after ! s \<longrightarrow> s \<in> H)))"

definition new_code :: "clif_block \<Rightarrow> clif list" where
  "new_code cb = drop (length (code (cb_before cb))) (cb_code cb)"

definition homes_after :: "needs \<Rightarrow> block \<Rightarrow> clif_block \<Rightarrow> local_id set" where
  "homes_after N blk cb = homes N (blk_id blk) - stored_slots (insts blk) - var_writes (new_code cb)"

definition block_by_label :: "clif_block list \<Rightarrow> block_id \<Rightarrow> clif_block option" where
  "block_by_label cbs b = List.find (\<lambda>cb. cb_id cb = b) cbs"

definition edge_valid ::
  "ir_function \<Rightarrow> typed_region \<Rightarrow> needs \<Rightarrow> clif_block list \<Rightarrow> block \<Rightarrow> clif_block \<Rightarrow> value_id set \<Rightarrow> local_id set \<Rightarrow> block_id \<Rightarrow> bool" where
  "edge_valid f region N cbs blk cb V L s \<longleftrightarrow>
     s \<noteq> 0 \<and> (successor_flows_to_region_entry f s (entry region) \<longrightarrow> set (entry_load_before_store_int_locals f region) \<subseteq> L) \<and>
     need_values N s \<subseteq> V \<and> need_locals N s \<subseteq> L \<and> homes N s \<subseteq> homes_after N blk cb \<and>
     (case block_by_label cbs s of
        None \<Rightarrow> False
      | Some cb' \<Rightarrow> code (cb_before cb') = [] \<and>
          edge_ok (need_values N s) (need_locals N s) (homes_after N blk cb) (cb_after cb) (cb_before cb'))"

definition block_valid :: "ir_function \<Rightarrow> typed_region \<Rightarrow> needs \<Rightarrow> clif_block list \<Rightarrow> block \<Rightarrow> bool" where
  "block_valid f region N cbs blk \<longleftrightarrow>
     (case (block_by_label cbs (blk_id blk), scan_needs (insts blk) (need_values N (blk_id blk)) (need_locals N (blk_id blk))) of
        (Some cb, Some (V, L)) \<Rightarrow>
          set (terminator_operands (term_of blk)) \<subseteq> V \<and> list_all (edge_valid f region N cbs blk cb V L) (region_successors (term_of blk)) \<and>
          take (length (code (cb_before cb))) (cb_code cb) = code (cb_before cb) \<and>
          (case term_of blk of Return v \<Rightarrow> boxed_values (cb_mid cb) v = None | _ \<Rightarrow> True) \<and>
          (case cb_term cb of BoxedTerm _ \<Rightarrow> False | _ \<Rightarrow> True)
      | _ \<Rightarrow> False)"

definition lowering_valid :: "ir_function \<Rightarrow> typed_region \<Rightarrow> needs \<Rightarrow> clif_block list \<Rightarrow> bool" where
  "lowering_valid f region N cbs \<longleftrightarrow>
     live_ins region = [] \<and> range_iter_specs f = Map.empty \<and> need_values N 0 = {} \<and>
     (blocks f \<noteq> [] \<longrightarrow> blk_id (hd (blocks f)) = 0) \<and> list_all (block_valid f region N cbs) (blocks f)"

section \<open>Views of a Python run\<close>

lemma py_result_view:
  assumes "set (inst_operands k) \<subseteq> V" "case k of LoadLocal s \<Rightarrow> s \<in> L | _ \<Rightarrow> True"
  shows "py_result k (vals |` V) (locs |` L) = py_result k vals locs"
  using assms by (cases k) (auto simp: py_result_def split: py_const.splits)

lemma py_block_run_view:
  assumes "py_block_run is vals locs = Some (vals', locs')" "scan_needs is V L = Some (V', L')"
  shows "py_block_run is (vals |` V) (locs |` L) = Some (vals' |` V', locs' |` L') \<and>
    (stays_in_i64 is vals locs \<longrightarrow> stays_in_i64 is (vals |` V) (locs |` L))"
  using assms
proof (induction "is" arbitrary: vals locs V L)
  case (Cons i "is")
  let ?V = "insert (result i) V" and ?L = "case kind i of StoreLocal s _ \<Rightarrow> insert s L | _ \<Rightarrow> L"
  obtain r where r: "py_result (kind i) vals locs = Some r"
    and rest: "py_block_run is (vals(result i \<mapsto> r)) (py_store (kind i) vals locs) = Some (vals', locs')"
    using Cons.prems by (auto split: option.splits)
  have ops: "set (inst_operands (kind i)) \<subseteq> V" "case kind i of LoadLocal s \<Rightarrow> s \<in> L | _ \<Rightarrow> True"
    and scan: "scan_needs is ?V ?L = Some (V', L')"
    using Cons.prems by (auto split: if_splits)
  have view: "py_result (kind i) (vals |` V) (locs |` L) = Some r" using py_result_view [OF ops] r by simp
  have store: "py_store (kind i) (vals |` V) (locs |` L) = py_store (kind i) vals locs |` ?L"
    using ops r by (cases "kind i") (auto simp: py_store_def py_result_def restrict_map_def fun_eq_iff)
  have vals: "(vals |` V)(result i \<mapsto> r) = vals(result i \<mapsto> r) |` ?V" by (auto simp: restrict_map_def fun_eq_iff)
  have floors: "division_floors (kind i) vals \<Longrightarrow> division_floors (kind i) (vals |` V)"
    using ops by (cases "kind i") (auto simp: division_floors_def restrict_map_def split: option.splits)
  have "py_block_run is (vals(result i \<mapsto> r) |` ?V) (py_store (kind i) vals locs |` ?L) = Some (vals' |` V', locs' |` L') \<and>
      (stays_in_i64 is (vals(result i \<mapsto> r)) (py_store (kind i) vals locs) \<longrightarrow>
       stays_in_i64 is (vals(result i \<mapsto> r) |` ?V) (py_store (kind i) vals locs |` ?L))"
    using Cons.IH [OF rest scan] .
  then show ?case using floors by (simp add: view r store vals del: fun_upd_restrict)
qed simp_all

lemma py_block_run_bound:
  assumes "py_block_run is vals locs = Some (vals', locs')" "scan_needs is V L = Some (V', L')" "L \<subseteq> dom locs"
  shows "L' \<subseteq> dom locs'"
  using assms
proof (induction "is" arbitrary: vals locs V L)
  case (Cons i "is")
  obtain r where r: "py_result (kind i) vals locs = Some r"
    and rest: "py_block_run is (vals(result i \<mapsto> r)) (py_store (kind i) vals locs) = Some (vals', locs')"
    using Cons.prems(1) by (auto split: option.splits)
  have "(case kind i of StoreLocal s _ \<Rightarrow> insert s L | _ \<Rightarrow> L) \<subseteq> dom (py_store (kind i) vals locs)"
    using Cons.prems(3) r by (cases "kind i") (auto simp: py_store_def py_result_def)
  from Cons.IH [OF rest _ this] Cons.prems(2) show ?case by (auto split: if_splits)
qed simp

lemma py_block_run_unstored:
  "py_block_run is vals locs = Some (vals', locs') \<Longrightarrow> s \<notin> stored_slots is \<Longrightarrow> locs' s = locs s"
proof (induction "is" arbitrary: vals locs)
  case (Cons i "is")
  then show ?case
    by (cases "kind i") (auto simp: stored_slots_def map_filter_simps py_store_def split: option.splits)
qed simp

section \<open>What emitted code leaves alone\<close>

lemma exec_vars: "exec m cs e = Fall e' \<Longrightarrow> v \<notin> var_writes cs \<Longrightarrow> vars e' v = vars e v"
  by (induction m cs e arbitrary: e' rule: exec.induct)
    (auto simp: var_writes_def map_filter_simps Let_def then_run_def split: option.splits if_splits outcome.splits)

lemma running_sync_dirty:
  assumes alloc: "\<And>w. m_const_int m w \<noteq> 0" and run: "running m e0 st e vals locs" and sync: "sync_dirty_local slot st = Inr st'"
  shows "\<exists>e'. running m e0 st' e' vals locs"
proof (cases "slot \<ge> length (int_local_dirty st) \<or> \<not> int_local_dirty st ! slot")
  case True
  with sync run show ?thesis by (auto simp: sync_dirty_local_def)
next
  case False
  let ?n = "next_value st" and ?x = "vars e (int_local st slot)"
  let ?e = "(put (Suc ?n) (m_const_int m ?x) (put ?n ?x e))"
  have st': "st' = (emit (StackStore (Suc ?n) slot) (emit (DefVar slot (Suc ?n))
      (snd (emit_value (\<lambda>r. CallConstInt r ?n) (snd (emit_value (\<lambda>r. UseVar r (int_local st slot)) st))))))
      \<lparr>local_defined := (local_defined st)[slot := True], int_local_dirty := (int_local_dirty st)[slot := False]\<rparr>"
    using False sync by (auto simp: sync_dirty_local_def box_i64_def emit_value_def Let_def store_local_def emit_def split: if_splits)
  have "exec m (code st') e0 = Fall (?e\<lparr>vars := (vars e)(slot := m_const_int m ?x), shadow_slots := (shadow_slots e)(slot := m_const_int m ?x)\<rparr>)"
    using run alloc by (simp add: st' running_def exec_append then_run_def Let_def put_def)
  moreover have "slot < local_count st" using False run by (simp add: running_def represents_def)
  ultimately show ?thesis using run False
    by (fastforce simp: st' running_def represents_def emit_value_def emit_def local_count_def int_local_def put_def nth_list_update less_Suc_eq
        split: if_splits)
qed

lemma running_sync_slots:
  assumes "\<And>w. m_const_int m w \<noteq> 0"
  shows "running m e0 st e vals locs \<Longrightarrow> sync_slots slots st = Inr st' \<Longrightarrow> \<exists>e'. running m e0 st' e' vals locs"
proof (induction slots arbitrary: st e)
  case (Cons slot slots)
  then obtain s1 where s1: "sync_dirty_local slot st = Inr s1" "sync_slots slots s1 = Inr st'" by (auto simp: bind_ok_Inr_iff)
  from running_sync_dirty [OF assms Cons.prems(1) s1(1)] Cons.IH s1(2) show ?case by blast
qed auto

lemma running_sync_leaving:
  assumes "\<And>w. m_const_int m w \<noteq> 0" "running m e0 st e vals locs" "sync_locals_leaving_region region b succs st = Inr st'"
  shows "\<exists>e'. running m e0 st' e' vals locs" "frame st st'"
  using assms(3) running_sync_slots [OF assms(1, 2)] assms(2)
  by (auto simp: sync_locals_leaving_region_def sync_all_dirty_locals_def frame_refl dest: frame_sync_slots split: if_splits)

lemma load_keeps_count:
  assumes "load_unboxed_local region slot cold st = Inr (c, st')"
  shows "local_count st' = local_count st"
proof -
  have side: "local_count s' = local_count s" if "side_exit_unless region k cold s = Inr s'" for k s s'
    using side_exit_frame [OF that] by (simp add: frame_def local_count_def)
  have sync: "local_count s' = local_count s" if "sync_dirty_local slot s = Inr s'" for s s'
    using frame_sync_dirty_local [OF that] by (simp add: frame_def local_count_def)
  show ?thesis using assms
    by (auto simp: load_unboxed_local_def load_local_def guard_and_unbox_i64_def tagged_small_int_cond_def untag_small_int_i64_def
        bind_ok_Inr_iff Let_def case_prod_beta emit_value_eq_iff local_count_def split: if_splits
        dest!: side [unfolded local_count_def] sync [unfolded local_count_def])
qed

lemma running_preload_locals:
  assumes "clif_documented m"
  shows "running m e0 st e vals locs \<Longrightarrow> set slots \<subseteq> dom locs \<Longrightarrow> preload_locals region cold slots st = Inr st' \<Longrightarrow>
    \<exists>e'. running m e0 st' e' vals locs"
proof (induction slots arbitrary: st e)
  case (Cons slot slots)
  show ?case
  proof (cases "slot \<ge> length (int_local_defined st) \<or> int_local_defined st ! slot")
    case True
    with Cons show ?thesis by auto
  next
    case False
    then obtain c s1 where ld: "load_unboxed_local region slot cold st = Inr (c, s1)"
      and rest: "preload_locals region cold slots
          ((emit (DefVar (int_local s1 slot) c) s1)\<lparr>int_local_defined := (int_local_defined s1)[slot := True]\<rparr>) = Inr st'"
      using Cons.prems(3) by (auto simp: bind_ok_Inr_iff)
    obtain r where r: "locs slot = Some r" using Cons.prems(2) by auto
    obtain e1 where e1: "running m e0 s1 e1 vals locs" "sint (cv e1 c) = r" using running_load [OF assms Cons.prems(1) r ld] by blast
    have "slot < local_count s1" using load_keeps_count [OF ld] False by (simp add: local_count_def)
    from running_fill [OF e1(1) this, of c] e1(2) r Cons.IH [OF _ _ rest] Cons.prems(2) show ?thesis by auto
  qed
qed auto

lemma preload_range_none: "range_iter_specs f = Map.empty \<Longrightarrow> preload_range_iters_for_successor f s st = st"
proof -
  assume none: "range_iter_specs f = Map.empty"
  have "fold (preload_range_iter Map.empty) is st = st" for "is"
    by (induction "is" arbitrary: st) (auto simp: preload_range_iter_def split: inst_kind.splits)
  then show ?thesis by (simp add: preload_range_iters_for_successor_def none split: option.splits)
qed

lemma running_preload:
  assumes "clif_documented m" "live_ins region = []" "range_iter_specs f = Map.empty" "running m e0 st e vals locs"
    and "preload_region_entry_locals_for_successor f region b s st = Inr st'"
    and "successor_flows_to_region_entry f s (entry region) \<Longrightarrow> set (entry_load_before_store_int_locals f region) \<subseteq> dom locs"
  shows "\<exists>e'. running m e0 st' e' vals locs"
  using assms running_preload_locals [OF assms(1, 4)]
  by (auto simp: preload_region_entry_locals_for_successor_def preload_range_none split: if_splits)

section \<open>Simulation\<close>

text \<open>What the code of a terminator establishes.\<close>

definition term_good :: "clif_machine \<Rightarrow> terminator \<Rightarrow> clif_term \<Rightarrow> clif_env \<Rightarrow> (value_id \<rightharpoonup> int) \<Rightarrow> block_id \<Rightarrow> bool" where
  "term_good m t ct e vals b \<longleftrightarrow>
     (case t of
        Return v \<Rightarrow> (\<exists>c. ct = ReturnTo c \<and> (\<forall>r. vals v = Some r \<longrightarrow> cv e c = m_const_int m (word_of_int r)))
      | Jump s \<Rightarrow> ct = JumpTo (s \<le> b) s
      | Branch v s1 s2 \<Rightarrow> (\<exists>c. ct = Brif c s1 s2 \<and> (\<forall>r. vals v = Some r \<longrightarrow> (cv e c \<noteq> 0 \<longleftrightarrow> r \<noteq> 0)))
      | CondBranch v s1 s2 \<Rightarrow> (\<exists>c. ct = Brif c s1 s2 \<and> (\<forall>r. vals v = Some r \<longrightarrow> (cv e c \<noteq> 0 \<longleftrightarrow> r \<noteq> 0)))
      | _ \<Rightarrow> True)"

lemma running_branch:
  assumes doc: "clif_documented m" and alloc: "\<And>w. m_const_int m w \<noteq> 0"
    and region: "live_ins region = []" "range_iter_specs f = Map.empty"
    and run: "running m e0 st e vals locs"
    and low: "lower_branch f region b t cond s1 s2 st = Inr (ct, st')" "\<And>t. ct \<noteq> BoxedTerm t"
    and cond: "cond \<in> dom vals"
    and pre: "\<And>s. s \<in> {s1, s2} \<Longrightarrow> successor_flows_to_region_entry f s (entry region) \<Longrightarrow>
       set (entry_load_before_store_int_locals f region) \<subseteq> dom locs"
  shows "\<exists>e' c. running m e0 st' e' vals locs \<and> ct = Brif c s1 s2 \<and> (\<forall>r. vals cond = Some r \<longrightarrow> (cv e' c \<noteq> 0 \<longleftrightarrow> r \<noteq> 0))"
proof -
  obtain t1 t2 t3 where t: "preload_region_entry_locals_for_successor f region b s1 st = Inr t1"
      "preload_region_entry_locals_for_successor f region b s2 t1 = Inr t2"
      "sync_locals_leaving_region region b [s1, s2] t2 = Inr t3"
    and rest: "(case unboxed_int t3 cond of Some c \<Rightarrow> lower_unboxed_branch f c s1 s2 t3
       | None \<Rightarrow> bind_ok (ensure_boxed_value cond t3) (\<lambda>(c, st). Inr (BoxedTerm t, st))) = Inr (ct, st')"
    using low(1) by (auto simp: lower_branch_def bind_ok_Inr_iff)
  obtain e1 where e1: "running m e0 t1 e1 vals locs" using running_preload [OF doc region run t(1)] pre by blast
  obtain e2 where e2: "running m e0 t2 e2 vals locs" using running_preload [OF doc region e1 t(2)] pre by blast
  obtain e3 where e3: "running m e0 t3 e3 vals locs" using running_sync_leaving(1) [OF alloc e2 t(3)] by blast
  obtain c where c: "unboxed_int t3 cond = Some c" and br: "lower_unboxed_branch f c s1 s2 t3 = Inr (ct, st')"
    using rest low(2) by (auto simp: bind_ok_Inr_iff split: option.splits)
  obtain r where r: "vals cond = Some r" using cond by auto
  have v: "sint (cv e3 c) = r" using running_operand(2) [OF e3 c r] .
  have "running m e0 (snd (emit_value (\<lambda>k. IcmpImm CcNotEqual k c 0) t3)) (put (next_value t3) (flag (r \<noteq> 0)) e3) vals locs"
    using v by (intro running_emit_value [OF e3]) (simp add: clif_documentedD [OF doc] i64_relation_def)
  with br r show ?thesis
    by (intro exI [of _ "put (next_value t3) (flag (r \<noteq> 0)) e3"])
      (auto simp: lower_unboxed_branch_def Let_def case_prod_beta flag_def split: if_splits)
qed

lemma running_return:
  assumes alloc: "\<And>w. m_const_int m w \<noteq> 0" and run: "running m e0 st e vals locs"
    and box: "ensure_boxed_value v st = Inr (c, st')" "boxed_values st v = None" and v: "vals v = Some r"
  shows "\<exists>e'. running m e0 st' e' vals locs \<and> cv e' c = m_const_int m (word_of_int r)"
proof -
  obtain k where k: "unboxed_values st v = Some (TyIntI64, k)"
    and st': "c = next_value st" "st' = define_value v c (snd (emit_value (\<lambda>r. CallConstInt r k) st))"
    using box by (auto simp: ensure_boxed_value_def box_i64_def Let_def case_prod_beta split: option.splits if_splits)
  have "unboxed_int st v = Some k" using k by (simp add: unboxed_int_def)
  then have "sint (cv e k) = r" using running_operand(2) [OF run _ v] by blast
  then have w: "cv e k = word_of_int r" by auto
  have "running m e0 (snd (emit_value (\<lambda>r. CallConstInt r k) st)) (put c (m_const_int m (cv e k)) e) vals locs"
    unfolding st'(1) using alloc by (intro running_emit_value [OF run]) (simp add: Let_def)
  then have "running m e0 st' (put c (m_const_int m (cv e k)) e) vals locs" unfolding st'(2) by (rule running_define_value)
  then show ?thesis using w by auto
qed

lemma running_terminator:
  assumes doc: "clif_documented m" and alloc: "\<And>w. m_const_int m w \<noteq> 0"
    and region: "live_ins region = []" "range_iter_specs f = Map.empty"
    and run: "running m e0 st e vals locs"
    and low: "lower_primary_terminator f region b t st = Inr (ct, st')" "\<And>t. ct \<noteq> BoxedTerm t"
    and ops: "set (terminator_operands t) \<subseteq> dom vals" "case t of Return v \<Rightarrow> boxed_values st v = None | _ \<Rightarrow> True"
    and py: "case t of Return _ \<Rightarrow> True | _ \<Rightarrow> py_next t vals \<noteq> None"
    and pre: "\<And>s. s \<in> set (region_successors t) \<Longrightarrow> successor_flows_to_region_entry f s (entry region) \<Longrightarrow>
       set (entry_load_before_store_int_locals f region) \<subseteq> dom locs"
  shows "\<exists>e'. running m e0 st' e' vals locs \<and> term_good m t ct e' vals b"
proof (cases t)
  case (Return v)
  then obtain c where c: "ensure_boxed_value v st = Inr (c, st')" "ct = ReturnTo c"
    using low(1) by (auto simp: lower_primary_terminator_def bind_ok_Inr_iff)
  obtain r where "vals v = Some r" using ops(1) Return by auto
  with running_return [OF alloc run c(1) _ this] ops(2) Return c(2) show ?thesis by (auto simp: term_good_def)
next
  case (Jump s)
  then obtain t1 t2 where t: "preload_region_entry_locals_for_successor f region b s st = Inr t1"
      "sync_locals_leaving_region region b [s] t1 = Inr t2" "lower_jump f b s t2 = Inr (ct, st')"
    using low(1) by (auto simp: lower_primary_terminator_def bind_ok_Inr_iff)
  have "s \<in> set (region_successors t)" by (simp add: Jump region_successors_def)
  then obtain e1 where e1: "running m e0 t1 e1 vals locs" using running_preload [OF doc region run t(1)] pre by blast
  obtain e2 where "running m e0 t2 e2 vals locs" using running_sync_leaving(1) [OF alloc e1 t(2)] by blast
  with t(3) Jump show ?thesis by (auto simp: lower_jump_def term_good_def split: if_splits)
next
  case (Branch v s1 s2)
  with low have "lower_branch f region b t v s1 s2 st = Inr (ct, st')" by (simp add: lower_primary_terminator_def)
  from running_branch [OF doc alloc region run this low(2)] ops(1) pre Branch show ?thesis
    by (fastforce simp: term_good_def region_successors_def)
next
  case (CondBranch v s1 s2)
  with low have "lower_branch f region b t v s1 s2 st = Inr (ct, st')" by (simp add: lower_primary_terminator_def)
  from running_branch [OF doc alloc region run this low(2)] ops(1) pre CondBranch show ?thesis
    by (fastforce simp: term_good_def region_successors_def)
qed (use py in \<open>auto simp: py_next_def\<close>)

definition homes_hold :: "clif_env \<Rightarrow> local_id set \<Rightarrow> (local_id \<rightharpoonup> int) \<Rightarrow> bool" where
  "homes_hold e H locs \<longleftrightarrow>
     (\<forall>s \<in> H. \<forall>r. locs s = Some r \<longrightarrow> is_small_int (vars e s) \<and> sint (untag_small_int (vars e s)) = r)"

lemma edge_represents:
  assumes "represents after e (vals |` V) (locs |` L)" "edge_ok V1 L1 H after before" "V1 \<subseteq> V" "L1 \<subseteq> L" "homes_hold e H locs"
  shows "represents before e (vals |` V1) (locs |` L1)"
proof -
  have "c < next_value before \<and> t = TyIntI64 \<and> sint (cv e c) = r"
    if "unboxed_values before v = Some (t, c)" "(vals |` V1) v = Some r" for v t c r
  proof -
    have "v \<in> V1" "vals v = Some r" using that(2) by (auto simp: restrict_map_def split: if_splits)
    then show ?thesis using assms(1-3) that(1) by (fastforce simp: edge_ok_def represents_def restrict_map_def)
  qed
  moreover have "if int_local_defined before ! s then (\<forall>r. (locs |` L1) s = Some r \<longrightarrow> sint (vars e (int_local before s)) = r)
      else (\<forall>r. (locs |` L1) s = Some r \<longrightarrow>
         \<not> int_local_dirty before ! s \<and> is_small_int (vars e s) \<and> sint (untag_small_int (vars e s)) = r)"
    if s: "s < local_count before" for s
  proof (cases "s \<in> L1 \<and> locs s \<noteq> None")
    case True
    then obtain r where r: "s \<in> L1" "s \<in> L" "locs s = Some r" using assms(4) by auto
    have edge: "if int_local_defined before ! s then int_local_defined after ! s
        else \<not> int_local_dirty before ! s \<and> (int_local_defined after ! s \<longrightarrow> s \<in> H)"
      using assms(2) r(1) s by (simp add: edge_ok_def)
    have "local_count after = local_count before" using assms(2) by (simp add: edge_ok_def)
    with assms(1, 5) edge r s show ?thesis
      by (auto simp: represents_def homes_hold_def int_local_def split: if_splits)
  qed (auto simp: restrict_map_def)
  ultimately show ?thesis using assms(2) by (simp add: represents_def edge_ok_def)
qed


text \<open>How the blocks of emitted code correspond to the blocks of the function.\<close>

definition lowered_from :: "ir_function \<Rightarrow> typed_region \<Rightarrow> block \<Rightarrow> clif_block \<Rightarrow> bool" where
  "lowered_from f region blk cb \<longleftrightarrow>
     cb_id cb = blk_id blk \<and> cb_code cb = code (cb_after cb) \<and>
     lower_fast_insts f region (range_iter_specs f) (blk_id blk) (insts blk) (cb_before cb) = Inr (True, cb_mid cb) \<and>
     lower_primary_terminator f region (blk_id blk) (term_of blk) (cb_mid cb) = Inr (cb_term cb, cb_after cb)"

lemma lower_primary_block_from:
  "lower_primary_block f region (range_iter_specs f) blk st = Inr (Some cb) \<Longrightarrow> lowered_from f region blk cb"
  by (auto simp: lower_primary_block_def lowered_from_def Let_def bind_ok_Inr_iff split: if_splits)

lemma lower_primary_copy_from:
  "lower_primary_copy f region (range_iter_specs f) blks st = Inr (Some cbs) \<Longrightarrow> list_all2 (lowered_from f region) blks cbs"
  by (induction blks arbitrary: st cbs) (auto simp: bind_ok_Inr_iff split: option.splits dest: lower_primary_block_from)

lemma find_lowered:
  "list_all2 (lowered_from f region) blks cbs \<Longrightarrow> List.find (\<lambda>blk. blk_id blk = b) blks = Some blk \<Longrightarrow>
   \<exists>cb. block_by_label cbs b = Some cb \<and> lowered_from f region blk cb"
  by (induction rule: list_all2_induct) (auto simp: block_by_label_def lowered_from_def split: if_splits)

lemma block_step:
  assumes doc: "clif_documented m" and alloc: "\<And>w. m_const_int m w \<noteq> 0"
    and valid: "lowering_valid f region N cbs" "block_by_id f b = Some blk" "block_by_label cbs b = Some cb" "lowered_from f region blk cb"
    and run: "running m e0 (cb_before cb) e1 (vals |` need_values N b) (locs |` need_locals N b)"
      "homes_hold e1 (homes N b) locs" "need_locals N b \<subseteq> dom locs"
    and py: "py_block_run (insts blk) vals locs = Some (vals', locs')" "stays_in_i64 (insts blk) vals locs"
      "case term_of blk of Return v \<Rightarrow> vals' v \<noteq> None | t \<Rightarrow> py_next t vals' \<noteq> None"
  shows "\<exists>e2. exec m (cb_code cb) e0 = Fall e2 \<and> term_good m (term_of blk) (cb_term cb) e2 vals' b \<and>
    (\<forall>s \<in> set (region_successors (term_of blk)). need_locals N s \<subseteq> dom locs' \<and>
       (\<exists>cb'. block_by_label cbs s = Some cb' \<and> code (cb_before cb') = [] \<and>
          represents (cb_before cb') e2 (vals' |` need_values N s) (locs' |` need_locals N s) \<and> homes_hold e2 (homes N s) locs'))"
proof -
  have b: "b = blk_id blk" "blk \<in> set (blocks f)" using valid(2) by (auto simp: block_by_id_def find_Some_iff)
  have region: "live_ins region = []" "range_iter_specs f = Map.empty" "block_valid f region N cbs blk"
    using valid(1) b(2) by (auto simp: lowering_valid_def list_all_iff)
  obtain V L where scan: "scan_needs (insts blk) (need_values N b) (need_locals N b) = Some (V, L)"
    and chk: "set (terminator_operands (term_of blk)) \<subseteq> V"
      "\<And>s. s \<in> set (region_successors (term_of blk)) \<Longrightarrow> edge_valid f region N cbs blk cb V L s"
      "take (length (code (cb_before cb))) (cb_code cb) = code (cb_before cb)"
      "case term_of blk of Return v \<Rightarrow> boxed_values (cb_mid cb) v = None | _ \<Rightarrow> True" "\<And>t. cb_term cb \<noteq> BoxedTerm t"
    using region(3) valid(3) b(1) by (fastforce simp: block_valid_def list_all_iff split: option.splits prod.splits clif_term.splits)
  have low: "lower_fast_insts f region (range_iter_specs f) b (insts blk) (cb_before cb) = Inr (True, cb_mid cb)"
      "lower_primary_terminator f region b (term_of blk) (cb_mid cb) = Inr (cb_term cb, cb_after cb)" "cb_code cb = code (cb_after cb)"
    using valid(4) b(1) by (auto simp: lowered_from_def)
  have view: "py_block_run (insts blk) (vals |` need_values N b) (locs |` need_locals N b) = Some (vals' |` V, locs' |` L)"
      "stays_in_i64 (insts blk) (vals |` need_values N b) (locs |` need_locals N b)"
    using py_block_run_view [OF py(1) scan] py(2) by auto
  have bound: "L \<subseteq> dom locs'" using py_block_run_bound [OF py(1) scan run(3)] .
  obtain e' where e': "running m e0 (cb_mid cb) e' (vals' |` V) (locs' |` L)"
    using running_insts [OF doc run(1) low(1) view] by blast
  have ops: "set (terminator_operands (term_of blk)) \<subseteq> dom (vals' |` V)"
    using chk(1) py(3) by (cases "term_of blk") (auto simp: py_next_def)
  have next_ok: "case term_of blk of Return _ \<Rightarrow> True | _ \<Rightarrow> py_next (term_of blk) (vals' |` V) \<noteq> None"
    using chk(1) py(3) by (cases "term_of blk") (auto simp: py_next_def)
  have pre: "set (entry_load_before_store_int_locals f region) \<subseteq> dom (locs' |` L)"
    if "s \<in> set (region_successors (term_of blk))" "successor_flows_to_region_entry f s (entry region)" for s
    using chk(2) [OF that(1)] that(2) bound by (auto simp: edge_valid_def)
  obtain e2 where e2: "running m e0 (cb_after cb) e2 (vals' |` V) (locs' |` L)" "term_good m (term_of blk) (cb_term cb) e2 (vals' |` V) b"
    using running_terminator [OF doc alloc region(1, 2) e' low(2) chk(5) ops chk(4) next_ok] pre by blast
  have new: "exec m (new_code cb) e1 = Fall e2"
  proof -
    have "exec m (code (cb_before cb) @ new_code cb) e0 = Fall e2"
      using e2(1) low(3) chk(3) by (metis append_take_drop_id new_code_def running_def)
    then show ?thesis using run(1) by (simp add: exec_append running_def then_run_def)
  qed
  have homes: "homes_hold e2 (homes_after N blk cb) locs'"
    using run(2) exec_vars [OF new] py_block_run_unstored [OF py(1)] b(1)
    by (auto simp: homes_hold_def homes_after_def)
  have "need_locals N s \<subseteq> dom locs' \<and> (\<exists>cb'. block_by_label cbs s = Some cb' \<and> code (cb_before cb') = [] \<and>
      represents (cb_before cb') e2 (vals' |` need_values N s) (locs' |` need_locals N s) \<and> homes_hold e2 (homes N s) locs')"
    if s: "s \<in> set (region_successors (term_of blk))" for s
  proof -
    obtain cb' where cb': "block_by_label cbs s = Some cb'" "code (cb_before cb') = []"
        "edge_ok (need_values N s) (need_locals N s) (homes_after N blk cb) (cb_after cb) (cb_before cb')"
      and sub: "need_values N s \<subseteq> V" "need_locals N s \<subseteq> L" "homes N s \<subseteq> homes_after N blk cb"
      using chk(2) [OF s] by (auto simp: edge_valid_def split: option.splits)
    have "represents (cb_after cb) e2 (vals' |` V) (locs' |` L)" using e2(1) by (simp add: running_def)
    from edge_represents [OF this cb'(3) sub(1, 2) homes] cb' sub bound homes show ?thesis by (auto simp: homes_hold_def)
  qed
  moreover have "term_good m (term_of blk) (cb_term cb) e2 vals' b"
    using e2(2) chk(1) by (auto simp: term_good_def split: terminator.splits)
  ultimately show ?thesis using e2(1) low(3) by (auto simp: running_def)
qed

lemma function_simulation:
  assumes doc: "clif_documented m" and alloc: "\<And>w. m_const_int m w \<noteq> 0"
    and valid: "lowering_valid f region N cbs" "list_all2 (lowered_from f region) (blocks f) cbs"
  shows "running m e0 (cb_before cb) e1 (vals |` need_values N b) (locs |` need_locals N b) \<Longrightarrow> block_by_label cbs b = Some cb \<Longrightarrow>
    homes_hold e1 (homes N b) locs \<Longrightarrow> need_locals N b \<subseteq> dom locs \<Longrightarrow>
    py_function_run f n b vals locs = Some r \<Longrightarrow> py_function_stays f n b vals locs \<Longrightarrow>
    run_blocks m (\<lambda>_. True) cbs n b e0 = Some (Returned (m_const_int m (word_of_int r)))"
proof (induction n arbitrary: b cb e0 e1 vals locs)
  case (Suc n)
  obtain blk vals' locs' where blk: "block_by_id f b = Some blk" and run: "py_block_run (insts blk) vals locs = Some (vals', locs')"
    and res: "(case term_of blk of Return v \<Rightarrow> vals' v | t \<Rightarrow> Option.bind (py_next t vals') (\<lambda>b. py_function_run f n b vals' locs')) = Some r"
    using Suc.prems(5) by (auto simp: bind_eq_Some_conv)
  have from_blk: "lowered_from f region blk cb"
    using find_lowered [OF valid(2), of b blk] blk Suc.prems(2) by (simp add: block_by_id_def)
  have stays: "stays_in_i64 (insts blk) vals locs"
      "\<And>s. py_next (term_of blk) vals' = Some s \<Longrightarrow> py_function_stays f n s vals' locs'"
    using Suc.prems(6) blk run by (auto split: option.splits)
  have "case term_of blk of Return v \<Rightarrow> vals' v \<noteq> None | t \<Rightarrow> py_next t vals' \<noteq> None"
    using res by (auto simp: bind_eq_Some_conv split: terminator.splits)
  from block_step [OF doc alloc valid(1) blk Suc.prems(2) from_blk Suc.prems(1, 3, 4) run stays(1) this]
  obtain e2 where e2: "exec m (cb_code cb) e0 = Fall e2" "term_good m (term_of blk) (cb_term cb) e2 vals' b"
    and succ: "\<And>s. s \<in> set (region_successors (term_of blk)) \<Longrightarrow> need_locals N s \<subseteq> dom locs' \<and>
       (\<exists>cb'. block_by_label cbs s = Some cb' \<and> code (cb_before cb') = [] \<and>
          represents (cb_before cb') e2 (vals' |` need_values N s) (locs' |` need_locals N s) \<and> homes_hold e2 (homes N s) locs')"
    by blast
  have go: "run_blocks m (\<lambda>_. True) cbs n s e2 = Some (Returned (m_const_int m (word_of_int r)))"
    if s: "py_next (term_of blk) vals' = Some s" "py_function_run f n s vals' locs' = Some r" for s
  proof -
    have "s \<in> set (region_successors (term_of blk))"
      using s(1) by (auto simp: py_next_def region_successors_def split: terminator.splits)
    then obtain cb' where cb': "block_by_label cbs s = Some cb'" "code (cb_before cb') = []"
      "represents (cb_before cb') e2 (vals' |` need_values N s) (locs' |` need_locals N s)" "homes_hold e2 (homes N s) locs'"
      "need_locals N s \<subseteq> dom locs'"
      using succ by blast
    then have "running m e2 (cb_before cb') e2 (vals' |` need_values N s) (locs' |` need_locals N s)" by (simp add: running_def)
    from Suc.IH [OF this cb'(1, 4, 5) s(2) stays(2) [OF s(1)]] show ?thesis .
  qed
  have find: "List.find (\<lambda>cb. cb_id cb = b) cbs = Some cb" using Suc.prems(2) by (simp add: block_by_label_def)
  show ?case
    using e2 res go by (cases "term_of blk") (auto simp: find term_good_def py_next_def bind_eq_Some_conv split: if_splits)
qed simp

section \<open>Parameters\<close>

lemma parameter_slots_distinct: "distinct (map snd (parameter_bindings f n))"
  by (auto simp: parameter_bindings_def Let_def distinct_map inj_on_def comp_def)

text \<open>After the parameters are stored, the boxed home of each holds its argument, and nothing is unboxed.\<close>

lemma define_params_run:
  "define_params bs st = Inr st' \<Longrightarrow> exec m (code st) e0 = Fall e \<Longrightarrow> distinct (map snd bs) \<Longrightarrow>
   \<exists>e'. exec m (code st') e0 = Fall e' \<and> argv e' = argv e \<and>
     (\<forall>v. vars e' v = (case map_of (map prod.swap bs) v of None \<Rightarrow> vars e v | Some a \<Rightarrow> argv e a)) \<and>
     int_local_defined st' = int_local_defined st \<and> int_local_dirty st' = int_local_dirty st \<and>
     unboxed_values st' = unboxed_values st \<and> length (local_defined st') = length (local_defined st)"
proof (induction bs arbitrary: st e)
  case (Cons x bs)
  obtain a slot where x: "x = (a, slot)" by (cases x)
  let ?n = "next_value st"
  let ?e = "(put ?n (argv e a) e)\<lparr>vars := (vars e)(slot := argv e a), shadow_slots := (shadow_slots e)(slot := argv e a)\<rparr>"
  obtain s1 where s1: "store_local slot ?n (snd (emit_value (\<lambda>r. LoadArg r a) st)) = Inr s1" "define_params bs s1 = Inr st'"
    using Cons.prems(1) by (auto simp: x define_local_from_argv_def bind_ok_Inr_iff Let_def case_prod_beta split: if_splits)
  have e: "exec m (code s1) e0 = Fall ?e"
    using s1(1) Cons.prems(2) by (auto simp: store_local_def exec_append then_run_def put_def split: if_splits)
  have arg: "argv ?e = argv e" by (simp add: put_def)
  have "slot \<notin> fst ` set (map prod.swap bs)" using Cons.prems(3) by (auto simp: x image_iff)
  then have "map_of (map prod.swap bs) slot = None" by (simp add: map_of_eq_None_iff)
  moreover have "int_local_defined s1 = int_local_defined st" "int_local_dirty s1 = int_local_dirty st"
      "unboxed_values s1 = unboxed_values st" "length (local_defined s1) = length (local_defined st)"
    using s1(1) by (auto simp: store_local_def emit_value_def split: if_splits)
  moreover obtain e' where "exec m (code st') e0 = Fall e'" "argv e' = argv e"
      "\<And>v. vars e' v = (case map_of (map prod.swap bs) v of None \<Rightarrow> vars ?e v | Some a \<Rightarrow> argv e a)"
      "int_local_defined st' = int_local_defined s1" "int_local_dirty st' = int_local_dirty s1"
      "unboxed_values st' = unboxed_values s1" "length (local_defined st') = length (local_defined s1)"
    using Cons.IH [OF s1(2) e] Cons.prems(3) unfolding arg by auto
  ultimately show ?case by (auto simp: x split: option.splits)
qed auto

text \<open>The arguments are tagged integers, and bind the locals of the parameters.\<close>

definition binds_arguments :: "ir_function \<Rightarrow> clif_env \<Rightarrow> (local_id \<rightharpoonup> int) \<Rightarrow> bool" where
  "binds_arguments f e locs \<longleftrightarrow>
     dom locs = snd ` set (parameter_bindings f (max (total_slot_count (params f)) (arity f))) \<and>
     (\<forall>(a, slot) \<in> set (parameter_bindings f (max (total_slot_count (params f)) (arity f))).
        is_small_int (argv e a) \<and> locs slot = Some (sint (untag_small_int (argv e a))))"

lemma entry_running:
  assumes compiled: "compile_function f region = Inr (Some cbs)" and valid: "lowering_valid f region N cbs"
    and args: "binds_arguments f e0 locs" "need_locals N 0 \<subseteq> dom locs" "homes N 0 \<subseteq> dom locs"
    and entry: "block_by_label cbs 0 = Some cb"
  shows "\<exists>e1. running m e0 (cb_before cb) e1 (Map.empty |` need_values N 0) (locs |` need_locals N 0) \<and> homes_hold e1 (homes N 0) locs"
proof -
  let ?bs = "parameter_bindings f (max (total_slot_count (params f)) (arity f))"
  obtain st where st: "define_params ?bs (fast_state_new (n_locals f)) = Inr st"
    and copy: "lower_primary_copy f region (range_iter_specs f) (blocks f) st = Inr (Some cbs)"
    using compiled by (auto simp: compile_function_def initialize_parameter_locals_def bind_ok_Inr_iff split: if_splits)
  obtain e1 where e1: "exec m (code st) e0 = Fall e1" "\<And>v. vars e1 v = (case map_of (map prod.swap ?bs) v of None \<Rightarrow> vars e0 v | Some a \<Rightarrow> argv e0 a)"
    and fields: "int_local_defined st = replicate (n_locals f) False" "int_local_dirty st = replicate (n_locals f) False"
      "unboxed_values st = Map.empty" "length (local_defined st) = n_locals f"
    using define_params_run [OF st, of m e0 e0] parameter_slots_distinct by (fastforce simp: fast_state_new_def)
  have home: "is_small_int (vars e1 slot) \<and> sint (untag_small_int (vars e1 slot)) = r" if "locs slot = Some r" for slot r
  proof -
    have "slot \<in> snd ` set ?bs" using that args(1) by (auto simp: binds_arguments_def)
    then obtain a where a: "(a, slot) \<in> set ?bs" by auto
    have "distinct (map fst (map prod.swap ?bs))" using parameter_slots_distinct by (simp add: comp_def)
    then have "map_of (map prod.swap ?bs) slot = Some a" using a by (auto intro: map_of_is_SomeI)
    then show ?thesis using e1(2) [of slot] a args(1) that by (fastforce simp: binds_arguments_def)
  qed
  obtain blk blks cbs' where blks: "blocks f = blk # blks" "blk_id blk = 0"
    using copy entry valid by (cases "blocks f") (auto simp: block_by_label_def lowering_valid_def)
  have live: "live_ins region = []" using valid by (simp add: lowering_valid_def)
  obtain cb0 where cb0: "lower_primary_block f region (range_iter_specs f) blk st = Inr (Some cb0)" "hd cbs = cb0" "cbs \<noteq> []"
    using copy blks by (auto simp: bind_ok_Inr_iff split: option.splits)
  have "cb = cb0"
    using cb0 lower_primary_block_from [OF cb0(1)] blks entry
    by (cases cbs) (auto simp: block_by_label_def lowered_from_def)
  then have before: "unboxed_values (cb_before cb) = unboxed_values st" "code (cb_before cb) = code st"
      "int_local_defined (cb_before cb) = int_local_defined st" "int_local_dirty (cb_before cb) = int_local_dirty st"
      "local_defined (cb_before cb) = local_defined st"
    using cb0(1) blks(2) live
    by (auto simp: lower_primary_block_def define_trusted_region_live_ins_def bind_ok_Inr_iff Let_def split: if_splits)
  have "represents (cb_before cb) e1 (Map.empty |` need_values N 0) (locs |` need_locals N 0)"
    using home fields before by (auto simp: represents_def local_count_def restrict_map_def split: if_splits)
  then show ?thesis using e1(1) before home args(3) by (auto simp: running_def homes_hold_def)
qed

section \<open>A loop\<close>

text \<open>The sum of the numbers below the parameter: local 0 is the bound, local 1 the counter, local 2 the sum.\<close>

definition sum_function :: ir_function where
  "sum_function =
     (one_function
       [\<lparr>blk_id = 0, insts = [int_inst 0 (Const (CInt 0)), int_inst 1 (StoreLocal 1 0), int_inst 2 (StoreLocal 2 0)], term_of = Jump 1\<rparr>,
        \<lparr>blk_id = 1, insts = [int_inst 3 (LoadLocal 1), int_inst 4 (LoadLocal 0), int_inst 5 (Compare Lt 3 4)], term_of = CondBranch 5 2 3\<rparr>,
        \<lparr>blk_id = 2, insts = [int_inst 6 (LoadLocal 2), int_inst 7 (LoadLocal 1), int_inst 8 (BinaryOp Add 6 7), int_inst 9 (StoreLocal 2 8),
           int_inst 10 (Const (CInt 1)), int_inst 11 (BinaryOp Add 7 10), int_inst 12 (StoreLocal 1 11)], term_of = Jump 1\<rparr>,
        \<lparr>blk_id = 3, insts = [int_inst 13 (LoadLocal 2)], term_of = Return 13\<rparr>] 3)\<lparr>arity := 1\<rparr>"

definition sum_region :: typed_region where
  "sum_region = \<lparr>entry = 0, region_blocks = [0, 1, 2, 3], region_values = [], live_ins = [], exits = []\<rparr>"

definition sum_needs :: needs where
  "sum_needs = \<lparr>need_values = \<lambda>_. {}, need_locals = \<lambda>b. if b = 0 then {0} else {0, 1, 2}, homes = \<lambda>_. {0}\<rparr>"

lemmas control_simps = lower_primary_block_def lower_primary_terminator_def lower_branch_def lower_jump_def lower_unboxed_branch_def
  preload_region_entry_locals_for_successor_def successor_flows_to_region_entry_def block_by_id_def sync_locals_leaving_region_def
  define_trusted_region_live_ins_def initialize_parameter_locals_def define_local_from_argv_def parameter_bindings_def
  ensure_boxed_value_def load_local_def guard_and_unbox_i64_def tagged_small_int_cond_def untag_small_int_i64_def bool_to_i64_def
  define_value_def fast_state_new_def lowering_simps inst_defaults block_ids_def total_slot_count_def

lemma sum_ranges: "range_iter_specs sum_function = Map.empty"
  by (simp add: range_iter_specs_def sum_function_def one_function_def scan_spec_def inst_defaults)

lemma numeral_steps:
  "(x # xs)[numeral k := y] = x # xs[pred_numeral k := y]" "replicate (numeral k) x = x # replicate (pred_numeral k) x"
  "[0..<numeral k] = 0 # [Suc 0..<numeral k]" "[Suc 0..<Suc 0] = []" "[Suc 0..<numeral k] = (if Suc 0 < numeral k then Suc 0 # [2..<numeral k] else [])"
  by (simp_all add: numeral_eq_Suc upt_rec)

lemmas valid_simps = lowering_valid_def block_valid_def edge_valid_def edge_ok_def homes_after_def new_code_def var_writes_def
  stored_slots_def block_by_label_def region_successors_def

lemma sum_compiled:
  "\<exists>cbs. compile_function sum_function sum_region = Inr (Some cbs) \<and> lowering_valid sum_function sum_region sum_needs cbs"
  unfolding compile_function_def sum_ranges lowering_valid_def
  by (simp add: sum_function_def one_function_def sum_region_def control_simps numeral_steps)
    (simp add: sum_needs_def valid_simps inst_defaults map_filter_simps local_count_def successor_flows_to_region_entry_def block_by_id_def
      less_Suc_eq)

lemmas python_simps = one_function_def block_by_id_def inst_defaults py_result_def py_store_def py_binary_def py_compare_def
  i64_relation_def py_next_def in_i64_def division_floors_def

lemma sum_python:
  "py_function_run sum_function 9 0 Map.empty [0 \<mapsto> 3] = Some 3" "py_function_stays sum_function 9 0 Map.empty [0 \<mapsto> 3]"
  by (simp_all add: sum_function_def python_simps eval_nat_numeral)

text \<open>A machine that boxes an integer as a tagged immediate.\<close>

definition tagging_machine :: clif_machine where
  "tagging_machine = reference_machine\<lparr>m_const_int := tag_small_int\<rparr>"

lemma tagging_machine_ok: "clif_documented tagging_machine" "m_const_int tagging_machine w \<noteq> 0"
proof -
  show "clif_documented tagging_machine"
    using reference_machine_documented by (simp add: tagging_machine_def clif_documented_def)
  have "bit (tag_small_int w) 0" by (simp add: tag_small_int_def TAG_INT_BIT_def bit_simps)
  then show "m_const_int tagging_machine w \<noteq> 0" by (auto simp: tagging_machine_def)
qed

definition argument_env :: "u64 list \<Rightarrow> clif_env" where
  "argument_env args =
     \<lparr>cv = \<lambda>_. 0, vars = \<lambda>_. 0, argv = (\<lambda>n. if n < length args then args ! n else 0), shadow_slots = \<lambda>_. 0, deopt_notes = 0\<rparr>"

section \<open>A store on one branch\<close>

text \<open>
  Parameters \<open>x\<close> and \<open>c\<close>: block 0 branches on \<open>c\<close> to block 1, which stores 1 to \<open>x\<close> and goes on to block 2,
  or straight to block 2, which returns \<open>x\<close>.
\<close>

definition branch_function :: ir_function where
  "branch_function =
     (one_function
       [\<lparr>blk_id = 0, insts = [int_inst 0 (LoadLocal 1)], term_of = CondBranch 0 1 2\<rparr>,
        \<lparr>blk_id = 1, insts = [int_inst 1 (Const (CInt 1)), int_inst 2 (StoreLocal 0 1)], term_of = Jump 2\<rparr>,
        \<lparr>blk_id = 2, insts = [int_inst 3 (LoadLocal 0)], term_of = Return 3\<rparr>] 2)\<lparr>arity := 2\<rparr>"

definition branch_region :: typed_region where
  "branch_region = \<lparr>entry = 0, region_blocks = [0, 1, 2], region_values = [], live_ins = [], exits = []\<rparr>"

lemma branch_ranges: "range_iter_specs branch_function = Map.empty"
  by (simp add: range_iter_specs_def branch_function_def one_function_def scan_spec_def inst_defaults)

lemma branch_python: "py_function_run branch_function 2 0 Map.empty [0 \<mapsto> x, 1 \<mapsto> 0] = Some x"
  by (simp add: branch_function_def python_simps numeral_2_eq_2)

section \<open>Integers and booleans\<close>

text \<open>
  In Python a comparison, a truth test and a negation give a \<open>bool\<close>, which counts as 0 or 1 in arithmetic
  and in further comparisons.  Here is the same reference semantics with the two kinds of values kept
  apart; the one over integers is its image.
\<close>

datatype py_value = PInt int | PBool bool

primrec as_int :: "py_value \<Rightarrow> int" where
  "as_int (PInt x) = x"
| "as_int (PBool b) = of_bool b"

definition pv_result :: "inst_kind \<Rightarrow> (value_id \<rightharpoonup> py_value) \<Rightarrow> (local_id \<rightharpoonup> py_value) \<Rightarrow> py_value option" where
  "pv_result k vals locs =
     (case k of
        Const c \<Rightarrow> (case c of CInt v \<Rightarrow> Some (PInt v) | _ \<Rightarrow> None)
      | LoadLocal s \<Rightarrow> locs s
      | StoreLocal s v \<Rightarrow> vals v
      | BinaryOp op a b \<Rightarrow>
          Option.bind (vals a) (\<lambda>x. Option.bind (vals b) (\<lambda>y. map_option PInt (py_binary op (as_int x) (as_int y))))
      | UnaryOp op v \<Rightarrow>
          map_option (\<lambda>x. PInt (case op of Neg \<Rightarrow> - as_int x | Pos \<Rightarrow> as_int x | Invert \<Rightarrow> - as_int x - 1)) (vals v)
      | Compare op a b \<Rightarrow> Option.bind (vals a) (\<lambda>x. map_option (\<lambda>y. PBool (py_compare op (as_int x) (as_int y))) (vals b))
      | BoolTest v \<Rightarrow> map_option (\<lambda>x. PBool (as_int x \<noteq> 0)) (vals v)
      | NotOp v \<Rightarrow> map_option (\<lambda>x. PBool (as_int x = 0)) (vals v)
      | _ \<Rightarrow> None)"

definition pv_store :: "inst_kind \<Rightarrow> (value_id \<rightharpoonup> py_value) \<Rightarrow> (local_id \<rightharpoonup> py_value) \<Rightarrow> local_id \<rightharpoonup> py_value" where
  "pv_store k vals locs = (case k of StoreLocal s v \<Rightarrow> locs(s := vals v) | _ \<Rightarrow> locs)"

fun pv_block_run ::
  "inst list \<Rightarrow> (value_id \<rightharpoonup> py_value) \<Rightarrow> (local_id \<rightharpoonup> py_value) \<Rightarrow> ((value_id \<rightharpoonup> py_value) \<times> (local_id \<rightharpoonup> py_value)) option" where
  "pv_block_run [] vals locs = Some (vals, locs)"
| "pv_block_run (i # is) vals locs =
     (case pv_result (kind i) vals locs of
        None \<Rightarrow> None
      | Some r \<Rightarrow> pv_block_run is (vals(result i \<mapsto> r)) (pv_store (kind i) vals locs))"

definition ints :: "('k \<rightharpoonup> py_value) \<Rightarrow> 'k \<rightharpoonup> int" where
  "ints vals = (\<lambda>v. map_option as_int (vals v))"

fun pv_function_run ::
  "ir_function \<Rightarrow> nat \<Rightarrow> block_id \<Rightarrow> (value_id \<rightharpoonup> py_value) \<Rightarrow> (local_id \<rightharpoonup> py_value) \<Rightarrow> py_value option" where
  "pv_function_run f 0 b vals locs = None"
| "pv_function_run f (Suc n) b vals locs =
     Option.bind (block_by_id f b) (\<lambda>blk.
     Option.bind (pv_block_run (insts blk) vals locs) (\<lambda>(vals, locs).
       case term_of blk of
         Return v \<Rightarrow> vals v
       | t \<Rightarrow> Option.bind (py_next t (ints vals)) (\<lambda>b. pv_function_run f n b vals locs)))"

lemma ints_simps [simp]: "ints (vals(v \<mapsto> r)) = (ints vals)(v \<mapsto> as_int r)" "ints Map.empty = Map.empty"
  "ints (\<lambda>v. map_option PInt (m v)) = m"
  by (auto simp: ints_def fun_eq_iff option.map_comp comp_def option.map_ident)

lemma pv_result_ints: "map_option as_int (pv_result k vals locs) = py_result k (ints vals) (ints locs)"
proof (cases k)
  case (BinaryOp op a b)
  then show ?thesis by (cases "vals a"; cases "vals b") (auto simp: pv_result_def py_result_def ints_def option.map_comp comp_def option.map_ident)
next
  case (Compare op a b)
  then show ?thesis by (cases "vals a"; cases "vals b") (auto simp: pv_result_def py_result_def ints_def)
qed (auto simp: pv_result_def py_result_def ints_def option.map_comp comp_def split: py_const.splits)

lemma pv_store_ints: "ints (pv_store k vals locs) = py_store k (ints vals) (ints locs)"
  by (cases k) (auto simp: pv_store_def py_store_def ints_def)

lemma pv_block_run_ints:
  "pv_block_run is vals locs = Some (vals', locs') \<Longrightarrow> py_block_run is (ints vals) (ints locs) = Some (ints vals', ints locs')"
proof (induction "is" arbitrary: vals locs)
  case (Cons i "is")
  then obtain r where r: "pv_result (kind i) vals locs = Some r" by (auto split: option.splits)
  then have "py_result (kind i) (ints vals) (ints locs) = Some (as_int r)" using pv_result_ints [of "kind i" vals locs] by simp
  moreover have "pv_block_run is (vals(result i \<mapsto> r)) (pv_store (kind i) vals locs) = Some (vals', locs')"
    using Cons.prems r by simp
  from Cons.IH [OF this] have
    "py_block_run is ((ints vals)(result i \<mapsto> as_int r)) (py_store (kind i) (ints vals) (ints locs)) = Some (ints vals', ints locs')"
    unfolding ints_simps pv_store_ints .
  ultimately show ?case by simp
qed simp

lemma pv_function_run_ints:
  "pv_function_run f n b vals locs = Some r \<Longrightarrow> py_function_run f n b (ints vals) (ints locs) = Some (as_int r)"
proof (induction f n b vals locs rule: pv_function_run.induct)
  case (2 f n b vals locs)
  then obtain blk vals' locs' where blk: "block_by_id f b = Some blk" "pv_block_run (insts blk) vals locs = Some (vals', locs')"
    by (auto simp: bind_eq_Some_conv)
  then show ?case
    using 2 pv_block_run_ints [OF blk(2)]
    by (cases "term_of blk") (auto simp: bind_eq_Some_conv, auto simp: ints_def)
qed simp

section \<open>Properties\<close>


lemma sum_python_values:
  "pv_function_run sum_function 9 0 Map.empty (\<lambda>s. map_option PInt ([0 \<mapsto> 3] s)) = Some (PInt 3)"
  by (simp add: sum_function_def python_simps pv_result_def pv_store_def ints_def eval_nat_numeral)


text \<open>
  C37. A read after a store on another branch skips the argument.  Whether a local has an unboxed copy is
  one flag for all blocks, set in the order of the text.  The store in block 1 sets it, so block 2 reads
  the unboxed variable of \<open>x\<close>.  With \<open>c\<close> equal to zero, control goes from block 0 straight to block 2:
  Python returns the argument \<open>x\<close>, and the compiled function boxes and returns whatever the variable
  holds that no code has assigned.
\<close>
theorem conditional_store_skips_local:
  assumes "clif_documented m" "argv e 1 = tag_small_int 0" "m_const_int m (vars e 2) \<noteq> 0"
  shows "\<exists>cbs. compile_function branch_function branch_region = Inr (Some cbs) \<and>
    py_function_run branch_function 2 0 Map.empty [0 \<mapsto> x, 1 \<mapsto> 0] = Some x \<and>
    run_blocks m (\<lambda>_. True) cbs 2 0 e = Some (Returned (m_const_int m (vars e 2)))"
proof -
  note d = clif_documentedD [OF assms(1)]
  show ?thesis
    unfolding compile_function_def branch_ranges branch_python
    using assms(2, 3)
    by (simp add: branch_function_def one_function_def branch_region_def control_simps numeral_steps)
      (simp add: numeral_2_eq_2 d put_def flag_def i64_relation_def then_run_def Let_def tag_small_int_def TAG_INT_BIT_def)
qed

theorem conditional_store_skips_local_witness:
  "\<exists>cbs. compile_function branch_function branch_region = Inr (Some cbs) \<and>
     py_function_run branch_function 2 0 Map.empty [0 \<mapsto> 5, 1 \<mapsto> 0] = Some 5 \<and>
     run_blocks tagging_machine (\<lambda>_. True) cbs 2 0 (argument_env [tag_small_int 5, tag_small_int 0]) = Some (Returned (tag_small_int 0))"
proof -
  let ?e = "argument_env [tag_small_int 5, tag_small_int 0]"
  have "argv ?e 1 = tag_small_int 0" by (simp add: argument_env_def)
  from conditional_store_skips_local [OF tagging_machine_ok(1) this tagging_machine_ok(2), of 5] show ?thesis
    by (simp add: argument_env_def) (simp add: tagging_machine_def)
qed

end
