(* ===== verification/Type_Infer.thy ===== *)
theory Type_Infer
  imports Ir_Operands
begin

text \<open>
  Local type inference, \<^verbatim>\<open>pon-codegen/src/infer.rs\<close>, with the annotation records of
  \<^verbatim>\<open>pon-codegen/src/annotations.rs\<close> it is seeded from.
\<close>

section \<open>Annotations\<close>

datatype annotation_source = Parameter | AnnAssign

record local_annotation =
  slot :: local_id
  ann_ty :: ty
  source :: annotation_source

record function_annotations =
  ann_name :: string
  ann_locals :: "local_annotation list"
  return_type :: "ty option"

type_synonym module_annotations = "function_annotations list"

definition annotation_for :: "module_annotations \<Rightarrow> nat \<Rightarrow> function_annotations option" where
  "annotation_for ms i = (if i < length ms then Some (ms ! i) else None)"

section \<open>Types of instructions\<close>

definition const_type :: "py_const \<Rightarrow> ty" where
  "const_type c = (case c of CInt _ \<Rightarrow> TyIntI64 | CFloat _ \<Rightarrow> TyFloat | CBool _ \<Rightarrow> TyBool | CStr _ \<Rightarrow> TyStr | _ \<Rightarrow> TyObject)"

definition local_type :: "ty list \<Rightarrow> local_id \<Rightarrow> ty" where
  "local_type locals l = (if l < length locals then locals ! l else TyObject)"

definition store_local_type :: "ty list \<Rightarrow> local_id \<Rightarrow> ty \<Rightarrow> ty list" where
  "store_local_type locals l t = (if l < length locals then locals[l := ty_join (locals ! l) t] else locals)"

definition value_type :: "(value_id \<rightharpoonup> ty) \<Rightarrow> value_id \<Rightarrow> ty" where
  "value_type values v = (case values v of None \<Rightarrow> TyObject | Some t \<Rightarrow> t)"

definition numeric :: "ty \<Rightarrow> bool" where
  "numeric t \<longleftrightarrow> t = TyIntI64 \<or> t = TyFloat"

definition arithmetic_type :: "bin_op \<Rightarrow> ty \<Rightarrow> ty \<Rightarrow> ty" where
  "arithmetic_type op lhs rhs =
     (if op \<in> {Add, Sub, Mul, FloorDiv, Mod} \<and> lhs = TyIntI64 \<and> rhs = TyIntI64 then TyIntI64
      else if op \<in> {Add, Sub, Mul, Div, FloorDiv, Mod} \<and> numeric lhs \<and> numeric rhs \<and> (lhs = TyFloat \<or> rhs = TyFloat)
        then TyFloat
      else TyObject)"

definition unary_type :: "un_op \<Rightarrow> ty \<Rightarrow> ty" where
  "unary_type op t =
     (if (op = Neg \<or> op = Pos) \<and> t = TyIntI64 then TyIntI64
      else if (op = Neg \<or> op = Pos) \<and> t = TyFloat then TyFloat
      else TyObject)"

definition static_bound :: "ty \<Rightarrow> ty" where
  "static_bound t = (if t = TyIntI64 then TyInt else t)"

definition write_inferred_type :: "ty \<Rightarrow> inst \<Rightarrow> inst" where
  "write_inferred_type t i =
     (if t = TyBottom then i
      else let i1 = i\<lparr>inferred_type := ty_join (inferred_type i) t\<rparr>
           in if static_type i1 = TyObject then i1\<lparr>static_type := static_bound t\<rparr> else i1)"

section \<open>The pass\<close>

record infer_state =
  local_types :: "ty list"
  value_types :: "value_id \<rightharpoonup> ty"
  value_names :: "value_id \<rightharpoonup> string"
  range_values :: "value_id set"
  range_iters :: "value_id set"

definition name_result :: "string list \<Rightarrow> value_id \<Rightarrow> name_id \<Rightarrow> infer_state \<Rightarrow> infer_state" where
  "name_result nms r n st =
     (if n < length nms then st\<lparr>value_names := (value_names st)(r \<mapsto> nms ! n)\<rparr> else st)"

definition call_type :: "value_id \<Rightarrow> value_id \<Rightarrow> value_id list \<Rightarrow> infer_state \<Rightarrow> ty \<times> infer_state" where
  "call_type r callee args st =
     (if value_names st callee = Some ''len'' \<and> length args = 1 then (TyIntI64, st)
      else if value_names st callee = Some ''range'' \<and> 1 \<le> length args \<and> length args \<le> 3 \<and>
              list_all (\<lambda>a. value_type (value_types st) a = TyIntI64) args
        then (TyObject, st\<lparr>range_values := insert r (range_values st)\<rparr>)
      else (TyObject, st))"

definition infer_inst :: "string list \<Rightarrow> value_id \<Rightarrow> inst_kind \<Rightarrow> infer_state \<Rightarrow> ty \<times> infer_state" where
  "infer_inst nms r k st =
     (case k of
        Const c \<Rightarrow> (const_type c, st)
      | LoadLocal l \<Rightarrow> (local_type (local_types st) l, st)
      | StoreLocal l v \<Rightarrow>
          (let t = value_type (value_types st) v in (t, st\<lparr>local_types := store_local_type (local_types st) l t\<rparr>))
      | BinaryOp op lhs rhs \<Rightarrow> (arithmetic_type op (value_type (value_types st) lhs) (value_type (value_types st) rhs), st)
      | InplaceOp op lhs rhs \<Rightarrow> (arithmetic_type op (value_type (value_types st) lhs) (value_type (value_types st) rhs), st)
      | UnaryOp op v \<Rightarrow> (unary_type op (value_type (value_types st) v), st)
      | Compare _ _ _ \<Rightarrow> (TyObject, st)
      | BoolTest _ \<Rightarrow> (TyBool, st)
      | NotOp _ \<Rightarrow> (TyBool, st)
      | Contains _ _ _ \<Rightarrow> (TyBool, st)
      | Is _ _ _ \<Rightarrow> (TyBool, st)
      | MatchSequence _ \<Rightarrow> (TyBool, st)
      | MatchMapping _ \<Rightarrow> (TyBool, st)
      | MatchLenGe _ _ _ \<Rightarrow> (TyBool, st)
      | LoadBuiltin n \<Rightarrow> (TyObject, name_result nms r n st)
      | LoadGlobal n \<Rightarrow> (TyObject, name_result nms r n st)
      | LoadName n \<Rightarrow> (TyObject, name_result nms r n st)
      | Call callee args \<Rightarrow> call_type r callee args st
      | GetIter v \<Rightarrow>
          (TyObject, if v \<in> range_values st then st\<lparr>range_iters := insert r (range_iters st)\<rparr> else st)
      | ForNext v \<Rightarrow> (if v \<in> range_iters st then TyIntI64 else TyObject, st)
      | GetLen _ \<Rightarrow> (TyIntI64, st)
      | _ \<Rightarrow> (TyObject, st))"

definition infer_step :: "string list \<Rightarrow> inst \<Rightarrow> infer_state \<Rightarrow> inst \<times> infer_state" where
  "infer_step nms i st =
     (let (t, st1) = infer_inst nms (result i) (kind i) st;
          i1 = write_inferred_type t i
      in (i1, st1\<lparr>value_types := (value_types st1)(result i \<mapsto> inferred_type i1)\<rparr>))"

fun infer_insts :: "string list \<Rightarrow> inst list \<Rightarrow> infer_state \<Rightarrow> inst list \<times> infer_state" where
  "infer_insts nms [] st = ([], st)"
| "infer_insts nms (i # is) st =
     (let (i1, st1) = infer_step nms i st; (is1, st2) = infer_insts nms is st1 in (i1 # is1, st2))"

fun infer_blocks :: "string list \<Rightarrow> block list \<Rightarrow> infer_state \<Rightarrow> block list \<times> infer_state" where
  "infer_blocks nms [] st = ([], st)"
| "infer_blocks nms (b # bs) st =
     (let (is1, st1) = infer_insts nms (insts b) st; (bs1, st2) = infer_blocks nms bs st1
      in (b\<lparr>insts := is1\<rparr> # bs1, st2))"

definition collect_return_value :: "terminator \<Rightarrow> value_id list" where
  "collect_return_value t = (case t of Return v \<Rightarrow> [v] | _ \<Rightarrow> [])"

text \<open>The first instruction that produces the value, in layout order, is the one that is written.\<close>

fun write_in_insts :: "value_id \<Rightarrow> ty \<Rightarrow> inst list \<Rightarrow> inst list option" where
  "write_in_insts v t [] = None"
| "write_in_insts v t (i # is) =
     (if result i = v then Some (write_inferred_type t i # is) else map_option (Cons i) (write_in_insts v t is))"

fun write_in_blocks :: "value_id \<Rightarrow> ty \<Rightarrow> block list \<Rightarrow> block list" where
  "write_in_blocks v t [] = []"
| "write_in_blocks v t (b # bs) =
     (case write_in_insts v t (insts b) of
        Some is1 \<Rightarrow> b\<lparr>insts := is1\<rparr> # bs
      | None \<Rightarrow> b # write_in_blocks v t bs)"

definition write_value_type :: "value_id \<Rightarrow> ty \<Rightarrow> ir_function \<Rightarrow> ir_function" where
  "write_value_type v t f = f\<lparr>blocks := write_in_blocks v t (blocks f)\<rparr>"

definition seed_local :: "local_annotation \<Rightarrow> ty list \<Rightarrow> ty list" where
  "seed_local a locals =
     (if slot a < length locals
      then locals[slot a := (case source a of Parameter \<Rightarrow> ann_ty a | AnnAssign \<Rightarrow> ty_join (locals ! slot a) (ann_ty a))]
      else locals)"

definition seed_locals :: "function_annotations option \<Rightarrow> ty list \<Rightarrow> ty list" where
  "seed_locals ann locals = (case ann of None \<Rightarrow> locals | Some a \<Rightarrow> fold seed_local (ann_locals a) locals)"

definition seed_speculative_parameters :: "nat \<Rightarrow> ty list \<Rightarrow> ty list" where
  "seed_speculative_parameters n locals =
     map (\<lambda>t. if t = TyBottom then TyIntI64 else t) (take n locals) @ drop n locals"

definition infer_function_types :: "string list \<Rightarrow> function_annotations option \<Rightarrow> ir_function \<Rightarrow> ir_function" where
  "infer_function_types nms ann f =
     (let locals = seed_speculative_parameters (arity f) (seed_locals ann (replicate (n_locals f) TyBottom));
          st = \<lparr>local_types = locals, value_types = Map.empty, value_names = Map.empty, range_values = {}, range_iters = {}\<rparr>;
          f1 = f\<lparr>blocks := fst (infer_blocks nms (blocks f) st)\<rparr>;
          returns = concat (map (\<lambda>b. collect_return_value (term_of b)) (blocks f))
      in case Option.bind ann return_type of
           None \<Rightarrow> f1
         | Some t \<Rightarrow> fold (\<lambda>v. write_value_type v t) returns f1)"

definition infer_module_types :: "module_annotations \<Rightarrow> ir_module \<Rightarrow> ir_module" where
  "infer_module_types ms m =
     m\<lparr>fns := map (\<lambda>(index, f).
          infer_function_types (names m)
            (case annotation_for ms index of
               Some a \<Rightarrow> if ann_name a = fn_name f then Some a else None | None \<Rightarrow> None) f)
        (enumerate 0 (fns m))\<rparr>"

section \<open>The pass writes metadata only, and only upwards\<close>

definition refines_inst :: "inst \<Rightarrow> inst \<Rightarrow> bool" where
  "refines_inst i j \<longleftrightarrow>
     result j = result i \<and> kind j = kind i \<and> feedback_slot j = feedback_slot i \<and> line j = line i \<and>
     inferred_type i \<le> inferred_type j \<and> (static_type j = static_type i \<or> static_type i = TyObject)"

definition refines_block :: "block \<Rightarrow> block \<Rightarrow> bool" where
  "refines_block a b \<longleftrightarrow> blk_id b = blk_id a \<and> term_of b = term_of a \<and> list_all2 refines_inst (insts a) (insts b)"

definition refines_function :: "ir_function \<Rightarrow> ir_function \<Rightarrow> bool" where
  "refines_function f g \<longleftrightarrow> g\<lparr>blocks := []\<rparr> = f\<lparr>blocks := []\<rparr> \<and> list_all2 refines_block (blocks f) (blocks g)"

lemma refines_inst_refl [simp]: "refines_inst i i"
  by (simp add: refines_inst_def)

lemma refines_inst_trans: "refines_inst i j \<Longrightarrow> refines_inst j k \<Longrightarrow> refines_inst i k"
  by (auto simp: refines_inst_def intro: order_trans)

lemma refines_write: "refines_inst i (write_inferred_type t i)"
  by (simp add: refines_inst_def write_inferred_type_def Let_def sup_ty_def [symmetric])

lemma refines_block_refl [simp]: "refines_block b b"
  by (simp add: refines_block_def list_all2_refl)

lemma refines_block_trans: "refines_block a b \<Longrightarrow> refines_block b c \<Longrightarrow> refines_block a c"
  by (auto simp: refines_block_def intro: list_all2_trans [rotated 2] refines_inst_trans)

lemma refines_function_trans: "refines_function f g \<Longrightarrow> refines_function g h \<Longrightarrow> refines_function f h"
  by (auto simp: refines_function_def intro: list_all2_trans [rotated 2] refines_block_trans)

lemma infer_insts_refines: "list_all2 refines_inst is (fst (infer_insts nms is st))"
  by (induction "is" arbitrary: st)
    (auto simp: infer_step_def Let_def case_prod_beta refines_write split: prod.splits)

lemma infer_blocks_refines: "list_all2 refines_block bs (fst (infer_blocks nms bs st))"
  by (induction bs arbitrary: st)
    (auto simp: Let_def case_prod_beta refines_block_def infer_insts_refines split: prod.splits)

lemma write_in_insts_refines: "write_in_insts v t is = Some js \<Longrightarrow> list_all2 refines_inst is js"
  by (induction "is" arbitrary: js) (auto simp: refines_write list_all2_refl split: if_splits)

lemma write_in_blocks_refines: "list_all2 refines_block bs (write_in_blocks v t bs)"
  by (induction bs) (auto simp: refines_block_def list_all2_refl write_in_insts_refines split: option.splits)

lemma write_value_refines: "refines_function f (write_value_type v t f)"
  by (simp add: refines_function_def write_value_type_def write_in_blocks_refines)

lemma write_values_refine: "refines_function f (fold (\<lambda>v. write_value_type v t) vs f)"
proof (induction vs arbitrary: f)
  case Nil
  then show ?case by (simp add: refines_function_def list_all2_refl)
next
  case (Cons v vs)
  show ?case using refines_function_trans [OF write_value_refines Cons.IH] by simp
qed

lemma infer_function_refines: "refines_function f (infer_function_types nms ann f)"
proof -
  have "refines_function f (f\<lparr>blocks := fst (infer_blocks nms (blocks f) st)\<rparr>)" for st
    by (simp add: refines_function_def infer_blocks_refines)
  then show ?thesis
    using refines_function_trans [OF _ write_values_refine] by (auto simp: infer_function_types_def Let_def split: option.splits)
qed

text \<open>
  C29. Type inference is a metadata pass: whatever the annotations, the module it returns has the same
  functions, blocks, instructions, operands, terminators, feedback slots and source lines; the
  inferred type of an instruction only rises in the lattice, and a static type that was already
  sharper than \<open>Object\<close> is kept.
\<close>
theorem infer_only_refines:
  "(infer_module_types ms m)\<lparr>fns := []\<rparr> = m\<lparr>fns := []\<rparr> \<and>
   list_all2 refines_function (fns m) (fns (infer_module_types ms m))"
  by (auto simp: infer_module_types_def list_all2_conv_all_nth nth_enumerate_eq infer_function_refines split: option.splits)

section \<open>Static types of speculative parameters\<close>

definition identity_function :: ir_function where
  "identity_function =
     \<lparr>fn_name = ''identity'', arity = 1, is_coroutine = False, is_generator = False, is_async_generator = False,
      params = \<lparr>param_names = [''x''], positional_only_count = 0, positional_count = 1, keyword_only_count = 0,
                vararg_name = None, kwarg_name = None\<rparr>,
      blocks = [\<lparr>blk_id = 0, insts = [inst_new 0 (LoadLocal 0)], term_of = Return 0\<rparr>], n_locals = 1\<rparr>"

text \<open>
  The static type is documented as a sound upper bound of the value.  An unannotated parameter is
  speculatively an \<open>i64\<close>, and the pass writes that speculation into the static type too: the load of
  the parameter of the identity function gets the static type \<open>Int\<close>, whatever callers pass.
\<close>
theorem parameter_static_type_speculative:
  "map (map static_type \<circ> insts) (blocks (infer_function_types [] None identity_function)) = [[TyInt]]"
  by (simp add: infer_function_types_def identity_function_def seed_locals_def seed_speculative_parameters_def infer_step_def
      infer_inst_def local_type_def write_inferred_type_def inst_new_def static_bound_def Let_def)

end
