(* ===== verification/Feedback_Cell.thy ===== *)
theory Feedback_Cell
  imports Pon_Prelude
begin

text \<open>
  The feedback cells of \<^verbatim>\<open>pon-runtime/src/feedback.rs\<close>: operand-shape profiles and inline-cache
  records.  The first part gives every operation its sequential meaning.  The second part splits
  the publication and the validated read of an inline-cache record into their atomic accesses and
  lets any number of threads interleave them.  Accesses take effect in one order that all threads
  agree on, which the acquire and release fences of the source are there to provide.
\<close>

unbundle bit_operations_syntax

section \<open>Cells\<close>

definition RHS_SHIFT :: nat where "RHS_SHIFT = 8"
definition COUNT_SHIFT :: nat where "COUNT_SHIFT = 16"
definition STATE_SHIFT :: nat where "STATE_SHIFT = 24"
definition COUNT_MAX :: u8 where "COUNT_MAX = - 1"
definition STATE_EMPTY :: u8 where "STATE_EMPTY = 0"
definition STATE_MONO :: u8 where "STATE_MONO = 1"
definition STATE_POLY :: u8 where "STATE_POLY = 2"
definition STATE_MEGA :: u8 where "STATE_MEGA = 3"
definition IC_WRITING :: u32 where "IC_WRITING = - 1"
definition IC_CALL_PRESENT :: u32 where "IC_CALL_PRESENT = 1"
definition ATTR_KIND_SHIFT :: nat where "ATTR_KIND_SHIFT = 32"

text \<open>The version every freshly created type starts from (\<^verbatim>\<open>object.rs\<close>).\<close>

definition VERSION_TAG_SEED :: u32 where "VERSION_TAG_SEED = 1"

datatype type_tag = TagOther | TagInt | TagIntI64 | TagFloat | TagBool | TagStr

fun tag_byte :: "type_tag \<Rightarrow> u8" where
  "tag_byte TagOther = 0"
| "tag_byte TagInt = 1"
| "tag_byte TagIntI64 = 2"
| "tag_byte TagFloat = 3"
| "tag_byte TagBool = 4"
| "tag_byte TagStr = 5"

definition tag_from_byte :: "u8 \<Rightarrow> type_tag option" where
  "tag_from_byte v =
     (if v = 0 then Some TagOther else if v = 1 then Some TagInt else if v = 2 then Some TagIntI64
      else if v = 3 then Some TagFloat else if v = 4 then Some TagBool else if v = 5 then Some TagStr else None)"

record feedback_cell =
  packed :: u32
  aux :: u32
  payload :: u64
  identity :: u64
  extra :: u64

definition FEEDBACK_CELL_EMPTY :: feedback_cell where
  "FEEDBACK_CELL_EMPTY = \<lparr>packed = 0, aux = 0, payload = 0, identity = 0, extra = 0\<rparr>"

section \<open>Operand shapes\<close>

definition pack :: "type_tag \<Rightarrow> type_tag \<Rightarrow> u8 \<Rightarrow> u8 \<Rightarrow> u32" where
  "pack lhs rhs count state =
     ucast (tag_byte lhs) OR push_bit RHS_SHIFT (ucast (tag_byte rhs))
       OR push_bit COUNT_SHIFT (ucast count) OR push_bit STATE_SHIFT (ucast state)"

definition lhs_of :: "u32 \<Rightarrow> u8" where
  "lhs_of p = ucast (p AND 0xff)"

definition rhs_of :: "u32 \<Rightarrow> u8" where
  "rhs_of p = ucast (drop_bit RHS_SHIFT p AND 0xff)"

definition count_of :: "u32 \<Rightarrow> u8" where
  "count_of p = ucast (drop_bit COUNT_SHIFT p AND 0xff)"

definition state_of :: "u32 \<Rightarrow> u8" where
  "state_of p = ucast (drop_bit STATE_SHIFT p AND 0xff)"

definition saturating_succ :: "u8 \<Rightarrow> u8" where
  "saturating_succ c = (if c = - 1 then - 1 else c + 1)"

definition next_state :: "u32 \<Rightarrow> type_tag \<Rightarrow> type_tag \<Rightarrow> u32" where
  "next_state current lhs rhs =
     (let state = state_of current; count = count_of current;
          same = (lhs_of current = tag_byte lhs \<and> rhs_of current = tag_byte rhs)
      in if state = STATE_EMPTY then pack lhs rhs 1 STATE_MONO
         else if state = STATE_MONO then
           (if same then pack lhs rhs (saturating_succ count) STATE_MONO
            else pack lhs rhs (saturating_succ count) STATE_POLY)
         else if state = STATE_POLY then
           (if same then pack lhs rhs (saturating_succ count) STATE_POLY
            else pack lhs rhs COUNT_MAX STATE_MEGA)
         else if state = STATE_MEGA then current
         else pack lhs rhs 1 STATE_MONO)"

definition record_shape :: "type_tag \<times> type_tag \<Rightarrow> feedback_cell \<Rightarrow> feedback_cell" where
  "record_shape shape c =
     (let next = next_state (packed c) (fst shape) (snd shape)
      in if next \<noteq> packed c then c\<lparr>packed := next\<rparr> else c)"

definition speculate :: "feedback_cell \<Rightarrow> (type_tag \<times> type_tag) option" where
  "speculate c =
     (if state_of (packed c) \<noteq> STATE_MONO then None
      else case tag_from_byte (lhs_of (packed c)) of
        None \<Rightarrow> None
      | Some lhs \<Rightarrow> map_option (Pair lhs) (tag_from_byte (rhs_of (packed c))))"

section \<open>Inline-cache records\<close>

record ic_words =
  ic_version :: u32
  ic_aux :: u32
  ic_payload :: u64
  ic_identity :: u64
  ic_extra :: u64

datatype attr_cache_kind = Slot | DictOffset | Descriptor

fun kind_byte :: "attr_cache_kind \<Rightarrow> u8" where
  "kind_byte Slot = 1"
| "kind_byte DictOffset = 2"
| "kind_byte Descriptor = 3"

definition kind_from_byte :: "u8 \<Rightarrow> attr_cache_kind option" where
  "kind_from_byte v =
     (if v = 1 then Some Slot else if v = 2 then Some DictOffset else if v = 3 then Some Descriptor else None)"

record attr_ic =
  type_version :: u32
  attr_kind :: attr_cache_kind
  attr_offset :: u32
  attr_descriptor :: u64

record global_ic =
  dict_version :: u32
  builtins_version :: u32
  value_ptr :: u64

record call_ic =
  callee_identity :: u64

definition ic_snapshot :: "feedback_cell \<Rightarrow> ic_words option" where
  "ic_snapshot c =
     (let v1 = packed c in
      if v1 = 0 \<or> v1 = IC_WRITING then None
      else Some \<lparr>ic_version = v1, ic_aux = aux c, ic_payload = payload c, ic_identity = identity c, ic_extra = extra c\<rparr>)"

definition ic_publish :: "ic_words \<Rightarrow> feedback_cell \<Rightarrow> feedback_cell" where
  "ic_publish w c =
     (if packed c = IC_WRITING then c
      else \<lparr>packed = ic_version w, aux = ic_aux w, payload = ic_payload w, identity = ic_identity w, extra = ic_extra w\<rparr>)"

definition attr_of_words :: "ic_words \<Rightarrow> attr_ic option" where
  "attr_of_words w =
     map_option (\<lambda>k. \<lparr>type_version = ic_version w, attr_kind = k, attr_offset = ucast (ic_payload w), attr_descriptor = ic_extra w\<rparr>)
       (kind_from_byte (ucast (drop_bit ATTR_KIND_SHIFT (ic_payload w))))"

definition attr_check :: "u64 \<Rightarrow> u32 \<Rightarrow> ic_words \<Rightarrow> attr_ic option" where
  "attr_check type_identity live_type_version w =
     (if ic_identity w \<noteq> type_identity \<or> ic_version w \<noteq> live_type_version then None else attr_of_words w)"

definition attr_hit :: "u64 \<Rightarrow> u32 \<Rightarrow> feedback_cell \<Rightarrow> attr_ic option" where
  "attr_hit type_identity live_type_version c = Option.bind (ic_snapshot c) (attr_check type_identity live_type_version)"

definition attr_words :: "u64 \<Rightarrow> attr_ic \<Rightarrow> ic_words" where
  "attr_words type_identity ic =
     \<lparr>ic_version = type_version ic, ic_aux = 0,
      ic_payload = ucast (attr_offset ic) OR push_bit ATTR_KIND_SHIFT (ucast (kind_byte (attr_kind ic))),
      ic_identity = type_identity, ic_extra = attr_descriptor ic\<rparr>"

definition attr_accepted :: "u64 \<Rightarrow> attr_ic \<Rightarrow> bool" where
  "attr_accepted type_identity ic \<longleftrightarrow>
     \<not> (type_identity = 0 \<or> type_version ic = 0 \<or> type_version ic = IC_WRITING)"

definition record_attr :: "u64 \<times> attr_ic \<Rightarrow> feedback_cell \<Rightarrow> feedback_cell" where
  "record_attr r c = (if attr_accepted (fst r) (snd r) then ic_publish (attr_words (fst r) (snd r)) c else c)"

definition attr_snapshot :: "feedback_cell \<Rightarrow> (u64 \<times> attr_ic) option" where
  "attr_snapshot c = Option.bind (ic_snapshot c) (\<lambda>w. map_option (Pair (ic_identity w)) (attr_of_words w))"

definition global_of_words :: "ic_words \<Rightarrow> global_ic" where
  "global_of_words w = \<lparr>dict_version = ic_version w, builtins_version = ic_aux w, value_ptr = ic_payload w\<rparr>"

definition global_hit :: "u64 \<Rightarrow> u32 \<Rightarrow> u32 \<Rightarrow> feedback_cell \<Rightarrow> global_ic option" where
  "global_hit dict_identity live_dict_version live_builtins_version c =
     Option.bind (ic_snapshot c) (\<lambda>w.
       if ic_identity w \<noteq> dict_identity \<or> ic_version w \<noteq> live_dict_version then None
       else if ic_aux w \<noteq> 0 \<and> ic_aux w \<noteq> live_builtins_version then None
       else Some (global_of_words w))"

definition global_accepted :: "u64 \<Rightarrow> global_ic \<Rightarrow> bool" where
  "global_accepted dict_identity ic \<longleftrightarrow>
     \<not> (dict_identity = 0 \<or> dict_version ic = 0 \<or> dict_version ic = IC_WRITING \<or> builtins_version ic = IC_WRITING)"

definition global_words :: "u64 \<Rightarrow> global_ic \<Rightarrow> ic_words" where
  "global_words dict_identity ic =
     \<lparr>ic_version = dict_version ic, ic_aux = builtins_version ic, ic_payload = value_ptr ic,
      ic_identity = dict_identity, ic_extra = 0\<rparr>"

definition record_global :: "u64 \<times> global_ic \<Rightarrow> feedback_cell \<Rightarrow> feedback_cell" where
  "record_global r c = (if global_accepted (fst r) (snd r) then ic_publish (global_words (fst r) (snd r)) c else c)"

definition global_snapshot :: "feedback_cell \<Rightarrow> (u64 \<times> global_ic) option" where
  "global_snapshot c = map_option (\<lambda>w. (ic_identity w, global_of_words w)) (ic_snapshot c)"

definition call_words :: "u64 \<Rightarrow> ic_words" where
  "call_words callee = \<lparr>ic_version = IC_CALL_PRESENT, ic_aux = 0, ic_payload = 0, ic_identity = callee, ic_extra = 0\<rparr>"

definition call_hit :: "u64 \<Rightarrow> feedback_cell \<Rightarrow> call_ic option" where
  "call_hit callee c =
     Option.bind (ic_snapshot c) (\<lambda>w.
       if ic_identity w = 0 \<or> ic_identity w \<noteq> callee then None else Some \<lparr>callee_identity = callee\<rparr>)"

definition record_call :: "call_ic \<Rightarrow> feedback_cell \<Rightarrow> feedback_cell" where
  "record_call ic c =
     (if callee_identity ic = 0 then c
      else case ic_snapshot c of
        None \<Rightarrow> ic_publish (call_words (callee_identity ic)) c
      | Some w \<Rightarrow>
          if ic_identity w = 0 \<or> ic_identity w = callee_identity ic then c else ic_publish (call_words 0) c)"

definition call_snapshot :: "feedback_cell \<Rightarrow> call_ic option" where
  "call_snapshot c =
     Option.bind (ic_snapshot c) (\<lambda>w. if ic_identity w = 0 then None else Some \<lparr>callee_identity = ic_identity w\<rparr>)"

section \<open>Feedback vectors\<close>

definition feedback_vec_new :: "nat \<Rightarrow> feedback_cell list" where
  "feedback_vec_new len = replicate len FEEDBACK_CELL_EMPTY"

definition feedback_vec_get :: "feedback_cell list \<Rightarrow> nat \<Rightarrow> feedback_cell option" where
  "feedback_vec_get v i = (if i < length v then Some (v ! i) else None)"

section \<open>Packed words\<close>

lemma tag_roundtrip [simp]: "tag_from_byte (tag_byte t) = Some t"
  by (cases t) (simp_all add: tag_from_byte_def)

lemma kind_roundtrip [simp]: "kind_from_byte (kind_byte k) = Some k"
  by (cases k) (simp_all add: kind_from_byte_def)

lemma tag_byte_inj [simp]: "tag_byte s = tag_byte t \<longleftrightarrow> s = t"
  by (metis tag_roundtrip option.inject)

lemma byte_mask: "(0xff :: u32) = mask 8"
  by (simp add: mask_eq_exp_minus_1)

lemma pack_fields [simp]:
  "lhs_of (pack l r c s) = tag_byte l" "rhs_of (pack l r c s) = tag_byte r"
  "count_of (pack l r c s) = c" "state_of (pack l r c s) = s"
  by (rule bit_word_eqI; auto simp: pack_def lhs_of_def rhs_of_def count_of_def state_of_def RHS_SHIFT_def COUNT_SHIFT_def
      STATE_SHIFT_def byte_mask bit_simps dest: bit_imp_le_length)+

lemma attr_payload [simp]:
  "(ucast (ucast (off :: u32) OR push_bit ATTR_KIND_SHIFT (ucast (k :: u8)) :: u64) :: u32) = off"
  "(ucast (drop_bit ATTR_KIND_SHIFT (ucast (off :: u32) OR push_bit ATTR_KIND_SHIFT (ucast (k :: u8)) :: u64)) :: u8) = k"
  by (rule bit_word_eqI; auto simp: ATTR_KIND_SHIFT_def bit_simps dest: bit_imp_le_length)+

section \<open>Sequential behaviour\<close>

lemma singleton_iff_same: "set xs = {hd xs} \<longleftrightarrow> xs \<noteq> [] \<and> (\<forall>x \<in> set xs. x = hd xs)"
  by (cases xs) auto

lemmas state_defs = STATE_EMPTY_def STATE_MONO_def STATE_POLY_def STATE_MEGA_def

lemma next_state_empty: "next_state 0 l r = pack l r 1 STATE_MONO"
  by (simp add: next_state_def state_of_def state_defs)

lemma next_state_mono:
  "next_state (pack a b n STATE_MONO) l r =
     pack l r (saturating_succ n) (if a = l \<and> b = r then STATE_MONO else STATE_POLY)"
  by (simp add: next_state_def state_defs)

definition latched :: "u32 \<Rightarrow> bool" where
  "latched p \<longleftrightarrow> state_of p = STATE_POLY \<or> state_of p = STATE_MEGA"

lemma latched_pack [simp]: "latched (pack l r n STATE_POLY)" "\<not> latched (pack l r n STATE_MONO)" "\<not> latched 0"
  by (simp_all add: latched_def state_defs) (simp add: state_of_def)

lemma next_state_latched: "latched p \<Longrightarrow> latched (next_state p l r)"
  by (auto simp: latched_def next_state_def state_defs Let_def)

text \<open>What the packed word says of the shapes observed so far.\<close>

definition shape_state :: "(type_tag \<times> type_tag) list \<Rightarrow> u32 \<Rightarrow> bool" where
  "shape_state shapes p \<longleftrightarrow>
     (if shapes = [] then p = 0
      else if \<forall>s \<in> set shapes. s = hd shapes
        then \<exists>n. p = pack (fst (hd shapes)) (snd (hd shapes)) n STATE_MONO
      else latched p)"

lemma shape_state_step:
  assumes "shape_state shapes p"
  shows "shape_state (shapes @ [(l, r)]) (next_state p l r)"
proof (cases "shapes = []")
  case True
  then show ?thesis using assms by (auto simp: shape_state_def next_state_empty)
next
  case nonempty: False
  then have first: "hd (shapes @ [(l, r)]) = hd shapes" by simp
  show ?thesis
  proof (cases "\<forall>s \<in> set shapes. s = hd shapes")
    case True
    then obtain n where p: "p = pack (fst (hd shapes)) (snd (hd shapes)) n STATE_MONO"
      using assms nonempty unfolding shape_state_def by auto
    have "(\<forall>s \<in> set (shapes @ [(l, r)]). s = hd shapes) \<longleftrightarrow> fst (hd shapes) = l \<and> snd (hd shapes) = r"
      using True by (auto simp: prod_eq_iff)
    then show ?thesis unfolding shape_state_def first p next_state_mono by auto
  next
    case False
    then have "latched p" using assms nonempty unfolding shape_state_def by simp
    with False show ?thesis unfolding shape_state_def first by (auto intro: next_state_latched)
  qed
qed

lemma packed_record_shape: "packed (record_shape s c) = next_state (packed c) (fst s) (snd s)"
  by (simp add: record_shape_def Let_def)

lemma recorded_shapes: "shape_state shapes (packed (fold record_shape shapes FEEDBACK_CELL_EMPTY))"
proof (induction shapes rule: rev_induct)
  case Nil
  then show ?case by (simp add: shape_state_def FEEDBACK_CELL_EMPTY_def)
next
  case (snoc s shapes)
  then show ?case
    using shape_state_step [OF snoc.IH, of "fst s" "snd s"] by (simp add: packed_record_shape)
qed

text \<open>
  After any sequence of observed operand shapes, the cell offers a shape to speculate on
  exactly when at least one shape was observed and all of them were that shape; the saturating
  counter, the polymorphic and the megamorphic states never bring a shape back.
\<close>
theorem speculate_monomorphic:
  "speculate (fold record_shape shapes FEEDBACK_CELL_EMPTY) =
     (if set shapes = {hd shapes} then Some (hd shapes) else None)"
proof (cases "shapes \<noteq> [] \<and> (\<forall>s \<in> set shapes. s = hd shapes)")
  case True
  then obtain n where "packed (fold record_shape shapes FEEDBACK_CELL_EMPTY) = pack (fst (hd shapes)) (snd (hd shapes)) n STATE_MONO"
    using recorded_shapes [of shapes] by (auto simp: shape_state_def)
  then have "speculate (fold record_shape shapes FEEDBACK_CELL_EMPTY) = Some (hd shapes)" by (simp add: speculate_def)
  with True singleton_iff_same [of shapes] show ?thesis by presburger
next
  case False
  then have "state_of (packed (fold record_shape shapes FEEDBACK_CELL_EMPTY)) \<noteq> STATE_MONO"
    using recorded_shapes [of shapes] by (auto simp: shape_state_def latched_def state_defs state_of_def split: if_splits)
  then have "speculate (fold record_shape shapes FEEDBACK_CELL_EMPTY) = None" by (simp add: speculate_def)
  with False singleton_iff_same [of shapes] show ?thesis by presburger
qed

section \<open>Publication and lookup\<close>

lemma words_roundtrip [simp]: "attr_of_words (attr_words ty ic) = Some ic"
  unfolding attr_of_words_def attr_words_def ic_words.simps attr_payload kind_roundtrip by simp

definition quiet :: "feedback_cell \<Rightarrow> bool" where
  "quiet c \<longleftrightarrow> packed c \<noteq> IC_WRITING"

lemma snapshot_publish:
  "quiet c \<Longrightarrow> ic_version w \<noteq> 0 \<Longrightarrow> ic_version w \<noteq> IC_WRITING \<Longrightarrow> ic_snapshot (ic_publish w c) = Some w \<and> quiet (ic_publish w c)"
  by (simp add: quiet_def ic_snapshot_def ic_publish_def)

lemma quiet_empty: "quiet FEEDBACK_CELL_EMPTY" "ic_snapshot FEEDBACK_CELL_EMPTY = None"
  by (simp_all add: quiet_def FEEDBACK_CELL_EMPTY_def ic_snapshot_def IC_WRITING_def)

definition last_such :: "('r \<Rightarrow> bool) \<Rightarrow> 'r list \<Rightarrow> 'r option" where
  "last_such P rs = (let acc = filter P rs in if acc = [] then None else Some (last acc))"

text \<open>
  The two guarded caches share their discipline: a record that passes the guard is published, any
  other is dropped.  What the cell then holds is proved once.
\<close>

locale guarded_cache =
  fixes accepted :: "'r \<Rightarrow> bool"
    and words :: "'r \<Rightarrow> ic_words"
    and record_in :: "'r \<Rightarrow> feedback_cell \<Rightarrow> feedback_cell"
  assumes record_in_eq: "record_in r c = (if accepted r then ic_publish (words r) c else c)"
    and accepted_valid: "accepted r \<Longrightarrow> ic_version (words r) \<noteq> 0 \<and> ic_version (words r) \<noteq> IC_WRITING"
begin

lemma cache_state:
  "quiet (fold record_in rs FEEDBACK_CELL_EMPTY) \<and>
   ic_snapshot (fold record_in rs FEEDBACK_CELL_EMPTY) = map_option words (last_such accepted rs)"
proof (induction rs rule: rev_induct)
  case Nil
  then show ?case by (simp add: quiet_empty last_such_def)
next
  case (snoc r rs)
  then show ?case
    using snapshot_publish [of "fold record_in rs FEEDBACK_CELL_EMPTY" "words r"] accepted_valid [of r]
    by (cases "accepted r") (simp_all add: record_in_eq [of r] last_such_def)
qed

end

interpretation attr_cache: guarded_cache "\<lambda>r. attr_accepted (fst r) (snd r)" "\<lambda>r. attr_words (fst r) (snd r)" record_attr
  by unfold_locales (simp_all add: record_attr_def attr_accepted_def attr_words_def)

interpretation global_cache: guarded_cache "\<lambda>r. global_accepted (fst r) (snd r)" "\<lambda>r. global_words (fst r) (snd r)" record_global
  by unfold_locales (simp_all add: record_global_def global_accepted_def global_words_def)

text \<open>
  An attribute cache remembers exactly the last record it accepted (a record with a null type, a
  zero version or the reserved version is refused and changes nothing), and a lookup hits exactly
  for the type and the version of that record, returning it unchanged.
\<close>
theorem attr_cache_exact:
  "attr_hit ty version (fold record_attr rs FEEDBACK_CELL_EMPTY) =
     (case last_such (\<lambda>r. attr_accepted (fst r) (snd r)) rs of
        None \<Rightarrow> None
      | Some (t, ic) \<Rightarrow> if t = ty \<and> type_version ic = version then Some ic else None)"
  using attr_cache.cache_state [of rs]
  by (auto simp: attr_hit_def attr_check_def split: option.splits) (auto simp: attr_words_def)

lemma global_cache_exact:
  "global_hit dict version builtins (fold record_global rs FEEDBACK_CELL_EMPTY) =
     (case last_such (\<lambda>r. global_accepted (fst r) (snd r)) rs of
        None \<Rightarrow> None
      | Some (d, ic) \<Rightarrow>
          if d = dict \<and> dict_version ic = version \<and> (builtins_version ic = 0 \<or> builtins_version ic = builtins)
          then Some ic else None)"
  using global_cache.cache_state [of rs]
  by (auto simp: global_hit_def global_words_def global_of_words_def split: option.splits)

lemma call_words_identity [simp]: "ic_identity (call_words i) = i"
  by (simp add: call_words_def)

text \<open>A call cell: empty, one target, or latched megamorphic with the null identity.\<close>

definition call_view :: "u64 list \<Rightarrow> u64 option" where
  "call_view cs = (if cs = [] then None else Some (if \<forall>i \<in> set cs. i = hd cs then hd cs else 0))"

lemma call_view_snoc:
  assumes "0 \<notin> set cs" "i \<noteq> 0"
  shows "call_view (cs @ [i]) =
    (case call_view cs of None \<Rightarrow> Some i | Some j \<Rightarrow> if j = 0 \<or> j = i then Some j else Some 0)"
proof (cases "cs = []")
  case True
  then show ?thesis by (simp add: call_view_def)
next
  case False
  then have "hd cs \<noteq> 0" using assms by (metis list.set_sel(1))
  with False show ?thesis by (auto simp: call_view_def)
qed

definition observed_targets :: "call_ic list \<Rightarrow> u64 list" where
  "observed_targets ics = filter (\<lambda>i. i \<noteq> 0) (map callee_identity ics)"

lemma call_cell_state:
  "quiet (fold record_call ics FEEDBACK_CELL_EMPTY) \<and>
   ic_snapshot (fold record_call ics FEEDBACK_CELL_EMPTY) = map_option call_words (call_view (observed_targets ics))"
proof (induction ics rule: rev_induct)
  case Nil
  then show ?case by (simp add: quiet_empty call_view_def observed_targets_def)
next
  case (snoc ic ics)
  let ?c = "fold record_call ics FEEDBACK_CELL_EMPTY"
  have publish: "ic_snapshot (ic_publish (call_words i) ?c) = Some (call_words i) \<and> quiet (ic_publish (call_words i) ?c)" for i
    using snoc snapshot_publish [of ?c "call_words i"] by (simp add: call_words_def IC_CALL_PRESENT_def IC_WRITING_def)
  show ?case
  proof (cases "callee_identity ic = 0")
    case True
    with snoc show ?thesis by (simp add: record_call_def [of ic ?c] observed_targets_def)
  next
    case False
    have "call_view (observed_targets (ics @ [ic])) =
        (case call_view (observed_targets ics) of
           None \<Rightarrow> Some (callee_identity ic)
         | Some j \<Rightarrow> if j = 0 \<or> j = callee_identity ic then Some j else Some 0)"
      using call_view_snoc [of "observed_targets ics" "callee_identity ic"] False by (simp add: observed_targets_def)
    with False snoc publish show ?thesis
      by (cases "call_view (observed_targets ics)") (auto simp: record_call_def [of ic ?c])
  qed
qed

text \<open>
  After any sequence of observed call targets a call cell offers a target to specialize on exactly
  when at least one non-null target was observed and all of them were the same; a second target
  latches the cell for good.
\<close>
theorem call_cell_monomorphic:
  "call_snapshot (fold record_call ics FEEDBACK_CELL_EMPTY) =
     (let cs = observed_targets ics in
      if set cs = {hd cs} then Some \<lparr>callee_identity = hd cs\<rparr> else None)"
proof -
  have "hd (observed_targets ics) \<noteq> 0" if "observed_targets ics \<noteq> []"
    using list.set_sel(1) [OF that] by (auto simp: observed_targets_def)
  then show ?thesis
    using call_cell_state [of ics] by (auto simp: call_snapshot_def call_view_def call_words_def Let_def singleton_iff_same)
qed

section \<open>Interleaved publication and reading\<close>

text \<open>
  Where a thread stands.  \<open>Claim\<close> to \<open>PutVersion\<close> are \<open>ic_publish\<close>: load the sequence word, claim it by
  compare-and-exchange, store the four payload words, publish the version.  \<open>GotVersion\<close> to
  \<open>GotExtra\<close> are \<open>ic_snapshot\<close>: load the version, load the four words, and check the version again.
  \<open>claims\<close> is the history of the records whose claim succeeded.
\<close>

datatype cell_pc =
    Ready
  | Claim ic_words | Cas u32 ic_words
  | PutAux ic_words | PutPayload ic_words | PutIdentity ic_words | PutExtra ic_words | PutVersion ic_words
  | GotVersion u32 | GotAux u32 u32 | GotPayload u32 u32 u64 | GotIdentity u32 u32 u64 u64 | GotExtra ic_words
  | Returned "ic_words option"

record cell_conc =
  shared_cell :: feedback_cell
  threads :: "nat \<Rightarrow> cell_pc"
  claims :: "ic_words list"

definition move :: "nat \<Rightarrow> cell_pc \<Rightarrow> (feedback_cell \<Rightarrow> feedback_cell) \<Rightarrow> cell_conc \<Rightarrow> cell_conc" where
  "move t p f s = s\<lparr>shared_cell := f (shared_cell s), threads := (threads s)(t := p)\<rparr>"

definition valid_words :: "ic_words \<Rightarrow> bool" where
  "valid_words w \<longleftrightarrow> ic_version w \<noteq> 0 \<and> ic_version w \<noteq> IC_WRITING"

inductive cell_step :: "cell_conc \<Rightarrow> cell_conc \<Rightarrow> bool" where
  publish_call: "threads s t = Ready \<Longrightarrow> valid_words w \<Longrightarrow> cell_step s (move t (Claim w) id s)"
| publish_load: "threads s t = Claim w \<Longrightarrow>
    cell_step s (move t (if packed (shared_cell s) = IC_WRITING then Ready else Cas (packed (shared_cell s)) w) id s)"
| publish_claimed: "threads s t = Cas v w \<Longrightarrow> packed (shared_cell s) = v \<Longrightarrow>
    cell_step s ((move t (PutAux w) (\<lambda>c. c\<lparr>packed := IC_WRITING\<rparr>) s)\<lparr>claims := claims s @ [w]\<rparr>)"
| publish_lost: "threads s t = Cas v w \<Longrightarrow> packed (shared_cell s) \<noteq> v \<Longrightarrow> cell_step s (move t Ready id s)"
| put_aux: "threads s t = PutAux w \<Longrightarrow> cell_step s (move t (PutPayload w) (\<lambda>c. c\<lparr>aux := ic_aux w\<rparr>) s)"
| put_payload: "threads s t = PutPayload w \<Longrightarrow> cell_step s (move t (PutIdentity w) (\<lambda>c. c\<lparr>payload := ic_payload w\<rparr>) s)"
| put_identity: "threads s t = PutIdentity w \<Longrightarrow> cell_step s (move t (PutExtra w) (\<lambda>c. c\<lparr>identity := ic_identity w\<rparr>) s)"
| put_extra: "threads s t = PutExtra w \<Longrightarrow> cell_step s (move t (PutVersion w) (\<lambda>c. c\<lparr>extra := ic_extra w\<rparr>) s)"
| put_version: "threads s t = PutVersion w \<Longrightarrow> cell_step s (move t Ready (\<lambda>c. c\<lparr>packed := ic_version w\<rparr>) s)"
| read_version: "threads s t = Ready \<Longrightarrow>
    cell_step s (move t (if packed (shared_cell s) = 0 \<or> packed (shared_cell s) = IC_WRITING then Returned None
                         else GotVersion (packed (shared_cell s))) id s)"
| read_aux: "threads s t = GotVersion v \<Longrightarrow> cell_step s (move t (GotAux v (aux (shared_cell s))) id s)"
| read_payload: "threads s t = GotAux v a \<Longrightarrow> cell_step s (move t (GotPayload v a (payload (shared_cell s))) id s)"
| read_identity: "threads s t = GotPayload v a p \<Longrightarrow> cell_step s (move t (GotIdentity v a p (identity (shared_cell s))) id s)"
| read_extra: "threads s t = GotIdentity v a p i \<Longrightarrow>
    cell_step s (move t (GotExtra \<lparr>ic_version = v, ic_aux = a, ic_payload = p, ic_identity = i,
                                  ic_extra = extra (shared_cell s)\<rparr>) id s)"
| read_check: "threads s t = GotExtra w \<Longrightarrow>
    cell_step s (move t (Returned (if packed (shared_cell s) \<noteq> ic_version w then None else Some w)) id s)"
| read_return: "threads s t = Returned r \<Longrightarrow> cell_step s (move t Ready id s)"

definition cell_start :: cell_conc where
  "cell_start = \<lparr>shared_cell = FEEDBACK_CELL_EMPTY, threads = (\<lambda>_. Ready), claims = []\<rparr>"


subsection \<open>Consistent snapshots when versions are fresh\<close>

definition cell_words :: "feedback_cell \<Rightarrow> ic_words" where
  "cell_words c = \<lparr>ic_version = packed c, ic_aux = aux c, ic_payload = payload c, ic_identity = identity c, ic_extra = extra c\<rparr>"

definition held :: "feedback_cell \<Rightarrow> ic_words list \<Rightarrow> u32 \<Rightarrow> bool" where
  "held c L v \<longleftrightarrow> v \<noteq> 0 \<and> v \<noteq> IC_WRITING \<and> v \<in> ic_version ` set L \<and> (ic_version (last L) = v \<longrightarrow> packed c = v)"

definition claimed :: "feedback_cell \<Rightarrow> ic_words list \<Rightarrow> ic_words \<Rightarrow> bool" where
  "claimed c L w \<longleftrightarrow> valid_words w \<and> packed c = IC_WRITING \<and> L \<noteq> [] \<and> last L = w"

fun pc_ok :: "feedback_cell \<Rightarrow> ic_words list \<Rightarrow> cell_pc \<Rightarrow> bool" where
  "pc_ok c L Ready \<longleftrightarrow> True"
| "pc_ok c L (Claim w) \<longleftrightarrow> valid_words w"
| "pc_ok c L (Cas v w) \<longleftrightarrow> valid_words w \<and> v \<noteq> IC_WRITING"
| "pc_ok c L (PutAux w) \<longleftrightarrow> claimed c L w"
| "pc_ok c L (PutPayload w) \<longleftrightarrow> claimed c L w \<and> aux c = ic_aux w"
| "pc_ok c L (PutIdentity w) \<longleftrightarrow> claimed c L w \<and> aux c = ic_aux w \<and> payload c = ic_payload w"
| "pc_ok c L (PutExtra w) \<longleftrightarrow>
     claimed c L w \<and> aux c = ic_aux w \<and> payload c = ic_payload w \<and> identity c = ic_identity w"
| "pc_ok c L (PutVersion w) \<longleftrightarrow>
     claimed c L w \<and> aux c = ic_aux w \<and> payload c = ic_payload w \<and> identity c = ic_identity w \<and> extra c = ic_extra w"
| "pc_ok c L (GotVersion v) \<longleftrightarrow> held c L v"
| "pc_ok c L (GotAux v a) \<longleftrightarrow> held c L v \<and> (ic_version (last L) = v \<longrightarrow> a = ic_aux (last L))"
| "pc_ok c L (GotPayload v a p) \<longleftrightarrow>
     held c L v \<and> (ic_version (last L) = v \<longrightarrow> a = ic_aux (last L) \<and> p = ic_payload (last L))"
| "pc_ok c L (GotIdentity v a p i) \<longleftrightarrow>
     held c L v \<and> (ic_version (last L) = v \<longrightarrow> a = ic_aux (last L) \<and> p = ic_payload (last L) \<and> i = ic_identity (last L))"
| "pc_ok c L (GotExtra w) \<longleftrightarrow> held c L (ic_version w) \<and> (ic_version (last L) = ic_version w \<longrightarrow> w = last L)"
| "pc_ok c L (Returned r) \<longleftrightarrow> (\<forall>w. r = Some w \<longrightarrow> w \<in> set L)"

fun writing :: "cell_pc \<Rightarrow> bool" where
  "writing (PutAux w) = True"
| "writing (PutPayload w) = True"
| "writing (PutIdentity w) = True"
| "writing (PutExtra w) = True"
| "writing (PutVersion w) = True"
| "writing p = False"

definition published :: "feedback_cell \<Rightarrow> ic_words list \<Rightarrow> bool" where
  "published c L \<longleftrightarrow> (packed c \<noteq> 0 \<and> packed c \<noteq> IC_WRITING \<longrightarrow> L \<noteq> [] \<and> cell_words c = last L)"

definition one_writer :: "(nat \<Rightarrow> cell_pc) \<Rightarrow> bool" where
  "one_writer ps \<longleftrightarrow> (\<forall>t u. writing (ps t) \<longrightarrow> writing (ps u) \<longrightarrow> t = u)"

definition seqlock_inv :: "cell_conc \<Rightarrow> bool" where
  "seqlock_inv s \<longleftrightarrow>
     published (shared_cell s) (claims s) \<and>
     (\<forall>t. pc_ok (shared_cell s) (claims s) (threads s t)) \<and>
     one_writer (threads s)"

lemma writing_claimed: "pc_ok c L p \<Longrightarrow> writing p \<Longrightarrow> packed c = IC_WRITING"
  by (cases p) (auto simp: claimed_def)

lemma pc_ok_store:
  "\<not> writing p \<Longrightarrow> packed c' = packed c \<Longrightarrow> pc_ok c L p \<Longrightarrow> pc_ok c' L p"
  by (cases p) (auto simp: held_def)

lemma pc_ok_claim:
  "\<not> writing p \<Longrightarrow> ic_version w \<notin> ic_version ` set L \<Longrightarrow> pc_ok c L p \<Longrightarrow> pc_ok c' (L @ [w]) p"
  by (cases p) (auto simp: held_def)

lemma pc_ok_publish:
  "\<not> writing p \<Longrightarrow> packed c' = ic_version (last L) \<Longrightarrow> pc_ok c L p \<Longrightarrow> pc_ok c' L p"
  by (cases p) (auto simp: held_def)

lemma seqlock_move:
  assumes "seqlock_inv s"
    and "\<And>u. u \<noteq> t \<Longrightarrow> pc_ok c' L' (threads s u)" "pc_ok c' L' p" "published c' L'"
    and "writing p \<Longrightarrow> writing (threads s t) \<or> packed (shared_cell s) \<noteq> IC_WRITING"
  shows "seqlock_inv (s\<lparr>shared_cell := c', threads := (threads s)(t := p), claims := L'\<rparr>)"
proof -
  have "\<not> writing (threads s u)" if "writing p" "u \<noteq> t" for u
    using assms(1,5) that writing_claimed [of "shared_cell s" "claims s" "threads s u"]
    unfolding seqlock_inv_def one_writer_def by metis
  moreover have "one_writer (threads s)" using assms(1) by (simp add: seqlock_inv_def)
  ultimately have "one_writer ((threads s)(t := p))" unfolding one_writer_def by (metis fun_upd_apply)
  with assms(2-4) show ?thesis by (simp add: seqlock_inv_def)
qed

lemma seqlock_local:
  assumes "seqlock_inv s" "pc_ok (shared_cell s) (claims s) p" "\<not> writing p"
  shows "seqlock_inv (move t p id s)"
  using seqlock_move [OF assms(1), of t "shared_cell s" "claims s" p] assms
  by (simp add: seqlock_inv_def move_def)

lemma seqlock_others:
  assumes "seqlock_inv s" "writing (threads s t)" "u \<noteq> t"
  shows "\<not> writing (threads s u)"
  using assms unfolding seqlock_inv_def one_writer_def by blast

lemma seqlock_store:
  assumes inv: "seqlock_inv s" and t: "writing (threads s t)" "writing p"
    and f: "packed (f (shared_cell s)) = packed (shared_cell s)" "pc_ok (f (shared_cell s)) (claims s) p"
  shows "seqlock_inv (move t p f s)"
proof -
  have pc: "pc_ok (shared_cell s) (claims s) (threads s u)" for u using inv by (simp add: seqlock_inv_def)
  then have "packed (f (shared_cell s)) = IC_WRITING" using writing_claimed t f(1) by metis
  then have "published (f (shared_cell s)) (claims s)" by (simp add: published_def)
  moreover have "pc_ok (f (shared_cell s)) (claims s) (threads s u)" if "u \<noteq> t" for u
    by (rule pc_ok_store [OF seqlock_others [OF inv t(1) that] f(1) pc])
  ultimately show ?thesis
    using seqlock_move [OF inv, of t "f (shared_cell s)" "claims s" p] f t by (simp add: move_def)
qed

lemma published_last:
  assumes "published c L" "packed c = v" "v \<noteq> 0" "v \<noteq> IC_WRITING"
  shows "L \<noteq> [] \<and> ic_version (last L) = v \<and> last L \<in> set L"
  using assms by (metis published_def cell_words_def ic_words.select_convs(1) last_in_set)

lemma held_words:
  assumes "published c L" "held c L v" "ic_version (last L) = v"
  shows "aux c = ic_aux (last L) \<and> payload c = ic_payload (last L) \<and> identity c = ic_identity (last L) \<and>
    extra c = ic_extra (last L) \<and> packed c = v"
proof -
  have "cell_words c = last L" "packed c = v" using assms by (auto simp: published_def held_def)
  then show ?thesis by (metis cell_words_def ic_words.select_convs)
qed

lemma seqlock_step:
  assumes step: "cell_step s s'" and inv: "seqlock_inv s" and fresh: "distinct (map ic_version (claims s'))"
  shows "seqlock_inv s'"
proof -
  have pc: "pc_ok (shared_cell s) (claims s) (threads s u)" for u using inv by (simp add: seqlock_inv_def)
  have pub: "published (shared_cell s) (claims s)" using inv by (simp add: seqlock_inv_def)
  show ?thesis
    using step
  proof cases
    case (publish_claimed t v w)
    have "packed (shared_cell s) \<noteq> IC_WRITING" using pc [of t] publish_claimed by simp
    then have "\<not> writing (threads s u)" for u using writing_claimed [OF pc] by blast
    moreover have "ic_version w \<notin> ic_version ` set (claims s)"
      using fresh publish_claimed by (auto simp: move_def)
    ultimately have "pc_ok ((shared_cell s)\<lparr>packed := IC_WRITING\<rparr>) (claims s @ [w]) (threads s u)" for u
      using pc_ok_claim [OF _ _ pc] by blast
    then show ?thesis
      using seqlock_move [OF inv, of t "(shared_cell s)\<lparr>packed := IC_WRITING\<rparr>" "claims s @ [w]" "PutAux w"]
        pc [of t] publish_claimed \<open>packed (shared_cell s) \<noteq> IC_WRITING\<close>
      by (simp add: move_def published_def claimed_def)
  next
    case (put_version t w)
    then have w: "claimed (shared_cell s) (claims s) w" "aux (shared_cell s) = ic_aux w" "payload (shared_cell s) = ic_payload w"
      "identity (shared_cell s) = ic_identity w" "extra (shared_cell s) = ic_extra w"
      using pc [of t] by simp_all
    have "pc_ok ((shared_cell s)\<lparr>packed := ic_version w\<rparr>) (claims s) (threads s u)" if "u \<noteq> t" for u
      using w put_version that by (intro pc_ok_publish [OF seqlock_others [OF inv _ that] _ pc]) (auto simp: claimed_def)
    then show ?thesis
      using seqlock_move [OF inv, of t "(shared_cell s)\<lparr>packed := ic_version w\<rparr>" "claims s" Ready] w put_version
      by (simp add: move_def published_def claimed_def cell_words_def)
  next
    case (read_version t)
    have "held (shared_cell s) (claims s) (packed (shared_cell s))"
      if "packed (shared_cell s) \<noteq> 0" "packed (shared_cell s) \<noteq> IC_WRITING"
      using published_last [OF pub refl that] that unfolding held_def by (metis imageI)
    then show ?thesis using read_version by (auto intro!: seqlock_local [OF inv])
  next
    case (put_aux t w)
    then show ?thesis using pc [of t] by (auto intro!: seqlock_store [OF inv] simp: claimed_def)
  next
    case (put_payload t w)
    then show ?thesis using pc [of t] by (auto intro!: seqlock_store [OF inv] simp: claimed_def)
  next
    case (put_identity t w)
    then show ?thesis using pc [of t] by (auto intro!: seqlock_store [OF inv] simp: claimed_def)
  next
    case (put_extra t w)
    then show ?thesis using pc [of t] by (auto intro!: seqlock_store [OF inv] simp: claimed_def)
  next
    case (read_aux t v)
    then show ?thesis using pc [of t] held_words [OF pub, of v] by (auto intro!: seqlock_local [OF inv])
  next
    case (read_payload t v a)
    then show ?thesis using pc [of t] held_words [OF pub, of v] by (auto intro!: seqlock_local [OF inv])
  next
    case (read_identity t v a p)
    then show ?thesis using pc [of t] held_words [OF pub, of v] by (auto intro!: seqlock_local [OF inv])
  next
    case (read_extra t v a p i)
    then show ?thesis
      using pc [of t] held_words [OF pub, of v] by (auto intro!: seqlock_local [OF inv] ic_words.equality)
  next
    case (read_check t w)
    have "w \<in> set (claims s)" if "packed (shared_cell s) = ic_version w"
    proof -
      have r: "held (shared_cell s) (claims s) (ic_version w)" "ic_version (last (claims s)) = ic_version w \<longrightarrow> w = last (claims s)"
        using pc [of t] read_check(2) by simp_all
      then have "ic_version w \<noteq> 0" "ic_version w \<noteq> IC_WRITING" by (simp_all add: held_def)
      from published_last [OF pub that this] r(2) show ?thesis by metis
    qed
    then show ?thesis using read_check by (auto intro!: seqlock_local [OF inv])
  next
    case (publish_call t w)
    then show ?thesis by (auto intro!: seqlock_local [OF inv])
  next
    case (publish_load t w)
    then show ?thesis using pc [of t] by (auto intro!: seqlock_local [OF inv])
  qed (auto intro!: seqlock_local [OF inv])
qed

text \<open>The history only grows, and whatever was fresh at the end was fresh at every step.\<close>

lemma claims_grow: "cell_step s s' \<Longrightarrow> claims s' = claims s \<or> (\<exists>w. claims s' = claims s @ [w])"
  by (induction rule: cell_step.induct) (auto simp: move_def)

lemma seqlock_start: "seqlock_inv cell_start"
  by (simp add: seqlock_inv_def cell_start_def published_def FEEDBACK_CELL_EMPTY_def one_writer_def)

lemma seqlock_reachable:
  "cell_step\<^sup>*\<^sup>* cell_start s \<Longrightarrow> distinct (map ic_version (claims s)) \<Longrightarrow> seqlock_inv s"
proof (induction rule: rtranclp_induct)
  case base
  show ?case by (rule seqlock_start)
next
  case (step s s')
  moreover have "distinct (map ic_version (claims s))" using claims_grow [OF step.hyps(2)] step.prems by auto
  ultimately show ?case using seqlock_step by blast
qed

text \<open>
  C20. In every interleaving of recorders and readers in which no two successful claims carry the same
  version, a read that passes its check returns a record some recorder published, never a mixture.
\<close>
theorem snapshot_not_torn:
  assumes "cell_step\<^sup>*\<^sup>* cell_start s" "distinct (map ic_version (claims s))"
    and "threads s t = Returned (Some w)"
  shows "w \<in> set (claims s)"
  using seqlock_reachable [OF assms(1,2)] assms(3) unfolding seqlock_inv_def by (metis pc_ok.simps(14))


text \<open>Runs given as a list of thread numbers and the records they are asked to publish.\<close>

fun act :: "nat \<Rightarrow> ic_words option \<Rightarrow> cell_conc \<Rightarrow> cell_conc" where
  "act t job s =
     (let c = shared_cell s in
      case threads s t of
        Ready \<Rightarrow> (case job of
          Some w \<Rightarrow> if valid_words w then move t (Claim w) id s else s
        | None \<Rightarrow> move t (if packed c = 0 \<or> packed c = IC_WRITING then Returned None else GotVersion (packed c)) id s)
      | Claim w \<Rightarrow> move t (if packed c = IC_WRITING then Ready else Cas (packed c) w) id s
      | Cas v w \<Rightarrow>
          if packed c = v then (move t (PutAux w) (\<lambda>c. c\<lparr>packed := IC_WRITING\<rparr>) s)\<lparr>claims := claims s @ [w]\<rparr>
          else move t Ready id s
      | PutAux w \<Rightarrow> move t (PutPayload w) (\<lambda>c. c\<lparr>aux := ic_aux w\<rparr>) s
      | PutPayload w \<Rightarrow> move t (PutIdentity w) (\<lambda>c. c\<lparr>payload := ic_payload w\<rparr>) s
      | PutIdentity w \<Rightarrow> move t (PutExtra w) (\<lambda>c. c\<lparr>identity := ic_identity w\<rparr>) s
      | PutExtra w \<Rightarrow> move t (PutVersion w) (\<lambda>c. c\<lparr>extra := ic_extra w\<rparr>) s
      | PutVersion w \<Rightarrow> move t Ready (\<lambda>c. c\<lparr>packed := ic_version w\<rparr>) s
      | GotVersion v \<Rightarrow> move t (GotAux v (aux c)) id s
      | GotAux v a \<Rightarrow> move t (GotPayload v a (payload c)) id s
      | GotPayload v a p \<Rightarrow> move t (GotIdentity v a p (identity c)) id s
      | GotIdentity v a p i \<Rightarrow>
          move t (GotExtra \<lparr>ic_version = v, ic_aux = a, ic_payload = p, ic_identity = i, ic_extra = extra c\<rparr>) id s
      | GotExtra w \<Rightarrow> move t (Returned (if packed c \<noteq> ic_version w then None else Some w)) id s
      | Returned r \<Rightarrow> move t Ready id s)"

lemma act_steps: "cell_step\<^sup>*\<^sup>* s (act t job s)"
proof (cases "threads s t")
  case Ready
  then show ?thesis
    using publish_call [of s t] read_version [of s t] by (auto simp: Let_def split: option.splits)
next
  case (Claim w)
  then show ?thesis using publish_load [of s t w] by (auto simp: Let_def)
next
  case (GotExtra w)
  then show ?thesis using read_check [of s t w] by (auto simp: Let_def)
qed (auto simp: Let_def intro: cell_step.intros)

definition schedule :: "(nat \<times> ic_words option) list \<Rightarrow> cell_conc \<Rightarrow> cell_conc" where
  "schedule acts s = fold (\<lambda>(t, job). act t job) acts s"

lemma schedule_steps: "cell_step\<^sup>*\<^sup>* s (schedule acts s)"
proof (induction acts rule: rev_induct)
  case Nil
  then show ?case by (simp add: schedule_def)
next
  case (snoc a acts)
  then show ?case
    using act_steps [of "schedule acts s" "fst a" "snd a"] by (auto simp: schedule_def case_prod_beta intro: rtranclp_trans)
qed


lemma move_simps [simp]:
  "threads (move t p f s) = (threads s)(t := p)" "shared_cell (move t p f s) = f (shared_cell s)"
  "claims (move t p f s) = claims s"
  by (simp_all add: move_def)

lemma act_cases:
  "threads s t = Ready \<Longrightarrow> valid_words w \<Longrightarrow> act t (Some w) s = move t (Claim w) id s"
  "threads s t = Ready \<Longrightarrow> packed (shared_cell s) \<noteq> 0 \<Longrightarrow> packed (shared_cell s) \<noteq> IC_WRITING \<Longrightarrow>
     act t None s = move t (GotVersion (packed (shared_cell s))) id s"
  "threads s t = Claim w \<Longrightarrow> packed (shared_cell s) \<noteq> IC_WRITING \<Longrightarrow> act t job s = move t (Cas (packed (shared_cell s)) w) id s"
  "threads s t = Cas v w \<Longrightarrow> packed (shared_cell s) = v \<Longrightarrow>
     act t job s = (move t (PutAux w) (\<lambda>c. c\<lparr>packed := IC_WRITING\<rparr>) s)\<lparr>claims := claims s @ [w]\<rparr>"
  "threads s t = PutAux w \<Longrightarrow> act t job s = move t (PutPayload w) (\<lambda>c. c\<lparr>aux := ic_aux w\<rparr>) s"
  "threads s t = PutPayload w \<Longrightarrow> act t job s = move t (PutIdentity w) (\<lambda>c. c\<lparr>payload := ic_payload w\<rparr>) s"
  "threads s t = PutIdentity w \<Longrightarrow> act t job s = move t (PutExtra w) (\<lambda>c. c\<lparr>identity := ic_identity w\<rparr>) s"
  "threads s t = PutExtra w \<Longrightarrow> act t job s = move t (PutVersion w) (\<lambda>c. c\<lparr>extra := ic_extra w\<rparr>) s"
  "threads s t = PutVersion w \<Longrightarrow> act t job s = move t Ready (\<lambda>c. c\<lparr>packed := ic_version w\<rparr>) s"
  "threads s t = GotVersion v \<Longrightarrow> act t job s = move t (GotAux v (aux (shared_cell s))) id s"
  "threads s t = GotAux v a \<Longrightarrow> act t job s = move t (GotPayload v a (payload (shared_cell s))) id s"
  "threads s t = GotPayload v a p \<Longrightarrow> act t job s = move t (GotIdentity v a p (identity (shared_cell s))) id s"
  "threads s t = GotIdentity v a p i \<Longrightarrow>
     act t job s = move t (GotExtra \<lparr>ic_version = v, ic_aux = a, ic_payload = p, ic_identity = i,
                                     ic_extra = extra (shared_cell s)\<rparr>) id s"
  "threads s t = GotExtra w' \<Longrightarrow> packed (shared_cell s) = ic_version w' \<Longrightarrow> act t job s = move t (Returned (Some w')) id s"
  by (simp_all add: Let_def)

declare act.simps [simp del]

lemmas run_simps = schedule_def act_cases

text \<open>A thread that runs alone performs the sequential operations.\<close>

lemma solo_publish:
  assumes "threads s t = Ready" "valid_words w" "quiet (shared_cell s)"
  shows "schedule (replicate 8 (t, Some w)) s = s\<lparr>shared_cell := ic_publish w (shared_cell s), claims := claims s @ [w]\<rparr>"
  using assms by (simp add: run_simps numeral_eq_Suc quiet_def)
    (simp add: move_def ic_publish_def fun_upd_idem)

lemma solo_read:
  assumes "threads s t = Ready" "ic_snapshot (shared_cell s) = Some w"
  shows "threads (schedule (replicate 6 (t, None)) s) t = Returned (Some w)"
proof -
  have "packed (shared_cell s) \<noteq> 0" "packed (shared_cell s) \<noteq> IC_WRITING" "w = cell_words (shared_cell s)"
    using assms(2) by (auto simp: ic_snapshot_def cell_words_def Let_def split: if_splits)
  with assms(1) show ?thesis by (simp add: run_simps numeral_eq_Suc cell_words_def)
qed

definition torn_schedule :: "ic_words \<Rightarrow> ic_words \<Rightarrow> (nat \<times> ic_words option) list" where
  "torn_schedule a b =
     replicate 8 (1, Some a) @ [(0, None)] @ replicate 5 (1, Some b) @ replicate 2 (0, None) @
     replicate 3 (1, Some b) @ replicate 8 (1, Some a) @ replicate 3 (0, None)"

lemma torn_run:
  assumes "valid_words a" "valid_words b"
  shows "threads (schedule (torn_schedule a b) cell_start) 0 =
      Returned (Some (a\<lparr>ic_aux := ic_aux b, ic_payload := ic_payload b\<rparr>))"
    "claims (schedule (torn_schedule a b) cell_start) = [a, b, a]"
  using assms
  by (simp_all add: torn_schedule_def run_simps numeral_eq_Suc cell_start_def FEEDBACK_CELL_EMPTY_def valid_words_def IC_WRITING_def)


text \<open>
  C30. The version of a record is not a sequence number: for any two attribute records the guards
  accept, there is an interleaving in which the first is published, overwritten by the second and
  published again while a reader is between its two loads of the version, and the read passes its
  check with the first record's type, version and descriptor and the second record's storage kind
  and offset; the lookup for the first type then hits with that mixture.
\<close>
theorem torn_snapshot_accepted:
  assumes "attr_accepted ta a" "attr_accepted tb b"
  shows "\<exists>s w. cell_step\<^sup>*\<^sup>* cell_start s \<and> claims s = [attr_words ta a, attr_words tb b, attr_words ta a] \<and>
    threads s 0 = Returned (Some w) \<and>
    attr_check ta (type_version a) w = Some (a\<lparr>attr_kind := attr_kind b, attr_offset := attr_offset b\<rparr>)"
proof -
  let ?wa = "attr_words ta a" and ?wb = "attr_words tb b"
  let ?w = "?wa\<lparr>ic_aux := ic_aux ?wb, ic_payload := ic_payload ?wb\<rparr>"
  have valid: "valid_words ?wa" "valid_words ?wb"
    using assms by (auto simp: valid_words_def attr_accepted_def attr_words_def)
  have "?w = attr_words ta (a\<lparr>attr_kind := attr_kind b, attr_offset := attr_offset b\<rparr>)"
    by (simp add: attr_words_def)
  then have "attr_of_words ?w = Some (a\<lparr>attr_kind := attr_kind b, attr_offset := attr_offset b\<rparr>)"
    by (metis words_roundtrip)
  then have "attr_check ta (type_version a) ?w = Some (a\<lparr>attr_kind := attr_kind b, attr_offset := attr_offset b\<rparr>)"
    by (simp add: attr_check_def) (simp add: attr_words_def)
  then show ?thesis
    using schedule_steps [of cell_start "torn_schedule ?wa ?wb"] torn_run [OF valid] by blast
qed

definition slot_record :: "u32 \<Rightarrow> attr_ic" where
  "slot_record off = \<lparr>type_version = VERSION_TAG_SEED, attr_kind = Slot, attr_offset = off, attr_descriptor = 0\<rparr>"

lemma slot_record_accepted: "attr_accepted 0x1000 (slot_record off)" "attr_accepted 0x2000 (slot_record off)"
  by (simp_all add: attr_accepted_def slot_record_def VERSION_TAG_SEED_def IC_WRITING_def)

theorem torn_snapshot_accepted_witness:
  "\<exists>s w. cell_step\<^sup>*\<^sup>* cell_start s \<and>
    claims s = [attr_words 0x1000 (slot_record 24), attr_words 0x2000 (slot_record 8), attr_words 0x1000 (slot_record 24)] \<and>
    threads s 0 = Returned (Some w) \<and> attr_check 0x1000 VERSION_TAG_SEED w = Some (slot_record 8)"
  using torn_snapshot_accepted [OF slot_record_accepted(1) [of 24] slot_record_accepted(2) [of 8]]
  by (simp add: slot_record_def)

theorem snapshot_not_torn_witness:
  "\<exists>s. cell_step\<^sup>*\<^sup>* cell_start s \<and> threads s 0 = Returned (Some (call_words 5)) \<and> call_words 5 \<in> set (claims s)"
proof -
  let ?s = "schedule (replicate 8 (1, Some (call_words 5)) @ replicate 6 (0, None)) cell_start"
  have run: "threads ?s 0 = Returned (Some (call_words 5))" "claims ?s = [call_words 5]"
    by (simp_all add: run_simps numeral_eq_Suc cell_start_def FEEDBACK_CELL_EMPTY_def valid_words_def call_words_def
        IC_WRITING_def IC_CALL_PRESENT_def)
  have "call_words 5 \<in> set (claims ?s)"
    by (rule snapshot_not_torn [OF schedule_steps _ run(1)]) (subst run(2), simp)
  with run show ?thesis using schedule_steps by blast
qed

end
