(* ===== verification/Tier_Up.thy ===== *)
theory Tier_Up
  imports Opt_Plan Type_Infer Ir_Liveness Feedback_Cell
begin

text \<open>
  Tier-up: the hotness probes, on-stack-replacement gate and deoptimization notes of
  \<^verbatim>\<open>pon-runtime/src/abi.rs\<close>, and the driver of \<^verbatim>\<open>pon-jit/src/tierup.rs\<close> that compiles a hot function and
  installs the result.  The first part takes every operation as one step; the code generator library
  is the parameter \<open>jit\<close>.  The second part looks inside: the stores of an installation one by one, and
  the end of a request, where the function is unpinned after its state has moved on.  The lives of the
  driver and the notes of several threads are in \<open>Tier_Race\<close>.
\<close>

section \<open>Functions and the driver\<close>

definition TIER1_CALL_THRESHOLD :: u32 where "TIER1_CALL_THRESHOLD = 16"
definition TIER1_DEFERRED_CALL_THRESHOLD :: u32 where "TIER1_DEFERRED_CALL_THRESHOLD = 16"
definition TIER1_LOOP_THRESHOLD :: u32 where "TIER1_LOOP_THRESHOLD = 10000"
definition DEOPT_THRASH_THRESHOLD :: u32 where "DEOPT_THRASH_THRESHOLD = 64"
definition DEOPT_BACKOFF_MAX_SHIFT :: nat where "DEOPT_BACKOFF_MAX_SHIFT = 6"
definition DEOPT_PIN_EPOCH :: u8 where "DEOPT_PIN_EPOCH = 8"
definition OSR_MAX_LIVE :: nat where "OSR_MAX_LIVE = 16"

datatype tier_state = TIER0 | QUEUED | TIER1 | DEFERRED | DISABLED

record py_function =
  pf_code :: addr
  pf_entry :: addr
  hotness :: u32
  loop_hotness :: u32
  tier :: tier_state
  pf_feedback :: "feedback_cell list option"
  pf_tier1 :: "(addr \<times> addr) option"
  osr_entry :: addr
  osr_loop_header :: u32
  deopt_count :: u32
  tier_epoch :: u8

definition py_function_new :: "addr \<Rightarrow> py_function" where
  "py_function_new c =
     \<lparr>pf_code = c, pf_entry = c, hotness = 0, loop_hotness = 0, tier = TIER0, pf_feedback = None, pf_tier1 = None,
      osr_entry = 0, osr_loop_header = 0, deopt_count = 0, tier_epoch = 0\<rparr>"

datatype compile_reason = CallReason | LoopBackEdge block_id

datatype compile_error = CodegenFailed | ModuleFailed | MissingFunction nat

record registered_function =
  rf_tier0_entry :: addr
  module_index :: nat
  function_index :: nat
  rf_feedback_len :: nat

record tier1_compilation =
  c_entry :: addr
  c_handle :: addr
  c_osr_entry :: addr
  c_osr_loop_header :: "block_id option"
  c_function_index :: nat
  c_feedback_len :: nat
  c_plan :: optimizing_plan
  c_steps :: "lowering_step list"
  c_feedback :: "(type_tag \<times> type_tag) option list"

record compile_request =
  rq_function :: addr
  ir_snapshot_id :: nat
  feedback_snapshot_of :: "(type_tag \<times> type_tag) option list"
  rq_reason :: compile_reason

text \<open>
  \<open>driver_active\<close> says that the process has a driver, \<open>hook\<close> that its hook is installed, \<open>sender\<close> that the
  channel to the compiler thread is open.
\<close>

record tierup =
  fun_at :: "addr \<Rightarrow> py_function"
  modules :: "ir_module list"
  registered :: "registered_function list"
  installed :: "tier1_compilation list"
  pins :: "addr set"
  compile_queue :: "compile_request list"
  driver_active :: bool
  hook :: bool
  sync_tierup :: bool
  sender :: bool
  shutting_down :: bool

text \<open>
  The code generator: the module, the index of the hot function, its plan and the entry to generate for
  on-stack replacement give the address of the code, of the second entry, and of the compilation.
  \<open>region_hash\<close> is the iteration order of the hash sets of region discovery.
\<close>

record jit =
  emit_tier1 :: "ir_module \<Rightarrow> nat \<Rightarrow> optimizing_plan \<Rightarrow> (block_id \<times> value_id list) option \<Rightarrow> compile_error + addr \<times> addr \<times> addr"
  region_hash :: "block_id \<Rightarrow> nat \<Rightarrow> block_id \<Rightarrow> nat"

definition fixed_jit :: jit where
  "fixed_jit = \<lparr>emit_tier1 = \<lambda>_ _ _ _. Inr (8192, 12288, 65536), region_hash = \<lambda>_ _ _. 0\<rparr>"

definition on_fn :: "addr \<Rightarrow> (py_function \<Rightarrow> py_function) \<Rightarrow> tierup \<Rightarrow> tierup" where
  "on_fn f g w = w\<lparr>fun_at := (fun_at w)(f := g (fun_at w f))\<rparr>"

section \<open>Driver\<close>

definition feedback_len :: "ir_function \<Rightarrow> nat" where
  "feedback_len f = fold (\<lambda>slot. max (slot + 1)) (List.map_filter feedback_slot (concat (map insts (blocks f)))) 0"

definition register_module :: "ir_module \<Rightarrow> addr list \<Rightarrow> tierup \<Rightarrow> tierup" where
  "register_module m entries w =
     w\<lparr>modules := modules w @ [m],
       registered := registered w @
         map (\<lambda>(i, f, e). \<lparr>rf_tier0_entry = e, module_index = length (modules w), function_index = i,
                           rf_feedback_len = feedback_len f\<rparr>)
           (enumerate 0 (zip (fns m) entries))\<rparr>"

definition find_record_id :: "addr \<Rightarrow> tierup \<Rightarrow> nat option" where
  "find_record_id tier0_entry w =
     map_option (\<lambda>index. index mod 2 ^ 32)
       (List.find (\<lambda>index. rf_tier0_entry (registered w ! index) = tier0_entry) (rev [0..<length (registered w)]))"

definition ensure_feedback :: "nat \<Rightarrow> py_function \<Rightarrow> py_function" where
  "ensure_feedback len fn =
     (if len = 0 then fn
      else if (case pf_feedback fn of None \<Rightarrow> True | Some cells \<Rightarrow> length cells < len)
        then fn\<lparr>pf_feedback := Some (feedback_vec_new len)\<rparr>
      else fn)"

definition feedback_snapshot :: "nat \<Rightarrow> py_function \<Rightarrow> (type_tag \<times> type_tag) option list" where
  "feedback_snapshot len fn =
     (case pf_feedback fn of
        None \<Rightarrow> replicate len None
      | Some cells \<Rightarrow> map (\<lambda>index. Option.bind (feedback_vec_get cells index) speculate) [0..<len])"

definition pin :: "addr \<Rightarrow> tierup \<Rightarrow> tierup" where
  "pin f w = w\<lparr>pins := insert f (pins w)\<rparr>"

definition unpin :: "addr \<Rightarrow> tierup \<Rightarrow> tierup" where
  "unpin f w = w\<lparr>pins := pins w - {f}\<rparr>"

definition leave_queued :: "tier_state \<Rightarrow> py_function \<Rightarrow> py_function" where
  "leave_queued target fn =
     (if tier fn = QUEUED then fn\<lparr>tier := target, pf_entry := pf_code fn, osr_entry := 0\<rparr> else fn)"

definition retire_queued_to_tier0 :: "addr \<Rightarrow> tierup \<Rightarrow> tierup" where
  "retire_queued_to_tier0 f w = (if f = 0 then w else on_fn f (leave_queued TIER0) w)"

definition disable_queued :: "addr \<Rightarrow> tierup \<Rightarrow> tierup" where
  "disable_queued f w = on_fn f (leave_queued DISABLED) w"

definition prepare_request :: "addr \<Rightarrow> compile_reason \<Rightarrow> tierup \<Rightarrow> compile_request option \<times> tierup" where
  "prepare_request f reason w =
     (if f = 0 then (None, w)
      else if tier (fun_at w f) \<noteq> QUEUED then (None, w)
      else case find_record_id (pf_code (fun_at w f)) w of
        None \<Rightarrow> (None, disable_queued f w)
      | Some snap \<Rightarrow>
          let len = (if snap < length (registered w) then rf_feedback_len (registered w ! snap) else 0);
              w = on_fn f (ensure_feedback len) w;
              snapshot = feedback_snapshot len (fun_at w f)
          in (Some \<lparr>rq_function = f, ir_snapshot_id = snap, feedback_snapshot_of = snapshot, rq_reason = reason\<rparr>, pin f w))"

definition clone_registered_ir :: "nat \<Rightarrow> tierup \<Rightarrow> (registered_function \<times> ir_module) option" where
  "clone_registered_ir snap w =
     (if snap < length (registered w) \<and> module_index (registered w ! snap) < length (modules w)
      then Some (registered w ! snap, modules w ! module_index (registered w ! snap)) else None)"

definition prepare_osr_entry :: "ir_module \<Rightarrow> nat \<Rightarrow> compile_reason \<Rightarrow> (block_id \<times> value_id list) option" where
  "prepare_osr_entry m index reason =
     (case reason of
        CallReason \<Rightarrow> None
      | LoopBackEdge header \<Rightarrow>
          if index \<ge> length (fns m) then None
          else case osr_live_values (fns m ! index) header of
            None \<Rightarrow> None
          | Some live \<Rightarrow> if n_locals (fns m ! index) + length live > OSR_MAX_LIVE then None else Some (header, live))"

definition compile_tier1_module ::
  "jit \<Rightarrow> ir_module \<Rightarrow> nat \<Rightarrow> nat \<Rightarrow> (type_tag \<times> type_tag) option list \<Rightarrow> compile_reason \<Rightarrow> optimizing_plan \<Rightarrow>
   lowering_step list \<Rightarrow> compile_error + tier1_compilation" where
  "compile_tier1_module j m index len feedback reason plan steps =
     (let osr = prepare_osr_entry m index reason
      in bind_ok (emit_tier1 j m index plan osr) (\<lambda>(e, osr_e, handle).
           if index \<ge> length (fns m) then Inl (MissingFunction index)
           else Inr \<lparr>c_entry = e, c_handle = handle,
                     c_osr_entry = (if osr = None then 0 else osr_e), c_osr_loop_header = map_option fst osr,
                     c_function_index = index, c_feedback_len = len, c_plan = plan, c_steps = steps, c_feedback = feedback\<rparr>))"

text \<open>The stores of an installation, in order, after its compare-and-exchange has won.\<close>

definition install_stores :: "tier1_compilation \<Rightarrow> (py_function \<Rightarrow> py_function) list" where
  "install_stores c =
     [(\<lambda>fn. fn\<lparr>pf_tier1 := Some (c_entry c, c_handle c)\<rparr>),
      (\<lambda>fn. fn\<lparr>deopt_count := 0\<rparr>),
      (\<lambda>fn. fn\<lparr>pf_entry := c_entry c\<rparr>)] @
     (case c_osr_loop_header c of
        Some header \<Rightarrow> [(\<lambda>fn. fn\<lparr>osr_loop_header := of_nat header\<rparr>), (\<lambda>fn. fn\<lparr>osr_entry := c_osr_entry c\<rparr>)]
      | None \<Rightarrow> [(\<lambda>fn. fn\<lparr>osr_entry := 0\<rparr>)])"

definition install_compilation :: "addr \<Rightarrow> tier1_compilation \<Rightarrow> tierup \<Rightarrow> bool \<times> tierup" where
  "install_compilation f c w =
     (if tier (fun_at w f) \<noteq> QUEUED then (False, w)
      else (True, (on_fn f (\<lambda>fn. fold (\<lambda>store fn. store fn) (install_stores c) (fn\<lparr>tier := TIER1\<rparr>)) w)
                    \<lparr>installed := installed w @ [c]\<rparr>))"

text \<open>
  \<^verbatim>\<open>process_request\<close> up to its last statement, which unpins the function; every path of it that
  returns early unpins first.
\<close>

definition process_body :: "jit \<Rightarrow> compile_request \<Rightarrow> tierup \<Rightarrow> tierup" where
  "process_body j rq w =
     (let f = rq_function rq in
      if shutting_down w then retire_queued_to_tier0 f w
      else if tier (fun_at w f) \<noteq> QUEUED then w
      else case clone_registered_ir (ir_snapshot_id rq) w of
        None \<Rightarrow> disable_queued f w
      | Some (rf, m) \<Rightarrow>
          let m = infer_module_types [] m in
          if function_index rf \<ge> length (fns m) then disable_queued f w
          else case plan_function (region_hash j) (fns m ! function_index rf) of
            None \<Rightarrow> disable_queued f w
          | Some plan \<Rightarrow>
              (case compile_tier1_module j m (function_index rf) (rf_feedback_len rf) (feedback_snapshot_of rq) (rq_reason rq)
                      plan (lowering_steps plan) of
                 Inl error \<Rightarrow> disable_queued f w
               | Inr c \<Rightarrow> if c_entry c \<noteq> rf_tier0_entry rf then snd (install_compilation f c w) else disable_queued f w))"

definition process_request :: "jit \<Rightarrow> compile_request \<Rightarrow> tierup \<Rightarrow> tierup" where
  "process_request j rq w =
     (if rq_function rq = 0 then w else unpin (rq_function rq) (process_body j rq w))"

definition compile_and_install :: "jit \<Rightarrow> addr \<Rightarrow> compile_reason \<Rightarrow> tierup \<Rightarrow> tierup" where
  "compile_and_install j f reason w =
     (case prepare_request f reason w of (None, w) \<Rightarrow> w | (Some rq, w) \<Rightarrow> process_request j rq w)"

definition enqueue :: "addr \<Rightarrow> compile_reason \<Rightarrow> tierup \<Rightarrow> tierup" where
  "enqueue f reason w =
     (case prepare_request f reason w of
        (None, w) \<Rightarrow> w
      | (Some rq, w) \<Rightarrow>
          if sender w then w\<lparr>compile_queue := compile_queue w @ [rq]\<rparr>
          else unpin f (retire_queued_to_tier0 f w))"

definition decode_reason :: "u32 \<Rightarrow> compile_reason" where
  "decode_reason reason = (if reason = 0 then CallReason else LoopBackEdge (unat (reason - 1)))"

definition tierup_hook :: "jit \<Rightarrow> addr \<Rightarrow> u32 \<Rightarrow> tierup \<Rightarrow> tierup" where
  "tierup_hook j f reason w =
     (if \<not> driver_active w then (if f \<noteq> 0 then retire_queued_to_tier0 f w else w)
      else if sync_tierup w then compile_and_install j f (decode_reason reason) w
      else enqueue f (decode_reason reason) w)"

definition compiler_step :: "jit \<Rightarrow> tierup \<Rightarrow> tierup" where
  "compiler_step j w =
     (case compile_queue w of
        [] \<Rightarrow> w
      | rq # rest \<Rightarrow>
          let w = w\<lparr>compile_queue := rest\<rparr>
          in if shutting_down w then unpin (rq_function rq) (retire_queued_to_tier0 (rq_function rq) w)
             else process_request j rq w)"

definition register_runtime_hook :: "bool \<Rightarrow> tierup \<Rightarrow> tierup" where
  "register_runtime_hook tier0_only w = w\<lparr>driver_active := True, hook := \<not> tier0_only\<rparr>"

definition unregister_runtime_hook :: "tierup \<Rightarrow> tierup" where
  "unregister_runtime_hook w = (if driver_active w then w\<lparr>driver_active := False, hook := False\<rparr> else w)"

definition shutdown_driver :: "tierup \<Rightarrow> tierup" where
  "shutdown_driver w = w\<lparr>shutting_down := True, sender := False\<rparr>"

section \<open>Probes\<close>

definition bump_saturating :: "u32 \<Rightarrow> u32" where
  "bump_saturating n = (if n = - 1 then - 1 else n + 1)"

definition saturating_mul_u32 :: "u32 \<Rightarrow> u32 \<Rightarrow> u32" where
  "saturating_mul_u32 a b = (if unat a * unat b < 2 ^ 32 then a * b else - 1)"

definition backoff_shift :: "py_function \<Rightarrow> nat" where
  "backoff_shift fn = min (unat (tier_epoch fn)) DEOPT_BACKOFF_MAX_SHIFT"

definition backed_off_threshold :: "u32 \<Rightarrow> py_function \<Rightarrow> u32" where
  "backed_off_threshold base fn = saturating_mul_u32 base (push_bit (backoff_shift fn) 1)"

definition is_due :: "py_function \<Rightarrow> bool" where
  "is_due fn \<longleftrightarrow>
     hotness fn \<ge> backed_off_threshold TIER1_DEFERRED_CALL_THRESHOLD fn \<or>
     loop_hotness fn \<ge> backed_off_threshold TIER1_LOOP_THRESHOLD fn"

definition maybe_queue_tierup :: "jit \<Rightarrow> addr \<Rightarrow> u32 \<Rightarrow> tierup \<Rightarrow> tierup" where
  "maybe_queue_tierup j f reason w =
     (if f = 0 \<or> \<not> hook w then w
      else
        let fn = fun_at w f
        in if tier fn = TIER0 \<or> tier fn = DEFERRED \<and> is_due fn
           then tierup_hook j f reason (on_fn f (\<lambda>fn. fn\<lparr>tier := QUEUED\<rparr>) w)
           else w)"

definition pon_tierup_bump_call :: "jit \<Rightarrow> addr \<Rightarrow> tierup \<Rightarrow> tierup" where
  "pon_tierup_bump_call j f w =
     (if f = 0 then w
      else
        let w = on_fn f (\<lambda>fn. fn\<lparr>hotness := bump_saturating (hotness fn)\<rparr>) w;
            fn = fun_at w f
        in if tier fn = TIER0 \<and> hotness fn \<ge> TIER1_CALL_THRESHOLD \<or>
              tier fn = DEFERRED \<and> hotness fn \<ge> backed_off_threshold TIER1_DEFERRED_CALL_THRESHOLD fn
           then maybe_queue_tierup j f 0 w else w)"

definition osr_gate :: "py_function \<Rightarrow> u32 \<Rightarrow> addr" where
  "osr_gate fn header =
     (if tier fn \<noteq> TIER1 then 0
      else if osr_entry fn \<noteq> 0 \<and> osr_loop_header fn = header then osr_entry fn else 0)"

definition pon_osr_poll :: "jit \<Rightarrow> addr \<Rightarrow> u32 \<Rightarrow> tierup \<Rightarrow> addr \<times> tierup" where
  "pon_osr_poll j f header w =
     (if f = 0 then (0, w)
      else
        let w = on_fn f (\<lambda>fn. fn\<lparr>loop_hotness := bump_saturating (loop_hotness fn)\<rparr>) w;
            fn = fun_at w f;
            w = (if tier fn = TIER0 \<and> loop_hotness fn \<ge> TIER1_LOOP_THRESHOLD \<or>
                    tier fn = DEFERRED \<and> loop_hotness fn \<ge> backed_off_threshold TIER1_LOOP_THRESHOLD fn
                 then maybe_queue_tierup j f (bump_saturating header) w else w)
        in (osr_gate (fun_at w f) header, w))"

text \<open>The end of a note that has counted too many: the target, and the stores after the compare-and-exchange has won.\<close>

definition deopt_target :: "u8 \<Rightarrow> tier_state" where
  "deopt_target epoch = (if epoch \<ge> DEOPT_PIN_EPOCH then DISABLED else DEFERRED)"

definition deopt_stores :: "(py_function \<Rightarrow> py_function) list" where
  "deopt_stores =
     [(\<lambda>fn. fn\<lparr>pf_entry := pf_code fn\<rparr>),
      (\<lambda>fn. fn\<lparr>tier_epoch := saturating_succ (tier_epoch fn)\<rparr>),
      (\<lambda>fn. fn\<lparr>deopt_count := 0\<rparr>),
      (\<lambda>fn. fn\<lparr>hotness := 0\<rparr>),
      (\<lambda>fn. fn\<lparr>loop_hotness := 0\<rparr>)]"

definition deopt :: "py_function \<Rightarrow> py_function" where
  "deopt fn =
     (if tier fn \<noteq> TIER1 then fn
      else fold (\<lambda>store fn. store fn) deopt_stores (fn\<lparr>tier := deopt_target (tier_epoch fn)\<rparr>))"

lemma deopt_eq:
  "deopt fn =
     (if tier fn \<noteq> TIER1 then fn
      else fn\<lparr>tier := deopt_target (tier_epoch fn), pf_entry := pf_code fn, tier_epoch := saturating_succ (tier_epoch fn),
              deopt_count := 0, hotness := 0, loop_hotness := 0\<rparr>)"
  by (simp add: deopt_def deopt_stores_def)

definition deopt_note :: "py_function \<Rightarrow> py_function" where
  "deopt_note fn =
     (let n = bump_saturating (deopt_count fn); fn = fn\<lparr>deopt_count := deopt_count fn + 1\<rparr>
      in if n < DEOPT_THRASH_THRESHOLD then fn else deopt fn)"

definition pon_deopt_note :: "addr \<Rightarrow> tierup \<Rightarrow> tierup" where
  "pon_deopt_note f w = (if f = 0 then w else on_fn f deopt_note w)"

section \<open>Lives of the driver\<close>

text \<open>
  What the mutators, the compiler thread and the engine do, one whole operation per step.  A function
  object may be created at an address that is not pinned: a pinned one cannot have been swept.
\<close>

datatype tier_event =
    BumpCall addr | OsrPoll addr u32 | DeoptNote addr | CompilerStep | RegisterModule ir_module "addr list"
  | SetHook bool | ClearHook | Shutdown | NewFunction addr addr

fun tier_step :: "jit \<Rightarrow> tier_event \<Rightarrow> tierup \<Rightarrow> tierup" where
  "tier_step j (BumpCall f) w = pon_tierup_bump_call j f w"
| "tier_step j (OsrPoll f header) w = snd (pon_osr_poll j f header w)"
| "tier_step j (DeoptNote f) w = pon_deopt_note f w"
| "tier_step j CompilerStep w = compiler_step j w"
| "tier_step j (RegisterModule m entries) w = register_module m entries w"
| "tier_step j (SetHook tier0_only) w = register_runtime_hook tier0_only w"
| "tier_step j ClearHook w = unregister_runtime_hook w"
| "tier_step j Shutdown w = shutdown_driver w"
| "tier_step j (NewFunction f c) w = on_fn f (\<lambda>_. py_function_new c) w"

definition allowed :: "tier_event \<Rightarrow> tierup \<Rightarrow> bool" where
  "allowed ev w =
     (case ev of
        RegisterModule m entries \<Rightarrow> length (registered w) + length (zip (fns m) entries) \<le> 2 ^ 32
      | NewFunction f c \<Rightarrow> f \<notin> pins w
      | _ \<Rightarrow> True)"

definition tierup_start :: "bool \<Rightarrow> tierup" where
  "tierup_start sync =
     \<lparr>fun_at = \<lambda>_. py_function_new 0, modules = [], registered = [], installed = [], pins = {}, compile_queue = [],
      driver_active = False, hook = False, sync_tierup = sync, sender = True, shutting_down = False\<rparr>"

fun tier_run :: "jit \<Rightarrow> tier_event list \<Rightarrow> tierup \<Rightarrow> tierup option" where
  "tier_run j [] w = Some w"
| "tier_run j (ev # evs) w = (if allowed ev w then tier_run j evs (tier_step j ev w) else None)"

section \<open>Invariant\<close>

definition queued_functions :: "tierup \<Rightarrow> addr set" where
  "queued_functions w = rq_function ` set (compile_queue w)"

definition dispatches_to :: "tier1_compilation \<Rightarrow> py_function \<Rightarrow> bool" where
  "dispatches_to c fn \<longleftrightarrow>
     pf_entry fn = c_entry c \<and> pf_tier1 fn = Some (c_entry c, c_handle c) \<and>
     (osr_entry fn \<noteq> 0 \<longrightarrow> osr_entry fn = c_osr_entry c \<and> map_option of_nat (c_osr_loop_header c) = Some (osr_loop_header fn))"

definition fn_good :: "tier1_compilation list \<Rightarrow> py_function \<Rightarrow> bool" where
  "fn_good cs fn \<longleftrightarrow>
     (if tier fn = TIER1
      then pf_entry fn \<noteq> pf_code fn \<and> deopt_count fn < DEOPT_THRASH_THRESHOLD \<and> (\<exists>c \<in> set cs. dispatches_to c fn)
      else pf_entry fn = pf_code fn) \<and>
     tier_epoch fn \<le> DEOPT_PIN_EPOCH + 1 \<and> (tier fn \<noteq> DISABLED \<longrightarrow> tier_epoch fn \<le> DEOPT_PIN_EPOCH)"

definition request_good :: "tierup \<Rightarrow> compile_request \<Rightarrow> bool" where
  "request_good w rq \<longleftrightarrow>
     rq_function rq \<noteq> 0 \<and> ir_snapshot_id rq < length (registered w) \<and>
     rf_tier0_entry (registered w ! ir_snapshot_id rq) = pf_code (fun_at w (rq_function rq))"

text \<open>The links between states, requests and pins, for every function but one that is being worked on.\<close>

definition linked_but :: "addr \<Rightarrow> tierup \<Rightarrow> bool" where
  "linked_but f w \<longleftrightarrow>
     distinct (map rq_function (compile_queue w)) \<and> pins w - {f} = queued_functions w \<and> f \<notin> queued_functions w \<and>
     (\<forall>g. g \<noteq> f \<longrightarrow> (tier (fun_at w g) = QUEUED \<longleftrightarrow> g \<in> queued_functions w)) \<and>
     (\<forall>rq \<in> set (compile_queue w). request_good w rq) \<and> length (registered w) \<le> 2 ^ 32"

definition tier_inv :: "tierup \<Rightarrow> bool" where
  "tier_inv w \<longleftrightarrow>
     (\<forall>f. fn_good (installed w) (fun_at w f)) \<and>
     distinct (map rq_function (compile_queue w)) \<and> pins w = queued_functions w \<and>
     (\<forall>f. tier (fun_at w f) = QUEUED \<longleftrightarrow> f \<in> queued_functions w) \<and>
     (\<forall>rq \<in> set (compile_queue w). request_good w rq) \<and> length (registered w) \<le> 2 ^ 32"

lemma on_fn_sel [simp]:
  "fun_at (on_fn f g w) = (fun_at w)(f := g (fun_at w f))" "compile_queue (on_fn f g w) = compile_queue w" "pins (on_fn f g w) = pins w"
  "registered (on_fn f g w) = registered w" "installed (on_fn f g w) = installed w" "modules (on_fn f g w) = modules w"
  "sender (on_fn f g w) = sender w" "shutting_down (on_fn f g w) = shutting_down w" "hook (on_fn f g w) = hook w"
  "driver_active (on_fn f g w) = driver_active w" "sync_tierup (on_fn f g w) = sync_tierup w" "queued_functions (on_fn f g w) = queued_functions w"
  by (simp_all add: on_fn_def queued_functions_def)

text \<open>One function is worked on: everything else stays, and its own record ends in a good state.\<close>

definition works_on :: "addr \<Rightarrow> tierup \<Rightarrow> tierup \<Rightarrow> bool" where
  "works_on f w w' \<longleftrightarrow>
     (\<exists>fn. fun_at w' = (fun_at w)(f := fn) \<and> pf_code fn = pf_code (fun_at w f) \<and> tier fn \<noteq> QUEUED \<and>
        tier_epoch fn = tier_epoch (fun_at w f) \<and> fn_good (installed w') fn) \<and>
     set (installed w) \<subseteq> set (installed w') \<and> compile_queue w' = compile_queue w \<and> registered w' = registered w \<and>
     pins w' = pins w"

lemma fn_good_mono: "fn_good cs fn \<Longrightarrow> set cs \<subseteq> set ds \<Longrightarrow> fn_good ds fn"
  by (auto simp: fn_good_def split: if_splits)

lemma works_on_inv:
  assumes "linked_but f w" "\<forall>g. fn_good (installed w) (fun_at w g)" "works_on f w w'"
  shows "tier_inv (unpin f w')"
proof -
  obtain fn where fn: "fun_at w' = (fun_at w)(f := fn)" "pf_code fn = pf_code (fun_at w f)" "tier fn \<noteq> QUEUED"
      "fn_good (installed w') fn" "set (installed w) \<subseteq> set (installed w')" "compile_queue w' = compile_queue w"
      "registered w' = registered w" "pins w' = pins w"
    using assms(3) by (auto simp: works_on_def)
  have q: "queued_functions (unpin f w') = queued_functions w"
    by (simp add: queued_functions_def unpin_def fn)
  have good: "fn_good (installed w') (fun_at w' g)" for g
    using fn(4) fn_good_mono [OF _ fn(5)] assms(2) by (simp add: fn(1))
  have rq: "request_good (unpin f w') r" if "request_good w r" for r
    using that fn by (auto simp: request_good_def unpin_def)
  show ?thesis
    using assms(1) good rq fn(3) q by (auto simp: tier_inv_def linked_but_def unpin_def fn)
qed

lemma tier_inv_linked: "tier_inv w \<Longrightarrow> tier (fun_at w f) \<noteq> QUEUED \<Longrightarrow> linked_but f w"
  by (auto simp: tier_inv_def linked_but_def)

section \<open>Preservation\<close>

lemma leave_queued_good:
  assumes "fn_good cs fn" "target \<in> {TIER0, DISABLED}"
  shows "fn_good cs (leave_queued target fn)" "tier (leave_queued target fn) \<noteq> QUEUED" "pf_code (leave_queued target fn) = pf_code fn"
    "tier_epoch (leave_queued target fn) = tier_epoch fn"
  using assms by (auto simp: fn_good_def leave_queued_def)

lemma works_on_leave:
  assumes "\<forall>g. fn_good (installed w) (fun_at w g)" "target \<in> {TIER0, DISABLED}"
  shows "works_on f w (on_fn f (leave_queued target) w)"
  using leave_queued_good [OF _ assms(2), of "installed w" "fun_at w f"] assms(1) by (auto simp: works_on_def)

lemma works_on_refl: "\<forall>g. fn_good (installed w) (fun_at w g) \<Longrightarrow> tier (fun_at w f) \<noteq> QUEUED \<Longrightarrow> works_on f w w"
  by (auto simp: works_on_def intro!: exI [of _ "fun_at w f"])

lemma install_record:
  "fold (\<lambda>store fn. store fn) (install_stores c) (fn\<lparr>tier := TIER1\<rparr>) =
     (case c_osr_loop_header c of
        Some header \<Rightarrow> fn\<lparr>tier := TIER1, pf_tier1 := Some (c_entry c, c_handle c), deopt_count := 0, pf_entry := c_entry c,
                          osr_loop_header := of_nat header, osr_entry := c_osr_entry c\<rparr>
      | None \<Rightarrow> fn\<lparr>tier := TIER1, pf_tier1 := Some (c_entry c, c_handle c), deopt_count := 0, pf_entry := c_entry c, osr_entry := 0\<rparr>)"
  by (simp add: install_stores_def split: option.splits)

lemma works_on_install:
  assumes good: "\<forall>g. fn_good (installed w) (fun_at w g)" and q: "tier (fun_at w f) = QUEUED"
    and c: "c_entry c \<noteq> pf_code (fun_at w f)"
  shows "works_on f w (snd (install_compilation f c w))"
proof -
  let ?fn = "fold (\<lambda>store fn. store fn) (install_stores c) ((fun_at w f)\<lparr>tier := TIER1\<rparr>)"
  have "dispatches_to c ?fn \<and> pf_code ?fn = pf_code (fun_at w f) \<and> pf_entry ?fn = c_entry c \<and> deopt_count ?fn = 0 \<and>
      tier ?fn = TIER1 \<and> tier_epoch ?fn = tier_epoch (fun_at w f)"
    by (simp add: install_record dispatches_to_def split: option.splits)
  moreover have "tier_epoch (fun_at w f) \<le> DEOPT_PIN_EPOCH" using good q by (auto simp: fn_good_def)
  ultimately have "fn_good (installed w @ [c]) ?fn"
    using c by (auto simp: fn_good_def DEOPT_THRASH_THRESHOLD_def DEOPT_PIN_EPOCH_def word_le_nat_alt)
  with \<open>_ \<and> _ \<and> _ \<and> _ \<and> _ \<and> _\<close> show ?thesis
    by (auto simp: works_on_def install_compilation_def q intro!: exI [of _ ?fn])
qed

lemma works_on_process_body:
  assumes good: "\<forall>g. fn_good (installed w) (fun_at w g)" and rq: "request_good w rq"
  shows "works_on (rq_function rq) w (process_body j rq w)"
proof -
  let ?f = "rq_function rq"
  have leave: "works_on ?f w (disable_queued ?f w)" "works_on ?f w (retire_queued_to_tier0 ?f w)"
    using works_on_leave [OF good] rq by (simp_all add: disable_queued_def retire_queued_to_tier0_def request_good_def)
  have inst: "works_on ?f w (snd (install_compilation ?f c w))"
    if "tier (fun_at w ?f) = QUEUED" "clone_registered_ir (ir_snapshot_id rq) w = Some (rf, m)" "c_entry c \<noteq> rf_tier0_entry rf"
    for c rf m
    using that rq by (intro works_on_install [OF good that(1)]) (auto simp: clone_registered_ir_def request_good_def split: if_splits)
  show ?thesis
    using leave works_on_refl [OF good, of ?f] inst
    by (auto simp: process_body_def Let_def split: option.splits sum.splits)
qed

lemma find_record_id_ok:
  assumes "find_record_id e w = Some snap" "length (registered w) \<le> 2 ^ 32"
  shows "snap < length (registered w) \<and> rf_tier0_entry (registered w ! snap) = e"
proof -
  obtain i where i: "List.find (\<lambda>index. rf_tier0_entry (registered w ! index) = e) (rev [0..<length (registered w)]) = Some i"
    "snap = i mod 2 ^ 32"
    using assms(1) by (auto simp: find_record_id_def)
  then have "i < length (registered w)" "rf_tier0_entry (registered w ! i) = e"
    by (auto simp: find_Some_iff rev_nth)
  with i(2) assms(2) show ?thesis by simp
qed

lemma fn_good_feedback [simp]: "fn_good cs (ensure_feedback len fn) = fn_good cs fn"
  by (simp add: ensure_feedback_def fn_good_def dispatches_to_def)

lemma ensure_feedback_sel [simp]: "tier (ensure_feedback len fn) = tier fn" "pf_code (ensure_feedback len fn) = pf_code fn"
  by (simp_all add: ensure_feedback_def)

lemma unpin_idle: "f \<notin> pins w \<Longrightarrow> unpin f w = w"
  by (simp add: unpin_def)

text \<open>A function that has just been marked queued and has no request yet.\<close>

definition claimed_fn :: "addr \<Rightarrow> tierup \<Rightarrow> bool" where
  "claimed_fn f w \<longleftrightarrow>
     f \<noteq> 0 \<and> tier (fun_at w f) = QUEUED \<and> linked_but f w \<and> (\<forall>g. fn_good (installed w) (fun_at w g))"

lemma prepare_request_ok:
  assumes "claimed_fn f w" "f \<notin> pins w"
  shows "case prepare_request f reason w of
      (None, w') \<Rightarrow> tier_inv w'
    | (Some rq, w') \<Rightarrow> rq_function rq = f \<and> claimed_fn f w' \<and> f \<in> pins w' \<and> request_good w' rq \<and> sender w' = sender w"
proof (cases "find_record_id (pf_code (fun_at w f)) w")
  case None
  have "tier_inv (unpin f (disable_queued f w))"
    using works_on_inv [OF _ _ works_on_leave [of w DISABLED f]] assms(1)
    by (auto simp: claimed_fn_def disable_queued_def)
  moreover have "unpin f (disable_queued f w) = disable_queued f w" using assms(2) by (intro unpin_idle) (simp add: disable_queued_def)
  ultimately show ?thesis using None assms(1) by (simp add: prepare_request_def claimed_fn_def)
next
  case (Some snap)
  let ?w = "\<lambda>len. pin f (on_fn f (ensure_feedback len) w)"
  have snap: "snap < length (registered w)" "rf_tier0_entry (registered w ! snap) = pf_code (fun_at w f)"
    using find_record_id_ok [OF Some] assms(1) by (auto simp: claimed_fn_def linked_but_def)
  have rq: "request_good w r \<Longrightarrow> request_good (?w len) r" for r len
    by (auto simp: request_good_def pin_def)
  have q: "queued_functions (?w len) = queued_functions w" for len
    by (simp add: pin_def queued_functions_def)
  have "linked_but f (?w len)" for len
    using assms(1) rq q [of len] by (auto simp: claimed_fn_def linked_but_def pin_def)
  then have "claimed_fn f (?w len)" for len
    using assms(1) by (auto simp: claimed_fn_def pin_def)
  then show ?thesis using Some assms(1) snap by (auto simp: prepare_request_def claimed_fn_def Let_def request_good_def pin_def)
qed

lemma process_request_inv:
  assumes "claimed_fn f w" "request_good w rq" "rq_function rq = f"
  shows "tier_inv (process_request j rq w)"
  using works_on_inv [OF _ _ works_on_process_body] assms by (auto simp: process_request_def claimed_fn_def)

lemma retire_inv:
  assumes "claimed_fn f w"
  shows "tier_inv (unpin f (retire_queued_to_tier0 f w))"
  using works_on_inv [OF _ _ works_on_leave [of w TIER0 f]] assms by (auto simp: claimed_fn_def retire_queued_to_tier0_def)

lemma enqueue_inv:
  assumes "claimed_fn f w" "f \<notin> pins w"
  shows "tier_inv (enqueue f reason w)"
proof (cases "prepare_request f reason w")
  case (Pair r w')
  show ?thesis
  proof (cases r)
    case None
    then show ?thesis using prepare_request_ok [OF assms, of reason] Pair by (simp add: enqueue_def)
  next
    case (Some rq)
    then have rq: "rq_function rq = f" "claimed_fn f w'" "f \<in> pins w'" "request_good w' rq"
      using prepare_request_ok [OF assms, of reason] Pair by simp_all
    have keep: "request_good w' r \<Longrightarrow> request_good (w'\<lparr>compile_queue := q\<rparr>) r" for r q
      by (simp add: request_good_def)
    let ?w = "w'\<lparr>compile_queue := compile_queue w' @ [rq]\<rparr>"
    have q: "queued_functions ?w = insert f (queued_functions w')"
      using rq(1) by (simp add: queued_functions_def)
    have "tier (fun_at ?w g) = QUEUED \<longleftrightarrow> g \<in> queued_functions ?w" for g
      unfolding q using rq(2) by (cases "g = f") (simp_all add: claimed_fn_def linked_but_def)
    moreover have "pins ?w = queued_functions ?w"
      unfolding q using rq(2, 3) by (auto simp: claimed_fn_def linked_but_def)
    moreover have "distinct (map rq_function (compile_queue ?w))"
      using rq(1, 2) by (auto simp: claimed_fn_def linked_but_def queued_functions_def)
    ultimately have "tier_inv ?w"
      using rq keep by (auto simp: claimed_fn_def linked_but_def tier_inv_def)
    then show ?thesis using retire_inv [OF rq(2)] by (simp add: enqueue_def Pair Some)
  qed
qed

lemma tierup_hook_inv:
  assumes "claimed_fn f w" "f \<notin> pins w"
  shows "tier_inv (tierup_hook j f reason w)"
proof -
  have sync: "tier_inv (compile_and_install j f r w)" for r
    using prepare_request_ok [OF assms, of r] process_request_inv
    by (auto simp: compile_and_install_def split: prod.splits option.splits)
  have "f \<notin> pins (retire_queued_to_tier0 f w)" using assms(2) by (auto simp: retire_queued_to_tier0_def)
  then show ?thesis
    using sync enqueue_inv [OF assms] retire_inv [OF assms(1)] unpin_idle [of f "retire_queued_to_tier0 f w"] assms(1)
    by (simp add: tierup_hook_def claimed_fn_def)
qed

lemma tier_inv_upd:
  assumes "tier_inv w" "\<And>cs. fn_good cs (fun_at w f) \<Longrightarrow> fn_good cs (g (fun_at w f))"
    "tier (g (fun_at w f)) = QUEUED \<longleftrightarrow> tier (fun_at w f) = QUEUED" "pf_code (g (fun_at w f)) = pf_code (fun_at w f)"
  shows "tier_inv (on_fn f g w)"
proof -
  have "request_good w r \<Longrightarrow> request_good (on_fn f g w) r" for r
    using assms(4) by (auto simp: request_good_def)
  then show ?thesis using assms by (auto simp: tier_inv_def)
qed

lemma maybe_queue_inv:
  assumes "tier_inv w"
  shows "tier_inv (maybe_queue_tierup j f reason w)"
proof (cases "f \<noteq> 0 \<and> hook w \<and> (tier (fun_at w f) = TIER0 \<or> tier (fun_at w f) = DEFERRED \<and> is_due (fun_at w f))")
  case True
  let ?w = "on_fn f (\<lambda>fn. fn\<lparr>tier := QUEUED\<rparr>) w"
  have idle: "tier (fun_at w f) \<noteq> QUEUED" "tier (fun_at w f) \<noteq> TIER1" "tier (fun_at w f) \<noteq> DISABLED" using True by auto
  have rq: "request_good w r \<Longrightarrow> request_good ?w r" for r by (auto simp: request_good_def)
  have "fn_good (installed w) ((fun_at w f)\<lparr>tier := QUEUED\<rparr>)"
    using assms idle by (auto simp: tier_inv_def fn_good_def)
  moreover have "linked_but f ?w"
    using tier_inv_linked [OF assms idle(1)] rq by (auto simp: linked_but_def)
  ultimately have "claimed_fn f ?w" using True assms by (simp add: claimed_fn_def tier_inv_def)
  moreover have "f \<notin> pins ?w" using assms idle by (auto simp: tier_inv_def)
  ultimately show ?thesis using True tierup_hook_inv by (auto simp: maybe_queue_tierup_def Let_def)
qed (use assms in \<open>auto simp: maybe_queue_tierup_def Let_def\<close>)

lemma deopt_note_good:
  assumes "fn_good cs fn"
  shows "fn_good cs (deopt_note fn)" "tier (deopt_note fn) = QUEUED \<longleftrightarrow> tier fn = QUEUED" "pf_code (deopt_note fn) = pf_code fn"
proof -
  show "tier (deopt_note fn) = QUEUED \<longleftrightarrow> tier fn = QUEUED" "pf_code (deopt_note fn) = pf_code fn"
    by (auto simp: deopt_note_def deopt_eq deopt_target_def Let_def)
  show "fn_good cs (deopt_note fn)"
  proof (cases "tier fn = TIER1")
    case True
    then have c: "deopt_count fn < 64" and e: "tier_epoch fn \<le> 8"
      using assms by (auto simp: fn_good_def DEOPT_THRASH_THRESHOLD_def DEOPT_PIN_EPOCH_def)
    have n: "bump_saturating (deopt_count fn) = deopt_count fn + 1"
      using c by (auto simp: bump_saturating_def)
    have succ: "saturating_succ (tier_epoch fn) \<le> 9" "\<not> tier_epoch fn \<ge> 8 \<Longrightarrow> saturating_succ (tier_epoch fn) \<le> 8"
      using e unfolding saturating_succ_def by (auto, unat_arith+)
    show ?thesis
      using assms True succ
      by (auto simp: deopt_note_def deopt_eq deopt_target_def Let_def n fn_good_def dispatches_to_def DEOPT_THRASH_THRESHOLD_def DEOPT_PIN_EPOCH_def)
  next
    case False
    then show ?thesis using assms by (auto simp: deopt_note_def deopt_eq deopt_target_def Let_def fn_good_def)
  qed
qed

lemma compiler_step_inv:
  assumes "tier_inv w"
  shows "tier_inv (compiler_step j w)"
proof (cases "compile_queue w")
  case (Cons rq rest)
  let ?f = "rq_function rq" and ?w = "w\<lparr>compile_queue := rest\<rparr>"
  have q: "queued_functions w = insert ?f (queued_functions ?w)" by (simp add: queued_functions_def Cons)
  have rqs: "request_good w r \<Longrightarrow> request_good ?w r" for r by (simp add: request_good_def)
  have "?f \<notin> queued_functions ?w" using assms by (auto simp: tier_inv_def Cons queued_functions_def)
  then have "linked_but ?f ?w" using assms q rqs by (auto simp: tier_inv_def linked_but_def Cons)
  then have "claimed_fn ?f ?w" using assms q by (auto simp: tier_inv_def claimed_fn_def Cons request_good_def)
  moreover have "request_good ?w rq" using assms rqs by (simp add: tier_inv_def Cons)
  ultimately show ?thesis
    using retire_inv process_request_inv by (simp add: compiler_step_def Cons Let_def)
qed (use assms in \<open>simp add: compiler_step_def\<close>)

lemma tier_inv_cong:
  assumes "tier_inv w" "fun_at w' = fun_at w" "compile_queue w' = compile_queue w" "pins w' = pins w" "installed w' = installed w"
    "registered w' = registered w @ rs" "length (registered w') \<le> 2 ^ 32"
  shows "tier_inv w'"
proof -
  have "request_good w r \<Longrightarrow> request_good w' r" for r using assms by (auto simp: request_good_def nth_append)
  then show ?thesis using assms by (auto simp: tier_inv_def queued_functions_def)
qed

lemma fn_good_counters:
  "fn_good cs (fn\<lparr>hotness := n\<rparr>) = fn_good cs fn" "fn_good cs (fn\<lparr>loop_hotness := n\<rparr>) = fn_good cs fn"
  by (simp_all add: fn_good_def dispatches_to_def)

lemma run_event_inv:
  assumes "tier_inv w" "allowed ev w"
  shows "tier_inv (tier_step j ev w)"
proof -
  have len: "length (registered w) \<le> 2 ^ 32" using assms(1) by (simp add: tier_inv_def)
  show ?thesis
  proof (cases ev)
    case (BumpCall f)
    have "tier_inv (on_fn f (\<lambda>fn. fn\<lparr>hotness := bump_saturating (hotness fn)\<rparr>) w)"
      by (rule tier_inv_upd [OF assms(1)]) (simp_all add: fn_good_counters)
    then show ?thesis using BumpCall assms(1) maybe_queue_inv by (simp add: pon_tierup_bump_call_def Let_def)
  next
    case (OsrPoll f h)
    have "tier_inv (on_fn f (\<lambda>fn. fn\<lparr>loop_hotness := bump_saturating (loop_hotness fn)\<rparr>) w)"
      by (rule tier_inv_upd [OF assms(1)]) (simp_all add: fn_good_counters)
    then show ?thesis using OsrPoll assms(1) maybe_queue_inv by (simp add: pon_osr_poll_def Let_def)
  next
    case (DeoptNote f)
    have "tier_inv (on_fn f deopt_note w)"
    proof (rule tier_inv_upd [OF assms(1)])
      show "fn_good cs (fun_at w f) \<Longrightarrow> fn_good cs (deopt_note (fun_at w f))" for cs by (rule deopt_note_good)
      have "fn_good (installed w) (fun_at w f)" using assms(1) by (simp add: tier_inv_def)
      then show "tier (deopt_note (fun_at w f)) = QUEUED \<longleftrightarrow> tier (fun_at w f) = QUEUED"
        "pf_code (deopt_note (fun_at w f)) = pf_code (fun_at w f)" by (rule deopt_note_good)+
    qed
    then show ?thesis using DeoptNote assms(1) by (simp add: pon_deopt_note_def)
  next
    case (NewFunction f c)
    then have "f \<notin> queued_functions w" using assms by (simp add: allowed_def tier_inv_def)
    then have "request_good w r \<Longrightarrow> r \<in> set (compile_queue w) \<Longrightarrow> request_good (on_fn f (\<lambda>_. py_function_new c) w) r" for r
      by (auto simp: request_good_def queued_functions_def)
    then show ?thesis using assms(1) \<open>f \<notin> queued_functions w\<close> NewFunction
      by (auto simp: tier_inv_def fn_good_def py_function_new_def)
  next
    case (RegisterModule m es)
    then show ?thesis using assms
      by (auto simp: allowed_def register_module_def intro!: tier_inv_cong [OF assms(1)])
  next
    case (SetHook b)
    then show ?thesis using len by (auto simp: register_runtime_hook_def intro!: tier_inv_cong [OF assms(1)])
  next
    case ClearHook
    then show ?thesis using len by (auto simp: unregister_runtime_hook_def intro!: tier_inv_cong [OF assms(1)])
  next
    case Shutdown
    then show ?thesis using len by (auto simp: shutdown_driver_def intro!: tier_inv_cong [OF assms(1)])
  qed (use assms(1) compiler_step_inv in simp)
qed

lemma tier_run_inv: "tier_inv w \<Longrightarrow> tier_run j evs w = Some w' \<Longrightarrow> tier_inv w'"
proof (induction evs arbitrary: w)
  case (Cons ev evs)
  then show ?case using run_event_inv [of w ev j] by (auto split: if_splits)
qed simp

lemma tierup_start_inv: "tier_inv (tierup_start sync)"
  by (simp add: tierup_start_def tier_inv_def fn_good_def py_function_new_def queued_functions_def)

section \<open>Work on one function\<close>

text \<open>Work on one function leaves the states of the others and every epoch alone.\<close>

definition same_but :: "addr \<Rightarrow> tierup \<Rightarrow> tierup \<Rightarrow> bool" where
  "same_but f w w' \<longleftrightarrow>
     (\<forall>g. tier_epoch (fun_at w' g) = tier_epoch (fun_at w g)) \<and> (\<forall>g. g \<noteq> f \<longrightarrow> tier (fun_at w' g) = tier (fun_at w g))"

lemma same_but_refl: "same_but f w w"
  by (simp add: same_but_def)

lemma same_but_trans: "same_but f w w1 \<Longrightarrow> same_but f w1 w2 \<Longrightarrow> same_but f w w2"
  by (simp add: same_but_def)

lemma same_but_upd: "(\<And>fn. tier_epoch (g fn) = tier_epoch fn) \<Longrightarrow> same_but f w (on_fn f g w)"
  by (simp add: same_but_def)

lemma same_but_pins: "same_but f w w' \<Longrightarrow> same_but f w (unpin h w')" "same_but f w w' \<Longrightarrow> same_but f w (pin h w')"
  by (simp_all add: same_but_def pin_def unpin_def)

lemma same_but_leave: "same_but f w (disable_queued f w)" "same_but f w (retire_queued_to_tier0 f w)"
  by (auto simp: disable_queued_def retire_queued_to_tier0_def same_but_refl leave_queued_def intro!: same_but_upd)

lemma same_but_install: "same_but f w (snd (install_compilation f c w))"
  by (auto simp: same_but_def install_compilation_def install_record split: option.splits)

lemma same_but_process_body: "same_but (rq_function rq) w (process_body j rq w)"
  using same_but_leave same_but_install same_but_refl
  by (auto simp: process_body_def Let_def split: option.splits sum.splits)

lemma same_but_process_request: "same_but (rq_function rq) w (process_request j rq w)"
  by (simp add: process_request_def same_but_refl same_but_pins same_but_process_body)

lemma prepare_request_keeps:
  "prepare_request f reason w = (r, w') \<Longrightarrow> same_but f w w' \<and> (\<forall>rq. r = Some rq \<longrightarrow> rq_function rq = f)"
  using same_but_upd [of "ensure_feedback _"]
  by (auto simp: prepare_request_def Let_def same_but_refl same_but_leave ensure_feedback_def
      intro!: same_but_pins same_but_upd split: if_splits option.splits)

lemma same_but_hook: "same_but f w (tierup_hook j f reason w)"
proof -
  have "same_but f w (enqueue f r w)" "same_but f w (compile_and_install j f r w)" for r
  proof -
    obtain q w' where p: "prepare_request f r w = (q, w')" by fastforce
    note keep = prepare_request_keeps [OF p]
    have "same_but f w' (w'\<lparr>compile_queue := qs\<rparr>)" for qs by (simp add: same_but_def)
    then show "same_but f w (enqueue f r w)" "same_but f w (compile_and_install j f r w)"
      using keep same_but_leave(2) [of f w'] same_but_process_request [of _ w' j]
      by (auto simp: enqueue_def compile_and_install_def p split: option.splits intro: same_but_trans same_but_pins)
  qed
  then show ?thesis using same_but_leave(2) [of f w] same_but_refl by (simp add: tierup_hook_def)
qed

definition promoted :: "py_function \<Rightarrow> py_function \<Rightarrow> bool" where
  "promoted fn fn' \<longleftrightarrow> tier fn \<noteq> TIER1 \<and> tier fn' = TIER1"

section \<open>The newest code of a function\<close>

text \<open>
  The compilation a function object was given last: a promotion gives it the last one installed, and a new
  object at the address starts with none.
\<close>

fun newest :: "jit \<Rightarrow> addr \<Rightarrow> tier_event list \<Rightarrow> tierup \<Rightarrow> tier1_compilation option \<Rightarrow> tier1_compilation option" where
  "newest j f [] w c = c"
| "newest j f (ev # evs) w c =
     (let w' = tier_step j ev w
      in newest j f evs w'
           (if \<exists>code. ev = NewFunction f code then None
            else if promoted (fun_at w f) (fun_at w' f) then Some (last (installed w')) else c))"

definition dispatch_fields :: "py_function \<Rightarrow> addr \<times> (addr \<times> addr) option \<times> addr \<times> u32" where
  "dispatch_fields fn = (pf_entry fn, pf_tier1 fn, osr_entry fn, osr_loop_header fn)"

lemma dispatches_to_cong: "dispatch_fields fn = dispatch_fields fn' \<Longrightarrow> dispatches_to c fn = dispatches_to c fn'"
  by (simp add: dispatch_fields_def dispatches_to_def)

definition keeps_code :: "py_function \<Rightarrow> py_function \<Rightarrow> bool" where
  "keeps_code fn fn' \<longleftrightarrow> (tier fn' = TIER1 \<longrightarrow> tier fn = TIER1 \<and> dispatch_fields fn' = dispatch_fields fn)"

definition same_code :: "py_function \<Rightarrow> py_function \<Rightarrow> bool" where
  "same_code fn fn' \<longleftrightarrow> (tier fn' = TIER1 \<longleftrightarrow> tier fn = TIER1) \<and> keeps_code fn fn'"

text \<open>A step that gives no code, and one that may end by giving one function its code.\<close>

definition no_gift :: "tierup \<Rightarrow> tierup \<Rightarrow> bool" where
  "no_gift w w' \<longleftrightarrow> (\<forall>g. same_code (fun_at w g) (fun_at w' g)) \<and> installed w' = installed w"

definition one_gift :: "tierup \<Rightarrow> tierup \<Rightarrow> bool" where
  "one_gift w w' \<longleftrightarrow>
     (\<forall>g. keeps_code (fun_at w g) (fun_at w' g) \<or>
          tier (fun_at w g) \<noteq> TIER1 \<and> installed w' \<noteq> [] \<and> dispatches_to (last (installed w')) (fun_at w' g)) \<and>
     set (installed w) \<subseteq> set (installed w')"

lemma keeps_code_refl [simp]: "keeps_code fn fn"
  by (simp add: keeps_code_def)

lemma same_code_refl [simp]: "same_code fn fn"
  by (simp add: same_code_def)

lemma no_gift_refl [simp]: "no_gift w w"
  by (simp add: no_gift_def)

lemma no_gift_one: "no_gift w w' \<Longrightarrow> one_gift w w'"
  by (auto simp: no_gift_def one_gift_def same_code_def)

lemma same_code_trans: "same_code fn fn1 \<Longrightarrow> same_code fn1 fn2 \<Longrightarrow> same_code fn fn2"
  unfolding same_code_def keeps_code_def by argo

lemma no_gift_trans: "no_gift w w1 \<Longrightarrow> no_gift w1 w2 \<Longrightarrow> no_gift w w2"
  unfolding no_gift_def using same_code_trans by (metis (no_types))

lemma no_gift_then: "no_gift w w1 \<Longrightarrow> one_gift w1 w2 \<Longrightarrow> one_gift w w2"
proof -
  assume a: "no_gift w w1" and b: "one_gift w1 w2"
  have "keeps_code (fun_at w g) (fun_at w2 g) \<or>
      tier (fun_at w g) \<noteq> TIER1 \<and> installed w2 \<noteq> [] \<and> dispatches_to (last (installed w2)) (fun_at w2 g)" for g
  proof -
    have "same_code (fun_at w g) (fun_at w1 g)" using a by (simp add: no_gift_def)
    moreover have "keeps_code (fun_at w1 g) (fun_at w2 g) \<or>
      tier (fun_at w1 g) \<noteq> TIER1 \<and> installed w2 \<noteq> [] \<and> dispatches_to (last (installed w2)) (fun_at w2 g)"
      using b by (simp add: one_gift_def)
    ultimately show ?thesis unfolding same_code_def keeps_code_def by argo
  qed
  then show ?thesis using a b by (simp add: no_gift_def one_gift_def)
qed

lemma one_gift_unpin: "one_gift w w' \<Longrightarrow> one_gift w (unpin f w')"
  by (simp add: one_gift_def unpin_def)

lemma no_gift_upd: "same_code (fun_at w f) (g (fun_at w f)) \<Longrightarrow> no_gift w (on_fn f g w)"
  by (simp add: no_gift_def)

lemma no_gift_frame: "fun_at w' = fun_at w \<Longrightarrow> installed w' = installed w \<Longrightarrow> no_gift w w'"
  by (simp add: no_gift_def)

lemma same_code_leave: "target \<in> {TIER0, DISABLED} \<Longrightarrow> same_code fn (leave_queued target fn)"
  by (auto simp: same_code_def keeps_code_def leave_queued_def)

lemma no_gift_leave: "no_gift w (disable_queued f w)" "no_gift w (retire_queued_to_tier0 f w)"
  by (auto simp: disable_queued_def retire_queued_to_tier0_def intro!: no_gift_upd same_code_leave)

lemma one_gift_install: "one_gift w (snd (install_compilation f c w))"
proof (cases "tier (fun_at w f) = QUEUED")
  case True
  have "dispatches_to c (fold (\<lambda>store fn. store fn) (install_stores c) (fn\<lparr>tier := TIER1\<rparr>))" for fn
    by (simp add: install_record dispatches_to_def split: option.splits)
  then show ?thesis using True by (auto simp: one_gift_def install_compilation_def)
qed (simp add: install_compilation_def no_gift_one)

lemma one_gift_process_request: "one_gift w (process_request j rq w)"
proof -
  have "one_gift w (process_body j rq w)"
    using no_gift_leave [THEN no_gift_one] one_gift_install no_gift_one [OF no_gift_refl]
    by (auto simp: process_body_def Let_def split: option.splits sum.splits)
  then show ?thesis by (simp add: process_request_def one_gift_unpin no_gift_one)
qed

lemma prepare_no_gift: "prepare_request f reason w = (r, w') \<Longrightarrow> no_gift w w'"
proof -
  have "no_gift w (pin f (on_fn f (ensure_feedback len) w))" for len
    by (rule no_gift_trans [OF no_gift_upd no_gift_frame]) (auto simp: same_code_def keeps_code_def ensure_feedback_def dispatch_fields_def pin_def)
  then show "prepare_request f reason w = (r, w') \<Longrightarrow> no_gift w w'"
    using no_gift_leave(1) [of w f] by (auto simp: prepare_request_def Let_def split: if_splits option.splits)
qed

lemma one_gift_hook: "one_gift w (tierup_hook j f reason w)"
proof -
  have "one_gift w (enqueue f r w)" "one_gift w (compile_and_install j f r w)" for r
  proof -
    obtain q w' where p: "prepare_request f r w = (q, w')" by fastforce
    note quiet = prepare_no_gift [OF p]
    have "no_gift w' (w'\<lparr>compile_queue := qs\<rparr>)" for qs by (rule no_gift_frame) simp_all
    then show "one_gift w (enqueue f r w)"
      using no_gift_leave(2) [of w' f, THEN no_gift_one, THEN one_gift_unpin, of f] quiet
      by (auto simp: enqueue_def p no_gift_one split: option.splits intro: no_gift_then no_gift_trans [THEN no_gift_one])
    show "one_gift w (compile_and_install j f r w)"
      using quiet one_gift_process_request [of w' j]
      by (auto simp: compile_and_install_def p no_gift_one split: option.splits intro: no_gift_then)
  qed
  then show ?thesis using no_gift_leave(2) [of w f, THEN no_gift_one] by (simp add: tierup_hook_def no_gift_one)
qed

lemma one_gift_maybe_queue: "one_gift w (maybe_queue_tierup j f reason w)"
proof (cases "tier (fun_at w f) = TIER0 \<or> tier (fun_at w f) = DEFERRED")
  case True
  then have "no_gift w (on_fn f (\<lambda>fn. fn\<lparr>tier := QUEUED\<rparr>) w)"
    by (intro no_gift_upd) (auto simp: same_code_def keeps_code_def)
  then show ?thesis using no_gift_then [OF _ one_gift_hook] by (auto simp: maybe_queue_tierup_def Let_def no_gift_one)
qed (auto simp: maybe_queue_tierup_def Let_def no_gift_one)

lemma same_code_counters: "same_code fn (fn\<lparr>hotness := n\<rparr>)" "same_code fn (fn\<lparr>loop_hotness := n\<rparr>)"
  by (simp_all add: same_code_def keeps_code_def dispatch_fields_def)

lemma one_gift_note: "one_gift w (on_fn f deopt_note w)"
  by (simp add: one_gift_def keeps_code_def dispatch_fields_def deopt_note_def deopt_eq deopt_target_def Let_def)

lemma run_event_gift:
  assumes "\<And>f c. ev \<noteq> NewFunction f c"
  shows "one_gift w (tier_step j ev w)"
proof (cases ev)
  case (BumpCall f)
  have "no_gift w (on_fn f (\<lambda>fn. fn\<lparr>hotness := bump_saturating (hotness fn)\<rparr>) w)" by (rule no_gift_upd) (rule same_code_counters)
  then show ?thesis using BumpCall no_gift_then [OF _ one_gift_maybe_queue] no_gift_one by (simp add: pon_tierup_bump_call_def Let_def)
next
  case (OsrPoll f h)
  have "no_gift w (on_fn f (\<lambda>fn. fn\<lparr>loop_hotness := bump_saturating (loop_hotness fn)\<rparr>) w)"
    by (rule no_gift_upd) (rule same_code_counters)
  then show ?thesis using OsrPoll no_gift_then [OF _ one_gift_maybe_queue] no_gift_one by (simp add: pon_osr_poll_def Let_def)
next
  case (DeoptNote f)
  then show ?thesis using one_gift_note by (simp add: pon_deopt_note_def no_gift_one)
next
  case CompilerStep
  have "no_gift w (w\<lparr>compile_queue := qs\<rparr>)" for qs by (rule no_gift_frame) simp_all
  then have "one_gift w (process_request j rq (w\<lparr>compile_queue := qs\<rparr>))"
    "one_gift w (unpin f (retire_queued_to_tier0 f (w\<lparr>compile_queue := qs\<rparr>)))" for f rq qs
    using no_gift_then one_gift_process_request no_gift_leave(2) [THEN no_gift_one, THEN one_gift_unpin] by blast+
  then show ?thesis using CompilerStep by (simp add: compiler_step_def Let_def no_gift_one split: list.splits)
qed (use assms in \<open>auto simp: register_module_def register_runtime_hook_def unregister_runtime_hook_def shutdown_driver_def
    intro!: no_gift_one no_gift_frame\<close>)

definition gift_held :: "tier1_compilation option \<Rightarrow> py_function \<Rightarrow> tierup \<Rightarrow> bool" where
  "gift_held c fn w \<longleftrightarrow> (tier fn = TIER1 \<longrightarrow> (\<exists>d. c = Some d \<and> d \<in> set (installed w) \<and> dispatches_to d fn))"

lemma newest_code:
  "tier_run j evs w = Some w' \<Longrightarrow> gift_held c (fun_at w f) w \<Longrightarrow> gift_held (newest j f evs w c) (fun_at w' f) w'"
proof (induction evs arbitrary: w c)
  case (Cons ev evs)
  let ?w = "tier_step j ev w"
  have "gift_held (if \<exists>code. ev = NewFunction f code then None
      else if promoted (fun_at w f) (fun_at ?w f) then Some (last (installed ?w)) else c) (fun_at ?w f) ?w"
  proof (cases "\<exists>g code. ev = NewFunction g code")
    case True
    then show ?thesis using Cons.prems(2) by (auto simp: gift_held_def py_function_new_def promoted_def)
  next
    case False
    then have gift: "one_gift w ?w" by (intro run_event_gift) auto
    then consider "keeps_code (fun_at w f) (fun_at ?w f)"
      | "tier (fun_at w f) \<noteq> TIER1" "installed ?w \<noteq> []" "dispatches_to (last (installed ?w)) (fun_at ?w f)"
      by (auto simp: one_gift_def)
    then show ?thesis
    proof cases
      case 1
      then show ?thesis
        using Cons.prems(2) False gift dispatches_to_cong [of "fun_at ?w f" "fun_at w f"]
        by (auto simp: keeps_code_def gift_held_def promoted_def one_gift_def)
    next
      case 2
      then show ?thesis using False by (auto simp: gift_held_def promoted_def)
    qed
  qed
  then show ?case using Cons.IH [of ?w] Cons.prems(1) by (auto simp: Let_def split: if_splits)
qed simp

section \<open>Thresholds\<close>

lemma unat_of_nat_u32: "n < 2 ^ 32 \<Longrightarrow> unat (of_nat n :: u32) = n"
  by (simp add: unat_of_nat)

definition call_limit :: "py_function \<Rightarrow> nat" where
  "call_limit fn = (if tier fn = TIER0 then 16 else 16 * 2 ^ min (unat (tier_epoch fn)) 6)"

lemma threshold_exact:
  assumes "unat base \<le> 10000"
  shows "unat (backed_off_threshold base fn) = unat base * 2 ^ min (unat (tier_epoch fn)) 6"
proof -
  let ?k = "min (unat (tier_epoch fn)) 6"
  have "(2 :: nat) ^ ?k \<le> 2 ^ 6" by (intro power_increasing) auto
  then have small: "unat base * 2 ^ ?k < 2 ^ 32"
    using assms mult_mono [of "unat base" 10000 "2 ^ ?k" "2 ^ 6"] by simp
  have "(2 :: nat) ^ ?k < 2 ^ 32" by (intro power_strict_increasing) auto
  then have two: "unat (2 ^ ?k :: u32) = 2 ^ ?k" using unat_of_nat_u32 [of "2 ^ ?k"] by simp
  show ?thesis
    using small unat_mult_lem [of base "2 ^ ?k"]
    by (simp add: backed_off_threshold_def backoff_shift_def DEOPT_BACKOFF_MAX_SHIFT_def saturating_mul_u32_def push_bit_of_1 two)
qed

lemma call_limit_bounds: "16 \<le> call_limit fn" "call_limit fn \<le> 1024"
proof -
  have "(2 :: nat) ^ min (unat (tier_epoch fn)) 6 \<le> 2 ^ 6" by (intro power_increasing) auto
  then show "16 \<le> call_limit fn" "call_limit fn \<le> 1024" by (simp_all add: call_limit_def)
qed

lemma hot_iff:
  assumes "tier fn \<in> {TIER0, DEFERRED}" "n < 2 ^ 32"
  shows "tier fn = TIER0 \<and> (of_nat n :: u32) \<ge> TIER1_CALL_THRESHOLD \<or>
      tier fn = DEFERRED \<and> of_nat n \<ge> backed_off_threshold TIER1_DEFERRED_CALL_THRESHOLD fn \<longleftrightarrow> call_limit fn \<le> n"
proof -
  have n: "unat (of_nat n :: u32) = n" using assms(2) by (rule unat_of_nat_u32)
  show ?thesis
    using assms(1) threshold_exact [of TIER1_DEFERRED_CALL_THRESHOLD fn]
    by (auto simp: word_le_nat_alt n call_limit_def TIER1_CALL_THRESHOLD_def TIER1_DEFERRED_CALL_THRESHOLD_def)
qed

lemma backed_off_hotness [simp]:
  "backed_off_threshold b (fn\<lparr>hotness := n\<rparr>) = backed_off_threshold b fn" "call_limit (fn\<lparr>hotness := n\<rparr>) = call_limit fn"
  by (simp_all add: backed_off_threshold_def backoff_shift_def call_limit_def)

lemma on_fn_upd: "on_fn f g (on_fn f h w) = on_fn f (g \<circ> h) w"
  by (simp add: on_fn_def)

lemma on_fn_cong: "g (fun_at w f) = h (fun_at w f) \<Longrightarrow> on_fn f g w = on_fn f h w"
  by (simp add: on_fn_def)

lemma on_fn_same: "g (fun_at w f) = fun_at w f \<Longrightarrow> on_fn f g w = w"
  by (simp add: on_fn_def)

lemma counter_idem: "hotness fn = n \<Longrightarrow> fn\<lparr>hotness := n\<rparr> = fn" "deopt_count fn = k \<Longrightarrow> fn\<lparr>deopt_count := k\<rparr> = fn"
  by (cases fn; simp)+

lemma bump_of_nat: "n + 1 < 2 ^ 32 \<Longrightarrow> bump_saturating (of_nat n) = of_nat (Suc n)"
proof -
  assume "n + 1 < 2 ^ 32"
  then have "unat (of_nat n :: u32) = n" by (intro unat_of_nat_u32) simp
  moreover have "unat (- 1 :: u32) = 2 ^ 32 - 1" by (simp add: unsigned_minus_1_eq_mask mask_eq_exp_minus_1)
  ultimately have "(of_nat n :: u32) \<noteq> - 1" using \<open>n + 1 < 2 ^ 32\<close> by (metis add_lessD1 less_diff_conv nat_neq_iff)
  then show ?thesis by (simp add: bump_saturating_def add.commute)
qed

lemma cold_calls:
  assumes "f \<noteq> 0" "tier (fun_at w f) \<in> {TIER0, DEFERRED}" "hotness (fun_at w f) = 0"
  shows "n < call_limit (fun_at w f) \<Longrightarrow> (pon_tierup_bump_call j f ^^ n) w = on_fn f (\<lambda>fn. fn\<lparr>hotness := of_nat n\<rparr>) w"
proof (induction n)
  case 0
  then show ?case using assms(3) by (simp add: on_fn_same counter_idem)
next
  case (Suc n)
  let ?fn = "fun_at w f"
  have big: "Suc n < 2 ^ 32" using Suc.prems call_limit_bounds(2) [of ?fn] by simp
  have "\<not> (tier ?fn = TIER0 \<and> (of_nat (Suc n) :: u32) \<ge> TIER1_CALL_THRESHOLD \<or>
      tier ?fn = DEFERRED \<and> of_nat (Suc n) \<ge> backed_off_threshold TIER1_DEFERRED_CALL_THRESHOLD ?fn)"
    using hot_iff [OF assms(2) big] Suc.prems by simp
  then have "pon_tierup_bump_call j f (on_fn f (\<lambda>fn. fn\<lparr>hotness := of_nat n\<rparr>) w) = on_fn f (\<lambda>fn. fn\<lparr>hotness := of_nat (Suc n)\<rparr>) w"
    using assms(1) bump_of_nat [of n] big
    by (auto simp: pon_tierup_bump_call_def Let_def on_fn_upd o_def simp del: of_nat_Suc)
  with Suc show ?case by simp
qed

lemma last_cold_call:
  assumes "f \<noteq> 0" "tier (fun_at w f) \<in> {TIER0, DEFERRED}" "hotness (fun_at w f) = 0" "hook w"
  shows "(pon_tierup_bump_call j f ^^ call_limit (fun_at w f)) w =
    tierup_hook j f 0 (on_fn f (\<lambda>fn. fn\<lparr>hotness := of_nat (call_limit fn), tier := QUEUED\<rparr>) w)"
proof -
  let ?fn = "fun_at w f"
  obtain n where n: "call_limit ?fn = Suc n" using call_limit_bounds(1) [of ?fn] by (cases "call_limit ?fn") auto
  have big: "Suc n < 2 ^ 32" using n call_limit_bounds(2) [of ?fn] by simp
  have hot: "tier ?fn = TIER0 \<and> (of_nat (Suc n) :: u32) \<ge> TIER1_CALL_THRESHOLD \<or>
      tier ?fn = DEFERRED \<and> of_nat (Suc n) \<ge> backed_off_threshold TIER1_DEFERRED_CALL_THRESHOLD ?fn"
    using hot_iff [OF assms(2) big] n by simp
  then have "is_due (?fn\<lparr>hotness := of_nat (Suc n)\<rparr>)" if "tier ?fn = DEFERRED"
    using that by (simp add: is_due_def del: of_nat_Suc)
  then have "pon_tierup_bump_call j f (on_fn f (\<lambda>fn. fn\<lparr>hotness := of_nat n\<rparr>) w) =
      tierup_hook j f 0 (on_fn f (\<lambda>fn. fn\<lparr>hotness := of_nat (Suc n), tier := QUEUED\<rparr>) w)"
    using assms(1, 4) bump_of_nat [of n] big hot
    by (auto simp: pon_tierup_bump_call_def Let_def on_fn_upd o_def maybe_queue_tierup_def simp del: of_nat_Suc)
  moreover have "on_fn f (\<lambda>fn. fn\<lparr>hotness := of_nat (Suc n), tier := QUEUED\<rparr>) w =
      on_fn f (\<lambda>fn. fn\<lparr>hotness := of_nat (call_limit fn), tier := QUEUED\<rparr>) w"
    by (rule on_fn_cong) (simp add: n)
  moreover have "n < call_limit ?fn" using n by simp
  ultimately show ?thesis using cold_calls [OF assms(1-3), of n j] n by (simp del: of_nat_Suc)
qed

lemma quiet_notes:
  assumes "f \<noteq> 0" "deopt_count (fun_at w f) = 0"
  shows "n < 64 \<Longrightarrow> (pon_deopt_note f ^^ n) w = on_fn f (\<lambda>fn. fn\<lparr>deopt_count := of_nat n\<rparr>) w"
proof (induction n)
  case 0
  then show ?case using assms(2) by (simp add: on_fn_same counter_idem)
next
  case (Suc n)
  have "unat (of_nat (Suc n) :: u32) = Suc n" by (rule unat_of_nat_u32) (use Suc.prems in simp)
  then have "(of_nat (Suc n) :: u32) < 64" using Suc.prems by (simp add: word_less_nat_alt del: of_nat_Suc)
  then have "deopt_note (fn\<lparr>deopt_count := of_nat n\<rparr>) = fn\<lparr>deopt_count := of_nat (Suc n)\<rparr>" for fn
    using bump_of_nat [of n] Suc.prems
    by (simp add: deopt_note_def Let_def DEOPT_THRASH_THRESHOLD_def add.commute del: of_nat_Suc) simp
  with Suc show ?case using assms(1) by (simp add: pon_deopt_note_def on_fn_upd o_def del: of_nat_Suc)
qed

lemma thrash_reset:
  assumes "f \<noteq> 0" "deopt_count (fun_at w f) = 0"
  shows "(pon_deopt_note f ^^ 64) w = on_fn f (\<lambda>fn. deopt (fn\<lparr>deopt_count := 64\<rparr>)) w"
proof -
  have "deopt_note (fn\<lparr>deopt_count := 63\<rparr>) = deopt (fn\<lparr>deopt_count := 64\<rparr>)" for fn
    by (simp add: deopt_note_def Let_def DEOPT_THRASH_THRESHOLD_def bump_saturating_def)
  moreover have "(pon_deopt_note f ^^ 64) w = pon_deopt_note f ((pon_deopt_note f ^^ 63) w)"
    using funpow.simps(2) [of 63 "pon_deopt_note f"] by simp
  ultimately show ?thesis using quiet_notes [OF assms, of 63] assms(1) by (simp add: pon_deopt_note_def on_fn_upd o_def)
qed

lemma queue_effect:
  assumes "f \<noteq> 0" "hook w" "driver_active w" "\<not> sync_tierup w" "sender w" "find_record_id (pf_code (fun_at w f)) w \<noteq> None"
    "tier (fun_at w f) \<in> {TIER0, DEFERRED}" "hotness (fun_at w f) = 0"
  shows "let w' = (pon_tierup_bump_call j f ^^ call_limit (fun_at w f)) w
    in tier (fun_at w' f) = QUEUED \<and> f \<in> queued_functions w'"
proof -
  let ?w = "on_fn f (\<lambda>fn. fn\<lparr>hotness := of_nat (call_limit fn), tier := QUEUED\<rparr>) w"
  obtain snap where snap: "find_record_id (pf_code (fun_at w f)) ?w = Some snap"
    using assms(6) by (auto simp: find_record_id_def)
  have "tierup_hook j f 0 ?w = enqueue f (decode_reason 0) ?w"
    using assms by (simp add: tierup_hook_def)
  moreover have "tier (fun_at (enqueue f r ?w) f) = QUEUED \<and> f \<in> queued_functions (enqueue f r ?w)" for r
    using assms(1, 5) snap
    by (auto simp: enqueue_def prepare_request_def Let_def pin_def queued_functions_def)
  ultimately show ?thesis using last_cold_call [OF assms(1, 7, 8, 2), of j] by (simp add: Let_def)
qed

section \<open>Properties\<close>

text \<open>
  C19. A function is handed to the compiler at an exact call.  Starting from a cold function in tier 0, or
  one that was sent back, the calls before the limit only count; the call that reaches the limit queues
  the function and runs the hook.  The limit is 16 calls in tier 0, and 16 doubled once per epoch up to
  6 times after that; no counter wraps and no threshold saturates.
\<close>
theorem queued_at_the_limit:
  assumes "f \<noteq> 0" "hook w" "tier (fun_at w f) \<in> {TIER0, DEFERRED}" "hotness (fun_at w f) = 0"
  shows "(\<forall>n < call_limit (fun_at w f). (pon_tierup_bump_call j f ^^ n) w = on_fn f (\<lambda>fn. fn\<lparr>hotness := of_nat n\<rparr>) w) \<and>
    (pon_tierup_bump_call j f ^^ call_limit (fun_at w f)) w =
      tierup_hook j f 0 (on_fn f (\<lambda>fn. fn\<lparr>hotness := of_nat (call_limit fn), tier := QUEUED\<rparr>) w)"
  using cold_calls [OF assms(1, 3, 4)] last_cold_call [OF assms(1, 3, 4, 2)] by blast

theorem queued_at_the_limit_witness:
  "(pon_tierup_bump_call fixed_jit 16 ^^ 16) ((tierup_start False)\<lparr>hook := True\<rparr>) =
     tierup_hook fixed_jit 16 0 (on_fn 16 (\<lambda>fn. fn\<lparr>hotness := of_nat (call_limit fn), tier := QUEUED\<rparr>) ((tierup_start False)\<lparr>hook := True\<rparr>))"
  using queued_at_the_limit [of 16 "(tierup_start False)\<lparr>hook := True\<rparr>" fixed_jit]
  by (simp add: tierup_start_def py_function_new_def call_limit_def)

text \<open>
  C38. An installation in progress hands out the entry of an older one.  A function in tier 1 with an
  entry for on-stack replacement is sent back, which leaves that entry in place, and queued again.  A
  new compilation for another loop header is installed: after its first four stores, the poll of the
  new header finds the new header with the old entry, and returns code that was compiled for the live
  values of the old loop; only the fifth store makes it return the new entry.
\<close>
theorem stale_osr_entry:
  assumes "tier fn = TIER1" "osr_entry fn \<noteq> 0" "tier_epoch fn < DEOPT_PIN_EPOCH" "c_osr_loop_header c = Some header"
  shows "let again = (deopt fn)\<lparr>tier := QUEUED\<rparr>;
             stored = (\<lambda>n. fold (\<lambda>store fn. store fn) (take n (install_stores c)) (again\<lparr>tier := TIER1\<rparr>))
         in tier (deopt fn) = DEFERRED \<and> osr_gate (stored 4) (of_nat header) = osr_entry fn \<and>
            osr_gate (stored 5) (of_nat header) = c_osr_entry c"
proof -
  from assms(3) have "\<not> DEOPT_PIN_EPOCH \<le> tier_epoch fn" by (rule linorder_not_le [THEN iffD2])
  with assms(1) have d: "deopt fn = fn\<lparr>tier := DEFERRED, pf_entry := pf_code fn, tier_epoch := saturating_succ (tier_epoch fn),
      deopt_count := 0, hotness := 0, loop_hotness := 0\<rparr>" by (simp add: deopt_eq deopt_target_def)
  have stores: "install_stores c = [(\<lambda>fn. fn\<lparr>pf_tier1 := Some (c_entry c, c_handle c)\<rparr>), (\<lambda>fn. fn\<lparr>deopt_count := 0\<rparr>),
      (\<lambda>fn. fn\<lparr>pf_entry := c_entry c\<rparr>), (\<lambda>fn. fn\<lparr>osr_loop_header := of_nat header\<rparr>), (\<lambda>fn. fn\<lparr>osr_entry := c_osr_entry c\<rparr>)]"
    using assms(4) by (simp add: install_stores_def)
  show ?thesis using assms(2) by (simp add: d stores osr_gate_def Let_def)
qed

theorem stale_osr_entry_witness:
  "\<exists>(fn :: py_function) c. osr_loop_header fn = 3 \<and> c_osr_loop_header c = Some 7 \<and> c_osr_entry c = 8192 \<and>
     osr_gate (fold (\<lambda>store fn. store fn) (take 4 (install_stores c)) ((deopt fn)\<lparr>tier := TIER1\<rparr>)) 7 = 4096"
proof -
  define fn where "fn = (py_function_new 64)\<lparr>tier := TIER1, osr_entry := 4096, osr_loop_header := 3\<rparr>"
  define c where "c = \<lparr>c_entry = 128, c_handle = 256, c_osr_entry = 8192, c_osr_loop_header = Some 7, c_function_index = 0,
    c_feedback_len = 0, c_plan = plan_region (one_function [looping_block] 0) looping_region, c_steps = [], c_feedback = []\<rparr>"
  have "tier fn = TIER1" "osr_entry fn \<noteq> 0" "tier_epoch fn < DEOPT_PIN_EPOCH" "c_osr_loop_header c = Some 7"
    by (simp_all add: fn_def c_def py_function_new_def DEOPT_PIN_EPOCH_def)
  from stale_osr_entry [OF this] show ?thesis
    by (intro exI [of _ fn] exI [of _ c]) (simp add: Let_def fn_def c_def)
qed

text \<open>
  C39. A request can lose its pin.  A request ends by installing its code and then unpinning the
  function; the pins are a set.  Between the two, other threads can send the function back with 64
  notes and make it hot again: the new request pins a function that is pinned already.  The unpinning
  of the first request then removes the pin of the second, which is still in the queue: nothing keeps
  the function from being collected before the compiler reads it.
\<close>
theorem requeued_function_unpinned:
  assumes "f \<noteq> 0" "hook w" "driver_active w" "\<not> sync_tierup w" "sender w"
    and "tier (fun_at w f) = QUEUED" "tier_epoch (fun_at w f) < DEOPT_PIN_EPOCH" "find_record_id (pf_code (fun_at w f)) w \<noteq> None"
  shows "let w1 = (pon_deopt_note f ^^ 64) (snd (install_compilation f c w));
             w2 = (pon_tierup_bump_call j f ^^ call_limit (fun_at w1 f)) w1
         in f \<in> queued_functions (unpin f w2) \<and> tier (fun_at (unpin f w2) f) = QUEUED \<and> f \<notin> pins (unpin f w2)"
proof -
  let ?i = "snd (install_compilation f c w)"
  let ?w1 = "(pon_deopt_note f ^^ 64) ?i"
  have i: "deopt_count (fun_at ?i f) = 0" "tier (fun_at ?i f) = TIER1" "tier_epoch (fun_at ?i f) = tier_epoch (fun_at w f)"
      "pf_code (fun_at ?i f) = pf_code (fun_at w f)" "hook ?i = hook w" "driver_active ?i = driver_active w"
      "sync_tierup ?i = sync_tierup w" "sender ?i = sender w" "registered ?i = registered w"
    using assms(6) by (simp_all add: install_compilation_def install_record split: option.splits)
  have w1: "?w1 = on_fn f (\<lambda>fn. deopt (fn\<lparr>deopt_count := 64\<rparr>)) ?i" by (rule thrash_reset [OF assms(1) i(1)])
  have fn: "tier (fun_at ?w1 f) = DEFERRED" "hotness (fun_at ?w1 f) = 0" "pf_code (fun_at ?w1 f) = pf_code (fun_at w f)"
    using linorder_not_le [THEN iffD2, OF assms(7)] i by (simp_all add: w1 deopt_eq deopt_target_def Let_def)
  have "find_record_id (pf_code (fun_at ?w1 f)) ?w1 \<noteq> None" using assms(8) i fn by (simp add: w1 find_record_id_def)
  then have "let w2 = (pon_tierup_bump_call j f ^^ call_limit (fun_at ?w1 f)) ?w1
      in tier (fun_at w2 f) = QUEUED \<and> f \<in> queued_functions w2"
    using assms(1-5) i fn by (intro queue_effect) (simp_all add: w1)
  then show ?thesis by (simp add: Let_def unpin_def queued_functions_def)
qed

theorem requeued_function_unpinned_witness:
  "\<exists>w. (16 :: addr) \<in> queued_functions w \<and> tier (fun_at w 16) = QUEUED \<and> 16 \<notin> pins w"
proof -
  define w where "w = (tierup_start False)\<lparr>hook := True, driver_active := True,
    registered := [\<lparr>rf_tier0_entry = 4096, module_index = 0, function_index = 0, rf_feedback_len = 0\<rparr>],
    fun_at := (\<lambda>_. (py_function_new 4096)\<lparr>tier := QUEUED\<rparr>)\<rparr>"
  define c where "c = \<lparr>c_entry = 128, c_handle = 256, c_osr_entry = 0, c_osr_loop_header = None, c_function_index = 0,
    c_feedback_len = 0, c_plan = plan_region (one_function [looping_block] 0) looping_region, c_steps = [], c_feedback = []\<rparr>"
  have "(16 :: addr) \<noteq> 0" "hook w" "driver_active w" "\<not> sync_tierup w" "sender w" "tier (fun_at w 16) = QUEUED"
    "tier_epoch (fun_at w 16) < DEOPT_PIN_EPOCH" "find_record_id (pf_code (fun_at w 16)) w \<noteq> None"
    by (simp_all add: w_def tierup_start_def py_function_new_def DEOPT_PIN_EPOCH_def find_record_id_def)
  from requeued_function_unpinned [OF this, of c fixed_jit] show ?thesis unfolding Let_def by blast
qed

end
