(* ===== verification/Tier_Race.thy ===== *)
theory Tier_Race
  imports Tier_Up
begin

text \<open>
  The driver of \<^verbatim>\<open>pon-jit/src/tierup.rs\<close> over whole lives, and the deoptimization note of
  \<^verbatim>\<open>pon-runtime/src/abi.rs\<close> taken apart: several threads note transfers of one function at the same
  time, and their atomic accesses interleave with each other and with everything else.
\<close>

section \<open>Notes of several threads\<close>

text \<open>
  A note is not one step: it counts, loads the epoch, moves the state with a compare-and-exchange and
  then stores five fields.  Here the threads that run one function interleave at every one of these
  accesses, with each other and with everything else the driver does.
\<close>

datatype note_phase = NoteIdle | NoteOver | NoteLoaded u8 | NoteWon nat

definition note_step :: "note_phase \<Rightarrow> py_function \<Rightarrow> note_phase \<times> py_function" where
  "note_step ph fn =
     (case ph of
        NoteIdle \<Rightarrow>
          (if bump_saturating (deopt_count fn) < DEOPT_THRASH_THRESHOLD then NoteIdle else NoteOver,
           fn\<lparr>deopt_count := deopt_count fn + 1\<rparr>)
      | NoteOver \<Rightarrow> (NoteLoaded (tier_epoch fn), fn)
      | NoteLoaded epoch \<Rightarrow>
          if tier fn = TIER1 then (NoteWon 0, fn\<lparr>tier := deopt_target epoch\<rparr>) else (NoteIdle, fn)
      | NoteWon k \<Rightarrow>
          (if Suc k < length deopt_stores then NoteWon (Suc k) else NoteIdle, (deopt_stores ! k) fn))"

datatype race_event = Other tier_event | Note nat

type_synonym race = "tierup \<times> (nat \<Rightarrow> note_phase)"

fun race_step :: "jit \<Rightarrow> addr \<Rightarrow> race_event \<Rightarrow> race \<Rightarrow> race" where
  "race_step j f (Other ev) (w, ph) = (tier_step j ev w, ph)"
| "race_step j f (Note t) (w, ph) =
     (let (p, fn) = note_step (ph t) (fun_at w f) in (on_fn f (\<lambda>_. fn) w, ph(t := p)))"

definition race_run :: "jit \<Rightarrow> addr \<Rightarrow> race_event list \<Rightarrow> race \<Rightarrow> race" where
  "race_run j f evs s = fold (race_step j f) evs s"

fun race_promotions :: "jit \<Rightarrow> addr \<Rightarrow> race_event list \<Rightarrow> race \<Rightarrow> nat" where
  "race_promotions j f [] s = 0"
| "race_promotions j f (ev # evs) s =
     (let s' = race_step j f ev s
      in (if promoted (fun_at (fst s) f) (fun_at (fst s') f) then 1 else 0) + race_promotions j f evs s')"

text \<open>A note that nobody interrupts is the atomic one.\<close>

definition run_note :: "nat \<Rightarrow> note_phase \<times> py_function \<Rightarrow> note_phase \<times> py_function" where
  "run_note n s = ((\<lambda>(ph, fn). note_step ph fn) ^^ n) s"

lemma note_alone: "\<exists>n. run_note (Suc n) (NoteIdle, fn) = (NoteIdle, deopt_note fn)"
proof (cases "bump_saturating (deopt_count fn) < DEOPT_THRASH_THRESHOLD")
  case True
  then have "run_note (Suc 0) (NoteIdle, fn) = (NoteIdle, deopt_note fn)"
    by (simp add: run_note_def note_step_def deopt_note_def Let_def)
  then show ?thesis by blast
next
  case over: False
  show ?thesis
  proof (cases "tier fn = TIER1")
    case True
    with over have "run_note 8 (NoteIdle, fn) = (NoteIdle, deopt_note fn)"
      by (simp add: run_note_def note_step_def deopt_note_def deopt_eq deopt_stores_def Let_def numeral_nat)
    then show ?thesis by (metis numeral_eq_Suc)
  next
    case False
    with over have "run_note 3 (NoteIdle, fn) = (NoteIdle, deopt_note fn)"
      by (simp add: run_note_def note_step_def deopt_note_def deopt_eq Let_def numeral_nat)
    then show ?thesis by (metis numeral_eq_Suc)
  qed
qed

text \<open>
  Threads on their way: those that have sent the function back but not yet raised its epoch, and those
  that have loaded an epoch that still lets them send it back.
\<close>

definition before_bump :: "note_phase \<Rightarrow> nat" where
  "before_bump ph = (case ph of NoteWon k \<Rightarrow> if k \<le> 1 then 1 else 0 | _ \<Rightarrow> 0)"

definition licensed :: "note_phase \<Rightarrow> nat" where
  "licensed ph = (case ph of NoteLoaded e \<Rightarrow> if e < DEOPT_PIN_EPOCH then 1 else 0 | _ \<Rightarrow> 0)"

definition tally :: "nat set \<Rightarrow> (note_phase \<Rightarrow> nat) \<Rightarrow> (nat \<Rightarrow> note_phase) \<Rightarrow> nat" where
  "tally T g ph = (\<Sum>t \<in> T. g (ph t))"

lemma tally_upd:
  assumes "finite T" "t \<in> T"
  shows "tally T g (ph(t := p)) + g (ph t) = tally T g ph + g p"
  using assms by (simp add: tally_def sum.remove)

lemma tally_threads:
  assumes "finite T"
  shows "tally T before_bump ph + tally T licensed ph \<le> card T"
proof -
  have "tally T before_bump ph + tally T licensed ph = (\<Sum>t \<in> T. before_bump (ph t) + licensed (ph t))"
    by (simp add: tally_def sum.distrib)
  also have "\<dots> \<le> (\<Sum>t \<in> T. 1)"
    by (rule sum_mono) (auto simp: before_bump_def licensed_def split: note_phase.splits)
  finally show ?thesis by simp
qed

definition phase_ok :: "note_phase \<Rightarrow> bool" where
  "phase_ok ph = (case ph of NoteWon k \<Rightarrow> k < length deopt_stores | _ \<Rightarrow> True)"

definition race_inv :: "nat set \<Rightarrow> nat \<Rightarrow> py_function \<Rightarrow> (nat \<Rightarrow> note_phase) \<Rightarrow> bool" where
  "race_inv T b fn ph \<longleftrightarrow>
     unat (tier_epoch fn) = min b 255 \<and> (\<forall>t. phase_ok (ph t)) \<and>
     (if tier fn = DISABLED then b + tally T before_bump ph \<le> 8 + card T
      else b + tally T before_bump ph + tally T licensed ph \<le> 7 + card T)"

definition race_level :: "nat set \<Rightarrow> nat \<Rightarrow> py_function \<Rightarrow> (nat \<Rightarrow> note_phase) \<Rightarrow> nat" where
  "race_level T b fn ph = b + tally T before_bump ph + (if tier fn = TIER1 then 1 else 0)"

lemma race_level_bound: "race_inv T b fn ph \<Longrightarrow> race_level T b fn ph \<le> 8 + card T"
  by (auto simp: race_inv_def race_level_def split: if_splits)

lemma saturating_succ_min: "unat (e :: u8) = min b 255 \<Longrightarrow> unat (saturating_succ e) = min (Suc b) 255"
proof -
  assume e: "unat e = min b 255"
  have top: "unat (- 1 :: u8) = 255" by (simp add: unsigned_minus_1_eq_mask mask_eq_exp_minus_1)
  show ?thesis
  proof (cases "e = - 1")
    case True
    then show ?thesis using e top by (simp add: saturating_succ_def min_def split: if_splits)
  next
    case False
    then have "unat (e + 1) = unat e + 1" using unatSuc [of e] by (simp add: add.commute eq_neg_iff_add_eq_0)
    moreover have "unat e \<noteq> 255" using False top by (simp add: word_unat_eq_iff)
    ultimately show ?thesis using False e by (simp add: saturating_succ_def min_def split: if_splits)
  qed
qed

text \<open>One access of a note.\<close>

lemma note_step_inv:
  assumes T: "finite T" "t \<in> T" and inv: "race_inv T b fn ph" and step: "note_step (ph t) fn = (p, fn')"
  shows "\<exists>b'. race_inv T b' fn' (ph(t := p)) \<and> race_level T b' fn' (ph(t := p)) = race_level T b fn ph \<and>
    (tier fn = DISABLED \<longrightarrow> tier fn' = DISABLED) \<and> \<not> promoted fn fn'"
proof -
  note pre = tally_upd [OF T, of before_bump ph p] and lic = tally_upd [OF T, of licensed ph p]
  note room = tally_threads [OF T(1), of "ph(t := p)"]
  have "phase_ok (ph t)" using inv by (simp add: race_inv_def)
  then have ok: "phase_ok ((ph(t := p)) u)" for u
    using inv step by (auto simp: race_inv_def phase_ok_def note_step_def deopt_stores_def split: note_phase.splits if_splits)
  note defs = race_inv_def race_level_def before_bump_def licensed_def promoted_def
  show ?thesis
  proof (cases "ph t")
    case NoteIdle
    then have "fn' = fn\<lparr>deopt_count := deopt_count fn + 1\<rparr>" "p \<in> {NoteIdle, NoteOver}"
      using step by (auto simp: note_step_def split: if_splits)
    then show ?thesis using inv ok pre lic NoteIdle by (intro exI [of _ b]) (auto simp: defs)
  next
    case NoteOver
    then have p: "fn' = fn" "p = NoteLoaded (tier_epoch fn)" using step by (auto simp: note_step_def)
    have low: "b < 8" if "tier_epoch fn < DEOPT_PIN_EPOCH"
      using that inv by (auto simp: race_inv_def DEOPT_PIN_EPOCH_def word_less_nat_alt split: if_splits)
    show ?thesis
      using inv ok pre lic room low NoteOver p by (intro exI [of _ b]) (auto simp: defs split: if_splits)
  next
    case (NoteLoaded e)
    show ?thesis
    proof (cases "tier fn = TIER1")
      case True
      then have "fn' = fn\<lparr>tier := deopt_target e\<rparr>" "p = NoteWon 0" using step NoteLoaded by (auto simp: note_step_def)
      then show ?thesis
        using inv ok pre lic NoteLoaded True by (intro exI [of _ b]) (auto simp: defs deopt_target_def split: if_splits)
    next
      case False
      then have "fn' = fn" "p = NoteIdle" using step NoteLoaded by (auto simp: note_step_def)
      then show ?thesis using inv ok pre lic NoteLoaded by (intro exI [of _ b]) (auto simp: defs)
    qed
  next
    case (NoteWon k)
    show ?thesis
    proof (cases "k = 1")
      case True
      then have p: "fn' = fn\<lparr>tier_epoch := saturating_succ (tier_epoch fn)\<rparr>" "p = NoteWon 2"
        using step NoteWon by (auto simp: note_step_def deopt_stores_def)
      have "unat (tier_epoch fn') = min (Suc b) 255"
        using inv saturating_succ_min [of "tier_epoch fn" b] by (simp add: p race_inv_def)
      then show ?thesis
        using inv ok pre lic NoteWon True p by (intro exI [of _ "Suc b"]) (auto simp: defs split: if_splits)
    next
      case False
      have "tier fn' = tier fn \<and> tier_epoch fn' = tier_epoch fn \<and> before_bump p = before_bump (ph t) \<and> licensed p = 0"
      proof -
        have "k \<in> {0, 2, 3, 4}"
          using \<open>phase_ok (ph t)\<close> NoteWon False by (auto simp: phase_ok_def deopt_stores_def)
        then show ?thesis
          using step NoteWon by (auto simp: note_step_def deopt_stores_def before_bump_def licensed_def)
      qed
      then show ?thesis using inv ok pre lic NoteWon by (intro exI [of _ b]) (auto simp: defs split: if_splits)
    qed
  qed
qed

text \<open>One step of everything else: the epoch stays, and only a state in which tier-up may work is left.\<close>

definition other_move :: "py_function \<Rightarrow> py_function \<Rightarrow> bool" where
  "other_move fn fn' \<longleftrightarrow> tier_epoch fn' = tier_epoch fn \<and> (tier fn' = tier fn \<or> tier fn \<notin> {TIER1, DISABLED})"

lemma same_but_other: "same_but f w w' \<Longrightarrow> tier (fun_at w f) \<notin> {TIER1, DISABLED} \<Longrightarrow> other_move (fun_at w g) (fun_at w' g)"
  by (cases "g = f") (auto simp: same_but_def other_move_def)

lemma maybe_queue_other: "other_move (fun_at w g) (fun_at (maybe_queue_tierup j f reason w) g)"
proof (cases "f \<noteq> 0 \<and> hook w \<and> (tier (fun_at w f) = TIER0 \<or> tier (fun_at w f) = DEFERRED \<and> is_due (fun_at w f))")
  case True
  have "same_but f w (tierup_hook j f reason (on_fn f (\<lambda>fn. fn\<lparr>tier := QUEUED\<rparr>) w))"
    by (rule same_but_trans [OF same_but_upd same_but_hook]) simp
  with True show ?thesis using same_but_other by (auto simp: maybe_queue_tierup_def Let_def)
qed (auto simp: maybe_queue_tierup_def Let_def other_move_def)

lemma process_idle: "tier (fun_at w (rq_function rq)) \<noteq> QUEUED \<Longrightarrow> fun_at (process_request j rq w) = fun_at w"
  by (auto simp: process_request_def process_body_def retire_queued_to_tier0_def leave_queued_def unpin_def Let_def on_fn_def)

lemma compiler_other: "other_move (fun_at w g) (fun_at (compiler_step j w) g)"
proof (cases "compile_queue w")
  case (Cons rq rest)
  let ?w = "w\<lparr>compile_queue := rest\<rparr>" and ?f = "rq_function rq"
  have step: "compiler_step j w = (if shutting_down ?w then unpin ?f (retire_queued_to_tier0 ?f ?w) else process_request j rq ?w)"
    by (simp add: compiler_step_def Cons Let_def)
  show ?thesis
  proof (cases "tier (fun_at w ?f) = QUEUED")
    case True
    have "same_but ?f ?w (compiler_step j w)"
      unfolding step using same_but_process_request same_but_pins(1) [OF same_but_leave(2)] by simp
    then show ?thesis using same_but_other [of ?f ?w "compiler_step j w" g] True by simp
  next
    case False
    then have "fun_at (compiler_step j w) = fun_at w"
      unfolding step using process_idle [of ?w rq j]
      by (auto simp: retire_queued_to_tier0_def leave_queued_def unpin_def on_fn_def)
    then show ?thesis by (simp add: other_move_def)
  qed
qed (simp add: compiler_step_def other_move_def)

definition other_event :: "addr \<Rightarrow> tier_event \<Rightarrow> bool" where
  "other_event f ev \<longleftrightarrow> (\<forall>c. ev \<noteq> NewFunction f c) \<and> ev \<noteq> DeoptNote f"

lemma other_event_moves:
  assumes "other_event f ev"
  shows "other_move (fun_at w f) (fun_at (tier_step j ev w) f)"
proof (cases ev)
  case (BumpCall g)
  let ?w = "on_fn g (\<lambda>fn. fn\<lparr>hotness := bump_saturating (hotness fn)\<rparr>) w"
  have "other_move (fun_at w f) (fun_at w' f)" if "other_move (fun_at ?w f) (fun_at w' f)" for w'
    using that by (auto simp: other_move_def split: if_splits)
  then show ?thesis using BumpCall maybe_queue_other [of ?w f j g 0] by (auto simp: pon_tierup_bump_call_def Let_def other_move_def)
next
  case (OsrPoll g h)
  let ?w = "on_fn g (\<lambda>fn. fn\<lparr>loop_hotness := bump_saturating (loop_hotness fn)\<rparr>) w"
  have "other_move (fun_at w f) (fun_at w' f)" if "other_move (fun_at ?w f) (fun_at w' f)" for w'
    using that by (auto simp: other_move_def split: if_splits)
  then show ?thesis
    using OsrPoll maybe_queue_other [of ?w f j g "bump_saturating h"] by (auto simp: pon_osr_poll_def Let_def other_move_def)
next
  case CompilerStep
  then show ?thesis using compiler_other by simp
qed (use assms in \<open>auto simp: other_event_def other_move_def pon_deopt_note_def register_module_def register_runtime_hook_def
    unregister_runtime_hook_def shutdown_driver_def\<close>)

lemma other_move_inv:
  assumes "race_inv T b fn ph" "other_move fn fn'"
  shows "\<exists>b'. race_inv T b' fn' ph \<and> race_level T b' fn' ph = race_level T b fn ph + (if promoted fn fn' then 1 else 0) \<and>
    (tier fn = DISABLED \<longrightarrow> tier fn' = DISABLED)"
  using assms by (intro exI [of _ b]) (auto simp: race_inv_def race_level_def other_move_def promoted_def)

definition of_threads :: "nat set \<Rightarrow> addr \<Rightarrow> race_event \<Rightarrow> bool" where
  "of_threads T f ev = (case ev of Note t \<Rightarrow> t \<in> T | Other e \<Rightarrow> other_event f e)"

lemma race_step_inv:
  fixes j :: jit
  assumes "finite T" "of_threads T f ev" "race_inv T b (fun_at (fst s) f) (snd s)"
  defines "s' \<equiv> race_step j f ev s"
  shows "\<exists>b'. race_inv T b' (fun_at (fst s') f) (snd s') \<and>
    race_level T b' (fun_at (fst s') f) (snd s') =
      race_level T b (fun_at (fst s) f) (snd s) + (if promoted (fun_at (fst s) f) (fun_at (fst s') f) then 1 else 0) \<and>
    (tier (fun_at (fst s) f) = DISABLED \<longrightarrow> tier (fun_at (fst s') f) = DISABLED)"
proof (cases ev)
  case (Other e)
  then show ?thesis
    using other_move_inv [OF assms(3) other_event_moves [of f e "fst s" j]] assms(2) unfolding s'_def
    by (cases s) (simp add: of_threads_def)
next
  case (Note t)
  obtain p fn' where step: "note_step (snd s t) (fun_at (fst s) f) = (p, fn')" by (cases "note_step (snd s t) (fun_at (fst s) f)")
  have "s' = (on_fn f (\<lambda>_. fn') (fst s), (snd s)(t := p))" unfolding s'_def using Note step by (cases s) simp
  moreover have "t \<in> T" using assms(2) Note by (simp add: of_threads_def)
  ultimately show ?thesis using note_step_inv [OF assms(1) _ assms(3) step] by auto
qed

lemma race_run_level:
  assumes "finite T"
  shows "list_all (of_threads T f) evs \<Longrightarrow> race_inv T b (fun_at (fst s) f) (snd s) \<Longrightarrow>
    (\<exists>b'. race_inv T b' (fun_at (fst (race_run j f evs s)) f) (snd (race_run j f evs s)) \<and>
      race_level T b' (fun_at (fst (race_run j f evs s)) f) (snd (race_run j f evs s)) =
        race_level T b (fun_at (fst s) f) (snd s) + race_promotions j f evs s) \<and>
    (tier (fun_at (fst s) f) = DISABLED \<longrightarrow> tier (fun_at (fst (race_run j f evs s)) f) = DISABLED)"
proof (induction evs arbitrary: s b)
  case (Cons ev evs)
  let ?s = "race_step j f ev s"
  obtain b' where b': "race_inv T b' (fun_at (fst ?s) f) (snd ?s)"
    "race_level T b' (fun_at (fst ?s) f) (snd ?s) =
      race_level T b (fun_at (fst s) f) (snd s) + (if promoted (fun_at (fst s) f) (fun_at (fst ?s) f) then 1 else 0)"
    "tier (fun_at (fst s) f) = DISABLED \<longrightarrow> tier (fun_at (fst ?s) f) = DISABLED"
    using race_step_inv [OF assms, of f ev b s j] Cons.prems by auto
  have "race_run j f (ev # evs) s = race_run j f evs ?s" by (simp add: race_run_def)
  then show ?case using Cons.IH [OF _ b'(1)] Cons.prems(1) b'(2,3) by (auto simp: Let_def)
qed (auto simp: race_run_def)

lemma race_start: "race_inv T 0 (py_function_new c) (\<lambda>_. NoteIdle)" "race_level T 0 (py_function_new c) (\<lambda>_. NoteIdle) = 0"
  by (simp_all add: race_inv_def race_level_def tally_def before_bump_def licensed_def phase_ok_def py_function_new_def)

text \<open>
  C18. A function object is promoted to tier 1 at most eight times more than there are threads that note
  transfers of it: nine times if only one thread does.  This counts its whole life, from its creation
  on.  The accesses of a note (count, load of the epoch, compare-and-exchange, the five stores)
  interleave arbitrarily with those of the other threads' notes and with the probes, compilations,
  registrations and notes of other functions, each of which is one step.  A function that is disabled
  stays disabled.
\<close>
theorem promotions_bounded:
  assumes "finite T" "list_all (of_threads T f) (evs @ later)" "fun_at w f = py_function_new c"
  shows "race_promotions j f evs (w, \<lambda>_. NoteIdle) \<le> 8 + card T \<and>
    (tier (fun_at (fst (race_run j f evs (w, \<lambda>_. NoteIdle))) f) = DISABLED \<longrightarrow>
       tier (fun_at (fst (race_run j f (evs @ later) (w, \<lambda>_. NoteIdle))) f) = DISABLED)"
proof -
  let ?s = "race_run j f evs (w, \<lambda>_. NoteIdle)"
  have start: "race_inv T 0 (fun_at (fst (w, \<lambda>_. NoteIdle)) f) (snd (w, \<lambda>_. NoteIdle))"
    "race_level T 0 (fun_at (fst (w, \<lambda>_. NoteIdle)) f) (snd (w, \<lambda>_. NoteIdle)) = 0"
    using race_start assms(3) by simp_all
  obtain b where b: "race_inv T b (fun_at (fst ?s) f) (snd ?s)"
    "race_level T b (fun_at (fst ?s) f) (snd ?s) = race_promotions j f evs (w, \<lambda>_. NoteIdle)"
    using race_run_level [OF assms(1) _ start(1), of evs j] assms(2) start(2) by auto
  have "race_run j f (evs @ later) (w, \<lambda>_. NoteIdle) = race_run j f later ?s" by (simp add: race_run_def)
  then show ?thesis
    using race_level_bound [OF b(1)] b(2) race_run_level [OF assms(1) _ b(1), of later j] assms(2) by auto
qed

section \<open>A driver at work\<close>

text \<open>A module with one function that returns a constant, and a driver that compiles inside the hook.\<close>

definition hot_block :: block where
  "hot_block = \<lparr>blk_id = 0, insts = [inst_new 0 (Const (CInt 1))], term_of = Return 0\<rparr>"

definition hot_module :: ir_module where
  "hot_module = \<lparr>fns = [one_function [hot_block] 0], main = 0, names = []\<rparr>"

definition hot_inst :: inst where
  "hot_inst = (inst_new 0 (Const (CInt 1)))\<lparr>inferred_type := TyIntI64, static_type := TyInt\<rparr>"

lemma hot_inferred:
  "fns (infer_module_types [] hot_module) = [one_function [\<lparr>blk_id = 0, insts = [hot_inst], term_of = Return 0\<rparr>] 0]"
  by (simp add: infer_module_types_def hot_module_def annotation_for_def infer_function_types_def one_function_def hot_block_def
      seed_locals_def seed_speculative_parameters_def infer_step_def infer_inst_def const_type_def write_inferred_type_def
      inst_new_def static_bound_def hot_inst_def Let_def)

lemma hot_plan: "\<exists>plan. plan_function h (fns (infer_module_types [] hot_module) ! 0) = Some plan"
proof -
  let ?b = "\<lparr>blk_id = 0, insts = [hot_inst], term_of = Return 0\<rparr>"
  let ?f = "one_function [?b] 0"
  have inst: "is_typed_inst hot_inst" "inst_unboxed_type hot_inst = Some TyIntI64"
    by (simp_all add: is_typed_inst_def is_fast_path_kind_def inst_unboxed_type_def fast_path_result_type_def is_unboxable_def
        hot_inst_def inst_new_def)
  have typed: "typed_ids ?f = {0}"
    by (auto simp: typed_ids_def one_function_def is_typed_block_def inst is_region_terminator_def)
  have "flow ?f a = {}" for a by (auto simp: flow_def one_function_def region_successors_def)
  then have region: "single_entry_region ?f 0 (set [0])"
    using reach_base [of "{0}"] by (auto simp: single_entry_region_def entered_only_at_def typed)
  have "collect_typed_values ?f [0] \<noteq> []"
    by (simp add: collect_typed_values_def one_function_def typed_values_of_def List.map_filter_simps inst)
  with region found_region_maximal [of ?f h] obtain r where r: "find_maximal_typed_region h ?f = Some r"
    by (auto simp: one_function_def split: option.splits)
  have "typed_for_nexts_have_fast_range_specs ?f r"
    by (auto simp: typed_for_nexts_have_fast_range_specs_def region_block_list_def one_function_def hot_inst_def inst_new_def
        list_all_iff)
  moreover have "\<not> is_generator ?f" by (simp add: one_function_def)
  ultimately show ?thesis using r by (simp add: hot_inferred plan_function_def)
qed

definition hot_record :: registered_function where
  "hot_record = \<lparr>rf_tier0_entry = 4096, module_index = 0, function_index = 0, rf_feedback_len = 0\<rparr>"

definition hot_ready :: "tierup \<Rightarrow> bool" where
  "hot_ready w \<longleftrightarrow> hook w \<and> driver_active w \<and> \<not> shutting_down w \<and> sender w \<and> modules w = [hot_module] \<and> registered w = [hot_record]"

lemma compile_hot:
  assumes "hot_ready w" "rq_function rq = f" "f \<noteq> 0" "tier (fun_at w f) = QUEUED" "ir_snapshot_id rq = 0" "rq_reason rq = CallReason"
  shows "\<exists>c. process_request fixed_jit rq w = unpin f (snd (install_compilation f c w)) \<and> c_entry c = 8192 \<and> c_osr_loop_header c = None"
proof -
  obtain plan where plan: "plan_function (region_hash fixed_jit) (fns (infer_module_types [] hot_module) ! 0) = Some plan"
    using hot_plan by blast
  let ?c = "\<lparr>c_entry = 8192, c_handle = 65536, c_osr_entry = 0, c_osr_loop_header = None, c_function_index = 0,
    c_feedback_len = 0, c_plan = plan, c_steps = lowering_steps plan, c_feedback = feedback_snapshot_of rq\<rparr>"
  have "clone_registered_ir 0 w = Some (hot_record, hot_module)"
    using assms(1) by (simp add: clone_registered_ir_def hot_ready_def hot_record_def)
  moreover have "fns (infer_module_types [] hot_module) \<noteq> []" "length (fns (infer_module_types [] hot_module)) = 1"
    by (simp_all add: hot_inferred)
  ultimately show ?thesis
    using assms plan
    by (intro exI [of _ ?c]) (simp add: process_request_def process_body_def hot_ready_def hot_record_def compile_tier1_module_def
        prepare_osr_entry_def fixed_jit_def Let_def)
qed

lemma prepare_hot:
  assumes "hot_ready w" "f \<noteq> 0" "tier (fun_at w f) = QUEUED" "pf_code (fun_at w f) = 4096"
  shows "\<exists>fb. prepare_request f CallReason w =
    (Some \<lparr>rq_function = f, ir_snapshot_id = 0, feedback_snapshot_of = fb, rq_reason = CallReason\<rparr>, pin f w)"
  using assms by (simp add: prepare_request_def find_record_id_def hot_ready_def hot_record_def ensure_feedback_def on_fn_same Let_def)

definition hot_again :: "py_function \<Rightarrow> bool" where
  "hot_again fn \<longleftrightarrow> tier fn = TIER0 \<and> hotness fn \<ge> TIER1_CALL_THRESHOLD \<or>
     tier fn = DEFERRED \<and> hotness fn \<ge> backed_off_threshold TIER1_DEFERRED_CALL_THRESHOLD fn"

lemma bump_hot:
  assumes "hot_ready w" "sync_tierup w" "f \<noteq> 0" "pf_code (fun_at w f) = 4096"
    and "hot_again ((fun_at w f)\<lparr>hotness := bump_saturating (hotness (fun_at w f))\<rparr>)"
  defines "w' \<equiv> pon_tierup_bump_call fixed_jit f w"
  shows "hot_ready w' \<and> sync_tierup w' \<and>
    (\<exists>h. fun_at w' = (fun_at w)(f := (fun_at w f)\<lparr>hotness := bump_saturating (hotness (fun_at w f)), tier := TIER1,
      pf_tier1 := h, deopt_count := 0, pf_entry := 8192, osr_entry := 0\<rparr>))"
proof -
  let ?w = "on_fn f (\<lambda>fn. fn\<lparr>hotness := bump_saturating (hotness fn), tier := QUEUED\<rparr>) w"
  have ready: "hot_ready ?w" "hot_ready (pin f ?w)" using assms(1) by (simp_all add: hot_ready_def pin_def)
  have "w' = tierup_hook fixed_jit f 0 ?w"
    unfolding w'_def using assms(1,3,5)
    by (auto simp: pon_tierup_bump_call_def maybe_queue_tierup_def hot_again_def is_due_def hot_ready_def on_fn_upd o_def Let_def)
  also have "\<dots> = compile_and_install fixed_jit f CallReason ?w"
    using assms(1,2) by (simp add: tierup_hook_def decode_reason_def hot_ready_def)
  finally have w': "w' = compile_and_install fixed_jit f CallReason ?w" .
  obtain fb where "prepare_request f CallReason ?w =
      (Some \<lparr>rq_function = f, ir_snapshot_id = 0, feedback_snapshot_of = fb, rq_reason = CallReason\<rparr>, pin f ?w)"
    using prepare_hot [OF ready(1) assms(3)] assms(4) by auto
  then have "w' = process_request fixed_jit \<lparr>rq_function = f, ir_snapshot_id = 0, feedback_snapshot_of = fb, rq_reason = CallReason\<rparr> (pin f ?w)"
    by (simp add: w' compile_and_install_def)
  moreover have "tier (fun_at (pin f ?w) f) = QUEUED" by (simp add: pin_def)
  ultimately obtain c where c: "w' = unpin f (snd (install_compilation f c (pin f ?w)))" "c_entry c = 8192" "c_osr_loop_header c = None"
    using compile_hot [OF ready(2) _ assms(3), of "\<lparr>rq_function = f, ir_snapshot_id = 0, feedback_snapshot_of = fb, rq_reason = CallReason\<rparr>"]
    by auto
  then show ?thesis
    using assms(1,2) by (auto simp: install_compilation_def install_record pin_def unpin_def hot_ready_def)
qed

lemma bump_cold:
  assumes "f \<noteq> 0" "\<not> hot_again ((fun_at w f)\<lparr>hotness := bump_saturating (hotness (fun_at w f))\<rparr>)"
  shows "pon_tierup_bump_call j f w = on_fn f (\<lambda>fn. fn\<lparr>hotness := bump_saturating (hotness fn)\<rparr>) w"
  using assms by (auto simp: pon_tierup_bump_call_def hot_again_def Let_def)

text \<open>Sixteen calls promote the function.\<close>

lemma sixteen_calls:
  assumes "hot_ready w" "sync_tierup w" "f \<noteq> 0" "fun_at w f = py_function_new 4096"
  defines "w' \<equiv> (pon_tierup_bump_call fixed_jit f ^^ 16) w"
  shows "hot_ready w' \<and> sync_tierup w' \<and> (\<exists>h. fun_at w' = (fun_at w)(f := (py_function_new 4096)\<lparr>hotness := 16, tier := TIER1,
      pf_tier1 := h, pf_entry := 8192\<rparr>))"
proof -
  let ?w = "on_fn f (\<lambda>fn. fn\<lparr>hotness := 15\<rparr>) w"
  have "(pon_tierup_bump_call fixed_jit f ^^ 15) w = ?w"
    using cold_calls [OF assms(3), of w 15 fixed_jit] assms(4) by (simp add: py_function_new_def call_limit_def)
  then have w': "w' = pon_tierup_bump_call fixed_jit f ?w"
    unfolding w'_def using funpow.simps(2) [of 15 "pon_tierup_bump_call fixed_jit f"] by simp
  have ready: "hot_ready ?w" "sync_tierup ?w" using assms(1,2) by (simp_all add: hot_ready_def)
  have "hot_again ((fun_at ?w f)\<lparr>hotness := bump_saturating (hotness (fun_at ?w f))\<rparr>)" "pf_code (fun_at ?w f) = 4096"
    using assms(4) by (simp_all add: hot_again_def py_function_new_def TIER1_CALL_THRESHOLD_def bump_saturating_def)
  from bump_hot [OF ready assms(3) this(2,1)] show ?thesis
    unfolding w' using assms(4) by (auto simp: py_function_new_def bump_saturating_def)
qed

lemma race_calls: "race_run j f (replicate n (Other (BumpCall f))) (w, ph) = ((pon_tierup_bump_call j f ^^ n) w, ph)"
  by (induction n arbitrary: w) (simp_all add: race_run_def funpow_swap1)

lemma race_notes:
  assumes "ph t = NoteIdle" "deopt_count (fun_at w f) = 0"
  shows "n < 64 \<Longrightarrow> race_run j f (replicate n (Note t)) (w, ph) = (on_fn f (\<lambda>fn. fn\<lparr>deopt_count := of_nat n\<rparr>) w, ph)"
proof (induction n)
  case 0
  then show ?case using assms(2) by (simp add: race_run_def on_fn_same counter_idem)
next
  case (Suc n)
  have "unat (of_nat (Suc n) :: u32) = Suc n" by (rule unat_of_nat_u32) (use Suc.prems in simp)
  then have "(of_nat (Suc n) :: u32) < 64" using Suc.prems by (simp add: word_less_nat_alt del: of_nat_Suc)
  then have "note_step NoteIdle (fn\<lparr>deopt_count := of_nat n\<rparr>) = (NoteIdle, fn\<lparr>deopt_count := of_nat (Suc n)\<rparr>)" for fn
    using bump_of_nat [of n] Suc.prems
    by (simp add: note_step_def Let_def DEOPT_THRASH_THRESHOLD_def add.commute del: of_nat_Suc) simp
  moreover have "race_run j f (replicate (Suc n) (Note t)) (w, ph) = race_step j f (Note t) (race_run j f (replicate n (Note t)) (w, ph))"
    by (simp add: race_run_def replicate_append_same [symmetric] del: replicate.simps)
  ultimately show ?case using Suc assms(1) by (simp add: on_fn_upd o_def fun_upd_idem on_fn_def del: of_nat_Suc)
qed

lemma race_run_append: "race_run j f (evs @ later) s = race_run j f later (race_run j f evs s)"
  by (simp add: race_run_def)

lemma race_run_Cons: "race_run j f (ev # evs) s = race_run j f evs (race_step j f ev s)"
  by (simp add: race_run_def)

text \<open>
  The function is promoted, one thread notes 64 transfers and sends it back; before that thread stores
  anything else, a call finds it hot, and it is promoted again.
\<close>

definition crossing_events :: "addr \<Rightarrow> nat \<Rightarrow> race_event list" where
  "crossing_events f t =
     replicate 16 (Other (BumpCall f)) @ replicate 63 (Note t) @ [Note t, Note t, Note t] @ [Other (BumpCall f)] @
     [Note t, Note t, Note t, Note t, Note t]"

lemma crossing_run:
  assumes "hot_ready w" "sync_tierup w" "f \<noteq> 0" "fun_at w f = py_function_new 4096"
  shows "\<exists>w' h. race_run fixed_jit f (crossing_events f t) (w, \<lambda>_. NoteIdle) = (w', \<lambda>_. NoteIdle) \<and>
    fun_at w' f = (py_function_new 4096)\<lparr>tier := TIER1, pf_tier1 := h, tier_epoch := 1\<rparr>"
proof -
  let ?idle = "\<lambda>_. NoteIdle"
  define w1 where "w1 = (pon_tierup_bump_call fixed_jit f ^^ 16) w"
  obtain h where w1: "hot_ready w1" "sync_tierup w1"
    "fun_at w1 = (fun_at w)(f := (py_function_new 4096)\<lparr>hotness := 16, tier := TIER1, pf_tier1 := h, pf_entry := 8192\<rparr>)"
    using sixteen_calls [OF assms] unfolding w1_def by blast
  let ?w5 = "on_fn f (\<lambda>fn. fn\<lparr>deopt_count := 64, tier := DEFERRED\<rparr>) w1"
  have counted: "race_run fixed_jit f (replicate 63 (Note t)) (w1, ?idle) = (on_fn f (\<lambda>fn. fn\<lparr>deopt_count := 63\<rparr>) w1, ?idle)"
    using race_notes [of ?idle t w1 f 63 fixed_jit] w1(3) by (simp add: py_function_new_def)
  have sent: "race_run fixed_jit f [Note t, Note t, Note t] (on_fn f (\<lambda>fn. fn\<lparr>deopt_count := 63\<rparr>) w1, ?idle) = (?w5, ?idle(t := NoteWon 0))"
    using w1(3)
    by (simp add: race_run_def note_step_def py_function_new_def bump_saturating_def DEOPT_THRASH_THRESHOLD_def deopt_target_def
        DEOPT_PIN_EPOCH_def on_fn_def)
  have ready: "hot_ready ?w5" "sync_tierup ?w5" "pf_code (fun_at ?w5 f) = 4096"
    using w1 by (simp_all add: hot_ready_def py_function_new_def)
  have "unat (backed_off_threshold TIER1_DEFERRED_CALL_THRESHOLD fn) = 16" if "tier_epoch fn = 0" for fn
    using threshold_exact [of TIER1_DEFERRED_CALL_THRESHOLD fn] that by (simp add: TIER1_DEFERRED_CALL_THRESHOLD_def)
  then have "hot_again ((fun_at ?w5 f)\<lparr>hotness := bump_saturating (hotness (fun_at ?w5 f))\<rparr>)"
    using w1(3) by (simp add: hot_again_def py_function_new_def bump_saturating_def word_le_nat_alt)
  from bump_hot [OF ready(1,2) assms(3) ready(3) this] obtain h' where
    call: "fun_at (pon_tierup_bump_call fixed_jit f ?w5) f =
      (py_function_new 4096)\<lparr>hotness := 17, tier := TIER1, pf_tier1 := h', pf_entry := 8192\<rparr>"
    using w1(3) by (auto simp: py_function_new_def bump_saturating_def)
  let ?w6 = "pon_tierup_bump_call fixed_jit f ?w5"
  have "\<exists>w'. race_run fixed_jit f [Note t, Note t, Note t, Note t, Note t] (?w6, ?idle(t := NoteWon 0)) = (w', ?idle) \<and>
      fun_at w' f = (py_function_new 4096)\<lparr>tier := TIER1, pf_tier1 := h', tier_epoch := 1\<rparr>"
    using call by (simp add: race_run_def note_step_def deopt_stores_def saturating_succ_def py_function_new_def fun_upd_idem)
  then show ?thesis
    unfolding crossing_events_def race_run_append race_calls counted sent w1_def [symmetric]
    by (auto simp: race_run_Cons race_run_def [of _ _ "[]"])
qed

text \<open>
  A note that is overtaken takes the function's new code away.  A function is promoted after sixteen
  calls; a thread notes 64 transfers and moves its state back, but has not yet stored the tier-0 entry
  nor reset the counters; the next call finds the function hot in the same epoch, and it is compiled
  and promoted again.  When the thread then finishes its stores, the function is in tier 1 and nobody
  works on it, yet it dispatches to its tier-0 code.
\<close>
theorem crossing_note_loses_code:
  assumes "hot_ready w" "sync_tierup w" "f \<noteq> 0" "fun_at w f = py_function_new 4096"
  shows "let s = race_run fixed_jit f (crossing_events f t) (w, \<lambda>_. NoteIdle); fn = fun_at (fst s) f
    in tier fn = TIER1 \<and> pf_entry fn = pf_code fn \<and> snd s = (\<lambda>_. NoteIdle)"
proof -
  obtain w' h where "race_run fixed_jit f (crossing_events f t) (w, \<lambda>_. NoteIdle) = (w', \<lambda>_. NoteIdle)"
    "fun_at w' f = (py_function_new 4096)\<lparr>tier := TIER1, pf_tier1 := h, tier_epoch := 1\<rparr>"
    using crossing_run [OF assms] by blast
  then show ?thesis by (simp add: py_function_new_def)
qed

definition hot_driver :: tierup where
  "hot_driver = (tierup_start True)\<lparr>fun_at := \<lambda>_. py_function_new 4096, modules := [hot_module], registered := [hot_record],
     driver_active := True, hook := True\<rparr>"

lemma hot_driver_ready: "hot_ready hot_driver" "sync_tierup hot_driver" "fun_at hot_driver f = py_function_new 4096"
  by (simp_all add: hot_driver_def hot_ready_def tierup_start_def)

theorem promotions_bounded_witness:
  "race_promotions fixed_jit 16 (crossing_events 16 0) (hot_driver, \<lambda>_. NoteIdle) = 2 \<and>
   race_promotions fixed_jit 16 (crossing_events 16 0) (hot_driver, \<lambda>_. NoteIdle) \<le> 9"
proof
  have evs: "list_all (of_threads {0} 16) (crossing_events 16 0 @ [])"
    by (simp add: crossing_events_def list_all_iff of_threads_def other_event_def)
  show "race_promotions fixed_jit 16 (crossing_events 16 0) (hot_driver, \<lambda>_. NoteIdle) \<le> 9"
    using promotions_bounded [OF _ evs hot_driver_ready(3), of fixed_jit] by simp
  obtain w' h where run: "race_run fixed_jit 16 (crossing_events 16 0) (hot_driver, \<lambda>_. NoteIdle) = (w', \<lambda>_. NoteIdle)"
    "fun_at w' 16 = (py_function_new 4096)\<lparr>tier := TIER1, pf_tier1 := h, tier_epoch := 1\<rparr>"
    using crossing_run [OF hot_driver_ready(1,2) _ hot_driver_ready(3), of 16 0] by auto
  have "race_inv {0} 0 (fun_at (fst (hot_driver, \<lambda>_. NoteIdle)) 16) (snd (hot_driver, \<lambda>_ :: nat. NoteIdle))"
    using race_start(1) hot_driver_ready(3) by simp
  from race_run_level [OF _ _ this, of "crossing_events 16 0" fixed_jit] evs run race_start(2) [of "{0}" 4096] hot_driver_ready(3)
  obtain b where b: "race_inv {0} b (fun_at w' 16) (\<lambda>_. NoteIdle)"
    "race_level {0} b (fun_at w' 16) (\<lambda>_. NoteIdle) = race_promotions fixed_jit 16 (crossing_events 16 0) (hot_driver, \<lambda>_. NoteIdle)"
    by auto
  then have "b = 1" using run(2) by (auto simp: race_inv_def)
  with b(2) run(2) show "race_promotions fixed_jit 16 (crossing_events 16 0) (hot_driver, \<lambda>_. NoteIdle) = 2"
    by (simp add: race_level_def tally_def before_bump_def)
qed

theorem crossing_note_loses_code_witness:
  "let fn = fun_at (fst (race_run fixed_jit 16 (crossing_events 16 0) (hot_driver, \<lambda>_. NoteIdle))) 16
   in tier fn = TIER1 \<and> pf_entry fn = pf_code fn"
  using crossing_note_loses_code [OF hot_driver_ready(1,2) _ hot_driver_ready(3), of 16 0] by (simp add: Let_def)

section \<open>The life of a driver\<close>

lemma tier_run_append: "tier_run j (evs @ later) w = Option.bind (tier_run j evs w) (tier_run j later)"
  by (induction evs arbitrary: w) auto

lemma tier_run_calls: "tier_run j (replicate n (BumpCall f)) w = Some ((pon_tierup_bump_call j f ^^ n) w)"
  by (induction n arbitrary: w) (simp_all add: allowed_def funpow_swap1)

lemma sixteen_calls_queue:
  fixes j :: jit
  assumes "hot_ready w" "\<not> sync_tierup w" "f \<noteq> 0" "fun_at w f = py_function_new 4096"
  defines "w' \<equiv> (pon_tierup_bump_call j f ^^ 16) w"
  shows "hot_ready w' \<and> \<not> sync_tierup w' \<and> installed w' = installed w \<and>
    fun_at w' = (fun_at w)(f := (py_function_new 4096)\<lparr>hotness := 16, tier := QUEUED\<rparr>) \<and>
    (\<exists>fb. compile_queue w' = compile_queue w @ [\<lparr>rq_function = f, ir_snapshot_id = 0, feedback_snapshot_of = fb, rq_reason = CallReason\<rparr>])"
proof -
  let ?w = "on_fn f (\<lambda>fn. fn\<lparr>hotness := of_nat (call_limit fn), tier := QUEUED\<rparr>) w"
  have limit: "call_limit (fun_at w f) = 16" using assms(4) by (simp add: call_limit_def py_function_new_def)
  have ready: "hot_ready ?w" using assms(1) by (simp add: hot_ready_def)
  obtain fb where fb: "prepare_request f CallReason ?w =
      (Some \<lparr>rq_function = f, ir_snapshot_id = 0, feedback_snapshot_of = fb, rq_reason = CallReason\<rparr>, pin f ?w)"
    using prepare_hot [OF ready assms(3)] assms(4) by (auto simp: py_function_new_def)
  have "w' = tierup_hook j f 0 ?w"
    unfolding w'_def using last_cold_call [OF assms(3), of w j] assms(1,4) limit by (simp add: hot_ready_def py_function_new_def)
  also have "\<dots> = enqueue f CallReason ?w"
    using assms(1,2) by (simp add: tierup_hook_def decode_reason_def hot_ready_def)
  finally show ?thesis
    using fb ready assms(1,2,4) limit by (simp add: enqueue_def pin_def hot_ready_def)
qed

definition driver_life :: "tier_event list" where
  "driver_life =
     [NewFunction 16 4096, NewFunction 32 4096, RegisterModule hot_module [4096], SetHook False] @
     replicate 16 (BumpCall 16) @ [CompilerStep] @ replicate 16 (BumpCall 32)"

lemma driver_life_run:
  "\<exists>w. tier_run fixed_jit driver_life (tierup_start False) = Some w \<and> tier (fun_at w 16) = TIER1 \<and> queued_functions w = {32}"
proof -
  obtain w0 where w0: "tier_run fixed_jit [NewFunction 16 4096, NewFunction 32 4096, RegisterModule hot_module [4096], SetHook False]
      (tierup_start False) = Some w0" "hot_ready w0" "\<not> sync_tierup w0" "fun_at w0 16 = py_function_new 4096"
      "fun_at w0 32 = py_function_new 4096" "compile_queue w0 = []"
    by (simp add: allowed_def tierup_start_def register_module_def register_runtime_hook_def hot_ready_def hot_module_def
        hot_record_def feedback_len_def one_function_def hot_block_def inst_new_def List.map_filter_simps)
  let ?w1 = "(pon_tierup_bump_call fixed_jit 16 ^^ 16) w0"
  obtain fb where w1: "hot_ready ?w1" "\<not> sync_tierup ?w1"
    "fun_at ?w1 = (fun_at w0)(16 := (py_function_new 4096)\<lparr>hotness := 16, tier := QUEUED\<rparr>)"
    "compile_queue ?w1 = [\<lparr>rq_function = 16, ir_snapshot_id = 0, feedback_snapshot_of = fb, rq_reason = CallReason\<rparr>]"
    using sixteen_calls_queue [OF w0(2,3) _ w0(4), of fixed_jit] w0(6) by auto
  let ?rq = "\<lparr>rq_function = 16, ir_snapshot_id = 0, feedback_snapshot_of = fb, rq_reason = CallReason\<rparr>"
  let ?v = "?w1\<lparr>compile_queue := []\<rparr>"
  obtain c where c: "process_request fixed_jit ?rq ?v = unpin 16 (snd (install_compilation 16 c ?v))"
    "c_entry c = 8192" "c_osr_loop_header c = None"
    using compile_hot [of ?v ?rq 16] w1(1,3) by (auto simp: hot_ready_def)
  let ?w2 = "compiler_step fixed_jit ?w1"
  have step: "?w2 = unpin 16 (snd (install_compilation 16 c ?v))"
    using w1(1,4) c(1) by (simp add: compiler_step_def hot_ready_def)
  have w2: "hot_ready ?w2" "\<not> sync_tierup ?w2" "fun_at ?w2 32 = py_function_new 4096" "tier (fun_at ?w2 16) = TIER1" "compile_queue ?w2 = []"
    unfolding step using w1 w0(5) c by (simp_all add: install_compilation_def install_record unpin_def hot_ready_def)
  let ?w3 = "(pon_tierup_bump_call fixed_jit 32 ^^ 16) ?w2"
  have "tier (fun_at ?w3 16) = TIER1 \<and> queued_functions ?w3 = {32}"
    using sixteen_calls_queue [OF w2(1,2) _ w2(3), of fixed_jit] w2(4,5) by (auto simp: queued_functions_def)
  moreover have "tier_run fixed_jit driver_life (tierup_start False) = Some ?w3"
    unfolding driver_life_def tier_run_append w0(1) by (simp add: tier_run_calls allowed_def)
  ultimately show ?thesis by blast
qed

text \<open>
  C9. The driver in every life that starts empty and runs probes, notes, compiler steps, registrations,
  hook changes, shutdown and the creation of functions, one operation at a time, as long as no more
  than \<open>2 ^ 32\<close> functions are registered (a request names its record by 32 bits) and a function object is
  created only at an address that is not pinned.  A function is queued exactly when the queue holds a
  request for it, which is then the only one; the pinned functions are exactly the queued ones.  While
  it is in tier 1, a function dispatches to the newest tier-1 code it was given, which the driver still
  holds; in every other state to its tier-0 code.  What the gate of on-stack replacement hands out for
  a loop header is the second entry of that newest code, compiled for that header.
\<close>
theorem tierup_driver_invariant:
  assumes "tier_run j evs (tierup_start sync) = Some w"
  shows "distinct (map rq_function (compile_queue w)) \<and> pins w = queued_functions w \<and>
    (\<forall>f. tier (fun_at w f) = QUEUED \<longleftrightarrow> f \<in> queued_functions w) \<and>
    (\<forall>f. if tier (fun_at w f) = TIER1
         then pf_entry (fun_at w f) \<noteq> pf_code (fun_at w f) \<and>
           (\<exists>c. newest j f evs (tierup_start sync) None = Some c \<and> c \<in> set (installed w) \<and> dispatches_to c (fun_at w f))
         else pf_entry (fun_at w f) = pf_code (fun_at w f)) \<and>
    (\<forall>f header. osr_gate (fun_at w f) header \<noteq> 0 \<longrightarrow>
       (\<exists>c. newest j f evs (tierup_start sync) None = Some c \<and>
          osr_gate (fun_at w f) header = c_osr_entry c \<and> map_option of_nat (c_osr_loop_header c) = Some header))"
proof -
  have inv: "tier_inv w" using tier_run_inv [OF tierup_start_inv assms] .
  then have good: "fn_good (installed w) (fun_at w f)" for f by (simp add: tier_inv_def)
  have "gift_held None (fun_at (tierup_start sync) f) (tierup_start sync)" for f
    by (simp add: gift_held_def tierup_start_def py_function_new_def)
  then have held: "gift_held (newest j f evs (tierup_start sync) None) (fun_at w f) w" for f
    by (rule newest_code [OF assms])
  have "\<exists>c. newest j f evs (tierup_start sync) None = Some c \<and>
      osr_gate (fun_at w f) header = c_osr_entry c \<and> map_option of_nat (c_osr_loop_header c) = Some header"
    if "osr_gate (fun_at w f) header \<noteq> 0" for f header
    using held [of f] that by (auto simp: osr_gate_def gift_held_def dispatches_to_def split: if_splits)
  with inv good held show ?thesis by (simp add: tier_inv_def fn_good_def gift_held_def)
qed

theorem tierup_driver_invariant_witness:
  "\<exists>w c. tier_run fixed_jit driver_life (tierup_start False) = Some w \<and> pins w = {32} \<and> tier (fun_at w 32) = QUEUED \<and>
     newest fixed_jit 16 driver_life (tierup_start False) None = Some c \<and> dispatches_to c (fun_at w 16)"
proof -
  obtain w where w: "tier_run fixed_jit driver_life (tierup_start False) = Some w" "tier (fun_at w 16) = TIER1" "queued_functions w = {32}"
    using driver_life_run by blast
  note life = tierup_driver_invariant [OF w(1)]
  have "pins w = {32}" "tier (fun_at w 32) = QUEUED" using life w(3) by simp_all
  moreover obtain c where "newest fixed_jit 16 driver_life (tierup_start False) None = Some c" "dispatches_to c (fun_at w 16)"
    using life w(2) by metis
  ultimately show ?thesis using w(1) by blast
qed

end
