(* ===== verification/Interner.thy ===== *)
theory Interner
  imports Pon_Prelude
begin

text \<open>
  The process-wide name interner of \<^verbatim>\<open>pon-runtime/src/intern.rs\<close> and its ahead-of-time
  replay (\<^verbatim>\<open>pon-aot/src/lib.rs\<close>, \<^verbatim>\<open>pon-runtime/src/aot_entry.rs\<close>): a build interns names
  while compiling, bakes the ids into object data, and the produced executable re-interns the
  snapshot at start-up.

  The interface \<open>name_table\<close> states what the ahead-of-time replay needs of an interner; the
  interner of the runtime is an interpretation of it.  Ids are \<open>u32\<close>: the table is injective
  as long as it holds at most \<open>2 ^ 32\<close> names, which the hypotheses say where it matters.
\<close>

section \<open>The interner\<close>

record interner =
  by_name :: "string \<Rightarrow> u32 option"
  by_id :: "string list"

definition interner_default :: interner where
  "interner_default = \<lparr>by_name = (\<lambda>_. None), by_id = []\<rparr>"

definition intern :: "string \<Rightarrow> interner \<Rightarrow> u32 \<times> interner" where
  "intern name st =
     (case by_name st name of
        Some i \<Rightarrow> (i, st)
      | None \<Rightarrow>
          let i = word_of_nat (length (by_id st)) in
          (i, st\<lparr>by_id := by_id st @ [name], by_name := (by_name st)(name := Some i)\<rparr>))"

definition resolve :: "u32 \<Rightarrow> interner \<Rightarrow> string option" where
  "resolve i st = (if unat i < length (by_id st) then Some (by_id st ! unat i) else None)"

definition snapshot :: "interner \<Rightarrow> string list" where
  "snapshot st = by_id st"

definition DUNDER_ADD :: string where "DUNDER_ADD = ''__add__''"
definition DUNDER_RADD :: string where "DUNDER_RADD = ''__radd__''"
definition DUNDER_ITER :: string where "DUNDER_ITER = ''__iter__''"
definition DUNDER_NEXT :: string where "DUNDER_NEXT = ''__next__''"
definition DUNDER_LEN :: string where "DUNDER_LEN = ''__len__''"
definition DUNDER_GETITEM :: string where "DUNDER_GETITEM = ''__getitem__''"
definition DUNDER_SETITEM :: string where "DUNDER_SETITEM = ''__setitem__''"
definition DUNDER_CALL :: string where "DUNDER_CALL = ''__call__''"
definition DUNDER_GET :: string where "DUNDER_GET = ''__get__''"
definition DUNDER_SET :: string where "DUNDER_SET = ''__set__''"

definition dunder_names :: "string list" where
  "dunder_names = [DUNDER_ADD, DUNDER_RADD, DUNDER_ITER, DUNDER_NEXT, DUNDER_LEN,
     DUNDER_GETITEM, DUNDER_SETITEM, DUNDER_CALL, DUNDER_GET, DUNDER_SET]"

section \<open>The ahead-of-time name table\<close>

fun intern_all :: "string list \<Rightarrow> interner \<Rightarrow> interner" where
  "intern_all [] st = st"
| "intern_all (n # ns) st = intern_all ns (snd (intern n st))"

definition aot_runtime_name_snapshot :: "string list \<Rightarrow> interner \<Rightarrow> string list \<times> interner" where
  "aot_runtime_name_snapshot module_names st =
     (let st' = intern_all module_names st in (snapshot st', st'))"

text \<open>
  \<^verbatim>\<open>pon_aot_intern_name\<close>: \<open>name\<close> is \<open>None\<close> for a NULL pointer and the bytes it points to
  otherwise; \<open>from_utf8\<close> is the standard library's decoder.  The second result is the pending
  error, if one is set.
\<close>

definition pon_aot_intern_name ::
  "(u8 list \<Rightarrow> string option) \<Rightarrow> u8 list option \<Rightarrow> nat \<Rightarrow> interner \<Rightarrow> interner \<times> string option" where
  "pon_aot_intern_name from_utf8 name len st =
     (case name of
        None \<Rightarrow>
          if len = 0 then (snd (intern [] st), None)
          else (st, Some ''AoT name initializer received a null name pointer'')
      | Some bytes \<Rightarrow>
          (case from_utf8 bytes of
             Some n \<Rightarrow> (snd (intern n st), None)
           | None \<Rightarrow> (st, Some ''AoT name initializer received invalid UTF-8'')))"

text \<open>\<^verbatim>\<open>pon_aot_init_names\<close> calls it once per embedded name, in snapshot order.\<close>

fun aot_init_names :: "(u8 list \<Rightarrow> string option) \<Rightarrow> u8 list list \<Rightarrow> interner \<Rightarrow> interner" where
  "aot_init_names from_utf8 [] st = st"
| "aot_init_names from_utf8 (bytes # rest) st =
     aot_init_names from_utf8 rest (fst (pon_aot_intern_name from_utf8 (Some bytes) (length bytes) st))"

section \<open>The interface of a name table\<close>

locale name_table =
  fixes empty_table :: 's
    and add :: "string \<Rightarrow> 's \<Rightarrow> 'i \<times> 's"
    and names :: "'s \<Rightarrow> string list"
    and index :: "'i \<Rightarrow> nat"
    and inv :: "'s \<Rightarrow> bool"
    and cap :: nat
  assumes inv_empty: "inv empty_table"
    and names_empty: "names empty_table = []"
    and inv_distinct: "inv s \<Longrightarrow> distinct (names s)"
    and add_known: "\<lbrakk>inv s; i < length (names s)\<rbrakk>
        \<Longrightarrow> index (fst (add (names s ! i) s)) = i \<and> snd (add (names s ! i) s) = s"
    and add_new: "\<lbrakk>inv s; n \<notin> set (names s); length (names s) < cap\<rbrakk>
        \<Longrightarrow> index (fst (add n s)) = length (names s) \<and> names (snd (add n s)) = names s @ [n] \<and>
            inv (snd (add n s))"
begin

fun add_all :: "string list \<Rightarrow> 's \<Rightarrow> 's" where
  "add_all [] s = s"
| "add_all (n # ns) s = add_all ns (snd (add n s))"

lemma add_index:
  assumes "inv s" "length (names s) < cap"
  shows "inv (snd (add n s))" "index (fst (add n s)) < length (names (snd (add n s)))"
    "names (snd (add n s)) ! index (fst (add n s)) = n" "\<exists>ext. names (snd (add n s)) = names s @ ext"
proof -
  have "inv (snd (add n s)) \<and> index (fst (add n s)) < length (names (snd (add n s))) \<and>
      names (snd (add n s)) ! index (fst (add n s)) = n \<and> (\<exists>ext. names (snd (add n s)) = names s @ ext)"
  proof (cases "n \<in> set (names s)")
    case True
    then obtain i where i: "i < length (names s)" "n = names s ! i" by (auto simp: in_set_conv_nth)
    then show ?thesis using assms add_known [of s i] by auto
  next
    case False
    then show ?thesis using assms add_new [of s n] by auto
  qed
  then show "inv (snd (add n s))" "index (fst (add n s)) < length (names (snd (add n s)))"
    "names (snd (add n s)) ! index (fst (add n s)) = n" "\<exists>ext. names (snd (add n s)) = names s @ ext"
    by auto
qed

lemma replay:
  assumes "inv s" "distinct (names s @ ns)" "length (names s @ ns) \<le> cap"
  shows "names (add_all ns s) = names s @ ns \<and> inv (add_all ns s)"
  using assms
proof (induction ns arbitrary: s)
  case Nil
  then show ?case by simp
next
  case (Cons n ns)
  then have "n \<notin> set (names s)" "length (names s) < cap" by auto
  then have step: "names (snd (add n s)) = names s @ [n]" "inv (snd (add n s))"
    using add_new Cons.prems(1) by blast+
  have "names (add_all ns (snd (add n s))) = names (snd (add n s)) @ ns \<and> inv (add_all ns (snd (add n s)))"
    by (rule Cons.IH) (use Cons.prems step in \<open>auto simp: step\<close>)
  then show ?case by (simp add: step)
qed

lemma replay_snapshot:
  assumes "inv s" "length (names s) \<le> cap"
  shows "names (add_all (names s) empty_table) = names s"
    "\<And>i. i < length (names s) \<Longrightarrow> index (fst (add (names s ! i) (add_all (names s) empty_table))) = i"
proof -
  have r: "names (add_all (names s) empty_table) = names s \<and> inv (add_all (names s) empty_table)"
    using replay [of empty_table "names s"] assms by (simp add: inv_empty names_empty inv_distinct)
  then show "names (add_all (names s) empty_table) = names s" by simp
  show "index (fst (add (names s ! i) (add_all (names s) empty_table))) = i" if "i < length (names s)" for i
    using r add_known [of "add_all (names s) empty_table" i] that by simp
qed

end

section \<open>The runtime's interner implements it\<close>

definition interner_wf :: "interner \<Rightarrow> bool" where
  "interner_wf st \<longleftrightarrow> distinct (by_id st) \<and> length (by_id st) \<le> 2 ^ 32 \<and>
     (\<forall>n i. by_name st n = Some i \<longleftrightarrow> unat i < length (by_id st) \<and> by_id st ! unat i = n)"

lemma interner_wf_default [simp]: "interner_wf interner_default"
  by (simp add: interner_wf_def interner_default_def)

lemma unat_word_of_nat_u32: "k < 2 ^ 32 \<Longrightarrow> unat (word_of_nat k :: u32) = k"
  by (simp add: unat_of_nat take_bit_nat_eq_self)

lemma by_name_None_iff: "interner_wf st \<Longrightarrow> by_name st n = None \<longleftrightarrow> n \<notin> set (by_id st)"
proof -
  assume wf: "interner_wf st"
  show ?thesis
  proof
    assume none: "by_name st n = None"
    show "n \<notin> set (by_id st)"
    proof
      assume "n \<in> set (by_id st)"
      then obtain k where k: "k < length (by_id st)" "by_id st ! k = n" by (auto simp: in_set_conv_nth)
      then have "unat (word_of_nat k :: u32) = k"
        using wf by (intro unat_word_of_nat_u32) (auto simp: interner_wf_def)
      then have "by_name st n = Some (word_of_nat k)"
        using wf k by (simp add: interner_wf_def)
      with none show False by simp
    qed
  next
    assume "n \<notin> set (by_id st)"
    then show "by_name st n = None"
      using wf by (cases "by_name st n") (auto simp: interner_wf_def)
  qed
qed

lemma intern_new:
  assumes "interner_wf st" "length (by_id st) < 2 ^ 32" "n \<notin> set (by_id st)"
  shows "fst (intern n st) = word_of_nat (length (by_id st))"
    "by_id (snd (intern n st)) = by_id st @ [n]" "interner_wf (snd (intern n st))"
proof -
  let ?i = "word_of_nat (length (by_id st)) :: u32"
  have none: "by_name st n = None" using assms by_name_None_iff by blast
  have ui: "unat ?i = length (by_id st)" by (rule unat_word_of_nat_u32 [OF assms(2)])
  show "fst (intern n st) = ?i" "by_id (snd (intern n st)) = by_id st @ [n]"
    using none by (simp_all add: intern_def Let_def)
  have iff: "(unat i < length (by_id st) \<and> by_id st ! unat i = m) \<longleftrightarrow> by_name st m = Some i" for m i
    using assms(1) by (simp add: interner_wf_def)
  have u: "unat i = length (by_id st) \<longleftrightarrow> i = ?i" for i :: u32
    using ui by (metis word_unat_eq_iff)
  have "(if m = n then Some ?i else by_name st m) = Some i \<longleftrightarrow>
      unat i < length (by_id st @ [n]) \<and> (by_id st @ [n]) ! unat i = m" for m i
    using iff [of i m] iff [of i n] u [of i] none assms(3)
    by (auto simp: nth_append less_Suc_eq split: if_splits)
  then show "interner_wf (snd (intern n st))"
    using assms none by (auto simp: interner_wf_def intern_def Let_def)
qed

lemma intern_old:
  assumes "interner_wf st" "i < length (by_id st)"
  shows "intern (by_id st ! i) st = (word_of_nat i, st)"
proof -
  have "unat (word_of_nat i :: u32) = i"
    using assms by (intro unat_word_of_nat_u32) (auto simp: interner_wf_def)
  then have "by_name st (by_id st ! i) = Some (word_of_nat i)"
    using assms by (simp add: interner_wf_def)
  then show ?thesis by (simp add: intern_def)
qed

lemma intern_wf:
  assumes "interner_wf st" "length (by_id st) < 2 ^ 32"
  shows "interner_wf (snd (intern n st))"
proof (cases "n \<in> set (by_id st)")
  case True
  then obtain i where "i < length (by_id st)" "n = by_id st ! i" by (auto simp: in_set_conv_nth)
  then show ?thesis using assms intern_old by simp
next
  case False
  then show ?thesis using assms intern_new by blast
qed

interpretation rt: name_table interner_default intern by_id unat interner_wf "2 ^ 32"
proof unfold_locales
  show "interner_wf interner_default" by simp
  show "by_id interner_default = []" by (simp add: interner_default_def)
next
  fix s assume "interner_wf s"
  then show "distinct (by_id s)" by (simp add: interner_wf_def)
next
  fix s i assume "interner_wf s" "i < length (by_id s)"
  then show "unat (fst (intern (by_id s ! i) s)) = i \<and> snd (intern (by_id s ! i) s) = s"
    by (auto simp: intern_old interner_wf_def intro!: unat_word_of_nat_u32)
next
  fix s n assume *: "interner_wf s" "n \<notin> set (by_id s)" "length (by_id s) < 2 ^ 32"
  then show "unat (fst (intern n s)) = length (by_id s) \<and> by_id (snd (intern n s)) = by_id s @ [n] \<and>
      interner_wf (snd (intern n s))"
    by (simp add: intern_new unat_word_of_nat_u32)
qed

lemma add_all_intern_all: "rt.add_all ns st = intern_all ns st"
  by (induction ns arbitrary: st) simp_all

lemma length_intern: "length (by_id st) \<le> length (by_id (snd (intern n st)))"
  by (auto simp: intern_def Let_def split: option.split)

lemma length_intern_all: "length (by_id st) \<le> length (by_id (intern_all ns st))"
  by (induction ns arbitrary: st) (auto intro: order_trans length_intern)

lemma intern_wf_bound:
  assumes "interner_wf st" "length (by_id (snd (intern n st))) \<le> 2 ^ 32"
  shows "interner_wf (snd (intern n st))"
proof (cases "n \<in> set (by_id st)")
  case True
  then obtain i where "i < length (by_id st)" "n = by_id st ! i" by (auto simp: in_set_conv_nth)
  then show ?thesis using assms intern_old by simp
next
  case False
  then have "by_name st n = None" using assms(1) by_name_None_iff by blast
  then have "length (by_id st) < 2 ^ 32" using assms(2) by (simp add: intern_def Let_def)
  then show ?thesis using assms(1) intern_wf by blast
qed

lemma intern_all_wf:
  "interner_wf st \<Longrightarrow> length (by_id (intern_all ns st)) \<le> 2 ^ 32 \<Longrightarrow> interner_wf (intern_all ns st)"
proof (induction ns arbitrary: st)
  case Nil
  then show ?case by simp
next
  case (Cons n ns)
  have "length (by_id (snd (intern n st))) \<le> 2 ^ 32"
    using Cons.prems(2) length_intern_all [of "snd (intern n st)" ns] by simp
  then show ?case using Cons intern_wf_bound by simp
qed

lemma aot_init_names_intern_all:
  assumes "\<And>n. n \<in> set ns \<Longrightarrow> from_utf8 (to_utf8 n) = Some n"
  shows "aot_init_names from_utf8 (map to_utf8 ns) st = intern_all ns st"
  using assms by (induction ns arbitrary: st) (simp_all add: pon_aot_intern_name_def)

section \<open>Properties\<close>

text \<open>
  Interning: while fewer than \<open>2 ^ 32\<close> names are interned, the id of a name resolves back
  to it, every id handed out before keeps its name, and interning the name again returns the
  same id and leaves the table unchanged.
\<close>

theorem intern_roundtrip:
  assumes "interner_wf st" "length (by_id st) < 2 ^ 32" "intern name st = (i, st')"
  shows "interner_wf st' \<and> resolve i st' = Some name \<and> intern name st' = (i, st') \<and>
    (\<forall>j n. resolve j st = Some n \<longrightarrow> resolve j st' = Some n)"
proof -
  have st': "st' = snd (intern name st)" and i: "i = fst (intern name st)" using assms(3) by auto
  note idx = rt.add_index [OF assms(1,2), of name, folded st' i]
  obtain ext where ext: "by_id st' = by_id st @ ext" using idx(4) by blast
  have again: "intern name st' = (i, st')"
    using intern_old [OF idx(1), of "unat i"] idx(2,3) by simp
  have "resolve i st' = Some name" using idx(2,3) by (simp add: resolve_def)
  moreover have "\<forall>j n. resolve j st = Some n \<longrightarrow> resolve j st' = Some n"
    by (auto simp: resolve_def ext nth_append split: if_splits)
  ultimately show ?thesis using idx(1) again by blast
qed

theorem intern_roundtrip_witness:
  "interner_wf interner_default \<and> length (by_id interner_default) < 2 ^ 32 \<and>
   resolve 0 (snd (intern ''x'' interner_default)) = Some ''x''"
proof -
  have run: "intern ''x'' interner_default = (0, snd (intern ''x'' interner_default))"
    by (simp add: intern_def interner_default_def)
  have len: "length (by_id interner_default) < 2 ^ 32" by (simp add: interner_default_def)
  show ?thesis using intern_roundtrip [OF interner_wf_default len run] len by simp
qed

text \<open>
  Ahead-of-time replay: interning the names of a build-time snapshot, in order, into the
  empty interner of a fresh process rebuilds the snapshot, and every name of the build has the
  id that the build baked into the object data.
\<close>

theorem aot_replay_ids:
  assumes "interner_wf st" "length (by_id (intern_all module_names st)) \<le> 2 ^ 32"
    and "\<And>n. from_utf8 (to_utf8 n) = Some n"
    and "aot_runtime_name_snapshot module_names st = (names, st')"
    and "fresh = aot_init_names from_utf8 (map to_utf8 names) interner_default"
  shows "snapshot fresh = snapshot st' \<and>
    (\<forall>n \<in> set names. fst (intern n fresh) = fst (intern n st')) \<and> set names = set (by_id st')"
proof -
  have st': "st' = intern_all module_names st" and names: "names = by_id st'"
    using assms(4) by (auto simp: aot_runtime_name_snapshot_def Let_def snapshot_def)
  have wf: "interner_wf st'" "length (by_id st') \<le> 2 ^ 32"
    using intern_all_wf [OF assms(1,2)] assms(2) st' by auto
  have fresh: "fresh = intern_all names interner_default"
    using assms(3,5) aot_init_names_intern_all by simp
  note r = rt.replay_snapshot [OF wf, unfolded add_all_intern_all, folded names, folded fresh]
  have "fst (intern n fresh) = fst (intern n st')" if n: "n \<in> set names" for n
  proof -
    obtain i where i: "i < length names" "n = names ! i" using n by (auto simp: in_set_conv_nth)
    have "unat (fst (intern n fresh)) = i" using r(2) i by simp
    moreover have "unat (fst (intern n st')) = i"
      using rt.add_known [OF wf(1), of i] i names by simp
    ultimately show ?thesis by (metis word_unat_eq_iff)
  qed
  then show ?thesis using r(1) names by (simp add: snapshot_def)
qed

theorem aot_replay_ids_witness:
  "snapshot (aot_init_names (\<lambda>b. Some (map (\<lambda>w. char_of (unat w)) b)) (map (map (\<lambda>c. word_of_nat (of_char c))) [''f'', ''g'']) interner_default) =
   [''f'', ''g'']"
proof -
  let ?st = "intern_all [''f'', ''g''] interner_default"
  have ids: "by_id ?st = [''f'', ''g'']"
    by (simp add: intern_def interner_default_def Let_def)
  have utf: "Some (map (\<lambda>w. char_of (unat w)) (map (\<lambda>c. word_of_nat (of_char c) :: u8) n)) = Some n" for n
    by (simp add: comp_def unat_of_nat take_bit_nat_eq_self map_idI)
  show ?thesis
    using aot_replay_ids [OF interner_wf_default, of "[''f'', ''g'']"
        "\<lambda>b. Some (map (\<lambda>w. char_of (unat w)) b)" "map (\<lambda>c. word_of_nat (of_char c))",
        OF _ utf, of "by_id ?st" ?st, OF _ _ refl]
    by (simp add: ids aot_runtime_name_snapshot_def snapshot_def del: intern_all.simps)
qed

end
