(* ===== verification/Gc_Bitmap.thy ===== *)
theory Gc_Bitmap
  imports Pon_Prelude
begin

text \<open>
  The per-span bitmaps of \<^verbatim>\<open>pon-gc/src/lib.rs\<close>: boxed slices of \<open>u64\<close> words, read and
  written one bit at a time by \<open>bit_get\<close>, \<open>bit_set\<close>, \<open>bit_clear\<close>, and a word at a time by
  the free-slot search, the mark scan and the sweep.  The lemmas show that a bitmap is a set of
  slot indices, that the word-wise operations are the set operations, that population counts
  are cardinalities, and that the free-slot search returns the lowest free slot.

  A read or write beyond the bitmap panics in the source.  Here such a read is \<open>False\<close> and such
  a write changes nothing; the span invariant of the heap theory keeps every index in range.
\<close>

unbundle bit_operations_syntax

type_synonym bitmap = "u64 list"

section \<open>Operations\<close>

definition bit_get :: "bitmap \<Rightarrow> nat \<Rightarrow> bool" where
  "bit_get bits i \<longleftrightarrow>
     i div 64 < length bits \<and> bits ! (i div 64) AND push_bit (i mod 64) 1 \<noteq> 0"

definition bit_set :: "bitmap \<Rightarrow> nat \<Rightarrow> bitmap" where
  "bit_set bits i = bits[i div 64 := bits ! (i div 64) OR push_bit (i mod 64) 1]"

definition bit_clear :: "bitmap \<Rightarrow> nat \<Rightarrow> bitmap" where
  "bit_clear bits i = bits[i div 64 := bits ! (i div 64) AND NOT (push_bit (i mod 64) 1)]"

text \<open>The word loop of \<open>find_free_slot\<close>, from \<open>word_index\<close> on.\<close>

function find_free_from :: "bitmap \<Rightarrow> nat \<Rightarrow> nat \<Rightarrow> nat option" where
  "find_free_from alloc_bits nelems word_index =
     (if word_index < length alloc_bits then
        let free0 = NOT (alloc_bits ! word_index);
            tail = nelems mod 64;
            free = (if word_index = length alloc_bits - 1 \<and> tail \<noteq> 0
                    then free0 AND (push_bit tail 1 - 1) else free0)
        in if free \<noteq> 0 then Some (word_index * 64 + trailing_zeros free)
           else find_free_from alloc_bits nelems (Suc word_index)
      else None)"
  by pat_completeness auto
termination
  by (relation "measure (\<lambda>(bits, n, w). length bits - w)") auto

declare find_free_from.simps [simp del]

text \<open>The set bits of a bitmap in ascending order, as the scan loops visit them.\<close>

definition bitmap_positions :: "bitmap \<Rightarrow> nat list" where
  "bitmap_positions bits =
     concat (map (\<lambda>w. map (\<lambda>b. w * 64 + b) (bit_positions (bits ! w))) [0..<length bits])"

definition bitmap_count :: "bitmap \<Rightarrow> nat" where
  "bitmap_count bits = sum_list (map count_ones bits)"

section \<open>A bitmap is a set of slots\<close>

definition slots_of :: "bitmap \<Rightarrow> nat set" where
  "slots_of bits = {i. bit_get bits i}"

lemma bit_exp_u64: "bit (2 ^ n :: u64) k \<longleftrightarrow> k = n \<and> n < 64"
  by (auto simp: bit_exp_iff)

lemma and_single_bit: "(w :: u64) AND 2 ^ n \<noteq> 0 \<longleftrightarrow> bit w n"
proof -
  have "bit (w AND 2 ^ n) k \<longleftrightarrow> k = n \<and> bit w n" for k
    by (auto simp: bit_and_iff bit_exp_u64 dest: bit_u64_imp_lt)
  then show ?thesis unfolding u64_eq_0_iff by (auto dest: bit_u64_imp_lt)
qed

lemma bit_get_iff [gc_simps]: "bit_get bits i \<longleftrightarrow> i div 64 < length bits \<and> bit (bits ! (i div 64)) (i mod 64)"
  by (simp add: bit_get_def and_single_bit)

lemma bit_get_bound: "bit_get bits i \<Longrightarrow> i < 64 * length bits"
  by (simp add: bit_get_iff) linarith

lemma word_index_lt: "i < 64 * length bits \<longleftrightarrow> i div 64 < length bits" for bits :: bitmap
  by (auto simp: div_less_iff_less_mult)

lemma length_bit_set [simp]: "length (bit_set bits i) = length bits"
  by (simp add: bit_set_def)

lemma length_bit_clear [simp]: "length (bit_clear bits i) = length bits"
  by (simp add: bit_clear_def)

lemma same_slot: "(i :: nat) div 64 = j div 64 \<Longrightarrow> i mod 64 = j mod 64 \<Longrightarrow> i = j"
  by (metis div_mult_mod_eq)

lemma bit_get_set:
  assumes "i < 64 * length bits"
  shows "bit_get (bit_set bits i) j \<longleftrightarrow> j = i \<or> bit_get bits j"
proof (cases "j div 64 = i div 64")
  case True
  then have "bit_get (bit_set bits i) j \<longleftrightarrow> j mod 64 = i mod 64 \<or> bit (bits ! (j div 64)) (j mod 64)"
    using assms by (auto simp: bit_get_iff bit_set_def word_index_lt bit_or_iff bit_exp_u64)
  then show ?thesis using True assms same_slot [of j i] by (auto simp: bit_get_iff word_index_lt)
next
  case False
  then show ?thesis by (auto simp: bit_get_iff bit_set_def)
qed

lemma bit_get_clear: "bit_get (bit_clear bits i) j \<longleftrightarrow> j \<noteq> i \<and> bit_get bits j"
proof (cases "j div 64 = i div 64")
  case True
  then have "bit_get (bit_clear bits i) j \<longleftrightarrow>
      j div 64 < length bits \<and> bit (bits ! (j div 64)) (j mod 64) \<and> j mod 64 \<noteq> i mod 64"
    by (auto simp: bit_get_iff bit_clear_def bit_and_iff bit_not_iff bit_exp_u64 dest: bit_u64_imp_lt)
  then show ?thesis using True same_slot [of j i] by (auto simp: bit_get_iff)
next
  case False
  then show ?thesis by (auto simp: bit_get_iff bit_clear_def)
qed

text \<open>
  The interface the heap relies on: a table of slots with membership, insertion, removal and a
  capacity.  Clients count and enumerate members through it.
\<close>

locale slot_table =
  fixes get :: "'b \<Rightarrow> nat \<Rightarrow> bool"
    and put :: "'b \<Rightarrow> nat \<Rightarrow> 'b"
    and drop_slot :: "'b \<Rightarrow> nat \<Rightarrow> 'b"
    and cap :: "'b \<Rightarrow> nat"
  assumes get_cap: "get b i \<Longrightarrow> i < cap b"
    and cap_put: "cap (put b i) = cap b"
    and cap_drop: "cap (drop_slot b i) = cap b"
    and get_put: "i < cap b \<Longrightarrow> get (put b i) j \<longleftrightarrow> j = i \<or> get b j"
    and get_drop: "get (drop_slot b i) j \<longleftrightarrow> j \<noteq> i \<and> get b j"
begin

lemma finite_members: "finite {i. get b i}"
  by (rule finite_subset [of _ "{..<cap b}"]) (auto dest: get_cap)

lemma members_put: "i < cap b \<Longrightarrow> {j. get (put b i) j} = insert i {j. get b j}"
  by (auto simp: get_put)

lemma members_drop: "{j. get (drop_slot b i) j} = {j. get b j} - {i}"
  by (auto simp: get_drop)

lemma card_put_new: "i < cap b \<Longrightarrow> \<not> get b i \<Longrightarrow> card {j. get (put b i) j} = Suc (card {j. get b j})"
  by (simp add: members_put finite_members)

lemma card_members_le: "card {i. get b i} \<le> cap b"
  using card_mono [of "{..<cap b}" "{i. get b i}"] get_cap by auto

end

interpretation bm: slot_table bit_get bit_set bit_clear "\<lambda>b. 64 * length b"
  by unfold_locales (auto simp: bit_get_set bit_get_clear dest: bit_get_bound)

lemma finite_slots [simp]: "finite (slots_of bits)"
  unfolding slots_of_def by (rule bm.finite_members)

lemma slots_bit_set: "i < 64 * length bits \<Longrightarrow> slots_of (bit_set bits i) = insert i (slots_of bits)"
  unfolding slots_of_def by (rule bm.members_put)

lemma slots_bit_clear: "slots_of (bit_clear bits i) = slots_of bits - {i}"
  unfolding slots_of_def by (rule bm.members_drop)

lemma slots_bound: "slots_of bits \<subseteq> {..<64 * length bits}"
  by (auto simp: slots_of_def dest: bit_get_bound)

lemma slots_replicate_0 [simp]: "slots_of (replicate n 0) = {}"
  by (auto simp: slots_of_def bit_get_iff)

lemma bit_get_replicate_0 [simp]: "\<not> bit_get (replicate n 0) i"
  by (auto simp: bit_get_iff)

section \<open>Word-wise set operations\<close>

definition bm_or :: "bitmap \<Rightarrow> bitmap \<Rightarrow> bitmap" where
  "bm_or a b = map2 (\<lambda>x y. x OR y) a b"

definition bm_and :: "bitmap \<Rightarrow> bitmap \<Rightarrow> bitmap" where
  "bm_and a b = map2 (\<lambda>x y. x AND y) a b"

definition bm_andnot :: "bitmap \<Rightarrow> bitmap \<Rightarrow> bitmap" where
  "bm_andnot a b = map2 (\<lambda>x y. x AND NOT y) a b"

lemma length_bm_ops [simp]:
  "length (bm_or a b) = min (length a) (length b)"
  "length (bm_and a b) = min (length a) (length b)"
  "length (bm_andnot a b) = min (length a) (length b)"
  by (simp_all add: bm_or_def bm_and_def bm_andnot_def)

lemma bit_get_bm_or: "length a = length b \<Longrightarrow> bit_get (bm_or a b) i \<longleftrightarrow> bit_get a i \<or> bit_get b i"
  by (auto simp: bit_get_iff bm_or_def bit_or_iff)

lemma bit_get_bm_and: "length a = length b \<Longrightarrow> bit_get (bm_and a b) i \<longleftrightarrow> bit_get a i \<and> bit_get b i"
  by (auto simp: bit_get_iff bm_and_def bit_and_iff)

lemma bit_get_bm_andnot: "length a = length b \<Longrightarrow> bit_get (bm_andnot a b) i \<longleftrightarrow> bit_get a i \<and> \<not> bit_get b i"
  by (auto simp: bit_get_iff bm_andnot_def bit_and_iff bit_not_iff dest: bit_u64_imp_lt)

lemmas bit_get_ops = bit_get_bm_or bit_get_bm_and bit_get_bm_andnot

section \<open>Enumeration and counting\<close>

lemma bit_get_snoc:
  "bit_get (bits @ [w]) i \<longleftrightarrow> bit_get bits i \<or> (64 * length bits \<le> i \<and> bit w (i - 64 * length bits))"
proof (cases "i div 64 < length bits")
  case True
  then have "i < 64 * length bits" by (simp add: word_index_lt)
  then show ?thesis using True by (auto simp: bit_get_iff nth_append)
next
  case False
  then have ge: "64 * length bits \<le> i" by (metis not_less word_index_lt)
  then obtain d where d: "i = 64 * length bits + d" using le_Suc_ex by blast
  show ?thesis
  proof (cases "d < 64")
    case True
    then show ?thesis using d by (simp add: bit_get_iff nth_append)
  next
    case big: False
    then have "\<not> bit w d" by (auto dest: bit_u64_imp_lt)
    then show ?thesis using d big by (auto simp: bit_get_iff nth_append)
  qed
qed

lemma bitmap_positions_eq: "bitmap_positions bits = filter (bit_get bits) [0..<64 * length bits]"
proof (induction bits rule: rev_induct)
  case Nil
  then show ?case by (simp add: bitmap_positions_def)
next
  case (snoc w bits)
  have "bitmap_positions (bits @ [w]) =
      concat (map (\<lambda>k. map (\<lambda>b. k * 64 + b) (bit_positions ((bits @ [w]) ! k))) [0..<length bits]) @
      map (\<lambda>b. length bits * 64 + b) (bit_positions w)"
    by (simp add: bitmap_positions_def)
  also have "concat (map (\<lambda>k. map (\<lambda>b. k * 64 + b) (bit_positions ((bits @ [w]) ! k))) [0..<length bits]) =
      bitmap_positions bits"
    unfolding bitmap_positions_def by (rule arg_cong [where f = concat]) (simp add: nth_append)
  also have "bitmap_positions bits = filter (bit_get (bits @ [w])) [0..<64 * length bits]"
    unfolding snoc.IH by (rule filter_cong) (auto simp: bit_get_snoc)
  also have "map (\<lambda>b. length bits * 64 + b) (bit_positions w) =
      filter (bit_get (bits @ [w])) [64 * length bits..<64 * length bits + 64]"
  proof -
    have "[64 * length bits..<64 * length bits + 64] = map (\<lambda>b. length bits * 64 + b) [0..<64]"
      using map_add_upt [of "64 * length bits" 64] by (simp only: ac_simps)
    moreover have "\<not> bit_get bits (length bits * 64 + b)" for b
      using bit_get_bound by (metis not_add_less1 mult.commute)
    ultimately show ?thesis
      by (simp add: filter_map comp_def bit_positions_eq bit_get_snoc)
  qed
  also have "filter (bit_get (bits @ [w])) [0..<64 * length bits] @
      filter (bit_get (bits @ [w])) [64 * length bits..<64 * length bits + 64] =
      filter (bit_get (bits @ [w])) [0..<64 * length (bits @ [w])]"
  proof -
    have "[0..<64 * length (bits @ [w])] = [0..<64 * length bits] @ [64 * length bits..<64 * length bits + 64]"
      using upt_add_eq_append [of 0 "64 * length bits" 64] by (simp add: algebra_simps)
    then show ?thesis by (simp only: filter_append)
  qed
  finally show ?case .
qed

lemma set_bitmap_positions [simp]: "set (bitmap_positions bits) = slots_of bits"
  by (auto simp: bitmap_positions_eq slots_of_def dest: bit_get_bound)

lemma distinct_bitmap_positions [simp]: "distinct (bitmap_positions bits)"
  by (simp add: bitmap_positions_eq)

lemma length_bit_positions: "length (bit_positions w) = count_ones w"
  by (simp only: count_ones_def bit_positions_eq)

lemma bitmap_count_card: "bitmap_count bits = card (slots_of bits)"
proof -
  have len: "length (bitmap_positions bits) = bitmap_count bits"
  proof -
    have "length (bitmap_positions bits) =
        sum_list (map (\<lambda>w. count_ones (bits ! w)) [0..<length bits])"
      by (simp add: bitmap_positions_def length_concat comp_def length_bit_positions)
    also have "map (\<lambda>w. count_ones (bits ! w)) [0..<length bits] = map count_ones bits"
      by (rule nth_equalityI) simp_all
    finally show ?thesis by (simp only: bitmap_count_def)
  qed
  have "card (set (bitmap_positions bits)) = length (bitmap_positions bits)"
    by (rule distinct_card) simp
  then show ?thesis using len by simp
qed

section \<open>The free-slot search\<close>

definition bitmap_words :: "nat \<Rightarrow> nat" where
  "bitmap_words nelems = (nelems + 63) div 64"

lemma bitmap_words_bound: "i < nelems \<Longrightarrow> i < 64 * bitmap_words nelems"
  unfolding bitmap_words_def by linarith

lemma bitmap_words_split:
  "bitmap_words nelems = (if nelems mod 64 = 0 then nelems div 64 else Suc (nelems div 64))"
proof -
  define q r where "q = nelems div 64" and "r = nelems mod 64"
  have n: "nelems = r + 64 * q" "r < 64" by (simp_all add: q_def r_def)
  have "bitmap_words nelems = q + (r + 63) div 64"
    unfolding bitmap_words_def n(1) using div_mult_self2 [of 64 "r + 63" q] by (simp add: ac_simps)
  moreover have "(r + 63) div 64 = (if r = 0 then 0 else 1)" using n(2) by auto
  ultimately show ?thesis by (simp add: q_def r_def)
qed

text \<open>The free mask of one word: the free slots of that word that the span really has.\<close>

lemma free_mask_bit:
  assumes len: "length bits = bitmap_words nelems" and w: "w < length bits" and b: "b < 64"
  shows "bit (if w = length bits - 1 \<and> nelems mod 64 \<noteq> 0
         then NOT (bits ! w) AND (push_bit (nelems mod 64) 1 - 1) else NOT (bits ! w)) b \<longleftrightarrow>
    w * 64 + b < nelems \<and> \<not> bit_get bits (w * 64 + b)" (is "bit ?free b \<longleftrightarrow> _")
proof -
  have get: "bit_get bits (w * 64 + b) \<longleftrightarrow> bit (bits ! w) b"
    using w b by (simp add: bit_get_iff)
  have mask: "(2 :: u64) ^ t - 1 = mask t" for t by (simp add: mask_eq_exp_minus_1)
  show ?thesis
  proof (cases "w = length bits - 1 \<and> nelems mod 64 \<noteq> 0")
    case True
    then have "w = nelems div 64" using len w by (simp add: bitmap_words_split)
    then have "w * 64 + nelems mod 64 = nelems" by simp
    then have lt: "b < nelems mod 64 \<longleftrightarrow> w * 64 + b < nelems" by linarith
    have "?free = NOT (bits ! w) AND mask (nelems mod 64)" using True by (simp add: mask)
    then show ?thesis using b get lt by (simp add: bit_and_iff bit_not_iff bit_mask_iff conj_commute)
  next
    case False
    have "w < nelems div 64"
    proof (cases "nelems mod 64 = 0")
      case True
      then show ?thesis using len w by (simp add: bitmap_words_split)
    next
      case nz: False
      then have "length bits = Suc (nelems div 64)" using len by (simp add: bitmap_words_split)
      then show ?thesis using w False nz by (metis diff_Suc_1 less_antisym)
    qed
    then have "w * 64 + b < nelems" using b by linarith
    then show ?thesis using False b get by (auto simp: bit_not_iff)
  qed
qed

lemma find_free_from_spec:
  assumes "length bits = bitmap_words nelems"
  shows "case find_free_from bits nelems w of
     Some s \<Rightarrow> w * 64 \<le> s \<and> s < nelems \<and> \<not> bit_get bits s \<and> (\<forall>t. w * 64 \<le> t \<and> t < s \<longrightarrow> bit_get bits t)
   | None \<Rightarrow> \<forall>t. w * 64 \<le> t \<and> t < nelems \<longrightarrow> bit_get bits t"
  using assms
proof (induction bits nelems w rule: find_free_from.induct)
  case (1 bits nelems w)
  let ?free = "if w = length bits - 1 \<and> nelems mod 64 \<noteq> 0
      then NOT (bits ! w) AND (push_bit (nelems mod 64) 1 - 1) else NOT (bits ! w)"
  show ?case
  proof (cases "w < length bits")
    case False
    then have "find_free_from bits nelems w = None" by (simp add: find_free_from.simps)
    moreover have "nelems \<le> w * 64"
      using False "1.prems" unfolding bitmap_words_def by linarith
    ultimately show ?thesis by auto
  next
    case w: True
    note bits = free_mask_bit [OF "1.prems" w]
    show ?thesis
    proof (cases "?free = 0")
      case True
      have step: "find_free_from bits nelems w = find_free_from bits nelems (Suc w)"
        using w True by (subst find_free_from.simps) (simp add: Let_def)
      have word: "bit_get bits t" if "w * 64 \<le> t" "t < Suc w * 64" "t < nelems" for t
      proof -
        have "\<not> bit ?free (t - w * 64)" using True by simp
        then show ?thesis using bits [of "t - w * 64"] that by auto
      qed
      have IH: "case find_free_from bits nelems (Suc w) of
          Some s \<Rightarrow> Suc w * 64 \<le> s \<and> s < nelems \<and> \<not> bit_get bits s \<and>
            (\<forall>t. Suc w * 64 \<le> t \<and> t < s \<longrightarrow> bit_get bits t)
        | None \<Rightarrow> \<forall>t. Suc w * 64 \<le> t \<and> t < nelems \<longrightarrow> bit_get bits t"
        using "1.IH" [OF w refl refl refl] True "1.prems" by simp
      show ?thesis
      proof (cases "find_free_from bits nelems (Suc w)")
        case None
        then show ?thesis using IH word step by (auto simp: not_less) (meson not_less)
      next
        case (Some s)
        then show ?thesis using IH word step by (auto simp: not_less) (metis less_trans not_less)
      qed
    next
      case False
      let ?b = "trailing_zeros ?free"
      have tz: "bit ?free ?b" "\<And>i. i < ?b \<Longrightarrow> \<not> bit ?free i" "?b < 64"
        using trailing_zeros_bit [OF False] by blast+
      have run: "find_free_from bits nelems w = Some (w * 64 + ?b)"
        using w False by (subst find_free_from.simps) (simp add: Let_def)
      have found: "w * 64 + ?b < nelems" "\<not> bit_get bits (w * 64 + ?b)"
        using bits [OF tz(3)] tz(1) by blast+
      have least: "bit_get bits t" if "w * 64 \<le> t" "t < w * 64 + ?b" for t
      proof -
        define d where "d = t - w * 64"
        have d: "t = w * 64 + d" using that(1) by (simp add: d_def)
        have "d < ?b" using that(2) unfolding d by (rule add_less_imp_less_left)
        then have "\<not> bit ?free d" "d < 64" "t < nelems" using tz(2,3) found(1) d by auto
        then show ?thesis using bits [of d] d by blast
      qed
      show ?thesis unfolding run using found least by auto
    qed
  qed
qed

end
