(* ===== verification/Gc_Heap.thy ===== *)
theory Gc_Heap
  imports Gc_Bitmap "HOL-Library.Product_Lexorder"
begin

text \<open>
  The data model and the allocator of the collector, \<^verbatim>\<open>pon-gc/src/lib.rs\<close>: spans with their
  bitmaps, individually allocated large objects, the heap state with its indices, pointer
  classification, and small and large allocation.

  Environment.  The bytes of the address space are \<open>mem\<close>; the addresses that successive calls of
  the system allocator return are \<open>sys_alloc\<close> (the empty list is an allocator that is out of
  memory, on which the source aborts).  A trace callback is a function of the memory and the
  object; a finalizer is an opaque function pointer.  \<open>scan_buffer\<close>, a vector that \<open>drain_marks\<close>
  reuses, holds nothing between two calls and is not part of the state.
\<close>

unbundle bit_operations_syntax

section \<open>Constants and layouts\<close>

definition DEFAULT_HEAP_ALIGNMENT :: nat where "DEFAULT_HEAP_ALIGNMENT = 16"
definition SPAN_BYTES :: nat where "SPAN_BYTES = 64 * 1024"
definition SMALL_OBJECT_MAX :: nat where "SMALL_OBJECT_MAX = 1024"
definition NUM_SIZE_CLASSES :: nat where
  "NUM_SIZE_CLASSES = SMALL_OBJECT_MAX div DEFAULT_HEAP_ALIGNMENT"
definition MAX_TYPE_ID :: nat where "MAX_TYPE_ID = 2 ^ 16"

definition size_class_of :: "nat \<Rightarrow> nat" where
  "size_class_of sz = (max sz 1 - 1) div DEFAULT_HEAP_ALIGNMENT"

definition class_elem_size :: "nat \<Rightarrow> nat" where
  "class_elem_size c = (c + 1) * DEFAULT_HEAP_ALIGNMENT"

text \<open>A layout is a size and an alignment.  \<open>Layout::from_size_align\<close> refuses a size that
  overflows \<open>isize\<close> when it is rounded up to the alignment; the source aborts on that.\<close>

type_synonym layout = "nat \<times> nat"

definition span_layout :: layout where
  "span_layout = (SPAN_BYTES, SPAN_BYTES)"

definition large_layout :: "nat \<Rightarrow> layout option" where
  "large_layout sz =
     (if max sz 1 + (DEFAULT_HEAP_ALIGNMENT - 1) < 2 ^ 63 then Some (max sz 1, DEFAULT_HEAP_ALIGNMENT)
      else None)"

section \<open>Data\<close>

type_synonym memory = "addr \<Rightarrow> u8"

record gc_type_info =
  ti_size :: nat
  ti_trace :: "memory \<Rightarrow> addr \<Rightarrow> addr list"
  ti_finalize :: "nat option"

datatype mark_color = White | Gray | Black

fun color_is_reached :: "mark_color \<Rightarrow> bool" where
  "color_is_reached White = False"
| "color_is_reached Gray = True"
| "color_is_reached Black = True"

record span =
  base :: addr
  elem_size :: nat
  nelems :: nat
  span_class :: nat
  on_queue :: bool
  live_count :: nat
  free_hint :: nat
  zeroed_watermark :: nat
  alloc_bits :: bitmap
  mark_bits :: bitmap
  scan_bits :: bitmap
  young_bits :: bitmap
  finalized_bits :: bitmap
  type_ids :: "nat list"

record large_object =
  lo_start :: addr
  lo_size :: nat
  lo_type_id :: nat
  color :: mark_color
  young :: bool
  finalized :: bool

datatype object_location = InSpan nat nat | InLarge nat

record pending_finalizer =
  pf_start :: addr
  pf_finalize :: nat
  pf_location :: object_location

record heap_state =
  types :: "gc_type_info option list"
  spans :: "span option list"
  span_slots_free :: "nat list"
  span_base_index :: "(addr \<times> nat) list"
  open_span :: "nat option list"
  partial_spans :: "nat list list"
  large :: "large_object list"
  large_index :: "(addr \<times> nat) list"
  large_index_dirty :: bool
  span_queue :: "nat list"
  large_queue :: "nat list"
  pending_finalizer_roots :: "addr list"
  mem :: memory
  sys_alloc :: "addr list"

datatype gc_error = TypeIdOutOfRange | UnregisteredType | OutOfMemory | InvalidLayout | IndexPanic

definition heap_state_new :: "memory \<Rightarrow> addr list \<Rightarrow> heap_state" where
  "heap_state_new m sys = \<lparr>types = [], spans = [], span_slots_free = [], span_base_index = [],
     open_span = replicate NUM_SIZE_CLASSES None, partial_spans = replicate NUM_SIZE_CLASSES [],
     large = [], large_index = [], large_index_dirty = False, span_queue = [], large_queue = [],
     pending_finalizer_roots = [], mem = m, sys_alloc = sys\<rparr>"

section \<open>Types and spans\<close>

definition type_lookup :: "gc_type_info option list \<Rightarrow> nat \<Rightarrow> gc_type_info option" where
  "type_lookup ts tid = (if tid < length ts then ts ! tid else None)"

definition type_info :: "heap_state \<Rightarrow> nat \<Rightarrow> gc_type_info option" where
  "type_info st tid = type_lookup (types st) tid"

definition register_type :: "nat \<Rightarrow> gc_type_info \<Rightarrow> heap_state \<Rightarrow> gc_error + heap_state" where
  "register_type tid info st =
     (if \<not> tid < MAX_TYPE_ID then Inl TypeIdOutOfRange
      else let ts = (if length (types st) \<le> tid
                     then types st @ replicate (Suc tid - length (types st)) None else types st)
           in Inr (st\<lparr>types := ts[tid := Some info]\<rparr>))"

definition span_at :: "span option list \<Rightarrow> nat \<Rightarrow> span option" where
  "span_at ss i = (if i < length ss then ss ! i else None)"

definition zero_range :: "memory \<Rightarrow> addr \<Rightarrow> nat \<Rightarrow> memory" where
  "zero_range m a n = (\<lambda>x. if a \<le> x \<and> x < a + n then 0 else m x)"

text \<open>\<open>Span::new\<close> on the block \<open>raw\<close> the system allocator returned.\<close>

definition span_new :: "nat \<Rightarrow> addr \<Rightarrow> span" where
  "span_new c raw =
     (let esz = class_elem_size c; n = SPAN_BYTES div esz; zero = replicate (bitmap_words n) 0 in
      \<lparr>base = raw, elem_size = esz, nelems = n, span_class = c, on_queue = False, live_count = 0,
       free_hint = 0, zeroed_watermark = 0, alloc_bits = zero, mark_bits = zero, scan_bits = zero,
       young_bits = zero, finalized_bits = zero, type_ids = replicate n 0\<rparr>)"

definition find_free_slot :: "span \<Rightarrow> (nat \<times> span) option" where
  "find_free_slot s =
     (case find_free_from (alloc_bits s) (nelems s) (free_hint s div 64) of
        None \<Rightarrow> None
      | Some slot \<Rightarrow> Some (slot, s\<lparr>free_hint := slot\<rparr>))"

definition slot_address :: "span \<Rightarrow> nat \<Rightarrow> addr" where
  "slot_address s slot = base s + slot * elem_size s"

definition new_span :: "nat \<Rightarrow> heap_state \<Rightarrow> gc_error + nat \<times> heap_state" where
  "new_span c st =
     (case sys_alloc st of
        [] \<Rightarrow> Inl OutOfMemory
      | raw # rest \<Rightarrow>
          let s = span_new c raw;
              st1 = st\<lparr>sys_alloc := rest, mem := zero_range (mem st) raw SPAN_BYTES\<rparr>;
              (index, st2) =
                (case vec_pop (span_slots_free st1) of
                   Some (i, free) \<Rightarrow>
                     (i, st1\<lparr>span_slots_free := free, spans := (spans st1)[i := Some s]\<rparr>)
                 | None \<Rightarrow> (length (spans st1), st1\<lparr>spans := spans st1 @ [Some s]\<rparr>));
              position = partition_point (\<lambda>e. fst e < base s) (span_base_index st2)
          in Inr (index,
               st2\<lparr>span_base_index := insert_at position (base s, index) (span_base_index st2)\<rparr>))"

text \<open>The pop loop of \<open>take_allocatable_span\<close>, over the reversed partial list.\<close>

fun scan_partial :: "span option list \<Rightarrow> nat list \<Rightarrow> gc_error + nat option \<times> nat list" where
  "scan_partial ss [] = Inr (None, [])"
| "scan_partial ss (i # rest) =
     (if \<not> i < length ss then Inl IndexPanic
      else case ss ! i of
        Some s \<Rightarrow> if live_count s < nelems s then Inr (Some i, rest) else scan_partial ss rest
      | None \<Rightarrow> scan_partial ss rest)"

definition take_allocatable_span :: "nat \<Rightarrow> heap_state \<Rightarrow> gc_error + nat \<times> heap_state" where
  "take_allocatable_span c st =
     (case scan_partial (spans st) (rev (partial_spans st ! c)) of
        Inl e \<Rightarrow> Inl e
      | Inr (found, rest) \<Rightarrow>
          let st1 = st\<lparr>partial_spans := (partial_spans st)[c := rev rest]\<rparr> in
          (case found of Some i \<Rightarrow> Inr (i, st1) | None \<Rightarrow> new_span c st1))"

section \<open>Allocation\<close>

text \<open>The bookkeeping of one slot, and the zeroing of a reused one.\<close>

definition span_take_slot :: "nat \<Rightarrow> bool \<Rightarrow> nat \<Rightarrow> span \<Rightarrow> span" where
  "span_take_slot tid black slot s =
     s\<lparr>alloc_bits := bit_set (alloc_bits s) slot,
       young_bits := bit_set (young_bits s) slot,
       finalized_bits := bit_clear (finalized_bits s) slot,
       mark_bits := (if black then bit_set (mark_bits s) slot else mark_bits s),
       scan_bits := (if black then bit_set (scan_bits s) slot else scan_bits s),
       type_ids := (type_ids s)[slot := tid mod 2 ^ 16],
       live_count := live_count s + 1,
       zeroed_watermark := (if slot < zeroed_watermark s then zeroed_watermark s else slot + 1)\<rparr>"

definition open_or_take :: "nat \<Rightarrow> heap_state \<Rightarrow> gc_error + nat \<times> heap_state" where
  "open_or_take c st =
     (case open_span st ! c of
        Some i \<Rightarrow> Inr (i, st)
      | None \<Rightarrow>
          (case take_allocatable_span c st of
             Inl e \<Rightarrow> Inl e
           | Inr (i, st1) \<Rightarrow> Inr (i, st1\<lparr>open_span := (open_span st1)[c := Some i]\<rparr>)))"

definition close_span :: "nat \<Rightarrow> heap_state \<Rightarrow> heap_state" where
  "close_span c st = st\<lparr>open_span := (open_span st)[c := None]\<rparr>"

lemma scan_partial_length: "scan_partial ss xs = Inr (r, rest) \<Longrightarrow> length rest \<le> length xs"
  by (induction xs) (auto split: option.splits if_splits)

lemma scan_partial_found: "scan_partial ss xs = Inr (Some i, rest) \<Longrightarrow> length rest < length xs"
  by (induction xs) (auto split: option.splits if_splits intro: less_SucI)

definition alloc_budget :: "nat \<Rightarrow> heap_state \<Rightarrow> nat" where
  "alloc_budget c st =
     2 * (length (partial_spans st ! c) + length (sys_alloc st)) +
     (if open_span st ! c = None then 0 else 1)"

lemma take_allocatable_fields:
  assumes "take_allocatable_span c st = Inr (i, st1)"
  shows "open_span st1 = open_span st" "length (partial_spans st1) = length (partial_spans st)"
    "c < length (partial_spans st) \<Longrightarrow>
      length (partial_spans st1 ! c) + length (sys_alloc st1) < length (partial_spans st ! c) + length (sys_alloc st)"
proof -
  obtain found rest where sp: "scan_partial (spans st) (rev (partial_spans st ! c)) = Inr (found, rest)"
    using assms by (auto simp: take_allocatable_span_def split: sum.splits)
  have le: "length rest \<le> length (partial_spans st ! c)" using scan_partial_length [OF sp] by simp
  have "found = Some j \<Longrightarrow> length rest < length (partial_spans st ! c)" for j
    using sp scan_partial_found by fastforce
  then show "open_span st1 = open_span st" "length (partial_spans st1) = length (partial_spans st)"
    "c < length (partial_spans st) \<Longrightarrow>
      length (partial_spans st1 ! c) + length (sys_alloc st1) < length (partial_spans st ! c) + length (sys_alloc st)"
    using assms sp le
    by (auto simp: take_allocatable_span_def new_span_def Let_def split: option.splits list.splits prod.splits)
qed

lemma open_or_take_budget:
  assumes "open_or_take c st = Inr (i, st1)" "c < length (open_span st)" "c < length (partial_spans st)"
  shows "alloc_budget c (close_span c st1) < alloc_budget c st"
    "length (open_span st1) = length (open_span st)" "length (partial_spans st1) = length (partial_spans st)"
proof -
  show "length (open_span st1) = length (open_span st)" "length (partial_spans st1) = length (partial_spans st)"
    using assms(1) take_allocatable_fields
    by (force simp: open_or_take_def split: option.splits sum.splits prod.splits)+
  show "alloc_budget c (close_span c st1) < alloc_budget c st"
  proof (cases "open_span st ! c")
    case (Some j)
    then show ?thesis using assms by (auto simp: open_or_take_def close_span_def alloc_budget_def)
  next
    case None
    then obtain st2 where t: "take_allocatable_span c st = Inr (i, st2)"
      and st1: "st1 = st2\<lparr>open_span := (open_span st2)[c := Some i]\<rparr>"
      using assms(1) by (auto simp: open_or_take_def split: sum.splits)
    show ?thesis using take_allocatable_fields [OF t] assms(2,3) None
      by (simp add: st1 close_span_def alloc_budget_def)
  qed
qed

function alloc_small_loop :: "nat \<Rightarrow> nat \<Rightarrow> bool \<Rightarrow> heap_state \<Rightarrow> gc_error + addr \<times> nat \<times> heap_state" where
  "alloc_small_loop c tid black st =
     (if \<not> (c < length (open_span st) \<and> c < length (partial_spans st)) then Inl IndexPanic
      else case open_or_take c st of
        Inl e \<Rightarrow> Inl e
      | Inr (i, st1) \<Rightarrow>
          if \<not> i < length (spans st1) then Inl IndexPanic
          else (case spans st1 ! i of
             None \<Rightarrow> alloc_small_loop c tid black (close_span c st1)
           | Some s \<Rightarrow>
               (case find_free_slot s of
                  None \<Rightarrow> alloc_small_loop c tid black (close_span c st1)
                | Some (slot, s1) \<Rightarrow>
                    let raw = slot_address s1 slot in
                    Inr (raw, elem_size s1,
                      st1\<lparr>spans := (spans st1)[i := Some (span_take_slot tid black slot s1)],
                          mem := (if slot < zeroed_watermark s1
                                  then zero_range (mem st1) raw (elem_size s1) else mem st1)\<rparr>))))"
  by pat_completeness auto
termination
  by (relation "measure (\<lambda>(c, tid, black, st). alloc_budget c st)")
    (auto dest: open_or_take_budget(1))

declare alloc_small_loop.simps [simp del]

definition alloc_small :: "nat \<Rightarrow> nat \<Rightarrow> bool \<Rightarrow> heap_state \<Rightarrow> gc_error + addr \<times> nat \<times> heap_state" where
  "alloc_small sz tid black st = alloc_small_loop (size_class_of sz) tid black st"

definition alloc_large :: "nat \<Rightarrow> nat \<Rightarrow> bool \<Rightarrow> heap_state \<Rightarrow> gc_error + addr \<times> nat \<times> heap_state" where
  "alloc_large sz tid black st =
     (let allocated = max sz 1 in
      case large_layout allocated of
        None \<Rightarrow> Inl InvalidLayout
      | Some _ \<Rightarrow>
          (case sys_alloc st of
             [] \<Rightarrow> Inl OutOfMemory
           | raw # rest \<Rightarrow>
               Inr (raw, allocated,
                 st\<lparr>sys_alloc := rest, mem := zero_range (mem st) raw allocated,
                    large := large st @ [\<lparr>lo_start = raw, lo_size = allocated, lo_type_id = tid mod 2 ^ 16,
                      color = (if black then Black else White), young = True, finalized = False\<rparr>],
                    large_index_dirty := True\<rparr>)))"

text \<open>The heap: the locked state and the two lock-free counters, which wrap like \<open>AtomicUsize\<close>.\<close>

record heap =
  hstate :: heap_state
  bytes_since_collect :: u64
  live_bytes :: u64

definition heap_new :: "memory \<Rightarrow> addr list \<Rightarrow> heap" where
  "heap_new m sys = \<lparr>hstate = heap_state_new m sys, bytes_since_collect = 0, live_bytes = 0\<rparr>"

definition alloc :: "bool \<Rightarrow> nat \<Rightarrow> nat \<Rightarrow> heap \<Rightarrow> gc_error + addr \<times> heap" where
  "alloc allocation_black sz tid h =
     (if type_info (hstate h) tid = None then Inl UnregisteredType
      else case (if sz \<le> SMALL_OBJECT_MAX then alloc_small sz tid allocation_black (hstate h)
                 else alloc_large sz tid allocation_black (hstate h)) of
        Inl e \<Rightarrow> Inl e
      | Inr (raw, allocated_size, st) \<Rightarrow>
          Inr (raw, h\<lparr>hstate := st,
            bytes_since_collect := bytes_since_collect h + word_of_nat allocated_size,
            live_bytes := live_bytes h + word_of_nat allocated_size\<rparr>))"

section \<open>Pointer classification\<close>

definition prepare_large_index :: "heap_state \<Rightarrow> heap_state" where
  "prepare_large_index st =
     (if \<not> large_index_dirty st then st
      else st\<lparr>large_index := sort (map (\<lambda>(index, l). (lo_start l, index)) (enumerate 0 (large st))),
              large_index_dirty := False\<rparr>)"

text \<open>\<open>address & !(SPAN_BYTES - 1)\<close>; \<open>span_base_word\<close> below relates it to the 64-bit mask.\<close>

definition span_base_of :: "addr \<Rightarrow> addr" where
  "span_base_of a = a div SPAN_BYTES * SPAN_BYTES"

definition span_lookup :: "heap_state \<Rightarrow> addr \<Rightarrow> nat option" where
  "span_lookup st a =
     (case binary_search_by_key (span_base_of a) fst (span_base_index st) of
        None \<Rightarrow> None
      | Some position \<Rightarrow> Some (snd (span_base_index st ! position)))"

definition large_lookup :: "heap_state \<Rightarrow> addr \<Rightarrow> nat option" where
  "large_lookup st a =
     (let position = partition_point (\<lambda>e. fst e \<le> a) (large_index st) in
      if position = 0 then None
      else let (start, index) = large_index st ! (position - 1) in
        if index < length (large st) \<and> a - start < lo_size (large st ! index) then Some index else None)"

definition classify_pointer :: "addr \<Rightarrow> heap_state \<Rightarrow> gc_error + addr option \<times> heap_state" where
  "classify_pointer a st0 =
     (let st = prepare_large_index st0 in
      if a = 0 then Inr (None, st)
      else case span_lookup st a of
        Some i \<Rightarrow>
          (if \<not> i < length (spans st) then Inl IndexPanic
           else case spans st ! i of
             None \<Rightarrow> Inr (None, st)
           | Some s \<Rightarrow>
               let slot = (a - span_base_of a) div elem_size s in
               if slot \<ge> nelems s \<or> \<not> bit_get (alloc_bits s) slot then Inr (None, st)
               else Inr (Some (slot_address s slot), st))
      | None \<Rightarrow> Inr (map_option (\<lambda>i. lo_start (large st ! i)) (large_lookup st a), st))"

lemma span_base_word:
  "unat ((a :: u64) AND NOT (word_of_nat SPAN_BYTES - 1)) = span_base_of (unat a)"
proof -
  have m: "(word_of_nat SPAN_BYTES - 1 :: u64) = mask 16"
    by (simp add: SPAN_BYTES_def mask_eq_exp_minus_1)
  have "a AND NOT (mask 16) = push_bit 16 (drop_bit 16 a)"
    by (rule bit_eqI) (auto simp: bit_simps dest: bit_u64_imp_lt)
  moreover have "unat (push_bit 16 (drop_bit 16 a)) = push_bit 16 (drop_bit 16 (unat a))"
    by (rule bit_eqI) (auto simp: bit_simps bit_unsigned_iff dest: bit_u64_imp_lt)
  moreover have "push_bit 16 (drop_bit 16 (unat a)) = span_base_of (unat a)"
    by (simp add: push_bit_eq_mult drop_bit_eq_div span_base_of_def SPAN_BYTES_def)
  ultimately show ?thesis by (simp only: m)
qed

end
