(* ===== verification/Gc_Invariant.thy ===== *)
theory Gc_Invariant
  imports Gc_Heap
begin

text \<open>
  The heap invariant and the object view of the heap.  \<open>heap_core\<close> collects what the allocator,
  the classifier and the sweep keep true of the indices, the spans and the large blocks; it does
  not mention mark state, so that the mark phase keeps it for free.  \<open>obj_at\<close> is the abstract
  content of the heap: which locations hold an object, and its start, size and type.
  \<open>locate\<close> is the pointer classification as a location, and \<open>locate_iff\<close> its specification: a
  pointer resolves to the one object whose bytes it points into.
\<close>

section \<open>Blocks and spans\<close>

definition disj :: "addr \<times> nat \<Rightarrow> addr \<times> nat \<Rightarrow> bool" where
  "disj p q \<longleftrightarrow> fst p + snd p \<le> fst q \<or> fst q + snd q \<le> fst p"

lemma disj_sym: "disj p q \<longleftrightarrow> disj q p"
  by (auto simp: disj_def)

definition span_core :: "span \<Rightarrow> bool" where
  "span_core s \<longleftrightarrow>
     span_class s < NUM_SIZE_CLASSES \<and> elem_size s = class_elem_size (span_class s) \<and>
     nelems s = SPAN_BYTES div elem_size s \<and>
     length (alloc_bits s) = bitmap_words (nelems s) \<and>
     length (young_bits s) = bitmap_words (nelems s) \<and>
     length (finalized_bits s) = bitmap_words (nelems s) \<and>
     length (type_ids s) = nelems s \<and>
     slots_of (alloc_bits s) \<subseteq> {..<zeroed_watermark s} \<and> zeroed_watermark s \<le> nelems s \<and>
     slots_of (young_bits s) \<subseteq> slots_of (alloc_bits s) \<and>
     live_count s = card (slots_of (alloc_bits s)) \<and>
     {..<free_hint s div 64 * 64} \<subseteq> slots_of (alloc_bits s) \<and>
     base s mod SPAN_BYTES = 0 \<and> 0 < base s"

definition span_marks :: "span \<Rightarrow> bool" where
  "span_marks s \<longleftrightarrow>
     length (mark_bits s) = bitmap_words (nelems s) \<and> length (scan_bits s) = bitmap_words (nelems s) \<and>
     slots_of (mark_bits s) \<subseteq> slots_of (alloc_bits s) \<and> slots_of (scan_bits s) \<subseteq> slots_of (mark_bits s)"

lemma num_size_classes: "NUM_SIZE_CLASSES = 64"
  by (simp add: NUM_SIZE_CLASSES_def SMALL_OBJECT_MAX_def DEFAULT_HEAP_ALIGNMENT_def)

lemma span_core_sizes:
  assumes "span_core s"
  shows "0 < elem_size s" "elem_size s \<le> SMALL_OBJECT_MAX" "elem_size s mod 16 = 0"
    "64 \<le> nelems s" "nelems s * elem_size s \<le> SPAN_BYTES"
proof -
  have e: "elem_size s = (span_class s + 1) * 16" and c: "span_class s < 64"
    and n: "nelems s = SPAN_BYTES div elem_size s"
    using assms by (auto simp: span_core_def class_elem_size_def DEFAULT_HEAP_ALIGNMENT_def num_size_classes)
  show "0 < elem_size s" "elem_size s mod 16 = 0" using e by simp_all
  show le: "elem_size s \<le> SMALL_OBJECT_MAX" using e c by (simp add: SMALL_OBJECT_MAX_def)
  have "64 * elem_size s \<le> SPAN_BYTES" using le by (simp add: SMALL_OBJECT_MAX_def SPAN_BYTES_def)
  then show "64 \<le> nelems s" using n e by (simp add: less_eq_div_iff_mult_less_eq)
  show "nelems s * elem_size s \<le> SPAN_BYTES" using n by (simp add: div_times_less_eq_dividend)
qed

lemma span_core_slot:
  assumes "span_core s" "bit_get (alloc_bits s) k"
  shows "k < nelems s" "k < zeroed_watermark s"
  using assms by (auto simp: span_core_def slots_of_def)

lemma slot_range:
  assumes "span_core s" "k < nelems s"
  shows "base s \<le> slot_address s k" "slot_address s k + elem_size s \<le> base s + SPAN_BYTES"
proof -
  show "base s \<le> slot_address s k" by (simp add: slot_address_def)
  have "Suc k * elem_size s \<le> nelems s * elem_size s" using assms(2) by (intro mult_le_mono1) simp
  then show "slot_address s k + elem_size s \<le> base s + SPAN_BYTES"
    using span_core_sizes(5) [OF assms(1)] by (simp add: slot_address_def)
qed

section \<open>The heap invariant\<close>

definition spans_ok :: "span option list \<Rightarrow> bool" where
  "spans_ok ss \<longleftrightarrow> (\<forall>i s. span_at ss i = Some s \<longrightarrow> span_core s)"

definition marks_ok :: "span option list \<Rightarrow> bool" where
  "marks_ok ss \<longleftrightarrow> (\<forall>i s. span_at ss i = Some s \<longrightarrow> span_marks s)"

definition index_ok :: "span option list \<Rightarrow> (addr \<times> nat) list \<Rightarrow> bool" where
  "index_ok ss idx \<longleftrightarrow> sorted (map fst idx) \<and> distinct (map fst idx) \<and>
     set idx = {(base s, i) |i s. span_at ss i = Some s}"

definition free_ok :: "span option list \<Rightarrow> nat list \<Rightarrow> bool" where
  "free_ok ss free \<longleftrightarrow> distinct free \<and> set free = {i. i < length ss \<and> ss ! i = None}"

definition class_span :: "span option list \<Rightarrow> nat \<Rightarrow> nat \<Rightarrow> bool" where
  "class_span ss c i \<longleftrightarrow> (\<exists>s. span_at ss i = Some s \<and> span_class s = c)"

definition classes_ok :: "span option list \<Rightarrow> nat option list \<Rightarrow> nat list list \<Rightarrow> bool" where
  "classes_ok ss op ps \<longleftrightarrow> length op = NUM_SIZE_CLASSES \<and> length ps = NUM_SIZE_CLASSES \<and>
     (\<forall>c < NUM_SIZE_CLASSES. (\<forall>i. op ! c = Some i \<longrightarrow> class_span ss c i) \<and> (\<forall>i \<in> set (ps ! c). class_span ss c i))"

definition large_ok :: "span option list \<Rightarrow> large_object list \<Rightarrow> bool" where
  "large_ok ss ls \<longleftrightarrow>
     (\<forall>l \<in> set ls. 0 < lo_start l \<and> 0 < lo_size l \<and> lo_start l mod 16 = 0 \<and> lo_size l < 2 ^ 63 - 15) \<and>
     (\<forall>i j. i < j \<and> j < length ls \<longrightarrow>
        disj (lo_start (ls ! i), lo_size (ls ! i)) (lo_start (ls ! j), lo_size (ls ! j))) \<and>
     (\<forall>i s. span_at ss i = Some s \<longrightarrow> (\<forall>l \<in> set ls. disj (base s, SPAN_BYTES) (lo_start l, lo_size l)))"

definition large_entries :: "large_object list \<Rightarrow> (addr \<times> nat) list" where
  "large_entries ls = sort (map (\<lambda>(index, l). (lo_start l, index)) (enumerate 0 ls))"

definition lindex_ok :: "bool \<Rightarrow> (addr \<times> nat) list \<Rightarrow> large_object list \<Rightarrow> bool" where
  "lindex_ok dirty idx ls \<longleftrightarrow> dirty \<or> idx = large_entries ls"

definition types_ok :: "gc_type_info option list \<Rightarrow> span option list \<Rightarrow> large_object list \<Rightarrow> bool" where
  "types_ok ts ss ls \<longleftrightarrow>
     (\<forall>i s k. span_at ss i = Some s \<and> bit_get (alloc_bits s) k \<longrightarrow> type_lookup ts (type_ids s ! k) \<noteq> None) \<and>
     (\<forall>l \<in> set ls. type_lookup ts (lo_type_id l) \<noteq> None) \<and> length ts \<le> MAX_TYPE_ID"

definition zero_ok :: "span option list \<Rightarrow> memory \<Rightarrow> bool" where
  "zero_ok ss m \<longleftrightarrow> (\<forall>i s x. span_at ss i = Some s \<and>
     base s + zeroed_watermark s * elem_size s \<le> x \<and> x < base s + SPAN_BYTES \<longrightarrow> m x = 0)"

definition heap_core :: "heap_state \<Rightarrow> bool" where
  "heap_core st \<longleftrightarrow>
     spans_ok (spans st) \<and> index_ok (spans st) (span_base_index st) \<and>
     free_ok (spans st) (span_slots_free st) \<and>
     classes_ok (spans st) (open_span st) (partial_spans st) \<and>
     large_ok (spans st) (large st) \<and>
     lindex_ok (large_index_dirty st) (large_index st) (large st) \<and>
     types_ok (types st) (spans st) (large st) \<and> zero_ok (spans st) (mem st)"

lemma heap_coreD:
  assumes "heap_core st"
  shows "spans_ok (spans st)" "index_ok (spans st) (span_base_index st)"
    "free_ok (spans st) (span_slots_free st)"
    "classes_ok (spans st) (open_span st) (partial_spans st)"
    "large_ok (spans st) (large st)" "lindex_ok (large_index_dirty st) (large_index st) (large st)"
    "types_ok (types st) (spans st) (large st)" "zero_ok (spans st) (mem st)"
  using assms by (auto simp: heap_core_def)

text \<open>Between collections no span is queued and no object carries a mark.\<close>

definition quiet :: "heap_state \<Rightarrow> bool" where
  "quiet st \<longleftrightarrow> span_queue st = [] \<and> large_queue st = [] \<and>
     (\<forall>i s. span_at (spans st) i = Some s \<longrightarrow>
        \<not> on_queue s \<and> slots_of (mark_bits s) = {} \<and> slots_of (scan_bits s) = {}) \<and>
     (\<forall>l \<in> set (large st). color l = White)"

definition heap_wf :: "heap_state \<Rightarrow> bool" where
  "heap_wf st \<longleftrightarrow> heap_core st \<and> marks_ok (spans st) \<and> quiet st"

lemma span_at_SomeD: "span_at ss i = Some s \<Longrightarrow> i < length ss \<and> ss ! i = Some s"
  by (auto simp: span_at_def split: if_splits)

lemma span_at_update: "span_at (ss[i := x]) j = (if j = i \<and> i < length ss then x else span_at ss j)"
  by (auto simp: span_at_def)

lemma span_at_snoc: "span_at (ss @ [x]) j = (if j = length ss then x else span_at ss j)"
  by (auto simp: span_at_def nth_append)

lemma span_at_map: "span_at (map (map_option f) ss) i = map_option f (span_at ss i)"
  by (auto simp: span_at_def)

lemma index_ok_unique:
  assumes "index_ok ss idx" "span_at ss i = Some s" "span_at ss j = Some t" "base s = base t"
  shows "i = j"
proof -
  have d: "distinct (map fst idx)" and "(base s, i) \<in> set idx" "(base s, j) \<in> set idx"
    using assms by (auto simp: index_ok_def)
  then show ?thesis by (metis eq_key_imp_eq_value)
qed

lemma heap_new_wf: "heap_wf (heap_state_new m sys)"
  by (auto simp: heap_wf_def heap_core_def heap_state_new_def spans_ok_def marks_ok_def index_ok_def
      free_ok_def classes_ok_def large_ok_def lindex_ok_def large_entries_def types_ok_def zero_ok_def
      quiet_def span_at_def)

section \<open>The object view\<close>

definition obj_at :: "heap_state \<Rightarrow> object_location \<Rightarrow> (addr \<times> nat \<times> nat) option" where
  "obj_at st loc =
     (case loc of
        InSpan i k \<Rightarrow>
          (case span_at (spans st) i of
             None \<Rightarrow> None
           | Some s \<Rightarrow> if bit_get (alloc_bits s) k
                        then Some (slot_address s k, elem_size s, type_ids s ! k) else None)
      | InLarge j \<Rightarrow>
          (if j < length (large st)
           then Some (lo_start (large st ! j), lo_size (large st ! j), lo_type_id (large st ! j)) else None))"

definition obj_young :: "heap_state \<Rightarrow> object_location \<Rightarrow> bool" where
  "obj_young st loc =
     (case loc of
        InSpan i k \<Rightarrow> (case span_at (spans st) i of None \<Rightarrow> False | Some s \<Rightarrow> bit_get (young_bits s) k)
      | InLarge j \<Rightarrow> j < length (large st) \<and> young (large st ! j))"

definition obj_finalized :: "heap_state \<Rightarrow> object_location \<Rightarrow> bool" where
  "obj_finalized st loc =
     (case loc of
        InSpan i k \<Rightarrow> (case span_at (spans st) i of None \<Rightarrow> False | Some s \<Rightarrow> bit_get (finalized_bits s) k)
      | InLarge j \<Rightarrow> j < length (large st) \<and> finalized (large st ! j))"

abbreviation live_locs :: "heap_state \<Rightarrow> object_location set" where
  "live_locs st \<equiv> dom (obj_at st)"

definition locate :: "heap_state \<Rightarrow> addr \<Rightarrow> object_location option" where
  "locate st a =
     (if a = 0 then None
      else case span_lookup st a of
        Some i \<Rightarrow>
          (case span_at (spans st) i of
             None \<Rightarrow> None
           | Some s \<Rightarrow>
               let slot = (a - span_base_of a) div elem_size s in
               if slot \<ge> nelems s \<or> \<not> bit_get (alloc_bits s) slot then None else Some (InSpan i slot))
      | None \<Rightarrow> map_option InLarge (large_lookup st a))"

lemma finite_live_locs: "finite (live_locs st)"
proof -
  let ?S = "(\<lambda>(i, k). InSpan i k) ` (\<Union>i \<in> {..<length (spans st)}.
      {i} \<times> (case spans st ! i of None \<Rightarrow> {} | Some s \<Rightarrow> slots_of (alloc_bits s)))"
  let ?L = "InLarge ` {..<length (large st)}"
  have "live_locs st \<subseteq> ?S \<union> ?L"
  proof
    fix loc assume "loc \<in> live_locs st"
    then show "loc \<in> ?S \<union> ?L"
      by (cases loc) (force simp: obj_at_def span_at_def slots_of_def split: option.splits if_splits)+
  qed
  moreover have "finite (?S \<union> ?L)"
    by (auto intro!: finite_imageI split: option.split)
  ultimately show ?thesis by (rule finite_subset)
qed

subsection \<open>Span lookup\<close>

lemma span_base_of_aligned:
  assumes "b mod SPAN_BYTES = 0" "b \<le> a" "a < b + SPAN_BYTES"
  shows "span_base_of a = b"
proof -
  obtain q where q: "b = q * SPAN_BYTES" using assms(1) by (metis mod_0_imp_dvd dvd_def mult.commute)
  have "a div SPAN_BYTES = q"
    using assms(2,3) by (intro div_nat_eqI) (auto simp: q algebra_simps)
  then show ?thesis by (simp add: span_base_of_def q)
qed

lemma span_base_of_le: "span_base_of a \<le> a" "a < span_base_of a + SPAN_BYTES"
proof -
  show "span_base_of a \<le> a" by (simp add: span_base_of_def div_times_less_eq_dividend)
  have "a mod SPAN_BYTES < SPAN_BYTES" by (simp add: SPAN_BYTES_def)
  moreover have "a = span_base_of a + a mod SPAN_BYTES" by (simp add: span_base_of_def)
  ultimately show "a < span_base_of a + SPAN_BYTES" by linarith
qed

lemma span_lookup_iff:
  assumes "heap_core st"
  shows "span_lookup st a = Some i \<longleftrightarrow> (\<exists>s. span_at (spans st) i = Some s \<and> base s = span_base_of a)"
proof -
  let ?idx = "span_base_index st"
  have idx: "sorted (map fst ?idx)" "distinct (map fst ?idx)"
    "set ?idx = {(base s, i) |i s. span_at (spans st) i = Some s}"
    using heap_coreD(2) [OF assms] by (auto simp: index_ok_def)
  show ?thesis
  proof (cases "binary_search_by_key (span_base_of a) fst ?idx")
    case None
    then have "span_base_of a \<notin> fst ` set ?idx" using idx(1) by (rule binary_search_None)
    then have "base s \<noteq> span_base_of a" if "span_at (spans st) i = Some s" for i s
      using idx(3) that by (metis (mono_tags, lifting) fst_conv image_eqI mem_Collect_eq)
    then show ?thesis using None by (auto simp: span_lookup_def)
  next
    case (Some pos)
    then have pos: "pos < length ?idx" "fst (?idx ! pos) = span_base_of a"
      using binary_search_Some by blast+
    then have "?idx ! pos \<in> set ?idx" by simp
    then obtain j t where jt: "?idx ! pos = (base t, j)" "span_at (spans st) j = Some t" using idx(3) by auto
    have lk: "span_lookup st a = Some j" using Some jt(1) by (simp add: span_lookup_def)
    show ?thesis
    proof
      assume "span_lookup st a = Some i"
      then show "\<exists>s. span_at (spans st) i = Some s \<and> base s = span_base_of a"
        using lk jt pos(2) by auto
    next
      assume "\<exists>s. span_at (spans st) i = Some s \<and> base s = span_base_of a"
      then obtain s where s: "span_at (spans st) i = Some s" "base s = base t" using jt pos(2) by auto
      have "i = j" by (rule index_ok_unique [OF heap_coreD(2) [OF assms] s(1) jt(2) s(2)])
      then show "span_lookup st a = Some i" using lk by simp
    qed
  qed
qed

lemma span_lookup_None:
  assumes "heap_core st"
  shows "span_lookup st a = None \<longleftrightarrow> (\<forall>i s. span_at (spans st) i = Some s \<longrightarrow> base s \<noteq> span_base_of a)"
  using span_lookup_iff [OF assms] by (metis not_None_eq)

subsection \<open>Large-object lookup\<close>

lemma large_entries_set: "set (large_entries ls) = {(lo_start (ls ! i), i) |i. i < length ls}"
  by (auto simp: large_entries_def in_set_enumerate_eq)

lemma large_entries_sorted: "sorted (map fst (large_entries ls))"
proof -
  have "sorted_wrt (\<le>) (large_entries ls)" by (simp add: large_entries_def)
  then have "sorted_wrt (\<lambda>x y. fst x \<le> fst y) (large_entries ls)"
    by (rule sorted_wrt_mono_rel [rotated]) (auto simp: less_eq_prod_def)
  then show ?thesis by (simp add: sorted_map)
qed

lemma large_lookup_iff:
  assumes "large_ok ss (large st)" "large_index st = large_entries (large st)"
  shows "large_lookup st a = Some i \<longleftrightarrow>
    i < length (large st) \<and> lo_start (large st ! i) \<le> a \<and> a < lo_start (large st ! i) + lo_size (large st ! i)"
proof -
  let ?es = "large_entries (large st)"
  define pos where "pos = partition_point (\<lambda>e. fst e \<le> a) ?es"
  have part: "partitioned (\<lambda>e. fst e \<le> a) ?es"
    by (rule partitioned_sorted [OF large_entries_sorted]) auto
  have pos: "pos \<le> length ?es" "\<And>j. j < length ?es \<Longrightarrow> fst (?es ! j) \<le> a \<longleftrightarrow> j < pos"
    using partition_point_spec [OF part] by (auto simp: pos_def)
  have lk: "large_lookup st a =
      (if pos = 0 then None
       else if snd (?es ! (pos - 1)) < length (large st) \<and>
            a - fst (?es ! (pos - 1)) < lo_size (large st ! snd (?es ! (pos - 1)))
       then Some (snd (?es ! (pos - 1))) else None)"
    by (simp add: large_lookup_def assms(2) pos_def Let_def case_prod_unfold)
  have disj: "disj (lo_start (large st ! i), lo_size (large st ! i)) (lo_start (large st ! j), lo_size (large st ! j))"
    if "i \<noteq> j" "i < length (large st)" "j < length (large st)" for i j
    using assms(1) that unfolding large_ok_def by (metis disj_sym linorder_neqE_nat)
  have size: "0 < lo_size (large st ! j)" if "j < length (large st)" for j
    using assms(1) that by (simp add: large_ok_def)
  show ?thesis
  proof
    assume "large_lookup st a = Some i"
    then have p: "pos \<noteq> 0" "i = snd (?es ! (pos - 1))" "i < length (large st)"
      "a - fst (?es ! (pos - 1)) < lo_size (large st ! i)"
      using lk by (auto split: if_splits)
    then have "pos - 1 < length ?es" using pos(1) by linarith
    then have "?es ! (pos - 1) \<in> set ?es" "fst (?es ! (pos - 1)) \<le> a" using pos(2) p(1) by auto
    then have "fst (?es ! (pos - 1)) = lo_start (large st ! i)" "lo_start (large st ! i) \<le> a"
      using p(2) by (auto simp: large_entries_set)
    moreover have "a - lo_start (large st ! i) < lo_size (large st ! i)"
      using p(4) calculation(1) by simp
    ultimately show "i < length (large st) \<and> lo_start (large st ! i) \<le> a \<and>
        a < lo_start (large st ! i) + lo_size (large st ! i)" using p(3) by linarith
  next
    assume i: "i < length (large st) \<and> lo_start (large st ! i) \<le> a \<and>
        a < lo_start (large st ! i) + lo_size (large st ! i)"
    then have "(lo_start (large st ! i), i) \<in> set ?es" by (auto simp: large_entries_set)
    then obtain k where k: "k < length ?es" "?es ! k = (lo_start (large st ! i), i)"
      by (auto simp: in_set_conv_nth)
    then have kp: "k < pos" using pos(2) [OF k(1)] i by simp
    then have top: "pos - 1 < length ?es" "pos \<noteq> 0" using pos(1) by auto
    obtain j where j: "j < length (large st)" "?es ! (pos - 1) = (lo_start (large st ! j), j)"
      using nth_mem [OF top(1)] by (auto simp: large_entries_set)
    have "lo_start (large st ! j) \<le> a" using pos(2) [OF top(1)] top(2) j(2) by auto
    moreover have "lo_start (large st ! i) \<le> lo_start (large st ! j)"
      using sorted_nth_mono [OF large_entries_sorted, of k "pos - 1" "large st"] kp top j k by simp
    ultimately have "i = j" using disj [of i j] i j(1) size [of j] by (force simp: disj_def)
    then show "large_lookup st a = Some i" using lk j i top by auto
  qed
qed

subsection \<open>Pointer classification\<close>

definition obj_range :: "heap_state \<Rightarrow> object_location \<Rightarrow> addr \<Rightarrow> bool" where
  "obj_range st loc a \<longleftrightarrow> (\<exists>start sz tid. obj_at st loc = Some (start, sz, tid) \<and> start \<le> a \<and> a < start + sz)"

lemma span_at_core: "heap_core st \<Longrightarrow> span_at (spans st) i = Some s \<Longrightarrow> span_core s"
  by (auto simp: heap_core_def spans_ok_def)

lemma span_owns:
  assumes "heap_core st" "span_at (spans st) i = Some s" "base s \<le> a" "a < base s + SPAN_BYTES"
  shows "span_base_of a = base s" "span_lookup st a = Some i"
proof -
  have "base s mod SPAN_BYTES = 0" using span_at_core [OF assms(1,2)] by (simp add: span_core_def)
  then show b: "span_base_of a = base s" using assms(3,4) by (rule span_base_of_aligned)
  show "span_lookup st a = Some i" using span_lookup_iff [OF assms(1)] assms(2) b by metis
qed

lemma slot_of_address:
  assumes "span_core s"
  shows "(a - base s) div elem_size s = k \<and> base s \<le> a \<longleftrightarrow> slot_address s k \<le> a \<and> a < slot_address s k + elem_size s"
proof
  assume *: "(a - base s) div elem_size s = k \<and> base s \<le> a"
  have "a - base s = k * elem_size s + (a - base s) mod elem_size s" using * by auto
  moreover have "(a - base s) mod elem_size s < elem_size s" using span_core_sizes(1) [OF assms] by simp
  moreover have "a = base s + (a - base s)" using * by simp
  ultimately show "slot_address s k \<le> a \<and> a < slot_address s k + elem_size s"
    unfolding slot_address_def by linarith
next
  assume *: "slot_address s k \<le> a \<and> a < slot_address s k + elem_size s"
  then have "k * elem_size s \<le> a - base s" "a - base s < Suc k * elem_size s"
    by (auto simp: slot_address_def)
  then have "(a - base s) div elem_size s = k" by (intro div_nat_eqI) (auto simp: mult.commute)
  then show "(a - base s) div elem_size s = k \<and> base s \<le> a" using * by (auto simp: slot_address_def)
qed

lemma locate_iff:
  assumes "heap_core st" "\<not> large_index_dirty st"
  shows "locate st a = Some loc \<longleftrightarrow> obj_range st loc a"
proof (cases loc)
  case (InLarge j)
  have ll: "large_lookup st a = Some j \<longleftrightarrow>
      j < length (large st) \<and> lo_start (large st ! j) \<le> a \<and> a < lo_start (large st ! j) + lo_size (large st ! j)"
    using assms heap_coreD(5,6) [OF assms(1)] by (intro large_lookup_iff) (auto simp: lindex_ok_def)
  have rng: "obj_range st loc a \<longleftrightarrow> large_lookup st a = Some j"
    unfolding ll by (auto simp: obj_range_def obj_at_def InLarge)
  show ?thesis
  proof
    assume "locate st a = Some loc"
    then show "obj_range st loc a"
      using rng by (auto simp: locate_def InLarge Let_def split: if_splits option.splits)
  next
    assume r: "obj_range st loc a"
    then have l: "j < length (large st)" "lo_start (large st ! j) \<le> a"
      "a < lo_start (large st ! j) + lo_size (large st ! j)" using rng ll by auto
    then have "0 < a" using heap_coreD(5) [OF assms(1)] by (auto simp: large_ok_def) (metis less_le_trans nth_mem)
    moreover have "span_lookup st a = None"
      unfolding span_lookup_None [OF assms(1)]
    proof (intro allI impI notI)
      fix i s assume s: "span_at (spans st) i = Some s" "base s = span_base_of a"
      have "disj (base s, SPAN_BYTES) (lo_start (large st ! j), lo_size (large st ! j))"
        using heap_coreD(5) [OF assms(1)] s(1) l(1) by (auto simp: large_ok_def)
      then show False using l span_base_of_le [of a] s(2) by (auto simp: disj_def)
    qed
    ultimately show "locate st a = Some loc" using r rng by (simp add: locate_def InLarge)
  qed
next
  case (InSpan i k)
  show ?thesis
  proof
    assume "locate st a = Some loc"
    then obtain s where s: "span_lookup st a = Some i" "span_at (spans st) i = Some s"
      "k = (a - span_base_of a) div elem_size s" "bit_get (alloc_bits s) k"
      by (auto simp: locate_def InSpan Let_def split: if_splits option.splits)
    then have b: "base s = span_base_of a" using span_lookup_iff [OF assms(1)] by auto
    have "slot_address s k \<le> a \<and> a < slot_address s k + elem_size s"
      using slot_of_address [OF span_at_core [OF assms(1) s(2)], of a k] s(3) b span_base_of_le(1) [of a] by simp
    then show "obj_range st loc a" using s by (simp add: obj_range_def obj_at_def InSpan)
  next
    assume "obj_range st loc a"
    then obtain s where s: "span_at (spans st) i = Some s" "bit_get (alloc_bits s) k"
      "slot_address s k \<le> a" "a < slot_address s k + elem_size s"
      by (auto simp: obj_range_def obj_at_def InSpan split: option.splits if_splits)
    have core: "span_core s" by (rule span_at_core [OF assms(1) s(1)])
    have k: "k < nelems s" by (rule span_core_slot(1) [OF core s(2)])
    have in_span: "base s \<le> a" "a < base s + SPAN_BYTES"
      using s slot_range [OF core k] by auto
    note own = span_owns [OF assms(1) s(1) in_span]
    have "0 < a" using core in_span by (auto simp: span_core_def)
    then show "locate st a = Some loc"
      using own s k slot_of_address [OF core, of a k] by (simp add: locate_def InSpan)
  qed
qed

lemma heap_core_prepare: "heap_core st \<Longrightarrow> heap_core (prepare_large_index st)"
  by (auto simp: heap_core_def prepare_large_index_def lindex_ok_def large_entries_def)

lemma prepare_large_index_simps [simp]:
  "spans (prepare_large_index st) = spans st" "large (prepare_large_index st) = large st"
  "types (prepare_large_index st) = types st" "mem (prepare_large_index st) = mem st"
  "\<not> large_index_dirty (prepare_large_index st)"
  "span_queue (prepare_large_index st) = span_queue st" "large_queue (prepare_large_index st) = large_queue st"
  "pending_finalizer_roots (prepare_large_index st) = pending_finalizer_roots st"
  "sys_alloc (prepare_large_index st) = sys_alloc st"
  "span_base_index (prepare_large_index st) = span_base_index st"
  by (simp_all add: prepare_large_index_def)

lemma prepare_clean [simp]: "\<not> large_index_dirty st \<Longrightarrow> prepare_large_index st = st"
  by (simp add: prepare_large_index_def)

lemma obj_at_prepare [simp]: "obj_at (prepare_large_index st) = obj_at st"
  by (rule ext) (simp add: obj_at_def split: object_location.split)

lemma span_lookup_in_range:
  assumes "heap_core st" "span_lookup st a = Some i"
  shows "i < length (spans st)" "span_at (spans st) i = spans st ! i"
proof -
  obtain s where "span_at (spans st) i = Some s" using span_lookup_iff [OF assms(1)] assms(2) by blast
  then show "i < length (spans st)" "span_at (spans st) i = spans st ! i" by (auto dest: span_at_SomeD)
qed

lemma classify_locate:
  assumes "heap_core st"
  shows "classify_pointer a st =
     Inr (case locate (prepare_large_index st) a of
            None \<Rightarrow> None | Some loc \<Rightarrow> map_option fst (obj_at st loc), prepare_large_index st)"
proof -
  have ll: "large_lookup (prepare_large_index st) a = Some i \<Longrightarrow> i < length (large st)" for i
    by (auto simp: large_lookup_def Let_def split: if_splits prod.splits)
  show ?thesis
  proof (cases "span_lookup (prepare_large_index st) a")
    case None
    then show ?thesis
      by (auto simp: classify_pointer_def locate_def Let_def obj_at_def dest: ll split: option.splits)
  next
    case (Some i)
    note r = span_lookup_in_range [OF heap_core_prepare [OF assms] Some]
    then show ?thesis
      using Some by (auto simp: classify_pointer_def locate_def Let_def obj_at_def split: option.splits)
  qed
qed

end
