(* ===== verification/Gc_Alloc.thy ===== *)
theory Gc_Alloc
  imports Gc_Invariant
begin

text \<open>
  Correctness of the allocator.  The system allocator is assumed to return what its contract
  says: a non-null block of the requested alignment, disjoint from every block it has handed out
  and the heap still owns (\<open>sys_block_ok\<close>).  Under that hypothesis \<open>alloc\<close> on a registered type
  always returns, the object it returns was not live before, and everything else is unchanged.
\<close>

definition sys_block_ok :: "heap_state \<Rightarrow> layout \<Rightarrow> addr \<Rightarrow> bool" where
  "sys_block_ok st lay raw \<longleftrightarrow> 0 < raw \<and> raw mod snd lay = 0 \<and>
     (\<forall>i s. span_at (spans st) i = Some s \<longrightarrow> disj (base s, SPAN_BYTES) (raw, fst lay)) \<and>
     (\<forall>l \<in> set (large st). disj (lo_start l, lo_size l) (raw, fst lay))"

definition sys_ready :: "heap_state \<Rightarrow> layout \<Rightarrow> bool" where
  "sys_ready st lay \<longleftrightarrow> (\<exists>raw rest. sys_alloc st = raw # rest \<and> sys_block_ok st lay raw)"

section \<open>Finding a free slot\<close>

lemma find_free_slot_Some:
  assumes "span_core s" "find_free_slot s = Some (slot, s1)"
  shows "slot < nelems s" "\<not> bit_get (alloc_bits s) slot" "s1 = s\<lparr>free_hint := slot\<rparr>"
    "\<And>t. t < slot \<Longrightarrow> bit_get (alloc_bits s) t"
proof -
  have len: "length (alloc_bits s) = bitmap_words (nelems s)"
    and hint: "{..<free_hint s div 64 * 64} \<subseteq> slots_of (alloc_bits s)"
    using assms(1) by (auto simp: span_core_def)
  have run: "find_free_from (alloc_bits s) (nelems s) (free_hint s div 64) = Some slot"
    and s1: "s1 = s\<lparr>free_hint := slot\<rparr>"
    using assms(2) by (auto simp: find_free_slot_def split: option.splits)
  note sp = find_free_from_spec [OF len, of "free_hint s div 64", unfolded run option.case]
  show "slot < nelems s" "\<not> bit_get (alloc_bits s) slot" "s1 = s\<lparr>free_hint := slot\<rparr>" using sp s1 by auto
  show "bit_get (alloc_bits s) t" if "t < slot" for t
    using sp hint that by (cases "t < free_hint s div 64 * 64") (auto simp: slots_of_def)
qed

lemma find_free_slot_None:
  assumes "span_core s" "find_free_slot s = None"
  shows "live_count s = nelems s"
proof -
  have len: "length (alloc_bits s) = bitmap_words (nelems s)"
    and hint: "{..<free_hint s div 64 * 64} \<subseteq> slots_of (alloc_bits s)"
    and sub: "slots_of (alloc_bits s) \<subseteq> {..<nelems s}"
    and live: "live_count s = card (slots_of (alloc_bits s))"
    using assms(1) by (auto simp: span_core_def)
  have run: "find_free_from (alloc_bits s) (nelems s) (free_hint s div 64) = None"
    using assms(2) by (auto simp: find_free_slot_def split: option.splits)
  note sp = find_free_from_spec [OF len, of "free_hint s div 64", unfolded run option.case]
  have "slots_of (alloc_bits s) = {..<nelems s}"
  proof
    show "{..<nelems s} \<subseteq> slots_of (alloc_bits s)"
      using sp hint by (auto simp: slots_of_def) (metis lessThan_iff mem_Collect_eq not_less subsetD)
  qed (rule sub)
  then show ?thesis using live by simp
qed

lemma live_count_full: "span_core s \<Longrightarrow> live_count s < nelems s \<Longrightarrow> find_free_slot s \<noteq> None"
  using find_free_slot_None by fastforce

section \<open>One slot\<close>

lemma span_take_slot_core:
  assumes core: "span_core s" and slot: "slot < nelems s" "\<not> bit_get (alloc_bits s) slot"
    and below: "\<And>t. t < slot \<Longrightarrow> bit_get (alloc_bits s) t"
  shows "span_core (span_take_slot tid black slot (s\<lparr>free_hint := slot\<rparr>))"
proof -
  have cap: "slot < 64 * length (alloc_bits s)" "slot < 64 * length (young_bits s)"
    using core slot(1) bitmap_words_bound by (auto simp: span_core_def)
  have new: "slot \<notin> slots_of (alloc_bits s)" using slot(2) by (simp add: slots_of_def)
  have "{..<slot div 64 * 64} \<subseteq> slots_of (alloc_bits s)"
    using below by (auto simp: slots_of_def intro!: below)
  then show ?thesis
    using core slot(1) new
    by (auto simp: span_core_def span_take_slot_def slots_bit_set [OF cap(1)] slots_bit_set [OF cap(2)]
        intro: less_SucI)
qed

lemma span_take_slot_marks:
  assumes core: "span_core s" and marks: "span_marks s" and slot: "slot < nelems s"
  shows "span_marks (span_take_slot tid black slot (s\<lparr>free_hint := slot\<rparr>))"
proof -
  have "slot < 64 * length (alloc_bits s)" "slot < 64 * length (mark_bits s)" "slot < 64 * length (scan_bits s)"
    using core marks slot bitmap_words_bound by (auto simp: span_core_def span_marks_def)
  then show ?thesis
    using marks by (auto simp: span_marks_def span_take_slot_def slots_bit_set)
qed

section \<open>Opening a span\<close>

lemma span_new_core:
  assumes "c < NUM_SIZE_CLASSES" "0 < raw" "raw mod SPAN_BYTES = 0"
  shows "span_core (span_new c raw)" "span_marks (span_new c raw)"
    "live_count (span_new c raw) < nelems (span_new c raw)" "span_class (span_new c raw) = c"
    "base (span_new c raw) = raw" "\<not> on_queue (span_new c raw)" "alloc_bits (span_new c raw) = replicate (bitmap_words (nelems (span_new c raw))) 0"
    "slots_of (mark_bits (span_new c raw)) = {}" "slots_of (scan_bits (span_new c raw)) = {}"
proof -
  show core: "span_core (span_new c raw)" using assms by (simp add: span_core_def span_new_def Let_def)
  show "live_count (span_new c raw) < nelems (span_new c raw)"
    using span_core_sizes(4) [OF core] by (simp add: span_new_def Let_def)
qed (simp_all add: span_marks_def span_new_def Let_def)

lemma zero_range_other: "\<not> (a \<le> x \<and> x < a + n) \<Longrightarrow> zero_range m a n x = m x"
  by (auto simp: zero_range_def)

lemma index_ok_insert:
  assumes idx: "index_ok ss idx" and none: "span_at ss i = None"
    and fresh: "\<And>j t. span_at ss j = Some t \<Longrightarrow> base t \<noteq> base s"
    and at: "\<And>j. span_at ss' j = (if j = i then Some s else span_at ss j)"
  shows "index_ok ss' (insert_at (partition_point (\<lambda>e. fst e < base s) idx) (base s, i) idx)"
proof -
  let ?pos = "partition_point (\<lambda>e. fst e < base s) idx"
  have s: "sorted (map fst idx)" "distinct (map fst idx)" "set idx = {(base s, i) |i s. span_at ss i = Some s}"
    using idx by (auto simp: index_ok_def)
  have srt: "sorted (map fst (insert_at ?pos (base s, i) idx))"
    using insert_at_partition_sorted [OF s(1), of "(base s, i)"] by simp
  have notin: "base s \<notin> set (map fst idx)" using s(3) fresh by (force simp: s(3))
  have "distinct (map fst (insert_at ?pos (base s, i) idx))"
    unfolding insert_at_map using distinct_insert_at [OF s(2) notin] by simp
  moreover have "set (insert_at ?pos (base s, i) idx) = {(base s, i) |i s. span_at ss' i = Some s}"
  proof (intro set_eqI)
    fix e :: "addr \<times> nat"
    obtain b j where e: "e = (b, j)" by (cases e)
    have "e \<in> set (insert_at ?pos (base s, i) idx) \<longleftrightarrow>
        (if j = i then b = base s else \<exists>t. b = base t \<and> span_at ss j = Some t)"
      using none by (auto simp: s(3) e)
    also have "\<dots> \<longleftrightarrow> e \<in> {(base s, i) |i s. span_at ss' i = Some s}" by (auto simp: at e)
    finally show "e \<in> set (insert_at ?pos (base s, i) idx) \<longleftrightarrow> e \<in> {(base s, i) |i s. span_at ss' i = Some s}" .
  qed
  ultimately show ?thesis using srt by (simp add: index_ok_def)
qed

text \<open>Everything a new span leaves as it was, and what it adds.\<close>

lemma new_span_spec:
  assumes core: "heap_core st" and marks: "marks_ok (spans st)" and c: "c < NUM_SIZE_CLASSES"
    and sys: "sys_ready st span_layout"
  shows "\<exists>i s st'. new_span c st = Inr (i, st') \<and> span_at (spans st) i = None \<and>
    (\<forall>j. span_at (spans st') j = (if j = i then Some s else span_at (spans st) j)) \<and>
    s = span_new c (hd (sys_alloc st)) \<and> heap_core st' \<and> marks_ok (spans st') \<and>
    large st' = large st \<and> types st' = types st \<and> open_span st' = open_span st \<and>
    partial_spans st' = partial_spans st \<and> span_queue st' = span_queue st \<and> large_queue st' = large_queue st \<and>
    pending_finalizer_roots st' = pending_finalizer_roots st \<and>
    mem st' = zero_range (mem st) (hd (sys_alloc st)) SPAN_BYTES"
proof -
  obtain raw rest where sa: "sys_alloc st = raw # rest" and ok: "sys_block_ok st span_layout raw"
    using sys by (auto simp: sys_ready_def)
  let ?s = "span_new c raw"
  have raw: "0 < raw" "raw mod SPAN_BYTES = 0" using ok by (auto simp: sys_block_ok_def span_layout_def)
  note sn = span_new_core [OF c raw]
  have disjs: "disj (base t, SPAN_BYTES) (raw, SPAN_BYTES)" if "span_at (spans st) j = Some t" for j t
    using ok that by (auto simp: sys_block_ok_def span_layout_def)
  have fresh: "base t \<noteq> base ?s" if "span_at (spans st) j = Some t" for j t
    using disjs [OF that] sn(5) by (auto simp: disj_def SPAN_BYTES_def)
  have free: "free_ok (spans st) (span_slots_free st)" by (rule heap_coreD(3) [OF core])
  define i where "i = (case vec_pop (span_slots_free st) of Some (i, _) \<Rightarrow> i | None \<Rightarrow> length (spans st))"
  define ss where "ss = (case vec_pop (span_slots_free st) of
      Some (i, _) \<Rightarrow> (spans st)[i := Some ?s] | None \<Rightarrow> spans st @ [Some ?s])"
  define fr where "fr = (case vec_pop (span_slots_free st) of Some (_, f) \<Rightarrow> f | None \<Rightarrow> span_slots_free st)"
  define idx where "idx = insert_at (partition_point (\<lambda>e. fst e < base ?s) (span_base_index st)) (base ?s, i) (span_base_index st)"
  let ?st' = "st\<lparr>sys_alloc := rest, mem := zero_range (mem st) raw SPAN_BYTES, span_slots_free := fr,
      spans := ss, span_base_index := idx\<rparr>"
  have run: "new_span c st = Inr (i, ?st')"
    by (simp add: new_span_def sa i_def ss_def fr_def idx_def Let_def split: option.split)
  have shape: "span_at (spans st) i = None" "\<And>j. span_at ss j = (if j = i then Some ?s else span_at (spans st) j)"
    "free_ok ss fr"
  proof -
    have "span_at (spans st) i = None \<and> (\<forall>j. span_at ss j = (if j = i then Some ?s else span_at (spans st) j)) \<and> free_ok ss fr"
    proof (cases "vec_pop (span_slots_free st)")
      case None
      then have "span_slots_free st = []" by simp
      then have full: "\<forall>j < length (spans st). spans st ! j \<noteq> None" using free by (auto simp: free_ok_def)
      then show ?thesis using None
        by (auto simp: i_def ss_def fr_def span_at_snoc free_ok_def span_at_def nth_append less_Suc_eq)
    next
      case (Some p)
      obtain k f where p: "p = (k, f)" by (cases p)
      have free_eq: "span_slots_free st = f @ [k]" using Some p vec_pop_SomeD by fastforce
      then have k: "k < length (spans st)" "spans st ! k = None" and f: "distinct f" "k \<notin> set f"
        and setf: "insert k (set f) = {i. i < length (spans st) \<and> spans st ! i = None}"
        using free by (auto simp: free_ok_def)
      have "set f = {j. j < length ss \<and> ss ! j = None}"
      proof -
        have "set f = {i. i < length (spans st) \<and> spans st ! i = None} - {k}" using setf f(2) by auto
        then show ?thesis using Some p k by (auto simp: ss_def nth_list_update)
      qed
      then have "free_ok ss fr" using Some p f(1) by (simp add: free_ok_def fr_def)
      moreover have "span_at (spans st) i = None" using Some p k by (simp add: i_def span_at_def)
      moreover have "span_at ss j = (if j = i then Some ?s else span_at (spans st) j)" for j
        using Some p k(1) by (simp add: i_def ss_def span_at_update)
      ultimately show ?thesis by blast
    qed
    then show "span_at (spans st) i = None" "\<And>j. span_at ss j = (if j = i then Some ?s else span_at (spans st) j)"
      "free_ok ss fr" by auto
  qed
  have idx_ok: "index_ok ss idx"
    unfolding idx_def using index_ok_insert [OF heap_coreD(2) [OF core] shape(1) fresh shape(2)] .
  have mem_out: "zero_range (mem st) raw SPAN_BYTES x = mem st x"
    if "span_at (spans st) j = Some t" "base t \<le> x" "x < base t + SPAN_BYTES" for j t x
    using disjs [OF that(1)] that(2,3) by (auto simp: zero_range_def disj_def)
  have "spans_ok ss" using heap_coreD(1) [OF core] shape(2) sn(1) by (auto simp: spans_ok_def)
  moreover have "classes_ok ss (open_span st) (partial_spans st)"
    using heap_coreD(4) [OF core] shape(1) by (fastforce simp: classes_ok_def class_span_def shape(2))
  moreover have "large_ok ss (large st)"
    using heap_coreD(5) [OF core] ok sn(5)
    by (auto simp: large_ok_def shape(2) sys_block_ok_def span_layout_def disj_sym)
  moreover have "types_ok (types st) ss (large st)"
    using heap_coreD(7) [OF core] sn(7) by (auto simp: types_ok_def shape(2))
  moreover have "zero_ok ss (zero_range (mem st) raw SPAN_BYTES)"
  proof -
    have "zero_range (mem st) raw SPAN_BYTES x = 0"
      if "span_at ss j = Some t" "base t + zeroed_watermark t * elem_size t \<le> x" "x < base t + SPAN_BYTES" for j t x
    proof (cases "j = i")
      case True
      then have "t = ?s" using that(1) shape(2) by simp
      then show ?thesis using that sn(5) by (auto simp: zero_range_def)
    next
      case False
      then have t: "span_at (spans st) j = Some t" using that(1) shape(2) by simp
      then have "mem st x = 0" using heap_coreD(8) [OF core] that(2,3) by (auto simp: zero_ok_def)
      then show ?thesis using mem_out [OF t] that(2,3) by simp
    qed
    then show ?thesis by (auto simp: zero_ok_def)
  qed
  ultimately have "heap_core ?st'"
    using idx_ok shape(3) heap_coreD(6) [OF core] by (simp add: heap_core_def)
  moreover have "marks_ok ss" using marks sn(2) by (auto simp: marks_ok_def shape(2))
  ultimately show ?thesis
    by (intro exI [of _ i] exI [of _ ?s] exI [of _ ?st']) (simp add: run shape sa)
qed


section \<open>What an allocation leaves alone\<close>

definition alloc_frame :: "heap_state \<Rightarrow> heap_state \<Rightarrow> bool" where
  "alloc_frame st st' \<longleftrightarrow>
     types st' = types st \<and> span_queue st' = span_queue st \<and> large_queue st' = large_queue st \<and>
     pending_finalizer_roots st' = pending_finalizer_roots st \<and>
     (\<forall>loc x. obj_range st loc x \<longrightarrow> mem st' x = mem st x) \<and>
     (\<forall>loc. obj_at st loc \<noteq> None \<longrightarrow>
        obj_young st' loc = obj_young st loc \<and> obj_finalized st' loc = obj_finalized st loc)"

lemma alloc_frame_refl [simp]: "alloc_frame st st"
  by (simp add: alloc_frame_def)

lemma obj_range_cong: "obj_at st' = obj_at st \<Longrightarrow> obj_range st' = obj_range st"
  by (intro ext) (simp add: obj_range_def)

lemma alloc_frame_trans:
  assumes "alloc_frame a b" "alloc_frame b c" "obj_at b = obj_at a"
  shows "alloc_frame a c"
  using assms obj_range_cong [OF assms(3)] unfolding alloc_frame_def by metis

lemma obj_range_in_span:
  assumes "heap_core st" "obj_range st (InSpan i k) x"
  shows "\<exists>s. span_at (spans st) i = Some s \<and> bit_get (alloc_bits s) k \<and> k < nelems s \<and>
    slot_address s k \<le> x \<and> x < slot_address s k + elem_size s \<and> base s \<le> x \<and> x < base s + SPAN_BYTES"
proof -
  obtain s where s: "span_at (spans st) i = Some s" "bit_get (alloc_bits s) k"
    "slot_address s k \<le> x" "x < slot_address s k + elem_size s"
    using assms(2) by (auto simp: obj_range_def obj_at_def split: option.splits if_splits)
  have core: "span_core s" by (rule span_at_core [OF assms(1) s(1)])
  have "k < nelems s" by (rule span_core_slot(1) [OF core s(2)])
  then show ?thesis using s slot_range [OF core, of k] by (intro exI [of _ s]) auto
qed

lemma obj_range_in_large:
  assumes "obj_range st (InLarge j) x"
  shows "j < length (large st)" "lo_start (large st ! j) \<le> x" "x < lo_start (large st ! j) + lo_size (large st ! j)"
  using assms by (auto simp: obj_range_def obj_at_def split: if_splits)

lemma sys_block_disjoint:
  assumes core: "heap_core st" and ok: "sys_block_ok st lay raw" and r: "obj_range st loc x"
  shows "x < raw \<or> raw + fst lay \<le> x"
proof (cases loc)
  case (InSpan i k)
  then obtain s where "span_at (spans st) i = Some s" "base s \<le> x" "x < base s + SPAN_BYTES"
    using obj_range_in_span [OF core] r by blast
  then show ?thesis using ok by (fastforce simp: sys_block_ok_def disj_def)
next
  case (InLarge j)
  note l = obj_range_in_large [OF r [unfolded InLarge]]
  then have "disj (lo_start (large st ! j), lo_size (large st ! j)) (raw, fst lay)"
    using ok by (simp add: sys_block_ok_def)
  then show ?thesis using l by (auto simp: disj_def)
qed

section \<open>Small objects\<close>

lemma new_span_frame:
  assumes core: "heap_core st" and marks: "marks_ok (spans st)" and c: "c < NUM_SIZE_CLASSES"
    and sys: "sys_ready st span_layout"
  shows "\<exists>i s st'. new_span c st = Inr (i, st') \<and> heap_core st' \<and> marks_ok (spans st') \<and>
    obj_at st' = obj_at st \<and> alloc_frame st st' \<and> (quiet st \<longrightarrow> quiet st') \<and>
    open_span st' = open_span st \<and> span_at (spans st') i = Some s \<and> span_class s = c \<and> live_count s < nelems s"
proof -
  obtain raw rest where sa: "sys_alloc st = raw # rest" and ok: "sys_block_ok st span_layout raw"
    using sys by (auto simp: sys_ready_def)
  have raw: "0 < raw" "raw mod SPAN_BYTES = 0" using ok by (auto simp: sys_block_ok_def span_layout_def)
  note sn = span_new_core [OF c raw]
  obtain i st' where run: "new_span c st = Inr (i, st')" and none: "span_at (spans st) i = None"
    and at: "\<And>j. span_at (spans st') j = (if j = i then Some (span_new c raw) else span_at (spans st) j)"
    and core': "heap_core st'" and marks': "marks_ok (spans st')"
    and eqs: "large st' = large st" "types st' = types st" "open_span st' = open_span st"
      "span_queue st' = span_queue st" "large_queue st' = large_queue st"
      "pending_finalizer_roots st' = pending_finalizer_roots st" "mem st' = zero_range (mem st) raw SPAN_BYTES"
    using new_span_spec [OF assms] sa by auto
  have obj: "obj_at st' = obj_at st"
    by (rule ext) (auto simp: obj_at_def at none eqs sn(7) split: object_location.split option.split)
  have "obj_young st' loc = obj_young st loc \<and> obj_finalized st' loc = obj_finalized st loc"
    if "obj_at st loc \<noteq> None" for loc
    using that none
    by (auto simp: obj_at_def obj_young_def obj_finalized_def at eqs split: object_location.splits if_splits)
  moreover have "mem st' x = mem st x" if "obj_range st loc x" for loc x
    using sys_block_disjoint [OF core ok that] by (auto simp: eqs zero_range_def span_layout_def)
  ultimately have fr: "alloc_frame st st'" using eqs unfolding alloc_frame_def by blast
  have q: "quiet st \<longrightarrow> quiet st'" using sn(6,8,9) by (auto simp: quiet_def eqs at)
  have "span_at (spans st') i = Some (span_new c raw)" by (simp add: at)
  then show ?thesis using run core' marks' obj fr q eqs(3) sn(3,4) by blast
qed

lemma scan_partial_total: "\<forall>i \<in> set xs. i < length ss \<Longrightarrow> \<exists>found rest. scan_partial ss xs = Inr (found, rest)"
  by (induction xs) (auto split: option.split)

lemma scan_partial_spec:
  assumes "scan_partial ss xs = Inr (found, rest)"
  shows "set rest \<subseteq> set xs" "found = Some i \<Longrightarrow> i \<in> set xs \<and> (\<exists>s. span_at ss i = Some s \<and> live_count s < nelems s)"
  using assms by (induction xs) (auto simp: span_at_def split: option.splits if_splits)

lemma set_partial_ok:
  assumes "heap_core st" "set ps \<subseteq> set (partial_spans st ! c)"
  shows "heap_core (st\<lparr>partial_spans := (partial_spans st)[c := ps]\<rparr>)"
proof -
  have "classes_ok (spans st) (open_span st) ((partial_spans st)[c := ps])"
    using heap_coreD(4) [OF assms(1)] assms(2)
    by (cases "c < length (partial_spans st)") (auto simp: classes_ok_def nth_list_update)
  then show ?thesis using assms(1) by (simp add: heap_core_def)
qed

lemma set_open_ok:
  assumes "heap_core st" "\<And>i. o' = Some i \<Longrightarrow> class_span (spans st) c i"
  shows "heap_core (st\<lparr>open_span := (open_span st)[c := o']\<rparr>)"
proof -
  have "classes_ok (spans st) ((open_span st)[c := o']) (partial_spans st)"
    using heap_coreD(4) [OF assms(1)] assms(2)
    by (cases "c < length (open_span st)") (auto simp: classes_ok_def nth_list_update)
  then show ?thesis using assms(1) by (simp add: heap_core_def)
qed

lemma obj_view_cong:
  assumes "spans st' = spans st" "large st' = large st"
  shows "obj_at st' = obj_at st" "obj_young st' = obj_young st" "obj_finalized st' = obj_finalized st"
  by (auto simp: fun_eq_iff obj_at_def obj_young_def obj_finalized_def assms split: object_location.split)

lemma bookkeeping_simps [simp]:
  "obj_at (st\<lparr>open_span := x\<rparr>) = obj_at st" "obj_at (st\<lparr>partial_spans := y\<rparr>) = obj_at st"
  "quiet (st\<lparr>open_span := x\<rparr>) = quiet st" "quiet (st\<lparr>partial_spans := y\<rparr>) = quiet st"
  "sys_ready (st\<lparr>open_span := x\<rparr>) lay = sys_ready st lay"
  "sys_ready (st\<lparr>partial_spans := y\<rparr>) lay = sys_ready st lay"
  "alloc_frame st (st\<lparr>open_span := x\<rparr>)" "alloc_frame st (st\<lparr>partial_spans := y\<rparr>)"
  by (auto intro: obj_view_cong simp: quiet_def sys_ready_def sys_block_ok_def alloc_frame_def
      obj_view_cong(2,3) [of "st\<lparr>open_span := x\<rparr>" st] obj_view_cong(2,3) [of "st\<lparr>partial_spans := y\<rparr>" st])

lemma take_allocatable_spec:
  assumes core: "heap_core st" and marks: "marks_ok (spans st)" and c: "c < NUM_SIZE_CLASSES"
    and sys: "sys_ready st span_layout"
  shows "\<exists>i s st'. take_allocatable_span c st = Inr (i, st') \<and> heap_core st' \<and> marks_ok (spans st') \<and>
    obj_at st' = obj_at st \<and> alloc_frame st st' \<and> (quiet st \<longrightarrow> quiet st') \<and>
    open_span st' = open_span st \<and> span_at (spans st') i = Some s \<and> span_class s = c \<and> live_count s < nelems s"
proof -
  have "\<forall>i \<in> set (partial_spans st ! c). i < length (spans st)"
    using heap_coreD(4) [OF core] c by (force simp: classes_ok_def class_span_def dest: span_at_SomeD)
  then obtain found rest where sp: "scan_partial (spans st) (rev (partial_spans st ! c)) = Inr (found, rest)"
    using scan_partial_total [of "rev (partial_spans st ! c)" "spans st"] by auto
  let ?st1 = "st\<lparr>partial_spans := (partial_spans st)[c := rev rest]\<rparr>"
  have core1: "heap_core ?st1"
    using scan_partial_spec(1) [OF sp] by (intro set_partial_ok [OF core]) simp
  show ?thesis
  proof (cases found)
    case None
    have run: "take_allocatable_span c st = new_span c ?st1"
      by (simp add: take_allocatable_span_def sp None)
    have "marks_ok (spans ?st1)" "sys_ready ?st1 span_layout" using marks sys by simp_all
    from new_span_frame [OF core1 this(1) c this(2)]
    obtain i s st' where n: "new_span c ?st1 = Inr (i, st')" "heap_core st'" "marks_ok (spans st')"
      "obj_at st' = obj_at ?st1" "alloc_frame ?st1 st'" "quiet ?st1 \<longrightarrow> quiet st'"
      "open_span st' = open_span ?st1" "span_at (spans st') i = Some s" "span_class s = c" "live_count s < nelems s"
      by blast
    have "alloc_frame st st'" using n(5) by (rule alloc_frame_trans [rotated]) simp_all
    then show ?thesis using n run by auto
  next
    case (Some i)
    then obtain s where s: "span_at (spans st) i = Some s" "live_count s < nelems s"
      "i \<in> set (partial_spans st ! c)" using scan_partial_spec(2) [OF sp Some] by auto
    have "span_class s = c"
      using heap_coreD(4) [OF core] s(1,3) c by (force simp: classes_ok_def class_span_def)
    then show ?thesis
      using s core1 marks by (intro exI [of _ i] exI [of _ s] exI [of _ ?st1])
        (simp add: take_allocatable_span_def sp Some)
  qed
qed

lemma open_or_take_spec:
  assumes core: "heap_core st" and marks: "marks_ok (spans st)" and c: "c < NUM_SIZE_CLASSES"
    and sys: "sys_ready st span_layout"
  shows "\<exists>i s st'. open_or_take c st = Inr (i, st') \<and> heap_core st' \<and> marks_ok (spans st') \<and>
    obj_at st' = obj_at st \<and> alloc_frame st st' \<and> (quiet st \<longrightarrow> quiet st') \<and>
    span_at (spans st') i = Some s \<and> span_class s = c \<and>
    (if open_span st ! c = None then live_count s < nelems s else st' = st)"
proof (cases "open_span st ! c")
  case (Some i)
  then obtain s where "span_at (spans st) i = Some s" "span_class s = c"
    using heap_coreD(4) [OF core] c by (force simp: classes_ok_def class_span_def)
  then show ?thesis using Some core marks by (simp add: open_or_take_def)
next
  case None
  obtain i s st1 where t: "take_allocatable_span c st = Inr (i, st1)" "heap_core st1" "marks_ok (spans st1)"
    "obj_at st1 = obj_at st" "alloc_frame st st1" "quiet st \<longrightarrow> quiet st1"
    "span_at (spans st1) i = Some s" "span_class s = c" "live_count s < nelems s"
    using take_allocatable_spec [OF assms] by blast
  let ?st' = "st1\<lparr>open_span := (open_span st1)[c := Some i]\<rparr>"
  have "class_span (spans st1) c i" using t by (auto simp: class_span_def)
  then have "heap_core ?st'" by (intro set_open_ok [OF t(2)]) auto
  moreover have "alloc_frame st ?st'" by (rule alloc_frame_trans [OF t(5) _ t(4)]) simp
  ultimately show ?thesis
    using t None by (intro exI [of _ i] exI [of _ s] exI [of _ ?st']) (simp add: open_or_take_def)
qed

text \<open>The slot step: the object appears, everything else stays.\<close>

definition with_slot :: "nat \<Rightarrow> bool \<Rightarrow> nat \<Rightarrow> nat \<Rightarrow> span \<Rightarrow> heap_state \<Rightarrow> heap_state" where
  "with_slot tid black i slot s st =
     st\<lparr>spans := (spans st)[i := Some (span_take_slot tid black slot (s\<lparr>free_hint := slot\<rparr>))],
        mem := (if slot < zeroed_watermark s then zero_range (mem st) (slot_address s slot) (elem_size s)
                else mem st)\<rparr>"

lemma slot_mem_other:
  assumes core: "heap_core st" and s: "span_at (spans st) i = Some s" "slot < nelems s"
    and x: "x < slot_address s slot \<or> slot_address s slot + elem_size s \<le> x"
  shows "mem (with_slot tid black i slot s st) x = mem st x"
  using x by (auto simp: with_slot_def zero_range_def)

lemma span_take_slot_simps [simp]:
  "base (span_take_slot tid black slot s) = base s" "elem_size (span_take_slot tid black slot s) = elem_size s"
  "nelems (span_take_slot tid black slot s) = nelems s" "span_class (span_take_slot tid black slot s) = span_class s"
  "on_queue (span_take_slot tid black slot s) = on_queue s"
  "slot_address (span_take_slot tid black slot s) k = slot_address s k"
  "slot_address (s\<lparr>free_hint := h\<rparr>) k = slot_address s k"
  by (simp_all add: span_take_slot_def slot_address_def)

lemma update_span_indices:
  assumes at: "span_at ss i = Some s" and b: "base s' = base s" "span_class s' = span_class s"
  shows "index_ok ss idx \<Longrightarrow> index_ok (ss[i := Some s']) idx"
    "free_ok ss fr \<Longrightarrow> free_ok (ss[i := Some s']) fr"
    "classes_ok ss op ps \<Longrightarrow> classes_ok (ss[i := Some s']) op ps"
    "large_ok ss ls \<Longrightarrow> large_ok (ss[i := Some s']) ls"
proof -
  have i: "i < length ss" "ss ! i = Some s" using span_at_SomeD [OF at] by auto
  have upd: "span_at (ss[i := Some s']) j = (if j = i then Some s' else span_at ss j)" for j
    using i(1) by (simp add: span_at_update)
  have "{(base t, j) |j t. span_at (ss[i := Some s']) j = Some t} = {(base t, j) |j t. span_at ss j = Some t}"
  proof (intro set_eqI)
    fix e :: "addr \<times> nat"
    obtain a j where e: "e = (a, j)" by (cases e)
    show "e \<in> {(base t, j) |j t. span_at (ss[i := Some s']) j = Some t} \<longleftrightarrow>
        e \<in> {(base t, j) |j t. span_at ss j = Some t}"
      using at b(1) by (cases "j = i") (simp_all add: e upd)
  qed
  then show "index_ok ss idx \<Longrightarrow> index_ok (ss[i := Some s']) idx" by (simp add: index_ok_def)
  have "{j. j < length ss \<and> ss[i := Some s'] ! j = None} = {j. j < length ss \<and> ss ! j = None}"
    using i by (auto simp: nth_list_update)
  then show "free_ok ss fr \<Longrightarrow> free_ok (ss[i := Some s']) fr" by (simp add: free_ok_def)
  have "class_span (ss[i := Some s']) c j \<longleftrightarrow> class_span ss c j" for c j
    using at b(2) by (auto simp: class_span_def upd)
  then show "classes_ok ss op ps \<Longrightarrow> classes_ok (ss[i := Some s']) op ps" by (simp add: classes_ok_def)
  have "\<forall>l \<in> set ls. disj (base s', SPAN_BYTES) (lo_start l, lo_size l)" if "large_ok ss ls"
    using that at b(1) by (simp add: large_ok_def)
  then show "large_ok ss ls \<Longrightarrow> large_ok (ss[i := Some s']) ls"
    by (simp add: large_ok_def upd split: if_splits)
qed

lemma slots_disjoint:
  assumes "span_core s" "k \<noteq> slot" "slot_address s k \<le> x" "x < slot_address s k + elem_size s"
  shows "x < slot_address s slot \<or> slot_address s slot + elem_size s \<le> x"
  using slot_of_address [OF assms(1), of x k] slot_of_address [OF assms(1), of x slot] assms(2-) by linarith

lemma spans_disjoint:
  assumes "heap_core st" "span_at (spans st) i = Some s" "span_at (spans st) j = Some t" "i \<noteq> j"
    "base s \<le> x" "x < base s + SPAN_BYTES"
  shows "x < base t \<or> base t + SPAN_BYTES \<le> x"
  using span_owns(2) [OF assms(1,2,5,6)] span_owns(2) [OF assms(1,3), of x] assms(4) by force

lemma with_slot_mem_frame:
  assumes core: "heap_core st" and at: "span_at (spans st) i = Some s" and slot: "slot < nelems s"
    and r: "obj_range st loc x" and loc: "loc \<noteq> InSpan i slot"
  shows "x < slot_address s slot \<or> slot_address s slot + elem_size s \<le> x"
proof -
  have sc: "span_core s" by (rule span_at_core [OF core at])
  note rng = slot_range [OF sc slot]
  show ?thesis
  proof (cases loc)
    case (InSpan j k)
    obtain t where t: "span_at (spans st) j = Some t" "slot_address t k \<le> x" "x < slot_address t k + elem_size t"
      "base t \<le> x" "x < base t + SPAN_BYTES"
      using obj_range_in_span [OF core r [unfolded InSpan]] by blast
    show ?thesis
    proof (cases "j = i")
      case True
      then have "t = s" "k \<noteq> slot" using t(1) at loc InSpan by auto
      then show ?thesis using slots_disjoint [OF sc] t by blast
    next
      case False
      then show ?thesis using spans_disjoint [OF core t(1) at _ t(4,5)] rng by linarith
    qed
  next
    case (InLarge j)
    note l = obj_range_in_large [OF r [unfolded InLarge]]
    have "disj (base s, SPAN_BYTES) (lo_start (large st ! j), lo_size (large st ! j))"
      using heap_coreD(5) [OF core] at l(1) by (auto simp: large_ok_def)
    then show ?thesis using l rng by (auto simp: disj_def)
  qed
qed

lemma with_slot_core:
  assumes core: "heap_core st" and marks: "marks_ok (spans st)" and at: "span_at (spans st) i = Some s"
    and slot: "slot < nelems s" "\<not> bit_get (alloc_bits s) slot" and below: "\<And>t. t < slot \<Longrightarrow> bit_get (alloc_bits s) t"
    and tid: "type_info st tid \<noteq> None"
  shows "heap_core (with_slot tid black i slot s st)" "marks_ok (spans (with_slot tid black i slot s st))"
proof -
  let ?s = "span_take_slot tid black slot (s\<lparr>free_hint := slot\<rparr>)"
  let ?st = "with_slot tid black i slot s st"
  have sc: "span_core s" by (rule span_at_core [OF core at])
  have i: "i < length (spans st)" using span_at_SomeD [OF at] by simp
  have upd: "span_at (spans ?st) j = (if j = i then Some ?s else span_at (spans st) j)" for j
    using i by (simp add: with_slot_def span_at_update)
  note core' = span_take_slot_core [OF sc slot below]
  have cap: "slot < 64 * length (alloc_bits s)" and tl: "slot < length (type_ids s)"
    using sc slot(1) bitmap_words_bound by (auto simp: span_core_def)
  have ts: "tid < 2 ^ 16" "type_lookup (types st) (tid mod 2 ^ 16) \<noteq> None"
    using tid heap_coreD(7) [OF core]
    by (auto simp: type_info_def type_lookup_def types_ok_def MAX_TYPE_ID_def split: if_splits)
  have "spans_ok (spans ?st)" using heap_coreD(1) [OF core] core' by (auto simp: spans_ok_def upd)
  moreover have "index_ok (spans ?st) (span_base_index ?st)" "free_ok (spans ?st) (span_slots_free ?st)"
    "classes_ok (spans ?st) (open_span ?st) (partial_spans ?st)" "large_ok (spans ?st) (large ?st)"
    using heap_coreD(2-5) [OF core] by (simp_all add: with_slot_def update_span_indices [OF at])
  moreover have "types_ok (types ?st) (spans ?st) (large ?st)"
    using heap_coreD(7) [OF core] ts tl at unfolding types_ok_def upd
    by (auto simp: with_slot_def span_take_slot_def bit_get_set [OF cap] nth_list_update split: if_splits)
  moreover have "zero_ok (spans ?st) (mem ?st)"
    unfolding zero_ok_def
  proof (intro allI impI)
    fix j t x
    assume *: "span_at (spans ?st) j = Some t \<and> base t + zeroed_watermark t * elem_size t \<le> x \<and> x < base t + SPAN_BYTES"
    have "\<exists>u. span_at (spans st) j = Some u \<and> base u + zeroed_watermark u * elem_size u \<le> x \<and> x < base u + SPAN_BYTES"
    proof (cases "j = i")
      case True
      then have t: "t = ?s" using * upd by simp
      have "zeroed_watermark s * elem_size s \<le> zeroed_watermark t * elem_size s"
        by (intro mult_le_mono1) (simp add: t span_take_slot_def)
      moreover have "base s + zeroed_watermark t * elem_size s \<le> x" "x < base s + SPAN_BYTES"
        using * by (simp_all add: t)
      ultimately show ?thesis using True at by (intro exI [of _ s] conjI) (assumption | linarith | simp)+
    next
      case False
      then show ?thesis using * upd by auto
    qed
    then have "mem st x = 0" using heap_coreD(8) [OF core] by (auto simp: zero_ok_def)
    then show "mem ?st x = 0" by (simp add: with_slot_def zero_range_def)
  qed
  ultimately show "heap_core ?st" using heap_coreD(6) [OF core] by (simp add: heap_core_def with_slot_def)
  have "span_marks s" using marks at by (auto simp: marks_ok_def)
  then show "marks_ok (spans ?st)"
    using marks span_take_slot_marks [OF sc _ slot(1)] by (auto simp: marks_ok_def upd)
qed

text \<open>
  The contract of an allocation that returns \<open>(raw, sz, st')\<close>: the heap gains exactly one object,
  fresh, aligned, non-null, zeroed and young.
\<close>

definition alloc_contract :: "heap_state \<Rightarrow> nat \<Rightarrow> nat \<Rightarrow> bool \<Rightarrow> addr \<Rightarrow> nat \<Rightarrow> heap_state \<Rightarrow> bool" where
  "alloc_contract st want tid black raw sz st' \<longleftrightarrow>
     heap_core st' \<and> marks_ok (spans st') \<and> alloc_frame st st' \<and> (quiet st \<and> \<not> black \<longrightarrow> quiet st') \<and>
     0 < raw \<and> raw mod 16 = 0 \<and> want \<le> sz \<and> (\<forall>x. raw \<le> x \<and> x < raw + sz \<longrightarrow> mem st' x = 0) \<and>
     (\<exists>loc. obj_at st loc = None \<and> obj_at st' = (obj_at st)(loc \<mapsto> (raw, sz, tid)) \<and>
        obj_young st' loc \<and> \<not> obj_finalized st' loc)"

lemma type_info_bound: "heap_core st \<Longrightarrow> type_info st tid \<noteq> None \<Longrightarrow> tid < 2 ^ 16"
  by (drule heap_coreD(7)) (auto simp: type_info_def type_lookup_def types_ok_def MAX_TYPE_ID_def split: if_splits)

lemma with_slot_view:
  assumes core: "heap_core st" and at: "span_at (spans st) i = Some s"
    and slot: "slot < nelems s" "\<not> bit_get (alloc_bits s) slot" and tid: "type_info st tid \<noteq> None"
  shows "obj_at st (InSpan i slot) = None"
    "obj_at (with_slot tid black i slot s st) =
       (obj_at st)(InSpan i slot \<mapsto> (slot_address s slot, elem_size s, tid))"
    "obj_young (with_slot tid black i slot s st) (InSpan i slot)"
    "\<not> obj_finalized (with_slot tid black i slot s st) (InSpan i slot)"
    "obj_at st loc \<noteq> None \<Longrightarrow> obj_young (with_slot tid black i slot s st) loc = obj_young st loc \<and>
       obj_finalized (with_slot tid black i slot s st) loc = obj_finalized st loc"
proof -
  let ?s = "span_take_slot tid black slot (s\<lparr>free_hint := slot\<rparr>)"
  let ?st = "with_slot tid black i slot s st"
  have sc: "span_core s" by (rule span_at_core [OF core at])
  have upd: "span_at (spans ?st) j = (if j = i then Some ?s else span_at (spans st) j)" for j
    using span_at_SomeD [OF at] by (simp add: with_slot_def span_at_update)
  have cap: "slot < 64 * length (alloc_bits s)" "slot < 64 * length (young_bits s)" and tl: "slot < length (type_ids s)"
    using sc slot(1) bitmap_words_bound by (auto simp: span_core_def)
  have lg: "large ?st = large st" by (simp add: with_slot_def)
  show none: "obj_at st (InSpan i slot) = None" using at slot(2) by (simp add: obj_at_def)
  have ab: "alloc_bits ?s = bit_set (alloc_bits s) slot" "type_ids ?s = (type_ids s)[slot := tid]"
    using type_info_bound [OF core tid] by (simp_all add: span_take_slot_def)
  show "obj_at ?st = (obj_at st)(InSpan i slot \<mapsto> (slot_address s slot, elem_size s, tid))"
  proof
    fix loc
    show "obj_at ?st loc = ((obj_at st)(InSpan i slot \<mapsto> (slot_address s slot, elem_size s, tid))) loc"
      using at tl by (cases loc) (auto simp: obj_at_def lg upd ab bit_get_set [OF cap(1)])
  qed
  show "obj_young ?st (InSpan i slot)" "\<not> obj_finalized ?st (InSpan i slot)"
    using bit_get_set [OF cap(2)] by (simp_all add: obj_young_def obj_finalized_def upd span_take_slot_def bit_get_clear)
  show "obj_at st loc \<noteq> None \<Longrightarrow> obj_young ?st loc = obj_young st loc \<and> obj_finalized ?st loc = obj_finalized st loc"
    using none at bit_get_set [OF cap(2)]
    by (cases loc) (auto simp: obj_young_def obj_finalized_def upd lg span_take_slot_def bit_get_clear)
qed

lemma with_slot_zero:
  assumes core: "heap_core st" and at: "span_at (spans st) i = Some s" and slot: "slot < nelems s"
    and x: "slot_address s slot \<le> x" "x < slot_address s slot + elem_size s"
  shows "mem (with_slot tid black i slot s st) x = 0"
proof (cases "slot < zeroed_watermark s")
  case False
  have "zeroed_watermark s * elem_size s \<le> slot * elem_size s" using False by (intro mult_le_mono1) simp
  then have "base s + zeroed_watermark s * elem_size s \<le> x" "x < base s + SPAN_BYTES"
    using x slot_range(2) [OF span_at_core [OF core at] slot] unfolding slot_address_def by linarith+
  then have "mem st x = 0" using heap_coreD(8) [OF core] at by (auto simp: zero_ok_def)
  then show ?thesis using False by (simp add: with_slot_def)
qed (use x in \<open>simp add: with_slot_def zero_range_def\<close>)

lemma with_slot_contract:
  assumes core: "heap_core st" and marks: "marks_ok (spans st)" and at: "span_at (spans st) i = Some s"
    and slot: "slot < nelems s" "\<not> bit_get (alloc_bits s) slot" and below: "\<And>t. t < slot \<Longrightarrow> bit_get (alloc_bits s) t"
    and tid: "type_info st tid \<noteq> None" and want: "want \<le> elem_size s"
  shows "alloc_contract st want tid black (slot_address s slot) (elem_size s) (with_slot tid black i slot s st)"
proof -
  let ?st = "with_slot tid black i slot s st"
  have sc: "span_core s" by (rule span_at_core [OF core at])
  note view = with_slot_view [OF core at slot tid]
  have "mem ?st x = mem st x" if "obj_range st loc x" for loc x
  proof (rule slot_mem_other [OF core at slot(1)])
    have "loc \<noteq> InSpan i slot" using that view(1) by (auto simp: obj_range_def)
    then show "x < slot_address s slot \<or> slot_address s slot + elem_size s \<le> x"
      using with_slot_mem_frame [OF core at slot(1) that] by simp
  qed
  then have frame: "alloc_frame st ?st" using view(5) unfolding alloc_frame_def by (simp add: with_slot_def)
  have "base s mod 16 = 0" using sc by (auto simp: span_core_def SPAN_BYTES_def)
  then have al: "slot_address s slot mod 16 = 0" "0 < slot_address s slot"
    using span_core_sizes(3) [OF sc] sc by (auto simp: slot_address_def span_core_def mod_add_eq mod_eq_0_iff_dvd)
  have q: "quiet st \<and> \<not> black \<longrightarrow> quiet ?st"
    using at span_at_SomeD [OF at] by (auto simp: quiet_def span_at_update with_slot_def span_take_slot_def)
  show ?thesis
    unfolding alloc_contract_def
    using with_slot_core [OF core marks at slot below tid] frame q al want
      with_slot_zero [OF core at slot(1)] view(1-4) by blast
qed

lemma alloc_small_loop_step:
  assumes ot: "open_or_take c st = Inr (i, st1)" and c: "c < NUM_SIZE_CLASSES" and core: "heap_core st"
    and core1: "heap_core st1" and at: "span_at (spans st1) i = Some s"
  shows "alloc_small_loop c tid black st =
    (case find_free_slot s of
       None \<Rightarrow> alloc_small_loop c tid black (close_span c st1)
     | Some (slot, s1) \<Rightarrow> Inr (slot_address s slot, elem_size s, with_slot tid black i slot s st1))"
proof -
  have "c < length (open_span st)" "c < length (partial_spans st)"
    using heap_coreD(4) [OF core] c by (auto simp: classes_ok_def)
  then show ?thesis
    using find_free_slot_Some(3) [OF span_at_core [OF core1 at]] span_at_SomeD [OF at]
    by (auto simp: alloc_small_loop.simps [of c tid black st] ot with_slot_def Let_def split: option.split)
qed

lemma alloc_small_found:
  assumes core: "heap_core st" and marks: "marks_ok (spans st)" and c: "c < NUM_SIZE_CLASSES"
    and ot: "open_or_take c st = Inr (i, st1)" and core1: "heap_core st1" and marks1: "marks_ok (spans st1)"
    and at: "span_at (spans st1) i = Some s" and cls: "span_class s = c"
    and obj: "obj_at st1 = obj_at st" and fr: "alloc_frame st st1" and q: "quiet st \<longrightarrow> quiet st1"
    and tid: "type_info st tid \<noteq> None" and want: "want \<le> class_elem_size c"
    and free: "find_free_slot s = Some (slot, s1)"
  shows "alloc_small_loop c tid black st = Inr (slot_address s slot, elem_size s, with_slot tid black i slot s st1)"
    "alloc_contract st want tid black (slot_address s slot) (elem_size s) (with_slot tid black i slot s st1)"
proof -
  show "alloc_small_loop c tid black st = Inr (slot_address s slot, elem_size s, with_slot tid black i slot s st1)"
    using alloc_small_loop_step [OF ot c core core1 at] free by simp
  have sc: "span_core s" by (rule span_at_core [OF core1 at])
  note f = find_free_slot_Some [OF sc free]
  have "elem_size s = class_elem_size c" using sc cls by (simp add: span_core_def)
  moreover have "type_info st1 tid \<noteq> None" using tid fr by (simp add: type_info_def alloc_frame_def)
  ultimately have w: "alloc_contract st1 want tid black (slot_address s slot) (elem_size s) (with_slot tid black i slot s st1)"
    using want by (intro with_slot_contract [OF core1 marks1 at f(1,2,4)]) auto
  moreover have "alloc_frame st (with_slot tid black i slot s st1)"
    using w alloc_frame_trans [OF fr _ obj] by (simp add: alloc_contract_def)
  ultimately show "alloc_contract st want tid black (slot_address s slot) (elem_size s) (with_slot tid black i slot s st1)"
    using q unfolding alloc_contract_def obj by blast
qed

lemma alloc_small_loop_closed:
  assumes core: "heap_core st" and marks: "marks_ok (spans st)" and c: "c < NUM_SIZE_CLASSES"
    and sys: "sys_ready st span_layout" and tid: "type_info st tid \<noteq> None" and want: "want \<le> class_elem_size c"
    and closed: "open_span st ! c = None"
  shows "\<exists>raw st'. alloc_small_loop c tid black st = Inr (raw, class_elem_size c, st') \<and>
    alloc_contract st want tid black raw (class_elem_size c) st'"
proof -
  obtain i s st1 where o: "open_or_take c st = Inr (i, st1)" "heap_core st1" "marks_ok (spans st1)"
    "span_at (spans st1) i = Some s" "span_class s = c" "obj_at st1 = obj_at st" "alloc_frame st st1"
    "quiet st \<longrightarrow> quiet st1" "live_count s < nelems s"
    using open_or_take_spec [OF core marks c sys] closed by auto
  have sc: "span_core s" by (rule span_at_core [OF o(2,4)])
  obtain slot s1 where f: "find_free_slot s = Some (slot, s1)"
    using live_count_full [OF sc o(9)] by auto
  have "elem_size s = class_elem_size c" using sc o(5) by (simp add: span_core_def)
  then show ?thesis using alloc_small_found [OF core marks c o(1-8) tid want f, of black] by auto
qed

lemma alloc_small_loop_total:
  assumes core: "heap_core st" and marks: "marks_ok (spans st)" and c: "c < NUM_SIZE_CLASSES"
    and sys: "sys_ready st span_layout" and tid: "type_info st tid \<noteq> None" and want: "want \<le> class_elem_size c"
  shows "\<exists>raw st'. alloc_small_loop c tid black st = Inr (raw, class_elem_size c, st') \<and>
    alloc_contract st want tid black raw (class_elem_size c) st'"
proof (cases "open_span st ! c = None")
  case True
  then show ?thesis by (rule alloc_small_loop_closed [OF assms])
next
  case False
  obtain i s where o: "open_or_take c st = Inr (i, st)" "span_at (spans st) i = Some s" "span_class s = c"
    using open_or_take_spec [OF core marks c sys] False by auto
  have es: "elem_size s = class_elem_size c" using span_at_core [OF core o(2)] o(3) by (simp add: span_core_def)
  show ?thesis
  proof (cases "find_free_slot s")
    case (Some p)
    obtain slot s1 where f: "find_free_slot s = Some (slot, s1)" using Some by (cases p) auto
    show ?thesis
      using alloc_small_found [OF core marks c o(1) core marks o(2,3) refl alloc_frame_refl _ tid want f, of black] es
      by auto
  next
    case None
    let ?st = "close_span c st"
    have run: "alloc_small_loop c tid black st = alloc_small_loop c tid black ?st"
      using alloc_small_loop_step [OF o(1) c core core o(2)] None by simp
    have core': "heap_core ?st" unfolding close_span_def by (rule set_open_ok [OF core]) simp
    have l: "c < length (open_span st)" using heap_coreD(4) [OF core] c by (simp add: classes_ok_def)
    have st': "marks_ok (spans ?st)" "sys_ready ?st span_layout" "type_info ?st tid \<noteq> None" "open_span ?st ! c = None"
      using marks sys tid l by (simp_all add: close_span_def type_info_def)
    obtain raw st' where r: "alloc_small_loop c tid black ?st = Inr (raw, class_elem_size c, st')"
      "alloc_contract ?st want tid black raw (class_elem_size c) st'"
      using alloc_small_loop_closed [OF core' st'(1) c st'(2,3) want st'(4)] by blast
    have "alloc_frame st st'"
      using r(2) by (intro alloc_frame_trans [of st ?st st']) (auto simp: alloc_contract_def close_span_def)
    then have "alloc_contract st want tid black raw (class_elem_size c) st'"
      using r(2) by (simp add: alloc_contract_def close_span_def)
    then show ?thesis using r(1) run by auto
  qed
qed

section \<open>Large objects\<close>

definition with_large :: "addr \<Rightarrow> addr list \<Rightarrow> nat \<Rightarrow> nat \<Rightarrow> bool \<Rightarrow> heap_state \<Rightarrow> heap_state" where
  "with_large raw rest sz tid black st =
     st\<lparr>sys_alloc := rest, mem := zero_range (mem st) raw sz,
        large := large st @ [\<lparr>lo_start = raw, lo_size = sz, lo_type_id = tid mod 2 ^ 16,
          color = (if black then Black else White), young = True, finalized = False\<rparr>],
        large_index_dirty := True\<rparr>"

lemma with_large_core:
  assumes core: "heap_core st" and ok: "sys_block_ok st (sz, 16) raw" and sz: "0 < sz" "sz < 2 ^ 63 - 15"
    and tid: "type_info st tid \<noteq> None"
  shows "heap_core (with_large raw rest sz tid black st)"
proof -
  let ?st = "with_large raw rest sz tid black st"
  have ts: "type_lookup (types st) (tid mod 2 ^ 16) \<noteq> None"
    using tid type_info_bound [OF core tid] by (simp add: type_info_def)
  have blk: "0 < raw" "raw mod 16 = 0"
    "\<And>i s. span_at (spans st) i = Some s \<Longrightarrow> disj (base s, SPAN_BYTES) (raw, sz)"
    "\<And>l. l \<in> set (large st) \<Longrightarrow> disj (lo_start l, lo_size l) (raw, sz)"
    using ok by (auto simp: sys_block_ok_def)
  have "large_ok (spans ?st) (large ?st)"
    using heap_coreD(5) [OF core] blk sz
    by (auto simp: large_ok_def with_large_def nth_append less_Suc_eq)
  moreover have "types_ok (types ?st) (spans ?st) (large ?st)"
    using heap_coreD(7) [OF core] ts by (auto simp: types_ok_def with_large_def)
  moreover have "zero_ok (spans ?st) (mem ?st)"
    using heap_coreD(8) [OF core] by (auto simp: zero_ok_def with_large_def zero_range_def)
  ultimately show ?thesis using core by (auto simp: heap_core_def with_large_def lindex_ok_def)
qed

lemma with_large_contract:
  assumes core: "heap_core st" and marks: "marks_ok (spans st)" and ok: "sys_block_ok st (sz, 16) raw"
    and sz: "0 < sz" "sz < 2 ^ 63 - 15" and tid: "type_info st tid \<noteq> None" and want: "want \<le> sz"
  shows "alloc_contract st want tid black raw sz (with_large raw rest sz tid black st)"
proof -
  let ?st = "with_large raw rest sz tid black st"
  let ?loc = "InLarge (length (large st))"
  have tm: "tid mod 2 ^ 16 = tid" using type_info_bound [OF core tid] by simp
  have obj: "obj_at ?st = (obj_at st)(?loc \<mapsto> (raw, sz, tid))"
  proof
    fix loc show "obj_at ?st loc = ((obj_at st)(?loc \<mapsto> (raw, sz, tid))) loc"
      using tm by (cases loc) (auto simp: obj_at_def with_large_def nth_append)
  qed
  have "obj_young ?st loc = obj_young st loc \<and> obj_finalized ?st loc = obj_finalized st loc"
    if "obj_at st loc \<noteq> None" for loc
    using that by (cases loc) (auto simp: obj_at_def obj_young_def obj_finalized_def with_large_def nth_append)
  moreover have "mem ?st x = mem st x" if "obj_range st loc x" for loc x
    using sys_block_disjoint [OF core ok that] by (auto simp: with_large_def zero_range_def)
  ultimately have frame: "alloc_frame st ?st" unfolding alloc_frame_def by (simp add: with_large_def)
  have "obj_at st ?loc = None" "obj_young ?st ?loc" "\<not> obj_finalized ?st ?loc" "marks_ok (spans ?st)"
    using marks by (simp_all add: obj_at_def obj_young_def obj_finalized_def with_large_def)
  moreover have "quiet st \<and> \<not> black \<longrightarrow> quiet ?st" by (auto simp: quiet_def with_large_def)
  moreover have "0 < raw" "raw mod 16 = 0" using ok by (auto simp: sys_block_ok_def)
  moreover have "\<forall>x. raw \<le> x \<and> x < raw + sz \<longrightarrow> mem ?st x = 0" by (simp add: with_large_def zero_range_def)
  ultimately show ?thesis
    unfolding alloc_contract_def using with_large_core [OF core ok sz tid] frame want obj by blast
qed

section \<open>The allocation entry point\<close>

definition alloc_layout :: "nat \<Rightarrow> layout" where
  "alloc_layout sz = (if sz \<le> SMALL_OBJECT_MAX then span_layout else (sz, DEFAULT_HEAP_ALIGNMENT))"

lemma alloc_small_total:
  assumes "heap_core st" "marks_ok (spans st)" "sys_ready st span_layout" "type_info st tid \<noteq> None"
    and sz: "sz \<le> SMALL_OBJECT_MAX"
  shows "\<exists>raw n st'. alloc_small sz tid black st = Inr (raw, n, st') \<and> alloc_contract st sz tid black raw n st'"
proof -
  have "size_class_of sz < NUM_SIZE_CLASSES" "sz \<le> class_elem_size (size_class_of sz)"
    using sz by (auto simp: size_class_of_def num_size_classes class_elem_size_def DEFAULT_HEAP_ALIGNMENT_def
        SMALL_OBJECT_MAX_def max_def split: if_splits)
  then show ?thesis
    unfolding alloc_small_def using alloc_small_loop_total [OF assms(1,2) _ assms(3,4)] by blast
qed

lemma alloc_large_total:
  assumes "heap_core st" "marks_ok (spans st)" "type_info st tid \<noteq> None" "sys_ready st (sz, DEFAULT_HEAP_ALIGNMENT)"
    and sz: "0 < sz" "sz < 2 ^ 63 - 15"
  shows "\<exists>raw n st'. alloc_large sz tid black st = Inr (raw, n, st') \<and> alloc_contract st sz tid black raw n st'"
proof -
  obtain raw rest where r: "sys_alloc st = raw # rest" "sys_block_ok st (sz, 16) raw"
    using assms(4) by (auto simp: sys_ready_def DEFAULT_HEAP_ALIGNMENT_def)
  have m: "max sz 1 = sz" using sz(1) by simp
  have "alloc_large sz tid black st = Inr (raw, sz, with_large raw rest sz tid black st)"
    using sz r(1) by (simp add: alloc_large_def large_layout_def m DEFAULT_HEAP_ALIGNMENT_def with_large_def)
  then show ?thesis using with_large_contract [OF assms(1,2) r(2) sz assms(3)] by blast
qed

section \<open>Registering types\<close>

lemma types_ok_mono:
  assumes "types_ok ts ss ls" "length ts' \<le> MAX_TYPE_ID" "\<And>tid. type_lookup ts tid \<noteq> None \<Longrightarrow> type_lookup ts' tid \<noteq> None"
  shows "types_ok ts' ss ls"
  using assms unfolding types_ok_def by blast

lemma register_type_lookup:
  assumes "register_type tid info st = Inr st'"
  shows "type_info st' k = (if k = tid then Some info else type_info st k)"
proof -
  have "tid < MAX_TYPE_ID" using assms by (auto simp: register_type_def split: if_splits)
  then have st': "st' = st\<lparr>types := (if length (types st) \<le> tid
                     then types st @ replicate (Suc tid - length (types st)) None else types st)[tid := Some info]\<rparr>"
    using assms by (simp add: register_type_def Let_def)
  show ?thesis
    by (auto simp: st' type_info_def type_lookup_def nth_append nth_list_update nth_replicate)
qed

lemma register_type_heap_core:
  assumes "register_type tid info st = Inr st'" "heap_core st"
  shows "heap_core st' \<and> spans st' = spans st \<and> large st' = large st \<and> quiet st' = quiet st \<and>
    pending_finalizer_roots st' = pending_finalizer_roots st"
proof -
  have t: "tid < MAX_TYPE_ID" using assms by (auto simp: register_type_def split: if_splits)
  note tok = heap_coreD(7) [OF assms(2)]
  obtain ts where st': "st' = st\<lparr>types := ts\<rparr>" "length ts \<le> MAX_TYPE_ID \<or> length ts = length (types st)"
    using assms(1) t by (auto simp: register_type_def Let_def split: if_splits)
  have "length ts \<le> MAX_TYPE_ID"
    using st'(2) tok [unfolded types_ok_def] by metis
  moreover have "type_lookup (types st) k \<noteq> None \<Longrightarrow> type_lookup ts k \<noteq> None" for k
    using register_type_lookup [OF assms(1), of k] unfolding st'(1) type_info_def by (cases "k = tid") simp_all
  ultimately have "types_ok ts (spans st) (large st)"
    by (rule types_ok_mono [OF tok])
  then show ?thesis using assms(2) by (simp add: st'(1) heap_core_def quiet_def)
qed

lemma register_type_core:
  assumes "register_type tid info st = Inr st'" "heap_wf st"
  shows "heap_wf st' \<and> obj_at st' = obj_at st"
  using register_type_heap_core [OF assms(1)] assms(2) obj_view_cong(1) [of st' st] by (simp add: heap_wf_def)

lemma alloc_total:
  assumes "heap_core (hstate h)" "marks_ok (spans (hstate h))" "type_info (hstate h) tid \<noteq> None"
    and "sys_ready (hstate h) (alloc_layout sz)" "sz < 2 ^ 63 - 15"
  shows "\<exists>raw n h'. alloc black sz tid h = Inr (raw, h') \<and>
    alloc_contract (hstate h) sz tid black raw n (hstate h') \<and>
    bytes_since_collect h' = bytes_since_collect h + word_of_nat n \<and>
    live_bytes h' = live_bytes h + word_of_nat n"
proof (cases "sz \<le> SMALL_OBJECT_MAX")
  case True
  then have "sys_ready (hstate h) span_layout" using assms(4) by (simp add: alloc_layout_def)
  then obtain raw n st' where "alloc_small sz tid black (hstate h) = Inr (raw, n, st')"
    "alloc_contract (hstate h) sz tid black raw n st'"
    using alloc_small_total [OF assms(1,2) _ assms(3) True] by blast
  then show ?thesis using True assms(3) by (auto simp: alloc_def)
next
  case False
  then have "sys_ready (hstate h) (sz, DEFAULT_HEAP_ALIGNMENT)" "0 < sz" using assms(4) by (auto simp: alloc_layout_def)
  then obtain raw n st' where "alloc_large sz tid black (hstate h) = Inr (raw, n, st')"
    "alloc_contract (hstate h) sz tid black raw n st'"
    using alloc_large_total [OF assms(1-3) _ _ assms(5)] by blast
  then show ?thesis using False assms(3) by (auto simp: alloc_def)
qed

section \<open>Properties\<close>

text \<open>
  Allocation always succeeds on a registered type when the system allocator can serve a block:
  the heap gains exactly one object, which is fresh, non-null, 16-byte aligned, at least as big as
  asked, zeroed and young; the bytes and flags of every other object, the invariant and (when the
  heap does not allocate black) the absence of marks are kept; both byte counters grow by the size.
\<close>

theorem alloc_ok:
  assumes "heap_core (hstate h)" "marks_ok (spans (hstate h))" "type_info (hstate h) tid \<noteq> None"
    and "sys_ready (hstate h) (alloc_layout sz)" "sz < 2 ^ 63 - 15"
  shows "\<exists>raw n h'. alloc black sz tid h = Inr (raw, h') \<and>
    alloc_contract (hstate h) sz tid black raw n (hstate h') \<and>
    bytes_since_collect h' = bytes_since_collect h + word_of_nat n \<and>
    live_bytes h' = live_bytes h + word_of_nat n"
  by (rule alloc_total [OF assms])

text \<open>A heap with one registered type, used to instantiate the hypotheses.\<close>

definition sample_type :: gc_type_info where
  "sample_type = \<lparr>ti_size = 24, ti_trace = (\<lambda>m a. []), ti_finalize = None\<rparr>"

definition sample_heap :: heap where
  "sample_heap = (heap_new (\<lambda>_. 7) [65536])\<lparr>hstate := (heap_state_new (\<lambda>_. 7) [65536])\<lparr>types := [Some sample_type]\<rparr>\<rparr>"

lemma sample_heap_register: "register_type 0 sample_type (heap_state_new (\<lambda>_. 7) [65536]) = Inr (hstate sample_heap)"
  by (simp add: register_type_def sample_heap_def heap_new_def heap_state_new_def MAX_TYPE_ID_def)

lemma sample_heap_wf: "heap_wf (hstate sample_heap)"
  using register_type_core [OF sample_heap_register heap_new_wf] by simp

lemma sample_heap_ready: "sys_ready (hstate sample_heap) (alloc_layout 24)" "type_info (hstate sample_heap) 0 \<noteq> None"
  by (simp_all add: sys_ready_def sys_block_ok_def sample_heap_def heap_new_def heap_state_new_def alloc_layout_def
      span_layout_def SPAN_BYTES_def SMALL_OBJECT_MAX_def span_at_def type_info_def type_lookup_def)

theorem alloc_ok_witness:
  "\<exists>raw n h'. alloc False 24 0 sample_heap = Inr (raw, h') \<and>
    alloc_contract (hstate sample_heap) 24 0 False raw n (hstate h') \<and>
    bytes_since_collect h' = bytes_since_collect sample_heap + word_of_nat n \<and>
    live_bytes h' = live_bytes sample_heap + word_of_nat n"
  by (rule alloc_ok) (use sample_heap_wf sample_heap_ready in \<open>auto simp: heap_wf_def\<close>)

text \<open>
  Registering a type: the id is refused exactly from \<open>MAX_TYPE_ID\<close> on; otherwise the table maps
  that id to the new descriptor and every other id as before, and no object and no part of the
  invariant changes.
\<close>

theorem register_type_ok:
  assumes "heap_wf st"
  shows "case register_type tid info st of
      Inl e \<Rightarrow> e = TypeIdOutOfRange \<and> MAX_TYPE_ID \<le> tid
    | Inr st' \<Rightarrow> tid < MAX_TYPE_ID \<and> heap_wf st' \<and> obj_at st' = obj_at st \<and>
        type_info st' = (type_info st)(tid \<mapsto> info)"
proof (cases "register_type tid info st")
  case (Inl e)
  then show ?thesis by (auto simp: register_type_def Let_def split: if_splits)
next
  case (Inr st')
  then show ?thesis
    using register_type_core [OF Inr assms] register_type_lookup [OF Inr]
    by (auto simp: register_type_def fun_eq_iff split: if_splits)
qed

theorem register_type_ok_witness:
  "case register_type 0 sample_type (heap_state_new (\<lambda>_. 7) [65536]) of
      Inl e \<Rightarrow> e = TypeIdOutOfRange \<and> MAX_TYPE_ID \<le> 0
    | Inr st' \<Rightarrow> 0 < MAX_TYPE_ID \<and> heap_wf st' \<and> obj_at st' = obj_at (heap_state_new (\<lambda>_. 7) [65536]) \<and>
        type_info st' = (type_info (heap_state_new (\<lambda>_. 7) [65536]))(0 \<mapsto> sample_type)"
  by (rule register_type_ok [OF heap_new_wf])

end
