(* ===== verification/Gc_Mark.thy ===== *)
theory Gc_Mark
  imports Gc_Alloc
begin

text \<open>
  The mark phase of the collector: \<open>mark_pointer\<close> and \<open>drain_marks\<close> of \<^verbatim>\<open>pon-gc/src/lib.rs\<close>, and
  the proof that draining the queues marks exactly the objects reachable from those marked at the
  start.  An object is \<^emph>\<open>marked\<close> when its seen bit is set (or its colour is gray or black), and
  \<^emph>\<open>scanned\<close> when its scan bit is set (or its colour is black).
\<close>

section \<open>Marking\<close>

definition enqueue_span :: "nat \<Rightarrow> span \<Rightarrow> heap_state \<Rightarrow> heap_state" where
  "enqueue_span i s st =
     (if on_queue s then st\<lparr>spans := (spans st)[i := Some s]\<rparr>
      else st\<lparr>spans := (spans st)[i := Some (s\<lparr>on_queue := True\<rparr>)], span_queue := span_queue st @ [i]\<rparr>)"

definition shade_large :: "nat \<Rightarrow> heap_state \<Rightarrow> heap_state" where
  "shade_large j st =
     (if color (large st ! j) = White
      then st\<lparr>large := (large st)[j := (large st ! j)\<lparr>color := Gray\<rparr>], large_queue := large_queue st @ [j]\<rparr>
      else st)"

definition mark_pointer :: "addr \<Rightarrow> heap_state \<Rightarrow> gc_error + bool \<times> heap_state" where
  "mark_pointer a st =
     (if a = 0 then Inr (False, st)
      else case span_lookup st a of
        Some i \<Rightarrow>
          (if \<not> i < length (spans st) then Inl IndexPanic
           else case spans st ! i of
             None \<Rightarrow> Inr (False, st)
           | Some s \<Rightarrow>
               let slot = (a - span_base_of a) div elem_size s in
               if slot \<ge> nelems s \<or> \<not> bit_get (alloc_bits s) slot then Inr (False, st)
               else if bit_get (mark_bits s) slot then Inr (True, st)
               else Inr (True, enqueue_span i (s\<lparr>mark_bits := bit_set (mark_bits s) slot\<rparr>) st))
      | None \<Rightarrow>
          let st1 = prepare_large_index st in
          (case large_lookup st1 a of
             None \<Rightarrow> Inr (False, st1)
           | Some j \<Rightarrow> Inr (True, shade_large j st1)))"

fun mark_pointers :: "addr list \<Rightarrow> heap_state \<Rightarrow> gc_error + heap_state" where
  "mark_pointers [] st = Inr st"
| "mark_pointers (p # ps) st =
     (case mark_pointer p st of Inl e \<Rightarrow> Inl e | Inr (_, st1) \<Rightarrow> mark_pointers ps st1)"

text \<open>The scan of one buffer: a type that is not registered is skipped.\<close>

fun visit_objects :: "(addr \<times> nat) list \<Rightarrow> heap_state \<Rightarrow> gc_error + heap_state" where
  "visit_objects [] st = Inr st"
| "visit_objects ((obj, tid) # rest) st =
     (case type_info st tid of
        None \<Rightarrow> visit_objects rest st
      | Some info \<Rightarrow>
          (case mark_pointers (ti_trace info (mem st) obj) st of
             Inl e \<Rightarrow> Inl e
           | Inr st1 \<Rightarrow> visit_objects rest st1))"

definition active_bits :: "span \<Rightarrow> bitmap" where
  "active_bits s = bm_andnot (mark_bits s) (scan_bits s)"

definition scan_buffer :: "span \<Rightarrow> (addr \<times> nat) list" where
  "scan_buffer s = map (\<lambda>slot. (base s + slot * elem_size s, type_ids s ! slot)) (bitmap_positions (active_bits s))"

definition span_scanned :: "span \<Rightarrow> span" where
  "span_scanned s = s\<lparr>on_queue := False, scan_bits := bm_or (scan_bits s) (active_bits s)\<rparr>"

definition queues_empty :: "heap_state \<Rightarrow> bool" where
  "queues_empty st \<longleftrightarrow> span_queue st = [] \<and> large_queue st = []"

definition drain_step :: "heap_state \<Rightarrow> gc_error + heap_state" where
  "drain_step st =
     (case span_queue st of
        i # q \<Rightarrow>
          (if \<not> i < length (spans st) then Inl IndexPanic
           else case spans st ! i of
             None \<Rightarrow> Inr (st\<lparr>span_queue := q\<rparr>)
           | Some s \<Rightarrow>
               visit_objects (scan_buffer s)
                 (st\<lparr>spans := (spans st)[i := Some (span_scanned s)], span_queue := q\<rparr>))
      | [] \<Rightarrow>
          (case large_queue st of
             [] \<Rightarrow> Inr st
           | j # q \<Rightarrow>
               (if \<not> j < length (large st) then Inl IndexPanic
                else if color (large st ! j) \<noteq> Gray then Inr (st\<lparr>large_queue := q\<rparr>)
                else visit_objects [(lo_start (large st ! j), lo_type_id (large st ! j))]
                       (st\<lparr>large := (large st)[j := (large st ! j)\<lparr>color := Black\<rparr>],
                           large_queue := q\<rparr>))))"

definition drain_marks :: "heap_state \<Rightarrow> (gc_error + heap_state) option" where
  "drain_marks st = run_loop queues_empty drain_step st"

section \<open>The heap without its mark state\<close>

definition erase_span :: "span \<Rightarrow> span" where
  "erase_span s = s\<lparr>on_queue := False, mark_bits := [], scan_bits := []\<rparr>"

definition erase_large :: "large_object \<Rightarrow> large_object" where
  "erase_large l = l\<lparr>color := White\<rparr>"

definition erase :: "heap_state \<Rightarrow> heap_state" where
  "erase st = st\<lparr>spans := map (map_option erase_span) (spans st), large := map erase_large (large st),
     span_queue := [], large_queue := []\<rparr>"

lemma erase_span_simps [simp]:
  "base (erase_span s) = base s" "elem_size (erase_span s) = elem_size s" "nelems (erase_span s) = nelems s"
  "span_class (erase_span s) = span_class s" "live_count (erase_span s) = live_count s"
  "free_hint (erase_span s) = free_hint s" "zeroed_watermark (erase_span s) = zeroed_watermark s"
  "alloc_bits (erase_span s) = alloc_bits s" "young_bits (erase_span s) = young_bits s"
  "finalized_bits (erase_span s) = finalized_bits s" "type_ids (erase_span s) = type_ids s"
  "slot_address (erase_span s) k = slot_address s k" "span_core (erase_span s) = span_core s"
  by (simp_all add: erase_span_def slot_address_def span_core_def)

lemma erase_large_simps [simp]:
  "lo_start (erase_large l) = lo_start l" "lo_size (erase_large l) = lo_size l"
  "lo_type_id (erase_large l) = lo_type_id l" "young (erase_large l) = young l" "finalized (erase_large l) = finalized l"
  by (simp_all add: erase_large_def)

lemma erase_simps [simp]:
  "types (erase st) = types st" "mem (erase st) = mem st" "sys_alloc (erase st) = sys_alloc st"
  "span_base_index (erase st) = span_base_index st" "span_slots_free (erase st) = span_slots_free st"
  "large_index (erase st) = large_index st" "large_index_dirty (erase st) = large_index_dirty st"
  "open_span (erase st) = open_span st" "partial_spans (erase st) = partial_spans st"
  "pending_finalizer_roots (erase st) = pending_finalizer_roots st"
  "span_at (spans (erase st)) i = map_option erase_span (span_at (spans st) i)"
  "length (spans (erase st)) = length (spans st)" "length (large (erase st)) = length (large st)"
  "j < length (large st) \<Longrightarrow> large (erase st) ! j = erase_large (large st ! j)"
  by (simp_all add: erase_def span_at_map)

lemma erase_obj_at: "obj_at (erase st) = obj_at st" "obj_young (erase st) = obj_young st"
  "obj_finalized (erase st) = obj_finalized st"
  by (auto simp: fun_eq_iff obj_at_def obj_young_def obj_finalized_def split: object_location.split option.split)

lemma erase_locate: "locate (erase st) = locate st"
proof -
  have "large_lookup (erase st) = large_lookup st"
    by (auto simp: fun_eq_iff large_lookup_def Let_def split: prod.split)
  moreover have "span_lookup (erase st) = span_lookup st" by (auto simp: fun_eq_iff span_lookup_def split: option.split)
  ultimately show ?thesis by (auto simp: fun_eq_iff locate_def Let_def split: option.split)
qed

lemma erase_types: "type_info (erase st) = type_info st"
  by (simp add: fun_eq_iff type_info_def)

lemma large_entries_erase: "large_entries (map erase_large ls) = large_entries ls"
proof -
  have "map (\<lambda>(index, l). (lo_start l, index)) (enumerate n (map erase_large ls)) =
      map (\<lambda>(index, l). (lo_start l, index)) (enumerate n ls)" for n
    by (induction ls arbitrary: n) simp_all
  then show ?thesis by (simp add: large_entries_def)
qed

lemma erase_core: "heap_core (erase st) = heap_core st"
proof -
  have b: "{(base s, i) |i s. span_at (spans (erase st)) i = Some s} = {(base s, i) |i s. span_at (spans st) i = Some s}"
    by force
  have f: "{i. i < length (spans (erase st)) \<and> spans (erase st) ! i = None} = {i. i < length (spans st) \<and> spans st ! i = None}"
    by (auto simp: erase_def)
  have c: "class_span (spans (erase st)) c i = class_span (spans st) c i" for c i
    by (auto simp: class_span_def)
  have l: "set (large (erase st)) = erase_large ` set (large st)" by (simp add: erase_def)
  have all: "(\<forall>i t. span_at (spans (erase st)) i = Some t \<longrightarrow> P i t) \<longleftrightarrow>
      (\<forall>i s. span_at (spans st) i = Some s \<longrightarrow> P i (erase_span s))" for P by auto
  have all3: "(\<forall>i t k. span_at (spans (erase st)) i = Some t \<and> Q i t k \<longrightarrow> P i t k) \<longleftrightarrow>
      (\<forall>i s k. span_at (spans st) i = Some s \<and> Q i (erase_span s) k \<longrightarrow> P i (erase_span s) k)"
    for P and Q :: "nat \<Rightarrow> span \<Rightarrow> nat \<Rightarrow> bool" by auto
  have "spans_ok (spans (erase st)) = spans_ok (spans st)" by (simp only: spans_ok_def all) simp
  moreover have "index_ok (spans (erase st)) (span_base_index st) = index_ok (spans st) (span_base_index st)"
    unfolding index_ok_def b ..
  moreover have "free_ok (spans (erase st)) (span_slots_free st) = free_ok (spans st) (span_slots_free st)"
    unfolding free_ok_def f ..
  moreover have "classes_ok (spans (erase st)) (open_span st) (partial_spans st) = classes_ok (spans st) (open_span st) (partial_spans st)"
    by (simp add: classes_ok_def c)
  moreover have "large_ok (spans (erase st)) (large (erase st)) = large_ok (spans st) (large st)"
    unfolding large_ok_def all by (auto simp: l)
  moreover have "lindex_ok (large_index_dirty st) (large_index st) (large (erase st)) = lindex_ok (large_index_dirty st) (large_index st) (large st)"
    by (simp add: lindex_ok_def erase_def large_entries_erase)
  moreover have "types_ok (types st) (spans (erase st)) (large (erase st)) = types_ok (types st) (spans st) (large st)"
    unfolding types_ok_def all3 by (auto simp: l)
  moreover have "zero_ok (spans (erase st)) (mem st) = zero_ok (spans st) (mem st)"
    unfolding zero_ok_def all3 by simp
  ultimately show ?thesis by (simp add: heap_core_def)
qed

text \<open>Two states with the same erasure agree on everything the mark phase reads.\<close>

lemma erase_eqD:
  assumes "erase st' = erase st"
  shows "heap_core st' = heap_core st" "locate st' = locate st" "obj_at st' = obj_at st"
    "obj_young st' = obj_young st" "obj_finalized st' = obj_finalized st" "type_info st' = type_info st"
    "mem st' = mem st" "large_index_dirty st' = large_index_dirty st" "types st' = types st"
    "pending_finalizer_roots st' = pending_finalizer_roots st" "sys_alloc st' = sys_alloc st"
    "length (spans st') = length (spans st)" "length (large st') = length (large st)"
  using assms by (metis erase_core erase_locate erase_obj_at erase_types erase_simps)+

section \<open>Marked and scanned objects\<close>

definition is_marked :: "heap_state \<Rightarrow> object_location \<Rightarrow> bool" where
  "is_marked st loc =
     (case loc of
        InSpan i k \<Rightarrow> (case span_at (spans st) i of None \<Rightarrow> False | Some s \<Rightarrow> bit_get (mark_bits s) k)
      | InLarge j \<Rightarrow> j < length (large st) \<and> color_is_reached (color (large st ! j)))"

definition is_scanned :: "heap_state \<Rightarrow> object_location \<Rightarrow> bool" where
  "is_scanned st loc =
     (case loc of
        InSpan i k \<Rightarrow> (case span_at (spans st) i of None \<Rightarrow> False | Some s \<Rightarrow> bit_get (scan_bits s) k)
      | InLarge j \<Rightarrow> j < length (large st) \<and> color (large st ! j) = Black)"

abbreviation marked :: "heap_state \<Rightarrow> object_location set" where
  "marked st \<equiv> {loc. is_marked st loc}"

abbreviation scanned :: "heap_state \<Rightarrow> object_location set" where
  "scanned st \<equiv> {loc. is_scanned st loc}"

definition queue_ok :: "heap_state \<Rightarrow> bool" where
  "queue_ok st \<longleftrightarrow> distinct (span_queue st) \<and>
     (\<forall>i \<in> set (span_queue st). span_at (spans st) i \<noteq> None) \<and>
     (\<forall>i s. span_at (spans st) i = Some s \<longrightarrow> (on_queue s \<longleftrightarrow> i \<in> set (span_queue st)) \<and>
        (i \<notin> set (span_queue st) \<longrightarrow> slots_of (mark_bits s) \<subseteq> slots_of (scan_bits s))) \<and>
     (\<forall>j \<in> set (large_queue st). j < length (large st)) \<and>
     (\<forall>j < length (large st). color (large st ! j) = Gray \<longrightarrow> j \<in> set (large_queue st))"

definition mark_ok :: "heap_state \<Rightarrow> bool" where
  "mark_ok st \<longleftrightarrow> heap_core st \<and> \<not> large_index_dirty st \<and> marks_ok (spans st) \<and> queue_ok st"

definition mark_weight :: "heap_state \<Rightarrow> nat" where
  "mark_weight st = length (span_queue st) + length (large_queue st) + card (live_locs st - marked st)"

text \<open>What marking some more objects \<open>L\<close> does to a state.\<close>

definition mark_ext :: "heap_state \<Rightarrow> object_location set \<Rightarrow> heap_state \<Rightarrow> bool" where
  "mark_ext st L st' \<longleftrightarrow> erase st' = erase st \<and> mark_ok st' \<and> marked st' = marked st \<union> L \<and>
     scanned st' = scanned st \<and> mark_weight st' \<le> mark_weight st"

lemma mark_ext_refl: "mark_ok st \<Longrightarrow> mark_ext st {} st"
  by (simp add: mark_ext_def)

lemma mark_ext_trans: "mark_ext a L b \<Longrightarrow> mark_ext b M c \<Longrightarrow> mark_ext a (L \<union> M) c"
  unfolding mark_ext_def by (auto simp: Un_assoc)

lemma mark_ext_noop: "mark_ok st \<Longrightarrow> L \<subseteq> marked st \<Longrightarrow> mark_ext st L st"
  by (auto simp: mark_ext_def)

lemma color_is_reached_iff: "color_is_reached c \<longleftrightarrow> c \<noteq> White"
  by (cases c) simp_all

lemma loc_set_eqI:
  assumes "\<And>i k. InSpan i k \<in> A \<longleftrightarrow> InSpan i k \<in> B" "\<And>j. InLarge j \<in> A \<longleftrightarrow> InLarge j \<in> B"
  shows "A = B"
proof (rule set_eqI)
  fix loc show "loc \<in> A \<longleftrightarrow> loc \<in> B" using assms by (cases loc) auto
qed

lemma marks_okD:
  assumes "marks_ok ss" "span_at ss i = Some s"
  shows "bit_get (mark_bits s) k \<Longrightarrow> bit_get (alloc_bits s) k" "bit_get (scan_bits s) k \<Longrightarrow> bit_get (mark_bits s) k"
    "length (mark_bits s) = bitmap_words (nelems s)" "length (scan_bits s) = bitmap_words (nelems s)"
proof -
  have "span_marks s" using assms by (simp add: marks_ok_def)
  then show "bit_get (mark_bits s) k \<Longrightarrow> bit_get (alloc_bits s) k" "bit_get (scan_bits s) k \<Longrightarrow> bit_get (mark_bits s) k"
    "length (mark_bits s) = bitmap_words (nelems s)" "length (scan_bits s) = bitmap_words (nelems s)"
    by (auto simp: span_marks_def slots_of_def)
qed

lemma marked_live: "marks_ok (spans st) \<Longrightarrow> marked st \<subseteq> live_locs st"
proof
  fix loc assume "marks_ok (spans st)" "loc \<in> marked st"
  then show "loc \<in> live_locs st"
    by (cases loc) (auto simp: is_marked_def obj_at_def dest: marks_okD split: option.splits)
qed

lemma mark_ext_new:
  assumes ok: "mark_ok st" "mark_ok st'" and er: "erase st' = erase st"
    and m: "marked st' = insert loc (marked st)" "\<not> is_marked st loc" "scanned st' = scanned st"
    and q: "length (span_queue st') + length (large_queue st') \<le> Suc (length (span_queue st) + length (large_queue st))"
  shows "mark_ext st {loc} st'"
proof -
  have live: "live_locs st' = live_locs st" using erase_eqD(3) [OF er] by simp
  have "loc \<in> live_locs st" using marked_live [of st'] ok(2) m(1) live by (auto simp: mark_ok_def)
  then have "live_locs st - marked st = insert loc (live_locs st' - marked st')" using m(1,2) live by auto
  then have "card (live_locs st - marked st) = Suc (card (live_locs st' - marked st'))"
    using m(1) finite_live_locs [of st'] by (simp add: card_insert_if)
  then show ?thesis using ok er m q by (simp add: mark_ext_def mark_weight_def)
qed

lemma erase_update_span:
  assumes "span_at (spans st) i = Some s" "erase_span s' = erase_span s"
  shows "erase (st\<lparr>spans := (spans st)[i := Some s'], span_queue := q\<rparr>) = erase st"
proof -
  have i: "i < length (spans st)" "spans st ! i = Some s" using span_at_SomeD [OF assms(1)] by auto
  have "map (map_option erase_span) ((spans st)[i := Some s']) = map (map_option erase_span) (spans st)"
    using i assms(2) by (intro nth_equalityI) (auto simp: nth_list_update)
  then show ?thesis by (simp add: erase_def)
qed

lemma erase_update_large:
  assumes "j < length (large st)"
  shows "erase (st\<lparr>large := (large st)[j := (large st ! j)\<lparr>color := c\<rparr>], large_queue := q\<rparr>) = erase st"
proof -
  have "map erase_large ((large st)[j := (large st ! j)\<lparr>color := c\<rparr>]) = map erase_large (large st)"
    using assms by (intro nth_equalityI) (auto simp: nth_list_update erase_large_def)
  then show ?thesis by (simp add: erase_def)
qed

lemma mark_okI:
  assumes "mark_ok st" "erase st' = erase st" "marks_ok (spans st')" "queue_ok st'"
  shows "mark_ok st'"
  using assms erase_eqD(1,8) [OF assms(2)] by (simp add: mark_ok_def)

lemma mark_span_slot:
  assumes ok: "mark_ok st" and at: "span_at (spans st) i = Some s"
    and slot: "bit_get (alloc_bits s) k" "\<not> bit_get (mark_bits s) k"
  shows "mark_ext st {InSpan i k} (enqueue_span i (s\<lparr>mark_bits := bit_set (mark_bits s) k\<rparr>) st)"
proof -
  let ?s = "s\<lparr>mark_bits := bit_set (mark_bits s) k, on_queue := True\<rparr>"
  let ?q = "if on_queue s then span_queue st else span_queue st @ [i]"
  let ?st = "st\<lparr>spans := (spans st)[i := Some ?s], span_queue := ?q\<rparr>"
  have core: "heap_core st" and marks: "marks_ok (spans st)" and qok: "queue_ok st" using ok by (auto simp: mark_ok_def)
  note md = marks_okD [OF marks at]
  have eq: "enqueue_span i (s\<lparr>mark_bits := bit_set (mark_bits s) k\<rparr>) st = ?st"
    by (cases s) (simp add: enqueue_span_def)
  have i: "i < length (spans st)" using span_at_SomeD [OF at] by simp
  have upd: "span_at ((spans st)[i := Some ?s]) j = (if j = i then Some ?s else span_at (spans st) j)" for j
    using i by (simp add: span_at_update)
  have k: "k < 64 * length (mark_bits s)"
    using md(3) bitmap_words_bound [OF span_core_slot(1) [OF span_at_core [OF core at] slot(1)]] by simp
  have onq: "on_queue s \<longleftrightarrow> i \<in> set (span_queue st)" using qok at by (auto simp: queue_ok_def)
  have er: "erase ?st = erase st" by (rule erase_update_span [OF at]) (simp add: erase_span_def)
  have "span_marks ?s" using md slot by (auto simp: span_marks_def slots_of_def bit_get_set [OF k])
  then have "marks_ok (spans ?st)" using marks by (auto simp: marks_ok_def upd)
  moreover have "queue_ok ?st"
    using qok at onq unfolding queue_ok_def by (auto simp: upd)
  ultimately have ok': "mark_ok ?st" by (intro mark_okI [OF ok er])
  show ?thesis unfolding eq
  proof (rule mark_ext_new [OF ok ok' er])
    show "marked ?st = insert (InSpan i k) (marked st)"
      using at by (intro loc_set_eqI) (auto simp: is_marked_def upd bit_get_set [OF k])
    show "\<not> is_marked st (InSpan i k)" using at slot by (simp add: is_marked_def)
    show "scanned ?st = scanned st"
      using at by (intro loc_set_eqI) (auto simp: is_scanned_def upd)
  qed simp
qed

lemma shade_large_ext:
  assumes ok: "mark_ok st" and j: "j < length (large st)"
  shows "mark_ext st {InLarge j} (shade_large j st)"
proof (cases "color (large st ! j) = White")
  case False
  then show ?thesis using ok j by (auto simp: shade_large_def is_marked_def color_is_reached_iff intro!: mark_ext_noop)
next
  case True
  let ?st = "st\<lparr>large := (large st)[j := (large st ! j)\<lparr>color := Gray\<rparr>], large_queue := large_queue st @ [j]\<rparr>"
  have eq: "shade_large j st = ?st" using True by (simp add: shade_large_def)
  have er: "erase ?st = erase st" by (rule erase_update_large [OF j])
  have "queue_ok ?st" using ok j by (auto simp: mark_ok_def queue_ok_def nth_list_update)
  then have ok': "mark_ok ?st" using ok by (intro mark_okI [OF ok er]) (simp_all add: mark_ok_def)
  show ?thesis unfolding eq
  proof (rule mark_ext_new [OF ok ok' er])
    show "marked ?st = insert (InLarge j) (marked st)"
      using j by (intro loc_set_eqI) (auto simp: is_marked_def nth_list_update)
    show "\<not> is_marked st (InLarge j)" using True by (simp add: is_marked_def)
    show "scanned ?st = scanned st"
      using j True by (intro loc_set_eqI) (auto simp: is_scanned_def nth_list_update)
  qed simp
qed

lemma mark_pointer_spec:
  assumes ok: "mark_ok st"
  shows "\<exists>st'. mark_pointer a st = Inr (locate st a \<noteq> None, st') \<and> mark_ext st (set_option (locate st a)) st'"
proof (cases "a = 0")
  case True
  then show ?thesis using mark_ext_refl [OF ok] by (simp add: mark_pointer_def locate_def)
next
  case nz: False
  have core: "heap_core st" and clean: "\<not> large_index_dirty st" using ok by (auto simp: mark_ok_def)
  show ?thesis
  proof (cases "span_lookup st a")
    case None
    have ll: "large_lookup st a = Some j \<Longrightarrow> j < length (large st)" for j
      by (auto simp: large_lookup_def Let_def split: if_splits prod.splits)
    show ?thesis
      using None nz clean ll shade_large_ext [OF ok] mark_ext_refl [OF ok]
      by (auto simp: mark_pointer_def locate_def split: option.splits)
  next
    case (Some i)
    note r = span_lookup_in_range [OF core Some]
    obtain s where s: "span_at (spans st) i = Some s" using span_lookup_iff [OF core] Some by blast
    have s': "spans st ! i = Some s" using s r(2) by simp
    show ?thesis
      using Some nz r(1) s s' mark_span_slot [OF ok s] mark_ext_refl [OF ok]
      by (auto simp: mark_pointer_def locate_def Let_def is_marked_def intro!: mark_ext_noop [OF ok])
  qed
qed

section \<open>The object graph\<close>

definition located :: "heap_state \<Rightarrow> addr list \<Rightarrow> object_location set" where
  "located st ps = {loc. \<exists>p \<in> set ps. locate st p = Some loc}"

definition traced :: "heap_state \<Rightarrow> addr \<times> nat \<Rightarrow> addr list" where
  "traced st e = (case type_info st (snd e) of None \<Rightarrow> [] | Some info \<Rightarrow> ti_trace info (mem st) (fst e))"

definition children :: "heap_state \<Rightarrow> object_location \<Rightarrow> object_location set" where
  "children st loc = (case obj_at st loc of None \<Rightarrow> {} | Some (start, sz, tid) \<Rightarrow> located st (traced st (start, tid)))"

lemma located_simps [simp]:
  "located st [] = {}" "located st (p # ps) = set_option (locate st p) \<union> located st ps"
  "located st (ps @ qs) = located st ps \<union> located st qs"
  by (auto simp: located_def)

lemma located_concat: "located st (concat pss) = (\<Union>ps \<in> set pss. located st ps)"
  by (auto simp: located_def)

lemma erase_eq_graph:
  assumes "erase st' = erase st"
  shows "located st' = located st" "traced st' = traced st" "children st' = children st"
proof -
  show l: "located st' = located st" by (intro ext) (simp only: located_def erase_eqD(2) [OF assms])
  show t: "traced st' = traced st" by (intro ext) (simp only: traced_def erase_eqD(6,7) [OF assms])
  show "children st' = children st" by (intro ext) (simp only: children_def l t erase_eqD(3) [OF assms])
qed

lemma mark_pointers_spec:
  "mark_ok st \<Longrightarrow> \<exists>st'. mark_pointers ps st = Inr st' \<and> mark_ext st (located st ps) st'"
proof (induction ps arbitrary: st)
  case Nil
  then show ?case using mark_ext_refl by simp
next
  case (Cons p ps)
  obtain st1 where m: "mark_pointer p st = Inr (locate st p \<noteq> None, st1)" "mark_ext st (set_option (locate st p)) st1"
    using mark_pointer_spec [OF Cons.prems] by blast
  then have st1: "mark_ok st1" "erase st1 = erase st" by (auto simp: mark_ext_def)
  obtain st' where r: "mark_pointers ps st1 = Inr st'" "mark_ext st1 (located st1 ps) st'" using Cons.IH [OF st1(1)] by blast
  then have "mark_ext st (set_option (locate st p) \<union> located st ps) st'"
    using mark_ext_trans [OF m(2)] erase_eq_graph(1) [OF st1(2)] by simp
  then show ?case using m(1) r(1) by simp
qed

lemma visit_objects_spec:
  "mark_ok st \<Longrightarrow> \<exists>st'. visit_objects buf st = Inr st' \<and> mark_ext st (located st (concat (map (traced st) buf))) st'"
proof (induction buf arbitrary: st)
  case Nil
  then show ?case using mark_ext_refl by simp
next
  case (Cons e buf)
  obtain obj tid where e: "e = (obj, tid)" by (cases e)
  obtain st1 where m: "mark_pointers (traced st e) st = Inr st1" "mark_ext st (located st (traced st e)) st1"
    using mark_pointers_spec [OF Cons.prems] by blast
  then have st1: "mark_ok st1" "erase st1 = erase st" by (auto simp: mark_ext_def)
  have step: "visit_objects (e # buf) st = visit_objects buf st1"
    using m(1) by (auto simp: e traced_def split: option.splits)
  obtain st' where r: "visit_objects buf st1 = Inr st'"
    "mark_ext st1 (located st1 (concat (map (traced st1) buf))) st'" using Cons.IH [OF st1(1)] by blast
  then have "mark_ext st (located st (traced st e) \<union> located st (concat (map (traced st) buf))) st'"
    using mark_ext_trans [OF m(2)] erase_eq_graph(1,2) [OF st1(2)] by simp
  then show ?case using step r(1) by simp
qed

section \<open>One round of the drain loop\<close>

text \<open>
  A round scans some marked objects \<open>S\<close>: their children become marked, and the weight decreases.
\<close>

definition scan_round :: "heap_state \<Rightarrow> object_location set \<Rightarrow> heap_state \<Rightarrow> bool" where
  "scan_round st S st' \<longleftrightarrow> mark_ok st' \<and> erase st' = erase st \<and> S \<subseteq> marked st \<and>
     scanned st' = scanned st \<union> S \<and> marked st' = marked st \<union> (\<Union>loc \<in> S. children st loc) \<and>
     mark_weight st' < mark_weight st"

lemma scan_roundI:
  assumes st1: "mark_ok st1" "erase st1 = erase st" "marked st1 = marked st" "scanned st1 = scanned st \<union> S"
    "mark_weight st1 < mark_weight st" "S \<subseteq> marked st"
    and buf: "located st (concat (map (traced st) buf)) = (\<Union>loc \<in> S. children st loc)"
  shows "\<exists>st'. visit_objects buf st1 = Inr st' \<and> scan_round st S st'"
proof -
  obtain st' where v: "visit_objects buf st1 = Inr st'"
    "mark_ext st1 (located st1 (concat (map (traced st1) buf))) st'" using visit_objects_spec [OF st1(1)] by blast
  then show ?thesis
    using st1 buf erase_eq_graph(1,2) [OF st1(2)] by (auto simp: scan_round_def mark_ext_def)
qed

lemma drain_span_round:
  assumes ok: "mark_ok st" and q: "span_queue st = i # q"
  shows "\<exists>st' S. drain_step st = Inr st' \<and> scan_round st S st'"
proof -
  have core: "heap_core st" and marks: "marks_ok (spans st)" and qok: "queue_ok st" using ok by (auto simp: mark_ok_def)
  obtain s where at: "span_at (spans st) i = Some s" using qok q by (auto simp: queue_ok_def)
  note md = marks_okD [OF marks at] and sat = span_at_SomeD [OF at]
  let ?s = "span_scanned s"
  let ?st1 = "st\<lparr>spans := (spans st)[i := Some ?s], span_queue := q\<rparr>"
  let ?S = "{InSpan i k |k. bit_get (mark_bits s) k \<and> \<not> bit_get (scan_bits s) k}"
  have act: "bit_get (active_bits s) k \<longleftrightarrow> bit_get (mark_bits s) k \<and> \<not> bit_get (scan_bits s) k" for k
    using md(3,4) by (simp add: active_bits_def bit_get_ops)
  have len: "length (active_bits s) = length (scan_bits s)" using md(3,4) by (simp add: active_bits_def)
  have sc: "bit_get (scan_bits ?s) k \<longleftrightarrow> bit_get (mark_bits s) k" for k
    using md(2) len act by (auto simp: span_scanned_def bit_get_ops)
  have fld: "mark_bits ?s = mark_bits s" "alloc_bits ?s = alloc_bits s" "\<not> on_queue ?s" "nelems ?s = nelems s"
    "length (scan_bits ?s) = length (scan_bits s)" using len by (simp_all add: span_scanned_def)
  have upd: "span_at ((spans st)[i := Some ?s]) j = (if j = i then Some ?s else span_at (spans st) j)" for j
    using sat by (simp add: span_at_update)
  have er: "erase ?st1 = erase st" by (rule erase_update_span [OF at]) (simp add: erase_span_def span_scanned_def)
  have "span_marks ?s" using md fld sc by (auto simp: span_marks_def slots_of_def)
  then have "marks_ok (spans ?st1)" using marks by (auto simp: marks_ok_def upd)
  moreover have "queue_ok ?st1"
    using qok q fld sc unfolding queue_ok_def by (auto simp: upd slots_of_def)
  ultimately have ok1: "mark_ok ?st1" by (intro mark_okI [OF ok er])
  have m1: "marked ?st1 = marked st" using at fld by (intro loc_set_eqI) (auto simp: is_marked_def upd)
  have s1: "scanned ?st1 = scanned st \<union> ?S"
    using at sc md(2) by (intro loc_set_eqI) (auto simp: is_scanned_def upd)
  have w: "mark_weight ?st1 < mark_weight st"
    using m1 erase_eqD(3) [OF er] q by (simp add: mark_weight_def)
  have S: "?S \<subseteq> marked st" using at by (auto simp: is_marked_def)
  have "located st (concat (map (traced st) (scan_buffer s))) = (\<Union>loc \<in> ?S. children st loc)"
  proof -
    have "children st (InSpan i k) = located st (traced st (base s + k * elem_size s, type_ids s ! k))"
      if "bit_get (mark_bits s) k" for k
      using at md(1) [OF that] by (simp add: children_def obj_at_def slot_address_def)
    then show ?thesis by (auto simp: located_concat scan_buffer_def slots_of_def act)
  qed
  then have "\<exists>st'. visit_objects (scan_buffer s) ?st1 = Inr st' \<and> scan_round st ?S st'"
    by (rule scan_roundI [OF ok1 er m1 s1 w S])
  moreover have "drain_step st = visit_objects (scan_buffer s) ?st1" using q sat by (simp add: drain_step_def)
  ultimately show ?thesis by auto
qed

lemma drain_large_round:
  assumes ok: "mark_ok st" and q: "span_queue st = []" "large_queue st = j # q"
  shows "\<exists>st' S. drain_step st = Inr st' \<and> scan_round st S st'"
proof -
  have qok: "queue_ok st" and marks: "marks_ok (spans st)" using ok by (auto simp: mark_ok_def)
  have j: "j < length (large st)" using qok q by (auto simp: queue_ok_def)
  show ?thesis
  proof (cases "color (large st ! j) = Gray")
    case False
    let ?st' = "st\<lparr>large_queue := q\<rparr>"
    have er: "erase ?st' = erase st" by (simp add: erase_def)
    have "queue_ok ?st'" using qok q False by (auto simp: queue_ok_def)
    then have ok': "mark_ok ?st'" using marks by (intro mark_okI [OF ok er]) simp
    have same: "marked ?st' = marked st" "scanned ?st' = scanned st"
      by (auto intro!: loc_set_eqI simp: is_marked_def is_scanned_def)
    then have "mark_weight ?st' < mark_weight st" using erase_eqD(3) [OF er] q by (simp add: mark_weight_def)
    then have "scan_round st {} ?st'" using ok' er same by (simp add: scan_round_def)
    moreover have "drain_step st = Inr ?st'" using q j False by (simp add: drain_step_def)
    ultimately show ?thesis by blast
  next
    case True
    let ?l = "(large st ! j)\<lparr>color := Black\<rparr>"
    let ?st1 = "st\<lparr>large := (large st)[j := ?l], large_queue := q\<rparr>"
    let ?buf = "[(lo_start (large st ! j), lo_type_id (large st ! j))]"
    have er: "erase ?st1 = erase st" by (rule erase_update_large [OF j])
    have "queue_ok ?st1" using qok q j by (auto simp: queue_ok_def nth_list_update)
    then have ok1: "mark_ok ?st1" using marks by (intro mark_okI [OF ok er]) simp_all
    have m1: "marked ?st1 = marked st"
      using j True by (intro loc_set_eqI) (auto simp: is_marked_def nth_list_update)
    have s1: "scanned ?st1 = scanned st \<union> {InLarge j}"
      using j by (intro loc_set_eqI) (auto simp: is_scanned_def nth_list_update)
    have w: "mark_weight ?st1 < mark_weight st" using m1 erase_eqD(3) [OF er] q by (simp add: mark_weight_def)
    have S: "{InLarge j} \<subseteq> marked st" using j True by (simp add: is_marked_def)
    have "located st (concat (map (traced st) ?buf)) = (\<Union>loc \<in> {InLarge j}. children st loc)"
      using j by (simp add: children_def obj_at_def)
    then have "\<exists>st'. visit_objects ?buf ?st1 = Inr st' \<and> scan_round st {InLarge j} st'"
      by (rule scan_roundI [OF ok1 er m1 s1 w S])
    moreover have "drain_step st = visit_objects ?buf ?st1" using q j True by (simp add: drain_step_def)
    ultimately show ?thesis by auto
  qed
qed

lemma drain_round:
  assumes "mark_ok st" "\<not> queues_empty st"
  shows "\<exists>st' S. drain_step st = Inr st' \<and> scan_round st S st'"
  using drain_span_round [OF assms(1)] drain_large_round [OF assms(1)] assms(2)
  by (cases "span_queue st"; cases "large_queue st") (auto simp: queues_empty_def)

section \<open>Draining marks the reachable objects\<close>

definition mark_inv :: "heap_state \<Rightarrow> object_location set \<Rightarrow> heap_state \<Rightarrow> bool" where
  "mark_inv st0 R st \<longleftrightarrow> mark_ok st \<and> erase st = erase st0 \<and>
     R \<subseteq> marked st \<and> marked st \<subseteq> reach (children st0) R \<and> scanned st \<subseteq> marked st \<and>
     (\<forall>loc \<in> scanned st. children st0 loc \<subseteq> marked st)"

lemma scan_round_inv:
  assumes inv: "mark_inv st0 R st" and r: "scan_round st S st'"
  shows "mark_inv st0 R st'" "mark_weight st' < mark_weight st"
proof -
  have ch: "children st = children st0" using inv by (intro erase_eq_graph(3)) (simp add: mark_inv_def)
  have S: "S \<subseteq> reach (children st0) R" using inv r by (auto simp: mark_inv_def scan_round_def)
  have "marked st' \<subseteq> reach (children st0) R"
    using inv r S reach_succ [of _ "children st0" R] unfolding mark_inv_def scan_round_def ch by blast
  moreover have "\<forall>loc \<in> scanned st'. children st0 loc \<subseteq> marked st'"
    using inv r unfolding mark_inv_def scan_round_def ch by blast
  moreover have "scanned st' \<subseteq> marked st'" "R \<subseteq> marked st'" "mark_ok st'" "erase st' = erase st0"
    using inv r unfolding mark_inv_def scan_round_def by auto
  ultimately show "mark_inv st0 R st'" by (simp add: mark_inv_def)
  show "mark_weight st' < mark_weight st" using r by (simp add: scan_round_def)
qed

interpretation drain: total_loop "mark_inv st0 R" queues_empty drain_step mark_weight for st0 R
proof
  fix st assume "mark_inv st0 R st" "\<not> queues_empty st"
  then show "\<exists>t. drain_step st = Inr t \<and> mark_inv st0 R t \<and> mark_weight t < mark_weight st"
    using drain_round [of st] scan_round_inv by (metis mark_inv_def)
qed

lemma idle_scanned:
  assumes "mark_ok st" "queues_empty st"
  shows "marked st \<subseteq> scanned st"
proof
  fix loc assume "loc \<in> marked st"
  then show "loc \<in> scanned st"
    using assms by (cases loc)
      (force simp: is_marked_def is_scanned_def mark_ok_def queue_ok_def queues_empty_def slots_of_def
        color_is_reached_iff intro: mark_color.exhaust split: option.splits)+
qed

lemma drain_marks_spec:
  assumes "mark_inv st0 R st"
  shows "\<exists>st'. drain_marks st = Some (Inr st') \<and> mark_inv st0 R st' \<and> queues_empty st' \<and>
    marked st' = reach (children st0) R \<and> scanned st' = marked st'"
proof -
  obtain st' where d: "drain_marks st = Some (Inr st')" "mark_inv st0 R st'" "queues_empty st'"
    using drain.run_total [OF assms] by (auto simp: drain_marks_def)
  have eq: "scanned st' = marked st'" using d(2,3) idle_scanned [of st'] by (auto simp: mark_inv_def)
  have "reach (children st0) R \<subseteq> marked st'"
    using d(2) eq by (intro reach_least) (auto simp: mark_inv_def)
  then have "marked st' = reach (children st0) R" using d(2) by (auto simp: mark_inv_def)
  then show ?thesis using d eq by blast
qed

end
