(* ===== verification/Gc_Collect.thy ===== *)
theory Gc_Collect
  imports Gc_Mark
begin

text \<open>
  The collection cycle of \<^verbatim>\<open>pon-gc/src/lib.rs\<close>: the finalization wave, the sweep, and \<open>collect\<close>.
  The finalizer callbacks run outside the state lock and may re-enter the heap; they are the
  parameter \<open>run_fin\<close>.
\<close>

section \<open>Finalizers\<close>

definition pending_entry :: "heap_state \<Rightarrow> object_location \<Rightarrow> addr \<Rightarrow> nat \<Rightarrow> pending_finalizer option" where
  "pending_entry st loc start tid =
     (case type_info st tid of
        None \<Rightarrow> None
      | Some info \<Rightarrow>
          map_option (\<lambda>f. \<lparr>pf_start = start, pf_finalize = f, pf_location = loc\<rparr>) (ti_finalize info))"

definition dead_bits :: "span \<Rightarrow> bitmap" where
  "dead_bits s = bm_andnot (bm_andnot (bm_andnot (alloc_bits s) (mark_bits s)) (young_bits s)) (finalized_bits s)"

definition span_pending :: "heap_state \<Rightarrow> nat \<times> span option \<Rightarrow> pending_finalizer list" where
  "span_pending st e =
     (case snd e of
        None \<Rightarrow> []
      | Some s \<Rightarrow>
          List.map_filter (\<lambda>slot. pending_entry st (InSpan (fst e) slot) (slot_address s slot) (type_ids s ! slot))
            (bitmap_positions (dead_bits s)))"

definition large_pending :: "heap_state \<Rightarrow> nat \<times> large_object \<Rightarrow> pending_finalizer option" where
  "large_pending st e =
     (if color_is_reached (color (snd e)) \<or> young (snd e) \<or> finalized (snd e) then None
      else pending_entry st (InLarge (fst e)) (lo_start (snd e)) (lo_type_id (snd e)))"

definition collect_pending_finalizers :: "heap_state \<Rightarrow> pending_finalizer list" where
  "collect_pending_finalizers st =
     concat (map (span_pending st) (enumerate 0 (spans st))) @
     List.map_filter (large_pending st) (enumerate 0 (large st))"

definition set_finalized :: "object_location \<Rightarrow> heap_state \<Rightarrow> gc_error + heap_state" where
  "set_finalized loc st =
     (case loc of
        InSpan i slot \<Rightarrow>
          (if \<not> i < length (spans st) then Inl IndexPanic
           else case spans st ! i of
             None \<Rightarrow> Inr st
           | Some s \<Rightarrow> Inr (st\<lparr>spans := (spans st)[i := Some (s\<lparr>finalized_bits := bit_set (finalized_bits s) slot\<rparr>)]\<rparr>))
      | InLarge j \<Rightarrow>
          (if j < length (large st)
           then Inr (st\<lparr>large := (large st)[j := (large st ! j)\<lparr>finalized := True\<rparr>]\<rparr>) else Inr st))"

fun set_all_finalized :: "pending_finalizer list \<Rightarrow> heap_state \<Rightarrow> gc_error + heap_state" where
  "set_all_finalized [] st = Inr st"
| "set_all_finalized (e # es) st =
     (case set_finalized (pf_location e) st of Inl err \<Rightarrow> Inl err | Inr st1 \<Rightarrow> set_all_finalized es st1)"

section \<open>Sweep\<close>

definition keep_bits :: "span \<Rightarrow> bitmap" where
  "keep_bits s = bm_or (mark_bits s) (bm_and (alloc_bits s) (young_bits s))"

definition freed_count :: "span \<Rightarrow> nat" where
  "freed_count s = bitmap_count (bm_andnot (alloc_bits s) (keep_bits s))"

definition span_swept :: "span \<Rightarrow> span" where
  "span_swept s =
     (let zero = replicate (length (alloc_bits s)) 0 in
      s\<lparr>alloc_bits := keep_bits s, mark_bits := zero, scan_bits := zero, young_bits := zero,
        live_count := bitmap_count (keep_bits s), free_hint := 0, on_queue := False\<rparr>)"

record sweep_state =
  sw_heap :: heap_state
  sw_kept :: "bool list"
  sw_detached :: "(addr \<times> layout) list"
  sw_reclaimed :: nat

definition detach_span :: "nat \<Rightarrow> addr \<Rightarrow> heap_state \<Rightarrow> heap_state" where
  "detach_span i b st =
     st\<lparr>span_base_index := (case binary_search_by_key b fst (span_base_index st) of
          Some position \<Rightarrow> remove_at position (span_base_index st) | None \<Rightarrow> span_base_index st),
        spans := (spans st)[i := None], span_slots_free := span_slots_free st @ [i]\<rparr>"

definition push_partial :: "nat \<Rightarrow> nat \<Rightarrow> heap_state \<Rightarrow> heap_state" where
  "push_partial c i st = st\<lparr>partial_spans := (partial_spans st)[c := partial_spans st ! c @ [i]]\<rparr>"

definition sweep_span :: "nat \<Rightarrow> sweep_state \<Rightarrow> gc_error + sweep_state" where
  "sweep_span i w =
     (let st = sw_heap w in
      case span_at (spans st) i of
        None \<Rightarrow> Inr w
      | Some s \<Rightarrow>
          let s' = span_swept s;
              c = span_class s;
              st1 = st\<lparr>spans := (spans st)[i := Some s']\<rparr>;
              r = sw_reclaimed w + freed_count s * elem_size s
          in if live_count s' = 0 then
               (if \<not> c < length (sw_kept w) then Inl IndexPanic
                else if sw_kept w ! c then
                  Inr (w\<lparr>sw_heap := detach_span i (base s) st1,
                         sw_detached := sw_detached w @ [(base s, span_layout)], sw_reclaimed := r\<rparr>)
                else if \<not> c < length (partial_spans st) then Inl IndexPanic
                else Inr (w\<lparr>sw_heap := push_partial c i st1, sw_kept := (sw_kept w)[c := True], sw_reclaimed := r\<rparr>))
             else if live_count s' < nelems s then
               (if \<not> c < length (partial_spans st) then Inl IndexPanic
                else Inr (w\<lparr>sw_heap := push_partial c i st1, sw_reclaimed := r\<rparr>))
             else Inr (w\<lparr>sw_heap := st1, sw_reclaimed := r\<rparr>))"

fun sweep_spans :: "nat list \<Rightarrow> sweep_state \<Rightarrow> gc_error + sweep_state" where
  "sweep_spans [] w = Inr w"
| "sweep_spans (i # is) w = (case sweep_span i w of Inl e \<Rightarrow> Inl e | Inr w1 \<Rightarrow> sweep_spans is w1)"

definition large_kept :: "large_object \<Rightarrow> bool" where
  "large_kept l \<longleftrightarrow> color_is_reached (color l) \<or> young l"

fun sweep_large :: "large_object list \<Rightarrow> gc_error + large_object list \<times> (addr \<times> layout) list \<times> nat" where
  "sweep_large [] = Inr ([], [], 0)"
| "sweep_large (l # ls) =
     (if large_kept l then
        (case sweep_large ls of
           Inl e \<Rightarrow> Inl e
         | Inr (survivors, det, n) \<Rightarrow> Inr (l\<lparr>color := White, young := False\<rparr> # survivors, det, n))
      else
        (case large_layout (lo_size l) of
           None \<Rightarrow> Inl InvalidLayout
         | Some lay \<Rightarrow>
             (case sweep_large ls of
                Inl e \<Rightarrow> Inl e
              | Inr (survivors, det, n) \<Rightarrow> Inr (survivors, (lo_start l, lay) # det, lo_size l + n))))"

definition sweep :: "heap_state \<Rightarrow> gc_error + (addr \<times> layout) list \<times> nat \<times> heap_state" where
  "sweep st0 =
     (let st = st0\<lparr>open_span := replicate NUM_SIZE_CLASSES None,
                   partial_spans := map (\<lambda>_. []) (partial_spans st0)\<rparr>;
          w0 = \<lparr>sw_heap = st, sw_kept = replicate NUM_SIZE_CLASSES False, sw_detached = [], sw_reclaimed = 0\<rparr>
      in case sweep_spans [0..<length (spans st)] w0 of
           Inl e \<Rightarrow> Inl e
         | Inr w \<Rightarrow>
             (case sweep_large (large (sw_heap w)) of
                Inl e \<Rightarrow> Inl e
              | Inr (survivors, det, n) \<Rightarrow>
                  Inr (sw_detached w @ det, sw_reclaimed w + n,
                    (sw_heap w)\<lparr>large := survivors, large_index_dirty := True\<rparr>)))"

section \<open>The collection cycle\<close>

text \<open>What \<open>collect\<close> does under the state lock.\<close>

definition collect_locked ::
  "addr list \<Rightarrow> heap_state \<Rightarrow> (gc_error + pending_finalizer list \<times> (addr \<times> layout) list \<times> nat \<times> heap_state) option" where
  "collect_locked root_values st0 =
     and_then (Some (mark_pointers root_values (prepare_large_index st0))) (\<lambda>st1.
     and_then (Some (mark_pointers (pending_finalizer_roots st1) st1)) (\<lambda>st2.
     and_then (drain_marks st2) (\<lambda>st3.
       let pending = collect_pending_finalizers st3 in
       and_then
         (if pending = [] then Some (Inr st3)
          else and_then (Some (mark_pointers (map pf_start pending) st3)) (\<lambda>st4.
               and_then (drain_marks st4) (\<lambda>st5.
               and_then (Some (set_all_finalized pending st5)) (\<lambda>st6.
                 Some (Inr (st6\<lparr>pending_finalizer_roots := pending_finalizer_roots st6 @ map pf_start pending\<rparr>))))))
         (\<lambda>st7. Some (case sweep st7 of
            Inl e \<Rightarrow> Inl e
          | Inr (detached, reclaimed, st8) \<Rightarrow> Inr (pending, detached, reclaimed, st8))))))"

definition remove_root :: "addr \<Rightarrow> addr list \<Rightarrow> addr list" where
  "remove_root a roots = (case position_of (\<lambda>r. r = a) roots of None \<Rightarrow> roots | Some i \<Rightarrow> swap_remove i roots)"

definition collect :: "addr list \<Rightarrow> (nat \<Rightarrow> addr \<Rightarrow> heap \<Rightarrow> heap) \<Rightarrow> heap \<Rightarrow> (gc_error + heap) option" where
  "collect root_values run_fin h =
     and_then (collect_locked root_values (hstate h)) (\<lambda>(pending, unreachable, reclaimed, st).
       let h1 = fold (\<lambda>e. run_fin (pf_finalize e) (pf_start e)) pending (h\<lparr>hstate := st\<rparr>);
           h2 = h1\<lparr>hstate := (hstate h1)\<lparr>pending_finalizer_roots :=
                  fold remove_root (map pf_start pending) (pending_finalizer_roots (hstate h1))\<rparr>\<rparr>
       in Some (Inr (h2\<lparr>live_bytes := live_bytes h2 - word_of_nat reclaimed,
                        bytes_since_collect := bytes_since_collect h2 - bytes_since_collect h\<rparr>)))"

end
