(* ===== verification/Gc_Sweep.thy ===== *)
theory Gc_Sweep
  imports Gc_Collect
begin

text \<open>
  Correctness of the sweep: after the mark phase, the surviving objects are exactly the marked and
  the young ones, nothing else of the heap changes, the invariant holds again with no marks left,
  every detached block is owned by no surviving object, and the reclaimed byte count is the
  decrease of the heap's size.
\<close>

section \<open>One span\<close>

lemma span_kept:
  assumes core: "span_core s" and marks: "span_marks s"
  shows "bit_get (keep_bits s) k \<longleftrightarrow> bit_get (mark_bits s) k \<or> bit_get (young_bits s) k"
    "slots_of (keep_bits s) \<subseteq> slots_of (alloc_bits s)" "length (keep_bits s) = bitmap_words (nelems s)"
    "freed_count s + bitmap_count (keep_bits s) = live_count s"
proof -
  have len: "length (alloc_bits s) = bitmap_words (nelems s)" "length (young_bits s) = bitmap_words (nelems s)"
    "length (mark_bits s) = bitmap_words (nelems s)"
    and sub: "slots_of (mark_bits s) \<subseteq> slots_of (alloc_bits s)" "slots_of (young_bits s) \<subseteq> slots_of (alloc_bits s)"
    and live: "live_count s = card (slots_of (alloc_bits s))"
    using core marks by (auto simp: span_core_def span_marks_def)
  show lk: "length (keep_bits s) = bitmap_words (nelems s)" by (simp add: keep_bits_def len)
  have keep: "bit_get (keep_bits s) k \<longleftrightarrow> bit_get (mark_bits s) k \<or> bit_get (young_bits s) k" for k
    using sub(2) by (auto simp: keep_bits_def bit_get_ops len slots_of_def)
  then show "bit_get (keep_bits s) k \<longleftrightarrow> bit_get (mark_bits s) k \<or> bit_get (young_bits s) k" .
  show ka: "slots_of (keep_bits s) \<subseteq> slots_of (alloc_bits s)" using keep sub by (auto simp: slots_of_def)
  have "slots_of (bm_andnot (alloc_bits s) (keep_bits s)) = slots_of (alloc_bits s) - slots_of (keep_bits s)"
    using len lk by (auto simp: slots_of_def bit_get_ops)
  then have "freed_count s = card (slots_of (alloc_bits s)) - card (slots_of (keep_bits s))"
    using ka by (simp add: freed_count_def bitmap_count_card card_Diff_subset)
  then show "freed_count s + bitmap_count (keep_bits s) = live_count s"
    using card_mono [OF finite_slots ka] live by (simp add: bitmap_count_card)
qed

lemma span_swept_ok:
  assumes core: "span_core s" and marks: "span_marks s"
  shows "span_core (span_swept s)" "span_marks (span_swept s)" "slots_of (mark_bits (span_swept s)) = {}"
    "slots_of (scan_bits (span_swept s)) = {}" "\<not> on_queue (span_swept s)"
  using core marks span_kept [OF core marks]
  by (auto simp: span_core_def span_marks_def span_swept_def Let_def bitmap_count_card)

lemma span_swept_simps [simp]:
  "base (span_swept s) = base s" "elem_size (span_swept s) = elem_size s" "nelems (span_swept s) = nelems s"
  "span_class (span_swept s) = span_class s" "alloc_bits (span_swept s) = keep_bits s"
  "type_ids (span_swept s) = type_ids s" "slot_address (span_swept s) k = slot_address s k"
  "zeroed_watermark (span_swept s) = zeroed_watermark s" "finalized_bits (span_swept s) = finalized_bits s"
  "live_count (span_swept s) = bitmap_count (keep_bits s)"
  by (simp_all add: span_swept_def Let_def slot_address_def)

section \<open>The loop over the spans\<close>

definition span_bytes :: "span option list \<Rightarrow> nat" where
  "span_bytes ss = sum_list (map (\<lambda>so. case so of None \<Rightarrow> 0 | Some s \<Rightarrow> live_count s * elem_size s) ss)"

definition swept_at :: "span option \<Rightarrow> span option \<Rightarrow> bool" where
  "swept_at so so' \<longleftrightarrow>
     (case so of
        None \<Rightarrow> so' = None
      | Some s \<Rightarrow> so' = Some (span_swept s) \<or> so' = None \<and> slots_of (keep_bits s) = {})"

definition sweep_frame :: "heap_state \<Rightarrow> heap_state \<Rightarrow> bool" where
  "sweep_frame h st \<longleftrightarrow> types h = types st \<and> large h = large st \<and> large_index h = large_index st \<and>
     large_index_dirty h = large_index_dirty st \<and> open_span h = open_span st \<and> span_queue h = span_queue st \<and>
     large_queue h = large_queue st \<and> pending_finalizer_roots h = pending_finalizer_roots st \<and>
     mem h = mem st \<and> sys_alloc h = sys_alloc st"

lemma sweep_frame_simps [simp]:
  "sweep_frame (h\<lparr>spans := a\<rparr>) st = sweep_frame h st" "sweep_frame (h\<lparr>span_base_index := b\<rparr>) st = sweep_frame h st"
  "sweep_frame (h\<lparr>span_slots_free := f\<rparr>) st = sweep_frame h st" "sweep_frame (h\<lparr>partial_spans := p\<rparr>) st = sweep_frame h st"
  by (simp_all add: sweep_frame_def)

definition sweep_inv :: "heap_state \<Rightarrow> nat \<Rightarrow> sweep_state \<Rightarrow> bool" where
  "sweep_inv st n w \<longleftrightarrow>
     (let h = sw_heap w in
      length (spans h) = length (spans st) \<and>
      (\<forall>i \<ge> n. span_at (spans h) i = span_at (spans st) i) \<and>
      (\<forall>i < n. swept_at (span_at (spans st) i) (span_at (spans h) i)) \<and>
      index_ok (spans h) (span_base_index h) \<and> free_ok (spans h) (span_slots_free h) \<and>
      classes_ok (spans h) (open_span h) (partial_spans h) \<and>
      (\<forall>c < NUM_SIZE_CLASSES. \<forall>i \<in> set (partial_spans h ! c). i < n) \<and>
      sweep_frame h st \<and>
      length (sw_kept w) = NUM_SIZE_CLASSES \<and>
      (\<forall>d \<in> set (sw_detached w). snd d = span_layout \<and>
         (\<exists>i < n. \<exists>s. span_at (spans st) i = Some s \<and> base s = fst d \<and> span_at (spans h) i = None)) \<and>
      sw_reclaimed w + span_bytes (spans h) = span_bytes (spans st))"

lemma span_bytes_update:
  assumes "i < length ss"
  shows "span_bytes (ss[i := x]) + (case ss ! i of None \<Rightarrow> 0 | Some s \<Rightarrow> live_count s * elem_size s) =
    span_bytes ss + (case x of None \<Rightarrow> 0 | Some s \<Rightarrow> live_count s * elem_size s)"
proof -
  let ?f = "\<lambda>so. case so of None \<Rightarrow> 0 | Some s \<Rightarrow> live_count s * elem_size s"
  have "sum_list (map ?f (ss[i := x])) = sum_list (map ?f ss) + ?f x - ?f (ss ! i)"
    using assms by (simp add: map_update sum_list_update)
  moreover have "?f (ss ! i) \<le> sum_list (map ?f ss)"
    using assms by (intro member_le_sum_list) (auto simp: image_iff intro!: bexI [of _ "ss ! i"])
  ultimately show ?thesis by (simp add: span_bytes_def)
qed

lemma sweep_invD:
  assumes "sweep_inv st n w"
  shows "length (spans (sw_heap w)) = length (spans st)"
    "\<And>i. n \<le> i \<Longrightarrow> span_at (spans (sw_heap w)) i = span_at (spans st) i"
    "\<And>i. i < n \<Longrightarrow> swept_at (span_at (spans st) i) (span_at (spans (sw_heap w)) i)"
    "index_ok (spans (sw_heap w)) (span_base_index (sw_heap w))"
    "free_ok (spans (sw_heap w)) (span_slots_free (sw_heap w))"
    "classes_ok (spans (sw_heap w)) (open_span (sw_heap w)) (partial_spans (sw_heap w))"
    "\<And>c i. c < NUM_SIZE_CLASSES \<Longrightarrow> i \<in> set (partial_spans (sw_heap w) ! c) \<Longrightarrow> i < n"
    "sweep_frame (sw_heap w) st"
    "length (sw_kept w) = NUM_SIZE_CLASSES"
    "\<And>d. d \<in> set (sw_detached w) \<Longrightarrow> snd d = span_layout \<and>
         (\<exists>i < n. \<exists>s. span_at (spans st) i = Some s \<and> base s = fst d \<and> span_at (spans (sw_heap w)) i = None)"
    "sw_reclaimed w + span_bytes (spans (sw_heap w)) = span_bytes (spans st)"
  using assms by (simp_all add: sweep_inv_def Let_def)

lemma classes_ok_push:
  assumes "classes_ok ss op ps" "class_span ss c i" "c < NUM_SIZE_CLASSES"
  shows "classes_ok ss op (ps[c := ps ! c @ [i]])"
  using assms by (auto simp: classes_ok_def nth_list_update)

text \<open>A span that stays, with or without an entry in the partial list.\<close>

lemma sweep_keep_inv:
  assumes inv: "sweep_inv st i w" and at: "span_at (spans st) i = Some s"
    and core: "span_core s" and marks: "span_marks s"
    and ps: "ps = partial_spans (sw_heap w) \<or> ps = (partial_spans (sw_heap w))[span_class s := partial_spans (sw_heap w) ! span_class s @ [i]]"
    and kept: "length kept = NUM_SIZE_CLASSES"
  shows "sweep_inv st (Suc i) (w\<lparr>sw_heap := (sw_heap w)\<lparr>spans := (spans (sw_heap w))[i := Some (span_swept s)], partial_spans := ps\<rparr>,
    sw_kept := kept, sw_reclaimed := sw_reclaimed w + freed_count s * elem_size s\<rparr>)"
proof -
  let ?h = "sw_heap w" and ?s = "span_swept s"
  let ?ss = "(spans ?h)[i := Some ?s]"
  note D = sweep_invD [OF inv]
  have hat: "span_at (spans ?h) i = Some s" using D(2) [of i] at by simp
  have i: "i < length (spans ?h)" "spans ?h ! i = Some s" using span_at_SomeD [OF hat] by auto
  have upd: "span_at ?ss j = (if j = i then Some ?s else span_at (spans ?h) j)" for j using i by (simp add: span_at_update)
  have c: "span_class s < NUM_SIZE_CLASSES" using core by (simp add: span_core_def)
  have idx: "index_ok ?ss (span_base_index ?h)" "free_ok ?ss (span_slots_free ?h)" "classes_ok ?ss (open_span ?h) (partial_spans ?h)"
    using D(4-6) by (simp_all add: update_span_indices [OF hat])
  have "class_span ?ss (span_class s) i" by (simp add: class_span_def upd)
  then have cls: "classes_ok ?ss (open_span ?h) ps" using ps idx(3) classes_ok_push c by auto
  have lp: "length (partial_spans ?h) = NUM_SIZE_CLASSES" using D(6) by (simp add: classes_ok_def)
  have part: "j < Suc i" if "d < NUM_SIZE_CLASSES" "j \<in> set (ps ! d)" for d j
    using ps that D(7) [OF that(1)] lp c by (auto simp: nth_list_update less_Suc_eq split: if_splits)
  have swept: "swept_at (span_at (spans st) j) (span_at ?ss j)" if "j < Suc i" for j
    using that at D(3) [of j] by (auto simp: upd swept_at_def less_Suc_eq)
  have bytes: "sw_reclaimed w + freed_count s * elem_size s + span_bytes ?ss = span_bytes (spans st)"
  proof -
    have "span_bytes ?ss + live_count s * elem_size s = span_bytes (spans ?h) + bitmap_count (keep_bits s) * elem_size s"
      using span_bytes_update [OF i(1), of "Some ?s"] i(2) by simp
    moreover have "live_count s * elem_size s = freed_count s * elem_size s + bitmap_count (keep_bits s) * elem_size s"
      using span_kept(4) [OF core marks] by (metis add_mult_distrib)
    ultimately show ?thesis using D(11) by simp
  qed
  have det: "snd d = span_layout \<and> (\<exists>j < Suc i. \<exists>s. span_at (spans st) j = Some s \<and> base s = fst d \<and> span_at ?ss j = None)"
    if "d \<in> set (sw_detached w)" for d
    using D(10) [OF that] by (auto simp: upd intro!: less_SucI)
  show ?thesis
    unfolding sweep_inv_def Let_def
    using D(1,2) idx cls part swept bytes D(8) kept det by (auto simp: upd)
qed

text \<open>A span that is empty while its class already keeps one: it is detached.\<close>

lemma detach_indices:
  assumes at: "span_at (spans h) i = Some s" and idx: "index_ok (spans h) (span_base_index h)"
    and free: "free_ok (spans h) (span_slots_free h)"
  shows "index_ok ((spans h)[i := None]) (span_base_index (detach_span i (base s) h))"
    "free_ok ((spans h)[i := None]) (span_slots_free h @ [i])"
proof -
  let ?idx = "span_base_index h"
  have i: "i < length (spans h)" "spans h ! i = Some s" using span_at_SomeD [OF at] by auto
  have upd: "span_at ((spans h)[i := None]) j = (if j = i then None else span_at (spans h) j)" for j
    using i by (simp add: span_at_update)
  have srt: "sorted (map fst ?idx)" "distinct (map fst ?idx)" "set ?idx = {(base s, i) |i s. span_at (spans h) i = Some s}"
    using idx by (auto simp: index_ok_def)
  have "(base s, i) \<in> set ?idx" using srt(3) at by blast
  then obtain pos where pos: "binary_search_by_key (base s) fst ?idx = Some pos"
    using binary_search_None [OF _ srt(1), of "base s"] by (cases "binary_search_by_key (base s) fst ?idx") force+
  note p = binary_search_Some [OF pos]
  have pi: "?idx ! pos = (base s, i)"
    using p srt(2) \<open>(base s, i) \<in> set ?idx\<close> by (metis eq_key_imp_eq_value nth_mem prod.collapse)
  have dis: "distinct ?idx" using srt(2) by (simp add: distinct_map)
  have "set (remove_at pos ?idx) = {(base t, j) |j t. span_at ((spans h)[i := None]) j = Some t}"
  proof (intro set_eqI)
    fix e :: "addr \<times> nat"
    obtain a j where e: "e = (a, j)" by (cases e)
    have "e \<in> set (remove_at pos ?idx) \<longleftrightarrow> (\<exists>t. a = base t \<and> span_at (spans h) j = Some t) \<and> e \<noteq> (base s, i)"
      using set_remove_at_distinct [OF dis p(1)] by (auto simp: pi srt(3) e)
    also have "\<dots> \<longleftrightarrow> e \<in> {(base t, j) |j t. span_at ((spans h)[i := None]) j = Some t}"
      using at by (auto simp: e upd)
    finally show "e \<in> set (remove_at pos ?idx) \<longleftrightarrow> e \<in> {(base t, j) |j t. span_at ((spans h)[i := None]) j = Some t}" .
  qed
  moreover have "sorted (map fst (remove_at pos ?idx))" "distinct (map fst (remove_at pos ?idx))"
    using sorted_wrt_remove_at srt(1) distinct_remove_at [OF srt(2)] by (simp_all add: remove_at_map)
  ultimately show "index_ok ((spans h)[i := None]) (span_base_index (detach_span i (base s) h))"
    by (simp add: index_ok_def detach_span_def pos)
  show "free_ok ((spans h)[i := None]) (span_slots_free h @ [i])"
    using free i by (auto simp: free_ok_def nth_list_update)
qed

lemma sweep_detach_inv:
  assumes inv: "sweep_inv st i w" and at: "span_at (spans st) i = Some s"
    and core: "span_core s" and marks: "span_marks s" and dead: "bitmap_count (keep_bits s) = 0"
    and op: "open_span st = replicate NUM_SIZE_CLASSES None"
  shows "sweep_inv st (Suc i) (w\<lparr>sw_heap := detach_span i (base s) ((sw_heap w)\<lparr>spans := (spans (sw_heap w))[i := Some (span_swept s)]\<rparr>),
    sw_detached := sw_detached w @ [(base s, span_layout)], sw_reclaimed := sw_reclaimed w + freed_count s * elem_size s\<rparr>)"
proof -
  let ?h = "sw_heap w"
  let ?h1 = "?h\<lparr>spans := (spans ?h)[i := Some (span_swept s)]\<rparr>"
  let ?ss = "(spans ?h)[i := None]"
  note D = sweep_invD [OF inv]
  have hat: "span_at (spans ?h) i = Some s" using D(2) [of i] at by simp
  have i: "i < length (spans ?h)" "spans ?h ! i = Some s" using span_at_SomeD [OF hat] by auto
  have hat1: "span_at (spans ?h1) i = Some (span_swept s)" using i by (simp add: span_at_update)
  have idx1: "index_ok (spans ?h1) (span_base_index ?h1)" "free_ok (spans ?h1) (span_slots_free ?h1)"
    using D(4,5) by (simp_all add: update_span_indices [OF hat])
  have idx: "index_ok ?ss (span_base_index (detach_span i (base s) ?h1))" "free_ok ?ss (span_slots_free ?h @ [i])"
    using detach_indices [OF hat1 idx1] by simp_all
  have upd: "span_at ?ss j = (if j = i then None else span_at (spans ?h) j)" for j using i by (simp add: span_at_update)
  have cls: "classes_ok ?ss (open_span ?h) (partial_spans ?h)"
  proof -
    have "class_span ?ss c j" if "c < NUM_SIZE_CLASSES" "j \<in> set (partial_spans ?h ! c)" for c j
      using D(6) that D(7) [OF that] by (auto simp: classes_ok_def class_span_def upd)
    moreover have "open_span ?h = replicate NUM_SIZE_CLASSES None" using D(8) op by (simp add: sweep_frame_def)
    ultimately show ?thesis using D(6) by (simp add: classes_ok_def)
  qed
  have swept: "swept_at (span_at (spans st) j) (span_at ?ss j)" if "j < Suc i" for j
    using that at D(3) [of j] dead by (auto simp: upd swept_at_def less_Suc_eq bitmap_count_card)
  have bytes: "sw_reclaimed w + freed_count s * elem_size s + span_bytes ?ss = span_bytes (spans st)"
    using span_bytes_update [OF i(1), of None] i(2) span_kept(4) [OF core marks] dead D(11) by simp
  have part: "j < Suc i" if "c < NUM_SIZE_CLASSES" "j \<in> set (partial_spans ?h ! c)" for c j
    using D(7) [OF that] by simp
  have det: "snd d = span_layout \<and> (\<exists>j < Suc i. \<exists>s. span_at (spans st) j = Some s \<and> base s = fst d \<and> span_at ?ss j = None)"
    if "d \<in> set (sw_detached w @ [(base s, span_layout)])" for d
  proof (cases "d = (base s, span_layout)")
    case True
    then show ?thesis using at by (auto simp: upd intro!: exI [of _ i])
  next
    case False
    then have "d \<in> set (sw_detached w)" using that by simp
    from D(10) [OF this] show ?thesis by (auto simp: upd intro: less_SucI)
  qed
  have flds: "spans (detach_span i (base s) ?h1) = ?ss" "open_span (detach_span i (base s) ?h1) = open_span ?h"
    "partial_spans (detach_span i (base s) ?h1) = partial_spans ?h" "sweep_frame (detach_span i (base s) ?h1) st"
    "span_slots_free (detach_span i (base s) ?h1) = span_slots_free ?h @ [i]"
    using D(8) by (simp_all add: detach_span_def)
  show ?thesis
    unfolding sweep_inv_def Let_def
    using D(1,2,9) idx cls part swept bytes det flds by (auto simp: upd)
qed

lemma sweep_updates_same:
  "h\<lparr>spans := x, partial_spans := partial_spans h\<rparr> = h\<lparr>spans := x\<rparr>"
  "w\<lparr>sw_heap := a, sw_kept := sw_kept w, sw_reclaimed := r\<rparr> = w\<lparr>sw_heap := a, sw_reclaimed := r\<rparr>"
  for h :: heap_state and w :: sweep_state
  by (cases h, simp) (cases w, simp)

lemma sweep_span_spec:
  assumes inv: "sweep_inv st i w" and core: "spans_ok (spans st)" and marks: "marks_ok (spans st)"
    and op: "open_span st = replicate NUM_SIZE_CLASSES None"
  shows "\<exists>w'. sweep_span i w = Inr w' \<and> sweep_inv st (Suc i) w'"
proof (cases "span_at (spans st) i")
  case None
  note D = sweep_invD [OF inv]
  have "span_at (spans (sw_heap w)) i = None" using D(2) [of i] None by simp
  moreover have "sweep_inv st (Suc i) w"
    unfolding sweep_inv_def Let_def
    using D(1,2,4-6,8,9,11) D(3,7,10) None calculation
    by (auto simp: less_Suc_eq swept_at_def) (metis less_Suc_eq)+
  ultimately show ?thesis by (simp add: sweep_span_def)
next
  case (Some s)
  note D = sweep_invD [OF inv]
  have hat: "span_at (spans (sw_heap w)) i = Some s" using D(2) [of i] Some by simp
  have sc: "span_core s" "span_marks s" using core marks Some by (auto simp: spans_ok_def marks_ok_def)
  have c: "span_class s < length (sw_kept w)" "span_class s < length (partial_spans (sw_heap w))"
    using sc(1) D(6,9) by (auto simp: span_core_def classes_ok_def)
  note keep = sweep_keep_inv [OF inv Some sc]
  show ?thesis
  proof (cases "bitmap_count (keep_bits s) = 0 \<and> sw_kept w ! span_class s")
    case True
    then show ?thesis using hat c sweep_detach_inv [OF inv Some sc _ op] by (simp add: sweep_span_def Let_def)
  next
    case False
    then show ?thesis
      using hat c keep [OF disjI1 [OF refl] D(9)] keep [OF disjI2 [OF refl] D(9)]
        keep [OF disjI2 [OF refl], of "(sw_kept w)[span_class s := True]"] D(9)
      by (auto simp: sweep_span_def Let_def push_partial_def sweep_updates_same)
  qed
qed

lemma sweep_spans_spec:
  assumes "spans_ok (spans st)" "marks_ok (spans st)" "open_span st = replicate NUM_SIZE_CLASSES None"
  shows "sweep_inv st n w \<Longrightarrow> n \<le> m \<Longrightarrow> \<exists>w'. sweep_spans [n..<m] w = Inr w' \<and> sweep_inv st m w'"
proof (induction "m - n" arbitrary: n w)
  case 0
  then show ?case by simp
next
  case (Suc d)
  then have "n < m" by simp
  then have l: "[n..<m] = n # [Suc n..<m]" by (simp add: upt_conv_Cons)
  obtain w1 where w1: "sweep_span n w = Inr w1" "sweep_inv st (Suc n) w1"
    using sweep_span_spec [OF Suc.prems(1) assms] by blast
  have "d = m - Suc n" "Suc n \<le> m" using Suc.hyps(2) \<open>n < m\<close> by auto
  then show ?case using Suc.hyps(1) [OF _ w1(2)] w1(1) by (simp add: l)
qed

section \<open>Large objects\<close>

definition large_reset :: "large_object \<Rightarrow> large_object" where
  "large_reset l = l\<lparr>color := White, young := False\<rparr>"

lemma sweep_large_spec:
  assumes "\<forall>l \<in> set ls. 0 < lo_size l \<and> lo_size l < 2 ^ 63 - 15"
  shows "sweep_large ls = Inr (map large_reset (filter large_kept ls),
     map (\<lambda>l. (lo_start l, (lo_size l, DEFAULT_HEAP_ALIGNMENT))) (filter (\<lambda>l. \<not> large_kept l) ls),
     sum_list (map lo_size (filter (\<lambda>l. \<not> large_kept l) ls)))"
  using assms
proof (induction ls)
  case (Cons l ls)
  have m: "max (lo_size l) 1 = lo_size l" using Cons.prems by auto
  have "large_layout (lo_size l) = Some (lo_size l, DEFAULT_HEAP_ALIGNMENT)"
    using Cons.prems by (simp add: large_layout_def m DEFAULT_HEAP_ALIGNMENT_def)
  then show ?case using Cons by (simp add: large_reset_def)
qed simp

section \<open>The sweep as a whole\<close>

definition survives :: "heap_state \<Rightarrow> object_location \<Rightarrow> bool" where
  "survives st loc \<longleftrightarrow> is_marked st loc \<or> obj_young st loc"

text \<open>The content of the heap: start, size, type and finalized flag of each object.\<close>

definition heap_objects :: "heap_state \<Rightarrow> object_location set \<Rightarrow> (addr \<times> nat \<times> nat \<times> bool) set" where
  "heap_objects st L = {(start, sz, tid, obj_finalized st loc) |loc start sz tid. loc \<in> L \<and> obj_at st loc = Some (start, sz, tid)}"

definition heap_bytes :: "heap_state \<Rightarrow> nat" where
  "heap_bytes st = span_bytes (spans st) + sum_list (map lo_size (large st))"

definition sweep_result :: "heap_state \<Rightarrow> (addr \<times> layout) list \<Rightarrow> nat \<Rightarrow> heap_state \<Rightarrow> bool" where
  "sweep_result st det n st' \<longleftrightarrow>
     heap_wf st' \<and> heap_objects st' UNIV = heap_objects st {loc. survives st loc} \<and>
     (\<forall>loc. \<not> obj_young st' loc) \<and> n + heap_bytes st' = heap_bytes st \<and>
     mem st' = mem st \<and> types st' = types st \<and> sys_alloc st' = sys_alloc st \<and>
     pending_finalizer_roots st' = pending_finalizer_roots st \<and>
     (\<forall>d \<in> set det. \<forall>loc x. obj_range st' loc x \<longrightarrow> x < fst d \<or> fst d + fst (snd d) \<le> x)"

definition swept_heap :: "heap_state \<Rightarrow> heap_state \<Rightarrow> bool" where
  "swept_heap st h \<longleftrightarrow>
     (\<forall>i. swept_at (span_at (spans st) i) (span_at (spans h) i)) \<and>
     index_ok (spans h) (span_base_index h) \<and> free_ok (spans h) (span_slots_free h) \<and>
     classes_ok (spans h) (open_span h) (partial_spans h) \<and>
     large h = map large_reset (filter large_kept (large st)) \<and> large_index_dirty h \<and>
     types h = types st \<and> mem h = mem st \<and> span_queue h = span_queue st \<and> large_queue h = large_queue st"

lemma swept_spanD:
  assumes "swept_heap st h" "span_at (spans h) i = Some t"
  shows "\<exists>s. span_at (spans st) i = Some s \<and> t = span_swept s"
proof -
  have "swept_at (span_at (spans st) i) (Some t)" using assms unfolding swept_heap_def by metis
  then show ?thesis by (auto simp: swept_at_def split: option.splits)
qed

lemma large_ok_pairs:
  "large_ok ss ls \<Longrightarrow> sorted_wrt (\<lambda>l l'. disj (lo_start l, lo_size l) (lo_start l', lo_size l')) ls"
  by (simp add: large_ok_def sorted_wrt_iff_nth_less)

lemma large_reset_simps [simp]:
  "lo_start (large_reset l) = lo_start l" "lo_size (large_reset l) = lo_size l" "lo_type_id (large_reset l) = lo_type_id l"
  "color (large_reset l) = White" "\<not> young (large_reset l)" "finalized (large_reset l) = finalized l"
  by (simp_all add: large_reset_def)

lemma swept_heap_wf:
  assumes core: "heap_core st" and marks: "marks_ok (spans st)" and q: "queues_empty st" and sw: "swept_heap st h"
  shows "heap_wf h"
proof -
  have span: "\<exists>s. span_at (spans st) i = Some s \<and> span_core s \<and> span_marks s \<and> t = span_swept s" if "span_at (spans h) i = Some t" for i t
    using swept_spanD [OF sw that] heap_coreD(1) [OF core] marks by (auto simp: spans_ok_def marks_ok_def)
  have eqs: "large h = map large_reset (filter large_kept (large st))" "types h = types st" "mem h = mem st"
    "large_index_dirty h" "span_queue h = span_queue st" "large_queue h = large_queue st"
    using sw by (auto simp: swept_heap_def)
  have "spans_ok (spans h)" using span span_swept_ok(1) by (fastforce simp: spans_ok_def)
  moreover have mk: "marks_ok (spans h)" using span span_swept_ok(2) by (fastforce simp: marks_ok_def)
  moreover have "large_ok (spans h) (large h)"
  proof -
    have "sorted_wrt (\<lambda>l l'. disj (lo_start l, lo_size l) (lo_start l', lo_size l')) (large h)"
      using large_ok_pairs [OF heap_coreD(5) [OF core]] by (simp add: eqs sorted_wrt_map sorted_wrt_filter)
    moreover have "disj (base t, SPAN_BYTES) (lo_start l, lo_size l)" if "span_at (spans h) i = Some t" "l \<in> set (large h)" for i t l
      using span [OF that(1)] that(2) heap_coreD(5) [OF core] by (auto simp: eqs large_ok_def)
    ultimately show ?thesis
      using heap_coreD(5) [OF core] by (auto simp: large_ok_def eqs sorted_wrt_iff_nth_less)
  qed
  moreover have "types_ok (types h) (spans h) (large h)"
  proof -
    have "type_lookup (types st) (type_ids t ! k) \<noteq> None" if t: "span_at (spans h) i = Some t" and b: "bit_get (alloc_bits t) k" for i t k
    proof -
      obtain s where s: "span_at (spans st) i = Some s" "span_core s" "span_marks s" "t = span_swept s" using span [OF t] by blast
      then have "bit_get (alloc_bits s) k" using b span_kept(2) [OF s(2,3)] by (auto simp: slots_of_def)
      then show ?thesis using s heap_coreD(7) [OF core] by (auto simp: types_ok_def)
    qed
    then show ?thesis using heap_coreD(7) [OF core] by (auto simp: types_ok_def eqs)
  qed
  moreover have "zero_ok (spans h) (mem h)"
    using heap_coreD(8) [OF core] span unfolding zero_ok_def eqs by (metis span_swept_simps(1,2,8))
  moreover have "quiet h"
    using q span span_swept_ok(3-5) by (fastforce simp: quiet_def queues_empty_def eqs)
  ultimately show ?thesis
    using sw eqs(4) by (simp add: heap_wf_def heap_core_def lindex_ok_def swept_heap_def)
qed

lemma heap_objects_split:
  "heap_objects st L =
     {(slot_address s k, elem_size s, type_ids s ! k, bit_get (finalized_bits s) k) |i s k.
        InSpan i k \<in> L \<and> span_at (spans st) i = Some s \<and> bit_get (alloc_bits s) k} \<union>
     (\<lambda>j. (lo_start (large st ! j), lo_size (large st ! j), lo_type_id (large st ! j), finalized (large st ! j))) `
        {j. InLarge j \<in> L \<and> j < length (large st)}" (is "?lhs = ?rhs")
proof (intro set_eqI iffI)
  fix x assume "x \<in> ?lhs"
  then obtain loc start sz tid where l: "x = (start, sz, tid, obj_finalized st loc)" "loc \<in> L" "obj_at st loc = Some (start, sz, tid)"
    by (auto simp: heap_objects_def)
  then show "x \<in> ?rhs"
    by (cases loc) (auto simp: obj_at_def obj_finalized_def image_iff split: option.splits if_splits)
next
  fix x assume "x \<in> ?rhs"
  then consider i s k where "x = (slot_address s k, elem_size s, type_ids s ! k, bit_get (finalized_bits s) k)"
      "InSpan i k \<in> L" "span_at (spans st) i = Some s" "bit_get (alloc_bits s) k"
    | j where "x = (lo_start (large st ! j), lo_size (large st ! j), lo_type_id (large st ! j), finalized (large st ! j))"
      "InLarge j \<in> L" "j < length (large st)" by auto
  then show "x \<in> ?lhs"
  proof cases
    case 1
    then show ?thesis by (force simp: heap_objects_def obj_at_def obj_finalized_def)
  next
    case 2
    then show ?thesis by (force simp: heap_objects_def obj_at_def obj_finalized_def)
  qed
qed

lemma swept_span_slot:
  assumes core: "heap_core st" and marks: "marks_ok (spans st)" and sw: "swept_heap st h"
  shows "(\<exists>t. span_at (spans h) i = Some t \<and> bit_get (alloc_bits t) k \<and> P t) \<longleftrightarrow>
    (\<exists>s. span_at (spans st) i = Some s \<and> bit_get (alloc_bits s) k \<and> survives st (InSpan i k) \<and> P (span_swept s))"
proof (cases "span_at (spans st) i")
  case None
  then show ?thesis using swept_spanD [OF sw] by force
next
  case (Some s)
  have sc: "span_core s" "span_marks s"
    using heap_coreD(1) [OF core] marks Some by (auto simp: spans_ok_def marks_ok_def)
  have sv: "survives st (InSpan i k) \<longleftrightarrow> bit_get (keep_bits s) k"
    using Some span_kept(1) [OF sc] by (simp add: survives_def is_marked_def obj_young_def)
  have ka: "bit_get (keep_bits s) k \<Longrightarrow> bit_get (alloc_bits s) k"
    using span_kept(2) [OF sc] by (auto simp: slots_of_def)
  have "swept_at (Some s) (span_at (spans h) i)" using sw Some unfolding swept_heap_def by metis
  then consider "span_at (spans h) i = Some (span_swept s)" | "span_at (spans h) i = None" "slots_of (keep_bits s) = {}"
    by (auto simp: swept_at_def)
  then show ?thesis using Some sv ka by cases (auto simp: slots_of_def)
qed

lemma large_image_filter:
  "(\<lambda>j. f (map g (filter P ls) ! j)) ` {j. j < length (map g (filter P ls))} =
   (\<lambda>j. f (g (ls ! j))) ` {j. P (ls ! j) \<and> j < length ls}"
proof -
  have "(\<lambda>j. f (map g (filter P ls) ! j)) ` {j. j < length (map g (filter P ls))} = f ` set (map g (filter P ls))"
    by (force simp: set_conv_nth)
  also have "\<dots> = (\<lambda>l. f (g l)) ` {l \<in> set ls. P l}" by auto
  also have "\<dots> = (\<lambda>j. f (g (ls ! j))) ` {j. P (ls ! j) \<and> j < length ls}" by (force simp: set_conv_nth)
  finally show ?thesis .
qed

lemma swept_objects:
  assumes core: "heap_core st" and marks: "marks_ok (spans st)" and sw: "swept_heap st h"
  shows "heap_objects h UNIV = heap_objects st {loc. survives st loc}"
proof -
  have sp: "{(slot_address s k, elem_size s, type_ids s ! k, bit_get (finalized_bits s) k) |i s k.
        span_at (spans h) i = Some s \<and> bit_get (alloc_bits s) k} =
      {(slot_address s k, elem_size s, type_ids s ! k, bit_get (finalized_bits s) k) |i s k.
        survives st (InSpan i k) \<and> span_at (spans st) i = Some s \<and> bit_get (alloc_bits s) k}"
  proof (intro set_eqI)
    fix x :: "addr \<times> nat \<times> nat \<times> bool"
    let ?P = "\<lambda>k s. x = (slot_address s k, elem_size s, type_ids s ! k, bit_get (finalized_bits s) k)"
    have "x \<in> {(slot_address s k, elem_size s, type_ids s ! k, bit_get (finalized_bits s) k) |i s k.
        span_at (spans h) i = Some s \<and> bit_get (alloc_bits s) k} \<longleftrightarrow>
        (\<exists>i k s. span_at (spans h) i = Some s \<and> bit_get (alloc_bits s) k \<and> ?P k s)" by blast
    also have "\<dots> \<longleftrightarrow> (\<exists>i k s. span_at (spans st) i = Some s \<and> bit_get (alloc_bits s) k \<and> survives st (InSpan i k) \<and> ?P k s)"
      unfolding swept_span_slot [OF core marks sw] by simp
    also have "\<dots> \<longleftrightarrow> x \<in> {(slot_address s k, elem_size s, type_ids s ! k, bit_get (finalized_bits s) k) |i s k.
        survives st (InSpan i k) \<and> span_at (spans st) i = Some s \<and> bit_get (alloc_bits s) k}" by blast
    finally show "x \<in> {(slot_address s k, elem_size s, type_ids s ! k, bit_get (finalized_bits s) k) |i s k.
        span_at (spans h) i = Some s \<and> bit_get (alloc_bits s) k} \<longleftrightarrow>
        x \<in> {(slot_address s k, elem_size s, type_ids s ! k, bit_get (finalized_bits s) k) |i s k.
        survives st (InSpan i k) \<and> span_at (spans st) i = Some s \<and> bit_get (alloc_bits s) k}" .
  qed
  let ?f = "\<lambda>l. (lo_start l, lo_size l, lo_type_id l, finalized l)"
  have lg: "large h = map large_reset (filter large_kept (large st))" using sw by (simp add: swept_heap_def)
  have "survives st (InLarge j) \<longleftrightarrow> large_kept (large st ! j)" if "j < length (large st)" for j
    using that by (simp add: survives_def is_marked_def obj_young_def large_kept_def)
  then have "{j. survives st (InLarge j) \<and> j < length (large st)} = {j. large_kept (large st ! j) \<and> j < length (large st)}"
    by auto
  then have "(\<lambda>j. ?f (large h ! j)) ` {j. j < length (large h)} =
      (\<lambda>j. ?f (large st ! j)) ` {j. survives st (InLarge j) \<and> j < length (large st)}"
    unfolding lg using large_image_filter [of ?f large_reset large_kept "large st"] by simp
  then show ?thesis unfolding heap_objects_split using sp by simp
qed

lemma sum_list_filter_split:
  "sum_list (map f (filter P xs)) + sum_list (map f (filter (\<lambda>x. \<not> P x) xs)) = (sum_list (map f xs) :: nat)"
  by (induction xs) simp_all

lemma swept_young: "heap_core st \<Longrightarrow> marks_ok (spans st) \<Longrightarrow> swept_heap st h \<Longrightarrow> \<not> obj_young h loc"
proof (cases loc)
  case (InLarge j)
  assume "swept_heap st h"
  then have "\<forall>l \<in> set (large h). \<not> young l" by (auto simp: swept_heap_def)
  then show ?thesis by (simp add: obj_young_def InLarge)
next
  case (InSpan i k)
  assume sw: "swept_heap st h"
  have "\<not> bit_get (young_bits t) k" if "span_at (spans h) i = Some t" for t
    using swept_spanD [OF sw that] by (auto simp: span_swept_def Let_def)
  then show ?thesis by (auto simp: obj_young_def InSpan split: option.splits)
qed

lemma swept_range:
  assumes core: "heap_core st" and marks: "marks_ok (spans st)" and sw: "swept_heap st h" and wf: "heap_core h"
    and r: "obj_range h loc x"
  shows "(\<exists>i s. span_at (spans st) i = Some s \<and> span_at (spans h) i \<noteq> None \<and> base s \<le> x \<and> x < base s + SPAN_BYTES) \<or>
    (\<exists>j < length (large st). large_kept (large st ! j) \<and> lo_start (large st ! j) \<le> x \<and> x < lo_start (large st ! j) + lo_size (large st ! j))"
proof (cases loc)
  case (InSpan i k)
  obtain t where t: "span_at (spans h) i = Some t" "base t \<le> x" "x < base t + SPAN_BYTES"
    using obj_range_in_span [OF wf r [unfolded InSpan]] by blast
  then show ?thesis using swept_spanD [OF sw t(1)] by fastforce
next
  case (InLarge j)
  note l = obj_range_in_large [OF r [unfolded InLarge]]
  have "large h ! j \<in> set (large h)" using l(1) by simp
  then obtain l' where "l' \<in> set (large st)" "large_kept l'" "large h ! j = large_reset l'"
    using sw by (auto simp: swept_heap_def)
  then show ?thesis using l by (auto simp: in_set_conv_nth)
qed

lemma detached_disjoint:
  assumes core: "heap_core st" and marks: "marks_ok (spans st)" and sw: "swept_heap st h" and wf: "heap_core h"
    and r: "obj_range h loc x"
  shows "span_at (spans st) i = Some s \<Longrightarrow> span_at (spans h) i = None \<Longrightarrow> x < base s \<or> base s + SPAN_BYTES \<le> x"
    "j < length (large st) \<Longrightarrow> \<not> large_kept (large st ! j) \<Longrightarrow>
       x < lo_start (large st ! j) \<or> lo_start (large st ! j) + lo_size (large st ! j) \<le> x"
proof -
  note cases = swept_range [OF assms]
  have ld: "disj (base s, SPAN_BYTES) (lo_start (large st ! j), lo_size (large st ! j))"
    if "span_at (spans st) i = Some s" "j < length (large st)" for i s j
    using heap_coreD(5) [OF core] that by (auto simp: large_ok_def)
  have ll: "disj (lo_start (large st ! a), lo_size (large st ! a)) (lo_start (large st ! b), lo_size (large st ! b))"
    if "a < length (large st)" "b < length (large st)" "a \<noteq> b" for a b
    using heap_coreD(5) [OF core] that unfolding large_ok_def by (metis disj_sym linorder_neqE_nat)
  show "x < base s \<or> base s + SPAN_BYTES \<le> x" if i: "span_at (spans st) i = Some s" "span_at (spans h) i = None"
    using cases
  proof
    assume "\<exists>i s. span_at (spans st) i = Some s \<and> span_at (spans h) i \<noteq> None \<and> base s \<le> x \<and> x < base s + SPAN_BYTES"
    then obtain k t where k: "span_at (spans st) k = Some t" "span_at (spans h) k \<noteq> None" "base t \<le> x" "x < base t + SPAN_BYTES" by blast
    then show ?thesis using spans_disjoint [OF core k(1) i(1)] i(2) by metis
  next
    assume "\<exists>j < length (large st). large_kept (large st ! j) \<and> lo_start (large st ! j) \<le> x \<and> x < lo_start (large st ! j) + lo_size (large st ! j)"
    then show ?thesis using ld [OF i(1)] by (force simp: disj_def)
  qed
  show "x < lo_start (large st ! j) \<or> lo_start (large st ! j) + lo_size (large st ! j) \<le> x"
    if j: "j < length (large st)" "\<not> large_kept (large st ! j)"
    using cases
  proof
    assume "\<exists>i s. span_at (spans st) i = Some s \<and> span_at (spans h) i \<noteq> None \<and> base s \<le> x \<and> x < base s + SPAN_BYTES"
    then show ?thesis using ld [OF _ j(1)] by (force simp: disj_def)
  next
    assume "\<exists>j < length (large st). large_kept (large st ! j) \<and> lo_start (large st ! j) \<le> x \<and> x < lo_start (large st ! j) + lo_size (large st ! j)"
    then obtain b where b: "b < length (large st)" "large_kept (large st ! b)" "lo_start (large st ! b) \<le> x"
      "x < lo_start (large st ! b) + lo_size (large st ! b)" by blast
    then have "b \<noteq> j" using j(2) by auto
    from ll [OF b(1) j(1) this] show ?thesis using b by (auto simp: disj_def)
  qed
qed

lemma sweep_loop_run:
  assumes core: "heap_core st" and marks: "marks_ok (spans st)"
  defines "st1 \<equiv> st\<lparr>open_span := replicate NUM_SIZE_CLASSES None, partial_spans := map (\<lambda>_. []) (partial_spans st)\<rparr>"
  defines "w0 \<equiv> \<lparr>sw_heap = st1, sw_kept = replicate NUM_SIZE_CLASSES False, sw_detached = [], sw_reclaimed = 0\<rparr>"
  shows "\<exists>w. sweep_spans [0..<length (spans st1)] w0 = Inr w \<and> sweep_inv st1 (length (spans st1)) w"
proof -
  have "length (partial_spans st) = NUM_SIZE_CLASSES" using heap_coreD(4) [OF core] by (simp add: classes_ok_def)
  then have "sweep_inv st1 0 w0"
    using heap_coreD(2,3) [OF core] by (simp add: sweep_inv_def w0_def st1_def classes_ok_def sweep_frame_def)
  moreover have "spans_ok (spans st1)" "marks_ok (spans st1)" "open_span st1 = replicate NUM_SIZE_CLASSES None"
    using heap_coreD(1) [OF core] marks by (simp_all add: st1_def)
  ultimately show ?thesis using sweep_spans_spec by blast
qed

lemma sweep_run:
  assumes core: "heap_core st" and marks: "marks_ok (spans st)"
  shows "\<exists>det n h. sweep st = Inr (det, n, h) \<and> swept_heap st h \<and> sys_alloc h = sys_alloc st \<and>
    pending_finalizer_roots h = pending_finalizer_roots st \<and> n + heap_bytes h = heap_bytes st \<and>
    (\<forall>d \<in> set det. (\<exists>i s. span_at (spans st) i = Some s \<and> span_at (spans h) i = None \<and> d = (base s, span_layout)) \<or>
       (\<exists>j < length (large st). \<not> large_kept (large st ! j) \<and>
          d = (lo_start (large st ! j), (lo_size (large st ! j), DEFAULT_HEAP_ALIGNMENT))))"
proof -
  let ?st = "st\<lparr>open_span := replicate NUM_SIZE_CLASSES None, partial_spans := map (\<lambda>_. []) (partial_spans st)\<rparr>"
  let ?w0 = "\<lparr>sw_heap = ?st, sw_kept = replicate NUM_SIZE_CLASSES False, sw_detached = [], sw_reclaimed = 0\<rparr>"
  obtain w where w: "sweep_spans [0..<length (spans ?st)] ?w0 = Inr w" "sweep_inv ?st (length (spans ?st)) w"
    using sweep_loop_run [OF core marks] by blast
  note D = sweep_invD [OF w(2)]
  have lg: "large (sw_heap w) = large st" using D(8) by (simp add: sweep_frame_def)
  let ?surv = "map large_reset (filter large_kept (large st))"
  let ?det = "map (\<lambda>l. (lo_start l, (lo_size l, DEFAULT_HEAP_ALIGNMENT))) (filter (\<lambda>l. \<not> large_kept l) (large st))"
  let ?n = "sum_list (map lo_size (filter (\<lambda>l. \<not> large_kept l) (large st)))"
  let ?h = "(sw_heap w)\<lparr>large := ?surv, large_index_dirty := True\<rparr>"
  have "\<forall>l \<in> set (large st). 0 < lo_size l \<and> lo_size l < 2 ^ 63 - 15" using heap_coreD(5) [OF core] by (simp add: large_ok_def)
  then have run: "sweep st = Inr (sw_detached w @ ?det, sw_reclaimed w + ?n, ?h)"
    using w(1) sweep_large_spec by (simp add: sweep_def Let_def lg)
  have "swept_at (span_at (spans st) i) (span_at (spans ?h) i)" for i
  proof (cases "i < length (spans st)")
    case True
    then show ?thesis using D(3) [of i] by simp
  next
    case False
    then show ?thesis using D(1) by (simp add: span_at_def swept_at_def)
  qed
  then have sw: "swept_heap st ?h" using D(4-6,8) by (simp add: swept_heap_def sweep_frame_def)
  have bytes: "sw_reclaimed w + ?n + heap_bytes ?h = heap_bytes st"
    using D(11) sum_list_filter_split [of lo_size large_kept "large st"] by (simp add: heap_bytes_def comp_def)
  have "(\<exists>i s. span_at (spans st) i = Some s \<and> span_at (spans ?h) i = None \<and> d = (base s, span_layout)) \<or>
       (\<exists>j < length (large st). \<not> large_kept (large st ! j) \<and>
          d = (lo_start (large st ! j), (lo_size (large st ! j), DEFAULT_HEAP_ALIGNMENT)))"
    if d: "d \<in> set (sw_detached w @ ?det)" for d
  proof (cases "d \<in> set (sw_detached w)")
    case True
    obtain i s where "snd d = span_layout" "span_at (spans st) i = Some s" "base s = fst d" "span_at (spans (sw_heap w)) i = None"
      using D(10) [OF True] by auto
    then have "span_at (spans st) i = Some s \<and> span_at (spans ?h) i = None \<and> d = (base s, span_layout)"
      by (simp add: prod_eq_iff)
    then show ?thesis by blast
  next
    case False
    then have "d \<in> set ?det" using d by simp
    then show ?thesis by (auto simp: in_set_conv_nth)
  qed
  then show ?thesis using run sw bytes D(8) by (simp add: sweep_frame_def)
qed

lemma sweep_ok:
  assumes core: "heap_core st" and marks: "marks_ok (spans st)" and q: "queues_empty st"
  shows "\<exists>det n h. sweep st = Inr (det, n, h) \<and> sweep_result st det n h"
proof -
  obtain det n h where r: "sweep st = Inr (det, n, h)" "swept_heap st h" "sys_alloc h = sys_alloc st"
    "pending_finalizer_roots h = pending_finalizer_roots st" "n + heap_bytes h = heap_bytes st"
    "\<And>d. d \<in> set det \<Longrightarrow> (\<exists>i s. span_at (spans st) i = Some s \<and> span_at (spans h) i = None \<and> d = (base s, span_layout)) \<or>
       (\<exists>j < length (large st). \<not> large_kept (large st ! j) \<and>
          d = (lo_start (large st ! j), (lo_size (large st ! j), DEFAULT_HEAP_ALIGNMENT)))"
    using sweep_run [OF core marks] by blast
  have wf: "heap_wf h" by (rule swept_heap_wf [OF core marks q r(2)])
  then have hc: "heap_core h" by (simp add: heap_wf_def)
  have "x < fst d \<or> fst d + fst (snd d) \<le> x" if "d \<in> set det" "obj_range h loc x" for d loc x
    using r(6) [OF that(1)] detached_disjoint [OF core marks r(2) hc that(2)]
    by (elim disjE exE conjE) (simp_all add: span_layout_def)
  then show ?thesis
    using r wf swept_objects [OF core marks r(2)] swept_young [OF core marks r(2)]
    by (auto simp: sweep_result_def swept_heap_def)
qed

end
