(* ===== verification/Gc_Cycle.thy ===== *)
theory Gc_Cycle
  imports Gc_Sweep
begin

text \<open>
  The collection cycle as a whole: what \<open>collect\<close> does under the lock, on a heap that satisfies the
  invariant, in terms of the object graph.  The objects that survive are those reachable from the
  roots, from the objects whose finalizers are running or are about to run, and the young ones.
\<close>

section \<open>Before marking\<close>

lemma heap_wf_mark_ok:
  assumes "heap_wf st"
  shows "mark_ok (prepare_large_index st)" "marked (prepare_large_index st) = {}" "scanned (prepare_large_index st) = {}"
proof -
  have w: "heap_core st" "marks_ok (spans st)" "quiet st" using assms by (auto simp: heap_wf_def)
  have sp: "\<not> on_queue s" "slots_of (mark_bits s) = {}" "slots_of (scan_bits s) = {}" if "span_at (spans st) i = Some s" for i s
    using w(3) that by (auto simp: quiet_def)
  have lg: "color (large st ! j) = White" if "j < length (large st)" for j using w(3) that by (simp add: quiet_def)
  have "queue_ok (prepare_large_index st)"
    using w(3) sp lg by (auto simp: queue_ok_def quiet_def)
  then show "mark_ok (prepare_large_index st)" using w heap_core_prepare by (simp add: mark_ok_def)
  show "marked (prepare_large_index st) = {}"
    using sp lg by (intro loc_set_eqI) (auto simp: is_marked_def slots_of_def split: option.splits)
  show "scanned (prepare_large_index st) = {}"
    using sp lg by (intro loc_set_eqI) (auto simp: is_scanned_def slots_of_def split: option.splits)
qed

text \<open>
  The mark phase alone: the roots are marked, the queues drained, and the marked objects are
  exactly those reachable from the objects the roots point into.
\<close>

lemma mark_phase:
  assumes "heap_wf st"
  defines "st0 \<equiv> prepare_large_index st"
  shows "\<exists>st1 st2. mark_pointers roots st0 = Inr st1 \<and> drain_marks st1 = Some (Inr st2) \<and>
    mark_inv st0 (located st0 roots) st2 \<and> queues_empty st2 \<and>
    marked st2 = reach (children st0) (located st0 roots) \<and> scanned st2 = marked st2"
proof -
  note ok = heap_wf_mark_ok [OF assms(1), folded st0_def]
  obtain st1 where m: "mark_pointers roots st0 = Inr st1" "mark_ext st0 (located st0 roots) st1"
    using mark_pointers_spec [OF ok(1)] by blast
  then have "mark_inv st0 (located st0 roots) st1"
    using ok(2,3) reach_base by (fastforce simp: mark_ext_def mark_inv_def)
  then show ?thesis using drain_marks_spec m(1) by blast
qed

lemma mark_pointers_append:
  "mark_pointers (ps @ qs) st = (case mark_pointers ps st of Inl e \<Rightarrow> Inl e | Inr st1 \<Rightarrow> mark_pointers qs st1)"
  by (induction ps arbitrary: st) (auto split: sum.split)

section \<open>The objects to finalize\<close>

definition has_finalizer :: "heap_state \<Rightarrow> nat \<Rightarrow> bool" where
  "has_finalizer st tid \<longleftrightarrow> (\<exists>info. type_info st tid = Some info \<and> ti_finalize info \<noteq> None)"

definition finalizable :: "heap_state \<Rightarrow> object_location set" where
  "finalizable st = {loc. \<exists>start sz tid. obj_at st loc = Some (start, sz, tid) \<and> \<not> is_marked st loc \<and>
     \<not> obj_young st loc \<and> \<not> obj_finalized st loc \<and> has_finalizer st tid}"

lemma pending_entry_Some:
  "pending_entry st loc start tid = Some e \<longleftrightarrow>
     (\<exists>info f. type_info st tid = Some info \<and> ti_finalize info = Some f \<and>
        e = \<lparr>pf_start = start, pf_finalize = f, pf_location = loc\<rparr>)"
  by (auto simp: pending_entry_def split: option.split)

lemma pending_entry_fields:
  "pending_entry st loc start tid = Some e \<Longrightarrow> pf_start e = start \<and> pf_location e = loc \<and>
     (\<exists>info. type_info st tid = Some info \<and> ti_finalize info = Some (pf_finalize e))"
  by (auto simp: pending_entry_Some)

definition span_dying :: "heap_state \<Rightarrow> nat \<Rightarrow> span \<Rightarrow> nat list" where
  "span_dying st i s = filter (\<lambda>k. has_finalizer st (type_ids s ! k)) (bitmap_positions (dead_bits s))"

lemma dead_bits_iff:
  assumes "span_core s" "span_marks s"
  shows "bit_get (dead_bits s) k \<longleftrightarrow>
    bit_get (alloc_bits s) k \<and> \<not> bit_get (mark_bits s) k \<and> \<not> bit_get (young_bits s) k \<and> \<not> bit_get (finalized_bits s) k"
  using assms by (simp add: dead_bits_def bit_get_ops span_core_def span_marks_def)

lemma pending_entry_None: "pending_entry st loc start tid = None \<longleftrightarrow> \<not> has_finalizer st tid"
  by (auto simp: pending_entry_def has_finalizer_def split: option.split)

lemma span_pending_set:
  assumes "span_core s" "span_marks s" "span_at (spans st) i = Some s"
  shows "e \<in> set (span_pending st (i, Some s)) \<longleftrightarrow>
    (\<exists>k. pf_location e = InSpan i k \<and> InSpan i k \<in> finalizable st \<and>
       pending_entry st (InSpan i k) (slot_address s k) (type_ids s ! k) = Some e)"
proof -
  have "e \<in> set (span_pending st (i, Some s)) \<longleftrightarrow>
      (\<exists>k. bit_get (dead_bits s) k \<and> pending_entry st (InSpan i k) (slot_address s k) (type_ids s ! k) = Some e)"
    by (auto simp: span_pending_def set_map_filter slots_of_def)
  moreover have "InSpan i k \<in> finalizable st \<longleftrightarrow> bit_get (dead_bits s) k \<and> has_finalizer st (type_ids s ! k)" for k
    using assms(3) dead_bits_iff [OF assms(1,2), of k]
    by (auto simp: finalizable_def obj_at_def is_marked_def obj_young_def obj_finalized_def)
  moreover have "pending_entry st (InSpan i k) (slot_address s k) (type_ids s ! k) = Some e \<Longrightarrow>
      has_finalizer st (type_ids s ! k) \<and> pf_location e = InSpan i k" for k
    by (auto simp: pending_entry_Some has_finalizer_def)
  ultimately show ?thesis by blast
qed

lemma large_pending_set:
  assumes "j < length (large st)"
  shows "large_pending st (j, large st ! j) = Some e \<longleftrightarrow>
    InLarge j \<in> finalizable st \<and> pending_entry st (InLarge j) (lo_start (large st ! j)) (lo_type_id (large st ! j)) = Some e"
  using assms
  by (auto simp: large_pending_def finalizable_def obj_at_def is_marked_def obj_young_def obj_finalized_def
      pending_entry_Some has_finalizer_def)

lemma pending_set:
  assumes "heap_core st" "marks_ok (spans st)"
  shows "e \<in> set (collect_pending_finalizers st) \<longleftrightarrow>
    pf_location e \<in> finalizable st \<and>
    (\<exists>start sz tid. obj_at st (pf_location e) = Some (start, sz, tid) \<and> pending_entry st (pf_location e) start tid = Some e)"
    (is "_ \<longleftrightarrow> ?rhs")
proof -
  have "e \<in> set (collect_pending_finalizers st) \<longleftrightarrow>
      (\<exists>i s. span_at (spans st) i = Some s \<and> e \<in> set (span_pending st (i, Some s))) \<or>
      (\<exists>j < length (large st). large_pending st (j, large st ! j) = Some e)"
  proof -
    have "(\<exists>i < length (spans st). e \<in> set (span_pending st (i, spans st ! i))) \<longleftrightarrow>
        (\<exists>i s. span_at (spans st) i = Some s \<and> e \<in> set (span_pending st (i, Some s)))"
    proof
      assume "\<exists>i < length (spans st). e \<in> set (span_pending st (i, spans st ! i))"
      then obtain i where "i < length (spans st)" "e \<in> set (span_pending st (i, spans st ! i))" by blast
      then show "\<exists>i s. span_at (spans st) i = Some s \<and> e \<in> set (span_pending st (i, Some s))"
        by (cases "spans st ! i") (auto simp: span_pending_def span_at_def)
    qed (metis span_at_SomeD)
    then show ?thesis by (simp add: collect_pending_finalizers_def set_map_filter set_enumerate_nth Bex_def)
  qed
  also have "\<dots> \<longleftrightarrow> ?rhs"
  proof (cases "pf_location e")
    case (InSpan i k)
    have nl: "\<not> (\<exists>j < length (large st). large_pending st (j, large st ! j) = Some e)"
      using InSpan large_pending_set by (auto simp: pending_entry_Some)
    show ?thesis
    proof (cases "span_at (spans st) i")
      case None
      then show ?thesis using nl InSpan
        by (auto simp: finalizable_def obj_at_def span_pending_def set_map_filter pending_entry_Some)
    next
      case (Some s)
      have sc: "span_core s" "span_marks s" using assms Some by (auto simp: heap_core_def spans_ok_def marks_ok_def)
      have "e \<in> set (span_pending st (i', Some s')) \<Longrightarrow> i' = i" for i' s'
        using InSpan by (auto simp: span_pending_def set_map_filter pending_entry_Some)
      then have "(\<exists>i s. span_at (spans st) i = Some s \<and> e \<in> set (span_pending st (i, Some s))) \<longleftrightarrow> e \<in> set (span_pending st (i, Some s))"
        using Some by (metis option.inject)
      then show ?thesis
        using nl Some InSpan span_pending_set [OF sc Some, of e] by (auto simp: finalizable_def obj_at_def)
    qed
  next
    case (InLarge j)
    have "\<not> (\<exists>i s. span_at (spans st) i = Some s \<and> e \<in> set (span_pending st (i, Some s)))"
      using InLarge by (auto simp: span_pending_def set_map_filter pending_entry_Some)
    moreover have "(\<exists>j < length (large st). large_pending st (j, large st ! j) = Some e) \<longleftrightarrow>
        j < length (large st) \<and> large_pending st (j, large st ! j) = Some e"
      using InLarge large_pending_set by (auto simp: pending_entry_Some)
    ultimately show ?thesis
      using InLarge large_pending_set [of j st e] by (auto simp: finalizable_def obj_at_def)
  qed
  finally show ?thesis .
qed

lemma pending_locations:
  assumes "heap_core st" "marks_ok (spans st)"
  shows "pf_location ` set (collect_pending_finalizers st) = finalizable st"
proof
  show "pf_location ` set (collect_pending_finalizers st) \<subseteq> finalizable st" using pending_set [OF assms] by auto
  show "finalizable st \<subseteq> pf_location ` set (collect_pending_finalizers st)"
  proof
    fix loc assume l: "loc \<in> finalizable st"
    then obtain start sz tid where o: "obj_at st loc = Some (start, sz, tid)" "has_finalizer st tid"
      by (auto simp: finalizable_def)
    then obtain e where e: "pending_entry st loc start tid = Some e" using pending_entry_None by blast
    then have "pf_location e = loc" by (auto simp: pending_entry_Some)
    then show "loc \<in> pf_location ` set (collect_pending_finalizers st)"
      using pending_set [OF assms, of e] l o e by (intro image_eqI [of _ _ e]) auto
  qed
qed

lemma map_filter_pending:
  "map pf_location (List.map_filter (\<lambda>k. pending_entry st (g k) (a k) (t k)) ks) = map g (filter (\<lambda>k. has_finalizer st (t k)) ks)"
  by (induction ks)
    (auto simp: List.map_filter_simps pending_entry_def has_finalizer_def split: option.split)

lemma distinct_enumerate_locs:
  assumes "\<And>i x. distinct (g i x)"
  shows "distinct (concat (map (\<lambda>e. map (InSpan (fst e)) (g (fst e) (snd e))) (enumerate n xs)))"
proof (induction xs arbitrary: n)
  case (Cons x xs)
  have "fst e > n" if "e \<in> set (enumerate (Suc n) xs)" for e
    using that by (auto simp: in_set_enumerate_eq)
  then show ?case using Cons assms by (fastforce simp: distinct_map inj_on_def)
qed simp

lemma distinct_large_locs: "distinct (map pf_location (List.map_filter (large_pending st) (enumerate n ls))) \<and>
   pf_location ` set (List.map_filter (large_pending st) (enumerate n ls)) \<subseteq> {InLarge j |j. n \<le> j}"
proof (induction ls arbitrary: n)
  case (Cons l ls)
  have *: "large_pending st (n, l) = Some e \<Longrightarrow> pf_location e = InLarge n" for e
    by (auto simp: large_pending_def pending_entry_Some split: if_splits)
  have "InLarge n \<notin> pf_location ` set (List.map_filter (large_pending st) (enumerate (Suc n) ls))"
    "pf_location ` set (List.map_filter (large_pending st) (enumerate (Suc n) ls)) \<subseteq> {InLarge j |j. n \<le> j}"
    using Cons.IH [of "Suc n"] by fastforce+
  then show ?case using Cons.IH [of "Suc n"] * by (auto simp: List.map_filter_simps split: option.split)
qed (simp add: List.map_filter_simps)

lemma distinct_pending: "distinct (map pf_location (collect_pending_finalizers st))"
proof -
  let ?g = "\<lambda>i so. case so of None \<Rightarrow> [] | Some s \<Rightarrow> span_dying st i s"
  have sp: "map pf_location (span_pending st e) = map (InSpan (fst e)) (?g (fst e) (snd e))" for e
    by (cases "snd e") (simp_all add: span_pending_def span_dying_def map_filter_pending)
  have "map pf_location (concat (map (span_pending st) (enumerate 0 (spans st)))) =
      concat (map (\<lambda>e. map (InSpan (fst e)) (?g (fst e) (snd e))) (enumerate 0 (spans st)))"
    by (simp add: map_concat comp_def sp)
  moreover have "distinct (?g i x)" for i x by (auto simp: span_dying_def split: option.split)
  ultimately have "distinct (map pf_location (concat (map (span_pending st) (enumerate 0 (spans st)))))"
    using distinct_enumerate_locs [of ?g] by simp
  moreover have "pf_location ` set (concat (map (span_pending st) (enumerate 0 (spans st)))) \<subseteq> {InSpan i k |i k. True}"
    by (auto simp: span_pending_def set_map_filter pending_entry_Some split: option.splits)
  moreover have "{InSpan i k |i k. True} \<inter> {InLarge j |j. 0 \<le> j} = {}" by auto
  ultimately show ?thesis
    using distinct_large_locs [of st 0 "large st"] unfolding collect_pending_finalizers_def map_append distinct_append set_map
    by blast
qed

section \<open>Setting the finalized flags\<close>

definition finalized_ext :: "heap_state \<Rightarrow> object_location set \<Rightarrow> heap_state \<Rightarrow> bool" where
  "finalized_ext st L st' \<longleftrightarrow>
     heap_core st' \<and> marks_ok (spans st') \<and> obj_at st' = obj_at st \<and> is_marked st' = is_marked st \<and>
     obj_young st' = obj_young st \<and> (\<forall>loc. obj_finalized st' loc \<longleftrightarrow> obj_finalized st loc \<or> loc \<in> L) \<and>
     heap_bytes st' = heap_bytes st \<and> queues_empty st' = queues_empty st \<and> mem st' = mem st \<and> types st' = types st \<and>
     pending_finalizer_roots st' = pending_finalizer_roots st \<and> sys_alloc st' = sys_alloc st"

lemma finalized_ext_trans: "finalized_ext a L b \<Longrightarrow> finalized_ext b M c \<Longrightarrow> finalized_ext a (L \<union> M) c"
  unfolding finalized_ext_def by auto

lemma set_finalized_span:
  assumes core: "heap_core st" and marks: "marks_ok (spans st)" and at: "span_at (spans st) i = Some s"
    and k: "bit_get (alloc_bits s) k"
  shows "\<exists>st'. set_finalized (InSpan i k) st = Inr st' \<and> finalized_ext st {InSpan i k} st'"
proof -
  let ?s = "s\<lparr>finalized_bits := bit_set (finalized_bits s) k\<rparr>"
  let ?st = "st\<lparr>spans := (spans st)[i := Some ?s]\<rparr>"
  have sc: "span_core s" "span_marks s" using core marks at by (auto simp: heap_core_def spans_ok_def marks_ok_def)
  have i: "i < length (spans st)" "spans st ! i = Some s" using span_at_SomeD [OF at] by auto
  have upd: "span_at ((spans st)[i := Some ?s]) j = (if j = i then Some ?s else span_at (spans st) j)" for j
    using i by (simp add: span_at_update)
  have cap: "k < 64 * length (finalized_bits s)"
    using sc(1) bitmap_words_bound [OF span_core_slot(1) [OF sc(1) k]] by (simp add: span_core_def)
  have s': "span_core ?s" "span_marks ?s" using sc unfolding span_core_def span_marks_def by auto
  have "spans_ok (spans ?st)" "marks_ok (spans ?st)"
    using heap_coreD(1) [OF core] marks s' by (auto simp: spans_ok_def marks_ok_def upd)
  moreover have "types_ok (types ?st) (spans ?st) (large ?st)" "zero_ok (spans ?st) (mem ?st)"
    using heap_coreD(7,8) [OF core] at by (auto simp: types_ok_def zero_ok_def upd)
  ultimately have hc: "heap_core ?st" "marks_ok (spans ?st)"
    using heap_coreD(2-6) [OF core] by (simp_all add: heap_core_def update_span_indices [OF at])
  have view: "obj_at ?st = obj_at st" "is_marked ?st = is_marked st" "obj_young ?st = obj_young st"
    using at by (auto simp: fun_eq_iff obj_at_def is_marked_def obj_young_def upd slot_address_def split: object_location.split)
  have fin: "obj_finalized ?st loc \<longleftrightarrow> obj_finalized st loc \<or> loc = InSpan i k" for loc
    using at by (cases loc) (auto simp: obj_finalized_def upd bit_get_set [OF cap])
  have "span_bytes (spans ?st) = span_bytes (spans st)"
    using span_bytes_update [OF i(1), of "Some ?s"] i(2) by simp
  then have "finalized_ext st {InSpan i k} ?st"
    using hc view fin by (simp add: finalized_ext_def heap_bytes_def queues_empty_def)
  moreover have "set_finalized (InSpan i k) st = Inr ?st" using i by (simp add: set_finalized_def)
  ultimately show ?thesis by blast
qed

lemma set_finalized_large:
  assumes core: "heap_core st" and marks: "marks_ok (spans st)" and j: "j < length (large st)"
  shows "\<exists>st'. set_finalized (InLarge j) st = Inr st' \<and> finalized_ext st {InLarge j} st'"
proof -
  let ?ls = "(large st)[j := (large st ! j)\<lparr>finalized := True\<rparr>]"
  let ?st = "st\<lparr>large := ?ls\<rparr>"
  have nth: "lo_start (?ls ! m) = lo_start (large st ! m)" "lo_size (?ls ! m) = lo_size (large st ! m)"
    "lo_type_id (?ls ! m) = lo_type_id (large st ! m)" "color (?ls ! m) = color (large st ! m)" "young (?ls ! m) = young (large st ! m)"
    for m using j by (auto simp: nth_list_update)
  have maps: "map lo_start ?ls = map lo_start (large st)" "map lo_size ?ls = map lo_size (large st)"
    by (auto intro!: nth_equalityI simp: nth)
  have all: "(\<forall>l \<in> set ?ls. P l) \<longleftrightarrow> (\<forall>m < length (large st). P (?ls ! m))" for P by (auto simp: all_set_conv_all_nth)
  have "large_ok (spans st) ?ls"
    using heap_coreD(5) [OF core] unfolding large_ok_def all by (simp add: nth all_set_conv_all_nth)
  moreover have "types_ok (types st) (spans st) ?ls"
    using heap_coreD(7) [OF core] unfolding types_ok_def all by (auto simp: nth)
  moreover have "large_entries ?ls = large_entries (large st)"
  proof -
    have e: "map (\<lambda>(index, l). (lo_start l, index)) (enumerate 0 xs) = zip (map lo_start xs) [0..<length xs]" for xs :: "large_object list"
      by (intro nth_equalityI) (simp_all add: nth_enumerate_eq)
    show ?thesis unfolding large_entries_def e maps(1) by simp
  qed
  ultimately have hc: "heap_core ?st" using core by (simp add: heap_core_def lindex_ok_def)
  have view: "obj_at ?st = obj_at st" "is_marked ?st = is_marked st" "obj_young ?st = obj_young st"
    by (auto simp: fun_eq_iff obj_at_def is_marked_def obj_young_def nth split: object_location.split)
  have fin: "obj_finalized ?st loc \<longleftrightarrow> obj_finalized st loc \<or> loc = InLarge j" for loc
    using j by (cases loc) (auto simp: obj_finalized_def nth_list_update)
  have "finalized_ext st {InLarge j} ?st"
    using hc view fin marks maps(2) by (simp add: finalized_ext_def heap_bytes_def queues_empty_def)
  moreover have "set_finalized (InLarge j) st = Inr ?st" using j by (simp add: set_finalized_def)
  ultimately show ?thesis by blast
qed

lemma set_finalized_spec:
  assumes "heap_core st" "marks_ok (spans st)" "obj_at st loc \<noteq> None"
  shows "\<exists>st'. set_finalized loc st = Inr st' \<and> finalized_ext st {loc} st'"
proof (cases loc)
  case (InSpan i k)
  obtain s where "span_at (spans st) i = Some s" "bit_get (alloc_bits s) k"
    using assms(3) by (auto simp: obj_at_def InSpan split: option.splits if_splits)
  then show ?thesis using set_finalized_span [OF assms(1,2)] InSpan by blast
next
  case (InLarge j)
  then have "j < length (large st)" using assms(3) by (auto simp: obj_at_def split: if_splits)
  then show ?thesis using set_finalized_large [OF assms(1,2)] InLarge by blast
qed

lemma set_all_finalized_spec:
  assumes "heap_core st" "marks_ok (spans st)" "\<forall>e \<in> set es. obj_at st (pf_location e) \<noteq> None"
  shows "\<exists>st'. set_all_finalized es st = Inr st' \<and> finalized_ext st (pf_location ` set es) st'"
  using assms
proof (induction es arbitrary: st)
  case Nil
  then show ?case by (simp add: finalized_ext_def)
next
  case (Cons e es)
  obtain st1 where st1: "set_finalized (pf_location e) st = Inr st1" "finalized_ext st {pf_location e} st1"
    using set_finalized_spec [OF Cons.prems(1,2), of "pf_location e"] Cons.prems(3) by (meson list.set_intros(1))
  have "\<exists>st'. set_all_finalized es st1 = Inr st' \<and> finalized_ext st1 (pf_location ` set es) st'"
    using st1(2) Cons.prems(3) by (intro Cons.IH) (auto simp: finalized_ext_def)
  then obtain st' where "set_all_finalized es st1 = Inr st'" "finalized_ext st1 (pf_location ` set es) st'" by blast
  then show ?case using st1 finalized_ext_trans [OF st1(2)] by auto
qed

section \<open>What one cycle keeps\<close>

definition cycle_roots :: "addr list \<Rightarrow> heap_state \<Rightarrow> object_location set" where
  "cycle_roots roots st = located (prepare_large_index st) (roots @ pending_finalizer_roots st)"

definition live_graph :: "heap_state \<Rightarrow> object_location \<Rightarrow> object_location set" where
  "live_graph st = children (prepare_large_index st)"

definition dying :: "addr list \<Rightarrow> heap_state \<Rightarrow> object_location set" where
  "dying roots st = {loc. loc \<notin> reach (live_graph st) (cycle_roots roots st) \<and> \<not> obj_young st loc \<and>
     \<not> obj_finalized st loc \<and> (\<exists>start sz tid. obj_at st loc = Some (start, sz, tid) \<and> has_finalizer st tid)}"

definition retained :: "addr list \<Rightarrow> heap_state \<Rightarrow> object_location set" where
  "retained roots st = reach (live_graph st) (cycle_roots roots st \<union> dying roots st) \<union> {loc. obj_young st loc}"

definition after_cycle :: "addr list \<Rightarrow> heap_state \<Rightarrow> (addr \<times> nat \<times> nat \<times> bool) set" where
  "after_cycle roots st = {(start, sz, tid, obj_finalized st loc \<or> loc \<in> dying roots st) |loc start sz tid.
     loc \<in> retained roots st \<and> obj_at st loc = Some (start, sz, tid)}"

definition cycle_result :: "addr list \<Rightarrow> heap_state \<Rightarrow> pending_finalizer list \<Rightarrow> (addr \<times> layout) list \<Rightarrow> nat \<Rightarrow> heap_state \<Rightarrow> bool" where
  "cycle_result roots st pending det n st' \<longleftrightarrow>
     heap_wf st' \<and> heap_objects st' UNIV = after_cycle roots st \<and> (\<forall>loc. \<not> obj_young st' loc) \<and>
     distinct (map pf_location pending) \<and> pf_location ` set pending = dying roots st \<and>
     (\<forall>e \<in> set pending. \<exists>sz tid info. obj_at st (pf_location e) = Some (pf_start e, sz, tid) \<and>
        type_info st tid = Some info \<and> ti_finalize info = Some (pf_finalize e)) \<and>
     pending_finalizer_roots st' = pending_finalizer_roots st @ map pf_start pending \<and>
     mem st' = mem st \<and> types st' = types st \<and> sys_alloc st' = sys_alloc st \<and>
     n + heap_bytes st' = heap_bytes st \<and>
     (\<forall>d \<in> set det. \<forall>loc x. obj_range st' loc x \<longrightarrow> x < fst d \<or> fst d + fst (snd d) \<le> x)"

lemma obj_size_pos:
  assumes core: "heap_core st" and o: "obj_at st loc = Some (start, sz, tid)"
  shows "0 < sz"
proof (cases loc)
  case (InSpan i k)
  then obtain s where "span_at (spans st) i = Some s" "sz = elem_size s"
    using o by (auto simp: obj_at_def split: option.splits if_splits)
  then show ?thesis using span_core_sizes(1) [OF span_at_core [OF core]] by simp
next
  case (InLarge j)
  then show ?thesis using o heap_coreD(5) [OF core] by (auto simp: obj_at_def large_ok_def split: if_splits)
qed

lemma locate_start:
  assumes "mark_ok st" "obj_at st loc = Some (start, sz, tid)"
  shows "locate st start = Some loc"
proof -
  have core: "heap_core st" and clean: "\<not> large_index_dirty st" using assms(1) by (auto simp: mark_ok_def)
  show ?thesis using locate_iff [OF core clean] assms(2) obj_size_pos [OF core assms(2)] by (auto simp: obj_range_def)
qed

lemma erase_bytes: "heap_bytes (erase st) = heap_bytes st"
proof -
  have "(case map_option erase_span so of None \<Rightarrow> 0 | Some s \<Rightarrow> live_count s * elem_size s) =
      (case so of None \<Rightarrow> 0 | Some s \<Rightarrow> live_count s * elem_size s)" for so by (cases so) simp_all
  then show ?thesis by (simp add: heap_bytes_def span_bytes_def erase_def comp_def)
qed

lemma prepare_view [simp]:
  "obj_young (prepare_large_index st) = obj_young st" "obj_finalized (prepare_large_index st) = obj_finalized st"
  "type_info (prepare_large_index st) = type_info st" "heap_bytes (prepare_large_index st) = heap_bytes st"
  by (simp_all add: obj_view_cong [of "prepare_large_index st" st] fun_eq_iff type_info_def heap_bytes_def)

text \<open>The state the sweep starts from.\<close>

definition swept_input :: "addr list \<Rightarrow> heap_state \<Rightarrow> pending_finalizer list \<Rightarrow> heap_state \<Rightarrow> bool" where
  "swept_input roots st pending st7 \<longleftrightarrow>
     heap_core st7 \<and> marks_ok (spans st7) \<and> queues_empty st7 \<and> obj_at st7 = obj_at st \<and> obj_young st7 = obj_young st \<and>
     marked st7 = reach (live_graph st) (cycle_roots roots st \<union> dying roots st) \<and>
     (\<forall>loc. obj_finalized st7 loc \<longleftrightarrow> obj_finalized st loc \<or> loc \<in> dying roots st) \<and>
     heap_bytes st7 = heap_bytes st \<and> mem st7 = mem st \<and> types st7 = types st \<and> sys_alloc st7 = sys_alloc st \<and>
     pending_finalizer_roots st7 = pending_finalizer_roots st @ map pf_start pending"

definition pending_ok :: "addr list \<Rightarrow> heap_state \<Rightarrow> pending_finalizer list \<Rightarrow> bool" where
  "pending_ok roots st pending \<longleftrightarrow> distinct (map pf_location pending) \<and> pf_location ` set pending = dying roots st \<and>
     (\<forall>e \<in> set pending. \<exists>sz tid info. obj_at st (pf_location e) = Some (pf_start e, sz, tid) \<and>
        type_info st tid = Some info \<and> ti_finalize info = Some (pf_finalize e))"

lemma swept_input_result:
  assumes "swept_input roots st pending st7" "pending_ok roots st pending"
  shows "\<exists>det n st'. sweep st7 = Inr (det, n, st') \<and> cycle_result roots st pending det n st'"
proof -
  note a = assms(1) [unfolded swept_input_def]
  obtain det n st' where s: "sweep st7 = Inr (det, n, st')" "sweep_result st7 det n st'"
    using sweep_ok a by blast
  have "heap_objects st7 {loc. survives st7 loc} = after_cycle roots st"
  proof -
    have "is_marked st7 loc \<longleftrightarrow> loc \<in> reach (live_graph st) (cycle_roots roots st \<union> dying roots st)"
      "obj_finalized st7 loc \<longleftrightarrow> obj_finalized st loc \<or> loc \<in> dying roots st" for loc using a by blast+
    then show ?thesis using a by (simp add: heap_objects_def after_cycle_def retained_def survives_def)
  qed
  then show ?thesis
    using s a assms(2) unfolding sweep_result_def cycle_result_def pending_ok_def by auto
qed

lemma marked_finalizable:
  assumes inv: "mark_inv (prepare_large_index st) (cycle_roots roots st) st3"
    and m: "marked st3 = reach (live_graph st) (cycle_roots roots st)"
  shows "finalizable st3 = dying roots st" "pending_ok roots st (collect_pending_finalizers st3)"
proof -
  have ok: "mark_ok st3" and er: "erase st3 = erase (prepare_large_index st)" using inv by (auto simp: mark_inv_def)
  note e = erase_eqD [OF er, simplified]
  have hf: "has_finalizer st3 = has_finalizer st" by (simp add: fun_eq_iff has_finalizer_def e(6))
  show fin: "finalizable st3 = dying roots st" using m by (auto simp: finalizable_def dying_def e hf)
  have hc: "heap_core st3" "marks_ok (spans st3)" using ok by (auto simp: mark_ok_def)
  have "\<exists>sz tid info. obj_at st (pf_location x) = Some (pf_start x, sz, tid) \<and>
        type_info st tid = Some info \<and> ti_finalize info = Some (pf_finalize x)"
    if x: "x \<in> set (collect_pending_finalizers st3)" for x
    using pending_set [OF hc, of x] x by (auto simp: e dest!: pending_entry_fields)
  then show "pending_ok roots st (collect_pending_finalizers st3)"
    using distinct_pending pending_locations [OF hc] fin by (simp add: pending_ok_def)
qed

lemma finalizer_wave:
  assumes inv: "mark_inv st0 R st3" and cl: "scanned st3 = marked st3" "marked st3 = reach (children st0) R"
    and es: "\<forall>e \<in> set es. \<exists>sz tid. obj_at st0 (pf_location e) = Some (pf_start e, sz, tid)"
  defines "P \<equiv> pf_location ` set es"
  shows "\<exists>st4 st5 st6. mark_pointers (map pf_start es) st3 = Inr st4 \<and> drain_marks st4 = Some (Inr st5) \<and>
    set_all_finalized es st5 = Inr st6 \<and> mark_inv st0 (R \<union> P) st5 \<and> queues_empty st5 \<and>
    marked st5 = reach (children st0) (R \<union> P) \<and> finalized_ext st5 P st6"
proof -
  have ok: "mark_ok st3" and er: "erase st3 = erase st0" using inv by (auto simp: mark_inv_def)
  have obj: "obj_at st3 = obj_at st0" by (rule erase_eqD(3) [OF er])
  have "locate st3 (pf_start e) = Some (pf_location e)" if e: "e \<in> set es" for e
    using locate_start [OF ok] es e obj by metis
  then have loc: "located st3 (map pf_start es) = P" by (auto simp: located_def P_def)
  obtain st4 where m: "mark_pointers (map pf_start es) st3 = Inr st4" "mark_ext st3 P st4"
    using mark_pointers_spec [OF ok, of "map pf_start es"] loc by auto
  have "reach (children st0) R \<union> P \<subseteq> reach (children st0) (R \<union> P)"
    using reach_mono [of R "R \<union> P" "children st0"] reach_base [of "R \<union> P" "children st0"] by auto
  then have inv4: "mark_inv st0 (R \<union> P) st4"
    using inv m(2) cl unfolding mark_inv_def mark_ext_def by auto
  obtain st5 where d: "drain_marks st4 = Some (Inr st5)" "mark_inv st0 (R \<union> P) st5" "queues_empty st5"
    "marked st5 = reach (children st0) (R \<union> P)" using drain_marks_spec [OF inv4] by blast
  have er5: "erase st5 = erase st0" and ok5: "mark_ok st5" using d(2) by (auto simp: mark_inv_def)
  have "\<exists>st6. set_all_finalized es st5 = Inr st6 \<and> finalized_ext st5 P st6"
    unfolding P_def using ok5 es erase_eqD(3) [OF er5] by (intro set_all_finalized_spec) (auto simp: mark_ok_def)
  then show ?thesis using m(1) d by blast
qed

lemma swept_inputI:
  assumes "mark_ok st5" "erase st5 = erase (prepare_large_index st)" "queues_empty st5"
    "marked st5 = reach (children (prepare_large_index st)) (cycle_roots roots st \<union> dying roots st)"
    "finalized_ext st5 (dying roots st) st6"
  shows "swept_input roots st es (st6\<lparr>pending_finalizer_roots := pending_finalizer_roots st6 @ map pf_start es\<rparr>)"
proof -
  note e = erase_eqD [OF assms(2), simplified] and f = assms(5) [unfolded finalized_ext_def]
  let ?st7 = "st6\<lparr>pending_finalizer_roots := pending_finalizer_roots st6 @ map pf_start es\<rparr>"
  have c: "heap_core ?st7 = heap_core st6" "queues_empty ?st7 = queues_empty st6" "is_marked ?st7 = is_marked st6"
    "heap_bytes ?st7 = heap_bytes st6" "obj_at ?st7 = obj_at st6" "obj_young ?st7 = obj_young st6" "obj_finalized ?st7 = obj_finalized st6"
    by (auto simp: heap_core_def queues_empty_def heap_bytes_def fun_eq_iff is_marked_def split: object_location.split
        intro!: obj_view_cong [THEN fun_cong])
  have "heap_bytes st5 = heap_bytes st" using erase_bytes [of st5] erase_bytes [of "prepare_large_index st"] assms(2) by simp
  then show ?thesis
    unfolding swept_input_def c using e f assms(3,4) by (simp add: live_graph_def)
qed

lemma collect_locked_spec:
  assumes wf: "heap_wf st"
  shows "\<exists>pending det n st'. collect_locked roots st = Some (Inr (pending, det, n, st')) \<and>
    cycle_result roots st pending det n st'"
proof -
  let ?st0 = "prepare_large_index st" and ?R = "cycle_roots roots st"
  obtain st1 where m1: "mark_pointers roots ?st0 = Inr st1" "mark_ext ?st0 (located ?st0 roots) st1"
    using mark_pointers_spec [OF heap_wf_mark_ok(1) [OF wf]] by blast
  have pr: "pending_finalizer_roots st1 = pending_finalizer_roots st"
    using m1(2) erase_eqD(10) [of st1 ?st0] by (simp add: mark_ext_def)
  obtain st2 st3 where m: "mark_pointers (roots @ pending_finalizer_roots st) ?st0 = Inr st2" "drain_marks st2 = Some (Inr st3)"
    "mark_inv ?st0 ?R st3" "queues_empty st3" "marked st3 = reach (children ?st0) ?R" "scanned st3 = marked st3"
    using mark_phase [OF wf, of "roots @ pending_finalizer_roots st"] unfolding cycle_roots_def by blast
  have m2: "mark_pointers (pending_finalizer_roots st1) st1 = Inr st2" using m(1) m1(1) pr by (simp add: mark_pointers_append)
  let ?es = "collect_pending_finalizers st3"
  have pok: "pending_ok roots st ?es" using marked_finalizable(2) [OF m(3)] m(5) by (simp add: live_graph_def)
  have er3: "erase st3 = erase ?st0" and ok3: "mark_ok st3" using m(3) by (auto simp: mark_inv_def)
  have "\<exists>st7. swept_input roots st ?es st7 \<and> collect_locked roots st =
      Some (case sweep st7 of Inl e \<Rightarrow> Inl e | Inr (det, n, st8) \<Rightarrow> Inr (?es, det, n, st8))"
  proof (cases "?es = []")
    case True
    have "dying roots st = {}" using pok True by (simp add: pending_ok_def)
    then have "finalized_ext st3 (dying roots st) st3" using ok3 by (simp add: finalized_ext_def mark_ok_def)
    with True swept_inputI [OF ok3 er3 m(4), of roots st3 "[]"] have "swept_input roots st ?es st3"
      using m(5) \<open>dying roots st = {}\<close> by simp
    then show ?thesis using m1(1) m2 m(2) True by (auto simp: collect_locked_def Let_def)
  next
    case False
    have "\<forall>x \<in> set ?es. \<exists>sz tid. obj_at ?st0 (pf_location x) = Some (pf_start x, sz, tid)"
      using pok by (fastforce simp: pending_ok_def)
    from finalizer_wave [OF m(3,6,5) this]
    obtain st4 st5 st6 where w: "mark_pointers (map pf_start ?es) st3 = Inr st4" "drain_marks st4 = Some (Inr st5)"
      "set_all_finalized ?es st5 = Inr st6" "mark_inv ?st0 (?R \<union> dying roots st) st5" "queues_empty st5"
      "marked st5 = reach (children ?st0) (?R \<union> dying roots st)" "finalized_ext st5 (dying roots st) st6"
      using pok unfolding pending_ok_def by auto
    then have "swept_input roots st ?es (st6\<lparr>pending_finalizer_roots := pending_finalizer_roots st6 @ map pf_start ?es\<rparr>)"
      by (intro swept_inputI) (auto simp: mark_inv_def)
    then show ?thesis using m1(1) m2 m(2) False w(1-3) by (auto simp: collect_locked_def Let_def)
  qed
  then show ?thesis using swept_input_result [OF _ pok] by fastforce
qed

end
