(* ===== verification/Gc_Lifecycle.thy ===== *)
theory Gc_Lifecycle
  imports Gc_Cycle "HOL-Library.Multiset"
begin

text \<open>
  The heap over its whole life: pointer classification, the exact result of the mark phase and of a
  collection, the byte counter, and the heaps that a mutator can reach by registering types,
  allocating, writing into objects and collecting.
\<close>

section \<open>Counters and in-flight roots\<close>

text \<open>How far the lock-free \<open>live_bytes\<close> counter is from the size of the heap, modulo its width.\<close>

definition counter_gap :: "heap \<Rightarrow> u64" where
  "counter_gap h = live_bytes h - word_of_nat (heap_bytes (hstate h))"

lemma position_of_Some: "position_of p xs = Some i \<Longrightarrow> i < length xs \<and> p (xs ! i)"
  using nth_length_takeWhile [of "\<lambda>x. \<not> p x" xs] by (auto simp: position_of_def Let_def split: if_splits)

lemma position_of_None: "position_of p xs = None \<longleftrightarrow> (\<forall>x \<in> set xs. \<not> p x)"
proof -
  have "length (takeWhile (\<lambda>x. \<not> p x) xs) < length xs \<longleftrightarrow> (\<exists>x \<in> set xs. p x)"
    by (induction xs) auto
  then show ?thesis by (simp add: position_of_def Let_def)
qed

lemma mset_swap_remove: "i < length xs \<Longrightarrow> mset (swap_remove i xs) = mset xs - {#xs ! i#}"
proof -
  assume i: "i < length xs"
  then obtain ys y where xs: "xs = ys @ [y]" by (metis length_greater_0_conv list.size(3) not_less_zero rev_exhaust)
  show ?thesis
  proof (cases "Suc i = length xs")
    case False
    then have "i < length ys" using i xs by simp
    then show ?thesis using xs by (simp add: swap_remove_def mset_update nth_append)
  qed (simp add: xs swap_remove_def)
qed

lemma mset_remove_root: "mset (remove_root a xs) = mset xs - {#a#}"
proof (cases "position_of (\<lambda>r. r = a) xs")
  case None
  then have "a \<notin># mset xs" by (auto simp: position_of_None)
  then show ?thesis using None by (simp add: remove_root_def)
next
  case (Some i)
  then show ?thesis using position_of_Some [OF Some] by (simp add: remove_root_def mset_swap_remove)
qed

lemma mset_remove_roots: "mset (fold remove_root as xs) = mset xs - mset as"
  by (induction as arbitrary: xs) (simp_all add: mset_remove_root)

section \<open>A whole collection\<close>

text \<open>
  What a step keeps of a heap: the invariant of the data structures, the gap of the counter and the roots of
  finalizers that are in flight; without concurrent marking, also the absence of marks.
\<close>

definition heap_sound :: "heap_state \<Rightarrow> bool" where
  "heap_sound st \<longleftrightarrow> heap_core st \<and> marks_ok (spans st)"

definition step_keeps :: "bool \<Rightarrow> heap \<Rightarrow> heap \<Rightarrow> bool" where
  "step_keeps cm h h' \<longleftrightarrow>
     (heap_sound (hstate h) \<longrightarrow>
        heap_sound (hstate h') \<and> counter_gap h' = counter_gap h \<and>
        mset (pending_finalizer_roots (hstate h')) = mset (pending_finalizer_roots (hstate h)) \<and>
        (\<not> cm \<and> quiet (hstate h) \<longrightarrow> quiet (hstate h')))"

lemma heap_wf_sound: "heap_wf st \<longleftrightarrow> heap_sound st \<and> quiet st"
  by (auto simp: heap_wf_def heap_sound_def)

lemma step_keeps_trans: "step_keeps cm h h' \<Longrightarrow> step_keeps cm h' h'' \<Longrightarrow> step_keeps cm h h''"
  by (auto simp: step_keeps_def)

lemma step_keeps_refl [simp]: "step_keeps cm h h"
  by (simp add: step_keeps_def)

lemma steps_keep: "(\<lambda>h h'. R h h' \<and> step_keeps cm h h')\<^sup>*\<^sup>* h h' \<Longrightarrow> step_keeps cm h h'"
  by (induction rule: rtranclp_induct) (auto intro: step_keeps_trans)

lemma finalizers_fold:
  assumes "\<And>f a h. step_keeps cm h (run_fin f a h)"
  shows "step_keeps cm h (fold (\<lambda>e. run_fin (pf_finalize e) (pf_start e)) es h)"
  by (induction es arbitrary: h) (auto intro: step_keeps_trans assms)

lemma sound_pending [simp]:
  "heap_sound (st\<lparr>pending_finalizer_roots := x\<rparr>) = heap_sound st" "quiet (st\<lparr>pending_finalizer_roots := x\<rparr>) = quiet st"
  by (simp_all add: heap_sound_def heap_core_def quiet_def)

lemma collect_spec:
  assumes wf: "heap_wf (hstate h)" and fin: "\<And>f a h. step_keeps cm h (run_fin f a h)"
  shows "\<exists>h'. collect roots run_fin h = Some (Inr h') \<and> step_keeps cm h h'"
proof -
  obtain pending det n st where c: "collect_locked roots (hstate h) = Some (Inr (pending, det, n, st))"
    "cycle_result roots (hstate h) pending det n st" using collect_locked_spec [OF wf] by blast
  let ?h1 = "fold (\<lambda>e. run_fin (pf_finalize e) (pf_start e)) pending (h\<lparr>hstate := st\<rparr>)"
  have st: "heap_wf st" "n + heap_bytes st = heap_bytes (hstate h)"
    "pending_finalizer_roots st = pending_finalizer_roots (hstate h) @ map pf_start pending"
    using c(2) by (auto simp: cycle_result_def)
  have "step_keeps cm (h\<lparr>hstate := st\<rparr>) ?h1" using fin by (rule finalizers_fold)
  then have f: "heap_sound (hstate ?h1)" "counter_gap ?h1 = counter_gap (h\<lparr>hstate := st\<rparr>)"
    "mset (pending_finalizer_roots (hstate ?h1)) = mset (pending_finalizer_roots st)" "\<not> cm \<longrightarrow> quiet (hstate ?h1)"
    using st(1) by (auto simp: step_keeps_def heap_wf_sound)
  have gap: "counter_gap (h\<lparr>hstate := st\<rparr>) - word_of_nat n = counter_gap h"
    unfolding counter_gap_def using st(2) by (simp flip: st(2) add: algebra_simps)
  let ?h2 = "?h1\<lparr>hstate := (hstate ?h1)\<lparr>pending_finalizer_roots :=
      fold remove_root (map pf_start pending) (pending_finalizer_roots (hstate ?h1))\<rparr>,
      live_bytes := live_bytes ?h1 - word_of_nat n,
      bytes_since_collect := bytes_since_collect ?h1 - bytes_since_collect h\<rparr>"
  have "collect roots run_fin h = Some (Inr ?h2)" using c(1) by (simp add: collect_def Let_def)
  moreover have "counter_gap ?h2 = counter_gap ?h1 - word_of_nat n"
    by (simp add: counter_gap_def heap_bytes_def algebra_simps)
  moreover have "mset (pending_finalizer_roots (hstate ?h2)) = mset (pending_finalizer_roots (hstate h))"
    using f(3) st(3) by (simp add: mset_remove_roots)
  ultimately show ?thesis using f gap by (intro exI [of _ ?h2]) (simp add: step_keeps_def)
qed

section \<open>Reachable heaps\<close>

text \<open>
  The steps of a mutator.  A write changes a byte of a live object; an allocation takes a block
  from a system allocator that keeps its contract, and is black only where concurrent marking (\<open>cm\<close>) can be
  on; a collection starts on a heap without marks.  The finalizers it calls outside the lock do
  whatever sequence of these steps they like, further collections included.
\<close>

inductive heap_step :: "bool \<Rightarrow> heap \<Rightarrow> heap \<Rightarrow> bool" for cm where
  register: "register_type tid info (hstate h) = Inr st \<Longrightarrow> heap_step cm h (h\<lparr>hstate := st\<rparr>)"
| allocate: "alloc black sz tid h = Inr (raw, h') \<Longrightarrow> (black \<longrightarrow> cm) \<Longrightarrow> sys_ready (hstate h) (alloc_layout sz) \<Longrightarrow>
    sz < 2 ^ 63 - 15 \<Longrightarrow> heap_step cm h h'"
| sys_refill: "heap_step cm h (h\<lparr>hstate := (hstate h)\<lparr>sys_alloc := sys\<rparr>\<rparr>)"
| store: "obj_range (hstate h) loc x \<Longrightarrow> heap_step cm h (h\<lparr>hstate := (hstate h)\<lparr>mem := (mem (hstate h))(x := v)\<rparr>\<rparr>)"
| collection: "collect roots run_fin h = Some (Inr h') \<Longrightarrow> quiet (hstate h) \<Longrightarrow>
    (\<And>f a g. (heap_step cm)\<^sup>*\<^sup>* g (run_fin f a g)) \<Longrightarrow> heap_step cm h h'"

inductive_cases heap_stepE: "heap_step cm h h'"

lemma obj_range_below_watermark:
  assumes core: "heap_core st" and r: "obj_range st loc x"
    and t: "span_at (spans st) i = Some t" "base t + zeroed_watermark t * elem_size t \<le> x" "x < base t + SPAN_BYTES"
  shows False
proof (cases loc)
  case (InSpan j k)
  obtain s where s: "span_at (spans st) j = Some s" "bit_get (alloc_bits s) k"
    "slot_address s k \<le> x" "x < slot_address s k + elem_size s" "base s \<le> x" "x < base s + SPAN_BYTES"
    using obj_range_in_span [OF core r [unfolded InSpan]] by blast
  have "i = j" using spans_disjoint [OF core s(1) t(1) _ s(5,6)] t(2,3) by linarith
  then have st: "s = t" using s(1) t(1) by simp
  have "Suc k * elem_size s \<le> zeroed_watermark s * elem_size s"
    using span_core_slot(2) [OF span_at_core [OF core s(1)] s(2)] by (intro mult_le_mono1) simp
  then show False using s(4) t(2) by (simp add: slot_address_def st)
next
  case (InLarge j)
  note l = obj_range_in_large [OF r [unfolded InLarge]]
  have "disj (base t, SPAN_BYTES) (lo_start (large st ! j), lo_size (large st ! j))"
    using heap_coreD(5) [OF core] t(1) l(1) by (auto simp: large_ok_def)
  then show False using l t(2,3) by (auto simp: disj_def)
qed

lemma write_sound:
  assumes "heap_sound st" "obj_range st loc x"
  shows "heap_sound (st\<lparr>mem := (mem st)(x := v)\<rparr>)"
proof -
  have core: "heap_core st" using assms(1) by (simp add: heap_sound_def)
  have "zero_ok (spans st) ((mem st)(x := v))"
    using heap_coreD(8) [OF core] obj_range_below_watermark [OF core assms(2)]
    unfolding zero_ok_def by (metis fun_upd_apply)
  then show ?thesis using assms(1) by (simp add: heap_sound_def heap_core_def)
qed

section \<open>The size of the heap\<close>

definition obj_size :: "heap_state \<Rightarrow> object_location \<Rightarrow> nat" where
  "obj_size st loc = (case obj_at st loc of None \<Rightarrow> 0 | Some (start, sz, tid) \<Rightarrow> sz)"

lemma span_bytes_sum:
  assumes "spans_ok (spans st)"
  shows "span_bytes (spans st) = (\<Sum>loc \<in> {InSpan i k |i k. obj_at st (InSpan i k) \<noteq> None}. obj_size st loc)"
proof -
  let ?slots = "\<lambda>i. case spans st ! i of None \<Rightarrow> {} | Some s \<Rightarrow> slots_of (alloc_bits s)"
  let ?f = "\<lambda>so. case so of None \<Rightarrow> 0 | Some s \<Rightarrow> live_count s * elem_size s"
  have img: "{InSpan i k |i k. obj_at st (InSpan i k) \<noteq> None} = (\<lambda>(i, k). InSpan i k) ` (SIGMA i:{..<length (spans st)}. ?slots i)"
  proof (rule loc_set_eqI)
    have "obj_at st (InSpan i k) \<noteq> None \<longleftrightarrow> i < length (spans st) \<and> k \<in> ?slots i" for i k
      by (cases "spans st ! i") (auto simp: obj_at_def span_at_def slots_of_def)
    then show "InSpan i k \<in> {InSpan i k |i k. obj_at st (InSpan i k) \<noteq> None} \<longleftrightarrow>
        InSpan i k \<in> (\<lambda>(i, k). InSpan i k) ` (SIGMA i:{..<length (spans st)}. ?slots i)" for i k
      by (simp add: image_iff)
  qed auto
  have inj: "inj_on (\<lambda>(i, k). InSpan i k) S" for S by (auto simp: inj_on_def)
  have fin: "finite (?slots i)" for i by (auto split: option.split)
  have "(\<Sum>loc \<in> {InSpan i k |i k. obj_at st (InSpan i k) \<noteq> None}. obj_size st loc) =
      (\<Sum>(i, k) \<in> (SIGMA i:{..<length (spans st)}. ?slots i). obj_size st (InSpan i k))"
    unfolding img by (subst sum.reindex [OF inj]) (simp add: case_prod_unfold comp_def)
  also have "\<dots> = (\<Sum>i < length (spans st). \<Sum>k \<in> ?slots i. obj_size st (InSpan i k))"
    using fin by (subst sum.Sigma) auto
  also have "\<dots> = (\<Sum>i < length (spans st). ?f (spans st ! i))"
  proof (rule sum.cong [OF refl])
    fix i assume "i \<in> {..<length (spans st)}"
    then have i: "i < length (spans st)" by simp
    show "(\<Sum>k \<in> ?slots i. obj_size st (InSpan i k)) = ?f (spans st ! i)"
    proof (cases "spans st ! i")
      case (Some s)
      have at: "span_at (spans st) i = Some s" using i Some by (simp add: span_at_def)
      then have "live_count s = card (slots_of (alloc_bits s))" using assms by (auto simp: spans_ok_def span_core_def)
      moreover have "obj_size st (InSpan i k) = elem_size s" if "k \<in> slots_of (alloc_bits s)" for k
        using that at by (simp add: obj_size_def obj_at_def slots_of_def)
      ultimately show ?thesis using Some by simp
    qed simp
  qed
  also have "\<dots> = span_bytes (spans st)"
    by (simp add: span_bytes_def sum_list_sum_nth atLeast0LessThan)
  finally show ?thesis by simp
qed

lemma heap_bytes_sum:
  assumes "heap_core st"
  shows "heap_bytes st = (\<Sum>loc \<in> live_locs st. obj_size st loc)"
proof -
  let ?S = "{InSpan i k |i k. obj_at st (InSpan i k) \<noteq> None}" and ?L = "InLarge ` {..<length (large st)}"
  have "live_locs st = ?S \<union> ?L"
  proof (rule loc_set_eqI)
    show "InLarge j \<in> live_locs st \<longleftrightarrow> InLarge j \<in> ?S \<union> ?L" for j by (auto simp: obj_at_def split: if_splits)
  qed auto
  moreover have "finite (live_locs st)" by (rule finite_live_locs)
  ultimately have "(\<Sum>loc \<in> live_locs st. obj_size st loc) = (\<Sum>loc \<in> ?S. obj_size st loc) + (\<Sum>loc \<in> ?L. obj_size st loc)"
    by (simp only: finite_Un) (rule sum.union_disjoint, auto)
  moreover have "(\<Sum>loc \<in> ?L. obj_size st loc) = sum_list (map lo_size (large st))"
  proof -
    have "(\<Sum>loc \<in> ?L. obj_size st loc) = (\<Sum>j < length (large st). obj_size st (InLarge j))"
      by (subst sum.reindex) (auto simp: inj_on_def)
    also have "\<dots> = (\<Sum>j < length (large st). lo_size (large st ! j))"
      by (rule sum.cong) (auto simp: obj_size_def obj_at_def)
    finally show ?thesis by (simp add: sum_list_sum_nth atLeast0LessThan)
  qed
  ultimately show ?thesis using span_bytes_sum [OF heap_coreD(1) [OF assms]] by (simp add: heap_bytes_def)
qed

lemma heap_bytes_alloc:
  assumes "heap_core st" "alloc_contract st want tid black raw n st'"
  shows "heap_bytes st' = heap_bytes st + n"
proof -
  obtain loc where loc: "obj_at st loc = None" "obj_at st' = (obj_at st)(loc \<mapsto> (raw, n, tid))"
    and core: "heap_core st'" using assms(2) by (auto simp: alloc_contract_def)
  have "live_locs st' = insert loc (live_locs st)" "loc \<notin> live_locs st" using loc by auto
  moreover have "obj_size st' loc = n" "\<And>l. l \<noteq> loc \<Longrightarrow> obj_size st' l = obj_size st l" using loc by (simp_all add: obj_size_def)
  ultimately have "(\<Sum>l \<in> live_locs st'. obj_size st' l) = n + (\<Sum>l \<in> live_locs st. obj_size st l)"
    using finite_live_locs [of st] by (simp add: sum.insert) (metis (mono_tags, lifting) sum.cong)
  then show ?thesis using heap_bytes_sum [OF assms(1)] heap_bytes_sum [OF core] by simp
qed

lemma heap_step_keeps: "heap_step cm h h' \<Longrightarrow> step_keeps cm h h'"
proof (induction rule: heap_step.induct)
  case (register tid info h st)
  then show ?case
    using register_type_heap_core [OF register]
    by (auto simp: step_keeps_def heap_sound_def counter_gap_def heap_bytes_def)
next
  case (allocate black sz tid h raw h')
  show ?case unfolding step_keeps_def
  proof
    assume sound: "heap_sound (hstate h)"
    have ty: "type_info (hstate h) tid \<noteq> None" using allocate(1) by (auto simp: alloc_def split: if_splits)
    obtain n where c: "alloc_contract (hstate h) sz tid black raw n (hstate h')"
      "live_bytes h' = live_bytes h + word_of_nat n"
      using alloc_total [OF _ _ ty allocate(3,4), of black] allocate(1) sound by (auto simp: heap_sound_def)
    then show "heap_sound (hstate h') \<and> counter_gap h' = counter_gap h \<and>
        mset (pending_finalizer_roots (hstate h')) = mset (pending_finalizer_roots (hstate h)) \<and>
        (\<not> cm \<and> quiet (hstate h) \<longrightarrow> quiet (hstate h'))"
      using heap_bytes_alloc [OF _ c(1)] allocate(2) sound
      by (auto simp: alloc_contract_def alloc_frame_def heap_sound_def counter_gap_def)
  qed
next
  case (sys_refill h sys)
  then show ?case by (simp add: step_keeps_def heap_sound_def heap_core_def quiet_def counter_gap_def heap_bytes_def)
next
  case (store h loc x v)
  then show ?case using write_sound [of "hstate h"] by (simp add: step_keeps_def quiet_def counter_gap_def heap_bytes_def)
next
  case (collection roots run_fin h h')
  have fin: "step_keeps cm g (run_fin f a g)" for f a g using collection(3) by (rule steps_keep)
  show ?case
  proof (cases "heap_sound (hstate h)")
    case True
    then have "heap_wf (hstate h)" using collection(2) by (simp add: heap_wf_sound)
    from collect_spec [of h cm run_fin roots, OF this fin] show ?thesis using collection(1) by auto
  qed (simp add: step_keeps_def)
qed

lemma cycle_result_object:
  assumes "cycle_result roots st pending det n st'" "loc \<in> retained roots st" "obj_at st loc = Some (start, sz, tid)"
  shows "\<exists>loc'. obj_at st' loc' = Some (start, sz, tid) \<and> (obj_finalized st' loc' \<longleftrightarrow> obj_finalized st loc \<or> loc \<in> dying roots st)"
proof -
  have "(start, sz, tid, obj_finalized st loc \<or> loc \<in> dying roots st) \<in> after_cycle roots st"
    using assms(2,3) by (auto simp: after_cycle_def)
  then have "(start, sz, tid, obj_finalized st loc \<or> loc \<in> dying roots st) \<in> heap_objects st' UNIV"
    using assms(1) by (simp add: cycle_result_def)
  then show ?thesis by (auto simp: heap_objects_def)
qed

lemma obj_start_unique:
  assumes "heap_core st" "obj_at st loc = Some (start, sz, tid)" "obj_at st loc' = Some (start, sz', tid')"
  shows "loc = loc'"
proof -
  let ?st = "prepare_large_index st"
  have core: "heap_core ?st" by (rule heap_core_prepare [OF assms(1)])
  have "obj_range ?st loc start" "obj_range ?st loc' start" using obj_size_pos [OF assms(1)] assms(2,3) by (auto simp: obj_range_def)
  then have "locate ?st start = Some loc" "locate ?st start = Some loc'"
    using locate_iff [OF core] by simp_all
  then show ?thesis by simp
qed

section \<open>Sample heaps\<close>

text \<open>
  Two large objects, a young one that points to an old one, and a heap with one old object that
  has a finalizer.
\<close>

definition pair_type :: gc_type_info where
  "pair_type = \<lparr>ti_size = 2048, ti_trace = (\<lambda>m a. if a = 4096 then [8192] else []), ti_finalize = None\<rparr>"

definition pair_heap :: heap_state where
  "pair_heap = (heap_state_new (\<lambda>_. 0) [])\<lparr>types := [Some pair_type],
     large := [\<lparr>lo_start = 4096, lo_size = 2048, lo_type_id = 0, color = White, young = True, finalized = False\<rparr>,
               \<lparr>lo_start = 8192, lo_size = 2048, lo_type_id = 0, color = White, young = False, finalized = False\<rparr>],
     large_index_dirty := True\<rparr>"

definition final_type :: gc_type_info where
  "final_type = \<lparr>ti_size = 2048, ti_trace = (\<lambda>m a. []), ti_finalize = Some 7\<rparr>"

definition final_heap :: heap_state where
  "final_heap = (heap_state_new (\<lambda>_. 0) [])\<lparr>types := [Some final_type],
     large := [\<lparr>lo_start = 4096, lo_size = 2048, lo_type_id = 0, color = White, young = False, finalized = False\<rparr>],
     large_index_dirty := True\<rparr>"

lemma only_large_wf:
  assumes "heap_wf st" "large_ok [] ls" "\<forall>l \<in> set ls. color l = White \<and> type_lookup ts (lo_type_id l) \<noteq> None"
    "length ts \<le> MAX_TYPE_ID" "spans st = []"
  shows "heap_wf (st\<lparr>types := ts, large := ls, large_index_dirty := True\<rparr>)"
  using assms by (auto simp: heap_wf_def heap_core_def lindex_ok_def types_ok_def quiet_def span_at_def)

lemma pair_heap_wf: "heap_wf pair_heap"
  unfolding pair_heap_def
  by (rule only_large_wf [OF heap_new_wf])
    (auto simp: large_ok_def disj_def less_Suc_eq span_at_def type_lookup_def MAX_TYPE_ID_def heap_state_new_def)

lemma final_heap_wf: "heap_wf final_heap"
  unfolding final_heap_def
  by (rule only_large_wf [OF heap_new_wf])
    (auto simp: large_ok_def span_at_def type_lookup_def MAX_TYPE_ID_def heap_state_new_def)

lemma pair_heap_graph:
  "obj_at pair_heap (InLarge 0) = Some (4096, 2048, 0)" "obj_at pair_heap (InLarge (Suc 0)) = Some (8192, 2048, 0)"
  "obj_young pair_heap (InLarge 0)" "\<not> obj_young pair_heap (InLarge (Suc 0))"
  "type_info pair_heap 0 = Some pair_type"
  by (simp_all add: obj_at_def obj_young_def pair_heap_def heap_state_new_def type_info_def type_lookup_def)

lemma located_object:
  assumes "heap_core st" "obj_at st loc = Some (start, sz, tid)" "start \<le> p" "p < start + sz"
  shows "locate (prepare_large_index st) p = Some loc"
  using locate_iff [OF heap_core_prepare [OF assms(1)]] assms(2-) by (auto simp: obj_range_def)

lemma pair_heap_located:
  "locate (prepare_large_index pair_heap) 4100 = Some (InLarge 0)" "locate (prepare_large_index pair_heap) 8192 = Some (InLarge (Suc 0))"
  using pair_heap_wf by (auto simp: heap_wf_def intro!: located_object pair_heap_graph)

lemma reach_empty [simp]: "reach succ {} = {}"
  by (simp add: reach_def)

lemma pair_heap_unrooted: "after_cycle [] pair_heap = {(4096, 2048, 0, False)}" "traced pair_heap (4096, 0) = [8192]"
proof -
  have d: "dying [] pair_heap = {}"
  proof -
    have "\<not> has_finalizer pair_heap tid" for tid
      by (cases tid) (auto simp: has_finalizer_def type_info_def type_lookup_def pair_heap_def pair_type_def split: if_splits)
    then show ?thesis by (simp add: dying_def)
  qed
  have "cycle_roots [] pair_heap = {}" by (simp add: cycle_roots_def pair_heap_def heap_state_new_def)
  moreover have "{loc. obj_young pair_heap loc} = {InLarge 0}"
    by (rule loc_set_eqI)
      (auto simp: obj_young_def pair_heap_def heap_state_new_def span_at_def less_Suc_eq)
  ultimately have "retained [] pair_heap = {InLarge 0}" by (simp add: retained_def d)
  then show "after_cycle [] pair_heap = {(4096, 2048, 0, False)}"
    using pair_heap_graph(1) d
    by (auto simp: after_cycle_def obj_finalized_def pair_heap_def)
  show "traced pair_heap (4096, 0) = [8192]" by (simp add: traced_def pair_heap_graph(5) pair_type_def)
qed

lemma final_heap_dying: "dying [] final_heap = {InLarge 0}" "obj_at final_heap (InLarge 0) = Some (4096, 2048, 0)"
  "obj_at final_heap loc = Some x \<longleftrightarrow> loc = InLarge 0 \<and> x = (4096, 2048, 0)"
proof -
  show o: "obj_at final_heap (InLarge 0) = Some (4096, 2048, 0)" by (simp add: obj_at_def final_heap_def)
  have "cycle_roots [] final_heap = {}" by (simp add: cycle_roots_def final_heap_def heap_state_new_def)
  moreover have "has_finalizer final_heap 0"
    by (simp add: has_finalizer_def type_info_def type_lookup_def final_heap_def final_type_def)
  moreover have "\<not> obj_young final_heap (InLarge 0)" "\<not> obj_finalized final_heap (InLarge 0)"
    by (simp_all add: obj_young_def obj_finalized_def final_heap_def)
  moreover have n: "obj_at final_heap loc = None" if "loc \<noteq> InLarge 0" for loc
    using that by (cases loc) (auto simp: obj_at_def final_heap_def heap_state_new_def span_at_def)
  ultimately show "dying [] final_heap = {InLarge 0}" using o unfolding dying_def by force
  show "obj_at final_heap loc = Some x \<longleftrightarrow> loc = InLarge 0 \<and> x = (4096, 2048, 0)"
    using o n [of loc] by (cases "loc = InLarge 0") auto
qed

lemma final_heap_cycles:
  "\<exists>e det n st det2 n2 st2. collect_locked [] final_heap = Some (Inr ([e], det, n, st)) \<and>
     collect_locked [] st = Some (Inr ([], det2, n2, st2))"
proof -
  obtain p det n st where c: "collect_locked [] final_heap = Some (Inr (p, det, n, st))" "cycle_result [] final_heap p det n st"
    using collect_locked_spec [OF final_heap_wf] by blast
  have locs: "pf_location ` set p = {InLarge 0}" "distinct (map pf_location p)"
    using c(2) final_heap_dying(1) by (auto simp: cycle_result_def)
  then have "card (set (map pf_location p)) = 1" by simp
  then have "length p = Suc 0" using distinct_card [OF locs(2)] by simp
  then obtain e where p: "p = [e]" by (cases p) auto
  have e: "pf_start e = 4096" using c(2) final_heap_dying(2) locs(1) by (auto simp: cycle_result_def p)
  have wf: "heap_wf st" and roots: "pending_finalizer_roots st = [4096]"
    using c(2) e by (auto simp: cycle_result_def p final_heap_def heap_state_new_def)
  have core: "heap_core st" using wf by (simp add: heap_wf_def)
  have obj: "heap_objects st UNIV = {(4096, 2048, 0, True)}"
  proof -
    have "InLarge 0 \<in> retained [] final_heap"
      using final_heap_dying(1) reach_base [of "cycle_roots [] final_heap \<union> dying [] final_heap" "live_graph final_heap"]
      by (auto simp: retained_def)
    then have "after_cycle [] final_heap = {(4096, 2048, 0, True)}"
      by (auto simp: after_cycle_def final_heap_dying(1,3))
    then show ?thesis using c(2) by (simp add: cycle_result_def)
  qed
  obtain p2 det2 n2 st2 where c2: "collect_locked [] st = Some (Inr (p2, det2, n2, st2))" "cycle_result [] st p2 det2 n2 st2"
    using collect_locked_spec [OF wf] by blast
  have "dying [] st = {}"
  proof -
    have "obj_finalized st loc" if "obj_at st loc = Some (a, z, t)" for loc a z t
    proof -
      have "(a, z, t, obj_finalized st loc) \<in> heap_objects st UNIV" using that by (auto simp: heap_objects_def)
      then show ?thesis using obj by simp
    qed
    then show ?thesis by (auto simp: dying_def)
  qed
  then have "p2 = []" using c2(2) by (simp add: cycle_result_def)
  then show ?thesis using c(1) c2(1) p by blast
qed

definition nested_finalizer :: "nat \<Rightarrow> addr \<Rightarrow> heap \<Rightarrow> heap" where
  "nested_finalizer f a h = (case collect [] (\<lambda>_ _ h. h) h of Some (Inr h') \<Rightarrow> h' | _ \<Rightarrow> h)"

section \<open>Properties\<close>

text \<open>
  Pointer classification is exact: on a heap that satisfies the invariant a pointer resolves
  to the start of the one object whose bytes it points into, interior pointers included, and to
  nothing when there is none; it never fails, and no object changes.
\<close>

theorem classify_pointer_exact:
  assumes "heap_core st"
  shows "\<exists>r. classify_pointer a st = Inr (r, prepare_large_index st) \<and>
    obj_at (prepare_large_index st) = obj_at st \<and>
    (r = Some start \<longleftrightarrow> (\<exists>loc sz tid. obj_at st loc = Some (start, sz, tid) \<and> start \<le> a \<and> a < start + sz))"
proof -
  have l: "locate (prepare_large_index st) a = Some loc \<longleftrightarrow> obj_range st loc a" for loc
    using locate_iff [OF heap_core_prepare [OF assms]] by (simp add: obj_range_def)
  let ?r = "case locate (prepare_large_index st) a of None \<Rightarrow> None | Some loc \<Rightarrow> map_option fst (obj_at st loc)"
  have "?r = Some start \<longleftrightarrow> (\<exists>loc sz tid. obj_at st loc = Some (start, sz, tid) \<and> start \<le> a \<and> a < start + sz)"
  proof (cases "locate (prepare_large_index st) a")
    case None
    then have "\<not> obj_range st loc a" for loc using l by (metis option.distinct(1))
    then show ?thesis using None by (auto simp: obj_range_def)
  next
    case (Some loc)
    have u: "loc' = loc" if "obj_range st loc' a" for loc' using that Some by (simp flip: l)
    have "obj_range st loc a" using Some by (simp flip: l)
    then obtain b z t where b: "obj_at st loc = Some (b, z, t)" "b \<le> a" "a < b + z" by (auto simp: obj_range_def)
    have "loc' = loc" if "obj_at st loc' = Some (start, z', t')" "start \<le> a" "a < start + z'" for loc' z' t'
      using that by (intro u) (simp add: obj_range_def)
    then show ?thesis using Some b by fastforce
  qed
  then show ?thesis using classify_locate [OF assms, of a] by simp
qed

theorem classify_pointer_exact_witness:
  "\<exists>r. classify_pointer 4100 pair_heap = Inr (r, prepare_large_index pair_heap) \<and>
    obj_at (prepare_large_index pair_heap) = obj_at pair_heap \<and>
    (r = Some 4096 \<longleftrightarrow> (\<exists>loc sz tid. obj_at pair_heap loc = Some (4096, sz, tid) \<and> 4096 \<le> (4100 :: addr) \<and> 4100 < 4096 + sz))"
  using pair_heap_wf by (intro classify_pointer_exact) (simp add: heap_wf_def)

text \<open>
  C22.  The mark phase is exact: from a heap between collections, marking the root pointers and
  draining the queues ends without an error, and the marked objects are precisely those
  reachable, through the registered trace callbacks, from the objects the roots point into;
  every marked object has been scanned and nothing but mark state has changed.
\<close>

theorem mark_phase_exact:
  assumes "heap_wf st"
  shows "\<exists>st1 st2. mark_pointers roots (prepare_large_index st) = Inr st1 \<and> drain_marks st1 = Some (Inr st2) \<and>
    marked st2 = reach (children (prepare_large_index st)) (located (prepare_large_index st) roots) \<and>
    scanned st2 = marked st2 \<and> queues_empty st2 \<and> erase st2 = erase (prepare_large_index st)"
  using mark_phase [OF assms, of roots] unfolding mark_inv_def by blast

theorem mark_phase_exact_witness:
  "\<exists>st1 st2. mark_pointers [4100] (prepare_large_index pair_heap) = Inr st1 \<and> drain_marks st1 = Some (Inr st2) \<and>
    marked st2 = reach (children (prepare_large_index pair_heap)) (located (prepare_large_index pair_heap) [4100]) \<and>
    scanned st2 = marked st2 \<and> queues_empty st2 \<and> erase st2 = erase (prepare_large_index pair_heap)"
  by (rule mark_phase_exact [OF pair_heap_wf])

text \<open>
  C1.  A collection cycle under the lock is exact: it always ends without an error; the objects
  left, with their starts, sizes and types, are those reachable from the roots, from the objects
  whose finalizers are in flight or due, and the young ones; the due finalizers are those of the
  unreached, aged objects that were never finalized, each listed once and flagged; the
  invariant holds again; no memory changes; the reclaimed count is the decrease of the heap's size;
  and no detached block overlaps an object that is left.
\<close>

theorem collect_locked_exact:
  assumes "heap_wf st"
  shows "\<exists>pending det n st'. collect_locked roots st = Some (Inr (pending, det, n, st')) \<and>
    heap_wf st' \<and> heap_objects st' UNIV = after_cycle roots st \<and>
    distinct (map pf_location pending) \<and> pf_location ` set pending = dying roots st \<and>
    mem st' = mem st \<and> n + heap_bytes st' = heap_bytes st \<and>
    (\<forall>d \<in> set det. \<forall>loc x. obj_range st' loc x \<longrightarrow> x < fst d \<or> fst d + fst (snd d) \<le> x)"
  using collect_locked_spec [OF assms, of roots] unfolding cycle_result_def by blast

theorem collect_locked_exact_witness:
  "\<exists>pending det n st'. collect_locked [4100] pair_heap = Some (Inr (pending, det, n, st')) \<and>
    heap_wf st' \<and> heap_objects st' UNIV = after_cycle [4100] pair_heap \<and>
    distinct (map pf_location pending) \<and> pf_location ` set pending = dying [4100] pair_heap \<and>
    mem st' = mem pair_heap \<and> n + heap_bytes st' = heap_bytes pair_heap \<and>
    (\<forall>d \<in> set det. \<forall>loc x. obj_range st' loc x \<longrightarrow> x < fst d \<or> fst d + fst (snd d) \<le> x)"
  by (rule collect_locked_exact [OF pair_heap_wf])

text \<open>
  C21.  No reachable object is lost: an object that a chain of traced pointers links to a root, or to
  an object whose finalizer is running, is in the heap after the collection at the same address
  with the same size and type, its bytes unchanged and not finalized by the cycle.
\<close>

theorem reachable_object_survives:
  assumes "heap_wf st" "obj_at st loc = Some (start, sz, tid)"
    and "loc \<in> reach (live_graph st) (cycle_roots roots st)"
  shows "\<exists>pending det n st' loc'. collect_locked roots st = Some (Inr (pending, det, n, st')) \<and>
    obj_at st' loc' = Some (start, sz, tid) \<and> obj_finalized st' loc' = obj_finalized st loc \<and>
    start \<notin> set (map pf_start pending) \<and> mem st' = mem st"
proof -
  obtain pending det n st' where c: "collect_locked roots st = Some (Inr (pending, det, n, st'))"
    "cycle_result roots st pending det n st'" using collect_locked_spec [OF assms(1)] by blast
  have core: "heap_core st" using assms(1) by (simp add: heap_wf_def)
  have nd: "loc \<notin> dying roots st" using assms(3) by (simp add: dying_def)
  have "loc \<in> retained roots st"
    using assms(3) reach_mono [of "cycle_roots roots st" "cycle_roots roots st \<union> dying roots st"] by (auto simp: retained_def)
  then obtain loc' where "obj_at st' loc' = Some (start, sz, tid)" "obj_finalized st' loc' = obj_finalized st loc"
    using cycle_result_object [OF c(2) _ assms(2)] nd by auto
  moreover have "start \<notin> set (map pf_start pending)"
  proof
    assume "start \<in> set (map pf_start pending)"
    then obtain e where e: "e \<in> set pending" "pf_start e = start" by auto
    then obtain z t where "obj_at st (pf_location e) = Some (start, z, t)" using c(2) by (auto simp: cycle_result_def)
    then have "pf_location e = loc" using obj_start_unique [OF core] assms(2) by blast
    then show False using c(2) e(1) nd by (auto simp: cycle_result_def)
  qed
  ultimately show ?thesis using c by (auto simp: cycle_result_def)
qed

theorem reachable_object_survives_witness:
  "\<exists>pending det n st' loc'. collect_locked [4100] pair_heap = Some (Inr (pending, det, n, st')) \<and>
    obj_at st' loc' = Some (8192, 2048, 0) \<and> obj_finalized st' loc' = obj_finalized pair_heap (InLarge (Suc 0)) \<and>
    8192 \<notin> set (map pf_start pending) \<and> mem st' = mem pair_heap"
proof (rule reachable_object_survives [OF pair_heap_wf pair_heap_graph(2)])
  let ?R = "cycle_roots [4100] pair_heap"
  have "InLarge 0 \<in> ?R" unfolding cycle_roots_def located_def using pair_heap_located(1) by auto
  then have "InLarge 0 \<in> reach (live_graph pair_heap) ?R" using reach_base [of ?R "live_graph pair_heap"] by blast
  moreover have "InLarge (Suc 0) \<in> live_graph pair_heap (InLarge 0)"
    using pair_heap_located(2)
    by (simp add: live_graph_def children_def traced_def pair_heap_graph(1,5) pair_type_def located_def)
  ultimately show "InLarge (Suc 0) \<in> reach (live_graph pair_heap) ?R" using reach_succ [of "InLarge 0" "live_graph pair_heap" ?R] by blast
qed

text \<open>
  A finalizer runs at most once: the objects whose finalizers are due in one cycle, with
  everything they reach, are in the heap after it, and none of them is due again in the
  following cycle, whatever its roots.
\<close>

theorem finalizer_at_most_once:
  assumes "heap_wf st"
  shows "\<exists>p1 d1 n1 st1 p2 d2 n2 st2.
    collect_locked roots st = Some (Inr (p1, d1, n1, st1)) \<and> collect_locked roots' st1 = Some (Inr (p2, d2, n2, st2)) \<and>
    pf_start ` set p1 \<inter> pf_start ` set p2 = {} \<and>
    (\<forall>loc \<in> reach (live_graph st) (pf_location ` set p1). \<forall>start sz tid.
       obj_at st loc = Some (start, sz, tid) \<longrightarrow> (\<exists>loc'. obj_at st1 loc' = Some (start, sz, tid)))"
proof -
  obtain p1 d1 n1 st1 where c1: "collect_locked roots st = Some (Inr (p1, d1, n1, st1))" "cycle_result roots st p1 d1 n1 st1"
    using collect_locked_spec [OF assms] by blast
  then have wf1: "heap_wf st1" by (simp add: cycle_result_def)
  then obtain p2 d2 n2 st2 where c2: "collect_locked roots' st1 = Some (Inr (p2, d2, n2, st2))" "cycle_result roots' st1 p2 d2 n2 st2"
    using collect_locked_spec by blast
  have core1: "heap_core st1" using wf1 by (simp add: heap_wf_def)
  have sub: "reach (live_graph st) (pf_location ` set p1) \<subseteq> retained roots st"
    using c1(2) reach_mono [of "dying roots st" "cycle_roots roots st \<union> dying roots st"]
    by (auto simp: retained_def cycle_result_def)
  have "pf_start e1 \<noteq> pf_start e2" if e: "e1 \<in> set p1" "e2 \<in> set p2" for e1 e2
  proof
    assume eq: "pf_start e1 = pf_start e2"
    obtain z t where o: "obj_at st (pf_location e1) = Some (pf_start e1, z, t)" using c1(2) e(1) by (auto simp: cycle_result_def)
    have d: "pf_location e1 \<in> dying roots st" using c1(2) e(1) by (auto simp: cycle_result_def)
    then have "pf_location e1 \<in> retained roots st"
      using sub reach_base [of "pf_location ` set p1" "live_graph st"] e(1) by auto
    then obtain l where l: "obj_at st1 l = Some (pf_start e1, z, t)" "obj_finalized st1 l"
      using cycle_result_object [OF c1(2) _ o] d by auto
    obtain z' t' where o2: "obj_at st1 (pf_location e2) = Some (pf_start e2, z', t')" using c2(2) e(2) by (auto simp: cycle_result_def)
    have "pf_location e2 \<in> dying roots' st1" using c2(2) e(2) by (auto simp: cycle_result_def)
    then have "\<not> obj_finalized st1 (pf_location e2)" by (simp add: dying_def)
    then show False using obj_start_unique [OF core1 l(1) o2 [folded eq]] l(2) by simp
  qed
  moreover have "\<exists>loc'. obj_at st1 loc' = Some (start, sz, tid)"
    if "loc \<in> reach (live_graph st) (pf_location ` set p1)" "obj_at st loc = Some (start, sz, tid)" for loc start sz tid
    using cycle_result_object [OF c1(2) _ that(2)] sub that(1) by blast
  ultimately show ?thesis
    using c1(1) c2(1)
    by (intro exI [of _ p1] exI [of _ d1] exI [of _ n1] exI [of _ st1] exI [of _ p2] exI [of _ d2] exI [of _ n2] exI [of _ st2]) auto
qed

theorem finalizer_at_most_once_witness:
  "\<exists>p1 d1 n1 st1 p2 d2 n2 st2.
    collect_locked [] final_heap = Some (Inr (p1, d1, n1, st1)) \<and> collect_locked [] st1 = Some (Inr (p2, d2, n2, st2)) \<and>
    pf_start ` set p1 \<inter> pf_start ` set p2 = {} \<and>
    (\<forall>loc \<in> reach (live_graph final_heap) (pf_location ` set p1). \<forall>start sz tid.
       obj_at final_heap loc = Some (start, sz, tid) \<longrightarrow> (\<exists>loc'. obj_at st1 loc' = Some (start, sz, tid)))"
  by (rule finalizer_at_most_once [OF final_heap_wf])

text \<open>
  C17.  The invariant of the heap's life: whatever sequence of registrations, allocations (black ones during
  concurrent marking included), writes into live objects and collections on an unmarked heap a fresh heap goes through,
  with finalizers that do any sequence of the same operations, nested collections included, its data
  structures are consistent and the lock-free counter of live bytes is the total size of the objects in
  the heap, modulo its width.  Outside of concurrent marking, no mark is left over between steps, so every
  collection starts on an unmarked heap.
\<close>

theorem reachable_heap_invariant:
  assumes "(heap_step cm)\<^sup>*\<^sup>* (heap_new m sys) h"
  shows "heap_core (hstate h) \<and> marks_ok (spans (hstate h)) \<and> (\<not> cm \<longrightarrow> quiet (hstate h)) \<and>
    live_bytes h = word_of_nat (\<Sum>loc \<in> live_locs (hstate h). obj_size (hstate h) loc)"
proof -
  have "step_keeps cm (heap_new m sys) h"
    using assms by (induction rule: rtranclp_induct) (auto intro: step_keeps_trans heap_step_keeps)
  moreover have "heap_wf (hstate (heap_new m sys))" "counter_gap (heap_new m sys) = 0"
    using heap_new_wf by (simp_all add: heap_new_def counter_gap_def heap_bytes_def span_bytes_def heap_state_new_def)
  ultimately have "heap_sound (hstate h) \<and> (\<not> cm \<longrightarrow> quiet (hstate h)) \<and> counter_gap h = 0"
    by (auto simp: step_keeps_def heap_wf_sound)
  then show ?thesis using heap_bytes_sum [of "hstate h"] by (auto simp: heap_sound_def counter_gap_def)
qed

text \<open>
  A life with an object: a type is registered, an object allocated and written to, and a collection runs with a finalizer
  that allocates whenever it can.
\<close>

definition busy_finalizer :: "nat \<Rightarrow> addr \<Rightarrow> heap \<Rightarrow> heap" where
  "busy_finalizer f a h =
     (case alloc False 24 0 h of
        Inr (_, h') \<Rightarrow> if sys_ready (hstate h) (alloc_layout 24) then h' else h
      | Inl _ \<Rightarrow> h)"

lemma busy_finalizer_steps: "(heap_step cm)\<^sup>*\<^sup>* h (busy_finalizer f a h)"
proof (cases "\<exists>raw h'. alloc False 24 0 h = Inr (raw, h') \<and> sys_ready (hstate h) (alloc_layout 24)")
  case True
  then obtain raw h' where "alloc False 24 0 h = Inr (raw, h')" "sys_ready (hstate h) (alloc_layout 24)" by blast
  then have "heap_step cm h h'" "busy_finalizer f a h = h'"
    using heap_step.allocate [of False 24 0 h raw h' cm] by (simp_all add: busy_finalizer_def)
  then show ?thesis by auto
next
  case False
  then have "busy_finalizer f a h = h" by (auto simp: busy_finalizer_def split: sum.split)
  then show ?thesis by simp
qed

lemma sample_life:
  "\<exists>h1 h2 h3 loc. (heap_step False)\<^sup>*\<^sup>* (heap_new (\<lambda>_. 7) [65536]) h1 \<and> obj_at (hstate h1) loc \<noteq> None \<and>
    heap_step False h1 h2 \<and> collect [] busy_finalizer h2 = Some (Inr h3) \<and> heap_step False h2 h3"
proof -
  have "heap_step False (heap_new (\<lambda>_. 7) [65536]) ((heap_new (\<lambda>_. 7) [65536])\<lparr>hstate := hstate sample_heap\<rparr>)"
    using sample_heap_register by (intro heap_step.register) (simp add: heap_new_def)
  then have s1: "heap_step False (heap_new (\<lambda>_. 7) [65536]) sample_heap" by (simp add: sample_heap_def)
  obtain raw n h1 where a: "alloc False 24 0 sample_heap = Inr (raw, h1)"
    "alloc_contract (hstate sample_heap) 24 0 False raw n (hstate h1)"
    using alloc_total [OF _ _ sample_heap_ready(2,1), of False] sample_heap_wf by (auto simp: heap_wf_def)
  have s2: "heap_step False sample_heap h1"
    using heap_step.allocate [OF a(1), of False] sample_heap_ready(1) by simp
  obtain loc where loc: "obj_at (hstate h1) loc = Some (raw, n, 0)" "24 \<le> n"
    using a(2) unfolding alloc_contract_def by (metis fun_upd_same)
  then have "obj_range (hstate h1) loc raw" by (auto simp: obj_range_def)
  then have s3: "heap_step False h1 (h1\<lparr>hstate := (hstate h1)\<lparr>mem := (mem (hstate h1))(raw := 9)\<rparr>\<rparr>)" (is "heap_step False h1 ?h2")
    by (rule heap_step.store)
  have r1: "(heap_step False)\<^sup>*\<^sup>* (heap_new (\<lambda>_. 7) [65536]) h1" using s1 s2 by auto
  then have "(heap_step False)\<^sup>*\<^sup>* (heap_new (\<lambda>_. 7) [65536]) ?h2" using s3 by auto
  then have "step_keeps False (heap_new (\<lambda>_. 7) [65536]) ?h2"
    by (induction rule: rtranclp_induct) (auto intro: step_keeps_trans heap_step_keeps)
  then have wf: "heap_wf (hstate ?h2)" using heap_new_wf by (auto simp: step_keeps_def heap_wf_sound heap_new_def)
  have "step_keeps False g (busy_finalizer f a g)" for f a g
    using busy_finalizer_steps [of False g f a] by (induction rule: rtranclp_induct) (auto intro: step_keeps_trans heap_step_keeps)
  then obtain h3 where c: "collect [] busy_finalizer ?h2 = Some (Inr h3)" using collect_spec [OF wf] by blast
  then have "heap_step False ?h2 h3"
    using wf busy_finalizer_steps by (intro heap_step.collection [OF c]) (auto simp: heap_wf_sound)
  with r1 loc(1) s3 c show ?thesis by blast
qed

theorem reachable_heap_invariant_witness:
  "\<exists>h1 h2 h3 loc. (heap_step False)\<^sup>*\<^sup>* (heap_new (\<lambda>_. 7) [65536]) h1 \<and> obj_at (hstate h1) loc \<noteq> None \<and>
    heap_step False h1 h2 \<and> collect [] busy_finalizer h2 = Some (Inr h3) \<and>
    heap_core (hstate h3) \<and> quiet (hstate h3) \<and>
    live_bytes h3 = word_of_nat (\<Sum>loc \<in> live_locs (hstate h3). obj_size (hstate h3) loc)"
proof -
  obtain h1 h2 h3 loc where life: "(heap_step False)\<^sup>*\<^sup>* (heap_new (\<lambda>_. 7) [65536]) h1" "obj_at (hstate h1) loc \<noteq> None"
    "heap_step False h1 h2" "collect [] busy_finalizer h2 = Some (Inr h3)" "heap_step False h2 h3"
    using sample_life by blast
  then have "(heap_step False)\<^sup>*\<^sup>* (heap_new (\<lambda>_. 7) [65536]) h3" by auto
  from reachable_heap_invariant [OF this] life show ?thesis by blast
qed

text \<open>
  The age gate keeps a young object without tracing it: in this heap a young, unreached object
  holds a pointer to an old one; the cycle keeps the young object and frees the old one, so the
  surviving object is left with a pointer to memory that belongs to no object.
\<close>

theorem young_object_keeps_dangling_pointer:
  "\<exists>pending det n st' loc. heap_wf pair_heap \<and> collect_locked [] pair_heap = Some (Inr (pending, det, n, st')) \<and>
    obj_at st' loc = Some (4096, 2048, 0) \<and> set (traced st' (4096, 0)) = {8192} \<and>
    (\<exists>loc. obj_range pair_heap loc 8192) \<and> (\<forall>loc'. \<not> obj_range st' loc' 8192)"
proof -
  obtain pending det n st' where c: "collect_locked [] pair_heap = Some (Inr (pending, det, n, st'))"
    "cycle_result [] pair_heap pending det n st'" using collect_locked_spec [OF pair_heap_wf] by blast
  have objs: "heap_objects st' UNIV = {(4096, 2048, 0, False)}" using c(2) pair_heap_unrooted by (simp add: cycle_result_def)
  then have "(4096, 2048, 0, False) \<in> heap_objects st' UNIV" by simp
  then obtain loc where "obj_at st' loc = Some (4096, 2048, 0)" by (auto simp: heap_objects_def)
  moreover have "\<not> obj_range st' loc' 8192" for loc'
  proof
    assume "obj_range st' loc' 8192"
    then obtain a z t where a: "obj_at st' loc' = Some (a, z, t)" "a \<le> 8192" "8192 < a + z" by (auto simp: obj_range_def)
    then have "(a, z, t, obj_finalized st' loc') \<in> heap_objects st' UNIV" by (auto simp: heap_objects_def)
    then show False using a objs by simp
  qed
  moreover have "traced st' (4096, 0) = [8192]"
  proof -
    have "types st' = types pair_heap" "mem st' = mem pair_heap" using c(2) by (auto simp: cycle_result_def)
    then have "traced st' = traced pair_heap" by (intro ext) (simp only: traced_def type_info_def)
    then show ?thesis using pair_heap_unrooted(2) by simp
  qed
  moreover have "obj_range pair_heap (InLarge (Suc 0)) 8192" using pair_heap_graph(2) by (simp add: obj_range_def)
  ultimately show ?thesis using c(1) pair_heap_wf by auto
qed

text \<open>
  A collection that a finalizer starts pays the same allocation debt twice: with a finalizer that
  collects and allocates nothing, the debt counter after the outer collection is the negated debt
  at entry, so it wraps around to almost the full width instead of reaching zero.
\<close>

theorem nested_collection_wraps_debt:
  "\<exists>h'. collect [] nested_finalizer \<lparr>hstate = final_heap, bytes_since_collect = b, live_bytes = 2048\<rparr> = Some (Inr h') \<and>
    bytes_since_collect h' = - b"
proof -
  obtain e det n st det2 n2 st2 where c: "collect_locked [] final_heap = Some (Inr ([e], det, n, st))"
    "collect_locked [] st = Some (Inr ([], det2, n2, st2))" using final_heap_cycles by blast
  show ?thesis using c by (simp add: collect_def nested_finalizer_def Let_def)
qed

end
