(* ===== verification/Gc_Roots.thy ===== *)
theory Gc_Roots
  imports Gc_Lifecycle
begin

text \<open>
  Root discovery and the concurrency hooks of \<^verbatim>\<open>pon-gc/src/lib.rs\<close>: the conservative stack scan and
  the order in which \<open>collect\<close> gathers its roots, the write barrier, the atomic mark word, the
  allocation-buffer descriptor and the collector-depth guard.
\<close>

section \<open>The conservative stack scan\<close>

definition WORD :: nat where "WORD = 8"

text \<open>An unaligned little-endian read of a machine word.\<close>

definition read_word :: "memory \<Rightarrow> addr \<Rightarrow> nat" where
  "read_word m a = horner_sum unat 256 (map (\<lambda>i. m (a + i)) [0..<WORD])"

function scan_words :: "memory \<Rightarrow> addr \<Rightarrow> addr \<Rightarrow> (addr \<times> addr) list" where
  "scan_words m slot high =
     (if slot + WORD \<le> high then
        let candidate = read_word m slot in
        (if candidate \<noteq> 0 then [(slot, candidate)] else []) @ scan_words m (slot + WORD) high
      else [])"
  by pat_completeness auto
termination
  by (relation "measure (\<lambda>(m, slot, high). high - slot)") (auto simp: WORD_def)

declare scan_words.simps [simp del]

text \<open>\<open>(low + align_mask) & !align_mask\<close>; \<open>align_up_word\<close> below relates it to the 64-bit mask.\<close>

definition align_up :: "addr \<Rightarrow> addr" where
  "align_up a = (a + (WORD - 1)) div WORD * WORD"

definition collect_stack_range_roots :: "memory \<Rightarrow> addr \<Rightarrow> addr \<Rightarrow> addr \<Rightarrow> (addr \<times> addr) list" where
  "collect_stack_range_roots m stack_top stack_base floor =
     (if stack_top = 0 \<or> stack_base = 0 \<or> stack_top = stack_base then []
      else let (low, high) = (if stack_top < stack_base then (stack_top, stack_base) else (stack_base, stack_top));
               low = (if floor > low \<and> floor < high then floor else low)
           in scan_words m (align_up low) high)"

definition collect_external_stack_roots :: "memory \<Rightarrow> addr \<Rightarrow> addr \<Rightarrow> addr \<Rightarrow> (addr \<times> addr) list" where
  "collect_external_stack_roots m current external_base floor =
     (if external_base = 0 then [] else collect_stack_range_roots m current external_base floor)"

text \<open>The installed precise hook, if any, returns the roots it reported and whether it was complete.\<close>

definition collect_precise_stack_roots :: "(addr list \<times> bool) option \<Rightarrow> addr list \<times> bool" where
  "collect_precise_stack_roots hook = (case hook of None \<Rightarrow> ([], False) | Some r \<Rightarrow> r)"

definition root_values ::
  "addr list \<Rightarrow> (addr list \<times> bool) option \<Rightarrow> memory \<Rightarrow> addr \<Rightarrow> addr \<Rightarrow> addr \<Rightarrow> addr list" where
  "root_values explicit hook m current external_base floor =
     (let (precise, complete) = collect_precise_stack_roots hook in
      explicit @ precise @
      (if complete then [] else map snd (collect_external_stack_roots m current external_base floor)))"

lemma align_up_word:
  assumes "unat a + 7 < 2 ^ 64"
  shows "unat ((a + 7) AND NOT 7 :: u64) = align_up (unat a)"
proof -
  have m: "(7 :: u64) = mask 3" by (simp add: mask_eq_exp_minus_1)
  have "(a + 7) AND NOT (mask 3) = push_bit 3 (drop_bit 3 (a + 7))"
    by (rule bit_eqI) (auto simp: bit_simps dest: bit_u64_imp_lt)
  moreover have "unat (push_bit 3 (drop_bit 3 (a + 7))) = push_bit 3 (drop_bit 3 (unat (a + 7)))"
    by (rule bit_eqI) (auto simp: bit_simps bit_unsigned_iff dest: bit_u64_imp_lt)
  moreover have "unat (a + 7) = unat a + 7" using assms by (simp add: unat_word_ariths)
  ultimately show ?thesis
    by (simp only: m push_bit_eq_mult drop_bit_eq_div) (simp add: align_up_def WORD_def)
qed

lemma set_scan_words:
  "set (scan_words m slot high) = {(s, read_word m s) |s. \<exists>k. s = slot + k * WORD \<and> s + WORD \<le> high \<and> read_word m s \<noteq> 0}"
proof (induction m slot high rule: scan_words.induct)
  case (1 m slot high)
  show ?case
  proof (cases "slot + WORD \<le> high")
    case False
    then have "\<not> slot + k * WORD + WORD \<le> high" for k by (meson add_le_mono le_add1 le_trans le_refl)
    then show ?thesis using False by (simp add: scan_words.simps [of m slot high])
  next
    case True
    let ?P = "\<lambda>s. s + WORD \<le> high \<and> read_word m s \<noteq> 0"
    have "{(s, read_word m s) |s. \<exists>k. s = slot + k * WORD \<and> ?P s} =
        {(s, read_word m s) |s. s = slot \<and> ?P s} \<union> {(s, read_word m s) |s. \<exists>k. s = slot + WORD + k * WORD \<and> ?P s}"
    proof -
      have "(\<exists>k. s = slot + k * WORD) \<longleftrightarrow> s = slot \<or> (\<exists>k. s = slot + WORD + k * WORD)" for s
      proof
        assume "\<exists>k. s = slot + k * WORD"
        then obtain k where k: "s = slot + k * WORD" by blast
        show "s = slot \<or> (\<exists>k. s = slot + WORD + k * WORD)"
          by (cases k) (use k in auto)
      next
        assume "s = slot \<or> (\<exists>k. s = slot + WORD + k * WORD)"
        then show "\<exists>k. s = slot + k * WORD" by (auto intro: exI [of _ 0] exI [of _ "Suc _"])
      qed
      then show ?thesis by blast
    qed
    then show ?thesis using 1 [OF True refl] True by (auto simp: scan_words.simps [of m slot high] Let_def)
  qed
qed

lemma align_up_least:
  assumes "low \<le> s" "s mod WORD = 0"
  shows "\<exists>k. s = align_up low + k * WORD"
proof -
  obtain q where q: "s = q * WORD" using assms(2) by (metis mod_0_imp_dvd dvd_def mult.commute)
  have "(low + (WORD - 1)) div WORD \<le> (s + (WORD - 1)) div WORD" using assms(1) by (intro div_le_mono) simp
  moreover have "(s + (WORD - 1)) div WORD = q" using q by (simp add: WORD_def)
  ultimately obtain d where "q = (low + (WORD - 1)) div WORD + d" using le_Suc_ex by blast
  then show ?thesis by (auto simp: align_up_def q add_mult_distrib)
qed

lemma stack_slot_scanned:
  assumes "0 < a" "0 < b" "min a b < floor \<longrightarrow> floor < max a b \<longrightarrow> floor \<le> s" "min a b \<le> s"
    and "s mod WORD = 0" "s + WORD \<le> max a b" "read_word m s \<noteq> 0"
  shows "(s, read_word m s) \<in> set (collect_stack_range_roots m a b floor)"
proof -
  let ?low = "if floor > min a b \<and> floor < max a b then floor else min a b"
  have "?low \<le> s" using assms(3,4) by auto
  from align_up_least [OF this assms(5)] obtain k where k: "s = align_up ?low + k * WORD" by blast
  have "a \<noteq> b" using assms(4,6) by (auto simp: WORD_def)
  then have "collect_stack_range_roots m a b floor = scan_words m (align_up ?low) (max a b)"
    using assms(1,2) by (auto simp: collect_stack_range_roots_def min_def max_def Let_def)
  then show ?thesis using k assms(6,7) by (auto simp: set_scan_words)
qed

section \<open>The write barrier\<close>

record write_barrier_record =
  wb_slot :: addr
  wb_new :: addr

record write_barrier_state =
  concurrent_marking :: bool
  records :: "write_barrier_record list"
  shaded :: "addr list"

definition IMMEDIATE_TAG_MASK :: nat where "IMMEDIATE_TAG_MASK = 3"
definition IMMEDIATE_TAG_HEAP :: nat where "IMMEDIATE_TAG_HEAP = 0"

definition write_barrier_default :: write_barrier_state where
  "write_barrier_default = \<lparr>concurrent_marking = False, records = [], shaded = []\<rparr>"

definition begin_concurrent_marking :: "write_barrier_state \<Rightarrow> write_barrier_state" where
  "begin_concurrent_marking b = b\<lparr>concurrent_marking := True\<rparr>"

definition end_concurrent_marking :: "write_barrier_state \<Rightarrow> write_barrier_state" where
  "end_concurrent_marking b = b\<lparr>concurrent_marking := False\<rparr>"

definition allocation_black_active :: "write_barrier_state \<Rightarrow> bool" where
  "allocation_black_active b = concurrent_marking b"

definition barrier_record :: "addr \<Rightarrow> addr \<Rightarrow> write_barrier_state \<Rightarrow> write_barrier_state" where
  "barrier_record slot new b =
     (if slot = 0 \<or> new = 0 \<or> \<not> concurrent_marking b then b
      else b\<lparr>records := records b @ [\<lparr>wb_slot = slot, wb_new = new\<rparr>], shaded := shaded b @ [new]\<rparr>)"

definition write_barrier :: "addr \<Rightarrow> addr \<Rightarrow> write_barrier_state \<Rightarrow> write_barrier_state" where
  "write_barrier slot new b =
     (if new AND IMMEDIATE_TAG_MASK \<noteq> IMMEDIATE_TAG_HEAP then b else barrier_record slot new b)"

definition drain_records :: "write_barrier_state \<Rightarrow> write_barrier_record list \<times> write_barrier_state" where
  "drain_records b = (records b, b\<lparr>records := []\<rparr>)"

definition drain_shaded :: "write_barrier_state \<Rightarrow> addr list \<times> write_barrier_state" where
  "drain_shaded b = (shaded b, b\<lparr>shaded := []\<rparr>)"

text \<open>The stores the barrier has to report: a heap-tagged, non-null value into a non-null slot.\<close>

definition heap_store :: "addr \<times> addr \<Rightarrow> bool" where
  "heap_store e \<longleftrightarrow> fst e \<noteq> 0 \<and> snd e \<noteq> 0 \<and> snd e mod 4 = 0"

lemma and_tag_mask: "new AND IMMEDIATE_TAG_MASK = new mod 4"
proof -
  have "mask 2 = (3 :: nat)" by (simp add: mask_eq_exp_minus_1)
  moreover have "new AND mask 2 = new mod 4" by (simp add: take_bit_eq_mod flip: take_bit_eq_mask)
  ultimately show ?thesis by (simp only: IMMEDIATE_TAG_MASK_def)
qed

lemma write_barrier_step:
  "write_barrier slot new b =
     (if concurrent_marking b \<and> heap_store (slot, new)
      then b\<lparr>records := records b @ [\<lparr>wb_slot = slot, wb_new = new\<rparr>], shaded := shaded b @ [new]\<rparr> else b)"
  by (auto simp: write_barrier_def barrier_record_def heap_store_def and_tag_mask IMMEDIATE_TAG_HEAP_def)

lemma write_barrier_fold:
  "concurrent_marking b \<Longrightarrow>
     fold (\<lambda>(slot, new). write_barrier slot new) stores b =
       b\<lparr>records := records b @ map (\<lambda>(slot, new). \<lparr>wb_slot = slot, wb_new = new\<rparr>) (filter heap_store stores),
         shaded := shaded b @ map snd (filter heap_store stores)\<rparr>"
  by (induction stores arbitrary: b) (auto simp: write_barrier_step)

section \<open>The atomic mark word\<close>

text \<open>Each operation is one atomic access of the byte, so threads interleave whole operations.\<close>

definition color_byte :: "mark_color \<Rightarrow> u8" where
  "color_byte c = (case c of White \<Rightarrow> 0 | Gray \<Rightarrow> 1 | Black \<Rightarrow> 2)"

definition color_from_byte :: "u8 \<Rightarrow> mark_color" where
  "color_from_byte v = (if v = color_byte Gray then Gray else if v = color_byte Black then Black else White)"

definition shade_gray :: "u8 \<Rightarrow> bool \<times> u8" where
  "shade_gray w = (if w = color_byte White then (True, color_byte Gray) else (False, w))"

datatype mark_op = ShadeGray | FinishScan | ReadColor

fun mark_op_step :: "mark_op \<Rightarrow> u8 \<Rightarrow> bool \<times> u8" where
  "mark_op_step ShadeGray w = shade_gray w"
| "mark_op_step FinishScan w = (False, color_byte Black)"
| "mark_op_step ReadColor w = (color_is_reached (color_from_byte w), w)"

fun run_mark_ops :: "mark_op list \<Rightarrow> u8 \<Rightarrow> bool list \<times> u8" where
  "run_mark_ops [] w = ([], w)"
| "run_mark_ops (p # ps) w = (let (r, w1) = mark_op_step p w; (rs, w2) = run_mark_ops ps w1 in (r # rs, w2))"

definition shade_wins :: "mark_op list \<Rightarrow> u8 \<Rightarrow> nat" where
  "shade_wins ps w = length (filter (\<lambda>(p, r). p = ShadeGray \<and> r) (zip ps (fst (run_mark_ops ps w))))"

lemma color_byte_simps [simp]: "color_from_byte (color_byte c) = c" "color_byte c = color_byte d \<longleftrightarrow> c = d"
  by (cases c; cases d; simp add: color_byte_def color_from_byte_def)+

lemma shade_wins_reached: "c \<noteq> White \<Longrightarrow> shade_wins ps (color_byte c) = 0"
proof (induction ps arbitrary: c)
  case (Cons p ps)
  then show ?case
    by (cases p) (auto simp: shade_wins_def shade_gray_def Let_def case_prod_unfold)
qed (simp add: shade_wins_def)

lemma shade_wins_white: "shade_wins ps (color_byte White) \<le> 1"
proof (induction ps)
  case (Cons p ps)
  show ?case
    using Cons shade_wins_reached [of Gray ps] shade_wins_reached [of Black ps]
    by (cases p) (auto simp: shade_wins_def shade_gray_def Let_def case_prod_unfold)
qed (simp add: shade_wins_def)

section \<open>Descriptors and flags\<close>

record tlab =
  tlab_start :: addr
  tlab_cursor :: addr
  tlab_limit :: addr

definition tlab_empty :: tlab where "tlab_empty = \<lparr>tlab_start = 0, tlab_cursor = 0, tlab_limit = 0\<rparr>"

definition tlab_from_bounds :: "addr \<Rightarrow> addr \<Rightarrow> tlab" where
  "tlab_from_bounds start limit =
     (let cursor = min start limit in \<lparr>tlab_start = cursor, tlab_cursor = cursor, tlab_limit = max start limit\<rparr>)"

definition remaining_bytes :: "tlab \<Rightarrow> nat" where
  "remaining_bytes t = tlab_limit t - tlab_cursor t"

definition request_cycle :: "bool \<Rightarrow> bool" where "request_cycle w = True"
definition take_request :: "bool \<Rightarrow> bool \<times> bool" where "take_request w = (w, False)"

text \<open>The collector depth of a thread saturates at the largest \<open>usize\<close>.\<close>

definition enter_collector_thread :: "u64 \<Rightarrow> u64" where
  "enter_collector_thread d = (if d = - 1 then d else d + 1)"

definition leave_collector_thread :: "u64 \<Rightarrow> u64" where
  "leave_collector_thread d = (if d = 0 then 0 else d - 1)"

definition current_thread_is_collecting :: "u64 \<Rightarrow> bool" where
  "current_thread_is_collecting d \<longleftrightarrow> d \<noteq> 0"

section \<open>Properties\<close>

lemma root_keeps_object:
  assumes wf: "heap_wf st" and o: "obj_at st loc = Some (start, sz, tid)"
    and p: "p \<in> set roots" "start \<le> p" "p < start + sz"
  shows "\<exists>pending det n st' loc'. collect_locked roots st = Some (Inr (pending, det, n, st')) \<and> obj_at st' loc' = Some (start, sz, tid)"
proof -
  obtain pending det n st' where c: "collect_locked roots st = Some (Inr (pending, det, n, st'))"
    "cycle_result roots st pending det n st'" using collect_locked_spec [OF wf] by blast
  have "locate (prepare_large_index st) p = Some loc"
    using wf o p(2,3) by (intro located_object) (auto simp: heap_wf_def)
  then have "loc \<in> cycle_roots roots st" using p(1) by (auto simp: cycle_roots_def located_def)
  then have "loc \<in> retained roots st"
    using reach_base [of "cycle_roots roots st \<union> dying roots st" "live_graph st"] by (auto simp: retained_def)
  then show ?thesis using cycle_result_object [OF c(2) _ o] c(1) by blast
qed

text \<open>
  The conservative scan misses no stack word: when the precise hook does not report a complete
  walk, an object whose bytes a word-aligned stack slot points into survives the collection, for
  every slot between the two ends of the stack (given in either order) and not below a floor that
  lies inside that range.
\<close>

theorem stack_slot_keeps_object:
  assumes "heap_wf st" "obj_at st loc = Some (start, sz, tid)" "start \<le> read_word m s" "read_word m s < start + sz"
    and "\<not> snd (collect_precise_stack_roots hook)" "0 < current" "0 < external_base"
    and "min current external_base \<le> s" "s mod WORD = 0" "s + WORD \<le> max current external_base"
    and "min current external_base < floor \<longrightarrow> floor < max current external_base \<longrightarrow> floor \<le> s"
  shows "\<exists>pending det n st' loc'.
    collect_locked (root_values explicit hook m current external_base floor) st = Some (Inr (pending, det, n, st')) \<and>
    obj_at st' loc' = Some (start, sz, tid)"
proof (rule root_keeps_object [OF assms(1,2) _ assms(3,4)])
  have "heap_core st" using assms(1) by (simp add: heap_wf_def)
  then have "0 < start"
    using assms(2) by (cases loc)
      (auto simp: obj_at_def slot_address_def heap_core_def spans_ok_def span_core_def large_ok_def split: option.splits if_splits)
  then have "read_word m s \<noteq> 0" using assms(3) by simp
  then have "(s, read_word m s) \<in> set (collect_stack_range_roots m current external_base floor)"
    using stack_slot_scanned [OF assms(6,7,11,8-10)] by simp
  then have "read_word m s \<in> snd ` set (collect_external_stack_roots m current external_base floor)"
    using assms(7) by (force simp: collect_external_stack_roots_def)
  then show "read_word m s \<in> set (root_values explicit hook m current external_base floor)"
    using assms(5) by (simp add: root_values_def case_prod_unfold Let_def)
qed

theorem stack_slot_keeps_object_witness:
  "\<exists>pending det n st' loc'.
    collect_locked (root_values [] None (\<lambda>x. if x = 65 then 32 else 0) 32 128 0) pair_heap = Some (Inr (pending, det, n, st')) \<and>
    obj_at st' loc' = Some (8192, 2048, 0)"
proof -
  have r: "read_word (\<lambda>x. if x = 65 then 32 else 0) 64 = 8192"
    by (simp add: read_word_def WORD_def upt_conv_Cons)
  show ?thesis
    by (rule stack_slot_keeps_object [OF pair_heap_wf pair_heap_graph(2), where s = 64])
      (simp_all add: r collect_precise_stack_roots_def WORD_def)
qed

text \<open>
  The write barrier loses no store: while marking is enabled, a sequence of stores followed by a
  drain yields, in order, the value of every store of a non-null heap-tagged pointer into a
  non-null slot and no other value, and leaves the queue empty; while marking is disabled it
  records nothing.
\<close>

theorem write_barrier_complete:
  "(let b1 = fold (\<lambda>(slot, new). write_barrier slot new) stores (begin_concurrent_marking b);
        (values, b2) = drain_shaded b1
    in values = shaded b @ map snd (filter heap_store stores) \<and> shaded b2 = [] \<and>
       map wb_new (records b2) = map wb_new (records b) @ map snd (filter heap_store stores) \<and>
       allocation_black_active b2) \<and>
   fold (\<lambda>(slot, new). write_barrier slot new) stores (end_concurrent_marking b) = end_concurrent_marking b"
proof
  have "concurrent_marking (begin_concurrent_marking b)" by (simp add: begin_concurrent_marking_def)
  from write_barrier_fold [OF this, of stores]
  show "let b1 = fold (\<lambda>(slot, new). write_barrier slot new) stores (begin_concurrent_marking b);
        (values, b2) = drain_shaded b1
    in values = shaded b @ map snd (filter heap_store stores) \<and> shaded b2 = [] \<and>
       map wb_new (records b2) = map wb_new (records b) @ map snd (filter heap_store stores) \<and>
       allocation_black_active b2"
    by (simp add: drain_shaded_def begin_concurrent_marking_def allocation_black_active_def case_prod_unfold)
  show "fold (\<lambda>(slot, new). write_barrier slot new) stores (end_concurrent_marking b) = end_concurrent_marking b"
    by (induction stores) (auto simp: write_barrier_step end_concurrent_marking_def)
qed

text \<open>
  An object is enqueued by one thread: however any number of threads interleave shading, finishing
  a scan and reading on a mark word, at most one \<open>shade_gray\<close> returns true, and exactly one does
  when some thread shades a white word and none finishes a scan.
\<close>

theorem shade_gray_single_winner:
  "shade_wins ps (color_byte c) \<le> 1 \<and>
   (shade_wins ps (color_byte White) = (if ShadeGray \<in> set ps then 1 else 0) \<or> FinishScan \<in> set ps)"
proof
  show "shade_wins ps (color_byte c) \<le> 1"
    using shade_wins_white shade_wins_reached [of c ps] by (cases "c = White") auto
  show "shade_wins ps (color_byte White) = (if ShadeGray \<in> set ps then 1 else 0) \<or> FinishScan \<in> set ps"
  proof (induction ps)
    case (Cons p ps)
    then show ?case
      using shade_wins_reached [of Gray ps]
      by (cases p) (auto simp: shade_wins_def shade_gray_def Let_def case_prod_unfold)
  qed (simp add: shade_wins_def)
qed

end
