(* ===== verification/Gc_Handshake.thy ===== *)
theory Gc_Handshake
  imports Pon_Prelude
begin

text \<open>
  The stop-the-world handshake, \<^verbatim>\<open>pon-gc/src/handshake.rs\<close>.  The first part is the sequential meaning
  of each operation.  The second part is the concurrent one: a step relation in which every
  thread executes the atomic accesses, the lock and the condition variable of the operations one
  at a time, in any interleaving, with spurious wake-ups.
\<close>

section \<open>Phases and sequential operations\<close>

datatype gc_phase = Idle | StopRequested | Stopped | Collecting

fun phase_byte :: "gc_phase \<Rightarrow> u8" where
  "phase_byte Idle = 0"
| "phase_byte StopRequested = 1"
| "phase_byte Stopped = 2"
| "phase_byte Collecting = 3"

definition phase_from_byte :: "u8 \<Rightarrow> gc_phase" where
  "phase_from_byte v =
     (if v = phase_byte StopRequested then StopRequested
      else if v = phase_byte Stopped then Stopped
      else if v = phase_byte Collecting then Collecting
      else Idle)"

record handshake =
  phase_word :: u8
  stop_flag :: bool
  global_flag :: bool

definition handshake_new :: handshake where
  "handshake_new = \<lparr>phase_word = phase_byte Idle, stop_flag = False, global_flag = False\<rparr>"

definition phase :: "handshake \<Rightarrow> gc_phase" where
  "phase h = phase_from_byte (phase_word h)"

definition stop_requested :: "handshake \<Rightarrow> bool" where
  "stop_requested h = stop_flag h"

definition request_stop :: "handshake \<Rightarrow> handshake" where
  "request_stop h = h\<lparr>stop_flag := True, phase_word := phase_byte StopRequested\<rparr>"

definition ack_stop :: "handshake \<Rightarrow> handshake" where
  "ack_stop h =
     (if stop_flag h \<and> phase_word h = phase_byte StopRequested
      then h\<lparr>phase_word := phase_byte Stopped\<rparr> else h)"

definition resume :: "handshake \<Rightarrow> handshake" where
  "resume h = h\<lparr>phase_word := phase_byte Idle, stop_flag := False\<rparr>"

definition set_phase :: "gc_phase \<Rightarrow> handshake \<Rightarrow> handshake" where
  "set_phase p h = h\<lparr>phase_word := phase_byte p\<rparr>"

definition request_global_stop :: "handshake \<Rightarrow> handshake" where
  "request_global_stop h = request_stop (h\<lparr>global_flag := True\<rparr>)"

definition resume_global_stop :: "handshake \<Rightarrow> handshake" where
  "resume_global_stop h = resume (h\<lparr>global_flag := False\<rparr>)"

definition gc_stop_requested :: "handshake \<Rightarrow> bool" where
  "gc_stop_requested h \<longleftrightarrow> global_flag h \<or> stop_requested h"

lemma phase_roundtrip [simp]: "phase_from_byte (phase_byte p) = p"
  by (cases p) (simp_all add: phase_from_byte_def)

section \<open>The operations as interleaved steps\<close>

text \<open>
  Where a thread stands inside an operation.  \<open>Req1\<close> to \<open>Req3\<close> are \<open>request_stop\<close> (take the lock, set
  the flag, set the phase and drop the guard), \<open>Res1\<close> to \<open>Res4\<close> are \<open>resume\<close> (take the lock, set the
  phase, clear the flag and drop the guard, notify), \<open>Ack1\<close> is \<open>ack_stop\<close> after its load of the flag,
  \<open>Wait1\<close> to \<open>Wait3\<close> are \<open>wait_for_resume\<close> (take the lock, load the flag, wait on the condition variable);
  \<open>Parked\<close> is a thread on the queue of the condition variable, \<open>Woken\<close> one that has to take the lock
  again.  The load of the flag and the wait are separate steps; the wait gives up the lock and parks in one
  step, which is what a condition variable promises.
\<close>

datatype pc = Out | Req1 | Req2 | Req3 | Res1 | Res2 | Res3 | Res4 | Ack1 | Wait1 | Wait2 | Wait3 | Parked | Woken

record conc =
  shared :: handshake
  lock :: "nat option"
  pcs :: "nat \<Rightarrow> pc"

definition goto :: "nat \<Rightarrow> pc \<Rightarrow> conc \<Rightarrow> conc" where
  "goto t p c = c\<lparr>pcs := (pcs c)(t := p)\<rparr>"

definition upd :: "(handshake \<Rightarrow> handshake) \<Rightarrow> conc \<Rightarrow> conc" where
  "upd f c = c\<lparr>shared := f (shared c)\<rparr>"

definition notify_all :: "conc \<Rightarrow> conc" where
  "notify_all c = c\<lparr>pcs := (\<lambda>t. if pcs c t = Parked then Woken else pcs c t)\<rparr>"

inductive hs_step :: "conc \<Rightarrow> conc \<Rightarrow> bool" where
  req_call: "pcs c t = Out \<Longrightarrow> hs_step c (goto t Req1 c)"
| req_lock: "pcs c t = Req1 \<Longrightarrow> lock c = None \<Longrightarrow> hs_step c (goto t Req2 (c\<lparr>lock := Some t\<rparr>))"
| req_flag: "pcs c t = Req2 \<Longrightarrow> hs_step c (goto t Req3 (upd (\<lambda>h. h\<lparr>stop_flag := True\<rparr>) c))"
| req_phase: "pcs c t = Req3 \<Longrightarrow>
    hs_step c (goto t Out ((upd (\<lambda>h. h\<lparr>phase_word := phase_byte StopRequested\<rparr>) c)\<lparr>lock := None\<rparr>))"
| res_call: "pcs c t = Out \<Longrightarrow> hs_step c (goto t Res1 c)"
| res_lock: "pcs c t = Res1 \<Longrightarrow> lock c = None \<Longrightarrow> hs_step c (goto t Res2 (c\<lparr>lock := Some t\<rparr>))"
| res_phase: "pcs c t = Res2 \<Longrightarrow> hs_step c (goto t Res3 (upd (\<lambda>h. h\<lparr>phase_word := phase_byte Idle\<rparr>) c))"
| res_flag: "pcs c t = Res3 \<Longrightarrow>
    hs_step c (goto t Res4 ((upd (\<lambda>h. h\<lparr>stop_flag := False\<rparr>) c)\<lparr>lock := None\<rparr>))"
| res_notify: "pcs c t = Res4 \<Longrightarrow> hs_step c (goto t Out (notify_all c))"
| ack_load: "pcs c t = Out \<Longrightarrow> hs_step c (if stop_flag (shared c) then goto t Ack1 c else c)"
| ack_cas: "pcs c t = Ack1 \<Longrightarrow>
    hs_step c (goto t Out (upd (\<lambda>h. if phase_word h = phase_byte StopRequested
                                    then h\<lparr>phase_word := phase_byte Stopped\<rparr> else h) c))"
| wait_load: "pcs c t = Out \<Longrightarrow> hs_step c (if stop_flag (shared c) then goto t Wait1 c else c)"
| wait_lock: "pcs c t = Wait1 \<Longrightarrow> lock c = None \<Longrightarrow> hs_step c (goto t Wait2 (c\<lparr>lock := Some t\<rparr>))"
| wait_test: "pcs c t = Wait2 \<Longrightarrow>
    hs_step c (if stop_flag (shared c) then goto t Wait3 c else goto t Out (c\<lparr>lock := None\<rparr>))"
| wait_park: "pcs c t = Wait3 \<Longrightarrow> hs_step c (goto t Parked (c\<lparr>lock := None\<rparr>))"
| wait_spurious: "pcs c t = Parked \<Longrightarrow> hs_step c (goto t Woken c)"
| wait_relock: "pcs c t = Woken \<Longrightarrow> lock c = None \<Longrightarrow> hs_step c (goto t Wait2 (c\<lparr>lock := Some t\<rparr>))"
| collect_phase: "pcs c t = Out \<Longrightarrow> hs_step c (upd (set_phase Collecting) c)"

definition holds_lock :: "pc \<Rightarrow> bool" where
  "holds_lock p \<longleftrightarrow> p \<in> {Req2, Req3, Res2, Res3, Wait2, Wait3}"

definition conc_start :: conc where
  "conc_start = \<lparr>shared = handshake_new, lock = None, pcs = (\<lambda>_. Out)\<rparr>"

text \<open>
  The lock is held by exactly the thread in a critical section; a thread that has loaded a set flag and
  is about to wait still sees it set, since it holds the lock; a parked thread has either the
  flag still set or a notification on its way; a stop phase is only visible with the flag set.
\<close>

definition lock_inv :: "conc \<Rightarrow> bool" where
  "lock_inv c \<longleftrightarrow> (\<forall>t. holds_lock (pcs c t) \<longleftrightarrow> lock c = Some t)"

definition park_inv :: "conc \<Rightarrow> bool" where
  "park_inv c \<longleftrightarrow>
     (\<forall>t. pcs c t = Wait3 \<longrightarrow> stop_flag (shared c)) \<and>
     (\<forall>t. pcs c t = Parked \<longrightarrow> stop_flag (shared c) \<or> (\<exists>r. pcs c r = Res4))"

definition stop_phase :: "u8 \<Rightarrow> bool" where
  "stop_phase w \<longleftrightarrow> w = phase_byte StopRequested \<or> w = phase_byte Stopped"

definition phase_inv :: "conc \<Rightarrow> bool" where
  "phase_inv c \<longleftrightarrow> (stop_phase (phase_word (shared c)) \<longrightarrow> stop_flag (shared c)) \<and>
     (\<forall>t. pcs c t = Req3 \<longrightarrow> stop_flag (shared c)) \<and>
     (\<forall>t. pcs c t = Res3 \<longrightarrow> \<not> stop_phase (phase_word (shared c)))"

lemmas hs_defs = goto_def upd_def notify_all_def holds_lock_def set_phase_def stop_phase_def

lemma hs_step_lock: "hs_step c c' \<Longrightarrow> lock_inv c \<Longrightarrow> lock_inv c'"
  by (induction rule: hs_step.induct; simp add: lock_inv_def hs_defs; metis option.distinct(1) option.inject pc.distinct)

lemma park_frame:
  assumes "park_inv c" "pcs c t \<noteq> Res4" "p = Parked \<or> p = Wait3 \<Longrightarrow> stop_flag (shared c')"
    "stop_flag (shared c) \<Longrightarrow> stop_flag (shared c')" "pcs c' = (pcs c)(t := p)"
  shows "park_inv c'"
  unfolding park_inv_def
proof (intro conjI allI impI)
  fix u assume "pcs c' u = Wait3"
  then show "stop_flag (shared c')" using assms(1, 3-) by (cases "u = t") (auto simp: park_inv_def)
next
  fix u assume u: "pcs c' u = Parked"
  show "stop_flag (shared c') \<or> (\<exists>r. pcs c' r = Res4)"
  proof (cases "u = t")
    case True
    then show ?thesis using u assms(3,5) by simp
  next
    case False
    then have "pcs c u = Parked" using u assms(5) by simp
    then consider "stop_flag (shared c)" | r where "pcs c r = Res4" using assms(1) by (auto simp: park_inv_def)
    then show ?thesis
    proof cases
      case 2
      then have "r \<noteq> t" using assms(2) by auto
      then show ?thesis using 2 assms(5) by auto
    qed (use assms(4) in simp)
  qed
qed

lemma lock_unique: "lock_inv c \<Longrightarrow> holds_lock (pcs c t) \<Longrightarrow> holds_lock (pcs c r) \<Longrightarrow> r = t"
  unfolding lock_inv_def by (metis option.inject)

lemma hs_step_park: "hs_step c c' \<Longrightarrow> lock_inv c \<Longrightarrow> park_inv c \<Longrightarrow> park_inv c'"
proof (induction rule: hs_step.induct)
  case (res_notify c t)
  then show ?case by (auto simp: park_inv_def hs_defs)
next
  case (res_flag c t)
  then have "pcs c r \<noteq> Wait3" for r using lock_unique [of c t r] by (auto simp: holds_lock_def)
  then show ?case using res_flag by (auto simp: park_inv_def hs_defs)
next
  case (ack_load c t)
  then show ?case using park_frame [OF ack_load(3), of t Ack1 "goto t Ack1 c"] by (simp add: hs_defs)
next
  case (wait_load c t)
  then show ?case using park_frame [OF wait_load(3), of t Wait1 "goto t Wait1 c"] by (simp add: hs_defs)
next
  case (wait_test c t)
  then show ?case
    by (intro park_frame [OF wait_test(3), of t "if stop_flag (shared c) then Wait3 else Out"]) (auto simp: hs_defs split: if_splits)
next
  case (wait_park c t)
  then show ?case by (intro park_frame [OF wait_park(3), of t Parked]) (auto simp: hs_defs park_inv_def)
next
  case (collect_phase c t)
  then show ?case by (simp add: park_inv_def hs_defs)
qed (erule park_frame; simp add: hs_defs; fail)+

lemma hs_step_phase: "hs_step c c' \<Longrightarrow> lock_inv c \<Longrightarrow> phase_inv c \<Longrightarrow> phase_inv c'"
proof (induction rule: hs_step.induct)
  case (req_phase c t)
  then have "pcs c r \<noteq> Res3" for r using lock_unique [of c t r] by (auto simp: holds_lock_def)
  then show ?case using req_phase by (auto simp: phase_inv_def hs_defs)
next
  case (res_flag c t)
  then have "pcs c r \<noteq> Req3" for r using lock_unique [of c t r] by (auto simp: holds_lock_def)
  then show ?case using res_flag by (auto simp: phase_inv_def hs_defs)
qed (auto simp: phase_inv_def hs_defs split: if_splits)

definition hs_inv :: "conc \<Rightarrow> bool" where
  "hs_inv c \<longleftrightarrow> lock_inv c \<and> park_inv c \<and> phase_inv c"

lemma hs_reachable_inv: "hs_step\<^sup>*\<^sup>* conc_start c \<Longrightarrow> hs_inv c"
proof (induction rule: rtranclp_induct)
  case base
  then show ?case
    by (simp add: hs_inv_def lock_inv_def park_inv_def phase_inv_def conc_start_def handshake_new_def hs_defs)
next
  case (step c c')
  then show ?case using hs_step_lock hs_step_park hs_step_phase by (auto simp: hs_inv_def)
qed

section \<open>Uninterrupted runs\<close>

text \<open>An operation that no other thread interrupts has its sequential effect.\<close>

lemma request_run:
  assumes "pcs c t = Out" "lock c = None"
  shows "hs_step\<^sup>*\<^sup>* c (c\<lparr>shared := request_stop (shared c)\<rparr>)"
proof -
  let ?c1 = "goto t Req1 c" let ?c2 = "goto t Req2 (?c1\<lparr>lock := Some t\<rparr>)"
  let ?c3 = "goto t Req3 (upd (\<lambda>h. h\<lparr>stop_flag := True\<rparr>) ?c2)"
  let ?c4 = "goto t Out ((upd (\<lambda>h. h\<lparr>phase_word := phase_byte StopRequested\<rparr>) ?c3)\<lparr>lock := None\<rparr>)"
  have s1: "hs_step c ?c1" using assms(1) by (rule req_call)
  have s2: "hs_step ?c1 ?c2" using assms(2) by (intro req_lock) (simp_all add: goto_def)
  have s3: "hs_step ?c2 ?c3" by (intro req_flag) (simp add: goto_def)
  have s4: "hs_step ?c3 ?c4" by (intro req_phase) (simp add: goto_def)
  have eq: "?c4 = c\<lparr>shared := request_stop (shared c)\<rparr>"
    using assms by (cases c) (auto simp: goto_def upd_def request_stop_def fun_eq_iff)
  show ?thesis
    using converse_rtranclp_into_rtranclp [of hs_step, OF s1 converse_rtranclp_into_rtranclp [of hs_step, OF s2 converse_rtranclp_into_rtranclp [of hs_step, OF s3 r_into_rtranclp [of hs_step, OF s4]]]]
    by (simp only: eq)
qed

lemma resume_run:
  assumes "pcs c t = Out" "lock c = None"
  shows "hs_step\<^sup>*\<^sup>* c (notify_all (c\<lparr>shared := resume (shared c)\<rparr>))"
proof -
  let ?c1 = "goto t Res1 c" let ?c2 = "goto t Res2 (?c1\<lparr>lock := Some t\<rparr>)"
  let ?c3 = "goto t Res3 (upd (\<lambda>h. h\<lparr>phase_word := phase_byte Idle\<rparr>) ?c2)"
  let ?c4 = "goto t Res4 ((upd (\<lambda>h. h\<lparr>stop_flag := False\<rparr>) ?c3)\<lparr>lock := None\<rparr>)"
  let ?c5 = "goto t Out (notify_all ?c4)"
  have s1: "hs_step c ?c1" using assms(1) by (rule res_call)
  have s2: "hs_step ?c1 ?c2" using assms(2) by (intro res_lock) (simp_all add: goto_def)
  have s3: "hs_step ?c2 ?c3" by (intro res_phase) (simp add: goto_def)
  have s4: "hs_step ?c3 ?c4" by (intro res_flag) (simp add: goto_def)
  have s5: "hs_step ?c4 ?c5" by (intro res_notify) (simp add: goto_def)
  have eq: "?c5 = notify_all (c\<lparr>shared := resume (shared c)\<rparr>)"
    using assms by (cases c) (auto simp: goto_def upd_def resume_def notify_all_def fun_eq_iff)
  show ?thesis
    using converse_rtranclp_into_rtranclp [of hs_step, OF s1 converse_rtranclp_into_rtranclp [of hs_step, OF s2 converse_rtranclp_into_rtranclp [of hs_step, OF s3 converse_rtranclp_into_rtranclp [of hs_step, OF s4 r_into_rtranclp [of hs_step, OF s5]]]]]
    by (simp only: eq)
qed

lemma park_run:
  assumes "pcs c t = Out" "lock c = None" "stop_flag (shared c)"
  shows "hs_step\<^sup>*\<^sup>* c (goto t Parked c)"
proof -
  let ?c1 = "goto t Wait1 c" let ?c2 = "goto t Wait2 (?c1\<lparr>lock := Some t\<rparr>)" 
  let ?c3 = "goto t Wait3 ?c2" let ?c4 = "goto t Parked (?c3\<lparr>lock := None\<rparr>)"
  have s1: "hs_step c ?c1" using wait_load [OF assms(1)] assms(3) by simp
  have s2: "hs_step ?c1 ?c2" using assms(2) by (intro wait_lock) (simp_all add: goto_def)
  have s3: "hs_step ?c2 ?c3" using wait_test [of ?c2 t] assms(3) by (simp add: goto_def)
  have s4: "hs_step ?c3 ?c4" by (intro wait_park) (simp add: goto_def)
  have eq: "?c4 = goto t Parked c" using assms by (cases c) (auto simp: goto_def)
  show ?thesis
    using converse_rtranclp_into_rtranclp [of hs_step, OF s1 converse_rtranclp_into_rtranclp [of hs_step, OF s2 converse_rtranclp_into_rtranclp [of hs_step, OF s3 r_into_rtranclp [of hs_step, OF s4]]]]
    by (simp only: eq)
qed

text \<open>A request, a mutator that parks, and the resume.\<close>

definition parked_state :: conc where
  "parked_state = goto 1 Parked (conc_start\<lparr>shared := request_stop handshake_new\<rparr>)"

definition woken_state :: conc where
  "woken_state = notify_all (parked_state\<lparr>shared := resume (request_stop handshake_new)\<rparr>)"

lemma parked_run: "hs_step\<^sup>*\<^sup>* conc_start parked_state"
proof -
  have "hs_step\<^sup>*\<^sup>* conc_start (conc_start\<lparr>shared := request_stop handshake_new\<rparr>)"
    using request_run [of conc_start 0] by (simp add: conc_start_def)
  moreover have "hs_step\<^sup>*\<^sup>* (conc_start\<lparr>shared := request_stop handshake_new\<rparr>) parked_state"
    unfolding parked_state_def by (rule park_run) (simp_all add: conc_start_def request_stop_def)
  ultimately show ?thesis by (rule rtranclp_trans)
qed

lemma woken_run: "hs_step\<^sup>*\<^sup>* conc_start woken_state"
proof -
  have "hs_step\<^sup>*\<^sup>* parked_state woken_state"
    using resume_run [of parked_state 0] by (simp add: woken_state_def parked_state_def conc_start_def goto_def)
  with parked_run show ?thesis by (rule rtranclp_trans)
qed

section \<open>Properties\<close>

lemma waiter_can_leave:
  assumes inv: "hs_inv c" and free: "lock c = None" "\<not> stop_flag (shared c)" "\<forall>r. pcs c r \<noteq> Res4"
    and w: "pcs c t \<in> {Wait1, Wait2, Wait3, Parked, Woken}"
  shows "\<exists>c'. hs_step\<^sup>*\<^sup>* c c' \<and> pcs c' t = Out \<and> \<not> stop_flag (shared c')"
proof -
  have "pcs c t \<noteq> Parked" "pcs c t \<noteq> Wait2" "pcs c t \<noteq> Wait3"
    using inv free by (auto simp: hs_inv_def park_inv_def lock_inv_def holds_lock_def)
  then have w': "pcs c t = Wait1 \<or> pcs c t = Woken" using w by auto
  let ?c1 = "goto t Wait2 (c\<lparr>lock := Some t\<rparr>)"
  have 1: "hs_step c ?c1" using w' hs_step.wait_lock [of c t] hs_step.wait_relock [of c t] free(1) by auto
  have "pcs ?c1 t = Wait2" by (simp add: goto_def)
  from hs_step.wait_test [OF this] have 2: "hs_step ?c1 (goto t Out (?c1\<lparr>lock := None\<rparr>))" using free(2) by (simp add: goto_def)
  from 1 2 have "hs_step\<^sup>*\<^sup>* c (goto t Out (?c1\<lparr>lock := None\<rparr>))" by auto
  then show ?thesis using free(2) by (intro exI [of _ "goto t Out (?c1\<lparr>lock := None\<rparr>)"]) (simp add: goto_def)
qed

text \<open>
  C40.  The handshake under any interleaving of requests, acknowledgements, waits and resumes: no wake-up
  is lost, although a waiter loads the flag and parks in separate steps (a parked thread always has the stop
  flag still set or a resuming thread about to notify), the phase never shows a stop request without the flag, and the lock is held by
  one thread at a time.
\<close>

theorem handshake_invariant:
  assumes "hs_step\<^sup>*\<^sup>* conc_start c"
  shows "(\<forall>t. pcs c t = Parked \<longrightarrow> stop_requested (shared c) \<or> (\<exists>r. pcs c r = Res4)) \<and>
    (phase (shared c) \<in> {StopRequested, Stopped} \<longrightarrow> stop_requested (shared c)) \<and>
    (\<forall>t. holds_lock (pcs c t) \<longleftrightarrow> lock c = Some t)"
proof -
  have inv: "park_inv c" "phase_inv c" "lock_inv c" using hs_reachable_inv [OF assms] by (auto simp: hs_inv_def)
  have "stop_phase (phase_word (shared c))" if "phase (shared c) \<in> {StopRequested, Stopped}"
    using that by (auto simp: phase_def phase_from_byte_def stop_phase_def split: if_splits)
  then show ?thesis using inv by (auto simp: park_inv_def phase_inv_def lock_inv_def stop_requested_def)
qed

theorem handshake_invariant_witness:
  "pcs parked_state 1 = Parked \<and>
    ((\<forall>t. pcs parked_state t = Parked \<longrightarrow> stop_requested (shared parked_state) \<or> (\<exists>r. pcs parked_state r = Res4)) \<and>
    (phase (shared parked_state) \<in> {StopRequested, Stopped} \<longrightarrow> stop_requested (shared parked_state)) \<and>
    (\<forall>t. holds_lock (pcs parked_state t) \<longleftrightarrow> lock parked_state = Some t)) = True"
  using handshake_invariant [OF parked_run] by (simp add: parked_state_def goto_def)

text \<open>
  A resumed mutator can leave: in every reachable state with the flag cleared, the lock free and
  no notification outstanding, a thread anywhere inside \<open>wait_for_resume\<close> is not parked and
  returns within its own steps.
\<close>

theorem resumed_waiter_leaves:
  assumes "hs_step\<^sup>*\<^sup>* conc_start c" "lock c = None" "\<not> stop_requested (shared c)" "\<forall>r. pcs c r \<noteq> Res4"
    and "pcs c t \<in> {Wait1, Wait2, Wait3, Parked, Woken}"
  shows "pcs c t \<noteq> Parked \<and> (\<exists>c'. hs_step\<^sup>*\<^sup>* c c' \<and> pcs c' t = Out \<and> \<not> stop_requested (shared c'))"
proof -
  have inv: "hs_inv c" by (rule hs_reachable_inv [OF assms(1)])
  then have "pcs c t \<noteq> Parked" using assms(3,4) by (auto simp: hs_inv_def park_inv_def stop_requested_def)
  then show ?thesis using waiter_can_leave [OF inv assms(2) _ assms(4,5)] assms(3) by (simp add: stop_requested_def)
qed

theorem resumed_waiter_leaves_witness:
  "pcs woken_state 1 \<noteq> Parked \<and> (\<exists>c'. hs_step\<^sup>*\<^sup>* woken_state c' \<and> pcs c' 1 = Out \<and> \<not> stop_requested (shared c'))"
  by (rule resumed_waiter_leaves [OF woken_run])
    (auto simp: woken_state_def parked_state_def conc_start_def goto_def notify_all_def stop_requested_def resume_def)

text \<open>
  One collection on the process-wide handshake: the phase is \<open>StopRequested\<close> after the request,
  \<open>Stopped\<close> after any number of acknowledgements, \<open>Collecting\<close> when set, and \<open>Idle\<close> with no stop
  pending after the resume; an acknowledgement with no request pending changes nothing.
\<close>

theorem handshake_cycle:
  "(let h1 = request_global_stop h; h2 = (ack_stop ^^ Suc n) h1; h3 = set_phase Collecting h2; h4 = resume_global_stop h3 in
     phase h1 = StopRequested \<and> gc_stop_requested h1 \<and> phase h2 = Stopped \<and> gc_stop_requested h2 \<and>
     phase h3 = Collecting \<and> gc_stop_requested h3 \<and> phase h4 = Idle \<and> \<not> gc_stop_requested h4 \<and> ack_stop h4 = h4)"
proof -
  let ?h1 = "request_global_stop h"
  have "(ack_stop ^^ Suc n) ?h1 = ?h1\<lparr>phase_word := phase_byte Stopped\<rparr>"
    by (induction n) (simp_all add: ack_stop_def request_global_stop_def request_stop_def)
  then show ?thesis
    by (simp add: Let_def phase_def request_global_stop_def request_stop_def gc_stop_requested_def stop_requested_def
        set_phase_def resume_global_stop_def resume_def ack_stop_def phase_from_byte_def del: funpow.simps)
qed

end
