(* ===== verification/Stack_Map.thy ===== *)
theory Stack_Map
  imports Gc_Roots
begin

text \<open>
  Safepoint maps and the mixed-precision stack walk, \<^verbatim>\<open>pon-runtime/src/stackmap.rs\<close>.  The machine's
  frame pointer, the scanner's own stack position and the published stack base are arguments;
  the stack is the collector's \<open>memory\<close>.
\<close>

section \<open>The index of safepoint maps\<close>

record safepoint_map =
  return_address :: addr
  root_slots :: "int list"

type_synonym stack_map_index = "safepoint_map list"

definition index_insert :: "safepoint_map \<Rightarrow> stack_map_index \<Rightarrow> stack_map_index" where
  "index_insert m index =
     (case binary_search_by_key (return_address m) return_address index of
        Some i \<Rightarrow> index[i := m]
      | None \<Rightarrow> insert_at (partition_point (\<lambda>c. return_address c < return_address m) index) m index)"

definition index_new :: "safepoint_map list \<Rightarrow> stack_map_index" where
  "index_new maps = fold index_insert maps []"

definition index_extend :: "stack_map_index \<Rightarrow> stack_map_index \<Rightarrow> stack_map_index" where
  "index_extend index other = fold index_insert other index"

definition index_lookup :: "stack_map_index \<Rightarrow> addr \<Rightarrow> safepoint_map option" where
  "index_lookup index a = map_option (\<lambda>i. index ! i) (binary_search_by_key a return_address index)"

text \<open>A raw descriptor: its return address, its slot array if the pointer is not null, and its slot count.\<close>

record raw_safepoint_map =
  raw_return_address :: addr
  raw_roots :: "int list option"
  raw_root_count :: nat

definition raw_ok :: "raw_safepoint_map \<Rightarrow> bool" where
  "raw_ok r \<longleftrightarrow> \<not> (raw_return_address r = 0 \<or> (raw_roots r = None \<and> raw_root_count r \<noteq> 0))"

definition read_raw :: "raw_safepoint_map \<Rightarrow> safepoint_map" where
  "read_raw r =
     \<lparr>return_address = raw_return_address r,
      root_slots = (if raw_root_count r = 0 then [] else take (raw_root_count r) (case raw_roots r of None \<Rightarrow> [] | Some xs \<Rightarrow> xs))\<rparr>"

text \<open>
  The registered index and whether the collector's precise-root hook is installed.  A raw batch is
  \<open>None\<close> for a null pointer; registering one also gives the status.
\<close>

record registry =
  reg_index :: stack_map_index
  reg_hook :: bool

definition register_stack_map_index :: "stack_map_index \<Rightarrow> registry \<Rightarrow> registry" where
  "register_stack_map_index index g = \<lparr>reg_index = index_extend (reg_index g) index, reg_hook = True\<rparr>"

definition register_safepoint_map :: "safepoint_map \<Rightarrow> registry \<Rightarrow> registry" where
  "register_safepoint_map sm g = \<lparr>reg_index = index_insert sm (reg_index g), reg_hook = True\<rparr>"

definition clear_stack_map_index :: "registry \<Rightarrow> registry" where
  "clear_stack_map_index g = \<lparr>reg_index = [], reg_hook = False\<rparr>"

definition pon_stackmap_register :: "raw_safepoint_map list option \<Rightarrow> nat \<Rightarrow> registry \<Rightarrow> int \<times> registry" where
  "pon_stackmap_register maps len g =
     (if maps = None \<and> len \<noteq> 0 then (-1, g)
      else let raws = (if len = 0 then [] else take len (the maps)) in
           if list_all raw_ok raws then (0, register_stack_map_index (index_new (map read_raw raws)) g) else (-1, g))"

text \<open>The three ways generated code changes the registry.\<close>

datatype registration =
  Batch "raw_safepoint_map list"
| One safepoint_map
| Clear

fun register :: "registration \<Rightarrow> registry \<Rightarrow> registry" where
  "register (Batch raws) g = snd (pon_stackmap_register (Some raws) (length raws) g)"
| "register (One sm) g = register_safepoint_map sm g"
| "register Clear g = clear_stack_map_index g"

section \<open>Mapped code ranges\<close>

type_synonym code_ranges = "(addr \<times> addr) list"

definition pair_less :: "addr \<times> addr \<Rightarrow> addr \<times> addr \<Rightarrow> bool" where
  "pair_less a b \<longleftrightarrow> fst a < fst b \<or> fst a = fst b \<and> snd a < snd b"

definition register_mapped_code_range :: "addr \<Rightarrow> nat \<Rightarrow> code_ranges \<Rightarrow> code_ranges" where
  "register_mapped_code_range start len ranges =
     (if start = 0 \<or> len = 0 then ranges
      else let e = (start, start + len); i = partition_point (\<lambda>r. pair_less r e) ranges in
           if i < length ranges \<and> ranges ! i = e then ranges else insert_at i e ranges)"

definition is_mapped_code :: "code_ranges \<Rightarrow> addr \<Rightarrow> bool" where
  "is_mapped_code ranges a =
     (let i = partition_point (\<lambda>r. fst r < a) ranges in
      if i < length ranges \<and> fst (ranges ! i) = a then True
      else if i = 0 then False else a < snd (ranges ! (i - 1)))"

section \<open>Frames\<close>

definition MAX_FP_CHAIN_FRAMES :: nat where "MAX_FP_CHAIN_FRAMES = 4096"
definition RECORD :: nat where "RECORD = 2 * WORD"

record stack_bounds =
  low :: addr
  high :: addr

definition bounds_new :: "addr \<Rightarrow> addr \<Rightarrow> stack_bounds" where
  "bounds_new a b = (if a \<le> b then \<lparr>low = a, high = b\<rparr> else \<lparr>low = b, high = a\<rparr>)"

definition bounds_is_empty :: "stack_bounds \<Rightarrow> bool" where
  "bounds_is_empty b \<longleftrightarrow> low b = high b"

definition bounds_contains :: "stack_bounds \<Rightarrow> addr \<Rightarrow> nat \<Rightarrow> bool" where
  "bounds_contains b p len \<longleftrightarrow> p + len < 2 ^ 64 \<and> low b \<le> p \<and> p + len \<le> high b"

definition offset_pointer :: "addr \<Rightarrow> int \<Rightarrow> addr option" where
  "offset_pointer p offset =
     (if offset \<ge> 0 then (if p + nat offset < 2 ^ 64 then Some (p + nat offset) else None)
      else if nat (- offset) \<le> p then Some (p - nat (- offset)) else None)"

definition next_frame_pointer_advances :: "addr \<Rightarrow> addr \<Rightarrow> stack_bounds \<Rightarrow> bool \<Rightarrow> bool" where
  "next_frame_pointer_advances current next b grows_down =
     (if \<not> bounds_contains b next RECORD then False
      else if grows_down then next > current else next < current)"

definition visit_precise_roots :: "memory \<Rightarrow> addr \<Rightarrow> stack_bounds \<Rightarrow> safepoint_map \<Rightarrow> addr list" where
  "visit_precise_roots m fp b sm =
     List.map_filter (\<lambda>offset.
       case offset_pointer fp offset of
         None \<Rightarrow> None
       | Some s \<Rightarrow> if bounds_contains b s WORD \<and> read_word m s \<noteq> 0 then Some (read_word m s) else None)
     (root_slots sm)"

record frame_info =
  frame_pointer :: addr
  frame_return :: addr

record walk_result =
  visited :: "addr list"
  fallback :: "frame_info list"
  indexed_frames :: nat
  fallback_frames :: nat

definition walk_default :: walk_result where
  "walk_default = \<lparr>visited = [], fallback = [], indexed_frames = 0, fallback_frames = 0\<rparr>"

definition walk_frame :: "memory \<Rightarrow> stack_map_index \<Rightarrow> stack_bounds \<Rightarrow> addr \<Rightarrow> walk_result \<Rightarrow> walk_result" where
  "walk_frame m index b fp r =
     (let ra = read_word m (fp + WORD) in
      case index_lookup index ra of
        Some sm \<Rightarrow> r\<lparr>visited := visited r @ visit_precise_roots m fp b sm, indexed_frames := indexed_frames r + 1\<rparr>
      | None \<Rightarrow> r\<lparr>fallback := fallback r @ [\<lparr>frame_pointer = fp, frame_return = ra\<rparr>], fallback_frames := fallback_frames r + 1\<rparr>)"

fun walk_loop :: "nat \<Rightarrow> memory \<Rightarrow> stack_map_index \<Rightarrow> stack_bounds \<Rightarrow> bool \<Rightarrow> addr \<Rightarrow> walk_result \<Rightarrow> walk_result" where
  "walk_loop 0 m index b grows_down fp r = r"
| "walk_loop (Suc n) m index b grows_down fp r =
     (if \<not> bounds_contains b fp RECORD then r
      else let next = read_word m fp; r1 = walk_frame m index b fp r in
           if next = 0 \<or> \<not> next_frame_pointer_advances fp next b grows_down then r1
           else walk_loop n m index b grows_down next r1)"

definition walk_fp_chain :: "memory \<Rightarrow> stack_map_index \<Rightarrow> addr \<Rightarrow> addr \<Rightarrow> addr \<Rightarrow> walk_result" where
  "walk_fp_chain m index start_fp stack_low stack_high =
     (let b = bounds_new stack_low stack_high in
      if start_fp = 0 \<or> bounds_is_empty b then walk_default
      else walk_loop MAX_FP_CHAIN_FRAMES m index b (start_fp < high b) start_fp walk_default)"

section \<open>The mixed scan\<close>

definition region_words :: "memory \<Rightarrow> addr \<Rightarrow> addr \<Rightarrow> addr \<Rightarrow> addr list" where
  "region_words m floor region_low region_high =
     map snd (scan_words m (align_up (if floor > region_low then floor else region_low)) region_high)"

definition frame_roots :: "memory \<Rightarrow> stack_map_index \<Rightarrow> code_ranges \<Rightarrow> stack_bounds \<Rightarrow> addr \<Rightarrow> addr \<Rightarrow> addr \<Rightarrow> addr list" where
  "frame_roots m index ranges b floor fp next =
     (let ra = read_word m (fp + WORD) in
      case index_lookup index ra of
        Some sm \<Rightarrow> visit_precise_roots m fp b sm
      | None \<Rightarrow> if \<not> is_mapped_code ranges ra then region_words m floor (fp + RECORD) next else [])"

fun mixed_loop ::
  "nat \<Rightarrow> memory \<Rightarrow> stack_map_index \<Rightarrow> code_ranges \<Rightarrow> stack_bounds \<Rightarrow> addr \<Rightarrow> addr \<Rightarrow> addr \<Rightarrow> addr list \<times> bool" where
  "mixed_loop 0 m index ranges b floor stack_base fp = ([], False)"
| "mixed_loop (Suc n) m index ranges b floor stack_base fp =
     (let next = read_word m fp in
      if next = 0 \<or> \<not> next_frame_pointer_advances fp next b True
      then (region_words m floor (fp + RECORD) stack_base, True)
      else let here = frame_roots m index ranges b floor fp next in
           if \<not> bounds_contains b next RECORD then (here @ region_words m floor (next + RECORD) stack_base, True)
           else let (vs, complete) = mixed_loop n m index ranges b floor stack_base next in (here @ vs, complete))"

definition scan_stack_mixed ::
  "memory \<Rightarrow> stack_map_index \<Rightarrow> code_ranges \<Rightarrow> addr \<Rightarrow> addr \<Rightarrow> addr \<Rightarrow> addr \<Rightarrow> addr list \<times> bool" where
  "scan_stack_mixed m index ranges stack_base current fp floor =
     (if index = [] \<and> ranges = [] then ([], False)
      else if stack_base = 0 then ([], False)
      else if current \<ge> stack_base then ([], False)
      else if fp = 0 \<or> fp \<ge> stack_base then ([], False)
      else let b = bounds_new (if fp < current then fp else current) stack_base in
           if \<not> bounds_contains b fp RECORD then ([], False)
           else let (vs, complete) = mixed_loop MAX_FP_CHAIN_FRAMES m index ranges b floor stack_base fp
                in (region_words m floor current (fp + RECORD) @ vs, complete))"


section \<open>The index is a map from return addresses\<close>

definition registry_ok :: "stack_map_index \<Rightarrow> bool" where
  "registry_ok index \<longleftrightarrow> sorted (map return_address index) \<and> distinct (map return_address index)"

lemma index_lookup_iff:
  assumes "registry_ok index"
  shows "index_lookup index a = Some m \<longleftrightarrow> m \<in> set index \<and> return_address m = a"
proof (cases "binary_search_by_key a return_address index")
  case None
  then show ?thesis
    using binary_search_None [OF None] assms by (auto simp: index_lookup_def registry_ok_def)
next
  case (Some i)
  note i = binary_search_Some [OF Some]
  have "m = index ! i" if "m \<in> set index" "return_address m = a" for m
    using assms i that by (metis distinct_map registry_ok_def inj_onD nth_mem)
  then show ?thesis using Some i by (auto simp: index_lookup_def)
qed

lemma index_insert_ok:
  assumes "registry_ok index"
  shows "registry_ok (index_insert m index) \<and>
    set (index_insert m index) = insert m {c \<in> set index. return_address c \<noteq> return_address m}"
proof (cases "binary_search_by_key (return_address m) return_address index")
  case None
  have fresh: "return_address m \<notin> return_address ` set index"
    using binary_search_None [OF None] assms unfolding registry_ok_def by simp
  then have all: "insert m {c \<in> set index. return_address c \<noteq> return_address m} = insert m (set index)"
    by (auto intro: rev_image_eqI)
  have "sorted (map return_address (insert_at (partition_point (\<lambda>c. return_address c < return_address m) index) m index))"
    by (rule insert_at_partition_sorted) (use assms in \<open>simp add: registry_ok_def\<close>)
  then show ?thesis
    unfolding all using None assms fresh by (simp add: index_insert_def registry_ok_def insert_at_map distinct_insert_at)
next
  case (Some i)
  note i = binary_search_Some [OF Some]
  have same: "map return_address (index[i := m]) = map return_address index"
    using i by (simp add: map_update list_update_same_conv)
  have "set (index[i := m]) = insert m {c \<in> set index. return_address c \<noteq> return_address m}"
  proof -
    have "distinct index" using assms by (auto simp: registry_ok_def distinct_map)
    then have "set (index[i := m]) = insert m (set index - {index ! i})" using i(1) by (rule set_update_distinct)
    moreover have "c = index ! i \<longleftrightarrow> return_address c = return_address m" if "c \<in> set index" for c
      using that assms i by (metis distinct_map registry_ok_def inj_onD nth_mem)
    ultimately show ?thesis by auto
  qed
  with same Some assms show ?thesis by (simp add: index_insert_def registry_ok_def)
qed

lemma some_ext: "(\<And>m. x = Some m \<longleftrightarrow> y = Some m) \<Longrightarrow> x = y"
  by (cases x; cases y) auto

lemma index_fold:
  assumes "registry_ok index"
  shows "registry_ok (fold index_insert maps index) \<and>
    index_lookup (fold index_insert maps index) a =
      (case map_of (rev (map (\<lambda>m. (return_address m, m)) maps)) a of Some m \<Rightarrow> Some m | None \<Rightarrow> index_lookup index a)"
proof (induction maps rule: rev_induct)
  case Nil
  then show ?case using assms by simp
next
  case (snoc m maps)
  let ?index = "fold index_insert maps index"
  have ok: "registry_ok ?index" using snoc by simp
  have "index_lookup (index_insert m ?index) a = (if a = return_address m then Some m else index_lookup ?index a)"
    using index_lookup_iff [of "index_insert m ?index" a] index_lookup_iff [OF ok, of a] index_insert_ok [OF ok, of m]
    by (intro some_ext) auto
  then show ?case using snoc index_insert_ok [OF ok, of m] by (auto simp: map_of_append split: option.splits)
qed


lemma registry_ok_Nil [simp]: "registry_ok []"
  by (simp add: registry_ok_def)

lemma index_lookup_Nil [simp]: "index_lookup [] = Map.empty"
  by (rule ext) (simp add: index_lookup_def binary_search_by_key_def)

text \<open>The abstract registry: a map from return addresses, and what a registration does to it.\<close>

definition last_registered :: "safepoint_map list \<Rightarrow> addr \<Rightarrow> safepoint_map option" where
  "last_registered maps = map_of (rev (map (\<lambda>m. (return_address m, m)) maps))"

fun register_spec :: "registration \<Rightarrow> (addr \<Rightarrow> safepoint_map option) \<times> bool \<Rightarrow> (addr \<Rightarrow> safepoint_map option) \<times> bool" where
  "register_spec (Batch raws) (f, hook) =
     (if list_all raw_ok raws then (f ++ last_registered (map read_raw raws), True) else (f, hook))"
| "register_spec (One sm) (f, hook) = (f(return_address sm \<mapsto> sm), True)"
| "register_spec Clear (f, hook) = (Map.empty, False)"

definition registry_abs :: "registry \<Rightarrow> (addr \<Rightarrow> safepoint_map option) \<times> bool" where
  "registry_abs g = (index_lookup (reg_index g), reg_hook g)"

lemma fold_lookup:
  assumes "registry_ok index"
  shows "registry_ok (fold index_insert maps index)"
    "index_lookup (fold index_insert maps index) = index_lookup index ++ last_registered maps"
  using index_fold [OF assms, of maps] by (auto simp: last_registered_def map_add_def fun_eq_iff)

lemma index_new_lookup:
  "registry_ok (index_new maps)" "index_lookup (index_new maps) = last_registered maps"
  using fold_lookup [of "[]" maps] by (auto simp: index_new_def map_add_def fun_eq_iff split: option.splits)

lemma last_registered_index:
  assumes "registry_ok index"
  shows "last_registered index = index_lookup index"
proof
  show "last_registered index a = index_lookup index a" for a
    using index_lookup_iff [OF assms, of a] assms
    by (intro some_ext)
      (auto simp: last_registered_def registry_ok_def map_of_eq_Some_iff comp_def rev_map [symmetric] distinct_map)
qed

lemma index_insert_lookup:
  assumes "registry_ok index"
  shows "registry_ok (index_insert m index)" "index_lookup (index_insert m index) = (index_lookup index)(return_address m \<mapsto> m)"
  using fold_lookup [OF assms, of "[m]"] by (auto simp: last_registered_def)

lemma register_refines:
  assumes "registry_ok (reg_index g)"
  shows "registry_ok (reg_index (register r g)) \<and> registry_abs (register r g) = register_spec r (registry_abs g)"
proof (cases r)
  case (Batch raws)
  then show ?thesis
    using fold_lookup [OF assms, of "index_new (map read_raw raws)"] assms
      last_registered_index [OF index_new_lookup(1)] index_new_lookup(2)
    by (auto simp: pon_stackmap_register_def register_stack_map_index_def index_extend_def registry_abs_def)
next
  case (One sm)
  then show ?thesis
    using index_insert_lookup [OF assms] by (simp add: register_safepoint_map_def registry_abs_def)
qed (simp add: clear_stack_map_index_def registry_abs_def)

text \<open>
  The safepoint registry is a map from return addresses: after any sequence of batch registrations,
  single registrations and clears, starting from the empty registry, a lookup gives exactly what the
  abstract map gives (the map registered last for that address since the last clear), a batch with a
  malformed descriptor changes nothing, and the collector's hook is installed exactly when the last
  effective operation was a registration.
\<close>
theorem stackmap_registry_exact:
  "registry_abs (fold register ops \<lparr>reg_index = [], reg_hook = False\<rparr>) = fold register_spec ops (Map.empty, False)"
proof -
  let ?g0 = "\<lparr>reg_index = [], reg_hook = False\<rparr>"
  have "registry_ok (reg_index (fold register ops ?g0)) \<and>
      registry_abs (fold register ops ?g0) = fold register_spec ops (registry_abs ?g0)"
    by (induction ops rule: rev_induct) (simp_all add: register_refines)
  then show ?thesis by (simp add: registry_abs_def)
qed

section \<open>The mixed scan covers every frame it does not map\<close>

lemma region_words_cover:
  assumes "region_low \<le> s" "floor \<le> s" "s mod WORD = 0" "s + WORD \<le> region_high" "read_word m s \<noteq> 0"
  shows "read_word m s \<in> set (region_words m floor region_low region_high)"
proof -
  let ?low = "if floor > region_low then floor else region_low"
  have "?low \<le> s" using assms(1,2) by simp
  then obtain k where k: "s = align_up ?low + k * WORD" using align_up_least [of ?low s] assms(3) by blast
  then have "(s, read_word m s) \<in> set (scan_words m (align_up ?low) region_high)"
    using assms(4,5) unfolding set_scan_words by blast
  then show ?thesis by (force simp: region_words_def)
qed

text \<open>The frames the walk meets: the address of a frame record and where the frame above it starts.\<close>

fun frames :: "nat \<Rightarrow> memory \<Rightarrow> stack_bounds \<Rightarrow> addr \<Rightarrow> addr \<Rightarrow> (addr \<times> addr) list" where
  "frames 0 m b stack_base fp = []"
| "frames (Suc n) m b stack_base fp =
     (let next = read_word m fp in
      if next = 0 \<or> \<not> next_frame_pointer_advances fp next b True then [(fp, stack_base)]
      else (fp, next) # frames n m b stack_base next)"

text \<open>
  A word the scan may leave out: one that touches a frame record, or one in a frame whose return address
  has an exact safepoint map or lies in mapped code.
\<close>

definition left_out :: "memory \<Rightarrow> stack_map_index \<Rightarrow> code_ranges \<Rightarrow> (addr \<times> addr) list \<Rightarrow> addr \<Rightarrow> bool" where
  "left_out m index ranges fs s \<longleftrightarrow>
     (\<exists>(fp, upper) \<in> set fs.
        (fp < s + WORD \<and> s < fp + RECORD) \<or>
        (fp + RECORD \<le> s \<and> s < upper \<and>
         (index_lookup index (read_word m (fp + WORD)) \<noteq> None \<or> is_mapped_code ranges (read_word m (fp + WORD)))))"

lemma mixed_loop_covers:
  assumes "snd (mixed_loop n m index ranges b floor stack_base fp)"
    and "fp < s + WORD" "floor \<le> s" "s mod WORD = 0" "s + WORD \<le> stack_base" "read_word m s \<noteq> 0"
  shows "read_word m s \<in> set (fst (mixed_loop n m index ranges b floor stack_base fp)) \<or>
    left_out m index ranges (frames n m b stack_base fp) s"
  using assms(1,2)
proof (induction n arbitrary: fp)
  case (Suc n)
  let ?next = "read_word m fp"
  show ?case
  proof (cases "s < fp + RECORD")
    case True
    then show ?thesis using Suc.prems(2) by (auto simp: left_out_def Let_def)
  next
    case False
    then have s: "fp + RECORD \<le> s" by simp
    show ?thesis
    proof (cases "?next = 0 \<or> \<not> next_frame_pointer_advances fp ?next b True")
      case True
      then show ?thesis using region_words_cover [OF s assms(3-6)] by auto
    next
      case next_ok: False
      then have contains: "bounds_contains b ?next RECORD" by (auto simp: next_frame_pointer_advances_def split: if_splits)
      show ?thesis
      proof (cases "?next < s + WORD")
        case True
        from Suc.IH [OF _ True] show ?thesis
          using Suc.prems(1) next_ok contains by (auto simp: left_out_def Let_def case_prod_beta)
      next
        case False
        then have body: "s + WORD \<le> ?next" by simp
        have "read_word m s \<in> set (frame_roots m index ranges b floor fp ?next)"
          if "index_lookup index (read_word m (fp + WORD)) = None" "\<not> is_mapped_code ranges (read_word m (fp + WORD))"
          using that region_words_cover [OF s assms(3,4) body assms(6)] by (simp add: frame_roots_def)
        then show ?thesis
          using next_ok contains s body by (auto simp: left_out_def Let_def case_prod_beta WORD_def)
      qed
    qed
  qed
qed simp


lemma mixed_scan_covers_aux:
  assumes "snd (scan_stack_mixed m index ranges stack_base current fp floor)"
    and "current \<le> s" "floor \<le> s" "s mod WORD = 0" "s + WORD \<le> stack_base" "read_word m s \<noteq> 0"
  shows "read_word m s \<in> set (fst (scan_stack_mixed m index ranges stack_base current fp floor)) \<or>
    left_out m index ranges
      (frames MAX_FP_CHAIN_FRAMES m (bounds_new (if fp < current then fp else current) stack_base) stack_base fp) s"
proof -
  let ?b = "bounds_new (if fp < current then fp else current) stack_base"
  have scan: "scan_stack_mixed m index ranges stack_base current fp floor =
      (region_words m floor current (fp + RECORD) @ fst (mixed_loop MAX_FP_CHAIN_FRAMES m index ranges ?b floor stack_base fp),
       snd (mixed_loop MAX_FP_CHAIN_FRAMES m index ranges ?b floor stack_base fp))"
    using assms(1) unfolding scan_stack_mixed_def by (auto simp: Let_def case_prod_beta split: if_splits)
  show ?thesis
  proof (cases "s + WORD \<le> fp + RECORD")
    case True
    then show ?thesis using region_words_cover [OF assms(2-4) True assms(6)] by (simp add: scan)
  next
    case False
    then have "fp < s + WORD" by (simp add: RECORD_def)
    then show ?thesis using mixed_loop_covers [OF _ _ assms(3-6)] assms(1) by (auto simp: scan)
  qed
qed

lemma object_start_pos:
  assumes "heap_wf st" "obj_at st loc = Some (start, sz, tid)"
  shows "0 < start"
proof -
  have "heap_core st" using assms(1) by (simp add: heap_wf_def)
  then show ?thesis
    using assms(2) by (cases loc)
      (auto simp: obj_at_def slot_address_def heap_core_def spans_ok_def span_core_def large_ok_def split: option.splits if_splits)
qed

text \<open>
  C24. With the mixed scan installed as the collector's precise hook, a stack slot keeps its object:
  when the walk is complete, an object whose bytes a word-aligned slot between the scanner and the
  stack base (and not below the floor) points into survives the collection, unless the slot touches a
  frame record or lies in the body of a frame whose return address has an exact safepoint map or is in
  mapped code.
\<close>
theorem mixed_scan_keeps_object:
  assumes "heap_wf st" "obj_at st loc = Some (start, sz, tid)" "start \<le> read_word m s" "read_word m s < start + sz"
    and "scan_stack_mixed m index ranges stack_base current fp floor = (vs, True)"
    and "current \<le> s" "floor \<le> s" "s mod WORD = 0" "s + WORD \<le> stack_base"
    and "\<not> left_out m index ranges
      (frames MAX_FP_CHAIN_FRAMES m (bounds_new (if fp < current then fp else current) stack_base) stack_base fp) s"
  shows "\<exists>pending det n st' loc'.
    collect_locked (root_values explicit (Some (vs, True)) m current stack_base floor) st = Some (Inr (pending, det, n, st')) \<and>
    obj_at st' loc' = Some (start, sz, tid)"
proof (rule root_keeps_object [OF assms(1,2) _ assms(3,4)])
  have "read_word m s \<noteq> 0" using object_start_pos [OF assms(1,2)] assms(3) by simp
  then have "read_word m s \<in> set vs"
    using mixed_scan_covers_aux [of m index ranges stack_base current fp floor s] assms(5-10) by simp
  then show "read_word m s \<in> set (root_values explicit (Some (vs, True)) m current stack_base floor)"
    by (simp add: root_values_def collect_precise_stack_roots_def)
qed

text \<open>One unmapped frame at 32 whose saved frame pointer is null, and a slot at 64 that points at 8192.\<close>

definition one_frame :: memory where
  "one_frame = (\<lambda>x. if x = 65 then 32 else 0)"

lemma one_frame_words [simp]:
  "read_word one_frame 64 = 8192" "read_word one_frame 32 = 0" "read_word one_frame 40 = 0"
  by (simp_all add: one_frame_def read_word_def WORD_def upt_conv_Cons)

lemma one_frame_scan:
  "scan_stack_mixed one_frame [] [(4096, 8192)] 128 32 32 0 =
     (region_words one_frame 0 32 48 @ region_words one_frame 0 48 128, True)"
  by (simp add: scan_stack_mixed_def MAX_FP_CHAIN_FRAMES_def bounds_new_def bounds_contains_def RECORD_def WORD_def
      mixed_loop.simps(2) [of 4095, simplified])

lemma one_frame_frames:
  "frames MAX_FP_CHAIN_FRAMES one_frame (bounds_new (if 32 < (32 :: nat) then 32 else 32) 128) 128 32 = [(32, 128)]"
  by (simp add: MAX_FP_CHAIN_FRAMES_def frames.simps(2) [of 4095, simplified])

theorem mixed_scan_keeps_object_witness:
  "\<exists>pending det n st' loc'.
    collect_locked (root_values [] (Some (region_words one_frame 0 32 48 @ region_words one_frame 0 48 128, True))
      one_frame 32 128 0) pair_heap = Some (Inr (pending, det, n, st')) \<and>
    obj_at st' loc' = Some (8192, 2048, 0)"
proof -
  have "partition_point (\<lambda>r. fst r < 0) [(4096 :: nat, 8192 :: nat)] = 0"
    by (simp add: partition_point_def bisect.simps)
  then have "\<not> left_out one_frame [] [(4096, 8192)] [(32, 128)] 64"
    by (simp add: left_out_def RECORD_def WORD_def index_lookup_def binary_search_by_key_def is_mapped_code_def)
  then show ?thesis
    by (intro mixed_scan_keeps_object [OF pair_heap_wf pair_heap_graph(2) _ _ one_frame_scan, where s = 64])
      (simp_all add: one_frame_frames [simplified] WORD_def)
qed

end
