(* ===== verification/Mro_C3.thy ===== *)
theory Mro_C3
  imports Pon_Prelude "HOL-Library.Sublist"
begin

text \<open>
  The C3 method resolution order, \<^verbatim>\<open>pon-runtime/src/mro.rs\<close>.  Type objects live in a store indexed by
  their addresses; the null pointer is 0.  The specification is the one of C3: a linearization of
  some sequences is a list without repetitions in which every sequence occurs in its order.
\<close>

section \<open>Data\<close>

record py_type =
  tp_name :: string
  tp_base :: addr
  tp_mro :: "addr list option"
  tp_bases :: "addr list option"

text \<open>\<open>object_type\<close> is the result of \<open>builtin_native_type("object")\<close>.\<close>

record type_store =
  ty_at :: "addr \<Rightarrow> py_type"
  object_type :: "addr option"

datatype mro_error = NullType | NullBase | Inconsistent

section \<open>The merge\<close>

definition in_tail :: "addr \<Rightarrow> addr list \<Rightarrow> bool" where
  "in_tail x s \<longleftrightarrow> length s > 1 \<and> x \<in> set (tl s)"

definition find_candidate :: "addr list list \<Rightarrow> addr option" where
  "find_candidate seqs =
     List.find (\<lambda>h. \<not> (\<exists>other \<in> set seqs. in_tail h other)) (map hd (filter (\<lambda>s. s \<noteq> []) seqs))"

fun drop_head :: "addr \<Rightarrow> addr list \<Rightarrow> addr list" where
  "drop_head c [] = []"
| "drop_head c (h # t) = (if h = c then t else h # t)"

lemma in_tail_iff: "in_tail x s \<longleftrightarrow> x \<in> set (tl s)"
  by (cases s) (auto simp: in_tail_def)

lemma find_SomeD: "List.find P xs = Some x \<Longrightarrow> P x \<and> x \<in> set xs"
  by (induction xs) (auto split: if_splits)

lemma find_candidate_Some:
  assumes "find_candidate seqs = Some c"
  shows "\<exists>s \<in> set seqs. s \<noteq> [] \<and> hd s = c" "\<forall>s \<in> set seqs. c \<notin> set (tl s)"
  using find_SomeD [OF assms [unfolded find_candidate_def]] by (auto simp: in_tail_iff)

lemma drop_head_length: "length (drop_head c s) \<le> length s"
  by (cases s) auto

lemma sum_drop_head:
  "sum_list (map (\<lambda>s. length (drop_head c s)) seqs) \<le> sum_list (map length seqs)"
  by (induction seqs) (auto simp: add_mono drop_head_length)

lemma sum_drop_head_less:
  "\<exists>s \<in> set seqs. s \<noteq> [] \<and> hd s = c \<Longrightarrow> sum_list (map (\<lambda>s. length (drop_head c s)) seqs) < sum_list (map length seqs)"
proof (induction seqs)
  case (Cons s seqs)
  show ?case
  proof (cases "s \<noteq> [] \<and> hd s = c")
    case True
    then have "length (drop_head c s) < length s" by (cases s) auto
    then show ?thesis using sum_drop_head [of c seqs] by (simp add: add_less_le_mono)
  next
    case False
    then have "\<exists>s \<in> set seqs. s \<noteq> [] \<and> hd s = c" using Cons.prems by auto
    then show ?thesis using Cons.IH drop_head_length [of c s] by (simp add: add_le_less_mono)
  qed
qed simp

function c3_merge :: "addr list list \<Rightarrow> addr list option" where
  "c3_merge seqs =
     (if \<forall>s \<in> set seqs. s = [] then Some []
      else case find_candidate seqs of
        None \<Rightarrow> None
      | Some c \<Rightarrow> if c = 0 then None else map_option (Cons c) (c3_merge (map (drop_head c) seqs)))"
  by pat_completeness auto
termination
  by (relation "measure (\<lambda>seqs. sum_list (map length seqs))")
    (auto simp: comp_def dest: find_candidate_Some(1) intro!: sum_drop_head_less)

declare c3_merge.simps [simp del]

section \<open>Type objects\<close>

definition implicit_object_base :: "type_store \<Rightarrow> addr \<Rightarrow> addr option" where
  "implicit_object_base ts terminal =
     (if terminal = 0 \<or> tp_name (ty_at ts terminal) = ''object'' then None
      else case object_type ts of
        None \<Rightarrow> None
      | Some o' \<Rightarrow> if o' = 0 \<or> o' = terminal then None else Some o')"

text \<open>The \<open>tp_base\<close> chain; a cyclic chain is a loop that does not end.\<close>

partial_function (option) base_chain :: "type_store \<Rightarrow> addr \<Rightarrow> addr list option" where
  "base_chain ts t =
     (if t = 0 then Some []
      else Option.bind (base_chain ts (tp_base (ty_at ts t))) (\<lambda>rest. Some (t # rest)))"

definition mro_entries :: "type_store \<Rightarrow> addr \<Rightarrow> addr list option" where
  "mro_entries ts t =
     (if t = 0 then Some []
      else case tp_mro (ty_at ts t) of
        Some entries \<Rightarrow> Some entries
      | None \<Rightarrow>
          (case base_chain ts t of
             None \<Rightarrow> None
           | Some out \<Rightarrow>
               Some (case implicit_object_base ts (last out) of None \<Rightarrow> out | Some o' \<Rightarrow> out @ [o'])))"

definition base_entries :: "type_store \<Rightarrow> addr \<Rightarrow> addr list" where
  "base_entries ts t =
     (if t = 0 then []
      else case tp_bases (ty_at ts t) of
        Some entries \<Rightarrow> entries
      | None \<Rightarrow> let b = tp_base (ty_at ts t) in if b = 0 then [] else [b])"

definition set_declared_bases :: "addr \<Rightarrow> addr list \<Rightarrow> type_store \<Rightarrow> type_store" where
  "set_declared_bases t bases ts =
     (if t = 0 then ts else ts\<lparr>ty_at := (ty_at ts)(t := (ty_at ts t)\<lparr>tp_bases := Some bases\<rparr>)\<rparr>)"

definition is_subtype :: "type_store \<Rightarrow> addr \<Rightarrow> addr \<Rightarrow> bool option" where
  "is_subtype ts candidate b =
     (if candidate = 0 \<or> b = 0 then Some False
      else if candidate = b then Some True
      else map_option (\<lambda>entries. b \<in> set entries) (mro_entries ts candidate))"

fun map_entries :: "type_store \<Rightarrow> addr list \<Rightarrow> addr list list option" where
  "map_entries ts [] = Some []"
| "map_entries ts (b # bs) =
     (case mro_entries ts b of None \<Rightarrow> None | Some es \<Rightarrow> map_option (Cons es) (map_entries ts bs))"

definition compute_c3_mro :: "type_store \<Rightarrow> addr \<Rightarrow> addr list \<Rightarrow> (mro_error + addr list) option" where
  "compute_c3_mro ts t bases =
     (if t = 0 then Some (Inl NullType)
      else if 0 \<in> set bases then Some (Inl NullBase)
      else case map_entries ts bases of
        None \<Rightarrow> None
      | Some seqs \<Rightarrow>
          Some (case c3_merge (seqs @ [bases]) of None \<Rightarrow> Inl Inconsistent | Some r \<Rightarrow> Inr (t # r)))"

definition set_c3_mro :: "addr \<Rightarrow> addr list \<Rightarrow> type_store \<Rightarrow> (mro_error + type_store) option" where
  "set_c3_mro t bases ts =
     (case compute_c3_mro ts t bases of
        None \<Rightarrow> None
      | Some (Inl e) \<Rightarrow> Some (Inl e)
      | Some (Inr entries) \<Rightarrow>
          Some (Inr (ts\<lparr>ty_at := (ty_at ts)(t := (ty_at ts t)\<lparr>tp_mro := Some entries\<rparr>)\<rparr>)))"

section \<open>Linearizations\<close>

definition linearizes :: "'a list \<Rightarrow> 'a list list \<Rightarrow> bool" where
  "linearizes r seqs \<longleftrightarrow> distinct r \<and> (\<forall>s \<in> set seqs. subseq s r)"

lemma drop_head_filter:
  assumes "distinct s" "c \<notin> set (tl s)"
  shows "drop_head c s = filter (\<lambda>x. x \<noteq> c) s"
  using assms by (cases s) (auto intro!: filter_True [symmetric])

lemma subseq_drop_head_Cons: "subseq (drop_head c s) r \<Longrightarrow> subseq s (c # r)"
  by (cases s) (auto split: if_splits)

lemma merge_sound:
  "c3_merge seqs = Some r \<Longrightarrow> \<forall>s \<in> set seqs. distinct s \<Longrightarrow>
     linearizes r seqs \<and> set r = \<Union> (set ` set seqs)"
proof (induction seqs arbitrary: r rule: c3_merge.induct)
  case (1 seqs)
  show ?case
  proof (cases "\<forall>s \<in> set seqs. s = []")
    case True
    then have "r = []" using "1.prems"(1) by (simp add: c3_merge.simps [of seqs])
    then show ?thesis using True by (auto simp: linearizes_def)
  next
    case False
    then obtain c r' where c: "find_candidate seqs = Some c" "c \<noteq> 0" "c3_merge (map (drop_head c) seqs) = Some r'" "r = c # r'"
      using "1.prems"(1) by (auto simp: c3_merge.simps [of seqs] split: option.splits if_splits)
    note fc = find_candidate_Some [OF c(1)]
    have dh: "drop_head c s = filter (\<lambda>x. x \<noteq> c) s" if "s \<in> set seqs" for s
      using drop_head_filter fc(2) "1.prems"(2) that by blast
    have "\<forall>s \<in> set (map (drop_head c) seqs). distinct s" using dh "1.prems"(2) by auto
    from "1.IH" [OF False c(1,2,3) this]
    have ih: "linearizes r' (map (drop_head c) seqs)" "set r' = \<Union> (set ` set (map (drop_head c) seqs))" by auto
    have un: "\<Union> (set ` set (map (drop_head c) seqs)) = \<Union> (set ` set seqs) - {c}" using dh by auto
    have "c \<in> \<Union> (set ` set seqs)" using fc(1) by force
    then have "set r = \<Union> (set ` set seqs)" using ih(2) un c(4) by auto
    moreover have "linearizes r seqs"
      using ih un c(4) subseq_drop_head_Cons by (auto simp: linearizes_def)
    ultimately show ?thesis by blast
  qed
qed

lemma subseq_setD: "subseq s r \<Longrightarrow> set s \<subseteq> set r"
  by (induction rule: list_emb.induct) auto

lemma subseq_distinct: "subseq s r \<Longrightarrow> distinct r \<Longrightarrow> distinct s"
  by (induction rule: list_emb.induct) (auto dest: subseq_setD)

lemma linearizes_filter:
  assumes "linearizes r seqs" "\<And>s. s \<in> set seqs \<Longrightarrow> f s = filter P s"
  shows "linearizes (filter P r) (map f seqs)"
  using assms by (auto simp: linearizes_def)

lemma first_not_in_tail:
  assumes "linearizes (x # r) seqs" "s \<in> set seqs"
  shows "x \<notin> set (tl s)"
proof (cases s)
  case (Cons h t)
  have sub: "subseq (h # t) (x # r)" and d: "x \<notin> set r" using assms Cons by (auto simp: linearizes_def)
  show ?thesis
  proof (cases "h = x")
    case True
    then have "subseq t r" using sub by simp
    then show ?thesis using d subseq_setD Cons by fastforce
  next
    case False
    then have "subseq (h # t) r" using sub by simp
    then show ?thesis using d subseq_setD [of "h # t" r] Cons by auto
  qed
qed simp

lemma find_candidate_exists:
  assumes lin: "linearizes r seqs" and ne: "\<exists>s \<in> set seqs. s \<noteq> []"
  shows "find_candidate seqs \<noteq> None"
proof -
  let ?U = "\<Union> (set ` set seqs)"
  have "linearizes (filter (\<lambda>x. x \<in> ?U) r) (map (\<lambda>s. s) seqs)"
    by (rule linearizes_filter [OF lin]) (auto intro!: filter_True [symmetric])
  then have lin': "linearizes (filter (\<lambda>x. x \<in> ?U) r) seqs" by simp
  obtain s0 y where s0: "s0 \<in> set seqs" "y \<in> set s0" using ne by (meson last_in_set)
  then have "y \<in> set r" using lin subseq_setD by (auto simp: linearizes_def)
  then obtain x r' where xr: "filter (\<lambda>x. x \<in> ?U) r = x # r'"
    using s0 by (cases "filter (\<lambda>x. x \<in> ?U) r") (auto simp: filter_empty_conv)
  then have "x \<in> ?U" by (metis filter_eq_ConsD)
  then obtain s where s: "s \<in> set seqs" "x \<in> set s" by auto
  have nt: "\<forall>o' \<in> set seqs. \<not> in_tail x o'" using first_not_in_tail [OF lin' [unfolded xr]] by (auto simp: in_tail_iff)
  then have "hd s = x" "s \<noteq> []" using s by (cases s; auto simp: in_tail_iff)+
  then have "x \<in> set (map hd (filter (\<lambda>s. s \<noteq> []) seqs))" using s by auto
  then show ?thesis using nt by (auto simp: find_candidate_def find_None_iff)
qed

lemma merge_complete:
  "linearizes r seqs \<Longrightarrow> \<forall>s \<in> set seqs. 0 \<notin> set s \<Longrightarrow> c3_merge seqs \<noteq> None"
proof (induction seqs arbitrary: r rule: c3_merge.induct)
  case (1 seqs)
  show ?case
  proof (cases "\<forall>s \<in> set seqs. s = []")
    case True
    then show ?thesis by (simp add: c3_merge.simps [of seqs])
  next
    case False
    obtain c where c: "find_candidate seqs = Some c" using find_candidate_exists [OF "1.prems"(1)] False by auto
    note fc = find_candidate_Some [OF c]
    have c0: "c \<noteq> 0" using fc(1) "1.prems"(2) by (metis list.set_sel(1))
    have dh: "drop_head c s = filter (\<lambda>x. x \<noteq> c) s" if "s \<in> set seqs" for s
      using that fc(2) "1.prems"(1) by (intro drop_head_filter) (auto simp: linearizes_def dest: subseq_distinct)
    have "linearizes (filter (\<lambda>x. x \<noteq> c) r) (map (drop_head c) seqs)"
      by (rule linearizes_filter [OF "1.prems"(1) dh])
    moreover have "\<forall>s \<in> set (map (drop_head c) seqs). 0 \<notin> set s" using dh "1.prems"(2) by auto
    ultimately have "c3_merge (map (drop_head c) seqs) \<noteq> None" using "1.IH" [OF False c c0] by blast
    then show ?thesis using False c c0 by (simp add: c3_merge.simps [of seqs])
  qed
qed

section \<open>Well-formed type stores\<close>

text \<open>Every recorded order starts with its type and repeats nothing; a null pointer is in none.\<close>

definition store_ok :: "type_store \<Rightarrow> bool" where
  "store_ok ts \<longleftrightarrow> (\<forall>t es. t \<noteq> 0 \<and> tp_mro (ty_at ts t) = Some es \<longrightarrow> distinct es \<and> 0 \<notin> set es \<and> es \<noteq> [] \<and> hd es = t)"

lemma map_entries_set:
  "map_entries ts bs = Some seqs \<Longrightarrow> set seqs = {es. \<exists>b \<in> set bs. mro_entries ts b = Some es}"
  by (induction bs arbitrary: seqs) (auto split: option.splits)

lemma map_entries_total:
  "\<forall>b \<in> set bs. mro_entries ts b \<noteq> None \<Longrightarrow> \<exists>seqs. map_entries ts bs = Some seqs"
  by (induction bs) auto

lemma merge_distinct: "c3_merge seqs = Some r \<Longrightarrow> \<forall>s \<in> set seqs. distinct s"
proof (induction seqs arbitrary: r rule: c3_merge.induct)
  case (1 seqs)
  show ?case
  proof (cases "\<forall>s \<in> set seqs. s = []")
    case False
    then obtain c r' where c: "find_candidate seqs = Some c" "c \<noteq> 0" "c3_merge (map (drop_head c) seqs) = Some r'"
      using "1.prems"(1) by (auto simp: c3_merge.simps [of seqs] split: option.splits if_splits)
    have "distinct s" if s: "s \<in> set seqs" for s
    proof -
      have "distinct (drop_head c s)" using "1.IH" [OF False c] s by simp
      moreover have "c \<notin> set (tl s)" using find_candidate_Some(2) [OF c(1)] s by blast
      ultimately show ?thesis by (cases s) (auto split: if_splits)
    qed
    then show ?thesis by blast
  qed auto
qed

text \<open>The bases of a class statement: each has an order, without repetitions or null entries.\<close>

definition bases_ok :: "type_store \<Rightarrow> addr list \<Rightarrow> bool" where
  "bases_ok ts bases \<longleftrightarrow> 0 \<notin> set bases \<and>
     (\<forall>b \<in> set bases. \<exists>es. mro_entries ts b = Some es \<and> b \<in> set es \<and> distinct es \<and> 0 \<notin> set es)"

definition c3_constraints :: "type_store \<Rightarrow> addr list \<Rightarrow> addr list set" where
  "c3_constraints ts bases = insert bases {es. \<exists>b \<in> set bases. mro_entries ts b = Some es}"

definition c3_order :: "type_store \<Rightarrow> addr list \<Rightarrow> addr list \<Rightarrow> bool" where
  "c3_order ts bases r \<longleftrightarrow> distinct r \<and> (\<forall>s \<in> c3_constraints ts bases. subseq s r)"

definition ancestors :: "type_store \<Rightarrow> addr list \<Rightarrow> addr set" where
  "ancestors ts bases = {x. \<exists>b \<in> set bases. \<exists>es. mro_entries ts b = Some es \<and> x \<in> set es}"

lemma compute_c3_spec:
  assumes "t \<noteq> 0" "bases_ok ts bases"
  shows "(\<exists>r. compute_c3_mro ts t bases = Some (Inr (t # r)) \<and> c3_order ts bases r \<and> set r = ancestors ts bases) \<or>
    compute_c3_mro ts t bases = Some (Inl Inconsistent) \<and> \<not> (\<exists>r. c3_order ts bases r)"
proof -
  have "\<forall>b \<in> set bases. mro_entries ts b \<noteq> None" using assms(2) by (auto simp: bases_ok_def)
  then obtain seqs where seqs: "map_entries ts bases = Some seqs" using map_entries_total by blast
  note st = map_entries_set [OF seqs]
  have cs: "set (seqs @ [bases]) = c3_constraints ts bases" by (auto simp: st c3_constraints_def)
  have run: "compute_c3_mro ts t bases =
      Some (case c3_merge (seqs @ [bases]) of None \<Rightarrow> Inl Inconsistent | Some r \<Rightarrow> Inr (t # r))"
    using assms seqs by (simp add: compute_c3_mro_def bases_ok_def)
  have lin: "linearizes r (seqs @ [bases]) \<longleftrightarrow> c3_order ts bases r" for r
    using cs by (auto simp: linearizes_def c3_order_def)
  have un: "\<Union> (set ` set (seqs @ [bases])) = ancestors ts bases"
  proof -
    have "set bases \<subseteq> ancestors ts bases" using assms(2) unfolding bases_ok_def ancestors_def by blast
    then show ?thesis by (auto simp: st ancestors_def)
  qed
  show ?thesis
  proof (cases "c3_merge (seqs @ [bases])")
    case None
    have "\<forall>s \<in> set (seqs @ [bases]). 0 \<notin> set s" using assms(2) by (auto simp: st bases_ok_def)
    then show ?thesis using merge_complete [of _ "seqs @ [bases]"] None lin run by auto
  next
    case (Some r)
    then show ?thesis using merge_sound [OF Some merge_distinct [OF Some]] lin un run by auto
  qed
qed

section \<open>Properties\<close>

text \<open>A diamond: \<open>D(B, C)\<close> over \<open>A\<close> and \<open>object\<close>, and two classes with opposite base orders.\<close>

definition sample_ty :: "addr list option \<Rightarrow> py_type" where
  "sample_ty m = \<lparr>tp_name = ''T'', tp_base = 0, tp_mro = m, tp_bases = None\<rparr>"

definition diamond_store :: type_store where
  "diamond_store = \<lparr>ty_at = (\<lambda>t. sample_ty (if t = 1 then Some [1] else if t = 2 then Some [2, 1] else if t = 3 then Some [3, 2, 1]
     else if t = 4 then Some [4, 2, 1] else None)), object_type = Some 1\<rparr>"

lemma diamond_entries: "mro_entries diamond_store 3 = Some [3, 2, 1]" "mro_entries diamond_store 4 = Some [4, 2, 1]"
  by (simp_all add: mro_entries_def diamond_store_def sample_ty_def)

lemma diamond_ok: "bases_ok diamond_store [3, 4]"
  by (auto simp: bases_ok_def diamond_entries)

text \<open>
  C4.  The C3 computation is sound and complete: for bases whose own orders are well formed it returns
  the type followed by a list without repetitions that holds exactly the ancestors and keeps the
  order of every base's own resolution order and of the base list itself; it reports an
  inconsistency exactly when no such list exists.
\<close>

theorem c3_sound_complete:
  assumes "t \<noteq> 0" "bases_ok ts bases"
  shows "(\<exists>r. compute_c3_mro ts t bases = Some (Inr (t # r)) \<and> c3_order ts bases r \<and> set r = ancestors ts bases) \<or>
    compute_c3_mro ts t bases = Some (Inl Inconsistent) \<and> \<not> (\<exists>r. c3_order ts bases r)"
  by (rule compute_c3_spec [OF assms])

theorem c3_sound_complete_witness:
  "compute_c3_mro diamond_store 5 [3, 4] = Some (Inr [5, 3, 4, 2, 1]) \<and>
   (\<exists>r. compute_c3_mro diamond_store 5 [3, 4] = Some (Inr (5 # r)) \<and> c3_order diamond_store [3, 4] r \<and>
      set r = ancestors diamond_store [3, 4])"
proof
  show run: "compute_c3_mro diamond_store 5 [3, 4] = Some (Inr [5, 3, 4, 2, 1])"
    by (simp add: compute_c3_mro_def diamond_entries c3_merge.simps find_candidate_def in_tail_def)
  show "\<exists>r. compute_c3_mro diamond_store 5 [3, 4] = Some (Inr (5 # r)) \<and> c3_order diamond_store [3, 4] r \<and>
      set r = ancestors diamond_store [3, 4]"
    using c3_sound_complete [OF _ diamond_ok, of 5] run by auto
qed

text \<open>
  Storing the order makes subtyping right: after a successful \<open>set_c3_mro\<close> the type is a subtype of
  itself, of each base and of exactly the ancestors of its bases, no other type's order changes,
  and every recorded order still starts with its type and repeats nothing.
\<close>

theorem set_c3_mro_subtypes:
  assumes "t \<noteq> 0" "bases_ok ts bases" "store_ok ts" "t \<notin> ancestors ts bases"
    and "set_c3_mro t bases ts = Some (Inr ts')"
  shows "store_ok ts' \<and> (\<forall>x. x \<noteq> 0 \<longrightarrow> is_subtype ts' t x = Some (x = t \<or> x \<in> ancestors ts bases)) \<and>
    set bases \<subseteq> ancestors ts bases \<and> (\<forall>u. u \<noteq> t \<longrightarrow> ty_at ts' u = ty_at ts u)"
proof -
  obtain r where r: "compute_c3_mro ts t bases = Some (Inr (t # r))" "c3_order ts bases r" "set r = ancestors ts bases"
    using compute_c3_spec [OF assms(1,2)] assms(5) by (auto simp: set_c3_mro_def split: option.splits sum.splits)
  then have ts': "ts' = ts\<lparr>ty_at := (ty_at ts)(t := (ty_at ts t)\<lparr>tp_mro := Some (t # r)\<rparr>)\<rparr>"
    using assms(5) by (simp add: set_c3_mro_def)
  have "0 \<notin> ancestors ts bases" "set bases \<subseteq> ancestors ts bases"
    using assms(2) unfolding bases_ok_def ancestors_def by fastforce+
  moreover have "store_ok ts'"
    using assms(1,3,4) r(2,3) \<open>0 \<notin> ancestors ts bases\<close> by (auto simp: store_ok_def ts' c3_order_def)
  moreover have "is_subtype ts' t x = Some (x = t \<or> x \<in> ancestors ts bases)" if "x \<noteq> 0" for x
    using that assms(1) r(3) by (auto simp: is_subtype_def mro_entries_def ts')
  ultimately show ?thesis by (simp add: ts')
qed

theorem set_c3_mro_subtypes_witness:
  "\<exists>ts'. set_c3_mro 5 [3, 4] diamond_store = Some (Inr ts') \<and>
    (store_ok ts' \<and> (\<forall>x. x \<noteq> 0 \<longrightarrow> is_subtype ts' 5 x = Some (x = 5 \<or> x \<in> ancestors diamond_store [3, 4])) \<and>
    set [3, 4] \<subseteq> ancestors diamond_store [3, 4] \<and> (\<forall>u. u \<noteq> 5 \<longrightarrow> ty_at ts' u = ty_at diamond_store u))"
proof -
  have "compute_c3_mro diamond_store 5 [3, 4] = Some (Inr [5, 3, 4, 2, 1])"
    by (simp add: compute_c3_mro_def diamond_entries c3_merge.simps find_candidate_def in_tail_def)
  then obtain ts' where s: "set_c3_mro 5 [3, 4] diamond_store = Some (Inr ts')" by (simp add: set_c3_mro_def)
  have "store_ok diamond_store" by (auto simp: store_ok_def diamond_store_def sample_ty_def)
  moreover have "5 \<notin> ancestors diamond_store [3, 4]" by (auto simp: ancestors_def diamond_entries)
  ultimately show ?thesis using set_c3_mro_subtypes [OF _ diamond_ok _ _ s] s by auto
qed

end
