(* ===== verification/Seq_List.thy ===== *)
theory Seq_List
  imports Seq_Index "HOL-Library.Sublist"
begin

text \<open>
  Python lists (\<open>pon-runtime/src/abi/seq.rs\<close>, \<open>pon-runtime/src/types/list.rs\<close>): the cell block
  \<open>PyListStorage\<close> with its length, its capacity and its slots, and the operations that read and change
  it.  An object is its address, \<open>0\<close> the null pointer; a receiver either resolves to a cell block or is some
  other object, of which the diagnostics use the type name.

  Parameters stand for what lies outside: \<open>refused\<close> says which slot counts the system allocator refuses,
  \<open>seq_vec\<close> collects an iterable (it may run Python code and so may change the receiver),
  \<open>object_equal\<close> is element equality.  A routine that returns \<open>message + receiver\<close> writes nothing before its
  last fallible call, so an error leaves the receiver as it was; the others return the receiver too.
\<close>

section \<open>Storage\<close>

record list_storage =
  l_len :: nat
  l_cap :: nat
  l_items :: "addr list"

datatype receiver = ListObj list_storage | NotList string

definition as_slice :: "list_storage \<Rightarrow> addr list" where
  "as_slice s = (if l_len s = 0 then [] else take (l_len s) (l_items s))"

definition leak_slots :: "(nat \<Rightarrow> bool) \<Rightarrow> nat \<Rightarrow> message + addr list" where
  "leak_slots refused cap =
     (if cap = 0 then Inr []
      else if int (8 * cap) > isize_max \<or> refused cap then Inl ''sequence backing allocation failed''
      else Inr (replicate cap 0))"

fun copy_heap_pointer_slice :: "nat \<Rightarrow> addr list \<Rightarrow> addr list \<Rightarrow> addr list" where
  "copy_heap_pointer_slice i dst [] = dst"
| "copy_heap_pointer_slice i dst (v # vs) = copy_heap_pointer_slice (Suc i) (dst[i := v]) vs"

definition alloc_list_from_slice :: "(nat \<Rightarrow> bool) \<Rightarrow> addr list \<Rightarrow> message + list_storage" where
  "alloc_list_from_slice refused vs =
     bind_ok (leak_slots refused (length vs)) (\<lambda>items.
       Inr \<lparr>l_len = length vs, l_cap = length vs, l_items = copy_heap_pointer_slice 0 items vs\<rparr>)"

definition list_resize :: "(nat \<Rightarrow> bool) \<Rightarrow> list_storage \<Rightarrow> nat \<Rightarrow> message + list_storage" where
  "list_resize refused s new_cap =
     (if new_cap = l_cap s then Inr s
      else if new_cap < l_len s then Inl ''cannot shrink list backing below length''
      else bind_ok (leak_slots refused new_cap) (\<lambda>new_items.
        Inr (s\<lparr>l_items := copy_heap_pointer_slice 0 new_items (take (l_len s) (l_items s)), l_cap := new_cap\<rparr>)))"

definition replace_list_contents :: "(nat \<Rightarrow> bool) \<Rightarrow> list_storage \<Rightarrow> addr list \<Rightarrow> message + list_storage" where
  "replace_list_contents refused s vs =
     bind_ok (leak_slots refused (length vs)) (\<lambda>new_items.
       Inr (s\<lparr>l_items := copy_heap_pointer_slice 0 new_items vs, l_len := length vs, l_cap := length vs\<rparr>))"

section \<open>Appending\<close>

definition with_cells :: "receiver \<Rightarrow> string \<Rightarrow> (list_storage \<Rightarrow> message + 'a) \<Rightarrow> message + 'a" where
  "with_cells r what f = (case r of ListObj s \<Rightarrow> f s | NotList t \<Rightarrow> Inl (what @ '' expected list, got '' @ t))"

text \<open>\<open>cap.saturating_mul(2)\<close> on a \<open>usize\<close>, with the first block of four slots.\<close>

definition grown_cap :: "nat \<Rightarrow> nat" where
  "grown_cap cap = (if cap = 0 then 4 else min (cap * 2) (2 ^ 64 - 1))"

definition list_append_raw :: "(nat \<Rightarrow> bool) \<Rightarrow> receiver \<Rightarrow> addr \<Rightarrow> message + receiver" where
  "list_append_raw refused r item =
     with_cells r ''list append'' (\<lambda>s.
       if item = 0 then Inl ''cannot append NULL to list''
       else bind_ok (if l_len s = l_cap s then
                       (if grown_cap (l_cap s) \<le> l_cap s then Inl ''list is too large''
                        else list_resize refused s (grown_cap (l_cap s)))
                     else Inr s) (\<lambda>s.
         Inr (ListObj (s\<lparr>l_items := (l_items s)[l_len s := item], l_len := l_len s + 1\<rparr>))))"

definition list_reserve_additional :: "(nat \<Rightarrow> bool) \<Rightarrow> list_storage \<Rightarrow> nat \<Rightarrow> message + list_storage" where
  "list_reserve_additional refused s additional =
     (if 2 ^ 64 \<le> l_len s + additional then Inl ''list is too large''
      else
        let needed = l_len s + additional in
        if needed \<le> l_cap s then Inr s
        else if additional \<ge> 8000000 then list_resize refused s needed
        else
          let new_cap = max (grown_cap (l_cap s)) needed in
          if new_cap < needed then Inl ''list is too large'' else list_resize refused s new_cap)"

fun push_chars :: "(char \<Rightarrow> message + addr) \<Rightarrow> list_storage \<Rightarrow> string \<Rightarrow> (message + unit) \<times> receiver" where
  "push_chars single_char s [] = (Inr (), ListObj s)"
| "push_chars single_char s (ch # chs) =
     (case single_char ch of
        Inl m \<Rightarrow> (Inl m, ListObj s)
      | Inr item \<Rightarrow>
          push_chars single_char (s\<lparr>l_items := (l_items s)[l_len s := item], l_len := l_len s + 1\<rparr>) chs)"

definition list_extend_exact_str_raw ::
  "(nat \<Rightarrow> bool) \<Rightarrow> (char \<Rightarrow> message + addr) \<Rightarrow> receiver \<Rightarrow> string \<Rightarrow> (message + unit) \<times> receiver" where
  "list_extend_exact_str_raw refused single_char r chars =
     (if length chars = 0 then (Inr (), r)
      else case r of
        NotList t \<Rightarrow> (Inl (''list append expected list, got '' @ t), r)
      | ListObj s \<Rightarrow>
          (case list_reserve_additional refused s (length chars) of
             Inl m \<Rightarrow> (Inl m, r)
           | Inr s' \<Rightarrow> push_chars single_char s' chars))"

fun append_all :: "(nat \<Rightarrow> bool) \<Rightarrow> receiver \<Rightarrow> addr list \<Rightarrow> (message + unit) \<times> receiver" where
  "append_all refused r [] = (Inr (), r)"
| "append_all refused r (v # vs) =
     (case list_append_raw refused r v of Inl m \<Rightarrow> (Inl m, r) | Inr r' \<Rightarrow> append_all refused r' vs)"

text \<open>How a collected message is raised: the method stream and the subscript funnel.\<close>

definition is_sequence_index_error :: "message \<Rightarrow> bool" where
  "is_sequence_index_error m \<longleftrightarrow>
     m \<in> {''sequence index out of range'', ''list index out of range'', ''list assignment index out of range'',
          ''tuple index out of range'', ''pop from empty list'', ''pop index out of range''}"

definition contains_text :: "string \<Rightarrow> string \<Rightarrow> bool" where
  "contains_text m t \<longleftrightarrow> list_ex (prefix t) (suffixes m)"

definition raise_seq_stream_error :: "message \<Rightarrow> exn" where
  "raise_seq_stream_error m =
     (if m = ''list.index(x): x not in list'' \<or> m = ''tuple.index(x): x not in tuple'' then ValueError m
      else if is_sequence_index_error m \<or> m = ''sequence index is out of range for this platform'' then IndexError m
      else if prefix ''expected int, got '' m \<or> contains_text m '' expected list, got '' \<or> contains_text m '' expected tuple, got ''
      then TypeError m else BareError m)"

definition return_null_with_sequence_error :: "message \<Rightarrow> exn" where
  "return_null_with_sequence_error m =
     (if is_sequence_index_error m \<or> m = ''sequence index is out of range for this platform'' then IndexError m
      else if m = ''slice step cannot be zero'' then ValueError m
      else if prefix ''expected int, got '' m then TypeError m else BareError m)"

datatype iterable = ExactStr string | OtherIterable

definition pon_list_extend ::
  "(nat \<Rightarrow> bool) \<Rightarrow> (char \<Rightarrow> message + addr) \<Rightarrow> (receiver \<Rightarrow> (message + addr list) \<times> receiver) \<Rightarrow> receiver \<Rightarrow> iterable \<Rightarrow>
     (exn + unit) \<times> receiver" where
  "pon_list_extend refused single_char seq_vec r it =
     (case it of
        ExactStr chars \<Rightarrow>
          (case list_extend_exact_str_raw refused single_char r chars of
             (Inr _, r') \<Rightarrow> (Inr (), r') | (Inl m, r') \<Rightarrow> (Inl (raise_seq_stream_error m), r'))
      | OtherIterable \<Rightarrow>
          (case seq_vec r of
             (Inl m, r') \<Rightarrow> (Inl (TypeError m), r')
           | (Inr vs, r') \<Rightarrow>
               (case append_all refused r' vs of
                  (Inr _, r'') \<Rightarrow> (Inr (), r'') | (Inl m, r'') \<Rightarrow> (Inl (raise_seq_stream_error m), r''))))"

section \<open>Subscripts\<close>

definition retype_index_error :: "string \<Rightarrow> message + 'a \<Rightarrow> message + 'a" where
  "retype_index_error specific m =
     (case m of Inr x \<Rightarrow> Inr x | Inl e \<Rightarrow> Inl (if e = ''sequence index out of range'' then specific else e))"

fun shift_down :: "nat \<Rightarrow> nat \<Rightarrow> addr list \<Rightarrow> addr list" where
  "shift_down 0 pos xs = xs"
| "shift_down (Suc n) pos xs = shift_down n (Suc pos) (xs[pos := xs ! Suc pos])"

text \<open>The element removal shared by \<open>del xs[i]\<close> and \<open>pop\<close>: shift the tail, clear the last slot.\<close>

definition remove_slot :: "list_storage \<Rightarrow> nat \<Rightarrow> list_storage" where
  "remove_slot s index =
     s\<lparr>l_items := (shift_down (l_len s - 1 - index) index (l_items s))[l_len s - 1 := 0], l_len := l_len s - 1\<rparr>"

definition list_item_object :: "receiver \<Rightarrow> int \<Rightarrow> message + addr" where
  "list_item_object r index =
     with_cells r ''list indexing'' (\<lambda>s.
       bind_ok (retype_index_error ''list index out of range'' (normalize_index index (l_len s))) (\<lambda>i.
         Inr (l_items s ! i)))"

definition list_delete_index_raw :: "receiver \<Rightarrow> int \<Rightarrow> message + receiver" where
  "list_delete_index_raw r index =
     with_cells r ''list deletion'' (\<lambda>s.
       bind_ok (retype_index_error ''list assignment index out of range'' (normalize_index index (l_len s))) (\<lambda>i.
         Inr (ListObj (remove_slot s i))))"

definition list_set_index_raw :: "receiver \<Rightarrow> int \<Rightarrow> addr \<Rightarrow> message + receiver" where
  "list_set_index_raw r index v =
     (if v = 0 then list_delete_index_raw r index
      else with_cells r ''list assignment'' (\<lambda>s.
        bind_ok (retype_index_error ''list assignment index out of range'' (normalize_index index (l_len s))) (\<lambda>i.
          Inr (ListObj (s\<lparr>l_items := (l_items s)[i := v]\<rparr>)))))"

definition list_pop_raw :: "receiver \<Rightarrow> int \<Rightarrow> message + addr \<times> receiver" where
  "list_pop_raw r index =
     with_cells r ''list pop'' (\<lambda>s.
       if l_len s = 0 then Inl ''pop from empty list''
       else bind_ok (retype_index_error ''pop index out of range'' (normalize_index index (l_len s))) (\<lambda>i.
         Inr (l_items s ! i, ListObj (remove_slot s i))))"

section \<open>Slices\<close>

function show_nat :: "nat \<Rightarrow> string" where
  "show_nat n = (if n < 10 then [char_of (48 + n)] else show_nat (n div 10) @ [char_of (48 + n mod 10)])"
  by pat_completeness auto
termination
  by (relation "measure id") auto

declare show_nat.simps [simp del]

datatype subscript = IndexKey operand | SliceKey py_slice

text \<open>A Rust panic inside a helper, which the boundary turns into an exception, is a fault of its own.\<close>

datatype fault = Fail message | Panicked

fun collect_items :: "(int \<Rightarrow> message + addr) \<Rightarrow> int list \<Rightarrow> message + addr list" where
  "collect_items item [] = Inr []"
| "collect_items item (i # is) = bind_ok (item i) (\<lambda>v. bind_ok (collect_items item is) (\<lambda>vs. Inr (v # vs)))"

definition sliced_values :: "receiver \<Rightarrow> slice_indices \<Rightarrow> message + addr list" where
  "sliced_values r si = collect_items (list_item_object r) (slice_positions si)"

text \<open>\<open>sequence_slice_raw\<close> on an object with list storage: the result is a fresh list.\<close>

definition list_slice_raw :: "(nat \<Rightarrow> bool) \<Rightarrow> list_storage \<Rightarrow> subscript \<Rightarrow> message + list_storage" where
  "list_slice_raw refused s key =
     (case key of
        IndexKey _ \<Rightarrow> Inl ''slice key is not a slice''
      | SliceKey sl \<Rightarrow>
          bind_ok (normalize_slice sl (l_len s)) (\<lambda>si.
          bind_ok (sliced_values (ListObj s) si) (\<lambda>vs. alloc_list_from_slice refused vs)))"

fun remove_positions :: "addr list \<Rightarrow> nat list \<Rightarrow> addr list option" where
  "remove_positions xs [] = Some xs"
| "remove_positions xs (p # ps) = (if p < length xs then remove_positions (remove_at p xs) ps else None)"

fun assign_positions :: "addr list \<Rightarrow> int \<Rightarrow> int \<Rightarrow> addr list \<Rightarrow> addr list option" where
  "assign_positions xs pos step [] = Some xs"
| "assign_positions xs pos step (v # vs) =
     (if as_usize pos < length xs then assign_positions (xs[as_usize pos := v]) (saturating_add pos step) step vs else None)"

definition vec_splice :: "nat \<Rightarrow> nat \<Rightarrow> addr list \<Rightarrow> addr list \<Rightarrow> addr list option" where
  "vec_splice start stop vs xs =
     (if start \<le> stop \<and> stop \<le> length xs then Some (take start xs @ vs @ drop stop xs) else None)"

text \<open>The last step of every branch: a panic before it, a refused allocation, or the new contents.\<close>

definition store_contents ::
  "(nat \<Rightarrow> bool) \<Rightarrow> receiver \<Rightarrow> list_storage \<Rightarrow> addr list option \<Rightarrow> (fault + unit) \<times> receiver" where
  "store_contents refused r s contents =
     (case contents of
        None \<Rightarrow> (Inl Panicked, r)
      | Some vs \<Rightarrow>
          (case replace_list_contents refused s vs of
             Inl m \<Rightarrow> (Inl (Fail m), r) | Inr s' \<Rightarrow> (Inr (), ListObj s')))"

text \<open>
  The value is absent for a deletion.  The contents and the indices are read before the iterable is
  collected, the cells are replaced after it: what the iteration did to the receiver is lost.
\<close>

definition list_assign_slice_raw ::
  "(nat \<Rightarrow> bool) \<Rightarrow> (receiver \<Rightarrow> (message + addr list) \<times> receiver) option \<Rightarrow> receiver \<Rightarrow> subscript \<Rightarrow> (fault + unit) \<times> receiver" where
  "list_assign_slice_raw refused val r key =
     (case key of
        IndexKey _ \<Rightarrow> (Inl (Fail ''slice assignment key is not a slice''), r)
      | SliceKey sl \<Rightarrow>
     (case r of
        NotList t \<Rightarrow> (Inl (Fail (''slice assignment expected list, got '' @ t)), r)
      | ListObj s \<Rightarrow>
     (case normalize_slice sl (l_len s) of
        Inl m \<Rightarrow> (Inl (Fail m), r)
      | Inr si \<Rightarrow>
          let current = as_slice s in
          (case val of
             None \<Rightarrow>
               store_contents refused r s (remove_positions current (rev (sort (map as_usize (slice_positions si)))))
           | Some seq_vec \<Rightarrow>
               (case seq_vec r of
                  (Inl m, r') \<Rightarrow> (Inl (Fail m), r')
                | (Inr replacement, r') \<Rightarrow>
                    if si_step si = 1 then
                      store_contents refused r' s (vec_splice (as_usize (si_start si)) (as_usize (si_stop si)) replacement current)
                    else if length replacement \<noteq> si_len si then
                      (Inl (Fail (''attempt to assign sequence of size '' @ show_nat (length replacement) @
                                  '' to extended slice of size '' @ show_nat (si_len si))), r')
                    else store_contents refused r' s (assign_positions current (si_start si) (si_step si) replacement))))))"

text \<open>A subscript store and a subscript deletion; \<open>v = 0\<close> deletes, and \<open>seq_vec\<close> collects \<open>v\<close> otherwise.\<close>

definition lift_fail :: "receiver \<Rightarrow> message + receiver \<Rightarrow> (fault + unit) \<times> receiver" where
  "lift_fail r m = (case m of Inl e \<Rightarrow> (Inl (Fail e), r) | Inr r' \<Rightarrow> (Inr (), r'))"

definition list_ass_subscript_raw ::
  "(nat \<Rightarrow> bool) \<Rightarrow> (receiver \<Rightarrow> (message + addr list) \<times> receiver) \<Rightarrow> receiver \<Rightarrow> subscript \<Rightarrow> addr \<Rightarrow> (fault + unit) \<times> receiver" where
  "list_ass_subscript_raw refused seq_vec r key v =
     (case key of
        SliceKey sl \<Rightarrow> list_assign_slice_raw refused (if v = 0 then None else Some seq_vec) r key
      | IndexKey k \<Rightarrow>
          (case index_value k of
             Inl m \<Rightarrow> (Inl (Fail m), r)
           | Inr i \<Rightarrow> lift_fail r (list_set_index_raw r i v)))"

section \<open>Methods\<close>

text \<open>The method bodies after their argument count checks.\<close>

definition list_insert_method :: "(nat \<Rightarrow> bool) \<Rightarrow> receiver \<Rightarrow> operand \<Rightarrow> addr \<Rightarrow> exn + receiver" where
  "list_insert_method refused r index v =
     (case index_value index of
        Inl m \<Rightarrow> Inl (raise_seq_stream_error m)
      | Inr i \<Rightarrow>
     (case r of
        NotList t \<Rightarrow> Inl (TypeError (''list.insert expected list, got '' @ t))
      | ListObj s \<Rightarrow>
     (case isize_try_from (l_len s) of
        None \<Rightarrow> Inl (BareError ''list length is too large'')
      | Some len \<Rightarrow>
          let pos = as_usize (clamp i 0 len) in
          (case replace_list_contents refused s (insert_at pos v (as_slice s)) of
             Inl m \<Rightarrow> Inl (BareError m)
           | Inr s' \<Rightarrow> Inr (ListObj s')))))"

definition list_pop_method :: "receiver \<Rightarrow> operand option \<Rightarrow> exn + addr \<times> receiver" where
  "list_pop_method r arg =
     (case (case arg of None \<Rightarrow> Inr (- 1) | Some v \<Rightarrow> index_value v) of
        Inl m \<Rightarrow> Inl (raise_seq_stream_error m)
      | Inr i \<Rightarrow> (case list_pop_raw r i of Inl m \<Rightarrow> Inl (raise_seq_stream_error m) | Inr res \<Rightarrow> Inr res))"

definition list_reverse_method :: "receiver \<Rightarrow> exn + receiver" where
  "list_reverse_method r =
     (case r of
        NotList t \<Rightarrow> Inl (TypeError (''list.reverse expected list, got '' @ t))
      | ListObj s \<Rightarrow> Inr (ListObj (s\<lparr>l_items := rev (as_slice s) @ drop (l_len s) (l_items s)\<rparr>)))"

fun clear_slots :: "nat \<Rightarrow> addr list \<Rightarrow> addr list" where
  "clear_slots 0 xs = xs"
| "clear_slots (Suc n) xs = (clear_slots n xs)[n := 0]"

definition list_clear_method :: "receiver \<Rightarrow> exn + receiver" where
  "list_clear_method r =
     (case r of
        NotList t \<Rightarrow> Inl (TypeError (''descriptor 'clear' for 'list' objects doesn't apply to a '' @ CHR 0x27 # t @ CHR 0x27 # '' object''))
      | ListObj s \<Rightarrow> Inr (ListObj (s\<lparr>l_items := clear_slots (l_len s) (l_items s), l_len := 0\<rparr>)))"

definition list_copy_method :: "(nat \<Rightarrow> bool) \<Rightarrow> list_storage \<Rightarrow> exn + list_storage" where
  "list_copy_method refused s =
     (case alloc_list_from_slice refused (as_slice s) of Inl m \<Rightarrow> Inl (BareError m) | Inr s' \<Rightarrow> Inr s')"

fun index_from :: "(addr \<Rightarrow> addr \<Rightarrow> message + bool) \<Rightarrow> addr \<Rightarrow> nat \<Rightarrow> addr list \<Rightarrow> message + nat option" where
  "index_from object_equal needle i [] = Inr None"
| "index_from object_equal needle i (x # xs) =
     bind_ok (object_equal x needle) (\<lambda>eq. if eq then Inr (Some i) else index_from object_equal needle (Suc i) xs)"

definition list_index_raw :: "(addr \<Rightarrow> addr \<Rightarrow> message + bool) \<Rightarrow> receiver \<Rightarrow> addr \<Rightarrow> message + nat" where
  "list_index_raw object_equal r needle =
     with_cells r ''list.index'' (\<lambda>s.
       bind_ok (index_from object_equal needle 0 (as_slice s)) (\<lambda>found.
         case found of Some i \<Rightarrow> Inr i | None \<Rightarrow> Inl ''list.index(x): x not in list''))"

fun count_equal :: "(addr \<Rightarrow> addr \<Rightarrow> message + bool) \<Rightarrow> addr \<Rightarrow> nat \<Rightarrow> addr list \<Rightarrow> message + nat" where
  "count_equal object_equal needle n [] = Inr n"
| "count_equal object_equal needle n (x # xs) =
     bind_ok (object_equal x needle) (\<lambda>eq. count_equal object_equal needle (if eq then n + 1 else n) xs)"

definition list_count_raw :: "(addr \<Rightarrow> addr \<Rightarrow> message + bool) \<Rightarrow> receiver \<Rightarrow> addr \<Rightarrow> message + nat" where
  "list_count_raw object_equal r needle =
     with_cells r ''list.count'' (\<lambda>s. count_equal object_equal needle 0 (as_slice s))"

definition list_remove_method :: "(addr \<Rightarrow> addr \<Rightarrow> message + bool) \<Rightarrow> receiver \<Rightarrow> addr \<Rightarrow> exn + receiver" where
  "list_remove_method object_equal r needle =
     (case bind_ok (list_index_raw object_equal r needle) (\<lambda>i. list_delete_index_raw r (wrap64 (int i))) of
        Inl m \<Rightarrow> Inl (raise_seq_stream_error m) | Inr r' \<Rightarrow> Inr r')"

definition list_concat_slot :: "(nat \<Rightarrow> bool) \<Rightarrow> list_storage \<Rightarrow> list_storage \<Rightarrow> message + list_storage" where
  "list_concat_slot refused left right = alloc_list_from_slice refused (as_slice left @ as_slice right)"

definition repeat_count_value :: "operand option \<Rightarrow> message + nat" where
  "repeat_count_value index =
     (case index of
        None \<Rightarrow> Inl ''repeat count must be an integer''
      | Some v \<Rightarrow> bind_ok (long_value v) (\<lambda>count. if count \<le> 0 then Inr 0 else Inr (nat count)))"

fun extend_times :: "nat \<Rightarrow> addr list \<Rightarrow> addr list" where
  "extend_times 0 xs = []"
| "extend_times (Suc n) xs = extend_times n xs @ xs"

definition repeated_values :: "addr list \<Rightarrow> nat \<Rightarrow> message + addr list" where
  "repeated_values xs count =
     (if 2 ^ 64 \<le> length xs * count then Inl ''repeated sequence is too large'' else Inr (extend_times count xs))"

definition contains_slice :: "(addr \<Rightarrow> addr \<Rightarrow> message + bool) \<Rightarrow> addr list \<Rightarrow> addr \<Rightarrow> int" where
  "contains_slice object_equal xs item =
     (case index_from object_equal item 0 xs of Inl _ \<Rightarrow> - 1 | Inr (Some _) \<Rightarrow> 1 | Inr None \<Rightarrow> 0)"

section \<open>The invariant\<close>

text \<open>A cell block holds its elements first, none of them null, and null in every free slot.\<close>

definition list_wf :: "list_storage \<Rightarrow> bool" where
  "list_wf s \<longleftrightarrow> l_len s \<le> l_cap s \<and> length (l_items s) = l_cap s \<and> int (8 * l_cap s) \<le> isize_max \<and>
     l_items s = as_slice s @ replicate (l_cap s - l_len s) 0 \<and> 0 \<notin> set (as_slice s)"

definition cells :: "addr list \<Rightarrow> nat \<Rightarrow> list_storage" where
  "cells xs cap = \<lparr>l_len = length xs, l_cap = cap, l_items = xs @ replicate (cap - length xs) 0\<rparr>"

lemma cells_sel [simp]:
  "l_len (cells xs cap) = length xs" "l_cap (cells xs cap) = cap"
  "l_items (cells xs cap) = xs @ replicate (cap - length xs) 0" "as_slice (cells xs cap) = xs"
  by (auto simp: cells_def as_slice_def)

lemma list_wf_cells: "list_wf (cells xs cap) \<longleftrightarrow> length xs \<le> cap \<and> int (8 * cap) \<le> isize_max \<and> 0 \<notin> set xs"
  by (auto simp: list_wf_def)

lemma as_slice_take: "as_slice s = take (l_len s) (l_items s)"
  by (simp add: as_slice_def)

lemma list_wfE:
  assumes "list_wf s"
  obtains xs cap where "s = cells xs cap" "length xs \<le> cap" "int (8 * cap) \<le> isize_max" "0 \<notin> set xs" "as_slice s = xs"
proof -
  have "length (as_slice s) = l_len s" using assms by (simp add: list_wf_def as_slice_take)
  then have "s = cells (as_slice s) (l_cap s)" using assms by (simp add: list_wf_def cells_def)
  then show thesis using assms that by (metis list_wf_cells cells_sel(4))
qed

lemma copy_slots: "i + length vs \<le> length dst \<Longrightarrow> copy_heap_pointer_slice i dst vs = take i dst @ vs @ drop (i + length vs) dst"
  by (induction vs arbitrary: i dst) (auto simp: upd_conv_take_nth_drop take_Suc_conv_app_nth add.commute)

definition backing_refused :: "(nat \<Rightarrow> bool) \<Rightarrow> nat \<Rightarrow> bool" where
  "backing_refused refused n \<longleftrightarrow> n \<noteq> 0 \<and> (isize_max < int (8 * n) \<or> refused n)"

lemma leak_slots_eq:
  "leak_slots refused n =
     (if backing_refused refused n then Inl ''sequence backing allocation failed'' else Inr (replicate n 0))"
  by (auto simp: leak_slots_def backing_refused_def isize_max_def)

lemma backing_fits: "\<not> backing_refused refused n \<Longrightarrow> int (8 * n) \<le> isize_max"
  by (auto simp: backing_refused_def isize_max_def)

lemma replace_contents_eq:
  "replace_list_contents refused s vs =
     (if backing_refused refused (length vs) then Inl ''sequence backing allocation failed'' else Inr (cells vs (length vs)))"
  by (cases s) (simp add: replace_list_contents_def leak_slots_eq copy_slots cells_def)

lemma alloc_list_eq:
  "alloc_list_from_slice refused vs =
     (if backing_refused refused (length vs) then Inl ''sequence backing allocation failed'' else Inr (cells vs (length vs)))"
  by (simp add: alloc_list_from_slice_def leak_slots_eq copy_slots cells_def)

lemma list_resize_eq:
  assumes "length xs \<le> cap" "length xs \<le> n" "n \<noteq> cap"
  shows "list_resize refused (cells xs cap) n =
    (if backing_refused refused n then Inl ''sequence backing allocation failed'' else Inr (cells xs n))"
  using assms by (simp add: list_resize_def leak_slots_eq copy_slots cells_def)

section \<open>Operations on cells\<close>

lemma cells_push: "length xs < cap \<Longrightarrow> (xs @ replicate (cap - length xs) 0)[length xs := v] = (xs @ [v]) @ replicate (cap - Suc (length xs)) 0"
  by (cases "cap - length xs") (simp_all add: list_update_append Suc_diff_Suc [symmetric] less_imp_le)

lemma append_eq:
  assumes "length xs \<le> cap" "int (8 * cap) \<le> isize_max" "v \<noteq> 0"
  shows "list_append_raw refused (ListObj (cells xs cap)) v =
    (if length xs = cap \<and> backing_refused refused (grown_cap cap) then Inl ''sequence backing allocation failed''
     else Inr (ListObj (cells (xs @ [v]) (if length xs = cap then grown_cap cap else cap))))"
proof -
  have g: "cap < grown_cap cap" using assms(2) by (auto simp: grown_cap_def isize_max_def)
  have r: "list_resize refused (cells xs cap) (grown_cap cap) =
    (if backing_refused refused (grown_cap cap) then Inl ''sequence backing allocation failed'' else Inr (cells xs (grown_cap cap)))"
    using g assms(1) by (intro list_resize_eq) auto
  show ?thesis using assms g
    by (auto simp: list_append_raw_def with_cells_def r cells_push)
qed

lemma length_shift_down [simp]: "length (shift_down n p xs) = length xs"
  by (induction n arbitrary: p xs) simp_all

lemma nth_shift_down:
  "p + n < length xs \<Longrightarrow> i < length xs \<Longrightarrow> shift_down n p xs ! i = (if p \<le> i \<and> i < p + n then xs ! Suc i else xs ! i)"
  by (induction n arbitrary: p xs) (auto simp: nth_list_update)

lemma remove_slot_cells:
  assumes "i < length xs" "length xs \<le> cap"
  shows "remove_slot (cells xs cap) i = cells (remove_at i xs) cap"
proof -
  let ?ys = "xs @ replicate (cap - length xs) 0"
  have "(shift_down (length xs - 1 - i) i ?ys)[length xs - 1 := 0] =
    remove_at i xs @ replicate (cap - (length xs - 1)) 0"
    using assms by (intro nth_equalityI) (auto simp: nth_list_update nth_shift_down nth_append remove_at_def)
  moreover have "length (remove_at i xs) = length xs - 1" using assms by (auto simp: remove_at_def)
  ultimately show ?thesis by (simp add: remove_slot_def cells_def)
qed

lemma clear_slots_eq: "n \<le> length xs \<Longrightarrow> clear_slots n xs = replicate n 0 @ drop n xs"
  by (induction n) (auto simp: list_update_append Cons_nth_drop_Suc [symmetric] replicate_append_same)

lemma cells_clear: "length xs \<le> cap \<Longrightarrow> list_clear_method (ListObj (cells xs cap)) = Inr (ListObj (cells [] cap))"
  by (simp add: list_clear_method_def clear_slots_eq) (simp add: cells_def replicate_add [symmetric])

lemma cells_reverse: "length xs \<le> cap \<Longrightarrow> list_reverse_method (ListObj (cells xs cap)) = Inr (ListObj (cells (rev xs) cap))"
  by (simp add: list_reverse_method_def)

lemma cells_set: "i < length xs \<Longrightarrow> (cells xs cap)\<lparr>l_items := (l_items (cells xs cap))[i := v]\<rparr> = cells (xs[i := v]) cap"
  by (simp add: cells_def list_update_append)

text \<open>A subscript in Python: counted from the end when negative, absent when outside.\<close>

definition py_index :: "int \<Rightarrow> nat \<Rightarrow> nat option" where
  "py_index i n = (if - int n \<le> i \<and> i < int n then Some (nat (if i < 0 then i + int n else i)) else None)"

lemma py_index_lt: "py_index i n = Some k \<Longrightarrow> k < n"
  by (auto simp: py_index_def split: if_splits)

lemma normalize_index_py:
  assumes "int n \<le> isize_max" "isize_ok i"
  shows "retype_index_error t (normalize_index i n) = (case py_index i n of Some k \<Rightarrow> Inr k | None \<Rightarrow> Inl t)"
  using assms by (simp add: retype_index_error_def normalize_index_ok py_index_def)

section \<open>Slice reads, deletions and stores\<close>

lemma distinct_py_steps: "distinct (py_steps a b k)"
proof (induction a b k rule: py_steps.induct)
  case (1 a b k)
  have "a \<notin> set (py_steps (a + k) b k)" if "0 < k \<or> k < 0" using set_py_steps [of a "a + k" b k] that by auto
  then show ?case using 1 by (subst py_steps.simps) auto
qed

lemma distinct_slice_steps: "distinct (py_slice_steps n i j k)"
  by (simp add: py_slice_steps_def case_prod_unfold Let_def distinct_py_steps)

lemma remove_positions_nths:
  "sorted_wrt (>) ps \<Longrightarrow> \<forall>p \<in> set ps. p < length xs \<Longrightarrow> remove_positions xs ps = Some (nths xs (- set ps))"
proof (induction ps arbitrary: xs)
  case (Cons p ps)
  have p: "p < length xs" "\<And>q. q \<in> set ps \<Longrightarrow> q < p" using Cons.prems by auto
  have len: "\<forall>q \<in> set ps. q < length (remove_at p xs)" using p by (fastforce simp: remove_at_def)
  have tail: "{j. j + min (length xs) p \<in> - set ps} = UNIV" "{j. j + min (length xs) (Suc p) \<in> - insert p (set ps)} = UNIV"
    using p by (fastforce dest: p(2))+
  have part: "nths (take p xs) (- set ps) = nths (take p xs) (- insert p (set ps))"
    by (auto simp: nths_def in_set_zip intro!: arg_cong [where f = "map fst"] filter_cong)
  have "nths xs (- insert p (set ps)) = nths (take (Suc p) xs @ drop (Suc p) xs) (- insert p (set ps))" by simp
  also have "\<dots> = nths (take p xs) (- set ps) @ drop (Suc p) xs"
    using p tail part by (simp only: nths_append length_take nths_all) (simp add: take_Suc_conv_app_nth nths_append nths_all min_def)
  also have "\<dots> = nths (remove_at p xs) (- set ps)"
    using tail by (simp add: remove_at_def nths_append nths_all)
  finally show ?case using Cons.IH [of "remove_at p xs"] Cons.prems p len by simp
qed (simp add: nths_all)

lemma sorted_desc: "distinct (ps :: nat list) \<Longrightarrow> sorted_wrt (>) (rev (sort ps))"
  by (simp add: sorted_wrt_rev strict_sorted_iff)

lemma assign_positions_eq:
  assumes "list_all (\<lambda>x. 0 \<le> x \<and> x < int (length xs)) (positions (length vs) pos step)"
    "distinct (positions (length vs) pos step)" "int (length xs) \<le> isize_max"
  shows "assign_positions xs pos step vs =
    Some (map (\<lambda>p. case map_of (zip (positions (length vs) pos step) vs) (int p) of Some y \<Rightarrow> y | None \<Rightarrow> xs ! p) [0..<length xs])"
  using assms
proof (induction vs arbitrary: xs pos)
  case (Cons v vs)
  let ?rest = "positions (length vs) (saturating_add pos step) step"
  have pos: "0 \<le> pos" "pos < int (length xs)" "as_usize pos = nat pos" "nat pos < length xs"
    using Cons.prems by (auto simp: isize_max_def)
  have none: "map_of (zip ?rest vs) pos = None"
    using Cons.prems(2) by (auto simp: map_of_eq_None_iff dest: set_zip_leftD)
  have "assign_positions xs pos step (v # vs) = assign_positions (xs[nat pos := v]) (saturating_add pos step) step vs"
    using pos by simp
  also have "\<dots> = Some (map (\<lambda>p. case map_of (zip ?rest vs) (int p) of Some y \<Rightarrow> y | None \<Rightarrow> xs[nat pos := v] ! p) [0..<length xs])"
    using Cons.IH [of "xs[nat pos := v]" "saturating_add pos step"] Cons.prems by simp
  finally have step: "assign_positions xs pos step (v # vs) = \<dots>" .
  have "(case map_of (zip ?rest vs) (int p) of Some y \<Rightarrow> y | None \<Rightarrow> xs[nat pos := v] ! p) =
    (case map_of (zip (positions (length (v # vs)) pos step) (v # vs)) (int p) of Some y \<Rightarrow> y | None \<Rightarrow> xs ! p)"
    if "p < length xs" for p
  proof (cases "int p = pos")
    case True
    then have "p = nat pos" by simp
    then show ?thesis using True pos by (simp add: none)
  next
    case False
    then have "nat pos \<noteq> p" using pos by auto
    then show ?thesis using False by (simp cong: option.case_cong)
  qed
  then show ?case unfolding step by simp
qed (simp add: map_nth)

lemma slice_items:
  assumes "\<forall>x \<in> set ps. 0 \<le> x \<and> x < int (length xs)" "int (length xs) \<le> isize_max"
  shows "collect_items (list_item_object (ListObj (cells xs cap))) ps = Inr (map (\<lambda>x. xs ! nat x) ps)"
  using assms(1)
proof (induction ps)
  case (Cons p ps)
  have "isize_ok p" using Cons.prems assms(2) by (auto simp: isize_ok_def isize_min_def isize_max_def)
  then have "list_item_object (ListObj (cells xs cap)) p = Inr (xs ! nat p)"
    using Cons.prems assms(2) normalize_index_py [OF assms(2), of p "''list index out of range''"]
    by (auto simp: list_item_object_def with_cells_def py_index_def nth_append)
  then show ?case using Cons by simp
qed simp

section \<open>Python's lists\<close>

text \<open>
  The reference: what the language manual says the list operations do, on a plain list.  \<open>None\<close> is a
  raised exception.  A slice is seen through the meaning of its bounds, which are \<open>None\<close>, booleans or
  integers of any size; other objects raise.
\<close>

fun bound_meaning :: "operand \<Rightarrow> int option option" where
  "bound_meaning NoneObj = Some None"
| "bound_meaning (BoolObj b) = Some (Some (if b then 1 else 0))"
| "bound_meaning (IntObj n) = Some (Some n)"
| "bound_meaning _ = None"

definition slice_meaning :: "py_slice \<Rightarrow> (int option \<times> int option \<times> int) option" where
  "slice_meaning sl =
     (case (bound_meaning (sl_start sl), bound_meaning (sl_stop sl), bound_meaning (sl_step sl)) of
        (Some i, Some j, Some k) \<Rightarrow> if step_of k = 0 then None else Some (i, j, step_of k) | _ \<Rightarrow> None)"

text \<open>What the source sees of a slice: nothing when a bound does not fit in \<open>isize\<close>.\<close>

definition slice_view :: "py_slice \<Rightarrow> (int option \<times> int option \<times> int) option" where
  "slice_view sl =
     (case (operand_bound (sl_start sl), operand_bound (sl_stop sl), operand_bound (sl_step sl)) of
        (Some i, Some j, Some k) \<Rightarrow> if step_of k = 0 then None else Some (i, j, step_of k) | _ \<Rightarrow> None)"

datatype list_cmd =
    Append addr | SetItem int addr | DelItem int | Pop int | Insert int addr | Reverse | Clear
  | DelSlice py_slice | SetSlice py_slice "addr list"

definition py_del_slice :: "addr list \<Rightarrow> int list \<Rightarrow> addr list" where
  "py_del_slice xs steps = nths xs {p. int p \<notin> set steps}"

definition py_set_extended :: "addr list \<Rightarrow> int list \<Rightarrow> addr list \<Rightarrow> addr list" where
  "py_set_extended xs steps ys =
     map (\<lambda>p. case map_of (zip steps ys) (int p) of Some y \<Rightarrow> y | None \<Rightarrow> xs ! p) [0..<length xs]"

fun py_run :: "list_cmd \<Rightarrow> addr list \<Rightarrow> (addr option \<times> addr list) option" where
  "py_run (Append v) xs = Some (None, xs @ [v])"
| "py_run (SetItem i v) xs = map_option (\<lambda>p. (None, xs[p := v])) (py_index i (length xs))"
| "py_run (DelItem i) xs = map_option (\<lambda>p. (None, remove_at p xs)) (py_index i (length xs))"
| "py_run (Pop i) xs = map_option (\<lambda>p. (Some (xs ! p), remove_at p xs)) (py_index i (length xs))"
| "py_run (Insert i v) xs =
     Some (None, insert_at (nat (max 0 (min (int (length xs)) (if i < 0 then i + int (length xs) else i)))) v xs)"
| "py_run Reverse xs = Some (None, rev xs)"
| "py_run Clear xs = Some (None, [])"
| "py_run (DelSlice sl) xs =
     (case slice_meaning sl of None \<Rightarrow> None
      | Some (i, j, k) \<Rightarrow> Some (None, py_del_slice xs (py_slice_steps (length xs) i j k)))"
| "py_run (SetSlice sl ys) xs =
     (case slice_meaning sl of None \<Rightarrow> None
      | Some (i, j, k) \<Rightarrow>
          let (a, b) = py_slice_range (length xs) i j k; steps = py_slice_steps (length xs) i j k in
          if k = 1 then Some (None, take (nat a) xs @ ys @ drop (nat (max a b)) xs)
          else if length ys = length steps then Some (None, py_set_extended xs steps ys)
          else None)"

text \<open>The same commands run through the operations of the source.\<close>

definition of_exn :: "receiver \<Rightarrow> exn + receiver \<Rightarrow> (fault + addr option) \<times> receiver" where
  "of_exn r m = (case m of
     Inr r' \<Rightarrow> (Inr None, r')
   | Inl (TypeError e) \<Rightarrow> (Inl (Fail e), r) | Inl (ValueError e) \<Rightarrow> (Inl (Fail e), r) | Inl (IndexError e) \<Rightarrow> (Inl (Fail e), r)
   | Inl (OverflowError e) \<Rightarrow> (Inl (Fail e), r) | Inl (BareError e) \<Rightarrow> (Inl (Fail e), r))"

definition no_result :: "(fault + unit) \<times> receiver \<Rightarrow> (fault + addr option) \<times> receiver" where
  "no_result p = (case fst p of Inl f \<Rightarrow> Inl f | Inr _ \<Rightarrow> Inr None, snd p)"

fun list_run :: "(nat \<Rightarrow> bool) \<Rightarrow> list_cmd \<Rightarrow> receiver \<Rightarrow> (fault + addr option) \<times> receiver" where
  "list_run refused (Append v) r = no_result (lift_fail r (list_append_raw refused r v))"
| "list_run refused (SetItem i v) r = no_result (list_ass_subscript_raw refused (\<lambda>r. (Inr [], r)) r (IndexKey (IntObj i)) v)"
| "list_run refused (DelItem i) r = no_result (list_ass_subscript_raw refused (\<lambda>r. (Inr [], r)) r (IndexKey (IntObj i)) 0)"
| "list_run refused (Pop i) r =
     (case list_pop_raw r i of Inl m \<Rightarrow> (Inl (Fail m), r) | Inr (v, r') \<Rightarrow> (Inr (Some v), r'))"
| "list_run refused (Insert i v) r = of_exn r (list_insert_method refused r (IntObj i) v)"
| "list_run refused Reverse r = of_exn r (list_reverse_method r)"
| "list_run refused Clear r = of_exn r (list_clear_method r)"
| "list_run refused (DelSlice sl) r = no_result (list_ass_subscript_raw refused (\<lambda>r. (Inr [], r)) r (SliceKey sl) 0)"
| "list_run refused (SetSlice sl ys) r = no_result (list_ass_subscript_raw refused (\<lambda>r. (Inr ys, r)) r (SliceKey sl) 1)"

section \<open>Refinement\<close>

text \<open>
  What one command may do: succeed as Python does, or raise.  A raise leaves the elements alone, and is
  one that Python raises too unless the allocator refused a block.
\<close>

definition refines :: "(nat \<Rightarrow> bool) \<Rightarrow> list_cmd \<Rightarrow> list_storage \<Rightarrow> (fault + addr option) \<times> receiver \<Rightarrow> bool" where
  "refines refused c s res \<longleftrightarrow>
     (\<exists>s'. snd res = ListObj s' \<and> list_wf s' \<and>
       (case fst res of
          Inr v \<Rightarrow> py_run c (as_slice s) = Some (v, as_slice s')
        | Inl f \<Rightarrow> s' = s \<and> f \<noteq> Panicked \<and>
            (py_run c (as_slice s) = None \<or> f = Fail ''sequence backing allocation failed'' \<and> (\<exists>n. backing_refused refused n))))"

definition slice_ordered :: "py_slice \<Rightarrow> nat \<Rightarrow> bool" where
  "slice_ordered sl n \<longleftrightarrow>
     (case slice_view sl of
        Some (i, j, k) \<Rightarrow> k \<noteq> 1 \<or> fst (py_slice_range n i j k) \<le> snd (py_slice_range n i j k)
      | None \<Rightarrow> True)"

definition out_of_isize :: "py_slice \<Rightarrow> bool" where
  "out_of_isize sl \<longleftrightarrow> slice_meaning sl \<noteq> None \<and> slice_view sl = None"

text \<open>Commands with live operands; \<open>pop\<close> takes its index as an \<open>isize\<close>.\<close>

fun live_cmd :: "list_cmd \<Rightarrow> bool" where
  "live_cmd (Append v) \<longleftrightarrow> v \<noteq> 0"
| "live_cmd (SetItem i v) \<longleftrightarrow> v \<noteq> 0"
| "live_cmd (Pop i) \<longleftrightarrow> isize_ok i"
| "live_cmd (Insert i v) \<longleftrightarrow> v \<noteq> 0"
| "live_cmd (SetSlice sl ys) \<longleftrightarrow> 0 \<notin> set ys"
| "live_cmd _ \<longleftrightarrow> True"

text \<open>
  The commands on which the source parts from Python: an insertion at a negative index that is not
  before the front, or at an index past \<open>isize\<close>; a slice with a bound past \<open>isize\<close>; a contiguous slice
  store whose start lies past its stop.
\<close>

fun list_deviates :: "list_cmd \<Rightarrow> nat \<Rightarrow> bool" where
  "list_deviates (Insert i v) n \<longleftrightarrow> \<not> isize_ok i \<or> - int n < i \<and> i < 0"
| "list_deviates (DelSlice sl) n \<longleftrightarrow> out_of_isize sl"
| "list_deviates (SetSlice sl ys) n \<longleftrightarrow> out_of_isize sl \<or> \<not> slice_ordered sl n"
| "list_deviates _ n \<longleftrightarrow> False"

definition cmd_ok :: "list_cmd \<Rightarrow> nat \<Rightarrow> bool" where
  "cmd_ok c n \<longleftrightarrow> live_cmd c \<and> \<not> list_deviates c n"

lemma bound_meaning_view: "operand_bound v = Some i \<Longrightarrow> bound_meaning v = Some i"
  by (cases v) (auto split: if_splits)

lemma slice_meaning_view: "slice_view sl = Some v \<Longrightarrow> slice_meaning sl = Some v"
  by (auto simp: slice_view_def slice_meaning_def split: option.splits if_splits dest!: bound_meaning_view)

lemma slice_meaning_none: "slice_view sl = None \<Longrightarrow> \<not> out_of_isize sl \<Longrightarrow> slice_meaning sl = None"
  unfolding out_of_isize_def by blast

lemma cells_short: "length xs \<le> cap \<Longrightarrow> int (8 * cap) \<le> isize_max \<Longrightarrow> int (length xs) \<le> isize_max \<and> int (Suc (length xs)) \<le> isize_max"
  by (simp add: isize_max_def)

lemma refines_ok:
  "list_wf s' \<Longrightarrow> py_run c (as_slice s) = Some (v, as_slice s') \<Longrightarrow> refines refused c s (Inr v, ListObj s')"
  by (simp add: refines_def)

lemma refines_raise: "list_wf s \<Longrightarrow> py_run c (as_slice s) = None \<Longrightarrow> refines refused c s (Inl (Fail m), ListObj s)"
  by (simp add: refines_def)

lemma refines_refused:
  "list_wf s \<Longrightarrow> backing_refused refused n \<Longrightarrow> refines refused c s (Inl (Fail ''sequence backing allocation failed''), ListObj s)"
  by (auto simp: refines_def)

lemma set_remove_at_sub: "set (remove_at i xs) \<subseteq> set xs"
  by (auto simp: remove_at_def dest: in_set_takeD in_set_dropD)

lemma wf_remove: "list_wf (cells xs cap) \<Longrightarrow> list_wf (cells (remove_at i xs) cap)"
  using set_remove_at_sub [of i xs] by (auto simp: list_wf_cells remove_at_def)

lemma store_contents_refines:
  assumes wf: "list_wf s" and vs: "0 \<notin> set vs" "py_run c (as_slice s) = Some (None, vs)"
  shows "refines refused c s (no_result (store_contents refused (ListObj s) s' (Some vs)))"
  using assms backing_fits [of refused "length vs"]
  by (auto simp: store_contents_def replace_contents_eq no_result_def list_wf_cells intro: refines_ok refines_refused)

lemma bound_bad: "operand_bound v = None \<Longrightarrow> \<exists>m. normalize_slice_bound v l d lo hi = Inl m"
  using index_value_view(3) [of v] by (auto simp: normalize_slice_bound_def)

lemma bound_good: "operand_bound v \<noteq> None \<Longrightarrow> \<exists>x. normalize_slice_bound v l d lo hi = Inr x"
  using index_value_view(1,2) [of v]
  by (cases "the (operand_bound v)") (auto simp: normalize_slice_bound_def Let_def)

lemma normalize_slice_view:
  assumes "int n \<le> isize_max"
  shows "case slice_view sl of
      Some (i, j, k) \<Rightarrow> normalize_slice sl n = Inr (py_indices n i j k) \<and>
        slice_positions (py_indices n i j k) = py_slice_steps n i j k \<and> isize_ok k \<and> k \<noteq> 0
    | None \<Rightarrow> \<exists>m. normalize_slice sl n = Inl m"
proof (cases "slice_view sl")
  case None
  have len: "isize_try_from n = Some (int n)"
    using assms by (simp add: isize_try_from_def checked_def isize_ok_def isize_min_def)
  show ?thesis
  proof (cases "operand_bound (sl_step sl)")
    case n: None
    then show ?thesis using index_value_view(3) [OF n] by (auto simp: None normalize_slice_def len)
  next
    case (Some k)
    have st: "(if is_none (sl_step sl) then Inr 1 else index_value (sl_step sl)) = Inr (step_of k)"
      using index_value_view [of "sl_step sl"] Some by (cases k) (simp_all add: step_of_def)
    consider "step_of k = 0" | "step_of k \<noteq> 0" "operand_bound (sl_start sl) = None"
      | "step_of k \<noteq> 0" "operand_bound (sl_start sl) \<noteq> None" "operand_bound (sl_stop sl) = None"
      using None Some by (auto simp: slice_view_def split: option.splits if_splits)
    then have "\<exists>m. normalize_slice sl n = Inl m"
    proof cases
      case 1
      then show ?thesis by (simp add: normalize_slice_def len st)
    next
      case 2
      then show ?thesis using bound_bad [OF 2(2)] unfolding normalize_slice_def len st option.case bind_ok_simps
        by (simp add: bind_ok_Inl_iff) blast
    next
      case 3
      then show ?thesis using bound_good [OF 3(2)] bound_bad [OF 3(3)] unfolding normalize_slice_def len st option.case bind_ok_simps
        by (simp add: bind_ok_Inl_iff) blast
    qed
    then show ?thesis by (simp add: None)
  qed
next
  case (Some v)
  then obtain i j k where v: "v = (i, j, step_of k)" "operand_bound (sl_start sl) = Some i"
    "operand_bound (sl_stop sl) = Some j" "operand_bound (sl_step sl) = Some k" "step_of k \<noteq> 0"
    by (auto simp: slice_view_def split: option.splits if_splits)
  have "isize_ok (step_of k)" using v(4) operand_bound_ok [of "sl_step sl"] by (cases k) (simp_all add: step_of_def)
  then show ?thesis using normalize_slice_ok [OF assms v(2-5)] v Some by simp
qed

lemma set_extended_live:
  assumes "0 \<notin> set xs" "0 \<notin> set ys"
  shows "0 \<notin> set (py_set_extended xs steps ys)"
proof
  assume "0 \<in> set (py_set_extended xs steps ys)"
  then obtain p where p: "p < length xs" "(case map_of (zip steps ys) (int p) of Some y \<Rightarrow> y | None \<Rightarrow> xs ! p) = 0"
    unfolding py_set_extended_def by auto
  show False
  proof (cases "map_of (zip steps ys) (int p)")
    case None
    then show ?thesis using p assms(1) nth_mem [of p xs] by simp
  next
    case (Some y)
    then show ?thesis using p assms(2) set_zip_rightD [OF map_of_SomeD] by fastforce
  qed
qed

lemma del_slice_refines:
  assumes wf: "list_wf s" and ok: "cmd_ok (DelSlice sl) (l_len s)"
  shows "refines refused (DelSlice sl) s (list_run refused (DelSlice sl) (ListObj s))"
proof -
  obtain xs cap where s: "s = cells xs cap" "length xs \<le> cap" "int (8 * cap) \<le> isize_max" "0 \<notin> set xs" "as_slice s = xs"
    using wf by (rule list_wfE)
  note n = conjunct1 [OF cells_short [OF s(2,3)]]
  show ?thesis
  proof (cases "slice_view sl")
    case None
    then obtain m where "normalize_slice sl (length xs) = Inl m" using normalize_slice_view [OF n, of sl] by auto
    moreover have "slice_meaning sl = None" using None ok by (intro slice_meaning_none) (simp_all add: cmd_ok_def)
    ultimately show ?thesis using wf s
      by (simp add: list_ass_subscript_raw_def list_assign_slice_raw_def no_result_def refines_raise)
  next
    case (Some v)
    obtain i j k where v: "v = (i, j, k)" by (cases v)
    have m: "slice_meaning sl = Some (i, j, k)" using slice_meaning_view [OF Some] v by simp
    let ?ps = "map as_usize (py_slice_steps (length xs) i j k)"
    have r: "\<forall>x \<in> set (py_slice_steps (length xs) i j k). 0 \<le> x \<and> x < int (length xs)" by (rule py_slice_steps_in_range)
    have nat: "?ps = map nat (py_slice_steps (length xs) i j k)" using r n by (auto simp: isize_max_def)
    have d: "distinct ?ps" unfolding nat using r distinct_slice_steps [of "length xs" i j k]
      by (auto simp: distinct_map inj_on_def nat_eq_iff)
    have set: "- set (rev (sort ?ps)) = {p. int p \<notin> set (py_slice_steps (length xs) i j k)}"
      unfolding nat using r by (auto simp: image_iff) (metis nat_int)+
    have "remove_positions xs (rev (sort ?ps)) = Some (py_del_slice xs (py_slice_steps (length xs) i j k))"
      using remove_positions_nths [OF sorted_desc [OF d], of xs] r unfolding set py_del_slice_def
      by (simp add: nat nat_less_iff)
    moreover have "0 \<notin> set (py_del_slice xs (py_slice_steps (length xs) i j k))"
      using s(4) by (auto simp: py_del_slice_def dest: in_set_nthsD)
    ultimately show ?thesis
      using normalize_slice_view [OF n, of sl] Some m v s
        store_contents_refines [OF wf, of "py_del_slice xs (py_slice_steps (length xs) i j k)" "DelSlice sl" refused s]
      by (simp add: list_ass_subscript_raw_def list_assign_slice_raw_def Let_def)
  qed
qed

lemma set_slice_refines:
  assumes wf: "list_wf s" and ok: "cmd_ok (SetSlice sl ys) (l_len s)"
  shows "refines refused (SetSlice sl ys) s (list_run refused (SetSlice sl ys) (ListObj s))"
proof -
  obtain xs cap where s: "s = cells xs cap" "length xs \<le> cap" "int (8 * cap) \<le> isize_max" "0 \<notin> set xs" "as_slice s = xs"
    using wf by (rule list_wfE)
  note n = conjunct1 [OF cells_short [OF s(2,3)]]
  show ?thesis
  proof (cases "slice_view sl")
    case None
    then obtain m where "normalize_slice sl (length xs) = Inl m" using normalize_slice_view [OF n, of sl] by auto
    moreover have "slice_meaning sl = None" using None ok by (intro slice_meaning_none) (simp_all add: cmd_ok_def)
    ultimately show ?thesis using wf s
      by (simp add: list_ass_subscript_raw_def list_assign_slice_raw_def no_result_def refines_raise)
  next
    case (Some v)
    obtain i j k where v: "v = (i, j, k)" by (cases v)
    have m: "slice_meaning sl = Some (i, j, k)" using slice_meaning_view [OF Some] v by simp
    obtain a b where ab: "py_slice_range (length xs) i j k = (a, b)" by force
    let ?si = "py_indices (length xs) i j k"
    have norm: "normalize_slice sl (length xs) = Inr ?si" "slice_positions ?si = py_slice_steps (length xs) i j k" "k \<noteq> 0"
      using normalize_slice_view [OF n, of sl] Some v by auto
    have si: "si_start ?si = a" "si_stop ?si = b" "si_step ?si = k" by (simp_all add: py_indices_def ab)
    have len: "si_len ?si = length (py_slice_steps (length xs) i j k)"
      using norm(2) by (metis slice_positions_def length_positions)
    show ?thesis
    proof (cases "k = 1")
      case True
      have le: "0 \<le> a" "a \<le> b" "b \<le> int (length xs)"
        using py_slice_range_bounds(1) [OF ab] ok s v Some ab True by (auto simp: slice_ordered_def cmd_ok_def)
      have "vec_splice (as_usize a) (as_usize b) ys xs = Some (take (nat a) xs @ ys @ drop (nat (max a b)) xs)"
        using le n by (simp add: vec_splice_def isize_max_def nat_le_iff max_def)
      moreover have "0 \<notin> set (take (nat a) xs @ ys @ drop (nat (max a b)) xs)"
        using s ok by (auto simp: cmd_ok_def dest: in_set_takeD in_set_dropD)
      ultimately show ?thesis using norm si True s m v ab
          store_contents_refines [OF wf, of "take (nat a) xs @ ys @ drop (nat (max a b)) xs" "SetSlice sl ys" refused s]
        by (simp add: list_ass_subscript_raw_def list_assign_slice_raw_def)
    next
      case False
      show ?thesis
      proof (cases "length ys = si_len ?si")
        case l: True
        have pos: "positions (length ys) a k = py_slice_steps (length xs) i j k"
          using norm(2) si l by (simp add: slice_positions_def)
        have "assign_positions xs a k ys = Some (py_set_extended xs (py_slice_steps (length xs) i j k) ys)"
          unfolding py_set_extended_def pos [symmetric]
          using py_slice_steps_in_range [of "length xs" i j k] distinct_slice_steps [of "length xs" i j k] n
          by (intro assign_positions_eq) (simp_all add: pos list_all_iff)
        moreover have "0 \<notin> set (py_set_extended xs (py_slice_steps (length xs) i j k) ys)"
          using s(4) ok by (intro set_extended_live) (simp_all add: cmd_ok_def)
        ultimately show ?thesis using norm si False s m v ab l len
            store_contents_refines [OF wf, of "py_set_extended xs (py_slice_steps (length xs) i j k) ys" "SetSlice sl ys" refused s]
          by (simp add: list_ass_subscript_raw_def list_assign_slice_raw_def)
      next
        case l: False
        have "py_run (SetSlice sl ys) (as_slice s) = None"
          using m v ab False l len s by simp
        then show ?thesis using norm si False s l wf
          by (simp add: list_ass_subscript_raw_def list_assign_slice_raw_def no_result_def refines_raise del: py_run.simps)
      qed
    qed
  qed
qed

lemmas list_op_defs = list_ass_subscript_raw_def list_set_index_raw_def list_delete_index_raw_def list_pop_raw_def
  with_cells_def lift_fail_def no_result_def index_value_def long_value_def checked_def

lemma item_refines:
  assumes wf: "list_wf s" and ok: "cmd_ok c (l_len s)" and c: "c = SetItem i v \<or> c = DelItem i \<or> c = Pop i"
  shows "refines refused c s (list_run refused c (ListObj s))"
proof -
  obtain xs cap where s: "s = cells xs cap" "length xs \<le> cap" "int (8 * cap) \<le> isize_max" "0 \<notin> set xs" "as_slice s = xs"
    using wf by (rule list_wfE)
  note n = conjunct1 [OF cells_short [OF s(2,3)]]
  show ?thesis
  proof (cases "isize_ok i")
    case far: False
    have "py_index i (length xs) = None" using far n by (auto simp: py_index_def isize_ok_def isize_min_def isize_max_def)
    then show ?thesis using c s wf ok far by (auto simp: list_op_defs cmd_ok_def intro!: refines_raise)
  next
  case i: True
  note nz = normalize_index_py [OF n i]
  show ?thesis
  proof (cases "py_index i (length xs)")
    case None
    have "xs = [] \<Longrightarrow> py_index i 0 = None" using None by simp
    then show ?thesis using c s wf i ok None
      by (auto simp: list_op_defs nz cmd_ok_def intro!: refines_raise)
  next
    case (Some p)
    have p: "p < length xs" using Some by (rule py_index_lt)
    have wf': "list_wf (cells (remove_at p xs) cap)" "list_wf (cells (xs[p := v]) cap)" if "v \<noteq> 0"
      using wf s that wf_remove [of xs cap p] set_update_subset_insert [of xs p v] by (auto simp: list_wf_cells)
    have wr: "list_wf (cells (remove_at p xs) cap)" using wf s wf_remove by blast
    show ?thesis using c s i ok Some p wf' wr remove_slot_cells [OF p s(2)] cells_set [OF p, of cap v]
      by (auto simp: list_op_defs nz nth_append cmd_ok_def intro!: refines_ok)
  qed
  qed
qed

lemma list_run_refines:
  assumes wf: "list_wf s" and ok: "cmd_ok c (l_len s)"
  shows "refines refused c s (list_run refused c (ListObj s))"
proof -
  obtain xs cap where s: "s = cells xs cap" "length xs \<le> cap" "int (8 * cap) \<le> isize_max" "0 \<notin> set xs" "as_slice s = xs"
    using wf by (rule list_wfE)
  note short = cells_short [OF s(2,3)]
  show ?thesis
  proof (cases c)
    case (Append v)
    have g: "\<not> backing_refused refused (grown_cap cap) \<Longrightarrow> int (8 * grown_cap cap) \<le> isize_max" by (rule backing_fits)
    have "cap < grown_cap cap" using s(3) by (auto simp: grown_cap_def isize_max_def)
    then show ?thesis using Append ok wf s g append_eq [OF s(2,3), of v refused]
      by (auto simp: lift_fail_def no_result_def list_wf_cells cmd_ok_def intro!: refines_ok intro: refines_refused)
  next
    case (Insert i v)
    then have i: "isize_ok i" "0 \<le> i \<or> i \<le> - int (length xs)" "v \<noteq> 0" using ok s by (auto simp: cmd_ok_def)
    have idx: "index_value (IntObj i) = Inr i" "isize_try_from (length xs) = Some (int (length xs))"
      using i short by (auto simp: index_value_def long_value_def checked_def isize_try_from_def isize_ok_def isize_min_def)
    have pos: "as_usize (clamp i 0 (int (length xs))) =
        nat (max 0 (min (int (length xs)) (if i < 0 then i + int (length xs) else i)))"
      using i short by (auto simp: clamp_def isize_max_def min_def max_def)
    show ?thesis using Insert i wf s idx pos backing_fits [of refused "Suc (length xs)"]
      by (auto simp: list_insert_method_def replace_contents_eq of_exn_def Let_def list_wf_cells intro!: refines_ok intro: refines_refused)
  next
    case Reverse
    then show ?thesis using s wf by (auto simp: cells_reverse of_exn_def list_wf_cells intro!: refines_ok)
  next
    case Clear
    then show ?thesis using s wf by (auto simp: cells_clear of_exn_def list_wf_cells intro!: refines_ok)
  qed (use assms item_refines del_slice_refines set_slice_refines in blast)+
qed

text \<open>What the source does on the commands on which it parts from Python.\<close>

lemma slice_rejected:
  assumes wf: "list_wf s" and sl: "slice_view sl = None"
  shows "\<exists>m. list_run refused (DelSlice sl) (ListObj s) = (Inl (Fail m), ListObj s)"
    "\<exists>m. list_run refused (SetSlice sl ys) (ListObj s) = (Inl (Fail m), ListObj s)"
proof -
  obtain xs cap where s: "s = cells xs cap" "length xs \<le> cap" "int (8 * cap) \<le> isize_max" "0 \<notin> set xs" "as_slice s = xs"
    using wf by (rule list_wfE)
  obtain m where "normalize_slice sl (length xs) = Inl m"
    using normalize_slice_view [OF conjunct1 [OF cells_short [OF s(2,3)]], of sl] sl by auto
  then show "\<exists>m. list_run refused (DelSlice sl) (ListObj s) = (Inl (Fail m), ListObj s)"
    "\<exists>m. list_run refused (SetSlice sl ys) (ListObj s) = (Inl (Fail m), ListObj s)"
    using s by (simp_all add: list_ass_subscript_raw_def list_assign_slice_raw_def no_result_def)
qed

lemma reversed_store_panics:
  assumes wf: "list_wf s" and sl: "\<not> slice_ordered sl (l_len s)"
  shows "list_run refused (SetSlice sl ys) (ListObj s) = (Inl Panicked, ListObj s)"
proof -
  obtain xs cap where s: "s = cells xs cap" "length xs \<le> cap" "int (8 * cap) \<le> isize_max" "0 \<notin> set xs" "as_slice s = xs"
    using wf by (rule list_wfE)
  note n = conjunct1 [OF cells_short [OF s(2,3)]]
  obtain i j a b where v: "slice_view sl = Some (i, j, 1)" "py_slice_range (length xs) i j 1 = (a, b)" "b < a"
  proof -
    obtain i j k where v: "slice_view sl = Some (i, j, k)" using sl by (auto simp: slice_ordered_def split: option.splits)
    obtain a b where "py_slice_range (length xs) i j k = (a, b)" by force
    with v sl s that show thesis by (auto simp: slice_ordered_def)
  qed
  have "0 \<le> b" "a \<le> int (length xs)" using py_slice_range_bounds(1) [OF v(2)] by auto
  moreover have "normalize_slice sl (length xs) = Inr (py_indices (length xs) i j 1)"
    using normalize_slice_view [OF n, of sl] v(1) by simp
  ultimately show ?thesis using s n v(2,3)
    by (simp add: list_ass_subscript_raw_def list_assign_slice_raw_def py_indices_def vec_splice_def store_contents_def
        no_result_def isize_max_def nat_le_iff)
qed

lemma negative_insert_at_front:
  assumes "isize_ok i" "i < 0"
  shows "list_run refused (Insert i v) r = list_run refused (Insert 0 v) r"
proof -
  have "clamp i 0 len = clamp 0 0 len" if "isize_try_from n = Some len" for n len
    using that assms(2) by (auto simp: clamp_def isize_try_from_def checked_def split: if_splits)
  moreover have "index_value (IntObj i) = Inr i" "index_value (IntObj 0) = Inr 0"
    using assms(1) by (simp_all add: index_value_def long_value_def checked_def)
  ultimately show ?thesis by (simp add: list_insert_method_def split: receiver.splits option.splits)
qed

lemma far_insert_rejected:
  "\<not> isize_ok i \<Longrightarrow> \<exists>m. list_run refused (Insert i v) r = (Inl (Fail m), r)"
  by (auto simp: list_insert_method_def index_value_def long_value_def checked_def of_exn_def raise_seq_stream_error_def
      split: sum.splits exn.splits option.splits)

text \<open>A receiver that stays a list, as the object of a session.\<close>

definition live_list :: "receiver \<Rightarrow> bool" where
  "live_list r = (case r of ListObj s \<Rightarrow> list_wf s | NotList _ \<Rightarrow> False)"

definition elements :: "receiver \<Rightarrow> addr list" where
  "elements r = (case r of ListObj s \<Rightarrow> as_slice s | NotList _ \<Rightarrow> [])"

definition raised :: "fault + addr option \<Rightarrow> bool" where
  "raised res \<longleftrightarrow> isl res"

definition py_step :: "list_cmd \<Rightarrow> addr list \<Rightarrow> ((fault + addr option) \<times> addr list) option" where
  "py_step c xs = map_option (\<lambda>(v, ys). (Inr v, ys)) (py_run c xs)"

definition list_pre :: "list_cmd \<Rightarrow> receiver \<Rightarrow> bool" where
  "list_pre c r = (case r of ListObj s \<Rightarrow> cmd_ok c (l_len s) | NotList _ \<Rightarrow> False)"

interpretation py_list: refined_object live_list elements "list_run refused" py_step raised list_pre for refused
proof
  fix c r
  assume "live_list r" "list_pre c r"
  then obtain s where s: "r = ListObj s" "list_wf s" "cmd_ok c (l_len s)"
    by (auto simp: live_list_def list_pre_def split: receiver.splits)
  have ref: "refines refused c s (list_run refused c r)" using s list_run_refines by simp
  then show "live_list (snd (list_run refused c r))" by (auto simp: refines_def live_list_def)
  show "py_step c (elements r) = Some (fst (list_run refused c r), elements (snd (list_run refused c r)))"
    if "\<not> raised (fst (list_run refused c r))"
    using ref that s
    by (cases "fst (list_run refused c r)") (auto simp: refines_def raised_def elements_def py_step_def)
  show "elements (snd (list_run refused c r)) = elements r" if "raised (fst (list_run refused c r))"
    using ref that s by (cases "fst (list_run refused c r)") (auto simp: refines_def raised_def elements_def)
qed

section \<open>Properties\<close>



text \<open>
  A whole session on a list, whatever blocks the allocator refuses in between, is one that Python's
  list accepts: the cell block stays well-formed, and the elements are those of the commands that
  succeeded, run in order on a Python list, with the results Python gives.
\<close>

theorem list_session_refines_python:
  assumes "live_list r" "session_ok (list_run refused) list_pre cs r"
  shows "live_list (snd (session (list_run refused) cs r)) \<and>
    accepts py_step raised cs (fst (session (list_run refused) cs r)) (elements r) (elements (snd (session (list_run refused) cs r)))"
  by (rule py_list.session_refines [OF assms])

theorem list_session_refines_python_witness:
  "accepts py_step raised [Append 8, Append 16, Reverse]
     (fst (session (list_run (\<lambda>_. False)) [Append 8, Append 16, Reverse] (ListObj (cells [] 0)))) []
     (elements (snd (session (list_run (\<lambda>_. False)) [Append 8, Append 16, Reverse] (ListObj (cells [] 0)))))"
proof -
  have e: "elements (ListObj (cells [] 0)) = []" by (simp add: elements_def)
  have l: "live_list (ListObj (cells [] 0))" by (simp add: live_list_def list_wf_cells isize_max_def)
  have a: "list_run (\<lambda>_. False) (Append 8) (ListObj (cells [] 0)) = (Inr None, ListObj (cells [8] 4))"
    using append_eq [of "[]" 0 8 "\<lambda>_. False"]
    by (simp add: isize_max_def backing_refused_def grown_cap_def lift_fail_def no_result_def)
  have b: "list_run (\<lambda>_. False) (Append 16) (ListObj (cells [8] 4)) = (Inr None, ListObj (cells [8, 16] 4))"
    using append_eq [of "[8]" 4 16 "\<lambda>_. False"]
    by (simp add: isize_max_def backing_refused_def lift_fail_def no_result_def)
  have "session_ok (list_run (\<lambda>_. False)) list_pre [Append 8, Append 16, Reverse] (ListObj (cells [] 0))"
    using a b by (simp add: list_pre_def cmd_ok_def del: list_run.simps)
  from list_session_refines_python [OF l this] show ?thesis by (simp only: e)
qed

text \<open>
  Reading a slice never fails on a well-formed list and gives the elements Python's slice names, in
  its order; the result is a fresh list whose block is exactly full, or the allocator refused it.
\<close>

theorem list_slice_exact:
  assumes "list_wf s" "slice_view sl = Some (i, j, k)"
  shows "list_slice_raw refused s (SliceKey sl) =
    (let ys = map (\<lambda>x. as_slice s ! nat x) (py_slice_steps (l_len s) i j k) in
     if backing_refused refused (length ys) then Inl ''sequence backing allocation failed'' else Inr (cells ys (length ys)))"
proof -
  obtain xs cap where s: "s = cells xs cap" "length xs \<le> cap" "int (8 * cap) \<le> isize_max"
    using assms(1) by (rule list_wfE)
  note n = conjunct1 [OF cells_short [OF s(2,3)]]
  have v: "normalize_slice sl (length xs) = Inr (py_indices (length xs) i j k)"
    "slice_positions (py_indices (length xs) i j k) = py_slice_steps (length xs) i j k"
    using normalize_slice_view [OF n, of sl] assms(2) by simp_all
  show ?thesis
    using slice_items [OF py_slice_steps_in_range n] by (simp add: list_slice_raw_def s v sliced_values_def alloc_list_eq)
qed

theorem list_slice_exact_witness:
  "list_slice_raw (\<lambda>_. False) (cells [8, 16, 24] 3) (SliceKey \<lparr>sl_start = NoneObj, sl_stop = NoneObj, sl_step = IntObj (- 1)\<rparr>) =
     Inr (cells [24, 16, 8] 3)"
proof -
  have "slice_view \<lparr>sl_start = NoneObj, sl_stop = NoneObj, sl_step = IntObj (- 1)\<rparr> = Some (None, None, - 1)"
    by (simp add: slice_view_def step_of_def)
  moreover have "py_slice_steps (Suc (Suc (Suc 0))) None None (- 1) = [2, 1, 0]"
    by (simp add: py_slice_steps_def py_slice_range_def py_bound_def py_steps.simps)
  ultimately show ?thesis
    using list_slice_exact [of "cells [8, 16, 24] 3" "\<lparr>sl_start = NoneObj, sl_stop = NoneObj, sl_step = IntObj (- 1)\<rparr>" None None "- 1" "\<lambda>_. False"]
    by (simp add: list_wf_cells isize_max_def backing_refused_def numeral_3_eq_3)
qed

text \<open>
  Two list operations that do not do what Python does.  A contiguous slice store whose start lies
  past its stop panics inside \<open>Vec::splice\<close>, on every well-formed list, where Python inserts at the
  start; and \<open>insert\<close> with a negative index always inserts at the front, where Python counts from the end.
\<close>

theorem list_store_defects:
  "(\<forall>xs cap i j. list_wf (cells xs cap) \<and> 0 \<le> j \<and> j < i \<and> i \<le> int (length xs) \<longrightarrow>
      list_run refused (SetSlice \<lparr>sl_start = IntObj i, sl_stop = IntObj j, sl_step = NoneObj\<rparr> ys) (ListObj (cells xs cap)) =
        (Inl Panicked, ListObj (cells xs cap)) \<and>
      py_run (SetSlice \<lparr>sl_start = IntObj i, sl_stop = IntObj j, sl_step = NoneObj\<rparr> ys) xs =
        Some (None, take (nat i) xs @ ys @ drop (nat i) xs)) \<and>
   (\<exists>s. list_run (\<lambda>_. False) (Insert (- 1) 40) (ListObj (cells [8, 16, 24] 3)) = (Inr None, ListObj s) \<and> as_slice s = [40, 8, 16, 24] \<and>
      py_run (Insert (- 1) 40) [8, 16, 24] = Some (None, [8, 16, 40, 24]))"
proof (intro conjI allI impI, goal_cases)
  case (1 xs cap i j)
  then have n: "int (length xs) \<le> isize_max" using cells_short [of xs cap] by (simp add: list_wf_cells)
  have ok: "isize_ok i" "isize_ok j" using 1 n by (auto simp: isize_ok_def isize_min_def isize_max_def)
  let ?sl = "\<lparr>sl_start = IntObj i, sl_stop = IntObj j, sl_step = NoneObj\<rparr>"
  have v: "slice_view ?sl = Some (Some i, Some j, 1)" using ok by (simp add: slice_view_def step_of_def)
  have r: "py_slice_range (length xs) (Some i) (Some j) 1 = (i, j)"
    using 1 by (auto simp: py_slice_range_def py_bound_def)
  have "normalize_slice ?sl (length xs) = Inr (py_indices (length xs) (Some i) (Some j) 1)"
    using normalize_slice_view [OF n, of ?sl] v by simp
  then show ?case using 1 n r
    by (simp add: list_ass_subscript_raw_def list_assign_slice_raw_def py_indices_def vec_splice_def store_contents_def
        no_result_def isize_max_def nat_le_iff)
next
  case (2 xs cap i j)
  then have n: "int (length xs) \<le> isize_max" using cells_short [of xs cap] by (simp add: list_wf_cells)
  have ok: "isize_ok i" "isize_ok j" using 2 n by (auto simp: isize_ok_def isize_min_def isize_max_def)
  have "py_slice_range (length xs) (Some i) (Some j) 1 = (i, j)" using 2 by (auto simp: py_slice_range_def py_bound_def)
  then show ?case using ok 2 by (simp add: slice_meaning_def step_of_def max_def)
next
  case 3
  have "list_insert_method (\<lambda>_. False) (ListObj (cells [8, 16, 24] 3)) (IntObj (- 1)) 40 = Inr (ListObj (cells [40, 8, 16, 24] 4))"
    by (simp add: list_insert_method_def replace_contents_eq backing_refused_def index_value_def long_value_def checked_def
        isize_try_from_def isize_ok_def isize_min_def isize_max_def clamp_def insert_at_def)
  then show ?case by (simp add: of_exn_def insert_at_def numeral_eq_Suc)
qed

theorem list_store_defects_witness:
  "list_run (\<lambda>_. False) (SetSlice \<lparr>sl_start = IntObj 2, sl_stop = IntObj 1, sl_step = NoneObj\<rparr> [40]) (ListObj (cells [8, 16, 24] 3)) =
     (Inl Panicked, ListObj (cells [8, 16, 24] 3)) \<and>
   py_run (SetSlice \<lparr>sl_start = IntObj 2, sl_stop = IntObj 1, sl_step = NoneObj\<rparr> [40]) [8, 16, 24] =
     Some (None, [8, 16, 40, 24])"
proof -
  have "list_wf (cells [8, 16, 24] 3) \<and> (0 :: int) \<le> 1 \<and> (1 :: int) < 2 \<and> 2 \<le> int (length [8, 16, 24 :: nat])"
    by (simp add: list_wf_cells isize_max_def)
  from conjunct1 [OF list_store_defects [of "\<lambda>_. False" "[40]"], rule_format, OF this] show ?thesis
    by (simp only: list_run.simps) (simp add: numeral_2_eq_2)
qed

end
