(* ===== verification/Stable_Sort.thy ===== *)
theory Stable_Sort
  imports Seq_List "HOL-Library.Multiset"
begin

text \<open>
  \<open>sorted\<close> and \<open>list.sort\<close> (\<open>stable_sort\<close> and its merge sort in
  \<open>pon-runtime/src/native/builtins_batch.rs\<close>, \<open>list_sort_with_options\<close> in \<open>pon-runtime/src/abi/seq.rs\<close>).
  The merge sort permutes an index vector in place with a scratch vector.  A comparison and a key call
  run Python code and may fail, which ends the sort; they are parameters.  The failure value of the source
  carries nothing: the pending exception is elsewhere.
\<close>

section \<open>The merge sort on indices\<close>

type_synonym 'a attempt = "unit + 'a"

lemma bind_ok_cong [fundef_cong]: "m = m' \<Longrightarrow> (\<And>x. m' = Inr x \<Longrightarrow> f x = f' x) \<Longrightarrow> bind_ok m f = bind_ok m' f'"
  by (cases m') simp_all

definition copy_from_slice :: "nat list \<Rightarrow> nat \<Rightarrow> nat list \<Rightarrow> nat list" where
  "copy_from_slice dst pos src = take pos dst @ src @ drop (pos + length src) dst"

definition subslice :: "nat list \<Rightarrow> nat \<Rightarrow> nat \<Rightarrow> nat list" where
  "subslice xs a b = take (b - a) (drop a xs)"

function merge_loop ::
  "(nat \<Rightarrow> nat \<Rightarrow> bool attempt) \<Rightarrow> nat list \<Rightarrow> nat \<Rightarrow> nat \<Rightarrow> nat list \<Rightarrow> nat \<Rightarrow> nat \<Rightarrow> nat \<Rightarrow> (nat list \<times> nat \<times> nat \<times> nat) attempt" where
  "merge_loop compare indices mid fin scratch left right out =
     (if left < mid \<and> right < fin then
        bind_ok (compare (indices ! right) (indices ! left)) (\<lambda>lt.
          if lt then merge_loop compare indices mid fin (scratch[out := indices ! right]) left (right + 1) (out + 1)
          else merge_loop compare indices mid fin (scratch[out := indices ! left]) (left + 1) right (out + 1))
      else Inr (scratch, left, right, out))"
  by pat_completeness auto
termination
  by (relation "measure (\<lambda>(_, _, mid, fin, _, left, right, _). (mid - left) + (fin - right))") auto

declare merge_loop.simps [simp del]

definition merge_rest :: "nat list \<Rightarrow> nat \<Rightarrow> nat \<Rightarrow> nat list \<times> nat \<times> nat \<times> nat \<Rightarrow> nat list" where
  "merge_rest indices mid fin st =
     (let (scratch, left, right, out) = st;
          (scratch, out) = (if left < mid then (copy_from_slice scratch out (subslice indices left mid), out + (mid - left))
                            else (scratch, out))
      in if right < fin then copy_from_slice scratch out (subslice indices right fin) else scratch)"

function stable_merge_sort_range ::
  "(nat \<Rightarrow> nat \<Rightarrow> bool attempt) \<Rightarrow> nat list \<Rightarrow> nat list \<Rightarrow> nat \<Rightarrow> nat \<Rightarrow> (nat list \<times> nat list) attempt" where
  "stable_merge_sort_range compare indices scratch start fin =
     (if fin - start \<le> 1 then Inr (indices, scratch)
      else
        let mid = start + (fin - start) div 2 in
        bind_ok (stable_merge_sort_range compare indices scratch start mid) (\<lambda>p.
        bind_ok (stable_merge_sort_range compare (fst p) (snd p) mid fin) (\<lambda>q.
        bind_ok (merge_loop compare (fst q) mid fin (snd q) start mid start) (\<lambda>st.
          let scratch = merge_rest (fst q) mid fin st in
          Inr (copy_from_slice (fst q) start (subslice scratch start fin), scratch)))))"
  by pat_completeness auto
termination
  by (relation "measure (\<lambda>(_, _, _, start, fin). fin - start)") auto

declare stable_merge_sort_range.simps [simp del]

definition stable_merge_sort_indices ::
  "(nat \<Rightarrow> nat \<Rightarrow> bool attempt) \<Rightarrow> nat list \<Rightarrow> nat list \<Rightarrow> (nat list \<times> nat list) attempt" where
  "stable_merge_sort_indices compare indices scratch =
     stable_merge_sort_range compare indices scratch 0 (length indices)"

section \<open>Sorting objects\<close>

datatype rich_op = RICH_LT | RICH_GT

text \<open>\<open>pon_rich_compare\<close> returns an object or null, \<open>pon_is_true\<close> a truth value or an error.\<close>

definition rich_bool ::
  "(rich_op \<Rightarrow> addr \<Rightarrow> addr \<Rightarrow> addr) \<Rightarrow> (addr \<Rightarrow> int) \<Rightarrow> rich_op \<Rightarrow> addr \<Rightarrow> addr \<Rightarrow> bool attempt" where
  "rich_bool rich_compare is_true op l r =
     (let result = rich_compare op l r in
      if result = 0 then Inl ()
      else if is_true result = 1 then Inr True else if is_true result = 0 then Inr False else Inl ())"

text \<open>The key argument is absent when it is null or \<open>None\<close>; a call returns null when it raised.\<close>

definition key_value :: "(addr \<Rightarrow> addr) option \<Rightarrow> addr \<Rightarrow> addr attempt" where
  "key_value key item =
     (case key of None \<Rightarrow> Inr item | Some call \<Rightarrow> (let v = call item in if v = 0 then Inl () else Inr v))"

fun key_items :: "(addr \<Rightarrow> addr) option \<Rightarrow> addr list \<Rightarrow> (addr \<times> addr) list attempt" where
  "key_items key [] = Inr []"
| "key_items key (x # xs) = bind_ok (key_value key x) (\<lambda>k. bind_ok (key_items key xs) (\<lambda>ks. Inr ((x, k) # ks)))"

definition stable_sort ::
  "(rich_op \<Rightarrow> addr \<Rightarrow> addr \<Rightarrow> addr) \<Rightarrow> (addr \<Rightarrow> int) \<Rightarrow> addr list \<Rightarrow> (addr \<Rightarrow> addr) option \<Rightarrow> bool \<Rightarrow> addr list attempt" where
  "stable_sort rich_compare is_true items key reverse =
     bind_ok (key_items key items) (\<lambda>keyed.
     bind_ok (stable_merge_sort_indices
                (\<lambda>l r. rich_bool rich_compare is_true (if reverse then RICH_GT else RICH_LT) (snd (keyed ! l)) (snd (keyed ! r)))
                [0..<length keyed] (replicate (length keyed) 0)) (\<lambda>p.
       Inr (map (\<lambda>i. fst (keyed ! i)) (fst p))))"

text \<open>
  \<open>list.sort\<close>: the items are copied out, sorted, and written back when the length is still the same.
  \<open>after\<close> is the receiver as the key calls and comparisons left it.
\<close>

definition list_sort_with_options ::
  "(rich_op \<Rightarrow> addr \<Rightarrow> addr \<Rightarrow> addr) \<Rightarrow> (addr \<Rightarrow> int) \<Rightarrow> list_storage \<Rightarrow> list_storage \<Rightarrow> (addr \<Rightarrow> addr) option \<Rightarrow> bool \<Rightarrow>
     (exn option + unit) \<times> list_storage" where
  "list_sort_with_options rich_compare is_true s after key reverse =
     (case stable_sort rich_compare is_true (as_slice s) key reverse of
        Inl _ \<Rightarrow> (Inl None, after)
      | Inr items \<Rightarrow>
          if length (as_slice after) \<noteq> length items then (Inl (Some (ValueError ''list modified during sort'')), after)
          else (Inr (), after\<lparr>l_items := items @ drop (l_len after) (l_items after)\<rparr>))"

section \<open>Merging is stable sorting\<close>

fun merge_by :: "('a \<Rightarrow> int) \<Rightarrow> 'a list \<Rightarrow> 'a list \<Rightarrow> 'a list" where
  "merge_by f [] ys = ys"
| "merge_by f xs [] = xs"
| "merge_by f (x # xs) (y # ys) = (if f y < f x then y # merge_by f (x # xs) ys else x # merge_by f xs (y # ys))"

lemma mset_merge_by [simp]: "mset (merge_by f xs ys) = mset xs + mset ys"
  by (induction f xs ys rule: merge_by.induct) auto

lemma set_merge_by [simp]: "set (merge_by f xs ys) = set xs \<union> set ys"
  by (metis mset_merge_by set_mset_mset set_mset_union)

lemma length_merge_by [simp]: "length (merge_by f xs ys) = length xs + length ys"
  by (induction f xs ys rule: merge_by.induct) auto

lemma merge_by_Nil2 [simp]: "merge_by f xs [] = xs"
  by (cases xs) simp_all

lemma sorted_merge_by: "sorted (map f xs) \<Longrightarrow> sorted (map f ys) \<Longrightarrow> sorted (map f (merge_by f xs ys))"
  by (induction f xs ys rule: merge_by.induct) (force simp: not_less)+

lemma filter_merge_by:
  "sorted (map f xs) \<Longrightarrow> sorted (map f ys) \<Longrightarrow>
   filter (\<lambda>x. k = f x) (merge_by f xs ys) = filter (\<lambda>x. k = f x) xs @ filter (\<lambda>x. k = f x) ys"
proof (induction f xs ys rule: merge_by.induct)
  case (3 f x xs y ys)
  have "filter (\<lambda>z. k = f z) (x # xs) = []" if "f y < f x" "k = f y" using 3 that by (force simp: filter_empty_conv)
  then show ?case using 3 by (cases "f y < f x") auto
qed simp_all

lemma sort_key_append: "sort_key f (xs @ ys) = merge_by f (sort_key f xs) (sort_key f ys)"
proof (rule properties_for_sort_key)
  show "mset (merge_by f (sort_key f xs) (sort_key f ys)) = mset (xs @ ys)" by simp
  show "sorted (map f (merge_by f (sort_key f xs) (sort_key f ys)))" by (simp add: sorted_merge_by)
  show "filter (\<lambda>x. f k = f x) (merge_by f (sort_key f xs) (sort_key f ys)) = filter (\<lambda>x. f k = f x) (xs @ ys)" for k
    using sort_key_stable [of f "f k"] by (subst filter_merge_by) (simp_all add: eq_commute [of "f k"])
qed

section \<open>The in-place merge sort\<close>

lemma subslice_empty [simp]: "b \<le> a \<Longrightarrow> subslice xs a b = []"
  by (simp add: subslice_def)

lemma subslice_Cons: "a < b \<Longrightarrow> b \<le> length xs \<Longrightarrow> subslice xs a b = xs ! a # subslice xs (a + 1) b"
  by (simp add: subslice_def Cons_nth_drop_Suc [symmetric] take_Cons' Suc_diff_Suc [symmetric])

lemma length_subslice [simp]: "b \<le> length xs \<Longrightarrow> length (subslice xs a b) = b - a"
  by (simp add: subslice_def)

lemma subslice_split: "a \<le> m \<Longrightarrow> m \<le> b \<Longrightarrow> subslice xs a m @ subslice xs m b = subslice xs a b"
  using take_add [of "m - a" "b - m" "drop a xs"] by (simp add: subslice_def)

lemma write_out: "out < length scratch \<Longrightarrow> take (out + 1) (scratch[out := x]) = take out scratch @ [x]"
  by (simp add: take_Suc_conv_app_nth)

lemma merge_loop_ok:
  assumes "\<And>a b. a \<in> set indices \<Longrightarrow> b \<in> set indices \<Longrightarrow> compare a b = Inr (f a < f b)"
    and "left \<le> mid" "right \<le> fin" "mid \<le> length indices" "fin \<le> length indices"
    and "out + (mid - left) + (fin - right) \<le> length scratch"
  shows "\<exists>st. merge_loop compare indices mid fin scratch left right out = Inr st \<and>
    merge_rest indices mid fin st = take out scratch @ merge_by f (subslice indices left mid) (subslice indices right fin) @
      drop (out + (mid - left) + (fin - right)) scratch"
  using assms
proof (induction compare indices mid fin scratch left right out rule: merge_loop.induct)
  case (1 compare indices mid fin scratch left right out)
  show ?case
  proof (cases "left < mid \<and> right < fin")
    case True
    have c: "compare (indices ! right) (indices ! left) = Inr (f (indices ! right) < f (indices ! left))"
      using True 1 by (intro "1.prems"(1) nth_mem) auto
    have o: "out < length scratch" using True 1 by auto
    have e: "Suc (out + mid + fin - Suc (left + right)) = out + mid + fin - (left + right)" using True by linarith
    note sub = subslice_Cons [of left mid indices] subslice_Cons [of right fin indices]
    show ?thesis
    proof (cases "f (indices ! right) < f (indices ! left)")
      case lt: True
      have "\<exists>st. merge_loop compare indices mid fin (scratch[out := indices ! right]) left (right + 1) (out + 1) = Inr st \<and>
        merge_rest indices mid fin st = take (out + 1) (scratch[out := indices ! right]) @
          merge_by f (subslice indices left mid) (subslice indices (right + 1) fin) @
          drop (out + 1 + (mid - left) + (fin - (right + 1))) (scratch[out := indices ! right])"
        using True lt 1 by (intro "1.IH"(1)) auto
      then show ?thesis using True lt c o sub 1
        by (subst merge_loop.simps) (auto simp: write_out [simplified] e)
    next
      case ge: False
      have "\<exists>st. merge_loop compare indices mid fin (scratch[out := indices ! left]) (left + 1) right (out + 1) = Inr st \<and>
        merge_rest indices mid fin st = take (out + 1) (scratch[out := indices ! left]) @
          merge_by f (subslice indices (left + 1) mid) (subslice indices right fin) @
          drop (out + 1 + (mid - (left + 1)) + (fin - right)) (scratch[out := indices ! left])"
        using True ge 1 by (intro "1.IH"(2)) auto
      then show ?thesis using True ge c o sub 1
        by (subst merge_loop.simps) (auto simp: write_out [simplified] e)
    qed
  next
    case False
    then show ?thesis using 1
      by (subst merge_loop.simps) (auto simp: merge_rest_def copy_from_slice_def not_less)
  qed
qed

lemma copy_length [simp]: "pos + length src \<le> length dst \<Longrightarrow> length (copy_from_slice dst pos src) = length dst"
  by (simp add: copy_from_slice_def)

lemma subslice_alt: "subslice xs a b = drop a (take b xs)"
  by (simp add: subslice_def drop_take)

lemma copy_self: "a \<le> b \<Longrightarrow> b \<le> length xs \<Longrightarrow> copy_from_slice xs a (subslice xs a b) = xs"
proof -
  assume ab: "a \<le> b" "b \<le> length xs"
  have "xs = take b xs @ drop b xs" by simp
  also have "take b xs = take a xs @ subslice xs a b"
    using ab append_take_drop_id [of a "take b xs"] by (simp add: subslice_alt min_def)
  finally show ?thesis using ab by (simp add: copy_from_slice_def)
qed

lemma subslice_copy:
  assumes "pos + length src \<le> length dst"
  shows "b \<le> pos \<Longrightarrow> subslice (copy_from_slice dst pos src) a b = subslice dst a b"
    and "pos + length src \<le> a \<Longrightarrow> subslice (copy_from_slice dst pos src) a b = subslice dst a b"
    and "subslice (copy_from_slice dst pos src) pos (pos + length src) = src"
proof -
  show "subslice (copy_from_slice dst pos src) a b = subslice dst a b" if "b \<le> pos"
    using assms that by (simp add: subslice_alt copy_from_slice_def min_def)
  show "subslice (copy_from_slice dst pos src) a b = subslice dst a b" if "pos + length src \<le> a"
    using assms that by (simp add: subslice_def copy_from_slice_def min_def)
  show "subslice (copy_from_slice dst pos src) pos (pos + length src) = src"
    using assms by (simp add: subslice_def copy_from_slice_def min_def)
qed

lemma merge_sort_range_ok:
  fixes f :: "nat \<Rightarrow> int"
  assumes cmp: "\<And>a b. a \<in> set indices \<Longrightarrow> b \<in> set indices \<Longrightarrow> compare a b = Inr (f a < f b)"
    and "start \<le> fin" "fin \<le> length indices" "length scratch = length indices"
  shows "\<exists>scratch'. stable_merge_sort_range compare indices scratch start fin =
      Inr (copy_from_slice indices start (sort_key f (subslice indices start fin)), scratch') \<and> length scratch' = length indices"
  using assms
proof (induction compare indices scratch start fin rule: stable_merge_sort_range.induct)
  case (1 compare indices scratch start fin)
  show ?case
  proof (cases "fin - start \<le> 1")
    case True
    have "sort_key f (subslice indices start fin) = subslice indices start fin"
      using True 1 by (cases "fin = start") (auto simp: subslice_Cons le_Suc_eq)
    then show ?thesis using True 1
      by (subst stable_merge_sort_range.simps) (simp add: copy_self)
  next
    case False
    define mid where "mid = start + (fin - start) div 2"
    have m: "start < mid" "mid < fin" using False by (auto simp: mid_def)
    let ?L = "sort_key f (subslice indices start mid)"
    let ?R = "sort_key f (subslice indices mid fin)"
    let ?i1 = "copy_from_slice indices start ?L"
    let ?i2 = "copy_from_slice ?i1 mid ?R"
    have len: "length ?L = mid - start" "length ?R = fin - mid" using m 1 by auto
    have s1: "subslice ?i1 mid fin = subslice indices mid fin" using m 1 len by (intro subslice_copy(2)) auto
    have l1: "length ?i1 = length indices" "length ?i2 = length indices" using m 1 len by simp_all
    have p1: "set ?i1 \<subseteq> set indices" "set ?i2 \<subseteq> set indices"
      by (auto simp: copy_from_slice_def subslice_def dest: in_set_takeD in_set_dropD)
    obtain t1 where a: "stable_merge_sort_range compare indices scratch start mid = Inr (?i1, t1)" "length t1 = length indices"
      using "1.IH"(1) [OF False mid_def] 1 m by auto
    have cmp1: "compare x y = Inr (f x < f y)" if "x \<in> set ?i1" "y \<in> set ?i1" for x y
      using "1.prems"(1) p1(1) that by blast
    have cmp2: "compare x y = Inr (f x < f y)" if "x \<in> set ?i2" "y \<in> set ?i2" for x y
      using "1.prems"(1) p1(2) that by blast
    note ih = "1.IH"(2) [OF False mid_def a(1), unfolded fst_conv snd_conv]
    have "\<exists>t2. stable_merge_sort_range compare ?i1 t1 mid fin = Inr (copy_from_slice ?i1 mid (sort_key f (subslice ?i1 mid fin)), t2) \<and> length t2 = length ?i1"
      by (rule ih) (use cmp1 "1.prems"(3) m l1 a(2) in simp_all)
    then obtain t2 where b: "stable_merge_sort_range compare ?i1 t1 mid fin = Inr (?i2, t2)" "length t2 = length indices"
      using s1 l1 by auto
    have halves: "subslice ?i2 start mid = ?L" "subslice ?i2 mid fin = ?R"
      using subslice_copy(1) [of mid ?R ?i1 mid start] subslice_copy(3) [of start ?L indices] subslice_copy(3) [of mid ?R ?i1] m 1 len l1
      by simp_all
    have "\<exists>st. merge_loop compare ?i2 mid fin t2 start mid start = Inr st \<and>
      merge_rest ?i2 mid fin st = take start t2 @ merge_by f (subslice ?i2 start mid) (subslice ?i2 mid fin) @
        drop (start + (mid - start) + (fin - mid)) t2"
      by (rule merge_loop_ok) (use cmp2 "1.prems" m b l1 in simp_all)
    then obtain st where st: "merge_loop compare ?i2 mid fin t2 start mid start = Inr st"
      "merge_rest ?i2 mid fin st = copy_from_slice t2 start (sort_key f (subslice indices start fin))"
      using m 1 len unfolding halves sort_key_append [symmetric]
      by (auto simp: subslice_split copy_from_slice_def)
    have fin: "subslice (copy_from_slice t2 start (sort_key f (subslice indices start fin))) start fin = sort_key f (subslice indices start fin)"
      using subslice_copy(3) [of start "sort_key f (subslice indices start fin)" t2] m 1 b by simp
    have wb: "copy_from_slice ?i2 start (sort_key f (subslice indices start fin)) =
      copy_from_slice indices start (sort_key f (subslice indices start fin))"
      using m 1 len by (simp add: copy_from_slice_def)
    show ?thesis using False a b st m 1 fin wb
      by (subst stable_merge_sort_range.simps) (simp add: mid_def [symmetric] Let_def)
  qed
qed

section \<open>Sorting objects is stable\<close>

lemma key_items_ok:
  assumes "\<And>x. x \<in> set xs \<Longrightarrow> key_value key x = Inr (k x)"
  shows "key_items key xs = Inr (map (\<lambda>x. (x, k x)) xs)"
  using assms by (induction xs) simp_all

lemma map_insort_key: "map g (insort_key (\<lambda>i. f (g i)) x xs) = insort_key f (g x) (map g xs)"
  by (induction xs) simp_all

lemma map_sort_key: "map g (sort_key (\<lambda>i. f (g i)) xs) = sort_key f (map g xs)"
  by (induction xs) (simp_all add: map_insort_key)

lemma sorted_indices:
  fixes f :: "'a \<Rightarrow> int"
  shows "map (\<lambda>i. xs ! i) (sort_key (\<lambda>i. f (xs ! i)) [0..<length xs]) = sort_key f xs"
  using map_sort_key [of "\<lambda>i. xs ! i" f "[0..<length xs]"] by (simp add: map_nth)

text \<open>The rank a comparison orders by: ascending for \<open><\<close>, descending for \<open>>\<close>.\<close>

definition order_rank :: "bool \<Rightarrow> (addr \<Rightarrow> int) \<Rightarrow> addr \<Rightarrow> int" where
  "order_rank reverse rank k = (if reverse then - rank k else rank k)"

definition orders_by :: "(rich_op \<Rightarrow> addr \<Rightarrow> addr \<Rightarrow> addr) \<Rightarrow> (addr \<Rightarrow> int) \<Rightarrow> (addr \<Rightarrow> int) \<Rightarrow> addr set \<Rightarrow> bool" where
  "orders_by rich_compare is_true rank ks \<longleftrightarrow>
     (\<forall>x \<in> ks. \<forall>y \<in> ks. rich_bool rich_compare is_true RICH_LT x y = Inr (rank x < rank y) \<and>
        rich_bool rich_compare is_true RICH_GT x y = Inr (rank x > rank y))"

lemma stable_sort_ok:
  assumes k: "\<And>x. x \<in> set items \<Longrightarrow> key_value key x = Inr (k x)"
    and ord: "orders_by rich_compare is_true rank (k ` set items)"
  shows "stable_sort rich_compare is_true items key reverse = Inr (sort_key (\<lambda>x. order_rank reverse rank (k x)) items)"
proof -
  let ?keyed = "map (\<lambda>x. (x, k x)) items"
  let ?f = "\<lambda>i. order_rank reverse rank (snd (?keyed ! i))"
  let ?cmp = "\<lambda>l r. rich_bool rich_compare is_true (if reverse then RICH_GT else RICH_LT) (snd (?keyed ! l)) (snd (?keyed ! r))"
  have cmp: "?cmp a b = Inr (?f a < ?f b)" if "a \<in> set [0..<length items]" "b \<in> set [0..<length items]" for a b
    using ord that by (auto simp: orders_by_def order_rank_def)
  obtain t where t: "stable_merge_sort_range ?cmp [0..<length items] (replicate (length items) 0) 0 (length items) =
    Inr (sort_key ?f [0..<length items], t)"
    using merge_sort_range_ok [of "[0..<length items]" ?cmp ?f 0 "length items" "replicate (length items) 0", OF cmp]
    by (auto simp: copy_from_slice_def subslice_def)
  have "map (\<lambda>i. fst (?keyed ! i)) (sort_key ?f [0..<length items]) = map fst (map (\<lambda>i. ?keyed ! i) (sort_key ?f [0..<length items]))"
    by simp
  also have "\<dots> = map fst (sort_key (\<lambda>p. order_rank reverse rank (snd p)) ?keyed)"
    using sorted_indices [of ?keyed "\<lambda>p. order_rank reverse rank (snd p)"] by (simp del: map_map)
  also have "\<dots> = sort_key (\<lambda>x. order_rank reverse rank (k x)) items"
    using map_sort_key [of "\<lambda>x. (x, k x)" "\<lambda>p. order_rank reverse rank (snd p)" items, symmetric] by (simp add: comp_def)
  finally show ?thesis using key_items_ok [OF k] t
    by (simp add: stable_sort_def stable_merge_sort_indices_def)
qed

section \<open>Properties\<close>

text \<open>
  C10.  \<open>sorted\<close> and \<open>list.sort\<close> are the stable sort.  When the key calls succeed and the comparisons
  order the keys by a rank, sorting succeeds and returns the items stably sorted by the rank of their
  keys: ascending, or, with \<open>reverse\<close>, descending with equal keys still in their original order; and
  \<open>list.sort\<close> on a list the comparisons leave alone stores exactly that and stays well-formed.
\<close>

theorem stable_sort_correct:
  assumes "\<And>x. x \<in> set (as_slice s) \<Longrightarrow> key_value key x = Inr (k x)"
    and "orders_by rich_compare is_true rank (k ` set (as_slice s))" and "list_wf s"
  shows "stable_sort rich_compare is_true (as_slice s) key reverse =
      Inr (sort_key (\<lambda>x. order_rank reverse rank (k x)) (as_slice s)) \<and>
    (\<exists>s'. list_sort_with_options rich_compare is_true s s key reverse = (Inr (), s') \<and> list_wf s' \<and>
       as_slice s' = sort_key (\<lambda>x. order_rank reverse rank (k x)) (as_slice s))"
proof -
  obtain xs cap where s: "s = cells xs cap" "length xs \<le> cap" "int (8 * cap) \<le> isize_max" "0 \<notin> set xs" "as_slice s = xs"
    using assms(3) by (rule list_wfE)
  note ok = stable_sort_ok [OF assms(1,2), of reverse]
  let ?ys = "sort_key (\<lambda>x. order_rank reverse rank (k x)) xs"
  have "list_sort_with_options rich_compare is_true s s key reverse = (Inr (), cells ?ys cap)"
    using ok s by (simp add: list_sort_with_options_def cells_def)
  then show ?thesis using ok s by (intro conjI exI [of _ "cells ?ys cap"]) (simp_all add: list_wf_cells)
qed

theorem stable_sort_correct_witness:
  "stable_sort (\<lambda>op x y. if (if op = RICH_LT then x div 16 < y div 16 else x div 16 > y div 16) then 8 else 16)
     (\<lambda>t. if t = 8 then 1 else 0) [49, 17, 50, 18] None True = Inr [49, 50, 17, 18]"
proof -
  let ?rc = "\<lambda>op x y. if (if op = RICH_LT then x div 16 < y div 16 else x div 16 > y div 16) then 8 else (16 :: nat)"
  have "orders_by ?rc (\<lambda>t. if t = 8 then 1 else 0) (\<lambda>x. int (x div 16)) (id ` set (as_slice (cells [49, 17, 50, 18] 4)))"
    by (simp add: orders_by_def rich_bool_def)
  moreover have "list_wf (cells [49, 17, 50, 18] 4)" by (simp add: list_wf_cells isize_max_def)
  ultimately have "stable_sort ?rc (\<lambda>t. if t = 8 then 1 else 0) (as_slice (cells [49, 17, 50, 18] 4)) None True =
    Inr (sort_key (\<lambda>x. order_rank True (\<lambda>x. int (x div 16)) (id x)) (as_slice (cells [49, 17, 50, 18] 4)))"
    using stable_sort_correct [of "cells [49, 17, 50, 18] 4" None id ?rc "\<lambda>t. if t = 8 then 1 else 0" "\<lambda>x. int (x div 16)" True]
    by (simp add: key_value_def)
  then show ?thesis by (simp add: order_rank_def)
qed

end
