(* ===== verification/Py_Hash.thy ===== *)
theory Py_Hash
  imports Seq_Index
begin

text \<open>
  Hashing (\<open>pon-runtime/src/pyhash.rs\<close>, \<open>hash_bigint\<close> in \<open>types/int.rs\<close>, \<open>tuple_hash_impl\<close> in
  \<open>abi/seq.rs\<close>, \<open>normalize_hash\<close> in \<open>types/dict.rs\<close>).  Words are kept at their width: SipHash and the tuple
  accumulator are 64-bit with wrap-around; a finished hash is an \<open>isize\<close>, read as an \<open>int\<close>.  A string is the
  list of its code points.  Byte counts are below \<open>2 ^ 64\<close>, as a slice length is.
\<close>

section \<open>SipHash-1-3\<close>

type_synonym sip = "u64 \<times> u64 \<times> u64 \<times> u64"

definition rotate_left :: "nat \<Rightarrow> u64 \<Rightarrow> u64" where
  "rotate_left n w = push_bit n w OR drop_bit (64 - n) w"

fun single_round :: "sip \<Rightarrow> sip" where
  "single_round (v0, v1, v2, v3) =
     (let v0 = v0 + v1;
          v2 = v2 + v3;
          v1 = rotate_left 13 v1 XOR v0;
          v3 = rotate_left 16 v3 XOR v2;
          v0 = rotate_left 32 v0;
          v2 = v2 + v1;
          v0 = v0 + v3;
          v1 = rotate_left 17 v1 XOR v2;
          v3 = rotate_left 21 v3 XOR v0;
          v2 = rotate_left 32 v2
      in (v0, v1, v2, v3))"

definition from_le_bytes :: "u8 list \<Rightarrow> u64" where
  "from_le_bytes bs = foldr (\<lambda>b acc. ucast b OR push_bit 8 acc) bs 0"

fun xor_v0 :: "u64 \<Rightarrow> sip \<Rightarrow> sip" where
  "xor_v0 m (v0, v1, v2, v3) = (v0 XOR m, v1, v2, v3)"

fun xor_v2 :: "u64 \<Rightarrow> sip \<Rightarrow> sip" where
  "xor_v2 m (v0, v1, v2, v3) = (v0, v1, v2 XOR m, v3)"

fun xor_v3 :: "u64 \<Rightarrow> sip \<Rightarrow> sip" where
  "xor_v3 m (v0, v1, v2, v3) = (v0, v1, v2, v3 XOR m)"

definition absorb :: "u64 \<Rightarrow> sip \<Rightarrow> sip" where
  "absorb m v = xor_v0 m (single_round (xor_v3 m v))"

fun sip_result :: "sip \<Rightarrow> u64" where
  "sip_result (v0, v1, v2, v3) = (v0 XOR v1) XOR (v2 XOR v3)"

text \<open>\<open>chunks_exact(8)\<close>: the whole chunks are absorbed, the rest is the tail.\<close>

function absorb_chunks :: "u8 list \<Rightarrow> sip \<Rightarrow> u8 list \<times> sip" where
  "absorb_chunks data v =
     (if length data < 8 then (data, v) else absorb_chunks (drop 8 data) (absorb (from_le_bytes (take 8 data)) v))"
  by pat_completeness auto
termination
  by (relation "measure (\<lambda>(data, _). length data)") auto

declare absorb_chunks.simps [simp del]

definition siphash13 :: "u64 \<Rightarrow> u64 \<Rightarrow> u8 list \<Rightarrow> u64" where
  "siphash13 k0 k1 data =
     (let v = (k0 XOR 0x736f6d6570736575, k1 XOR 0x646f72616e646f6d, k0 XOR 0x6c7967656e657261, k1 XOR 0x7465646279746573);
          b = push_bit 56 (of_nat (length data) :: u64);
          r = absorb_chunks data v;
          t = fst r @ replicate (8 - length (fst r)) 0;
          b = b OR from_le_bytes t;
          v = xor_v2 0xff (absorb b (snd r))
      in sip_result (single_round (single_round (single_round v))))"

definition bytes_hash :: "u8 list \<Rightarrow> int" where
  "bytes_hash data =
     (if data = [] then 0
      else let hash = sint (siphash13 0 0 data) in if hash = - 1 then - 2 else hash)"

section \<open>Strings\<close>

type_synonym codepoint = nat

fun utf8_char :: "codepoint \<Rightarrow> u8 list" where
  "utf8_char c =
     (if c < 0x80 then [of_nat c]
      else if c < 0x800 then [of_nat (0xC0 + c div 64), of_nat (0x80 + c mod 64)]
      else if c < 0x10000 then [of_nat (0xE0 + c div 4096), of_nat (0x80 + c div 64 mod 64), of_nat (0x80 + c mod 64)]
      else [of_nat (0xF0 + c div 262144), of_nat (0x80 + c div 4096 mod 64), of_nat (0x80 + c div 64 mod 64), of_nat (0x80 + c mod 64)])"

definition as_bytes :: "codepoint list \<Rightarrow> u8 list" where
  "as_bytes cs = concat (map utf8_char cs)"

definition is_ascii :: "codepoint list \<Rightarrow> bool" where
  "is_ascii cs \<longleftrightarrow> list_all (\<lambda>b. b < 0x80) (as_bytes cs)"

definition to_le_bytes :: "nat \<Rightarrow> nat \<Rightarrow> u8 list" where
  "to_le_bytes width c = map (\<lambda>i. of_nat (c div 256 ^ i)) [0..<width]"

definition str_hash :: "codepoint list \<Rightarrow> int" where
  "str_hash cs =
     (if cs = [] then 0
      else if is_ascii cs then bytes_hash (as_bytes cs)
      else
        let mx = Max (set cs);
            buffer = (if mx < 0x100 then map of_nat cs
                      else if mx < 0x10000 then concat (map (to_le_bytes 2) cs)
                      else concat (map (to_le_bytes 4) cs))
        in bytes_hash buffer)"

section \<open>Integers and tuples\<close>

definition hash_bigint :: "int \<Rightarrow> int" where
  "hash_bigint v =
     (let modulus = 2 ^ 61 - 1;
          r = \<bar>v\<bar> mod modulus;
          reduced = (if isize_ok r then r else 0);
          reduced = (if v < 0 then wrap64 (- reduced) else reduced)
      in if reduced = - 1 then - 2 else reduced)"

definition normalize_hash :: "int \<Rightarrow> int" where
  "normalize_hash h = (if h = - 1 then - 2 else h)"

text \<open>The lanes are the element hashes; the first element that is not hashable ends the walk.\<close>

fun tuple_lanes :: "('a \<Rightarrow> message + int) \<Rightarrow> u64 \<Rightarrow> 'a list \<Rightarrow> message + u64" where
  "tuple_lanes py_hash acc [] = Inr acc"
| "tuple_lanes py_hash acc (x # xs) =
     bind_ok (py_hash x) (\<lambda>h.
       let lane = word_of_int h :: u64;
           acc = acc + lane * 0xc2b2ae3d27d4eb4f;
           acc = rotate_left 31 acc;
           acc = acc * 0x9e3779b185ebca87
       in tuple_lanes py_hash acc xs)"

definition tuple_hash_impl :: "('a \<Rightarrow> message + int) \<Rightarrow> 'a list \<Rightarrow> message + int" where
  "tuple_hash_impl py_hash xs =
     bind_ok (tuple_lanes py_hash 0x27d4eb2f165667c5 xs) (\<lambda>acc.
       let acc = acc + (of_nat (length xs) XOR (0x27d4eb2f165667c5 XOR 3527539));
           hash = sint acc
       in Inr (if hash = - 1 then 1546275796 else hash))"

section \<open>Test vectors\<close>

lemmas sip_unfold = siphash13_def absorb_def Let_def
lemma replicate_num: "replicate (numeral k) x = x # replicate (pred_numeral k) x"
  by (simp add: numeral_eq_Suc)

lemmas sip_eval = replicate_num absorb_def absorb_chunks.simps from_le_bytes_def rotate_left_def Let_def

lemma sip_ascii: "siphash13 0 0 [97] = 4644417185603328019"
  unfolding sip_unfold by (simp add: sip_eval)

lemma sip_ucs2: "siphash13 0 0 [0x94, 0x03] = 7175442150425155517"
  unfolding sip_unfold by (simp add: sip_eval)

lemma sip_ucs4: "siphash13 0 0 [0x00, 0xF6, 0x01, 0x00] = 14910203377632937772"
  unfolding sip_unfold by (simp add: sip_eval)

lemma sip_bytes: "siphash13 0 0 [98, 121, 116, 101, 115, 98, 121, 116, 101, 115] = 6638766145901805528"
  unfolding sip_unfold by (simp add: sip_eval)

section \<open>The canonical buffer\<close>

text \<open>PEP 393: the narrowest of one, two and four bytes that holds every code point, little-endian.\<close>

definition pep393_width :: "codepoint list \<Rightarrow> nat" where
  "pep393_width cs = (if \<forall>c \<in> set cs. c < 256 then 1 else if \<forall>c \<in> set cs. c < 65536 then 2 else 4)"

definition pep393_buffer :: "codepoint list \<Rightarrow> u8 list" where
  "pep393_buffer cs = concat (map (to_le_bytes (pep393_width cs)) cs)"

function pep393_decode :: "nat \<Rightarrow> u8 list \<Rightarrow> codepoint list" where
  "pep393_decode w bs =
     (if w = 0 \<or> length bs < w then [] else horner_sum unat 256 (take w bs) # pep393_decode w (drop w bs))"
  by pat_completeness auto
termination
  by (relation "measure (\<lambda>(_, bs). length bs)") auto

declare pep393_decode.simps [simp del]

lemma length_le_bytes [simp]: "length (to_le_bytes w c) = w"
  by (simp add: to_le_bytes_def)

lemma le_bytes_Suc: "to_le_bytes (Suc w) c = of_nat c # to_le_bytes w (c div 256)"
proof -
  have "[0..<Suc w] = 0 # map Suc [0..<w]" by (simp add: upt_conv_Cons map_Suc_upt del: upt_Suc)
  then show ?thesis by (simp add: to_le_bytes_def div_mult2_eq del: upt_Suc)
qed

lemma le_bytes_eval:
  "to_le_bytes (numeral k) c = of_nat c # to_le_bytes (pred_numeral k) (c div 256)" "to_le_bytes 0 c = []"
  "to_le_bytes (Suc w) c = of_nat c # to_le_bytes w (c div 256)"
  using le_bytes_Suc [of "pred_numeral k" c] le_bytes_Suc [of w c]
  by (simp_all only: numeral_eq_Suc) (simp add: to_le_bytes_def)

lemma le_bytes_value: "c < 256 ^ w \<Longrightarrow> horner_sum unat 256 (to_le_bytes w c) = c"
proof (induction w arbitrary: c)
  case (Suc w)
  have "c div 256 < 256 ^ w" using Suc.prems by (simp add: less_mult_imp_div_less mult.commute)
  then show ?case using Suc.IH by (simp add: le_bytes_Suc unat_of_nat)
qed (simp add: to_le_bytes_def)

lemma decode_buffer:
  assumes "0 < w" "\<forall>c \<in> set cs. c < 256 ^ w"
  shows "pep393_decode w (concat (map (to_le_bytes w) cs)) = cs"
  using assms(2) by (induction cs) (subst pep393_decode.simps; simp add: assms(1) le_bytes_value)+

lemma width_fits: "\<forall>c \<in> set cs. c < 0x110000 \<Longrightarrow> \<forall>c \<in> set cs. c < 256 ^ pep393_width cs"
  by (auto simp: pep393_width_def power2_eq_square)

lemma utf8_ascii: "is_ascii cs \<longleftrightarrow> (\<forall>c \<in> set cs. c < 128)" if "\<forall>c \<in> set cs. c < 0x110000"
proof -
  have "list_all (\<lambda>b. b < 0x80) (utf8_char c) \<longleftrightarrow> c < 128" if "c < 0x110000" for c
  proof (cases "c < 128")
    case True
    then show ?thesis by (simp add: word_less_nat_alt unat_of_nat)
  next
    case False
    have "\<not> (of_nat (0xC0 + c div 64) :: u8) < 0x80" if "c < 0x800"
      using that by (simp only: word_less_nat_alt unat_of_nat) simp
    moreover have "\<not> (of_nat (0xE0 + c div 4096) :: u8) < 0x80" if "c < 0x10000"
      using that by (simp only: word_less_nat_alt unat_of_nat) simp
    moreover have "\<not> (of_nat (0xF0 + c div 262144) :: u8) < 0x80"
      using \<open>c < 0x110000\<close> by (simp only: word_less_nat_alt unat_of_nat) simp
    ultimately show ?thesis using False
      by (simp only: utf8_char.simps if_False list.pred_inject split: if_split) blast
  qed
  then show ?thesis using that by (auto simp: is_ascii_def as_bytes_def list_all_iff simp del: utf8_char.simps)
qed

lemma le_bytes_1: "to_le_bytes 1 c = [of_nat c]"
  by (simp add: to_le_bytes_def)

lemma ascii_buffer: "\<forall>c \<in> set cs. c < 128 \<Longrightarrow> as_bytes cs = pep393_buffer cs"
  by (induction cs) (auto simp: as_bytes_def pep393_buffer_def pep393_width_def le_bytes_1 [simplified])

lemma str_hash_buffer:
  assumes "cs \<noteq> []" "\<forall>c \<in> set cs. c < 0x110000"
  shows "str_hash cs = bytes_hash (pep393_buffer cs)"
proof (cases "is_ascii cs")
  case True
  then show ?thesis using assms by (simp add: str_hash_def utf8_ascii ascii_buffer)
next
  case False
  have "map of_nat cs = concat (map (to_le_bytes 1) cs)" by (induction cs) (simp_all add: le_bytes_1 [simplified])
  then show ?thesis using assms False
    by (auto simp: str_hash_def pep393_buffer_def pep393_width_def Let_def Max_less_iff)
qed

lemma isize_ok_sint: "isize_ok (sint (w :: u64))"
  using sint_ge [of w] sint_lt [of w] by (simp add: isize_ok_def isize_min_def isize_max_def)

lemma bytes_hash_ok: "bytes_hash bs \<noteq> - 1" "isize_ok (bytes_hash bs)"
  using isize_ok_sint [of "siphash13 0 0 bs"]
  by (auto simp: bytes_hash_def Let_def isize_ok_def isize_min_def isize_max_def)

lemma str_hash_ok: "str_hash cs \<noteq> - 1" "isize_ok (str_hash cs)"
  by (auto simp: str_hash_def Let_def bytes_hash_ok)

lemma small_isize: "0 \<le> r \<Longrightarrow> r < 2 ^ 61 - 1 \<Longrightarrow> isize_ok r" "0 \<le> r \<Longrightarrow> r < 2 ^ 61 - 1 \<Longrightarrow> isize_ok (- r)"
  by (simp_all add: isize_ok_def isize_min_def isize_max_def)

lemma hash_bigint_eq:
  "hash_bigint v = (let r = sgn v * (\<bar>v\<bar> mod (2 ^ 61 - 1)) in if r = - 1 then - 2 else r)"
proof -
  let ?r = "\<bar>v\<bar> mod (2 ^ 61 - 1)"
  have "isize_ok ?r" "isize_ok (- ?r)" by (rule small_isize; simp)+
  then show ?thesis by (auto simp: hash_bigint_def Let_def sgn_if)
qed

lemma hash_bigint_ok: "hash_bigint v \<noteq> - 1" "isize_ok (hash_bigint v)"
proof -
  let ?r = "\<bar>v\<bar> mod (2 ^ 61 - 1)"
  have "isize_ok ?r" "isize_ok (- ?r)" by (rule small_isize; simp)+
  moreover have "isize_ok (- 2)" by (simp add: isize_ok_def isize_min_def isize_max_def)
  ultimately show "isize_ok (hash_bigint v)" by (auto simp: hash_bigint_eq Let_def sgn_if)
  show "hash_bigint v \<noteq> - 1" by (auto simp: hash_bigint_eq Let_def)
qed

lemma tuple_hash_ok: "tuple_hash_impl py_hash xs = Inr h \<Longrightarrow> h \<noteq> - 1 \<and> isize_ok h"
  using isize_ok_sint by (auto simp: tuple_hash_impl_def bind_ok_Inr_iff Let_def isize_ok_def isize_min_def isize_max_def split: if_splits)

section \<open>Properties\<close>

text \<open>
  No hash is the error sentinel: the hashes of bytes, strings, integers and tuples, and every slot
  result after normalisation, are \<open>isize\<close> values other than \<open>-1\<close>; and an integer hashes to itself
  reduced modulo the Mersenne prime \<open>2 ^ 61 - 1\<close> with its sign, \<open>-2\<close> standing for \<open>-1\<close>.
\<close>

theorem hash_avoids_sentinel:
  "bytes_hash bs \<noteq> - 1 \<and> isize_ok (bytes_hash bs) \<and> str_hash cs \<noteq> - 1 \<and> isize_ok (str_hash cs) \<and>
   hash_bigint v \<noteq> - 1 \<and> isize_ok (hash_bigint v) \<and> tuple_hash_impl py_hash xs \<noteq> Inr (- 1) \<and> normalize_hash h \<noteq> - 1 \<and>
   hash_bigint v = (let r = sgn v * (\<bar>v\<bar> mod (2 ^ 61 - 1)) in if r = - 1 then - 2 else r)"
  using bytes_hash_ok str_hash_ok hash_bigint_ok tuple_hash_ok [of py_hash xs "- 1"] hash_bigint_eq
  by (auto simp: normalize_hash_def)

text \<open>
  Strings hash their canonical buffer: a non-empty string of Unicode code points hashes as the bytes
  of its PEP 393 buffer, the narrowest of the three little-endian widths that holds every code point, and
  that buffer determines the string.  The in-place path for ASCII text, which hashes the UTF-8 bytes, is an
  instance of it.
\<close>

theorem str_hash_canonical:
  assumes "cs \<noteq> []" "\<forall>c \<in> set cs. c < 0x110000"
  shows "str_hash cs = bytes_hash (pep393_buffer cs) \<and> pep393_decode (pep393_width cs) (pep393_buffer cs) = cs"
  using str_hash_buffer [OF assms] decode_buffer [OF _ width_fits [OF assms(2)]]
  by (simp add: pep393_buffer_def) (simp add: pep393_width_def)

theorem str_hash_canonical_witness:
  "str_hash [0x394] = 7175442150425155517 \<and> str_hash [97] = 4644417185603328019 \<and> str_hash [0x1F600] = - 3536540696076613844"
proof (intro conjI)
  have b: "pep393_buffer [0x394] = [0x94, 0x03]" "pep393_buffer [97] = [97]" "pep393_buffer [0x1F600] = [0x00, 0xF6, 0x01, 0x00]"
    by (simp_all add: pep393_buffer_def pep393_width_def le_bytes_eval)
  show "str_hash [0x394] = 7175442150425155517"
    using str_hash_canonical [of "[0x394]"] by (simp add: b bytes_hash_def sip_ucs2)
  show "str_hash [97] = 4644417185603328019"
    using str_hash_canonical [of "[97]"] by (simp add: b bytes_hash_def sip_ascii)
  show "str_hash [0x1F600] = - 3536540696076613844"
    using str_hash_canonical [of "[0x1F600]"] by (simp add: b bytes_hash_def sip_ucs4)
qed

end
