(* ===== verification/Dict_Table.thy ===== *)
theory Dict_Table
  imports Py_Hash Seq_List
begin

text \<open>
  Dictionaries (\<open>pon-runtime/src/types/dict.rs\<close>): an insertion-ordered entry vector with an open-addressed
  table of entry indices over it.  Parameters stand for the object model around it: \<open>hash_object\<close>,
  \<open>object_equal_structural\<close> (\<open>None\<close> where a Python-level \<open>__eq__\<close> has to be dispatched), and
  \<open>dispatch_user_eq\<close>, which runs Python code and so may change the storage; it also tells whether the two
  allocations of the storage are still where they were, the part of \<open>storage_witness\<close> that is not a length.
  A dispatch may change the storage for ever, so the probe is a partial function: \<open>None\<close> does not return.
\<close>

section \<open>Storage\<close>

record dict_entry =
  e_key :: addr
  e_value :: addr
  e_hash :: int

record dict_storage =
  d_entries :: "dict_entry list"
  d_buckets :: "nat option list"

definition init_dict :: dict_storage where
  "init_dict = \<lparr>d_entries = [], d_buckets = []\<rparr>"

fun bit_len :: "nat \<Rightarrow> nat" where
  "bit_len n = (if n = 0 then 0 else Suc (bit_len (n div 2)))"

declare bit_len.simps [simp del]

definition next_power_of_two :: "nat \<Rightarrow> nat" where
  "next_power_of_two n = (if n \<le> 1 then 1 else 2 ^ bit_len (n - 1) mod 2 ^ 64)"

definition bucket_capacity :: "nat \<Rightarrow> nat" where
  "bucket_capacity len = next_power_of_two (max (min (len * 2) (2 ^ 64 - 1)) 8)"

definition bucket_index :: "int \<Rightarrow> nat \<Rightarrow> nat" where
  "bucket_index hash bucket_count = as_usize hash AND (bucket_count - 1)"

text \<open>The loop of \<open>insert_bucket\<close>, with the number of rounds left.\<close>

fun insert_loop :: "nat \<Rightarrow> nat \<Rightarrow> nat \<Rightarrow> nat option list \<Rightarrow> message + nat option list" where
  "insert_loop 0 bucket index buckets = Inl ''dict bucket table is full''"
| "insert_loop (Suc n) bucket index buckets =
     (if buckets ! bucket = None then Inr (buckets[bucket := Some index])
      else insert_loop n ((bucket + 1) AND (length buckets - 1)) index buckets)"

definition insert_bucket :: "nat option list \<Rightarrow> dict_entry list \<Rightarrow> nat \<Rightarrow> message + nat option list" where
  "insert_bucket buckets entries index =
     (if buckets = [] then Inl ''dict bucket table is empty''
      else insert_loop (length buckets) (bucket_index (e_hash (entries ! index)) (length buckets)) index buckets)"

fun insert_indices :: "nat list \<Rightarrow> dict_entry list \<Rightarrow> nat option list \<Rightarrow> message + nat option list" where
  "insert_indices [] entries buckets = Inr buckets"
| "insert_indices (i # is) entries buckets =
     bind_ok (insert_bucket buckets entries i) (\<lambda>buckets. insert_indices is entries buckets)"

definition rebuild_dict_buckets_with_capacity :: "dict_storage \<Rightarrow> nat \<Rightarrow> message + dict_storage" where
  "rebuild_dict_buckets_with_capacity d capacity =
     bind_ok (insert_indices [0..<length (d_entries d)] (d_entries d) (replicate capacity None)) (\<lambda>buckets.
       Inr (d\<lparr>d_buckets := buckets\<rparr>))"

definition rebuild_dict_buckets :: "dict_storage \<Rightarrow> message + dict_storage" where
  "rebuild_dict_buckets d = rebuild_dict_buckets_with_capacity d (bucket_capacity (length (d_entries d)))"

definition ensure_dict_buckets :: "dict_storage \<Rightarrow> message + dict_storage" where
  "ensure_dict_buckets d =
     (if length (d_buckets d) < bucket_capacity (length (d_entries d)) then rebuild_dict_buckets d else Inr d)"

definition sat_mul :: "nat \<Rightarrow> nat \<Rightarrow> nat" where
  "sat_mul a b = min (a * b) (2 ^ 64 - 1)"

definition ensure_dict_insert_capacity :: "dict_storage \<Rightarrow> message + dict_storage" where
  "ensure_dict_insert_capacity d =
     (let occupied_after_insert = min (length (d_entries d) + 1) (2 ^ 64 - 1) in
      if sat_mul occupied_after_insert 3 \<ge> sat_mul (length (d_buckets d)) 2
      then rebuild_dict_buckets_with_capacity d (bucket_capacity occupied_after_insert) else Inr d)"

section \<open>Lookup\<close>

datatype probe = Matched nat | ProbeFail fault | Unmatched "(nat \<times> addr) list"

fun probe_loop ::
  "(addr \<Rightarrow> addr \<Rightarrow> (message + bool) option) \<Rightarrow> dict_storage \<Rightarrow> addr \<Rightarrow> int \<Rightarrow> nat \<Rightarrow> nat \<Rightarrow> (nat \<times> addr) list \<Rightarrow> probe" where
  "probe_loop structural d key hash 0 bucket deferred = Unmatched deferred"
| "probe_loop structural d key hash (Suc n) bucket deferred =
     (case d_buckets d ! bucket of
        None \<Rightarrow> Unmatched deferred
      | Some index \<Rightarrow>
          if index \<ge> length (d_entries d) then ProbeFail Panicked
          else
            let entry = d_entries d ! index; nxt = (bucket + 1) AND (length (d_buckets d) - 1) in
            if e_hash entry = hash then
              (case structural (e_key entry) key of
                 Some (Inr True) \<Rightarrow> Matched index
               | Some (Inr False) \<Rightarrow> probe_loop structural d key hash n nxt deferred
               | Some (Inl m) \<Rightarrow> ProbeFail (Fail m)
               | None \<Rightarrow> probe_loop structural d key hash n nxt (deferred @ [(index, e_key entry)]))
            else probe_loop structural d key hash n nxt deferred)"

type_synonym dispatcher = "dict_storage \<Rightarrow> addr \<Rightarrow> addr \<Rightarrow> (message + bool) \<times> dict_storage \<times> bool"

datatype deferred_result = Found nat | Restart | Absent | DispatchFail message

fun deferred_loop ::
  "dispatcher \<Rightarrow> addr \<Rightarrow> nat \<times> nat \<Rightarrow> (nat \<times> addr) list \<Rightarrow> dict_storage \<Rightarrow> bool \<Rightarrow> deferred_result \<times> dict_storage" where
  "deferred_loop dispatch key witness [] d same = (Absent, d)"
| "deferred_loop dispatch key witness ((index, entry_key) # rest) d same =
     (case dispatch d entry_key key of
        (Inl m, d', s) \<Rightarrow> (DispatchFail m, d')
      | (Inr equal, d', s) \<Rightarrow>
          if equal then
            (if length (d_entries d') > index \<and> e_key (d_entries d' ! index) = entry_key then (Found index, d') else (Restart, d'))
          else if \<not> (same \<and> s) \<or> (length (d_entries d'), length (d_buckets d')) \<noteq> witness then (Restart, d')
          else deferred_loop dispatch key witness rest d' (same \<and> s))"

partial_function (option) find_entry_index ::
  "(addr \<Rightarrow> addr \<Rightarrow> (message + bool) option) \<Rightarrow> dispatcher \<Rightarrow> dict_storage \<Rightarrow> addr \<Rightarrow> int \<Rightarrow>
     ((fault + nat option) \<times> dict_storage) option" where
  "find_entry_index structural dispatch d key hash =
     (if d_buckets d = [] then Some (Inr None, d)
      else case probe_loop structural d key hash (length (d_buckets d)) (bucket_index hash (length (d_buckets d))) [] of
        Matched index \<Rightarrow> Some (Inr (Some index), d)
      | ProbeFail f \<Rightarrow> Some (Inl f, d)
      | Unmatched deferred \<Rightarrow>
          if deferred = [] then Some (Inr None, d)
          else (case deferred_loop dispatch key (length (d_entries d), length (d_buckets d)) deferred d True of
                  (Found index, d') \<Rightarrow> Some (Inr (Some index), d')
                | (Absent, d') \<Rightarrow> Some (Inr None, d')
                | (DispatchFail m, d') \<Rightarrow> Some (Inl (Fail m), d')
                | (Restart, d') \<Rightarrow> find_entry_index structural dispatch d' key hash))"

section \<open>Operations\<close>

text \<open>\<open>hash_dict_key\<close> rewords the message of an unhashable key; the type name is a parameter.\<close>

definition hash_dict_key :: "(addr \<Rightarrow> message + int) \<Rightarrow> (addr \<Rightarrow> string) \<Rightarrow> addr \<Rightarrow> message + int" where
  "hash_dict_key hash_object type_name key =
     (case hash_object key of
        Inr h \<Rightarrow> Inr h
      | Inl m \<Rightarrow>
          if prefix ''unhashable type'' m
          then Inl (''cannot use '' @ CHR 0x27 # type_name key @ CHR 0x27 # '' as a dict key ('' @ m @ '')'') else Inl m)"

record key_model =
  km_hash :: "addr \<Rightarrow> message + int"
  km_type_name :: "addr \<Rightarrow> string"
  km_structural :: "addr \<Rightarrow> addr \<Rightarrow> (message + bool) option"
  km_dispatch :: dispatcher

text \<open>The prologue every keyed operation shares: hash the key, size the table, probe.\<close>

definition locate_key :: "key_model \<Rightarrow> dict_storage \<Rightarrow> addr \<Rightarrow> ((fault + int \<times> nat option) \<times> dict_storage) option" where
  "locate_key km d key =
     (if key = 0 then Some (Inl (Fail ''dict key is NULL''), d)
      else case hash_dict_key (km_hash km) (km_type_name km) key of
        Inl m \<Rightarrow> Some (Inl (Fail m), d)
      | Inr hash \<Rightarrow>
          (case ensure_dict_buckets d of
             Inl m \<Rightarrow> Some (Inl (Fail m), d)
           | Inr d1 \<Rightarrow>
               map_option (\<lambda>(r, d2). (case r of Inl f \<Rightarrow> Inl f | Inr i \<Rightarrow> Inr (hash, i), d2))
                 (find_entry_index (km_structural km) (km_dispatch km) d1 key hash)))"

definition set_value :: "dict_storage \<Rightarrow> nat \<Rightarrow> addr \<Rightarrow> dict_storage" where
  "set_value d index v = d\<lparr>d_entries := (d_entries d)[index := (d_entries d ! index)\<lparr>e_value := v\<rparr>]\<rparr>"

definition push_entry :: "dict_storage \<Rightarrow> dict_entry \<Rightarrow> (fault + unit) \<times> dict_storage" where
  "push_entry d e =
     (case ensure_dict_insert_capacity d of
        Inl m \<Rightarrow> (Inl (Fail m), d)
      | Inr d1 \<Rightarrow>
          let index = length (d_entries d1); d2 = d1\<lparr>d_entries := d_entries d1 @ [e]\<rparr> in
          (case insert_bucket (d_buckets d2) (d_entries d2) index of
             Inl m \<Rightarrow> (Inl (Fail m), d2)
           | Inr buckets \<Rightarrow> (Inr (), d2\<lparr>d_buckets := buckets\<rparr>)))"

definition dict_insert :: "key_model \<Rightarrow> addr \<Rightarrow> addr \<Rightarrow> dict_storage \<Rightarrow> ((fault + unit) \<times> dict_storage) option" where
  "dict_insert km key v d =
     (if key = 0 then Some (Inl (Fail ''dict key is NULL''), d)
      else if v = 0 then Some (Inl (Fail ''dict value is NULL''), d)
      else map_option (\<lambda>(r, d1).
        case r of
          Inl f \<Rightarrow> (Inl f, d1)
        | Inr (hash, Some index) \<Rightarrow> (Inr (), set_value d1 index v)
        | Inr (hash, None) \<Rightarrow> push_entry d1 \<lparr>e_key = key, e_value = v, e_hash = hash\<rparr>) (locate_key km d key))"

definition dict_get :: "key_model \<Rightarrow> addr \<Rightarrow> dict_storage \<Rightarrow> ((fault + addr option) \<times> dict_storage) option" where
  "dict_get km key d =
     map_option (\<lambda>(r, d1).
       case r of
         Inl f \<Rightarrow> (Inl f, d1)
       | Inr (hash, i) \<Rightarrow> (Inr (map_option (\<lambda>i. e_value (d_entries d1 ! i)) i), d1)) (locate_key km d key)"

definition dict_contains :: "key_model \<Rightarrow> addr \<Rightarrow> dict_storage \<Rightarrow> ((fault + bool) \<times> dict_storage) option" where
  "dict_contains km key d =
     map_option (\<lambda>(r, d1). (case r of Inl f \<Rightarrow> Inl f | Inr v \<Rightarrow> Inr (v \<noteq> None), d1)) (dict_get km key d)"

text \<open>The entry is removed before the table is rebuilt, and stays removed if the rebuild fails.\<close>

definition rebuilt :: "'a \<Rightarrow> dict_storage \<Rightarrow> (fault + 'a) \<times> dict_storage" where
  "rebuilt a d = (case rebuild_dict_buckets d of Inl m \<Rightarrow> (Inl (Fail m), d) | Inr d' \<Rightarrow> (Inr a, d'))"

definition dict_remove :: "key_model \<Rightarrow> addr \<Rightarrow> dict_storage \<Rightarrow> ((fault + addr option) \<times> dict_storage) option" where
  "dict_remove km key d =
     map_option (\<lambda>(r, d1).
       case r of
         Inl f \<Rightarrow> (Inl f, d1)
       | Inr (hash, None) \<Rightarrow> (Inr None, d1)
       | Inr (hash, Some i) \<Rightarrow>
           rebuilt (Some (e_value (d_entries d1 ! i))) (d1\<lparr>d_entries := remove_at i (d_entries d1)\<rparr>)) (locate_key km d key)"

definition dict_pop_last :: "dict_storage \<Rightarrow> (fault + (addr \<times> addr) option) \<times> dict_storage" where
  "dict_pop_last d =
     (case vec_pop (d_entries d) of
        None \<Rightarrow> (Inr None, d)
      | Some (e, rest) \<Rightarrow> rebuilt (Some (e_key e, e_value e)) (d\<lparr>d_entries := rest\<rparr>))"

definition dict_clear :: "dict_storage \<Rightarrow> addr list \<times> dict_storage" where
  "dict_clear d = (map e_key (d_entries d), d\<lparr>d_entries := [], d_buckets := []\<rparr>)"

fun insert_entries :: "key_model \<Rightarrow> dict_entry list \<Rightarrow> dict_storage \<Rightarrow> ((fault + unit) \<times> dict_storage) option" where
  "insert_entries km [] d = Some (Inr (), d)"
| "insert_entries km (e # es) d =
     (case dict_insert km (e_key e) (e_value e) d of
        None \<Rightarrow> None
      | Some (Inl f, d') \<Rightarrow> Some (Inl f, d')
      | Some (Inr _, d') \<Rightarrow> insert_entries km es d')"

definition dict_merge_exact :: "key_model \<Rightarrow> dict_storage \<Rightarrow> dict_storage \<Rightarrow> ((fault + unit) \<times> dict_storage) option" where
  "dict_merge_exact km other d = insert_entries km (d_entries other) d"

text \<open>\<open>object_equal\<close> here is the full equality, which may run Python code but cannot reach these entries.\<close>

fun update_first :: "(addr \<Rightarrow> addr \<Rightarrow> message + bool) \<Rightarrow> addr \<Rightarrow> addr \<Rightarrow> int \<Rightarrow> dict_entry list \<Rightarrow> message + dict_entry list option" where
  "update_first object_equal key v hash [] = Inr None"
| "update_first object_equal key v hash (e # es) =
     bind_ok (if e_hash e = hash then object_equal (e_key e) key else Inr False) (\<lambda>eq.
       if eq then Inr (Some (e\<lparr>e_value := v\<rparr> # es))
       else bind_ok (update_first object_equal key v hash es) (\<lambda>r. Inr (map_option (Cons e) r)))"

definition collect_prehashed_entry ::
  "(addr \<Rightarrow> addr \<Rightarrow> message + bool) \<Rightarrow> key_model \<Rightarrow> addr \<Rightarrow> addr \<Rightarrow> dict_entry list \<Rightarrow> message + dict_entry list" where
  "collect_prehashed_entry object_equal km key v entries =
     (if key = 0 then Inl ''dict key is NULL''
      else if v = 0 then Inl ''dict value is NULL''
      else bind_ok (hash_dict_key (km_hash km) (km_type_name km) key) (\<lambda>hash.
        bind_ok (update_first object_equal key v hash entries) (\<lambda>r.
          case r of Some es \<Rightarrow> Inr es | None \<Rightarrow> Inr (entries @ [\<lparr>e_key = key, e_value = v, e_hash = hash\<rparr>]))))"

definition dict_fill_prehashed :: "dict_entry list \<Rightarrow> dict_storage \<Rightarrow> (fault + unit) \<times> dict_storage" where
  "dict_fill_prehashed entries d = rebuilt () (d\<lparr>d_entries := d_entries d @ entries\<rparr>)"

definition dict_len_slot :: "dict_storage \<Rightarrow> int" where
  "dict_len_slot d = (case isize_try_from (length (d_entries d)) of Some n \<Rightarrow> n | None \<Rightarrow> isize_max)"

section \<open>The index table\<close>

definition bucket_at :: "nat option list \<Rightarrow> nat \<Rightarrow> nat \<Rightarrow> nat option" where
  "bucket_at buckets home d = buckets ! ((home + d) mod length buckets)"

text \<open>An entry is reachable: some probe from its home finds it, and no earlier bucket is free.\<close>

definition reaches :: "nat option list \<Rightarrow> int \<Rightarrow> nat \<Rightarrow> bool" where
  "reaches buckets hash i \<longleftrightarrow>
     (\<exists>d < length buckets. bucket_at buckets (bucket_index hash (length buckets)) d = Some i \<and>
        (\<forall>c < d. bucket_at buckets (bucket_index hash (length buckets)) c \<noteq> None))"

definition occupied :: "nat option list \<Rightarrow> nat set" where
  "occupied buckets = {p. p < length buckets \<and> buckets ! p \<noteq> None}"

definition table_ok :: "nat \<Rightarrow> dict_entry list \<Rightarrow> nat option list \<Rightarrow> bool" where
  "table_ok n entries buckets \<longleftrightarrow>
     (\<exists>k. length buckets = 2 ^ k) \<and> card (occupied buckets) \<le> n \<and>
     (\<forall>i. Some i \<in> set buckets \<longrightarrow> i < n) \<and> (\<forall>i < n. reaches buckets (e_hash (entries ! i)) i)"

lemma and_pow: "(x :: nat) AND (2 ^ k - Suc 0) = x mod 2 ^ k"
  by (metis One_nat_def mask_eq_exp_minus_1 take_bit_eq_mask take_bit_eq_mod)

lemma bucket_index_lt: "length (bs :: nat option list) = 2 ^ k \<Longrightarrow> bucket_index h (length bs) < length bs"
  by (simp add: bucket_index_def and_pow)

lemma bucket_at_step:
  "length bs = 2 ^ k \<Longrightarrow> bucket_at bs ((b + 1) AND (length bs - 1)) d = bucket_at bs b (Suc d)"
  by (simp add: bucket_at_def and_pow mod_simps)

lemma bucket_at_0: "b < length bs \<Longrightarrow> bucket_at bs b 0 = bs ! b"
  by (simp add: bucket_at_def)

lemma insert_loop_ok:
  assumes "length bs = 2 ^ k" "b < length bs" "d < n" "bucket_at bs b d = None"
  shows "\<exists>d. d < n \<and> bucket_at bs b d = None \<and> (\<forall>c < d. bucket_at bs b c \<noteq> None) \<and>
    insert_loop n b i bs = Inr (bs[(b + d) mod length bs := Some i])"
  using assms
proof (induction n arbitrary: b d)
  case (Suc n)
  show ?case
  proof (cases "bs ! b = None")
    case True
    then show ?thesis using Suc.prems by (intro exI [of _ 0]) (simp add: bucket_at_def)
  next
    case False
    let ?b = "(b + 1) AND (length bs - 1)"
    have b: "?b < length bs" using Suc.prems by (simp add: and_pow)
    obtain d' where d: "d = Suc d'" using False Suc.prems by (cases d) (auto simp: bucket_at_def)
    have step: "bucket_at bs ?b e = bucket_at bs b (Suc e)" for e using Suc.prems(1) by (rule bucket_at_step)
    obtain e where e: "e < n" "bucket_at bs ?b e = None" "\<forall>c < e. bucket_at bs ?b c \<noteq> None"
      "insert_loop n ?b i bs = Inr (bs[(?b + e) mod length bs := Some i])"
      using Suc.IH [OF Suc.prems(1) b, of d'] Suc.prems d step by auto
    have "(?b + e) mod length bs = (b + Suc e) mod length bs" using Suc.prems(1) by (simp add: and_pow mod_simps)
    moreover have "\<forall>c < Suc e. bucket_at bs b c \<noteq> None"
      using e(3) step False Suc.prems(2) by (auto simp: less_Suc_eq_0_disj bucket_at_0)
    ultimately show ?thesis using e step False by (intro exI [of _ "Suc e"]) auto
  qed
qed simp

lemma finite_occupied [simp]: "finite (occupied bs)"
  by (simp add: occupied_def)

lemma free_bucket:
  assumes "card (occupied bs) < length bs" "b < length bs"
  shows "\<exists>d < length bs. bucket_at bs b d = None"
proof -
  have "\<not> {..<length bs} \<subseteq> occupied bs" using assms(1) card_mono [of "occupied bs" "{..<length bs}"] by auto
  then obtain p where p: "p < length bs" "bs ! p = None" unfolding occupied_def by blast
  have "(b + (p + length bs - b)) mod length bs = p" using assms(2) p by simp
  then have "bucket_at bs b ((p + length bs - b) mod length bs) = None"
    using p by (simp add: bucket_at_def mod_simps)
  moreover have "(p + length bs - b) mod length bs < length bs" using p(1) by (intro mod_less_divisor) linarith
  ultimately show ?thesis by blast
qed

lemma insert_bucket_ok:
  assumes ok: "table_ok n entries bs" and n: "n < length bs"
  shows "\<exists>bs'. insert_bucket bs entries n = Inr bs' \<and> length bs' = length bs \<and> table_ok (Suc n) entries bs'"
proof -
  obtain k where k: "length bs = 2 ^ k" using ok by (auto simp: table_ok_def)
  let ?h = "bucket_index (e_hash (entries ! n)) (length bs)"
  have h: "?h < length bs" using k by (rule bucket_index_lt)
  obtain f where "f < length bs" "bucket_at bs ?h f = None"
    using free_bucket [OF _ h] ok n by (auto simp: table_ok_def)
  then obtain d where d: "d < length bs" "bucket_at bs ?h d = None" "\<forall>c < d. bucket_at bs ?h c \<noteq> None"
    "insert_loop (length bs) ?h n bs = Inr (bs[(?h + d) mod length bs := Some n])"
    using insert_loop_ok [OF k h] by blast
  let ?p = "(?h + d) mod length bs"
  let ?bs = "bs[?p := Some n]"
  have p: "?p < length bs" "bs ! ?p = None" using d h by (simp_all add: bucket_at_def) (meson h le_less_trans mod_less_divisor zero_le)
  have at: "bucket_at ?bs b c = (if (b + c) mod length bs = ?p then Some n else bucket_at bs b c)" for b c
    using p by (auto simp: bucket_at_def nth_list_update)
  have occ: "occupied ?bs = insert ?p (occupied bs)" using p by (auto simp: occupied_def nth_list_update)
  have "reaches ?bs (e_hash (entries ! i)) i" if i: "i < n" for i
  proof -
    let ?hi = "bucket_index (e_hash (entries ! i)) (length bs)"
    obtain di where di: "di < length bs" "bucket_at bs ?hi di = Some i" "\<forall>c < di. bucket_at bs ?hi c \<noteq> None"
      using ok i unfolding table_ok_def reaches_def by blast
    have "(?hi + di) mod length bs \<noteq> ?p" using di(2) p by (auto simp: bucket_at_def)
    then show ?thesis unfolding reaches_def using di at by (intro exI [of _ di]) auto
  qed
  moreover have "reaches ?bs (e_hash (entries ! n)) n"
    unfolding reaches_def using d at by (intro exI [of _ d]) auto
  ultimately have "\<forall>i < Suc n. reaches ?bs (e_hash (entries ! i)) i" by (auto simp: less_Suc_eq)
  moreover have "\<forall>i. Some i \<in> set ?bs \<longrightarrow> i < Suc n"
    using ok set_update_subset_insert [of bs ?p "Some n"] by (fastforce simp: table_ok_def)
  moreover have "card (occupied ?bs) \<le> Suc n"
    using ok card_insert_le_m1 [of "Suc n" "occupied bs" ?p] by (simp add: occ table_ok_def)
  ultimately have "table_ok (Suc n) entries ?bs" using k by (auto simp: table_ok_def)
  then show ?thesis using d n by (intro exI [of _ ?bs]) (auto simp: insert_bucket_def)
qed

subsection \<open>Capacity\<close>

lemma bit_len_gt: "n < 2 ^ bit_len n"
proof (induction n rule: bit_len.induct)
  case (1 n)
  then show ?case by (cases "n = 0") (auto simp: bit_len.simps [of n])
qed

lemma bit_len_le: "0 < n \<Longrightarrow> 2 ^ bit_len n \<le> 2 * n"
proof (induction n rule: bit_len.induct)
  case (1 n)
  then show ?case by (cases "n = 1") (auto simp: bit_len.simps [of n] bit_len.simps [of 0] bit_len.simps [of "Suc 0"])
qed

text \<open>An entry takes 24 bytes, so a vector of them has fewer than \<open>2 ^ 60\<close>.\<close>

lemma bucket_capacity_ok:
  assumes "n \<le> 2 ^ 60"
  shows "\<exists>k. bucket_capacity n = 2 ^ k" "2 * n \<le> bucket_capacity n" "8 \<le> bucket_capacity n" "bucket_capacity n \<le> 2 ^ 62"
proof -
  let ?m = "max (min (n * 2) (2 ^ 64 - 1)) 8"
  have m: "?m = max (2 * n) 8" "8 \<le> ?m" "?m \<le> 2 ^ 61" using assms by auto
  have gt: "?m - 1 < 2 ^ bit_len (?m - 1)" by (rule bit_len_gt)
  have le: "2 ^ bit_len (?m - 1) \<le> 2 * (?m - 1)" using m(2) by (intro bit_len_le) linarith
  have "2 ^ bit_len (?m - 1) < (2 :: nat) ^ 64" using le m(3) by simp
  then have c: "bucket_capacity n = 2 ^ bit_len (?m - 1)"
    using m(2) by (simp only: bucket_capacity_def next_power_of_two_def) simp
  show "\<exists>k. bucket_capacity n = 2 ^ k" using c by blast
  have "2 * (?m - 1) \<le> (2 :: nat) ^ 62" using m(3) by simp
  then show "2 * n \<le> bucket_capacity n" "8 \<le> bucket_capacity n" "bucket_capacity n \<le> 2 ^ 62"
    unfolding c using gt le m(1,2) by linarith+
qed

lemma insert_indices_ok:
  assumes "table_ok n entries bs" "n + length is \<le> length bs" "is = [n..<n + length is]"
  shows "\<exists>bs'. insert_indices is entries bs = Inr bs' \<and> length bs' = length bs \<and> table_ok (n + length is) entries bs'"
  using assms
proof (induction "is" arbitrary: n bs)
  case (Cons i "is")
  have i: "i = n" "is = [Suc n..<Suc n + length is]" using Cons.prems(3) by (auto simp: upt_conv_Cons simp del: upt_Suc)
  obtain bs1 where b: "insert_bucket bs entries n = Inr bs1" "length bs1 = length bs" "table_ok (Suc n) entries bs1"
    using insert_bucket_ok [OF Cons.prems(1)] Cons.prems(2) by auto
  show ?case using Cons.IH [OF b(3) _ i(2)] Cons.prems(2) b i(1) by simp
qed simp

lemma table_empty: "length bs = 2 ^ k \<Longrightarrow> set bs \<subseteq> {None} \<Longrightarrow> table_ok 0 entries bs"
proof -
  assume bs: "length bs = 2 ^ k" "set bs \<subseteq> {None}"
  have "bs ! p = None" if "p < length bs" for p using bs(2) nth_mem [OF that] by blast
  then have "occupied bs = {}" by (auto simp: occupied_def)
  then show ?thesis using bs by (auto simp: table_ok_def)
qed

lemma rebuild_with_ok:
  assumes c: "c = 2 ^ k" "length (d_entries d) \<le> c"
  shows "\<exists>bs. rebuild_dict_buckets_with_capacity d c = Inr (d\<lparr>d_buckets := bs\<rparr>) \<and> length bs = c \<and>
    table_ok (length (d_entries d)) (d_entries d) bs"
proof -
  have "table_ok 0 (d_entries d) (replicate c None)" by (rule table_empty [of _ k]) (simp_all add: c)
  from insert_indices_ok [OF this, of "[0..<length (d_entries d)]"] c show ?thesis
    by (auto simp: rebuild_dict_buckets_with_capacity_def)
qed

section \<open>Well-formed dictionaries\<close>

definition keys_ok :: "(addr \<Rightarrow> int) \<Rightarrow> (addr \<Rightarrow> addr \<Rightarrow> bool) \<Rightarrow> addr set \<Rightarrow> dict_entry list \<Rightarrow> bool" where
  "keys_ok khash eq K entries \<longleftrightarrow>
     (\<forall>e \<in> set entries. e_key e \<in> K \<and> e_hash e = khash (e_key e) \<and> e_value e \<noteq> 0) \<and>
     sorted_wrt (\<lambda>a b. \<not> eq (e_key a) (e_key b)) entries"

definition index_ok :: "dict_storage \<Rightarrow> bool" where
  "index_ok d \<longleftrightarrow> d_buckets d = [] \<and> d_entries d = [] \<or>
     table_ok (length (d_entries d)) (d_entries d) (d_buckets d) \<and> length (d_entries d) < length (d_buckets d) \<and>
     length (d_buckets d) \<le> 2 ^ 62"

definition dict_wf :: "(addr \<Rightarrow> int) \<Rightarrow> (addr \<Rightarrow> addr \<Rightarrow> bool) \<Rightarrow> addr set \<Rightarrow> dict_storage \<Rightarrow> bool" where
  "dict_wf khash eq K d \<longleftrightarrow> keys_ok khash eq K (d_entries d) \<and> index_ok d"

lemma rebuild_ok:
  assumes "length (d_entries d) \<le> 2 ^ 60"
  shows "\<exists>bs. rebuild_dict_buckets d = Inr (d\<lparr>d_buckets := bs\<rparr>) \<and> index_ok (d\<lparr>d_buckets := bs\<rparr>) \<and> bs \<noteq> []"
proof -
  note c = bucket_capacity_ok [OF assms]
  obtain k where "bucket_capacity (length (d_entries d)) = 2 ^ k" using c(1) by blast
  from rebuild_with_ok [OF this, of d] c show ?thesis
    by (force simp: rebuild_dict_buckets_def index_ok_def)
qed

lemma ensure_buckets_ok:
  assumes "length (d_entries d) \<le> 2 ^ 60" "index_ok d"
  shows "\<exists>bs. ensure_dict_buckets d = Inr (d\<lparr>d_buckets := bs\<rparr>) \<and> index_ok (d\<lparr>d_buckets := bs\<rparr>) \<and> bs \<noteq> []"
proof (cases "length (d_buckets d) < bucket_capacity (length (d_entries d))")
  case True
  then show ?thesis using rebuild_ok [OF assms(1)] by (simp add: ensure_dict_buckets_def)
next
  case False
  then have "d_buckets d \<noteq> []" using bucket_capacity_ok(3) [OF assms(1)] by auto
  then show ?thesis using False assms by (intro exI [of _ "d_buckets d"]) (simp add: ensure_dict_buckets_def)
qed

lemma ensure_insert_ok:
  assumes "length (d_entries d) < 2 ^ 60" "index_ok d" "d_buckets d \<noteq> []"
  shows "\<exists>bs. ensure_dict_insert_capacity d = Inr (d\<lparr>d_buckets := bs\<rparr>) \<and>
    table_ok (length (d_entries d)) (d_entries d) bs \<and> Suc (length (d_entries d)) < length bs \<and> length bs \<le> 2 ^ 62"
proof -
  let ?n = "length (d_entries d)"
  have n: "min (?n + 1) (2 ^ 64 - 1) = Suc ?n" "sat_mul (Suc ?n) 3 = Suc ?n * 3" using assms(1) by (auto simp: sat_mul_def)
  have b: "length (d_buckets d) \<le> 2 ^ 62" using assms by (auto simp: index_ok_def)
  then have "sat_mul (length (d_buckets d)) 2 = length (d_buckets d) * 2" by (simp add: sat_mul_def)
  note e = n(2) this
  show ?thesis
  proof (cases "Suc ?n * 3 \<ge> length (d_buckets d) * 2")
    case True
    note c = bucket_capacity_ok [of "Suc ?n"]
    obtain k where k: "bucket_capacity (Suc ?n) = 2 ^ k" using c(1) assms(1) by auto
    have "Suc ?n < bucket_capacity (Suc ?n)" using c(2) assms(1) by auto
    then show ?thesis using rebuild_with_ok [OF k, of d] True c(4) assms(1) n(1) e
      by (auto simp: ensure_dict_insert_capacity_def Let_def)
  next
    case False
    then show ?thesis using assms b n(1) e
      by (intro exI [of _ "d_buckets d"]) (auto simp: ensure_dict_insert_capacity_def Let_def index_ok_def)
  qed
qed

section \<open>Probing\<close>

definition match :: "(addr \<Rightarrow> addr \<Rightarrow> bool) \<Rightarrow> dict_storage \<Rightarrow> addr \<Rightarrow> int \<Rightarrow> nat \<Rightarrow> bool" where
  "match eq d key hash i \<longleftrightarrow> i < length (d_entries d) \<and> e_hash (d_entries d ! i) = hash \<and> eq (e_key (d_entries d ! i)) key"

definition structural_on :: "(addr \<Rightarrow> addr \<Rightarrow> (message + bool) option) \<Rightarrow> (addr \<Rightarrow> addr \<Rightarrow> bool) \<Rightarrow> dict_storage \<Rightarrow> addr \<Rightarrow> bool" where
  "structural_on structural eq d key \<longleftrightarrow> (\<forall>e \<in> set (d_entries d). structural (e_key e) key = Some (Inr (eq (e_key e) key)))"

lemma probe_hit:
  assumes "length (d_buckets d) = 2 ^ k" "b < length (d_buckets d)" "\<forall>i. Some i \<in> set (d_buckets d) \<longrightarrow> i < length (d_entries d)"
    and "structural_on structural eq d key"
    and "c < n" "bucket_at (d_buckets d) b c = Some i" "match eq d key hash i" "\<forall>a < c. bucket_at (d_buckets d) b a \<noteq> None"
  shows "\<exists>j. probe_loop structural d key hash n b ds = Matched j \<and> match eq d key hash j"
  using assms
proof (induction n arbitrary: b c)
  case (Suc n)
  obtain j where j: "d_buckets d ! b = Some j" using Suc.prems by (cases c) (auto simp: bucket_at_def dest!: spec [of _ 0])
  then have jl: "j < length (d_entries d)" using Suc.prems(2,3) nth_mem by metis
  have st: "structural (e_key (d_entries d ! j)) key = Some (Inr (eq (e_key (d_entries d ! j)) key))"
    using Suc.prems(4) jl by (simp add: structural_on_def)
  show ?case
  proof (cases "match eq d key hash j")
    case True
    then show ?thesis using j jl st by (simp add: match_def)
  next
    case False
    then obtain c' where c: "c = Suc c'" using Suc.prems j by (cases c) (auto simp: bucket_at_0)
    let ?b = "(b + 1) AND (length (d_buckets d) - 1)"
    have step: "bucket_at (d_buckets d) ?b a = bucket_at (d_buckets d) b (Suc a)" for a
      using Suc.prems(1) by (rule bucket_at_step)
    have b: "?b < length (d_buckets d)" using Suc.prems(1) by (simp add: and_pow)
    have "\<exists>i. probe_loop structural d key hash n ?b ds = Matched i \<and> match eq d key hash i"
      using Suc.IH [OF Suc.prems(1) b Suc.prems(3,4), of c'] Suc.prems(5-8) c step by auto
    then show ?thesis using j jl st False by (auto simp: match_def Let_def)
  qed
qed simp

lemma probe_miss:
  assumes "length (d_buckets d) = 2 ^ k" "b < length (d_buckets d)" "\<forall>i. Some i \<in> set (d_buckets d) \<longrightarrow> i < length (d_entries d)"
    and "structural_on structural eq d key" and "\<forall>i. \<not> match eq d key hash i"
  shows "probe_loop structural d key hash n b ds = Unmatched ds"
  using assms
proof (induction n arbitrary: b)
  case (Suc n)
  let ?b = "(b + 1) AND (length (d_buckets d) - 1)"
  have b: "?b < length (d_buckets d)" using Suc.prems(1) by (simp add: and_pow)
  note ih = Suc.IH [OF Suc.prems(1) b Suc.prems(3-5)]
  show ?case
  proof (cases "d_buckets d ! b")
    case (Some j)
    then have jl: "j < length (d_entries d)" using Suc.prems(2,3) nth_mem by metis
    have "structural (e_key (d_entries d ! j)) key = Some (Inr (eq (e_key (d_entries d ! j)) key))"
      using Suc.prems(4) jl by (simp add: structural_on_def)
    then show ?thesis using Some jl ih Suc.prems(5) by (auto simp: match_def Let_def)
  qed simp
qed simp

lemma find_structural:
  assumes ok: "index_ok d" "d_buckets d \<noteq> []" and st: "structural_on structural eq d key"
  shows "(\<exists>j. match eq d key hash j \<and> find_entry_index structural dispatch d key hash = Some (Inr (Some j), d)) \<or>
    (\<forall>j. \<not> match eq d key hash j) \<and> find_entry_index structural dispatch d key hash = Some (Inr None, d)"
proof -
  have tab: "table_ok (length (d_entries d)) (d_entries d) (d_buckets d)" using ok by (auto simp: index_ok_def)
  obtain k where k: "length (d_buckets d) = 2 ^ k" using tab by (auto simp: table_ok_def)
  have idx: "\<forall>i. Some i \<in> set (d_buckets d) \<longrightarrow> i < length (d_entries d)" using tab by (simp add: table_ok_def)
  let ?b = "bucket_index hash (length (d_buckets d))"
  have b: "?b < length (d_buckets d)" using k by (rule bucket_index_lt)
  show ?thesis
  proof (cases "\<exists>i. match eq d key hash i")
    case True
    then obtain i where i: "match eq d key hash i" by blast
    then have "reaches (d_buckets d) hash i" using tab by (auto simp: table_ok_def match_def)
    then obtain c where "c < length (d_buckets d)" "bucket_at (d_buckets d) ?b c = Some i"
      "\<forall>a < c. bucket_at (d_buckets d) ?b a \<noteq> None" unfolding reaches_def by blast
    then show ?thesis
      using probe_hit [OF k b idx st, of c "length (d_buckets d)" i hash "[]"] i ok(2)
      by (subst (1) find_entry_index.simps) auto
  next
    case False
    then show ?thesis using probe_miss [OF k b idx st, of hash "length (d_buckets d)" "[]"] ok(2)
      by (subst (2) find_entry_index.simps) auto
  qed
qed

section \<open>The specification\<close>

text \<open>An insertion-ordered dictionary over a key equality: the reference the table refines.\<close>

type_synonym py_dict = "(addr \<times> addr) list"

definition dput :: "(addr \<Rightarrow> addr \<Rightarrow> bool) \<Rightarrow> addr \<Rightarrow> addr \<Rightarrow> py_dict \<Rightarrow> py_dict" where
  "dput eq k v xs =
     (if \<exists>p \<in> set xs. eq (fst p) k then map (\<lambda>p. if eq (fst p) k then (fst p, v) else p) xs else xs @ [(k, v)])"

definition dget :: "(addr \<Rightarrow> addr \<Rightarrow> bool) \<Rightarrow> addr \<Rightarrow> py_dict \<Rightarrow> addr option" where
  "dget eq k xs = map_option snd (List.find (\<lambda>p. eq (fst p) k) xs)"

definition ddel :: "(addr \<Rightarrow> addr \<Rightarrow> bool) \<Rightarrow> addr \<Rightarrow> py_dict \<Rightarrow> py_dict" where
  "ddel eq k xs = filter (\<lambda>p. \<not> eq (fst p) k) xs"

datatype dict_cmd = Put addr addr | Get addr | Remove addr | PopItem | ClearAll

datatype dict_reply = Done | Value "addr option" | Item "(addr \<times> addr) option" | Keys "addr list" | Faulted fault | Diverged

fun dspec :: "(addr \<Rightarrow> addr \<Rightarrow> bool) \<Rightarrow> dict_cmd \<Rightarrow> py_dict \<Rightarrow> (dict_reply \<times> py_dict) option" where
  "dspec eq (Put k v) xs = Some (Done, dput eq k v xs)"
| "dspec eq (Get k) xs = Some (Value (dget eq k xs), xs)"
| "dspec eq (Remove k) xs = Some (Value (dget eq k xs), ddel eq k xs)"
| "dspec eq PopItem xs = Some (Item (if xs = [] then None else Some (last xs)), butlast xs)"
| "dspec eq ClearAll xs = Some (Keys (map fst xs), [])"

text \<open>The commands run through the operations of the source.\<close>

definition reply_of :: "('a \<Rightarrow> dict_reply) \<Rightarrow> dict_storage \<Rightarrow> ((fault + 'a) \<times> dict_storage) option \<Rightarrow> dict_reply \<times> dict_storage" where
  "reply_of f d r = (case r of None \<Rightarrow> (Diverged, d) | Some (Inl e, d') \<Rightarrow> (Faulted e, d') | Some (Inr a, d') \<Rightarrow> (f a, d'))"

fun dict_run :: "key_model \<Rightarrow> dict_cmd \<Rightarrow> dict_storage \<Rightarrow> dict_reply \<times> dict_storage" where
  "dict_run km (Put k v) d = reply_of (\<lambda>_. Done) d (dict_insert km k v d)"
| "dict_run km (Get k) d = reply_of Value d (dict_get km k d)"
| "dict_run km (Remove k) d = reply_of Value d (dict_remove km k d)"
| "dict_run km PopItem d = reply_of Item d (Some (dict_pop_last d))"
| "dict_run km ClearAll d = (Keys (fst (dict_clear d)), snd (dict_clear d))"

definition items :: "dict_storage \<Rightarrow> py_dict" where
  "items d = map (\<lambda>e. (e_key e, e_value e)) (d_entries d)"

definition dict_pre :: "addr set \<Rightarrow> dict_cmd \<Rightarrow> dict_storage \<Rightarrow> bool" where
  "dict_pre K c d \<longleftrightarrow> length (d_entries d) < 2 ^ 60 \<and>
     (case c of Put k v \<Rightarrow> k \<in> K \<and> v \<noteq> 0 | Get k \<Rightarrow> k \<in> K | Remove k \<Rightarrow> k \<in> K | _ \<Rightarrow> True)"

lemma table_ok_hashes:
  assumes "table_ok n entries bs" "\<And>i. i < n \<Longrightarrow> e_hash (entries' ! i) = e_hash (entries ! i)"
  shows "table_ok n entries' bs"
  using assms by (auto simp: table_ok_def)

lemma filter_one:
  assumes "i < length xs" "P (xs ! i)" "\<And>j. j < length xs \<Longrightarrow> P (xs ! j) \<Longrightarrow> j = i"
  shows "filter (\<lambda>x. \<not> P x) xs = remove_at i xs" "List.find P xs = Some (xs ! i)"
    "map (\<lambda>x. if P x then f x else x) xs = xs[i := f (xs ! i)]"
proof -
  have t: "\<not> P x" if "x \<in> set (take i xs)" for x
  proof -
    obtain j where "j < i" "x = xs ! j" using \<open>x \<in> set (take i xs)\<close> by (auto simp: in_set_conv_nth)
    then show ?thesis using assms(1) assms(3) [of j] by auto
  qed
  have d: "\<not> P x" if "x \<in> set (drop (Suc i) xs)" for x
  proof -
    obtain j where "j < length (drop (Suc i) xs)" "x = drop (Suc i) xs ! j"
      using \<open>x \<in> set (drop (Suc i) xs)\<close> unfolding in_set_conv_nth by blast
    then have "Suc i + j < length xs" "x = xs ! (Suc i + j)" by auto
    then show ?thesis using assms(3) [of "Suc i + j"] by auto
  qed
  have s: "xs = take i xs @ xs ! i # drop (Suc i) xs" using assms(1) by (simp add: id_take_nth_drop)
  have "filter (\<lambda>x. \<not> P x) (take i xs) = take i xs" "filter (\<lambda>x. \<not> P x) (drop (Suc i) xs) = drop (Suc i) xs"
    using t d by (simp_all only: filter_id_conv) blast+
  then have "filter (\<lambda>x. \<not> P x) (take i xs @ xs ! i # drop (Suc i) xs) = remove_at i xs"
    using assms(2) by (simp add: remove_at_def)
  then show "filter (\<lambda>x. \<not> P x) xs = remove_at i xs" by (simp only: s [symmetric])
  show "List.find P xs = Some (xs ! i)"
    unfolding find_Some_iff using assms(1,2) assms(3) [of "_ :: nat"] by (metis less_trans nat_neq_iff)
  show "map (\<lambda>x. if P x then f x else x) xs = xs[i := f (xs ! i)]"
  proof (rule nth_equalityI)
    fix j
    assume j: "j < length (map (\<lambda>x. if P x then f x else x) xs)"
    then have "P (xs ! j) \<longleftrightarrow> j = i" using assms(2) assms(3) [of j] by auto
    then show "map (\<lambda>x. if P x then f x else x) xs ! j = xs[i := f (xs ! i)] ! j"
      using j by (simp add: nth_list_update)
  qed simp
qed

section \<open>Keys with a structural equality\<close>

text \<open>
  The contract a set of keys has to meet: hashing and equality answer without running Python code,
  equality is an equivalence, and equal keys hash alike, as the language requires.
\<close>

locale key_domain =
  fixes km :: key_model and khash :: "addr \<Rightarrow> int" and eq :: "addr \<Rightarrow> addr \<Rightarrow> bool" and K :: "addr set"
  assumes key_hash: "k \<in> K \<Longrightarrow> km_hash km k = Inr (khash k)"
    and key_structural: "a \<in> K \<Longrightarrow> b \<in> K \<Longrightarrow> km_structural km a b = Some (Inr (eq a b))"
    and key_live: "0 \<notin> K"
    and eq_refl: "a \<in> K \<Longrightarrow> eq a a"
    and eq_sym: "a \<in> K \<Longrightarrow> b \<in> K \<Longrightarrow> eq a b \<Longrightarrow> eq b a"
    and eq_trans: "a \<in> K \<Longrightarrow> b \<in> K \<Longrightarrow> c \<in> K \<Longrightarrow> eq a b \<Longrightarrow> eq b c \<Longrightarrow> eq a c"
    and eq_hash: "a \<in> K \<Longrightarrow> b \<in> K \<Longrightarrow> eq a b \<Longrightarrow> khash a = khash b"
begin

lemma key_nonnull: "k \<in> K \<Longrightarrow> k \<noteq> 0"
  using key_live by metis

lemma one_entry:
  assumes "keys_ok khash eq K es" "k \<in> K" "i < length es" "j < length es" "eq (e_key (es ! i)) k" "eq (e_key (es ! j)) k"
  shows "i = j"
proof (rule ccontr)
  assume "i \<noteq> j"
  have in_K: "e_key (es ! i) \<in> K" "e_key (es ! j) \<in> K" using assms by (auto simp: keys_ok_def)
  have "eq (e_key (es ! i)) (e_key (es ! j))" "eq (e_key (es ! j)) (e_key (es ! i))"
    using in_K assms(2,5,6) by (meson eq_sym eq_trans)+
  then show False using \<open>i \<noteq> j\<close> assms(1,3,4) unfolding keys_ok_def sorted_wrt_iff_nth_less
    by (metis linorder_neqE_nat)
qed

lemma locate_ok:
  assumes wf: "dict_wf khash eq K d" and k: "k \<in> K" and len: "length (d_entries d) < 2 ^ 60"
  shows "\<exists>bs r. locate_key km d k = Some (Inr (khash k, r), d\<lparr>d_buckets := bs\<rparr>) \<and> index_ok (d\<lparr>d_buckets := bs\<rparr>) \<and> bs \<noteq> [] \<and>
    (case r of Some i \<Rightarrow> i < length (d_entries d) \<and> eq (e_key (d_entries d ! i)) k
     | None \<Rightarrow> \<forall>e \<in> set (d_entries d). \<not> eq (e_key e) k)"
proof -
  have keys: "keys_ok khash eq K (d_entries d)" using wf by (simp add: dict_wf_def)
  obtain bs where bs: "ensure_dict_buckets d = Inr (d\<lparr>d_buckets := bs\<rparr>)" "index_ok (d\<lparr>d_buckets := bs\<rparr>)" "bs \<noteq> []"
    using ensure_buckets_ok [of d] wf len by (auto simp: dict_wf_def)
  let ?d = "d\<lparr>d_buckets := bs\<rparr>"
  have st: "structural_on (km_structural km) eq ?d k"
    using keys k by (auto simp: structural_on_def keys_ok_def intro!: key_structural)
  have m: "match eq ?d k (khash k) i \<longleftrightarrow> i < length (d_entries d) \<and> eq (e_key (d_entries d ! i)) k" for i
    using keys k by (auto simp: match_def keys_ok_def intro!: eq_hash)
  have h: "hash_dict_key (km_hash km) (km_type_name km) k = Inr (khash k)" "k \<noteq> 0"
    using key_hash [OF k] key_nonnull [OF k] by (simp_all add: hash_dict_key_def)
  have nb: "d_buckets ?d \<noteq> []" using bs(3) by simp
  consider j where "match eq ?d k (khash k) j" "find_entry_index (km_structural km) (km_dispatch km) ?d k (khash k) = Some (Inr (Some j), ?d)"
    | "\<forall>j. \<not> match eq ?d k (khash k) j" "find_entry_index (km_structural km) (km_dispatch km) ?d k (khash k) = Some (Inr None, ?d)"
    using find_structural [OF bs(2) nb st, of "khash k" "km_dispatch km"] by blast
  then show ?thesis
  proof cases
    case (1 j)
    then show ?thesis using bs h m
      by (intro exI [of _ bs] exI [of _ "Some j"]) (simp add: locate_key_def)
  next
    case 2
    then show ?thesis using bs h m
      by (intro exI [of _ bs] exI [of _ None]) (auto simp: locate_key_def in_set_conv_nth)
  qed
qed

lemma push_ok:
  assumes d: "index_ok d" "d_buckets d \<noteq> []" "length (d_entries d) < 2 ^ 60"
  shows "\<exists>bs. push_entry d e = (Inr (), \<lparr>d_entries = d_entries d @ [e], d_buckets = bs\<rparr>) \<and>
    index_ok \<lparr>d_entries = d_entries d @ [e], d_buckets = bs\<rparr>"
proof -
  let ?n = "length (d_entries d)"
  obtain bs where bs: "ensure_dict_insert_capacity d = Inr (d\<lparr>d_buckets := bs\<rparr>)"
    "table_ok ?n (d_entries d) bs" "Suc ?n < length bs" "length bs \<le> 2 ^ 62"
    using ensure_insert_ok [OF d(3,1,2)] by blast
  have "table_ok ?n (d_entries d @ [e]) bs" using bs(2) by (rule table_ok_hashes) (simp add: nth_append)
  then obtain bs' where bs': "insert_bucket bs (d_entries d @ [e]) ?n = Inr bs'" "length bs' = length bs"
    "table_ok (Suc ?n) (d_entries d @ [e]) bs'" using insert_bucket_ok bs(3) by (meson Suc_lessD)
  show ?thesis using bs bs' by (intro exI [of _ bs']) (simp add: push_entry_def index_ok_def)
qed

lemma entry_of:
  assumes wf: "keys_ok khash eq K es" and k: "k \<in> K" and i: "i < length es" "eq (e_key (es ! i)) k"
  shows "filter (\<lambda>p. \<not> eq (fst p) k) (map (\<lambda>e. (e_key e, e_value e)) es) = map (\<lambda>e. (e_key e, e_value e)) (remove_at i es)"
    and "List.find (\<lambda>p. eq (fst p) k) (map (\<lambda>e. (e_key e, e_value e)) es) = Some (e_key (es ! i), e_value (es ! i))"
    and "map (\<lambda>p. if eq (fst p) k then (fst p, v) else p) (map (\<lambda>e. (e_key e, e_value e)) es) =
      map (\<lambda>e. (e_key e, e_value e)) (es[i := (es ! i)\<lparr>e_value := v\<rparr>])"
proof -
  let ?f = "\<lambda>e. (e_key e, e_value e)"
  have i': "i < length (map ?f es)" "eq (fst (map ?f es ! i)) k" using i by simp_all
  have u: "j = i" if "j < length (map ?f es)" "eq (fst (map ?f es ! j)) k" for j
    using one_entry [OF wf k] i that by simp
  note one = filter_one [of i "map ?f es" "\<lambda>p. eq (fst p) k", OF i' u]
  show "filter (\<lambda>p. \<not> eq (fst p) k) (map ?f es) = map ?f (remove_at i es)" using one(1) by (simp add: remove_at_map)
  show "List.find (\<lambda>p. eq (fst p) k) (map ?f es) = Some (e_key (es ! i), e_value (es ! i))" using one(2) i by simp
  show "map (\<lambda>p. if eq (fst p) k then (fst p, v) else p) (map ?f es) = map ?f (es[i := (es ! i)\<lparr>e_value := v\<rparr>])"
    using one(3) [of "\<lambda>p. (fst p, v)"] i by (simp add: map_update)
qed

lemma keys_ok_update:
  assumes "keys_ok khash eq K es" "i < length es" "v \<noteq> 0"
  shows "keys_ok khash eq K (es[i := (es ! i)\<lparr>e_value := v\<rparr>])"
proof -
  let ?e = "(es ! i)\<lparr>e_value := v\<rparr>"
  have "e_key (es[i := ?e] ! j) = e_key (es ! j)" "e_hash (es[i := ?e] ! j) = e_hash (es ! j)" if "j < length es" for j
    using that by (cases "j = i"; simp)+
  moreover have "e_value x \<noteq> 0" if "x \<in> set (es[i := ?e])" for x
    using that assms set_update_subset_insert [of es i ?e] by (auto simp: keys_ok_def)
  ultimately show ?thesis using assms unfolding keys_ok_def sorted_wrt_iff_nth_less all_set_conv_all_nth
    by (simp add: in_set_conv_nth) metis
qed

lemma keys_ok_remove: "keys_ok khash eq K es \<Longrightarrow> keys_ok khash eq K (remove_at i es)"
  using sorted_wrt_remove_at [of _ es i] by (auto simp: keys_ok_def remove_at_def dest: in_set_takeD in_set_dropD)

lemma put_refines:
  assumes wf: "dict_wf khash eq K d" and pre: "dict_pre K (Put k v) d"
  shows "\<exists>d'. dict_run km (Put k v) d = (Done, d') \<and> dict_wf khash eq K d' \<and> items d' = dput eq k v (items d)"
proof -
  have k: "k \<in> K" "v \<noteq> 0" "k \<noteq> 0" "length (d_entries d) < 2 ^ 60" using pre key_nonnull by (auto simp: dict_pre_def)
  have keys: "keys_ok khash eq K (d_entries d)" using wf by (simp add: dict_wf_def)
  obtain bs r where l: "locate_key km d k = Some (Inr (khash k, r), d\<lparr>d_buckets := bs\<rparr>)" "index_ok (d\<lparr>d_buckets := bs\<rparr>)" "bs \<noteq> []"
    "case r of Some i \<Rightarrow> i < length (d_entries d) \<and> eq (e_key (d_entries d ! i)) k | None \<Rightarrow> \<forall>e \<in> set (d_entries d). \<not> eq (e_key e) k"
    using locate_ok [OF wf k(1,4)] by blast
  show ?thesis
  proof (cases r)
    case (Some i)
    then have i: "i < length (d_entries d)" "eq (e_key (d_entries d ! i)) k" using l by simp_all
    let ?es = "(d_entries d)[i := (d_entries d ! i)\<lparr>e_value := v\<rparr>]"
    let ?d = "d\<lparr>d_entries := ?es, d_buckets := bs\<rparr>"
    have run: "dict_run km (Put k v) d = (Done, ?d)"
      using k l Some by (simp add: dict_insert_def reply_of_def set_value_def)
    have "table_ok (length ?es) ?es bs"
      using l(2,3) i by (auto simp: index_ok_def nth_list_update intro: table_ok_hashes)
    then have "index_ok ?d" using l(2,3) by (simp add: index_ok_def)
    moreover have "keys_ok khash eq K ?es" using keys_ok_update [OF keys i(1) k(2)] .
    moreover have "items ?d = dput eq k v (items d)"
    proof -
      have "\<exists>p \<in> set (items d). eq (fst p) k" using i by (force simp: items_def)
      then show ?thesis using entry_of(3) [OF keys k(1) i, of v] by (simp add: items_def dput_def)
    qed
    ultimately show ?thesis using run by (intro exI [of _ ?d]) (simp add: dict_wf_def)
  next
    case None
    let ?e = "\<lparr>e_key = k, e_value = v, e_hash = khash k\<rparr>"
    obtain bs' where p: "push_entry (d\<lparr>d_buckets := bs\<rparr>) ?e = (Inr (), \<lparr>d_entries = d_entries d @ [?e], d_buckets = bs'\<rparr>)"
      "index_ok \<lparr>d_entries = d_entries d @ [?e], d_buckets = bs'\<rparr>" using push_ok [OF l(2), of ?e] l(3) k(4) by auto
    have run: "dict_run km (Put k v) d = (Done, \<lparr>d_entries = d_entries d @ [?e], d_buckets = bs'\<rparr>)"
      using k l None p by (simp add: dict_insert_def reply_of_def)
    have "keys_ok khash eq K (d_entries d @ [?e])"
      using keys k l(4) None by (auto simp: keys_ok_def sorted_wrt_append)
    moreover have "items \<lparr>d_entries = d_entries d @ [?e], d_buckets = bs'\<rparr> = dput eq k v (items d)"
      using l(4) None by (auto simp: items_def dput_def)
    ultimately show ?thesis using run p(2) by (intro exI) (auto simp: dict_wf_def)
  qed
qed

lemma get_refines:
  assumes wf: "dict_wf khash eq K d" and pre: "dict_pre K (Get k) d"
  shows "\<exists>d'. dict_run km (Get k) d = (Value (dget eq k (items d)), d') \<and> dict_wf khash eq K d' \<and> items d' = items d"
proof -
  have k: "k \<in> K" "length (d_entries d) < 2 ^ 60" using pre by (auto simp: dict_pre_def)
  have keys: "keys_ok khash eq K (d_entries d)" using wf by (simp add: dict_wf_def)
  obtain bs r where l: "locate_key km d k = Some (Inr (khash k, r), d\<lparr>d_buckets := bs\<rparr>)" "index_ok (d\<lparr>d_buckets := bs\<rparr>)" "bs \<noteq> []"
    "case r of Some i \<Rightarrow> i < length (d_entries d) \<and> eq (e_key (d_entries d ! i)) k | None \<Rightarrow> \<forall>e \<in> set (d_entries d). \<not> eq (e_key e) k"
    using locate_ok [OF wf k] by blast
  have v: "map_option (\<lambda>i. e_value (d_entries d ! i)) r = dget eq k (items d)"
  proof (cases r)
    case (Some i)
    then show ?thesis using l(4) entry_of(2) [OF keys k(1), of i] by (simp add: dget_def items_def)
  next
    case None
    then show ?thesis using l(4) by (auto simp: dget_def items_def find_None_iff)
  qed
  show ?thesis using l keys v
    by (intro exI [of _ "d\<lparr>d_buckets := bs\<rparr>"]) (simp add: dict_get_def reply_of_def dict_wf_def items_def)
qed

lemma rebuilt_ok:
  assumes "length es \<le> 2 ^ 60"
  shows "\<exists>bs. rebuilt a (d\<lparr>d_entries := es\<rparr>) = (Inr a, d\<lparr>d_entries := es, d_buckets := bs\<rparr>) \<and>
    index_ok (d\<lparr>d_entries := es, d_buckets := bs\<rparr>)"
  using rebuild_ok [of "d\<lparr>d_entries := es\<rparr>"] assms by (auto simp: rebuilt_def)

lemma remove_refines:
  assumes wf: "dict_wf khash eq K d" and pre: "dict_pre K (Remove k) d"
  shows "\<exists>d'. dict_run km (Remove k) d = (Value (dget eq k (items d)), d') \<and> dict_wf khash eq K d' \<and> items d' = ddel eq k (items d)"
proof -
  have k: "k \<in> K" "length (d_entries d) < 2 ^ 60" using pre by (auto simp: dict_pre_def)
  have keys: "keys_ok khash eq K (d_entries d)" using wf by (simp add: dict_wf_def)
  obtain bs r where l: "locate_key km d k = Some (Inr (khash k, r), d\<lparr>d_buckets := bs\<rparr>)" "index_ok (d\<lparr>d_buckets := bs\<rparr>)" "bs \<noteq> []"
    "case r of Some i \<Rightarrow> i < length (d_entries d) \<and> eq (e_key (d_entries d ! i)) k | None \<Rightarrow> \<forall>e \<in> set (d_entries d). \<not> eq (e_key e) k"
    using locate_ok [OF wf k] by blast
  show ?thesis
  proof (cases r)
    case (Some i)
    then have i: "i < length (d_entries d)" "eq (e_key (d_entries d ! i)) k" using l by simp_all
    let ?es = "remove_at i (d_entries d)"
    have "length ?es \<le> 2 ^ 60" using k(2) by (auto simp: remove_at_def)
    then obtain bs' where b: "rebuilt (Some (e_value (d_entries d ! i))) (d\<lparr>d_buckets := bs, d_entries := ?es\<rparr>) =
        (Inr (Some (e_value (d_entries d ! i))), d\<lparr>d_entries := ?es, d_buckets := bs'\<rparr>)"
      "index_ok (d\<lparr>d_entries := ?es, d_buckets := bs'\<rparr>)"
      using rebuilt_ok [of ?es _ "d\<lparr>d_buckets := bs\<rparr>"] by (cases d) force
    have run: "dict_run km (Remove k) d = (Value (dget eq k (items d)), d\<lparr>d_entries := ?es, d_buckets := bs'\<rparr>)"
      using l Some b(1) entry_of(2) [OF keys k(1) i] by (simp add: dict_remove_def reply_of_def dget_def items_def)
    show ?thesis using run b(2) keys_ok_remove [OF keys, of i] entry_of(1) [OF keys k(1) i]
      by (intro exI [of _ "d\<lparr>d_entries := ?es, d_buckets := bs'\<rparr>"]) (simp add: dict_wf_def items_def ddel_def)
  next
    case None
    then have n: "\<forall>e \<in> set (d_entries d). \<not> eq (e_key e) k" using l by simp
    have "dget eq k (items d) = None" "ddel eq k (items d) = items d"
      using n by (auto simp: dget_def ddel_def items_def find_None_iff filter_id_conv)
    then show ?thesis using l None keys
      by (intro exI [of _ "d\<lparr>d_buckets := bs\<rparr>"]) (simp add: dict_remove_def reply_of_def dict_wf_def items_def)
  qed
qed

lemma pop_refines:
  assumes wf: "dict_wf khash eq K d" and pre: "dict_pre K PopItem d"
  shows "\<exists>d'. dict_run km PopItem d = (Item (if items d = [] then None else Some (last (items d))), d') \<and>
    dict_wf khash eq K d' \<and> items d' = butlast (items d)"
proof (cases "d_entries d = []")
  case True
  then show ?thesis using wf by (intro exI [of _ d]) (simp add: dict_pop_last_def reply_of_def items_def)
next
  case False
  then obtain es e where es: "d_entries d = es @ [e]" by (metis rev_exhaust)
  have "length es \<le> 2 ^ 60" using pre es by (simp add: dict_pre_def)
  then obtain bs where b: "rebuilt (Some (e_key e, e_value e)) (d\<lparr>d_entries := es\<rparr>) =
      (Inr (Some (e_key e, e_value e)), d\<lparr>d_entries := es, d_buckets := bs\<rparr>)" "index_ok (d\<lparr>d_entries := es, d_buckets := bs\<rparr>)"
    using rebuilt_ok [of es "Some (e_key e, e_value e)" d] by blast
  have "keys_ok khash eq K es" using wf es by (auto simp: dict_wf_def keys_ok_def sorted_wrt_append)
  then show ?thesis using b es
    by (intro exI [of _ "d\<lparr>d_entries := es, d_buckets := bs\<rparr>"]) (simp add: dict_pop_last_def reply_of_def items_def dict_wf_def)
qed

lemma run_refines:
  assumes "dict_wf khash eq K d" "dict_pre K c d"
  shows "\<exists>r d'. dict_run km c d = (r, d') \<and> dict_wf khash eq K d' \<and> dspec eq c (items d) = Some (r, items d')"
proof (cases c)
  case (Put k v)
  then show ?thesis using put_refines [of d k v] assms by auto
next
  case (Get k)
  then show ?thesis using get_refines [of d k] assms by auto
next
  case (Remove k)
  then show ?thesis using remove_refines [of d k] assms by auto
next
  case PopItem
  then show ?thesis using pop_refines [of d] assms by auto
next
  case ClearAll
  then show ?thesis by (simp add: dict_clear_def items_def dict_wf_def keys_ok_def index_ok_def)
qed

end

section \<open>The keys of the runtime\<close>

text \<open>
  What the structural arms of \<open>hash_object\<close> and \<open>object_equal_structural\<close> see of an object: its integer
  payload (booleans included), its text, its bytes, the elements of a tuple, or nothing but its identity.
\<close>

datatype py_key = KInt int | KStr "codepoint list" | KBytes "u8 list" | KTuple "py_key list" | KObj addr

fun tuple_mix :: "nat \<Rightarrow> u64 \<Rightarrow> u64 \<Rightarrow> int list \<Rightarrow> u64" where
  "tuple_mix n hash mult [] = hash"
| "tuple_mix n hash mult (h # hs) =
     tuple_mix n ((hash XOR word_of_int h) * mult) (mult + (82520 + 2 * of_nat n)) hs"

definition structural_tuple_hash :: "int list \<Rightarrow> int" where
  "structural_tuple_hash hs = sint (tuple_mix (length hs) 0x345678 1000003 hs + 97531)"

fun hash_key :: "py_key \<Rightarrow> int" where
  "hash_key (KInt v) = normalize_hash (hash_bigint v)"
| "hash_key (KStr cs) = normalize_hash (str_hash cs)"
| "hash_key (KBytes bs) = normalize_hash (bytes_hash bs)"
| "hash_key (KTuple ks) = normalize_hash (structural_tuple_hash (map hash_key ks))"
| "hash_key (KObj a) = normalize_hash (wrap64 (int a))"

function key_equal :: "py_key \<Rightarrow> py_key \<Rightarrow> bool" where
  "key_equal (KInt m) k = (case k of KInt n \<Rightarrow> m = n | _ \<Rightarrow> False)"
| "key_equal (KStr cs) k = (case k of KStr ds \<Rightarrow> cs = ds | _ \<Rightarrow> False)"
| "key_equal (KBytes bs) k = (case k of KBytes cs \<Rightarrow> bs = cs | _ \<Rightarrow> False)"
| "key_equal (KTuple xs) k =
     (case k of KTuple ys \<Rightarrow> length xs = length ys \<and> list_all (\<lambda>(x, y). key_equal x y) (zip xs ys) | _ \<Rightarrow> False)"
| "key_equal (KObj a) k = (case k of KObj b \<Rightarrow> a = b | _ \<Rightarrow> False)"

  by pat_completeness auto
termination
proof (relation "measure (\<lambda>(k, _). size k)", goal_cases)
  case (2 xs k ys z x y)
  then have "x \<in> set xs" by (metis set_zip_leftD)
  then show ?case by (simp add: less_Suc_eq_le size_list_estimation')
qed simp

lemma key_equal_iff: "key_equal a b \<longleftrightarrow> a = b"
proof (induction a arbitrary: b)
  case (KTuple xs)
  have "list_all (\<lambda>(x, y). key_equal x y) (zip xs ys) \<longleftrightarrow> xs = ys" if "length xs = length ys" for ys
    using that KTuple by (induction xs ys rule: list_induct2) auto
  then show ?case by (cases b) auto
qed (auto split: py_key.splits)

text \<open>\<open>object_equal_structural\<close> on objects without a user-level \<open>__eq__\<close>; \<open>view\<close> reads an object.\<close>

definition object_equal_structural :: "(addr \<Rightarrow> py_key) \<Rightarrow> addr \<Rightarrow> addr \<Rightarrow> (message + bool) option" where
  "object_equal_structural view l r =
     (if l = r then Some (Inr True)
      else if l = 0 \<or> r = 0 then Some (Inr False)
      else Some (Inr (key_equal (view l) (view r))))"

definition hash_object :: "(addr \<Rightarrow> py_key) \<Rightarrow> addr \<Rightarrow> message + int" where
  "hash_object view a = (if a = 0 then Inl ''cannot hash NULL object'' else Inr (hash_key (view a)))"

definition runtime_keys :: "(addr \<Rightarrow> py_key) \<Rightarrow> (addr \<Rightarrow> string) \<Rightarrow> dispatcher \<Rightarrow> key_model" where
  "runtime_keys view type_name dispatch =
     \<lparr>km_hash = hash_object view, km_type_name = type_name, km_structural = object_equal_structural view, km_dispatch = dispatch\<rparr>"

definition view_eq :: "(addr \<Rightarrow> py_key) \<Rightarrow> addr \<Rightarrow> addr \<Rightarrow> bool" where
  "view_eq view a b \<longleftrightarrow> view a = view b"

interpretation runtime: key_domain "runtime_keys view type_name dispatch" "\<lambda>a. hash_key (view a)" "view_eq view" "- {0}"
  for view type_name dispatch
  by unfold_locales
    (auto simp: runtime_keys_def hash_object_def object_equal_structural_def view_eq_def key_equal_iff)

abbreviation runtime_dict_wf :: "(addr \<Rightarrow> py_key) \<Rightarrow> dict_storage \<Rightarrow> bool" where
  "runtime_dict_wf view \<equiv> dict_wf (\<lambda>a. hash_key (view a)) (view_eq view) (- {0})"

definition dict_failed :: "dict_reply \<Rightarrow> bool" where
  "dict_failed r \<longleftrightarrow> r = Diverged \<or> (\<exists>f. r = Faulted f)"

interpretation py_dict: refined_object "runtime_dict_wf view" items "dict_run (runtime_keys view type_name dispatch)"
    "dspec (view_eq view)" dict_failed "dict_pre (- {0})" for view type_name dispatch
proof
  fix d c
  assume "runtime_dict_wf view d" "dict_pre (- {0}) c d"
  note r = runtime.run_refines [OF this, of type_name dispatch]
  show "runtime_dict_wf view (snd (dict_run (runtime_keys view type_name dispatch) c d))" using r by auto
  show "dspec (view_eq view) c (items d) =
      Some (fst (dict_run (runtime_keys view type_name dispatch) c d), items (snd (dict_run (runtime_keys view type_name dispatch) c d)))"
    using r by auto
  show "items (snd (dict_run (runtime_keys view type_name dispatch) c d)) = items d"
    if "dict_failed (fst (dict_run (runtime_keys view type_name dispatch) c d))"
    using r that by (cases c) (auto simp: dict_failed_def)
qed

section \<open>Properties\<close>

text \<open>
  C2.  The hash table refines an insertion-ordered dictionary.  On a well-formed dictionary of fewer than
  \<open>2 ^ 60\<close> entries, with keys whose hash and equality are structural (integers, strings, bytes, tuples of
  them, plain objects), every insertion, lookup, removal, \<open>popitem\<close> and \<open>clear\<close> returns, does not fail, and
  leaves a well-formed dictionary; its reply and its items in order are those of the specification:
  updating keeps the position and the first key, a new key goes to the end.
\<close>

theorem dict_op_refines:
  assumes "runtime_dict_wf view d" "dict_pre (- {0}) c d"
  shows "\<exists>r d'. dict_run (runtime_keys view type_name dispatch) c d = (r, d') \<and> runtime_dict_wf view d' \<and>
    dspec (view_eq view) c (items d) = Some (r, items d') \<and> \<not> dict_failed r"
proof -
  obtain r d' where r: "dict_run (runtime_keys view type_name dispatch) c d = (r, d')" "runtime_dict_wf view d'"
    "dspec (view_eq view) c (items d) = Some (r, items d')" using runtime.run_refines [OF assms] by blast
  moreover have "\<not> dict_failed r" using r(3) by (cases c) (auto simp: dict_failed_def)
  ultimately show ?thesis by blast
qed

theorem dict_op_refines_witness:
  "\<exists>r d'. dict_run (runtime_keys (\<lambda>a. KInt (int a div 16)) (\<lambda>_. ''int'') (\<lambda>d _ _. (Inr False, d, True))) (Put 17 8) init_dict = (r, d') \<and>
     items d' = [(17, 8)]"
proof -
  have "runtime_dict_wf (\<lambda>a. KInt (int a div 16)) init_dict" "dict_pre (- {0}) (Put 17 8) init_dict"
    by (simp_all add: dict_wf_def keys_ok_def index_ok_def init_dict_def dict_pre_def)
  from dict_op_refines [OF this, of "\<lambda>_. ''int''" "\<lambda>d _ _. (Inr False, d, True)"] show ?thesis
    by (auto simp: items_def init_dict_def dput_def simp del: dict_run.simps)
qed

text \<open>
  A whole session on a dictionary that starts empty: whatever commands ran, the table is well-formed
  and the replies and the items are those of the insertion-ordered specification.
\<close>

theorem dict_session_refines:
  assumes "session_ok (dict_run (runtime_keys view type_name dispatch)) (dict_pre (- {0})) cs init_dict"
  shows "runtime_dict_wf view (snd (session (dict_run (runtime_keys view type_name dispatch)) cs init_dict)) \<and>
    accepts (dspec (view_eq view)) dict_failed cs (fst (session (dict_run (runtime_keys view type_name dispatch)) cs init_dict)) []
      (items (snd (session (dict_run (runtime_keys view type_name dispatch)) cs init_dict)))"
proof -
  have "runtime_dict_wf view init_dict" by (simp add: dict_wf_def keys_ok_def index_ok_def init_dict_def)
  from py_dict.session_refines [OF this assms] show ?thesis by (simp add: items_def init_dict_def)
qed

theorem dict_session_refines_witness:
  "runtime_dict_wf KObj (snd (session (dict_run (runtime_keys KObj (\<lambda>_. ''object'') (\<lambda>d _ _. (Inr False, d, True)))) [ClearAll, PopItem] init_dict))"
proof -
  have "session_ok (dict_run (runtime_keys KObj (\<lambda>_. ''object'') (\<lambda>d _ _. (Inr False, d, True)))) (dict_pre (- {0})) [ClearAll, PopItem] init_dict"
    by (simp add: dict_pre_def init_dict_def dict_clear_def)
  from dict_session_refines [OF this] show ?thesis by (rule conjunct1)
qed

end
