(* ===== verification/Spill_Window.thy ===== *)
theory Spill_Window
  imports Temp_Spill
begin

text \<open>
  The windows the code generator emits from a spill plan, \<^verbatim>\<open>emit_inst_window\<close>,
  \<^verbatim>\<open>emit_term_window\<close> and \<^verbatim>\<open>emit_window\<close> of
  \<^verbatim>\<open>pon-codegen/src/baseline/spill.rs\<close>.  The values lowered so far and the test for a
  pointer-sized value belong to the code generator's library and are arguments.
\<close>

section \<open>Emission\<close>

datatype 'c pool_store = StoreValue 'c nat | StoreZero nat

text \<open>The stores of the values, or nothing when the pool is indexed past its end.\<close>

fun store_values ::
  "(value_id \<rightharpoonup> 'c) \<Rightarrow> ('c \<Rightarrow> bool) \<Rightarrow> nat \<Rightarrow> value_id list \<Rightarrow> nat \<Rightarrow> ('c pool_store list \<times> nat) option" where
  "store_values lowered boxed pool [] next = Some ([], next)"
| "store_values lowered boxed pool (v # vs) next =
     (case lowered v of
        None \<Rightarrow> store_values lowered boxed pool vs next
      | Some c \<Rightarrow>
          if \<not> boxed c then store_values lowered boxed pool vs next
          else if next < pool
          then map_option (\<lambda>(stores, n). (StoreValue c next # stores, n)) (store_values lowered boxed pool vs (Suc next))
          else None)"

definition emit_window ::
  "(value_id \<rightharpoonup> 'c) \<Rightarrow> ('c \<Rightarrow> bool) \<Rightarrow> temp_spill_plan \<Rightarrow> value_id list \<Rightarrow> 'c pool_store list option" where
  "emit_window lowered boxed plan vs =
     map_option (\<lambda>(stores, next). stores @ map StoreZero [next..<pool_size plan])
       (store_values lowered boxed (pool_size plan) vs 0)"

definition emit_inst_window ::
  "(value_id \<rightharpoonup> 'c) \<Rightarrow> ('c \<Rightarrow> bool) \<Rightarrow> temp_spill_plan \<Rightarrow> block_id \<Rightarrow> nat \<Rightarrow> 'c pool_store list option" where
  "emit_inst_window lowered boxed plan b n =
     (case map_of (inst_spills plan) (b, n) of None \<Rightarrow> Some [] | Some vs \<Rightarrow> emit_window lowered boxed plan vs)"

definition emit_term_window ::
  "(value_id \<rightharpoonup> 'c) \<Rightarrow> ('c \<Rightarrow> bool) \<Rightarrow> temp_spill_plan \<Rightarrow> block_id \<Rightarrow> 'c pool_store list option" where
  "emit_term_window lowered boxed plan b =
     (case map_of (term_spills plan) b of None \<Rightarrow> Some [] | Some vs \<Rightarrow> emit_window lowered boxed plan vs)"

section \<open>What the pool holds after a window\<close>

text \<open>A pool slot holds a pointer or zero; running a window overwrites every slot.\<close>

fun run_store :: "'c pool_store \<Rightarrow> 'c option list \<Rightarrow> 'c option list" where
  "run_store (StoreValue c i) pool = pool[i := Some c]"
| "run_store (StoreZero i) pool = pool[i := None]"

definition held_values :: "(value_id \<rightharpoonup> 'c) \<Rightarrow> ('c \<Rightarrow> bool) \<Rightarrow> value_id list \<Rightarrow> 'c list" where
  "held_values lowered boxed vs = filter boxed (List.map_filter lowered vs)"

definition pool_after :: "(value_id \<rightharpoonup> 'c) \<Rightarrow> ('c \<Rightarrow> bool) \<Rightarrow> nat \<Rightarrow> value_id set \<Rightarrow> 'c option list" where
  "pool_after lowered boxed pool V =
     (let held = held_values lowered boxed (sorted_list_of_set V)
      in map Some held @ replicate (pool - length held) None)"

lemma held_values_simps [simp]:
  "held_values lowered boxed [] = []"
  "held_values lowered boxed (v # vs) =
     (case lowered v of None \<Rightarrow> held_values lowered boxed vs
      | Some c \<Rightarrow> if boxed c then c # held_values lowered boxed vs else held_values lowered boxed vs)"
  by (simp_all add: held_values_def List.map_filter_simps split: option.splits)

lemma held_values_length: "length (held_values lowered boxed vs) \<le> length vs"
  by (induction vs) (auto split: option.splits)

lemma store_values_run:
  assumes "next + length (held_values lowered boxed vs) \<le> length pool"
  shows "\<exists>stores. store_values lowered boxed (length pool) vs next =
      Some (stores, next + length (held_values lowered boxed vs)) \<and>
    fold run_store stores pool =
      take next pool @ map Some (held_values lowered boxed vs) @ drop (next + length (held_values lowered boxed vs)) pool"
  using assms
proof (induction vs arbitrary: "next" pool)
  case (Cons v vs)
  show ?case
  proof (cases "\<exists>c. lowered v = Some c \<and> boxed c")
    case False
    then show ?thesis using Cons by (auto split: option.splits)
  next
    case True
    then obtain c where c: "lowered v = Some c" "boxed c" by blast
    then have room: "next < length pool" using Cons.prems by simp
    from Cons.IH [of "Suc next" "pool[next := Some c]"] Cons.prems c
    obtain stores where "store_values lowered boxed (length pool) vs (Suc next) =
        Some (stores, Suc next + length (held_values lowered boxed vs))"
      "fold run_store stores (pool[next := Some c]) = take (Suc next) (pool[next := Some c]) @
        map Some (held_values lowered boxed vs) @ drop (Suc next + length (held_values lowered boxed vs)) (pool[next := Some c])"
      by auto
    with c room show ?thesis by (auto simp: take_Suc_conv_app_nth)
  qed
qed auto

lemma run_zeros: "fold run_store (map StoreZero [n..<length pool]) pool = take n pool @ replicate (length pool - n) None"
proof (induction "length pool - n" arbitrary: n pool)
  case (Suc d)
  then have n: "n < length pool" by simp
  have "fold run_store (map StoreZero [n..<length pool]) pool =
      fold run_store (map StoreZero [Suc n..<length (pool[n := None])]) (pool[n := None])"
    using n by (simp add: upt_conv_Cons)
  also have "\<dots> = take (Suc n) (pool[n := None]) @ replicate (length pool - Suc n) None"
    using Suc.hyps(1) [of "pool[n := None]" "Suc n"] Suc.hyps(2) by simp
  finally show ?case
    using n by (simp add: take_Suc_conv_app_nth Suc_diff_Suc [symmetric])
qed simp

lemma emit_window_run:
  assumes "finite V" "card V \<le> pool_size plan" "length pool = pool_size plan"
  shows "\<exists>stores. emit_window lowered boxed plan (sorted_list_of_set V) = Some stores \<and>
    fold run_store stores pool = pool_after lowered boxed (pool_size plan) V"
proof -
  let ?held = "held_values lowered boxed (sorted_list_of_set V)"
  have fits: "length ?held \<le> length pool"
    using held_values_length [of lowered boxed "sorted_list_of_set V"] assms by simp
  then obtain stores where stores: "store_values lowered boxed (pool_size plan) (sorted_list_of_set V) 0 = Some (stores, length ?held)"
    "fold run_store stores pool = map Some ?held @ drop (length ?held) pool"
    using store_values_run [of 0 lowered boxed "sorted_list_of_set V" pool] assms(3) by auto
  then show ?thesis
    using run_zeros [of "length ?held" "map Some ?held @ drop (length ?held) pool"] fits assms(3)
    by (simp add: emit_window_def pool_after_def Let_def)
qed



end
