(* ===== verification/Struct_Format.thy ===== *)
theory Struct_Format
  imports Pon_Prelude
begin

text \<open>
  The binary-structure engine of \<^verbatim>\<open>pon-runtime/src/native/struct_.rs\<close>: format strings, packing,
  unpacking and the module entry points.  A format is its list of bytes, here characters; the byte
  order of the host is the argument \<open>host_little\<close> and the C types have their LP64 sizes.  The
  conversions between IEEE formats, the conversion of a big integer to a float and the truth value of
  an object are the fields of \<open>py_ops\<close>.
\<close>

section \<open>Values and errors\<close>

datatype struct_value =
    VInt int | VBool bool | VFloat u64 | VComplex u64 u64
  | VBytes "u8 list" | VByteArray "u8 list" | VView "u8 list" bool
  | VText string | VNone | VObject addr

datatype field_kind = KPad | KSigned | KUnsigned | KBool | KChar | KStr | KPascal | KFloat | KComplex

record field_item =
  it_code :: char
  it_kind :: field_kind
  it_count :: nat
  it_size :: nat
  pad_before :: nat

record struct_format =
  little :: bool
  fmt_items :: "field_item list"
  fmt_size :: nat
  arg_count :: nat

datatype struct_error =
    StructError string
  | OutOfRange field_item
  | WrongCount nat nat
  | BadOffset int nat
  | BufferTooSmall nat nat nat
  | WrongSize nat
  | NotMultiple nat nat
  | TypeErr string
  | OverflowErr string
  | TruthFailed
  | StopIter
  | Panic

record py_ops =
  truth :: "struct_value \<Rightarrow> bool option"
  int_to_f64 :: "int \<Rightarrow> u64 option"
  f64_to_f32 :: "u64 \<Rightarrow> u32"
  f32_to_f64 :: "u32 \<Rightarrow> u64"
  f64_to_f16_bits :: "u64 \<Rightarrow> u16 option"
  f16_bits_to_f64 :: "u16 \<Rightarrow> u64"

section \<open>Format strings\<close>

definition USIZE :: nat where "USIZE = 2 ^ 64"

definition code_spec :: "char \<Rightarrow> bool \<Rightarrow> (field_kind \<times> nat \<times> nat) option" where
  "code_spec code native =
     (if code = CHR ''x'' then Some (KPad, 1, 1)
      else if code = CHR ''b'' then Some (KSigned, 1, 1)
      else if code = CHR ''B'' then Some (KUnsigned, 1, 1)
      else if code = CHR ''c'' then Some (KChar, 1, 1)
      else if code = CHR ''s'' then Some (KStr, 1, 1)
      else if code = CHR ''p'' then Some (KPascal, 1, 1)
      else if code = CHR 0x3F then Some (KBool, 1, 1)
      else if code = CHR ''h'' then Some (KSigned, 2, if native then 2 else 1)
      else if code = CHR ''H'' then Some (KUnsigned, 2, if native then 2 else 1)
      else if code = CHR ''i'' then Some (KSigned, 4, if native then 4 else 1)
      else if code = CHR ''I'' then Some (KUnsigned, 4, if native then 4 else 1)
      else if code = CHR ''l'' then Some (if native then (KSigned, 8, 8) else (KSigned, 4, 1))
      else if code = CHR ''L'' then Some (if native then (KUnsigned, 8, 8) else (KUnsigned, 4, 1))
      else if code = CHR ''q'' then Some (KSigned, 8, if native then 8 else 1)
      else if code = CHR ''Q'' then Some (KUnsigned, 8, if native then 8 else 1)
      else if code = CHR ''n'' \<and> native then Some (KSigned, 8, 8)
      else if code = CHR ''N'' \<and> native then Some (KUnsigned, 8, 8)
      else if code = CHR ''P'' \<and> native then Some (KUnsigned, 8, 8)
      else if code = CHR ''e'' then Some (KFloat, 2, if native then 2 else 1)
      else if code = CHR ''f'' then Some (KFloat, 4, if native then 4 else 1)
      else if code = CHR ''d'' then Some (KFloat, 8, if native then 8 else 1)
      else if code = CHR ''F'' then Some (KComplex, 8, 1)
      else if code = CHR ''D'' then Some (KComplex, 16, 1)
      else None)"

definition char_code :: "char \<Rightarrow> nat" where "char_code c = of_char c"

definition is_ascii_digit :: "char \<Rightarrow> bool" where
  "is_ascii_digit c \<longleftrightarrow> 48 \<le> char_code c \<and> char_code c \<le> 57"

definition is_ascii_whitespace :: "char \<Rightarrow> bool" where
  "is_ascii_whitespace c \<longleftrightarrow> char_code c \<in> {9, 10, 12, 13, 32}"

fun read_count :: "char list \<Rightarrow> nat \<Rightarrow> string + nat \<times> char list" where
  "read_count [] v = Inr (v, [])"
| "read_count (c # cs) v =
     (if is_ascii_digit c
      then if v * 10 < USIZE \<and> v * 10 + (char_code c - 48) < USIZE
           then read_count cs (v * 10 + (char_code c - 48))
           else Inl ''overflow in item count''
      else Inr (v, c # cs))"

definition repeat_count :: "char list \<Rightarrow> string + nat \<times> char list" where
  "repeat_count cs = (if cs \<noteq> [] \<and> is_ascii_digit (hd cs) then read_count cs 0 else Inr (1, cs))"

definition field_bytes :: "field_kind \<Rightarrow> nat \<Rightarrow> nat \<Rightarrow> nat" where
  "field_bytes k count sz = (if k \<in> {KStr, KPascal, KPad} then count else count * sz)"

definition field_args :: "field_kind \<Rightarrow> nat \<Rightarrow> nat" where
  "field_args k count = (case k of KPad \<Rightarrow> 0 | KStr \<Rightarrow> 1 | KPascal \<Rightarrow> 1 | _ \<Rightarrow> count)"

text \<open>One item placed at \<open>pos\<close>: the item and the position after it.\<close>

definition place_item :: "bool \<Rightarrow> char \<Rightarrow> nat \<Rightarrow> nat \<Rightarrow> string + field_item \<times> nat" where
  "place_item native code count pos =
     (case code_spec code native of
        None \<Rightarrow> Inl ''bad char in struct format''
      | Some (k, sz, spec_align) \<Rightarrow>
          let align = if native then spec_align else 1;
              pad = if pos mod align = 0 then 0 else align - pos mod align
          in if pos + pad < USIZE \<and> field_bytes k count sz < USIZE \<and> pos + pad + field_bytes k count sz < USIZE
             then Inr (\<lparr>it_code = code, it_kind = k, it_count = count, it_size = sz, pad_before = pad\<rparr>,
                       pos + pad + field_bytes k count sz)
             else Inl ''total struct size too long'')"

lemma read_count_length: "read_count cs v = Inr (n, rest) \<Longrightarrow> length rest \<le> length cs"
  by (induction cs v rule: read_count.induct) (auto split: if_splits)

lemma repeat_count_length: "repeat_count cs = Inr (n, rest) \<Longrightarrow> length rest \<le> length cs"
  using read_count_length by (auto simp: repeat_count_def split: if_splits)

function parse_loop :: "bool \<Rightarrow> char list \<Rightarrow> nat \<Rightarrow> nat \<Rightarrow> field_item list \<Rightarrow> string + field_item list \<times> nat \<times> nat" where
  "parse_loop native body pos args its =
     (if body = [] then Inr (its, pos, args)
      else if is_ascii_whitespace (hd body) then parse_loop native (tl body) pos args its
      else case repeat_count body of
        Inl e \<Rightarrow> Inl e
      | Inr (count, rest) \<Rightarrow>
          if rest = [] then Inl ''repeat count given without format specifier''
          else case place_item native (hd rest) count pos of
            Inl e \<Rightarrow> Inl e
          | Inr (it, pos') \<Rightarrow>
              parse_loop native (tl rest) pos' ((args + field_args (it_kind it) count) mod USIZE) (its @ [it]))"
  by pat_completeness auto
termination
  by (relation "measure (\<lambda>(native, body, pos, args, its). length body)")
    (auto dest!: repeat_count_length simp: neq_Nil_conv)

declare parse_loop.simps [simp del]

definition byte_order :: "bool \<Rightarrow> char list \<Rightarrow> bool \<times> bool \<times> char list" where
  "byte_order host_little fmt =
     (case fmt of
        c # body \<Rightarrow>
          if c = CHR ''@'' then (True, host_little, body)
          else if c = CHR ''='' then (False, host_little, body)
          else if c = CHR ''<'' then (False, True, body)
          else if c = CHR ''>'' \<or> c = CHR ''!'' then (False, False, body)
          else (True, host_little, fmt)
      | [] \<Rightarrow> (True, host_little, fmt))"

definition parse_format :: "bool \<Rightarrow> char list \<Rightarrow> string + struct_format" where
  "parse_format host_little fmt =
     (let (native, le, body) = byte_order host_little fmt in
      bind_ok (parse_loop native body 0 0 []) (\<lambda>(its, pos, args).
        Inr \<lparr>little = le, fmt_items = its, fmt_size = pos, arg_count = args\<rparr>))"

section \<open>Raw codecs\<close>

definition to_le_bytes :: "128 word \<Rightarrow> u8 list" where
  "to_le_bytes v = map (\<lambda>i. ucast (drop_bit (8 * i) v)) [0..<16]"

text \<open>The bytes that fill a destination of \<open>n\<close> bytes.\<close>

definition write_uint :: "nat \<Rightarrow> 128 word \<Rightarrow> bool \<Rightarrow> u8 list" where
  "write_uint n v le = (if le then take n (to_le_bytes v) else map (\<lambda>i. to_le_bytes v ! (n - 1 - i)) [0..<n])"

definition read_uint :: "u8 list \<Rightarrow> bool \<Rightarrow> 128 word" where
  "read_uint src le = fold (\<lambda>b v. push_bit 8 v OR ucast b) (if le then rev src else src) 0"

definition int_bounds :: "field_kind \<Rightarrow> nat \<Rightarrow> int \<times> int" where
  "int_bounds k sz = (if k = KSigned then (- (2 ^ (sz * 8 - 1)), 2 ^ (sz * 8 - 1) - 1) else (0, 2 ^ (sz * 8) - 1))"

definition f64_finite :: "u64 \<Rightarrow> bool" where
  "f64_finite x \<longleftrightarrow> drop_bit 52 x AND 0x7FF \<noteq> 0x7FF"

definition f32_infinite :: "u32 \<Rightarrow> bool" where
  "f32_infinite x \<longleftrightarrow> x AND 0x7FFFFFFF = 0x7F800000"

definition narrows :: "py_ops \<Rightarrow> u64 \<Rightarrow> bool" where
  "narrows ops x \<longleftrightarrow> \<not> (f32_infinite (f64_to_f32 ops x) \<and> f64_finite x)"

section \<open>Packing\<close>

definition to_bigint_including_bool :: "struct_value \<Rightarrow> int option" where
  "to_bigint_including_bool v = (case v of VInt i \<Rightarrow> Some i | VBool b \<Rightarrow> Some (if b then 1 else 0) | _ \<Rightarrow> None)"

definition buffer_arg :: "struct_value \<Rightarrow> u8 list option" where
  "buffer_arg v = (case v of VBytes bs \<Rightarrow> Some bs | VByteArray bs \<Rightarrow> Some bs | VView bs ro \<Rightarrow> Some bs | _ \<Rightarrow> None)"

definition to_float :: "py_ops \<Rightarrow> struct_value \<Rightarrow> u64 option" where
  "to_float ops v = (case v of VFloat x \<Rightarrow> Some x | _ \<Rightarrow> Option.bind (to_bigint_including_bool v) (int_to_f64 ops))"

definition overwrite :: "u8 list \<Rightarrow> nat \<Rightarrow> u8 list \<Rightarrow> u8 list" where
  "overwrite bs at dest = take at dest @ bs @ drop (at + length bs) dest"

definition pack_int :: "field_item \<Rightarrow> bool \<Rightarrow> struct_value \<Rightarrow> u8 list \<Rightarrow> struct_error + u8 list" where
  "pack_int it le v dest =
     (case to_bigint_including_bool v of
        None \<Rightarrow> Inl (StructError ''required argument is not an integer'')
      | Some i \<Rightarrow>
          let (lo, hi) = int_bounds (it_kind it) (it_size it) in
          if lo \<le> i \<and> i \<le> hi
          then Inr (write_uint (length dest) (word_of_int i AND mask (it_size it * 8)) le)
          else Inl (OutOfRange it))"

definition pack_float :: "py_ops \<Rightarrow> field_item \<Rightarrow> bool \<Rightarrow> struct_value \<Rightarrow> u8 list \<Rightarrow> struct_error + u8 list" where
  "pack_float ops it le v dest =
     (case to_float ops v of
        None \<Rightarrow> Inl (StructError ''required argument is not a float'')
      | Some x \<Rightarrow>
          if it_size it = 2 then
            (case f64_to_f16_bits ops x of
               None \<Rightarrow> Inl (OverflowErr ''float too large to pack with e format'')
             | Some h \<Rightarrow> Inr (write_uint (length dest) (ucast h) le))
          else if it_size it = 4 then
            (if narrows ops x then Inr (write_uint (length dest) (ucast (f64_to_f32 ops x)) le)
             else Inl (OverflowErr ''float too large to pack with f format''))
          else Inr (write_uint (length dest) (ucast x) le))"

definition pack_complex :: "py_ops \<Rightarrow> field_item \<Rightarrow> bool \<Rightarrow> struct_value \<Rightarrow> u8 list \<Rightarrow> struct_error + u8 list" where
  "pack_complex ops it le v dest =
     (case v of
        VComplex re im \<Rightarrow>
          if it_size it = 8 then
            (if narrows ops re \<and> narrows ops im
             then Inr (overwrite (write_uint 4 (ucast (f64_to_f32 ops im)) le) 4
                        (overwrite (write_uint 4 (ucast (f64_to_f32 ops re)) le) 0 dest))
             else Inl (OverflowErr ''complex component too large to pack with F format''))
          else Inr (overwrite (write_uint 8 (ucast im) le) 8 (overwrite (write_uint 8 (ucast re) le) 0 dest))
      | _ \<Rightarrow> Inl (StructError ''required argument is not a complex''))"

definition pack_element :: "py_ops \<Rightarrow> field_item \<Rightarrow> bool \<Rightarrow> struct_value \<Rightarrow> u8 list \<Rightarrow> struct_error + u8 list" where
  "pack_element ops it le v dest =
     (case it_kind it of
        KPad \<Rightarrow> Inr dest
      | KSigned \<Rightarrow> pack_int it le v dest
      | KUnsigned \<Rightarrow> pack_int it le v dest
      | KBool \<Rightarrow>
          (case truth ops v of None \<Rightarrow> Inl TruthFailed | Some b \<Rightarrow> Inr (dest[0 := (if b then 1 else 0)]))
      | KChar \<Rightarrow>
          (case buffer_arg v of
             None \<Rightarrow> Inl (StructError ''char format requires a bytes object of length 1'')
           | Some bs \<Rightarrow>
               if length bs \<noteq> 1 then Inl (StructError ''char format requires a bytes object of length 1'')
               else Inr (dest[0 := bs ! 0]))
      | KStr \<Rightarrow>
          (case v of
             VBytes bs \<Rightarrow> Inr (overwrite (take (it_count it) bs) 0 dest)
           | _ \<Rightarrow> Inl (StructError (''argument for '' @ [CHR 0x27, CHR ''s'', CHR 0x27] @ '' must be a bytes object'')))
      | KPascal \<Rightarrow>
          (case v of
             VBytes bs \<Rightarrow>
               if it_count it = 0 then Inr dest
               else let n = min (min (length bs) (it_count it - 1)) 255
                    in Inr (overwrite (take n bs) 1 (dest[0 := of_nat n]))
           | _ \<Rightarrow> Inl (StructError (''argument for '' @ [CHR 0x27, CHR ''p'', CHR 0x27] @ '' must be a bytes object'')))
      | KFloat \<Rightarrow> pack_float ops it le v dest
      | KComplex \<Rightarrow> pack_complex ops it le v dest)"

definition slice_of :: "nat \<Rightarrow> nat \<Rightarrow> 'a list \<Rightarrow> 'a list" where
  "slice_of pos n xs = take n (drop pos xs)"

text \<open>One element packed into the slice of \<open>n\<close> bytes at \<open>pos\<close>.\<close>

definition pack_at :: "py_ops \<Rightarrow> field_item \<Rightarrow> bool \<Rightarrow> nat \<Rightarrow> nat \<Rightarrow> struct_value \<Rightarrow> u8 list \<Rightarrow> struct_error + u8 list" where
  "pack_at ops it le pos n v out =
     bind_ok (pack_element ops it le v (slice_of pos n out)) (\<lambda>bs. Inr (overwrite bs pos out))"

fun pack_repeat ::
  "py_ops \<Rightarrow> field_item \<Rightarrow> bool \<Rightarrow> nat \<Rightarrow> nat \<Rightarrow> struct_value list \<Rightarrow> nat \<Rightarrow> u8 list \<Rightarrow> struct_error + u8 list \<times> nat \<times> nat" where
  "pack_repeat ops it le 0 pos values arg out = Inr (out, pos, arg)"
| "pack_repeat ops it le (Suc n) pos values arg out =
     bind_ok (pack_at ops it le pos (it_size it) (values ! arg) out)
       (pack_repeat ops it le n (pos + it_size it) values (arg + 1))"

fun pack_items ::
  "py_ops \<Rightarrow> field_item list \<Rightarrow> bool \<Rightarrow> nat \<Rightarrow> struct_value list \<Rightarrow> nat \<Rightarrow> u8 list \<Rightarrow> struct_error + u8 list" where
  "pack_items ops [] le pos values arg out = Inr out"
| "pack_items ops (it # its) le pos values arg out =
     (let at = pos + pad_before it in
      if it_kind it = KPad then pack_items ops its le (at + it_count it) values arg out
      else if it_kind it = KStr \<or> it_kind it = KPascal then
        bind_ok (pack_at ops it le at (it_count it) (values ! arg) out)
          (pack_items ops its le (at + it_count it) values (arg + 1))
      else bind_ok (pack_repeat ops it le (it_count it) at values arg out) (\<lambda>(out1, pos1, arg1).
          pack_items ops its le pos1 values arg1 out1))"

text \<open>The zeroed buffer cannot be larger than \<open>isize::MAX\<close>: its allocation panics.\<close>

definition pack_values :: "py_ops \<Rightarrow> struct_format \<Rightarrow> struct_value list \<Rightarrow> struct_error + u8 list" where
  "pack_values ops f values =
     (if fmt_size f \<ge> 2 ^ 63 then Inl Panic
      else pack_items ops (fmt_items f) (little f) 0 values 0 (replicate (fmt_size f) 0))"

section \<open>Unpacking\<close>

definition signed_value :: "nat \<Rightarrow> 128 word \<Rightarrow> int" where
  "signed_value sz raw =
     (if sz * 8 < 128 \<and> uint raw \<ge> 2 ^ (sz * 8 - 1) then uint raw - 2 ^ (sz * 8) else sint raw)"

definition unpack_element :: "py_ops \<Rightarrow> field_item \<Rightarrow> bool \<Rightarrow> u8 list \<Rightarrow> struct_value" where
  "unpack_element ops it le src =
     (case it_kind it of
        KPad \<Rightarrow> VNone
      | KSigned \<Rightarrow> VInt (signed_value (it_size it) (read_uint src le))
      | KUnsigned \<Rightarrow> VInt (uint (read_uint src le))
      | KBool \<Rightarrow> VBool (src ! 0 \<noteq> 0)
      | KChar \<Rightarrow> VBytes (take 1 src)
      | KStr \<Rightarrow> VBytes src
      | KPascal \<Rightarrow> if it_count it = 0 then VBytes [] else VBytes (slice_of 1 (min (unat (src ! 0)) (it_count it - 1)) src)
      | KFloat \<Rightarrow>
          (let raw = read_uint src le in
           if it_size it = 2 then VFloat (f16_bits_to_f64 ops (ucast raw))
           else if it_size it = 4 then VFloat (f32_to_f64 ops (ucast raw))
           else VFloat (ucast raw))
      | KComplex \<Rightarrow>
          if it_size it = 8
          then VComplex (f32_to_f64 ops (ucast (read_uint (slice_of 0 4 src) le))) (f32_to_f64 ops (ucast (read_uint (slice_of 4 4 src) le)))
          else VComplex (ucast (read_uint (slice_of 0 8 src) le)) (ucast (read_uint (slice_of 8 8 src) le)))"

fun unpack_repeat :: "py_ops \<Rightarrow> field_item \<Rightarrow> bool \<Rightarrow> nat \<Rightarrow> nat \<Rightarrow> u8 list \<Rightarrow> struct_value list" where
  "unpack_repeat ops it le 0 pos data = []"
| "unpack_repeat ops it le (Suc n) pos data =
     unpack_element ops it le (slice_of pos (it_size it) data) # unpack_repeat ops it le n (pos + it_size it) data"

fun unpack_items :: "py_ops \<Rightarrow> field_item list \<Rightarrow> bool \<Rightarrow> nat \<Rightarrow> u8 list \<Rightarrow> struct_value list" where
  "unpack_items ops [] le pos data = []"
| "unpack_items ops (it # its) le pos data =
     (let at = pos + pad_before it in
      if it_kind it = KPad then unpack_items ops its le (at + it_count it) data
      else if it_kind it = KStr \<or> it_kind it = KPascal then
        unpack_element ops it le (slice_of at (it_count it) data) # unpack_items ops its le (at + it_count it) data
      else unpack_repeat ops it le (it_count it) at data @ unpack_items ops its le (at + it_count it * it_size it) data)"

definition unpack_record :: "py_ops \<Rightarrow> struct_format \<Rightarrow> u8 list \<Rightarrow> struct_value list" where
  "unpack_record ops f data = unpack_items ops (fmt_items f) (little f) 0 data"

section \<open>Entry points\<close>

text \<open>Sizes and offsets cross into signed 64-bit integers here.\<close>

definition as_isize :: "nat \<Rightarrow> int" where
  "as_isize n = sint (of_nat n :: 64 word)"

fun valid_utf8 :: "nat list \<Rightarrow> bool" where
  "valid_utf8 [] = True"
| "valid_utf8 (a # bs) =
     (if a < 0x80 then valid_utf8 bs
      else if 0xC2 \<le> a \<and> a \<le> 0xDF then
        (case bs of b # rest \<Rightarrow> 0x80 \<le> b \<and> b \<le> 0xBF \<and> valid_utf8 rest | _ \<Rightarrow> False)
      else if 0xE0 \<le> a \<and> a \<le> 0xEF then
        (case bs of b # c # rest \<Rightarrow>
           (if a = 0xE0 then 0xA0 else 0x80) \<le> b \<and> b \<le> (if a = 0xED then 0x9F else 0xBF) \<and>
           0x80 \<le> c \<and> c \<le> 0xBF \<and> valid_utf8 rest | _ \<Rightarrow> False)
      else if 0xF0 \<le> a \<and> a \<le> 0xF4 then
        (case bs of b # c # d # rest \<Rightarrow>
           (if a = 0xF0 then 0x90 else 0x80) \<le> b \<and> b \<le> (if a = 0xF4 then 0x8F else 0xBF) \<and>
           0x80 \<le> c \<and> c \<le> 0xBF \<and> 0x80 \<le> d \<and> d \<le> 0xBF \<and> valid_utf8 rest | _ \<Rightarrow> False)
      else False)"

definition parsed :: "bool \<Rightarrow> char list \<Rightarrow> struct_error + struct_format" where
  "parsed host_little t = (case parse_format host_little t of Inl e \<Rightarrow> Inl (StructError e) | Inr f \<Rightarrow> Inr f)"

definition resolve_format :: "bool \<Rightarrow> struct_value + struct_format \<Rightarrow> struct_error + struct_format" where
  "resolve_format host_little arg =
     (case arg of
        Inr f \<Rightarrow> Inr f
      | Inl (VText t) \<Rightarrow> parsed host_little t
      | Inl (VBytes bs) \<Rightarrow>
          if valid_utf8 (map unat bs) then parsed host_little (map (\<lambda>b. char_of (unat b)) bs)
          else Inl (StructError ''bad char in struct format'')
      | Inl _ \<Rightarrow> Inl (TypeErr ''Struct() argument 1 must be a str or bytes object''))"

definition calcsize :: "struct_format \<Rightarrow> int" where
  "calcsize f = as_isize (fmt_size f)"

definition struct_pack :: "py_ops \<Rightarrow> struct_format \<Rightarrow> struct_value list \<Rightarrow> struct_error + u8 list" where
  "struct_pack ops f values =
     (if length values \<noteq> arg_count f then Inl (WrongCount (arg_count f) (length values)) else pack_values ops f values)"

definition struct_unpack :: "py_ops \<Rightarrow> struct_format \<Rightarrow> struct_value \<Rightarrow> struct_error + struct_value list" where
  "struct_unpack ops f buffer =
     (case buffer_arg buffer of
        None \<Rightarrow> Inl (TypeErr ''a bytes-like object is required'')
      | Some bs \<Rightarrow> if length bs \<noteq> fmt_size f then Inl (WrongSize (fmt_size f)) else Inr (unpack_record ops f bs))"

text \<open>The window of a record inside a buffer, with Rust's check of a slice range.\<close>

definition record_window :: "struct_format \<Rightarrow> u8 list \<Rightarrow> int \<Rightarrow> struct_error + nat" where
  "record_window f bs original =
     (let len = int (length bs); offset = if original < 0 then original + len else original in
      if offset < 0 \<or> offset > len then Inl (BadOffset original (length bs))
      else if len - offset < as_isize (fmt_size f) then Inl (BufferTooSmall (nat offset + fmt_size f) (fmt_size f) (length bs))
      else if nat offset + fmt_size f > length bs then Inl Panic
      else Inr (nat offset))"

definition struct_unpack_from :: "py_ops \<Rightarrow> struct_format \<Rightarrow> struct_value \<Rightarrow> int \<Rightarrow> struct_error + struct_value list" where
  "struct_unpack_from ops f buffer offset =
     (case buffer_arg buffer of
        None \<Rightarrow> Inl (TypeErr ''a bytes-like object is required'')
      | Some bs \<Rightarrow> bind_ok (record_window f bs offset) (\<lambda>at. Inr (unpack_record ops f (slice_of at (fmt_size f) bs))))"

definition writable_buffer_arg :: "struct_value \<Rightarrow> struct_error + u8 list" where
  "writable_buffer_arg v =
     (case v of
        VByteArray bs \<Rightarrow> Inr bs
      | VView bs ro \<Rightarrow> if ro then Inl (TypeErr ''argument must be read-write bytes-like object, not memoryview'') else Inr bs
      | _ \<Rightarrow> Inl (TypeErr ''argument must be read-write bytes-like object''))"

definition struct_pack_into ::
  "py_ops \<Rightarrow> struct_format \<Rightarrow> struct_value \<Rightarrow> int \<Rightarrow> struct_value list \<Rightarrow> struct_error + u8 list" where
  "struct_pack_into ops f buffer offset values =
     (if length values \<noteq> arg_count f then Inl (WrongCount (arg_count f) (length values))
      else bind_ok (writable_buffer_arg buffer) (\<lambda>bs.
        bind_ok (record_window f bs offset) (\<lambda>at.
          bind_ok (pack_values ops f values) (\<lambda>packed. Inr (overwrite packed at bs)))))"

record unpack_iterator =
  iter_fmt :: struct_format
  iter_data :: "u8 list"
  iter_pos :: nat

definition struct_iter_unpack :: "struct_format \<Rightarrow> struct_value \<Rightarrow> struct_error + unpack_iterator" where
  "struct_iter_unpack f buffer =
     (if fmt_size f = 0 then Inl (StructError ''cannot iterate with size 0'')
      else case buffer_arg buffer of
        None \<Rightarrow> Inl (TypeErr ''a bytes-like object is required'')
      | Some bs \<Rightarrow>
          if length bs mod fmt_size f \<noteq> 0 then Inl (NotMultiple (length bs) (fmt_size f))
          else Inr \<lparr>iter_fmt = f, iter_data = bs, iter_pos = 0\<rparr>)"

definition unpack_iter_next :: "py_ops \<Rightarrow> unpack_iterator \<Rightarrow> struct_error + struct_value list \<times> unpack_iterator" where
  "unpack_iter_next ops st =
     (if iter_pos st \<ge> length (iter_data st) then Inl StopIter
      else if iter_pos st + fmt_size (iter_fmt st) > length (iter_data st) then Inl Panic
      else Inr (unpack_record ops (iter_fmt st) (slice_of (iter_pos st) (fmt_size (iter_fmt st)) (iter_data st)),
                st\<lparr>iter_pos := iter_pos st + fmt_size (iter_fmt st)\<rparr>))"

end
