(* ===== verification/Struct_Codec.thy ===== *)
theory Struct_Codec
  imports Struct_Format
begin

text \<open>
  Properties of the binary-structure engine: the layout of parsed formats, the round trip of packing
  and unpacking for whole records and for records inside buffers, and iteration.
\<close>

section \<open>Round trip of one element\<close>

lemma fold_read:
  "fold (\<lambda>b v. push_bit 8 v OR ucast b) (rev (map (\<lambda>i. ucast (drop_bit (8 * i) v) :: u8) [0..<n])) acc =
     push_bit (8 * n) acc OR take_bit (8 * n) (v :: 128 word)"
proof (induction n arbitrary: acc)
  case (Suc n)
  have "push_bit (8 * n) (push_bit 8 acc OR ucast (ucast (drop_bit (8 * n) v) :: u8)) OR take_bit (8 * n) v =
      push_bit (8 * Suc n) acc OR take_bit (8 * Suc n) v"
    by (rule bit_eqI) (auto simp: bit_simps not_le add.commute)
  then show ?case using Suc by simp
qed simp

lemma read_write_uint: "n \<le> 16 \<Longrightarrow> read_uint (write_uint n v le) le = take_bit (8 * n) v"
proof -
  assume n: "n \<le> 16"
  let ?bytes = "map (\<lambda>i. ucast (drop_bit (8 * i) v) :: u8) [0..<n]"
  have le: "write_uint n v True = ?bytes" using n by (simp add: write_uint_def to_le_bytes_def take_map)
  have be: "write_uint n v False = rev ?bytes"
    using n by (intro nth_equalityI) (auto simp: write_uint_def to_le_bytes_def rev_nth)
  show ?thesis
    by (cases le) (simp_all only: le be read_uint_def fold_read if_True if_False, simp_all)
qed

lemma length_write_uint [simp]: "n \<le> 16 \<Longrightarrow> length (write_uint n v le) = n"
  by (simp add: write_uint_def to_le_bytes_def)

definition item_ok :: "field_item \<Rightarrow> bool" where
  "item_ok it \<longleftrightarrow>
     (case it_kind it of
        KSigned \<Rightarrow> it_size it \<in> {1, 2, 4, 8}
      | KUnsigned \<Rightarrow> it_size it \<in> {1, 2, 4, 8}
      | KFloat \<Rightarrow> it_size it \<in> {2, 4, 8}
      | KComplex \<Rightarrow> it_size it \<in> {8, 16}
      | _ \<Rightarrow> it_size it = 1)"

definition elem_width :: "field_item \<Rightarrow> nat" where
  "elem_width it = (if it_kind it = KStr \<or> it_kind it = KPascal then it_count it else it_size it)"

text \<open>What a packed argument reads back as.\<close>

definition canonical :: "py_ops \<Rightarrow> field_item \<Rightarrow> struct_value \<Rightarrow> struct_value" where
  "canonical ops it v =
     (case it_kind it of
        KSigned \<Rightarrow> VInt (the (to_bigint_including_bool v))
      | KUnsigned \<Rightarrow> VInt (the (to_bigint_including_bool v))
      | KBool \<Rightarrow> VBool (the (truth ops v))
      | KChar \<Rightarrow> VBytes (the (buffer_arg v))
      | KStr \<Rightarrow> VBytes (take (it_count it) (the (buffer_arg v)) @ replicate (it_count it - length (the (buffer_arg v))) 0)
      | KPascal \<Rightarrow> VBytes (take (min (it_count it - 1) 255) (the (buffer_arg v)))
      | KFloat \<Rightarrow>
          (let x = the (to_float ops v) in
           if it_size it = 2 then VFloat (f16_bits_to_f64 ops (the (f64_to_f16_bits ops x)))
           else if it_size it = 4 then VFloat (f32_to_f64 ops (f64_to_f32 ops x))
           else VFloat x)
      | KComplex \<Rightarrow>
          (case v of
             VComplex re im \<Rightarrow>
               if it_size it = 8
               then VComplex (f32_to_f64 ops (f64_to_f32 ops re)) (f32_to_f64 ops (f64_to_f32 ops im))
               else VComplex re im
           | _ \<Rightarrow> v)
      | KPad \<Rightarrow> VNone)"

text \<open>Which arguments an item takes.\<close>

definition takes :: "py_ops \<Rightarrow> field_item \<Rightarrow> struct_value \<Rightarrow> bool" where
  "takes ops it v \<longleftrightarrow>
     (case it_kind it of
        KSigned \<Rightarrow> (\<exists>i. to_bigint_including_bool v = Some i \<and> - (2 ^ (it_size it * 8 - 1)) \<le> i \<and> i < 2 ^ (it_size it * 8 - 1))
      | KUnsigned \<Rightarrow> (\<exists>i. to_bigint_including_bool v = Some i \<and> 0 \<le> i \<and> i < 2 ^ (it_size it * 8))
      | KBool \<Rightarrow> truth ops v \<noteq> None
      | KChar \<Rightarrow> (\<exists>b. buffer_arg v = Some [b])
      | KStr \<Rightarrow> (\<exists>bs. v = VBytes bs)
      | KPascal \<Rightarrow> (\<exists>bs. v = VBytes bs)
      | KFloat \<Rightarrow> (\<exists>x. to_float ops v = Some x \<and>
          (if it_size it = 2 then f64_to_f16_bits ops x \<noteq> None else it_size it = 4 \<longrightarrow> narrows ops x))
      | KComplex \<Rightarrow> (\<exists>re im. v = VComplex re im \<and> (it_size it = 8 \<longrightarrow> narrows ops re \<and> narrows ops im))
      | KPad \<Rightarrow> True)"

lemma take_bit_ucast_le: "LENGTH('a) \<le> n \<Longrightarrow> take_bit n (ucast (x :: 'a::len word) :: 128 word) = ucast x"
  by (rule bit_eqI) (auto simp: bit_simps dest: bit_imp_le_length)

lemma ucast_ucast_128: "LENGTH('a) \<le> 128 \<Longrightarrow> ucast (ucast (x :: 'a::len word) :: 128 word) = x"
  by (rule bit_eqI) (auto simp: bit_simps)

lemma int_field_value:
  "n \<le> 128 \<Longrightarrow> uint (word_of_int i AND mask n :: 128 word) = i mod 2 ^ n"
  by (simp add: take_bit_eq_mask [symmetric] unsigned_take_bit_eq unsigned_of_int take_bit_eq_mod min_def flip: take_bit_eq_mod)

lemma sint_small: "uint (w :: 128 word) < 2 ^ 127 \<Longrightarrow> sint w = uint w"
proof -
  assume "uint w < 2 ^ 127"
  moreover have "- (2 ^ 127) \<le> uint w" by (rule order_trans [OF _ uint_ge_0]) simp
  ultimately have "signed_take_bit 127 (uint w) = uint w" by (intro signed_take_bit_int_eq_self)
  then show ?thesis by (simp add: sint_uint)
qed

lemma signed_roundtrip:
  assumes "sz \<in> {1, 2, 4, 8}" "- (2 ^ (sz * 8 - 1)) \<le> i" "i < 2 ^ (sz * 8 - 1)"
  shows "signed_value sz (word_of_int i AND mask (sz * 8)) = i"
proof -
  let ?w = "word_of_int i AND mask (sz * 8) :: 128 word"
  have u: "uint ?w = i mod 2 ^ (sz * 8)" using assms(1) by (intro int_field_value) auto
  show ?thesis
  proof (cases "0 \<le> i")
    case True
    then have w: "uint ?w = i" using u assms by auto
    then have "sint ?w = i" using sint_small [of ?w] assms by auto
    with w show ?thesis using assms by (auto simp: signed_value_def)
  next
    case False
    have "i mod 2 ^ (sz * 8) = (i + 2 ^ (sz * 8)) mod 2 ^ (sz * 8)" by simp
    also have "\<dots> = i + 2 ^ (sz * 8)" using False assms by (intro mod_pos_pos_trivial) auto
    finally show ?thesis using u assms False by (auto simp: signed_value_def)
  qed
qed

lemma unsigned_roundtrip:
  assumes "sz \<in> {1, 2, 4, 8}" "0 \<le> i" "i < 2 ^ (sz * 8)"
  shows "uint (word_of_int i AND mask (sz * 8) :: 128 word) = i"
  using int_field_value [of "sz * 8" i] assms by auto

lemma take_bit_mask_field: "take_bit n (w AND mask n) = (w AND mask n :: 128 word)"
  by (simp add: take_bit_eq_mask and.assoc)

text \<open>
  The length of a packed element, when it is taken, and what it reads back as.
\<close>

lemma overwrite_length [simp]: "at + length bs \<le> length dest \<Longrightarrow> length (overwrite bs at dest) = length dest"
  by (simp add: overwrite_def)

lemma pack_element_taken:
  assumes "item_ok it" "length dest = elem_width it" "it_kind it \<noteq> KPad"
  shows "(\<exists>bs. pack_element ops it le v dest = Inr bs) \<longleftrightarrow> takes ops it v"
  using assms
  by (cases "it_kind it")
    (auto simp: pack_element_def takes_def pack_int_def pack_float_def pack_complex_def int_bounds_def item_ok_def
      Let_def length_Suc_conv split: option.splits struct_value.splits if_splits)

lemma pack_element_length:
  assumes "item_ok it" "length dest = elem_width it" "pack_element ops it le v dest = Inr bs"
  shows "length bs = elem_width it"
  using assms
  by (cases "it_kind it")
    (auto simp: pack_element_def pack_int_def pack_float_def pack_complex_def item_ok_def elem_width_def Let_def overwrite_def
      split: option.splits struct_value.splits if_splits prod.splits)

lemma unpack_int_element:
  assumes "item_ok it" "it_kind it \<in> {KSigned, KUnsigned}" "pack_int it le v dest = Inr bs" "length dest = it_size it"
  shows "unpack_element ops it le bs = canonical ops it v"
proof -
  obtain i where i: "to_bigint_including_bool v = Some i"
    "fst (int_bounds (it_kind it) (it_size it)) \<le> i" "i \<le> snd (int_bounds (it_kind it) (it_size it))"
    and bs: "bs = write_uint (it_size it) (word_of_int i AND mask (it_size it * 8)) le"
    using assms(3,4) by (auto simp: pack_int_def split: option.splits if_splits prod.splits)
  have "it_size it \<in> {1, 2, 4, 8}" using assms(1,2) by (auto simp: item_ok_def)
  moreover from this have "read_uint bs le = take_bit (8 * it_size it) (word_of_int i AND mask (it_size it * 8))"
    unfolding bs by (intro read_write_uint) auto
  then have "read_uint bs le = word_of_int i AND mask (it_size it * 8)"
    unfolding mult.commute [of 8] take_bit_mask_field .
  ultimately show ?thesis
    using assms(2) i signed_roundtrip [of "it_size it" i] unsigned_roundtrip [of "it_size it" i]
    by (auto simp: unpack_element_def canonical_def int_bounds_def)
qed

lemma unpack_float_element:
  assumes "item_ok it" "it_kind it = KFloat" "pack_float ops it le v dest = Inr bs" "length dest = it_size it"
  shows "unpack_element ops it le bs = canonical ops it v"
  using assms
  by (auto simp: item_ok_def pack_float_def unpack_element_def canonical_def read_write_uint take_bit_ucast_le ucast_ucast_128
      split: option.splits if_splits)

lemma overwrite_pair:
  assumes "length a = n" "length b = n" "length dest = n + n"
  shows "overwrite b n (overwrite a 0 dest) = a @ b"
  using assms by (simp add: overwrite_def)

lemma unpack_complex_element:
  assumes "item_ok it" "it_kind it = KComplex" "pack_complex ops it le v dest = Inr bs" "length dest = it_size it"
  shows "unpack_element ops it le bs = canonical ops it v"
  using assms
  by (auto simp: item_ok_def pack_complex_def unpack_element_def canonical_def overwrite_pair slice_of_def read_write_uint
      take_bit_ucast_le ucast_ucast_128 split: struct_value.splits if_splits)

lemma unpack_pascal_element:
  assumes "it_kind it = KPascal" "pack_element ops it le v (replicate (it_count it) 0) = Inr bs"
  shows "unpack_element ops it le bs = canonical ops it v"
proof -
  obtain xs where v: "v = VBytes xs" using assms by (auto simp: pack_element_def split: struct_value.splits)
  show ?thesis
  proof (cases "it_count it")
    case 0
    then show ?thesis using assms v by (simp add: unpack_element_def canonical_def buffer_arg_def)
  next
    case (Suc c)
    define n where "n = min (min (length xs) c) 255"
    have bs: "bs = of_nat n # take n xs @ replicate (c - n) 0"
      using assms v Suc by (auto simp: pack_element_def Let_def overwrite_def n_def)
    have n: "n \<le> length xs" "n \<le> c" "n \<le> 255" by (auto simp: n_def)
    then have "unat (of_nat n :: u8) = n" by (simp add: unat_of_nat)
    moreover have "take n xs = take (min c 255) xs" by (auto simp: n_def min_def)
    ultimately show ?thesis
      using assms(1) v Suc bs n by (simp add: unpack_element_def canonical_def buffer_arg_def slice_of_def)
  qed
qed

lemma unpack_packed_element:
  assumes "item_ok it" "it_kind it \<noteq> KPad" "pack_element ops it le v (replicate (elem_width it) 0) = Inr bs"
  shows "unpack_element ops it le bs = canonical ops it v"
proof (cases "it_kind it")
  case KStr
  then show ?thesis
    using assms by (auto simp: pack_element_def unpack_element_def canonical_def buffer_arg_def overwrite_def elem_width_def
        split: struct_value.splits)
next
  case KPascal
  then show ?thesis using assms unpack_pascal_element [of it ops le v bs] by (simp add: elem_width_def)
next
  case KBool
  then show ?thesis
    using assms by (auto simp: pack_element_def unpack_element_def canonical_def item_ok_def elem_width_def
        split: option.splits if_splits)
next
  case KChar
  then show ?thesis
    using assms by (auto simp: pack_element_def unpack_element_def canonical_def item_ok_def elem_width_def length_Suc_conv
        split: option.splits if_splits)
qed (use assms unpack_int_element unpack_float_element unpack_complex_element in \<open>auto simp: pack_element_def elem_width_def\<close>)

section \<open>Round trip of a record\<close>

text \<open>
  A record laid out by concatenation: padding, then the elements of each item, each packed into a
  zeroed field of its own.
\<close>

definition elem_count :: "field_item \<Rightarrow> nat" where
  "elem_count it = field_args (it_kind it) (it_count it)"

definition lead :: "field_item \<Rightarrow> nat" where
  "lead it = pad_before it + (if it_kind it = KPad then it_count it else 0)"

definition item_bytes :: "field_item \<Rightarrow> nat" where
  "item_bytes it = lead it + elem_count it * elem_width it"

fun encode_elems :: "py_ops \<Rightarrow> field_item \<Rightarrow> bool \<Rightarrow> struct_value list \<Rightarrow> struct_error + u8 list" where
  "encode_elems ops it le [] = Inr []"
| "encode_elems ops it le (v # vs) =
     bind_ok (pack_element ops it le v (replicate (elem_width it) 0)) (\<lambda>b.
       bind_ok (encode_elems ops it le vs) (\<lambda>bs. Inr (b @ bs)))"

fun encode_items :: "py_ops \<Rightarrow> field_item list \<Rightarrow> bool \<Rightarrow> struct_value list \<Rightarrow> struct_error + u8 list" where
  "encode_items ops [] le vs = Inr []"
| "encode_items ops (it # its) le vs =
     bind_ok (encode_elems ops it le (take (elem_count it) vs)) (\<lambda>bs.
       bind_ok (encode_items ops its le (drop (elem_count it) vs)) (\<lambda>cs. Inr (replicate (lead it) 0 @ bs @ cs)))"

lemma bind_ok_assoc: "bind_ok (bind_ok m f) g = bind_ok m (\<lambda>x. bind_ok (f x) g)"
  by (cases m) simp_all

lemma bind_ok_cong_Inr: "(\<And>a. m = Inr a \<Longrightarrow> f a = g a) \<Longrightarrow> bind_ok m f = bind_ok m g"
  by (cases m) simp_all

lemma encode_elems_length: "item_ok it \<Longrightarrow> encode_elems ops it le vs = Inr bs \<Longrightarrow> length bs = length vs * elem_width it"
  by (induction vs arbitrary: bs) (auto simp: bind_ok_Inr_iff dest!: pack_element_length)

lemma pack_at_zeros:
  assumes "item_ok it" "length pre = pos" "elem_width it \<le> m"
  shows "pack_at ops it le pos (elem_width it) v (pre @ replicate m 0) =
    bind_ok (pack_element ops it le v (replicate (elem_width it) 0)) (\<lambda>b. Inr (pre @ b @ replicate (m - elem_width it) 0))"
proof -
  have "slice_of pos (elem_width it) (pre @ replicate m 0) = replicate (elem_width it) 0"
    using assms by (simp add: slice_of_def)
  then show ?thesis
    unfolding pack_at_def using assms pack_element_length [of it "replicate (elem_width it) 0"]
    by (auto simp: overwrite_def intro!: bind_ok_cong_Inr)
qed

lemma pack_repeat_encode:
  assumes "item_ok it" "elem_width it = it_size it" "length pre = pos" "n * it_size it \<le> m" "arg + n \<le> length vs"
  shows "pack_repeat ops it le n pos vs arg (pre @ replicate m 0) =
    bind_ok (encode_elems ops it le (take n (drop arg vs))) (\<lambda>bs.
      Inr (pre @ bs @ replicate (m - n * it_size it) 0, pos + n * it_size it, arg + n))"
  using assms(3-5)
proof (induction n arbitrary: pre pos arg m)
  case (Suc n)
  have elems: "take (Suc n) (drop arg vs) = vs ! arg # take n (drop (Suc arg) vs)"
    using Suc.prems(3) by (simp add: take_Suc_conv_app_nth Cons_nth_drop_Suc [symmetric])
  have step: "pack_repeat ops it le n (pos + it_size it) vs (Suc arg) ((pre @ b) @ replicate (m - it_size it) 0) =
      bind_ok (encode_elems ops it le (take n (drop (Suc arg) vs))) (\<lambda>bs.
        Inr (pre @ (b @ bs) @ replicate (m - Suc n * it_size it) 0, pos + Suc n * it_size it, arg + Suc n))"
    if "length b = it_size it" for b
    using Suc.IH [of "pre @ b" "pos + it_size it" "m - it_size it" "Suc arg"] that Suc.prems
    by (simp add: diff_diff_add add.assoc)
  show ?case
    unfolding pack_repeat.simps elems encode_elems.simps bind_ok_assoc
    using pack_at_zeros [OF assms(1) Suc.prems(1), of m ops le "vs ! arg"] Suc.prems step assms(1,2)
      pack_element_length [OF assms(1), of "replicate (elem_width it) 0" ops le "vs ! arg"]
    by (auto simp: bind_ok_assoc intro!: bind_ok_cong_Inr)
qed simp

lemma field_count_width:
  "item_ok it \<Longrightarrow> it_kind it \<noteq> KPad \<Longrightarrow> it_kind it \<noteq> KStr \<Longrightarrow> it_kind it \<noteq> KPascal \<Longrightarrow>
     elem_count it = it_count it \<and> elem_width it = it_size it \<and> lead it = pad_before it"
  by (auto simp: elem_count_def field_args_def elem_width_def lead_def split: field_kind.splits)

lemma pack_items_encode:
  assumes "list_all item_ok its" "length pre = pos" "sum_list (map item_bytes its) = m"
    and "arg + sum_list (map elem_count its) \<le> length vs"
  shows "pack_items ops its le pos vs arg (pre @ replicate m 0) =
    bind_ok (encode_items ops its le (drop arg vs)) (\<lambda>bs. Inr (pre @ bs))"
  using assms
proof (induction its arbitrary: pre pos arg m)
  case (Cons it its)
  let ?rest = "sum_list (map item_bytes its)"
  have it: "item_ok it" and m: "m = lead it + elem_count it * elem_width it + ?rest"
    using Cons.prems by (auto simp: item_bytes_def [of it])
  have pre: "pre @ replicate m 0 = (pre @ replicate (lead it) 0) @ replicate (elem_count it * elem_width it + ?rest) 0"
    by (simp add: m replicate_add)
  have rest: "pack_items ops its le p vs (arg + elem_count it) (q @ replicate ?rest 0) =
      bind_ok (encode_items ops its le (drop (arg + elem_count it) vs)) (\<lambda>bs. Inr (q @ bs))" if "length q = p" for p q
    using Cons.IH [of q p ?rest "arg + elem_count it"] that Cons.prems by simp
  show ?case
  proof (cases "it_kind it = KPad")
    case True
    then show ?thesis
      using rest [of "pre @ replicate (lead it) 0"] Cons.prems(2)
      by (auto simp: pre elem_count_def field_args_def lead_def Let_def add.assoc bind_ok_assoc intro!: bind_ok_cong_Inr)
  next
    case nopad: False
    show ?thesis
    proof (cases "it_kind it = KStr \<or> it_kind it = KPascal")
      case True
      then have one: "elem_count it = 1" "elem_width it = it_count it" "lead it = pad_before it" "arg < length vs"
        using Cons.prems(4) by (auto simp: elem_count_def field_args_def elem_width_def lead_def)
      then have "take (elem_count it) (drop arg vs) = [vs ! arg]"
        by (simp add: take_Suc_conv_app_nth)
      moreover have "pack_at ops it le (pos + pad_before it) (it_count it) (vs ! arg) (pre @ replicate m 0) =
          bind_ok (pack_element ops it le (vs ! arg) (replicate (elem_width it) 0)) (\<lambda>b.
            Inr ((pre @ replicate (lead it) 0 @ b) @ replicate ?rest 0))"
        using pack_at_zeros [OF it, of "pre @ replicate (lead it) 0" "pos + pad_before it" "elem_width it + ?rest" ops le "vs ! arg"]
          one Cons.prems(2) unfolding pre by simp
      moreover have "pack_items ops its le (pos + pad_before it + it_count it) vs (Suc arg)
          (pre @ replicate (lead it) 0 @ b @ replicate ?rest 0) =
          bind_ok (encode_items ops its le (drop (Suc arg) vs)) (\<lambda>bs. Inr (pre @ replicate (lead it) 0 @ b @ bs))"
        if "pack_element ops it le (vs ! arg) (replicate (elem_width it) 0) = Inr b" for b
        using rest [of "pre @ replicate (lead it) 0 @ b" "pos + pad_before it + it_count it"]
          pack_element_length [OF it _ that] one Cons.prems(2) by simp
      ultimately show ?thesis
        using True nopad rest one
        by (auto simp: Let_def bind_ok_assoc intro!: bind_ok_cong_Inr)
    next
      case False
      note c = field_count_width [OF it nopad] False
      then have eq: "elem_count it = it_count it" "elem_width it = it_size it" "lead it = pad_before it" by auto
      have "pack_repeat ops it le (it_count it) (pos + pad_before it) vs arg (pre @ replicate m 0) =
          bind_ok (encode_elems ops it le (take (it_count it) (drop arg vs))) (\<lambda>bs.
            Inr ((pre @ replicate (lead it) 0 @ bs) @ replicate ?rest 0, pos + pad_before it + it_count it * it_size it, arg + it_count it))"
        using pack_repeat_encode [OF it eq(2), of "pre @ replicate (lead it) 0" "pos + pad_before it" "it_count it"
            "it_count it * it_size it + ?rest" arg vs ops le] Cons.prems(2,4) eq unfolding pre by simp
      moreover have "pack_items ops its le (pos + pad_before it + it_count it * it_size it) vs (arg + it_count it)
          (pre @ replicate (lead it) 0 @ bs @ replicate ?rest 0) =
          bind_ok (encode_items ops its le (drop (arg + it_count it) vs)) (\<lambda>cs. Inr (pre @ replicate (lead it) 0 @ bs @ cs))"
        if "encode_elems ops it le (take (it_count it) (drop arg vs)) = Inr bs" for bs
        using rest [of "pre @ replicate (lead it) 0 @ bs" "pos + pad_before it + it_count it * it_size it"]
          encode_elems_length [OF it that] eq Cons.prems(2,4) by simp
      ultimately show ?thesis
        using False nopad eq
        by (auto simp: Let_def bind_ok_assoc add.commute [of "it_count it"] intro!: bind_ok_cong_Inr)
    qed
  qed
qed simp

definition slots :: "field_item list \<Rightarrow> field_item list" where
  "slots its = concat (map (\<lambda>it. replicate (elem_count it) it) its)"

lemma slots_simps [simp]:
  "slots [] = []" "slots (it # its) = replicate (elem_count it) it @ slots its"
  by (simp_all add: slots_def)

lemma length_slots: "length (slots its) = sum_list (map elem_count its)"
  by (induction its) simp_all

lemma drop_prefix:
  assumes "drop pos data = a @ r" "pos \<le> length data"
  shows "drop (pos + length a) data = r" "pos + length a \<le> length data"
proof -
  have "drop (length a) (drop pos data) = r" using assms(1) by simp
  then show "drop (pos + length a) data = r" by (simp add: add.commute)
  have "length data - pos = length a + length r" using arg_cong [OF assms(1), of length] by simp
  then show "pos + length a \<le> length data" using assms(2) by simp
qed

lemma unpack_repeat_encoded:
  assumes "item_ok it" "it_kind it \<noteq> KPad" "elem_width it = it_size it"
    and "encode_elems ops it le vs = Inr bs" "drop pos data = bs @ rest" "pos \<le> length data"
  shows "unpack_repeat ops it le (length vs) pos data = map (canonical ops it) vs"
  using assms(4-6)
proof (induction vs arbitrary: bs pos)
  case (Cons v vs)
  then obtain b cs where b: "pack_element ops it le v (replicate (elem_width it) 0) = Inr b"
    and cs: "encode_elems ops it le vs = Inr cs" and bs: "bs = b @ cs"
    by (auto simp: bind_ok_Inr_iff)
  have len: "length b = it_size it" using pack_element_length [OF assms(1) _ b] assms(3) by simp
  have data: "drop pos data = b @ cs @ rest" using Cons.prems(2) bs by simp
  have "slice_of pos (it_size it) data = b" using data len by (simp add: slice_of_def)
  moreover have "drop (pos + it_size it) data = cs @ rest" "pos + it_size it \<le> length data"
    using drop_prefix [OF data Cons.prems(3)] len by simp_all
  ultimately show ?case
    using Cons.IH [OF cs, of "pos + it_size it"] unpack_packed_element [OF assms(1,2) b] by simp
qed simp

lemma unpack_items_encoded:
  assumes "list_all item_ok its" "encode_items ops its le vs = Inr bs" "sum_list (map elem_count its) = length vs"
    and "drop pos data = bs @ rest" "pos \<le> length data"
  shows "unpack_items ops its le pos data = map2 (canonical ops) (slots its) vs \<and> length bs = sum_list (map item_bytes its)"
  using assms
proof (induction its arbitrary: vs bs pos)
  case (Cons it its)
  let ?vs = "take (elem_count it) vs" and ?ws = "drop (elem_count it) vs"
  have it: "item_ok it" using Cons.prems(1) by simp
  obtain b cs where b: "encode_elems ops it le ?vs = Inr b" and cs: "encode_items ops its le ?ws = Inr cs"
    and bs: "bs = replicate (lead it) 0 @ b @ cs"
    using Cons.prems(2) by (auto simp: bind_ok_Inr_iff)
  have n: "length ?vs = elem_count it" using Cons.prems(3) by simp
  have len: "length b = elem_count it * elem_width it" using encode_elems_length [OF it b] n by simp
  have data: "drop pos data = replicate (lead it) 0 @ b @ cs @ rest" using Cons.prems(4) bs by simp
  have at: "drop (pos + lead it) data = b @ cs @ rest" "pos + lead it \<le> length data"
    using drop_prefix [OF data Cons.prems(5)] by simp_all
  note at2 = drop_prefix [OF at]
  have IH: "unpack_items ops its le (pos + lead it + length b) data = map2 (canonical ops) (slots its) ?ws"
    "length cs = sum_list (map item_bytes its)"
    using Cons.IH [OF _ cs _ at2] Cons.prems(1,3) by simp_all
  have slots: "map2 (canonical ops) (slots (it # its)) vs = map (canonical ops it) ?vs @ map2 (canonical ops) (slots its) ?ws"
  proof -
    have "map2 (canonical ops) (replicate (elem_count it) it) ?vs = map (canonical ops it) ?vs"
      using n by (intro nth_equalityI) auto
    then show ?thesis
      using n by (subst append_take_drop_id [symmetric, of vs "elem_count it"]) (simp del: append_take_drop_id)
  qed
  have "unpack_items ops (it # its) le pos data = map (canonical ops it) ?vs @ unpack_items ops its le (pos + lead it + length b) data"
  proof (cases "it_kind it = KPad")
    case True
    then show ?thesis using n len by (simp add: elem_count_def field_args_def lead_def Let_def add.assoc)
  next
    case nopad: False
    show ?thesis
    proof (cases "it_kind it = KStr \<or> it_kind it = KPascal")
      case True
      then have one: "elem_count it = 1" "elem_width it = it_count it" "lead it = pad_before it"
        by (auto simp: elem_count_def field_args_def elem_width_def lead_def)
      then obtain v where v: "?vs = [v]" using n by (metis One_nat_def length_0_conv length_Suc_conv)
      then have "pack_element ops it le v (replicate (elem_width it) 0) = Inr b" using b by (auto simp: bind_ok_Inr_iff)
      moreover have "slice_of (pos + pad_before it) (it_count it) data = b" using at(1) one len by (simp add: slice_of_def)
      ultimately show ?thesis
        using True nopad one len v unpack_packed_element [OF it nopad] by (simp add: Let_def)
    next
      case False
      then have eq: "elem_count it = it_count it" "elem_width it = it_size it" "lead it = pad_before it"
        using field_count_width [OF it nopad] by auto
      then show ?thesis
        using False nopad unpack_repeat_encoded [OF it nopad eq(2) b at(1,2)] n len by (simp add: Let_def)
    qed
  qed
  then show ?case using IH slots bs len by (simp add: item_bytes_def [of it])
qed simp

section \<open>Parsed formats\<close>

lemma code_spec_ok:
  assumes "code_spec code native = Some (k, sz, al)"
  shows "item_ok \<lparr>it_code = code, it_kind = k, it_count = n, it_size = sz, pad_before = pad\<rparr> \<and> 0 < al"
  using assms by (auto simp: code_spec_def item_ok_def split: if_splits)

text \<open>
  The documented table of format codes, independent of the one in the code: the kind of a code, its
  size (the standard one, or that of the C type under LP64 in native mode) and the alignment of its C
  type.  A complex C type is aligned like its parts.
\<close>

definition doc_kind :: "char \<Rightarrow> field_kind option" where
  "doc_kind c =
     (if c \<in> set ''bhilqn'' then Some KSigned
      else if c \<in> set ''BHILQNP'' then Some KUnsigned
      else if c \<in> set ''efd'' then Some KFloat
      else if c \<in> set ''FD'' then Some KComplex
      else map_of [(CHR ''x'', KPad), (CHR ''c'', KChar), (CHR ''s'', KStr), (CHR ''p'', KPascal), (CHR 0x3F, KBool)] c)"

definition doc_size :: "bool \<Rightarrow> char \<Rightarrow> nat" where
  "doc_size native c =
     (if c \<in> set ''hHe'' then 2
      else if c \<in> set ''iIf'' then 4
      else if c \<in> set ''lL'' then if native then 8 else 4
      else if c \<in> set ''qQdnNPF'' then 8
      else if c = CHR ''D'' then 16
      else 1)"

definition c_align :: "char \<Rightarrow> nat" where
  "c_align c = (if c \<in> set ''FD'' then doc_size True c div 2 else doc_size True c)"

definition aligned :: "bool \<Rightarrow> nat \<Rightarrow> field_item \<Rightarrow> bool" where
  "aligned native pos it \<longleftrightarrow>
     doc_kind (it_code it) = Some (it_kind it) \<and> it_size it = doc_size native (it_code it) \<and>
     (it_code it \<in> set ''nNP'' \<longrightarrow> native) \<and>
     (if native \<and> it_code it \<notin> set ''FD''
      then c_align (it_code it) dvd pos + pad_before it \<and> pad_before it < c_align (it_code it)
      else pad_before it = 0)"

fun aligned_from :: "bool \<Rightarrow> nat \<Rightarrow> field_item list \<Rightarrow> bool" where
  "aligned_from native pos [] = True"
| "aligned_from native pos (it # its) = (aligned native pos it \<and> aligned_from native (pos + item_bytes it) its)"

lemma code_spec_documented:
  assumes "code_spec code native = Some (k, sz, al)"
  shows "doc_kind code = Some k \<and> sz = doc_size native code \<and> (code \<in> set ''nNP'' \<longrightarrow> native) \<and>
    (native \<longrightarrow> al = (if code \<in> set ''FD'' then 1 else c_align code))"
  using assms by (simp add: code_spec_def doc_kind_def doc_size_def c_align_def split: if_splits)

lemma code_spec_complete:
  "code_spec code native = None \<longleftrightarrow> doc_kind code = None \<or> code \<in> set ''nNP'' \<and> \<not> native"
  by (simp add: code_spec_def doc_kind_def)

text \<open>
  The items a format text names: each an optional decimal repeat count and a code, with white space
  between them.
\<close>

definition decimal :: "char list \<Rightarrow> nat" where
  "decimal ds = foldl (\<lambda>v d. v * 10 + (char_code d - 48)) 0 ds"

function named_items :: "char list \<Rightarrow> (nat \<times> char) list" where
  "named_items cs =
     (let body = dropWhile is_ascii_whitespace cs;
          ds = takeWhile is_ascii_digit body;
          rest = dropWhile is_ascii_digit body
      in if rest = [] then [] else (if ds = [] then 1 else decimal ds, hd rest) # named_items (tl rest))"
  by pat_completeness auto
termination
proof (relation "measure length", goal_cases)
  case (2 cs body ds rest)
  then have "length rest \<le> length cs"
    by (metis le_trans length_dropWhile_le)
  moreover have "0 < length rest" using 2(4) by (simp only: length_greater_0_conv not_False_eq_True)
  ultimately show ?case by (simp only: in_measure length_tl)
qed simp

declare named_items.simps [simp del]

lemma read_count_digits:
  "read_count cs v = Inr (n, rest) \<Longrightarrow>
     n = foldl (\<lambda>v d. v * 10 + (char_code d - 48)) v (takeWhile is_ascii_digit cs) \<and> rest = dropWhile is_ascii_digit cs"
  by (induction cs v rule: read_count.induct) (auto split: if_splits)

lemma repeat_count_digits:
  assumes "repeat_count cs = Inr (n, rest)"
  shows "rest = dropWhile is_ascii_digit cs \<and>
    n = (if takeWhile is_ascii_digit cs = [] then 1 else decimal (takeWhile is_ascii_digit cs))"
proof (cases cs)
  case (Cons c cs')
  then show ?thesis
    using assms read_count_digits [of cs 0 n rest] by (auto simp: repeat_count_def decimal_def split: if_splits)
qed (use assms in \<open>simp add: repeat_count_def\<close>)

lemma named_items_space: "is_ascii_whitespace c \<Longrightarrow> named_items (c # cs) = named_items cs"
  by (subst (1 2) named_items.simps) simp

lemma named_items_next:
  assumes "\<not> is_ascii_whitespace (hd cs)" "cs \<noteq> []" "repeat_count cs = Inr (n, rest)" "rest \<noteq> []"
  shows "named_items cs = (n, hd rest) # named_items (tl rest)"
proof -
  have "dropWhile is_ascii_whitespace cs = cs" using assms(1,2) by (cases cs) auto
  then show ?thesis
    using repeat_count_digits [OF assms(3)] assms(4) by (subst named_items.simps) (simp add: Let_def)
qed

lemma aligned_from_snoc:
  "aligned_from native pos (its @ [it]) \<longleftrightarrow>
     aligned_from native pos its \<and> aligned native (pos + sum_list (map item_bytes its)) it"
  by (induction its arbitrary: pos) (auto simp: add.assoc)

lemma pad_aligns:
  fixes pos al :: nat
  assumes "0 < al" "pad = (if pos mod al = 0 then 0 else al - pos mod al)"
  shows "(pos + pad) mod al = 0 \<and> pad < al"
proof (cases "pos mod al = 0")
  case False
  have "pos + (al - pos mod al) = al * (pos div al) + al"
    using mod_less_divisor [OF assms(1), of pos] mult_div_mod_eq [of al pos] by linarith
  then show ?thesis using assms False mod_less_divisor [OF assms(1), of pos] by simp
qed (use assms in simp)

lemma place_item_ok:
  assumes "place_item native code count pos = Inr (it, pos')"
  shows "item_ok it \<and> aligned native pos it \<and> pos' = pos + item_bytes it \<and> pos' < USIZE \<and>
    it_code it = code \<and> it_count it = count \<and> field_args (it_kind it) count = elem_count it \<and> elem_count it \<le> item_bytes it + 1"
proof -
  obtain k sz al where spec: "code_spec code native = Some (k, sz, al)"
    using assms by (auto simp: place_item_def split: option.splits)
  define pad where "pad = (let a = if native then al else 1 in if pos mod a = 0 then 0 else a - pos mod a)"
  have it: "it = \<lparr>it_code = code, it_kind = k, it_count = count, it_size = sz, pad_before = pad\<rparr>"
    "pos' = pos + pad + field_bytes k count sz" "pos' < USIZE"
    using assms spec by (auto simp: place_item_def pad_def Let_def split: if_splits)
  have ok: "item_ok it" "0 < al" using code_spec_ok [OF spec] it(1) by auto
  then have "aligned native pos it"
    using code_spec_documented [OF spec] it(1) pad_aligns [of al pad pos]
    by (auto simp: aligned_def pad_def Let_def mod_eq_0_iff_dvd split: if_splits)
  moreover have "pad + field_bytes k count sz = item_bytes it"
    using it(1) ok(1) by (cases k) (auto simp: field_bytes_def item_bytes_def lead_def elem_count_def field_args_def elem_width_def item_ok_def)
  moreover have "elem_count it \<le> item_bytes it + 1"
    using it(1) ok(1) by (cases k) (auto simp: item_bytes_def lead_def elem_count_def field_args_def elem_width_def item_ok_def)
  ultimately show ?thesis using it ok by (simp add: elem_count_def)
qed

definition parse_inv :: "bool \<Rightarrow> field_item list \<Rightarrow> nat \<Rightarrow> nat \<Rightarrow> bool" where
  "parse_inv native its pos args \<longleftrightarrow>
     list_all item_ok its \<and> aligned_from native 0 its \<and> pos = sum_list (map item_bytes its) \<and> pos < USIZE \<and>
     args = sum_list (map elem_count its) mod USIZE \<and> sum_list (map elem_count its) \<le> pos + length its"

lemma parse_loop_inv:
  "parse_loop native body pos args its = Inr (its', pos', args') \<Longrightarrow> parse_inv native its pos args \<Longrightarrow>
     parse_inv native its' pos' args' \<and> length its' \<le> length its + length body \<and>
     map (\<lambda>it. (it_count it, it_code it)) its' = map (\<lambda>it. (it_count it, it_code it)) its @ named_items body"
proof (induction native body pos args its rule: parse_loop.induct)
  case (1 native body pos args its)
  show ?case
  proof (cases "body = [] \<or> is_ascii_whitespace (hd body)")
    case True
    then show ?thesis
      using 1 by (subst (asm) (2) parse_loop.simps)
        (auto simp: neq_Nil_conv named_items_space named_items.simps [of "[]"] split: if_splits)
  next
    case False
    then obtain count rest it p where steps: "repeat_count body = Inr (count, rest)" "rest \<noteq> []"
      "place_item native (hd rest) count pos = Inr (it, p)"
      and next_step: "parse_loop native (tl rest) p ((args + field_args (it_kind it) count) mod USIZE) (its @ [it]) = Inr (its', pos', args')"
      using "1.prems"(1) by (subst (asm) parse_loop.simps) (auto split: sum.splits if_splits)
    note placed = place_item_ok [OF steps(3)]
    have "parse_inv native (its @ [it]) p ((args + field_args (it_kind it) count) mod USIZE)"
      using "1.prems"(2) placed by (auto simp: parse_inv_def aligned_from_snoc mod_simps)
    then have "parse_inv native its' pos' args' \<and> length its' \<le> length (its @ [it]) + length (tl rest) \<and>
        map (\<lambda>it. (it_count it, it_code it)) its' = map (\<lambda>it. (it_count it, it_code it)) (its @ [it]) @ named_items (tl rest)"
      using "1.IH"(2) False steps next_step by auto
    then show ?thesis
      using repeat_count_length [OF steps(1)] steps(2) named_items_next [OF _ _ steps(1,2)] False placed
      by (auto simp: neq_Nil_conv)
  qed
qed

lemma parse_format_inv:
  assumes "parse_format host_little t = Inr f"
  shows "parse_inv (fst (byte_order host_little t)) (fmt_items f) (fmt_size f) (arg_count f) \<and> length (fmt_items f) \<le> length t \<and>
    map (\<lambda>it. (it_count it, it_code it)) (fmt_items f) = named_items (snd (snd (byte_order host_little t)))"
proof -
  obtain native le body where o: "byte_order host_little t = (native, le, body)" by (cases "byte_order host_little t")
  have "length body \<le> length t" using o by (auto simp: byte_order_def split: list.splits if_splits)
  moreover have "parse_inv native [] 0 0" by (simp add: parse_inv_def USIZE_def)
  ultimately show ?thesis
    using assms o parse_loop_inv [of native body 0 0 "[]"] by (fastforce simp: parse_format_def bind_ok_Inr_iff)
qed

lemma parsed_counts:
  assumes "parse_format host_little t = Inr f" "length t < 2 ^ 63" "fmt_size f < 2 ^ 63"
  shows "list_all item_ok (fmt_items f)" "fmt_size f = sum_list (map item_bytes (fmt_items f))"
    "arg_count f = sum_list (map elem_count (fmt_items f))"
  using parse_format_inv [OF assms(1)] assms(2,3) by (auto simp: parse_inv_def USIZE_def)

text \<open>
  C28. The layout of a parsed format, against the documented table of codes (LP64 sizes in native mode).
  The items are the repeat counts and codes the text names, in order, each with the kind and size of
  the table; \<open>n\<close>, \<open>N\<close> and \<open>P\<close> occur in native mode only.  In native mode every item but the complex ones
  starts at a multiple of the alignment of its C type with the least padding; \<open>F\<close> and \<open>D\<close> are never
  padded, although a C complex is aligned like its parts; outside native mode there is no padding.
  The size is the sum of the items with their padding and fits in 64 bits, and as long as it is below
  \<open>2 ^ 63\<close> the number of arguments is the number of elements, without wrapping.  (No Rust string is
  longer than \<open>isize::MAX\<close>.)
\<close>
theorem parse_format_layout:
  assumes "parse_format host_little t = Inr f" "length t < 2 ^ 63"
  shows "map (\<lambda>it. (it_count it, it_code it)) (fmt_items f) = named_items (snd (snd (byte_order host_little t))) \<and>
    aligned_from (fst (byte_order host_little t)) 0 (fmt_items f) \<and>
    fmt_size f = sum_list (map item_bytes (fmt_items f)) \<and> fmt_size f < 2 ^ 64 \<and>
    (fmt_size f < 2 ^ 63 \<longrightarrow> arg_count f = length (slots (fmt_items f)))"
  using parse_format_inv [OF assms(1)] assms(2) by (auto simp: parse_inv_def USIZE_def length_slots)

text \<open>
  A native complex item right after a byte sits at offset 1, where its C type would be at offset 4.
\<close>
theorem complex_item_unaligned:
  "\<exists>f. parse_format True ''bF'' = Inr f \<and> map pad_before (fmt_items f) = [0, 0] \<and> fmt_size f = 9 \<and> c_align CHR ''F'' = 4"
  by (simp add: parse_format_def byte_order_def parse_loop.simps repeat_count_def is_ascii_whitespace_def is_ascii_digit_def
      char_code_def place_item_def code_spec_def field_bytes_def field_args_def USIZE_def c_align_def doc_size_def Let_def)

lemma pack_values_encode:
  assumes "parse_format host_little t = Inr f" "length t < 2 ^ 63" "fmt_size f < 2 ^ 63" "length values = arg_count f"
  shows "pack_values ops f values = encode_items ops (fmt_items f) (little f) values"
proof -
  note c = parsed_counts [OF assms(1-3)]
  have "bind_ok m (\<lambda>bs. Inr bs) = m" for m :: "struct_error + u8 list" by (cases m) simp_all
  then show ?thesis
    using pack_items_encode [OF c(1), of "[]" 0 "fmt_size f" 0 "values" ops "little f"] c assms(3,4)
    by (simp add: pack_values_def)
qed

lemma encode_elems_taken:
  assumes "item_ok it"
  shows "(\<exists>bs. encode_elems ops it le vs = Inr bs) \<longleftrightarrow> it_kind it = KPad \<or> list_all (takes ops it) vs"
proof (cases "it_kind it = KPad")
  case True
  have "\<exists>bs. encode_elems ops it le vs = Inr bs"
    by (induction vs) (auto simp: pack_element_def True bind_ok_Inr_iff)
  then show ?thesis using True by simp
next
  case False
  show ?thesis
  proof (induction vs)
    case (Cons v vs)
    then show ?case
      using pack_element_taken [OF assms, of "replicate (elem_width it) 0" ops le v] False
      by (auto simp: bind_ok_Inr_iff)
  qed simp
qed

lemma encode_items_taken:
  assumes "list_all item_ok its" "sum_list (map elem_count its) = length vs"
  shows "(\<exists>bs. encode_items ops its le vs = Inr bs) \<longleftrightarrow> list_all2 (takes ops) (slots its) vs"
  using assms
proof (induction its arbitrary: vs)
  case (Cons it its)
  let ?n = "elem_count it"
  have n: "length (take ?n vs) = ?n" using Cons.prems(2) by simp
  have pad: "it_kind it = KPad \<Longrightarrow> ?n = 0" by (simp add: elem_count_def field_args_def)
  have "list_all2 (takes ops) (replicate ?n it) (take ?n vs) \<longleftrightarrow> list_all (takes ops it) (take ?n vs)"
    using n by (auto simp: list_all2_conv_all_nth list_all_length)
  moreover have "list_all2 (takes ops) (slots (it # its)) vs \<longleftrightarrow>
      list_all2 (takes ops) (replicate ?n it) (take ?n vs) \<and> list_all2 (takes ops) (slots its) (drop ?n vs)"
    using n by (subst append_take_drop_id [symmetric, of vs ?n]) (simp add: list_all2_append del: append_take_drop_id)
  moreover have "(\<exists>bs. encode_items ops (it # its) le vs = Inr bs) \<longleftrightarrow>
      (\<exists>bs. encode_elems ops it le (take ?n vs) = Inr bs) \<and> (\<exists>bs. encode_items ops its le (drop ?n vs) = Inr bs)"
    by (auto simp: bind_ok_Inr_iff)
  ultimately show ?case
    using Cons encode_elems_taken [of it ops le "take ?n vs"] pad by auto
qed simp

lemma packed_record:
  assumes "parse_format host_little t = Inr f" "length t < 2 ^ 63" "fmt_size f < 2 ^ 63" "struct_pack ops f values = Inr bs"
  shows "length bs = fmt_size f" "unpack_record ops f bs = map2 (canonical ops) (slots (fmt_items f)) values"
proof -
  note c = parsed_counts [OF assms(1-3)]
  have n: "length values = arg_count f" using assms(4) by (auto simp: struct_pack_def split: if_splits)
  then have "encode_items ops (fmt_items f) (little f) values = Inr bs"
    using pack_values_encode [OF assms(1-3)] assms(4) by (auto simp: struct_pack_def)
  then show "length bs = fmt_size f" "unpack_record ops f bs = map2 (canonical ops) (slots (fmt_items f)) values"
    using unpack_items_encoded [OF c(1), of ops "little f" "values" bs 0 bs "[]"] c n by (auto simp: unpack_record_def)
qed

text \<open>
  C14. Packing and unpacking round trip.  Packing with a parsed format succeeds exactly when the format's
  size is below \<open>2 ^ 63\<close> (a larger record cannot be allocated and panics), the number of arguments is
  the format's and every argument is taken by its item (the right type, in range); then the record has
  exactly the format's size, and unpacking it gives back every argument in its canonical form:
  integers exactly, byte strings truncated or zero-padded to their field, doubles bit for bit.  (No
  Rust string is longer than \<open>isize::MAX\<close>, so the bound on the text always holds.)
\<close>
theorem pack_unpack_roundtrip:
  assumes "parse_format host_little t = Inr f" "length t < 2 ^ 63"
  shows "((\<exists>bs. struct_pack ops f values = Inr bs) \<longleftrightarrow>
      fmt_size f < 2 ^ 63 \<and> list_all2 (takes ops) (slots (fmt_items f)) values) \<and>
    (fmt_size f \<ge> 2 ^ 63 \<longrightarrow> struct_pack ops f values \<in> {Inl Panic, Inl (WrongCount (arg_count f) (length values))}) \<and>
    (\<forall>bs. struct_pack ops f values = Inr bs \<longrightarrow>
       length bs = fmt_size f \<and>
       struct_unpack ops f (VBytes bs) = Inr (map2 (canonical ops) (slots (fmt_items f)) values))"
proof (cases "fmt_size f < 2 ^ 63")
  case small: True
  show ?thesis
  proof (cases "length values = arg_count f")
    case True
    note c = parsed_counts [OF assms small]
    have pack: "struct_pack ops f values = encode_items ops (fmt_items f) (little f) values"
      using pack_values_encode [OF assms small True] True by (simp add: struct_pack_def)
    then show ?thesis
      using encode_items_taken [OF c(1), of "values" ops "little f"] c True packed_record [OF assms small, of ops "values"] small
      by (auto simp: struct_unpack_def buffer_arg_def)
  next
    case False
    then show ?thesis
      using parsed_counts [OF assms small] list_all2_lengthD small by (fastforce simp: struct_pack_def length_slots)
  qed
qed (simp add: struct_pack_def pack_values_def)

text \<open>A little-endian short and an unsigned byte.\<close>

definition short_byte :: struct_format where
  "short_byte =
     \<lparr>little = True,
      fmt_items = [\<lparr>it_code = CHR ''h'', it_kind = KSigned, it_count = 1, it_size = 2, pad_before = 0\<rparr>,
                   \<lparr>it_code = CHR ''B'', it_kind = KUnsigned, it_count = 1, it_size = 1, pad_before = 0\<rparr>],
      fmt_size = 3, arg_count = 2\<rparr>"

definition plain_ops :: py_ops where
  "plain_ops = \<lparr>truth = (\<lambda>v. Some (v \<noteq> VInt 0)), int_to_f64 = (\<lambda>_. None), f64_to_f32 = ucast, f32_to_f64 = ucast,
     f64_to_f16_bits = (\<lambda>x. Some (ucast x)), f16_bits_to_f64 = ucast\<rparr>"

lemma short_byte_parsed: "parse_format True ''<hB'' = Inr short_byte"
  by (simp add: parse_format_def byte_order_def parse_loop.simps repeat_count_def is_ascii_whitespace_def is_ascii_digit_def
      char_code_def place_item_def code_spec_def field_bytes_def field_args_def USIZE_def short_byte_def Let_def)

lemma short_byte_size: "fmt_size short_byte < 2 ^ 63"
  by (simp add: short_byte_def)

text \<open>A native byte and int: the int is padded to offset 4.\<close>

definition byte_int :: struct_format where
  "byte_int =
     \<lparr>little = True,
      fmt_items = [\<lparr>it_code = CHR ''b'', it_kind = KSigned, it_count = 1, it_size = 1, pad_before = 0\<rparr>,
                   \<lparr>it_code = CHR ''i'', it_kind = KSigned, it_count = 2, it_size = 4, pad_before = 3\<rparr>],
      fmt_size = 12, arg_count = 3\<rparr>"

lemma byte_int_parsed: "parse_format True ''b 2i'' = Inr byte_int"
  by (simp add: parse_format_def byte_order_def parse_loop.simps repeat_count_def is_ascii_whitespace_def is_ascii_digit_def
      char_code_def place_item_def code_spec_def field_bytes_def field_args_def USIZE_def byte_int_def Let_def)

theorem parse_format_layout_witness:
  "named_items ''b 2i'' = [(1, CHR ''b''), (2, CHR ''i'')] \<and> aligned_from True 0 (fmt_items byte_int) \<and>
   arg_count byte_int = length (slots (fmt_items byte_int))"
  using parse_format_layout [OF byte_int_parsed] by (simp add: byte_int_def byte_order_def)

theorem pack_unpack_roundtrip_witness:
  "\<exists>bs. struct_pack plain_ops short_byte [VInt (- 2), VInt 200] = Inr bs \<and>
     struct_unpack plain_ops short_byte (VBytes bs) = Inr [VInt (- 2), VInt 200]"
proof -
  have slots: "slots (fmt_items short_byte) = fmt_items short_byte"
    by (simp add: short_byte_def elem_count_def field_args_def)
  have "list_all2 (takes plain_ops) (slots (fmt_items short_byte)) [VInt (- 2), VInt 200]"
    unfolding slots by (simp add: short_byte_def takes_def to_bigint_including_bool_def)
  moreover have "map2 (canonical plain_ops) (slots (fmt_items short_byte)) [VInt (- 2), VInt 200] = [VInt (- 2), VInt 200]"
    unfolding slots by (simp add: short_byte_def canonical_def to_bigint_including_bool_def)
  ultimately show ?thesis
    using pack_unpack_roundtrip [OF short_byte_parsed, of plain_ops "[VInt (- 2), VInt 200]"] short_byte_size by auto
qed

section \<open>Records inside a buffer\<close>

lemma as_isize_small: "n < 2 ^ 63 \<Longrightarrow> as_isize n = int n"
proof -
  assume n: "n < 2 ^ 63"
  have "as_isize n = signed_take_bit 63 (int n)"
    by (simp add: as_isize_def signed_of_nat)
  also have "\<dots> = int n" using n by (intro signed_take_bit_int_eq_self) auto
  finally show ?thesis .
qed

lemma record_window_Inr:
  assumes "record_window f bs offset = Inr at"
  shows "at + fmt_size f \<le> length bs" "int at = (if offset < 0 then offset + int (length bs) else offset)"
  using assms by (auto simp: record_window_def Let_def split: if_splits)

lemma record_window_complete:
  assumes "fmt_size f < 2 ^ 63"
  shows "(\<exists>at. record_window f bs offset = Inr at) \<longleftrightarrow>
    (let start = (if offset < 0 then offset + int (length bs) else offset) in 0 \<le> start \<and> start + int (fmt_size f) \<le> int (length bs))"
  using assms by (auto simp: record_window_def Let_def as_isize_small split: if_splits)

lemma overwrite_window:
  assumes "at + length xs \<le> length bs"
  shows "slice_of at (length xs) (overwrite xs at bs) = xs"
  using assms by (simp add: overwrite_def slice_of_def)

text \<open>
  A record packed into a buffer is read back from the same place.  Packing at an offset succeeds
  only if the window lies inside the buffer (a negative offset counts from the end); it keeps the
  buffer's length and every byte outside the window, and unpacking at the same offset gives the
  arguments in canonical form.
\<close>
theorem pack_into_unpack_from:
  assumes "parse_format host_little t = Inr f" "length t < 2 ^ 63" "fmt_size f < 2 ^ 63"
    and "struct_pack_into ops f (VByteArray bs) offset values = Inr bs'"
  shows "\<exists>at. int at = (if offset < 0 then offset + int (length bs) else offset) \<and> at + fmt_size f \<le> length bs \<and>
    length bs' = length bs \<and> take at bs' = take at bs \<and> drop (at + fmt_size f) bs' = drop (at + fmt_size f) bs \<and>
    struct_unpack_from ops f (VByteArray bs') offset = Inr (map2 (canonical ops) (slots (fmt_items f)) values)"
proof -
  obtain at packed where w: "record_window f bs offset = Inr at" and p: "struct_pack ops f values = Inr packed"
    and bs': "bs' = overwrite packed at bs"
    using assms(4) by (auto simp: struct_pack_into_def writable_buffer_arg_def bind_ok_Inr_iff struct_pack_def split: if_splits)
  note window = record_window_Inr [OF w]
  note packed = packed_record [OF assms(1-3) p]
  have "length bs' = length bs" using packed window(1) by (simp add: bs')
  then have "record_window f bs' offset = Inr at"
    using w by (simp only: record_window_def)
  then show ?thesis
    using packed window overwrite_window [of at packed bs]
    by (intro exI [of _ at]) (auto simp: bs' struct_unpack_from_def buffer_arg_def overwrite_def)
qed

theorem pack_into_unpack_from_witness:
  "\<exists>bs'. struct_pack_into plain_ops short_byte (VByteArray [1, 2, 3, 4, 5]) (- 4) [VInt (- 2), VInt 200] = Inr bs' \<and>
     drop 4 bs' = [5] \<and> struct_unpack_from plain_ops short_byte (VByteArray bs') (- 4) = Inr [VInt (- 2), VInt 200]"
proof -
  let ?vs = "[VInt (- 2), VInt 200]" and ?bs = "[1, 2, 3, 4, 5] :: u8 list"
  have slots: "slots (fmt_items short_byte) = fmt_items short_byte"
    by (simp add: short_byte_def elem_count_def field_args_def)
  have "list_all2 (takes plain_ops) (slots (fmt_items short_byte)) ?vs"
    unfolding slots by (simp add: short_byte_def takes_def to_bigint_including_bool_def)
  then have "\<exists>bs. encode_items plain_ops (fmt_items short_byte) (little short_byte) ?vs = Inr bs"
    by (subst encode_items_taken) (simp_all add: short_byte_def item_ok_def elem_count_def field_args_def)
  then obtain packed where p: "pack_values plain_ops short_byte ?vs = Inr packed"
    using pack_values_encode [OF short_byte_parsed _ short_byte_size, of ?vs plain_ops] by (auto simp: short_byte_def)
  moreover have "record_window short_byte ?bs (- 4) = Inr 1"
    by (simp add: record_window_def short_byte_def as_isize_def)
  ultimately obtain bs' where b: "struct_pack_into plain_ops short_byte (VByteArray ?bs) (- 4) ?vs = Inr bs'"
    by (auto simp: struct_pack_into_def writable_buffer_arg_def short_byte_def)
  have "map2 (canonical plain_ops) (slots (fmt_items short_byte)) ?vs = ?vs"
    unfolding slots by (simp add: short_byte_def canonical_def to_bigint_including_bool_def)
  then show ?thesis
    using pack_into_unpack_from [OF short_byte_parsed _ short_byte_size b] b by (auto simp: short_byte_def)
qed

section \<open>Iteration\<close>

fun run_iter :: "py_ops \<Rightarrow> nat \<Rightarrow> unpack_iterator \<Rightarrow> struct_value list list \<times> unpack_iterator" where
  "run_iter ops 0 st = ([], st)"
| "run_iter ops (Suc n) st =
     (case unpack_iter_next ops st of
        Inl e \<Rightarrow> ([], st)
      | Inr (r, st1) \<Rightarrow> (let (rs, st2) = run_iter ops n st1 in (r # rs, st2)))"

lemma run_iter_from:
  assumes "0 < fmt_size f" "length data = m * fmt_size f" "k + n = m"
  shows "run_iter ops n \<lparr>iter_fmt = f, iter_data = data, iter_pos = k * fmt_size f\<rparr> =
    (map (\<lambda>i. unpack_record ops f (slice_of (i * fmt_size f) (fmt_size f) data)) [k..<m],
     \<lparr>iter_fmt = f, iter_data = data, iter_pos = m * fmt_size f\<rparr>)"
  using assms(3)
proof (induction n arbitrary: k)
  case (Suc n)
  then have k: "k < m" by simp
  then have "k * fmt_size f + fmt_size f \<le> m * fmt_size f"
    using mult_le_mono1 [of "Suc k" m "fmt_size f"] by simp
  then have "unpack_iter_next ops \<lparr>iter_fmt = f, iter_data = data, iter_pos = k * fmt_size f\<rparr> =
      Inr (unpack_record ops f (slice_of (k * fmt_size f) (fmt_size f) data),
           \<lparr>iter_fmt = f, iter_data = data, iter_pos = Suc k * fmt_size f\<rparr>)"
    using assms(1,2) k by (auto simp: unpack_iter_next_def)
  then show ?case using Suc.IH [of "Suc k"] Suc.prems k by (simp add: upt_conv_Cons)
qed simp

text \<open>
  Iterating over a buffer.  The iterator is refused for a record of size zero and for a buffer
  that is not a whole number of records; otherwise it yields exactly the consecutive records of the
  buffer, in order, and then stops.
\<close>
theorem iter_unpack_exact:
  "(case struct_iter_unpack f (VBytes data) of
      Inl e \<Rightarrow> fmt_size f = 0 \<or> length data mod fmt_size f \<noteq> 0
    | Inr st \<Rightarrow> let (rs, st') = run_iter ops (length data div fmt_size f) st in
        fmt_size f \<noteq> 0 \<and>
        rs = map (\<lambda>i. unpack_record ops f (slice_of (i * fmt_size f) (fmt_size f) data)) [0..<length data div fmt_size f] \<and>
        unpack_iter_next ops st' = Inl StopIter)"
proof (cases "fmt_size f = 0 \<or> length data mod fmt_size f \<noteq> 0")
  case True
  then show ?thesis by (auto simp: struct_iter_unpack_def buffer_arg_def)
next
  case False
  then have "length data = length data div fmt_size f * fmt_size f" by auto
  then show ?thesis
    using False run_iter_from [of f data "length data div fmt_size f" 0 _ ops]
    by (simp add: struct_iter_unpack_def buffer_arg_def unpack_iter_next_def)
qed

section \<open>Sizes past the signed range\<close>

text \<open>
  The size limit is the unsigned one.  A format of \<open>2 ^ 63\<close> bytes parses; its size is reported as
  a negative number, and reading it from an empty buffer passes the length check and panics on the
  slice.
\<close>
theorem oversized_format_accepted:
  "\<exists>f. parse_format True ''<9223372036854775808s'' = Inr f \<and> calcsize f = - (2 ^ 63) \<and>
     struct_unpack_from ops f (VBytes []) 0 = Inl Panic"
proof -
  let ?f = "\<lparr>little = True, fmt_items = [\<lparr>it_code = CHR ''s'', it_kind = KStr, it_count = 9223372036854775808, it_size = 1, pad_before = 0\<rparr>],
      fmt_size = 9223372036854775808, arg_count = 1\<rparr>"
  have "parse_format True ''<9223372036854775808s'' = Inr ?f"
    by (simp add: parse_format_def byte_order_def parse_loop.simps repeat_count_def is_ascii_whitespace_def is_ascii_digit_def
        char_code_def place_item_def code_spec_def field_bytes_def field_args_def USIZE_def)
  moreover have "calcsize ?f = - (2 ^ 63)" by (simp add: calcsize_def as_isize_def)
  ultimately show ?thesis
    by (intro exI [of _ ?f]) (simp add: struct_unpack_from_def buffer_arg_def record_window_def calcsize_def as_isize_def)
qed

end
