(* ===== verification/Critical_Section.thy ===== *)
theory Critical_Section
  imports Pon_Prelude
begin

text \<open>
  Object critical sections, \<^verbatim>\<open>pon-runtime/src/sync.rs\<close>: per-object mutexes keyed by address, a
  thread-local stack of sections, suspension of the locks a thread holds when a nested section needs
  a new one, and their restoration when it ends.  A guard is present (\<open>guarded\<close>) or absent; taking
  and dropping a guard acts on the shared \<open>owner\<close> map, and a thread waits while the mutex it wants has
  an owner.  Every mutex acquisition is one step; dropping guards never waits, so the drops that a
  call makes together are part of its step.  Mutexes are never poisoned here: the sections guard
  unit values.
\<close>

section \<open>The thread-local stack\<close>

type_synonym lock_key = nat
type_synonym thread_id = nat

definition GLOBAL_CRITICAL_SECTION_KEY :: lock_key where "GLOBAL_CRITICAL_SECTION_KEY = 0"

record held_lock =
  lk_key :: lock_key
  owns :: bool
  guarded :: bool

record cs_frame =
  locks :: "held_lock list"
  suspended :: "lock_key list"

type_synonym cs_stack = "cs_frame list"

definition ordered_keys :: "lock_key list \<Rightarrow> lock_key list" where
  "ordered_keys keys = remdups_adj (sort keys)"

definition is_active :: "held_lock \<Rightarrow> bool" where
  "is_active l \<longleftrightarrow> owns l \<and> guarded l"

definition all_locks :: "cs_stack \<Rightarrow> held_lock list" where
  "all_locks stack = concat (map locks stack)"

definition active_lock_keys :: "cs_stack \<Rightarrow> lock_key list" where
  "active_lock_keys stack = ordered_keys (map lk_key (filter is_active (all_locks stack)))"

definition map_locks :: "(held_lock \<Rightarrow> held_lock) \<Rightarrow> cs_stack \<Rightarrow> cs_stack" where
  "map_locks g stack = map (\<lambda>fr. fr\<lparr>locks := map g (locks fr)\<rparr>) stack"

definition drop_guard :: "held_lock \<Rightarrow> held_lock" where
  "drop_guard l = (if is_active l then l\<lparr>guarded := False\<rparr> else l)"

definition suspend_active_locks :: "cs_stack \<Rightarrow> cs_stack \<times> lock_key list" where
  "suspend_active_locks stack = (map_locks drop_guard stack, active_lock_keys stack)"

definition lacks_guard :: "lock_key \<Rightarrow> held_lock \<Rightarrow> bool" where
  "lacks_guard k l \<longleftrightarrow> lk_key l = k \<and> owns l \<and> \<not> guarded l"

fun guard_first :: "lock_key \<Rightarrow> held_lock list \<Rightarrow> held_lock list option" where
  "guard_first k [] = None"
| "guard_first k (l # ls) =
     (if lacks_guard k l then Some (l\<lparr>guarded := True\<rparr> # ls) else map_option (Cons l) (guard_first k ls))"

text \<open>The first frame from the bottom with a matching lock takes the guard; with no match it is dropped.\<close>

fun restore_lock :: "lock_key \<Rightarrow> cs_stack \<Rightarrow> cs_stack option" where
  "restore_lock k [] = None"
| "restore_lock k (fr # frs) =
     (case guard_first k (locks fr) of
        Some ls \<Rightarrow> Some (fr\<lparr>locks := ls\<rparr> # frs)
      | None \<Rightarrow> map_option (Cons fr) (restore_lock k frs))"

section \<open>Threads over shared mutexes\<close>

datatype cs_phase =
    Running
  | Acquiring "lock_key list" "held_lock list" "lock_key list" "lock_key list"
  | Restoring "lock_key list"

record cs_thread =
  cs_stack :: cs_stack
  cs_phase :: cs_phase

type_synonym owners = "lock_key \<Rightarrow> thread_id option"

record cs_state =
  owner :: owners
  cs_threads :: "thread_id \<Rightarrow> cs_thread"

definition release :: "lock_key list \<Rightarrow> owners \<Rightarrow> owners" where
  "release ks w = (\<lambda>k. if k \<in> set ks then None else w k)"

definition owning :: "lock_key \<Rightarrow> held_lock" where
  "owning k = \<lparr>lk_key = k, owns = True, guarded = True\<rparr>"

definition borrowed :: "lock_key \<Rightarrow> held_lock" where
  "borrowed k = \<lparr>lk_key = k, owns = False, guarded = False\<rparr>"

text \<open>\<open>push_critical_section\<close> up to its first acquisition.\<close>

definition push_start :: "lock_key list \<Rightarrow> cs_stack \<Rightarrow> owners \<Rightarrow> owners \<times> cs_thread" where
  "push_start keys stack w =
     (let active = active_lock_keys stack;
          already = (\<forall>k \<in> set keys. k \<in> set active);
          (stack1, susp) = (if stack = [] \<or> already then (stack, []) else suspend_active_locks stack)
      in (release susp w, \<lparr>cs_stack = stack1, cs_phase = Acquiring keys [] susp active\<rparr>))"

text \<open>One turn of its loop over the keys, and the final push.\<close>

definition push_step :: "thread_id \<Rightarrow> cs_thread \<Rightarrow> owners \<Rightarrow> (owners \<times> cs_thread) option" where
  "push_step t th w =
     (case cs_phase th of
        Acquiring (k # ks) ls susp active \<Rightarrow>
          if susp = [] \<and> k \<in> set active
          then Some (w, th\<lparr>cs_phase := Acquiring ks (ls @ [borrowed k]) susp active\<rparr>)
          else if w k = None
          then Some (w(k := Some t), th\<lparr>cs_phase := Acquiring ks (ls @ [owning k]) susp active\<rparr>)
          else None
      | Acquiring [] ls susp active \<Rightarrow>
          Some (w, \<lparr>cs_stack = cs_stack th @ [\<lparr>locks = ls, suspended = susp\<rparr>], cs_phase = Running\<rparr>)
      | _ \<Rightarrow> None)"

text \<open>\<open>pop_critical_section\<close> up to the restoration, and one turn of \<open>restore_suspended_locks\<close>.\<close>

definition pop_start :: "cs_stack \<Rightarrow> owners \<Rightarrow> (owners \<times> cs_thread) option" where
  "pop_start stack w =
     (case vec_pop stack of
        None \<Rightarrow> None
      | Some (fr, rest) \<Rightarrow>
          Some (release (map lk_key (filter guarded (locks fr))) w, \<lparr>cs_stack = rest, cs_phase = Restoring (suspended fr)\<rparr>))"

definition restore_step :: "thread_id \<Rightarrow> cs_thread \<Rightarrow> owners \<Rightarrow> (owners \<times> cs_thread) option" where
  "restore_step t th w =
     (case cs_phase th of
        Restoring (k # ks) \<Rightarrow>
          if w k \<noteq> None then None
          else (case restore_lock k (cs_stack th) of
                  Some stack \<Rightarrow> Some (w(k := Some t), \<lparr>cs_stack = stack, cs_phase = Restoring ks\<rparr>)
                | None \<Rightarrow> Some (w, th\<lparr>cs_phase := Restoring ks\<rparr>))
      | Restoring [] \<Rightarrow> Some (w, th\<lparr>cs_phase := Running\<rparr>)
      | _ \<Rightarrow> None)"

datatype cs_event = Begin "lock_key list" | End | Tick

definition thread_event :: "thread_id \<Rightarrow> cs_event \<Rightarrow> cs_thread \<Rightarrow> owners \<Rightarrow> (owners \<times> cs_thread) option" where
  "thread_event t e th w =
     (case e of
        Begin ks \<Rightarrow> if cs_phase th = Running then Some (push_start (ordered_keys ks) (cs_stack th) w) else None
      | End \<Rightarrow> if cs_phase th = Running then pop_start (cs_stack th) w else None
      | Tick \<Rightarrow>
          (case cs_phase th of
             Running \<Rightarrow> None
           | Acquiring _ _ _ _ \<Rightarrow> push_step t th w
           | Restoring _ \<Rightarrow> restore_step t th w))"

definition cs_event_at :: "thread_id \<Rightarrow> cs_event \<Rightarrow> cs_state \<Rightarrow> cs_state option" where
  "cs_event_at t e s =
     map_option (\<lambda>(w, th). \<lparr>owner = w, cs_threads = (cs_threads s)(t := th)\<rparr>) (thread_event t e (cs_threads s t) (owner s))"

definition cs_start :: cs_state where
  "cs_start = \<lparr>owner = (\<lambda>_. None), cs_threads = (\<lambda>_. \<lparr>cs_stack = [], cs_phase = Running\<rparr>)\<rparr>"

text \<open>The mutex a thread is about to take, and who it waits for.\<close>

definition wants :: "cs_thread \<Rightarrow> lock_key option" where
  "wants th =
     (case cs_phase th of
        Acquiring (k # ks) ls susp active \<Rightarrow> if susp = [] \<and> k \<in> set active then None else Some k
      | Restoring (k # ks) \<Rightarrow> Some k
      | _ \<Rightarrow> None)"

definition waits_for :: "cs_state \<Rightarrow> thread_id \<Rightarrow> thread_id \<Rightarrow> bool" where
  "waits_for s t u \<longleftrightarrow> (\<exists>k. wants (cs_threads s t) = Some k \<and> owner s k = Some u)"

definition blocked :: "cs_state \<Rightarrow> thread_id \<Rightarrow> bool" where
  "blocked s t \<longleftrightarrow> (\<exists>u. waits_for s t u)"

definition owned_keys :: "cs_stack \<Rightarrow> lock_key list" where
  "owned_keys stack = map lk_key (filter owns (all_locks stack))"

text \<open>
  A nested section is plain when every key it asks for is held already, or none of them belongs to an
  enclosing section.
\<close>

definition plain_request :: "lock_key list \<Rightarrow> cs_stack \<Rightarrow> bool" where
  "plain_request ks stack \<longleftrightarrow> set ks \<subseteq> set (active_lock_keys stack) \<or> set ks \<inter> set (owned_keys stack) = {}"

inductive cs_reachable :: "cs_state \<Rightarrow> bool" where
  start: "cs_reachable cs_start"
| event: "cs_reachable s \<Longrightarrow> cs_event_at t e s = Some s' \<Longrightarrow>
    (\<forall>ks. e = Begin ks \<longrightarrow> plain_request ks (cs_stack (cs_threads s t))) \<Longrightarrow> cs_reachable s'"

section \<open>The self-deadlock\<close>

definition run_events :: "(thread_id \<times> cs_event) list \<Rightarrow> cs_state \<Rightarrow> cs_state option" where
  "run_events es s = fold (\<lambda>(t, e) r. Option.bind r (cs_event_at t e)) es (Some s)"

text \<open>
  C31. A section that repeats a lock of an enclosing section can lock up its own thread.  The thread
  begins a section on object 1, inside it one on objects 1 and 2, inside that one on object 3, and
  ends the last two: restoring the suspended locks hands the guard of object 1 to the outermost
  section, so ending the second section waits for a mutex that this thread owns.
\<close>
theorem nested_section_self_deadlock:
  "\<exists>s. run_events
      [(0, Begin [1]), (0, Tick), (0, Tick),
       (0, Begin [1, 2]), (0, Tick), (0, Tick), (0, Tick),
       (0, Begin [3]), (0, Tick), (0, Tick),
       (0, End), (0, Tick), (0, Tick), (0, Tick),
       (0, End)] cs_start = Some s \<and> waits_for s 0 0"
proof -
  have o: "ordered_keys [1] = [1]" "ordered_keys [1, 2] = [1, 2]" "ordered_keys [3] = [3]"
    by (simp_all add: ordered_keys_def)
  show ?thesis
    by (simp add: run_events_def cs_start_def cs_event_at_def thread_event_def o push_start_def push_step_def pop_start_def
        restore_step_def active_lock_keys_def all_locks_def suspend_active_locks_def map_locks_def drop_guard_def is_active_def
        release_def owning_def borrowed_def lacks_guard_def ordered_keys_def vec_pop_def waits_for_def wants_def Let_def; auto)
qed

section \<open>Suspending and restoring\<close>

lemma sorted_remdups_adj_distinct: "sorted (xs :: nat list) \<Longrightarrow> sorted (remdups_adj xs) \<and> distinct (remdups_adj xs)"
  by (induction xs rule: remdups_adj.induct) (auto dest: order_antisym)

lemma ordered_keys_props [simp]:
  "set (ordered_keys ks) = set ks" "sorted (ordered_keys ks)" "distinct (ordered_keys ks)"
  using sorted_remdups_adj_distinct [of "sort ks"] by (simp_all add: ordered_keys_def)

lemma all_locks_simps [simp]:
  "all_locks [] = []" "all_locks (fr # frs) = locks fr @ all_locks frs" "all_locks (a @ b) = all_locks a @ all_locks b"
  by (simp_all add: all_locks_def)

lemma map_locks_simps [simp]:
  "map_locks g [] = []" "map_locks g (fr # frs) = fr\<lparr>locks := map g (locks fr)\<rparr> # map_locks g frs"
  "map_locks g (a @ b) = map_locks g a @ map_locks g b"
  by (simp_all add: map_locks_def)

lemma all_locks_map [simp]: "all_locks (map_locks g st) = map g (all_locks st)"
  by (induction st) simp_all

lemma map_locks_comp: "map_locks f (map_locks g st) = map_locks (f \<circ> g) st"
  by (induction st) simp_all

lemma map_locks_cong: "(\<And>l. l \<in> set (all_locks st) \<Longrightarrow> f l = g l) \<Longrightarrow> map_locks f st = map_locks g st"
  by (induction st) simp_all

lemma map_locks_id: "map_locks (\<lambda>l. l) st = st"
  by (induction st) simp_all

lemma set_active_lock_keys: "set (active_lock_keys st) = lk_key ` {l \<in> set (all_locks st). is_active l}"
  by (simp add: active_lock_keys_def)

lemma set_owned_keys: "set (owned_keys st) = lk_key ` {l \<in> set (all_locks st). owns l}"
  by (simp add: owned_keys_def)

definition take_guard :: "lock_key set \<Rightarrow> held_lock \<Rightarrow> held_lock" where
  "take_guard K l = (if owns l \<and> lk_key l \<in> K then l\<lparr>guarded := True\<rparr> else l)"

lemma guard_first_map:
  "distinct (map lk_key (filter owns ls)) \<Longrightarrow>
     guard_first k ls = (if \<exists>l \<in> set ls. lacks_guard k l then Some (map (take_guard {k}) ls) else None)"
proof (induction ls)
  case (Cons l ls)
  show ?case
  proof (cases "lacks_guard k l")
    case True
    then have "map (take_guard {k}) ls = ls"
      by (intro map_idI) (use True Cons.prems in \<open>auto simp: lacks_guard_def take_guard_def image_iff\<close>)
    then show ?thesis using True by (auto simp: lacks_guard_def take_guard_def)
  next
    case False
    have keep: "take_guard {k} l = l" if "l' \<in> set ls" "lacks_guard k l'" for l'
      using that False Cons.prems by (auto simp: take_guard_def lacks_guard_def image_iff)
    show ?thesis using Cons False keep by (auto split: if_splits)
  qed
qed simp

lemma restore_lock_map:
  "distinct (owned_keys st) \<Longrightarrow>
     restore_lock k st = (if \<exists>l \<in> set (all_locks st). lacks_guard k l then Some (map_locks (take_guard {k}) st) else None)"
proof (induction st)
  case (Cons fr frs)
  have d: "distinct (map lk_key (filter owns (locks fr)))" "distinct (owned_keys frs)"
    using Cons.prems by (auto simp: owned_keys_def)
  have d3: "lk_key l \<noteq> lk_key l'" if "l \<in> set (locks fr)" "owns l" "l' \<in> set (all_locks frs)" "owns l'" for l l'
    using Cons.prems that by (auto simp: owned_keys_def)
  have other: "map_locks (take_guard {k}) frs = frs" if "l \<in> set (locks fr)" "lacks_guard k l" for l
  proof -
    have "take_guard {k} l' = l'" if "l' \<in> set (all_locks frs)" for l'
      using that d3 [of l l'] \<open>l \<in> set (locks fr)\<close> \<open>lacks_guard k l\<close> by (auto simp: take_guard_def lacks_guard_def)
    then have "map_locks (take_guard {k}) frs = map_locks (\<lambda>l. l) frs" by (intro map_locks_cong)
    then show ?thesis by (simp add: map_locks_id)
  qed
  have here: "map (take_guard {k}) (locks fr) = locks fr" if "l \<in> set (all_locks frs)" "lacks_guard k l" for l
    by (intro map_idI) (use that d3 [of _ l] in \<open>auto simp: take_guard_def lacks_guard_def\<close>)
  show ?case
    using Cons.IH d guard_first_map [OF d(1), of k] other here by (auto split: option.splits)
qed simp

text \<open>Restoring some of the suspended keys gives the guards of those keys back, and no others.\<close>

definition partly_restored :: "lock_key set \<Rightarrow> cs_stack \<Rightarrow> cs_stack" where
  "partly_restored K st = map_locks (take_guard K \<circ> drop_guard) st"

lemma owned_keys_map:
  assumes "\<And>l. lk_key (g l) = lk_key l" "\<And>l. owns (g l) = owns l"
  shows "owned_keys (map_locks g st) = owned_keys st"
  using assms by (simp add: owned_keys_def filter_map comp_def)

lemma guard_ops_fields [simp]:
  "lk_key (take_guard K l) = lk_key l" "owns (take_guard K l) = owns l"
  "lk_key (drop_guard l) = lk_key l" "owns (drop_guard l) = owns l"
  by (simp_all add: take_guard_def drop_guard_def)

lemma restore_step_map:
  assumes "distinct (owned_keys st)" "k \<notin> K" "k \<in> set (active_lock_keys st)"
  shows "restore_lock k (partly_restored K st) = Some (partly_restored (insert k K) st)"
proof -
  obtain l where l: "l \<in> set (all_locks st)" "is_active l" "lk_key l = k"
    using assms(3) by (auto simp: set_active_lock_keys)
  then have "lacks_guard k (take_guard K (drop_guard l))"
    using assms(2) by (simp add: lacks_guard_def take_guard_def drop_guard_def is_active_def)
  moreover have "take_guard {k} \<circ> (take_guard K \<circ> drop_guard) = take_guard (insert k K) \<circ> drop_guard"
    by (rule ext) (auto simp: take_guard_def drop_guard_def is_active_def)
  ultimately show ?thesis
    using restore_lock_map [of "partly_restored K st" k] assms(1) l(1)
    by (auto simp: partly_restored_def owned_keys_map map_locks_comp)
qed

lemma fully_restored:
  assumes "distinct (owned_keys st)" "\<And>l. l \<in> set (all_locks st) \<Longrightarrow> guarded l \<Longrightarrow> owns l"
  shows "partly_restored (set (active_lock_keys st)) st = st"
proof -
  have "(take_guard (set (active_lock_keys st)) \<circ> drop_guard) l = l" if l: "l \<in> set (all_locks st)" for l
  proof (cases "owns l \<and> lk_key l \<in> set (active_lock_keys st)")
    case True
    then obtain l' where l': "l' \<in> set (all_locks st)" "is_active l'" "lk_key l' = lk_key l"
      by (auto simp: set_active_lock_keys)
    have "inj_on lk_key (set (filter owns (all_locks st)))"
      using assms(1) by (simp add: owned_keys_def distinct_map)
    then have "l' = l" using l l' True by (auto simp: inj_on_def is_active_def)
    then show ?thesis using True l' by (simp add: take_guard_def drop_guard_def is_active_def)
  next
    case False
    then have "\<not> is_active l" using l by (auto simp: set_active_lock_keys is_active_def)
    then show ?thesis using False by (auto simp: take_guard_def drop_guard_def)
  qed
  then have "partly_restored (set (active_lock_keys st)) st = map_locks (\<lambda>l. l) st"
    unfolding partly_restored_def by (intro map_locks_cong)
  then show ?thesis by (simp add: map_locks_id)
qed

lemma partly_restored_none: "partly_restored {} st = fst (suspend_active_locks st)"
proof -
  have "take_guard {} \<circ> drop_guard = drop_guard" by (rule ext) (simp add: take_guard_def)
  then show ?thesis by (simp add: partly_restored_def suspend_active_locks_def)
qed

lemma restored_is_active:
  "(guarded l \<longrightarrow> owns l) \<Longrightarrow> is_active (take_guard K (drop_guard l)) \<longleftrightarrow> owns l \<and> lk_key l \<in> K"
  by (auto simp: take_guard_def drop_guard_def is_active_def)

lemma partly_restored_active:
  assumes "\<And>l. l \<in> set (all_locks st) \<Longrightarrow> guarded l \<Longrightarrow> owns l"
  shows "set (active_lock_keys (partly_restored K st)) = set (owned_keys st) \<inter> K"
proof -
  have "{l \<in> set (all_locks (partly_restored K st)). is_active l} =
      (take_guard K \<circ> drop_guard) ` {l \<in> set (all_locks st). owns l \<and> lk_key l \<in> K}"
    using assms restored_is_active by (auto simp: partly_restored_def)
  then show ?thesis by (auto simp: set_active_lock_keys set_owned_keys image_image)
qed

section \<open>The invariant\<close>

definition fresh_frame :: "lock_key list \<Rightarrow> lock_key list \<Rightarrow> cs_frame" where
  "fresh_frame ks susp = \<lparr>locks = map owning ks, suspended = susp\<rparr>"

definition borrowing_frame :: "lock_key list \<Rightarrow> cs_frame" where
  "borrowing_frame ks = \<lparr>locks = map borrowed ks, suspended = []\<rparr>"

text \<open>The stacks of a thread between two calls, built section by section.\<close>

inductive stack_ok :: "cs_stack \<Rightarrow> bool" where
  empty: "stack_ok []"
| inner: "stack_ok st \<Longrightarrow> set ks \<subseteq> set (active_lock_keys st) \<Longrightarrow> stack_ok (st @ [borrowing_frame ks])"
| fresh: "stack_ok st \<Longrightarrow> sorted ks \<Longrightarrow> distinct ks \<Longrightarrow> set ks \<inter> set (owned_keys st) = {} \<Longrightarrow>
    stack_ok (partly_restored {} st @ [fresh_frame ks (active_lock_keys st)])"

lemma frame_locks [simp]:
  "locks (fresh_frame ks susp) = map owning ks" "locks (borrowing_frame ks) = map borrowed ks"
  "suspended (fresh_frame ks susp) = susp" "suspended (borrowing_frame ks) = []"
  by (simp_all add: fresh_frame_def borrowing_frame_def)

lemma lock_fields [simp]:
  "lk_key (owning k) = k" "owns (owning k)" "guarded (owning k)"
  "lk_key (borrowed k) = k" "\<not> owns (borrowed k)" "\<not> guarded (borrowed k)"
  "is_active (owning k)" "\<not> is_active (borrowed k)"
  by (simp_all add: owning_def borrowed_def is_active_def)

lemma owned_keys_frames [simp]:
  "owned_keys (st @ [fresh_frame ks susp]) = owned_keys st @ ks"
  "owned_keys (st @ [borrowing_frame ks]) = owned_keys st"
  "owned_keys (partly_restored K st) = owned_keys st"
  by (simp_all add: owned_keys_def filter_map comp_def partly_restored_def)

lemma stack_ok_owned:
  assumes "stack_ok st"
  shows "distinct (owned_keys st)" "l \<in> set (all_locks st) \<Longrightarrow> guarded l \<Longrightarrow> owns l"
  using assms
proof (induction arbitrary: l)
  case empty
  { case 1 show ?case by (simp add: owned_keys_def) }
  { case 2 then show ?case by simp }
next
  case (inner st ks)
  { case 1 show ?case using inner.IH by simp }
  { case 2 then show ?case using inner.IH by auto }
next
  case (fresh st ks)
  { case 1 show ?case using fresh.IH fresh.hyps by auto }
  { case 2 then show ?case using fresh.IH by (auto simp: partly_restored_def take_guard_def drop_guard_def split: if_splits) }
qed

lemma active_append [simp]: "set (active_lock_keys (a @ b)) = set (active_lock_keys a) \<union> set (active_lock_keys b)"
  by (auto simp: set_active_lock_keys)

lemma active_owning: "lk_key ` {l \<in> owning ` K. is_active l} = K"
  by (force simp: image_iff)

lemma active_frames [simp]:
  "set (active_lock_keys [fresh_frame ks susp]) = set ks" "set (active_lock_keys [borrowing_frame ks]) = {}"
  "active_lock_keys [] = []"
  by (auto simp: set_active_lock_keys active_owning active_lock_keys_def ordered_keys_def)

lemma active_suspended [simp]: "stack_ok st \<Longrightarrow> set (active_lock_keys (partly_restored K st)) = set (owned_keys st) \<inter> K"
  using partly_restored_active stack_ok_owned(2) by blast

lemma active_subset_owned: "set (active_lock_keys st) \<subseteq> set (owned_keys st)"
  by (auto simp: set_active_lock_keys set_owned_keys is_active_def)

lemma active_keys_ordered: "sorted (active_lock_keys st)" "distinct (active_lock_keys st)"
  by (simp_all add: active_lock_keys_def)

text \<open>The keys whose guard a thread has, in its stack or in a section it is entering.\<close>

definition held_keys :: "cs_thread \<Rightarrow> lock_key set" where
  "held_keys th = set (active_lock_keys (cs_stack th)) \<union>
     (case cs_phase th of Acquiring ks ls susp active \<Rightarrow> lk_key ` {l \<in> set ls. is_active l} | _ \<Rightarrow> {})"

inductive thread_ok :: "cs_thread \<Rightarrow> bool" where
  run: "stack_ok st \<Longrightarrow> thread_ok \<lparr>cs_stack = st, cs_phase = Running\<rparr>"
| enter_inner: "stack_ok st \<Longrightarrow> set (had @ ks) \<subseteq> set (active_lock_keys st) \<Longrightarrow>
    thread_ok \<lparr>cs_stack = st, cs_phase = Acquiring ks (map borrowed had) [] (active_lock_keys st)\<rparr>"
| enter_fresh: "stack_ok st \<Longrightarrow> sorted (had @ ks) \<Longrightarrow> distinct (had @ ks) \<Longrightarrow> set (had @ ks) \<inter> set (owned_keys st) = {} \<Longrightarrow>
    thread_ok \<lparr>cs_stack = partly_restored {} st, cs_phase = Acquiring ks (map owning had) (active_lock_keys st) (active_lock_keys st)\<rparr>"
| restore: "stack_ok st \<Longrightarrow> had @ ks = active_lock_keys st \<Longrightarrow>
    thread_ok \<lparr>cs_stack = partly_restored (set had) st, cs_phase = Restoring ks\<rparr>"

definition cs_inv :: "cs_state \<Rightarrow> bool" where
  "cs_inv s \<longleftrightarrow> (\<forall>t. thread_ok (cs_threads s t)) \<and> finite (dom (owner s)) \<and>
     (\<forall>t k. owner s k = Some t \<longleftrightarrow> k \<in> held_keys (cs_threads s t))"

text \<open>A thread takes mutexes in increasing order of their keys.\<close>

lemma held_keys_simps [simp]:
  "held_keys \<lparr>cs_stack = st, cs_phase = Running\<rparr> = set (active_lock_keys st)"
  "held_keys \<lparr>cs_stack = st, cs_phase = Restoring ks\<rparr> = set (active_lock_keys st)"
  "held_keys \<lparr>cs_stack = st, cs_phase = Acquiring ks (map owning had) susp act\<rparr> = set (active_lock_keys st) \<union> set had"
  "held_keys \<lparr>cs_stack = st, cs_phase = Acquiring ks (map borrowed had) susp act\<rparr> = set (active_lock_keys st)"
  by (auto simp: held_keys_def active_owning)

lemma wants_above_held:
  assumes "thread_ok th" "wants th = Some k" "k' \<in> held_keys th"
  shows "k' < k"
  using assms(1)
proof (cases rule: thread_ok.cases)
  case (enter_inner st had ks)
  then show ?thesis using assms(2) by (cases ks) (auto simp: wants_def)
next
  case (enter_fresh st had ks)
  then have "k' \<in> set had" using assms(3) by auto
  moreover have "k = hd ks" "ks \<noteq> []" using assms(2) enter_fresh(1) by (cases ks; auto simp: wants_def split: if_splits)+
  ultimately show ?thesis using enter_fresh(3,4) by (cases ks) (auto simp: sorted_append order_less_le)
next
  case (restore st had ks)
  then have "k' \<in> set had" using assms(3) by auto
  moreover have "k = hd ks" "ks \<noteq> []" using assms(2) restore(1) by (cases ks; auto simp: wants_def)+
  moreover have "sorted (had @ ks)" "distinct (had @ ks)" unfolding restore(3) by (rule active_keys_ordered)+
  ultimately show ?thesis by (cases ks) (auto simp: sorted_append order_less_le)
qed (use assms(2) in \<open>auto simp: wants_def\<close>)

section \<open>Every event keeps the invariant\<close>

text \<open>What an event of thread \<open>t\<close> must preserve, and how it may change the owners.\<close>

definition step_ok :: "thread_id \<Rightarrow> owners \<Rightarrow> owners \<Rightarrow> cs_thread \<Rightarrow> cs_thread \<Rightarrow> bool" where
  "step_ok t w w' th th' \<longleftrightarrow>
     thread_ok th' \<and>
     ((\<exists>ks. w' = release ks w \<and> held_keys th' = held_keys th - set ks \<and> set ks \<subseteq> held_keys th) \<or>
      (\<exists>k. w k = None \<and> w' = w(k := Some t) \<and> held_keys th' = insert k (held_keys th)))"

lemma release_Nil [simp]: "release [] w = w"
  by (simp add: release_def)

lemma step_ok_same: "thread_ok th' \<Longrightarrow> held_keys th' = held_keys th \<Longrightarrow> step_ok t w w th th'"
  unfolding step_ok_def by (auto intro: exI [of _ "[]"])

lemma push_start_ok:
  assumes "stack_ok st" "plain_request ks st"
  shows "step_ok t w (fst (push_start (ordered_keys ks) st w)) \<lparr>cs_stack = st, cs_phase = Running\<rparr> (snd (push_start (ordered_keys ks) st w))"
proof (cases "set ks \<subseteq> set (active_lock_keys st)")
  case True
  then have "push_start (ordered_keys ks) st w =
      (w, \<lparr>cs_stack = st, cs_phase = Acquiring (ordered_keys ks) (map borrowed []) [] (active_lock_keys st)\<rparr>)"
    by (auto simp: push_start_def Let_def)
  moreover have "thread_ok \<lparr>cs_stack = st, cs_phase = Acquiring (ordered_keys ks) (map borrowed []) [] (active_lock_keys st)\<rparr>"
    using True by (intro thread_ok.enter_inner [OF assms(1)]) simp
  ultimately show ?thesis by (simp add: step_ok_same del: list.map)
next
  case False
  then have "set ks \<inter> set (owned_keys st) = {}" using assms(2) by (simp add: plain_request_def)
  then have enter: "thread_ok \<lparr>cs_stack = partly_restored {} st,
      cs_phase = Acquiring (ordered_keys ks) [] (active_lock_keys st) (active_lock_keys st)\<rparr>"
    using thread_ok.enter_fresh [OF assms(1), of "[]" "ordered_keys ks"] by simp
  have "push_start (ordered_keys ks) st w = (release (active_lock_keys st) w,
      \<lparr>cs_stack = partly_restored {} st, cs_phase = Acquiring (ordered_keys ks) [] (active_lock_keys st) (active_lock_keys st)\<rparr>)"
    using False by (auto simp: push_start_def Let_def partly_restored_none suspend_active_locks_def)
  moreover have "held_keys \<lparr>cs_stack = partly_restored {} st,
      cs_phase = Acquiring (ordered_keys ks) [] (active_lock_keys st) (active_lock_keys st)\<rparr> = {}"
    using assms(1) by (simp add: held_keys_def)
  ultimately show ?thesis using enter by (auto simp: step_ok_def)
qed

lemma pop_start_ok:
  assumes "stack_ok st" "pop_start st w = Some (w', th')"
  shows "step_ok t w w' \<lparr>cs_stack = st, cs_phase = Running\<rparr> th'"
  using assms(1)
proof (cases rule: stack_ok.cases)
  case empty
  then show ?thesis using assms(2) by (simp add: pop_start_def)
next
  case (inner st0 ks)
  have "partly_restored (set (active_lock_keys st0)) st0 = st0"
    by (rule fully_restored) (use stack_ok_owned [OF inner(2)] in auto)
  then have "thread_ok \<lparr>cs_stack = st0, cs_phase = Restoring []\<rparr>"
    using thread_ok.restore [OF inner(2), of "active_lock_keys st0" "[]"] by simp
  then show ?thesis
    using assms(2) inner by (auto simp: pop_start_def filter_map comp_def intro!: step_ok_same)
next
  case (fresh st0 ks)
  have "thread_ok \<lparr>cs_stack = partly_restored {} st0, cs_phase = Restoring (active_lock_keys st0)\<rparr>"
    using thread_ok.restore [OF fresh(2), of "[]" "active_lock_keys st0"] by simp
  moreover have "w' = release ks w" "th' = \<lparr>cs_stack = partly_restored {} st0, cs_phase = Restoring (active_lock_keys st0)\<rparr>"
    using assms(2) fresh by (auto simp: pop_start_def filter_map comp_def)
  ultimately show ?thesis using fresh by (auto simp: step_ok_def)
qed

lemma push_step_ok:
  assumes "thread_ok th" "push_step t th w = Some (w', th')"
  shows "step_ok t w w' th th'"
  using assms(1)
proof (cases rule: thread_ok.cases)
  case (enter_inner st had ks)
  show ?thesis
  proof (cases ks)
    case Nil
    then have "w' = w" "th' = \<lparr>cs_stack = st @ [borrowing_frame had], cs_phase = Running\<rparr>"
      using assms(2) enter_inner by (auto simp: push_step_def borrowing_frame_def)
    moreover have "stack_ok (st @ [borrowing_frame had])" using enter_inner by (auto intro: stack_ok.inner)
    ultimately show ?thesis using enter_inner(1) by (auto intro!: step_ok_same thread_ok.run)
  next
    case (Cons k ks')
    then have "w' = w" "th' = \<lparr>cs_stack = st, cs_phase = Acquiring ks' (map borrowed (had @ [k])) [] (active_lock_keys st)\<rparr>"
      using assms(2) enter_inner by (auto simp: push_step_def split: if_splits)
    moreover have "thread_ok \<lparr>cs_stack = st, cs_phase = Acquiring ks' (map borrowed (had @ [k])) [] (active_lock_keys st)\<rparr>"
      using enter_inner Cons by (intro thread_ok.enter_inner) auto
    ultimately show ?thesis using enter_inner(1) by (simp add: step_ok_same del: map_append)
  qed
next
  case (enter_fresh st had ks)
  show ?thesis
  proof (cases ks)
    case Nil
    then have "w' = w" "th' = \<lparr>cs_stack = partly_restored {} st @ [fresh_frame had (active_lock_keys st)], cs_phase = Running\<rparr>"
      using assms(2) enter_fresh by (auto simp: push_step_def fresh_frame_def)
    moreover have "stack_ok (partly_restored {} st @ [fresh_frame had (active_lock_keys st)])"
      using enter_fresh Nil by (auto intro: stack_ok.fresh)
    ultimately show ?thesis using enter_fresh(1) by (auto intro!: step_ok_same thread_ok.run)
  next
    case (Cons k ks')
    have "k \<notin> set (active_lock_keys st)" using enter_fresh(5) Cons active_subset_owned [of st] by auto
    then have w: "w k = None" "w' = w(k := Some t)"
      and th: "th' = \<lparr>cs_stack = partly_restored {} st,
        cs_phase = Acquiring ks' (map owning (had @ [k])) (active_lock_keys st) (active_lock_keys st)\<rparr>"
      using assms(2) enter_fresh(1) Cons by (auto simp: push_step_def split: if_splits)
    have "thread_ok th'" unfolding th using enter_fresh Cons by (intro thread_ok.enter_fresh) auto
    moreover have "held_keys th' = insert k (held_keys th)"
      unfolding th enter_fresh(1) held_keys_simps by simp
    ultimately show ?thesis using w by (auto simp: step_ok_def)
  qed
qed (use assms(2) in \<open>auto simp: push_step_def\<close>)

lemma restore_step_ok:
  assumes "thread_ok th" "restore_step t th w = Some (w', th')"
  shows "step_ok t w w' th th'"
  using assms(1)
proof (cases rule: thread_ok.cases)
  case (restore st had ks)
  have ok: "distinct (owned_keys st)" using stack_ok_owned [OF restore(2)] by simp
  show ?thesis
  proof (cases ks)
    case Nil
    have "partly_restored (set (active_lock_keys st)) st = st"
      by (rule fully_restored) (use stack_ok_owned [OF restore(2)] in auto)
    then have "w' = w" "th' = \<lparr>cs_stack = st, cs_phase = Running\<rparr>" "th = \<lparr>cs_stack = st, cs_phase = Restoring []\<rparr>"
      using assms(2) restore Nil by (auto simp: restore_step_def)
    then show ?thesis using restore(2) by (auto intro!: step_ok_same thread_ok.run)
  next
    case (Cons k ks')
    have "distinct (had @ ks)" unfolding restore(3) by (rule active_keys_ordered)
    then have k: "k \<notin> set had" "k \<in> set (active_lock_keys st)" using Cons restore(3) [symmetric] by auto
    then have w: "w k = None" "w' = w(k := Some t)"
      and th: "th' = \<lparr>cs_stack = partly_restored (set (had @ [k])) st, cs_phase = Restoring ks'\<rparr>"
      using assms(2) restore(1) Cons restore_step_map [OF ok k] by (auto simp: restore_step_def split: if_splits)
    have "thread_ok th'" unfolding th using restore Cons by (intro thread_ok.restore) auto
    moreover have "held_keys th' = insert k (held_keys th)"
      using k(2) active_subset_owned [of st] restore(2) unfolding th restore(1) by auto
    ultimately show ?thesis using w by (auto simp: step_ok_def)
  qed
qed (use assms(2) in \<open>auto simp: restore_step_def\<close>)

lemma thread_event_ok:
  assumes "thread_ok th" "thread_event t e th w = Some (w', th')"
    "\<And>ks. e = Begin ks \<Longrightarrow> plain_request ks (cs_stack th)"
  shows "step_ok t w w' th th'"
proof (cases e)
  case (Begin ks)
  then have r: "cs_phase th = Running" "push_start (ordered_keys ks) (cs_stack th) w = (w', th')"
    using assms(2) by (auto simp: thread_event_def split: if_splits)
  then have "th = \<lparr>cs_stack = cs_stack th, cs_phase = Running\<rparr>" "stack_ok (cs_stack th)"
    using assms(1) by (auto elim: thread_ok.cases)
  then show ?thesis using push_start_ok [of "cs_stack th" ks t w] assms(3) [OF Begin] r(2) by (metis fst_conv snd_conv)
next
  case End
  then have r: "cs_phase th = Running" "pop_start (cs_stack th) w = Some (w', th')"
    using assms(2) by (auto simp: thread_event_def split: if_splits)
  then have "th = \<lparr>cs_stack = cs_stack th, cs_phase = Running\<rparr>" "stack_ok (cs_stack th)"
    using assms(1) by (auto elim: thread_ok.cases)
  then show ?thesis using pop_start_ok r(2) by metis
next
  case Tick
  then show ?thesis
    using assms(1,2) push_step_ok restore_step_ok by (auto simp: thread_event_def split: cs_phase.splits)
qed

lemma cs_inv_step:
  assumes "cs_inv s" "cs_event_at t e s = Some s'" "\<And>ks. e = Begin ks \<Longrightarrow> plain_request ks (cs_stack (cs_threads s t))"
  shows "cs_inv s'"
proof -
  obtain w' th' where ev: "thread_event t e (cs_threads s t) (owner s) = Some (w', th')"
    and s': "s' = \<lparr>owner = w', cs_threads = (cs_threads s)(t := th')\<rparr>"
    using assms(2) by (auto simp: cs_event_at_def)
  have own: "owner s k = Some u \<longleftrightarrow> k \<in> held_keys (cs_threads s u)" for k u
    using assms(1) by (simp add: cs_inv_def)
  have ok: "step_ok t (owner s) w' (cs_threads s t) th'"
    using thread_event_ok [OF _ ev] assms(1,3) by (simp add: cs_inv_def)
  then consider
    (rel) ks where "w' = release ks (owner s)" "held_keys th' = held_keys (cs_threads s t) - set ks"
      "set ks \<subseteq> held_keys (cs_threads s t)"
  | (acq) k where "owner s k = None" "w' = (owner s)(k := Some t)" "held_keys th' = insert k (held_keys (cs_threads s t))"
    unfolding step_ok_def by blast
  then have "finite (dom w') \<and> (\<forall>u k. w' k = Some u \<longleftrightarrow> k \<in> held_keys (((cs_threads s)(t := th')) u))"
  proof cases
    case rel
    have mine: "owner s k = Some t" if "k \<in> set ks" for k using rel(3) that own by auto
    have "dom w' \<subseteq> dom (owner s)" unfolding rel(1) release_def by (auto split: if_splits)
    then have "finite (dom w')" using assms(1) finite_subset by (auto simp: cs_inv_def)
    moreover have "w' k = Some u \<longleftrightarrow> k \<in> held_keys (((cs_threads s)(t := th')) u)" for u k
    proof (cases "u = t")
      case True
      then show ?thesis using own [of k t] by (simp add: rel(1,2) release_def)
    next
      case False
      then have "k \<notin> set ks" if "owner s k = Some u" using mine [of k] that by auto
      then show ?thesis using own [of k u] False unfolding rel(1) release_def by auto
    qed
    ultimately show ?thesis by blast
  next
    case acq
    have "finite (dom w')" using assms(1) acq(2) by (simp add: cs_inv_def)
    moreover have "w' k' = Some u \<longleftrightarrow> k' \<in> held_keys (((cs_threads s)(t := th')) u)" for u k'
    proof (cases "u = t")
      case True
      then show ?thesis using own [of k' t] by (simp add: acq(2,3))
    next
      case False
      then show ?thesis using own [of k' u] acq(1) False unfolding acq(2) by auto
    qed
    ultimately show ?thesis by blast
  qed
  then show ?thesis using ok assms(1) unfolding s' cs_inv_def by (auto simp: step_ok_def)
qed

lemma cs_reachable_inv: "cs_reachable s \<Longrightarrow> cs_inv s"
proof (induction rule: cs_reachable.induct)
  case start
  have "thread_ok \<lparr>cs_stack = [], cs_phase = Running\<rparr>" by (intro thread_ok.run stack_ok.empty)
  then show ?case by (simp add: cs_inv_def cs_start_def)
next
  case (event s t e s')
  then show ?case using cs_inv_step by blast
qed

section \<open>Progress and exclusion\<close>

lemma unblocked_ticks:
  assumes "cs_phase (cs_threads s t) \<noteq> Running" "\<not> blocked s t"
  shows "\<exists>s'. cs_event_at t Tick s = Some s'"
proof -
  have free: "owner s k = None" if "wants (cs_threads s t) = Some k" for k
    using assms(2) that by (auto simp: blocked_def waits_for_def)
  have "thread_event t Tick (cs_threads s t) (owner s) \<noteq> None"
  proof (cases "cs_phase (cs_threads s t)")
    case (Acquiring ks ls susp active)
    then show ?thesis
      using free by (cases ks) (auto simp: thread_event_def push_step_def wants_def split: if_splits)
  next
    case (Restoring ks)
    then show ?thesis
      using free by (cases ks) (auto simp: thread_event_def restore_step_def wants_def split: option.splits)
  qed (use assms(1) in simp)
  then show ?thesis by (auto simp: cs_event_at_def)
qed

text \<open>Along a chain of waiting threads the wanted keys increase, so the chain ends.\<close>

lemma waiting_chain_ends:
  assumes "cs_inv s" "wants (cs_threads s t) = Some k" "owner s k = Some u"
  shows "\<exists>v. (waits_for s)\<^sup>+\<^sup>+ t v \<and> \<not> blocked s v"
  using assms(2,3)
proof (induction "card {j \<in> dom (owner s). k < j}" arbitrary: k t u rule: less_induct)
  case less
  have tu: "waits_for s t u" using less.prems by (auto simp: waits_for_def)
  show ?case
  proof (cases "blocked s u")
    case False
    then show ?thesis using tu by blast
  next
    case True
    then obtain k' v where k': "wants (cs_threads s u) = Some k'" "owner s k' = Some v"
      by (auto simp: blocked_def waits_for_def)
    have "k < k'"
      using wants_above_held [of "cs_threads s u" k' k] assms(1) k'(1) less.prems(2) by (simp add: cs_inv_def)
    then have "{j \<in> dom (owner s). k' < j} \<subset> {j \<in> dom (owner s). k < j}" using k'(2) by auto
    moreover have "finite {j \<in> dom (owner s). k < j}" using assms(1) by (simp add: cs_inv_def)
    ultimately have "card {j \<in> dom (owner s). k' < j} < card {j \<in> dom (owner s). k < j}"
      by (rule psubset_card_mono [rotated])
    then obtain x where "(waits_for s)\<^sup>+\<^sup>+ u x" "\<not> blocked s x" using less.hyps k' by blast
    then show ?thesis using tu by (meson tranclp_into_tranclp2)
  qed
qed

text \<open>Runs of events whose requests are all plain.\<close>

fun run_plain :: "(thread_id \<times> cs_event) list \<Rightarrow> cs_state \<Rightarrow> cs_state option" where
  "run_plain [] s = Some s"
| "run_plain ((t, e) # es) s =
     (if (case e of Begin ks \<Rightarrow> plain_request ks (cs_stack (cs_threads s t)) | _ \<Rightarrow> True)
      then Option.bind (cs_event_at t e s) (run_plain es) else None)"

lemma run_plain_reachable: "cs_reachable s \<Longrightarrow> run_plain es s = Some s' \<Longrightarrow> cs_reachable s'"
proof (induction es s rule: run_plain.induct)
  case (2 t e es s)
  let ?p = "case e of Begin ks \<Rightarrow> plain_request ks (cs_stack (cs_threads s t)) | _ \<Rightarrow> True"
  have p: ?p using 2(3) unfolding run_plain.simps by (metis option.distinct(1))
  have "Option.bind (cs_event_at t e s) (run_plain es) = Some s'" using 2(3) p by simp
  then obtain s1 where s1: "cs_event_at t e s = Some s1" "run_plain es s1 = Some s'"
    unfolding bind_eq_Some_conv by blast
  have "cs_reachable s1" by (rule cs_reachable.event [OF 2(2) s1(1)]) (use p in auto)
  then show ?case using 2(1) [OF p] s1 by blast
qed simp

lemmas section_run_simps =
  cs_start_def cs_event_at_def thread_event_def push_start_def push_step_def pop_start_def restore_step_def
  active_lock_keys_def all_locks_def suspend_active_locks_def map_locks_def drop_guard_def is_active_def release_def
  owning_def borrowed_def lacks_guard_def ordered_keys_def vec_pop_def plain_request_def owned_keys_def Let_def

text \<open>
  C12. Critical sections do not deadlock.  In every state reached by any interleaving of section
  begins, section ends and single mutex acquisitions of any number of threads, where each nested
  section repeats only locks its thread already holds or none of its enclosing sections, a thread
  waiting for a mutex waits, through a finite chain of owners, for a thread that is not waiting: that
  thread is running its own code, or its next step can be taken.
\<close>
theorem critical_sections_deadlock_free:
  assumes "cs_reachable s" "blocked s t"
  shows "\<exists>v. (waits_for s)\<^sup>+\<^sup>+ t v \<and> \<not> blocked s v \<and>
      (cs_phase (cs_threads s v) = Running \<or> (\<exists>s'. cs_event_at v Tick s = Some s'))"
proof -
  obtain k u where "wants (cs_threads s t) = Some k" "owner s k = Some u"
    using assms(2) by (auto simp: blocked_def waits_for_def)
  then show ?thesis using waiting_chain_ends cs_reachable_inv [OF assms(1)] unblocked_ticks by blast
qed

theorem critical_sections_deadlock_free_witness:
  "\<exists>s. cs_reachable s \<and> blocked s 1 \<and> (\<exists>v. (waits_for s)\<^sup>+\<^sup>+ 1 v \<and> \<not> blocked s v \<and>
      (cs_phase (cs_threads s v) = Running \<or> (\<exists>s'. cs_event_at v Tick s = Some s')))"
proof -
  obtain s where s: "run_plain [(0, Begin [7]), (0, Tick), (1, Begin [7])] cs_start = Some s" and "waits_for s 1 0"
    by (simp add: section_run_simps waits_for_def wants_def)
  then have "blocked s 1" by (auto simp: blocked_def)
  moreover have "cs_reachable s" using run_plain_reachable [OF cs_reachable.start s] .
  ultimately show ?thesis using critical_sections_deadlock_free [of s 1] by blast
qed

lemma innermost_keys_owned:
  assumes "cs_reachable s" "cs_phase (cs_threads s t) = Running" "cs_stack (cs_threads s t) = st @ [fr]" "l \<in> set (locks fr)"
  shows "owner s (lk_key l) = Some t"
proof -
  have th: "thread_ok (cs_threads s t)" and own: "owner s k = Some t \<longleftrightarrow> k \<in> held_keys (cs_threads s t)" for k
    using cs_reachable_inv [OF assms(1)] by (simp_all add: cs_inv_def)
  have ok: "stack_ok (st @ [fr])" using th assms(2,3) by (cases rule: thread_ok.cases) auto
  have held: "held_keys (cs_threads s t) = set (active_lock_keys (st @ [fr]))" using assms(2,3) by (simp add: held_keys_def)
  have "lk_key l \<in> set (active_lock_keys (st @ [fr]))"
    using ok assms(4) by (cases rule: stack_ok.cases) auto
  then show ?thesis using own held by simp
qed

text \<open>
  C23. Innermost critical sections exclude each other.  In every such state a thread that is running inside a
  section owns the mutex of every object of its innermost section, the borrowed ones included, and no
  object of it is an object of the innermost section of another running thread.  Sections that a nested one
  has suspended are not innermost and exclude nobody: another thread may be running in a section on their
  objects meanwhile.
\<close>
theorem innermost_section_exclusive:
  assumes "cs_reachable s" "cs_phase (cs_threads s t) = Running" "cs_stack (cs_threads s t) = st @ [fr]" "l \<in> set (locks fr)"
  shows "owner s (lk_key l) = Some t \<and>
    (\<forall>u st' fr'. u \<noteq> t \<and> cs_phase (cs_threads s u) = Running \<and> cs_stack (cs_threads s u) = st' @ [fr'] \<longrightarrow>
       lk_key l \<notin> lk_key ` set (locks fr'))"
  using innermost_keys_owned [OF assms] innermost_keys_owned [OF assms(1)] by fastforce

theorem innermost_section_exclusive_witness:
  "\<exists>s fr fr'. cs_reachable s \<and> cs_phase (cs_threads s 0) = Running \<and> cs_stack (cs_threads s 0) = [] @ [fr] \<and>
     owning 7 \<in> set (locks fr) \<and> owner s (lk_key (owning 7)) = Some 0 \<and>
     cs_phase (cs_threads s 1) = Running \<and> cs_stack (cs_threads s 1) = [] @ [fr'] \<and> lk_key (owning 7) \<notin> lk_key ` set (locks fr')"
proof -
  obtain s fr fr' where s: "run_plain [(0, Begin [7, 9]), (0, Tick), (0, Tick), (0, Tick), (1, Begin [8]), (1, Tick), (1, Tick)] cs_start = Some s"
    and c: "cs_phase (cs_threads s 0) = Running" "cs_stack (cs_threads s 0) = [] @ [fr]" "owning 7 \<in> set (locks fr)"
      "cs_phase (cs_threads s 1) = Running" "cs_stack (cs_threads s 1) = [] @ [fr']"
    by (simp add: section_run_simps)
  have r: "cs_reachable s" using run_plain_reachable [OF cs_reachable.start s] .
  from innermost_section_exclusive [OF r c(1-3)] c(4,5) have "lk_key (owning 7) \<notin> lk_key ` set (locks fr')" "owner s (lk_key (owning 7)) = Some 0"
    by (auto dest: spec [of _ 1])
  with r c show ?thesis by blast
qed

end
