(* ===== verification/Type_Versions.thy ===== *)
theory Type_Versions
  imports Mro_C3 Feedback_Cell
begin

text \<open>
  Type versions and attribute lookup: the subclass and namespace registries and \<open>type_modified\<close> of
  \<^verbatim>\<open>pon-runtime/src/sync.rs\<close>, the class dictionaries and the publication of a class of
  \<^verbatim>\<open>types/type_.rs\<close>, \<open>lookup_in_type\<close> of \<^verbatim>\<open>descr.rs\<close> and the version tag of \<^verbatim>\<open>object.rs\<close>.  Type
  objects are addresses of the store of \<open>Mro_C3\<close>; a registry is an association list, so the work
  list of \<open>type_modified\<close> runs out of types.  The slots that a dunder name refreshes are not part of
  the lookup.
\<close>

section \<open>Registries\<close>

type_synonym subclass_table = "(addr \<times> addr list) list"

text \<open>\<open>entry(k).or_default()\<close>, then a push unless the element is there.\<close>

fun table_push :: "addr \<Rightarrow> addr \<Rightarrow> subclass_table \<Rightarrow> subclass_table" where
  "table_push k v [] = [(k, [v])]"
| "table_push k v ((k', vs) # t) =
     (if k = k' then (k', if v \<in> set vs then vs else vs @ [v]) # t else (k', vs) # table_push k v t)"

definition subclass_children :: "subclass_table \<Rightarrow> addr \<Rightarrow> addr list" where
  "subclass_children t k = (case map_of t k of None \<Rightarrow> [] | Some vs \<Rightarrow> vs)"

record type_registry =
  TYPE_SUBCLASSES :: subclass_table
  TYPE_DIRECT_SUBCLASSES :: subclass_table
  TYPES_WITH_NAMESPACE :: "addr list"
  version_tag :: "addr \<Rightarrow> u32"
  version_epoch :: "addr \<Rightarrow> u64"

definition register_subclass :: "addr \<Rightarrow> addr \<Rightarrow> type_registry \<Rightarrow> type_registry" where
  "register_subclass base derived r =
     (if base = 0 \<or> derived = 0 \<or> base = derived then r
      else r\<lparr>TYPE_SUBCLASSES := table_push base derived (TYPE_SUBCLASSES r)\<rparr>)"

definition register_direct_subclass :: "addr \<Rightarrow> addr \<Rightarrow> type_registry \<Rightarrow> type_registry" where
  "register_direct_subclass base derived r =
     (if base = 0 \<or> derived = 0 \<or> base = derived then r
      else r\<lparr>TYPE_DIRECT_SUBCLASSES := table_push base derived (TYPE_DIRECT_SUBCLASSES r)\<rparr>)"

definition direct_subclasses :: "addr \<Rightarrow> type_registry \<Rightarrow> addr list" where
  "direct_subclasses base r = subclass_children (TYPE_DIRECT_SUBCLASSES r) base"

definition register_namespaced_type :: "addr \<Rightarrow> type_registry \<Rightarrow> type_registry" where
  "register_namespaced_type ty r =
     (if ty = 0 \<or> ty \<in> set (TYPES_WITH_NAMESPACE r) then r
      else r\<lparr>TYPES_WITH_NAMESPACE := TYPES_WITH_NAMESPACE r @ [ty]\<rparr>)"

definition namespaced_types :: "type_registry \<Rightarrow> addr list" where
  "namespaced_types r = TYPES_WITH_NAMESPACE r"

section \<open>Versions\<close>

definition bump_version :: "addr \<Rightarrow> type_registry \<Rightarrow> type_registry" where
  "bump_version ty r = r\<lparr>version_tag := (version_tag r)(ty := version_tag r ty + 1)\<rparr>"

definition type_version_epoch :: "addr \<Rightarrow> type_registry \<Rightarrow> u64" where
  "type_version_epoch ty r = version_epoch r ty"

definition bump_type_version_epoch :: "addr \<Rightarrow> type_registry \<Rightarrow> u64 \<times> type_registry" where
  "bump_type_version_epoch ty r =
     (let old = version_epoch r ty in (old + 1, r\<lparr>version_epoch := (version_epoch r)(ty := old + 1)\<rparr>))"

definition table_values :: "subclass_table \<Rightarrow> addr set" where
  "table_values t = (\<Union>e \<in> set t. set (snd e))"

lemma children_values: "set (subclass_children t k) \<subseteq> table_values t"
  by (cases "map_of t k") (auto simp: subclass_children_def table_values_def dest!: map_of_SomeD intro!: bexI)

lemma finite_table_values [simp]: "finite (table_values t)"
  by (simp add: table_values_def)

function affected :: "subclass_table \<Rightarrow> addr list \<Rightarrow> addr list \<Rightarrow> addr list" where
  "affected table pending seen =
     (case vec_pop pending of
        None \<Rightarrow> seen
      | Some (address, rest) \<Rightarrow>
          if address \<in> set seen then affected table rest seen
          else affected table (rest @ subclass_children table address) (seen @ [address]))"
  by pat_completeness auto

termination
proof (relation "measures [\<lambda>(t, pending, seen). card ((set pending \<union> table_values t) - set seen), \<lambda>(t, pending, seen). length pending]",
    goal_cases)
  case (2 t pending seen x a rest)
  then have p: "pending = rest @ [a]" using vec_pop_SomeD by auto
  have "card ((set rest \<union> table_values t) - set seen) \<le> card ((set pending \<union> table_values t) - set seen)"
    by (rule card_mono) (auto simp: p)
  then show ?case by (auto simp: p)
next
  case (3 t pending seen x a rest)
  then have p: "pending = rest @ [a]" using vec_pop_SomeD by auto
  have "card ((set (rest @ subclass_children t a) \<union> table_values t) - set (seen @ [a])) < card ((set pending \<union> table_values t) - set seen)"
    by (rule psubset_card_mono) (use 3(3) children_values [of t a] in \<open>auto simp: p\<close>)
  then show ?case by simp
qed simp

declare affected.simps [simp del]

definition type_modified :: "addr \<Rightarrow> type_registry \<Rightarrow> type_registry" where
  "type_modified ty r =
     (if ty = 0 then r
      else fold (\<lambda>address r. snd (bump_type_version_epoch address (bump_version address r)))
             (affected (TYPE_SUBCLASSES r) [ty] []) r)"

section \<open>Class dictionaries\<close>

record class_dict =
  cd_entries :: "u32 \<rightharpoonup> addr"
  cd_order :: "u32 list"

definition class_dict_new :: class_dict where
  "class_dict_new = \<lparr>cd_entries = Map.empty, cd_order = []\<rparr>"

definition class_dict_get :: "class_dict \<Rightarrow> u32 \<Rightarrow> addr option" where
  "class_dict_get d name = cd_entries d name"

definition class_dict_set :: "u32 \<Rightarrow> addr \<Rightarrow> class_dict \<Rightarrow> class_dict" where
  "class_dict_set name v d =
     \<lparr>cd_entries = (cd_entries d)(name \<mapsto> v),
      cd_order = (if cd_entries d name = None then cd_order d @ [name] else cd_order d)\<rparr>"

definition class_dict_del :: "u32 \<Rightarrow> class_dict \<Rightarrow> bool \<times> class_dict" where
  "class_dict_del name d =
     (if cd_entries d name \<noteq> None
      then (True, \<lparr>cd_entries = (cd_entries d)(name := None), cd_order = filter (\<lambda>existing. existing \<noteq> name) (cd_order d)\<rparr>)
      else (False, d))"

definition class_dict_iter :: "class_dict \<Rightarrow> (u32 \<times> addr) list" where
  "class_dict_iter d = List.map_filter (\<lambda>name. map_option (Pair name) (cd_entries d name)) (cd_order d)"

section \<open>Types with namespaces\<close>

text \<open>The type objects, the registries and the namespace of each type (\<open>tp_dict\<close>).\<close>

record type_world =
  types :: type_store
  registry :: type_registry
  tp_dict :: "addr \<Rightarrow> class_dict option"

fun lookup_entries :: "addr list \<Rightarrow> (addr \<Rightarrow> class_dict option) \<Rightarrow> addr list \<Rightarrow> u32 \<Rightarrow> addr" where
  "lookup_entries known dicts [] name = 0"
| "lookup_entries known dicts (cls # rest) name =
     (if cls = 0 \<or> cls \<notin> set known then lookup_entries known dicts rest name
      else case Option.bind (dicts cls) (\<lambda>d. class_dict_get d name) of
        Some v \<Rightarrow> v
      | None \<Rightarrow> lookup_entries known dicts rest name)"

definition lookup_in_type :: "type_world \<Rightarrow> addr \<Rightarrow> u32 \<Rightarrow> addr option" where
  "lookup_in_type w ty name =
     (let known = namespaced_types (registry w) in
      if ty = 0 \<or> ty \<notin> set known then Some 0
      else map_option (\<lambda>es. lookup_entries known (tp_dict w) es name) (mro_entries (types w) ty))"

text \<open>Assigning and deleting through a namespace view; the owner has a namespace.\<close>

definition class_dict_view_set_id :: "addr \<Rightarrow> u32 \<Rightarrow> addr \<Rightarrow> type_world \<Rightarrow> type_world option" where
  "class_dict_view_set_id owner name v w =
     (case tp_dict w owner of
        None \<Rightarrow> None
      | Some d \<Rightarrow> Some (w\<lparr>tp_dict := (tp_dict w)(owner \<mapsto> class_dict_set name v d), registry := type_modified owner (registry w)\<rparr>))"

definition class_dict_view_del_id :: "addr \<Rightarrow> u32 \<Rightarrow> type_world \<Rightarrow> (bool \<times> type_world) option" where
  "class_dict_view_del_id owner name w =
     (case tp_dict w owner of
        None \<Rightarrow> None
      | Some d \<Rightarrow>
          (case class_dict_del name d of
             (True, d') \<Rightarrow>
               Some (True, w\<lparr>tp_dict := (tp_dict w)(owner \<mapsto> d'), registry := type_modified owner (registry w)\<rparr>)
           | (False, d') \<Rightarrow> Some (False, w)))"

definition register_ancestors :: "addr list \<Rightarrow> addr \<Rightarrow> type_registry \<Rightarrow> type_registry" where
  "register_ancestors entries ty r =
     fold (\<lambda>ancestor r. if ancestor \<noteq> 0 \<and> ancestor \<noteq> ty then register_subclass ancestor ty r else r) entries r"

definition register_bases :: "addr list \<Rightarrow> addr \<Rightarrow> type_registry \<Rightarrow> type_registry" where
  "register_bases bases ty r =
     fold (\<lambda>base r. if base \<noteq> 0 \<and> base \<noteq> ty then register_direct_subclass base ty r else r) bases r"

text \<open>
  The publication of a class by \<open>construct_class\<close>: the box of the new type is at \<open>ty\<close>, with its
  namespace already in place.  A class without a consistent order stays registered as a namespace.
\<close>

definition construct_class_publish :: "addr \<Rightarrow> addr list \<Rightarrow> class_dict \<Rightarrow> type_world \<Rightarrow> (bool \<times> type_world) option" where
  "construct_class_publish ty bases namespace w =
     (let w1 = w\<lparr>tp_dict := (tp_dict w)(ty \<mapsto> namespace), registry := register_namespaced_type ty (registry w),
                types := set_declared_bases ty bases (types w)\<rparr>
      in case set_c3_mro ty bases (types w1) of
           None \<Rightarrow> None
         | Some (Inl e) \<Rightarrow> Some (False, w1)
         | Some (Inr ts) \<Rightarrow>
             map_option (\<lambda>entries.
                 (True, w1\<lparr>types := ts, registry := register_bases bases ty (register_ancestors entries ty (registry w1))\<rparr>))
               (mro_entries ts ty))"

text \<open>The publication by \<open>construct_capi_class\<close>: nothing is registered before the order is known.\<close>

definition construct_capi_publish :: "addr \<Rightarrow> addr list \<Rightarrow> class_dict \<Rightarrow> type_world \<Rightarrow> (bool \<times> type_world) option" where
  "construct_capi_publish ty bases namespace w =
     (case set_c3_mro ty bases (set_declared_bases ty bases (types w)) of
        None \<Rightarrow> None
      | Some (Inl e) \<Rightarrow> Some (False, w)
      | Some (Inr ts) \<Rightarrow>
          map_option (\<lambda>entries.
              (True, w\<lparr>types := ts, tp_dict := (tp_dict w)(ty \<mapsto> namespace),
                 registry := register_bases bases ty (register_ancestors entries ty (register_namespaced_type ty (registry w)))\<rparr>))
            (mro_entries ts ty))"

section \<open>What \<open>type_modified\<close> reaches\<close>

definition subclass_edges :: "type_registry \<Rightarrow> (addr \<times> addr) set" where
  "subclass_edges r = {(b, d). d \<in> set (subclass_children (TYPE_SUBCLASSES r) b)}"

lemma affected_set:
  assumes "\<And>s. s \<in> set seen \<Longrightarrow> set (subclass_children t s) \<subseteq> set seen \<union> set pending"
  shows "set (affected t pending seen) = set seen \<union> {(b, d). d \<in> set (subclass_children t b)}\<^sup>* `` set pending"
  using assms
proof (induction t pending seen rule: affected.induct)
  case (1 t pending seen)
  let ?E = "{(b, d). d \<in> set (subclass_children t b)}"
  show ?case
  proof (cases "vec_pop pending")
    case None
    then show ?thesis by (simp add: affected.simps)
  next
    case (Some ar)
    then obtain a rest where ar: "vec_pop pending = Some (a, rest)" by (cases ar) auto
    then have p: "pending = rest @ [a]" by (rule vec_pop_SomeD)
    show ?thesis
    proof (cases "a \<in> set seen")
      case True
      have closed: "set (subclass_children t s) \<subseteq> set seen \<union> set rest" if "s \<in> set seen" for s
        using "1.prems" [OF that] True by (auto simp: p)
      have "x \<in> set seen \<union> ?E\<^sup>* `` set rest" if "(a, x) \<in> ?E\<^sup>*" for x
        using that
      proof (induction rule: rtrancl_induct)
        case (step y z)
        then show ?case
          using closed [of y] by (auto intro: rtrancl_into_rtrancl)
      qed (use True in simp)
      then have "?E\<^sup>* `` {a} \<subseteq> set seen \<union> ?E\<^sup>* `` set rest" by blast
      moreover have "set (affected t rest seen) = set seen \<union> ?E\<^sup>* `` set rest"
        using "1.IH"(1) [OF ar refl True] closed by simp
      ultimately show ?thesis
        using ar True by (subst affected.simps) (auto simp: p)
    next
      case False
      have c: "set (subclass_children t s) \<subseteq> set (seen @ [a]) \<union> set (rest @ subclass_children t a)" if "s \<in> set (seen @ [a])" for s
        using "1.prems" that by (fastforce simp: p)
      have "?E\<^sup>* `` {a} = insert a (?E\<^sup>* `` set (subclass_children t a))"
        by (auto elim: converse_rtranclE intro: converse_rtrancl_into_rtrancl)
      moreover have "set (affected t (rest @ subclass_children t a) (seen @ [a])) =
          set (seen @ [a]) \<union> ?E\<^sup>* `` set (rest @ subclass_children t a)"
        by (rule "1.IH"(2) [OF ar refl False c])
      ultimately show ?thesis
        using ar False by (subst affected.simps) (auto simp: p)
    qed
  qed
qed

lemma affected_distinct: "distinct seen \<Longrightarrow> distinct (affected t pending seen)"
proof (induction t pending seen rule: affected.induct)
  case (1 t pending seen)
  then show ?case by (subst affected.simps) (auto split: option.splits)
qed

definition affects :: "type_registry \<Rightarrow> addr \<Rightarrow> addr \<Rightarrow> bool" where
  "affects r m x \<longleftrightarrow> m \<noteq> 0 \<and> (m, x) \<in> (subclass_edges r)\<^sup>*"

lemma bump_all:
  "distinct as \<Longrightarrow>
     fold (\<lambda>address r. snd (bump_type_version_epoch address (bump_version address r))) as r =
     r\<lparr>version_tag := (\<lambda>x. version_tag r x + (if x \<in> set as then 1 else 0)),
       version_epoch := (\<lambda>x. version_epoch r x + (if x \<in> set as then 1 else 0))\<rparr>"
  by (induction as arbitrary: r) (auto simp: bump_version_def bump_type_version_epoch_def Let_def fun_eq_iff)

lemma type_modified_eq:
  "type_modified m r =
     r\<lparr>version_tag := (\<lambda>x. version_tag r x + (if affects r m x then 1 else 0)),
       version_epoch := (\<lambda>x. version_epoch r x + (if affects r m x then 1 else 0))\<rparr>"
proof (cases "m = 0")
  case False
  have "set (affected (TYPE_SUBCLASSES r) [m] []) = {x. affects r m x}"
    using affected_set [of "[]" "TYPE_SUBCLASSES r" "[m]"] False by (auto simp: affects_def subclass_edges_def)
  then show ?thesis using False affected_distinct [of "[]"] by (simp add: type_modified_def bump_all)
qed (simp add: type_modified_def affects_def)

section \<open>Registration\<close>

lemma children_push:
  "subclass_children (table_push k v t) k' =
     (if k' = k \<and> v \<notin> set (subclass_children t k) then subclass_children t k @ [v] else subclass_children t k')"
  by (induction k v t rule: table_push.induct) (auto simp: subclass_children_def)

lemma edges_register_subclass:
  "subclass_edges (register_subclass b d r) =
     (if b = 0 \<or> d = 0 \<or> b = d then subclass_edges r else insert (b, d) (subclass_edges r))"
  by (auto simp: subclass_edges_def register_subclass_def children_push split: if_splits)

lemma other_registrations [simp]:
  "subclass_edges (register_direct_subclass b d r) = subclass_edges r" "subclass_edges (register_namespaced_type t r) = subclass_edges r"
  "version_tag (register_direct_subclass b d r) = version_tag r" "version_tag (register_namespaced_type t r) = version_tag r"
  "version_tag (register_subclass b d r) = version_tag r" "TYPES_WITH_NAMESPACE (register_subclass b d r) = TYPES_WITH_NAMESPACE r"
  "TYPES_WITH_NAMESPACE (register_direct_subclass b d r) = TYPES_WITH_NAMESPACE r"
  by (simp_all add: subclass_edges_def register_direct_subclass_def register_namespaced_type_def register_subclass_def)

lemma known_register [simp]:
  "set (TYPES_WITH_NAMESPACE (register_namespaced_type t r)) = set (TYPES_WITH_NAMESPACE r) \<union> ({t} - {0})"
  by (auto simp: register_namespaced_type_def)

lemma register_bases_keeps [simp]:
  "subclass_edges (register_bases bs ty r) = subclass_edges r" "version_tag (register_bases bs ty r) = version_tag r"
  "TYPES_WITH_NAMESPACE (register_bases bs ty r) = TYPES_WITH_NAMESPACE r"
  unfolding register_bases_def by (induction bs arbitrary: r) auto

lemma register_ancestors_keeps [simp]:
  "version_tag (register_ancestors es ty r) = version_tag r"
  "TYPES_WITH_NAMESPACE (register_ancestors es ty r) = TYPES_WITH_NAMESPACE r"
  unfolding register_ancestors_def by (induction es arbitrary: r) auto

lemma edges_register_ancestors:
  "ty \<noteq> 0 \<Longrightarrow> subclass_edges (register_ancestors es ty r) = subclass_edges r \<union> {(a, ty) |a. a \<in> set es \<and> a \<noteq> 0 \<and> a \<noteq> ty}"
  unfolding register_ancestors_def by (induction es arbitrary: r) (auto simp: edges_register_subclass)

lemma affects_mono: "subclass_edges r \<subseteq> subclass_edges r' \<Longrightarrow> affects r m x \<Longrightarrow> affects r' m x"
  unfolding affects_def using rtrancl_mono by blast

lemma type_modified_keeps [simp]:
  "subclass_edges (type_modified m r) = subclass_edges r" "TYPES_WITH_NAMESPACE (type_modified m r) = TYPES_WITH_NAMESPACE r"
  "version_tag (type_modified m r) x = version_tag r x + (if affects r m x then 1 else 0)"
  by (simp_all add: type_modified_eq subclass_edges_def)

section \<open>Histories of the type system\<close>

text \<open>A new type sits at an address that no other type object uses.\<close>

definition fresh_type :: "addr \<Rightarrow> type_world \<Rightarrow> bool" where
  "fresh_type ty w \<longleftrightarrow> ty \<noteq> 0 \<and> ty \<notin> set (namespaced_types (registry w)) \<and>
     (\<forall>x es. tp_mro (ty_at (types w) x) = Some es \<longrightarrow> ty \<notin> set es \<and> x \<noteq> ty)"

inductive type_step :: "type_world \<Rightarrow> type_world \<Rightarrow> bool" where
  set_id: "class_dict_view_set_id owner name v w = Some w' \<Longrightarrow> type_step w w'"
| del_id: "class_dict_view_del_id owner name w = Some (b, w') \<Longrightarrow> type_step w w'"
| construct: "fresh_type ty w \<Longrightarrow> construct_class_publish ty bases ns w = Some (b, w') \<Longrightarrow> type_step w w'"
| capi: "fresh_type ty w \<Longrightarrow> construct_capi_publish ty bases ns w = Some (b, w') \<Longrightarrow> type_step w w'"

text \<open>Every type is registered, directly or through others, with the types of its resolution order.\<close>

definition world_ok :: "type_world \<Rightarrow> bool" where
  "world_ok w \<longleftrightarrow> (\<forall>x es a. tp_mro (ty_at (types w) x) = Some es \<longrightarrow> a \<in> set es \<longrightarrow> a = 0 \<or> affects (registry w) a x)"

definition has_order :: "type_world \<Rightarrow> addr \<Rightarrow> bool" where
  "has_order w x \<longleftrightarrow> x \<in> set (namespaced_types (registry w)) \<and> tp_mro (ty_at (types w) x) \<noteq> None"

lemma lookup_entries_cong:
  assumes "\<And>a. a \<in> set es \<Longrightarrow> a \<noteq> 0 \<Longrightarrow> (a \<in> set known \<longleftrightarrow> a \<in> set known') \<and> (a \<in> set known \<longrightarrow> dicts a = dicts' a)"
  shows "lookup_entries known dicts es name = lookup_entries known' dicts' es name"
  using assms by (induction es) (auto split: option.splits)

lemma lookup_has_order:
  "has_order w x \<Longrightarrow> x \<noteq> 0 \<Longrightarrow>
     lookup_in_type w x name =
     Some (lookup_entries (namespaced_types (registry w)) (tp_dict w) (the (tp_mro (ty_at (types w) x))) name)"
  by (auto simp: has_order_def lookup_in_type_def mro_entries_def Let_def)

text \<open>What a step may do to a type that has an order: bump its version, or leave its lookups alone.\<close>

definition step_keeps :: "type_world \<Rightarrow> type_world \<Rightarrow> addr \<Rightarrow> bool" where
  "step_keeps w w' x \<longleftrightarrow> has_order w' x \<and>
     (version_tag (registry w') x = version_tag (registry w) x + 1 \<or>
      version_tag (registry w') x = version_tag (registry w) x \<and> (\<forall>name. lookup_in_type w' x name = lookup_in_type w x name))"

lemma modify_dict_keeps:
  assumes "world_ok w" "has_order w x" "w' = w\<lparr>tp_dict := (tp_dict w)(owner := d), registry := type_modified owner (registry w)\<rparr>"
  shows "world_ok w'" "step_keeps w w' x"
proof -
  show "world_ok w'" using assms(1) by (auto simp: world_ok_def assms(3) affects_def)
  obtain es where es: "tp_mro (ty_at (types w) x) = Some es" using assms(2) by (auto simp: has_order_def)
  have order: "has_order w' x" using assms(2) by (simp add: has_order_def assms(3) namespaced_types_def)
  show "step_keeps w w' x"
  proof (cases "affects (registry w) owner x")
    case True
    then show ?thesis using order by (simp add: step_keeps_def assms(3))
  next
    case False
    then have out: "a \<noteq> owner" if "a \<in> set es" "a \<noteq> 0" for a
      using assms(1) es that by (auto simp: world_ok_def)
    have "lookup_in_type w' x name = lookup_in_type w x name" for name
    proof (cases "x = 0")
      case False
      then show ?thesis
        using lookup_has_order [OF assms(2)] lookup_has_order [OF order] es out
        by (auto simp: assms(3) namespaced_types_def intro!: lookup_entries_cong)
    qed (simp add: lookup_in_type_def)
    then show ?thesis using False order by (simp add: step_keeps_def assms(3))
  qed
qed

lemma publish_keeps:
  assumes "world_ok w" "has_order w x" "fresh_type ty w"
    and types: "\<And>u. u \<noteq> ty \<Longrightarrow> ty_at (types w') u = ty_at (types w) u"
    and dicts: "\<And>u. u \<noteq> ty \<Longrightarrow> tp_dict w' u = tp_dict w u"
    and known: "\<And>u. u \<noteq> ty \<Longrightarrow> u \<in> set (namespaced_types (registry w')) \<longleftrightarrow> u \<in> set (namespaced_types (registry w))"
    and tags: "version_tag (registry w') = version_tag (registry w)"
    and edges: "subclass_edges (registry w) \<subseteq> subclass_edges (registry w')"
    and new: "\<And>es a. tp_mro (ty_at (types w') ty) = Some es \<Longrightarrow> a \<in> set es \<Longrightarrow> a = 0 \<or> affects (registry w') a ty"
  shows "world_ok w'" "step_keeps w w' x"
proof -
  show "world_ok w'"
    unfolding world_ok_def
  proof (intro allI impI)
    fix u es a
    assume u: "tp_mro (ty_at (types w') u) = Some es" "a \<in> set es"
    show "a = 0 \<or> affects (registry w') a u"
    proof (cases "u = ty")
      case False
      then have "a = 0 \<or> affects (registry w) a u" using assms(1) u types by (auto simp: world_ok_def)
      then show ?thesis using affects_mono [OF edges] by blast
    qed (use u new in blast)
  qed
  obtain es where es: "tp_mro (ty_at (types w) x) = Some es" using assms(2) by (auto simp: has_order_def)
  then have x: "x \<noteq> ty" "ty \<notin> set es" using assms(3) by (auto simp: fresh_type_def)
  have order: "has_order w' x" using assms(2) x types known by (simp add: has_order_def)
  have "lookup_in_type w' x name = lookup_in_type w x name" for name
  proof (cases "x = 0")
    case False
    have "lookup_entries (namespaced_types (registry w')) (tp_dict w') es name =
        lookup_entries (namespaced_types (registry w)) (tp_dict w) es name"
      by (rule lookup_entries_cong) (use x(2) known dicts in metis)
    then show ?thesis
      using lookup_has_order [OF assms(2) False] lookup_has_order [OF order False] es types [OF x(1)] by simp
  qed (simp add: lookup_in_type_def)
  then show "step_keeps w w' x" using order tags by (simp add: step_keeps_def)
qed

lemma set_declared_bases_other: "u \<noteq> ty \<Longrightarrow> ty_at (set_declared_bases ty bs ts) u = ty_at ts u"
  by (simp add: set_declared_bases_def)

lemma set_declared_bases_mro [simp]: "tp_mro (ty_at (set_declared_bases ty bs ts) u) = tp_mro (ty_at ts u)"
  by (simp add: set_declared_bases_def)

lemma set_c3_mro_result:
  assumes "set_c3_mro ty bs ts = Some (Inr ts')"
  obtains es where "tp_mro (ty_at ts' ty) = Some es" "\<And>u. u \<noteq> ty \<Longrightarrow> ty_at ts' u = ty_at ts u"
  using assms by (auto simp: set_c3_mro_def split: option.splits sum.splits)

lemma registered_affects:
  assumes "ty \<noteq> 0" "a \<in> set es" "a \<noteq> 0"
  shows "affects (register_bases bs ty (register_ancestors es ty r)) a ty"
  using assms by (cases "a = ty") (auto simp: affects_def edges_register_ancestors intro: r_into_rtrancl)

lemma published_keeps:
  assumes "world_ok w" "has_order w x" "fresh_type ty w"
    and w': "w' = w\<lparr>tp_dict := (tp_dict w)(ty \<mapsto> ns), types := ts,
        registry := register_bases bs ty (register_ancestors es ty (register_namespaced_type ty (registry w)))\<rparr>"
    and es: "tp_mro (ty_at ts ty) = Some es" and same: "\<And>u. u \<noteq> ty \<Longrightarrow> ty_at ts u = ty_at (types w) u"
  shows "world_ok w' \<and> step_keeps w w' x"
proof -
  have ty: "ty \<noteq> 0" using assms(3) by (simp add: fresh_type_def)
  have 1: "tp_dict w' u = tp_dict w u"
    "u \<in> set (namespaced_types (registry w')) \<longleftrightarrow> u \<in> set (namespaced_types (registry w))" if "u \<noteq> ty" for u
    using that by (simp_all add: w' namespaced_types_def)
  have 2: "version_tag (registry w') = version_tag (registry w)" "subclass_edges (registry w) \<subseteq> subclass_edges (registry w')"
    using ty by (auto simp: w' edges_register_ancestors)
  have 3: "a = 0 \<or> affects (registry w') a ty" if "tp_mro (ty_at (types w') ty) = Some es'" "a \<in> set es'" for es' a
    using that es registered_affects [OF ty] by (auto simp: w')
  have 4: "ty_at (types w') u = ty_at (types w) u" if "u \<noteq> ty" for u using same that by (simp add: w')
  have "world_ok w'" by (rule publish_keeps(1) [OF assms(1-3)]) (fact 1 2 3 4)+
  moreover have "step_keeps w w' x" by (rule publish_keeps(2) [OF assms(1-3)]) (fact 1 2 3 4)+
  ultimately show ?thesis by blast
qed

lemma construct_keeps:
  assumes "world_ok w" "has_order w x" "fresh_type ty w" "construct_class_publish ty bs ns w = Some (b, w')"
  shows "world_ok w' \<and> step_keeps w w' x"
proof -
  have ty: "ty \<noteq> 0" using assms(3) by (simp add: fresh_type_def)
  consider e where "set_c3_mro ty bs (set_declared_bases ty bs (types w)) = Some (Inl e)"
    | ts where "set_c3_mro ty bs (set_declared_bases ty bs (types w)) = Some (Inr ts)"
    using assms(4) by (auto simp: construct_class_publish_def Let_def split: option.splits sum.splits)
  then show ?thesis
  proof cases
    case 1
    have none: "tp_mro (ty_at (types w) ty) = None"
      using assms(3) by (cases "tp_mro (ty_at (types w) ty)") (auto simp: fresh_type_def)
    have w': "w' = w\<lparr>tp_dict := (tp_dict w)(ty \<mapsto> ns), registry := register_namespaced_type ty (registry w),
                types := set_declared_bases ty bs (types w)\<rparr>"
      using assms(4) 1 by (simp add: construct_class_publish_def Let_def)
    show ?thesis
      using publish_keeps [OF assms(1-3), of w'] none
      by (simp add: w' set_declared_bases_other namespaced_types_def)
  next
    case 2
    obtain es where es: "tp_mro (ty_at ts ty) = Some es"
      and same: "\<And>u. u \<noteq> ty \<Longrightarrow> ty_at ts u = ty_at (set_declared_bases ty bs (types w)) u"
      using set_c3_mro_result [OF 2] by metis
    have w': "w' = w\<lparr>tp_dict := (tp_dict w)(ty \<mapsto> ns), types := ts,
        registry := register_bases bs ty (register_ancestors es ty (register_namespaced_type ty (registry w)))\<rparr>"
      using assms(4) 2 ty es by (auto simp: construct_class_publish_def Let_def mro_entries_def)
    show ?thesis by (rule published_keeps [OF assms(1-3) w' es]) (simp add: same set_declared_bases_other)
  qed
qed

lemma capi_keeps:
  assumes "world_ok w" "has_order w x" "fresh_type ty w" "construct_capi_publish ty bs ns w = Some (b, w')"
  shows "world_ok w' \<and> step_keeps w w' x"
proof -
  have ty: "ty \<noteq> 0" using assms(3) by (simp add: fresh_type_def)
  consider e where "set_c3_mro ty bs (set_declared_bases ty bs (types w)) = Some (Inl e)"
    | ts where "set_c3_mro ty bs (set_declared_bases ty bs (types w)) = Some (Inr ts)"
    using assms(4) by (auto simp: construct_capi_publish_def split: option.splits sum.splits)
  then show ?thesis
  proof cases
    case 1
    then have "w' = w" using assms(4) by (simp add: construct_capi_publish_def)
    then show ?thesis using assms(1,2) by (simp add: step_keeps_def)
  next
    case 2
    obtain es where es: "tp_mro (ty_at ts ty) = Some es"
      and same: "\<And>u. u \<noteq> ty \<Longrightarrow> ty_at ts u = ty_at (set_declared_bases ty bs (types w)) u"
      using set_c3_mro_result [OF 2] by metis
    have w': "w' = w\<lparr>tp_dict := (tp_dict w)(ty \<mapsto> ns), types := ts,
        registry := register_bases bs ty (register_ancestors es ty (register_namespaced_type ty (registry w)))\<rparr>"
      using assms(4) 2 ty es by (auto simp: construct_capi_publish_def mro_entries_def)
    show ?thesis by (rule published_keeps [OF assms(1-3) w' es]) (simp add: same set_declared_bases_other)
  qed
qed

lemma type_step_keeps:
  assumes "type_step w w'" "world_ok w" "has_order w x"
  shows "world_ok w' \<and> step_keeps w w' x"
  using assms(1)
proof (cases rule: type_step.cases)
  case (set_id owner name v)
  then show ?thesis
    using modify_dict_keeps [OF assms(2,3), of w' owner]
    by (cases "tp_dict w owner") (auto simp: class_dict_view_set_id_def)
next
  case (del_id owner name b)
  then consider d where "w' = w\<lparr>tp_dict := (tp_dict w)(owner \<mapsto> d), registry := type_modified owner (registry w)\<rparr>" | "w' = w"
    by (auto simp: class_dict_view_del_id_def split: option.splits prod.splits bool.splits)
  then show ?thesis
  proof cases
    case 1
    then show ?thesis using modify_dict_keeps [OF assms(2,3)] by blast
  next
    case 2
    then show ?thesis using assms(2,3) by (simp add: step_keeps_def)
  qed
next
  case (construct ty bases ns b)
  then show ?thesis using construct_keeps [OF assms(2,3)] by blast
next
  case (capi ty bases ns b)
  then show ?thesis using capi_keeps [OF assms(2,3)] by blast
qed

lemma type_run_keeps:
  assumes "(type_step ^^ n) w w'" "world_ok w" "has_order w x"
  shows "world_ok w' \<and> has_order w' x \<and> (\<exists>b \<le> n. version_tag (registry w') x = version_tag (registry w) x + of_nat b \<and>
     (b = 0 \<longrightarrow> (\<forall>name. lookup_in_type w' x name = lookup_in_type w x name)))"
  using assms(1)
proof (induction n arbitrary: w')
  case (Suc n)
  then obtain v where v: "(type_step ^^ n) w v" "type_step v w'" by auto
  then obtain b where b: "world_ok v" "has_order v x" "b \<le> n" "version_tag (registry v) x = version_tag (registry w) x + of_nat b"
    "b = 0 \<longrightarrow> (\<forall>name. lookup_in_type v x name = lookup_in_type w x name)"
    using Suc.IH by blast
  have k: "world_ok w'" "step_keeps v w' x" using type_step_keeps [OF v(2) b(1,2)] by blast+
  then consider "version_tag (registry w') x = version_tag (registry v) x + 1"
    | "version_tag (registry w') x = version_tag (registry v) x" "\<forall>name. lookup_in_type w' x name = lookup_in_type v x name"
    unfolding step_keeps_def by blast
  then show ?case
  proof cases
    case 1
    then have "version_tag (registry w') x = version_tag (registry w) x + of_nat (Suc b)" using b(4) by simp
    then show ?thesis using k b(3) by (metis Suc_le_mono nat.distinct(1) step_keeps_def)
  next
    case 2
    then show ?thesis using k b(3-5) by (auto simp: step_keeps_def intro!: exI [of _ b])
  qed
qed (use assms(2,3) in auto)

lemma of_nat_u32_eq_0: "(of_nat b :: u32) = 0 \<Longrightarrow> b < 2 ^ 32 \<Longrightarrow> b = 0"
  using of_nat_inverse [of b "0 :: u32"] by simp

lemma attr_words_guards [simp]:
  "ic_identity (attr_words t ic) = t" "ic_version (attr_words t ic) = type_version ic"
  by (simp_all add: attr_words_def)

text \<open>\<open>object\<close> at 1, \<open>A\<close> at 2, \<open>B(A)\<close> at 3 and \<open>C\<close> at 4, with a method in the namespace of \<open>A\<close>.\<close>

definition sample_world :: type_world where
  "sample_world =
     \<lparr>types = \<lparr>ty_at = (\<lambda>t. sample_ty (if t = 1 then Some [1] else if t = 2 then Some [2, 1] else if t = 3 then Some [3, 2, 1]
         else if t = 4 then Some [4, 1] else None)), object_type = Some 1\<rparr>,
      registry = \<lparr>TYPE_SUBCLASSES = [(1, [2, 3, 4]), (2, [3])], TYPE_DIRECT_SUBCLASSES = [(1, [2, 4]), (2, [3])],
         TYPES_WITH_NAMESPACE = [1, 2, 3, 4], version_tag = (\<lambda>_. VERSION_TAG_SEED), version_epoch = (\<lambda>_. 0)\<rparr>,
      tp_dict = (\<lambda>t. if t \<in> {1, 3, 4} then Some class_dict_new
         else if t = 2 then Some (class_dict_set 9 77 class_dict_new) else None)\<rparr>"

lemma sample_world_ok: "world_ok sample_world" "has_order sample_world 3" "lookup_in_type sample_world 3 9 = Some 77"
proof -
  have "(1, 2) \<in> subclass_edges (registry sample_world)" "(1, 3) \<in> subclass_edges (registry sample_world)"
    "(1, 4) \<in> subclass_edges (registry sample_world)" "(2, 3) \<in> subclass_edges (registry sample_world)"
    by (simp_all add: sample_world_def subclass_edges_def subclass_children_def)
  then show "world_ok sample_world"
    by (auto simp: world_ok_def affects_def sample_ty_def sample_world_def split: if_splits)
  show "has_order sample_world 3" by (simp add: has_order_def sample_world_def sample_ty_def namespaced_types_def)
  show "lookup_in_type sample_world 3 9 = Some 77"
    by (simp add: lookup_in_type_def sample_world_def sample_ty_def namespaced_types_def mro_entries_def class_dict_get_def
        class_dict_set_def class_dict_new_def)
qed

section \<open>Properties\<close>

text \<open>
  A type modification bumps exactly the type and its transitive registered subclasses, each of them
  once however many paths lead to it, in the version tag and in the epoch, both of which wrap
  around; it changes nothing else, and nothing at all for a null type.
\<close>
theorem type_modified_exact:
  "type_modified m r =
     r\<lparr>version_tag := (\<lambda>x. if m \<noteq> 0 \<and> (m, x) \<in> (subclass_edges r)\<^sup>* then version_tag r x + 1 else version_tag r x),
       version_epoch := (\<lambda>x. if m \<noteq> 0 \<and> (m, x) \<in> (subclass_edges r)\<^sup>* then version_epoch r x + 1 else version_epoch r x)\<rparr>"
  unfolding type_modified_eq affects_def
  by (intro type_registry.equality) (auto simp: fun_eq_iff)

text \<open>
  C13. An attribute cache is never stale.  Take a class whose ancestors have it registered, record an
  inline-cache entry for it at its current version, and let fewer than \<open>2 ^ 32\<close> class creations and
  assignments or deletions of type attributes happen anywhere in the type system.  If the entry
  still hits for the class's live version, it is the recorded entry, and every attribute of the
  class resolves as it did when the entry was recorded.
\<close>
theorem attribute_cache_never_stale:
  assumes "world_ok w" "has_order w x" "(type_step ^^ n) w w'" "n < 2 ^ 32"
    and "attr_accepted (of_nat x) ic" "type_version ic = version_tag (registry w) x" "quiet c"
    and "attr_hit (of_nat x) (version_tag (registry w') x) (record_attr (of_nat x, ic) c) = Some ic'"
  shows "ic' = ic \<and> lookup_in_type w' x name = lookup_in_type w x name"
proof -
  have "ic_snapshot (record_attr (of_nat x, ic) c) = Some (attr_words (of_nat x) ic)"
    using assms(5,7) snapshot_publish [of c "attr_words (of_nat x) ic"]
    by (simp add: record_attr_def attr_accepted_def)
  then have hit: "ic' = ic" "version_tag (registry w') x = version_tag (registry w) x"
    using assms(6,8) by (auto simp: attr_hit_def attr_check_def split: if_splits)
  obtain b where b: "b \<le> n" "version_tag (registry w') x = version_tag (registry w) x + of_nat b"
      "b = 0 \<longrightarrow> (\<forall>name. lookup_in_type w' x name = lookup_in_type w x name)"
    using type_run_keeps [OF assms(3,1,2)] by blast
  have "b = 0" using of_nat_u32_eq_0 [of b] b(1,2) hit(2) assms(4) by simp
  then show ?thesis using hit(1) b(3) by simp
qed

theorem attribute_cache_never_stale_witness:
  "\<exists>w'. class_dict_view_set_id 4 9 88 sample_world = Some w' \<and> lookup_in_type w' 3 9 = Some 77"
proof -
  define ic where "ic = \<lparr>type_version = VERSION_TAG_SEED, attr_kind = Descriptor, attr_offset = 0, attr_descriptor = 77\<rparr>"
  obtain w' where w': "class_dict_view_set_id 4 9 88 sample_world = Some w'"
    by (simp add: class_dict_view_set_id_def sample_world_def)
  have r: "registry w' = type_modified 4 (registry sample_world)"
    using w' by (auto simp: class_dict_view_set_id_def split: option.splits)
  have "affected (TYPE_SUBCLASSES (registry sample_world)) [4] [] = [4]"
    by (simp add: sample_world_def affected.simps vec_pop_def subclass_children_def)
  then have v: "version_tag (registry w') 3 = VERSION_TAG_SEED" "version_tag (registry sample_world) 3 = VERSION_TAG_SEED"
    unfolding r by (simp_all add: type_modified_def bump_version_def bump_type_version_epoch_def sample_world_def Let_def)
  have acc: "attr_accepted (of_nat 3) ic" by (simp add: attr_accepted_def ic_def VERSION_TAG_SEED_def IC_WRITING_def)
  have "ic_snapshot (record_attr (of_nat 3, ic) FEEDBACK_CELL_EMPTY) = Some (attr_words (of_nat 3) ic)"
    using acc snapshot_publish [OF quiet_empty(1), of "attr_words (of_nat 3) ic"] by (simp add: record_attr_def attr_accepted_def)
  then have hit: "attr_hit (of_nat 3) (version_tag (registry w') 3) (record_attr (of_nat 3, ic) FEEDBACK_CELL_EMPTY) = Some ic"
    by (simp add: attr_hit_def attr_check_def v) (simp add: ic_def)
  have "(type_step ^^ 1) sample_world w'" using w' by (auto intro: type_step.set_id)
  from attribute_cache_never_stale [OF sample_world_ok(1,2) this _ acc _ quiet_empty(1) hit, of 9]
  have "lookup_in_type w' 3 9 = lookup_in_type sample_world 3 9" by (simp add: v ic_def)
  then show ?thesis using w' sample_world_ok(3) by simp
qed

end
