(* ===== verification/Set_Table.thy ===== *)
theory Set_Table
  imports Dict_Table
begin

text \<open>
  Sets (\<open>pon-runtime/src/types/set_.rs\<close>): an insertion-ordered element vector with an open-addressed table of
  indices over it, sized and probed as for dictionaries.  The layout stores no hashes: a rebuild of the
  table hashes every element again.  Parameters stand for the object model: \<open>sm_hash\<close> and \<open>sm_equal\<close> are
  \<open>hash_object\<close> and \<open>object_equal\<close>, and \<open>sm_verify\<close> is the check of one candidate of a probe, which rehashes
  the candidate and compares it, runs Python code doing so, and so may change the set; as for
  dictionaries it also tells whether the two allocations of the set are still where they were.  A
  hash taken while a rebuild has the storage borrowed does not reach the same set.
\<close>

section \<open>Storage\<close>

record set_storage =
  s_entries :: "addr list"
  s_buckets :: "nat option list"

definition init_set :: set_storage where
  "init_set = \<lparr>s_entries = [], s_buckets = []\<rparr>"

record set_model =
  sm_hash :: "addr \<Rightarrow> message + int"
  sm_type_name :: "addr \<Rightarrow> string"
  sm_equal :: "addr \<Rightarrow> addr \<Rightarrow> message + bool"
  sm_verify :: "set_storage \<Rightarrow> addr \<Rightarrow> addr \<Rightarrow> int \<Rightarrow> (message + bool) \<times> set_storage \<times> bool"

definition hash_set_element :: "set_model \<Rightarrow> addr \<Rightarrow> message + int" where
  "hash_set_element sm item =
     (case sm_hash sm item of
        Inr h \<Rightarrow> Inr h
      | Inl m \<Rightarrow>
          if prefix ''unhashable type'' m
          then Inl (''cannot use '' @ CHR 0x27 # sm_type_name sm item @ CHR 0x27 # '' as a set element ('' @ m @ '')'') else Inl m)"

fun set_insert_loop :: "nat \<Rightarrow> nat \<Rightarrow> nat \<Rightarrow> nat option list \<Rightarrow> message + nat option list" where
  "set_insert_loop 0 bucket index buckets = Inl ''set bucket table is full''"
| "set_insert_loop (Suc n) bucket index buckets =
     (if buckets ! bucket = None then Inr (buckets[bucket := Some index])
      else set_insert_loop n ((bucket + 1) AND (length buckets - 1)) index buckets)"

definition insert_bucket_hashed :: "nat option list \<Rightarrow> int \<Rightarrow> nat \<Rightarrow> message + nat option list" where
  "insert_bucket_hashed buckets hash index =
     (if buckets = [] then Inl ''set bucket table is empty''
      else set_insert_loop (length buckets) (bucket_index hash (length buckets)) index buckets)"

definition set_insert_bucket :: "set_model \<Rightarrow> nat option list \<Rightarrow> addr list \<Rightarrow> nat \<Rightarrow> message + nat option list" where
  "set_insert_bucket sm buckets entries index =
     bind_ok (hash_set_element sm (entries ! index)) (\<lambda>hash. insert_bucket_hashed buckets hash index)"

fun set_insert_indices :: "set_model \<Rightarrow> nat list \<Rightarrow> addr list \<Rightarrow> nat option list \<Rightarrow> message + nat option list" where
  "set_insert_indices sm [] entries buckets = Inr buckets"
| "set_insert_indices sm (i # is) entries buckets =
     bind_ok (set_insert_bucket sm buckets entries i) (\<lambda>buckets. set_insert_indices sm is entries buckets)"

definition rebuild_set_buckets_with_capacity :: "set_model \<Rightarrow> set_storage \<Rightarrow> nat \<Rightarrow> message + set_storage" where
  "rebuild_set_buckets_with_capacity sm s capacity =
     bind_ok (set_insert_indices sm [0..<length (s_entries s)] (s_entries s) (replicate capacity None)) (\<lambda>buckets.
       Inr (s\<lparr>s_buckets := buckets\<rparr>))"

definition rebuild_set_buckets :: "set_model \<Rightarrow> set_storage \<Rightarrow> message + set_storage" where
  "rebuild_set_buckets sm s = rebuild_set_buckets_with_capacity sm s (bucket_capacity (length (s_entries s)))"

definition ensure_set_buckets :: "set_model \<Rightarrow> set_storage \<Rightarrow> message + set_storage" where
  "ensure_set_buckets sm s =
     (if length (s_buckets s) < bucket_capacity (length (s_entries s)) then rebuild_set_buckets sm s else Inr s)"

definition ensure_set_insert_capacity :: "set_model \<Rightarrow> set_storage \<Rightarrow> message + set_storage" where
  "ensure_set_insert_capacity sm s =
     (let occupied_after_insert = min (length (s_entries s) + 1) (2 ^ 64 - 1) in
      if sat_mul occupied_after_insert 3 \<ge> sat_mul (length (s_buckets s)) 2
      then rebuild_set_buckets_with_capacity sm s (bucket_capacity occupied_after_insert) else Inr s)"

section \<open>Lookup\<close>

text \<open>The candidates of a probe: the elements of its bucket chain.  An index past the elements panics.\<close>

fun chain :: "set_storage \<Rightarrow> nat \<Rightarrow> nat \<Rightarrow> (nat \<times> addr) list option" where
  "chain s 0 bucket = Some []"
| "chain s (Suc n) bucket =
     (case s_buckets s ! bucket of
        None \<Rightarrow> Some []
      | Some index \<Rightarrow>
          if index \<ge> length (s_entries s) then None
          else map_option (Cons (index, s_entries s ! index)) (chain s n ((bucket + 1) AND (length (s_buckets s) - 1))))"

datatype verify_result = Hit nat | Again | Miss | VerifyFail message

fun verify_loop :: "set_model \<Rightarrow> addr \<Rightarrow> int \<Rightarrow> nat \<times> nat \<Rightarrow> (nat \<times> addr) list \<Rightarrow> set_storage \<Rightarrow> bool \<Rightarrow> verify_result \<times> set_storage" where
  "verify_loop sm item hash witness [] s same = (Miss, s)"
| "verify_loop sm item hash witness ((index, entry) # rest) s same =
     (if entry = item then (Hit index, s)
      else case sm_verify sm s entry item hash of
        (Inl m, s', u) \<Rightarrow> (VerifyFail m, s')
      | (Inr matches, s', u) \<Rightarrow>
          if matches then
            (if length (s_entries s') > index \<and> s_entries s' ! index = entry then (Hit index, s') else (Again, s'))
          else if \<not> (same \<and> u) \<or> (length (s_entries s'), length (s_buckets s')) \<noteq> witness then (Again, s')
          else verify_loop sm item hash witness rest s' (same \<and> u))"

partial_function (option) find_set_index ::
  "set_model \<Rightarrow> set_storage \<Rightarrow> addr \<Rightarrow> int \<Rightarrow> ((fault + nat option) \<times> set_storage) option" where
  "find_set_index sm s item hash =
     (if s_buckets s = [] then Some (Inr None, s)
      else case chain s (length (s_buckets s)) (bucket_index hash (length (s_buckets s))) of
        None \<Rightarrow> Some (Inl Panicked, s)
      | Some candidates \<Rightarrow>
          if candidates = [] then Some (Inr None, s)
          else (case verify_loop sm item hash (length (s_entries s), length (s_buckets s)) candidates s True of
                  (Hit index, s') \<Rightarrow> Some (Inr (Some index), s')
                | (Miss, s') \<Rightarrow> Some (Inr None, s')
                | (VerifyFail m, s') \<Rightarrow> Some (Inl (Fail m), s')
                | (Again, s') \<Rightarrow> find_set_index sm s' item hash))"

section \<open>Operations\<close>

text \<open>The prologue of every operation on one element.\<close>

definition locate_element :: "set_model \<Rightarrow> addr \<Rightarrow> set_storage \<Rightarrow> ((fault + int \<times> nat option) \<times> set_storage) option" where
  "locate_element sm item s =
     (if item = 0 then Some (Inl (Fail ''set item is NULL''), s)
      else case hash_set_element sm item of
        Inl m \<Rightarrow> Some (Inl (Fail m), s)
      | Inr hash \<Rightarrow>
          (case ensure_set_buckets sm s of
             Inl m \<Rightarrow> Some (Inl (Fail m), s)
           | Inr s1 \<Rightarrow>
               map_option (\<lambda>(r, s2). (case r of Inl f \<Rightarrow> Inl f | Inr i \<Rightarrow> Inr (hash, i), s2)) (find_set_index sm s1 item hash)))"

definition push_element :: "set_model \<Rightarrow> addr \<Rightarrow> int \<Rightarrow> set_storage \<Rightarrow> (fault + unit) \<times> set_storage" where
  "push_element sm item hash s =
     (case ensure_set_insert_capacity sm s of
        Inl m \<Rightarrow> (Inl (Fail m), s)
      | Inr s1 \<Rightarrow>
          let index = length (s_entries s1); s2 = s1\<lparr>s_entries := s_entries s1 @ [item]\<rparr> in
          (case insert_bucket_hashed (s_buckets s2) hash index of
             Inl m \<Rightarrow> (Inl (Fail m), s2)
           | Inr buckets \<Rightarrow> (Inr (), s2\<lparr>s_buckets := buckets\<rparr>)))"

definition set_add :: "set_model \<Rightarrow> addr \<Rightarrow> set_storage \<Rightarrow> ((fault + unit) \<times> set_storage) option" where
  "set_add sm item s =
     map_option (\<lambda>(r, s1).
       case r of
         Inl f \<Rightarrow> (Inl f, s1)
       | Inr (hash, Some index) \<Rightarrow> (Inr (), s1)
       | Inr (hash, None) \<Rightarrow> push_element sm item hash s1) (locate_element sm item s)"

text \<open>The elements have changed before the table is rebuilt, and stay changed if the rebuild fails.\<close>

definition set_rebuilt :: "set_model \<Rightarrow> 'a \<Rightarrow> set_storage \<Rightarrow> (fault + 'a) \<times> set_storage" where
  "set_rebuilt sm a s = (case rebuild_set_buckets sm s of Inl m \<Rightarrow> (Inl (Fail m), s) | Inr s' \<Rightarrow> (Inr a, s'))"

definition set_remove :: "set_model \<Rightarrow> addr \<Rightarrow> set_storage \<Rightarrow> ((fault + bool) \<times> set_storage) option" where
  "set_remove sm item s =
     map_option (\<lambda>(r, s1).
       case r of
         Inl f \<Rightarrow> (Inl f, s1)
       | Inr (hash, None) \<Rightarrow> (Inr False, s1)
       | Inr (hash, Some i) \<Rightarrow> set_rebuilt sm True (s1\<lparr>s_entries := remove_at i (s_entries s1)\<rparr>)) (locate_element sm item s)"

definition set_discard :: "set_model \<Rightarrow> addr \<Rightarrow> set_storage \<Rightarrow> ((fault + unit) \<times> set_storage) option" where
  "set_discard sm item s = map_option (\<lambda>(r, s1). (case r of Inl f \<Rightarrow> Inl f | Inr _ \<Rightarrow> Inr (), s1)) (set_remove sm item s)"

definition set_pop :: "set_model \<Rightarrow> set_storage \<Rightarrow> (fault + addr option) \<times> set_storage" where
  "set_pop sm s =
     (case s_entries s of
        [] \<Rightarrow> (Inr None, s)
      | v # rest \<Rightarrow> set_rebuilt sm (Some v) (s\<lparr>s_entries := rest\<rparr>))"

definition set_clear :: "set_storage \<Rightarrow> set_storage" where
  "set_clear s = s\<lparr>s_entries := [], s_buckets := []\<rparr>"

definition set_contains :: "set_model \<Rightarrow> addr \<Rightarrow> set_storage \<Rightarrow> ((fault + bool) \<times> set_storage) option" where
  "set_contains sm item s =
     map_option (\<lambda>(r, s1). (case r of Inl f \<Rightarrow> Inl f | Inr (hash, i) \<Rightarrow> Inr (i \<noteq> None), s1)) (locate_element sm item s)"

text \<open>Set displays: hash and drop duplicates first, then fill from the hashes.\<close>

fun prehashed_member :: "set_model \<Rightarrow> addr \<Rightarrow> int \<Rightarrow> (addr \<times> int) list \<Rightarrow> message + bool" where
  "prehashed_member sm item hash [] = Inr False"
| "prehashed_member sm item hash ((entry, entry_hash) # rest) =
     bind_ok (if entry_hash = hash then sm_equal sm entry item else Inr False) (\<lambda>eq.
       if eq then Inr True else prehashed_member sm item hash rest)"

definition collect_prehashed_element :: "set_model \<Rightarrow> addr \<Rightarrow> (addr \<times> int) list \<Rightarrow> message + (addr \<times> int) list" where
  "collect_prehashed_element sm item entries =
     (if item = 0 then Inl ''set item is NULL''
      else bind_ok (hash_set_element sm item) (\<lambda>hash.
        bind_ok (prehashed_member sm item hash entries) (\<lambda>present.
          if present then Inr entries else Inr (entries @ [(item, hash)]))))"

fun fill_loop :: "nat \<Rightarrow> (addr \<times> int) list \<Rightarrow> nat option list \<Rightarrow> message + nat option list" where
  "fill_loop index [] buckets = Inr buckets"
| "fill_loop index ((item, hash) # rest) buckets =
     bind_ok (insert_bucket_hashed buckets hash index) (\<lambda>buckets. fill_loop (Suc index) rest buckets)"

definition set_fill_prehashed :: "(addr \<times> int) list \<Rightarrow> set_storage \<Rightarrow> (fault + unit) \<times> set_storage" where
  "set_fill_prehashed elems s =
     (let s1 = s\<lparr>s_entries := s_entries s @ map fst elems\<rparr> in
      case fill_loop 0 elems (replicate (bucket_capacity (length (s_entries s1))) None) of
        Inl m \<Rightarrow> (Inl (Fail m), s1)
      | Inr buckets \<Rightarrow> (Inr (), s1\<lparr>s_buckets := buckets\<rparr>))"

definition set_len_slot :: "set_storage \<Rightarrow> int" where
  "set_len_slot s = (case isize_try_from (length (s_entries s)) of Some n \<Rightarrow> n | None \<Rightarrow> isize_max)"

section \<open>A rebuild that fails\<close>

text \<open>
  C32. A removal that fails leaves a broken table.  Two elements are added; then the second one is removed
  while the hash of the first one raises: the element is gone, the call reports the error, and the
  table still holds the index of the removed element.  The next membership test that probes that
  bucket panics.
\<close>
theorem failed_removal_breaks_table:
  "\<exists>sm sm' s1 s2 s3.
     set_add sm 16 init_set = Some (Inr (), s1) \<and> set_add sm 17 s1 = Some (Inr (), s2) \<and>
     set_remove sm' 17 s2 = Some (Inl (Fail ''raised''), s3) \<and> s_entries s3 = [16] \<and>
     set_contains sm 33 s3 = Some (Inl Panicked, s3)"
proof -
  let ?sm = "\<lparr>sm_hash = (\<lambda>a. Inr (int a)), sm_type_name = (\<lambda>_. ''int''), sm_equal = (\<lambda>a b. Inr (a = b)),
    sm_verify = (\<lambda>s e x h. (Inr (int e = h \<and> e = x), s, True))\<rparr>"
  let ?bad = "?sm\<lparr>sm_hash := (\<lambda>a. if a = 16 then Inl ''raised'' else Inr (int a))\<rparr>"
  have cap: "bucket_capacity 0 = 8" "bucket_capacity (Suc 0) = 8" "bucket_capacity (Suc (Suc 0)) = 8"
    by (simp_all add: bucket_capacity_def next_power_of_two_def bit_len.simps)
  have and7: "b AND Suc (Suc (Suc (Suc (Suc (Suc (Suc 0)))))) = b mod 8" for b :: nat
  proof -
    have "Suc (Suc (Suc (Suc (Suc (Suc (Suc 0)))))) = 7" by simp
    then show ?thesis using and_pow [of b 3] by (simp only:) simp
  qed
  have idx: "bucket_index 16 (Suc (Suc (Suc (Suc (Suc (Suc (Suc (Suc 0)))))))) = 0"
    "bucket_index 17 (Suc (Suc (Suc (Suc (Suc (Suc (Suc (Suc 0)))))))) = 1"
    "bucket_index 33 (Suc (Suc (Suc (Suc (Suc (Suc (Suc (Suc 0)))))))) = 1"
    by (simp_all add: bucket_index_def as_usize_def and7)
  have r: "replicate 8 (None :: nat option) = [None, None, None, None, None, None, None, None]" by (simp add: numeral_eq_Suc)
  note ops = set_add_def set_remove_def set_contains_def locate_element_def hash_set_element_def ensure_set_buckets_def
    init_set_def rebuild_set_buckets_def rebuild_set_buckets_with_capacity_def cap idx r find_set_index.simps push_element_def
    ensure_set_insert_capacity_def sat_mul_def insert_bucket_hashed_def set_insert_bucket_def set_rebuilt_def remove_at_def Let_def and7
  have 1: "set_add ?sm 16 init_set = Some (Inr (), \<lparr>s_entries = [16], s_buckets = [Some 0, None, None, None, None, None, None, None]\<rparr>)"
    by (simp add: ops)
  have 2: "set_add ?sm 17 \<lparr>s_entries = [16], s_buckets = [Some 0, None, None, None, None, None, None, None]\<rparr> =
      Some (Inr (), \<lparr>s_entries = [16, 17], s_buckets = [Some 0, Some 1, None, None, None, None, None, None]\<rparr>)"
    by (simp add: ops)
  have 3: "set_remove ?bad 17 \<lparr>s_entries = [16, 17], s_buckets = [Some 0, Some 1, None, None, None, None, None, None]\<rparr> =
      Some (Inl (Fail ''raised''), \<lparr>s_entries = [16], s_buckets = [Some 0, Some 1, None, None, None, None, None, None]\<rparr>)"
    by (simp add: ops)
  have 4: "set_contains ?sm 33 \<lparr>s_entries = [16], s_buckets = [Some 0, Some 1, None, None, None, None, None, None]\<rparr> =
      Some (Inl Panicked, \<lparr>s_entries = [16], s_buckets = [Some 0, Some 1, None, None, None, None, None, None]\<rparr>)"
    by (simp add: ops)
  show ?thesis by (intro exI conjI) (rule 1, rule 2, rule 3, simp, rule 4)
qed

section \<open>Sets over the dictionary's table\<close>

text \<open>A set is read as a dictionary whose entries carry the hashes the set recomputes.\<close>

definition as_entry :: "(addr \<Rightarrow> int) \<Rightarrow> addr \<Rightarrow> dict_entry" where
  "as_entry ehash x = \<lparr>e_key = x, e_value = x, e_hash = ehash x\<rparr>"

definition as_dict :: "(addr \<Rightarrow> int) \<Rightarrow> set_storage \<Rightarrow> dict_storage" where
  "as_dict ehash s = \<lparr>d_entries = map (as_entry ehash) (s_entries s), d_buckets = s_buckets s\<rparr>"

lemma as_entry_fields [simp]: "e_key (as_entry h x) = x" "e_hash (as_entry h x) = h x" "e_value (as_entry h x) = x"
  by (simp_all add: as_entry_def)

lemma as_dict_fields [simp]:
  "d_entries (as_dict h s) = map (as_entry h) (s_entries s)" "d_buckets (as_dict h s) = s_buckets s"
  "as_dict h (s\<lparr>s_buckets := bs\<rparr>) = (as_dict h s)\<lparr>d_buckets := bs\<rparr>"
  by (simp_all add: as_dict_def)

lemma set_insert_loop_dict: "insert_loop n b i bs = Inr bs' \<Longrightarrow> set_insert_loop n b i bs = Inr bs'"
  by (induction n b i bs rule: insert_loop.induct) (auto split: if_splits)

lemma insert_bucket_hashed_dict:
  "insert_bucket bs entries i = Inr bs' \<Longrightarrow> insert_bucket_hashed bs (e_hash (entries ! i)) i = Inr bs'"
  by (auto simp: insert_bucket_def insert_bucket_hashed_def set_insert_loop_dict split: if_splits)

abbreviation set_index_ok :: "(addr \<Rightarrow> int) \<Rightarrow> set_storage \<Rightarrow> bool" where
  "set_index_ok ehash s \<equiv> index_ok (as_dict ehash s)"

section \<open>The specification\<close>

text \<open>An insertion-ordered set over an equality: the reference the table refines.\<close>

datatype set_cmd = Add addr | RemoveElem addr | Discard addr | Test addr | PopFirst | ClearElems

datatype set_reply = SetDone | SetBool bool | SetItem "addr option" | SetFault fault | SetDiverged

definition smember :: "(addr \<Rightarrow> addr \<Rightarrow> bool) \<Rightarrow> addr \<Rightarrow> addr list \<Rightarrow> bool" where
  "smember eq x xs \<longleftrightarrow> (\<exists>y \<in> set xs. eq y x)"

definition sinsert :: "(addr \<Rightarrow> addr \<Rightarrow> bool) \<Rightarrow> addr \<Rightarrow> addr list \<Rightarrow> addr list" where
  "sinsert eq x xs = (if smember eq x xs then xs else xs @ [x])"

definition sdelete :: "(addr \<Rightarrow> addr \<Rightarrow> bool) \<Rightarrow> addr \<Rightarrow> addr list \<Rightarrow> addr list" where
  "sdelete eq x xs = filter (\<lambda>y. \<not> eq y x) xs"

fun sspec :: "(addr \<Rightarrow> addr \<Rightarrow> bool) \<Rightarrow> set_cmd \<Rightarrow> addr list \<Rightarrow> (set_reply \<times> addr list) option" where
  "sspec eq (Add x) xs = Some (SetDone, sinsert eq x xs)"
| "sspec eq (RemoveElem x) xs = Some (SetBool (smember eq x xs), sdelete eq x xs)"
| "sspec eq (Discard x) xs = Some (SetDone, sdelete eq x xs)"
| "sspec eq (Test x) xs = Some (SetBool (smember eq x xs), xs)"
| "sspec eq PopFirst xs = Some (SetItem (if xs = [] then None else Some (hd xs)), tl xs)"
| "sspec eq ClearElems xs = Some (SetDone, [])"

definition set_reply_of :: "('a \<Rightarrow> set_reply) \<Rightarrow> set_storage \<Rightarrow> ((fault + 'a) \<times> set_storage) option \<Rightarrow> set_reply \<times> set_storage" where
  "set_reply_of f s r = (case r of None \<Rightarrow> (SetDiverged, s) | Some (Inl e, s') \<Rightarrow> (SetFault e, s') | Some (Inr a, s') \<Rightarrow> (f a, s'))"

fun set_run :: "set_model \<Rightarrow> set_cmd \<Rightarrow> set_storage \<Rightarrow> set_reply \<times> set_storage" where
  "set_run sm (Add x) s = set_reply_of (\<lambda>_. SetDone) s (set_add sm x s)"
| "set_run sm (RemoveElem x) s = set_reply_of SetBool s (set_remove sm x s)"
| "set_run sm (Discard x) s = set_reply_of (\<lambda>_. SetDone) s (set_discard sm x s)"
| "set_run sm (Test x) s = set_reply_of SetBool s (set_contains sm x s)"
| "set_run sm PopFirst s = set_reply_of SetItem s (Some (set_pop sm s))"
| "set_run sm ClearElems s = (SetDone, set_clear s)"

definition set_pre :: "addr set \<Rightarrow> set_cmd \<Rightarrow> set_storage \<Rightarrow> bool" where
  "set_pre K c s \<longleftrightarrow> length (s_entries s) < 2 ^ 60 \<and>
     (case c of Add x \<Rightarrow> x \<in> K | RemoveElem x \<Rightarrow> x \<in> K | Discard x \<Rightarrow> x \<in> K | Test x \<Rightarrow> x \<in> K | _ \<Rightarrow> True)"

definition elems_ok :: "(addr \<Rightarrow> addr \<Rightarrow> bool) \<Rightarrow> addr set \<Rightarrow> addr list \<Rightarrow> bool" where
  "elems_ok eq K xs \<longleftrightarrow> set xs \<subseteq> K \<and> sorted_wrt (\<lambda>a b. \<not> eq a b) xs"

text \<open>An empty table is rebuilt by the operation that needs it.\<close>

definition set_wf :: "(addr \<Rightarrow> int) \<Rightarrow> (addr \<Rightarrow> addr \<Rightarrow> bool) \<Rightarrow> addr set \<Rightarrow> set_storage \<Rightarrow> bool" where
  "set_wf ehash eq K s \<longleftrightarrow> elems_ok eq K (s_entries s) \<and> (s_buckets s = [] \<or> set_index_ok ehash s)"

section \<open>Elements with a plain hash and equality\<close>

text \<open>
  The contract on the elements of a set: hashing, equality and the check of a candidate answer
  without running Python code, equality is an equivalence, and equal elements hash alike.
\<close>

locale element_domain =
  fixes sm :: set_model and ehash :: "addr \<Rightarrow> int" and eq :: "addr \<Rightarrow> addr \<Rightarrow> bool" and K :: "addr set"
  assumes elem_hash: "x \<in> K \<Longrightarrow> sm_hash sm x = Inr (ehash x)"
    and elem_equal: "x \<in> K \<Longrightarrow> y \<in> K \<Longrightarrow> sm_equal sm x y = Inr (eq x y)"
    and elem_verify: "x \<in> K \<Longrightarrow> y \<in> K \<Longrightarrow> sm_verify sm s x y h = (Inr (ehash x = h \<and> eq x y), s, True)"
    and elem_live: "0 \<notin> K"
    and elem_refl: "x \<in> K \<Longrightarrow> eq x x"
    and elem_sym: "x \<in> K \<Longrightarrow> y \<in> K \<Longrightarrow> eq x y \<Longrightarrow> eq y x"
    and elem_trans: "x \<in> K \<Longrightarrow> y \<in> K \<Longrightarrow> z \<in> K \<Longrightarrow> eq x y \<Longrightarrow> eq y z \<Longrightarrow> eq x z"
    and elem_eq_hash: "x \<in> K \<Longrightarrow> y \<in> K \<Longrightarrow> eq x y \<Longrightarrow> ehash x = ehash y"
begin

lemma hash_element: "x \<in> K \<Longrightarrow> hash_set_element sm x = Inr (ehash x)"
  by (simp add: hash_set_element_def elem_hash)

lemma set_insert_indices_dict:
  assumes "insert_indices is (map (as_entry ehash) es) bs = Inr bs'" "set es \<subseteq> K" "\<forall>i \<in> set is. i < length es"
  shows "set_insert_indices sm is es bs = Inr bs'"
  using assms
proof (induction "is" arbitrary: bs)
  case (Cons i "is")
  obtain bs1 where b: "insert_bucket bs (map (as_entry ehash) es) i = Inr bs1" "insert_indices is (map (as_entry ehash) es) bs1 = Inr bs'"
    using Cons.prems(1) by (cases "insert_bucket bs (map (as_entry ehash) es) i") auto
  have i: "i < length es" "es ! i \<in> K" using Cons.prems(2,3) by auto
  have "insert_bucket_hashed bs (ehash (es ! i)) i = Inr bs1"
    using insert_bucket_hashed_dict [OF b(1)] i(1) by simp
  then have "set_insert_bucket sm bs es i = Inr bs1" using hash_element [OF i(2)] by (simp add: set_insert_bucket_def)
  then show ?case using Cons.IH [OF b(2)] Cons.prems(2,3) by simp
qed simp

lemma rebuild_dict:
  assumes "rebuild_dict_buckets_with_capacity (as_dict ehash s) c = Inr ((as_dict ehash s)\<lparr>d_buckets := bs\<rparr>)" "set (s_entries s) \<subseteq> K"
  shows "rebuild_set_buckets_with_capacity sm s c = Inr (s\<lparr>s_buckets := bs\<rparr>)"
proof -
  have "insert_indices [0..<length (s_entries s)] (map (as_entry ehash) (s_entries s)) (replicate c None) = Inr bs"
    using assms(1) by (cases "insert_indices [0..<length (s_entries s)] (map (as_entry ehash) (s_entries s)) (replicate c None)")
      (auto simp: rebuild_dict_buckets_with_capacity_def dest: arg_cong [of _ _ d_buckets])
  then show ?thesis using set_insert_indices_dict assms(2) by (simp add: rebuild_set_buckets_with_capacity_def)
qed

lemma set_rebuild_ok:
  assumes "length (s_entries s) \<le> 2 ^ 60" "set (s_entries s) \<subseteq> K"
  shows "\<exists>bs. rebuild_set_buckets sm s = Inr (s\<lparr>s_buckets := bs\<rparr>) \<and> set_index_ok ehash (s\<lparr>s_buckets := bs\<rparr>) \<and> bs \<noteq> []"
  using rebuild_ok [of "as_dict ehash s"] assms rebuild_dict [OF _ assms(2)]
  by (auto simp: rebuild_dict_buckets_def rebuild_set_buckets_def)

lemma set_ensure_ok:
  assumes "length (s_entries s) \<le> 2 ^ 60" "set (s_entries s) \<subseteq> K" "s_buckets s = [] \<or> set_index_ok ehash s"
  shows "\<exists>bs. ensure_set_buckets sm s = Inr (s\<lparr>s_buckets := bs\<rparr>) \<and> set_index_ok ehash (s\<lparr>s_buckets := bs\<rparr>) \<and> bs \<noteq> []"
proof (cases "length (s_buckets s) < bucket_capacity (length (s_entries s))")
  case True
  then show ?thesis using set_rebuild_ok [OF assms(1,2)] by (simp add: ensure_set_buckets_def)
next
  case False
  then have "s_buckets s \<noteq> []" using bucket_capacity_ok(3) [OF assms(1)] by auto
  then show ?thesis using False assms(3)
    by (intro exI [of _ "s_buckets s"]) (simp add: ensure_set_buckets_def as_dict_def)
qed

lemma set_ensure_insert_ok:
  assumes "length (s_entries s) < 2 ^ 60" "set (s_entries s) \<subseteq> K" "set_index_ok ehash s" "s_buckets s \<noteq> []"
  shows "\<exists>bs. ensure_set_insert_capacity sm s = Inr (s\<lparr>s_buckets := bs\<rparr>) \<and>
    table_ok (length (s_entries s)) (map (as_entry ehash) (s_entries s)) bs \<and> Suc (length (s_entries s)) < length bs \<and> length bs \<le> 2 ^ 62"
proof -
  obtain bs where bs: "ensure_dict_insert_capacity (as_dict ehash s) = Inr ((as_dict ehash s)\<lparr>d_buckets := bs\<rparr>)"
    "table_ok (length (s_entries s)) (map (as_entry ehash) (s_entries s)) bs" "Suc (length (s_entries s)) < length bs" "length bs \<le> 2 ^ 62"
    using ensure_insert_ok [of "as_dict ehash s"] assms by auto
  have "ensure_set_insert_capacity sm s = Inr (s\<lparr>s_buckets := bs\<rparr>)"
  proof (cases "sat_mul (min (length (s_entries s) + 1) (2 ^ 64 - 1)) 3 \<ge> sat_mul (length (s_buckets s)) 2")
    case True
    then show ?thesis using bs(1) rebuild_dict [OF _ assms(2)]
      by (simp add: ensure_dict_insert_capacity_def ensure_set_insert_capacity_def Let_def)
  next
    case False
    then have "bs = s_buckets s" using bs(1)
      by (auto simp: ensure_dict_insert_capacity_def Let_def dest: arg_cong [of _ _ d_buckets])
    then show ?thesis using False by (simp add: ensure_set_insert_capacity_def Let_def)
  qed
  then show ?thesis using bs by blast
qed

lemma chain_total:
  assumes "length (s_buckets s) = 2 ^ k" "b < length (s_buckets s)" "\<forall>i. Some i \<in> set (s_buckets s) \<longrightarrow> i < length (s_entries s)"
  shows "\<exists>cs. chain s n b = Some cs \<and> (\<forall>p \<in> set cs. fst p < length (s_entries s) \<and> snd p = s_entries s ! fst p)"
  using assms
proof (induction n arbitrary: b)
  case (Suc n)
  let ?b = "(b + 1) AND (length (s_buckets s) - 1)"
  have "?b < length (s_buckets s)" using Suc.prems(1) by (simp add: and_pow)
  then obtain cs where cs: "chain s n ?b = Some cs" "\<forall>p \<in> set cs. fst p < length (s_entries s) \<and> snd p = s_entries s ! fst p"
    using Suc.IH [OF Suc.prems(1)] Suc.prems(3) by blast
  show ?case
  proof (cases "s_buckets s ! b")
    case (Some j)
    then have "j < length (s_entries s)" using Suc.prems(2,3) nth_mem by metis
    then show ?thesis using Some cs by auto
  qed simp
qed simp

lemma chain_reaches:
  assumes "length (s_buckets s) = 2 ^ k" "b < length (s_buckets s)" "chain s n b = Some cs"
    and "c < n" "bucket_at (s_buckets s) b c = Some i" "\<forall>a < c. bucket_at (s_buckets s) b a \<noteq> None"
  shows "i \<in> fst ` set cs"
  using assms
proof (induction n arbitrary: b c cs)
  case (Suc n)
  obtain j where j: "s_buckets s ! b = Some j" using Suc.prems by (cases c) (auto simp: bucket_at_def dest!: spec [of _ 0])
  let ?b = "(b + 1) AND (length (s_buckets s) - 1)"
  obtain cs' where cs: "chain s n ?b = Some cs'" "cs = (j, s_entries s ! j) # cs'"
    using Suc.prems(3) j by (auto split: if_splits)
  show ?case
  proof (cases c)
    case 0
    then show ?thesis using Suc.prems(2,5) j cs(2) by (simp add: bucket_at_0)
  next
    case (Suc c')
    have step: "bucket_at (s_buckets s) ?b a = bucket_at (s_buckets s) b (Suc a)" for a
      using Suc.prems(1) by (rule bucket_at_step)
    have "?b < length (s_buckets s)" using Suc.prems(1) by (simp add: and_pow)
    then have "i \<in> fst ` set cs'"
      using Suc.IH [OF Suc.prems(1) _ cs(1), of c'] Suc.prems(4-6) Suc step by auto
    then show ?thesis using cs(2) by simp
  qed
qed simp

lemma verify_pure:
  assumes "item \<in> K" "set (s_entries s) \<subseteq> K" "\<forall>p \<in> set cs. fst p < length (s_entries s) \<and> snd p = s_entries s ! fst p"
  shows "(\<exists>j < length (s_entries s). eq (s_entries s ! j) item \<and>
      verify_loop sm item (ehash item) (length (s_entries s), length (s_buckets s)) cs s True = (Hit j, s)) \<or>
    (\<forall>p \<in> set cs. \<not> eq (snd p) item) \<and>
      verify_loop sm item (ehash item) (length (s_entries s), length (s_buckets s)) cs s True = (Miss, s)"
  using assms(3)
proof (induction cs)
  case (Cons p cs)
  obtain i e where p: "p = (i, e)" by force
  then have e: "i < length (s_entries s)" "e = s_entries s ! i" "e \<in> K" using Cons.prems assms(2) by auto
  note v = elem_verify [OF e(3) assms(1)]
  show ?case
  proof (cases "eq e item")
    case True
    then show ?thesis using p e v elem_eq_hash [OF e(3) assms(1)] by (auto simp del: elem_verify)
  next
    case False
    then have "e \<noteq> item" using elem_refl assms(1) by blast
    then show ?thesis using Cons.IH Cons.prems p v False by simp
  qed
qed simp

lemma find_pure:
  assumes "item \<in> K" "set (s_entries s) \<subseteq> K" "set_index_ok ehash s" "s_buckets s \<noteq> []"
  shows "(\<exists>j < length (s_entries s). eq (s_entries s ! j) item \<and> find_set_index sm s item (ehash item) = Some (Inr (Some j), s)) \<or>
    (\<forall>e \<in> set (s_entries s). \<not> eq e item) \<and> find_set_index sm s item (ehash item) = Some (Inr None, s)"
proof -
  have tab: "table_ok (length (s_entries s)) (map (as_entry ehash) (s_entries s)) (s_buckets s)"
    using assms(3,4) by (auto simp: index_ok_def)
  obtain k where k: "length (s_buckets s) = 2 ^ k" using tab by (auto simp: table_ok_def)
  let ?b = "bucket_index (ehash item) (length (s_buckets s))"
  have b: "?b < length (s_buckets s)" using k by (rule bucket_index_lt)
  obtain cs where cs: "chain s (length (s_buckets s)) ?b = Some cs"
    "\<forall>p \<in> set cs. fst p < length (s_entries s) \<and> snd p = s_entries s ! fst p"
    using chain_total [OF k b] tab unfolding table_ok_def by blast
  have in_chain: "\<exists>p \<in> set cs. eq (snd p) item" if e: "e \<in> set (s_entries s)" "eq e item" for e
  proof -
    obtain i where i: "i < length (s_entries s)" "s_entries s ! i = e" using e(1) by (auto simp: in_set_conv_nth)
    have "ehash e = ehash item" using elem_eq_hash e assms(1,2) by blast
    then have "reaches (s_buckets s) (ehash item) i" using tab i by (auto simp: table_ok_def)
    then obtain c where "c < length (s_buckets s)" "bucket_at (s_buckets s) ?b c = Some i"
      "\<forall>a < c. bucket_at (s_buckets s) ?b a \<noteq> None" unfolding reaches_def by blast
    then have "i \<in> fst ` set cs" using chain_reaches [OF k b cs(1)] by blast
    then show ?thesis using cs(2) i e(2) by force
  qed
  show ?thesis
  proof (cases "cs = []")
    case True
    then have "\<forall>e \<in> set (s_entries s). \<not> eq e item" using in_chain by auto
    then show ?thesis using True cs(1) assms(4) by (subst (2) find_set_index.simps) simp
  next
    case False
    show ?thesis
      using verify_pure [OF assms(1,2) cs(2)] False cs(1) assms(4) in_chain
      by (subst (1 2) find_set_index.simps) auto
  qed
qed

lemma locate_element_ok:
  assumes "set_wf ehash eq K s" "x \<in> K" "length (s_entries s) < 2 ^ 60"
  shows "\<exists>bs r. locate_element sm x s = Some (Inr (ehash x, r), s\<lparr>s_buckets := bs\<rparr>) \<and> set_index_ok ehash (s\<lparr>s_buckets := bs\<rparr>) \<and>
    bs \<noteq> [] \<and> (case r of Some i \<Rightarrow> i < length (s_entries s) \<and> eq (s_entries s ! i) x | None \<Rightarrow> \<not> smember eq x (s_entries s))"
proof -
  have K: "set (s_entries s) \<subseteq> K" using assms(1) by (simp add: set_wf_def elems_ok_def)
  have x: "x \<noteq> 0" using assms(2) elem_live by metis
  obtain bs where bs: "ensure_set_buckets sm s = Inr (s\<lparr>s_buckets := bs\<rparr>)" "set_index_ok ehash (s\<lparr>s_buckets := bs\<rparr>)" "bs \<noteq> []"
    using set_ensure_ok [OF _ K] assms(1,3) by (auto simp: set_wf_def)
  let ?s = "s\<lparr>s_buckets := bs\<rparr>"
  consider j where "j < length (s_entries s)" "eq (s_entries s ! j) x" "find_set_index sm ?s x (ehash x) = Some (Inr (Some j), ?s)"
    | "\<not> smember eq x (s_entries s)" "find_set_index sm ?s x (ehash x) = Some (Inr None, ?s)"
    using find_pure [OF assms(2) _ bs(2)] bs(3) K by (auto simp: smember_def)
  then show ?thesis
  proof cases
    case (1 j)
    then show ?thesis using bs x hash_element [OF assms(2)]
      by (intro exI [of _ bs] exI [of _ "Some j"]) (simp add: locate_element_def)
  next
    case 2
    then show ?thesis using bs x hash_element [OF assms(2)]
      by (intro exI [of _ bs] exI [of _ None]) (simp add: locate_element_def)
  qed
qed

lemma one_element:
  assumes "elems_ok eq K xs" "x \<in> K" "i < length xs" "j < length xs" "eq (xs ! i) x" "eq (xs ! j) x"
  shows "i = j"
proof (rule ccontr)
  assume "i \<noteq> j"
  have in_K: "xs ! i \<in> K" "xs ! j \<in> K" using assms by (auto simp: elems_ok_def)
  have "eq (xs ! i) (xs ! j)" "eq (xs ! j) (xs ! i)" using in_K assms(2,5,6) by (meson elem_sym elem_trans)+
  then show False using \<open>i \<noteq> j\<close> assms(1,3,4) unfolding elems_ok_def sorted_wrt_iff_nth_less by (metis linorder_neqE_nat)
qed

lemma delete_at:
  assumes "elems_ok eq K xs" "x \<in> K" "i < length xs" "eq (xs ! i) x"
  shows "sdelete eq x xs = remove_at i xs" "smember eq x xs"
proof -
  have u: "j = i" if "j < length xs" "eq (xs ! j) x" for j using one_element [OF assms(1,2)] assms(3,4) that by blast
  show "sdelete eq x xs = remove_at i xs"
    unfolding sdelete_def by (rule filter_one(1) [of i xs "\<lambda>y. eq y x", OF assms(3,4) u])
  show "smember eq x xs" using assms(3,4) by (auto simp: smember_def)
qed

lemma elems_ok_remove: "elems_ok eq K xs \<Longrightarrow> elems_ok eq K (remove_at i xs)"
  using sorted_wrt_remove_at [of _ xs i] by (auto simp: elems_ok_def remove_at_def dest: in_set_takeD in_set_dropD)

lemma push_element_ok:
  assumes "set_index_ok ehash s" "s_buckets s \<noteq> []" "length (s_entries s) < 2 ^ 60" "set (s_entries s) \<subseteq> K" "x \<in> K"
  shows "\<exists>bs. push_element sm x (ehash x) s = (Inr (), \<lparr>s_entries = s_entries s @ [x], s_buckets = bs\<rparr>) \<and>
    set_index_ok ehash \<lparr>s_entries = s_entries s @ [x], s_buckets = bs\<rparr>"
proof -
  let ?n = "length (s_entries s)" and ?es = "map (as_entry ehash) (s_entries s @ [x])"
  obtain bs where bs: "ensure_set_insert_capacity sm s = Inr (s\<lparr>s_buckets := bs\<rparr>)"
    "table_ok ?n (map (as_entry ehash) (s_entries s)) bs" "Suc ?n < length bs" "length bs \<le> 2 ^ 62"
    using set_ensure_insert_ok [OF assms(3,4,1,2)] by blast
  have "table_ok ?n ?es bs" using bs(2) by (rule table_ok_hashes) (simp add: nth_append)
  then obtain bs' where bs': "insert_bucket bs ?es ?n = Inr bs'" "length bs' = length bs" "table_ok (Suc ?n) ?es bs'"
    using insert_bucket_ok bs(3) by (meson Suc_lessD)
  have "insert_bucket_hashed bs (ehash x) ?n = Inr bs'"
    using insert_bucket_hashed_dict [OF bs'(1)] by (simp add: nth_append)
  then show ?thesis using bs bs' by (intro exI [of _ bs']) (simp add: push_element_def index_ok_def Let_def)
qed

lemma set_rebuilt_ok:
  assumes "length xs \<le> 2 ^ 60" "set xs \<subseteq> K"
  shows "\<exists>bs. set_rebuilt sm a (s\<lparr>s_entries := xs\<rparr>) = (Inr a, \<lparr>s_entries = xs, s_buckets = bs\<rparr>) \<and>
    set_index_ok ehash \<lparr>s_entries = xs, s_buckets = bs\<rparr>"
  using set_rebuild_ok [of "s\<lparr>s_entries := xs\<rparr>"] assms by (cases s) (auto simp: set_rebuilt_def)

lemma add_refines:
  assumes "set_wf ehash eq K s" "set_pre K (Add x) s"
  shows "\<exists>s'. set_run sm (Add x) s = (SetDone, s') \<and> set_wf ehash eq K s' \<and> s_entries s' = sinsert eq x (s_entries s)"
proof -
  have x: "x \<in> K" "length (s_entries s) < 2 ^ 60" using assms(2) by (auto simp: set_pre_def)
  have ok: "elems_ok eq K (s_entries s)" using assms(1) by (simp add: set_wf_def)
  obtain bs r where l: "locate_element sm x s = Some (Inr (ehash x, r), s\<lparr>s_buckets := bs\<rparr>)"
    "set_index_ok ehash (s\<lparr>s_buckets := bs\<rparr>)" "bs \<noteq> []"
    "case r of Some i \<Rightarrow> i < length (s_entries s) \<and> eq (s_entries s ! i) x | None \<Rightarrow> \<not> smember eq x (s_entries s)"
    using locate_element_ok [OF assms(1) x] by blast
  show ?thesis
  proof (cases r)
    case (Some i)
    then have "smember eq x (s_entries s)" using l(4) delete_at(2) [OF ok x(1)] by auto
    then show ?thesis using l Some ok
      by (intro exI [of _ "s\<lparr>s_buckets := bs\<rparr>"]) (simp add: set_add_def set_reply_of_def set_wf_def sinsert_def)
  next
    case None
    obtain bs' where p: "push_element sm x (ehash x) (s\<lparr>s_buckets := bs\<rparr>) = (Inr (), \<lparr>s_entries = s_entries s @ [x], s_buckets = bs'\<rparr>)"
      "set_index_ok ehash \<lparr>s_entries = s_entries s @ [x], s_buckets = bs'\<rparr>"
      using push_element_ok [OF l(2), of x] l(3) x ok by (auto simp: elems_ok_def)
    have "elems_ok eq K (s_entries s @ [x])"
      using ok x(1) l(4) None by (auto simp: elems_ok_def sorted_wrt_append smember_def)
    then show ?thesis using l p None by (auto simp: set_add_def set_reply_of_def set_wf_def sinsert_def)
  qed
qed

lemma remove_refines:
  assumes "set_wf ehash eq K s" "x \<in> K" "length (s_entries s) < 2 ^ 60"
  shows "\<exists>s'. set_remove sm x s = Some (Inr (smember eq x (s_entries s)), s') \<and> set_wf ehash eq K s' \<and>
    s_entries s' = sdelete eq x (s_entries s)"
proof -
  have ok: "elems_ok eq K (s_entries s)" using assms(1) by (simp add: set_wf_def)
  obtain bs r where l: "locate_element sm x s = Some (Inr (ehash x, r), s\<lparr>s_buckets := bs\<rparr>)"
    "set_index_ok ehash (s\<lparr>s_buckets := bs\<rparr>)" "bs \<noteq> []"
    "case r of Some i \<Rightarrow> i < length (s_entries s) \<and> eq (s_entries s ! i) x | None \<Rightarrow> \<not> smember eq x (s_entries s)"
    using locate_element_ok [OF assms] by blast
  show ?thesis
  proof (cases r)
    case (Some i)
    then have i: "sdelete eq x (s_entries s) = remove_at i (s_entries s)" "smember eq x (s_entries s)"
      using l(4) delete_at [OF ok assms(2)] by auto
    have ok': "elems_ok eq K (remove_at i (s_entries s))" using elems_ok_remove [OF ok] .
    have "length (remove_at i (s_entries s)) \<le> 2 ^ 60" using assms(3) by (auto simp: remove_at_def)
    then obtain bs' where "set_rebuilt sm True (s\<lparr>s_buckets := bs, s_entries := remove_at i (s_entries s)\<rparr>) =
        (Inr True, \<lparr>s_entries = remove_at i (s_entries s), s_buckets = bs'\<rparr>)"
      "set_index_ok ehash \<lparr>s_entries = remove_at i (s_entries s), s_buckets = bs'\<rparr>"
      using set_rebuilt_ok [of "remove_at i (s_entries s)" True "s\<lparr>s_buckets := bs\<rparr>"] ok' by (auto simp: elems_ok_def)
    then show ?thesis using l Some i ok' by (simp add: set_remove_def set_wf_def)
  next
    case None
    then have n: "\<not> smember eq x (s_entries s)" using l(4) by simp
    then have "sdelete eq x (s_entries s) = s_entries s" by (auto simp: sdelete_def smember_def filter_id_conv)
    then show ?thesis using l None ok n by (simp add: set_remove_def set_wf_def)
  qed
qed

lemma pop_refines:
  assumes "set_wf ehash eq K s" "length (s_entries s) < 2 ^ 60"
  shows "\<exists>s'. set_pop sm s = (Inr (if s_entries s = [] then None else Some (hd (s_entries s))), s') \<and> set_wf ehash eq K s' \<and>
    s_entries s' = tl (s_entries s)"
proof (cases "s_entries s")
  case (Cons v rest)
  have ok: "elems_ok eq K rest" using assms(1) Cons by (simp add: set_wf_def elems_ok_def)
  have "length rest \<le> 2 ^ 60" "set rest \<subseteq> K" using assms(2) Cons ok by (simp_all add: elems_ok_def)
  from set_rebuilt_ok [OF this, of "Some v" s] show ?thesis using Cons ok by (auto simp: set_pop_def set_wf_def)
qed (use assms(1) in \<open>simp add: set_pop_def\<close>)

lemma set_run_refines:
  assumes "set_wf ehash eq K s" "set_pre K c s"
  shows "\<exists>r s'. set_run sm c s = (r, s') \<and> set_wf ehash eq K s' \<and> sspec eq c (s_entries s) = Some (r, s_entries s')"
proof (cases c)
  case (Add x)
  then show ?thesis using add_refines [OF assms(1), of x] assms(2) by auto
next
  case (RemoveElem x)
  then have "x \<in> K" "length (s_entries s) < 2 ^ 60" using assms(2) by (simp_all add: set_pre_def)
  then show ?thesis using remove_refines [OF assms(1)] RemoveElem by (force simp: set_reply_of_def)
next
  case (Discard x)
  then have "x \<in> K" "length (s_entries s) < 2 ^ 60" using assms(2) by (simp_all add: set_pre_def)
  then show ?thesis using remove_refines [OF assms(1)] Discard by (force simp: set_reply_of_def set_discard_def)
next
  case (Test x)
  then have "x \<in> K" "length (s_entries s) < 2 ^ 60" using assms(2) by (simp_all add: set_pre_def)
  then obtain bs r where l: "locate_element sm x s = Some (Inr (ehash x, r), s\<lparr>s_buckets := bs\<rparr>)" "set_index_ok ehash (s\<lparr>s_buckets := bs\<rparr>)"
    "case r of Some i \<Rightarrow> i < length (s_entries s) \<and> eq (s_entries s ! i) x | None \<Rightarrow> \<not> smember eq x (s_entries s)"
    using locate_element_ok [OF assms(1)] by blast
  then have "smember eq x (s_entries s) \<longleftrightarrow> r \<noteq> None" by (cases r) (auto simp: smember_def)
  then show ?thesis using l(1,2) assms(1) Test
    by (intro exI [of _ "SetBool (r \<noteq> None)"] exI [of _ "s\<lparr>s_buckets := bs\<rparr>"]) (simp add: set_reply_of_def set_contains_def set_wf_def)
next
  case PopFirst
  then show ?thesis using pop_refines [OF assms(1)] assms(2) by (auto simp: set_reply_of_def set_pre_def)
next
  case ClearElems
  then show ?thesis by (simp add: set_clear_def set_wf_def elems_ok_def index_ok_def as_dict_def)
qed

end

section \<open>The elements of the runtime\<close>

text \<open>The structural arms of hashing and equality, as for dictionary keys.\<close>

definition structural_equal :: "(addr \<Rightarrow> py_key) \<Rightarrow> addr \<Rightarrow> addr \<Rightarrow> message + bool" where
  "structural_equal view l r = (case object_equal_structural view l r of Some e \<Rightarrow> e | None \<Rightarrow> Inr False)"

definition runtime_elements :: "(addr \<Rightarrow> py_key) \<Rightarrow> (addr \<Rightarrow> string) \<Rightarrow> set_model" where
  "runtime_elements view type_name =
     \<lparr>sm_hash = hash_object view, sm_type_name = type_name, sm_equal = structural_equal view,
      sm_verify = (\<lambda>s entry item hash.
        (bind_ok (hash_object view entry) (\<lambda>h. if h = hash then structural_equal view entry item else Inr False), s, True))\<rparr>"

interpretation elements_of: element_domain "runtime_elements view type_name" "\<lambda>a. hash_key (view a)" "view_eq view" "- {0}"
  for view type_name
  by unfold_locales
    (auto simp: runtime_elements_def hash_object_def structural_equal_def object_equal_structural_def view_eq_def key_equal_iff)

abbreviation runtime_set_wf :: "(addr \<Rightarrow> py_key) \<Rightarrow> set_storage \<Rightarrow> bool" where
  "runtime_set_wf view \<equiv> set_wf (\<lambda>a. hash_key (view a)) (view_eq view) (- {0})"

interpretation py_set: refined_object "runtime_set_wf view" s_entries "set_run (runtime_elements view type_name)"
    "sspec (view_eq view)" "\<lambda>_. False" "set_pre (- {0})" for view type_name
proof
  fix s c
  assume "runtime_set_wf view s" "set_pre (- {0}) c s"
  note r = elements_of.set_run_refines [OF this, of type_name]
  show "runtime_set_wf view (snd (set_run (runtime_elements view type_name) c s))" using r by auto
  show "sspec (view_eq view) c (s_entries s) =
      Some (fst (set_run (runtime_elements view type_name) c s), s_entries (snd (set_run (runtime_elements view type_name) c s)))"
    using r by auto
qed simp

section \<open>Properties\<close>

text \<open>
  C11. The set table refines an insertion-ordered set over a whole session.  For elements whose hash and
  equality are structural and sets of fewer than \<open>2 ^ 60\<close> elements, any sequence of additions, removals,
  discards, membership tests, pops and clears on a set that starts empty returns the replies of the
  specification and never fails, and leaves a well-formed table with the specification's elements in
  its order: adding an equal element keeps the first one and its place, and pop takes the oldest.
\<close>
theorem set_session_refines:
  assumes "session_ok (set_run (runtime_elements view type_name)) (set_pre (- {0})) cs init_set"
  shows "runtime_set_wf view (snd (session (set_run (runtime_elements view type_name)) cs init_set)) \<and>
    accepts (sspec (view_eq view)) (\<lambda>_. False) cs (fst (session (set_run (runtime_elements view type_name)) cs init_set)) []
      (s_entries (snd (session (set_run (runtime_elements view type_name)) cs init_set)))"
proof -
  have "runtime_set_wf view init_set" by (simp add: set_wf_def elems_ok_def index_ok_def init_set_def as_dict_def)
  from py_set.session_refines [OF this assms] show ?thesis by (simp add: init_set_def)
qed

theorem set_session_refines_witness:
  "s_entries (snd (session (set_run (runtime_elements (\<lambda>a. KInt (int a div 16)) (\<lambda>_. ''int''))) [Add 17] init_set)) = [17]"
proof -
  have "session_ok (set_run (runtime_elements (\<lambda>a. KInt (int a div 16)) (\<lambda>_. ''int''))) (set_pre (- {0})) [Add 17] init_set"
    by (simp add: set_pre_def init_set_def)
  from set_session_refines [OF this] show ?thesis
    by (auto simp: sinsert_def smember_def Let_def case_prod_unfold simp del: set_run.simps)
qed

end
