(* ===== verification/Set_Algebra.thy ===== *)
theory Set_Algebra
  imports Set_Table "HOL-Library.Multiset"
begin

text \<open>
  Operations on whole sets: the element scans and comparisons of \<open>pon-runtime/src/types/set_.rs\<close>, the set
  methods of \<open>abi/map.rs\<close>, and frozensets (\<open>types/frozenset.rs\<close>) with their lazy table and cached hash.
  An operand is the insertion-order snapshot of its elements; the elements of an argument that is any
  iterable are what \<open>set_argument_entries\<close> collects from it.
\<close>

section \<open>Element scans\<close>

fun find_from :: "set_model \<Rightarrow> nat \<Rightarrow> addr list \<Rightarrow> addr \<Rightarrow> message + nat option" where
  "find_from sm index [] item = Inr None"
| "find_from sm index (entry # rest) item =
     bind_ok (sm_equal sm entry item) (\<lambda>eq. if eq then Inr (Some index) else find_from sm (Suc index) rest item)"

definition find_element_index :: "set_model \<Rightarrow> addr list \<Rightarrow> addr \<Rightarrow> message + nat option" where
  "find_element_index sm entries item = find_from sm 0 entries item"

fun entries_subset :: "set_model \<Rightarrow> addr list \<Rightarrow> addr list \<Rightarrow> message + bool" where
  "entries_subset sm [] right = Inr True"
| "entries_subset sm (item # left) right =
     bind_ok (find_element_index sm right item) (\<lambda>i. if i = None then Inr False else entries_subset sm left right)"

definition set_equal :: "set_model \<Rightarrow> addr list \<Rightarrow> addr list \<Rightarrow> message + bool" where
  "set_equal sm left right = (if length left \<noteq> length right then Inr False else entries_subset sm left right)"

definition RICH_LT :: u8 where "RICH_LT = 0"
definition RICH_LE :: u8 where "RICH_LE = 1"
definition RICH_EQ :: u8 where "RICH_EQ = 2"
definition RICH_NE :: u8 where "RICH_NE = 3"
definition RICH_GT :: u8 where "RICH_GT = 4"
definition RICH_GE :: u8 where "RICH_GE = 5"

definition set_richcmp_bool :: "set_model \<Rightarrow> addr list \<Rightarrow> addr list \<Rightarrow> int \<Rightarrow> message + bool" where
  "set_richcmp_bool sm left right op =
     (if op < 0 \<or> op \<ge> 256 then Inl ''unknown rich comparison operation''
      else
        let op = word_of_int op in
        if op = RICH_EQ \<or> op = RICH_NE then
          bind_ok (if length left = length right then entries_subset sm left right else Inr False) (\<lambda>equal.
            Inr (if op = RICH_EQ then equal else \<not> equal))
        else if op = RICH_LE then entries_subset sm left right
        else if op = RICH_GE then entries_subset sm right left
        else if op = RICH_LT then (if length left < length right then entries_subset sm left right else Inr False)
        else if op = RICH_GT then (if length right < length left then entries_subset sm right left else Inr False)
        else Inl ''unknown rich comparison operation'')"

fun insert_unique_entries :: "set_model \<Rightarrow> addr list \<Rightarrow> addr list \<Rightarrow> message + addr list" where
  "insert_unique_entries sm target [] = Inr target"
| "insert_unique_entries sm target (item # others) =
     bind_ok (hash_set_element sm item) (\<lambda>_.
       bind_ok (find_element_index sm target item) (\<lambda>i.
         insert_unique_entries sm (if i = None then target @ [item] else target) others))"

definition unique_entries :: "set_model \<Rightarrow> addr list \<Rightarrow> message + addr list" where
  "unique_entries sm vals = insert_unique_entries sm [] vals"

section \<open>Set methods\<close>

datatype set_op = OpDifference | OpIntersection | OpUnion | OpSymmetricDifference

text \<open>The loops that keep the elements of one operand that the other one has, or has not.\<close>

fun keep_found :: "set_model \<Rightarrow> bool \<Rightarrow> addr list \<Rightarrow> addr list \<Rightarrow> message + addr list" where
  "keep_found sm found [] right = Inr []"
| "keep_found sm found (item # left) right =
     bind_ok (find_element_index sm right item) (\<lambda>i.
       bind_ok (keep_found sm found left right) (\<lambda>kept. Inr (if (i \<noteq> None) = found then item # kept else kept)))"

definition set_op_entries :: "set_model \<Rightarrow> addr list \<Rightarrow> addr list \<Rightarrow> set_op \<Rightarrow> message + addr list" where
  "set_op_entries sm left right op =
     (case op of
        OpDifference \<Rightarrow> keep_found sm False left right
      | OpIntersection \<Rightarrow> keep_found sm True left right
      | OpUnion \<Rightarrow> insert_unique_entries sm left right
      | OpSymmetricDifference \<Rightarrow>
          bind_ok (keep_found sm False left right) (\<lambda>a. bind_ok (keep_found sm False right left) (\<lambda>b. Inr (a @ b))))"

definition symmetric_difference_entries :: "set_model \<Rightarrow> addr list \<Rightarrow> addr list \<Rightarrow> message + addr list" where
  "symmetric_difference_entries sm left right_values =
     bind_ok (unique_entries sm right_values) (\<lambda>right.
       bind_ok (keep_found sm False left right) (\<lambda>a. bind_ok (keep_found sm False right left) (\<lambda>b. Inr (a @ b))))"

text \<open>The binary operators; the operands are sets, so their elements are unique already.\<close>

definition pon_set_union :: "set_model \<Rightarrow> addr list \<Rightarrow> addr list \<Rightarrow> message + addr list" where
  "pon_set_union sm left right = insert_unique_entries sm left right"

definition pon_set_intersection :: "set_model \<Rightarrow> addr list \<Rightarrow> addr list \<Rightarrow> message + addr list" where
  "pon_set_intersection sm left right = keep_found sm True left right"

definition pon_set_difference :: "set_model \<Rightarrow> addr list \<Rightarrow> addr list \<Rightarrow> message + addr list" where
  "pon_set_difference sm left right = keep_found sm False left right"

definition pon_set_symmetric_difference :: "set_model \<Rightarrow> addr list \<Rightarrow> addr list \<Rightarrow> message + addr list" where
  "pon_set_symmetric_difference sm left right = symmetric_difference_entries sm left right"

text \<open>The variadic methods fold an operation over the arguments.\<close>

fun fold_set_op :: "set_model \<Rightarrow> addr list \<Rightarrow> addr list list \<Rightarrow> set_op \<Rightarrow> message + addr list" where
  "fold_set_op sm entries [] op = Inr entries"
| "fold_set_op sm entries (right_values # others) op =
     bind_ok (unique_entries sm right_values) (\<lambda>right.
       bind_ok (set_op_entries sm entries right op) (\<lambda>entries. fold_set_op sm entries others op))"

definition fold_set_op_entries :: "set_model \<Rightarrow> addr list \<Rightarrow> addr list list \<Rightarrow> set_op \<Rightarrow> message + addr list" where
  "fold_set_op_entries sm receiver others op = bind_ok (unique_entries sm receiver) (\<lambda>entries. fold_set_op sm entries others op)"

definition set_is_subset :: "set_model \<Rightarrow> addr list \<Rightarrow> addr list \<Rightarrow> message + bool" where
  "set_is_subset sm left right = entries_subset sm left right"

definition set_is_superset :: "set_model \<Rightarrow> addr list \<Rightarrow> addr list \<Rightarrow> message + bool" where
  "set_is_superset sm left right = entries_subset sm right left"

fun set_is_disjoint :: "set_model \<Rightarrow> addr list \<Rightarrow> addr list \<Rightarrow> message + bool" where
  "set_is_disjoint sm left [] = Inr True"
| "set_is_disjoint sm left (item # right) =
     bind_ok (find_element_index sm left item) (\<lambda>i. if i \<noteq> None then Inr False else set_is_disjoint sm left right)"

text \<open>The in-place methods compute the elements first, then replace them and empty the table.\<close>

definition replace_entries :: "set_storage \<Rightarrow> message + addr list \<Rightarrow> (message + unit) \<times> set_storage" where
  "replace_entries s r =
     (case r of Inl m \<Rightarrow> (Inl m, s) | Inr entries \<Rightarrow> (Inr (), s\<lparr>s_entries := entries, s_buckets := []\<rparr>))"

definition set_intersection_update :: "set_model \<Rightarrow> addr list list \<Rightarrow> set_storage \<Rightarrow> (message + unit) \<times> set_storage" where
  "set_intersection_update sm others s = replace_entries s (fold_set_op_entries sm (s_entries s) others OpIntersection)"

fun difference_update_entries :: "set_model \<Rightarrow> addr list \<Rightarrow> addr list list \<Rightarrow> message + addr list" where
  "difference_update_entries sm entries [] = Inr entries"
| "difference_update_entries sm entries (right_values # others) =
     bind_ok (unique_entries sm right_values) (\<lambda>right.
       bind_ok (keep_found sm False entries right) (\<lambda>kept. difference_update_entries sm kept others))"

definition set_difference_update :: "set_model \<Rightarrow> addr list list \<Rightarrow> set_storage \<Rightarrow> (message + unit) \<times> set_storage" where
  "set_difference_update sm others s = replace_entries s (difference_update_entries sm (s_entries s) others)"

definition set_symmetric_difference_update :: "set_model \<Rightarrow> addr list \<Rightarrow> set_storage \<Rightarrow> (message + unit) \<times> set_storage" where
  "set_symmetric_difference_update sm right s = replace_entries s (symmetric_difference_entries sm (s_entries s) right)"

text \<open>A set iterator reads the elements of the moment, by position.\<close>

definition set_iter_next :: "addr list \<Rightarrow> nat \<Rightarrow> addr option \<times> nat" where
  "set_iter_next entries index = (if index < length entries then (Some (entries ! index), index + 1) else (None, index))"

section \<open>Frozensets\<close>

record frozenset =
  f_entries :: "addr list"
  f_buckets :: "nat option list"
  f_hash :: int
  f_hash_computed :: bool

definition init_frozenset :: "addr list \<Rightarrow> frozenset" where
  "init_frozenset entries = \<lparr>f_entries = entries, f_buckets = [], f_hash = 0, f_hash_computed = False\<rparr>"

fun place_index :: "nat \<Rightarrow> nat \<Rightarrow> nat \<Rightarrow> nat option list \<Rightarrow> nat option list" where
  "place_index 0 bucket index buckets = buckets"
| "place_index (Suc n) bucket index buckets =
     (if buckets ! bucket = None then buckets[bucket := Some index]
      else place_index n ((bucket + 1) AND (length buckets - 1)) index buckets)"

fun build_loop :: "set_model \<Rightarrow> nat list \<Rightarrow> addr list \<Rightarrow> nat option list \<Rightarrow> message + nat option list" where
  "build_loop sm [] entries buckets = Inr buckets"
| "build_loop sm (i # is) entries buckets =
     bind_ok (hash_set_element sm (entries ! i)) (\<lambda>hash.
       build_loop sm is entries (place_index (length buckets) (bucket_index hash (length buckets)) i buckets))"

definition build_buckets :: "set_model \<Rightarrow> addr list \<Rightarrow> message + nat option list" where
  "build_buckets sm entries =
     build_loop sm [0..<length entries] entries (replicate (bucket_capacity (length entries)) None)"

definition ensure_frozenset_buckets :: "set_model \<Rightarrow> frozenset \<Rightarrow> message + frozenset" where
  "ensure_frozenset_buckets sm f =
     (if f_buckets f \<noteq> [] \<or> f_entries f = [] then Inr f
      else bind_ok (build_buckets sm (f_entries f)) (\<lambda>buckets. Inr (f\<lparr>f_buckets := buckets\<rparr>)))"

fun frozen_probe :: "set_model \<Rightarrow> frozenset \<Rightarrow> addr \<Rightarrow> int \<Rightarrow> nat \<Rightarrow> nat \<Rightarrow> fault + bool" where
  "frozen_probe sm f item hash 0 bucket = Inr False"
| "frozen_probe sm f item hash (Suc n) bucket =
     (case f_buckets f ! bucket of
        None \<Rightarrow> Inr False
      | Some index \<Rightarrow>
          if index \<ge> length (f_entries f) then Inl Panicked
          else
            let entry = f_entries f ! index in
            (case bind_ok (hash_set_element sm entry) (\<lambda>h. if h = hash then sm_equal sm entry item else Inr False) of
               Inl m \<Rightarrow> Inl (Fail m)
             | Inr True \<Rightarrow> Inr True
             | Inr False \<Rightarrow> frozen_probe sm f item hash n ((bucket + 1) AND (length (f_buckets f) - 1))))"

definition frozenset_contains :: "set_model \<Rightarrow> addr \<Rightarrow> frozenset \<Rightarrow> (fault + bool) \<times> frozenset" where
  "frozenset_contains sm item f =
     (case hash_set_element sm item of
        Inl m \<Rightarrow> (Inl (Fail m), f)
      | Inr hash \<Rightarrow>
          (case ensure_frozenset_buckets sm f of
             Inl m \<Rightarrow> (Inl (Fail m), f)
           | Inr f1 \<Rightarrow>
               if f_buckets f1 = [] then (Inr False, f1)
               else (frozen_probe sm f1 item hash (length (f_buckets f1)) (bucket_index hash (length (f_buckets f1))), f1)))"

definition shuffle_bits :: "u64 \<Rightarrow> u64" where
  "shuffle_bits hash = ((hash XOR 89869747) XOR push_bit 16 hash) * 3644798167"

fun mix_hashes :: "set_model \<Rightarrow> addr list \<Rightarrow> u64 \<Rightarrow> message + u64" where
  "mix_hashes sm [] mixed = Inr mixed"
| "mix_hashes sm (item # rest) mixed =
     bind_ok (hash_set_element sm item) (\<lambda>h. mix_hashes sm rest (mixed XOR shuffle_bits (word_of_int h)))"

definition frozenset_hash_value :: "set_model \<Rightarrow> frozenset \<Rightarrow> (message + int) \<times> frozenset" where
  "frozenset_hash_value sm f =
     (if f_hash_computed f then (Inr (f_hash f), f)
      else case mix_hashes sm (f_entries f) 0 of
        Inl m \<Rightarrow> (Inl m, f)
      | Inr mixed \<Rightarrow>
          let mixed = mixed XOR (of_nat (length (f_entries f)) + 1) * 1927868237;
              mixed = mixed XOR (drop_bit 11 mixed XOR drop_bit 25 mixed);
              mixed = mixed * 69069 + 907133923;
              hash = sint mixed;
              hash = (if hash = - 1 then 590923713 else hash)
          in (Inr hash, f\<lparr>f_hash := hash, f_hash_computed := True\<rparr>))"

section \<open>Plain elements\<close>

context element_domain
begin

lemma find_from_ok:
  assumes "set xs \<subseteq> K" "x \<in> K"
  shows "\<exists>i. find_from sm n xs x = Inr i \<and> (i = None \<longleftrightarrow> \<not> smember eq x xs)"
  using assms by (induction xs arbitrary: n) (auto simp: smember_def elem_equal)

lemma find_element_ok:
  assumes "set xs \<subseteq> K" "x \<in> K"
  shows "\<exists>i. find_element_index sm xs x = Inr i \<and> (i = None \<longleftrightarrow> \<not> smember eq x xs)"
  using find_from_ok [OF assms] by (simp add: find_element_index_def)

lemma subset_ok:
  assumes "set xs \<subseteq> K" "set ys \<subseteq> K"
  shows "entries_subset sm xs ys = Inr (\<forall>x \<in> set xs. smember eq x ys)"
  using assms
proof (induction xs)
  case (Cons x xs)
  then show ?case using find_element_ok [of ys x] by auto
qed simp

lemma disjoint_ok:
  assumes "set xs \<subseteq> K" "set ys \<subseteq> K"
  shows "set_is_disjoint sm xs ys = Inr (\<forall>y \<in> set ys. \<not> smember eq y xs)"
  using assms(2)
proof (induction ys)
  case (Cons y ys)
  then show ?case using find_element_ok [OF assms(1), of y] by auto
qed simp

lemma keep_found_ok:
  assumes "set xs \<subseteq> K" "set ys \<subseteq> K"
  shows "keep_found sm found xs ys = Inr (filter (\<lambda>x. smember eq x ys = found) xs)"
  using assms(1)
proof (induction xs)
  case (Cons x xs)
  then show ?case using find_element_ok [OF assms(2), of x] by auto
qed simp

lemma insert_unique_ok:
  assumes "set xs \<subseteq> K" "set ys \<subseteq> K"
  shows "insert_unique_entries sm xs ys = Inr (fold (sinsert eq) ys xs)"
  using assms
proof (induction ys arbitrary: xs)
  case (Cons y ys)
  then show ?case using find_element_ok [of xs y] hash_element [of y] by (auto simp: sinsert_def)
qed simp

lemma mix_hashes_ok:
  "set xs \<subseteq> K \<Longrightarrow> mix_hashes sm xs w = Inr (fold (\<lambda>x w. w XOR shuffle_bits (word_of_int (ehash x))) xs w)"
  by (induction xs arbitrary: w) (auto simp: hash_element)

end

section \<open>Frozenset tables\<close>

definition frozen_ok :: "(addr \<Rightarrow> int) \<Rightarrow> addr set \<Rightarrow> frozenset \<Rightarrow> bool" where
  "frozen_ok ehash K f \<longleftrightarrow> set (f_entries f) \<subseteq> K \<and> length (f_entries f) \<le> 2 ^ 60 \<and>
     (f_buckets f = [] \<or> table_ok (length (f_entries f)) (map (as_entry ehash) (f_entries f)) (f_buckets f))"

lemma place_index_dict: "insert_loop n b i bs = Inr bs' \<Longrightarrow> place_index n b i bs = bs'"
  by (induction n b i bs rule: insert_loop.induct) (auto split: if_splits)

context element_domain
begin

lemma build_loop_dict:
  assumes "insert_indices is (map (as_entry ehash) es) bs = Inr bs'" "set es \<subseteq> K" "\<forall>i \<in> set is. i < length es"
  shows "build_loop sm is es bs = Inr bs'"
  using assms
proof (induction "is" arbitrary: bs)
  case (Cons i "is")
  obtain bs1 where b: "insert_bucket bs (map (as_entry ehash) es) i = Inr bs1" "insert_indices is (map (as_entry ehash) es) bs1 = Inr bs'"
    using Cons.prems(1) by (cases "insert_bucket bs (map (as_entry ehash) es) i") auto
  have i: "i < length es" "es ! i \<in> K" using Cons.prems(2,3) by auto
  have "place_index (length bs) (bucket_index (ehash (es ! i)) (length bs)) i bs = bs1"
    using b(1) i(1) by (auto simp: insert_bucket_def place_index_dict split: if_splits)
  then show ?case using Cons.IH [OF b(2)] Cons.prems(2,3) hash_element [OF i(2)] by simp
qed simp

lemma build_buckets_ok:
  assumes "set xs \<subseteq> K" "length xs \<le> 2 ^ 60"
  shows "\<exists>bs. build_buckets sm xs = Inr bs \<and> bs \<noteq> [] \<and> table_ok (length xs) (map (as_entry ehash) xs) bs"
proof -
  note c = bucket_capacity_ok [OF assms(2)]
  obtain k where k: "bucket_capacity (length xs) = 2 ^ k" using c(1) by blast
  have "table_ok 0 (map (as_entry ehash) xs) (replicate (bucket_capacity (length xs)) None)"
    by (rule table_empty [of _ k]) (simp_all add: k)
  from insert_indices_ok [OF this, of "[0..<length xs]"] c obtain bs
    where bs: "insert_indices [0..<length xs] (map (as_entry ehash) xs) (replicate (bucket_capacity (length xs)) None) = Inr bs"
      "length bs = bucket_capacity (length xs)" "table_ok (length xs) (map (as_entry ehash) xs) bs" by auto
  have "build_buckets sm xs = Inr bs" using build_loop_dict [OF bs(1) assms(1)] by (simp add: build_buckets_def)
  then show ?thesis using bs(2,3) c(3) by auto
qed

lemma frozen_probe_ok:
  assumes "length (f_buckets f) = 2 ^ k" "b < length (f_buckets f)" "\<forall>i. Some i \<in> set (f_buckets f) \<longrightarrow> i < length (f_entries f)"
    and "set (f_entries f) \<subseteq> K" "x \<in> K"
    and chain: "\<And>e. e \<in> set (f_entries f) \<Longrightarrow> eq e x \<Longrightarrow> \<exists>c < n. bucket_at (f_buckets f) b c \<noteq> None \<and>
       f_entries f ! the (bucket_at (f_buckets f) b c) = e \<and> (\<forall>a < c. bucket_at (f_buckets f) b a \<noteq> None)"
  shows "frozen_probe sm f x (ehash x) n b = Inr (smember eq x (f_entries f))"
  using assms(1-3) chain
proof (induction n arbitrary: b)
  case 0
  then show ?case by (auto simp: smember_def)
next
  case (Suc n)
  let ?b = "(b + 1) AND (length (f_buckets f) - 1)"
  have b: "?b < length (f_buckets f)" using Suc.prems(1) by (simp add: and_pow)
  have step: "bucket_at (f_buckets f) ?b a = bucket_at (f_buckets f) b (Suc a)" for a
    using Suc.prems(1) by (rule bucket_at_step)
  show ?case
  proof (cases "f_buckets f ! b")
    case None
    then have "\<not> smember eq x (f_entries f)"
      using Suc.prems(2,4) by (force simp: smember_def bucket_at_0 less_Suc_eq_0_disj)
    then show ?thesis using None by simp
  next
    case (Some j)
    then have j: "j < length (f_entries f)" "f_entries f ! j \<in> K" using Suc.prems(2,3) assms(4) nth_mem by (metis, metis nth_mem subset_iff)
    note h = hash_element [OF j(2)] elem_equal [OF j(2) assms(5)]
    show ?thesis
    proof (cases "eq (f_entries f ! j) x")
      case True
      then show ?thesis using Some j h elem_eq_hash [OF j(2) assms(5)] by (auto simp: smember_def)
    next
      case False
      have "frozen_probe sm f x (ehash x) n ?b = Inr (smember eq x (f_entries f))"
      proof (rule Suc.IH [OF Suc.prems(1) b Suc.prems(3)])
        fix e
        assume e: "e \<in> set (f_entries f)" "eq e x"
        then obtain c where c: "c < Suc n" "bucket_at (f_buckets f) b c \<noteq> None" "f_entries f ! the (bucket_at (f_buckets f) b c) = e"
          "\<forall>a < c. bucket_at (f_buckets f) b a \<noteq> None" using Suc.prems(4) by blast
        have "c \<noteq> 0" using c(3) e(2) False Some Suc.prems(2) by (metis bucket_at_0 option.sel)
        then show "\<exists>c < n. bucket_at (f_buckets f) ?b c \<noteq> None \<and> f_entries f ! the (bucket_at (f_buckets f) ?b c) = e \<and>
            (\<forall>a < c. bucket_at (f_buckets f) ?b a \<noteq> None)"
          using c step by (cases c) auto
      qed
      then show ?thesis using Some j h False by (auto simp: Let_def)
    qed
  qed
qed

lemma frozen_contains_ok:
  assumes "frozen_ok ehash K f" "x \<in> K"
  shows "\<exists>f'. frozenset_contains sm x f = (Inr (smember eq x (f_entries f)), f') \<and> frozen_ok ehash K f' \<and> f_entries f' = f_entries f"
proof (cases "f_entries f = []")
  case True
  show ?thesis
  proof (cases "f_buckets f = []")
    case True
    then show ?thesis using \<open>f_entries f = []\<close> assms hash_element [OF assms(2)]
      by (simp add: frozenset_contains_def ensure_frozenset_buckets_def smember_def)
  next
    case False
    then have tab: "table_ok 0 [] (f_buckets f)" using assms(1) \<open>f_entries f = []\<close> by (simp add: frozen_ok_def)
    obtain k where k: "length (f_buckets f) = 2 ^ k" using tab by (auto simp: table_ok_def)
    have b: "bucket_index (ehash x) (length (f_buckets f)) < length (f_buckets f)" using k by (rule bucket_index_lt)
    have "frozen_probe sm f x (ehash x) (length (f_buckets f)) (bucket_index (ehash x) (length (f_buckets f))) =
        Inr (smember eq x (f_entries f))"
      by (rule frozen_probe_ok [OF k b]) (use tab \<open>f_entries f = []\<close> assms in \<open>auto simp: table_ok_def\<close>)
    then show ?thesis using False \<open>f_entries f = []\<close> assms hash_element [OF assms(2)]
      by (simp add: frozenset_contains_def ensure_frozenset_buckets_def)
  qed
next
  case False
  obtain bs where bs: "ensure_frozenset_buckets sm f = Inr (f\<lparr>f_buckets := bs\<rparr>)" "bs \<noteq> []"
    "table_ok (length (f_entries f)) (map (as_entry ehash) (f_entries f)) bs"
  proof (cases "f_buckets f = []")
    case True
    then show ?thesis using that build_buckets_ok [of "f_entries f"] assms(1) False
      by (auto simp: ensure_frozenset_buckets_def frozen_ok_def)
  next
    case nonempty: False
    show ?thesis using that [of "f_buckets f"] assms(1) nonempty by (simp add: ensure_frozenset_buckets_def frozen_ok_def)
  qed
  let ?f = "f\<lparr>f_buckets := bs\<rparr>"
  obtain k where k: "length (f_buckets ?f) = 2 ^ k" using bs(3) by (auto simp: table_ok_def)
  let ?b = "bucket_index (ehash x) (length (f_buckets ?f))"
  have b: "?b < length (f_buckets ?f)" using k by (rule bucket_index_lt)
  have "frozen_probe sm ?f x (ehash x) (length (f_buckets ?f)) ?b = Inr (smember eq x (f_entries ?f))"
  proof (rule frozen_probe_ok [OF k b])
    fix e
    assume e: "e \<in> set (f_entries ?f)" "eq e x"
    then obtain i where i: "i < length (f_entries f)" "f_entries f ! i = e" by (auto simp: in_set_conv_nth)
    have "ehash e = ehash x" using e assms by (intro elem_eq_hash) (auto simp: frozen_ok_def)
    then have "reaches bs (ehash x) i" using bs(3) i by (auto simp: table_ok_def)
    then show "\<exists>c < length (f_buckets ?f). bucket_at (f_buckets ?f) ?b c \<noteq> None \<and>
        f_entries ?f ! the (bucket_at (f_buckets ?f) ?b c) = e \<and> (\<forall>a < c. bucket_at (f_buckets ?f) ?b a \<noteq> None)"
      using i unfolding reaches_def by force
  qed (use bs(3) assms in \<open>auto simp: table_ok_def frozen_ok_def\<close>)
  then show ?thesis using bs assms hash_element [OF assms(2)]
    by (simp add: frozenset_contains_def frozen_ok_def)
qed

end

section \<open>What the elements denote\<close>

text \<open>A Python set over structural elements is the set of what its elements look like.\<close>

abbreviation runtime_elems_ok :: "(addr \<Rightarrow> py_key) \<Rightarrow> addr list \<Rightarrow> bool" where
  "runtime_elems_ok view \<equiv> elems_ok (view_eq view) (- {0})"

lemma smember_view: "smember (view_eq view) x xs \<longleftrightarrow> view x \<in> view ` set xs"
  by (auto simp: smember_def view_eq_def) (metis imageI)

lemma elems_ok_view: "runtime_elems_ok view xs \<longleftrightarrow> 0 \<notin> set xs \<and> distinct (map view xs)"
proof -
  have "sorted_wrt (\<lambda>a b. \<not> view_eq view a b) xs \<longleftrightarrow> distinct (map view xs)"
    by (induction xs) (auto simp: view_eq_def)
  then show ?thesis by (auto simp: elems_ok_def)
qed

lemma elems_live: "runtime_elems_ok view xs \<Longrightarrow> set xs \<subseteq> - {0}"
  by (simp add: elems_ok_def)

lemma inserted_view:
  "runtime_elems_ok view xs \<Longrightarrow> 0 \<notin> set ys \<Longrightarrow>
     runtime_elems_ok view (fold (sinsert (view_eq view)) ys xs) \<and> view ` set (fold (sinsert (view_eq view)) ys xs) = view ` set xs \<union> view ` set ys"
proof (induction ys arbitrary: xs)
  case (Cons y ys)
  have "runtime_elems_ok view (sinsert (view_eq view) y xs)" "view ` set (sinsert (view_eq view) y xs) = insert (view y) (view ` set xs)"
    using Cons.prems by (auto simp: elems_ok_view sinsert_def smember_view)
  then show ?case using Cons.IH Cons.prems(2) by auto
qed simp

lemma kept_view:
  assumes "runtime_elems_ok view xs"
  shows "runtime_elems_ok view (filter (\<lambda>x. smember (view_eq view) x ys = found) xs) \<and>
    view ` set (filter (\<lambda>x. smember (view_eq view) x ys = found) xs) =
      (if found then view ` set xs \<inter> view ` set ys else view ` set xs - view ` set ys)"
  using assms by (auto simp: elems_ok_view smember_view distinct_map inj_on_def)

lemma unique_view:
  assumes "0 \<notin> set vs"
  shows "\<exists>xs. unique_entries (runtime_elements view tn) vs = Inr xs \<and> runtime_elems_ok view xs \<and> view ` set xs = view ` set vs"
proof -
  have "runtime_elems_ok view []" by (simp add: elems_ok_def)
  from inserted_view [OF this assms] elements_of.insert_unique_ok [of "[]" vs view tn] assms show ?thesis
    by (auto simp: unique_entries_def)
qed

definition op_denotes :: "set_op \<Rightarrow> 'a set \<Rightarrow> 'a set \<Rightarrow> 'a set" where
  "op_denotes op A B =
     (case op of OpDifference \<Rightarrow> A - B | OpIntersection \<Rightarrow> A \<inter> B | OpUnion \<Rightarrow> A \<union> B | OpSymmetricDifference \<Rightarrow> (A - B) \<union> (B - A))"

lemma parts_view:
  assumes "runtime_elems_ok view xs" "runtime_elems_ok view ys"
  shows "runtime_elems_ok view (filter (\<lambda>x. \<not> smember (view_eq view) x ys) xs @ filter (\<lambda>y. \<not> smember (view_eq view) y xs) ys)"
  using assms by (auto simp: elems_ok_view smember_view distinct_map inj_on_def)

lemma set_op_view:
  assumes "runtime_elems_ok view xs" "runtime_elems_ok view ys"
  shows "\<exists>zs. set_op_entries (runtime_elements view tn) xs ys op = Inr zs \<and> runtime_elems_ok view zs \<and>
    view ` set zs = op_denotes op (view ` set xs) (view ` set ys)"
proof -
  note live = elems_live [OF assms(1)] elems_live [OF assms(2)]
  note k = elements_of.keep_found_ok [OF live] elements_of.keep_found_ok [OF live(2,1)]
  show ?thesis
  proof (cases op)
    case OpDifference
    then show ?thesis using k(1) [where found = False] kept_view [OF assms(1), of ys False] by (simp add: set_op_entries_def op_denotes_def)
  next
    case OpIntersection
    then show ?thesis using k(1) [where found = True] kept_view [OF assms(1), of ys True] by (simp add: set_op_entries_def op_denotes_def)
  next
    case OpUnion
    have "0 \<notin> set ys" using live(2) by auto
    then show ?thesis using elements_of.insert_unique_ok [OF live] inserted_view [OF assms(1)] OpUnion
      by (simp add: set_op_entries_def op_denotes_def)
  next
    case OpSymmetricDifference
    then show ?thesis
      using k(1) [where found = False] k(2) [where found = False] kept_view [OF assms(1), of ys False] kept_view [OF assms(2), of xs False]
        parts_view [OF assms]
      by (simp add: set_op_entries_def op_denotes_def image_Un)
  qed
qed

lemma subset_view:
  "runtime_elems_ok view xs \<Longrightarrow> runtime_elems_ok view ys \<Longrightarrow>
     entries_subset (runtime_elements view tn) xs ys = Inr (view ` set xs \<subseteq> view ` set ys)"
  using elements_of.subset_ok [OF elems_live elems_live] by (simp add: smember_view image_subset_iff)

lemma card_view: "runtime_elems_ok view xs \<Longrightarrow> card (view ` set xs) = length xs"
  unfolding elems_ok_view by (metis distinct_card length_map set_map)

lemma fold_op_view:
  assumes "runtime_elems_ok view xs" "\<forall>vs \<in> set others. 0 \<notin> set vs"
  shows "\<exists>zs. fold_set_op (runtime_elements view tn) xs others op = Inr zs \<and> runtime_elems_ok view zs \<and>
    view ` set zs = fold (\<lambda>vs A. op_denotes op A (view ` set vs)) others (view ` set xs)"
  using assms
proof (induction others arbitrary: xs)
  case (Cons vs others)
  obtain ys where ys: "unique_entries (runtime_elements view tn) vs = Inr ys" "runtime_elems_ok view ys" "view ` set ys = view ` set vs"
    using unique_view Cons.prems(2) by (metis list.set_intros(1))
  obtain zs where zs: "set_op_entries (runtime_elements view tn) xs ys op = Inr zs" "runtime_elems_ok view zs"
    "view ` set zs = op_denotes op (view ` set xs) (view ` set ys)"
    using set_op_view [OF Cons.prems(1) ys(2)] by blast
  show ?case using Cons.IH [OF zs(2)] Cons.prems(2) ys zs by simp
qed simp

lemma difference_entries_view:
  assumes "runtime_elems_ok view xs" "\<forall>vs \<in> set others. 0 \<notin> set vs"
  shows "\<exists>zs. difference_update_entries (runtime_elements view tn) xs others = Inr zs \<and> runtime_elems_ok view zs \<and>
    view ` set zs = view ` set xs - (\<Union>vs \<in> set others. view ` set vs)"
  using assms
proof (induction others arbitrary: xs)
  case (Cons vs others)
  obtain ys where ys: "unique_entries (runtime_elements view tn) vs = Inr ys" "runtime_elems_ok view ys" "view ` set ys = view ` set vs"
    using unique_view Cons.prems(2) by (metis list.set_intros(1))
  let ?kept = "filter (\<lambda>x. smember (view_eq view) x ys = False) xs"
  have k: "keep_found (runtime_elements view tn) False xs ys = Inr ?kept" "runtime_elems_ok view ?kept"
    "view ` set ?kept = view ` set xs - view ` set vs"
    using elements_of.keep_found_ok [OF elems_live [OF Cons.prems(1)] elems_live [OF ys(2)]] kept_view [OF Cons.prems(1), of ys False] ys(3)
    by simp_all
  have o: "\<forall>vs \<in> set others. 0 \<notin> set vs" using Cons.prems(2) by simp
  from Cons.IH [OF k(2) o] show ?case unfolding difference_update_entries.simps ys(1) bind_ok_simps k(1) using k(3) by auto
qed simp

lemma symmetric_entries_view:
  assumes "runtime_elems_ok view xs" "0 \<notin> set vs"
  shows "\<exists>zs. symmetric_difference_entries (runtime_elements view tn) xs vs = Inr zs \<and> runtime_elems_ok view zs \<and>
    view ` set zs = (view ` set xs - view ` set vs) \<union> (view ` set vs - view ` set xs)"
proof -
  obtain ys where ys: "unique_entries (runtime_elements view tn) vs = Inr ys" "runtime_elems_ok view ys" "view ` set ys = view ` set vs"
    using unique_view [OF assms(2)] by blast
  show ?thesis using set_op_view [OF assms(1) ys(2), of tn OpSymmetricDifference] ys
    by (simp add: symmetric_difference_entries_def set_op_entries_def op_denotes_def)
qed

lemma intersections: "fold (\<lambda>vs A. op_denotes OpIntersection A (f vs)) others A = A \<inter> (\<Inter>vs \<in> set others. f vs)"
  by (induction others arbitrary: A) (auto simp: op_denotes_def)

lemma intersection_entries_view:
  assumes "runtime_elems_ok view xs" "\<forall>vs \<in> set others. 0 \<notin> set vs"
  shows "\<exists>zs. fold_set_op_entries (runtime_elements view tn) xs others OpIntersection = Inr zs \<and> runtime_elems_ok view zs \<and>
    view ` set zs = view ` set xs \<inter> (\<Inter>vs \<in> set others. view ` set vs)"
proof -
  have "0 \<notin> set xs" using elems_live [OF assms(1)] by auto
  then obtain ys where ys: "unique_entries (runtime_elements view tn) xs = Inr ys" "runtime_elems_ok view ys" "view ` set ys = view ` set xs"
    using unique_view by blast
  show ?thesis using fold_op_view [OF ys(2) assms(2), of tn OpIntersection] ys(1,3) by (simp add: fold_set_op_entries_def intersections)
qed

lemma replaced_wf: "runtime_elems_ok view zs \<Longrightarrow> runtime_set_wf view (s\<lparr>s_entries := zs, s_buckets := []\<rparr>)"
  by (simp add: set_wf_def)

section \<open>The hash of a frozenset\<close>

lemma xor_fold_mset:
  fixes f :: "'a \<Rightarrow> u64"
  assumes "mset xs = mset ys"
  shows "fold (\<lambda>x w. w XOR f x) xs a = fold (\<lambda>x w. w XOR f x) ys a"
  by (rule fold_multiset_equiv [OF _ assms, THEN fun_cong]) (auto simp: fun_eq_iff ac_simps)

definition structural_mix :: "(addr \<Rightarrow> py_key) \<Rightarrow> addr list \<Rightarrow> u64" where
  "structural_mix view xs = fold (\<lambda>k w. w XOR shuffle_bits (word_of_int (hash_key k))) (map view xs) 0"

lemma mix_view: "0 \<notin> set xs \<Longrightarrow> mix_hashes (runtime_elements view tn) xs 0 = Inr (structural_mix view xs)"
  using elements_of.mix_hashes_ok [of xs] by (auto simp: structural_mix_def fold_map comp_def)

lemma mix_content:
  assumes "runtime_elems_ok view xs" "runtime_elems_ok view ys" "view ` set xs = view ` set ys"
  shows "structural_mix view xs = structural_mix view ys" "length xs = length ys"
proof -
  have "mset (map view xs) = mset (map view ys)"
    using assms by (intro set_eq_iff_mset_eq_distinct [THEN iffD1]) (simp_all add: elems_ok_view)
  then show "structural_mix view xs = structural_mix view ys" unfolding structural_mix_def by (rule xor_fold_mset)
  show "length xs = length ys" using card_view assms by metis
qed

section \<open>Properties\<close>

text \<open>
  The set methods compute the operations of set algebra.  For sets of structural elements, union,
  intersection, difference and symmetric difference return, and the elements of the result are
  unique and are exactly those of the corresponding operation on what the elements denote.
\<close>
theorem set_operators_exact:
  assumes "runtime_elems_ok view l" "runtime_elems_ok view r"
  shows "\<exists>zs. set_op_entries (runtime_elements view tn) l r op = Inr zs \<and> runtime_elems_ok view zs \<and>
    view ` set zs = (case op of OpDifference \<Rightarrow> view ` set l - view ` set r | OpIntersection \<Rightarrow> view ` set l \<inter> view ` set r
      | OpUnion \<Rightarrow> view ` set l \<union> view ` set r | OpSymmetricDifference \<Rightarrow> (view ` set l - view ` set r) \<union> (view ` set r - view ` set l))"
  using set_op_view [OF assms, of tn op] by (simp add: op_denotes_def cong: set_op.case_cong)

theorem set_operators_exact_witness:
  "\<exists>zs. set_op_entries (runtime_elements (\<lambda>a. KInt (int a div 16)) (\<lambda>_. ''int'')) [16, 33] [17, 48] OpIntersection = Inr zs \<and>
     (\<lambda>a. KInt (int a div 16)) ` set zs = {KInt 1}"
proof -
  have "runtime_elems_ok (\<lambda>a. KInt (int a div 16)) [16, 33]" "runtime_elems_ok (\<lambda>a. KInt (int a div 16)) [17, 48]"
    by (simp_all add: elems_ok_view)
  from set_operators_exact [OF this, of "\<lambda>_. ''int''" OpIntersection] show ?thesis by auto
qed

text \<open>
  Comparing sets is comparing what they denote: the six rich comparisons are proper inclusion,
  inclusion, equality, inequality, proper containment and containment, although they are decided by
  the lengths and one scan; any other operation is an error.
\<close>
theorem set_comparisons_exact:
  assumes "runtime_elems_ok view l" "runtime_elems_ok view r"
  shows "set_richcmp_bool (runtime_elements view tn) l r op =
    (let A = view ` set l; B = view ` set r in
     if op = uint RICH_LT then Inr (A \<subset> B) else if op = uint RICH_LE then Inr (A \<subseteq> B)
     else if op = uint RICH_EQ then Inr (A = B) else if op = uint RICH_NE then Inr (A \<noteq> B)
     else if op = uint RICH_GT then Inr (B \<subset> A) else if op = uint RICH_GE then Inr (B \<subseteq> A)
     else Inl ''unknown rich comparison operation'')"
proof -
  let ?A = "view ` set l" and ?B = "view ` set r"
  have fin: "finite ?A" "finite ?B" by simp_all
  note c = card_view [OF assms(1)] card_view [OF assms(2)]
  have eq: "length l = length r \<and> ?A \<subseteq> ?B \<longleftrightarrow> ?A = ?B"
    unfolding c [symmetric] using card_subset_eq [OF fin(2), of ?A] by auto
  have lt: "length l < length r \<and> ?A \<subseteq> ?B \<longleftrightarrow> ?A \<subset> ?B"
    unfolding c [symmetric] using psubset_card_mono [OF fin(2), of ?A] by auto
  have gt: "length r < length l \<and> ?B \<subseteq> ?A \<longleftrightarrow> ?B \<subset> ?A"
    unfolding c [symmetric] using psubset_card_mono [OF fin(1), of ?B] by auto
  show ?thesis
  proof (cases "0 \<le> op \<and> op < 256")
    case False
    have "op \<noteq> uint n" for n :: u8 using False uint_bounded [of n] uint_nonnegative [of n] by auto
    then show ?thesis using False by (auto simp: set_richcmp_bool_def Let_def)
  next
    case True
    then have u: "uint (word_of_int op :: u8) = op" by (simp add: uint_word_of_int take_bit_int_eq_self)
    have w: "op = uint n \<longleftrightarrow> word_of_int op = n" for n :: u8 using u by auto
    have le: "entries_subset (runtime_elements view tn) l r = Inr (?A \<subseteq> ?B)" "entries_subset (runtime_elements view tn) r l = Inr (?B \<subseteq> ?A)"
      using subset_view assms by blast+
    have d: "RICH_LT \<noteq> RICH_LE" "RICH_LT \<noteq> RICH_EQ" "RICH_LT \<noteq> RICH_NE" "RICH_LT \<noteq> RICH_GE" "RICH_LE \<noteq> RICH_EQ" "RICH_LE \<noteq> RICH_NE"
      "RICH_EQ \<noteq> RICH_NE" "RICH_GT \<noteq> RICH_EQ" "RICH_GT \<noteq> RICH_NE" "RICH_GT \<noteq> RICH_LE" "RICH_GT \<noteq> RICH_GE" "RICH_GT \<noteq> RICH_LT"
      "RICH_GE \<noteq> RICH_EQ" "RICH_GE \<noteq> RICH_NE" "RICH_GE \<noteq> RICH_LE"
      by (simp_all add: RICH_LT_def RICH_LE_def RICH_EQ_def RICH_NE_def RICH_GT_def RICH_GE_def)
    define o8 :: u8 where "o8 = word_of_int op"
    have "set_richcmp_bool (runtime_elements view tn) l r op =
        (if o8 = RICH_EQ then Inr (?A = ?B) else if o8 = RICH_NE then Inr (?A \<noteq> ?B) else if o8 = RICH_LE then Inr (?A \<subseteq> ?B)
         else if o8 = RICH_GE then Inr (?B \<subseteq> ?A) else if o8 = RICH_LT then Inr (?A \<subset> ?B) else if o8 = RICH_GT then Inr (?B \<subset> ?A)
         else Inl ''unknown rich comparison operation'')"
      unfolding o8_def eq [symmetric] lt [symmetric] gt [symmetric] using True le d(7) by (simp add: set_richcmp_bool_def Let_def)
    then show ?thesis unfolding Let_def w o8_def [symmetric] using d d [symmetric] by simp
  qed
qed

theorem set_comparisons_exact_witness:
  "set_richcmp_bool (runtime_elements (\<lambda>a. KInt (int a div 16)) (\<lambda>_. ''int'')) [16, 33] [32, 17] (uint RICH_EQ) = Inr True"
proof -
  have "runtime_elems_ok (\<lambda>a. KInt (int a div 16)) [16, 33]" "runtime_elems_ok (\<lambda>a. KInt (int a div 16)) [32, 17]"
    by (simp_all add: elems_ok_view)
  from set_comparisons_exact [OF this, of "\<lambda>_. ''int''" "uint RICH_EQ"] show ?thesis
    by (auto simp: RICH_LT_def RICH_LE_def RICH_EQ_def Let_def)
qed

text \<open>
  The in-place methods keep a set well formed: \<open>intersection_update\<close> and \<open>difference_update\<close> with any
  number of arguments and \<open>symmetric_difference_update\<close> with one, on arguments that may repeat elements,
  leave the elements of the corresponding set operation, and the emptied table is a state that every
  later operation accepts.
\<close>
theorem set_updates_exact:
  assumes "runtime_set_wf view s" "\<forall>vs \<in> set others. 0 \<notin> set vs" "0 \<notin> set vs"
  shows "(case set_intersection_update (runtime_elements view tn) others s of (r, s') \<Rightarrow> r = Inr () \<and> runtime_set_wf view s' \<and>
        view ` set (s_entries s') = view ` set (s_entries s) \<inter> (\<Inter>vs \<in> set others. view ` set vs)) \<and>
    (case set_difference_update (runtime_elements view tn) others s of (r, s') \<Rightarrow> r = Inr () \<and> runtime_set_wf view s' \<and>
        view ` set (s_entries s') = view ` set (s_entries s) - (\<Union>vs \<in> set others. view ` set vs)) \<and>
    (case set_symmetric_difference_update (runtime_elements view tn) vs s of (r, s') \<Rightarrow> r = Inr () \<and> runtime_set_wf view s' \<and>
        view ` set (s_entries s') = (view ` set (s_entries s) - view ` set vs) \<union> (view ` set vs - view ` set (s_entries s)))"
proof -
  have ok: "runtime_elems_ok view (s_entries s)" using assms(1) by (simp add: set_wf_def)
  obtain a where a: "fold_set_op_entries (runtime_elements view tn) (s_entries s) others OpIntersection = Inr a" "runtime_elems_ok view a"
    "view ` set a = view ` set (s_entries s) \<inter> (\<Inter>vs \<in> set others. view ` set vs)"
    using intersection_entries_view [OF ok assms(2)] by blast
  obtain b where b: "difference_update_entries (runtime_elements view tn) (s_entries s) others = Inr b" "runtime_elems_ok view b"
    "view ` set b = view ` set (s_entries s) - (\<Union>vs \<in> set others. view ` set vs)"
    using difference_entries_view [OF ok assms(2)] by blast
  obtain c where c: "symmetric_difference_entries (runtime_elements view tn) (s_entries s) vs = Inr c" "runtime_elems_ok view c"
    "view ` set c = (view ` set (s_entries s) - view ` set vs) \<union> (view ` set vs - view ` set (s_entries s))"
    using symmetric_entries_view [OF ok assms(3)] by blast
  show ?thesis
    using a(3) b(3) c(3) replaced_wf [OF a(2), of s] replaced_wf [OF b(2), of s] replaced_wf [OF c(2), of s]
    by (simp add: set_intersection_update_def set_difference_update_def set_symmetric_difference_update_def replace_entries_def a(1) b(1) c(1))
qed

theorem set_updates_exact_witness:
  "runtime_set_wf KObj (snd (set_difference_update (runtime_elements KObj (\<lambda>_. ''object'')) [[7, 7]] \<lparr>s_entries = [7, 9], s_buckets = []\<rparr>)) \<and>
   KObj ` set (s_entries (snd (set_difference_update (runtime_elements KObj (\<lambda>_. ''object'')) [[7, 7]] \<lparr>s_entries = [7, 9], s_buckets = []\<rparr>))) =
     {KObj 9}"
proof -
  have "runtime_set_wf KObj \<lparr>s_entries = [7, 9], s_buckets = []\<rparr>" by (simp add: set_wf_def elems_ok_view)
  from set_updates_exact [OF this, of "[[7, 7]]" "[]" "\<lambda>_. ''object''"] show ?thesis by (auto simp: case_prod_unfold)
qed

text \<open>
  Equal frozensets hash alike: two frozensets of structural elements with the same denotation have
  the same hash whatever the order and the choice of equal elements, the hash is never the reserved
  \<open>- 1\<close>, and once computed it is returned without hashing the elements again.
\<close>
theorem frozenset_hash_content:
  assumes "runtime_elems_ok view xs" "runtime_elems_ok view ys" "view ` set xs = view ` set ys"
  shows "\<exists>h f. frozenset_hash_value (runtime_elements view tn) (init_frozenset xs) = (Inr h, f) \<and> h \<noteq> - 1 \<and>
    fst (frozenset_hash_value (runtime_elements view tn) (init_frozenset ys)) = Inr h \<and>
    (\<forall>sm. frozenset_hash_value sm f = (Inr h, f))"
proof -
  have live: "0 \<notin> set xs" "0 \<notin> set ys" using assms by (simp_all add: elems_ok_view)
  show ?thesis
    using mix_content [OF assms] by (simp add: frozenset_hash_value_def init_frozenset_def mix_view live Let_def)
qed

theorem frozenset_hash_content_witness:
  "fst (frozenset_hash_value (runtime_elements (\<lambda>a. KInt (int a div 16)) (\<lambda>_. ''int'')) (init_frozenset [16, 33])) =
   fst (frozenset_hash_value (runtime_elements (\<lambda>a. KInt (int a div 16)) (\<lambda>_. ''int'')) (init_frozenset [32, 17]))"
proof -
  have "runtime_elems_ok (\<lambda>a. KInt (int a div 16)) [16, 33]" "runtime_elems_ok (\<lambda>a. KInt (int a div 16)) [32, 17]"
    "(\<lambda>a. KInt (int a div 16)) ` set [16, 33] = (\<lambda>a. KInt (int a div 16)) ` set [32, 17]"
    by (auto simp: elems_ok_view)
  from frozenset_hash_content [OF this, of "\<lambda>_. ''int''"] show ?thesis by auto
qed

text \<open>Membership in a frozenset, whose table the first probe builds.\<close>

lemma frozenset_contains_exact:
  assumes "frozen_ok (\<lambda>a. hash_key (view a)) (- {0}) f" "x \<noteq> 0"
  shows "\<exists>f'. frozenset_contains (runtime_elements view tn) x f = (Inr (view x \<in> view ` set (f_entries f)), f') \<and>
    frozen_ok (\<lambda>a. hash_key (view a)) (- {0}) f' \<and> f_entries f' = f_entries f"
  using elements_of.frozen_contains_ok [OF assms(1)] assms(2) by (simp add: smember_view)

end
