(* ===== verification/Csv_Dialect.thy ===== *)
theory Csv_Dialect
  imports Pon_Prelude "HOL-Library.AList" "HOL-Library.Char_ord" "HOL-Library.List_Lexorder"
begin

text \<open>
  Dialects of the CSV module, \<^verbatim>\<open>pon-runtime/src/native/csv_.rs\<close>: their parameters, the objects they are
  read from, and the registry of named dialects with the module functions over it.  Registered dialects
  are always valid, and a call that fails changes nothing.  Parameters are checked one at a time, so a
  dialect can be refused for the order in which its parameters come.
\<close>

section \<open>Configurations\<close>

definition QUOTE_MINIMAL :: int where "QUOTE_MINIMAL = 0"
definition QUOTE_ALL :: int where "QUOTE_ALL = 1"
definition QUOTE_NONNUMERIC :: int where "QUOTE_NONNUMERIC = 2"
definition QUOTE_NONE :: int where "QUOTE_NONE = 3"
definition QUOTE_STRINGS :: int where "QUOTE_STRINGS = 4"
definition QUOTE_NOTNULL :: int where "QUOTE_NOTNULL = 5"
definition DEFAULT_FIELD_SIZE_LIMIT :: int where "DEFAULT_FIELD_SIZE_LIMIT = 131072"

lemmas quote_modes = QUOTE_MINIMAL_def QUOTE_ALL_def QUOTE_NONNUMERIC_def QUOTE_NONE_def QUOTE_STRINGS_def QUOTE_NOTNULL_def

abbreviation CR :: char where "CR \<equiv> CHR 0x0D"
abbreviation LF :: char where "LF \<equiv> CHR 0x0A"

record dialect_config =
  delimiter :: char
  quotechar :: "char option"
  escapechar :: "char option"
  doublequote :: bool
  skipinitialspace :: bool
  lineterminator :: string
  quoting :: int
  strict :: bool

definition dialect_default :: dialect_config where
  "dialect_default =
     \<lparr>delimiter = CHR '','', quotechar = Some CHR 0x22, escapechar = None, doublequote = True, skipinitialspace = False,
      lineterminator = [CR, LF], quoting = QUOTE_MINIMAL, strict = False\<rparr>"

datatype config_error = ConfigType string | ConfigCsv string | ConfigRaised

text \<open>
  The objects that reach the module: \<open>ObjInt\<close> covers \<open>bool\<close>; any other object is what its truth test
  answers, where \<open>None\<close> is an exception, and what its attributes are.
\<close>

datatype attr_lookup = AttrMissing | AttrRaises | AttrValue csv_object
and csv_object =
    ObjNone
  | ObjStr string
  | ObjInt int
  | ObjDialect dialect_config
  | ObjOther "bool option" "string \<Rightarrow> attr_lookup"

definition fits_i64 :: "int \<Rightarrow> bool" where
  "fits_i64 n \<longleftrightarrow> - (2 ^ 63) \<le> n \<and> n < 2 ^ 63"

definition csv_to_i64 :: "csv_object \<Rightarrow> int option" where
  "csv_to_i64 v = (case v of ObjInt n \<Rightarrow> if fits_i64 n then Some n else None | _ \<Rightarrow> None)"

definition pon_is_true :: "csv_object \<Rightarrow> bool option" where
  "pon_is_true v =
     (case v of
        ObjNone \<Rightarrow> Some False | ObjStr s \<Rightarrow> Some (s \<noteq> []) | ObjInt n \<Rightarrow> Some (n \<noteq> 0) | ObjDialect _ \<Rightarrow> Some True
      | ObjOther truth _ \<Rightarrow> truth)"

section \<open>Parameters\<close>

definition quoted_name :: "string \<Rightarrow> string" where
  "quoted_name name = [CHR 0x22] @ name @ [CHR 0x22]"

definition parse_char_param :: "csv_object \<Rightarrow> string \<Rightarrow> bool \<Rightarrow> config_error + char option" where
  "parse_char_param v name allow_none =
     (case v of
        ObjNone \<Rightarrow> if allow_none then Inr None else Inl (ConfigType (quoted_name name @ '' must be string, not NoneType''))
      | ObjStr text \<Rightarrow>
          (case text of
             [] \<Rightarrow> Inl (ConfigType (quoted_name name @ '' must be a 1-character string''))
           | first # rest \<Rightarrow>
               if rest \<noteq> [] then Inl (ConfigType (quoted_name name @ '' must be a 1-character string'')) else Inr (Some first))
      | _ \<Rightarrow> Inl (ConfigType (quoted_name name @ '' must be string'')))"

definition parse_string_param :: "csv_object \<Rightarrow> string \<Rightarrow> config_error + string" where
  "parse_string_param v name =
     (case v of ObjStr text \<Rightarrow> Inr text | _ \<Rightarrow> Inl (ConfigType (quoted_name name @ '' must be a string'')))"

definition parse_bool_param :: "csv_object \<Rightarrow> config_error + bool" where
  "parse_bool_param v = (case pon_is_true v of None \<Rightarrow> Inl ConfigRaised | Some b \<Rightarrow> Inr b)"

definition parse_quoting :: "csv_object \<Rightarrow> config_error + int" where
  "parse_quoting v =
     (case csv_to_i64 v of
        None \<Rightarrow> Inl (ConfigType (quoted_name ''quoting'' @ '' must be an integer''))
      | Some n \<Rightarrow>
          if QUOTE_MINIMAL \<le> n \<and> n \<le> QUOTE_NOTNULL then Inr n
          else Inl (ConfigType (''bad '' @ quoted_name ''quoting'' @ '' value'')))"

definition validate_dialect :: "dialect_config \<Rightarrow> config_error + unit" where
  "validate_dialect c =
     (if quoting c \<noteq> QUOTE_NONE \<and> quotechar c = None
      then Inl (ConfigType ''quotechar must be set if quoting enabled'') else Inr ())"

definition set_fmtparam :: "string \<Rightarrow> csv_object \<Rightarrow> dialect_config \<Rightarrow> config_error + dialect_config" where
  "set_fmtparam name v c =
     (if name = ''delimiter'' then bind_ok (parse_char_param v name False) (\<lambda>d. Inr (c\<lparr>delimiter := the d\<rparr>))
      else if name = ''quotechar'' then bind_ok (parse_char_param v name True) (\<lambda>q. Inr (c\<lparr>quotechar := q\<rparr>))
      else if name = ''escapechar'' then bind_ok (parse_char_param v name True) (\<lambda>e. Inr (c\<lparr>escapechar := e\<rparr>))
      else if name = ''doublequote'' then bind_ok (parse_bool_param v) (\<lambda>b. Inr (c\<lparr>doublequote := b\<rparr>))
      else if name = ''skipinitialspace'' then bind_ok (parse_bool_param v) (\<lambda>b. Inr (c\<lparr>skipinitialspace := b\<rparr>))
      else if name = ''lineterminator'' then bind_ok (parse_string_param v name) (\<lambda>t. Inr (c\<lparr>lineterminator := t\<rparr>))
      else if name = ''quoting'' then bind_ok (parse_quoting v) (\<lambda>n. Inr (c\<lparr>quoting := n\<rparr>))
      else if name = ''strict'' then bind_ok (parse_bool_param v) (\<lambda>b. Inr (c\<lparr>strict := b\<rparr>))
      else Inl (ConfigType ([CHR 0x27] @ name @ [CHR 0x27] @ '' is an invalid keyword argument for this function'')))"

definition apply_fmtparam :: "string \<Rightarrow> csv_object \<Rightarrow> dialect_config \<Rightarrow> config_error + dialect_config" where
  "apply_fmtparam name v c =
     bind_ok (set_fmtparam name v c) (\<lambda>c. bind_ok (validate_dialect c) (\<lambda>_. Inr c))"

fun apply_fmtparams :: "(string \<times> csv_object) list \<Rightarrow> dialect_config \<Rightarrow> config_error + dialect_config" where
  "apply_fmtparams [] c = Inr c"
| "apply_fmtparams ((name, v) # ps) c = bind_ok (apply_fmtparam name v c) (apply_fmtparams ps)"

section \<open>Dialect objects and the registry\<close>

definition optional_attr :: "(string \<Rightarrow> attr_lookup) \<Rightarrow> string \<Rightarrow> config_error + csv_object option" where
  "optional_attr attrs name =
     (case attrs name of AttrMissing \<Rightarrow> Inr None | AttrRaises \<Rightarrow> Inl ConfigRaised | AttrValue v \<Rightarrow> Inr (Some v))"

definition dialect_attrs :: "string list" where
  "dialect_attrs =
     [''delimiter'', ''quotechar'', ''escapechar'', ''doublequote'', ''skipinitialspace'', ''lineterminator'', ''quoting'', ''strict'']"

fun apply_attrs :: "(string \<Rightarrow> attr_lookup) \<Rightarrow> string list \<Rightarrow> dialect_config \<Rightarrow> config_error + dialect_config" where
  "apply_attrs attrs [] c = Inr c"
| "apply_attrs attrs (name # names) c =
     bind_ok (optional_attr attrs name) (\<lambda>v.
       bind_ok (case v of None \<Rightarrow> Inr c | Some v \<Rightarrow> apply_fmtparam name v c) (apply_attrs attrs names))"

text \<open>
  \<open>dialects_by_name\<close> is the ordered map of dialects, \<open>dialects_dict\<close> the dictionary with the same content
  that the module shows.  Allocation does not fail here; where it does, the source drops the change of the
  dictionary without a word.
\<close>

record csv_module =
  dialects_by_name :: "(string \<times> dialect_config) list"
  dialects_dict :: "(string \<times> dialect_config) list"
  field_limit :: int

definition csv_module_new :: csv_module where
  "csv_module_new = \<lparr>dialects_by_name = [], dialects_dict = [], field_limit = DEFAULT_FIELD_SIZE_LIMIT\<rparr>"

definition registry_get :: "string \<Rightarrow> csv_module \<Rightarrow> dialect_config option" where
  "registry_get name m = map_of (dialects_by_name m) name"

definition registry_insert :: "string \<Rightarrow> dialect_config \<Rightarrow> csv_module \<Rightarrow> csv_module" where
  "registry_insert name c m =
     m\<lparr>dialects_by_name := AList.update name c (dialects_by_name m), dialects_dict := AList.update name c (dialects_dict m)\<rparr>"

definition registry_remove :: "string \<Rightarrow> csv_module \<Rightarrow> bool \<times> csv_module" where
  "registry_remove name m =
     (if map_of (dialects_by_name m) name = None then (False, m)
      else (True, m\<lparr>dialects_by_name := AList.delete name (dialects_by_name m),
                    dialects_dict := AList.delete name (dialects_dict m)\<rparr>))"

definition config_from_object :: "csv_module \<Rightarrow> csv_object \<Rightarrow> config_error + dialect_config" where
  "config_from_object m obj =
     (case obj of
        ObjDialect c \<Rightarrow> Inr c
      | ObjStr name \<Rightarrow>
          (case registry_get name m of
             Some c \<Rightarrow> Inr c
           | None \<Rightarrow> if name = ''excel'' then Inr dialect_default else Inl (ConfigCsv ''unknown dialect''))
      | ObjOther _ attrs \<Rightarrow>
          bind_ok (apply_attrs attrs dialect_attrs dialect_default) (\<lambda>c. bind_ok (validate_dialect c) (\<lambda>_. Inr c))
      | _ \<Rightarrow> Inr dialect_default)"

definition config_from_dialect_and_kwargs ::
  "csv_module \<Rightarrow> csv_object \<Rightarrow> (string \<times> csv_object) list \<Rightarrow> config_error + dialect_config" where
  "config_from_dialect_and_kwargs m dialect kwargs =
     bind_ok (case dialect of ObjNone \<Rightarrow> Inr dialect_default | _ \<Rightarrow> config_from_object m dialect) (\<lambda>c.
       bind_ok (apply_fmtparams kwargs c) (\<lambda>c. bind_ok (validate_dialect c) (\<lambda>_. Inr c)))"

section \<open>Module functions\<close>

definition field_size_limit :: "csv_object \<Rightarrow> csv_module \<Rightarrow> (config_error + int) \<times> csv_module" where
  "field_size_limit arg m =
     (case arg of
        ObjNone \<Rightarrow> (Inr (field_limit m), m)
      | _ \<Rightarrow>
          (case csv_to_i64 arg of
             None \<Rightarrow> (Inl (ConfigType ''limit must be an integer''), m)
           | Some limit \<Rightarrow> (Inr (field_limit m), m\<lparr>field_limit := limit\<rparr>)))"

definition register_dialect ::
  "csv_object \<Rightarrow> csv_object \<Rightarrow> (string \<times> csv_object) list \<Rightarrow> csv_module \<Rightarrow> (config_error + unit) \<times> csv_module" where
  "register_dialect name dialect kwargs m =
     (case name of
        ObjStr n \<Rightarrow>
          (case config_from_dialect_and_kwargs m dialect kwargs of
             Inr c \<Rightarrow> (Inr (), registry_insert n c m)
           | Inl err \<Rightarrow> (Inl err, m))
      | _ \<Rightarrow> (Inl (ConfigType ''dialect name must be a string''), m))"

definition unregister_dialect :: "csv_object \<Rightarrow> csv_module \<Rightarrow> (config_error + unit) \<times> csv_module" where
  "unregister_dialect name m =
     (case name of
        ObjStr n \<Rightarrow>
          let (removed, m) = registry_remove n m
          in if removed then (Inr (), m) else (Inl (ConfigCsv ''unknown dialect''), m)
      | _ \<Rightarrow> (Inl (ConfigType ''dialect name must be a string''), m))"

definition get_dialect :: "csv_object \<Rightarrow> csv_module \<Rightarrow> config_error + dialect_config" where
  "get_dialect name m =
     (case name of
        ObjStr n \<Rightarrow> (case registry_get n m of Some c \<Rightarrow> Inr c | None \<Rightarrow> Inl (ConfigCsv ''unknown dialect''))
      | _ \<Rightarrow> Inl (ConfigType ''dialect name must be a string''))"

definition list_dialects :: "csv_module \<Rightarrow> string list" where
  "list_dialects m = sort (map fst (dialects_by_name m))"

definition opt_char :: "char option \<Rightarrow> csv_object" where
  "opt_char v = (case v of None \<Rightarrow> ObjNone | Some ch \<Rightarrow> ObjStr [ch])"

definition dialect_attr :: "dialect_config \<Rightarrow> string \<Rightarrow> csv_object option" where
  "dialect_attr c name =
     (let flag = (\<lambda>b. ObjInt (if b then 1 else 0))
      in map_of
           [(''delimiter'', ObjStr [delimiter c]), (''quotechar'', opt_char (quotechar c)), (''escapechar'', opt_char (escapechar c)),
            (''doublequote'', flag (doublequote c)), (''skipinitialspace'', flag (skipinitialspace c)),
            (''lineterminator'', ObjStr (lineterminator c)), (''quoting'', ObjInt (quoting c)), (''strict'', flag (strict c))]
           name)"

section \<open>Validity\<close>

definition dialect_valid :: "dialect_config \<Rightarrow> bool" where
  "dialect_valid c \<longleftrightarrow>
     (quoting c \<noteq> QUOTE_NONE \<longrightarrow> quotechar c \<noteq> None) \<and> QUOTE_MINIMAL \<le> quoting c \<and> quoting c \<le> QUOTE_NOTNULL"

lemma dialect_default_valid [simp]: "dialect_valid dialect_default"
  by (simp add: dialect_valid_def dialect_default_def quote_modes)

lemma validate_iff: "validate_dialect c = Inr u \<longleftrightarrow> (quoting c \<noteq> QUOTE_NONE \<longrightarrow> quotechar c \<noteq> None)"
  by (auto simp: validate_dialect_def)

lemma set_fmtparam_quoting:
  assumes "set_fmtparam name v c = Inr c'" "QUOTE_MINIMAL \<le> quoting c" "quoting c \<le> QUOTE_NOTNULL"
  shows "QUOTE_MINIMAL \<le> quoting c' \<and> quoting c' \<le> QUOTE_NOTNULL"
  using assms
  by (auto simp: set_fmtparam_def bind_ok_Inr_iff parse_quoting_def split: if_splits option.splits)

lemma apply_fmtparam_valid: "apply_fmtparam name v c = Inr c' \<Longrightarrow> dialect_valid c \<Longrightarrow> dialect_valid c'"
  using set_fmtparam_quoting [of name v c c'] by (auto simp: apply_fmtparam_def bind_ok_Inr_iff validate_iff dialect_valid_def)

lemma apply_fmtparams_valid: "apply_fmtparams ps c = Inr c' \<Longrightarrow> dialect_valid c \<Longrightarrow> dialect_valid c'"
  by (induction ps c rule: apply_fmtparams.induct) (auto simp: bind_ok_Inr_iff dest: apply_fmtparam_valid)

lemma apply_attrs_valid: "apply_attrs attrs names c = Inr c' \<Longrightarrow> dialect_valid c \<Longrightarrow> dialect_valid c'"
  by (induction attrs names c rule: apply_attrs.induct) (auto simp: bind_ok_Inr_iff split: option.splits dest: apply_fmtparam_valid)

definition module_ok :: "csv_module \<Rightarrow> bool" where
  "module_ok m \<longleftrightarrow>
     distinct (map fst (dialects_by_name m)) \<and> (\<forall>c \<in> snd ` set (dialects_by_name m). dialect_valid c) \<and>
     map_of (dialects_dict m) = map_of (dialects_by_name m)"

text \<open>A dialect object that a caller passes was built by the module, and is valid.\<close>

definition object_ok :: "csv_object \<Rightarrow> bool" where
  "object_ok v = (case v of ObjDialect c \<Rightarrow> dialect_valid c | _ \<Rightarrow> True)"

lemma config_from_object_valid:
  assumes "module_ok m" "object_ok obj" "config_from_object m obj = Inr c"
  shows "dialect_valid c"
proof (cases obj)
  case (ObjStr name)
  with assms show ?thesis
    by (force simp: config_from_object_def registry_get_def module_ok_def split: option.splits if_splits dest: map_of_SomeD)
next
  case (ObjOther truth attrs)
  with assms(3) show ?thesis by (auto simp: config_from_object_def bind_ok_Inr_iff dest: apply_attrs_valid)
qed (use assms in \<open>auto simp: config_from_object_def object_ok_def\<close>)

lemma config_valid:
  assumes "module_ok m" "object_ok dialect" "config_from_dialect_and_kwargs m dialect kwargs = Inr c"
  shows "dialect_valid c"
  using assms config_from_object_valid [OF assms(1, 2)]
  by (auto simp: config_from_dialect_and_kwargs_def bind_ok_Inr_iff split: csv_object.splits dest: apply_fmtparams_valid)

lemma update_value: "(a, b) \<in> set (AList.update k v al) \<Longrightarrow> b = v \<or> (\<exists>a'. (a', b) \<in> set al)"
  by (induction al) (auto split: if_splits)

lemma delete_value: "(a, b) \<in> set (AList.delete k al) \<Longrightarrow> (a, b) \<in> set al"
  by (auto simp: AList.delete_eq)

lemma registry_insert_ok: "module_ok m \<Longrightarrow> dialect_valid c \<Longrightarrow> module_ok (registry_insert n c m)"
  by (fastforce simp: module_ok_def registry_insert_def update_conv' distinct_update dest: update_value)

lemma registry_remove_ok: "module_ok m \<Longrightarrow> module_ok (snd (registry_remove n m))"
  by (fastforce simp: module_ok_def registry_remove_def delete_conv' distinct_delete dest: delete_value)

lemma registry_get_insert: "(\<lambda>k. registry_get k (registry_insert n c m)) = (\<lambda>k. registry_get k m)(n \<mapsto> c)"
  by (auto simp: registry_get_def registry_insert_def update_conv' fun_eq_iff)

lemma registry_get_remove: "(\<lambda>k. registry_get k (snd (registry_remove n m))) = (\<lambda>k. registry_get k m)(n := None)"
  by (auto simp: registry_get_def registry_remove_def delete_conv' fun_eq_iff)

section \<open>Sessions\<close>

text \<open>
  The calls a program can make on the module, and what they return.  The number of arguments in the message of
  \<open>dialect_new\<close> is left out.
\<close>

datatype csv_call =
    FieldSizeLimit csv_object
  | RegisterDialect csv_object csv_object "(string \<times> csv_object) list"
  | UnregisterDialect csv_object
  | GetDialect csv_object
  | ListDialects
  | DialectNew "csv_object list" "(string \<times> csv_object) list"

datatype csv_result = ResNone | ResInt int | ResDialect dialect_config | ResNames "string list"

definition dialect_new :: "csv_object list \<Rightarrow> (string \<times> csv_object) list \<Rightarrow> csv_module \<Rightarrow> config_error + dialect_config" where
  "dialect_new positional kwargs m =
     (case positional of
        [] \<Rightarrow> config_from_dialect_and_kwargs m ObjNone kwargs
      | [dialect] \<Rightarrow> config_from_dialect_and_kwargs m dialect kwargs
      | _ \<Rightarrow> Inl (ConfigType ''Dialect() takes at most 1 positional argument''))"

fun run_csv_call :: "csv_call \<Rightarrow> csv_module \<Rightarrow> (config_error + csv_result) \<times> csv_module" where
  "run_csv_call (FieldSizeLimit arg) m = (case field_size_limit arg m of (r, m') \<Rightarrow> (map_sum id ResInt r, m'))"
| "run_csv_call (RegisterDialect name dialect kwargs) m =
     (case register_dialect name dialect kwargs m of (r, m') \<Rightarrow> (map_sum id (\<lambda>_. ResNone) r, m'))"
| "run_csv_call (UnregisterDialect name) m =
     (case unregister_dialect name m of (r, m') \<Rightarrow> (map_sum id (\<lambda>_. ResNone) r, m'))"
| "run_csv_call (GetDialect name) m = (map_sum id ResDialect (get_dialect name m), m)"
| "run_csv_call ListDialects m = (Inr (ResNames (list_dialects m)), m)"
| "run_csv_call (DialectNew positional kwargs) m = (map_sum id ResDialect (dialect_new positional kwargs m), m)"

fun csv_session :: "csv_call list \<Rightarrow> csv_module \<Rightarrow> csv_module" where
  "csv_session [] m = m"
| "csv_session (call # calls) m = csv_session calls (snd (run_csv_call call m))"

definition call_ok :: "csv_call \<Rightarrow> bool" where
  "call_ok call =
     (case call of
        RegisterDialect _ dialect _ \<Rightarrow> object_ok dialect | DialectNew positional _ \<Rightarrow> list_all object_ok positional | _ \<Rightarrow> True)"

lemma register_dialect_ok: "module_ok m \<Longrightarrow> object_ok dialect \<Longrightarrow> module_ok (snd (register_dialect name dialect kwargs m))"
  by (auto simp: register_dialect_def registry_insert_ok config_valid split: csv_object.split sum.split)

lemma unregister_dialect_ok: "module_ok m \<Longrightarrow> module_ok (snd (unregister_dialect name m))"
  using registry_remove_ok [of m] by (auto simp: unregister_dialect_def split: csv_object.split prod.split) (metis snd_conv)+

lemma field_size_limit_ok: "module_ok m \<Longrightarrow> module_ok (snd (field_size_limit arg m))"
  by (auto simp: field_size_limit_def module_ok_def split: csv_object.split option.split)

lemma csv_call_ok: "module_ok m \<Longrightarrow> call_ok call \<Longrightarrow> module_ok (snd (run_csv_call call m))"
  using register_dialect_ok [of m] unregister_dialect_ok [of m] field_size_limit_ok [of m]
  by (cases call) (simp_all add: call_ok_def case_prod_unfold)

lemma csv_session_ok: "module_ok m \<Longrightarrow> \<forall>call \<in> set calls. call_ok call \<Longrightarrow> module_ok (csv_session calls m)"
  by (induction calls arbitrary: m) (simp_all add: csv_call_ok)

lemma module_new_ok [simp]: "module_ok csv_module_new"
  by (simp add: module_ok_def csv_module_new_def)

lemma registry_valid: "module_ok m \<Longrightarrow> registry_get n m = Some c \<Longrightarrow> dialect_valid c"
  by (force simp: module_ok_def registry_get_def dest: map_of_SomeD)

lemma csv_call_failure: "fst (run_csv_call call m) = Inl err \<Longrightarrow> snd (run_csv_call call m) = m"
  by (cases call)
    (auto simp: field_size_limit_def register_dialect_def unregister_dialect_def registry_remove_def
       split: csv_object.splits option.splits sum.splits if_splits prod.splits)

text \<open>The contract of one call on the registry as a map from names to dialects.\<close>

definition registry_spec :: "csv_call \<Rightarrow> csv_module \<Rightarrow> (string \<rightharpoonup> dialect_config)" where
  "registry_spec call m =
     (case call of
        RegisterDialect (ObjStr n) dialect kwargs \<Rightarrow>
          (case config_from_dialect_and_kwargs m dialect kwargs of
             Inr c \<Rightarrow> (\<lambda>k. registry_get k m)(n \<mapsto> c) | Inl _ \<Rightarrow> (\<lambda>k. registry_get k m))
      | UnregisterDialect (ObjStr n) \<Rightarrow> (\<lambda>k. registry_get k m)(n := None)
      | _ \<Rightarrow> (\<lambda>k. registry_get k m))"

lemma csv_call_registry: "(\<lambda>k. registry_get k (snd (run_csv_call call m))) = registry_spec call m"
proof (cases call)
  case (RegisterDialect name dialect kwargs)
  then show ?thesis
    by (cases name) (auto simp: registry_spec_def register_dialect_def registry_get_insert split: sum.split prod.split)
next
  case (UnregisterDialect name)
  then show ?thesis
    by (cases name)
      (auto simp: registry_spec_def unregister_dialect_def registry_get_remove [symmetric] split: prod.split if_splits)
qed (auto simp: registry_spec_def field_size_limit_def registry_get_def split: csv_object.split option.split)

lemma map_sum_Inr_iff: "map_sum f g r = Inr y \<longleftrightarrow> (\<exists>x. r = Inr x \<and> y = g x)"
  by (cases r) auto

lemma dialect_new_valid: "module_ok m \<Longrightarrow> list_all object_ok positional \<Longrightarrow> dialect_new positional kwargs m = Inr c \<Longrightarrow> dialect_valid c"
  using config_valid [of m ObjNone] config_valid [of m "hd positional"]
  by (auto simp: dialect_new_def object_ok_def [of ObjNone] split: list.splits)

lemma csv_call_result_valid:
  assumes "module_ok m" "call_ok call" "fst (run_csv_call call m) = Inr (ResDialect c)"
  shows "dialect_valid c"
  using assms
  by (cases call)
    (auto simp: call_ok_def get_dialect_def map_sum_Inr_iff case_prod_unfold registry_valid dialect_new_valid
       split: csv_object.splits option.splits)

text \<open>
  C16.  Whatever calls a program has made on the module, the registry keeps names apart, holds valid
  dialects only and agrees with the dictionary the module shows.  At every point of such a session the next call
  acts on the map from names to dialects exactly as its contract says, leaves the module as it was when it
  fails, and returns valid dialects only; the names listed are the registered ones, in order.
\<close>

theorem csv_registry_exact:
  assumes "\<forall>earlier \<in> set calls. call_ok earlier" "call_ok call" "m = csv_session calls csv_module_new"
  shows "module_ok m
    \<and> (\<lambda>n. registry_get n (snd (run_csv_call call m))) = registry_spec call m
    \<and> (isl (fst (run_csv_call call m)) \<longrightarrow> snd (run_csv_call call m) = m)
    \<and> (\<forall>c. fst (run_csv_call call m) = Inr (ResDialect c) \<longrightarrow> dialect_valid c)
    \<and> list_dialects m = sorted_list_of_set (dom (\<lambda>n. registry_get n m))"
proof -
  have ok: "module_ok m" using assms(1, 3) by (simp add: csv_session_ok)
  have "list_dialects m = sorted_list_of_set (dom (\<lambda>n. registry_get n m))"
    using ok sorted_list_of_set_sort_remdups [of "map fst (dialects_by_name m)"]
    by (simp add: list_dialects_def registry_get_def module_ok_def dom_map_of_conv_image_fst distinct_remdups_id)
  with ok csv_call_result_valid [OF ok assms(2)] show ?thesis
    by (auto simp: csv_call_registry isl_def intro: csv_call_failure)
qed

definition sample_calls :: "csv_call list" where
  "sample_calls =
     [RegisterDialect (ObjStr ''tsv'') (ObjStr ''excel'') [(''delimiter'', ObjStr [CHR 0x09])],
      RegisterDialect (ObjStr ''bad'') (ObjStr ''missing'') [], RegisterDialect (ObjStr ''raw'') ObjNone [(''quoting'', ObjInt 3)],
      UnregisterDialect (ObjStr ''raw'')]"

lemma csv_registry_exact_witness:
  "(\<lambda>n. registry_get n (snd (run_csv_call (UnregisterDialect (ObjStr ''tsv'')) (csv_session sample_calls csv_module_new))))
     = registry_spec (UnregisterDialect (ObjStr ''tsv'')) (csv_session sample_calls csv_module_new)
   \<and> list_dialects (csv_session sample_calls csv_module_new) = [''tsv'']"
proof -
  have calls: "\<forall>earlier \<in> set sample_calls. call_ok earlier" "call_ok (UnregisterDialect (ObjStr ''tsv''))" by code_simp+
  note exact = csv_registry_exact [OF calls refl]
  have "list_dialects (csv_session sample_calls csv_module_new) = [''tsv'']" by code_simp
  with exact show ?thesis by blast
qed

section \<open>Dialects as objects\<close>

text \<open>
  An object with the attributes of a dialect, such as the instances that \<^verbatim>\<open>csv.Dialect\<close> passes to
  \<^verbatim>\<open>_csv.Dialect\<close>.
\<close>

definition dialect_view :: "dialect_config \<Rightarrow> csv_object" where
  "dialect_view c = ObjOther (Some True) (\<lambda>name. case dialect_attr c name of None \<Rightarrow> AttrMissing | Some v \<Rightarrow> AttrValue v)"

lemma attr_names [simp]:
  "dialect_attr c ''delimiter'' = Some (ObjStr [delimiter c])"
  "dialect_attr c ''quotechar'' = Some (opt_char (quotechar c))"
  "dialect_attr c ''escapechar'' = Some (opt_char (escapechar c))"
  "dialect_attr c ''doublequote'' = Some (ObjInt (if doublequote c then 1 else 0))"
  "dialect_attr c ''skipinitialspace'' = Some (ObjInt (if skipinitialspace c then 1 else 0))"
  "dialect_attr c ''lineterminator'' = Some (ObjStr (lineterminator c))"
  "dialect_attr c ''quoting'' = Some (ObjInt (quoting c))"
  "dialect_attr c ''strict'' = Some (ObjInt (if strict c then 1 else 0))"
  by (simp_all add: dialect_attr_def Let_def)

lemma set_fmtparam_text:
  "set_fmtparam ''delimiter'' (ObjStr [ch]) c = Inr (c\<lparr>delimiter := ch\<rparr>)"
  "set_fmtparam ''quotechar'' (opt_char q) c = Inr (c\<lparr>quotechar := q\<rparr>)"
  "set_fmtparam ''escapechar'' (opt_char e) c = Inr (c\<lparr>escapechar := e\<rparr>)"
  "set_fmtparam ''lineterminator'' (ObjStr t) c = Inr (c\<lparr>lineterminator := t\<rparr>)"
  by (auto simp: set_fmtparam_def parse_char_param_def parse_string_param_def opt_char_def split: option.split)

lemma set_fmtparam_number:
  "set_fmtparam ''doublequote'' (ObjInt (if b then 1 else 0)) c = Inr (c\<lparr>doublequote := b\<rparr>)"
  "set_fmtparam ''skipinitialspace'' (ObjInt (if b then 1 else 0)) c = Inr (c\<lparr>skipinitialspace := b\<rparr>)"
  "set_fmtparam ''strict'' (ObjInt (if b then 1 else 0)) c = Inr (c\<lparr>strict := b\<rparr>)"
  "QUOTE_MINIMAL \<le> n \<Longrightarrow> n \<le> QUOTE_NOTNULL \<Longrightarrow> set_fmtparam ''quoting'' (ObjInt n) c = Inr (c\<lparr>quoting := n\<rparr>)"
  by (simp_all add: set_fmtparam_def parse_bool_param_def pon_is_true_def parse_quoting_def csv_to_i64_def fits_i64_def quote_modes)

text \<open>
  C33.  Reading a valid dialect back from an object that has its attributes gives that dialect,
  unless it has no quote character: every such dialect is refused, although it is valid, because the quote
  character is applied, and checked, before the quoting mode that makes it unnecessary.
\<close>

theorem dialect_copy_exact:
  assumes "dialect_valid c"
  shows "config_from_object m (dialect_view c)
    = (if quotechar c = None then Inl (ConfigType ''quotechar must be set if quoting enabled'') else Inr c)"
  using assms
  by (cases "quotechar c")
    (simp_all add: dialect_view_def config_from_object_def dialect_attrs_def optional_attr_def apply_fmtparam_def
       set_fmtparam_text set_fmtparam_number validate_dialect_def dialect_valid_def dialect_default_def quote_modes)

lemma dialect_copy_exact_witness:
  "config_from_object csv_module_new (dialect_view (dialect_default\<lparr>quoting := QUOTE_ALL, escapechar := Some CHR 0x5C\<rparr>))
     = Inr (dialect_default\<lparr>quoting := QUOTE_ALL, escapechar := Some CHR 0x5C\<rparr>)
   \<and> isl (config_from_object csv_module_new (dialect_view (dialect_default\<lparr>quoting := QUOTE_NONE, quotechar := None\<rparr>)))"
  using dialect_copy_exact [of "dialect_default\<lparr>quoting := QUOTE_ALL, escapechar := Some CHR 0x5C\<rparr>" csv_module_new]
    dialect_copy_exact [of "dialect_default\<lparr>quoting := QUOTE_NONE, quotechar := None\<rparr>" csv_module_new]
  by (simp add: dialect_valid_def dialect_default_def quote_modes)

text \<open>Keyword arguments are checked one by one as well, so their order decides.\<close>

theorem keyword_order_decides:
  "isl (config_from_dialect_and_kwargs m ObjNone [(''quotechar'', ObjNone), (''quoting'', ObjInt 3)])"
  "config_from_dialect_and_kwargs m ObjNone [(''quoting'', ObjInt 3), (''quotechar'', ObjNone)]
     = Inr (dialect_default\<lparr>quoting := QUOTE_NONE, quotechar := None\<rparr>)"
  by (simp_all add: config_from_dialect_and_kwargs_def apply_fmtparam_def set_fmtparam_def parse_char_param_def parse_quoting_def
        csv_to_i64_def fits_i64_def validate_dialect_def dialect_default_def quote_modes)

end
