(* ===== verification/Csv_Codec.thy ===== *)
theory Csv_Codec
  imports Csv_Dialect
begin

text \<open>
  Writing and reading of CSV records, \<^verbatim>\<open>pon-runtime/src/native/csv_.rs\<close>.  What a writer produces for rows of
  strings, however it is cut into lines at its line breaks, is read back as the same rows; the fields a reader returns
  respect the field size limit.  The file a writer writes to is a parameter; the iterator of a reader is the list of what
  it gives.  The field size limit is a global that the reader loads for every character it keeps, so it
  can change at any moment: a limit is a function of how many loads the record has made.
\<close>

section \<open>Writer\<close>

text \<open>The values a row can hold, as the writer sees them: a text that is \<open>None\<close> is a string conversion that raises.\<close>

datatype field_value = FieldNone | FieldStr string | FieldNum string | FieldOther "string option"

definition field_text :: "field_value \<Rightarrow> string option" where
  "field_text v = (case v of FieldNone \<Rightarrow> Some [] | FieldStr s \<Rightarrow> Some s | FieldNum s \<Rightarrow> Some s | FieldOther s \<Rightarrow> s)"

definition is_number :: "field_value \<Rightarrow> bool" where
  "is_number v = (case v of FieldNum _ \<Rightarrow> True | _ \<Rightarrow> False)"

definition is_string :: "field_value \<Rightarrow> bool" where
  "is_string v = (case v of FieldStr _ \<Rightarrow> True | _ \<Rightarrow> False)"

definition is_break :: "char \<Rightarrow> bool" where
  "is_break c \<longleftrightarrow> c = CR \<or> c = LF"

definition initially_quoted :: "dialect_config \<Rightarrow> field_value \<Rightarrow> bool" where
  "initially_quoted d v =
     (if quoting d = QUOTE_ALL then True
      else if quoting d = QUOTE_NONNUMERIC then \<not> is_number v
      else if quoting d = QUOTE_STRINGS then is_string v
      else if quoting d = QUOTE_NOTNULL then v \<noteq> FieldNone
      else False)"

text \<open>One round of the loop over the characters of a field: what is added to the body, and whether it asks for quotes.\<close>

definition field_char :: "dialect_config \<Rightarrow> char \<Rightarrow> string + string \<times> bool" where
  "field_char d c =
     (let is_quote = (quotechar d = Some c); is_delim = (c = delimiter d);
          is_line = (is_break c \<or> c \<in> set (lineterminator d)); is_escape = (escapechar d = Some c)
      in if quoting d = QUOTE_NONE then
           if is_quote \<or> is_delim \<or> is_line \<or> is_escape then
             (case escapechar d of None \<Rightarrow> Inl ''need to escape, but no escapechar set'' | Some e \<Rightarrow> Inr ([e, c], False))
           else Inr ([c], False)
         else if is_escape then
           (case escapechar d of None \<Rightarrow> Inr ([c], False) | Some e \<Rightarrow> Inr ([e, c], False))
         else if is_quote then
           if doublequote d then
             (case quotechar d of
                None \<Rightarrow> Inl ''quotechar must be set if quoting enabled'' | Some q \<Rightarrow> Inr ([q, q], True))
           else
             (case escapechar d of None \<Rightarrow> Inl ''need to escape, but no escapechar set'' | Some e \<Rightarrow> Inr ([e, c], False))
         else Inr ([c], quoting d = QUOTE_MINIMAL \<and> (is_delim \<or> is_line)))"

fun field_body :: "dialect_config \<Rightarrow> string \<Rightarrow> bool \<Rightarrow> string + string \<times> bool" where
  "field_body d [] quoted = Inr ([], quoted)"
| "field_body d (c # cs) quoted =
     bind_ok (field_char d c) (\<lambda>(piece, q).
       bind_ok (field_body d cs (quoted \<or> q)) (\<lambda>(body, quoted). Inr (piece @ body, quoted)))"

definition append_field :: "string \<Rightarrow> dialect_config \<Rightarrow> field_value \<Rightarrow> nat \<Rightarrow> string + string" where
  "append_field out d v row_len =
     (case field_text v of
        None \<Rightarrow> Inl ''field string conversion failed''
      | Some text \<Rightarrow>
          let quoted = initially_quoted d v
          in if text = [] \<and> row_len = 1 \<and> \<not> quoted then Inl ''single empty field record must be quoted''
             else bind_ok (field_body d text (quoted \<or> text = [] \<and> row_len = 1)) (\<lambda>(body, quoted).
               if quoted then
                 (case quotechar d of
                    None \<Rightarrow> Inl ''quotechar must be set if quoting enabled''
                  | Some q \<Rightarrow> Inr (out @ [q] @ body @ [q]))
               else Inr (out @ body)))"

fun append_fields :: "string \<Rightarrow> dialect_config \<Rightarrow> nat \<Rightarrow> nat \<Rightarrow> field_value list \<Rightarrow> string + string" where
  "append_fields out d row_len index [] = Inr out"
| "append_fields out d row_len index (v # vs) =
     bind_ok (append_field (if index > 0 then out @ [delimiter d] else out) d v row_len) (\<lambda>out.
       append_fields out d row_len (Suc index) vs)"

definition render_record :: "dialect_config \<Rightarrow> field_value list \<Rightarrow> string + string" where
  "render_record d vs = bind_ok (append_fields [] d (length vs) 0 vs) (\<lambda>out. Inr (out @ lineterminator d))"

text \<open>
  What the iterator of \<open>writerows\<close> gives: a row with its fields, a value that is no sequence, or an exception.  Writing
  is the parameter \<open>wr\<close>, which answers whether the call succeeded.
\<close>

datatype row_item = RowFields "field_value list" | RowNoSequence string | RowRaises

datatype writer_error = WriterType string | WriterCsv string | WriterRaised

definition writerow ::
  "(string \<Rightarrow> 'f \<Rightarrow> bool \<times> 'f) \<Rightarrow> dialect_config \<Rightarrow> row_item \<Rightarrow> 'f \<Rightarrow> (writer_error + unit) \<times> 'f" where
  "writerow wr d row f =
     (case row of
        RowRaises \<Rightarrow> (Inl WriterRaised, f)
      | RowNoSequence message \<Rightarrow> (Inl (WriterType message), f)
      | RowFields vs \<Rightarrow>
          (case render_record d vs of
             Inl message \<Rightarrow> (Inl (WriterCsv message), f)
           | Inr text \<Rightarrow> (case wr text f of (ok, f) \<Rightarrow> (if ok then Inr () else Inl WriterRaised, f))))"

fun writerows ::
  "(string \<Rightarrow> 'f \<Rightarrow> bool \<times> 'f) \<Rightarrow> dialect_config \<Rightarrow> row_item list \<Rightarrow> 'f \<Rightarrow> (writer_error + unit) \<times> 'f" where
  "writerows wr d [] f = (Inr (), f)"
| "writerows wr d (row # rows) f =
     (case writerow wr d row f of (Inl err, f) \<Rightarrow> (Inl err, f) | (Inr _, f) \<Rightarrow> writerows wr d rows f)"

section \<open>Reader\<close>

record reader_state =
  row_fields :: "string list"
  field :: string
  field_len :: int
  in_quotes :: bool
  after_quote :: bool
  at_field_start :: bool
  escaped :: bool
  record_has_data :: bool
  escaped_line_break :: bool
  limit_loads :: nat

definition reader_start :: reader_state where
  "reader_start =
     \<lparr>row_fields = [], field = [], field_len = 0, in_quotes = False, after_quote = False, at_field_start = True,
      escaped = False, record_has_data = False, escaped_line_break = False, limit_loads = 0\<rparr>"

datatype reader_step = Consumed reader_state | ConsumedTwo reader_state | Returned "string list" | Failed string

definition push_reader_char :: "(nat \<Rightarrow> int) \<Rightarrow> char \<Rightarrow> reader_state \<Rightarrow> (reader_state \<Rightarrow> reader_step) \<Rightarrow> reader_step" where
  "push_reader_char limit c st k =
     (if field_len st + 1 > limit (limit_loads st) then Failed ''field larger than field limit''
      else k (st\<lparr>field_len := field_len st + 1, field := field st @ [c], limit_loads := Suc (limit_loads st)\<rparr>))"

definition quotes_enabled :: "dialect_config \<Rightarrow> bool" where
  "quotes_enabled d \<longleftrightarrow> quoting d \<noteq> QUOTE_NONE \<and> quotechar d \<noteq> None"

definition end_field :: "reader_state \<Rightarrow> reader_state" where
  "end_field st =
     st\<lparr>row_fields := row_fields st @ [field st], field := [], field_len := 0, after_quote := False, at_field_start := True,
        record_has_data := True\<rparr>"

text \<open>One round of the loop over the characters of a line: \<open>c\<close> is the character, \<open>next\<close> the one after it, if any.\<close>

definition read_char :: "dialect_config \<Rightarrow> (nat \<Rightarrow> int) \<Rightarrow> char \<Rightarrow> char option \<Rightarrow> reader_state \<Rightarrow> reader_step" where
  "read_char d limit c next st =
     (if escaped st then
        push_reader_char limit c (st\<lparr>record_has_data := True\<rparr>) (\<lambda>st.
          Consumed (st\<lparr>escaped_line_break := escaped_line_break st \<or> is_break c, escaped := False, at_field_start := False\<rparr>))
      else if escapechar d = Some c then
        Consumed (st\<lparr>record_has_data := True, escaped := True, at_field_start := False\<rparr>)
      else if in_quotes st then
        if quotechar d = Some c then
          if doublequote d \<and> next \<noteq> None \<and> quotechar d = next then
            push_reader_char limit c (st\<lparr>record_has_data := True\<rparr>) ConsumedTwo
          else Consumed (st\<lparr>record_has_data := True, in_quotes := False, after_quote := True\<rparr>)
        else push_reader_char limit c (st\<lparr>record_has_data := True\<rparr>) Consumed
      else if after_quote st then
        if c = delimiter d then Consumed (end_field st)
        else if is_break c then Returned (row_fields st @ [field st])
        else if skipinitialspace d \<and> c = CHR '' '' then Consumed st
        else if strict d then Failed ([CHR 0x27, CHR '','', CHR 0x27] @ '' expected after '' @ [CHR 0x27])
        else push_reader_char limit c (st\<lparr>record_has_data := True\<rparr>) (\<lambda>st.
          Consumed (st\<lparr>after_quote := False, at_field_start := False\<rparr>))
      else if c = delimiter d then Consumed (end_field st)
      else if is_break c then
        if \<not> record_has_data st \<and> row_fields st = [] \<and> field st = [] then Returned [] else Returned (row_fields st @ [field st])
      else if at_field_start st \<and> skipinitialspace d \<and> c = CHR '' '' then Consumed st
      else if at_field_start st \<and> quotes_enabled d \<and> quotechar d = Some c then
        Consumed (st\<lparr>in_quotes := True, at_field_start := False, record_has_data := True\<rparr>)
      else push_reader_char limit c (st\<lparr>record_has_data := True, at_field_start := False\<rparr>) Consumed)"

datatype line_end = LineMore reader_state | LineRecord "string list" | LineError string

function read_chars :: "dialect_config \<Rightarrow> (nat \<Rightarrow> int) \<Rightarrow> string \<Rightarrow> reader_state \<Rightarrow> line_end" where
  "read_chars d limit [] st = LineMore st"
| "read_chars d limit (c # cs) st =
     (case read_char d limit c (case cs of [] \<Rightarrow> None | c' # _ \<Rightarrow> Some c') st of
        Consumed st \<Rightarrow> read_chars d limit cs st
      | ConsumedTwo st \<Rightarrow> read_chars d limit (tl cs) st
      | Returned row \<Rightarrow> LineRecord row
      | Failed message \<Rightarrow> LineError message)"
  by pat_completeness auto
termination
  by (relation "measure (\<lambda>(_, _, cs, _). length cs)") auto

text \<open>
  What the iterator of a reader gives; when the list is used up it stops.  The limit is left out of the message on large
  fields.
\<close>

datatype line_item = LineText string | LineOther string | LineRaises

datatype read_result = Row "string list" | EndOfData | CsvFailure string

record csv_reader =
  iter :: "line_item list"
  line_num :: nat

definition saturating_inc :: "nat \<Rightarrow> nat" where
  "saturating_inc n = (if int n < 18446744073709551615 then n + 1 else n)"

fun read_lines :: "dialect_config \<Rightarrow> (nat \<Rightarrow> int) \<Rightarrow> line_item list \<Rightarrow> nat \<Rightarrow> reader_state \<Rightarrow> read_result \<times> csv_reader" where
  "read_lines d limit [] n st =
     (if in_quotes st then
        if strict d then (CsvFailure ''unexpected end of data'', \<lparr>iter = [], line_num = n\<rparr>)
        else (Row (row_fields st @ [field st]), \<lparr>iter = [], line_num = n\<rparr>)
      else (EndOfData, \<lparr>iter = [], line_num = n\<rparr>))"
| "read_lines d limit (LineRaises # items) n st =
     (CsvFailure ''iteration raised an exception'', \<lparr>iter = items, line_num = n\<rparr>)"
| "read_lines d limit (LineOther t # items) n st =
     (CsvFailure (''iterator should return strings, not '' @ t), \<lparr>iter = items, line_num = n\<rparr>)"
| "read_lines d limit (LineText line # items) n st =
     (let n = saturating_inc n; reader = \<lparr>iter = items, line_num = n\<rparr>
      in if line = [] \<and> \<not> in_quotes st \<and> row_fields st = [] \<and> field st = [] \<and> at_field_start st then (Row [], reader)
         else
           (case read_chars d limit line (st\<lparr>escaped_line_break := False\<rparr>) of
              LineError message \<Rightarrow> (CsvFailure message, reader)
            | LineRecord row \<Rightarrow> (Row row, reader)
            | LineMore st \<Rightarrow>
                if escaped_line_break st then read_lines d limit items n st
                else if \<not> in_quotes st then
                  if \<not> record_has_data st \<and> row_fields st = [] \<and> field st = [] then (Row [], reader)
                  else (Row (row_fields st @ [field st]), reader)
                else read_lines d limit items n st))"

definition read_record :: "dialect_config \<Rightarrow> (nat \<Rightarrow> int) \<Rightarrow> csv_reader \<Rightarrow> read_result \<times> csv_reader" where
  "read_record d limit r = read_lines d limit (iter r) (line_num r) reader_start"

lemma read_lines_consumes: "length (iter (snd (read_lines d limit items n st))) \<le> length items - 1"
proof (induction items arbitrary: n st)
  case (Cons item items)
  have "length (iter (snd (read_lines d limit items n st))) \<le> length items" for n st
    using Cons.IH [of n st] by linarith
  then show ?case by (cases item) (auto simp: Let_def split: line_end.split)
qed simp

text \<open>The rows that iteration over a reader gives until it stops or fails; \<open>limits i\<close> is the limit during record \<open>i\<close>.\<close>

function read_all :: "dialect_config \<Rightarrow> (nat \<Rightarrow> nat \<Rightarrow> int) \<Rightarrow> nat \<Rightarrow> csv_reader \<Rightarrow> string list list \<times> read_result" where
  "read_all d limits i r =
     (case read_record d (limits i) r of
        (Row row, r') \<Rightarrow> (case read_all d limits (Suc i) r' of (rows, e) \<Rightarrow> (row # rows, e))
      | (e, r') \<Rightarrow> ([], e))"
  by pat_completeness auto
termination
proof (relation "measure (\<lambda>(_, _, _, r). length (iter r))", goal_cases)
  case (2 d limits i r x r' row)
  then have "iter r \<noteq> []" by (auto simp: read_record_def reader_start_def)
  moreover from 2(1) have "r' = snd (read_lines d (limits i) (iter r) (line_num r) reader_start)"
    by (metis read_record_def snd_conv)
  ultimately show ?case
    using read_lines_consumes [of d "limits i" "iter r" "line_num r" reader_start] by (cases "iter r") simp_all
qed simp

section \<open>Field size\<close>

text \<open>A field that passed the limit when its last character was kept.\<close>

definition within :: "(nat \<Rightarrow> int) \<Rightarrow> string \<Rightarrow> bool" where
  "within limit f \<longleftrightarrow> f = [] \<or> (\<exists>k. int (length f) \<le> limit k)"

definition bounded_state :: "(nat \<Rightarrow> int) \<Rightarrow> reader_state \<Rightarrow> bool" where
  "bounded_state limit st \<longleftrightarrow>
     (\<forall>f \<in> set (row_fields st). within limit f) \<and> field_len st = int (length (field st)) \<and> within limit (field st)"

lemmas reader_simps = read_char_def push_reader_char_def end_field_def

lemma within_snoc: "\<not> limit k \<le> int (length f) \<Longrightarrow> within limit (f @ [c])"
  by (auto simp: within_def intro: exI [of _ k])

lemma within_Nil [simp]: "within limit []"
  by (simp add: within_def)

lemma read_char_bounded:
  assumes "bounded_state limit st"
  shows "read_char d limit c next st = Consumed st' \<Longrightarrow> bounded_state limit st'"
    and "read_char d limit c next st = ConsumedTwo st' \<Longrightarrow> bounded_state limit st'"
    and "read_char d limit c next st = Returned row \<Longrightarrow> f \<in> set row \<Longrightarrow> within limit f"
  using assms by (auto simp: reader_simps bounded_state_def intro: within_snoc split: if_splits)

lemma read_chars_bounded:
  assumes "bounded_state limit st"
  shows "(read_chars d limit cs st = LineMore st' \<longrightarrow> bounded_state limit st') \<and>
    (read_chars d limit cs st = LineRecord row \<longrightarrow> f \<in> set row \<longrightarrow> within limit f)"
  using assms
proof (induction d limit cs st rule: read_chars.induct)
  case (2 d limit c cs st)
  note step = read_char_bounded [OF 2(3), of d c "case cs of [] \<Rightarrow> None | c' # _ \<Rightarrow> Some c'"]
  show ?case
    using 2(1, 2) step
    by (cases "read_char d limit c (case cs of [] \<Rightarrow> None | c' # _ \<Rightarrow> Some c') st") auto
qed auto

lemma bounded_flag [simp]: "bounded_state limit (st\<lparr>escaped_line_break := b\<rparr>) = bounded_state limit st"
  by (simp add: bounded_state_def)

lemma read_lines_bounded:
  "bounded_state limit st \<Longrightarrow> fst (read_lines d limit items n st) = Row row \<Longrightarrow> f \<in> set row \<Longrightarrow> within limit f"
proof (induction items arbitrary: n st)
  case Nil
  then show ?case by (auto simp: bounded_state_def split: if_splits)
next
  case (Cons item items)
  show ?case
  proof (cases item)
    case (LineText line)
    have "bounded_state limit (st\<lparr>escaped_line_break := False\<rparr>)" using Cons.prems(1) by simp
    note line_bounded = read_chars_bounded [OF this, of d line]
    show ?thesis
    proof (cases "read_chars d limit line (st\<lparr>escaped_line_break := False\<rparr>)")
      case (LineMore st')
      with line_bounded have "bounded_state limit st'" by blast
      moreover from LineMore LineText Cons.prems(2)
      have "fst (read_lines d limit items (saturating_inc n) st') = Row row \<or>
          set row \<subseteq> insert (field st') (set (row_fields st'))"
        by (auto simp: Let_def split: if_splits)
      ultimately show ?thesis using Cons.IH [of st'] Cons.prems(3) by (auto simp: bounded_state_def [of limit st'])
    next
      case (LineRecord row')
      with LineText Cons.prems line_bounded show ?thesis by (auto simp: Let_def split: if_splits)
    qed (use LineText Cons.prems in \<open>auto simp: Let_def split: if_splits\<close>)
  qed (use Cons.prems in auto)
qed

text \<open>A higher limit reads the same, unless the lower one fails.\<close>

abbreviation too_large :: string where "too_large \<equiv> ''field larger than field limit''"

lemma read_char_limits:
  assumes "\<forall>k. limit k \<le> limit' k"
  shows "read_char d limit c next st = Failed too_large \<or> read_char d limit c next st = read_char d limit' c next st"
  using assms [rule_format, of "limit_loads st"]
  by (cases "escaped st"; cases "escapechar d = Some c"; cases "in_quotes st"; cases "after_quote st"; cases "c = delimiter d";
      cases "is_break c"; auto simp: reader_simps)

lemma read_chars_limits:
  assumes "\<forall>k. limit k \<le> limit' k"
  shows "read_chars d limit cs st = LineError too_large \<or> read_chars d limit cs st = read_chars d limit' cs st"
  using assms
proof (induction d limit cs st rule: read_chars.induct)
  case (2 d limit c cs st)
  from read_char_limits [OF 2(3), of d c "case cs of [] \<Rightarrow> None | c' # _ \<Rightarrow> Some c'" st] show ?case
  proof
    assume same: "read_char d limit c (case cs of [] \<Rightarrow> None | c' # _ \<Rightarrow> Some c') st
      = read_char d limit' c (case cs of [] \<Rightarrow> None | c' # _ \<Rightarrow> Some c') st"
    show ?thesis using 2 unfolding read_chars.simps same
      by (cases "read_char d limit' c (case cs of [] \<Rightarrow> None | c' # _ \<Rightarrow> Some c') st") (simp_all add: same)
  qed simp
qed simp

lemma read_lines_limits:
  assumes "\<forall>k. limit k \<le> limit' k"
  shows "fst (read_lines d limit items n st) = CsvFailure too_large \<or> read_lines d limit items n st = read_lines d limit' items n st"
proof (induction items arbitrary: n st)
  case (Cons item items)
  show ?case
  proof (cases item)
    case (LineText line)
    from read_chars_limits [OF assms, of d line "st\<lparr>escaped_line_break := False\<rparr>"] show ?thesis
    proof
      assume same: "read_chars d limit line (st\<lparr>escaped_line_break := False\<rparr>) = read_chars d limit' line (st\<lparr>escaped_line_break := False\<rparr>)"
      show ?thesis
        using Cons.IH [of "saturating_inc n"]
        by (cases "read_chars d limit' line (st\<lparr>escaped_line_break := False\<rparr>)") (auto simp: LineText Let_def same)
    qed (auto simp: LineText Let_def)
  qed simp_all
qed simp



section \<open>Round trip\<close>

text \<open>
  The dialects for which writing and reading agree: their characters differ from each other and from line breaks, the line
  terminator starts with a line break, and initial spaces are not skipped.
\<close>

definition csv_sane :: "dialect_config \<Rightarrow> bool" where
  "csv_sane d \<longleftrightarrow>
     dialect_valid d \<and> \<not> skipinitialspace d \<and> \<not> is_break (delimiter d) \<and>
     (case quotechar d of None \<Rightarrow> True | Some q \<Rightarrow> \<not> is_break q \<and> q \<noteq> delimiter d) \<and>
     (case escapechar d of None \<Rightarrow> True | Some e \<Rightarrow> \<not> is_break e \<and> e \<noteq> delimiter d \<and> quotechar d \<noteq> Some e) \<and>
     (case lineterminator d of [] \<Rightarrow> False | c # _ \<Rightarrow> is_break c)"

definition read_text :: "string \<Rightarrow> bool \<Rightarrow> reader_state \<Rightarrow> reader_state" where
  "read_text text b st =
     st\<lparr>field := field st @ text, field_len := field_len st + int (length text),
        at_field_start := at_field_start st \<and> text = [], record_has_data := record_has_data st \<or> text \<noteq> [],
        escaped_line_break := b, limit_loads := limit_loads st + length text\<rparr>"

lemma read_text_sel [simp]:
  "in_quotes (read_text t b st) = in_quotes st" "after_quote (read_text t b st) = after_quote st"
  "escaped (read_text t b st) = escaped st" "row_fields (read_text t b st) = row_fields st"
  "field (read_text t b st) = field st @ t" "field_len (read_text t b st) = field_len st + int (length t)"
  "at_field_start (read_text t b st) = (at_field_start st \<and> t = [])"
  "record_has_data (read_text t b st) = (record_has_data st \<or> t \<noteq> [])"
  by (simp_all add: read_text_def)

lemma read_text_Nil [simp]: "read_text [] (escaped_line_break st) st = st"
  by (simp add: read_text_def)

lemma read_text_append [simp]: "read_text u b' (read_text t b st) = read_text (t @ u) b' st"
  by (simp add: read_text_def)

lemma piece_unquoted:
  assumes "csv_sane d" "field_char d c = Inr (p, False)" "quoting d = QUOTE_NONE \<or> quoting d = QUOTE_MINIMAL"
    "\<not> in_quotes st" "\<not> after_quote st" "\<not> escaped st" "\<forall>k. field_len st < limit k"
  shows "\<exists>b. read_chars d limit (p @ rest) st = read_chars d limit rest (read_text [c] b st)"
  using assms(1-6) assms(7) [rule_format, of "limit_loads st"]
  by (cases st)
    (auto simp: field_char_def Let_def reader_simps csv_sane_def quotes_enabled_def read_text_def
       split: if_splits option.splits)

lemma piece_quoted:
  assumes "csv_sane d" "field_char d c = Inr (p, q)" "quoting d \<noteq> QUOTE_NONE"
    "in_quotes st" "\<not> at_field_start st" "\<not> escaped st" "\<forall>k. field_len st < limit k"
  shows "\<exists>b. read_chars d limit (p @ rest) st = read_chars d limit rest (read_text [c] b st)"
  using assms(1-6) assms(7) [rule_format, of "limit_loads st"]
  by (cases st)
    (auto simp: field_char_def Let_def reader_simps csv_sane_def quotes_enabled_def read_text_def
       split: if_splits option.splits)

lemma limit_room: "\<forall>k. a + int (length (c # t)) \<le> limit k \<Longrightarrow> \<forall>k. a < limit k"
proof
  fix k assume "\<forall>k. a + int (length (c # t)) \<le> limit k"
  from spec [OF this, of k] show "a < limit k" by simp
qed

lemma field_char_unquoted: "field_body d t q = Inr (body, False) \<Longrightarrow> \<not> q"
  by (induction t arbitrary: q body) (fastforce simp: bind_ok_Inr_iff)+

lemma body_unquoted:
  assumes "csv_sane d" "field_body d t False = Inr (body, False)" "quoting d = QUOTE_NONE \<or> quoting d = QUOTE_MINIMAL"
    "\<not> in_quotes st" "\<not> after_quote st" "\<not> escaped st" "\<forall>k. field_len st + int (length t) \<le> limit k"
  shows "\<exists>b. read_chars d limit (body @ rest) st = read_chars d limit rest (read_text t b st)"
  using assms(2, 4-)
proof (induction t arbitrary: body st)
  case Nil
  then show ?case by (auto intro: exI [of _ "escaped_line_break st"])
next
  case (Cons c t)
  from Cons.prems(1) obtain p q1 body' where
    pieces: "field_char d c = Inr (p, q1)" "field_body d t q1 = Inr (body', False)" "body = p @ body'"
    by (auto simp: bind_ok_Inr_iff)
  with field_char_unquoted have "q1 = False" by blast
  with pieces have split: "field_char d c = Inr (p, False)" "field_body d t False = Inr (body', False)" "body = p @ body'"
    by simp_all
  obtain b where "read_chars d limit (body @ rest) st = read_chars d limit (body' @ rest) (read_text [c] b st)"
    using piece_unquoted [OF assms(1) split(1) assms(3), of st limit "body' @ rest"] limit_room [OF Cons.prems(5)] Cons.prems split(3) by auto
  moreover obtain b' where
    "read_chars d limit (body' @ rest) (read_text [c] b st) = read_chars d limit rest (read_text t b' (read_text [c] b st))"
    using Cons.IH [OF split(2), of "read_text [c] b st"] Cons.prems by (auto simp: add.assoc)
  ultimately show ?case by auto
qed

lemma body_quoted:
  assumes "csv_sane d" "field_body d t q = Inr (body, q')" "quoting d \<noteq> QUOTE_NONE"
    "in_quotes st" "\<not> at_field_start st" "\<not> escaped st" "\<forall>k. field_len st + int (length t) \<le> limit k"
  shows "\<exists>b. read_chars d limit (body @ rest) st = read_chars d limit rest (read_text t b st)"
  using assms(2, 4-)
proof (induction t arbitrary: q body st)
  case Nil
  then show ?case by (auto intro: exI [of _ "escaped_line_break st"])
next
  case (Cons c t)
  from Cons.prems(1) obtain p q1 body' where
    split: "field_char d c = Inr (p, q1)" "field_body d t (q \<or> q1) = Inr (body', q')" "body = p @ body'"
    by (auto simp: bind_ok_Inr_iff)
  obtain b where "read_chars d limit (body @ rest) st = read_chars d limit (body' @ rest) (read_text [c] b st)"
    using piece_quoted [OF assms(1) split(1) assms(3), of st limit "body' @ rest"] limit_room [OF Cons.prems(5)] Cons.prems split(3) by auto
  moreover obtain b' where
    "read_chars d limit (body' @ rest) (read_text [c] b st) = read_chars d limit rest (read_text t b' (read_text [c] b st))"
    using Cons.IH [OF split(2), of "read_text [c] b st"] Cons.prems by (auto simp: add.assoc)
  ultimately show ?case by auto
qed

text \<open>A field between its delimiters: the state after it, from the state at its start.\<close>

definition field_ready :: "reader_state \<Rightarrow> bool" where
  "field_ready st \<longleftrightarrow>
     field st = [] \<and> field_len st = 0 \<and> \<not> in_quotes st \<and> \<not> after_quote st \<and> at_field_start st \<and> \<not> escaped st"

definition field_read :: "reader_state \<Rightarrow> string \<Rightarrow> bool \<Rightarrow> reader_state \<Rightarrow> bool" where
  "field_read st t shown st' \<longleftrightarrow>
     row_fields st' = row_fields st \<and> field st' = t \<and> \<not> in_quotes st' \<and> \<not> escaped st' \<and>
     record_has_data st' = (record_has_data st \<or> shown)"

definition no_quote_next :: "dialect_config \<Rightarrow> string \<Rightarrow> bool" where
  "no_quote_next d rest \<longleftrightarrow> (case rest of [] \<Rightarrow> True | c # _ \<Rightarrow> quotechar d \<noteq> Some c)"

lemma field_body_empty: "field_body d t q = Inr (body, q') \<Longrightarrow> body = [] \<longleftrightarrow> t = []"
  by (cases t) (auto simp: bind_ok_Inr_iff field_char_def Let_def split: if_splits option.splits)

lemma field_body_none: "quoting d = QUOTE_NONE \<Longrightarrow> field_body d t q = Inr (body, q') \<Longrightarrow> q' = q"
  by (induction t arbitrary: q body) (auto simp: bind_ok_Inr_iff field_char_def Let_def split: if_splits option.splits)

lemma string_quoted: "dialect_valid d \<Longrightarrow> initially_quoted d (FieldStr t) \<longleftrightarrow> \<not> (quoting d = QUOTE_NONE \<or> quoting d = QUOTE_MINIMAL)"
  by (auto simp: initially_quoted_def dialect_valid_def is_number_def is_string_def quote_modes)

lemma append_field_cases:
  assumes "append_field out d (FieldStr t) row_len = Inr out'" "dialect_valid d"
  obtains (plain) body where "field_body d t False = Inr (body, False)" "out' = out @ body"
      "quoting d = QUOTE_NONE \<or> quoting d = QUOTE_MINIMAL" "t = [] \<Longrightarrow> row_len \<noteq> 1"
    | (quoted) body q0 q where "field_body d t q0 = Inr (body, True)" "out' = out @ [q] @ body @ [q]" "quotechar d = Some q"
      "quoting d \<noteq> QUOTE_NONE"
proof -
  define q0 where "q0 = initially_quoted d (FieldStr t)"
  have "\<not> (t = [] \<and> row_len = 1 \<and> \<not> q0)"
    using assms(1) by (auto simp: append_field_def field_text_def Let_def q0_def split: if_splits)
  moreover from this obtain body quoted where
    "field_body d t q0 = Inr (body, quoted)"
    "(if quoted then (case quotechar d of None \<Rightarrow> Inl ''quotechar must be set if quoting enabled''
       | Some q \<Rightarrow> Inr (out @ [q] @ body @ [q])) else Inr (out @ body)) = Inr out'"
    using assms(1) by (cases q0) (auto simp: append_field_def field_text_def Let_def bind_ok_Inr_iff q0_def [symmetric] split: if_splits)
  ultimately show thesis
    using plain [of body] quoted [of q0 body] string_quoted [OF assms(2), of t] field_char_unquoted [of d t q0 body]
      field_body_none [of d t q0 body]
    by (auto simp: q0_def [symmetric] quote_modes split: if_splits option.splits)
qed

lemma field_written_read:
  assumes "csv_sane d" "append_field out d (FieldStr t) row_len = Inr out'" "field_ready st" "\<forall>k. int (length t) \<le> limit k"
    "no_quote_next d rest"
  shows "\<exists>w st'. out' = out @ w \<and> read_chars d limit (w @ rest) st = read_chars d limit rest st' \<and>
    field_read st t (w \<noteq> []) st' \<and> (row_len = 1 \<longrightarrow> w \<noteq> [])"
proof (rule append_field_cases [OF assms(2)])
  show "dialect_valid d" using assms(1) by (simp add: csv_sane_def)
next
  fix body assume plain: "field_body d t False = Inr (body, False)" "out' = out @ body"
    "quoting d = QUOTE_NONE \<or> quoting d = QUOTE_MINIMAL" "t = [] \<Longrightarrow> row_len \<noteq> 1"
  obtain b where "read_chars d limit (body @ rest) st = read_chars d limit rest (read_text t b st)"
    using body_unquoted [OF assms(1) plain(1, 3), of st limit rest] assms(3, 4) by (auto simp: field_ready_def)
  with field_body_empty [OF plain(1)] show ?thesis using assms(3) plain(2, 4)
    by (intro exI [of _ body] exI [of _ "read_text t b st"]) (auto simp: field_read_def field_ready_def)
next
  fix body q0 q assume quoted: "field_body d t q0 = Inr (body, True)" "out' = out @ [q] @ body @ [q]" "quotechar d = Some q"
    "quoting d \<noteq> QUOTE_NONE"
  define opened where "opened = st\<lparr>in_quotes := True, at_field_start := False, record_has_data := True\<rparr>"
  have "read_chars d limit ([q] @ body @ [q] @ rest) st = read_chars d limit (body @ [q] @ rest) opened"
    using assms(1, 3) quoted(3, 4)
    by (auto simp: field_ready_def opened_def reader_simps csv_sane_def quotes_enabled_def split: option.splits)
  moreover obtain b where "read_chars d limit (body @ [q] @ rest) opened = read_chars d limit ([q] @ rest) (read_text t b opened)"
    using body_quoted [OF assms(1) quoted(1, 4), of "opened" limit "[q] @ rest"] assms(3, 4)
    by (auto simp: field_ready_def opened_def)
  moreover have "read_chars d limit ([q] @ rest) (read_text t b opened)
      = read_chars d limit rest ((read_text t b opened)\<lparr>record_has_data := True, in_quotes := False, after_quote := True\<rparr>)"
    using assms(1, 3, 5) quoted(3)
    by (cases rest) (auto simp: no_quote_next_def field_ready_def opened_def reader_simps csv_sane_def split: option.splits)
  ultimately show ?thesis using assms(3) quoted(2)
    by (intro exI [of _ "[q] @ body @ [q]"]
          exI [of _ "(read_text t b opened)\<lparr>record_has_data := True, in_quotes := False, after_quote := True\<rparr>"])
       (auto simp: field_read_def field_ready_def opened_def)
qed

lemma delimiter_read:
  assumes "csv_sane d" "\<not> in_quotes st" "\<not> escaped st"
  shows "read_chars d limit (delimiter d # rest) st = read_chars d limit rest (end_field st)"
  using assms by (cases st) (auto simp: reader_simps csv_sane_def split: option.splits)

lemma append_field_prefix: "append_field out d v n = Inr out' \<Longrightarrow> \<exists>w. out' = out @ w"
  by (auto simp: append_field_def Let_def bind_ok_Inr_iff split: if_splits option.splits)

lemma append_fields_prefix: "append_fields out d n i vs = Inr out' \<Longrightarrow> \<exists>w. out' = out @ w"
  by (induction vs arbitrary: out i) (fastforce simp: bind_ok_Inr_iff dest: append_field_prefix split: if_splits)+

lemma delimiter_not_quote: "csv_sane d \<Longrightarrow> no_quote_next d (delimiter d # cs)"
  by (auto simp: no_quote_next_def csv_sane_def)

lemma later_fields_no_quote:
  assumes "csv_sane d" "append_fields out d n (Suc i) vs = Inr (out @ w)" "no_quote_next d rest"
  shows "no_quote_next d (w @ rest)"
proof (cases vs)
  case (Cons v vs')
  with assms(2) obtain out1 where
    "append_field (out @ [delimiter d]) d v n = Inr out1" "append_fields out1 d n (Suc (Suc i)) vs' = Inr (out @ w)"
    by (auto simp: bind_ok_Inr_iff)
  then obtain w1 w2 where "out @ w = (out @ [delimiter d] @ w1) @ w2"
    by (metis append_field_prefix append_fields_prefix append_assoc)
  then show ?thesis using delimiter_not_quote [OF assms(1)] by auto
qed (use assms(2, 3) in auto)

lemma later_fields_read:
  assumes "csv_sane d" "append_fields out d n (Suc i) (map FieldStr row) = Inr out'" "\<not> in_quotes st" "\<not> escaped st"
    "\<forall>f \<in> set row. \<forall>k. int (length f) \<le> limit k" "no_quote_next d rest"
  shows "\<exists>w st'. out' = out @ w \<and> read_chars d limit (w @ rest) st = read_chars d limit rest st' \<and>
    \<not> in_quotes st' \<and> \<not> escaped st' \<and> row_fields st' @ [field st'] = row_fields st @ [field st] @ row \<and>
    (record_has_data st' \<longleftrightarrow> record_has_data st \<or> row \<noteq> [])"
  using assms(2-5)
proof (induction row arbitrary: out i st)
  case Nil
  then show ?case by (intro exI [of _ "[]"] exI [of _ st]) auto
next
  case (Cons x row)
  from Cons.prems(1) obtain out1 where
    split: "append_field (out @ [delimiter d]) d (FieldStr x) n = Inr out1"
    "append_fields out1 d n (Suc (Suc i)) (map FieldStr row) = Inr out'"
    by (auto simp: bind_ok_Inr_iff)
  then obtain w2 where w2: "out' = out1 @ w2" using append_fields_prefix by blast
  have ready: "field_ready (end_field st)" using Cons.prems(2, 3) by (simp add: field_ready_def end_field_def)
  obtain w1 st1 where first: "out1 = (out @ [delimiter d]) @ w1"
    "read_chars d limit (w1 @ w2 @ rest) (end_field st) = read_chars d limit (w2 @ rest) st1" "field_read (end_field st) x (w1 \<noteq> []) st1"
    using field_written_read [OF assms(1) split(1) ready, of limit "w2 @ rest"]
      later_fields_no_quote [OF assms(1) split(2) [unfolded w2] assms(6)] Cons.prems(4) by auto
  then have "\<not> in_quotes st1" "\<not> escaped st1" by (simp_all add: field_read_def)
  then obtain st2 where second: "read_chars d limit (w2 @ rest) st1 = read_chars d limit rest st2"
    "\<not> in_quotes st2" "\<not> escaped st2" "row_fields st2 @ [field st2] = row_fields st1 @ [field st1] @ row"
    "record_has_data st2 \<longleftrightarrow> record_has_data st1 \<or> row \<noteq> []"
    using Cons.IH [OF split(2), of st1] Cons.prems(4) w2 by auto
  have "read_chars d limit (delimiter d # w1 @ w2 @ rest) st = read_chars d limit (w1 @ w2 @ rest) (end_field st)"
    by (rule delimiter_read [OF assms(1) Cons.prems(2, 3)])
  with first second w2 show ?case
    by (intro exI [of _ "delimiter d # w1 @ w2"] exI [of _ st2])
       (auto simp: field_read_def end_field_def simp del: read_chars.simps)
qed

text \<open>The state in which a whole row has been read, up to its line terminator.\<close>

definition row_ready :: "string list \<Rightarrow> reader_state \<Rightarrow> bool" where
  "row_ready row st \<longleftrightarrow>
     \<not> in_quotes st \<and> \<not> escaped st \<and>
     (if row = [] then \<not> after_quote st \<and> \<not> record_has_data st \<and> row_fields st = [] \<and> field st = []
      else record_has_data st \<and> row = row_fields st @ [field st])"

lemma row_read:
  assumes "csv_sane d" "append_fields [] d (length row) 0 (map FieldStr row) = Inr body"
    "\<forall>f \<in> set row. \<forall>k. int (length f) \<le> limit k"
  shows "\<exists>st. read_chars d limit body reader_start = LineMore st \<and> row_ready row st"
proof (cases row)
  case Nil
  then show ?thesis using assms(2) by (auto simp: row_ready_def reader_start_def)
next
  case (Cons x xs)
  with assms(2) obtain out1 where
    split: "append_field [] d (FieldStr x) (length row) = Inr out1"
    "append_fields out1 d (length row) (Suc 0) (map FieldStr xs) = Inr body"
    by (auto simp: bind_ok_Inr_iff)
  then obtain w2 where w2: "body = out1 @ w2" using append_fields_prefix by blast
  have ready: "field_ready reader_start" and nil: "no_quote_next d []"
    by (simp_all add: field_ready_def reader_start_def no_quote_next_def)
  obtain st1 where first: "read_chars d limit (out1 @ w2) reader_start = read_chars d limit w2 st1"
    "field_read reader_start x (out1 \<noteq> []) st1" "length row = 1 \<longrightarrow> out1 \<noteq> []"
    using field_written_read [OF assms(1) split(1) ready, of limit w2] later_fields_no_quote [OF assms(1) split(2) [unfolded w2] nil]
      assms(3) Cons by auto
  then have "\<not> in_quotes st1" "\<not> escaped st1" by (simp_all add: field_read_def)
  then obtain st2 where "read_chars d limit w2 st1 = LineMore st2"
    "\<not> in_quotes st2" "\<not> escaped st2" "row_fields st2 @ [field st2] = row_fields st1 @ [field st1] @ xs"
    "record_has_data st2 \<longleftrightarrow> record_has_data st1 \<or> xs \<noteq> []"
    using later_fields_read [OF assms(1) split(2), of st1 limit "[]"] assms(3) w2 nil Cons by auto
  with first w2 Cons show ?thesis by (auto simp: row_ready_def field_read_def reader_start_def)
qed

subsection \<open>Lines\<close>

lemma read_chars_append:
  assumes "l = [] \<or> quotechar d \<noteq> Some (last l) \<or> no_quote_next d rest"
  shows "read_chars d limit (l @ rest) st
    = (case read_chars d limit l st of LineMore st' \<Rightarrow> read_chars d limit rest st' | outcome \<Rightarrow> outcome)"
  using assms
proof (induction d limit l st rule: read_chars.induct)
  case (2 d limit c cs st)
  show ?case
  proof (cases "cs = []")
    case True
    with "2.prems" have "read_char d limit c (case rest of [] \<Rightarrow> None | c' # _ \<Rightarrow> Some c') st = read_char d limit c None st"
      by (cases rest) (auto simp: read_char_def no_quote_next_def)
    moreover have "read_char d limit c None st \<noteq> ConsumedTwo st'" for st'
      by (auto simp: reader_simps)
    ultimately show ?thesis using True by (auto split: reader_step.split)
  next
    case False
    then obtain c' cs' where cs: "cs = c' # cs'" by (cases cs) auto
    with "2.prems" have "cs' = [] \<or> quotechar d \<noteq> Some (last cs') \<or> no_quote_next d rest" by (auto split: if_splits)
    with cs 2 show ?thesis by (auto split: reader_step.split)
  qed
qed simp

lemma read_char_flag:
  "read_char d limit c next (st\<lparr>escaped_line_break := b\<rparr>)
    = (let flag = (b \<or> escaped st \<and> is_break c)
       in case read_char d limit c next st of
            Consumed st' \<Rightarrow> Consumed (st'\<lparr>escaped_line_break := flag\<rparr>)
          | ConsumedTwo st' \<Rightarrow> ConsumedTwo (st'\<lparr>escaped_line_break := flag\<rparr>)
          | outcome \<Rightarrow> outcome)"
  by (cases st; cases "escaped st"; cases "escapechar d = Some c"; cases "in_quotes st"; cases "after_quote st";
      cases "c = delimiter d"; cases "is_break c"; auto simp: reader_simps)

lemma read_chars_flag:
  "\<exists>f. read_chars d limit cs (st\<lparr>escaped_line_break := b\<rparr>)
    = (case read_chars d limit cs st of LineMore st' \<Rightarrow> LineMore (st'\<lparr>escaped_line_break := f\<rparr>) | outcome \<Rightarrow> outcome)"
proof (induction d limit cs st arbitrary: b rule: read_chars.induct)
  case (2 d limit c cs st)
  show ?case
    using 2 read_char_flag [of d limit c "case cs of [] \<Rightarrow> None | c' # _ \<Rightarrow> Some c'" b st]
    by (cases "read_char d limit c (case cs of [] \<Rightarrow> None | c' # _ \<Rightarrow> Some c') st") (simp_all add: Let_def)
qed auto

lemma pending_after_break:
  assumes "csv_sane d" "read_chars d limit l st = LineMore st'" "l \<noteq> []" "is_break (last l)"
  shows "escaped_line_break st' \<or> in_quotes st'"
  using assms
proof (induction d limit l st rule: read_chars.induct)
  case (2 d limit c cs st)
  show ?case
  proof (cases "cs = []")
    case True
    with "2.prems" show ?thesis
      by (auto simp: reader_simps csv_sane_def split: if_splits option.splits reader_step.splits)
  next
    case False
    then obtain c' cs' where cs: "cs = c' # cs'" by (cases cs) auto
    have "quotechar d = Some c'" if "read_char d limit c (Some c') st = ConsumedTwo st1" for st1
      using that by (auto simp: reader_simps split: if_splits)
    with cs 2 show ?thesis
      by (cases "cs' = []") (auto simp: csv_sane_def split: reader_step.splits option.splits)
  qed
qed simp

lemma terminator_read:
  assumes "csv_sane d" "row_ready row st"
  shows "read_chars d limit (lineterminator d) st = LineRecord row"
  using assms
  by (cases "lineterminator d") (auto simp: row_ready_def csv_sane_def reader_simps split: if_splits option.splits)

definition record_lines :: "dialect_config \<Rightarrow> string \<Rightarrow> string list \<Rightarrow> bool" where
  "record_lines d written lines \<longleftrightarrow>
     concat lines = written \<and> lines \<noteq> [] \<and> (\<forall>l \<in> set (butlast lines). l \<noteq> [] \<and> is_break (last l)) \<and>
     length (lineterminator d) \<le> length (last lines)"

lemma row_ready_flag [simp]: "row_ready row (st\<lparr>escaped_line_break := b\<rparr>) = row_ready row st"
  by (simp add: row_ready_def)

lemma read_record_lines:
  assumes "csv_sane d" "record_lines d (body @ lineterminator d) lines" "read_chars d limit body st = LineMore st'"
    "row_ready row st'"
  shows "\<exists>n'. read_lines d limit (map LineText lines @ items) n st = (Row row, \<lparr>iter = items, line_num = n'\<rparr>)"
  using assms(2-4)
proof (induction lines arbitrary: body st st' n)
  case Nil
  then show ?case by (simp add: record_lines_def)
next
  case (Cons l lines)
  obtain t0 ts where lt: "lineterminator d = t0 # ts" "is_break t0"
    using assms(1) by (auto simp: csv_sane_def split: list.splits)
  have noq: "no_quote_next d (lineterminator d)" using assms(1) lt by (auto simp: no_quote_next_def csv_sane_def)
  obtain f where flagged: "read_chars d limit body (st\<lparr>escaped_line_break := False\<rparr>) = LineMore (st'\<lparr>escaped_line_break := f\<rparr>)"
    using read_chars_flag [of d limit body False st] Cons.prems(2) by auto
  show ?case
  proof (cases "lines = []")
    case True
    with Cons.prems(1) have l: "l = body @ lineterminator d" by (simp add: record_lines_def)
    have "read_chars d limit l (st\<lparr>escaped_line_break := False\<rparr>) = LineRecord row"
      using flagged noq Cons.prems(3) terminator_read [OF assms(1), of row "st'\<lparr>escaped_line_break := f\<rparr>"]
      by (simp add: l read_chars_append)
    moreover have "l \<noteq> []" using l lt by simp
    ultimately show ?thesis using True by (simp add: Let_def)
  next
    case False
    from Cons.prems(1) have joined: "l @ concat lines = body @ lineterminator d" by (simp add: record_lines_def)
    have "length (last lines) \<le> length (concat lines)"
      by (metis False append_butlast_last_id concat.simps concat_append append_Nil2 length_append le_add2)
    with False Cons.prems(1) have "length (lineterminator d) \<le> length (concat lines)" by (simp add: record_lines_def)
    with arg_cong [OF joined, of length] have "length l \<le> length body" by simp
    with joined obtain body' where body: "body = l @ body'" "concat lines = body' @ lineterminator d"
      by (metis append_eq_append_conv_if append_take_drop_id)
    from False Cons.prems(1) have l: "l \<noteq> []" "is_break (last l)" by (auto simp: record_lines_def)
    then have "quotechar d \<noteq> Some (last l)" using assms(1) by (auto simp: csv_sane_def)
    then obtain st1 where st1: "read_chars d limit l (st\<lparr>escaped_line_break := False\<rparr>) = LineMore st1"
      "read_chars d limit body' st1 = LineMore (st'\<lparr>escaped_line_break := f\<rparr>)"
      using flagged by (auto simp: body(1) read_chars_append split: line_end.splits)
    from pending_after_break [OF assms(1) st1(1) l] have "escaped_line_break st1 \<or> in_quotes st1" .
    moreover from False Cons.prems(1) body(2) have "record_lines d (body' @ lineterminator d) lines"
      by (auto simp: record_lines_def)
    ultimately show ?thesis
      using Cons.IH [OF _ st1(2), of "saturating_inc n"] Cons.prems(3) st1(1) l(1) by (auto simp: Let_def)
  qed
qed

text \<open>A file as the list of the texts written to it.\<close>

definition write_chunk :: "string \<Rightarrow> string list \<Rightarrow> bool \<times> string list" where
  "write_chunk written chunks = (True, chunks @ [written])"

lemma writerows_chunks:
  assumes "writerows write_chunk d (map (\<lambda>row. RowFields (map FieldStr row)) rows) chunks0 = (Inr (), chunks)"
  shows "\<exists>new. chunks = chunks0 @ new \<and> list_all2 (\<lambda>row written. render_record d (map FieldStr row) = Inr written) rows new"
  using assms
proof (induction rows arbitrary: chunks0)
  case (Cons row rows)
  then obtain written where
    "render_record d (map FieldStr row) = Inr written"
    "writerows write_chunk d (map (\<lambda>row. RowFields (map FieldStr row)) rows) (chunks0 @ [written]) = (Inr (), chunks)"
    by (auto simp: writerow_def write_chunk_def [of _ chunks0] split: sum.splits)
  with Cons.IH show ?case by (fastforce intro: exI [of _ "written # _"])
qed simp

declare read_all.simps [simp del]

lemma rows_read:
  assumes "csv_sane d" "\<forall>row \<in> set rows. \<forall>f \<in> set row. \<forall>i k. int (length f) \<le> limits i k"
    "list_all2 (\<lambda>row written. render_record d (map FieldStr row) = Inr written) rows chunks"
    "list_all2 (record_lines d) chunks groups"
  shows "read_all d limits i \<lparr>iter = map LineText (concat groups), line_num = n\<rparr> = (rows, EndOfData)"
  using assms(2-)
proof (induction rows arbitrary: chunks groups n i)
  case Nil
  then show ?case by (simp add: read_all.simps read_record_def reader_start_def)
next
  case (Cons row rows)
  then obtain written chunks' lines groups' where
    split: "chunks = written # chunks'" "groups = lines # groups'" "render_record d (map FieldStr row) = Inr written"
    "record_lines d written lines"
    "list_all2 (\<lambda>row written. render_record d (map FieldStr row) = Inr written) rows chunks'"
    "list_all2 (record_lines d) chunks' groups'"
    by (auto simp: list_all2_Cons1)
  from split(3) obtain body where
    body: "append_fields [] d (length row) 0 (map FieldStr row) = Inr body" "written = body @ lineterminator d"
    by (auto simp: render_record_def bind_ok_Inr_iff)
  obtain st where "read_chars d (limits i) body reader_start = LineMore st" "row_ready row st"
    using row_read [OF assms(1) body(1), of "limits i"] Cons.prems(1) by auto
  with split(4) body(2) obtain n' where
    "read_lines d (limits i) (map LineText lines @ map LineText (concat groups')) n reader_start
      = (Row row, \<lparr>iter = map LineText (concat groups'), line_num = n'\<rparr>)"
    using read_record_lines [OF assms(1), of body lines "limits i" reader_start st row] by blast
  then show ?case
    using Cons.IH [OF _ split(5, 6)] Cons.prems(1) split(2) by (subst read_all.simps) (simp add: read_record_def)
qed

text \<open>
  What \<open>writerows\<close> writes for rows of strings is read back as exactly these rows,
  and then the end of the data, for every dialect that does not skip initial spaces, whose special characters are distinct and whose line
  terminator starts with a line break, and for every way of cutting each record into lines after line breaks
  of its own: quoted and escaped line breaks, delimiters, quotes and escape characters included, as long as
  no field exceeds the field size limit.
\<close>

theorem csv_round_trip:
  assumes "csv_sane d" "\<forall>row \<in> set rows. \<forall>f \<in> set row. \<forall>i k. int (length f) \<le> limits i k"
    "writerows write_chunk d (map (\<lambda>row. RowFields (map FieldStr row)) rows) [] = (Inr (), chunks)"
    "list_all2 (record_lines d) chunks groups"
  shows "read_all d limits 0 \<lparr>iter = map LineText (concat groups), line_num = 0\<rparr> = (rows, EndOfData)"
  using rows_read [OF assms(1, 2) _ assms(4)] writerows_chunks [OF assms(3)] by auto

lemma csv_round_trip_witness:
  "read_all dialect_default (\<lambda>_ _. 100) 0
     \<lparr>iter = map LineText [[CHR 0x22] @ ''a,b'' @ [CHR 0x22] @ '','' @ [CHR 0x22] @ ''c'' @ [CR], ''d'' @ [CHR 0x22, CR, LF], [CR, LF]],
      line_num = 0\<rparr>
   = ([[''a,b'', ''c'' @ [CR] @ ''d''], []], EndOfData)"
proof -
  let ?rows = "[[''a,b'', ''c'' @ [CR] @ ''d''], []]"
  let ?lines = "[[CHR 0x22] @ ''a,b'' @ [CHR 0x22] @ '','' @ [CHR 0x22] @ ''c'' @ [CR], ''d'' @ [CHR 0x22, CR, LF]]"
  let ?chunks = "[concat ?lines, [CR, LF]]"
  have sane: "csv_sane dialect_default" by code_simp
  have small: "\<forall>row \<in> set ?rows. \<forall>f \<in> set row. \<forall>i k. int (length f) \<le> (\<lambda>_ _. 100) (i :: nat) (k :: nat)" by simp
  have written: "writerows write_chunk dialect_default (map (\<lambda>row. RowFields (map FieldStr row)) ?rows) [] = (Inr (), ?chunks)"
    by code_simp
  have cut: "list_all2 (record_lines dialect_default) ?chunks [?lines, [[CR, LF]]]" by code_simp
  have "concat [?lines, [[CR, LF]]] = ?lines @ [[CR, LF]]" by simp
  with csv_round_trip [OF sane small written cut] show ?thesis by (simp only: append.simps)
qed

section \<open>What the writer accepts\<close>

text \<open>Whatever a field contains can be written: quotes are doubled, or there is an escape character.\<close>

definition can_quote :: "dialect_config \<Rightarrow> bool" where
  "can_quote d \<longleftrightarrow> escapechar d \<noteq> None \<or> quoting d \<noteq> QUOTE_NONE \<and> doublequote d"

lemma field_char_total: "can_quote d \<Longrightarrow> \<exists>p q. field_char d c = Inr (p, q)"
  by (auto simp: can_quote_def field_char_def Let_def split: option.split)

lemma field_body_total: "can_quote d \<Longrightarrow> \<exists>body q'. field_body d t q = Inr (body, q')"
proof (induction t arbitrary: q)
  case (Cons c t)
  obtain p q1 where "field_char d c = Inr (p, q1)" using field_char_total [OF Cons.prems] by blast
  moreover obtain body q' where "field_body d t (q \<or> q1) = Inr (body, q')" using Cons by blast
  ultimately show ?case by simp
qed simp

lemma append_field_total:
  assumes "can_quote d" "dialect_valid d"
  shows "(\<exists>out'. append_field out d (FieldStr t) n = Inr out')
    \<longleftrightarrow> \<not> (t = [] \<and> n = 1 \<and> (quoting d = QUOTE_NONE \<or> quoting d = QUOTE_MINIMAL))"
proof (cases "t = [] \<and> n = 1 \<and> \<not> initially_quoted d (FieldStr t)")
  case True
  then show ?thesis using string_quoted [OF assms(2), of t] by (auto simp: append_field_def field_text_def Let_def)
next
  case False
  define q0 where "q0 = initially_quoted d (FieldStr t)"
  obtain body q' where body: "field_body d t q0 = Inr (body, q')" using field_body_total [OF assms(1)] by blast
  have "quotechar d \<noteq> None" if q'
    using that assms(2) field_body_none [OF _ body] string_quoted [OF assms(2), of t] by (auto simp: dialect_valid_def q0_def)
  moreover have "(q0 \<or> t = [] \<and> n = 1) = q0" using False by (auto simp: q0_def)
  ultimately have "\<exists>out'. append_field out d (FieldStr t) n = Inr out'"
    using body False by (auto simp: append_field_def field_text_def Let_def q0_def split: option.split)
  with False show ?thesis using string_quoted [OF assms(2), of t] by auto
qed

lemma append_fields_total:
  assumes "can_quote d" "dialect_valid d" "n \<noteq> 1 \<or> (\<forall>f \<in> set row. f \<noteq> []) \<or> \<not> (quoting d = QUOTE_NONE \<or> quoting d = QUOTE_MINIMAL)"
  shows "\<exists>out'. append_fields out d n i (map FieldStr row) = Inr out'"
  using assms(3)
proof (induction row arbitrary: out i)
  case (Cons f row)
  define out0 where "out0 = (if i > 0 then out @ [delimiter d] else out)"
  obtain out1 where "append_field out0 d (FieldStr f) n = Inr out1"
    using append_field_total [OF assms(1, 2), of out0 f n] Cons.prems by auto
  moreover obtain out' where "append_fields out1 d n (Suc i) (map FieldStr row) = Inr out'" using Cons by fastforce
  ultimately show ?case by (auto simp: out0_def)
qed simp

text \<open>The only row of strings that cannot be written then: one empty field where nothing asks for quotes.\<close>

definition row_writable :: "dialect_config \<Rightarrow> string list \<Rightarrow> bool" where
  "row_writable d row \<longleftrightarrow> \<not> (row = [[]] \<and> (quoting d = QUOTE_NONE \<or> quoting d = QUOTE_MINIMAL))"

lemma render_record_total:
  assumes "can_quote d" "dialect_valid d"
  shows "(\<exists>written. render_record d (map FieldStr row) = Inr written) \<longleftrightarrow> row_writable d row"
proof (cases "row_writable d row")
  case True
  then have "length row \<noteq> 1 \<or> (\<forall>f \<in> set row. f \<noteq> []) \<or> \<not> (quoting d = QUOTE_NONE \<or> quoting d = QUOTE_MINIMAL)"
    by (auto simp: row_writable_def length_Suc_conv)
  from append_fields_total [OF assms this, of "[]" 0] True show ?thesis by (auto simp: render_record_def)
next
  case False
  then have "\<nexists>out. append_field [] d (FieldStr []) 1 = Inr out" "row = [[]]"
    using append_field_total [OF assms, of "[]" "[]" 1] by (auto simp: row_writable_def)
  with False show ?thesis by (auto simp: render_record_def bind_ok_Inr_iff)
qed

lemma writerows_total:
  assumes "can_quote d" "dialect_valid d" "\<forall>row \<in> set rows. row_writable d row"
  shows "\<exists>chunks. writerows write_chunk d (map (\<lambda>row. RowFields (map FieldStr row)) rows) chunks0 = (Inr (), chunks)"
  using assms(3)
proof (induction rows arbitrary: chunks0)
  case (Cons row rows)
  obtain written where "render_record d (map FieldStr row) = Inr written"
    using render_record_total [OF assms(1, 2)] Cons.prems by auto
  then show ?case using Cons by (simp add: writerow_def write_chunk_def)
qed simp

section \<open>Files\<close>

text \<open>The lines of a file that ends them at line feeds only.\<close>

fun split_lf :: "string \<Rightarrow> string list" where
  "split_lf [] = []"
| "split_lf (c # cs) =
     (if c = LF then [c] # split_lf cs else case split_lf cs of [] \<Rightarrow> [[c]] | l # ls \<Rightarrow> (c # l) # ls)"

lemma concat_split_lf [simp]: "concat (split_lf t) = t"
  by (induction t) (auto split: list.split)

lemma split_lf_Nil [simp]: "split_lf t = [] \<longleftrightarrow> t = []"
  by (cases t) (auto split: list.split)

lemma split_lf_append: "split_lf (t @ LF # u) = split_lf (t @ [LF]) @ split_lf u"
proof (induction t)
  case (Cons c t)
  have "split_lf (t @ [LF]) \<noteq> []" by simp
  then obtain l ls where "split_lf (t @ [LF]) = l # ls" by (cases "split_lf (t @ [LF])") auto
  with Cons show ?case by simp
qed simp

lemma split_lf_butlast: "\<forall>l \<in> set (butlast (split_lf t)). l \<noteq> [] \<and> is_break (last l)"
  by (induction t) (auto simp: is_break_def split: list.splits if_splits)

lemma split_lf_tail: "w \<noteq> [] \<Longrightarrow> length (last (split_lf w)) \<le> length (last (split_lf (t @ w)))"
  by (induction t) (auto split: list.split)

lemma split_lf_line: "LF \<notin> set v \<Longrightarrow> split_lf (v @ [LF]) = [v @ [LF]]"
  by (induction v) auto

lemma split_lf_record:
  assumes "lineterminator d = v @ [LF]" "LF \<notin> set v"
  shows "record_lines d (body @ lineterminator d) (split_lf (body @ lineterminator d))"
  using assms split_lf_tail [of "v @ [LF]" body] split_lf_line [OF assms(2)] split_lf_butlast [of "body @ lineterminator d"] by (simp add: record_lines_def)

lemma split_lf_chunks:
  assumes "lineterminator d = v @ [LF]"
    "list_all2 (\<lambda>row written. render_record d (map FieldStr row) = Inr written) rows chunks"
  shows "split_lf (concat chunks) = concat (map split_lf chunks)"
  using assms(2)
proof (induction rows arbitrary: chunks)
  case (Cons row rows)
  then obtain written chunks' where
    "chunks = written # chunks'" "render_record d (map FieldStr row) = Inr written"
    "split_lf (concat chunks') = concat (map split_lf chunks')"
    by (auto simp: list_all2_Cons1)
  moreover from this(2) obtain body where "written = (body @ v) @ [LF]"
    by (auto simp: render_record_def bind_ok_Inr_iff assms(1))
  ultimately show ?case using split_lf_append [of "body @ v" "concat chunks'"] by simp
qed simp

lemma split_lf_groups:
  assumes "lineterminator d = v @ [LF]" "LF \<notin> set v"
    "list_all2 (\<lambda>row written. render_record d (map FieldStr row) = Inr written) rows chunks"
  shows "list_all2 (record_lines d) chunks (map split_lf chunks)"
  using assms(3)
  by (induction rows arbitrary: chunks)
    (auto simp: list_all2_Cons1 render_record_def bind_ok_Inr_iff split_lf_record [OF assms(1, 2)])

text \<open>
  C15.  A file written with \<open>writerows\<close> and read with a reader gives the rows back.  The dialect is one
  that does not skip initial spaces, whose delimiter, quote and escape characters differ from each other and from
  carriage return and line feed, which can quote or escape whatever a field contains, and whose line terminator starts
  with a carriage return or a line feed and ends in its only line feed.  Under such a dialect every list of rows of
  strings, with no field above the field size limit, is written without error, unless a row is a single empty field that
  is not quoted, and the reader then returns exactly these rows from the lines of the file.
\<close>

theorem csv_file_round_trip:
  assumes "csv_sane d" "can_quote d" "lineterminator d = v @ [LF]" "LF \<notin> set v"
    "\<forall>row \<in> set rows. row_writable d row \<and> (\<forall>f \<in> set row. \<forall>i k. int (length f) \<le> limits i k)"
  shows "\<exists>chunks. writerows write_chunk d (map (\<lambda>row. RowFields (map FieldStr row)) rows) [] = (Inr (), chunks) \<and>
    read_all d limits 0 \<lparr>iter = map LineText (split_lf (concat chunks)), line_num = 0\<rparr> = (rows, EndOfData)"
proof -
  have "dialect_valid d" using assms(1) by (simp add: csv_sane_def)
  then obtain chunks where written: "writerows write_chunk d (map (\<lambda>row. RowFields (map FieldStr row)) rows) [] = (Inr (), chunks)"
    using writerows_total [OF assms(2), of rows "[]"] assms(5) by blast
  then have rendered: "list_all2 (\<lambda>row written. render_record d (map FieldStr row) = Inr written) rows chunks"
    using writerows_chunks by fastforce
  have "read_all d limits 0 \<lparr>iter = map LineText (split_lf (concat chunks)), line_num = 0\<rparr> = (rows, EndOfData)"
    using rows_read [OF assms(1) _ rendered split_lf_groups [OF assms(3, 4) rendered], of limits 0 0]
      split_lf_chunks [OF assms(3) rendered] assms(5) by simp
  with written show ?thesis by blast
qed

lemma csv_file_round_trip_witness:
  "\<exists>chunks. writerows write_chunk dialect_default
       (map (\<lambda>row. RowFields (map FieldStr row)) [[''say '' @ [CHR 0x22] @ ''hi'' @ [CHR 0x22], []], [''1'' @ [LF] @ ''2'']]) [] = (Inr (), chunks)
     \<and> read_all dialect_default (\<lambda>_ _. 100) 0 \<lparr>iter = map LineText (split_lf (concat chunks)), line_num = 0\<rparr>
       = ([[''say '' @ [CHR 0x22] @ ''hi'' @ [CHR 0x22], []], [''1'' @ [LF] @ ''2'']], EndOfData)"
proof (rule csv_file_round_trip)
  show "csv_sane dialect_default" by code_simp
  show "can_quote dialect_default" by code_simp
  show "lineterminator dialect_default = [CR] @ [LF]" by code_simp
  show "LF \<notin> set [CR]" by code_simp
  show "\<forall>row \<in> set [[''say '' @ [CHR 0x22] @ ''hi'' @ [CHR 0x22], []], [''1'' @ [LF] @ ''2'']].
      row_writable dialect_default row \<and> (\<forall>f \<in> set row. \<forall>i k. int (length f) \<le> (\<lambda>_ _. 100) (i :: nat) (k :: nat))"
    by (simp add: row_writable_def)
qed

text \<open>
  A single empty field is refused in the default mode, although the line after the check would quote it; the rest of a line after
  a bare carriage return is dropped; a field that ends in an escaped line break at the end of the data is
  lost; a value that is no string and contains the delimiter is written without quotes.
\<close>

theorem single_empty_field_refused:
  "render_record dialect_default [FieldStr []] = Inl ''single empty field record must be quoted''"
  by code_simp

theorem text_after_return_lost:
  "read_all dialect_default (\<lambda>_ _. 100) 0 \<lparr>iter = [LineText (''a'' @ [CR] @ ''b'' @ [LF])], line_num = 0\<rparr> = ([[''a'']], EndOfData)"
  by code_simp

theorem pending_field_lost:
  "read_all (dialect_default\<lparr>quoting := QUOTE_NONE, escapechar := Some CHR 0x5C\<rparr>) (\<lambda>_ _. 100) 0
     \<lparr>iter = [LineText (''a,b'' @ [CHR 0x5C, LF])], line_num = 0\<rparr> = ([], EndOfData)"
  by code_simp

theorem other_value_unquoted:
  "render_record (dialect_default\<lparr>quoting := QUOTE_STRINGS\<rparr>) [FieldOther (Some ''(1, 2)''), FieldStr ''x''] = Inr (''(1, 2),'' @ [CHR 0x22] @ ''x'' @ [CHR 0x22, CR, LF])"
  by code_simp

end
