(* ===== verification/Spec2Isabelle.thy ===== *)
theory Spec2Isabelle
  imports Fast_Control Tier_Race Tagged_Int Interner Gc_Lifecycle Gc_Roots Gc_Handshake Stack_Map Mro_C3 Stable_Sort Dict_Table
    Feedback_Cell Typed_Region Spill_Window Type_Infer Struct_Codec Critical_Section Type_Versions Set_Algebra Csv_Codec
begin

text \<open>
  A verification development for the runtime core of \<open>pon\<close>, a just-in-time and ahead-of-time compiler
  and runtime for Python written in Rust.

  \<^bold>\<open>The program.\<close>  Source text is lowered to a control-flow intermediate representation
  (\<^verbatim>\<open>pon-ir\<close>), analysed and turned into machine code (\<^verbatim>\<open>pon-codegen\<close>, driven by \<^verbatim>\<open>pon-jit\<close> and
  \<^verbatim>\<open>pon-aot\<close>), and run against a runtime of Python objects (\<^verbatim>\<open>pon-runtime\<close>) that live in a
  mark-and-sweep heap (\<^verbatim>\<open>pon-gc\<close>).  The parts meet at a few interfaces, and these are what the
  development is organized around: generated code stores the temporaries that are live across a call
  into a pool and registers safepoints, the stack walk reads these to find roots, and the collector
  keeps what the roots reach; object operations run inside critical sections and consult inline caches
  that are valid as long as a type's version tag stands; the table, sequence and hash routines carry
  the containers.

  \<^bold>\<open>Conventions.\<close>  A Rust struct is a record, an enum a datatype, a fixed-width integer a word or an
  integer with its range written out; a fallible operation returns a sum whose left side is the error
  (a panic included, where the code can panic); a loop with no structural bound is
  \<open>partial_function (option)\<close> or the shared combinator \<open>run_loop\<close>, and that it returns is part of what
  is proved of it.  Code outside the repository (the system allocator, trace callbacks and finalizers,
  user-level hash and equality, the iteration order of hash sets, machine registers, float conversions)
  is an argument of the definitions that use it, and what is relied on is a named hypothesis.  The
  machine has 64-bit pointers and C types of the LP64 model; byte order is a parameter where it matters.

  \<^bold>\<open>Shared vocabulary.\<close>
  \<^item> \<open>Pon_Prelude\<close>: the machine types, the vector, bit and search routines of the Rust library that the
    components call, the loop combinator with its termination locale, and generic lemmas.

  \<^bold>\<open>The collector\<close> (\<^verbatim>\<open>pon-gc/src/lib.rs\<close>, \<^verbatim>\<open>handshake.rs\<close>).
  \<^item> \<open>Gc_Bitmap\<close>: the span bitmaps as finite sets of slots; the interface is a locale that the word
    implementation interprets.
  \<^item> \<open>Gc_Heap\<close>, \<open>Gc_Invariant\<close>, \<open>Gc_Alloc\<close>: size classes, spans, large objects, type registration and
    allocation; the heap invariant and the object view; allocation adds exactly one fresh, aligned,
    zeroed object.
  \<^item> \<open>Gc_Mark\<close>, \<open>Gc_Collect\<close>, \<open>Gc_Sweep\<close>, \<open>Gc_Cycle\<close>: the mark loop, the finalization wave, the sweep and
    \<open>collect\<close>; marking ends and marks what is reachable, sweeping keeps the marked and the young.
  \<^item> \<open>Gc_Lifecycle\<close>: a collection is exact, nothing reachable is lost, a finalizer runs at most once, the
    invariant holds over every life of the heap, with black allocation during a concurrent mark and
    finalizers that allocate, register types and collect; the age gate leaves a young object with a
    dangling pointer.
  \<^item> \<open>Gc_Roots\<close>: explicit, precise and conservative roots, the write barrier, the mark-state byte.
  \<^item> \<open>Gc_Handshake\<close>: stop-the-world as a step relation over any number of threads, the load of the
    flag and the park on the condition variable being steps of their own; no lost wake-up.
  \<^item> \<open>Stack_Map\<close> (\<^verbatim>\<open>pon-runtime/src/stackmap.rs\<close>): the safepoint registry as a map from return addresses,
    the bounded frame walk and the mixed scan, composed with root marking.

  \<^bold>\<open>Objects\<close> (\<^verbatim>\<open>pon-runtime/src\<close>).
  \<^item> \<open>Tagged_Int\<close> (\<^verbatim>\<open>tag.rs\<close>), \<open>Interner\<close> (\<^verbatim>\<open>intern.rs\<close>, with the name snapshot of \<^verbatim>\<open>pon-aot/src/lib.rs\<close>
    and its replay in \<^verbatim>\<open>aot_entry.rs\<close>): round trips of immediates and of names.
  \<^item> \<open>Seq_Index\<close>, \<open>Seq_List\<close>, \<open>Stable_Sort\<close> (\<^verbatim>\<open>abi/seq.rs\<close>, \<^verbatim>\<open>types/slice_.rs\<close>, \<^verbatim>\<open>types/range_.rs\<close>,
    \<^verbatim>\<open>types/list.rs\<close>, \<^verbatim>\<open>native/builtins_batch.rs\<close>): slice and range arithmetic at 64 bits, the list cell
    block and its methods against Python lists (with the three kinds of commands on which they part), the
    merge sort.
  \<^item> \<open>Py_Hash\<close> (\<^verbatim>\<open>pyhash.rs\<close> and the hashes of ints and tuples), \<open>Dict_Table\<close> (\<^verbatim>\<open>types/dict.rs\<close>),
    \<open>Set_Table\<close> and \<open>Set_Algebra\<close> (\<^verbatim>\<open>types/set_.rs\<close>, \<^verbatim>\<open>types/frozenset.rs\<close>, set methods of \<^verbatim>\<open>abi/map.rs\<close>):
    open-addressed tables over insertion-ordered vectors.  The locales \<open>key_domain\<close> and
    \<open>element_domain\<close> say what keys and elements promise; structural Python values interpret them.
    Dictionaries and sets refine insertion-ordered maps and sets, set methods and comparisons compute set
    algebra, and a frozenset's hash depends on its content only.  The tables hold fewer than \<open>2 ^ 60\<close>
    entries, which keeps their capacity arithmetic inside 64 bits.
  \<^item> \<open>Mro_C3\<close> (\<^verbatim>\<open>mro.rs\<close>): C3 linearization is sound and complete.
  \<^item> \<open>Feedback_Cell\<close> (\<^verbatim>\<open>feedback.rs\<close>): operand profiles and inline caches, sequentially and at one atomic
    access per step; when no two claims share a version no torn record is read, and the version alone
    does not exclude it.
  \<^item> \<open>Type_Versions\<close> (\<^verbatim>\<open>sync.rs\<close>, \<^verbatim>\<open>types/type_.rs\<close>, \<^verbatim>\<open>descr.rs\<close>): subclass registries, version bumps, class
    dictionaries and lookup along the resolution order; composed with \<open>Feedback_Cell\<close>, a cache that
    passes its guard agrees with a fresh lookup as long as fewer than \<open>2 ^ 32\<close> bumps lie between, which
    is the width of the tag.
  \<^item> \<open>Critical_Section\<close> (\<^verbatim>\<open>sync.rs\<close>): per-object mutexes taken in address order, nested sections that
    suspend the enclosing ones; mutual exclusion of the innermost sections, freedom from deadlock for sections that do not repeat
    a suspended lock, and the self-deadlock when they do.
  \<^item> \<open>Struct_Format\<close>, \<open>Struct_Codec\<close> (\<^verbatim>\<open>native/struct_.rs\<close>): format parsing with native and standard
    layouts, packing and unpacking; the layout against the documented table of codes, round trip, buffers
    and iteration.
  \<^item> \<open>Csv_Dialect\<close>, \<open>Csv_Codec\<close> (\<^verbatim>\<open>native/csv_.rs\<close>): dialects and their registry, whose calls refine a map
    from names to valid dialects; the writer and the reader, a state machine over the characters of a
    line.  Rows of strings survive writing and reading, however the text is cut into lines at its breaks, and a
    record fails exactly when a field outgrows the size limit.  Characters are bytes here; the file is a parameter of the writer.

  \<^bold>\<open>Compiler\<close> (\<^verbatim>\<open>pon-ir/src\<close>, \<^verbatim>\<open>pon-codegen/src\<close>).
  \<^item> \<open>Pon_Ir\<close> (\<^verbatim>\<open>ir.rs\<close>, \<^verbatim>\<open>types.rs\<close>): functions, blocks, instructions, terminators and the type lattice, an
    instance of the library's lattice classes.
  \<^item> \<open>Ir_Operands\<close>, \<open>Typed_Region\<close> (\<^verbatim>\<open>region.rs\<close>): operand walkers and typed regions.  What an
    instruction reads is defined apart from the walkers, which miss two kinds of instructions.  The region
    found is single-entry, typed and of maximal size, and its interface is complete.
  \<^item> \<open>Ir_Liveness\<close>, \<open>Temp_Spill\<close>, \<open>Spill_Window\<close> (\<^verbatim>\<open>baseline.rs\<close>, \<^verbatim>\<open>baseline/spill.rs\<close>): liveness at on-stack
    replacement, handler stacks, the spill plan and the stores of its windows, each equal to its
    definition by paths for functions without the two kinds of instructions; in the code of a function
    definition with an annotation and a default, a live temporary is not rooted.
  \<^item> \<open>Type_Infer\<close> (\<^verbatim>\<open>infer.rs\<close>, \<^verbatim>\<open>annotations.rs\<close>): inference changes type annotations only and only
    refines them.
  \<^item> \<open>Fast_Path\<close>, \<open>Opt_Plan\<close>, \<open>Fast_Control\<close> (\<^verbatim>\<open>optimizing.rs\<close>, with the parameter and local routines of
    \<^verbatim>\<open>baseline.rs\<close>): tier-1 code.  Lowering is a function on its state that appends emitted instructions;
    \<open>exec\<close> and \<open>run_blocks\<close> run them, and \<open>clif_documented\<close> is what the documentation of the code
    generator promises of the instructions.  A block computes what Python computes on values that fit
    in 64 bits, and a whole function, loops included, returns the integer Python returns when a check of its
    control-flow edges passes.  The findings show why both conditions are there: truncating division, a
    guard that loses a store, a failed guard that repeats one, and a branch that skips a local.  Plans
    declare exactly the live values of a block without loops.
  \<^item> \<open>Tier_Up\<close>, \<open>Tier_Race\<close> (\<^verbatim>\<open>pon-jit/src/tierup.rs\<close>, probes of \<^verbatim>\<open>pon-runtime/src/abi.rs\<close>): the tier states
    of a function, the queue, pins, compilation and installation.  Over every life of the driver, one
    operation at a time, one request per queued function, and every function dispatches to the newest
    code of its tier.  Inside an installation, a stale entry can be handed out and a pin can be lost.
    \<open>Tier_Race\<close> takes the deoptimization notes of one function apart into their atomic accesses: with \<open>n\<close>
    threads there are at most \<open>8 + n\<close> promotions, and a note that is overtaken can leave a function in
    tier 1 on its tier-0 code.

  \<^bold>\<open>Not modelled.\<close>  The baseline lowering of instructions goes through a third-party code generator call
  by call, and lowering and annotation reading walk the tree of a third-party parser: neither is in the
  repository.  The native modules other than the ones above, the import system, the command line and the
  C interface are operating-system calls or pointer marshalling.  Of the object types, functions,
  exceptions, strings, floats, generators and frames are left out, as are iterators, views and printing
  of the containers that are modelled; descriptors and slot dispatch rest on all of them.  The Unicode
  tables are generated data.  The parts that could be modelled next in the same way are the
  name-resolution pass of lowering (\<^verbatim>\<open>pon-ir/src/lower/scope.rs\<close>), the matcher of regular expressions
  (\<^verbatim>\<open>native/sre/vm.rs\<close>) and the byte-string methods (\<^verbatim>\<open>types/bytes_.rs\<close>).
\<close>

end
